(* ===== verification/Prelude.thy ===== *)
theory Prelude
  imports Main "HOL-Library.Word" "HOL-Library.AList" "HOL-Library.Multiset"
begin

text \<open>
  Shared vocabulary of the development: the machine integer types of the Rust code, saturating
  arithmetic at 64 bits, big-endian byte strings, and the interfaces that several components
  implement (codecs, operation machines that keep an invariant, machines that simulate an
  abstract one).

  \<open>usize\<close> is 64 bits wide. Counters that the code keeps as \<open>u64\<close> or \<open>usize\<close> and that take part
  in arithmetic are natural numbers with saturation or wrap-around written out; identifiers that
  are only compared, and everything that travels on the wire, are words of the source's width.
\<close>

section \<open>Machine types\<close>

type_synonym u8 = "8 word"
type_synonym u16 = "16 word"
type_synonym u32 = "32 word"
type_synonym u64 = "64 word"

text \<open>An instant is a number of nanoseconds since an arbitrary origin; a duration likewise.\<close>

type_synonym instant = nat
type_synonym duration = nat

abbreviation u32_max :: nat where
  "u32_max \<equiv> 4294967295"

abbreviation u64_max :: nat where
  "u64_max \<equiv> 18446744073709551615"

definition sat_add :: "nat \<Rightarrow> nat \<Rightarrow> nat" where
  "sat_add a b = min (a + b) u64_max"

definition sat_mul :: "nat \<Rightarrow> nat \<Rightarrow> nat" where
  "sat_mul a b = min (a * b) u64_max"

text \<open>Rust's \<open>saturating_sub\<close> on unsigned integers is subtraction on natural numbers.\<close>

text \<open>\<open>x.wrapping_add(1).max(1)\<close> on \<open>u64\<close>, the sequence-number successor of the retained store.\<close>

definition wrap_succ_max1 :: "nat \<Rightarrow> nat" where
  "wrap_succ_max1 s = max ((s + 1) mod (u64_max + 1)) 1"

lemma sat_add_le [simp]: "sat_add a b \<le> u64_max"
  by (simp add: sat_add_def)

lemma sat_mul_le [simp]: "sat_mul a b \<le> u64_max"
  by (simp add: sat_mul_def)

lemma sat_add_exact: "a + b \<le> u64_max \<Longrightarrow> sat_add a b = a + b"
  by (simp add: sat_add_def)

lemma sat_add_mono: "a \<le> a' \<Longrightarrow> sat_add a b \<le> sat_add a' b"
  by (simp add: sat_add_def)

lemma sat_add_upper: "sat_add a b \<le> a + b"
  by (simp add: sat_add_def)

lemma wrap_succ_max1_exact: "s < u64_max \<Longrightarrow> wrap_succ_max1 s = s + 1"
  by (simp add: wrap_succ_max1_def)

lemma wrap_succ_max1_pos [simp]: "0 < wrap_succ_max1 s"
  by (simp add: wrap_succ_max1_def)

lemma wrap_succ_max1_le: "wrap_succ_max1 s \<le> u64_max"
proof -
  have "(s + 1) mod (u64_max + 1) < u64_max + 1" by (rule mod_less_divisor) simp
  then show ?thesis by (simp add: wrap_succ_max1_def)
qed

section \<open>Results\<close>

text \<open>
  A fallible function returns a sum whose left values are its errors; \<open>rbind\<close> is the \<open>?\<close> operator:
  the first error is returned at once.
\<close>

fun rbind :: "'e + 'a \<Rightarrow> ('a \<Rightarrow> 'e + 'b) \<Rightarrow> 'e + 'b" where
  "rbind (Inl e) f = Inl e"
| "rbind (Inr x) f = f x"

lemma rbind_Inr_iff: "rbind m f = Inr y \<longleftrightarrow> (\<exists>x. m = Inr x \<and> f x = Inr y)"
  by (cases m) auto

section \<open>Printing\<close>

text \<open>Rust's \<open>Display\<close> for unsigned integers and the format \<open>{:04x}\<close>, used inside \<open>format!\<close>.\<close>

definition digit_char :: "nat \<Rightarrow> char" where
  "digit_char d = char_of (48 + d)"

fun show_nat :: "nat \<Rightarrow> string" where
  "show_nat n = (if n < 10 then [digit_char n] else show_nat (n div 10) @ [digit_char (n mod 10)])"

declare show_nat.simps [simp del]

lemma digit_char_simps [simp]:
  "digit_char 0 = CHR ''0''" "digit_char (Suc 0) = CHR ''1''" "digit_char 2 = CHR ''2''"
  "digit_char 3 = CHR ''3''" "digit_char 4 = CHR ''4''" "digit_char 5 = CHR ''5''"
  "digit_char 6 = CHR ''6''" "digit_char 7 = CHR ''7''" "digit_char 8 = CHR ''8''"
  "digit_char 9 = CHR ''9''"
  by (simp_all add: digit_char_def char_of_def bit_0)

definition hex_char :: "nat \<Rightarrow> char" where
  "hex_char d = (if d < 10 then char_of (48 + d) else char_of (87 + d))"

definition show_hex4 :: "u16 \<Rightarrow> string" where
  "show_hex4 w = (let n = unat w in
     [hex_char (n div 4096), hex_char (n div 256 mod 16), hex_char (n div 16 mod 16), hex_char (n mod 16)])"

section \<open>Big-endian bytes\<close>

text \<open>
  \<open>be_bytes n w\<close> is \<open>w.to_be_bytes()\<close> for an \<open>n\<close>-byte integer, \<open>from_be bs\<close> what the cursor reads
  \<open>get_u16\<close>, \<open>get_u32\<close> and \<open>get_u64\<close> make of the bytes they consume.
\<close>

fun be_digits :: "nat \<Rightarrow> nat \<Rightarrow> nat list" where
  "be_digits 0 m = []"
| "be_digits (Suc n) m = be_digits n (m div 256) @ [m mod 256]"

definition be_bytes :: "nat \<Rightarrow> 'a::len word \<Rightarrow> u8 list" where
  "be_bytes n w = map word_of_nat (be_digits n (unat w))"

definition be_value :: "u8 list \<Rightarrow> nat" where
  "be_value bs = foldl (\<lambda>a b. a * 256 + unat b) 0 bs"

definition from_be :: "u8 list \<Rightarrow> 'a::len word" where
  "from_be bs = word_of_nat (be_value bs)"

lemma length_be_digits [simp]: "length (be_digits n m) = n"
  by (induction n arbitrary: m) auto

lemma be_digits_small: "d \<in> set (be_digits n m) \<Longrightarrow> d < 256"
  by (induction n arbitrary: m) auto

lemma length_be_bytes [simp]: "length (be_bytes n w) = n"
  by (simp add: be_bytes_def)

lemma be_value_snoc: "be_value (bs @ [b]) = be_value bs * 256 + unat b"
  by (simp add: be_value_def)

lemma unat_u8_of_nat: "d < 256 \<Longrightarrow> unat (word_of_nat d :: u8) = d"
  by (simp add: unat_of_nat take_bit_eq_mod)

lemma be_value_be_digits: "be_value (map word_of_nat (be_digits n m)) = m mod 256 ^ n"
proof (induction n arbitrary: m)
  case 0
  then show ?case by (simp add: be_value_def)
next
  case (Suc n)
  have "be_value (map word_of_nat (be_digits (Suc n) m)) = (m div 256) mod 256 ^ n * 256 + m mod 256"
    using Suc.IH by (simp add: be_value_snoc unat_u8_of_nat)
  also have "\<dots> = m mod (256 * 256 ^ n)"
    by (simp add: mod_mult2_eq)
  finally show ?case by simp
qed

lemma be_digits_be_value: "be_digits (length bs) (be_value bs) = map unat bs"
proof (induction bs rule: rev_induct)
  case Nil
  then show ?case by simp
next
  case (snoc b bs)
  have "unat b < 256" using unsigned_less [where 'a = nat, of b] by simp
  then have "(be_value bs * 256 + unat b) div 256 = be_value bs"
    and "(be_value bs * 256 + unat b) mod 256 = unat b" by simp_all
  with snoc show ?case by (simp add: be_value_snoc)
qed

lemma be_value_less: "be_value bs < 256 ^ length bs"
proof (induction bs rule: rev_induct)
  case Nil
  then show ?case by (simp add: be_value_def)
next
  case (snoc b bs)
  have "unat b < 256" using unsigned_less [where 'a = nat, of b] by simp
  with snoc show ?case by (simp add: be_value_snoc)
qed

lemma power_256: "(256::nat) ^ n = 2 ^ (8 * n)"
  by (simp add: power_mult)

lemma from_be_be_bytes:
  fixes w :: "'a::len word"
  assumes "LENGTH('a) = 8 * n"
  shows "from_be (be_bytes n w) = w"
proof -
  have "unat w < 256 ^ n" using unsigned_less [where 'a = nat, of w] assms by (simp add: power_256)
  then show ?thesis by (simp add: from_be_def be_bytes_def be_value_be_digits)
qed

lemma be_bytes_from_be:
  assumes "LENGTH('a::len) = 8 * n" and "length bs = n"
  shows "be_bytes n (from_be bs :: 'a word) = bs"
proof -
  have "be_value bs < 2 ^ LENGTH('a)"
    using be_value_less [of bs] assms by (simp add: power_256)
  then have "unat (from_be bs :: 'a word) = be_value bs"
    by (simp add: from_be_def unat_of_nat take_bit_nat_eq_self)
  then have "be_bytes n (from_be bs :: 'a word) = map word_of_nat (map unat bs)"
    using be_digits_be_value [of bs] assms by (simp add: be_bytes_def)
  then show ?thesis by (simp add: comp_def)
qed

named_theorems be_simps \<open>round trips of the integer widths the wire format uses\<close>

lemma be_u16 [be_simps]: "from_be (be_bytes 2 (w :: u16)) = w"
  by (rule from_be_be_bytes) simp

lemma be_u32 [be_simps]: "from_be (be_bytes 4 (w :: u32)) = w"
  by (rule from_be_be_bytes) simp

lemma be_u64 [be_simps]: "from_be (be_bytes 8 (w :: u64)) = w"
  by (rule from_be_be_bytes) simp

lemma be_u16_inv [be_simps]: "length bs = 2 \<Longrightarrow> be_bytes 2 (from_be bs :: u16) = bs"
  by (rule be_bytes_from_be) simp_all

lemma be_u32_inv [be_simps]: "length bs = 4 \<Longrightarrow> be_bytes 4 (from_be bs :: u32) = bs"
  by (rule be_bytes_from_be) simp_all

lemma be_u64_inv [be_simps]: "length bs = 8 \<Longrightarrow> be_bytes 8 (from_be bs :: u64) = bs"
  by (rule be_bytes_from_be) simp_all

section \<open>Lists updated by index\<close>

lemma length_filter_update:
  "i < length xs \<Longrightarrow>
     length (filter P (xs[i := v])) + (if P (xs ! i) then 1 else 0)
     = length (filter P xs) + (if P v then 1 else 0)"
proof (induction xs arbitrary: i)
  case Nil
  then show ?case by simp
next
  case (Cons x xs)
  show ?case
  proof (cases i)
    case 0
    then show ?thesis by simp
  next
    case (Suc j)
    with Cons.IH [of j] Cons.prems show ?thesis by simp
  qed
qed

lemma length_filter_less_ex:
  "length (filter P xs) < length xs \<Longrightarrow> \<exists>i < length xs. \<not> P (xs ! i)"
  by (metis filter_True in_set_conv_nth nat_neq_iff)

text \<open>Going round a window of \<open>n\<close> places from any start visits every place.\<close>

lemma rotate_covers:
  fixes i n start :: nat
  assumes "i < n"
  shows "\<exists>k < n. (start + k) mod n = i"
proof -
  define s where "s = start mod n"
  have "0 < n" using assms by simp
  then have s: "s < n" by (simp add: s_def)
  have "(s + (if s \<le> i then i - s else n + i - s)) mod n = i"
    using assms s by (auto simp: not_le)
  moreover have "(if s \<le> i then i - s else n + i - s) < n" using assms s by auto
  ultimately show ?thesis unfolding s_def by (metis mod_add_left_eq)
qed

section \<open>Searching\<close>

lemma find_append: "find P (xs @ ys) = (case find P xs of Some x \<Rightarrow> Some x | None \<Rightarrow> find P ys)"
  by (induction xs) auto

lemma find_SomeE:
  assumes "find P xs = Some x"
  obtains ys zs where "xs = ys @ x # zs" "\<forall>y \<in> set ys. \<not> P y" "P x"
proof -
  from assms have "\<exists>ys zs. xs = ys @ x # zs \<and> (\<forall>y \<in> set ys. \<not> P y) \<and> P x"
  proof (induction xs)
    case (Cons a xs)
    show ?case
    proof (cases "P a")
      case True
      with Cons.prems show ?thesis by (metis append_Nil empty_iff find.simps(2) list.set(1) option.inject)
    next
      case False
      with Cons obtain ys zs where "xs = ys @ x # zs" "\<forall>y \<in> set ys. \<not> P y" "P x" by auto
      then have "a # xs = (a # ys) @ x # zs" "\<forall>y \<in> set (a # ys). \<not> P y" using False by simp_all
      with \<open>P x\<close> show ?thesis by blast
    qed
  qed simp
  with that show thesis by blast
qed

section \<open>Hash maps as association lists\<close>

text \<open>
  A \<open>HashMap\<close> whose \<open>len()\<close> or iteration the code uses is an association list with distinct keys:
  \<open>map_of\<close> is \<open>get\<close>, \<open>AList.update\<close> is \<open>insert\<close>, \<open>AList.delete\<close> is \<open>remove\<close>. The order of the list
  stands for the unspecified iteration order.
\<close>

lemma alist_update_new: "map_of al k = None \<Longrightarrow> AList.update k v al = al @ [(k, v)]"
  by (induction al) auto

lemma alist_mem_iff: "distinct (map fst al) \<Longrightarrow> (k, v) \<in> set al \<longleftrightarrow> map_of al k = Some v"
  by (auto dest: map_of_SomeD)

lemma set_alist_delete: "set (AList.delete k al) = {(a, v) \<in> set al. a \<noteq> k}"
  by (auto simp: AList.delete_eq)

lemma keys_alist_delete: "fst ` set (AList.delete k al) = fst ` set al - {k}"
  by (auto simp: set_alist_delete image_iff)

lemma distinct_alist_delete: "distinct (map fst al) \<Longrightarrow> distinct (map fst (AList.delete k al))"
  by (rule distinct_delete)

lemma length_alist_delete:
  "distinct (map fst al) \<Longrightarrow> map_of al k \<noteq> None \<Longrightarrow> Suc (length (AList.delete k al)) = length al"
proof (induction al)
  case Nil
  then show ?case by simp
next
  case (Cons p al)
  show ?case
  proof (cases "fst p = k")
    case True
    with Cons.prems have "k \<notin> fst ` set al" by auto
    then have "AList.delete k al = al"
      by (simp add: AList.delete_eq filter_id_conv case_prod_beta) (metis image_eqI)
    with True show ?thesis by (cases p) simp
  next
    case False
    with Cons show ?thesis by (cases p) auto
  qed
qed

lemma map_of_filter_snd:
  "distinct (map fst al) \<Longrightarrow> map_of (filter (\<lambda>(_, v). P v) al) k = (case map_of al k of Some v \<Rightarrow> if P v then Some v else None | None \<Rightarrow> None)"
  by (induction al) (auto split: option.splits simp: map_of_eq_None_iff [THEN iffD2] image_iff)

lemma distinct_filter_keys: "distinct (map fst al) \<Longrightarrow> distinct (map fst (filter P al))"
  by (induction al) auto

text \<open>What \<open>get\<close> finds, as a multiset, so that insertion and removal account for their values.\<close>

definition found_at :: "('k \<times> 'v) list \<Rightarrow> 'k \<Rightarrow> 'v multiset" where
  "found_at al k = (case map_of al k of None \<Rightarrow> {#} | Some v \<Rightarrow> {#v#})"

lemma found_at_Cons: "found_at ((k', v) # al) k = (if k' = k then {#v#} else found_at al k)"
  by (simp add: found_at_def)

lemma found_at_none: "k \<notin> fst ` set al \<Longrightarrow> found_at al k = {#}"
  by (simp add: found_at_def map_of_eq_None_iff [THEN iffD2])

lemma alist_update_values:
  "distinct (map fst al) \<Longrightarrow> mset (map snd (AList.update k v al)) + found_at al k = add_mset v (mset (map snd al))"
proof (induction al)
  case (Cons p al)
  then show ?case by (cases p) (auto simp: found_at_Cons)
qed (simp add: found_at_def)

lemma alist_delete_values:
  "distinct (map fst al) \<Longrightarrow> mset (map snd (AList.delete k al)) + found_at al k = mset (map snd al)"
proof (induction al)
  case (Cons p al)
  have "AList.delete k al = al" if "k \<notin> fst ` set al"
    using that by (induction al) (auto simp: AList.delete_eq)
  with Cons show ?case by (cases p) (auto simp: found_at_Cons found_at_none)
qed (simp add: found_at_def)

section \<open>Interfaces\<close>

text \<open>A codec: what is encoded decodes to itself, for the values the encoder may be given.\<close>

locale codec =
  fixes enc :: "'a \<Rightarrow> u8 list"
    and dec :: "u8 list \<Rightarrow> 'e + 'a"
    and ok :: "'a \<Rightarrow> bool"
  assumes dec_enc: "ok x \<Longrightarrow> dec (enc x) = Inr x"
begin

lemma enc_inject: "ok x \<Longrightarrow> ok y \<Longrightarrow> enc x = enc y \<longleftrightarrow> x = y"
  using dec_enc by (metis sum.inject(2))

end

text \<open>A codec whose decoder accepts nothing but encodings.\<close>

locale exact_codec = codec +
  assumes enc_dec: "dec bs = Inr x \<Longrightarrow> ok x \<and> enc x = bs"
begin

lemma dec_iff: "dec bs = Inr x \<longleftrightarrow> ok x \<and> enc x = bs"
  using dec_enc enc_dec by blast

lemma dec_inject: "dec bs = Inr x \<Longrightarrow> dec cs = Inr x \<Longrightarrow> bs = cs"
  by (auto simp: dec_iff)

end

text \<open>
  An operation machine: a component's state, the operations the rest of the program calls on it
  (as data, each with the environment inputs it reads), and an invariant every operation keeps.
\<close>

locale op_machine =
  fixes start :: "'s \<Rightarrow> bool"
    and step :: "'s \<Rightarrow> 'op \<Rightarrow> 's"
    and invar :: "'s \<Rightarrow> bool"
  assumes invar_start: "start s \<Longrightarrow> invar s"
    and invar_step: "invar s \<Longrightarrow> invar (step s opn)"
begin

lemma invar_run: "invar s \<Longrightarrow> invar (foldl step s ops)"
  by (induction ops arbitrary: s) (auto intro: invar_step)

lemma invar_reachable: "start s \<Longrightarrow> invar (foldl step s ops)"
  by (rule invar_run) (rule invar_start)

end

text \<open>What a run of operations gives out, in order, for an output read off each operation.\<close>

fun outputs_over :: "('s \<Rightarrow> 'op \<Rightarrow> 's) \<Rightarrow> ('s \<Rightarrow> 'op \<Rightarrow> 'b list) \<Rightarrow> 's \<Rightarrow> 'op list \<Rightarrow> 'b list" where
  "outputs_over step f s [] = []"
| "outputs_over step f s (x # xs) = f s x @ outputs_over step f (step s x) xs"

text \<open>What a run of operations adds up to, for a quantity read off each operation.\<close>

fun total_over :: "('s \<Rightarrow> 'op \<Rightarrow> 's) \<Rightarrow> ('s \<Rightarrow> 'op \<Rightarrow> 'm multiset) \<Rightarrow> 's \<Rightarrow> 'op list \<Rightarrow> 'm multiset" where
  "total_over step f s [] = {#}"
| "total_over step f s (x # xs) = f s x + total_over step f (step s x) xs"

text \<open>
  A machine whose state carries a quantity that each operation changes by what it returns: the
  quantity held before, plus what the operation brings in, is what is held after plus what it
  gives out.
\<close>

locale conserving_machine = op_machine start step invar
  for start :: "'s \<Rightarrow> bool" and step :: "'s \<Rightarrow> 'op \<Rightarrow> 's" and invar :: "'s \<Rightarrow> bool" +
  fixes held :: "'s \<Rightarrow> 'm multiset"
    and taken :: "'s \<Rightarrow> 'op \<Rightarrow> 'm multiset"
    and given :: "'s \<Rightarrow> 'op \<Rightarrow> 'm multiset"
  assumes conserve: "invar s \<Longrightarrow> held (step s opn) + given s opn = held s + taken s opn"
begin

lemma conserve_run:
  "invar s \<Longrightarrow> held (foldl step s ops) + total_over step given s ops = held s + total_over step taken s ops"
proof (induction ops arbitrary: s)
  case Nil
  then show ?case by simp
next
  case (Cons x xs)
  have "held (foldl step (step s x) xs) + total_over step given (step s x) xs
      = held (step s x) + total_over step taken (step s x) xs"
    using Cons by (blast intro: invar_step)
  moreover have "held (step s x) + given s x = held s + taken s x"
    using Cons.prems by (rule conserve)
  ultimately show ?case by (simp add: ac_simps)
qed

end

end
