(* ===== verification/Ids.thy ===== *)
theory Ids
  imports Prelude
begin

text \<open>
  The shared identifiers and the single error type of the workspace
  (\<^verbatim>\<open>src/crates/ids/src/lib.rs\<close>): message-type ranges and their priority classes, the reserved
  control message types, the numbered error and log identifiers, and \<open>AureliaError\<close> with its
  message truncated on a UTF-8 character boundary. Rust strings are byte strings; \<open>utf8_valid\<close>
  is the well-formedness that \<^verbatim>\<open>String\<close> guarantees and \<^verbatim>\<open>std::str::from_utf8\<close> checks.
\<close>

type_synonym taberna_id = u64
type_synonym message_type = u32
type_synonym peer_message_id = u32

section \<open>Message types and priority classes\<close>

definition A3_MESSAGE_TYPE_BASE :: message_type where
  "A3_MESSAGE_TYPE_BASE = 0x01000000"

definition A1_MESSAGE_TYPE_MAX :: message_type where
  "A1_MESSAGE_TYPE_MAX = 0x0000FFFF"

definition A2_MESSAGE_TYPE_BASE :: message_type where
  "A2_MESSAGE_TYPE_BASE = A1_MESSAGE_TYPE_MAX + 1"

definition A2_MESSAGE_TYPE_MAX :: message_type where
  "A2_MESSAGE_TYPE_MAX = A3_MESSAGE_TYPE_BASE - 1"

definition A3_MESSAGE_TYPE_MAX_OFFSET :: message_type where
  "A3_MESSAGE_TYPE_MAX_OFFSET = 0xFFFFFFFF - A3_MESSAGE_TYPE_BASE"

lemmas message_type_defs = A3_MESSAGE_TYPE_BASE_def A1_MESSAGE_TYPE_MAX_def
  A2_MESSAGE_TYPE_BASE_def A2_MESSAGE_TYPE_MAX_def A3_MESSAGE_TYPE_MAX_OFFSET_def

datatype message_priority_class = A1 | A2 | A3

definition classify_message_priority :: "message_type \<Rightarrow> message_priority_class" where
  "classify_message_priority msg_type =
     (if msg_type \<le> A1_MESSAGE_TYPE_MAX then A1
      else if msg_type \<le> A2_MESSAGE_TYPE_MAX then A2
      else A3)"

text \<open>\<open>checked_add\<close>: the sum, or nothing when it does not fit.\<close>

definition try_a3_message_type :: "message_type \<Rightarrow> message_type option" where
  "try_a3_message_type offset =
     (if unat A3_MESSAGE_TYPE_BASE + unat offset \<le> u32_max
      then Some (A3_MESSAGE_TYPE_BASE + offset) else None)"

text \<open>The panic of \<open>a3_message_type\<close> is the left value.\<close>

definition a3_message_type :: "message_type \<Rightarrow> string + message_type" where
  "a3_message_type offset =
     (case try_a3_message_type offset of
        Some msg_type \<Rightarrow> Inr msg_type
      | None \<Rightarrow> Inl ''A3 message type offset exceeds the A3 range'')"

definition MSG_HELLO :: message_type where "MSG_HELLO = 1"
definition MSG_HELLO_RESPONSE :: message_type where "MSG_HELLO_RESPONSE = 2"
definition MSG_KEEPALIVE :: message_type where "MSG_KEEPALIVE = 3"
definition MSG_ACK :: message_type where "MSG_ACK = 4"
definition MSG_CLOSE :: message_type where "MSG_CLOSE = 5"
definition MSG_ERROR :: message_type where "MSG_ERROR = 6"
definition MSG_RESERVED_7 :: message_type where "MSG_RESERVED_7 = 7"
definition MSG_BLOB_TRANSFER_CHUNK :: message_type where "MSG_BLOB_TRANSFER_CHUNK = 8"
definition MSG_BLOB_TRANSFER_COMPLETE :: message_type where "MSG_BLOB_TRANSFER_COMPLETE = 9"

lemmas msg_defs = MSG_HELLO_def MSG_HELLO_RESPONSE_def MSG_KEEPALIVE_def MSG_ACK_def MSG_CLOSE_def
  MSG_ERROR_def MSG_RESERVED_7_def MSG_BLOB_TRANSFER_CHUNK_def MSG_BLOB_TRANSFER_COMPLETE_def

lemma classify_A3_iff:
  "classify_message_priority t = A3 \<longleftrightarrow> A3_MESSAGE_TYPE_BASE \<le> t"
  by (auto simp: classify_message_priority_def message_type_defs word_le_nat_alt)

lemma classify_A1_iff:
  "classify_message_priority t = A1 \<longleftrightarrow> t \<le> A1_MESSAGE_TYPE_MAX"
  by (simp add: classify_message_priority_def)

lemma classify_A2_iff:
  "classify_message_priority t = A2 \<longleftrightarrow> A2_MESSAGE_TYPE_BASE \<le> t \<and> t \<le> A2_MESSAGE_TYPE_MAX"
  by (auto simp: classify_message_priority_def message_type_defs word_le_nat_alt)

lemma try_a3_Some_iff:
  "try_a3_message_type off = Some t \<longleftrightarrow>
     off \<le> A3_MESSAGE_TYPE_MAX_OFFSET \<and> t = A3_MESSAGE_TYPE_BASE + off"
  by (auto simp: try_a3_message_type_def message_type_defs word_le_nat_alt)

lemma a3_base_le:
  assumes "off \<le> A3_MESSAGE_TYPE_MAX_OFFSET"
  shows "A3_MESSAGE_TYPE_BASE \<le> A3_MESSAGE_TYPE_BASE + off"
proof -
  have "unat off \<le> 4278190079"
    using assms by (simp add: message_type_defs word_le_nat_alt)
  then have "unat (A3_MESSAGE_TYPE_BASE + off) = 16777216 + unat off"
    by (simp add: message_type_defs unat_word_ariths)
  then show ?thesis by (simp add: word_le_nat_alt message_type_defs)
qed

section \<open>Error and log identifiers\<close>

datatype log_id =
    HandshakeTotalLimit | HandshakePerPeerLimit | CallisPerPeerLimit
  | OutboundQueueOverrun | DuplicateOutboundAck | DuplicateOutboundError

fun log_id_as_u32 :: "log_id \<Rightarrow> u32" where
  "log_id_as_u32 HandshakeTotalLimit = 1001"
| "log_id_as_u32 HandshakePerPeerLimit = 1002"
| "log_id_as_u32 CallisPerPeerLimit = 1003"
| "log_id_as_u32 OutboundQueueOverrun = 1004"
| "log_id_as_u32 DuplicateOutboundAck = 1005"
| "log_id_as_u32 DuplicateOutboundError = 1006"

datatype error_id =
    UnknownTaberna | LocalQueueFull | PeerUnavailable | RemoteTabernaRejected | ConnectionLost
  | PeerRestarted | ProtocolViolation | UnsupportedVersion | EncodeFailure | DecodeFailure
  | TabernaBusy | SendTimeout | BlobCallisWithoutPrimary | BlobAckWindowExceeded
  | BlobStreamNotFound | BlobStreamOutOfOrder | BlobStreamIdleTimeout | BlobStreamMissingChunk
  | BlobBufferFull | AddressMismatch | TabernaAlreadyRegistered | InvalidConfig | DomusClosed
  | ReceiveTimeout | SnapshotNotAvailable | TabernaShutdown

text \<open>The list the macro \<open>define_error_ids!\<close> is given: each variant with its number.\<close>

definition error_table :: "(error_id \<times> u32) list" where
  "error_table =
     [(UnknownTaberna, 1), (LocalQueueFull, 2), (PeerUnavailable, 3), (RemoteTabernaRejected, 4),
      (ConnectionLost, 5), (PeerRestarted, 6), (ProtocolViolation, 7), (UnsupportedVersion, 8),
      (EncodeFailure, 9), (DecodeFailure, 10), (TabernaBusy, 11), (SendTimeout, 12),
      (BlobCallisWithoutPrimary, 13), (BlobAckWindowExceeded, 14), (BlobStreamNotFound, 15),
      (BlobStreamOutOfOrder, 16), (BlobStreamIdleTimeout, 17), (BlobStreamMissingChunk, 18),
      (BlobBufferFull, 19), (AddressMismatch, 20), (TabernaAlreadyRegistered, 21),
      (InvalidConfig, 22), (DomusClosed, 23), (ReceiveTimeout, 24), (SnapshotNotAvailable, 25),
      (TabernaShutdown, 26)]"

definition error_as_u32 :: "error_id \<Rightarrow> u32" where
  "error_as_u32 e = the (map_of error_table e)"

definition error_from_u32 :: "u32 \<Rightarrow> error_id option" where
  "error_from_u32 value = map_of (map prod.swap error_table) value"

lemma error_from_as: "error_from_u32 (error_as_u32 e) = Some e"
  by (cases e) (simp_all add: error_from_u32_def error_as_u32_def error_table_def)

lemma error_as_from: "error_from_u32 n = Some e \<Longrightarrow> error_as_u32 e = n"
  by (auto simp: error_from_u32_def error_as_u32_def error_table_def split: if_splits)

section \<open>UTF-8 and bounded messages\<close>

definition utf8_cont :: "nat \<Rightarrow> bool" where
  "utf8_cont b \<longleftrightarrow> 128 \<le> b \<and> b \<le> 191"

text \<open>Well-formed byte sequences, RFC 3629 (table of \<open>std::str::from_utf8\<close>).\<close>

fun utf8_bytes_valid :: "nat list \<Rightarrow> bool" where
  "utf8_bytes_valid [] = True"
| "utf8_bytes_valid (a # r) =
     (if a < 128 then utf8_bytes_valid r
      else if 194 \<le> a \<and> a \<le> 223 then
        (case r of b # r1 \<Rightarrow> utf8_cont b \<and> utf8_bytes_valid r1 | _ \<Rightarrow> False)
      else if 224 \<le> a \<and> a \<le> 239 then
        (case r of b # c # r1 \<Rightarrow>
           utf8_cont b \<and> utf8_cont c \<and> (a = 224 \<longrightarrow> 160 \<le> b) \<and> (a = 237 \<longrightarrow> b \<le> 159)
           \<and> utf8_bytes_valid r1
         | _ \<Rightarrow> False)
      else if 240 \<le> a \<and> a \<le> 244 then
        (case r of b # c # d # r1 \<Rightarrow>
           utf8_cont b \<and> utf8_cont c \<and> utf8_cont d \<and> (a = 240 \<longrightarrow> 144 \<le> b) \<and> (a = 244 \<longrightarrow> b \<le> 143)
           \<and> utf8_bytes_valid r1
         | _ \<Rightarrow> False)
      else False)"

definition utf8_valid :: "string \<Rightarrow> bool" where
  "utf8_valid s = utf8_bytes_valid (map of_char s)"

definition is_char_boundary :: "string \<Rightarrow> nat \<Rightarrow> bool" where
  "is_char_boundary s i =
     (if i = 0 then True
      else if i < length s then \<not> utf8_cont (of_char (s ! i))
      else i = length s)"

definition ERROR_MESSAGE_MAX_LEN :: nat where
  "ERROR_MESSAGE_MAX_LEN = 1024"

text \<open>The loop \<open>while idx > 0 && !message.is_char_boundary(idx) { idx -= 1 }\<close>.\<close>

fun floor_char_boundary :: "string \<Rightarrow> nat \<Rightarrow> nat" where
  "floor_char_boundary s 0 = 0"
| "floor_char_boundary s (Suc i) =
     (if is_char_boundary s (Suc i) then Suc i else floor_char_boundary s i)"

definition truncate_message :: "string \<Rightarrow> string" where
  "truncate_message m =
     (if length m > ERROR_MESSAGE_MAX_LEN
      then take (floor_char_boundary m ERROR_MESSAGE_MAX_LEN) m else m)"

record aurelia_error =
  err_kind :: error_id
  err_message :: "string option"

definition err_new :: "error_id \<Rightarrow> aurelia_error" where
  "err_new k = \<lparr>err_kind = k, err_message = None\<rparr>"

definition with_message :: "error_id \<Rightarrow> string \<Rightarrow> aurelia_error" where
  "with_message k m = \<lparr>err_kind = k, err_message = Some (truncate_message m)\<rparr>"

type_synonym 'a result = "aurelia_error + 'a"

text \<open>The derived \<open>Debug\<close> of an error identifier is the name of its variant.\<close>

fun error_debug :: "error_id \<Rightarrow> string" where
  "error_debug UnknownTaberna = ''UnknownTaberna''"
| "error_debug LocalQueueFull = ''LocalQueueFull''"
| "error_debug PeerUnavailable = ''PeerUnavailable''"
| "error_debug RemoteTabernaRejected = ''RemoteTabernaRejected''"
| "error_debug ConnectionLost = ''ConnectionLost''"
| "error_debug PeerRestarted = ''PeerRestarted''"
| "error_debug ProtocolViolation = ''ProtocolViolation''"
| "error_debug UnsupportedVersion = ''UnsupportedVersion''"
| "error_debug EncodeFailure = ''EncodeFailure''"
| "error_debug DecodeFailure = ''DecodeFailure''"
| "error_debug TabernaBusy = ''TabernaBusy''"
| "error_debug SendTimeout = ''SendTimeout''"
| "error_debug BlobCallisWithoutPrimary = ''BlobCallisWithoutPrimary''"
| "error_debug BlobAckWindowExceeded = ''BlobAckWindowExceeded''"
| "error_debug BlobStreamNotFound = ''BlobStreamNotFound''"
| "error_debug BlobStreamOutOfOrder = ''BlobStreamOutOfOrder''"
| "error_debug BlobStreamIdleTimeout = ''BlobStreamIdleTimeout''"
| "error_debug BlobStreamMissingChunk = ''BlobStreamMissingChunk''"
| "error_debug BlobBufferFull = ''BlobBufferFull''"
| "error_debug AddressMismatch = ''AddressMismatch''"
| "error_debug TabernaAlreadyRegistered = ''TabernaAlreadyRegistered''"
| "error_debug InvalidConfig = ''InvalidConfig''"
| "error_debug DomusClosed = ''DomusClosed''"
| "error_debug ReceiveTimeout = ''ReceiveTimeout''"
| "error_debug SnapshotNotAvailable = ''SnapshotNotAvailable''"
| "error_debug TabernaShutdown = ''TabernaShutdown''"

text \<open>\<open>Display\<close> of an error.\<close>

definition error_to_string :: "aurelia_error \<Rightarrow> string" where
  "error_to_string e =
     (case err_message e of
        Some message \<Rightarrow> error_debug (err_kind e) @ '': '' @ message
      | None \<Rightarrow> error_debug (err_kind e))"

lemma err_new_sel [simp]: "err_kind (err_new k) = k" "err_message (err_new k) = None"
  by (simp_all add: err_new_def)

lemma with_message_kind [simp]: "err_kind (with_message k m) = k"
  by (simp add: with_message_def)

lemma err_new_inject [simp]: "err_new k = err_new k' \<longleftrightarrow> k = k'"
  by (simp add: err_new_def)

lemma utf8_take_boundary:
  assumes "utf8_bytes_valid bs" and "i \<le> length bs"
    and "i = 0 \<or> i = length bs \<or> \<not> utf8_cont (bs ! i)"
  shows "utf8_bytes_valid (take i bs)"
  using assms
proof (induction bs arbitrary: i rule: utf8_bytes_valid.induct)
  case 1
  then show ?case by simp
next
  case Cs: (2 a r)
  consider (zero) "i = 0" | (one) "a < 128" "0 < i"
    | (two) b r1 where "194 \<le> a" "a \<le> 223" "r = b # r1" "0 < i"
    | (three) b c r1 where "224 \<le> a" "a \<le> 239" "r = b # c # r1" "0 < i"
    | (four) b c d r1 where "240 \<le> a" "a \<le> 244" "r = b # c # d # r1" "0 < i"
    using Cs.prems(1) by (fastforce split: if_splits list.splits)
  then show ?case
  proof cases
    case zero
    then show ?thesis by simp
  next
    case one
    with Cs show ?thesis by (cases i) auto
  next
    case two
    with Cs.prems(1) have v: "utf8_cont b" "utf8_bytes_valid r1" by simp_all
    with two Cs.prems(2,3) have "i \<noteq> 1" by auto
    with two obtain j where j: "i = Suc (Suc j)" by (cases i; cases "i - 1") auto
    have "utf8_bytes_valid (take j r1)"
      using Cs.IH(2) [of b r1 j] two v j Cs.prems(2,3) by simp
    with two v j show ?thesis by simp
  next
    case three
    with Cs.prems(1) have v: "utf8_cont b" "utf8_cont c" "utf8_bytes_valid r1"
      and lim: "(a = 224 \<longrightarrow> 160 \<le> b) \<and> (a = 237 \<longrightarrow> b \<le> 159)" by simp_all
    with three Cs.prems(2,3) have "i \<noteq> 1" "i \<noteq> 2" by auto
    with three obtain j where j: "i = Suc (Suc (Suc j))"
      by (cases i; cases "i - 1"; cases "i - 2") auto
    have "utf8_bytes_valid (take j r1)"
      using Cs.IH(3) [of b "c # r1" c r1 j] three v j Cs.prems(2,3) by simp
    with three v lim j show ?thesis by simp
  next
    case four
    with Cs.prems(1) have v: "utf8_cont b" "utf8_cont c" "utf8_cont d" "utf8_bytes_valid r1"
      and lim: "(a = 240 \<longrightarrow> 144 \<le> b) \<and> (a = 244 \<longrightarrow> b \<le> 143)" by simp_all
    with four Cs.prems(2,3) have "i \<noteq> 1" "i \<noteq> 2" "i \<noteq> 3" by auto
    with four obtain j where j: "i = Suc (Suc (Suc (Suc j)))"
      by (cases i; cases "i - 1"; cases "i - 2"; cases "i - 3") auto
    have "utf8_bytes_valid (take j r1)"
      using Cs.IH(4) [of b "c # d # r1" c "d # r1" d r1 j] four v j Cs.prems(2,3) by simp
    with four v lim j show ?thesis by simp
  qed
qed

lemma floor_char_boundary_le: "floor_char_boundary s i \<le> i"
  by (induction i) auto

lemma floor_char_boundary_ok: "is_char_boundary s (floor_char_boundary s i)"
  by (induction i) (auto simp: is_char_boundary_def)

lemma truncate_message_utf8:
  assumes "utf8_valid m"
  shows "utf8_valid (truncate_message m)"
proof (cases "length m > ERROR_MESSAGE_MAX_LEN")
  case False
  with assms show ?thesis by (simp add: truncate_message_def)
next
  case True
  let ?i = "floor_char_boundary m ERROR_MESSAGE_MAX_LEN"
  have le: "?i \<le> length m"
    using True floor_char_boundary_le [of m ERROR_MESSAGE_MAX_LEN] by linarith
  have "is_char_boundary m ?i" by (rule floor_char_boundary_ok)
  then have "?i = 0 \<or> ?i = length (map of_char m :: nat list)
      \<or> \<not> utf8_cont ((map of_char m :: nat list) ! ?i)"
    using le by (auto simp: is_char_boundary_def split: if_splits)
  with assms le have "utf8_bytes_valid (take ?i (map of_char m))"
    unfolding utf8_valid_def by (intro utf8_take_boundary) auto
  with True show ?thesis by (simp add: truncate_message_def utf8_valid_def take_map)
qed

lemma truncate_message_length: "length (truncate_message m) \<le> ERROR_MESSAGE_MAX_LEN"
  using floor_char_boundary_le [of m ERROR_MESSAGE_MAX_LEN]
  by (simp add: truncate_message_def)

lemma truncate_message_id: "length m \<le> ERROR_MESSAGE_MAX_LEN \<Longrightarrow> truncate_message m = m"
  by (simp add: truncate_message_def)

end
