(* ===== verification/Inbound_Ring.thy ===== *)
theory Inbound_Ring
  imports Ids
begin

text \<open>
  The receiving side of a blob stream (\<^verbatim>\<open>src/crates/peering/src/ring_buffer/inbound.rs\<close>): chunks
  arrive in any order within the negotiated window and leave in chunk order. The hash map of held
  chunks is an association list with distinct keys, so its length is the map's \<open>len()\<close>. Chunk
  identifiers are \<open>u64\<close> values with the code's saturation.

  The loop that advances \<open>next_expected\<close> would not end on chunk \<open>u64::MAX\<close>; it is a partial
  function whose \<open>None\<close> is non-termination, and \<open>insert_chunk\<close> inherits that result type. Under the
  invariant it always returns, because the window check never admits that chunk.
\<close>

section \<open>State and operations\<close>

datatype inbound_insert_outcome =
    Duplicate
  | Stored (stored_complete: bool) (stored_wait_for_space: bool)

record inbound_state =
  in_chunk_size :: nat
  in_window_size :: nat
  in_next_expected :: nat
  in_next_deliver :: nat
  in_last_chunk_id :: "nat option"
  in_received :: "(nat \<times> u8 list) list"

definition inbound_new :: "nat \<Rightarrow> nat \<Rightarrow> inbound_state result" where
  "inbound_new chunk_size window_size =
     (if chunk_size = 0 \<or> window_size = 0 then Inl (err_new ProtocolViolation)
      else Inr \<lparr>in_chunk_size = chunk_size, in_window_size = window_size, in_next_expected = 0,
                in_next_deliver = 0, in_last_chunk_id = None, in_received = []\<rparr>)"

abbreviation in_keys :: "inbound_state \<Rightarrow> nat set" where
  "in_keys st \<equiv> fst ` set (in_received st)"

definition missing_chunk_error :: "nat \<Rightarrow> nat \<Rightarrow> aurelia_error" where
  "missing_chunk_error expected chunk_size =
     with_message BlobStreamMissingChunk
       (''last_delivered_chunk_id='' @ (if expected = 0 then ''none'' else show_nat (expected - 1))
        @ '' delivered_bytes='' @ show_nat (sat_mul expected chunk_size))"

lemma missing_chunk_error_kind [simp]:
  "err_kind (missing_chunk_error expected chunk_size) = BlobStreamMissingChunk"
  by (simp add: missing_chunk_error_def)

lemma gap_iff: "list_ex (\<lambda>(k, _). (m::nat) < k) xs \<longleftrightarrow> (\<exists>x \<in> set xs. m < fst x)"
  by (simp add: list_ex_iff case_prod_beta)

text \<open>\<open>while received.contains_key(&next_expected) { next_expected = next_expected.saturating_add(1) }\<close>\<close>

partial_function (option) advance_expected :: "nat list \<Rightarrow> nat \<Rightarrow> nat option" where
  "advance_expected keys n =
     (if n \<in> set keys then advance_expected keys (sat_add n 1) else Some n)"

text \<open>The end of \<open>insert_chunk\<close>, from the full-window check to the returned outcome.\<close>

definition finish_insert ::
  "inbound_state \<Rightarrow> nat \<Rightarrow> bool \<Rightarrow> inbound_insert_outcome result \<times> inbound_state" where
  "finish_insert st chunk_id is_last =
     (if length (in_received st) \<ge> in_window_size st
         \<and> map_of (in_received st) (in_next_expected st) = None
         \<and> list_ex (\<lambda>(k, _). k > in_next_expected st) (in_received st)
      then (Inl (missing_chunk_error (in_next_expected st) (in_chunk_size st)), st)
      else
        let st = (if is_last then st\<lparr>in_last_chunk_id := Some chunk_id\<rparr> else st);
            complete = (case in_last_chunk_id st of
                Some last_id \<Rightarrow> in_next_expected st = sat_add last_id 1
              | None \<Rightarrow> False)
        in (Inr (Stored complete False), st))"

definition insert_chunk ::
  "inbound_state \<Rightarrow> nat \<Rightarrow> u8 list \<Rightarrow> bool \<Rightarrow> (inbound_insert_outcome result \<times> inbound_state) option" where
  "insert_chunk st chunk_id data is_last =
     (if length data > in_chunk_size st then
        Some (Inl (with_message ProtocolViolation
          (''chunk_len='' @ show_nat (length data) @ '' max_chunk_size='' @ show_nat (in_chunk_size st))), st)
      else if chunk_id < in_next_deliver st then Some (Inr Duplicate, st)
      else if chunk_id \<ge> sat_add (in_next_expected st) (in_window_size st) then
        Some (Inl (with_message BlobAckWindowExceeded
          (''expected_chunk_id='' @ show_nat (in_next_expected st)
           @ '' window_size='' @ show_nat (in_window_size st))), st)
      else if map_of (in_received st) chunk_id \<noteq> None then Some (Inr Duplicate, st)
      else if length (in_received st) \<ge> in_window_size st then
        Some (Inl (with_message BlobBufferFull
          (''received_chunks='' @ show_nat (length (in_received st))
           @ '' window_size='' @ show_nat (in_window_size st))), st)
      else if is_last \<and> chunk_id > in_next_expected st then
        Some (Inl (missing_chunk_error (in_next_expected st) (in_chunk_size st)), st)
      else
        let received = AList.update chunk_id data (in_received st) in
        case (if chunk_id = in_next_expected st
              then advance_expected (map fst received) (in_next_expected st)
              else Some (in_next_expected st)) of
          None \<Rightarrow> None
        | Some next_expected \<Rightarrow>
            Some (finish_insert (st\<lparr>in_received := received, in_next_expected := next_expected\<rparr>)
                    chunk_id is_last))"

definition take_next :: "inbound_state \<Rightarrow> u8 list option \<times> inbound_state" where
  "take_next st =
     (case map_of (in_received st) (in_next_deliver st) of
        None \<Rightarrow> (None, st)
      | Some data \<Rightarrow>
          let st = st\<lparr>in_received := AList.delete (in_next_deliver st) (in_received st)\<rparr>;
              st = st\<lparr>in_next_deliver := sat_add (in_next_deliver st) 1\<rparr>;
              st = (if in_next_expected st < in_next_deliver st
                    then st\<lparr>in_next_expected := in_next_deliver st\<rparr> else st)
          in (Some data, st))"

definition inbound_is_complete :: "inbound_state \<Rightarrow> bool" where
  "inbound_is_complete st =
     (case in_last_chunk_id st of Some last_id \<Rightarrow> in_next_deliver st > last_id | None \<Rightarrow> False)"

section \<open>Invariant\<close>

definition in_inv :: "inbound_state \<Rightarrow> bool" where
  "in_inv st \<longleftrightarrow>
     0 < in_chunk_size st \<and> 0 < in_window_size st
     \<and> distinct (map fst (in_received st))
     \<and> in_next_deliver st \<le> in_next_expected st \<and> in_next_expected st \<le> u64_max
     \<and> in_keys st \<subseteq> {in_next_deliver st..<u64_max}
     \<and> {in_next_deliver st..<in_next_expected st} \<subseteq> in_keys st
     \<and> in_next_expected st \<notin> in_keys st
     \<and> (\<forall>k \<in> in_keys st. k < in_next_expected st + in_window_size st)
     \<and> length (in_received st) \<le> in_window_size st
     \<and> (\<forall>(k, d) \<in> set (in_received st). length d \<le> in_chunk_size st)"

text \<open>The advancing loop returns the first missing identifier.\<close>

lemma advance_expected_returns:
  assumes "u64_max \<notin> set keys" and "n \<le> u64_max"
  shows "\<exists>m. advance_expected keys n = Some m \<and> n \<le> m \<and> m \<le> u64_max \<and> {n..<m} \<subseteq> set keys
           \<and> m \<notin> set keys"
  using assms(2)
proof (induction "u64_max - n" arbitrary: n rule: less_induct)
  case less
  show ?case
  proof (cases "n \<in> set keys")
    case False
    then have "advance_expected keys n = Some n" by (simp add: advance_expected.simps)
    with False less.prems show ?thesis by auto
  next
    case True
    with assms(1) less.prems have lt: "n < u64_max" by (cases "n = u64_max") auto
    then have sat: "sat_add n 1 = Suc n" by (simp add: sat_add_def)
    have "u64_max - Suc n < u64_max - n" using lt by linarith
    then obtain m where m: "advance_expected keys (Suc n) = Some m" "Suc n \<le> m" "m \<le> u64_max"
        "{Suc n..<m} \<subseteq> set keys" "m \<notin> set keys"
      using less.hyps [of "Suc n"] lt by auto
    have "advance_expected keys n = Some m"
      using True m(1) sat by (simp add: advance_expected.simps [of keys n])
    moreover have "{n..<m} \<subseteq> set keys"
      using m(4) True by (auto simp: subset_iff) (metis le_antisym not_less_eq_eq)
    ultimately show ?thesis using m by (intro exI [of _ m]) auto
  qed
qed

lemma in_inv_new: "inbound_new cs ws = Inr st \<Longrightarrow> in_inv st"
  by (auto simp: inbound_new_def in_inv_def split: if_splits)

text \<open>
  The state after a chunk passed every check: the chunk is held and \<open>next_expected\<close> is the first
  identifier that is not.
\<close>

definition admit_chunk :: "inbound_state \<Rightarrow> nat \<Rightarrow> u8 list \<Rightarrow> nat \<Rightarrow> inbound_state" where
  "admit_chunk st chunk_id data m =
     st\<lparr>in_received := in_received st @ [(chunk_id, data)], in_next_expected := m\<rparr>"

definition admissible :: "inbound_state \<Rightarrow> nat \<Rightarrow> u8 list \<Rightarrow> bool \<Rightarrow> bool" where
  "admissible st chunk_id data is_last \<longleftrightarrow>
     length data \<le> in_chunk_size st \<and> in_next_deliver st \<le> chunk_id
     \<and> chunk_id < sat_add (in_next_expected st) (in_window_size st)
     \<and> chunk_id \<notin> in_keys st \<and> length (in_received st) < in_window_size st
     \<and> \<not> (is_last \<and> chunk_id > in_next_expected st)"

lemma insert_not_admissible:
  "\<not> admissible st chunk_id data is_last \<Longrightarrow>
     \<exists>r. insert_chunk st chunk_id data is_last = Some (r, st) \<and> (\<forall>c w. r \<noteq> Inr (Stored c w))"
  by (auto simp: insert_chunk_def admissible_def map_of_eq_None_iff)

lemma insert_admissible:
  assumes inv: "in_inv st" and ad: "admissible st chunk_id data is_last"
  shows "\<exists>m. in_inv (admit_chunk st chunk_id data m) \<and> in_next_expected st \<le> m
    \<and> insert_chunk st chunk_id data is_last =
        Some (finish_insert (admit_chunk st chunk_id data m) chunk_id is_last)"
proof -
  let ?keys = "map fst (in_received st @ [(chunk_id, data)])"
  have fresh: "map_of (in_received st) chunk_id = None"
    using ad by (simp add: admissible_def map_of_eq_None_iff)
  have lt: "chunk_id < u64_max"
    using ad sat_add_le [of "in_next_expected st" "in_window_size st"]
    by (auto simp: admissible_def simp del: sat_add_le)
  have max: "u64_max \<notin> set ?keys"
    using inv lt by (auto simp: in_inv_def subset_iff)
  obtain m where m: "in_next_expected st \<le> m" "m \<le> u64_max" "m \<notin> set ?keys"
      "{in_next_expected st..<m} \<subseteq> set ?keys"
      "(if chunk_id = in_next_expected st
        then advance_expected ?keys (in_next_expected st) else Some (in_next_expected st)) = Some m"
  proof (cases "chunk_id = in_next_expected st")
    case True
    with advance_expected_returns [OF max, of "in_next_expected st"] inv that show ?thesis
      by (auto simp: in_inv_def)
  next
    case False
    with inv that [of "in_next_expected st"] show ?thesis by (auto simp: in_inv_def)
  qed
  have upper: "chunk_id < in_next_expected st + in_window_size st"
    using ad sat_add_upper [of "in_next_expected st" "in_window_size st"]
    by (auto simp: admissible_def)
  have "in_inv (admit_chunk st chunk_id data m)"
    unfolding in_inv_def admit_chunk_def
  proof (simp, intro conjI)
    show "0 < in_chunk_size st" "0 < in_window_size st" "distinct (map fst (in_received st))"
      "in_next_deliver st \<le> m" "m \<le> u64_max" "m \<noteq> chunk_id" "m \<notin> in_keys st"
      "chunk_id \<notin> in_keys st" "in_next_deliver st \<le> chunk_id" "chunk_id < u64_max"
      "chunk_id < m + in_window_size st" "length data \<le> in_chunk_size st"
      "Suc (length (in_received st)) \<le> in_window_size st"
      "in_keys st \<subseteq> {in_next_deliver st..<u64_max}"
      "\<forall>x \<in> set (in_received st). fst x < m + in_window_size st"
      "\<forall>x \<in> set (in_received st). case x of (k, d) \<Rightarrow> length d \<le> in_chunk_size st"
      using inv ad m upper lt by (auto simp: in_inv_def admissible_def)
    show "{in_next_deliver st..<m} \<subseteq> insert chunk_id (in_keys st)"
    proof
      fix i assume "i \<in> {in_next_deliver st..<m}"
      then consider "i \<in> {in_next_deliver st..<in_next_expected st}" | "i \<in> {in_next_expected st..<m}"
        by fastforce
      then show "i \<in> insert chunk_id (in_keys st)"
        using inv m(4) by cases (auto simp: in_inv_def)
    qed
  qed
  moreover have "insert_chunk st chunk_id data is_last =
      Some (finish_insert (admit_chunk st chunk_id data m) chunk_id is_last)"
    using ad m(5) fresh
    by (cases is_last)
      (simp_all add: insert_chunk_def admissible_def alist_update_new admit_chunk_def Let_def
        del: map_append)
  ultimately show ?thesis using m(1) by blast
qed

section \<open>The machine\<close>

datatype inbound_op = InsertChunk nat "u8 list" bool | TakeNext

definition inbound_step :: "inbound_state \<Rightarrow> inbound_op \<Rightarrow> inbound_state" where
  "inbound_step st x =
     (case x of
        InsertChunk chunk_id data is_last \<Rightarrow>
          (case insert_chunk st chunk_id data is_last of None \<Rightarrow> st | Some (r, st') \<Rightarrow> st')
      | TakeNext \<Rightarrow> snd (take_next st))"

lemma insert_chunk_inv:
  assumes "in_inv st"
  shows "\<exists>r st'. insert_chunk st chunk_id data is_last = Some (r, st') \<and> in_inv st'"
proof (cases "admissible st chunk_id data is_last")
  case False
  with insert_not_admissible assms show ?thesis by blast
next
  case True
  then obtain m where "in_inv (admit_chunk st chunk_id data m)"
    and "insert_chunk st chunk_id data is_last =
        Some (finish_insert (admit_chunk st chunk_id data m) chunk_id is_last)"
    using insert_admissible [OF assms] by blast
  moreover have "in_inv s \<Longrightarrow> in_inv (snd (finish_insert s c l))" for s c l
    by (auto simp: finish_insert_def Let_def in_inv_def)
  ultimately show ?thesis by (metis prod.collapse)
qed

text \<open>
  Taking a chunk under the invariant: it is there exactly when delivery lags behind
  \<open>next_expected\<close>, and then delivery moves on by one and \<open>next_expected\<close> stays.
\<close>

lemma take_next_eq:
  assumes inv: "in_inv st"
  shows "take_next st =
     (if in_next_deliver st < in_next_expected st
      then (map_of (in_received st) (in_next_deliver st),
            st\<lparr>in_received := AList.delete (in_next_deliver st) (in_received st),
               in_next_deliver := Suc (in_next_deliver st)\<rparr>)
      else (None, st))"
proof (cases "in_next_deliver st < in_next_expected st")
  case True
  with inv have "in_next_deliver st \<in> in_keys st" by (auto simp: in_inv_def)
  then obtain d where d: "map_of (in_received st) (in_next_deliver st) = Some d"
    by (meson map_of_eq_None_iff not_Some_eq)
  have "sat_add (in_next_deliver st) 1 = Suc (in_next_deliver st)"
    using inv True by (simp add: in_inv_def sat_add_def)
  with True d show ?thesis by (simp add: take_next_def Let_def)
next
  case False
  with inv have "in_next_deliver st \<notin> in_keys st" by (auto simp: in_inv_def)
  then have "map_of (in_received st) (in_next_deliver st) = None" by (simp add: map_of_eq_None_iff)
  with False show ?thesis by (simp add: take_next_def)
qed

lemma take_next_inv:
  assumes inv: "in_inv st"
  shows "in_inv (snd (take_next st))"
proof (cases "in_next_deliver st < in_next_expected st")
  case True
  have "map_of (in_received st) (in_next_deliver st) \<noteq> None"
    using inv True by (auto simp: in_inv_def map_of_eq_None_iff)
  then have len: "Suc (length (AList.delete (in_next_deliver st) (in_received st))) = length (in_received st)"
    using inv by (intro length_alist_delete) (auto simp: in_inv_def)
  have sub: "{Suc (in_next_deliver st)..<in_next_expected st} \<subseteq> in_keys st - {in_next_deliver st}"
    using inv by (auto simp: in_inv_def)
  have low: "in_keys st - {in_next_deliver st} \<subseteq> {Suc (in_next_deliver st)..<u64_max}"
    using inv by (auto simp: in_inv_def)
  have each: "\<forall>x \<in> set (AList.delete (in_next_deliver st) (in_received st)).
      fst x < in_next_expected st + in_window_size st \<and> length (snd x) \<le> in_chunk_size st"
    using inv by (auto simp: in_inv_def set_alist_delete)
  show ?thesis
    using inv True len sub low each
    by (auto simp: take_next_eq in_inv_def keys_alist_delete distinct_alist_delete)
next
  case False
  with inv show ?thesis by (simp add: take_next_eq)
qed

interpretation inbound: op_machine "\<lambda>st. \<exists>cs ws. inbound_new cs ws = Inr st" inbound_step in_inv
proof unfold_locales
  fix st assume "\<exists>cs ws. inbound_new cs ws = Inr st"
  then show "in_inv st" using in_inv_new by blast
next
  fix st x assume "in_inv st"
  then show "in_inv (inbound_step st x)"
  proof (cases x)
    case (InsertChunk c d l)
    then show ?thesis using insert_chunk_inv [OF \<open>in_inv st\<close>, of c d l]
      by (auto simp: inbound_step_def)
  next
    case TakeNext
    with \<open>in_inv st\<close> show ?thesis by (simp add: inbound_step_def take_next_inv)
  qed
qed

section \<open>Delivery\<close>

text \<open>What one insertion may change: the chunk may be added, delivery does not move.\<close>

lemma insert_chunk_frame:
  assumes inv: "in_inv st" and ins: "insert_chunk st chunk_id data is_last = Some (r, st')"
  shows "set (in_received st') \<subseteq> insert (chunk_id, data) (set (in_received st))
    \<and> in_next_deliver st' = in_next_deliver st
    \<and> (in_last_chunk_id st' = in_last_chunk_id st \<or> is_last \<and> in_last_chunk_id st' = Some chunk_id)"
proof (cases "admissible st chunk_id data is_last")
  case False
  with insert_not_admissible [OF False] ins show ?thesis by auto
next
  case True
  with insert_admissible [OF inv True] ins obtain m where
    "(r, st') = finish_insert (admit_chunk st chunk_id data m) chunk_id is_last" by auto
  then have "st' = snd (finish_insert (admit_chunk st chunk_id data m) chunk_id is_last)"
    by (metis snd_conv)
  then show ?thesis by (auto simp: finish_insert_def Let_def admit_chunk_def)
qed

text \<open>The chunks a run of operations hands to the application.\<close>

definition inbound_output :: "inbound_state \<Rightarrow> inbound_op \<Rightarrow> u8 list list" where
  "inbound_output st x =
     (case x of TakeNext \<Rightarrow> (case fst (take_next st) of Some d \<Rightarrow> [d] | None \<Rightarrow> [])
      | InsertChunk _ _ _ \<Rightarrow> [])"

abbreviation inbound_outputs :: "inbound_state \<Rightarrow> inbound_op list \<Rightarrow> u8 list list" where
  "inbound_outputs \<equiv> outputs_over inbound_step inbound_output"

definition carries :: "(nat \<Rightarrow> u8 list) \<Rightarrow> inbound_op \<Rightarrow> bool" where
  "carries c x = (case x of InsertChunk i d _ \<Rightarrow> d = c i | TakeNext \<Rightarrow> True)"

definition holds_chunks :: "(nat \<Rightarrow> u8 list) \<Rightarrow> inbound_state \<Rightarrow> bool" where
  "holds_chunks c st \<longleftrightarrow> (\<forall>(k, d) \<in> set (in_received st). d = c k)"

lemma inbound_step_delivers:
  assumes inv: "in_inv st" and held: "holds_chunks c st" and car: "carries c x"
  shows "holds_chunks c (inbound_step st x) \<and> in_next_deliver st \<le> in_next_deliver (inbound_step st x)
    \<and> inbound_output st x = map c [in_next_deliver st..<in_next_deliver (inbound_step st x)]"
proof (cases x)
  case (InsertChunk i d l)
  obtain r st' where ins: "insert_chunk st i d l = Some (r, st')"
    using insert_chunk_inv [OF inv] by blast
  from insert_chunk_frame [OF inv ins] held car InsertChunk ins show ?thesis
    by (fastforce simp: inbound_step_def inbound_output_def holds_chunks_def carries_def)
next
  case TakeNext
  show ?thesis
  proof (cases "in_next_deliver st < in_next_expected st")
    case False
    with TakeNext held inv show ?thesis
      by (simp add: inbound_step_def inbound_output_def take_next_eq)
  next
    case True
    with inv have "in_next_deliver st \<in> in_keys st" by (auto simp: in_inv_def)
    then obtain d where d: "map_of (in_received st) (in_next_deliver st) = Some d"
      by (meson map_of_eq_None_iff not_Some_eq)
    with held have "d = c (in_next_deliver st)"
      by (fastforce simp: holds_chunks_def dest: map_of_SomeD)
    moreover have "holds_chunks c (inbound_step st x)"
      using held TakeNext True inv
      by (auto simp: holds_chunks_def inbound_step_def take_next_eq set_alist_delete)
    ultimately show ?thesis
      using TakeNext True inv d by (simp add: inbound_step_def inbound_output_def take_next_eq)
  qed
qed

lemma inbound_run_delivers:
  assumes "in_inv st" and "holds_chunks c st" and "list_all (carries c) ops"
  shows "in_next_deliver st \<le> in_next_deliver (foldl inbound_step st ops)
    \<and> inbound_outputs st ops = map c [in_next_deliver st..<in_next_deliver (foldl inbound_step st ops)]"
  using assms
proof (induction ops arbitrary: st)
  case Nil
  then show ?case by simp
next
  case (Cons x xs)
  let ?s = "inbound_step st x"
  have step: "holds_chunks c ?s" "in_next_deliver st \<le> in_next_deliver ?s"
    "inbound_output st x = map c [in_next_deliver st..<in_next_deliver ?s]"
    using inbound_step_delivers [of st c x] Cons.prems by simp_all
  have rest: "in_next_deliver ?s \<le> in_next_deliver (foldl inbound_step ?s xs)"
    "inbound_outputs ?s xs = map c [in_next_deliver ?s..<in_next_deliver (foldl inbound_step ?s xs)]"
    using Cons.IH [of ?s] step(1) Cons.prems inbound.invar_step [of st x] by simp_all
  show ?case
    using step rest upt_add_eq_append [OF step(2),
        of "in_next_deliver (foldl inbound_step ?s xs) - in_next_deliver ?s"]
    by (simp flip: map_append)
qed

lemma inbound_new_delivers:
  assumes "inbound_new cs ws = Inr st" and "list_all (carries c) ops"
  shows "inbound_outputs st ops = map c [0..<in_next_deliver (foldl inbound_step st ops)]"
proof -
  have "in_inv st" using assms(1) by (rule in_inv_new)
  moreover have "holds_chunks c st" "in_next_deliver st = 0"
    using assms(1) by (auto simp: inbound_new_def holds_chunks_def split: if_splits)
  ultimately show ?thesis using inbound_run_delivers [of st c ops] assms(2) by simp
qed

text \<open>
  Whatever the order in which chunks arrive, are repeated or are refused, the application is
  handed exactly chunk 0, chunk 1, and so on up to the delivery counter: no gap, no repetition, no
  reordering. \<open>c\<close> is the content of the stream by chunk number, which every arriving copy carries.
\<close>

theorem inbound_delivers_in_order:
  assumes "inbound_new cs ws = Inr st" and "list_all (carries c) ops"
  shows "inbound_outputs st ops = map c [0..<in_next_deliver (foldl inbound_step st ops)]"
  using assms by (rule inbound_new_delivers)

text \<open>A concrete run: the middle chunk arrives first, chunk 0 twice, the last one in place.\<close>

theorem inbound_delivers_in_order_witness:
  "inbound_outputs \<lparr>in_chunk_size = 2, in_window_size = 4, in_next_expected = 0, in_next_deliver = 0,
                    in_last_chunk_id = None, in_received = []\<rparr>
     [InsertChunk 1 [1] False, TakeNext, InsertChunk 0 [0] False, InsertChunk 0 [0] False,
      TakeNext, TakeNext, TakeNext]
   = [[0], [1]]"
proof -
  let ?st = "\<lparr>in_chunk_size = 2, in_window_size = 4, in_next_expected = 0, in_next_deliver = 0,
              in_last_chunk_id = None, in_received = []\<rparr> :: inbound_state"
  let ?ops = "[InsertChunk 1 [1] False, TakeNext, InsertChunk 0 [0] False, InsertChunk 0 [0] False,
      TakeNext, TakeNext, TakeNext]"
  have new: "inbound_new 2 4 = Inr ?st" by (simp add: inbound_new_def)
  have car: "list_all (carries (\<lambda>i. [word_of_nat i])) ?ops" by (simp add: carries_def)
  have "in_next_deliver (foldl inbound_step ?st ?ops) = 2"
    by (simp add: inbound_step_def insert_chunk_def finish_insert_def take_next_def sat_add_def
        advance_expected.simps)
  with inbound_delivers_in_order [OF new car] show ?thesis by (simp add: upt_rec)
qed

text \<open>A blob of \<open>L + 1\<close> chunks: every arriving chunk is one of them and only number \<open>L\<close> is flagged last.\<close>

definition of_blob :: "(nat \<Rightarrow> u8 list) \<Rightarrow> nat \<Rightarrow> inbound_op \<Rightarrow> bool" where
  "of_blob c L x =
     (case x of InsertChunk i d l \<Rightarrow> d = c i \<and> i \<le> L \<and> l = (i = L) | TakeNext \<Rightarrow> True)"

definition blob_bounded :: "nat \<Rightarrow> inbound_state \<Rightarrow> bool" where
  "blob_bounded L st \<longleftrightarrow> in_keys st \<subseteq> {..L} \<and> in_next_deliver st \<le> Suc L
     \<and> (in_last_chunk_id st = None \<or> in_last_chunk_id st = Some L)"

lemma inbound_step_bounded:
  assumes inv: "in_inv st" and b: "blob_bounded L st" and x: "of_blob c L x"
  shows "blob_bounded L (inbound_step st x)"
proof (cases x)
  case (InsertChunk i d l)
  obtain r st' where ins: "insert_chunk st i d l = Some (r, st')"
    using insert_chunk_inv [OF inv] by blast
  from insert_chunk_frame [OF inv ins] have "in_keys st' \<subseteq> insert i (in_keys st)" by force
  with insert_chunk_frame [OF inv ins] b x InsertChunk ins show ?thesis
    by (auto simp: inbound_step_def blob_bounded_def of_blob_def)
next
  case TakeNext
  have "in_next_deliver st < in_next_expected st \<Longrightarrow> in_next_deliver st \<in> in_keys st"
    using inv by (auto simp: in_inv_def)
  with b inv TakeNext show ?thesis
    by (auto simp: inbound_step_def blob_bounded_def take_next_eq keys_alist_delete)
qed

lemma inbound_run_bounded:
  "in_inv st \<Longrightarrow> blob_bounded L st \<Longrightarrow> list_all (of_blob c L) ops \<Longrightarrow>
     blob_bounded L (foldl inbound_step st ops)"
proof (induction ops arbitrary: st)
  case Nil
  then show ?case by simp
next
  case (Cons x xs)
  then show ?case using inbound_step_bounded [of st L c x] inbound.invar_step [of st x] by simp
qed

lemma inbound_blob_bytes:
  assumes new: "inbound_new cs ws = Inr st" and ops: "list_all (of_blob c L) ops"
    and finished: "inbound_is_complete (foldl inbound_step st ops)"
  shows "concat (inbound_outputs st ops) = concat (map c [0..<Suc L])"
proof -
  have inv: "in_inv st" using new by (rule in_inv_new)
  have "blob_bounded L st"
    using new by (auto simp: inbound_new_def blob_bounded_def split: if_splits)
  with inv ops have b: "blob_bounded L (foldl inbound_step st ops)" by (intro inbound_run_bounded)
  then have "in_next_deliver (foldl inbound_step st ops) = Suc L"
    using finished by (auto simp: blob_bounded_def inbound_is_complete_def)
  moreover have "list_all (carries c) ops"
    using ops by (auto simp: list_all_iff of_blob_def carries_def split: inbound_op.splits)
  ultimately show ?thesis using inbound_new_delivers [OF new] by simp
qed

text \<open>A stream none of whose chunks is flagged last is never complete.\<close>

definition unflagged :: "inbound_op \<Rightarrow> bool" where
  "unflagged x = (case x of InsertChunk _ _ l \<Rightarrow> \<not> l | TakeNext \<Rightarrow> True)"

lemma inbound_step_unflagged:
  assumes inv: "in_inv st" and "unflagged x" and "in_last_chunk_id st = None"
  shows "in_last_chunk_id (inbound_step st x) = None"
proof (cases x)
  case (InsertChunk i d l)
  obtain r st' where ins: "insert_chunk st i d l = Some (r, st')"
    using insert_chunk_inv [OF inv] by blast
  with insert_chunk_frame [OF inv ins] assms InsertChunk show ?thesis
    by (auto simp: inbound_step_def unflagged_def)
next
  case TakeNext
  with assms show ?thesis by (simp add: inbound_step_def take_next_eq)
qed

lemma inbound_run_unflagged:
  "in_inv st \<Longrightarrow> list_all unflagged ops \<Longrightarrow> in_last_chunk_id st = None \<Longrightarrow>
     in_last_chunk_id (foldl inbound_step st ops) = None"
proof (induction ops arbitrary: st)
  case Nil
  then show ?case by simp
next
  case (Cons x xs)
  then show ?case using inbound_step_unflagged [of st x] inbound.invar_step [of st x] by simp
qed

lemma inbound_unflagged_incomplete:
  assumes "inbound_new cs ws = Inr st" and "list_all unflagged ops"
  shows "\<not> inbound_is_complete (foldl inbound_step st ops)"
proof -
  have "in_last_chunk_id st = None" using assms(1) by (auto simp: inbound_new_def split: if_splits)
  with inbound_run_unflagged [OF in_inv_new [OF assms(1)] assms(2)] show ?thesis
    by (simp add: inbound_is_complete_def)
qed

text \<open>
  When the receiver reports the stream complete, the bytes it handed out are the whole blob:
  all chunks from 0 to the last, once each, in order.
\<close>

theorem inbound_complete_delivers_blob:
  assumes "inbound_new cs ws = Inr st" and "list_all (of_blob c L) ops"
    and "inbound_is_complete (foldl inbound_step st ops)"
  shows "concat (inbound_outputs st ops) = concat (map c [0..<Suc L])"
  using assms by (rule inbound_blob_bytes)

theorem inbound_complete_delivers_blob_witness:
  "concat (inbound_outputs
     \<lparr>in_chunk_size = 2, in_window_size = 4, in_next_expected = 0, in_next_deliver = 0,
      in_last_chunk_id = None, in_received = []\<rparr>
     [InsertChunk 1 [7, 7] False, InsertChunk 0 [7, 7] False, InsertChunk 2 [7, 7] True,
      TakeNext, TakeNext, TakeNext])
   = [7, 7, 7, 7, 7, 7]"
proof -
  let ?st = "\<lparr>in_chunk_size = 2, in_window_size = 4, in_next_expected = 0, in_next_deliver = 0,
      in_last_chunk_id = None, in_received = []\<rparr> :: inbound_state"
  let ?ops = "[InsertChunk 1 [7, 7] False, InsertChunk 0 [7, 7] False, InsertChunk 2 [7, 7] True,
      TakeNext, TakeNext, TakeNext]"
  have new: "inbound_new 2 4 = Inr ?st" by (simp add: inbound_new_def)
  have ops: "list_all (of_blob (\<lambda>_. [7, 7]) 2) ?ops" by (simp add: of_blob_def)
  have fin: "inbound_is_complete (foldl inbound_step ?st ?ops)"
    by (simp add: inbound_step_def insert_chunk_def finish_insert_def take_next_def sat_add_def
        inbound_is_complete_def advance_expected.simps)
  show ?thesis
    using inbound_complete_delivers_blob [OF new ops fin] by (simp add: upt_rec)
qed

text \<open>
  C34. On every state the component can reach, inserting a chunk returns: the loop that advances
  \<open>next_expected\<close> ends, for every chunk identifier up to and including \<open>u64::MAX\<close>, and the memory
  held stays within \<open>window_size\<close> chunks of \<open>chunk_size\<close> bytes.
\<close>

theorem inbound_insert_returns:
  assumes "inbound_new cs ws = Inr st0"
  shows "\<exists>r st'. insert_chunk (foldl inbound_step st0 ops) chunk_id data is_last = Some (r, st')
    \<and> length (in_received st') \<le> in_window_size st'
    \<and> (\<forall>(k, d) \<in> set (in_received st'). length d \<le> in_chunk_size st')"
proof -
  have "in_inv (foldl inbound_step st0 ops)"
    using assms inbound.invar_reachable by blast
  then obtain r st' where ins: "insert_chunk (foldl inbound_step st0 ops) chunk_id data is_last = Some (r, st')"
    and inv: "in_inv st'"
    using insert_chunk_inv by blast
  from inv have "length (in_received st') \<le> in_window_size st'
      \<and> (\<forall>(k, d) \<in> set (in_received st'). length d \<le> in_chunk_size st')"
    by (simp add: in_inv_def)
  with ins show ?thesis by blast
qed

theorem inbound_insert_returns_witness:
  "\<exists>r st'. insert_chunk
      (foldl inbound_step \<lparr>in_chunk_size = 2, in_window_size = 4, in_next_expected = 0,
         in_next_deliver = 0, in_last_chunk_id = None, in_received = []\<rparr> [])
      18446744073709551615 [0] False = Some (r, st')
    \<and> length (in_received st') \<le> in_window_size st'
    \<and> (\<forall>(k, d) \<in> set (in_received st'). length d \<le> in_chunk_size st')"
  by (rule inbound_insert_returns [of 2 4]) (simp add: inbound_new_def)

text \<open>
  A stream whose chunks arrive in order is never refused while the window has room: the chunk
  that is next, of legal size and on a receiver without later chunks, is stored, and completes the
  transfer exactly when it is the last.
\<close>

lemma insert_in_order:
  assumes inv: "in_inv st" and last_id: "in_last_chunk_id st = None"
    and keys: "in_keys st = {in_next_deliver st..<in_next_expected st}"
    and room: "length (in_received st) < in_window_size st"
    and size: "length data \<le> in_chunk_size st" and id: "in_next_expected st < u64_max"
  shows "\<exists>st'. insert_chunk st (in_next_expected st) data is_last = Some (Inr (Stored is_last False), st')
    \<and> in_next_expected st' = Suc (in_next_expected st)
    \<and> in_keys st' = {in_next_deliver st'..<in_next_expected st'}"
proof -
  let ?n = "in_next_expected st"
  have ad: "admissible st ?n data is_last"
    using inv room size id keys by (auto simp: admissible_def in_inv_def sat_add_def)
  obtain m where m: "in_inv (admit_chunk st ?n data m)" "?n \<le> m"
    "insert_chunk st ?n data is_last = Some (finish_insert (admit_chunk st ?n data m) ?n is_last)"
    using insert_admissible [OF inv ad] by blast
  have k: "in_keys (admit_chunk st ?n data m) = {in_next_deliver st..<Suc ?n}"
    using keys inv by (auto simp: admit_chunk_def in_inv_def)
  have "m \<notin> {in_next_deliver st..<Suc ?n}" "{in_next_deliver st..<m} \<subseteq> {in_next_deliver st..<Suc ?n}"
    using m(1) unfolding in_inv_def k by (simp_all add: admit_chunk_def)
  moreover have "in_next_deliver st \<le> ?n" using inv by (simp add: in_inv_def)
  ultimately have "m = Suc ?n"
    using m(2) by (auto simp: subset_iff) (metis le_SucI less_irrefl nat_neq_iff)
  moreover have "sat_add ?n 1 = Suc ?n" using id by (simp add: sat_add_def)
  moreover have "\<not> list_ex (\<lambda>(k, _). Suc ?n < k) (in_received st @ [(?n, data)])"
  proof -
    have "k < ?n" if "(k, d) \<in> set (in_received st)" for k d
      using that keys by (metis atLeastLessThan_iff fst_conv image_eqI)
    then show ?thesis by (fastforce simp: list_ex_iff)
  qed
  ultimately show ?thesis
    using m(3) k last_id by (auto simp: finish_insert_def admit_chunk_def Let_def)
qed

theorem insert_in_order_witness:
  "\<exists>st'. insert_chunk \<lparr>in_chunk_size = 2, in_window_size = 2, in_next_expected = 1,
       in_next_deliver = 0, in_last_chunk_id = None, in_received = [(0, [5, 6])]\<rparr>
       1 [7] True = Some (Inr (Stored True False), st')
    \<and> in_next_expected st' = 2 \<and> in_keys st' = {in_next_deliver st'..<in_next_expected st'}"
proof -
  let ?st = "\<lparr>in_chunk_size = 2, in_window_size = 2, in_next_expected = 1,
       in_next_deliver = 0, in_last_chunk_id = None, in_received = [(0, [5, 6])]\<rparr> :: inbound_state"
  have "in_inv ?st" by (simp add: in_inv_def)
  then show ?thesis using insert_in_order [of ?st "[7]" True] by (simp add: numeral_2_eq_2)
qed

text \<open>
  What a refusal means and what it leaves behind. An oversized chunk, a chunk beyond the window
  and a chunk that finds the store full are refused with their own error and change nothing; a
  duplicate is acknowledged and changes nothing; a missing-chunk failure happens only when the last
  chunk arrives early or the window fills up behind a gap.
\<close>

theorem insert_chunk_outcomes:
  assumes inv: "in_inv st" and ins: "insert_chunk st chunk_id data is_last = Some (r, st')"
  shows "case r of
      Inl e \<Rightarrow>
        (err_kind e = ProtocolViolation \<and> length data > in_chunk_size st \<and> st' = st)
        \<or> (err_kind e = BlobAckWindowExceeded
            \<and> chunk_id \<ge> sat_add (in_next_expected st) (in_window_size st) \<and> st' = st)
        \<or> (err_kind e = BlobBufferFull \<and> length (in_received st) = in_window_size st \<and> st' = st)
        \<or> (err_kind e = BlobStreamMissingChunk \<and> is_last \<and> chunk_id > in_next_expected st \<and> st' = st)
        \<or> (err_kind e = BlobStreamMissingChunk \<and> length (in_received st') = in_window_size st'
            \<and> in_next_expected st' \<notin> in_keys st' \<and> (\<exists>k \<in> in_keys st'. k > in_next_expected st'))
    | Inr Duplicate \<Rightarrow> (chunk_id < in_next_deliver st \<or> chunk_id \<in> in_keys st) \<and> st' = st
    | Inr (Stored complete _) \<Rightarrow>
        chunk_id \<notin> in_keys st \<and> chunk_id \<in> in_keys st'
        \<and> complete = (case in_last_chunk_id st' of Some last_id \<Rightarrow> in_next_expected st' = sat_add last_id 1
                     | None \<Rightarrow> False)"
proof (cases "admissible st chunk_id data is_last")
  case False
  have "length (in_received st) \<le> in_window_size st" using inv by (simp add: in_inv_def)
  with False ins show ?thesis
    by (auto simp: insert_chunk_def admissible_def map_of_eq_None_iff
        split: if_splits) (metis fst_conv image_eqI)
next
  case True
  then obtain m where m: "in_inv (admit_chunk st chunk_id data m)"
    "(r, st') = finish_insert (admit_chunk st chunk_id data m) chunk_id is_last"
    using insert_admissible [OF inv True] ins by auto
  have "length (in_received (admit_chunk st chunk_id data m)) \<le> in_window_size st"
    using m(1) by (simp add: in_inv_def admit_chunk_def)
  with m(2) True show ?thesis
    by (auto simp: finish_insert_def admit_chunk_def admissible_def Let_def gap_iff
        map_of_eq_None_iff split: if_splits option.splits)
qed

theorem insert_chunk_outcomes_witness:
  "insert_chunk \<lparr>in_chunk_size = 2, in_window_size = 2, in_next_expected = 0, in_next_deliver = 0,
      in_last_chunk_id = None, in_received = []\<rparr> 2 [1] False =
     Some (Inl (with_message BlobAckWindowExceeded ''expected_chunk_id=0 window_size=2''),
       \<lparr>in_chunk_size = 2, in_window_size = 2, in_next_expected = 0, in_next_deliver = 0,
        in_last_chunk_id = None, in_received = []\<rparr>)
   \<and> (2::nat) \<ge> sat_add 0 2"
proof -
  let ?st = "\<lparr>in_chunk_size = 2, in_window_size = 2, in_next_expected = 0, in_next_deliver = 0,
      in_last_chunk_id = None, in_received = []\<rparr> :: inbound_state"
  let ?e = "with_message BlobAckWindowExceeded ''expected_chunk_id=0 window_size=2''"
  have inv: "in_inv ?st" by (simp add: in_inv_def)
  have ins: "insert_chunk ?st 2 [1] False = Some (Inl ?e, ?st)"
    by (simp add: insert_chunk_def sat_add_def show_nat.simps)
  show ?thesis using insert_chunk_outcomes [OF inv ins] ins by simp
qed

end
