(* ===== verification/Outbound_Ring.thy ===== *)
theory Outbound_Ring
  imports Ids
begin

text \<open>
  The sending side of a blob stream (\<^verbatim>\<open>src/crates/peering/src/ring_buffer/outbound.rs\<close> and its
  submodules \<^verbatim>\<open>chunks.rs\<close> and \<^verbatim>\<open>state.rs\<close>): bytes are cut into chunks, chunks occupy the slots of a
  window, are leased to a callis for writing, become in-flight, are acknowledged, or return for replay
  when their callis is lost. Each operation is one critical section of the code's mutex: it takes the
  state and returns its result with the new state. Waiters are woken by \<open>notify_waiters\<close>; an operation
  that decides whether to notify returns that decision.
\<close>

section \<open>Slots and chunks\<close>

datatype outbound_slot =
    SlotEmpty
  | SlotReady (slot_chunk_id: nat) (slot_data: "u8 list") (slot_is_last: bool) (slot_seq: nat)
  | SlotWriting (slot_chunk_id: nat) (slot_data: "u8 list") (slot_peer_msg_id: peer_message_id) (slot_callis_id: nat)
      (slot_is_last: bool) (slot_seq: nat)
  | SlotInFlight (slot_chunk_id: nat) (slot_data: "u8 list") (slot_peer_msg_id: peer_message_id) (slot_callis_id: nat)
      (slot_is_last: bool) (slot_seq: nat)
  | SlotReplayReady (slot_chunk_id: nat) (slot_data: "u8 list") (slot_previous_callis_id: nat) (slot_is_last: bool) (slot_seq: nat)

record chunk_write_lease =
  cl_chunk_id :: nat
  cl_data :: "u8 list"
  cl_is_last :: bool
  cl_peer_msg_id :: peer_message_id
  cl_callis_id :: nat
  cl_slot_seq :: nat

record outbound_chunks =
  oc_chunk_size :: nat
  oc_window_size :: nat
  oc_next_chunk_id :: nat
  oc_write_cursor :: nat
  oc_write_buf :: "u8 list"
  oc_pending_full :: "u8 list option"
  oc_slots :: "outbound_slot list"
  oc_chunk_index :: "nat \<rightharpoonup> nat"
  oc_ack_map :: "peer_message_id \<rightharpoonup> nat"
  oc_inflight :: nat
  oc_created_any :: bool

datatype finalize_decision = WaitForCapacity | Finalized (notify_waiters: bool)

datatype chunk_completion = CompletionAck | CompletionError

definition chunks_new :: "nat \<Rightarrow> nat \<Rightarrow> outbound_chunks" where
  "chunks_new chunk_size window_size =
     \<lparr>oc_chunk_size = chunk_size, oc_window_size = window_size, oc_next_chunk_id = 0,
      oc_write_cursor = 0, oc_write_buf = [], oc_pending_full = None,
      oc_slots = replicate window_size SlotEmpty, oc_chunk_index = Map.empty,
      oc_ack_map = Map.empty, oc_inflight = 0, oc_created_any = False\<rparr>"

definition live_chunk_count :: "outbound_chunks \<Rightarrow> nat" where
  "live_chunk_count c = length (filter (\<lambda>s. s \<noteq> SlotEmpty) (oc_slots c))"

definition has_window_capacity_for :: "outbound_chunks \<Rightarrow> nat \<Rightarrow> bool" where
  "has_window_capacity_for c extra =
     (live_chunk_count c + (if oc_pending_full c \<noteq> None then 1 else 0) + extra \<le> oc_window_size c)"

text \<open>The first empty slot at or after the write cursor, going round the window once.\<close>

definition next_empty_slot :: "outbound_chunks \<Rightarrow> nat option" where
  "next_empty_slot c =
     find (\<lambda>index. oc_slots c ! index = SlotEmpty)
       (map (\<lambda>offset. (oc_write_cursor c + offset) mod oc_window_size c) [0..<oc_window_size c])"

definition enqueue_chunk :: "outbound_chunks \<Rightarrow> u8 list \<Rightarrow> bool \<Rightarrow> outbound_chunks" where
  "enqueue_chunk c chunk last_flag =
     (case next_empty_slot c of
        None \<Rightarrow> c
      | Some index \<Rightarrow>
          c\<lparr>oc_next_chunk_id := sat_add (oc_next_chunk_id c) 1,
            oc_created_any := True,
            oc_slots := (oc_slots c)[index := SlotReady (oc_next_chunk_id c) chunk last_flag 0],
            oc_chunk_index := (oc_chunk_index c)(oc_next_chunk_id c \<mapsto> index),
            oc_write_cursor := (index + 1) mod oc_window_size c\<rparr>)"

text \<open>\<open>if let Some(pending) = self.pending_full.take() { self.enqueue_chunk(pending, false); .. }\<close>\<close>

definition flush_pending :: "outbound_chunks \<Rightarrow> outbound_chunks \<times> bool" where
  "flush_pending c =
     (case oc_pending_full c of
        None \<Rightarrow> (c, False)
      | Some pending \<Rightarrow> (enqueue_chunk (c\<lparr>oc_pending_full := None\<rparr>) pending False, True))"

text \<open>Top the write buffer up to one chunk with the caller's next bytes; also the count accepted.\<close>

definition fill_write_buf :: "outbound_chunks \<Rightarrow> u8 list \<Rightarrow> nat \<Rightarrow> outbound_chunks \<times> nat" where
  "fill_write_buf c bytes accepted =
     (let remaining = length bytes - accepted;
          space = oc_chunk_size c - length (oc_write_buf c);
          taken = min remaining space
      in (c\<lparr>oc_write_buf := oc_write_buf c @ take taken (drop accepted bytes)\<rparr>, accepted + taken))"

text \<open>Split one full chunk off the write buffer; it becomes the pending one and releases its predecessor.\<close>

definition cut_chunk :: "outbound_chunks \<Rightarrow> outbound_chunks \<times> bool" where
  "cut_chunk c =
     (let chunk = take (oc_chunk_size c) (oc_write_buf c);
          c1 = c\<lparr>oc_write_buf := drop (oc_chunk_size c) (oc_write_buf c), oc_created_any := True\<rparr>;
          (c2, flushed) = flush_pending c1
      in (c2\<lparr>oc_pending_full := Some chunk\<rparr>, flushed))"

lemma enqueue_chunk_frame [simp]:
  "oc_chunk_size (enqueue_chunk c d l) = oc_chunk_size c"
  "oc_window_size (enqueue_chunk c d l) = oc_window_size c"
  "oc_write_buf (enqueue_chunk c d l) = oc_write_buf c"
  "oc_pending_full (enqueue_chunk c d l) = oc_pending_full c"
  "oc_ack_map (enqueue_chunk c d l) = oc_ack_map c"
  "oc_inflight (enqueue_chunk c d l) = oc_inflight c"
  "length (oc_slots (enqueue_chunk c d l)) = length (oc_slots c)"
  by (simp_all add: enqueue_chunk_def split: option.splits)

lemma flush_pending_frame [simp]:
  "oc_chunk_size (fst (flush_pending c)) = oc_chunk_size c"
  "oc_window_size (fst (flush_pending c)) = oc_window_size c"
  "oc_write_buf (fst (flush_pending c)) = oc_write_buf c"
  "oc_ack_map (fst (flush_pending c)) = oc_ack_map c"
  "oc_inflight (fst (flush_pending c)) = oc_inflight c"
  "length (oc_slots (fst (flush_pending c))) = length (oc_slots c)"
  by (simp_all add: flush_pending_def split: option.splits)

lemma cut_chunk_frame [simp]:
  "oc_chunk_size (fst (cut_chunk c)) = oc_chunk_size c"
  "oc_write_buf (fst (cut_chunk c)) = drop (oc_chunk_size c) (oc_write_buf c)"
  by (simp_all add: cut_chunk_def Let_def split_beta)

lemma fill_write_buf_frame [simp]:
  "oc_write_buf (fst (fill_write_buf c bytes n)) =
     oc_write_buf c @ take (min (length bytes - n) (oc_chunk_size c - length (oc_write_buf c))) (drop n bytes)"
  "snd (fill_write_buf c bytes n) = n + min (length bytes - n) (oc_chunk_size c - length (oc_write_buf c))"
  by (simp_all add: fill_write_buf_def Let_def)

text \<open>
  The loop of \<open>push_available\<close>. The constructor refuses a chunk size of zero, so the guard on it
  never changes the outcome; it makes the recursion well-founded on the bytes still to be cut.
\<close>

function push_loop :: "outbound_chunks \<Rightarrow> u8 list \<Rightarrow> nat \<Rightarrow> bool \<Rightarrow> outbound_chunks \<times> nat \<times> bool" where
  "push_loop c bytes accepted notify =
     (if 0 < oc_chunk_size c \<and> oc_chunk_size c \<le> length (oc_write_buf c)
         \<and> has_window_capacity_for c 1 then
        let (c', flushed) = cut_chunk c
        in if length bytes \<le> accepted then (c', accepted, notify \<or> flushed)
           else let (c'', accepted') = fill_write_buf c' bytes accepted
                in push_loop c'' bytes accepted' (notify \<or> flushed)
      else (c, accepted, notify))"
  by pat_completeness auto

termination
proof (relation "measure (\<lambda>(c, bytes, accepted, notify). length (oc_write_buf c) + (length bytes - accepted))")
  show "wf (measure (\<lambda>(c, bytes, accepted, notify). length (oc_write_buf c) + (length bytes - accepted)))"
    by simp
next
  fix c bytes accepted notify x c' flushed xa c'' accepted'
  assume guard: "0 < oc_chunk_size c \<and> oc_chunk_size c \<le> length (oc_write_buf c) \<and> has_window_capacity_for c 1"
    and x: "x = cut_chunk c" "(c', flushed) = x"
    and xa: "xa = fill_write_buf c' bytes accepted" "(c'', accepted') = xa"
    and more: "\<not> length bytes \<le> accepted"
  have c': "c' = fst (cut_chunk c)" using x by (metis fst_conv)
  have "c'' = fst (fill_write_buf c' bytes accepted)" "accepted' = snd (fill_write_buf c' bytes accepted)"
    using xa by (metis fst_conv, metis snd_conv)
  with c' guard more
  show "((c'', bytes, accepted', notify \<or> flushed), c, bytes, accepted, notify)
      \<in> measure (\<lambda>(c, bytes, accepted, notify). length (oc_write_buf c) + (length bytes - accepted))"
    by (simp, arith)
qed

declare push_loop.simps [simp del]

definition push_available :: "outbound_chunks \<Rightarrow> u8 list \<Rightarrow> (nat \<times> bool) \<times> outbound_chunks" where
  "push_available c bytes =
     (let (c, accepted) = fill_write_buf c bytes 0;
          (c, accepted, notify) = push_loop c bytes accepted False;
          (c, flushed) = (if oc_pending_full c \<noteq> None \<and> oc_write_buf c \<noteq> []
                          then flush_pending c else (c, False))
      in ((accepted, notify \<or> flushed), c))"

definition can_accept_bytes :: "outbound_chunks \<Rightarrow> bool" where
  "can_accept_bytes c =
     (length (oc_write_buf c) < oc_chunk_size c \<or> has_window_capacity_for c 1)"

definition finalize :: "outbound_chunks \<Rightarrow> finalize_decision \<times> outbound_chunks" where
  "finalize c =
     (let needs_extra = (if oc_pending_full c \<noteq> None \<and> oc_write_buf c = [] then 0 else 1)
      in if \<not> has_window_capacity_for c needs_extra then (WaitForCapacity, c)
         else case oc_pending_full c of
           Some pending \<Rightarrow>
             let c = c\<lparr>oc_pending_full := None\<rparr>
             in if oc_write_buf c = [] then (Finalized True, enqueue_chunk c pending True)
                else let c = enqueue_chunk c pending False
                     in (Finalized True, enqueue_chunk (c\<lparr>oc_write_buf := []\<rparr>) (oc_write_buf c) True)
         | None \<Rightarrow>
             if oc_write_buf c = [] \<and> oc_created_any c then (Finalized True, c)
             else let chunk = oc_write_buf c
                  in (Finalized True,
                      enqueue_chunk (c\<lparr>oc_write_buf := [], oc_created_any := oc_created_any c \<or> chunk \<noteq> []\<rparr>)
                        chunk True))"

text \<open>\<open>min_by_key\<close> on a list of pairs by the second component; the first of equal minima.\<close>

fun min_by_snd :: "('a \<times> nat) list \<Rightarrow> ('a \<times> nat) option" where
  "min_by_snd [] = None"
| "min_by_snd (x # xs) =
     (case min_by_snd xs of None \<Rightarrow> Some x | Some y \<Rightarrow> if snd x \<le> snd y then Some x else Some y)"

definition lease_candidate :: "bool \<Rightarrow> nat \<times> outbound_slot \<Rightarrow> (nat \<times> nat) option" where
  "lease_candidate replay p =
     (case snd p of
        SlotReady k _ _ _ \<Rightarrow> if \<not> replay then Some (fst p, k) else None
      | SlotReplayReady k _ _ _ _ \<Rightarrow> if replay then Some (fst p, k) else None
      | _ \<Rightarrow> None)"

definition lease_slot ::
  "outbound_chunks \<Rightarrow> nat \<Rightarrow> nat \<Rightarrow> peer_message_id \<Rightarrow> nat \<Rightarrow> u8 list \<Rightarrow> bool \<Rightarrow> nat
     \<Rightarrow> chunk_write_lease option \<times> outbound_chunks" where
  "lease_slot c index callis pmid k d l s =
     (let next_seq = sat_add s 1
      in (Some \<lparr>cl_chunk_id = k, cl_data = d, cl_is_last = l, cl_peer_msg_id = pmid,
                cl_callis_id = callis, cl_slot_seq = next_seq\<rparr>,
          c\<lparr>oc_slots := (oc_slots c)[index := SlotWriting k d pmid callis l next_seq]\<rparr>))"

definition lease_matching ::
  "outbound_chunks \<Rightarrow> bool \<Rightarrow> nat \<Rightarrow> peer_message_id \<Rightarrow> chunk_write_lease option \<times> outbound_chunks" where
  "lease_matching c replay callis pmid =
     (case min_by_snd (List.map_filter (lease_candidate replay) (enumerate 0 (oc_slots c))) of
        None \<Rightarrow> (None, c)
      | Some (index, _) \<Rightarrow>
          (case oc_slots c ! index of
             SlotReady k d l s \<Rightarrow> lease_slot c index callis pmid k d l s
           | SlotReplayReady k d _ l s \<Rightarrow> lease_slot c index callis pmid k d l s
           | _ \<Rightarrow> (None, c)))"

definition chunks_lease_next ::
  "outbound_chunks \<Rightarrow> nat \<Rightarrow> peer_message_id \<Rightarrow> chunk_write_lease option \<times> outbound_chunks" where
  "chunks_lease_next c callis pmid =
     (case lease_matching c True callis pmid of
        (Some lease, c') \<Rightarrow> (Some lease, c')
      | (None, c') \<Rightarrow> lease_matching c' False callis pmid)"

definition mark_inflight :: "outbound_chunks \<Rightarrow> chunk_write_lease \<Rightarrow> bool \<times> outbound_chunks" where
  "mark_inflight c lease =
     (case oc_chunk_index c (cl_chunk_id lease) of
        None \<Rightarrow> (False, c)
      | Some index \<Rightarrow>
          if length (oc_slots c) \<le> index then (False, c)
          else case oc_slots c ! index of
            SlotWriting k d p ci l s \<Rightarrow>
              if k \<noteq> cl_chunk_id lease \<or> p \<noteq> cl_peer_msg_id lease \<or> ci \<noteq> cl_callis_id lease
                 \<or> s \<noteq> cl_slot_seq lease \<or> l \<noteq> cl_is_last lease
              then (False, c)
              else (True,
                c\<lparr>oc_slots := (oc_slots c)[index :=
                     SlotInFlight k d (cl_peer_msg_id lease) (cl_callis_id lease) l s],
                  oc_ack_map := (oc_ack_map c)(cl_peer_msg_id lease \<mapsto> cl_chunk_id lease),
                  oc_inflight := sat_add (oc_inflight c) 1\<rparr>)
          | _ \<Rightarrow> (False, c))"

text \<open>One slot of the sweep in \<open>mark_callis_replay_ready\<close>.\<close>

definition replay_slot ::
  "nat \<Rightarrow> outbound_slot \<Rightarrow> outbound_slot \<times> peer_message_id option \<times> bool" where
  "replay_slot callis s =
     (case s of
        SlotWriting k d p ci l q \<Rightarrow>
          if ci = callis then (SlotReplayReady k d callis l q, None, True) else (s, None, False)
      | SlotInFlight k d p ci l q \<Rightarrow>
          if ci = callis then (SlotReplayReady k d callis l q, Some p, True) else (s, None, False)
      | _ \<Rightarrow> (s, None, False))"

fun replay_slots ::
  "nat \<Rightarrow> outbound_slot list \<Rightarrow> (peer_message_id \<rightharpoonup> nat) \<Rightarrow> nat \<Rightarrow> bool
     \<Rightarrow> outbound_slot list \<times> (peer_message_id \<rightharpoonup> nat) \<times> nat \<times> bool" where
  "replay_slots callis [] ack inflight changed = ([], ack, inflight, changed)"
| "replay_slots callis (s # ss) ack inflight changed =
     (let (s', acked, hit) = replay_slot callis s;
          (ack', inflight') = (case acked of None \<Rightarrow> (ack, inflight) | Some p \<Rightarrow> (ack(p := None), inflight - 1));
          (ss', rest) = replay_slots callis ss ack' inflight' (changed \<or> hit)
      in (s' # ss', rest))"

definition chunks_mark_callis_replay_ready :: "outbound_chunks \<Rightarrow> nat \<Rightarrow> bool \<times> outbound_chunks" where
  "chunks_mark_callis_replay_ready c callis =
     (let (slots, ack, inflight, changed) =
            replay_slots callis (oc_slots c) (oc_ack_map c) (oc_inflight c) False
      in (changed, c\<lparr>oc_slots := slots, oc_ack_map := ack, oc_inflight := inflight\<rparr>))"

fun is_inflight_slot :: "outbound_slot \<Rightarrow> bool" where
  "is_inflight_slot (SlotInFlight _ _ _ _ _ _) = True"
| "is_inflight_slot _ = False"

definition chunks_note_completion ::
  "outbound_chunks \<Rightarrow> peer_message_id \<Rightarrow> chunk_completion \<Rightarrow> bool \<times> outbound_chunks" where
  "chunks_note_completion c pmid completion =
     (case oc_ack_map c pmid of
        None \<Rightarrow> (False, c)
      | Some k \<Rightarrow>
          let c = c\<lparr>oc_ack_map := (oc_ack_map c)(pmid := None)\<rparr>
          in case oc_chunk_index c k of
            None \<Rightarrow> (False, c)
          | Some index \<Rightarrow>
              let c = c\<lparr>oc_chunk_index := (oc_chunk_index c)(k := None)\<rparr>
              in if length (oc_slots c) \<le> index then (False, c)
                 else (True,
                   c\<lparr>oc_inflight := (if is_inflight_slot (oc_slots c ! index)
                                     then oc_inflight c - 1 else oc_inflight c),
                     oc_slots := (oc_slots c)[index := SlotEmpty]\<rparr>))"

definition has_replay_ready :: "outbound_chunks \<Rightarrow> bool" where
  "has_replay_ready c = list_ex (\<lambda>s. case s of SlotReplayReady _ _ _ _ _ \<Rightarrow> True | _ \<Rightarrow> False) (oc_slots c)"

definition has_fresh_ready :: "outbound_chunks \<Rightarrow> bool" where
  "has_fresh_ready c = list_ex (\<lambda>s. case s of SlotReady _ _ _ _ \<Rightarrow> True | _ \<Rightarrow> False) (oc_slots c)"

definition is_drained :: "outbound_chunks \<Rightarrow> bool" where
  "is_drained c \<longleftrightarrow> live_chunk_count c = 0 \<and> oc_pending_full c = None"

section \<open>Lifecycle\<close>

datatype outbound_lifecycle =
    LcOpen | LcSealing | LcAwaitingComplete | LcCompleted | LcFailed aurelia_error | LcClosed

fun lc_failure :: "outbound_lifecycle \<Rightarrow> aurelia_error option" where
  "lc_failure (LcFailed err) = Some err"
| "lc_failure _ = None"

fun lc_sender_error :: "outbound_lifecycle \<Rightarrow> unit result" where
  "lc_sender_error LcOpen = Inr ()"
| "lc_sender_error (LcFailed err) = Inl err"
| "lc_sender_error _ = Inl (err_new PeerUnavailable)"

fun lc_seal_error :: "outbound_lifecycle \<Rightarrow> unit result" where
  "lc_seal_error (LcFailed err) = Inl err"
| "lc_seal_error LcClosed = Inl (err_new PeerUnavailable)"
| "lc_seal_error _ = Inr ()"

fun is_failed :: "outbound_lifecycle \<Rightarrow> bool" where
  "is_failed (LcFailed _) = True"
| "is_failed _ = False"

definition lc_mark_sealed :: "outbound_lifecycle \<Rightarrow> outbound_lifecycle" where
  "lc_mark_sealed l = (if l = LcOpen then LcSealing else l)"

definition lc_mark_final_chunk_sent :: "outbound_lifecycle \<Rightarrow> outbound_lifecycle" where
  "lc_mark_final_chunk_sent l = (if l = LcOpen \<or> l = LcSealing then LcAwaitingComplete else l)"

definition lc_mark_complete :: "outbound_lifecycle \<Rightarrow> outbound_lifecycle" where
  "lc_mark_complete l = (if \<not> is_failed l then LcCompleted else l)"

definition lc_mark_failed :: "outbound_lifecycle \<Rightarrow> aurelia_error \<Rightarrow> outbound_lifecycle" where
  "lc_mark_failed l err = (if \<not> is_failed l then LcFailed err else l)"

definition lc_replace_failure :: "outbound_lifecycle \<Rightarrow> aurelia_error \<Rightarrow> outbound_lifecycle" where
  "lc_replace_failure l err = LcFailed err"

definition lc_mark_closed :: "outbound_lifecycle \<Rightarrow> outbound_lifecycle" where
  "lc_mark_closed l = (if \<not> is_failed l then LcClosed else l)"

definition lc_can_drain_chunks :: "outbound_lifecycle \<Rightarrow> bool" where
  "lc_can_drain_chunks l \<longleftrightarrow> \<not> (is_failed l \<or> l = LcClosed)"

definition lc_is_closed :: "outbound_lifecycle \<Rightarrow> bool" where
  "lc_is_closed l \<longleftrightarrow> l = LcClosed"

definition lc_final_chunk_materialized :: "outbound_lifecycle \<Rightarrow> bool" where
  "lc_final_chunk_materialized l \<longleftrightarrow> l = LcAwaitingComplete \<or> l = LcCompleted"

section \<open>The ring buffer\<close>

record outbound_state =
  os_lifecycle :: outbound_lifecycle
  os_chunks :: outbound_chunks

definition outbound_new :: "nat \<Rightarrow> nat \<Rightarrow> outbound_state result" where
  "outbound_new chunk_size window_size =
     (if chunk_size = 0 \<or> window_size = 0 then Inl (err_new ProtocolViolation)
      else Inr \<lparr>os_lifecycle = LcOpen, os_chunks = chunks_new chunk_size window_size\<rparr>)"

datatype try_push_available = Accepted (accepted_bytes: nat) | Full | Busy

text \<open>\<open>locked\<close> is whether \<open>try_lock\<close> obtains the mutex; the flag returned is the notification.\<close>

definition ring_try_push ::
  "outbound_state \<Rightarrow> bool \<Rightarrow> u8 list \<Rightarrow> (try_push_available result \<times> bool) \<times> outbound_state" where
  "ring_try_push st locked bytes =
     (if \<not> locked then ((Inr Busy, False), st)
      else case lc_sender_error (os_lifecycle st) of
        Inl e \<Rightarrow> ((Inl e, False), st)
      | Inr _ \<Rightarrow>
          if \<not> can_accept_bytes (os_chunks st) then ((Inr Full, False), st)
          else let ((n, notify), c) = push_available (os_chunks st) bytes
               in ((Inr (if n = 0 then Full else Accepted n), notify), st\<lparr>os_chunks := c\<rparr>))"

text \<open>One pass of the loop in \<open>seal\<close>: finished with a result, or waiting for capacity.\<close>

definition ring_seal_pass :: "outbound_state \<Rightarrow> (unit result option \<times> bool) \<times> outbound_state" where
  "ring_seal_pass st =
     (case lc_seal_error (os_lifecycle st) of
        Inl e \<Rightarrow> ((Some (Inl e), False), st)
      | Inr _ \<Rightarrow>
          if lc_final_chunk_materialized (os_lifecycle st) then ((Some (Inr ()), False), st)
          else let st = st\<lparr>os_lifecycle := lc_mark_sealed (os_lifecycle st)\<rparr>
               in case finalize (os_chunks st) of
                 (WaitForCapacity, c) \<Rightarrow> ((None, False), st\<lparr>os_chunks := c\<rparr>)
               | (Finalized notify, c) \<Rightarrow>
                   ((Some (Inr ()), notify),
                    st\<lparr>os_chunks := c, os_lifecycle := lc_mark_final_chunk_sent (os_lifecycle st)\<rparr>))"

definition ring_lease_next ::
  "outbound_state \<Rightarrow> nat \<Rightarrow> peer_message_id \<Rightarrow> chunk_write_lease option \<times> outbound_state" where
  "ring_lease_next st callis pmid =
     (if \<not> lc_can_drain_chunks (os_lifecycle st) then (None, st)
      else let (lease, c) = chunks_lease_next (os_chunks st) callis pmid
           in (lease, st\<lparr>os_chunks := c\<rparr>))"

definition ring_mark_chunk_inflight :: "outbound_state \<Rightarrow> chunk_write_lease \<Rightarrow> outbound_state" where
  "ring_mark_chunk_inflight st lease = st\<lparr>os_chunks := snd (mark_inflight (os_chunks st) lease)\<rparr>"

definition ring_mark_callis_replay_ready :: "outbound_state \<Rightarrow> nat \<Rightarrow> bool \<times> outbound_state" where
  "ring_mark_callis_replay_ready st callis =
     (let (notify, c) = chunks_mark_callis_replay_ready (os_chunks st) callis
      in (notify, st\<lparr>os_chunks := c\<rparr>))"

definition ring_has_dispatchable_replay :: "outbound_state \<Rightarrow> bool" where
  "ring_has_dispatchable_replay st \<longleftrightarrow>
     lc_can_drain_chunks (os_lifecycle st) \<and> has_replay_ready (os_chunks st)"

definition ring_has_dispatchable_fresh :: "outbound_state \<Rightarrow> bool" where
  "ring_has_dispatchable_fresh st \<longleftrightarrow>
     lc_can_drain_chunks (os_lifecycle st) \<and> has_fresh_ready (os_chunks st)"

datatype completion_note = NoteAck | NoteError aurelia_error

fun note_chunk_completion :: "completion_note \<Rightarrow> chunk_completion" where
  "note_chunk_completion NoteAck = CompletionAck"
| "note_chunk_completion (NoteError _) = CompletionError"

definition ring_note_completion ::
  "outbound_state \<Rightarrow> peer_message_id \<Rightarrow> completion_note \<Rightarrow> bool \<times> outbound_state" where
  "ring_note_completion st pmid note =
     (let (handled, c) = chunks_note_completion (os_chunks st) pmid (note_chunk_completion note);
          st = st\<lparr>os_chunks := c\<rparr>
      in case note of
           NoteError err \<Rightarrow> (True, st\<lparr>os_lifecycle := lc_replace_failure (os_lifecycle st) err\<rparr>)
         | NoteAck \<Rightarrow> (handled, st))"

definition ring_note_ack :: "outbound_state \<Rightarrow> peer_message_id \<Rightarrow> bool \<times> outbound_state" where
  "ring_note_ack st pmid = ring_note_completion st pmid NoteAck"

definition ring_note_error ::
  "outbound_state \<Rightarrow> peer_message_id \<Rightarrow> aurelia_error \<Rightarrow> bool \<times> outbound_state" where
  "ring_note_error st pmid err = ring_note_completion st pmid (NoteError err)"

definition ring_fail :: "outbound_state \<Rightarrow> aurelia_error \<Rightarrow> outbound_state" where
  "ring_fail st err = st\<lparr>os_lifecycle := lc_mark_failed (os_lifecycle st) err\<rparr>"

definition ring_mark_complete :: "outbound_state \<Rightarrow> outbound_state" where
  "ring_mark_complete st = st\<lparr>os_lifecycle := lc_mark_complete (os_lifecycle st)\<rparr>"

definition ring_close :: "outbound_state \<Rightarrow> outbound_state" where
  "ring_close st = st\<lparr>os_lifecycle := lc_mark_closed (os_lifecycle st)\<rparr>"

text \<open>The predicates the waiting operations check each time they hold the mutex.\<close>

definition check_inflight_drain :: "outbound_state \<Rightarrow> unit result option" where
  "check_inflight_drain st =
     (case lc_failure (os_lifecycle st) of
        Some err \<Rightarrow> Some (Inl err)
      | None \<Rightarrow> if oc_inflight (os_chunks st) = 0 then Some (Inr ()) else None)"

definition check_complete :: "outbound_state \<Rightarrow> unit result option" where
  "check_complete st =
     (case lc_failure (os_lifecycle st) of
        Some err \<Rightarrow> Some (Inl err)
      | None \<Rightarrow>
          if os_lifecycle st = LcCompleted \<and> is_drained (os_chunks st) then Some (Inr ()) else None)"

definition check_capacity :: "outbound_state \<Rightarrow> unit result option" where
  "check_capacity st =
     (case lc_failure (os_lifecycle st) of
        Some err \<Rightarrow> Some (Inl err)
      | None \<Rightarrow>
          if lc_is_closed (os_lifecycle st) then Some (Inl (err_new PeerUnavailable))
          else if can_accept_bytes (os_chunks st) then Some (Inr ())
          else None)"

text \<open>
  \<open>wait_for_deadline\<close> over what it observes: each round is the state under the lock, the clock read
  afterwards, and whether a notification arrived before the timer. \<open>None\<close>: still waiting.
\<close>

fun wait_for_deadline ::
  "('s \<Rightarrow> 'a result option) \<Rightarrow> instant \<Rightarrow> ('s \<times> instant \<times> bool) list \<Rightarrow> 'a result option" where
  "wait_for_deadline check deadline [] = None"
| "wait_for_deadline check deadline ((st, now, notified) # rounds) =
     (case check st of
        Some r \<Rightarrow> Some r
      | None \<Rightarrow>
          if deadline - now = 0 then Some (Inl (err_new SendTimeout))
          else if \<not> notified then Some (Inl (err_new SendTimeout))
          else wait_for_deadline check deadline rounds)"

section \<open>Invariant\<close>

fun slot_key :: "outbound_slot \<Rightarrow> nat option" where
  "slot_key SlotEmpty = None"
| "slot_key (SlotReady k _ _ _) = Some k"
| "slot_key (SlotWriting k _ _ _ _ _) = Some k"
| "slot_key (SlotInFlight k _ _ _ _ _) = Some k"
| "slot_key (SlotReplayReady k _ _ _ _) = Some k"

text \<open>What a live slot carries of its chunk: the bytes and the last flag.\<close>

fun slot_entry :: "outbound_slot \<Rightarrow> u8 list \<times> bool" where
  "slot_entry SlotEmpty = ([], False)"
| "slot_entry (SlotReady _ d l _) = (d, l)"
| "slot_entry (SlotWriting _ d _ _ l _) = (d, l)"
| "slot_entry (SlotInFlight _ d _ _ l _) = (d, l)"
| "slot_entry (SlotReplayReady _ d _ l _) = (d, l)"

lemma slot_key_None [simp]: "slot_key s = None \<longleftrightarrow> s = SlotEmpty"
  by (cases s) auto

definition pending_count :: "outbound_chunks \<Rightarrow> nat" where
  "pending_count c = (if oc_pending_full c \<noteq> None then 1 else 0)"

definition oc_shape :: "outbound_chunks \<Rightarrow> bool" where
  "oc_shape c \<longleftrightarrow>
     0 < oc_chunk_size c \<and> 0 < oc_window_size c \<and> length (oc_slots c) = oc_window_size c
     \<and> oc_window_size c \<le> u64_max
     \<and> live_chunk_count c + pending_count c \<le> oc_window_size c
     \<and> length (oc_write_buf c) \<le> oc_chunk_size c
     \<and> (\<forall>p. oc_pending_full c = Some p \<longrightarrow> length p = oc_chunk_size c)
     \<and> (\<forall>s \<in> set (oc_slots c). length (fst (slot_entry s)) \<le> oc_chunk_size c)
     \<and> oc_inflight c = length (filter is_inflight_slot (oc_slots c))
     \<and> oc_next_chunk_id c \<le> u64_max"

text \<open>The two lookup tables agree with the slots.\<close>

fun slot_flight :: "outbound_slot \<Rightarrow> (nat \<times> peer_message_id) option" where
  "slot_flight (SlotInFlight k _ p _ _ _) = Some (k, p)"
| "slot_flight _ = None"

definition index_ok :: "outbound_slot list \<Rightarrow> (nat \<rightharpoonup> nat) \<Rightarrow> bool" where
  "index_ok ss idx \<longleftrightarrow> (\<forall>k i. idx k = Some i \<longleftrightarrow> i < length ss \<and> slot_key (ss ! i) = Some k)"

definition acks_ok :: "outbound_slot list \<Rightarrow> (peer_message_id \<rightharpoonup> nat) \<Rightarrow> bool" where
  "acks_ok ss ack \<longleftrightarrow> (\<forall>p k. ack p = Some k \<longrightarrow> (\<exists>i < length ss. slot_flight (ss ! i) = Some (k, p)))"

definition oc_ids :: "outbound_chunks \<Rightarrow> bool" where
  "oc_ids c \<longleftrightarrow> index_ok (oc_slots c) (oc_chunk_index c) \<and> acks_ok (oc_slots c) (oc_ack_map c)
     \<and> (\<forall>k \<in> dom (oc_chunk_index c). k < oc_next_chunk_id c)"

lemma index_ok_inj:
  "index_ok ss idx \<Longrightarrow> i < length ss \<Longrightarrow> j < length ss \<Longrightarrow> slot_key (ss ! i) = Some k \<Longrightarrow>
     slot_key (ss ! j) = Some k \<Longrightarrow> i = j"
  by (metis index_ok_def option.inject)

lemma index_ok_add:
  assumes "index_ok ss idx" and "i < length ss" and "ss ! i = SlotEmpty" and "idx k = None"
    and "slot_key s = Some k"
  shows "index_ok (ss[i := s]) (idx(k \<mapsto> i))"
proof -
  have "slot_key (ss ! j) \<noteq> Some k" if "j < length ss" for j
    using that assms(1,4) by (metis index_ok_def option.distinct(1))
  with assms show ?thesis by (auto simp: index_ok_def nth_list_update)
qed

lemma index_ok_same:
  "index_ok ss idx \<Longrightarrow> slot_key s = slot_key (ss ! i) \<Longrightarrow> index_ok (ss[i := s]) idx"
  by (cases "i < length ss") (auto simp: index_ok_def nth_list_update list_update_beyond)

lemma index_ok_del:
  assumes "index_ok ss idx" and "idx k = Some i"
  shows "index_ok (ss[i := SlotEmpty]) (idx(k := None))"
proof -
  have "slot_key (ss ! j) \<noteq> Some k" if "j < length ss" "j \<noteq> i" for j
    using that assms by (metis index_ok_def option.inject)
  with assms show ?thesis by (auto simp: index_ok_def nth_list_update)
qed

lemma slot_flight_key: "slot_flight s = Some (k, p) \<Longrightarrow> slot_key s = Some k"
  by (cases s) auto

lemma slot_flight_iff: "is_inflight_slot s \<longleftrightarrow> slot_flight s \<noteq> None"
  by (cases s) auto

lemma acks_ok_del:
  assumes "acks_ok ss ack" and "\<And>k q. slot_flight (ss ! i) = Some (k, q) \<Longrightarrow> q \<in> P"
    and "\<And>p. p \<in> P \<Longrightarrow> ack' p = None" and "\<And>p k. ack' p = Some k \<Longrightarrow> ack p = Some k"
  shows "acks_ok (ss[i := s]) ack'"
  unfolding acks_ok_def
proof (intro allI impI)
  fix p k assume p: "ack' p = Some k"
  then obtain j where j: "j < length ss" "slot_flight (ss ! j) = Some (k, p)"
    using assms(1) assms(4) [OF p] by (auto simp: acks_ok_def)
  have "j \<noteq> i" using assms(2) [of k p] assms(3) [of p] j p by auto
  with j show "\<exists>j < length (ss[i := s]). slot_flight (ss[i := s] ! j) = Some (k, p)" by auto
qed

lemma acks_ok_keep:
  "acks_ok ss ack \<Longrightarrow> slot_flight (ss ! i) = None \<Longrightarrow> acks_ok (ss[i := s]) ack"
  by (rule acks_ok_del [where P = "{}"]) auto

lemma acks_ok_add:
  assumes "acks_ok ss ack" and "slot_flight (ss ! i) = None" and "i < length ss"
    and "slot_flight s = Some (k, p)"
  shows "acks_ok (ss[i := s]) (ack(p \<mapsto> k))"
proof -
  have "acks_ok (ss[i := s]) ack" using assms(1,2) by (rule acks_ok_keep)
  moreover have "slot_flight (ss[i := s] ! i) = Some (k, p)" using assms by simp
  ultimately show ?thesis using assms(3) by (auto simp: acks_ok_def)
qed

text \<open>
  Chunk numbers are distinct as long as the 64-bit counter has not saturated, that is for the first
  \<open>2 ^ 64 - 1\<close> chunks of a stream.
\<close>

definition oc_inv :: "outbound_chunks \<Rightarrow> bool" where
  "oc_inv c \<longleftrightarrow> oc_shape c \<and> (oc_next_chunk_id c < u64_max \<longrightarrow> oc_ids c)"

lemmas oc_defs = oc_inv_def oc_shape_def oc_ids_def

lemma live_chunk_count_update:
  "i < length (oc_slots c) \<Longrightarrow>
     live_chunk_count (c\<lparr>oc_slots := (oc_slots c)[i := s]\<rparr>) + (if oc_slots c ! i \<noteq> SlotEmpty then 1 else 0)
     = live_chunk_count c + (if s \<noteq> SlotEmpty then 1 else 0)"
  using length_filter_update [of i "oc_slots c" "\<lambda>s. s \<noteq> SlotEmpty" s] by (simp add: live_chunk_count_def)

lemma oc_inv_new: "0 < cs \<Longrightarrow> 0 < ws \<Longrightarrow> ws \<le> u64_max \<Longrightarrow> oc_inv (chunks_new cs ws)"
  by (auto simp: oc_defs chunks_new_def live_chunk_count_def pending_count_def index_ok_def acks_ok_def)

subsection \<open>Enqueueing\<close>

lemma next_empty_slot_Some:
  assumes "length (oc_slots c) = oc_window_size c" and "live_chunk_count c < oc_window_size c"
  obtains i where "next_empty_slot c = Some i" "i < oc_window_size c" "oc_slots c ! i = SlotEmpty"
proof -
  let ?n = "oc_window_size c"
  let ?is = "map (\<lambda>offset. (oc_write_cursor c + offset) mod ?n) [0..<?n]"
  obtain j where j: "j < ?n" "oc_slots c ! j = SlotEmpty"
    using length_filter_less_ex [of "\<lambda>s. s \<noteq> SlotEmpty" "oc_slots c"] assms
    by (auto simp: live_chunk_count_def)
  then obtain k where "k < ?n" "(oc_write_cursor c + k) mod ?n = j"
    using rotate_covers by blast
  then have "j \<in> set ?is" by force
  with j obtain i where i: "next_empty_slot c = Some i"
    unfolding next_empty_slot_def by (metis (mono_tags, lifting) find_None_iff option.exhaust)
  then have "i \<in> set ?is" "oc_slots c ! i = SlotEmpty"
    unfolding next_empty_slot_def by (auto simp: find_Some_iff)
  moreover from this(1) j(1) have "i < ?n" by auto
  ultimately show ?thesis using i that by blast
qed

lemma enqueue_chunk_inv:
  assumes inv: "oc_inv c" and cap: "live_chunk_count c + pending_count c < oc_window_size c"
    and size: "length d \<le> oc_chunk_size c"
  shows "oc_inv (enqueue_chunk c d l) \<and> live_chunk_count (enqueue_chunk c d l) = Suc (live_chunk_count c)
    \<and> oc_next_chunk_id (enqueue_chunk c d l) = sat_add (oc_next_chunk_id c) 1"
proof -
  obtain i where i: "next_empty_slot c = Some i" "i < oc_window_size c" "oc_slots c ! i = SlotEmpty"
    using next_empty_slot_Some [of c] inv cap by (auto simp: oc_defs)
  let ?s = "SlotReady (oc_next_chunk_id c) d l 0"
  have len: "i < length (oc_slots c)" using i inv by (simp add: oc_defs)
  have live: "live_chunk_count (enqueue_chunk c d l) = Suc (live_chunk_count c)"
    using live_chunk_count_update [OF len, of ?s] i
    by (simp add: enqueue_chunk_def live_chunk_count_def)
  have infl: "length (filter is_inflight_slot ((oc_slots c)[i := ?s])) = oc_inflight c"
    using length_filter_update [OF len, of is_inflight_slot ?s] i inv by (simp add: oc_defs)
  have shape: "oc_shape (enqueue_chunk c d l)"
    using inv cap size live infl i(1)
    by (auto simp: oc_inv_def oc_shape_def enqueue_chunk_def pending_count_def
        dest!: subsetD [OF set_update_subset_insert])
  have ids: "oc_ids (enqueue_chunk c d l)" if "sat_add (oc_next_chunk_id c) 1 < u64_max"
  proof -
    have lt: "sat_add (oc_next_chunk_id c) 1 = Suc (oc_next_chunk_id c)" "oc_next_chunk_id c < u64_max"
      using that by (auto simp: sat_add_def min_def split: if_splits)
    with inv have "oc_ids c" by (simp add: oc_inv_def)
    moreover from this have "oc_chunk_index c (oc_next_chunk_id c) = None"
      by (auto simp: oc_ids_def)
    ultimately show ?thesis
      using i lt len
      by (auto simp: oc_ids_def enqueue_chunk_def less_Suc_eq
          intro: index_ok_add acks_ok_keep)
  qed
  show ?thesis using shape ids live i(1) by (simp add: oc_inv_def enqueue_chunk_def)
qed

subsection \<open>Operations that only move chunks between slot states\<close>

text \<open>Every slot of the new state is empty or holds the chunk it held; nothing else changes.\<close>

definition settles :: "outbound_chunks \<Rightarrow> outbound_chunks \<Rightarrow> bool" where
  "settles c c' \<longleftrightarrow>
     oc_chunk_size c' = oc_chunk_size c \<and> oc_window_size c' = oc_window_size c
     \<and> oc_next_chunk_id c' = oc_next_chunk_id c \<and> oc_write_buf c' = oc_write_buf c
     \<and> oc_pending_full c' = oc_pending_full c \<and> oc_created_any c' = oc_created_any c
     \<and> length (oc_slots c') = length (oc_slots c)
     \<and> (\<forall>i < length (oc_slots c). oc_slots c' ! i = SlotEmpty
          \<or> slot_key (oc_slots c' ! i) = slot_key (oc_slots c ! i)
             \<and> slot_entry (oc_slots c' ! i) = slot_entry (oc_slots c ! i))"

lemma settles_refl [simp]: "settles c c"
  by (simp add: settles_def)

lemma settles_entry_bound:
  assumes "settles c c'" and "\<forall>s \<in> set (oc_slots c). length (fst (slot_entry s)) \<le> n"
  shows "\<forall>s \<in> set (oc_slots c'). length (fst (slot_entry s)) \<le> n"
  using assms unfolding settles_def all_set_conv_all_nth by fastforce

lemma same_key_Empty: "slot_key s = slot_key t \<Longrightarrow> s = SlotEmpty \<longleftrightarrow> t = SlotEmpty"
  by (metis slot_key_None)

lemma move_slot_settles:
  "slot_key s = slot_key (oc_slots c ! i) \<Longrightarrow> slot_entry s = slot_entry (oc_slots c ! i) \<Longrightarrow>
     settles c (c\<lparr>oc_slots := (oc_slots c)[i := s], oc_ack_map := a, oc_inflight := n\<rparr>)"
  by (cases "i < length (oc_slots c)") (auto simp: settles_def nth_list_update list_update_beyond)

lemma move_slot_inv:
  assumes inv: "oc_inv c" and i: "i < length (oc_slots c)"
    and same: "slot_key s = slot_key (oc_slots c ! i)" "slot_entry s = slot_entry (oc_slots c ! i)"
    and infl: "n + (if is_inflight_slot (oc_slots c ! i) then 1 else 0)
                 = oc_inflight c + (if is_inflight_slot s then 1 else 0)"
    and acks: "oc_ids c \<Longrightarrow> acks_ok ((oc_slots c)[i := s]) a"
  shows "oc_inv (c\<lparr>oc_slots := (oc_slots c)[i := s], oc_ack_map := a, oc_inflight := n\<rparr>)"
proof -
  let ?c = "c\<lparr>oc_slots := (oc_slots c)[i := s], oc_ack_map := a, oc_inflight := n\<rparr>"
  have live: "live_chunk_count ?c = live_chunk_count c"
    using live_chunk_count_update [OF i, of s] same_key_Empty [OF same(1)]
    by (simp add: live_chunk_count_def)
  have n: "n = length (filter is_inflight_slot ((oc_slots c)[i := s]))"
    using length_filter_update [OF i, of is_inflight_slot s] infl inv by (simp add: oc_defs split: if_splits)
  have "settles c ?c" using same by (rule move_slot_settles)
  from settles_entry_bound [OF this, of "oc_chunk_size c"] inv live n
  have "oc_shape ?c" by (simp add: oc_inv_def oc_shape_def pending_count_def)
  moreover have "oc_ids ?c" if "oc_ids c"
    using that same(1) acks by (auto simp: oc_ids_def intro: index_ok_same)
  ultimately show ?thesis using inv by (simp add: oc_inv_def)
qed

lemma min_by_snd_None [simp]: "min_by_snd xs = None \<longleftrightarrow> xs = []"
  by (cases xs) (auto split: option.splits)

lemma min_by_snd_Some: "min_by_snd xs = Some y \<Longrightarrow> y \<in> set xs \<and> (\<forall>x \<in> set xs. snd y \<le> snd x)"
proof (induction xs arbitrary: y)
  case Nil
  then show ?case by simp
next
  case (Cons a xs)
  show ?case
  proof (cases "min_by_snd xs")
    case None
    with Cons.prems show ?thesis by simp
  next
    case (Some z)
    with Cons.IH [OF Some] Cons.prems show ?thesis by (auto split: if_splits)
  qed
qed

lemma set_map_filter: "set (List.map_filter f xs) = {y. \<exists>x \<in> set xs. f x = Some y}"
  by (induction xs) (auto simp: List.map_filter_simps split: option.splits)

text \<open>A slot the replay pass (or the fresh pass) may lease.\<close>

fun leasable :: "bool \<Rightarrow> outbound_slot \<Rightarrow> bool" where
  "leasable replay (SlotReady _ _ _ _) \<longleftrightarrow> \<not> replay"
| "leasable replay (SlotReplayReady _ _ _ _ _) \<longleftrightarrow> replay"
| "leasable replay _ \<longleftrightarrow> False"

lemma leasable_live: "leasable replay s \<Longrightarrow> s \<noteq> SlotEmpty \<and> slot_flight s = None"
  by (cases s) auto

lemma lease_candidates:
  "set (List.map_filter (lease_candidate replay) (enumerate 0 ss)) =
     {(i, k). i < length ss \<and> leasable replay (ss ! i) \<and> slot_key (ss ! i) = Some k}"
proof -
  have "lease_candidate replay (i, s) = Some y \<longleftrightarrow>
      fst y = i \<and> leasable replay s \<and> slot_key s = Some (snd y)" for i s y
    by (cases s; cases y) (auto simp: lease_candidate_def)
  then show ?thesis
    by (fastforce simp: set_map_filter in_set_enumerate_eq Bex_def)
qed

text \<open>
  What a lease is: the waiting chunk with the smallest number is moved to \<open>Writing\<close> for the callis,
  with the next slot sequence number, and its bytes and last flag are those of the slot.
\<close>

definition leased_from :: "outbound_chunks \<Rightarrow> nat \<Rightarrow> chunk_write_lease \<Rightarrow> outbound_chunks \<Rightarrow> bool" where
  "leased_from c i lease c' \<longleftrightarrow>
     i < length (oc_slots c) \<and> slot_key (oc_slots c ! i) = Some (cl_chunk_id lease)
     \<and> slot_entry (oc_slots c ! i) = (cl_data lease, cl_is_last lease)
     \<and> cl_slot_seq lease = sat_add (slot_seq (oc_slots c ! i)) 1
     \<and> c' = c\<lparr>oc_slots := (oc_slots c)[i := SlotWriting (cl_chunk_id lease) (cl_data lease)
           (cl_peer_msg_id lease) (cl_callis_id lease) (cl_is_last lease) (cl_slot_seq lease)]\<rparr>"

lemma lease_matching_cases:
  "lease_matching c replay callis pmid = (None, c) \<and> (\<forall>s \<in> set (oc_slots c). \<not> leasable replay s)
   \<or> (\<exists>i lease c'. lease_matching c replay callis pmid = (Some lease, c') \<and> leased_from c i lease c'
       \<and> leasable replay (oc_slots c ! i) \<and> cl_callis_id lease = callis \<and> cl_peer_msg_id lease = pmid
       \<and> (\<forall>s \<in> set (oc_slots c). leasable replay s \<longrightarrow> cl_chunk_id lease \<le> the (slot_key s)))"
proof (cases "min_by_snd (List.map_filter (lease_candidate replay) (enumerate 0 (oc_slots c)))")
  case None
  then have "{(i, k). i < length (oc_slots c) \<and> leasable replay (oc_slots c ! i)
      \<and> slot_key (oc_slots c ! i) = Some k} = {}"
    unfolding lease_candidates [symmetric] by simp
  then have "\<not> leasable replay s" if "s \<in> set (oc_slots c)" for s
    using that leasable_live by (fastforce simp: in_set_conv_nth)
  with None show ?thesis by (simp add: lease_matching_def)
next
  case (Some y)
  obtain i k where y: "y = (i, k)" by (cases y)
  have i: "i < length (oc_slots c)" "leasable replay (oc_slots c ! i)" "slot_key (oc_slots c ! i) = Some k"
    using min_by_snd_Some [OF Some] y unfolding lease_candidates by auto
  have least: "k \<le> the (slot_key s)" if mem: "s \<in> set (oc_slots c)" and lea: "leasable replay s" for s
  proof -
    obtain j where "j < length (oc_slots c)" "s = oc_slots c ! j"
      using mem by (metis in_set_conv_nth)
    moreover have "slot_key s \<noteq> None" using lea by (cases s) auto
    ultimately show ?thesis
      using min_by_snd_Some [OF Some] y lea unfolding lease_candidates by force
  qed
  from i Some y least show ?thesis
    by (cases "oc_slots c ! i")
      (fastforce simp: lease_matching_def lease_slot_def leased_from_def Let_def)+
qed

lemma leased_from_inv:
  assumes "oc_inv c" and "leased_from c i lease c'" and "slot_flight (oc_slots c ! i) = None"
  shows "oc_inv c' \<and> settles c c'"
proof -
  let ?s = "SlotWriting (cl_chunk_id lease) (cl_data lease) (cl_peer_msg_id lease)
    (cl_callis_id lease) (cl_is_last lease) (cl_slot_seq lease)"
  have c': "c' = c\<lparr>oc_slots := (oc_slots c)[i := ?s], oc_ack_map := oc_ack_map c, oc_inflight := oc_inflight c\<rparr>"
    using assms(2) by (simp add: leased_from_def)
  have same: "slot_key ?s = slot_key (oc_slots c ! i)" "slot_entry ?s = slot_entry (oc_slots c ! i)"
    using assms(2) by (simp_all add: leased_from_def)
  show ?thesis
    unfolding c'
    using assms same
    by (intro conjI move_slot_inv move_slot_settles)
      (auto simp: leased_from_def slot_flight_iff oc_ids_def intro: acks_ok_keep)
qed

lemma lease_next_cases:
  "chunks_lease_next c callis pmid = (None, c)
     \<and> (\<forall>s \<in> set (oc_slots c). \<not> leasable True s \<and> \<not> leasable False s)
   \<or> (\<exists>i lease c'. chunks_lease_next c callis pmid = (Some lease, c') \<and> leased_from c i lease c'
       \<and> slot_flight (oc_slots c ! i) = None \<and> cl_callis_id lease = callis \<and> cl_peer_msg_id lease = pmid)"
  using lease_matching_cases [of c True callis pmid] lease_matching_cases [of c False callis pmid]
    leasable_live
  by (fastforce simp: chunks_lease_next_def)

lemma lease_next_inv:
  "oc_inv c \<Longrightarrow> oc_inv (snd (chunks_lease_next c callis pmid)) \<and> settles c (snd (chunks_lease_next c callis pmid))"
  using lease_next_cases [of c callis pmid] leased_from_inv [of c] by fastforce

lemma mark_inflight_inv:
  assumes inv: "oc_inv c"
  shows "oc_inv (snd (mark_inflight c lease)) \<and> settles c (snd (mark_inflight c lease))"
proof (cases "fst (mark_inflight c lease)")
  case False
  then have "snd (mark_inflight c lease) = c"
    by (auto simp: mark_inflight_def split: option.splits if_splits outbound_slot.splits)
  with inv show ?thesis by simp
next
  case True
  then obtain i k d p ci l s where lease: "oc_chunk_index c (cl_chunk_id lease) = Some i"
      "k = cl_chunk_id lease" "p = cl_peer_msg_id lease" "ci = cl_callis_id lease"
      "s = cl_slot_seq lease" "l = cl_is_last lease"
    and i: "i < length (oc_slots c)" "oc_slots c ! i = SlotWriting k d p ci l s"
    by (simp add: mark_inflight_def not_le split: option.splits if_splits outbound_slot.splits)
  then have eq: "snd (mark_inflight c lease) =
      c\<lparr>oc_slots := (oc_slots c)[i := SlotInFlight k d p ci l s],
        oc_ack_map := (oc_ack_map c)(p \<mapsto> k), oc_inflight := sat_add (oc_inflight c) 1\<rparr>"
    by (simp add: mark_inflight_def)
  have "SlotWriting k d p ci l s \<in> set (oc_slots c)" using i by (metis nth_mem)
  from length_filter_less [OF this, of is_inflight_slot] have "oc_inflight c < length (oc_slots c)"
    using inv by (simp add: oc_defs)
  then have sat: "sat_add (oc_inflight c) 1 = Suc (oc_inflight c)"
    using inv by (simp add: sat_add_def oc_defs)
  show ?thesis
    unfolding eq sat
    using inv i
    by (intro conjI move_slot_inv move_slot_settles) (auto simp: oc_ids_def intro: acks_ok_add)
qed

text \<open>The sweep for a lost callis, slot by slot.\<close>

definition swept :: "nat \<Rightarrow> outbound_slot \<Rightarrow> bool" where
  "swept callis s = (case s of SlotWriting _ _ _ ci _ _ \<Rightarrow> ci = callis
     | SlotInFlight _ _ _ ci _ _ \<Rightarrow> ci = callis | _ \<Rightarrow> False)"

lemma replay_slot_swept:
  "\<not> swept callis s \<Longrightarrow> replay_slot callis s = (s, None, False)"
  "swept callis s \<Longrightarrow> replay_slot callis s =
     (SlotReplayReady (the (slot_key s)) (fst (slot_entry s)) callis (snd (slot_entry s)) (slot_seq s),
      map_option snd (slot_flight s), True)"
  by (cases s; auto simp: replay_slot_def swept_def)+

lemma swept_key: "swept callis s \<Longrightarrow> Some (the (slot_key s)) = slot_key s"
  by (cases s) (simp_all add: swept_def)

lemma replay_slot_key:
  "slot_key (fst (replay_slot callis s)) = slot_key s" "slot_entry (fst (replay_slot callis s)) = slot_entry s"
  by (cases s; auto simp: replay_slot_def)+

definition swept_flights :: "nat \<Rightarrow> outbound_slot list \<Rightarrow> peer_message_id set" where
  "swept_flights callis ss = {p. \<exists>s \<in> set ss. swept callis s \<and> map_option snd (slot_flight s) = Some p}"

lemma replay_slots_eq:
  "n = length (filter is_inflight_slot ss) + m \<Longrightarrow>
   replay_slots callis ss ack n ch =
     (map (\<lambda>s. fst (replay_slot callis s)) ss, ack |` (- swept_flights callis ss),
      length (filter is_inflight_slot (map (\<lambda>s. fst (replay_slot callis s)) ss)) + m,
      ch \<or> list_ex (swept callis) ss)"
proof (induction ss arbitrary: ack n ch m)
  case Nil
  then show ?case by (simp add: swept_flights_def)
next
  case (Cons s ss)
  have set_eq: "swept_flights callis (s # ss) = swept_flights callis ss \<union>
      (if swept callis s then set_option (map_option snd (slot_flight s)) else {})"
    by (auto simp: swept_flights_def)
  show ?case
  proof (cases "swept callis s")
    case False
    then show ?thesis
      using Cons.IH [of n m] Cons.IH [of n "Suc m"] Cons.prems
      by (cases "is_inflight_slot s") (simp_all add: replay_slot_swept set_eq)
  next
    case True
    show ?thesis
    proof (cases "slot_flight s")
      case None
      with True show ?thesis
        using Cons.IH [of n m] Cons.prems
        by (auto simp: replay_slot_swept set_eq slot_flight_iff)
    next
      case (Some kp)
      then have infl: "is_inflight_slot s" by (simp add: slot_flight_iff)
      have acks: "(ack(snd kp := None)) |` (- swept_flights callis ss)
          = ack |` (- swept_flights callis (s # ss))"
        using True Some by (auto simp: set_eq restrict_map_def fun_eq_iff)
      have "replay_slots callis ss (ack(snd kp := None)) (n - 1) True =
          (map (\<lambda>s. fst (replay_slot callis s)) ss, ack |` (- swept_flights callis (s # ss)),
           length (filter is_inflight_slot (map (\<lambda>s. fst (replay_slot callis s)) ss)) + m, True)"
        by (subst Cons.IH [of "n - 1" m]) (use Cons.prems infl acks in simp_all)
      with True Some show ?thesis by (simp add: replay_slot_swept)
    qed
  qed
qed

lemma mark_callis_replay_ready_eq:
  assumes inv: "oc_inv c"
  shows "chunks_mark_callis_replay_ready c callis =
    (list_ex (swept callis) (oc_slots c),
     c\<lparr>oc_slots := map (\<lambda>s. fst (replay_slot callis s)) (oc_slots c),
       oc_ack_map := oc_ack_map c |` (- swept_flights callis (oc_slots c)),
       oc_inflight := length (filter is_inflight_slot (map (\<lambda>s. fst (replay_slot callis s)) (oc_slots c)))\<rparr>)"
  using inv replay_slots_eq [of "oc_inflight c" "oc_slots c" 0 callis "oc_ack_map c" False]
  by (simp add: chunks_mark_callis_replay_ready_def oc_defs)

lemma mark_callis_replay_ready_inv:
  assumes inv: "oc_inv c"
  shows "oc_inv (snd (chunks_mark_callis_replay_ready c callis))
    \<and> settles c (snd (chunks_mark_callis_replay_ready c callis))"
proof -
  let ?c = "snd (chunks_mark_callis_replay_ready c callis)"
  let ?f = "\<lambda>s. fst (replay_slot callis s)"
  note eq = mark_callis_replay_ready_eq [OF inv, of callis]
  have same: "slot_key (?f s) = slot_key s" "slot_entry (?f s) = slot_entry s" for s
    by (simp_all add: replay_slot_key)
  have set: "settles c ?c" unfolding eq by (simp add: settles_def same)
  have live: "live_chunk_count ?c = live_chunk_count c"
    unfolding eq by (simp add: live_chunk_count_def filter_map comp_def same_key_Empty [OF same(1)])
  have shape: "oc_shape ?c"
    using inv live settles_entry_bound [OF set, of "oc_chunk_size c"]
    unfolding eq by (simp add: oc_inv_def oc_shape_def pending_count_def)
  have "acks_ok (map ?f (oc_slots c)) (oc_ack_map c |` (- swept_flights callis (oc_slots c)))"
    if "acks_ok (oc_slots c) (oc_ack_map c)"
    unfolding acks_ok_def
  proof (intro allI impI)
    fix p k
    assume "(oc_ack_map c |` (- swept_flights callis (oc_slots c))) p = Some k"
    then have p: "oc_ack_map c p = Some k" "p \<notin> swept_flights callis (oc_slots c)"
      by (auto simp: restrict_map_def split: if_splits)
    with that obtain i where i: "i < length (oc_slots c)" "slot_flight (oc_slots c ! i) = Some (k, p)"
      by (auto simp: acks_ok_def)
    with p(2) have "\<not> swept callis (oc_slots c ! i)" by (auto simp: swept_flights_def)
    with i show "\<exists>i < length (map ?f (oc_slots c)). slot_flight (map ?f (oc_slots c) ! i) = Some (k, p)"
      by (auto simp: replay_slot_swept)
  qed
  moreover have "index_ok (map ?f (oc_slots c)) (oc_chunk_index c)" if "index_ok (oc_slots c) (oc_chunk_index c)"
    using that by (simp add: index_ok_def same cong: conj_cong)
  ultimately have "oc_ids ?c" if "oc_ids c" using that unfolding eq by (simp add: oc_ids_def)
  with shape set inv show ?thesis unfolding eq by (simp add: oc_inv_def)
qed

text \<open>An acknowledged frame frees the slot of its chunk.\<close>

lemma free_slot_shape:
  assumes shape: "oc_shape c" and i: "i < length (oc_slots c)"
  shows "oc_shape (c\<lparr>oc_ack_map := a, oc_chunk_index := x,
      oc_inflight := (if is_inflight_slot (oc_slots c ! i) then oc_inflight c - 1 else oc_inflight c),
      oc_slots := (oc_slots c)[i := SlotEmpty]\<rparr>)" (is "oc_shape ?c")
    and "settles c (c\<lparr>oc_ack_map := a, oc_chunk_index := x,
      oc_inflight := (if is_inflight_slot (oc_slots c ! i) then oc_inflight c - 1 else oc_inflight c),
      oc_slots := (oc_slots c)[i := SlotEmpty]\<rparr>)"
proof -
  show set: "settles c ?c" using i by (simp add: settles_def nth_list_update)
  have live: "live_chunk_count ?c \<le> live_chunk_count c"
    using live_chunk_count_update [OF i, of SlotEmpty] by (simp add: live_chunk_count_def split: if_splits)
  have infl: "oc_inflight ?c = length (filter is_inflight_slot ((oc_slots c)[i := SlotEmpty]))"
    using length_filter_update [OF i, of is_inflight_slot SlotEmpty] shape
    by (simp add: oc_shape_def split: if_splits)
  show "oc_shape ?c"
    using shape live infl settles_entry_bound [OF set, of "oc_chunk_size c"]
    by (simp add: oc_shape_def pending_count_def)
qed

lemma note_completion_shape:
  assumes "oc_shape c"
  shows "oc_shape (snd (chunks_note_completion c p completion))
    \<and> settles c (snd (chunks_note_completion c p completion))"
proof -
  have maps: "oc_shape (c\<lparr>oc_ack_map := a, oc_chunk_index := x\<rparr>)"
    "settles c (c\<lparr>oc_ack_map := a, oc_chunk_index := x\<rparr>)" for a x
    using assms by (simp_all add: oc_shape_def live_chunk_count_def pending_count_def settles_def)
  show ?thesis
  proof (cases "\<exists>k i. oc_ack_map c p = Some k \<and> oc_chunk_index c k = Some i \<and> i < length (oc_slots c)")
    case True
    then obtain k i where ki: "oc_ack_map c p = Some k" "oc_chunk_index c k = Some i" "i < length (oc_slots c)"
      by blast
    then have "snd (chunks_note_completion c p completion) =
        c\<lparr>oc_ack_map := (oc_ack_map c)(p := None), oc_chunk_index := (oc_chunk_index c)(k := None),
          oc_inflight := (if is_inflight_slot (oc_slots c ! i) then oc_inflight c - 1 else oc_inflight c),
          oc_slots := (oc_slots c)[i := SlotEmpty]\<rparr>"
      by (simp add: chunks_note_completion_def)
    with free_slot_shape [OF assms ki(3)] show ?thesis by simp
  next
    case False
    with maps [of "oc_chunk_index c"] maps assms show ?thesis
      by (auto simp: chunks_note_completion_def Let_def split: option.splits)
  qed
qed

text \<open>On distinct chunk numbers the freed slot is the one that was in flight under this frame.\<close>

lemma note_completion_eq:
  assumes ids: "oc_ids c" and p: "oc_ack_map c p = Some k"
  obtains i where "i < length (oc_slots c)" "slot_flight (oc_slots c ! i) = Some (k, p)"
    "oc_chunk_index c k = Some i"
    "chunks_note_completion c p completion =
       (True, c\<lparr>oc_ack_map := (oc_ack_map c)(p := None), oc_chunk_index := (oc_chunk_index c)(k := None),
          oc_inflight := oc_inflight c - 1, oc_slots := (oc_slots c)[i := SlotEmpty]\<rparr>)"
proof -
  have "\<exists>i < length (oc_slots c). slot_flight (oc_slots c ! i) = Some (k, p)"
    using ids p unfolding oc_ids_def acks_ok_def by blast
  then obtain i where i: "i < length (oc_slots c)" "slot_flight (oc_slots c ! i) = Some (k, p)"
    by blast
  then have idx: "oc_chunk_index c k = Some i"
    using ids slot_flight_key by (fastforce simp: oc_ids_def index_ok_def)
  have "is_inflight_slot (oc_slots c ! i)" using i by (simp add: slot_flight_iff)
  with p idx i show thesis by (intro that) (simp_all add: chunks_note_completion_def)
qed

lemma note_completion_ids:
  assumes "oc_ids c"
  shows "oc_ids (snd (chunks_note_completion c p completion))"
proof (cases "oc_ack_map c p")
  case None
  with assms show ?thesis by (simp add: chunks_note_completion_def)
next
  case (Some k)
  obtain i where i: "i < length (oc_slots c)" "slot_flight (oc_slots c ! i) = Some (k, p)"
    "oc_chunk_index c k = Some i"
    "chunks_note_completion c p completion =
       (True, c\<lparr>oc_ack_map := (oc_ack_map c)(p := None), oc_chunk_index := (oc_chunk_index c)(k := None),
          oc_inflight := oc_inflight c - 1, oc_slots := (oc_slots c)[i := SlotEmpty]\<rparr>)"
    using note_completion_eq [OF assms Some] .
  then show ?thesis
    using assms unfolding oc_ids_def
    by (auto intro!: index_ok_del acks_ok_del [where P = "{p}"] split: if_splits)
qed

lemma note_completion_inv:
  "oc_inv c \<Longrightarrow> oc_inv (snd (chunks_note_completion c p completion))
    \<and> settles c (snd (chunks_note_completion c p completion))"
  using note_completion_shape [of c p completion] note_completion_ids [of c p completion]
  by (auto simp: oc_inv_def settles_def)

end
