(* ===== verification/Outbound_Stream.thy ===== *)
theory Outbound_Stream
  imports Outbound_Ring
begin

text \<open>
  The sending side as a whole: its operations as data, and what a run of them puts on the wire.
  A stream has a log, the chunks in the order they were numbered; the lemmas show that the log holds
  the bytes the application handed over, that only its final entry carries the last flag, and that
  every lease, fresh or replayed, carries the log entry of its number.
\<close>

section \<open>What is numbered and what is still buffered\<close>

definition tail_bytes :: "outbound_chunks \<Rightarrow> u8 list" where
  "tail_bytes c = (case oc_pending_full c of None \<Rightarrow> [] | Some p \<Rightarrow> p) @ oc_write_buf c"

definition slots_log :: "outbound_chunks \<Rightarrow> (u8 list \<times> bool) list \<Rightarrow> bool" where
  "slots_log c log \<longleftrightarrow> length log = oc_next_chunk_id c
     \<and> (\<forall>s \<in> set (oc_slots c). \<forall>k. slot_key s = Some k \<longrightarrow> k < length log \<and> slot_entry s = log ! k)"

text \<open>The step from \<open>c\<close> to \<open>c'\<close> numbers the chunks \<open>new\<close> and takes in the bytes \<open>bs\<close>.\<close>

definition emits :: "outbound_chunks \<Rightarrow> outbound_chunks \<Rightarrow> (u8 list \<times> bool) list \<Rightarrow> u8 list \<Rightarrow> bool" where
  "emits c c' new bs \<longleftrightarrow> oc_next_chunk_id c \<le> oc_next_chunk_id c'
     \<and> (oc_next_chunk_id c' < u64_max \<longrightarrow>
          (\<forall>log. slots_log c log \<longrightarrow> slots_log c' (log @ new))
          \<and> concat (map fst new) @ tail_bytes c' = tail_bytes c @ bs)"

lemma emits_trans:
  assumes "emits c c' new bs" and "emits c' c'' new' bs'"
  shows "emits c c'' (new @ new') (bs @ bs')"
  using assms unfolding emits_def by (auto simp flip: append_assoc) (metis append_assoc)

lemma emits_settles:
  assumes "settles c c'"
  shows "emits c c' [] []"
proof -
  have "slots_log c' log" if "slots_log c log" for log
    using that assms unfolding slots_log_def settles_def all_set_conv_all_nth
    by (metis option.distinct(1) slot_key.simps(1))
  with assms show ?thesis by (simp add: emits_def settles_def tail_bytes_def)
qed

lemma slots_log_cong:
  "oc_slots c' = oc_slots c \<Longrightarrow> oc_next_chunk_id c' = oc_next_chunk_id c \<Longrightarrow> slots_log c' = slots_log c"
  by (simp add: slots_log_def fun_eq_iff)

subsection \<open>Numbering one chunk\<close>

lemma free_slot:
  assumes "oc_inv c" and "live_chunk_count c + pending_count c < oc_window_size c"
  obtains i where "next_empty_slot c = Some i" "i < oc_window_size c"
  by (rule next_empty_slot_Some [of c]) (use assms in \<open>auto simp: oc_defs\<close>)

lemma enqueue_slots_log:
  assumes inv: "oc_inv c" and cap: "live_chunk_count c + pending_count c < oc_window_size c"
    and lim: "oc_next_chunk_id c < u64_max" and log: "slots_log c log"
  shows "slots_log (enqueue_chunk c d l) (log @ [(d, l)])"
proof -
  obtain i where i: "next_empty_slot c = Some i" "i < oc_window_size c"
    by (rule free_slot [OF inv cap])
  have "sat_add (oc_next_chunk_id c) 1 = Suc (oc_next_chunk_id c)" using lim by (simp add: sat_add_def)
  with i log show ?thesis
    by (auto simp: slots_log_def enqueue_chunk_def nth_append less_Suc_eq
        dest!: subsetD [OF set_update_subset_insert])
qed

lemma enqueue_next:
  "oc_inv c \<Longrightarrow> live_chunk_count c + pending_count c < oc_window_size c \<Longrightarrow>
     oc_next_chunk_id c \<le> oc_next_chunk_id (enqueue_chunk c d l)
     \<and> (oc_next_chunk_id (enqueue_chunk c d l) < u64_max \<longrightarrow> oc_next_chunk_id c < u64_max)"
  by (frule (1) free_slot) (auto simp: oc_defs enqueue_chunk_def sat_add_def)

text \<open>The pending chunk leaves the buffer for the log; the buffers may change in the same step.\<close>

lemma enqueue_emits:
  assumes inv: "oc_inv c1" and cap: "live_chunk_count c1 + pending_count c1 < oc_window_size c1"
    and same: "oc_slots c1 = oc_slots c" "oc_next_chunk_id c1 = oc_next_chunk_id c"
    and bytes: "d @ tail_bytes (enqueue_chunk c1 d l) = tail_bytes c"
  shows "emits c (enqueue_chunk c1 d l) [(d, l)] []"
  using enqueue_next [OF inv cap, of d l] enqueue_slots_log [OF inv cap] bytes
    slots_log_cong [OF same] same(2)
  unfolding emits_def by simp

lemma oc_inv_buffers:
  assumes "oc_inv c" and "length w \<le> oc_chunk_size c"
    and "p = oc_pending_full c \<or> p = None"
  shows "oc_inv (c\<lparr>oc_write_buf := w, oc_pending_full := p, oc_created_any := a\<rparr>)"
  using assms(3,1,2) by (elim disjE) (simp_all add: oc_defs live_chunk_count_def pending_count_def split: if_splits)

lemma flush_pending_spec:
  assumes inv: "oc_inv c" and p: "oc_pending_full c = Some p"
  shows "oc_inv (fst (flush_pending c))" "emits c (fst (flush_pending c)) [(p, False)] []"
    "oc_pending_full (fst (flush_pending c)) = None"
    "live_chunk_count (fst (flush_pending c)) = Suc (live_chunk_count c)"
proof -
  let ?c = "c\<lparr>oc_pending_full := None\<rparr>"
  have inv': "oc_inv ?c" using oc_inv_buffers [OF inv, of "oc_write_buf c" None "oc_created_any c"] inv
    by (simp add: oc_defs)
  have cap: "live_chunk_count ?c + pending_count ?c < oc_window_size ?c"
    using inv p by (simp add: oc_defs pending_count_def live_chunk_count_def)
  have size: "length p \<le> oc_chunk_size ?c" using inv p by (simp add: oc_defs)
  have eq: "fst (flush_pending c) = enqueue_chunk ?c p False" using p by (simp add: flush_pending_def)
  show "oc_inv (fst (flush_pending c))" "live_chunk_count (fst (flush_pending c)) = Suc (live_chunk_count c)"
    using enqueue_chunk_inv [OF inv' cap size] unfolding eq by (simp_all add: live_chunk_count_def)
  show "oc_pending_full (fst (flush_pending c)) = None" unfolding eq by simp
  show "emits c (fst (flush_pending c)) [(p, False)] []"
    unfolding eq using p by (intro enqueue_emits [OF inv' cap]) (simp_all add: tail_bytes_def)
qed

subsection \<open>Taking bytes in\<close>

lemma fill_write_buf_spec:
  assumes "oc_inv c"
  shows "oc_inv (fst (fill_write_buf c bytes n))"
    "emits c (fst (fill_write_buf c bytes n)) [] (take (snd (fill_write_buf c bytes n) - n) (drop n bytes))"
    "oc_pending_full (fst (fill_write_buf c bytes n)) = oc_pending_full c"
    "oc_created_any (fst (fill_write_buf c bytes n)) = oc_created_any c"
    "n \<le> length bytes \<Longrightarrow> snd (fill_write_buf c bytes n) \<le> length bytes"
proof -
  let ?w = "oc_write_buf c @ take (min (length bytes - n) (oc_chunk_size c - length (oc_write_buf c))) (drop n bytes)"
  have eq: "fst (fill_write_buf c bytes n) = c\<lparr>oc_write_buf := ?w\<rparr>"
    by (simp add: fill_write_buf_def Let_def)
  have "length ?w \<le> oc_chunk_size c" using assms by (auto simp: oc_defs)
  from oc_inv_buffers [OF assms this, of "oc_pending_full c" "oc_created_any c"]
  show "oc_inv (fst (fill_write_buf c bytes n))" unfolding eq by simp
  show "emits c (fst (fill_write_buf c bytes n)) [] (take (snd (fill_write_buf c bytes n) - n) (drop n bytes))"
    using slots_log_cong [of "c\<lparr>oc_write_buf := ?w\<rparr>" c]
    unfolding eq by (simp add: emits_def tail_bytes_def)
qed (simp_all add: fill_write_buf_def Let_def)

definition released :: "u8 list option \<Rightarrow> (u8 list \<times> bool) list" where
  "released p = (case p of None \<Rightarrow> [] | Some d \<Rightarrow> [(d, False)])"

lemma cut_chunk_spec:
  assumes inv: "oc_inv c" and full: "oc_chunk_size c \<le> length (oc_write_buf c)"
    and cap: "has_window_capacity_for c 1"
  shows "oc_inv (fst (cut_chunk c))" "emits c (fst (cut_chunk c)) (released (oc_pending_full c)) []"
    "oc_pending_full (fst (cut_chunk c)) \<noteq> None" "oc_write_buf (fst (cut_chunk c)) = []"
proof -
  let ?d = "oc_write_buf c"
  let ?c1 = "c\<lparr>oc_write_buf := [], oc_created_any := True\<rparr>"
  have len: "length ?d = oc_chunk_size c" using inv full by (simp add: oc_defs)
  have inv1: "oc_inv ?c1" using oc_inv_buffers [OF inv, of "[]" "oc_pending_full c" True] by simp
  let ?c2 = "fst (flush_pending ?c1)"
  have eq: "fst (cut_chunk c) = ?c2\<lparr>oc_pending_full := Some ?d\<rparr>"
    using len by (simp add: cut_chunk_def Let_def split_beta)
  have c2: "oc_inv ?c2 \<and> oc_pending_full ?c2 = None \<and> live_chunk_count ?c2 < oc_window_size c
      \<and> emits ?c1 ?c2 (released (oc_pending_full c)) []"
  proof (cases "oc_pending_full c")
    case None
    with inv1 cap show ?thesis
      by (simp add: flush_pending_def has_window_capacity_for_def live_chunk_count_def released_def
          emits_settles)
  next
    case (Some p)
    with flush_pending_spec [OF inv1, of p] cap show ?thesis
      by (simp add: has_window_capacity_for_def live_chunk_count_def released_def)
  qed
  then show "oc_inv (fst (cut_chunk c))"
    unfolding eq using len by (simp add: oc_defs live_chunk_count_def pending_count_def)
  show "emits c (fst (cut_chunk c)) (released (oc_pending_full c)) []"
    unfolding eq using c2 slots_log_cong [of ?c1 c] slots_log_cong [of "?c2\<lparr>oc_pending_full := Some ?d\<rparr>" ?c2]
    by (auto simp: emits_def tail_bytes_def)
  show "oc_pending_full (fst (cut_chunk c)) \<noteq> None" "oc_write_buf (fst (cut_chunk c)) = []"
    unfolding eq by simp_all
qed

text \<open>While bytes may still come, a stream that has cut a chunk holds something back for the last flag.\<close>

definition keeps_tail :: "outbound_chunks \<Rightarrow> bool" where
  "keeps_tail c \<longleftrightarrow> (oc_created_any c \<longrightarrow> oc_pending_full c \<noteq> None \<or> oc_write_buf c \<noteq> [])"

abbreviation no_last :: "(u8 list \<times> bool) list \<Rightarrow> bool" where
  "no_last new \<equiv> \<forall>e \<in> set new. \<not> snd e"

text \<open>The bytes from position \<open>n\<close> up to \<open>n'\<close> have been taken in.\<close>

definition takes_in :: "outbound_chunks \<Rightarrow> outbound_chunks \<Rightarrow> u8 list \<Rightarrow> nat \<Rightarrow> nat \<Rightarrow> bool" where
  "takes_in c c' bytes n n' \<longleftrightarrow> oc_inv c' \<and> n \<le> n' \<and> n' \<le> length bytes \<and> (keeps_tail c \<longrightarrow> keeps_tail c')
     \<and> (\<exists>new. no_last new \<and> emits c c' new (take (n' - n) (drop n bytes)))"

lemma takes_in_trans:
  assumes "takes_in c c' bytes n n'" and "takes_in c' c'' bytes n' n''"
  shows "takes_in c c'' bytes n n''"
proof -
  obtain new new' where new: "no_last (new @ new')"
    "emits c c' new (take (n' - n) (drop n bytes))" "emits c' c'' new' (take (n'' - n') (drop n' bytes))"
    using assms unfolding takes_in_def by force
  have "take (n' - n) (drop n bytes) @ take (n'' - n') (drop n' bytes) = take (n'' - n) (drop n bytes)"
    using assms take_add [of "n' - n" "n'' - n'" "drop n bytes"] by (simp add: takes_in_def)
  with emits_trans [OF new(2,3)] new(1) assms show ?thesis
    unfolding takes_in_def by (metis le_trans)
qed

lemma fill_takes_in:
  "oc_inv c \<Longrightarrow> n \<le> length bytes \<Longrightarrow>
     takes_in c (fst (fill_write_buf c bytes n)) bytes n (snd (fill_write_buf c bytes n))"
  using fill_write_buf_spec [where c = c and bytes = bytes and n = n]
  unfolding takes_in_def keeps_tail_def by (intro conjI exI [of _ "[]"]) auto

lemma cut_takes_in:
  "oc_inv c \<Longrightarrow> n \<le> length bytes \<Longrightarrow> oc_chunk_size c \<le> length (oc_write_buf c) \<Longrightarrow>
     has_window_capacity_for c 1 \<Longrightarrow> takes_in c (fst (cut_chunk c)) bytes n n"
  using cut_chunk_spec [of c]
  by (auto simp: takes_in_def keeps_tail_def released_def intro!: exI [of _ "released (oc_pending_full c)"]
      split: option.splits)

lemma push_loop_takes_in:
  "oc_inv c \<Longrightarrow> n \<le> length bytes \<Longrightarrow>
     takes_in c (fst (push_loop c bytes n notify)) bytes n (fst (snd (push_loop c bytes n notify)))"
proof (induction c bytes n notify rule: push_loop.induct)
  case (1 c bytes n notify)
  show ?case
  proof (cases "0 < oc_chunk_size c \<and> oc_chunk_size c \<le> length (oc_write_buf c) \<and> has_window_capacity_for c 1")
    case False
    with 1(2,3) show ?thesis
      by (auto simp: push_loop.simps [of c] takes_in_def emits_settles intro!: exI [of _ "[]"])
  next
    case guard: True
    let ?c = "fst (cut_chunk c)"
    have cut: "takes_in c ?c bytes n n" using cut_takes_in 1(2,3) guard by blast
    show ?thesis
    proof (cases "length bytes \<le> n")
      case True
      with guard cut show ?thesis by (simp add: push_loop.simps [of c] split_beta)
    next
      case False
      let ?f = "fill_write_buf ?c bytes n"
      have fill: "takes_in ?c (fst ?f) bytes n (snd ?f)"
        using cut 1(3) by (intro fill_takes_in) (simp_all add: takes_in_def)
      have rest: "takes_in (fst ?f) (fst (push_loop (fst ?f) bytes (snd ?f) (notify \<or> snd (cut_chunk c)))) bytes
          (snd ?f) (fst (snd (push_loop (fst ?f) bytes (snd ?f) (notify \<or> snd (cut_chunk c)))))"
        using fill by (intro 1(1) [OF guard refl prod.collapse False refl prod.collapse])
          (simp_all add: takes_in_def)
      have "push_loop c bytes n notify = push_loop (fst ?f) bytes (snd ?f) (notify \<or> snd (cut_chunk c))"
        using guard False by (simp add: push_loop.simps [of c] split_beta)
      with takes_in_trans [OF cut takes_in_trans [OF fill rest]] show ?thesis by simp
    qed
  qed
qed

lemma push_available_takes_in:
  assumes "oc_inv c"
  shows "takes_in c (snd (push_available c bytes)) bytes 0 (fst (fst (push_available c bytes)))"
proof -
  define f where "f = fill_write_buf c bytes 0"
  define l where "l = push_loop (fst f) bytes (snd f) False"
  have f: "takes_in c (fst f) bytes 0 (snd f)" unfolding f_def using assms by (intro fill_takes_in) simp_all
  then have l: "takes_in (fst f) (fst l) bytes (snd f) (fst (snd l))"
    unfolding l_def by (intro push_loop_takes_in) (simp_all add: takes_in_def)
  have fl: "takes_in c (fst l) bytes 0 (fst (snd l))" using f l by (rule takes_in_trans)
  define c' where "c' = (if oc_pending_full (fst l) \<noteq> None \<and> oc_write_buf (fst l) \<noteq> []
    then fst (flush_pending (fst l)) else fst l)"
  have inv: "oc_inv (fst l)" and n: "fst (snd l) \<le> length bytes" using l by (simp_all add: takes_in_def)
  have "takes_in (fst l) c' bytes (fst (snd l)) (fst (snd l))"
  proof (cases "oc_pending_full (fst l) \<noteq> None \<and> oc_write_buf (fst l) \<noteq> []")
    case False
    with inv n show ?thesis
      by (auto simp: c'_def takes_in_def emits_settles intro!: exI [of _ "[]"])
  next
    case True
    then obtain p where p: "oc_pending_full (fst l) = Some p" by blast
    with True flush_pending_spec [OF inv p] n show ?thesis
      by (auto simp: c'_def takes_in_def keeps_tail_def intro!: exI [of _ "[(p, False)]"])
  qed
  with fl have "takes_in c c' bytes 0 (fst (snd l))" by (rule takes_in_trans)
  moreover have "push_available c bytes = ((fst (snd l), snd (snd l) \<or>
      snd (if oc_pending_full (fst l) \<noteq> None \<and> oc_write_buf (fst l) \<noteq> [] then flush_pending (fst l) else (fst l, False))), c')"
    unfolding push_available_def f_def [symmetric] c'_def
    by (simp add: split_beta Let_def flip: l_def)
  ultimately show ?thesis by simp
qed

subsection \<open>Sealing\<close>

lemma enqueue_rest:
  assumes inv: "oc_inv c" and p: "oc_pending_full c = None" and cap: "live_chunk_count c < oc_window_size c"
  shows "oc_inv (enqueue_chunk (c\<lparr>oc_write_buf := [], oc_created_any := a\<rparr>) (oc_write_buf c) True)"
    "emits c (enqueue_chunk (c\<lparr>oc_write_buf := [], oc_created_any := a\<rparr>) (oc_write_buf c) True) [(oc_write_buf c, True)] []"
    "tail_bytes (enqueue_chunk (c\<lparr>oc_write_buf := [], oc_created_any := a\<rparr>) (oc_write_buf c) True) = []"
proof -
  let ?c = "c\<lparr>oc_write_buf := [], oc_created_any := a\<rparr>"
  have inv': "oc_inv ?c" using oc_inv_buffers [OF inv, of "[]" "oc_pending_full c" a] by simp
  have cap': "live_chunk_count ?c + pending_count ?c < oc_window_size ?c"
    using cap p by (simp add: live_chunk_count_def pending_count_def)
  have "length (oc_write_buf c) \<le> oc_chunk_size ?c" using inv by (simp add: oc_defs)
  from enqueue_chunk_inv [OF inv' cap' this] show "oc_inv (enqueue_chunk ?c (oc_write_buf c) True)" by simp
  show tail: "tail_bytes (enqueue_chunk ?c (oc_write_buf c) True) = []" using p by (simp add: tail_bytes_def)
  show "emits c (enqueue_chunk ?c (oc_write_buf c) True) [(oc_write_buf c, True)] []"
    using p tail by (intro enqueue_emits [OF inv' cap']) (simp_all add: tail_bytes_def)
qed

text \<open>Sealing either finds the window full and changes nothing, or numbers all that is buffered, flagging the end.\<close>

lemma finalize_spec:
  assumes inv: "oc_inv c" and keeps: "keeps_tail c" and fin: "finalize c = (decision, c')"
  shows "case decision of
      WaitForCapacity \<Rightarrow> c' = c \<and> oc_window_size c \<le> live_chunk_count c + pending_count c
    | Finalized _ \<Rightarrow> oc_inv c' \<and> tail_bytes c' = []
        \<and> (\<exists>new d. no_last new \<and> emits c c' (new @ [(d, True)]) [])"
proof (cases "has_window_capacity_for c (if oc_pending_full c \<noteq> None \<and> oc_write_buf c = [] then 0 else 1)")
  case False
  with fin inv show ?thesis
    by (auto simp: finalize_def has_window_capacity_for_def pending_count_def oc_defs split: if_splits)
next
  case cap: True
  show ?thesis
  proof (cases "oc_pending_full c")
    case None
    have eq: "finalize c = (Finalized True, enqueue_chunk
        (c\<lparr>oc_write_buf := [], oc_created_any := oc_created_any c \<or> oc_write_buf c \<noteq> []\<rparr>) (oc_write_buf c) True)"
      using keeps None cap by (auto simp: finalize_def keeps_tail_def Let_def)
    have "live_chunk_count c < oc_window_size c" using cap None by (simp add: has_window_capacity_for_def)
    with enqueue_rest [OF inv None this] fin eq show ?thesis by (fastforce intro: exI [of _ "[]"])
  next
    case (Some p)
    show ?thesis
    proof (cases "oc_write_buf c = []")
      case True
      let ?c = "c\<lparr>oc_pending_full := None\<rparr>"
      have inv': "oc_inv ?c" using oc_inv_buffers [OF inv, of "oc_write_buf c" None "oc_created_any c"] inv
        by (simp add: oc_defs)
      have cap': "live_chunk_count ?c + pending_count ?c < oc_window_size ?c"
        using cap Some True by (simp add: has_window_capacity_for_def live_chunk_count_def pending_count_def)
      have "length p \<le> oc_chunk_size ?c" using inv Some by (simp add: oc_defs)
      from enqueue_chunk_inv [OF inv' cap' this]
      have "oc_inv (enqueue_chunk ?c p True)" by simp
      moreover have "tail_bytes (enqueue_chunk ?c p True) = []" using True by (simp add: tail_bytes_def)
      moreover from this have "emits c (enqueue_chunk ?c p True) [(p, True)] []"
        using Some True by (intro enqueue_emits [OF inv' cap']) (simp_all add: tail_bytes_def)
      moreover have "finalize c = (Finalized True, enqueue_chunk ?c p True)"
        using cap Some True by (simp add: finalize_def)
      ultimately show ?thesis using fin by (fastforce intro: exI [of _ "[]"])
    next
      case False
      define c2 where "c2 = fst (flush_pending c)"
      note flush = flush_pending_spec [OF inv Some, folded c2_def]
      have c2: "c2 = enqueue_chunk (c\<lparr>oc_pending_full := None\<rparr>) p False"
        using Some by (simp add: c2_def flush_pending_def)
      have "live_chunk_count c2 < oc_window_size c2"
        using cap Some False flush(4) by (simp add: has_window_capacity_for_def c2_def)
      note rest = enqueue_rest [OF flush(1) flush(3) this, of "oc_created_any c2"]
      have "finalize c = (Finalized True, enqueue_chunk (c2\<lparr>oc_write_buf := []\<rparr>) (oc_write_buf c2) True)"
        using cap Some False by (simp add: finalize_def c2 Let_def)
      with fin rest emits_trans [OF flush(2) rest(2)] show ?thesis
        by (fastforce intro: exI [of _ "[(p, False)]"])
    qed
  qed
qed

section \<open>The sender as a machine\<close>

datatype outbound_op =
    TryPush bool "u8 list"
  | SealPass
  | LeaseNext nat peer_message_id
  | MarkInflight chunk_write_lease
  | MarkCallisReplayReady nat
  | NoteAckOp peer_message_id
  | NoteErrorOp peer_message_id aurelia_error
  | FailOp aurelia_error
  | MarkCompleteOp
  | CloseOp

fun outbound_step :: "outbound_state \<Rightarrow> outbound_op \<Rightarrow> outbound_state" where
  "outbound_step st (TryPush locked bytes) = snd (ring_try_push st locked bytes)"
| "outbound_step st SealPass = snd (ring_seal_pass st)"
| "outbound_step st (LeaseNext callis pmid) = snd (ring_lease_next st callis pmid)"
| "outbound_step st (MarkInflight lease) = ring_mark_chunk_inflight st lease"
| "outbound_step st (MarkCallisReplayReady callis) = snd (ring_mark_callis_replay_ready st callis)"
| "outbound_step st (NoteAckOp pmid) = snd (ring_note_ack st pmid)"
| "outbound_step st (NoteErrorOp pmid err) = snd (ring_note_error st pmid err)"
| "outbound_step st (FailOp err) = ring_fail st err"
| "outbound_step st MarkCompleteOp = ring_mark_complete st"
| "outbound_step st CloseOp = ring_close st"

text \<open>The bytes the caller is told were accepted, and the chunks handed to a callis for writing.\<close>

fun accepted_by :: "outbound_state \<Rightarrow> outbound_op \<Rightarrow> u8 list" where
  "accepted_by st (TryPush locked bytes) =
     (case fst (fst (ring_try_push st locked bytes)) of Inr (Accepted n) \<Rightarrow> take n bytes | _ \<Rightarrow> [])"
| "accepted_by st _ = []"

fun leased_by :: "outbound_state \<Rightarrow> outbound_op \<Rightarrow> chunk_write_lease list" where
  "leased_by st (LeaseNext callis pmid) =
     (case fst (ring_lease_next st callis pmid) of None \<Rightarrow> [] | Some lease \<Rightarrow> [lease])"
| "leased_by st _ = []"

abbreviation accepted_bytes_of :: "outbound_state \<Rightarrow> outbound_op list \<Rightarrow> u8 list" where
  "accepted_bytes_of \<equiv> outputs_over outbound_step accepted_by"

abbreviation leases_of :: "outbound_state \<Rightarrow> outbound_op list \<Rightarrow> chunk_write_lease list" where
  "leases_of \<equiv> outputs_over outbound_step leased_by"

section \<open>The history of a stream\<close>

abbreviation taking :: "outbound_lifecycle \<Rightarrow> bool" where
  "taking l \<equiv> l = LcOpen \<or> l = LcSealing"

definition ends_log :: "(u8 list \<times> bool) list \<Rightarrow> bool" where
  "ends_log log \<longleftrightarrow> log \<noteq> [] \<and> snd (last log) \<and> no_last (butlast log)"

text \<open>
  \<open>log\<close> is the numbered chunks and \<open>acc\<close> the accepted bytes of a stream that is now in state \<open>st\<close>.
  The content is stated while the 64-bit chunk counter has not saturated.
\<close>

definition out_hist :: "outbound_state \<Rightarrow> (u8 list \<times> bool) list \<Rightarrow> u8 list \<Rightarrow> bool" where
  "out_hist st log acc \<longleftrightarrow>
     oc_inv (os_chunks st)
     \<and> (oc_next_chunk_id (os_chunks st) < u64_max \<longrightarrow>
          slots_log (os_chunks st) log \<and> concat (map fst log) @ tail_bytes (os_chunks st) = acc)
     \<and> (taking (os_lifecycle st) \<longrightarrow> keeps_tail (os_chunks st) \<and> no_last log)
     \<and> (os_lifecycle st = LcAwaitingComplete \<longrightarrow> ends_log log)
     \<and> (no_last log \<or> ends_log log \<and> tail_bytes (os_chunks st) = [])"

lemma out_hist_emits:
  assumes hist: "out_hist st log acc" and inv: "oc_inv c'"
    and em: "emits (os_chunks st) c' new bs"
    and phase: "taking l \<Longrightarrow> keeps_tail c' \<and> no_last (log @ new)"
      "l = LcAwaitingComplete \<Longrightarrow> ends_log (log @ new)"
      "no_last (log @ new) \<or> ends_log (log @ new) \<and> tail_bytes c' = []"
  shows "out_hist (st\<lparr>os_chunks := c', os_lifecycle := l\<rparr>) (log @ new) (acc @ bs)"
proof -
  have "slots_log c' (log @ new)" "concat (map fst (log @ new)) @ tail_bytes c' = acc @ bs"
    if "oc_next_chunk_id c' < u64_max"
  proof -
    have "oc_next_chunk_id (os_chunks st) < u64_max" using that em by (simp add: emits_def)
    with hist have "slots_log (os_chunks st) log" "concat (map fst log) @ tail_bytes (os_chunks st) = acc"
      by (simp_all add: out_hist_def)
    with em that show "slots_log c' (log @ new)" "concat (map fst (log @ new)) @ tail_bytes c' = acc @ bs"
      by (simp_all add: emits_def flip: append_assoc) (metis append_assoc)
  qed
  with inv phase show ?thesis by (simp add: out_hist_def)
qed

lemma out_hist_settles:
  assumes hist: "out_hist st log acc" and set: "settles (os_chunks st) c'" and inv: "oc_inv c'"
    and phase: "taking l \<Longrightarrow> taking (os_lifecycle st)"
      "l = LcAwaitingComplete \<Longrightarrow> os_lifecycle st = LcAwaitingComplete"
  shows "out_hist (st\<lparr>os_chunks := c', os_lifecycle := l\<rparr>) log acc"
proof -
  have tail: "tail_bytes c' = tail_bytes (os_chunks st)" "keeps_tail c' = keeps_tail (os_chunks st)"
    using set by (simp_all add: settles_def tail_bytes_def keeps_tail_def)
  have "out_hist (st\<lparr>os_chunks := c', os_lifecycle := l\<rparr>) (log @ []) (acc @ [])"
    by (rule out_hist_emits [OF hist inv emits_settles [OF set]])
      (use hist phase in \<open>auto simp: tail out_hist_def\<close>)
  then show ?thesis by simp
qed

lemma lc_moves:
  "taking (lc_mark_complete l) \<Longrightarrow> False" "lc_mark_complete l = LcAwaitingComplete \<Longrightarrow> False"
  "taking (lc_mark_failed l e) \<Longrightarrow> False" "lc_mark_failed l e = LcAwaitingComplete \<Longrightarrow> False"
  "taking (lc_mark_closed l) \<Longrightarrow> False" "lc_mark_closed l = LcAwaitingComplete \<Longrightarrow> False"
  by (cases l; simp add: lc_mark_complete_def lc_mark_failed_def lc_mark_closed_def)+

lemma out_hist_push:
  assumes hist: "out_hist st log acc"
  shows "\<exists>new. out_hist (snd (ring_try_push st locked bytes)) (log @ new) (acc @ accepted_by st (TryPush locked bytes))"
proof (cases "locked \<and> os_lifecycle st = LcOpen \<and> can_accept_bytes (os_chunks st)")
  case False
  then have "snd (ring_try_push st locked bytes) = st" "accepted_by st (TryPush locked bytes) = []"
    by (auto simp: ring_try_push_def split: sum.splits) (cases "os_lifecycle st"; simp)+
  with hist show ?thesis by (intro exI [of _ "[]"]) simp
next
  case True
  let ?p = "push_available (os_chunks st) bytes"
  obtain new where new: "no_last new" "emits (os_chunks st) (snd ?p) new (take (fst (fst ?p)) bytes)"
    and p: "oc_inv (snd ?p)" "keeps_tail (os_chunks st) \<longrightarrow> keeps_tail (snd ?p)"
    using push_available_takes_in [of "os_chunks st" bytes] hist by (auto simp: takes_in_def out_hist_def)
  have eq: "snd (ring_try_push st locked bytes) = st\<lparr>os_chunks := snd ?p, os_lifecycle := os_lifecycle st\<rparr>"
    "accepted_by st (TryPush locked bytes) = take (fst (fst ?p)) bytes"
    using True by (simp_all add: ring_try_push_def split_beta Let_def)
  have "no_last (log @ new)" using hist True new(1) by (auto simp: out_hist_def)
  then show ?thesis
    unfolding eq using hist True p
    by (intro exI [of _ new] out_hist_emits [OF hist _ new(2)]) (auto simp: out_hist_def)
qed

lemma out_hist_seal:
  assumes hist: "out_hist st log acc"
  shows "\<exists>new. out_hist (snd (ring_seal_pass st)) (log @ new) acc"
proof (cases "taking (os_lifecycle st)")
  case False
  then have "snd (ring_seal_pass st) = st"
    by (cases "os_lifecycle st") (simp_all add: ring_seal_pass_def lc_final_chunk_materialized_def)
  with hist show ?thesis by (intro exI [of _ "[]"]) simp
next
  case True
  then have k: "keeps_tail (os_chunks st)" "no_last log" "oc_inv (os_chunks st)"
    using hist by (auto simp: out_hist_def)
  obtain decision c' where fin: "finalize (os_chunks st) = (decision, c')" by fastforce
  have sealed: "lc_mark_sealed (os_lifecycle st) = LcSealing" using True by (auto simp: lc_mark_sealed_def)
  note spec = finalize_spec [OF k(3,1) fin]
  show ?thesis
  proof (cases decision)
    case WaitForCapacity
    then have "snd (ring_seal_pass st) = st\<lparr>os_chunks := os_chunks st, os_lifecycle := LcSealing\<rparr>"
      using True spec fin sealed by (auto simp: ring_seal_pass_def lc_final_chunk_materialized_def)
    with out_hist_settles [OF hist settles_refl k(3), of LcSealing] True show ?thesis
      by (intro exI [of _ "[]"]) simp
  next
    case (Finalized b)
    then obtain new d where c': "oc_inv c'" "tail_bytes c' = []" "no_last new"
        "emits (os_chunks st) c' (new @ [(d, True)]) []"
      using spec by auto
    have "ends_log (log @ new @ [(d, True)])" using k(2) c'(3) by (auto simp: ends_log_def butlast_append)
    with c' have "out_hist (st\<lparr>os_chunks := c', os_lifecycle := LcAwaitingComplete\<rparr>)
        (log @ new @ [(d, True)]) (acc @ [])"
      by (intro out_hist_emits [OF hist c'(1,4)]) simp_all
    moreover have "snd (ring_seal_pass st) = st\<lparr>os_chunks := c', os_lifecycle := LcAwaitingComplete\<rparr>"
      using True fin Finalized sealed
      by (auto simp: ring_seal_pass_def lc_final_chunk_materialized_def lc_mark_final_chunk_sent_def)
    ultimately show ?thesis by auto
  qed
qed

lemma out_hist_moves:
  assumes hist: "out_hist st log acc"
  shows "out_hist (ring_fail st e) log acc" "out_hist (ring_mark_complete st) log acc"
    "out_hist (ring_close st) log acc" "out_hist (snd (ring_lease_next st callis p)) log acc"
    "out_hist (ring_mark_chunk_inflight st lease) log acc"
    "out_hist (snd (ring_mark_callis_replay_ready st callis)) log acc"
    "out_hist (snd (ring_note_completion st p nt)) log acc"
proof -
  let ?c = "os_chunks st"
  have inv: "oc_inv ?c" using hist by (simp add: out_hist_def)
  have lc: "out_hist (st\<lparr>os_lifecycle := l\<rparr>) log acc"
    if "\<not> taking l" "l \<noteq> LcAwaitingComplete" for l
    using out_hist_settles [OF hist settles_refl inv, of l] that by simp
  have ch: "out_hist (st\<lparr>os_chunks := c'\<rparr>) log acc" if "oc_inv c'" "settles ?c c'" for c'
    using out_hist_settles [OF hist that(2,1), of "os_lifecycle st"] by simp
  show "out_hist (ring_fail st e) log acc" "out_hist (ring_mark_complete st) log acc"
    "out_hist (ring_close st) log acc"
    unfolding ring_fail_def ring_mark_complete_def ring_close_def using lc_moves by (blast intro: lc)+
  show "out_hist (snd (ring_lease_next st callis p)) log acc"
    using lease_next_inv [OF inv, of callis p] hist ch by (auto simp: ring_lease_next_def split_beta Let_def)
  show "out_hist (ring_mark_chunk_inflight st lease) log acc"
    using mark_inflight_inv [OF inv, of lease] ch by (simp add: ring_mark_chunk_inflight_def)
  show "out_hist (snd (ring_mark_callis_replay_ready st callis)) log acc"
    using mark_callis_replay_ready_inv [OF inv, of callis] ch
    by (simp add: ring_mark_callis_replay_ready_def split_beta Let_def)
  let ?n = "snd (chunks_note_completion ?c p (note_chunk_completion nt))"
  have n: "oc_inv ?n" "settles ?c ?n" using note_completion_inv [OF inv] by auto
  show "out_hist (snd (ring_note_completion st p nt)) log acc"
    using n ch [OF n] out_hist_settles [OF hist n(2,1), of "LcFailed e" for e]
    by (cases nt) (simp_all add: ring_note_completion_def lc_replace_failure_def split_beta Let_def)
qed

text \<open>Every lease carries the log entry of its number.\<close>

definition carries_log :: "(u8 list \<times> bool) list \<Rightarrow> chunk_write_lease \<Rightarrow> bool" where
  "carries_log log lease \<longleftrightarrow> cl_chunk_id lease < length log
     \<and> log ! cl_chunk_id lease = (cl_data lease, cl_is_last lease)"

lemma lease_carries_log:
  assumes "out_hist st log acc" and "oc_next_chunk_id (os_chunks st) < u64_max"
    and "lease \<in> set (leased_by st x)"
  shows "carries_log log lease"
proof (cases x)
  case (LeaseNext callis p)
  with assms(3) have "fst (chunks_lease_next (os_chunks st) callis p) = Some lease"
    by (auto simp: ring_lease_next_def split_beta Let_def split: option.splits if_splits)
  then obtain i c' where i: "leased_from (os_chunks st) i lease c'"
    using lease_next_cases [of "os_chunks st" callis p] by auto
  then have "oc_slots (os_chunks st) ! i \<in> set (oc_slots (os_chunks st))"
    by (simp add: leased_from_def)
  with i assms(1,2) show ?thesis
    unfolding out_hist_def slots_log_def leased_from_def carries_log_def by fastforce
qed (use assms in simp_all)

lemma out_hist_step:
  assumes "out_hist st log acc"
  shows "\<exists>new. out_hist (outbound_step st x) (log @ new) (acc @ accepted_by st x)"
proof (cases x)
  case (TryPush locked bytes)
  with out_hist_push [OF assms] show ?thesis by simp
next
  case SealPass
  with out_hist_seal [OF assms] show ?thesis by simp
qed (use out_hist_moves [OF assms] in
    \<open>auto simp: ring_note_ack_def ring_note_error_def intro: exI [of _ "[]"]\<close>)

lemma outbound_next_mono:
  assumes hist: "out_hist st log acc"
  shows "oc_next_chunk_id (os_chunks st) \<le> oc_next_chunk_id (os_chunks (outbound_step st x))"
proof -
  let ?c = "os_chunks st"
  have inv: "oc_inv ?c" using hist by (simp add: out_hist_def)
  show ?thesis
  proof (cases x)
    case (TryPush locked bytes)
    then show ?thesis
      using push_available_takes_in [OF inv, of bytes]
      by (auto simp: ring_try_push_def takes_in_def emits_def split_beta Let_def split: sum.splits)
  next
    case SealPass
    obtain decision c' where fin: "finalize ?c = (decision, c')" by fastforce
    have "oc_next_chunk_id ?c \<le> oc_next_chunk_id c'" if "taking (os_lifecycle st)"
      using that hist finalize_spec [OF inv _ fin]
      by (auto simp: out_hist_def emits_def split: finalize_decision.splits)
    with SealPass fin show ?thesis
      by (cases "os_lifecycle st")
        (simp_all add: ring_seal_pass_def lc_final_chunk_materialized_def Let_def split: finalize_decision.splits)
  next
    case (LeaseNext callis p)
    then show ?thesis
      using lease_next_inv [OF inv, of callis p] by (simp add: ring_lease_next_def settles_def split_beta Let_def)
  next
    case (MarkInflight lease)
    then show ?thesis
      using mark_inflight_inv [OF inv, of lease] by (simp add: ring_mark_chunk_inflight_def settles_def)
  next
    case (MarkCallisReplayReady callis)
    then show ?thesis
      using mark_callis_replay_ready_inv [OF inv, of callis]
      by (simp add: ring_mark_callis_replay_ready_def settles_def split_beta Let_def)
  qed (use note_completion_inv [OF inv] in
      \<open>simp_all add: ring_note_ack_def ring_note_error_def ring_note_completion_def settles_def
        ring_fail_def ring_mark_complete_def ring_close_def split_beta Let_def\<close>)
qed

lemma out_hist_run:
  assumes "out_hist st log acc"
  shows "\<exists>new. out_hist (foldl outbound_step st ops) (log @ new) (acc @ accepted_bytes_of st ops)
    \<and> oc_next_chunk_id (os_chunks st) \<le> oc_next_chunk_id (os_chunks (foldl outbound_step st ops))
    \<and> (oc_next_chunk_id (os_chunks (foldl outbound_step st ops)) < u64_max \<longrightarrow>
        (\<forall>lease \<in> set (leases_of st ops). carries_log (log @ new) lease))"
  using assms
proof (induction ops arbitrary: st log acc)
  case Nil
  then show ?case by (intro exI [of _ "[]"]) simp
next
  case (Cons x xs)
  let ?st = "outbound_step st x"
  obtain new where new: "out_hist ?st (log @ new) (acc @ accepted_by st x)"
    using out_hist_step [OF Cons.prems] by blast
  obtain new' where new': "out_hist (foldl outbound_step ?st xs) (log @ new @ new')
        (acc @ accepted_by st x @ accepted_bytes_of ?st xs)"
      "oc_next_chunk_id (os_chunks ?st) \<le> oc_next_chunk_id (os_chunks (foldl outbound_step ?st xs))"
      "oc_next_chunk_id (os_chunks (foldl outbound_step ?st xs)) < u64_max \<longrightarrow>
        (\<forall>lease \<in> set (leases_of ?st xs). carries_log (log @ new @ new') lease)"
    using Cons.IH [OF new] by auto
  have mono: "oc_next_chunk_id (os_chunks st) \<le> oc_next_chunk_id (os_chunks (foldl outbound_step ?st xs))"
    using outbound_next_mono [OF Cons.prems, of x] new'(2) by simp
  have "carries_log (log @ new @ new') lease"
    if "oc_next_chunk_id (os_chunks (foldl outbound_step ?st xs)) < u64_max" "lease \<in> set (leased_by st x)" for lease
    using lease_carries_log [OF Cons.prems _ that(2)] mono that(1)
    by (auto simp: carries_log_def nth_append)
  with new' mono show ?case by (intro exI [of _ "new @ new'"]) auto
qed

lemma out_hist_new:
  "outbound_new cs ws = Inr st \<Longrightarrow> ws \<le> u64_max \<Longrightarrow> out_hist st [] []"
  using oc_inv_new [of cs ws]
  by (auto simp: outbound_new_def out_hist_def slots_log_def tail_bytes_def keeps_tail_def chunks_new_def
      split: if_splits)

text \<open>The invariant of the sender, and its operations as a machine that keeps it.\<close>

definition outbound_inv :: "outbound_state \<Rightarrow> bool" where
  "outbound_inv st \<longleftrightarrow> (\<exists>log acc. out_hist st log acc)"

interpretation outbound: op_machine "\<lambda>st. \<exists>cs ws. outbound_new cs ws = Inr st \<and> ws \<le> u64_max"
  outbound_step outbound_inv
proof
  fix s :: outbound_state assume "\<exists>cs ws. outbound_new cs ws = Inr s \<and> ws \<le> u64_max"
  then show "outbound_inv s" unfolding outbound_inv_def using out_hist_new by blast
next
  fix s :: outbound_state and x assume "outbound_inv s"
  then show "outbound_inv (outbound_step s x)" unfolding outbound_inv_def using out_hist_step by blast
qed

lemma outbound_reachable_inv:
  "outbound_new cs ws = Inr st \<Longrightarrow> ws \<le> u64_max \<Longrightarrow> oc_inv (os_chunks (foldl outbound_step st ops))"
  using outbound.invar_reachable [of st ops] unfolding outbound_inv_def out_hist_def by blast

text \<open>
  What goes on the wire is the stream. For every run of the sender's operations, pushes, leases,
  callis losses with replays, acknowledgements and failures in any order, there is one list of chunks
  such that every frame handed to a callis carries the chunk of its number, the chunks' bytes followed
  by what is still buffered are exactly the bytes the application was told were accepted, and at most
  the final chunk is flagged last, in which case nothing is left in the buffer.
\<close>

theorem outbound_stream_log:
  assumes new: "outbound_new cs ws = Inr st" and ws: "ws \<le> u64_max"
    and fin: "fin = foldl outbound_step st ops" and lim: "oc_next_chunk_id (os_chunks fin) < u64_max"
  shows "\<exists>log. (\<forall>lease \<in> set (leases_of st ops). carries_log log lease)
    \<and> concat (map fst log) @ tail_bytes (os_chunks fin) = accepted_bytes_of st ops
    \<and> length log = oc_next_chunk_id (os_chunks fin)
    \<and> no_last (butlast log)
    \<and> (log \<noteq> [] \<and> snd (last log) \<longrightarrow> tail_bytes (os_chunks fin) = [])"
proof -
  obtain log where "out_hist fin log (accepted_bytes_of st ops)"
    and leases: "\<forall>lease \<in> set (leases_of st ops). carries_log log lease"
    using out_hist_run [OF out_hist_new [OF new ws], of ops] lim fin by auto
  then have log: "slots_log (os_chunks fin) log"
    "concat (map fst log) @ tail_bytes (os_chunks fin) = accepted_bytes_of st ops"
    "no_last log \<or> ends_log log \<and> tail_bytes (os_chunks fin) = []"
    using lim by (simp_all add: out_hist_def)
  have "no_last (butlast log)" using log(3) by (auto simp: ends_log_def dest: in_set_butlastD)
  moreover have "tail_bytes (os_chunks fin) = []" if "log \<noteq> [] \<and> snd (last log)"
    using that log(3) by (metis last_in_set)
  ultimately show ?thesis using leases log(1,2) unfolding slots_log_def by blast
qed

text \<open>
  Sealing flushes the stream. A seal that is granted on a stream still open numbers everything
  accepted so far and flags the end: the chunks of the log hold all accepted bytes, exactly the final
  one is flagged, and the stream waits for the peer's completion. With the window full the stream only
  becomes sealing and keeps its chunks.
\<close>

theorem seal_flushes_stream:
  assumes new: "outbound_new cs ws = Inr st" and ws: "ws \<le> u64_max"
    and fin: "fin = foldl outbound_step st ops" and taking: "taking (os_lifecycle fin)"
    and seal: "ring_seal_pass fin = ((r, b), fin')"
    and lim: "oc_next_chunk_id (os_chunks fin') < u64_max"
  shows "case r of
      None \<Rightarrow> os_chunks fin' = os_chunks fin \<and> os_lifecycle fin' = LcSealing
        \<and> oc_window_size (os_chunks fin) \<le> live_chunk_count (os_chunks fin) + pending_count (os_chunks fin)
    | Some res \<Rightarrow> res = Inr () \<and> b \<and> os_lifecycle fin' = LcAwaitingComplete
        \<and> tail_bytes (os_chunks fin') = []
        \<and> (\<exists>log. slots_log (os_chunks fin') log \<and> ends_log log
             \<and> concat (map fst log) = accepted_bytes_of st ops)"
proof -
  obtain log where hist: "out_hist fin log (accepted_bytes_of st ops)"
    using out_hist_run [OF out_hist_new [OF new ws], of ops] fin by auto
  then have inv: "oc_inv (os_chunks fin)" "keeps_tail (os_chunks fin)"
    using taking by (auto simp: out_hist_def)
  obtain decision c' where f: "finalize (os_chunks fin) = (decision, c')" by fastforce
  have sealed: "lc_mark_sealed (os_lifecycle fin) = LcSealing" using taking by (auto simp: lc_mark_sealed_def)
  show ?thesis
  proof (cases decision)
    case WaitForCapacity
    with finalize_spec [OF inv f] f seal taking sealed show ?thesis
      by (auto simp: ring_seal_pass_def lc_final_chunk_materialized_def)
  next
    case (Finalized n)
    obtain new where "out_hist fin' (log @ new) (accepted_bytes_of st ops)"
      using out_hist_seal [OF hist] seal by auto
    moreover have "r = Some (Inr ())" "b = n" "os_lifecycle fin' = LcAwaitingComplete" "os_chunks fin' = c'"
      using seal f Finalized taking sealed
      by (auto simp: ring_seal_pass_def lc_final_chunk_materialized_def lc_mark_final_chunk_sent_def)
    moreover have "tail_bytes c' = []" using finalize_spec [OF inv f] Finalized by simp
    moreover have n
      using f Finalized by (auto simp: finalize_def Let_def split: if_splits option.splits)
    ultimately show ?thesis using lim by (auto simp: out_hist_def)
  qed
qed

section \<open>Leasing, losing and acknowledging chunks\<close>

text \<open>
  Which chunk is written next. A callis that asks for work is given a chunk waiting for replay
  before any fresh one, and within its kind the one with the smallest number; it gets nothing only when
  no chunk is waiting. The chunk moves to \<open>Writing\<close> under this callis and frame number.
\<close>

theorem lease_next_order:
  shows "case chunks_lease_next c callis pmid of
      (None, c') \<Rightarrow> c' = c \<and> \<not> has_replay_ready c \<and> \<not> has_fresh_ready c
    | (Some lease, c') \<Rightarrow> \<exists>i. leased_from c i lease c' \<and> cl_callis_id lease = callis \<and> cl_peer_msg_id lease = pmid
        \<and> leasable (has_replay_ready c) (oc_slots c ! i)
        \<and> (\<forall>s \<in> set (oc_slots c). leasable (has_replay_ready c) s \<longrightarrow> cl_chunk_id lease \<le> the (slot_key s))"
proof -
  have ready: "has_replay_ready c \<longleftrightarrow> (\<exists>s \<in> set (oc_slots c). leasable True s)"
    "has_fresh_ready c \<longleftrightarrow> (\<exists>s \<in> set (oc_slots c). leasable False s)"
    by (auto simp: has_replay_ready_def has_fresh_ready_def list_ex_iff split: outbound_slot.splits;
        metis leasable.simps outbound_slot.exhaust)+
  show ?thesis
  proof (cases "has_replay_ready c")
    case True
    with ready lease_matching_cases [of c True callis pmid] show ?thesis
      by (fastforce simp: chunks_lease_next_def)
  next
    case False
    with ready lease_matching_cases [of c True callis pmid]
    have first: "lease_matching c True callis pmid = (None, c)" by (fastforce simp: leased_from_def)
    with False ready lease_matching_cases [of c False callis pmid] show ?thesis
      by (fastforce simp: chunks_lease_next_def)
  qed
qed

text \<open>
  Losing a callis loses no chunk. Every chunk being written or in flight on the lost callis waits
  for replay with its number, bytes and last flag; every other slot is untouched, and a late
  acknowledgement of a swept frame finds nothing to free.
\<close>

theorem callis_loss_replays:
  assumes new: "outbound_new cs ws = Inr st" and ws: "ws \<le> u64_max"
    and c: "c = os_chunks (foldl outbound_step st ops)"
    and sweep: "chunks_mark_callis_replay_ready c callis = (changed, c')"
  shows "changed = list_ex (swept callis) (oc_slots c) \<and> length (oc_slots c') = length (oc_slots c)
    \<and> (\<forall>i < length (oc_slots c).
         if swept callis (oc_slots c ! i)
         then leasable True (oc_slots c' ! i) \<and> slot_key (oc_slots c' ! i) = slot_key (oc_slots c ! i)
              \<and> slot_entry (oc_slots c' ! i) = slot_entry (oc_slots c ! i)
              \<and> (\<forall>k p. slot_flight (oc_slots c ! i) = Some (k, p) \<longrightarrow>
                    chunks_note_completion c' p CompletionAck = (False, c'))
         else oc_slots c' ! i = oc_slots c ! i)"
proof -
  have inv: "oc_inv c" unfolding c by (rule outbound_reachable_inv [OF new ws])
  note eq = mark_callis_replay_ready_eq [OF inv, of callis, unfolded sweep]
  have "oc_ack_map c' p = None" if "i < length (oc_slots c)" "swept callis (oc_slots c ! i)"
    "slot_flight (oc_slots c ! i) = Some (k, p)" for i k p
  proof -
    have "p \<in> swept_flights callis (oc_slots c)"
      using that by (auto simp: swept_flights_def intro!: bexI [of _ "oc_slots c ! i"])
    with eq show ?thesis by simp
  qed
  with eq show ?thesis by (auto simp: replay_slot_swept swept_key chunks_note_completion_def)
qed

text \<open>
  A write that finishes after its callis was lost does not count: once the chunk went back to
  replay, marking the old lease in flight changes nothing, even when the chunk was leased again in
  the meantime, by the same callis and under the same frame number.
\<close>

theorem stale_lease_ignored:
  assumes inv: "oc_inv c" and lim: "oc_next_chunk_id c < u64_max"
    and held: "i < length (oc_slots c)" "oc_slots c ! i =
      SlotWriting (cl_chunk_id lease) (cl_data lease) (cl_peer_msg_id lease) (cl_callis_id lease)
        (cl_is_last lease) (cl_slot_seq lease)"
    and seq: "cl_slot_seq lease < u64_max"
    and sweep: "c' = snd (chunks_mark_callis_replay_ready c (cl_callis_id lease))"
    and relet: "c'' = c' \<or> c'' = snd (chunks_lease_next c' callis pmid)"
  shows "mark_inflight c'' lease = (False, c'')"
proof -
  have c': "oc_inv c'" "settles c c'" using mark_callis_replay_ready_inv [OF inv] sweep by blast+
  have lim': "oc_next_chunk_id c' < u64_max" using c'(2) lim by (simp add: settles_def)
  have i: "i < length (oc_slots c')" "oc_slots c' ! i = SlotReplayReady (cl_chunk_id lease) (cl_data lease)
      (cl_callis_id lease) (cl_is_last lease) (cl_slot_seq lease)"
    using held by (simp_all add: sweep mark_callis_replay_ready_eq [OF inv] replay_slot_def)
  have "oc_chunk_index c' (cl_chunk_id lease) = Some i"
    using c'(1) lim' i by (auto simp: oc_inv_def oc_ids_def index_ok_def)
  then have idx: "oc_chunk_index c'' (cl_chunk_id lease) = Some i"
    using relet lease_next_cases [of c' callis pmid] by (auto simp: leased_from_def)
  have "(\<exists>k d p l ci. oc_slots c'' ! i = SlotReplayReady k d p l ci)
    \<or> (\<exists>k d p ci l. oc_slots c'' ! i = SlotWriting k d p ci l (Suc (cl_slot_seq lease)))"
  proof (cases "c'' = c'")
    case False
    then obtain j new where new: "leased_from c' j new c''"
      using relet lease_next_cases [of c' callis pmid] by auto
    show ?thesis
    proof (cases "j = i")
      case True
      with new i seq have "cl_slot_seq new = Suc (cl_slot_seq lease)" by (simp add: leased_from_def sat_add_def)
      with True new show ?thesis by (simp add: leased_from_def)
    qed (use new i in \<open>simp add: leased_from_def\<close>)
  qed (use i in simp)
  with idx show ?thesis by (auto simp: mark_inflight_def)
qed

text \<open>One round of service by a healthy callis: lease a chunk, write it, receive its acknowledgement.\<close>

definition serve_chunk :: "nat \<Rightarrow> outbound_chunks \<Rightarrow> peer_message_id \<Rightarrow> outbound_chunks" where
  "serve_chunk callis c pmid =
     (case chunks_lease_next c callis pmid of
        (None, c1) \<Rightarrow> c1
      | (Some lease, c1) \<Rightarrow>
          snd (chunks_note_completion (snd (mark_inflight c1 lease)) pmid CompletionAck))"

definition all_waiting :: "outbound_chunks \<Rightarrow> bool" where
  "all_waiting c \<longleftrightarrow> (\<forall>s \<in> set (oc_slots c). s = SlotEmpty \<or> leasable True s \<or> leasable False s)"

lemma serve_chunk_frees:
  assumes inv: "oc_inv c" and lim: "oc_next_chunk_id c < u64_max" and lease: "leased_from c i lease c1"
    and p: "cl_peer_msg_id lease = p" and next_c: "chunks_lease_next c callis p = (Some lease, c1)"
  shows "oc_slots (serve_chunk callis c p) = (oc_slots c)[i := SlotEmpty]"
proof -
  have c1: "oc_inv c1" "settles c c1" using lease_next_inv [OF inv, of callis p] next_c by simp_all
  then have ids1: "oc_ids c1" using lim by (simp add: oc_inv_def settles_def)
  let ?k = "cl_chunk_id lease"
  let ?w = "SlotWriting ?k (cl_data lease) p (cl_callis_id lease) (cl_is_last lease) (cl_slot_seq lease)"
  have i: "i < length (oc_slots c1)" "oc_slots c1 ! i = ?w" "oc_slots c1 = (oc_slots c)[i := ?w]"
    using lease p by (simp_all add: leased_from_def)
  have idx: "oc_chunk_index c1 ?k = Some i" using ids1 i by (auto simp: oc_ids_def index_ok_def)
  define c2 where "c2 = snd (mark_inflight c1 lease)"
  have c2: "oc_ack_map c2 p = Some ?k" "oc_chunk_index c2 ?k = Some i"
    "oc_slots c2 = (oc_slots c)[i := SlotInFlight ?k (cl_data lease) p (cl_callis_id lease) (cl_is_last lease) (cl_slot_seq lease)]"
    using i idx p by (simp_all add: c2_def mark_inflight_def)
  have "i < length (oc_slots c)" using lease by (simp add: leased_from_def)
  with c2 show ?thesis by (simp add: serve_chunk_def next_c flip: c2_def) (simp add: chunks_note_completion_def)
qed

lemma serve_chunk_round:
  assumes inv: "oc_inv c" and lim: "oc_next_chunk_id c < u64_max" and wait: "all_waiting c"
    and live: "live_chunk_count c = Suc n"
  shows "oc_inv (serve_chunk callis c p) \<and> oc_next_chunk_id (serve_chunk callis c p) < u64_max
    \<and> all_waiting (serve_chunk callis c p) \<and> live_chunk_count (serve_chunk callis c p) = n"
proof -
  have "filter (\<lambda>s. s \<noteq> SlotEmpty) (oc_slots c) \<noteq> []" using live by (auto simp: live_chunk_count_def)
  then have "\<exists>s \<in> set (oc_slots c). s \<noteq> SlotEmpty" by (simp add: filter_empty_conv)
  with wait have "\<exists>s \<in> set (oc_slots c). leasable True s \<or> leasable False s"
    unfolding all_waiting_def by blast
  then obtain i lease c1 where lease: "chunks_lease_next c callis p = (Some lease, c1)"
      "leased_from c i lease c1" "cl_peer_msg_id lease = p"
    using lease_next_cases [of c callis p] by blast
  have slots: "oc_slots (serve_chunk callis c p) = (oc_slots c)[i := SlotEmpty]"
    using serve_chunk_frees [OF inv lim lease(2,3,1)] .
  have i: "i < length (oc_slots c)" "oc_slots c ! i \<noteq> SlotEmpty"
    using lease(2) slot_key_None by (auto simp: leased_from_def)
  have c1: "oc_inv c1" "settles c c1" using lease_next_inv [OF inv, of callis p] lease(1) by simp_all
  have c2: "oc_inv (snd (mark_inflight c1 lease))" "settles c1 (snd (mark_inflight c1 lease))"
    using mark_inflight_inv [OF c1(1), of lease] by simp_all
  have c3: "oc_inv (serve_chunk callis c p)" "settles (snd (mark_inflight c1 lease)) (serve_chunk callis c p)"
    using note_completion_inv [OF c2(1), of p CompletionAck] lease(1) by (simp_all add: serve_chunk_def)
  have "oc_next_chunk_id (serve_chunk callis c p) < u64_max"
    using c1(2) c2(2) c3(2) lim by (simp add: settles_def)
  moreover have "all_waiting (serve_chunk callis c p)"
    using wait slots by (auto simp: all_waiting_def dest!: subsetD [OF set_update_subset_insert])
  moreover have "live_chunk_count (serve_chunk callis c p) = n"
    using length_filter_update [OF i(1), of "\<lambda>s. s \<noteq> SlotEmpty" SlotEmpty] i(2) live
    by (simp add: live_chunk_count_def slots)
  ultimately show ?thesis using c3(1) by blast
qed

text \<open>
  A stream drains. Once no chunk is left on a lost callis, one round of lease, write and
  acknowledgement per live chunk empties the window, so no chunk can be stuck.
\<close>

theorem stream_drains:
  assumes "oc_inv c" and "oc_next_chunk_id c < u64_max" and "all_waiting c"
    and "length pmids = live_chunk_count c"
  shows "live_chunk_count (foldl (serve_chunk callis) c pmids) = 0"
  using assms
proof (induction pmids arbitrary: c)
  case Nil
  then show ?case by simp
next
  case (Cons p pmids)
  then have "live_chunk_count c = Suc (length pmids)" by simp
  from serve_chunk_round [OF Cons.prems(1-3) this, of callis p] Cons.IH show ?case by simp
qed

section \<open>Concrete streams\<close>

lemma replicate_numeral: "replicate (numeral k) x = x # replicate (pred_numeral k) x"
  by (simp add: numeral_eq_Suc)

lemmas chunk_eval = replicate_numeral chunks_new_def push_available_def push_loop.simps fill_write_buf_def
  cut_chunk_def flush_pending_def enqueue_chunk_def next_empty_slot_def has_window_capacity_for_def
  live_chunk_count_def can_accept_bytes_def finalize_def chunks_lease_next_def lease_matching_def
  lease_candidate_def lease_slot_def mark_inflight_def chunks_mark_callis_replay_ready_def replay_slot_def
  chunks_note_completion_def sat_add_def List.map_filter_simps upt_rec

lemmas ring_eval = chunk_eval ring_try_push_def ring_seal_pass_def ring_lease_next_def
  ring_mark_callis_replay_ready_def ring_mark_chunk_inflight_def lc_final_chunk_materialized_def
  lc_mark_sealed_def lc_mark_final_chunk_sent_def lc_can_drain_chunks_def

text \<open>Three bytes in chunks of two; the first chunk is leased, its callis is lost, it is leased again.\<close>

theorem outbound_stream_log_witness:
  "\<exists>log. (\<forall>lease \<in> set (leases_of \<lparr>os_lifecycle = LcOpen, os_chunks = chunks_new 2 2\<rparr>
        [TryPush True [1, 2, 3], LeaseNext 7 5, MarkCallisReplayReady 7, LeaseNext 8 6, SealPass]).
        carries_log log lease)
    \<and> concat (map fst log) = [1, 2, 3] \<and> length log = 2 \<and> no_last (butlast log)"
proof -
  let ?st = "\<lparr>os_lifecycle = LcOpen, os_chunks = chunks_new 2 2\<rparr>"
  let ?ops = "[TryPush True [1, 2, 3], LeaseNext 7 5, MarkCallisReplayReady 7, LeaseNext 8 6, SealPass]"
  have new: "outbound_new 2 2 = Inr ?st" by (simp add: outbound_new_def)
  have fin: "oc_next_chunk_id (os_chunks (foldl outbound_step ?st ?ops)) = 2"
    "tail_bytes (os_chunks (foldl outbound_step ?st ?ops)) = []"
    "accepted_bytes_of ?st ?ops = [1, 2, 3]"
    by (simp_all add: ring_eval tail_bytes_def)
  show ?thesis
    using outbound_stream_log [OF new _ refl, of ?ops] unfolding fin by auto
qed

theorem seal_flushes_stream_witness:
  "fst (fst (ring_seal_pass (foldl outbound_step \<lparr>os_lifecycle = LcOpen, os_chunks = chunks_new 2 2\<rparr>
      [TryPush True [1, 2, 3]]))) = Some (Inr ())
   \<and> (\<exists>log. ends_log log \<and> concat (map fst log) = [1, 2, 3])"
proof -
  let ?st = "\<lparr>os_lifecycle = LcOpen, os_chunks = chunks_new 2 2\<rparr>"
  let ?fin = "foldl outbound_step ?st [TryPush True [1, 2, 3]]"
  have new: "outbound_new 2 2 = Inr ?st" by (simp add: outbound_new_def)
  have t: "taking (os_lifecycle ?fin)" by (simp add: ring_eval)
  have r: "fst (fst (ring_seal_pass ?fin)) = Some (Inr ())"
    "oc_next_chunk_id (os_chunks (snd (ring_seal_pass ?fin))) = 2"
    "accepted_bytes_of ?st [TryPush True [1, 2, 3]] = [1, 2, 3]"
    by (simp_all add: ring_eval)
  obtain x b fin' where s: "ring_seal_pass ?fin = ((x, b), fin')" by (metis prod.collapse)
  have "x = Some (Inr ())" "oc_next_chunk_id (os_chunks fin') = 2" using r s by simp_all
  with seal_flushes_stream [OF new _ refl t s] r(3) r(1) show ?thesis by auto
qed

theorem lease_next_order_witness:
  "\<exists>lease. fst (chunks_lease_next ((chunks_new 2 2)\<lparr>oc_slots :=
       [SlotReady 0 [1] False 0, SlotReplayReady 1 [2] 7 False 1]\<rparr>) 8 5) = Some lease
     \<and> cl_callis_id lease = 8 \<and> cl_chunk_id lease \<le> 1"
proof -
  let ?c = "(chunks_new 2 2)\<lparr>oc_slots := [SlotReady 0 [1] False 0, SlotReplayReady 1 [2] 7 False 1]\<rparr>"
  have ready: "has_replay_ready ?c" by (simp add: has_replay_ready_def)
  obtain x c' where l: "chunks_lease_next ?c 8 5 = (x, c')" by fastforce
  show ?thesis
    using lease_next_order [of ?c 8 5] ready unfolding l by (cases x) auto
qed

theorem callis_loss_replays_witness:
  "let c = os_chunks (foldl outbound_step \<lparr>os_lifecycle = LcOpen, os_chunks = chunks_new 2 2\<rparr>
        [TryPush True [1, 2, 3], LeaseNext 7 5])
   in fst (chunks_mark_callis_replay_ready c 7) \<and> length (oc_slots (snd (chunks_mark_callis_replay_ready c 7))) = 2
      \<and> leasable True (oc_slots (snd (chunks_mark_callis_replay_ready c 7)) ! 0)"
proof -
  let ?st = "\<lparr>os_lifecycle = LcOpen, os_chunks = chunks_new 2 2\<rparr>"
  define c where "c = os_chunks (foldl outbound_step ?st [TryPush True [1, 2, 3], LeaseNext 7 5])"
  have new: "outbound_new 2 2 = Inr ?st" by (simp add: outbound_new_def)
  have c: "oc_slots c = [SlotWriting 0 [1, 2] 5 7 False 1, SlotEmpty]"
    by (simp add: c_def ring_eval)
  obtain ch c' where s: "chunks_mark_callis_replay_ready c 7 = (ch, c')" by fastforce
  have "2 \<le> u64_max" by simp
  from callis_loss_replays [OF new this c_def s] s c show ?thesis
    unfolding c_def [symmetric] by (auto simp: swept_def dest: spec [of _ 0])
qed

theorem stale_lease_ignored_witness:
  "fst (mark_inflight (snd (chunks_lease_next (snd (chunks_mark_callis_replay_ready
      \<lparr>oc_chunk_size = 2, oc_window_size = 1, oc_next_chunk_id = 1, oc_write_cursor = 0, oc_write_buf = [],
       oc_pending_full = None, oc_slots = [SlotWriting 0 [1] 5 7 True 1], oc_chunk_index = [0 \<mapsto> 0],
       oc_ack_map = Map.empty, oc_inflight = 0, oc_created_any = True\<rparr> 7)) 7 5))
     \<lparr>cl_chunk_id = 0, cl_data = [1], cl_is_last = True, cl_peer_msg_id = 5, cl_callis_id = 7, cl_slot_seq = 1\<rparr>) = False"
proof -
  let ?c = "\<lparr>oc_chunk_size = 2, oc_window_size = 1, oc_next_chunk_id = 1, oc_write_cursor = 0, oc_write_buf = [],
       oc_pending_full = None, oc_slots = [SlotWriting 0 [1] 5 7 True 1], oc_chunk_index = [0 \<mapsto> 0],
       oc_ack_map = Map.empty, oc_inflight = 0, oc_created_any = True\<rparr> :: outbound_chunks"
  let ?l = "\<lparr>cl_chunk_id = 0, cl_data = [1], cl_is_last = True, cl_peer_msg_id = 5, cl_callis_id = 7, cl_slot_seq = 1\<rparr>"
  have inv: "oc_inv ?c"
    by (auto simp: oc_defs live_chunk_count_def pending_count_def index_ok_def acks_ok_def nth_Cons'
        split: if_splits)
  from stale_lease_ignored [OF inv _ _ _ _ refl disjI2 [OF refl], of 0 ?l 7 5] show ?thesis by simp
qed

theorem stream_drains_witness:
  "live_chunk_count (foldl (serve_chunk 7)
     \<lparr>oc_chunk_size = 2, oc_window_size = 2, oc_next_chunk_id = 2, oc_write_cursor = 0, oc_write_buf = [],
      oc_pending_full = None, oc_slots = [SlotReady 0 [1, 2] False 0, SlotReplayReady 1 [3] 6 True 1],
      oc_chunk_index = [0 \<mapsto> 0, 1 \<mapsto> 1], oc_ack_map = Map.empty, oc_inflight = 0, oc_created_any = True\<rparr>
     [5, 6]) = 0"
proof -
  let ?c = "\<lparr>oc_chunk_size = 2, oc_window_size = 2, oc_next_chunk_id = 2, oc_write_cursor = 0, oc_write_buf = [],
      oc_pending_full = None, oc_slots = [SlotReady 0 [1, 2] False 0, SlotReplayReady 1 [3] 6 True 1],
      oc_chunk_index = [0 \<mapsto> 0, 1 \<mapsto> 1], oc_ack_map = Map.empty, oc_inflight = 0, oc_created_any = True\<rparr> :: outbound_chunks"
  have "index_ok (oc_slots ?c) (oc_chunk_index ?c)"
    by (auto simp: index_ok_def nth_Cons' split: if_splits)
  then have "oc_inv ?c"
    by (simp add: oc_defs live_chunk_count_def pending_count_def acks_ok_def)
  then show ?thesis
    by (rule stream_drains) (simp_all add: all_waiting_def live_chunk_count_def)
qed

end
