(* ===== verification/Wire.thy ===== *)
theory Wire
  imports Ids
begin

unbundle bit_operations_syntax

text \<open>
  The wire format (\<^verbatim>\<open>src/crates/peering/src/wire.rs\<close>): the 32-byte frame header and the payloads of
  the control frames. Readers are cursors: each takes the remaining bytes and returns the value and
  the bytes after it. Decoders return the error the code returns, in the order the code checks.
\<close>

definition PROTOCOL_VERSION :: u16 where
  "PROTOCOL_VERSION = 1"

definition decode_failure :: "string \<Rightarrow> aurelia_error" where
  "decode_failure m = with_message DecodeFailure m"

definition protocol_violation :: "string \<Rightarrow> aurelia_error" where
  "protocol_violation m = with_message ProtocolViolation m"

definition unsupported_version :: aurelia_error where
  "unsupported_version = with_message UnsupportedVersion ''unsupported protocol version''"

definition read_u16 :: "u8 list \<Rightarrow> string \<Rightarrow> (u16 \<times> u8 list) result" where
  "read_u16 buf m =
     (if length buf < 2 then Inl (decode_failure m) else Inr (from_be (take 2 buf), drop 2 buf))"

definition read_u32 :: "u8 list \<Rightarrow> string \<Rightarrow> (u32 \<times> u8 list) result" where
  "read_u32 buf m =
     (if length buf < 4 then Inl (decode_failure m) else Inr (from_be (take 4 buf), drop 4 buf))"

definition read_u64 :: "u8 list \<Rightarrow> string \<Rightarrow> (u64 \<times> u8 list) result" where
  "read_u64 buf m =
     (if length buf < 8 then Inl (decode_failure m) else Inr (from_be (take 8 buf), drop 8 buf))"

lemmas read_defs = read_u16_def read_u32_def read_u64_def

text \<open>Reading back what was just written, with anything behind it.\<close>

lemma read_u16_be [simp]: "read_u16 (be_bytes 2 w @ r) m = Inr (w, r)"
  by (simp add: read_u16_def be_simps)

lemma read_u32_be [simp]: "read_u32 (be_bytes 4 w @ r) m = Inr (w, r)"
  by (simp add: read_u32_def be_simps)

lemma read_u64_be [simp]: "read_u64 (be_bytes 8 w @ r) m = Inr (w, r)"
  by (simp add: read_u64_def be_simps)

lemma read_u32_be' [simp]: "read_u32 (be_bytes 4 w) m = Inr (w, [])"
  using read_u32_be [of w "[]"] by simp

text \<open>What a successful read consumed is the encoding of what it returned.\<close>

lemma read_u16_Inr: "read_u16 buf m = Inr (w, r) \<Longrightarrow> buf = be_bytes 2 w @ r"
  by (auto simp: read_u16_def be_simps split: if_splits)

lemma read_u32_Inr: "read_u32 buf m = Inr (w, r) \<Longrightarrow> buf = be_bytes 4 w @ r"
  by (auto simp: read_u32_def be_simps split: if_splits)

lemma read_u64_Inr: "read_u64 buf m = Inr (w, r) \<Longrightarrow> buf = be_bytes 8 w @ r"
  by (auto simp: read_u64_def be_simps split: if_splits)

lemmas read_Inr = read_u16_Inr read_u32_Inr read_u64_Inr

text \<open>\<open>out[a..b].copy_from_slice(&bytes)\<close>: an in-place write at an offset.\<close>

definition copy_at :: "nat \<Rightarrow> 'a list \<Rightarrow> 'a list \<Rightarrow> 'a list" where
  "copy_at off bs out = take off out @ bs @ drop (off + length bs) out"

lemma copy_at_first: "copy_at 0 bs (replicate n x) = bs @ replicate (n - length bs) x"
  by (simp add: copy_at_def)

lemma copy_at_fill:
  "length pre = off \<Longrightarrow> copy_at off bs (pre @ replicate n x) = (pre @ bs) @ replicate (n - length bs) x"
  by (simp add: copy_at_def)

section \<open>Flags\<close>

text \<open>The \<open>bitflags!\<close> types are their bits; \<open>from_bits\<close> refuses a bit that is no declared flag.\<close>

definition WireFlags_BLOB :: u16 where "WireFlags_BLOB = 0x0001"
definition WireFlags_RECONNECT :: u16 where "WireFlags_RECONNECT = 0x0002"
definition BlobChunkFlags_LAST_CHUNK :: u16 where "BlobChunkFlags_LAST_CHUNK = 0x0001"

definition BlobChunkFlags_from_bits :: "u16 \<Rightarrow> u16 option" where
  "BlobChunkFlags_from_bits bits =
     (if bits AND NOT BlobChunkFlags_LAST_CHUNK = 0 then Some bits else None)"

section \<open>Hello payload\<close>

datatype hello_payload = HelloPrimary | HelloBlob (hello_chunk_size: u32) (hello_ack_window_chunks: u32)

definition HelloPayload_PRIMARY_LEN :: nat where "HelloPayload_PRIMARY_LEN = 0"
definition HelloPayload_BLOB_LEN :: nat where "HelloPayload_BLOB_LEN = 8"

fun hello_to_bytes :: "hello_payload \<Rightarrow> u8 list" where
  "hello_to_bytes (HelloBlob chunk_size ack_window_chunks) =
     be_bytes 4 chunk_size @ be_bytes 4 ack_window_chunks"
| "hello_to_bytes HelloPrimary = []"

definition hello_from_bytes :: "u8 list \<Rightarrow> hello_payload result" where
  "hello_from_bytes bytes =
     (if length bytes = HelloPayload_PRIMARY_LEN then Inr HelloPrimary
      else if length bytes = HelloPayload_BLOB_LEN then
        rbind (read_u32 bytes ''invalid hello payload length'') (\<lambda>(chunk_size, buf).
        rbind (read_u32 buf ''invalid hello payload length'') (\<lambda>(ack_window_chunks, buf).
        Inr (HelloBlob chunk_size ack_window_chunks)))
      else Inl (decode_failure ''invalid hello payload length''))"

interpretation hello: exact_codec hello_to_bytes hello_from_bytes "\<lambda>_. True"
proof unfold_locales
  fix x :: hello_payload
  show "hello_from_bytes (hello_to_bytes x) = Inr x"
    by (cases x) (simp_all add: hello_from_bytes_def HelloPayload_PRIMARY_LEN_def HelloPayload_BLOB_LEN_def)
next
  fix bs x
  assume "hello_from_bytes bs = Inr x"
  then show "True \<and> hello_to_bytes x = bs"
    by (auto simp: hello_from_bytes_def HelloPayload_PRIMARY_LEN_def HelloPayload_BLOB_LEN_def rbind_Inr_iff
        dest!: read_Inr split: if_splits)
qed

section \<open>Blob chunk payload\<close>

record blob_chunk_payload =
  bc_request_msg_id :: peer_message_id
  bc_chunk_id :: u64
  bc_flags :: u16
  bc_chunk :: "u8 list"

definition BlobChunk_HEADER_LEN :: nat where
  "BlobChunk_HEADER_LEN = 4 + 8 + 2 + 4"

definition blob_chunk_from_bytes :: "u8 list \<Rightarrow> blob_chunk_payload result" where
  "blob_chunk_from_bytes bytes =
     (if length bytes < BlobChunk_HEADER_LEN
      then Inl (decode_failure ''invalid blob chunk payload length'')
      else
        rbind (read_u32 bytes ''invalid blob chunk payload length'') (\<lambda>(request_msg_id, buf).
        rbind (read_u64 buf ''invalid blob chunk payload length'') (\<lambda>(chunk_id, buf).
        rbind (read_u16 buf ''invalid blob chunk payload length'') (\<lambda>(flags, buf).
        rbind (read_u32 buf ''invalid blob chunk payload length'') (\<lambda>(chunk_len, buf).
        if length buf \<noteq> unat chunk_len
        then Inl (decode_failure ''invalid blob chunk payload length'')
        else (case BlobChunkFlags_from_bits flags of
                None \<Rightarrow> Inl (protocol_violation (''invalid blob chunk flags: 0x'' @ show_hex4 flags))
              | Some flags' \<Rightarrow>
                  Inr \<lparr>bc_request_msg_id = request_msg_id, bc_chunk_id = chunk_id,
                       bc_flags = flags', bc_chunk = buf\<rparr>))))))"

section \<open>Blob complete payload\<close>

record blob_complete_payload =
  bcomp_request_msg_id :: peer_message_id

definition BlobComplete_LEN :: nat where "BlobComplete_LEN = 4"

definition blob_complete_to_bytes :: "blob_complete_payload \<Rightarrow> u8 list" where
  "blob_complete_to_bytes p = be_bytes 4 (bcomp_request_msg_id p)"

definition blob_complete_from_bytes :: "u8 list \<Rightarrow> blob_complete_payload result" where
  "blob_complete_from_bytes bytes =
     (if length bytes \<noteq> BlobComplete_LEN then Inl (decode_failure ''invalid blob complete payload length'')
      else rbind (read_u32 bytes ''invalid blob complete payload length'') (\<lambda>(request_msg_id, buf).
           Inr \<lparr>bcomp_request_msg_id = request_msg_id\<rparr>))"

interpretation blob_complete: exact_codec blob_complete_to_bytes blob_complete_from_bytes "\<lambda>_. True"
proof unfold_locales
  fix x :: blob_complete_payload
  show "blob_complete_from_bytes (blob_complete_to_bytes x) = Inr x"
    by (simp add: blob_complete_from_bytes_def blob_complete_to_bytes_def BlobComplete_LEN_def)
next
  fix bs x
  assume *: "blob_complete_from_bytes bs = Inr x"
  then have "length bs = 4"
    by (simp add: blob_complete_from_bytes_def BlobComplete_LEN_def split: if_splits)
  with * show "True \<and> blob_complete_to_bytes x = bs"
    by (auto simp: blob_complete_from_bytes_def blob_complete_to_bytes_def BlobComplete_LEN_def read_u32_def
        be_simps)
qed

section \<open>Error payload\<close>

definition char_byte :: "char \<Rightarrow> u8" where "char_byte c = of_char c"
definition byte_char :: "u8 \<Rightarrow> char" where "byte_char b = char_of (unat b)"

lemma byte_char_char_byte [simp]: "byte_char (char_byte c) = c"
proof -
  have "unat (of_char c :: u8) = of_char c"
    by (metis nat_of_char_less_256 of_nat_of_char unat_u8_of_nat)
  then show ?thesis by (simp add: byte_char_def char_byte_def)
qed

lemma char_byte_byte_char [simp]: "char_byte (byte_char b) = b"
proof -
  have "unat b < 256" using unsigned_less [where 'a = nat, of b] by simp
  then have nat_eq: "(of_char (char_of (unat b) :: char) :: nat) = unat b" by simp
  have "char_byte (byte_char b) = of_nat (of_char (char_of (unat b) :: char))"
    by (simp only: char_byte_def byte_char_def of_nat_of_char)
  also have "\<dots> = b" by (simp only: nat_eq) simp
  finally show ?thesis .
qed

record error_payload =
  ep_error_id :: u32
  ep_message :: string

definition error_payload_new :: "u32 \<Rightarrow> string \<Rightarrow> error_payload" where
  "error_payload_new error_id m = \<lparr>ep_error_id = error_id, ep_message = truncate_message m\<rparr>"

definition error_payload_to_bytes :: "error_payload \<Rightarrow> u8 list" where
  "error_payload_to_bytes p = be_bytes 4 (ep_error_id p) @ map char_byte (ep_message p)"

text \<open>\<open>utf8_text bs\<close> is the text of the \<open>Utf8Error\<close> that the standard library reports for \<open>bs\<close>.\<close>

definition error_payload_from_bytes :: "(u8 list \<Rightarrow> string) \<Rightarrow> u8 list \<Rightarrow> error_payload result" where
  "error_payload_from_bytes utf8_text bytes =
     (if length bytes < 4 then Inl (decode_failure ''invalid error payload length'')
      else rbind (read_u32 bytes ''invalid error payload length'') (\<lambda>(error_id, buf).
           if utf8_valid (map byte_char buf)
           then Inr \<lparr>ep_error_id = error_id, ep_message = map byte_char buf\<rparr>
           else Inl (decode_failure (utf8_text buf))))"

interpretation error_payload: exact_codec error_payload_to_bytes "error_payload_from_bytes utf8_text"
  "\<lambda>p. utf8_valid (ep_message p)" for utf8_text
proof unfold_locales
  fix x :: error_payload
  assume "utf8_valid (ep_message x)"
  then show "error_payload_from_bytes utf8_text (error_payload_to_bytes x) = Inr x"
    by (simp add: error_payload_from_bytes_def error_payload_to_bytes_def comp_def)
next
  fix bs x
  assume "error_payload_from_bytes utf8_text bs = Inr x"
  then show "utf8_valid (ep_message x) \<and> error_payload_to_bytes x = bs"
    by (auto simp: error_payload_from_bytes_def error_payload_to_bytes_def rbind_Inr_iff comp_def
        dest!: read_Inr split: if_splits)
qed

section \<open>Frame header\<close>

record wire_header =
  wh_version :: u16
  wh_flags :: u16
  wh_msg_type :: message_type
  wh_peer_msg_id :: peer_message_id
  wh_src_taberna :: taberna_id
  wh_dst_taberna :: taberna_id
  wh_payload_len :: u32

definition WireHeader_LEN :: nat where
  "WireHeader_LEN = 32"

definition header_encode :: "wire_header \<Rightarrow> u8 list" where
  "header_encode h =
     (let out = replicate WireHeader_LEN 0;
          out = copy_at 0 (be_bytes 2 (wh_version h)) out;
          out = copy_at 2 (be_bytes 2 (wh_flags h)) out;
          out = copy_at 4 (be_bytes 4 (wh_msg_type h)) out;
          out = copy_at 8 (be_bytes 4 (wh_peer_msg_id h)) out;
          out = copy_at 12 (be_bytes 8 (wh_src_taberna h)) out;
          out = copy_at 20 (be_bytes 8 (wh_dst_taberna h)) out;
          out = copy_at 28 (be_bytes 4 (wh_payload_len h)) out
      in out)"

definition header_decode :: "u8 list \<Rightarrow> wire_header result" where
  "header_decode buf =
     (if length buf \<noteq> WireHeader_LEN then Inl (decode_failure ''invalid wire header length'')
      else
        rbind (read_u16 buf ''invalid wire header length'') (\<lambda>(version, buf).
        if version \<noteq> PROTOCOL_VERSION then Inl unsupported_version
        else
        rbind (read_u16 buf ''invalid wire header length'') (\<lambda>(flags, buf).
        rbind (read_u32 buf ''invalid wire header length'') (\<lambda>(msg_type, buf).
        rbind (read_u32 buf ''invalid wire header length'') (\<lambda>(peer_msg_id, buf).
        rbind (read_u64 buf ''invalid wire header length'') (\<lambda>(src_taberna, buf).
        rbind (read_u64 buf ''invalid wire header length'') (\<lambda>(dst_taberna, buf).
        rbind (read_u32 buf ''invalid wire header length'') (\<lambda>(payload_len, buf).
        Inr \<lparr>wh_version = version, wh_flags = flags, wh_msg_type = msg_type,
             wh_peer_msg_id = peer_msg_id, wh_src_taberna = src_taberna,
             wh_dst_taberna = dst_taberna, wh_payload_len = payload_len\<rparr>))))))))"

text \<open>The fixed-offset writes lay the seven fields out one after the other and fill the array.\<close>

lemma header_encode_layout:
  "header_encode h =
     be_bytes 2 (wh_version h) @ be_bytes 2 (wh_flags h) @ be_bytes 4 (wh_msg_type h)
     @ be_bytes 4 (wh_peer_msg_id h) @ be_bytes 8 (wh_src_taberna h)
     @ be_bytes 8 (wh_dst_taberna h) @ be_bytes 4 (wh_payload_len h)"
proof -
  have "header_encode h =
     ((((((be_bytes 2 (wh_version h) @ be_bytes 2 (wh_flags h)) @ be_bytes 4 (wh_msg_type h))
     @ be_bytes 4 (wh_peer_msg_id h)) @ be_bytes 8 (wh_src_taberna h))
     @ be_bytes 8 (wh_dst_taberna h)) @ be_bytes 4 (wh_payload_len h)) @ replicate 0 0"
    unfolding header_encode_def Let_def WireHeader_LEN_def
    by (simp add: copy_at_first copy_at_fill del: append_assoc)
  then show ?thesis by simp
qed

lemma length_header_encode [simp]: "length (header_encode h) = 32"
  by (simp add: header_encode_layout)

lemma header_decode_encode:
  "header_decode (header_encode h) =
     (if wh_version h = PROTOCOL_VERSION then Inr h else Inl unsupported_version)"
  by (simp add: header_decode_def WireHeader_LEN_def) (simp add: header_encode_layout)

lemma header_encode_surj:
  assumes "length bs = 32"
  obtains h where "header_encode h = bs"
proof
  let ?h = "\<lparr>wh_version = from_be (take 2 bs), wh_flags = from_be (take 2 (drop 2 bs)),
    wh_msg_type = from_be (take 4 (drop 4 bs)), wh_peer_msg_id = from_be (take 4 (drop 8 bs)),
    wh_src_taberna = from_be (take 8 (drop 12 bs)), wh_dst_taberna = from_be (take 8 (drop 20 bs)),
    wh_payload_len = from_be (drop 28 bs)\<rparr>"
  have split: "take n xs @ take m (drop n xs) @ ys = take (n + m) xs @ ys" for n m and xs ys :: "u8 list"
    by (simp add: take_add)
  show "header_encode ?h = bs"
    using assms by (simp add: header_encode_layout be_simps split)
qed

interpretation header: exact_codec header_encode header_decode "\<lambda>h. wh_version h = PROTOCOL_VERSION"
proof unfold_locales
  fix h :: wire_header
  assume "wh_version h = PROTOCOL_VERSION"
  then show "header_decode (header_encode h) = Inr h" by (simp add: header_decode_encode)
next
  fix bs h
  assume *: "header_decode bs = Inr h"
  then have "length bs = 32" by (simp add: header_decode_def WireHeader_LEN_def split: if_splits)
  then obtain h' where "header_encode h' = bs" by (rule header_encode_surj)
  with * show "wh_version h = PROTOCOL_VERSION \<and> header_encode h = bs"
    by (auto simp: header_decode_encode split: if_splits)
qed

end
