(* ===== verification/Retained_Lane.thy ===== *)
theory Retained_Lane
  imports Ids
begin

text \<open>
  One priority lane of the retained store (\<^verbatim>\<open>src/crates/peering/src/transport/primary_dispatch/store.rs\<close>):
  slots that hold an outbound item until it is acknowledged, a free list, and the two queues of slots
  ready to be written. A queue entry names a slot and the sequence number the slot had when it was
  queued, so that an entry left behind by a removed item is recognised and skipped.

  \<open>Arc\<close> is sharing without mutation and is dropped; the sending half of a oneshot channel is the number
  of its channel; \<open>Instant::now()\<close> is an argument.
\<close>

section \<open>Messages\<close>

type_synonym callis_id = nat

record peer_message =
  pm_peer_msg_id :: peer_message_id
  pm_src_taberna :: taberna_id
  pm_dst_taberna :: taberna_id
  pm_msg_type :: message_type
  pm_flags :: u16
  pm_payload :: "u8 list"

datatype outbound_frame =
    FrameAck peer_message_id
  | FrameMessage peer_message
  | FrameControl (fc_msg_type: message_type) (fc_peer_msg_id: peer_message_id) (fc_payload: "u8 list")

datatype priority_tier = TierA1 | TierA2 | TierA3

definition classify_priority :: "message_type \<Rightarrow> priority_tier" where
  "classify_priority msg_type =
     (case classify_message_priority msg_type of A1 \<Rightarrow> TierA1 | A2 \<Rightarrow> TierA2 | A3 \<Rightarrow> TierA3)"

section \<open>Slots\<close>

datatype retained_lane = LaneA1Ack | LaneA1Error | LaneA2 | LaneA3

datatype slot_state =
    StEmpty
  | StReady
  | StReplayReady (last_sent_callis_id: callis_id)
  | StWriting (writing_callis_id: callis_id)
  | StInflight (last_sent_callis_id: callis_id)

record tracked_outbound =
  to_message :: peer_message
  to_ack_tx :: nat

definition tracked_peer_msg_id :: "tracked_outbound \<Rightarrow> peer_message_id" where
  "tracked_peer_msg_id t = pm_peer_msg_id (to_message t)"

definition tracked_msg_type :: "tracked_outbound \<Rightarrow> message_type" where
  "tracked_msg_type t = pm_msg_type (to_message t)"

datatype retained_item =
    ItemAck peer_message_id
  | ItemError peer_message_id outbound_frame
  | ItemTracked tracked_outbound

datatype item_kind = KindAck | KindError | KindTracked

fun item_peer_msg_id :: "retained_item \<Rightarrow> peer_message_id" where
  "item_peer_msg_id (ItemAck p) = p"
| "item_peer_msg_id (ItemError p _) = p"
| "item_peer_msg_id (ItemTracked t) = tracked_peer_msg_id t"

fun kind_of_item :: "retained_item \<Rightarrow> item_kind" where
  "kind_of_item (ItemAck _) = KindAck"
| "kind_of_item (ItemError _ _) = KindError"
| "kind_of_item (ItemTracked _) = KindTracked"

record item_identity =
  ii_peer_msg_id :: peer_message_id
  ii_seq :: nat
  ii_kind :: item_kind

record slot_id =
  sid_lane :: retained_lane
  sid_index :: nat

record queue_key =
  qk_index :: nat
  qk_seq :: nat

record retained_slot =
  rs_item :: "retained_item option"
  rs_original_deadline :: instant
  rs_lane :: retained_lane
  rs_seq :: nat
  rs_state :: slot_state

definition slot_empty :: "retained_lane \<Rightarrow> instant \<Rightarrow> retained_slot" where
  "slot_empty lane now =
     \<lparr>rs_item = None, rs_original_deadline = now, rs_lane = lane, rs_seq = 0, rs_state = StEmpty\<rparr>"

definition slot_identity :: "retained_slot \<Rightarrow> item_identity option" where
  "slot_identity s =
     map_option (\<lambda>item. \<lparr>ii_peer_msg_id = item_peer_msg_id item, ii_seq = rs_seq s, ii_kind = kind_of_item item\<rparr>)
       (rs_item s)"

section \<open>A lane\<close>

record lane_state =
  ls_lane :: retained_lane
  ls_slots :: "retained_slot list"
  ls_free :: "nat list"
  ls_ready :: "queue_key list"
  ls_replay :: "queue_key list"
  ls_target_capacity :: nat
  ls_live_count :: nat

text \<open>\<open>free\<close> is the vector with its end first, so that \<open>pop\<close> takes the head and \<open>push\<close> conses.\<close>

definition lane_new :: "retained_lane \<Rightarrow> nat \<Rightarrow> instant \<Rightarrow> lane_state" where
  "lane_new lane capacity now =
     (let target_capacity = max capacity 1
      in \<lparr>ls_lane = lane, ls_slots = replicate target_capacity (slot_empty lane now),
          ls_free = [0..<target_capacity], ls_ready = [], ls_replay = [],
          ls_target_capacity = target_capacity, ls_live_count = 0\<rparr>)"

definition set_target_capacity :: "lane_state \<Rightarrow> nat \<Rightarrow> instant \<Rightarrow> lane_state" where
  "set_target_capacity l capacity now =
     (let target_capacity = max capacity 1;
          n = length (ls_slots l);
          l' = (if n < target_capacity
                then l\<lparr>ls_slots := ls_slots l @ replicate (target_capacity - n) (slot_empty (ls_lane l) now),
                       ls_free := rev [n..<target_capacity] @ ls_free l\<rparr>
                else l)
      in l'\<lparr>ls_target_capacity := target_capacity\<rparr>)"

definition lane_available :: "lane_state \<Rightarrow> bool" where
  "lane_available l \<longleftrightarrow> ls_live_count l < ls_target_capacity l"

text \<open>Fill the slot \<open>index\<close> of a lane from which the index has been taken.\<close>

definition occupy_slot :: "lane_state \<Rightarrow> nat \<Rightarrow> retained_item \<Rightarrow> instant \<Rightarrow> nat \<Rightarrow> lane_state" where
  "occupy_slot l index item deadline seq =
     l\<lparr>ls_slots := (ls_slots l)[index := (ls_slots l ! index)\<lparr>rs_item := Some item,
           rs_original_deadline := deadline, rs_seq := seq, rs_state := StReady\<rparr>],
       ls_live_count := sat_add (ls_live_count l) 1,
       ls_ready := ls_ready l @ [\<lparr>qk_index = index, qk_seq = seq\<rparr>]\<rparr>"

definition lane_allocate ::
  "lane_state \<Rightarrow> retained_item \<Rightarrow> instant \<Rightarrow> nat \<Rightarrow> instant \<Rightarrow> slot_id option \<times> lane_state" where
  "lane_allocate l item deadline seq now =
     (if \<not> lane_available l then (None, l)
      else case ls_free l of
        index # free \<Rightarrow>
          (Some \<lparr>sid_lane = ls_lane l, sid_index = index\<rparr>,
           occupy_slot (l\<lparr>ls_free := free\<rparr>) index item deadline seq)
      | [] \<Rightarrow>
          if length (ls_slots l) < ls_target_capacity l then
            let index = length (ls_slots l)
            in (Some \<lparr>sid_lane = ls_lane l, sid_index = index\<rparr>,
                occupy_slot (l\<lparr>ls_slots := ls_slots l @ [slot_empty (ls_lane l) now]\<rparr>) index item deadline seq)
          else (None, l))"

definition lane_remove_slot :: "lane_state \<Rightarrow> nat \<Rightarrow> retained_item option \<times> lane_state" where
  "lane_remove_slot l index =
     (if length (ls_slots l) \<le> index then (None, l)
      else let slot = ls_slots l ! index
           in case rs_item slot of
                None \<Rightarrow> (None, l)
              | Some item \<Rightarrow>
                  (Some item,
                   l\<lparr>ls_slots := (ls_slots l)[index := slot\<lparr>rs_item := None, rs_state := StEmpty,
                         rs_seq := wrap_succ_max1 (rs_seq slot)\<rparr>],
                     ls_live_count := ls_live_count l - 1,
                     ls_free := index # ls_free l\<rparr>))"

text \<open>
  The loop of \<open>claim_from_queue\<close> over the keys of one queue: a key whose slot has another sequence
  number or another state is dropped. The result is the index claimed and the rest of the queue.
\<close>

definition claimable :: "bool \<Rightarrow> slot_state \<Rightarrow> bool" where
  "claimable replay st = (if replay then (case st of StReplayReady _ \<Rightarrow> True | _ \<Rightarrow> False) else st = StReady)"

fun claim_keys :: "retained_slot list \<Rightarrow> bool \<Rightarrow> queue_key list \<Rightarrow> nat option \<times> queue_key list" where
  "claim_keys slots replay [] = (None, [])"
| "claim_keys slots replay (key # keys) =
     (if length slots \<le> qk_index key then (None, keys)
      else let slot = slots ! qk_index key
           in if rs_seq slot \<noteq> qk_seq key then claim_keys slots replay keys
              else if \<not> claimable replay (rs_state slot) then claim_keys slots replay keys
              else if rs_item slot = None then (None, keys)
              else (Some (qk_index key), keys))"

definition set_slot_state :: "lane_state \<Rightarrow> nat \<Rightarrow> slot_state \<Rightarrow> lane_state" where
  "set_slot_state l index st =
     l\<lparr>ls_slots := (ls_slots l)[index := (ls_slots l ! index)\<lparr>rs_state := st\<rparr>]\<rparr>"

definition lane_claim :: "lane_state \<Rightarrow> bool \<Rightarrow> callis_id \<Rightarrow> nat option \<times> lane_state" where
  "lane_claim l replay callis =
     (let (found, keys) = claim_keys (ls_slots l) replay (if replay then ls_replay l else ls_ready l);
          l = (if replay then l\<lparr>ls_replay := keys\<rparr> else l\<lparr>ls_ready := keys\<rparr>)
      in case found of None \<Rightarrow> (None, l) | Some index \<Rightarrow> (Some index, set_slot_state l index (StWriting callis)))"

definition push_ready :: "lane_state \<Rightarrow> nat \<Rightarrow> nat \<Rightarrow> lane_state" where
  "push_ready l index seq = l\<lparr>ls_ready := ls_ready l @ [\<lparr>qk_index = index, qk_seq = seq\<rparr>]\<rparr>"

definition push_replay :: "lane_state \<Rightarrow> nat \<Rightarrow> nat \<Rightarrow> lane_state" where
  "push_replay l index seq = l\<lparr>ls_replay := ls_replay l @ [\<lparr>qk_index = index, qk_seq = seq\<rparr>]\<rparr>"

section \<open>Invariant\<close>

text \<open>Which items a lane may hold.\<close>

fun fits_lane :: "retained_lane \<Rightarrow> retained_item \<Rightarrow> bool" where
  "fits_lane LaneA1Ack item \<longleftrightarrow> kind_of_item item = KindAck"
| "fits_lane LaneA1Error item \<longleftrightarrow> kind_of_item item = KindError"
| "fits_lane LaneA2 item \<longleftrightarrow> (case item of ItemTracked t \<Rightarrow> classify_priority (tracked_msg_type t) = TierA2 | _ \<Rightarrow> False)"
| "fits_lane LaneA3 item \<longleftrightarrow> (case item of ItemTracked t \<Rightarrow> classify_priority (tracked_msg_type t) = TierA3 | _ \<Rightarrow> False)"

definition response_lane :: "retained_lane \<Rightarrow> bool" where
  "response_lane lane \<longleftrightarrow> lane = LaneA1Ack \<or> lane = LaneA1Error"

text \<open>The states an item of a lane may be in: responses are never in flight and never replayed.\<close>

definition state_fits :: "retained_lane \<Rightarrow> slot_state \<Rightarrow> bool" where
  "state_fits lane st =
     (case st of StEmpty \<Rightarrow> False | StReplayReady _ \<Rightarrow> \<not> response_lane lane
      | StInflight _ \<Rightarrow> \<not> response_lane lane | _ \<Rightarrow> True)"

definition slot_ok :: "retained_lane \<Rightarrow> retained_slot \<Rightarrow> bool" where
  "slot_ok lane s =
     (case rs_item s of None \<Rightarrow> rs_state s = StEmpty
      | Some item \<Rightarrow> fits_lane lane item \<and> state_fits lane (rs_state s))"

text \<open>A slot waiting to be written has its key in the queue it will be claimed from.\<close>

definition slot_queued :: "lane_state \<Rightarrow> nat \<Rightarrow> bool" where
  "slot_queued l i =
     (let s = ls_slots l ! i; key = \<lparr>qk_index = i, qk_seq = rs_seq s\<rparr>
      in (rs_state s = StReady \<longrightarrow> key \<in> set (ls_ready l))
         \<and> (claimable True (rs_state s) \<longrightarrow> key \<in> set (ls_replay l)))"

definition lane_inv :: "lane_state \<Rightarrow> bool" where
  "lane_inv l \<longleftrightarrow>
     1 \<le> ls_target_capacity l \<and> ls_target_capacity l \<le> length (ls_slots l) \<and> length (ls_slots l) \<le> u64_max
     \<and> ls_live_count l = length (filter (\<lambda>s. rs_item s \<noteq> None) (ls_slots l))
     \<and> distinct (ls_free l) \<and> set (ls_free l) = {i. i < length (ls_slots l) \<and> rs_item (ls_slots l ! i) = None}
     \<and> (\<forall>i < length (ls_slots l). slot_ok (ls_lane l) (ls_slots l ! i) \<and> slot_queued l i)
     \<and> (\<forall>k \<in> set (ls_ready l) \<union> set (ls_replay l). qk_index k < length (ls_slots l))"

text \<open>The occupied slots of a lane.\<close>

definition lane_slot :: "lane_state \<Rightarrow> nat \<rightharpoonup> retained_slot" where
  "lane_slot l i =
     (if i < length (ls_slots l) \<and> rs_item (ls_slots l ! i) \<noteq> None then Some (ls_slots l ! i) else None)"

lemma lane_slot_Some:
  "lane_slot l i = Some s \<longleftrightarrow> i < length (ls_slots l) \<and> rs_item s \<noteq> None \<and> ls_slots l ! i = s"
  by (auto simp: lane_slot_def)

lemma lane_slot_ok: "lane_inv l \<Longrightarrow> lane_slot l i = Some s \<Longrightarrow> slot_ok (ls_lane l) s"
  by (auto simp: lane_slot_Some lane_inv_def)

lemma finite_lane_slot: "finite (dom (lane_slot l))"
  by (rule finite_subset [of _ "{..<length (ls_slots l)}"]) (auto simp: lane_slot_def split: if_splits)

lemma lane_inv_new: "capacity \<le> u64_max \<Longrightarrow> lane_inv (lane_new lane capacity now)"
  by (auto simp: lane_inv_def lane_new_def slot_ok_def slot_queued_def slot_empty_def Let_def claimable_def)

lemma lane_slot_new [simp]: "lane_slot (lane_new lane capacity now) = Map.empty"
  by (auto simp: lane_slot_def lane_new_def slot_empty_def Let_def fun_eq_iff)

lemma lane_inv_live_le: "lane_inv l \<Longrightarrow> ls_live_count l \<le> length (ls_slots l)"
  by (simp add: lane_inv_def)

lemma lane_inv_free:
  assumes "lane_inv l" and "lane_available l"
  obtains i free where "ls_free l = i # free" "i < length (ls_slots l)" "rs_item (ls_slots l ! i) = None"
proof (cases "ls_free l")
  case Nil
  then have "\<forall>i < length (ls_slots l). rs_item (ls_slots l ! i) \<noteq> None"
    using assms(1) by (auto simp: lane_inv_def)
  then have "filter (\<lambda>s. rs_item s \<noteq> None) (ls_slots l) = ls_slots l"
    by (simp add: filter_id_conv all_set_conv_all_nth)
  with assms show thesis by (simp add: lane_inv_def lane_available_def)
next
  case (Cons i free)
  then have "i \<in> set (ls_free l)" by simp
  with assms(1) Cons show thesis by (intro that) (auto simp: lane_inv_def)
qed

text \<open>
  The one way slots change: the slot \<open>i\<close> of the lane is replaced, keys are appended to the queues, the
  free list and the count follow. Every operation on an occupied or freed slot is an instance.
\<close>

lemma lane_inv_replace:
  assumes inv: "lane_inv l" and i: "i < length (ls_slots l)"
    and ok: "slot_ok (ls_lane l) s"
    and q: "rs_state s = StReady \<Longrightarrow> \<lparr>qk_index = i, qk_seq = rs_seq s\<rparr> \<in> set ready"
      "claimable True (rs_state s) \<Longrightarrow> \<lparr>qk_index = i, qk_seq = rs_seq s\<rparr> \<in> set replay"
    and keys: "set (ls_ready l) \<subseteq> set ready" "set (ls_replay l) \<subseteq> set replay"
      "\<forall>k \<in> set ready \<union> set replay. qk_index k < length (ls_slots l)"
    and count: "n + (if rs_item (ls_slots l ! i) \<noteq> None then 1 else 0)
                  = ls_live_count l + (if rs_item s \<noteq> None then 1 else 0)"
    and free: "distinct free" "set free = (if rs_item s = None then insert i (set (ls_free l)) else set (ls_free l) - {i})"
  shows "lane_inv (l\<lparr>ls_slots := (ls_slots l)[i := s], ls_ready := ready, ls_replay := replay,
      ls_live_count := n, ls_free := free\<rparr>)"
proof -
  let ?l = "l\<lparr>ls_slots := (ls_slots l)[i := s], ls_ready := ready, ls_replay := replay,
      ls_live_count := n, ls_free := free\<rparr>"
  have n: "n = length (filter (\<lambda>s. rs_item s \<noteq> None) ((ls_slots l)[i := s]))"
    using length_filter_update [OF i, of "\<lambda>s. rs_item s \<noteq> None" s] count inv
    by (simp add: lane_inv_def split: if_splits)
  have "slot_ok (ls_lane l) ((ls_slots l)[i := s] ! j) \<and> slot_queued ?l j" if "j < length (ls_slots l)" for j
  proof (cases "j = i")
    case True
    with ok q i show ?thesis by (simp add: slot_queued_def Let_def)
  next
    case False
    with inv that keys show ?thesis by (auto simp: lane_inv_def slot_queued_def Let_def)
  qed
  moreover have "set free = {j. j < length (ls_slots l) \<and> rs_item ((ls_slots l)[i := s] ! j) = None}"
    using inv free(2) i by (auto simp: lane_inv_def nth_list_update split: if_splits)
  ultimately show ?thesis
    using inv n free(1) keys(3) by (auto simp: lane_inv_def)
qed

lemma lane_slot_replace:
  "i < length (ls_slots l) \<Longrightarrow> ls_slots l' = (ls_slots l)[i := s] \<Longrightarrow>
     lane_slot l' = (lane_slot l)(i := if rs_item s \<noteq> None then Some s else None)"
  by (auto simp: lane_slot_def fun_eq_iff nth_list_update)

section \<open>The interface of a lane\<close>

text \<open>
  What the store relies on: an item goes into a slot that was free, exactly when the lane has room;
  a removed item is the one that was there; a state change keeps the item; nothing else moves.
\<close>

locale slot_lane =
  fixes room :: "'l \<Rightarrow> bool"
    and fits :: "'l \<Rightarrow> 'x \<Rightarrow> bool"
    and allocate :: "'l \<Rightarrow> 'x \<Rightarrow> 'd \<Rightarrow> 'n \<Rightarrow> 'd \<Rightarrow> 'i option \<times> 'l"
    and remove :: "'l \<Rightarrow> nat \<Rightarrow> 'x option \<times> 'l"
    and index :: "'i \<Rightarrow> nat"
    and entry :: "'l \<Rightarrow> nat \<rightharpoonup> 's"
    and item :: "'s \<Rightarrow> 'x"
    and invar :: "'l \<Rightarrow> bool"
  assumes allocate_room: "invar l \<Longrightarrow> room l \<Longrightarrow> fits l x \<Longrightarrow>
      \<exists>i l' s. allocate l x d n now = (Some i, l') \<and> invar l' \<and> entry l (index i) = None
        \<and> item s = x \<and> entry l' = (entry l)(index i \<mapsto> s)"
    and allocate_full: "\<not> room l \<Longrightarrow> allocate l x d n now = (None, l)"
    and remove_entry: "invar l \<Longrightarrow> entry l i = Some s \<Longrightarrow>
      \<exists>l'. remove l i = (Some (item s), l') \<and> invar l' \<and> entry l' = (entry l)(i := None)"
    and remove_none: "entry l i = None \<Longrightarrow> remove l i = (None, l)"
begin

lemma invar_allocate: "invar l \<Longrightarrow> fits l x \<Longrightarrow> invar (snd (allocate l x d n now))"
proof (cases "room l")
  case True
  assume "invar l" "fits l x"
  from allocate_room [OF this(1) True this(2), of d n now] show ?thesis by auto
qed (simp add: allocate_full)

lemma invar_remove: "invar l \<Longrightarrow> invar (snd (remove l i))"
  using remove_entry [of l i] remove_none [of l i] by (cases "entry l i") auto

lemma allocate_remove:
  assumes "invar l" and "fits l x" and "allocate l x d n now = (Some i, l')"
  shows "fst (remove l' (index i)) = Some x \<and> entry (snd (remove l' (index i))) = entry l"
proof -
  have "room l" using assms(3) allocate_full [of l x d n now] by auto
  from allocate_room [OF assms(1) this assms(2), of d n now] assms(3) obtain s
    where "invar l'" "entry l (index i) = None" "item s = x" "entry l' = (entry l)(index i \<mapsto> s)" by auto
  with remove_entry [of l' "index i" s] show ?thesis by auto
qed

end

lemma lane_allocate_room:
  assumes inv: "lane_inv l" and room: "lane_available l" and fits: "fits_lane (ls_lane l) x"
  shows "\<exists>i l' s. lane_allocate l x d n now = (Some \<lparr>sid_lane = ls_lane l, sid_index = i\<rparr>, l') \<and> lane_inv l'
    \<and> lane_slot l i = None \<and> rs_item s = Some x \<and> rs_original_deadline s = d \<and> rs_seq s = n \<and> rs_state s = StReady
    \<and> lane_slot l' = (lane_slot l)(i \<mapsto> s) \<and> ls_lane l' = ls_lane l"
proof -
  obtain i free where i: "ls_free l = i # free" "i < length (ls_slots l)" "rs_item (ls_slots l ! i) = None"
    using lane_inv_free [OF inv room] .
  let ?s = "(ls_slots l ! i)\<lparr>rs_item := Some x, rs_original_deadline := d, rs_seq := n, rs_state := StReady\<rparr>"
  let ?l = "occupy_slot (l\<lparr>ls_free := free\<rparr>) i x d n"
  have len: "ls_live_count l < length (ls_slots l)" "length (ls_slots l) \<le> u64_max"
    using inv room by (auto simp: lane_inv_def lane_available_def)
  have "lane_inv (l\<lparr>ls_slots := (ls_slots l)[i := ?s], ls_ready := ls_ready l @ [\<lparr>qk_index = i, qk_seq = n\<rparr>],
      ls_replay := ls_replay l, ls_live_count := Suc (ls_live_count l), ls_free := free\<rparr>)"
    using inv i fits
    by (intro lane_inv_replace) (auto simp: slot_ok_def state_fits_def claimable_def lane_inv_def)
  moreover have l: "?l = l\<lparr>ls_slots := (ls_slots l)[i := ?s], ls_ready := ls_ready l @ [\<lparr>qk_index = i, qk_seq = n\<rparr>],
      ls_replay := ls_replay l, ls_live_count := Suc (ls_live_count l), ls_free := free\<rparr>"
    using len by (simp add: occupy_slot_def sat_add_def)
  moreover have "lane_slot ?l = (lane_slot l)(i \<mapsto> ?s)"
    using lane_slot_replace [OF i(2), of ?l ?s] l by simp
  moreover have "lane_allocate l x d n now = (Some \<lparr>sid_lane = ls_lane l, sid_index = i\<rparr>, ?l)"
    using room i by (simp add: lane_allocate_def)
  moreover have "lane_slot l i = None" using i by (simp add: lane_slot_def)
  ultimately show ?thesis by (auto intro!: exI [of _ ?s])
qed

lemma lane_remove_entry:
  assumes inv: "lane_inv l" and s: "lane_slot l i = Some s"
  shows "\<exists>l'. lane_remove_slot l i = (rs_item s, l') \<and> lane_inv l' \<and> lane_slot l' = (lane_slot l)(i := None)
    \<and> ls_lane l' = ls_lane l"
proof -
  from s obtain x where i: "i < length (ls_slots l)" "rs_item s = Some x" "ls_slots l ! i = s"
    by (auto simp: lane_slot_Some)
  let ?s = "s\<lparr>rs_item := None, rs_state := StEmpty, rs_seq := wrap_succ_max1 (rs_seq s)\<rparr>"
  let ?l = "l\<lparr>ls_slots := (ls_slots l)[i := ?s], ls_ready := ls_ready l, ls_replay := ls_replay l,
      ls_live_count := ls_live_count l - 1, ls_free := i # ls_free l\<rparr>"
  have "s \<in> set (filter (\<lambda>s. rs_item s \<noteq> None) (ls_slots l))" using i by auto
  from length_pos_if_in_set [OF this] have "0 < ls_live_count l" using inv by (simp add: lane_inv_def)
  then have "lane_inv ?l"
    using inv i by (intro lane_inv_replace) (auto simp: slot_ok_def claimable_def lane_inv_def)
  moreover have "lane_remove_slot l i = (Some x, ?l)"
    using i by (simp add: lane_remove_slot_def Let_def)
  moreover have "lane_slot ?l = (lane_slot l)(i := None)"
    using lane_slot_replace [OF i(1), of ?l ?s] by simp
  ultimately show ?thesis using i(2) by auto
qed

lemma lane_remove_none: "lane_slot l i = None \<Longrightarrow> lane_remove_slot l i = (None, l)"
  by (auto simp: lane_slot_def lane_remove_slot_def Let_def split: if_splits)

interpretation lane: slot_lane lane_available "\<lambda>l. fits_lane (ls_lane l)" lane_allocate lane_remove_slot
  sid_index lane_slot "\<lambda>s. the (rs_item s)" lane_inv
proof
  fix l :: lane_state and x d n now
  assume "lane_inv l" "lane_available l" "fits_lane (ls_lane l) x"
  from lane_allocate_room [OF this, of d n now] obtain i l' s where
    "lane_allocate l x d n now = (Some \<lparr>sid_lane = ls_lane l, sid_index = i\<rparr>, l')" "lane_inv l'"
    "lane_slot l i = None" "rs_item s = Some x" "lane_slot l' = (lane_slot l)(i \<mapsto> s)"
    by blast
  then show "\<exists>i l' s. lane_allocate l x d n now = (Some i, l') \<and> lane_inv l' \<and> lane_slot l (sid_index i) = None
      \<and> the (rs_item s) = x \<and> lane_slot l' = (lane_slot l)(sid_index i \<mapsto> s)"
    by (intro exI [of _ "\<lparr>sid_lane = ls_lane l, sid_index = i\<rparr>"] exI [of _ l'] exI [of _ s]) simp
next
  fix l :: lane_state and i s
  assume "lane_inv l" "lane_slot l i = Some s"
  from lane_remove_entry [OF this] this(2)
  show "\<exists>l'. lane_remove_slot l i = (Some (the (rs_item s)), l') \<and> lane_inv l' \<and> lane_slot l' = (lane_slot l)(i := None)"
    by (auto simp: lane_slot_Some)
qed (simp_all add: lane_allocate_def lane_remove_none)

section \<open>Changing the state of a slot\<close>

text \<open>The slot keeps its item, deadline and sequence number; its key joins the queue of its new state.\<close>

definition move_slot :: "lane_state \<Rightarrow> nat \<Rightarrow> slot_state \<Rightarrow> lane_state" where
  "move_slot l i st =
     (let l' = set_slot_state l i st; seq = rs_seq (ls_slots l ! i)
      in case st of StReady \<Rightarrow> push_ready l' i seq | StReplayReady _ \<Rightarrow> push_replay l' i seq | _ \<Rightarrow> l')"

lemma ls_lane_moves [simp]:
  "ls_lane (set_slot_state l i st) = ls_lane l" "ls_lane (push_ready l i q) = ls_lane l"
  "ls_lane (push_replay l i q) = ls_lane l" "ls_lane (move_slot l i st) = ls_lane l"
  by (simp_all add: set_slot_state_def push_ready_def push_replay_def move_slot_def Let_def split: slot_state.splits)

lemma move_slot_spec:
  assumes inv: "lane_inv l" and s: "lane_slot l i = Some s" and st: "state_fits (ls_lane l) st"
  shows "lane_inv (move_slot l i st)" "lane_slot (move_slot l i st) = (lane_slot l)(i \<mapsto> s\<lparr>rs_state := st\<rparr>)"
proof -
  have i: "i < length (ls_slots l)" "rs_item s \<noteq> None" "ls_slots l ! i = s" using s by (auto simp: lane_slot_Some)
  define key where "key = \<lparr>qk_index = i, qk_seq = rs_seq s\<rparr>"
  define ready where "ready = ls_ready l @ (if st = StReady then [key] else [])"
  define replay where "replay = ls_replay l @ (if claimable True st then [key] else [])"
  let ?s = "s\<lparr>rs_state := st\<rparr>"
  have l: "move_slot l i st = l\<lparr>ls_slots := (ls_slots l)[i := ?s], ls_ready := ready, ls_replay := replay,
      ls_live_count := ls_live_count l, ls_free := ls_free l\<rparr>"
    using i(3) by (simp add: move_slot_def set_slot_state_def push_ready_def push_replay_def ready_def
        replay_def key_def Let_def claimable_def split: slot_state.splits)
  have "slot_ok (ls_lane l) s" using inv i by (auto simp: lane_inv_def)
  then have "slot_ok (ls_lane l) ?s" using i(2) st by (auto simp: slot_ok_def split: option.splits)
  moreover have "i \<notin> set (ls_free l)" using inv i by (auto simp: lane_inv_def)
  ultimately show "lane_inv (move_slot l i st)"
    unfolding l using inv i
    by (intro lane_inv_replace) (auto simp: ready_def replay_def key_def lane_inv_def)
  show "lane_slot (move_slot l i st) = (lane_slot l)(i \<mapsto> ?s)"
    unfolding l using lane_slot_replace [OF i(1)] i(2) by simp
qed

subsection \<open>Claiming\<close>

lemma claim_keys_spec:
  assumes "\<forall>k \<in> set keys. qk_index k < length slots"
    and "\<forall>s \<in> set slots. rs_item s = None \<longrightarrow> rs_state s = StEmpty"
    and "claim_keys slots replay keys = (found, rest)"
  shows "\<exists>dropped. keys = dropped @ (case found of None \<Rightarrow> [] | Some i \<Rightarrow> [\<lparr>qk_index = i, qk_seq = rs_seq (slots ! i)\<rparr>]) @ rest
      \<and> (\<forall>k \<in> set dropped. \<not> (rs_seq (slots ! qk_index k) = qk_seq k \<and> claimable replay (rs_state (slots ! qk_index k))))
      \<and> (case found of None \<Rightarrow> rest = [] | Some i \<Rightarrow> i < length slots \<and> rs_item (slots ! i) \<noteq> None
            \<and> claimable replay (rs_state (slots ! i)))"
  using assms
proof (induction keys)
  case Nil
  then show ?case by auto
next
  case (Cons k keys)
  let ?s = "slots ! qk_index k"
  have k: "qk_index k < length slots" using Cons.prems by simp
  show ?case
  proof (cases "rs_seq ?s = qk_seq k \<and> claimable replay (rs_state ?s)")
    case True
    then have "rs_item ?s \<noteq> None" using Cons.prems(2) k by (auto simp: claimable_def split: if_splits)
    with True k Cons.prems(3) show ?thesis
      by (auto simp: Let_def intro!: exI [of _ "[]"])
  next
    case False
    with k Cons.prems(3) have "claim_keys slots replay keys = (found, rest)"
      by (auto simp: Let_def split: if_splits)
    from Cons.IH [OF _ Cons.prems(2) this] Cons.prems(1) obtain dropped where
      d: "keys = dropped @ (case found of None \<Rightarrow> [] | Some i \<Rightarrow> [\<lparr>qk_index = i, qk_seq = rs_seq (slots ! i)\<rparr>]) @ rest"
      "\<forall>k \<in> set dropped. \<not> (rs_seq (slots ! qk_index k) = qk_seq k \<and> claimable replay (rs_state (slots ! qk_index k)))"
      "case found of None \<Rightarrow> rest = [] | Some i \<Rightarrow> i < length slots \<and> rs_item (slots ! i) \<noteq> None
            \<and> claimable replay (rs_state (slots ! i))"
      by auto
    with False show ?thesis by (intro exI [of _ "k # dropped"]) auto
  qed
qed

definition lane_queue :: "lane_state \<Rightarrow> bool \<Rightarrow> queue_key list" where
  "lane_queue l replay = (if replay then ls_replay l else ls_ready l)"

text \<open>
  A claim takes the first key of the queue whose slot still waits; a lane without such a slot is left
  with an empty queue and unchanged slots.
\<close>

lemma lane_claim_cases:
  assumes inv: "lane_inv l" and claim: "lane_claim l replay callis = (found, l')"
  shows "\<exists>dropped rest. (\<forall>k \<in> set dropped. \<not> (rs_seq (ls_slots l ! qk_index k) = qk_seq k
        \<and> claimable replay (rs_state (ls_slots l ! qk_index k))))
    \<and> (case found of
         None \<Rightarrow> lane_queue l replay = dropped \<and> l' = (if replay then l\<lparr>ls_replay := []\<rparr> else l\<lparr>ls_ready := []\<rparr>)
       | Some i \<Rightarrow> lane_queue l replay = dropped @ \<lparr>qk_index = i, qk_seq = rs_seq (ls_slots l ! i)\<rparr> # rest
           \<and> i < length (ls_slots l) \<and> rs_item (ls_slots l ! i) \<noteq> None \<and> claimable replay (rs_state (ls_slots l ! i))
           \<and> l' = set_slot_state (if replay then l\<lparr>ls_replay := rest\<rparr> else l\<lparr>ls_ready := rest\<rparr>) i (StWriting callis))"
proof -
  obtain rest where ck: "claim_keys (ls_slots l) replay (lane_queue l replay) = (found, rest)"
    using claim by (auto simp: lane_claim_def lane_queue_def Let_def split: prod.splits option.splits)
  have "\<forall>k \<in> set (lane_queue l replay). qk_index k < length (ls_slots l)"
    using inv by (auto simp: lane_inv_def lane_queue_def)
  moreover have "\<forall>s \<in> set (ls_slots l). slot_ok (ls_lane l) s"
    using inv by (simp add: lane_inv_def all_set_conv_all_nth)
  then have "\<forall>s \<in> set (ls_slots l). rs_item s = None \<longrightarrow> rs_state s = StEmpty"
    by (auto simp: slot_ok_def)
  ultimately show ?thesis
    using claim_keys_spec [OF _ _ ck] claim ck
    by (cases found) (fastforce simp: lane_claim_def lane_queue_def Let_def)+
qed

lemma lane_inv_claimed:
  assumes inv: "lane_inv l" and i: "i < length (ls_slots l)" "rs_item (ls_slots l ! i) \<noteq> None"
      "claimable replay (rs_state (ls_slots l ! i))"
    and rest: "\<And>j. j < length (ls_slots l) \<Longrightarrow> j \<noteq> i \<Longrightarrow> claimable replay (rs_state (ls_slots l ! j)) \<Longrightarrow>
        \<lparr>qk_index = j, qk_seq = rs_seq (ls_slots l ! j)\<rparr> \<in> set rest"
      "\<forall>k \<in> set rest. qk_index k < length (ls_slots l)"
  shows "lane_inv (set_slot_state (if replay then l\<lparr>ls_replay := rest\<rparr> else l\<lparr>ls_ready := rest\<rparr>) i (StWriting callis))"
    (is "lane_inv ?l")
proof -
  let ?s = "(ls_slots l ! i)\<lparr>rs_state := StWriting callis\<rparr>"
  have slots: "ls_slots ?l = (ls_slots l)[i := ?s]" by (simp add: set_slot_state_def)
  have "slot_ok (ls_lane l) (ls_slots l ! i)" using inv i by (simp add: lane_inv_def)
  then have ok: "slot_ok (ls_lane l) ?s" using i(2) by (auto simp: slot_ok_def state_fits_def split: option.splits)
  have each: "slot_ok (ls_lane l) (ls_slots ?l ! j) \<and> slot_queued ?l j" if j: "j < length (ls_slots l)" for j
  proof (cases "j = i")
    case True
    with ok i show ?thesis by (simp add: slots slot_queued_def claimable_def)
  next
    case False
    with inv j have "slot_ok (ls_lane l) (ls_slots l ! j)" "slot_queued l j" by (simp_all add: lane_inv_def)
    with rest(1) [OF j False] False show ?thesis
      by (cases replay) (auto simp: slots slot_queued_def Let_def set_slot_state_def claimable_def)
  qed
  have count: "length (filter (\<lambda>s. rs_item s \<noteq> None) ((ls_slots l)[i := ?s])) = ls_live_count l"
    using length_filter_update [OF i(1), of "\<lambda>s. rs_item s \<noteq> None" ?s] i(2) inv by (simp add: lane_inv_def)
  have free: "{j. j < length (ls_slots l) \<and> rs_item ((ls_slots l)[i := ?s] ! j) = None} = set (ls_free l)"
    using inv i by (auto simp: lane_inv_def nth_list_update split: if_splits)
  have frame: "ls_target_capacity ?l = ls_target_capacity l" "ls_live_count ?l = ls_live_count l"
    "ls_free ?l = ls_free l" "ls_lane ?l = ls_lane l"
    "set (ls_ready ?l) \<union> set (ls_replay ?l) \<subseteq> set (ls_ready l) \<union> set (ls_replay l) \<union> set rest"
    by (auto simp: set_slot_state_def)
  show ?thesis
    unfolding lane_inv_def frame
    using inv each count free frame(5) rest(2) by (auto simp: slots lane_inv_def)
qed

lemma lane_claim_spec:
  assumes inv: "lane_inv l" and claim: "lane_claim l replay callis = (found, l')"
  shows "lane_inv l' \<and> ls_lane l' = ls_lane l
    \<and> (case found of
         None \<Rightarrow> lane_slot l' = lane_slot l \<and> (\<forall>i s. lane_slot l i = Some s \<longrightarrow> \<not> claimable replay (rs_state s))
       | Some i \<Rightarrow> \<exists>s. lane_slot l i = Some s \<and> claimable replay (rs_state s)
           \<and> lane_slot l' = (lane_slot l)(i \<mapsto> s\<lparr>rs_state := StWriting callis\<rparr>))"
proof -
  obtain dropped rest where d: "\<forall>k \<in> set dropped. \<not> (rs_seq (ls_slots l ! qk_index k) = qk_seq k
        \<and> claimable replay (rs_state (ls_slots l ! qk_index k)))"
    and f: "case found of
         None \<Rightarrow> lane_queue l replay = dropped \<and> l' = (if replay then l\<lparr>ls_replay := []\<rparr> else l\<lparr>ls_ready := []\<rparr>)
       | Some i \<Rightarrow> lane_queue l replay = dropped @ \<lparr>qk_index = i, qk_seq = rs_seq (ls_slots l ! i)\<rparr> # rest
           \<and> i < length (ls_slots l) \<and> rs_item (ls_slots l ! i) \<noteq> None \<and> claimable replay (rs_state (ls_slots l ! i))
           \<and> l' = set_slot_state (if replay then l\<lparr>ls_replay := rest\<rparr> else l\<lparr>ls_ready := rest\<rparr>) i (StWriting callis)"
    using lane_claim_cases [OF inv claim] by blast
  have waiting: "\<lparr>qk_index = j, qk_seq = rs_seq (ls_slots l ! j)\<rparr> \<in> set (lane_queue l replay)"
    if "j < length (ls_slots l)" "claimable replay (rs_state (ls_slots l ! j))" for j
    using that inv by (auto simp: lane_inv_def slot_queued_def lane_queue_def claimable_def Let_def)
  show ?thesis
  proof (cases found)
    case None
    then have none: "\<not> claimable replay (rs_state (ls_slots l ! j))" if "j < length (ls_slots l)" for j
      using f d waiting [OF that] by force
    have slots: "ls_slots l' = ls_slots l" "ls_lane l' = ls_lane l" using None f by (auto split: if_splits)
    have "lane_inv l'"
      using inv None f none
      by (cases replay) (auto simp: lane_inv_def slot_queued_def Let_def claimable_def)
    with slots none None show ?thesis by (auto simp: lane_slot_def fun_eq_iff)
  next
    case (Some i)
    let ?s = "ls_slots l ! i"
    have i: "i < length (ls_slots l)" "rs_item ?s \<noteq> None" "claimable replay (rs_state ?s)"
      and q: "lane_queue l replay = dropped @ \<lparr>qk_index = i, qk_seq = rs_seq ?s\<rparr> # rest"
      and l': "l' = set_slot_state (if replay then l\<lparr>ls_replay := rest\<rparr> else l\<lparr>ls_ready := rest\<rparr>) i (StWriting callis)"
      using Some f by auto
    have slots: "ls_slots l' = (ls_slots l)[i := ?s\<lparr>rs_state := StWriting callis\<rparr>]"
      by (simp add: l' set_slot_state_def)
    have "lane_inv l'"
      unfolding l'
    proof (rule lane_inv_claimed [OF inv i])
      fix j assume j: "j < length (ls_slots l)" "j \<noteq> i" "claimable replay (rs_state (ls_slots l ! j))"
      have "\<lparr>qk_index = j, qk_seq = rs_seq (ls_slots l ! j)\<rparr> \<notin> set dropped" using d j(3) by force
      with waiting [OF j(1,3)] q j(2) show "\<lparr>qk_index = j, qk_seq = rs_seq (ls_slots l ! j)\<rparr> \<in> set rest" by auto
    qed (use inv q in \<open>auto simp: lane_inv_def lane_queue_def split: if_splits\<close>)
    moreover have "lane_slot l' = (lane_slot l)(i \<mapsto> ?s\<lparr>rs_state := StWriting callis\<rparr>)"
      using lane_slot_replace [OF i(1) slots] i(2) by simp
    ultimately show ?thesis using Some i by (auto simp: l' lane_slot_def)
  qed
qed

subsection \<open>Changing the capacity\<close>

lemma lane_inv_grow:
  assumes inv: "lane_inv l" and t: "length (ls_slots l) < t" "t \<le> u64_max"
    and l': "ls_slots l' = ls_slots l @ replicate (t - length (ls_slots l)) (slot_empty (ls_lane l) now)"
      "ls_free l' = rev [length (ls_slots l)..<t] @ ls_free l"
      "ls_target_capacity l' = t" "ls_ready l' = ls_ready l" "ls_replay l' = ls_replay l"
      "ls_live_count l' = ls_live_count l" "ls_lane l' = ls_lane l"
  shows "lane_inv l'" and "lane_slot l' = lane_slot l"
proof -
  let ?n = "length (ls_slots l)"
  have nth: "ls_slots l' ! i = (if i < ?n then ls_slots l ! i else slot_empty (ls_lane l) now)" if "i < t" for i
    using that t by (simp add: l' nth_append)
  have len: "length (ls_slots l') = t" using t by (simp add: l')
  have free: "set (ls_free l') = {i. i < t \<and> rs_item (ls_slots l' ! i) = None}"
    using inv t nth by (auto simp: l' lane_inv_def slot_empty_def)
  have each: "slot_ok (ls_lane l) (ls_slots l' ! i) \<and> slot_queued l' i" if "i < t" for i
    using inv nth [OF that] by (auto simp: lane_inv_def slot_ok_def slot_queued_def slot_empty_def l' Let_def claimable_def)
  have live: "ls_live_count l = length (filter (\<lambda>s. rs_item s \<noteq> None) (ls_slots l'))"
    using inv by (simp add: l' lane_inv_def slot_empty_def)
  have dist: "distinct (ls_free l')" using inv by (auto simp: l' lane_inv_def)
  have keys: "\<forall>k \<in> set (ls_ready l) \<union> set (ls_replay l). qk_index k < t"
    using inv t unfolding lane_inv_def by (meson less_trans)
  have "1 \<le> t" using t by simp
  with t(2) free each live dist keys show "lane_inv l'"
    unfolding lane_inv_def len l'(3-7) by simp
  show "lane_slot l' = lane_slot l"
  proof
    fix i show "lane_slot l' i = lane_slot l i"
      using nth [of i] t by (cases "i < ?n") (auto simp: lane_slot_def len slot_empty_def)
  qed
qed

lemma set_target_capacity_spec:
  assumes inv: "lane_inv l" and cap: "capacity \<le> u64_max"
  shows "lane_inv (set_target_capacity l capacity now)"
    "lane_slot (set_target_capacity l capacity now) = lane_slot l"
    "ls_lane (set_target_capacity l capacity now) = ls_lane l"
proof -
  define t where "t = max capacity 1"
  have t: "1 \<le> t" "t \<le> u64_max" using cap by (simp_all add: t_def)
  have eq: "set_target_capacity l capacity now =
      (if length (ls_slots l) < t
       then l\<lparr>ls_slots := ls_slots l @ replicate (t - length (ls_slots l)) (slot_empty (ls_lane l) now),
              ls_free := rev [length (ls_slots l)..<t] @ ls_free l\<rparr>
       else l)\<lparr>ls_target_capacity := t\<rparr>"
    unfolding set_target_capacity_def t_def Let_def ..
  show "ls_lane (set_target_capacity l capacity now) = ls_lane l" by (simp add: eq)
  show "lane_inv (set_target_capacity l capacity now)"
    "lane_slot (set_target_capacity l capacity now) = lane_slot l"
  proof (atomize (full), cases "length (ls_slots l) < t")
    case False
    with inv t(1) show "lane_inv (set_target_capacity l capacity now)
        \<and> lane_slot (set_target_capacity l capacity now) = lane_slot l"
      by (simp add: eq lane_inv_def slot_queued_def lane_slot_def fun_eq_iff Let_def)
  next
    case True
    then show "lane_inv (set_target_capacity l capacity now)
        \<and> lane_slot (set_target_capacity l capacity now) = lane_slot l"
      using lane_inv_grow [OF inv True t(2), of "set_target_capacity l capacity now" now]
      by (simp add: eq)
  qed
qed

end
