(* ===== verification/Frame.thy ===== *)
theory Frame
  imports Wire Retained_Lane
begin

text \<open>
  Frames on a callis (\<^verbatim>\<open>src/crates/peering/src/transport/frame.rs\<close>): the functions that write a frame to a
  byte stream, and the two readers, one that reads a frame in one go and one that can be stopped at any
  await point and continued.

  A stream to write to collects the bytes written and follows a script of failures. A stream to read from
  is the list of what its next reads return; when the list runs out the read does not complete, which is
  what a caller sees that stops waiting. The text of an input/output error is part of the script.
\<close>

section \<open>Writing\<close>

datatype io_step = IoOk | IoFail nat string

record write_stream =
  ws_out :: "u8 list"
  ws_script :: "io_step list"

text \<open>A failing \<open>write_all\<close> may have passed on part of the buffer.\<close>

definition write_all :: "write_stream \<Rightarrow> u8 list \<Rightarrow> (string + unit) \<times> write_stream" where
  "write_all ws buf =
     (case ws_script ws of
        IoFail n m # r \<Rightarrow> (Inl m, ws\<lparr>ws_out := ws_out ws @ take n buf, ws_script := r\<rparr>)
      | s \<Rightarrow> (Inr (), ws\<lparr>ws_out := ws_out ws @ buf, ws_script := tl s\<rparr>))"

definition flush :: "write_stream \<Rightarrow> (string + unit) \<times> write_stream" where
  "flush ws =
     (case ws_script ws of
        IoFail _ m # r \<Rightarrow> (Inl m, ws\<lparr>ws_script := r\<rparr>)
      | s \<Rightarrow> (Inr (), ws\<lparr>ws_script := tl s\<rparr>))"

definition connection_lost :: "string \<Rightarrow> aurelia_error" where
  "connection_lost m = with_message ConnectionLost m"

text \<open>The buffers in turn, then the flush; the first failure ends the call.\<close>

fun write_bufs :: "write_stream \<Rightarrow> u8 list list \<Rightarrow> unit result \<times> write_stream" where
  "write_bufs ws [] =
     (case flush ws of (Inl m, ws) \<Rightarrow> (Inl (connection_lost m), ws) | (Inr _, ws) \<Rightarrow> (Inr (), ws))"
| "write_bufs ws (b # bs) =
     (case write_all ws b of (Inl m, ws) \<Rightarrow> (Inl (connection_lost m), ws) | (Inr _, ws) \<Rightarrow> write_bufs ws bs)"

definition send_frame :: "write_stream \<Rightarrow> wire_header \<Rightarrow> u8 list \<Rightarrow> unit result \<times> write_stream" where
  "send_frame ws header payload =
     write_bufs ws (header_encode header # (if payload = [] then [] else [payload]))"

definition wire_payload_len :: "nat \<Rightarrow> u32 result" where
  "wire_payload_len n =
     (if n \<le> u32_max then Inr (of_nat n)
      else Inl (with_message ProtocolViolation ''payload length exceeds wire header capacity''))"

definition control_header :: "message_type \<Rightarrow> u16 \<Rightarrow> peer_message_id \<Rightarrow> nat \<Rightarrow> wire_header result" where
  "control_header msg_type flags peer_msg_id payload_len =
     rbind (wire_payload_len payload_len) (\<lambda>len.
       Inr \<lparr>wh_version = PROTOCOL_VERSION, wh_flags = flags, wh_msg_type = msg_type,
            wh_peer_msg_id = peer_msg_id, wh_src_taberna = 0, wh_dst_taberna = 0, wh_payload_len = len\<rparr>)"

definition send_control_frame ::
  "write_stream \<Rightarrow> message_type \<Rightarrow> u16 \<Rightarrow> peer_message_id \<Rightarrow> u8 list \<Rightarrow> unit result \<times> write_stream" where
  "send_control_frame ws msg_type flags peer_msg_id payload =
     (case control_header msg_type flags peer_msg_id (length payload) of
        Inl e \<Rightarrow> (Inl e, ws)
      | Inr header \<Rightarrow> send_frame ws header payload)"

definition send_outbound_frame :: "write_stream \<Rightarrow> outbound_frame \<Rightarrow> unit result \<times> write_stream" where
  "send_outbound_frame ws frame =
     (case frame of
        FrameAck peer_msg_id \<Rightarrow>
          send_frame ws \<lparr>wh_version = PROTOCOL_VERSION, wh_flags = 0, wh_msg_type = MSG_ACK,
            wh_peer_msg_id = peer_msg_id, wh_src_taberna = 0, wh_dst_taberna = 0, wh_payload_len = 0\<rparr> []
      | FrameMessage message \<Rightarrow>
          (case wire_payload_len (length (pm_payload message)) of
             Inl e \<Rightarrow> (Inl e, ws)
           | Inr payload_len \<Rightarrow>
               send_frame ws \<lparr>wh_version = PROTOCOL_VERSION, wh_flags = pm_flags message,
                 wh_msg_type = pm_msg_type message, wh_peer_msg_id = pm_peer_msg_id message,
                 wh_src_taberna = pm_src_taberna message, wh_dst_taberna = pm_dst_taberna message,
                 wh_payload_len = payload_len\<rparr> (pm_payload message))
      | FrameControl msg_type peer_msg_id payload \<Rightarrow> send_control_frame ws msg_type 0 peer_msg_id payload)"

definition send_blob_chunk_frame ::
  "write_stream \<Rightarrow> peer_message_id \<Rightarrow> peer_message_id \<Rightarrow> u64 \<Rightarrow> u16 \<Rightarrow> u8 list \<Rightarrow> unit result \<times> write_stream" where
  "send_blob_chunk_frame ws peer_msg_id request_msg_id chunk_id flags chunk =
     (case control_header MSG_BLOB_TRANSFER_CHUNK 0 peer_msg_id (BlobChunk_HEADER_LEN + length chunk) of
        Inl e \<Rightarrow> (Inl e, ws)
      | Inr header \<Rightarrow>
          (case wire_payload_len (length chunk) of
             Inl e \<Rightarrow> (Inl e, ws)
           | Inr chunk_len \<Rightarrow>
               (let inner = replicate BlobChunk_HEADER_LEN 0;
                    inner = copy_at 0 (be_bytes 4 request_msg_id) inner;
                    inner = copy_at 4 (be_bytes 8 chunk_id) inner;
                    inner = copy_at 12 (be_bytes 2 flags) inner;
                    inner = copy_at 14 (be_bytes 4 chunk_len) inner
                in write_bufs ws (header_encode header # inner # (if chunk = [] then [] else [chunk])))))"

section \<open>Reading\<close>

text \<open>What a read returns: some bytes, none at the end of the stream, or an error.\<close>

datatype read_event = ReadData "u8 list" | ReadFail string

datatype fill_result = FillDone | FillPending | FillEof | FillFail string

text \<open>The loop \<open>while len < buf.len() { n = read(&mut buf[len..]); ... }\<close>; a read takes at most the room left.\<close>

function fill_loop ::
  "u8 list \<Rightarrow> nat \<Rightarrow> read_event list \<Rightarrow> fill_result \<times> u8 list \<times> nat \<times> read_event list" where
  "fill_loop buf len src =
     (if length buf \<le> len then (FillDone, buf, len, src)
      else case src of
             [] \<Rightarrow> (FillPending, buf, len, [])
           | ReadFail m # r \<Rightarrow> (FillFail m, buf, len, r)
           | ReadData bs # r \<Rightarrow>
               (let n = min (length bs) (length buf - len)
                in if n = 0 then (FillEof, buf, len, r)
                   else fill_loop (copy_at len (take n bs) buf) (len + n)
                          (if n < length bs then ReadData (drop n bs) # r else r)))"
  by pat_completeness auto

termination
  by (relation "measure (\<lambda>(buf, len, src). length buf - len)") (auto simp: copy_at_def min_def simp flip: length_greater_0_conv)

declare fill_loop.simps [simp del]

record frame_read_state =
  fr_header_buf :: "u8 list"
  fr_header_len :: nat
  fr_payload_header :: "wire_header option"
  fr_payload_buf :: "u8 list"
  fr_payload_len :: nat

definition frame_reader_default :: frame_read_state where
  "frame_reader_default =
     \<lparr>fr_header_buf = replicate WireHeader_LEN 0, fr_header_len = 0, fr_payload_header = None,
      fr_payload_buf = [], fr_payload_len = 0\<rparr>"

text \<open>\<open>None\<close>: the read has not completed. Otherwise the result, whose \<open>None\<close> is the clean end of the stream.\<close>

type_synonym read_outcome = "(wire_header \<times> u8 list) option result option"

definition payload_too_long :: aurelia_error where
  "payload_too_long = with_message ProtocolViolation ''payload length exceeds max''"

definition read_payload :: "frame_read_state \<Rightarrow> read_event list \<Rightarrow> read_outcome \<times> frame_read_state \<times> read_event list" where
  "read_payload st src =
     (case fill_loop (fr_payload_buf st) (fr_payload_len st) src of
        (res, buf, len, src) \<Rightarrow>
          let st = st\<lparr>fr_payload_buf := buf, fr_payload_len := len\<rparr>
          in case res of
               FillPending \<Rightarrow> (None, st, src)
             | FillFail m \<Rightarrow> (Some (Inl (connection_lost m)), st, src)
             | FillEof \<Rightarrow> (Some (Inl (connection_lost ''unexpected EOF while reading frame payload'')), st, src)
             | FillDone \<Rightarrow>
                 (Some (Inr (Some (the (fr_payload_header st), buf))),
                  st\<lparr>fr_payload_header := None, fr_payload_buf := [], fr_payload_len := 0\<rparr>, src))"

definition read_next ::
  "frame_read_state \<Rightarrow> read_event list \<Rightarrow> nat \<Rightarrow> read_outcome \<times> frame_read_state \<times> read_event list" where
  "read_next st src max_payload_len =
     (if fr_payload_header st \<noteq> None then read_payload st src
      else case fill_loop (fr_header_buf st) (fr_header_len st) src of
        (res, buf, len, src) \<Rightarrow>
          let st = st\<lparr>fr_header_buf := buf, fr_header_len := len\<rparr>
          in case res of
               FillPending \<Rightarrow> (None, st, src)
             | FillFail m \<Rightarrow> (Some (Inl (connection_lost m)), st, src)
             | FillEof \<Rightarrow>
                 (Some (if len = 0 then Inr None
                        else Inl (connection_lost ''unexpected EOF while reading frame header'')), st, src)
             | FillDone \<Rightarrow>
                 (case header_decode buf of
                    Inl e \<Rightarrow> (Some (Inl e), st, src)
                  | Inr header \<Rightarrow>
                      let payload_len = unat (wh_payload_len header)
                      in if payload_len > max_payload_len then (Some (Inl payload_too_long), st, src)
                         else let st = st\<lparr>fr_header_len := 0\<rparr>
                              in if payload_len = 0 then (Some (Inr (Some (header, []))), st, src)
                                 else read_payload (st\<lparr>fr_payload_header := Some header,
                                        fr_payload_buf := replicate payload_len 0, fr_payload_len := 0\<rparr>) src))"

text \<open>\<open>read_exact\<close> into a fresh buffer; \<open>eof_text\<close> is the text of its \<open>UnexpectedEof\<close> error.\<close>

definition read_frame ::
  "string \<Rightarrow> read_event list \<Rightarrow> nat \<Rightarrow> read_outcome \<times> read_event list" where
  "read_frame eof_text src max_payload_len =
     (case fill_loop (replicate WireHeader_LEN 0) 0 src of
        (FillPending, _, _, src) \<Rightarrow> (None, src)
      | (FillEof, _, _, src) \<Rightarrow> (Some (Inr None), src)
      | (FillFail m, _, _, src) \<Rightarrow> (Some (Inl (connection_lost m)), src)
      | (FillDone, buf, _, src) \<Rightarrow>
          (case header_decode buf of
             Inl e \<Rightarrow> (Some (Inl e), src)
           | Inr header \<Rightarrow>
               let payload_len = unat (wh_payload_len header)
               in if payload_len > max_payload_len then (Some (Inl payload_too_long), src)
                  else if payload_len = 0 then (Some (Inr (Some (header, []))), src)
                  else case fill_loop (replicate payload_len 0) 0 src of
                         (FillPending, _, _, src) \<Rightarrow> (None, src)
                       | (FillEof, _, _, src) \<Rightarrow> (Some (Inl (connection_lost eof_text)), src)
                       | (FillFail m, _, _, src) \<Rightarrow> (Some (Inl (connection_lost m)), src)
                       | (FillDone, payload, _, src) \<Rightarrow> (Some (Inr (Some (header, payload))), src)))"


section \<open>The filling loop\<close>

text \<open>A stream without errors that has not ended: every read returns at least one byte.\<close>

definition live_data :: "read_event list \<Rightarrow> bool" where
  "live_data src \<longleftrightarrow> (\<forall>e \<in> set src. \<exists>bs. e = ReadData bs \<and> bs \<noteq> [])"

primrec event_bytes :: "read_event \<Rightarrow> u8 list" where
  "event_bytes (ReadData bs) = bs"
| "event_bytes (ReadFail _) = []"

definition stream_bytes :: "read_event list \<Rightarrow> u8 list" where
  "stream_bytes src = concat (map event_bytes src)"

lemma length_copy_at: "off + length bs \<le> length out \<Longrightarrow> length (copy_at off bs out) = length out"
  by (simp add: copy_at_def)

lemma take_copy_at: "off + length bs \<le> length out \<Longrightarrow> take (off + length bs) (copy_at off bs out) = take off out @ bs"
  by (simp add: copy_at_def)

lemma fill_loop_full: "length buf \<le> len \<Longrightarrow> fill_loop buf len src = (FillDone, buf, len, src)"
  by (simp add: fill_loop.simps [of buf len src])

lemma fill_loop_stop [simp]:
  "len < length buf \<Longrightarrow> fill_loop buf len [] = (FillPending, buf, len, [])"
  "len < length buf \<Longrightarrow> fill_loop buf len (ReadFail m # r) = (FillFail m, buf, len, r)"
  "len < length buf \<Longrightarrow> fill_loop buf len (ReadData [] # r) = (FillEof, buf, len, r)"
  by (subst fill_loop.simps, simp)+

text \<open>With enough bytes ahead the buffer is filled with the next bytes of the stream, however they are cut.\<close>

lemma fill_loop_done:
  assumes "live_data src" and "len \<le> length buf" and "length buf - len \<le> length (stream_bytes src)"
  shows "\<exists>src'. fill_loop buf len src
      = (FillDone, take len buf @ take (length buf - len) (stream_bytes src), length buf, src')
    \<and> live_data src' \<and> stream_bytes src' = drop (length buf - len) (stream_bytes src)"
  using assms
proof (induction buf len src rule: fill_loop.induct)
  case (1 buf len src)
  show ?case
  proof (cases "length buf \<le> len")
    case True
    with 1(2-4) show ?thesis by (simp add: fill_loop_full)
  next
    case False
    then have "src \<noteq> []" using 1(4) by (auto simp: stream_bytes_def)
    then obtain bs r where src: "src = ReadData bs # r" and bs: "bs \<noteq> []" and r: "live_data r"
      using 1(2) by (cases src) (auto simp: live_data_def)
    define n where "n = min (length bs) (length buf - len)"
    have n: "0 < n" "n \<le> length bs" "len + n \<le> length buf" using bs False by (auto simp: n_def)
    define src1 where "src1 = (if n < length bs then ReadData (drop n bs) # r else r)"
    define buf1 where "buf1 = copy_at len (take n bs) buf"
    have len1: "length buf1 = length buf" unfolding buf1_def using n by (intro length_copy_at) simp
    have take1: "take (len + n) buf1 = take len buf @ take n bs"
      using take_copy_at [of len "take n bs" buf] n by (simp add: buf1_def)
    have bytes: "stream_bytes src = take n bs @ stream_bytes src1"
      using n(2) by (auto simp: src src1_def stream_bytes_def)
    have live1: "live_data src1" using r n by (auto simp: src1_def live_data_def)
    have step: "fill_loop buf len src = fill_loop buf1 (len + n) src1"
      using False n(1) by (subst fill_loop.simps) (simp add: src Let_def n_def src1_def buf1_def)
    have "\<exists>src'. fill_loop buf1 (len + n) src1
        = (FillDone, take (len + n) buf1 @ take (length buf1 - (len + n)) (stream_bytes src1), length buf1, src')
      \<and> live_data src' \<and> stream_bytes src' = drop (length buf1 - (len + n)) (stream_bytes src1)"
      using 1(1) [OF False src refl n_def] n live1 bytes 1(4) len1
      unfolding src1_def [symmetric] buf1_def [symmetric] by simp
    then show ?thesis
      using n len1 take1 bytes by (auto simp: step)
  qed
qed

text \<open>Stopping when the stream runs dry and continuing later is the same as never stopping.\<close>

lemma fill_loop_append:
  "fill_loop buf len (src1 @ src2) =
     (case fill_loop buf len src1 of
        (FillPending, buf', len', r) \<Rightarrow> fill_loop buf' len' src2
      | (res, buf', len', r) \<Rightarrow> (res, buf', len', r @ src2))"
proof (induction buf len src1 rule: fill_loop.induct)
  case (1 buf len src1)
  show ?case
  proof (cases "length buf \<le> len")
    case True
    then show ?thesis by (simp add: fill_loop_full)
  next
    case False
    show ?thesis
    proof (cases src1)
      case Nil
      with False show ?thesis by simp
    next
      case (Cons e r)
      show ?thesis
      proof (cases e)
        case (ReadFail m)
        with False Cons show ?thesis by simp
      next
        case (ReadData bs)
        define n where "n = min (length bs) (length buf - len)"
        show ?thesis
        proof (cases "n = 0")
          case True
          then have "bs = []" using False by (cases bs) (auto simp: n_def)
          with False Cons ReadData show ?thesis by simp
        next
          case nz: False
          have step: "fill_loop buf len (ReadData bs # rr) =
              fill_loop (copy_at len (take n bs) buf) (len + n) (if n < length bs then ReadData (drop n bs) # rr else rr)" for rr
            using False nz by (subst fill_loop.simps) (simp add: Let_def flip: n_def)
          from 1 [OF False, unfolded Cons ReadData, OF refl refl n_def nz] show ?thesis
            unfolding Cons ReadData append_Cons step by (simp split: if_splits)
        qed
      qed
    qed
  qed
qed

section \<open>Frames\<close>

definition frame_bytes :: "wire_header \<Rightarrow> u8 list \<Rightarrow> u8 list" where
  "frame_bytes h payload = header_encode h @ payload"

definition frame_ok :: "wire_header \<Rightarrow> u8 list \<Rightarrow> bool" where
  "frame_ok h payload \<longleftrightarrow> wh_version h = PROTOCOL_VERSION \<and> unat (wh_payload_len h) = length payload"

text \<open>A reader between two frames.\<close>

definition reader_idle :: "frame_read_state \<Rightarrow> bool" where
  "reader_idle st \<longleftrightarrow> length (fr_header_buf st) = WireHeader_LEN \<and> fr_header_len st = 0
     \<and> fr_payload_header st = None \<and> fr_payload_buf st = [] \<and> fr_payload_len st = 0"

lemma reader_idle_default: "reader_idle frame_reader_default"
  by (simp add: reader_idle_def frame_reader_default_def)

lemma header_decode_32 [simp]:
  "wh_version h = PROTOCOL_VERSION \<Longrightarrow> header_decode (header_encode h) = Inr h"
  by (simp add: header_decode_encode)

lemma read_next_frame:
  assumes idle: "reader_idle st" and live: "live_data src" and ok: "frame_ok h payload"
    and bytes: "stream_bytes src = frame_bytes h payload @ rest" and max: "length payload \<le> max_payload"
  shows "\<exists>st' src'. read_next st src max_payload = (Some (Inr (Some (h, payload))), st', src')
    \<and> reader_idle st' \<and> live_data src' \<and> stream_bytes src' = rest"
proof -
  have v: "wh_version h = PROTOCOL_VERSION" and len: "unat (wh_payload_len h) = length payload"
    using ok by (simp_all add: frame_ok_def)
  have st: "length (fr_header_buf st) = 32" "fr_header_len st = 0" "fr_payload_header st = None"
      "fr_payload_buf st = []" "fr_payload_len st = 0"
    using idle by (simp_all add: reader_idle_def WireHeader_LEN_def)
  have "32 \<le> length (stream_bytes src)" by (simp add: bytes frame_bytes_def)
  with fill_loop_done [OF live, of 0 "fr_header_buf st"] st(1)
  obtain src1 where f1: "fill_loop (fr_header_buf st) 0 src = (FillDone, take 32 (stream_bytes src), 32, src1)"
      "live_data src1" "stream_bytes src1 = drop 32 (stream_bytes src)" by auto
  have hd: "take 32 (stream_bytes src) = header_encode h" and tl: "stream_bytes src1 = payload @ rest"
    using f1(3) by (simp_all add: bytes frame_bytes_def)
  show ?thesis
  proof (cases "payload = []")
    case True
    then show ?thesis
      using f1 hd tl v len max st by (auto simp: read_next_def reader_idle_def WireHeader_LEN_def)
  next
    case False
    have "length payload \<le> length (stream_bytes src1)" by (simp add: tl)
    with fill_loop_done [OF f1(2), of 0 "replicate (length payload) 0"]
    obtain src2 where f2: "fill_loop (replicate (length payload) 0) 0 src1 = (FillDone, payload, length payload, src2)"
        "live_data src2" "stream_bytes src2 = rest" by (auto simp: tl)
    with False f1 hd tl v len max st show ?thesis
      by (auto simp: read_next_def read_payload_def reader_idle_def WireHeader_LEN_def Let_def)
  qed
qed

fun read_all :: "frame_read_state \<Rightarrow> read_event list \<Rightarrow> nat \<Rightarrow> nat \<Rightarrow> (wire_header \<times> u8 list) list \<times> frame_read_state \<times> read_event list" where
  "read_all st src max_payload 0 = ([], st, src)"
| "read_all st src max_payload (Suc n) =
     (case read_next st src max_payload of
        (Some (Inr (Some f)), st, src) \<Rightarrow>
          (case read_all st src max_payload n of (fs, st, src) \<Rightarrow> (f # fs, st, src))
      | (_, st, src) \<Rightarrow> ([], st, src))"

lemma read_all_frames:
  assumes "reader_idle st" and "live_data src"
    and "\<forall>(h, payload) \<in> set frames. frame_ok h payload \<and> length payload \<le> max_payload"
    and "stream_bytes src = concat (map (\<lambda>(h, payload). frame_bytes h payload) frames) @ rest"
  shows "\<exists>st' src'. read_all st src max_payload (length frames) = (frames, st', src')
    \<and> reader_idle st' \<and> stream_bytes src' = rest"
  using assms
proof (induction frames arbitrary: st src)
  case Nil
  then show ?case by simp
next
  case (Cons f fs)
  obtain h payload where f: "f = (h, payload)" by fastforce
  have b: "stream_bytes src = frame_bytes h payload @ (concat (map (\<lambda>(h, payload). frame_bytes h payload) fs) @ rest)"
    using Cons.prems(4) by (simp add: f)
  obtain st1 src1 where r: "read_next st src max_payload = (Some (Inr (Some (h, payload))), st1, src1)"
      "reader_idle st1" "live_data src1"
      "stream_bytes src1 = concat (map (\<lambda>(h, payload). frame_bytes h payload) fs) @ rest"
    using read_next_frame [OF Cons.prems(1,2) _ b, of max_payload] Cons.prems(3) unfolding f by fastforce
  from Cons.IH [OF r(2,3) _ r(4)] Cons.prems(3) r(1) show ?case by (auto simp: f)
qed

text \<open>
  C32. Framing does not depend on how the bytes arrive: whatever reads the stream is cut into, a reader
  started on the bytes of a sequence of frames returns exactly those frames, header and payload, in
  order, and leaves the rest of the stream unread.
\<close>

theorem reader_recovers_frames:
  assumes "live_data src" and "\<forall>(h, payload) \<in> set frames. frame_ok h payload \<and> length payload \<le> max_payload"
    and "stream_bytes src = concat (map (\<lambda>(h, payload). frame_bytes h payload) frames) @ rest"
  shows "\<exists>st' src'. read_all frame_reader_default src max_payload (length frames) = (frames, st', src')
    \<and> reader_idle st' \<and> stream_bytes src' = rest"
  using reader_idle_default assms by (rule read_all_frames)

text \<open>
  Reading a frame may be stopped and continued: if the reader has not completed on the bytes received
  so far, continuing it on what comes next gives the same result, and leaves the same state, as one
  uninterrupted read; no byte is lost or read twice.
\<close>

theorem reader_cancel_safe:
  assumes "read_next st src1 max_payload = (None, st', r)"
  shows "read_next st (src1 @ src2) max_payload = read_next st' src2 max_payload"
proof -
  have payload: "read_payload s (src1 @ src2) = read_payload s' src2"
    if "read_payload s src1 = (None, s', r)" for s s' src1 r
    using that unfolding read_payload_def fill_loop_append
    by (auto simp: Let_def split: prod.splits fill_result.splits)
  have keeps: "fr_payload_header s' = fr_payload_header s" if "read_payload s src = (None, s', r)" for s s' src r
    using that by (auto simp: read_payload_def Let_def split: prod.splits fill_result.splits)
  show ?thesis
  proof (cases "fr_payload_header st")
    case (Some h)
    with assms payload keeps show ?thesis by (auto simp: read_next_def)
  next
    case None
    obtain res buf len r1 where f: "fill_loop (fr_header_buf st) (fr_header_len st) src1 = (res, buf, len, r1)"
      by (metis prod_cases4)
    show ?thesis
    proof (cases res)
      case FillPending
      with assms None f show ?thesis by (auto simp: read_next_def fill_loop_append)
    next
      case FillDone
      let ?st = "st\<lparr>fr_header_buf := buf, fr_header_len := 0\<rparr>"
      from assms None f FillDone obtain h where h: "header_decode buf = Inr h" "unat (wh_payload_len h) \<le> max_payload"
          "unat (wh_payload_len h) \<noteq> 0"
          "read_payload (?st\<lparr>fr_payload_header := Some h, fr_payload_buf := replicate (unat (wh_payload_len h)) 0,
             fr_payload_len := 0\<rparr>) r1 = (None, st', r)"
        by (auto simp: read_next_def Let_def split: sum.splits if_splits)
      from payload [OF h(4)] keeps [OF h(4)] None f FillDone h(1-3) show ?thesis
        by (simp add: read_next_def fill_loop_append Let_def)
    qed (use assms None f in \<open>auto simp: read_next_def\<close>)
  qed
qed


section \<open>What is written\<close>

lemma write_all_cases:
  "\<exists>p. ws_out (snd (write_all ws b)) = ws_out ws @ p \<and> (\<exists>q. b = p @ q)
     \<and> (fst (write_all ws b) = Inr () \<longrightarrow> p = b)"
proof -
  have "\<exists>q. b = take n b @ q" for n by (metis append_take_drop_id)
  then show ?thesis by (auto simp: write_all_def split: list.splits io_step.splits)
qed

lemma write_bufs_prefix:
  "\<exists>p. ws_out (snd (write_bufs ws bs)) = ws_out ws @ p \<and> (\<exists>q. concat bs = p @ q)
     \<and> (fst (write_bufs ws bs) = Inr () \<longrightarrow> p = concat bs)"
proof (induction bs arbitrary: ws)
  case Nil
  then show ?case by (auto simp: flush_def split: list.splits io_step.splits)
next
  case (Cons b bs)
  obtain r ws1 where w: "write_all ws b = (r, ws1)" by fastforce
  from write_all_cases [of ws b] w obtain p where p: "ws_out ws1 = ws_out ws @ p" "\<exists>q. b = p @ q"
      "r = Inr () \<longrightarrow> p = b" by auto
  show ?case
  proof (cases r)
    case (Inl m)
    with w p show ?thesis by auto
  next
    case (Inr u)
    from Cons.IH [of ws1] obtain p1 where "ws_out (snd (write_bufs ws1 bs)) = ws_out ws1 @ p1"
        "\<exists>q. concat bs = p1 @ q" "fst (write_bufs ws1 bs) = Inr () \<longrightarrow> p1 = concat bs" by blast
    with w p Inr show ?thesis by (intro exI [of _ "b @ p1"]) auto
  qed
qed

lemma write_bufs_ok:
  "ws_script ws = [] \<Longrightarrow> write_bufs ws bs = (Inr (), ws\<lparr>ws_out := ws_out ws @ concat bs\<rparr>)"
  by (induction bs arbitrary: ws) (simp_all add: write_all_def flush_def)

lemma send_frame_ok:
  "ws_script ws = [] \<Longrightarrow> send_frame ws h payload = (Inr (), ws\<lparr>ws_out := ws_out ws @ frame_bytes h payload\<rparr>)"
  by (simp add: send_frame_def write_bufs_ok frame_bytes_def del: write_bufs.simps)

text \<open>The header and payload an outbound frame stands for.\<close>

fun outbound_payload :: "outbound_frame \<Rightarrow> u8 list" where
  "outbound_payload (FrameAck _) = []"
| "outbound_payload (FrameMessage m) = pm_payload m"
| "outbound_payload (FrameControl _ _ payload) = payload"

fun outbound_header :: "outbound_frame \<Rightarrow> wire_header" where
  "outbound_header (FrameAck p) = \<lparr>wh_version = PROTOCOL_VERSION, wh_flags = 0, wh_msg_type = MSG_ACK,
     wh_peer_msg_id = p, wh_src_taberna = 0, wh_dst_taberna = 0, wh_payload_len = 0\<rparr>"
| "outbound_header (FrameMessage m) = \<lparr>wh_version = PROTOCOL_VERSION, wh_flags = pm_flags m, wh_msg_type = pm_msg_type m,
     wh_peer_msg_id = pm_peer_msg_id m, wh_src_taberna = pm_src_taberna m, wh_dst_taberna = pm_dst_taberna m,
     wh_payload_len = of_nat (length (pm_payload m))\<rparr>"
| "outbound_header (FrameControl t p payload) = \<lparr>wh_version = PROTOCOL_VERSION, wh_flags = 0, wh_msg_type = t,
     wh_peer_msg_id = p, wh_src_taberna = 0, wh_dst_taberna = 0, wh_payload_len = of_nat (length payload)\<rparr>"

lemma unat_of_nat_u32: "n \<le> u32_max \<Longrightarrow> unat (of_nat n :: u32) = n"
  by (simp add: unsigned_of_nat take_bit_nat_eq_self)

lemma outbound_frame_ok: "length (outbound_payload f) \<le> u32_max \<Longrightarrow> frame_ok (outbound_header f) (outbound_payload f)"
  by (cases f) (simp_all add: frame_ok_def unat_of_nat_u32)

lemma send_outbound_frame_eq:
  "send_outbound_frame ws f =
     (if length (outbound_payload f) \<le> u32_max then send_frame ws (outbound_header f) (outbound_payload f)
      else (Inl (with_message ProtocolViolation ''payload length exceeds wire header capacity''), ws))"
  by (cases f) (simp_all add: send_outbound_frame_def send_control_frame_def control_header_def wire_payload_len_def)

lemma send_outbound_frames:
  assumes "\<forall>f \<in> set frames. length (outbound_payload f) \<le> u32_max" and "ws_script ws = []"
  shows "foldl (\<lambda>ws f. snd (send_outbound_frame ws f)) ws frames =
    ws\<lparr>ws_out := ws_out ws @ concat (map (\<lambda>f. frame_bytes (outbound_header f) (outbound_payload f)) frames)\<rparr>"
  using assms
proof (induction frames arbitrary: ws)
  case Nil
  then show ?case by simp
next
  case (Cons f fs)
  then show ?case by (simp add: send_outbound_frame_eq send_frame_ok)
qed

text \<open>
  What one side writes the other reads: outbound frames whose payloads fit, written one after the
  other to a stream that does not fail, are read back as the same sequence of headers and payloads
  however the network cuts the bytes, and nothing is left over.
\<close>

theorem outbound_frames_round_trip:
  assumes "\<forall>f \<in> set frames. length (outbound_payload f) \<le> u32_max \<and> length (outbound_payload f) \<le> max_payload"
    and "ws = foldl (\<lambda>ws f. snd (send_outbound_frame ws f)) \<lparr>ws_out = [], ws_script = []\<rparr> frames"
    and "live_data src" and "stream_bytes src = ws_out ws"
  shows "\<exists>st' src'. read_all frame_reader_default src max_payload (length frames)
      = (map (\<lambda>f. (outbound_header f, outbound_payload f)) frames, st', src') \<and> stream_bytes src' = []"
proof -
  let ?frames = "map (\<lambda>f. (outbound_header f, outbound_payload f)) frames"
  have "stream_bytes src = concat (map (\<lambda>(h, payload). frame_bytes h payload) ?frames) @ []"
    using send_outbound_frames [of frames "\<lparr>ws_out = [], ws_script = []\<rparr>"] assms(1,2,4) by (simp add: comp_def)
  moreover have "\<forall>(h, payload) \<in> set ?frames. frame_ok h payload \<and> length payload \<le> max_payload"
    using assms(1) outbound_frame_ok by auto
  ultimately show ?thesis
    using read_all_frames [OF reader_idle_default assms(3), of ?frames max_payload "[]"] by auto
qed

text \<open>
  A frame is written whole, in part before a failure, or not at all: whatever the stream does, the
  bytes passed on are a beginning of the frame's bytes, they are all of them when the call succeeds, and
  a payload whose length does not fit the header field is refused before anything is written.
\<close>

theorem send_outbound_frame_prefix:
  "\<exists>p q. ws_out (snd (send_outbound_frame ws f)) = ws_out ws @ p
     \<and> frame_bytes (outbound_header f) (outbound_payload f) = p @ q
     \<and> (fst (send_outbound_frame ws f) = Inr () \<longrightarrow> q = [])
     \<and> (length (outbound_payload f) > u32_max \<longrightarrow> p = []
          \<and> fst (send_outbound_frame ws f) = Inl (with_message ProtocolViolation ''payload length exceeds wire header capacity''))"
proof (cases "length (outbound_payload f) \<le> u32_max")
  case False
  then show ?thesis by (simp add: send_outbound_frame_eq)
next
  case True
  let ?bs = "header_encode (outbound_header f) # (if outbound_payload f = [] then [] else [outbound_payload f])"
  have cat: "concat ?bs = frame_bytes (outbound_header f) (outbound_payload f)" by (simp add: frame_bytes_def)
  from write_bufs_prefix [of ws ?bs] obtain p q where "ws_out (snd (write_bufs ws ?bs)) = ws_out ws @ p"
      "concat ?bs = p @ q" "fst (write_bufs ws ?bs) = Inr () \<longrightarrow> p = concat ?bs" by blast
  with True cat show ?thesis
    by (intro exI [of _ p] exI [of _ q]) (simp add: send_outbound_frame_eq send_frame_def del: write_bufs.simps)
qed

text \<open>The header and the inner header of a chunk frame.\<close>

definition chunk_header :: "peer_message_id \<Rightarrow> nat \<Rightarrow> wire_header" where
  "chunk_header pmid len = \<lparr>wh_version = PROTOCOL_VERSION, wh_flags = 0, wh_msg_type = MSG_BLOB_TRANSFER_CHUNK,
     wh_peer_msg_id = pmid, wh_src_taberna = 0, wh_dst_taberna = 0, wh_payload_len = of_nat (BlobChunk_HEADER_LEN + len)\<rparr>"

definition chunk_inner :: "peer_message_id \<Rightarrow> u64 \<Rightarrow> u16 \<Rightarrow> nat \<Rightarrow> u8 list" where
  "chunk_inner request_msg_id chunk_id flags len =
     be_bytes 4 request_msg_id @ be_bytes 8 chunk_id @ be_bytes 2 flags @ be_bytes 4 (of_nat len :: u32)"

lemma chunk_inner_layout:
  "copy_at 14 (be_bytes 4 (of_nat len :: u32)) (copy_at 12 (be_bytes 2 flags)
      (copy_at 4 (be_bytes 8 chunk_id) (copy_at 0 (be_bytes 4 request_msg_id) (replicate 18 0)))) = chunk_inner request_msg_id chunk_id flags len"
proof -
  have "copy_at 14 (be_bytes 4 (of_nat len :: u32)) (copy_at 12 (be_bytes 2 flags)
      (copy_at 4 (be_bytes 8 chunk_id) (copy_at 0 (be_bytes 4 request_msg_id) (replicate 18 0))))
      = ((((be_bytes 4 request_msg_id) @ be_bytes 8 chunk_id) @ be_bytes 2 flags) @ be_bytes 4 (of_nat len :: u32)) @ replicate 0 0"
    by (simp add: copy_at_first copy_at_fill del: append_assoc)
  then show ?thesis by (simp add: chunk_inner_def)
qed

lemma chunk_inner_length: "length (chunk_inner request_msg_id chunk_id flags len) = 18"
  by (simp add: chunk_inner_def)

lemma send_blob_chunk_frame_eq:
  "send_blob_chunk_frame ws pmid request_msg_id chunk_id flags chunk =
     (if BlobChunk_HEADER_LEN + length chunk \<le> u32_max
      then write_bufs ws (header_encode (chunk_header pmid (length chunk)) # chunk_inner request_msg_id chunk_id flags (length chunk)
             # (if chunk = [] then [] else [chunk]))
      else (Inl (with_message ProtocolViolation ''payload length exceeds wire header capacity''), ws))"
  by (simp add: send_blob_chunk_frame_def control_header_def wire_payload_len_def chunk_header_def BlobChunk_HEADER_LEN_def Let_def
      chunk_inner_layout del: write_bufs.simps)

lemma chunk_frame_ok:
  "BlobChunk_HEADER_LEN + length chunk \<le> u32_max \<Longrightarrow>
   frame_ok (chunk_header pmid (length chunk)) (chunk_inner request_msg_id chunk_id flags (length chunk) @ chunk)"
  using unat_of_nat_u32 [of "BlobChunk_HEADER_LEN + length chunk"]
  by (simp add: frame_ok_def chunk_header_def chunk_inner_length BlobChunk_HEADER_LEN_def)

text \<open>
  A blob chunk survives the wire: the frame written for a chunk carries the chunk type and identifier,
  and its payload decodes to the same stream, chunk number, flags and bytes.
\<close>

theorem blob_chunk_frame_round_trip:
  assumes "BlobChunk_HEADER_LEN + length chunk \<le> u32_max" and "BlobChunkFlags_from_bits flags = Some flags"
    and "ws_script ws = []"
  shows "\<exists>h payload. send_blob_chunk_frame ws pmid request_msg_id chunk_id flags chunk
      = (Inr (), ws\<lparr>ws_out := ws_out ws @ frame_bytes h payload\<rparr>)
    \<and> frame_ok h payload \<and> wh_msg_type h = MSG_BLOB_TRANSFER_CHUNK \<and> wh_peer_msg_id h = pmid
    \<and> blob_chunk_from_bytes payload = Inr \<lparr>bc_request_msg_id = request_msg_id, bc_chunk_id = chunk_id,
        bc_flags = flags, bc_chunk = chunk\<rparr>"
proof -
  let ?h = "chunk_header pmid (length chunk)" and ?payload = "chunk_inner request_msg_id chunk_id flags (length chunk) @ chunk"
  have "send_blob_chunk_frame ws pmid request_msg_id chunk_id flags chunk = (Inr (), ws\<lparr>ws_out := ws_out ws @ frame_bytes ?h ?payload\<rparr>)"
    using assms(1,3) by (simp add: send_blob_chunk_frame_eq write_bufs_ok frame_bytes_def del: write_bufs.simps)
  moreover have "blob_chunk_from_bytes ?payload = Inr \<lparr>bc_request_msg_id = request_msg_id,
      bc_chunk_id = chunk_id, bc_flags = flags, bc_chunk = chunk\<rparr>"
    using assms(1,2) unat_of_nat_u32 [of "length chunk"] chunk_inner_length [of request_msg_id chunk_id flags "length chunk"]
    by (simp add: blob_chunk_from_bytes_def BlobChunk_HEADER_LEN_def) (simp add: chunk_inner_def)
  ultimately show ?thesis
    using chunk_frame_ok [OF assms(1), of pmid request_msg_id chunk_id flags]
    by (intro exI [of _ ?h] exI [of _ ?payload]) (simp add: chunk_header_def)
qed

text \<open>
  The one-shot reader used during the handshake agrees with the resumable one on a fresh state, with
  the one difference that a stream ending inside a header counts as a clean end for the first and as a
  lost connection for the second.
\<close>

theorem read_frame_agrees:
  "fst (read_frame ''unexpected EOF while reading frame payload'' src max_payload) =
     (case fst (read_next frame_reader_default src max_payload) of
        Some (Inl e) \<Rightarrow>
          if fst (fill_loop (replicate WireHeader_LEN 0) 0 src) = FillEof then Some (Inr None) else Some (Inl e)
      | r \<Rightarrow> r)"
  by (auto simp: read_frame_def read_next_def read_payload_def frame_reader_default_def Let_def
      split: prod.splits fill_result.splits sum.splits)


section \<open>Frames in pieces\<close>

abbreviation sample_frames :: "outbound_frame list" where
  "sample_frames \<equiv> [FrameAck 7, FrameControl MSG_ERROR 8 [1, 2, 3]]"

definition pieces :: "nat \<Rightarrow> u8 list \<Rightarrow> read_event list" where
  "pieces n bs = [ReadData (take n bs), ReadData (drop n bs)]"

lemma live_pieces: "0 < n \<Longrightarrow> n < length bs \<Longrightarrow> live_data (pieces n bs) \<and> stream_bytes (pieces n bs) = bs"
  by (auto simp: live_data_def pieces_def stream_bytes_def)

theorem reader_recovers_frames_witness:
  "\<exists>st' src'. read_all frame_reader_default
      (pieces 40 (frame_bytes (outbound_header (FrameAck 7)) [] @ frame_bytes (outbound_header (FrameAck 8)) [])) 10 2
    = ([(outbound_header (FrameAck 7), []), (outbound_header (FrameAck 8), [])], st', src')"
proof -
  let ?bs = "frame_bytes (outbound_header (FrameAck 7)) [] @ frame_bytes (outbound_header (FrameAck 8)) []"
  have live: "live_data (pieces 40 ?bs)" "stream_bytes (pieces 40 ?bs) = ?bs"
    using live_pieces [of 40 ?bs] by (simp_all add: frame_bytes_def)
  have "\<forall>(h, payload) \<in> set [(outbound_header (FrameAck 7), []), (outbound_header (FrameAck 8), [])].
      frame_ok h payload \<and> length payload \<le> 10"
    using outbound_frame_ok [of "FrameAck 7"] outbound_frame_ok [of "FrameAck 8"] by simp
  from reader_recovers_frames [OF live(1) this, of "[]"] live(2) show ?thesis by (auto simp: numeral_2_eq_2)
qed

theorem reader_cancel_safe_witness:
  "read_next frame_reader_default ([ReadData [0]] @ [ReadData [1]]) 10 =
     read_next (frame_reader_default\<lparr>fr_header_buf := copy_at 0 [0] (replicate 32 0), fr_header_len := 1\<rparr>) [ReadData [1]] 10"
proof -
  have "fill_loop (replicate 32 0) 0 [ReadData [0]] = (FillPending, copy_at 0 [0] (replicate 32 0), 1, [])"
    by (subst fill_loop.simps) (simp add: copy_at_def)
  then have "read_next frame_reader_default [ReadData [0]] 10 =
      (None, frame_reader_default\<lparr>fr_header_buf := copy_at 0 [0] (replicate 32 0), fr_header_len := 1\<rparr>, [])"
    by (simp add: read_next_def frame_reader_default_def WireHeader_LEN_def)
  then show ?thesis by (rule reader_cancel_safe)
qed

theorem outbound_frames_round_trip_witness:
  "\<exists>st' src'. read_all frame_reader_default
      (pieces 33 (ws_out (foldl (\<lambda>ws f. snd (send_outbound_frame ws f)) \<lparr>ws_out = [], ws_script = []\<rparr> sample_frames))) 10 2
    = (map (\<lambda>f. (outbound_header f, outbound_payload f)) sample_frames, st', src') \<and> stream_bytes src' = []"
proof -
  let ?ws = "foldl (\<lambda>ws f. snd (send_outbound_frame ws f)) \<lparr>ws_out = [], ws_script = []\<rparr> sample_frames"
  have "length (ws_out ?ws) = 67"
    using send_outbound_frames [of sample_frames "\<lparr>ws_out = [], ws_script = []\<rparr>"] by (simp add: frame_bytes_def)
  then have "live_data (pieces 33 (ws_out ?ws))" "stream_bytes (pieces 33 (ws_out ?ws)) = ws_out ?ws"
    using live_pieces [of 33 "ws_out ?ws"] by simp_all
  from outbound_frames_round_trip [OF _ refl this, of 10] show ?thesis by (simp add: numeral_2_eq_2)
qed

theorem send_outbound_frame_prefix_witness:
  "\<exists>p q. ws_out (snd (send_outbound_frame \<lparr>ws_out = [9], ws_script = [IoFail 5 ''reset'']\<rparr> (FrameAck 7))) = [9] @ p
     \<and> frame_bytes (outbound_header (FrameAck 7)) [] = p @ q"
  using send_outbound_frame_prefix [of "\<lparr>ws_out = [9], ws_script = [IoFail 5 ''reset'']\<rparr>" "FrameAck 7"] by auto

theorem blob_chunk_frame_round_trip_witness:
  "\<exists>h payload. send_blob_chunk_frame \<lparr>ws_out = [], ws_script = []\<rparr> 4 3 2 1 [10, 20]
      = (Inr (), \<lparr>ws_out = frame_bytes h payload, ws_script = []\<rparr>)
    \<and> blob_chunk_from_bytes payload = Inr \<lparr>bc_request_msg_id = 3, bc_chunk_id = 2, bc_flags = 1, bc_chunk = [10, 20]\<rparr>"
proof -
  have "BlobChunk_HEADER_LEN + length [10 :: u8, 20] \<le> u32_max" by (simp add: BlobChunk_HEADER_LEN_def)
  moreover have "BlobChunkFlags_from_bits 1 = Some 1"
    by (simp add: BlobChunkFlags_from_bits_def BlobChunkFlags_LAST_CHUNK_def)
  ultimately show ?thesis
    using blob_chunk_frame_round_trip [of "[10, 20]" 1 "\<lparr>ws_out = [], ws_script = []\<rparr>" 4 3 2] by auto
qed

end
