(* ===== verification/Rendezvous.thy ===== *)
theory Rendezvous
  imports Ids
begin

text \<open>
  The table in which the two halves of a connect-back handshake meet
  (\<^verbatim>\<open>src/crates/peering/src/transport/callback_rendezvous.rs\<close>): the initiating side registers what it
  expects under a key and waits on a oneshot channel; the accepting side finds the entry by the key,
  checks it and passes its reply on. Each operation is one critical section; channels are numbers.
\<close>

section \<open>Operations\<close>

datatype callback_transition = PendingRegistered | CallbackArrived | CallbackCleanup

record callback_snapshot =
  cb_transition :: callback_transition
  cb_pending_len :: nat

record 'e pending_callback =
  pc_expected :: 'e
  pc_reply :: nat

type_synonym ('k, 'e) rendezvous = "('k \<times> 'e pending_callback) list"

definition rendezvous_new :: "('k, 'e) rendezvous" where
  "rendezvous_new = []"

definition rendezvous_register ::
  "('k, 'e) rendezvous \<Rightarrow> 'k \<Rightarrow> 'e \<Rightarrow> nat \<Rightarrow> callback_snapshot \<times> ('k, 'e) rendezvous" where
  "rendezvous_register pending key expected tx =
     (let pending = AList.update key \<lparr>pc_expected = expected, pc_reply = tx\<rparr> pending
      in (\<lparr>cb_transition = PendingRegistered, cb_pending_len = length pending\<rparr>, pending))"

definition rendezvous_cleanup :: "('k, 'e) rendezvous \<Rightarrow> 'k \<Rightarrow> callback_snapshot \<times> ('k, 'e) rendezvous" where
  "rendezvous_cleanup pending key =
     (let pending = AList.delete key pending
      in (\<lparr>cb_transition = CallbackCleanup, cb_pending_len = length pending\<rparr>, pending))"

text \<open>The successful result is the snapshot with the channel the reply went to.\<close>

definition rendezvous_fulfill ::
  "('k, 'e) rendezvous \<Rightarrow> 'k \<Rightarrow> ('e \<Rightarrow> bool) \<Rightarrow> (callback_snapshot \<times> nat) result \<times> ('k, 'e) rendezvous" where
  "rendezvous_fulfill pending key validate =
     (case map_of pending key of
        None \<Rightarrow> (Inl (err_new ProtocolViolation), pending)
      | Some entry \<Rightarrow>
          let pending = AList.delete key pending
          in if \<not> validate (pc_expected entry) then (Inl (err_new ProtocolViolation), pending)
             else (Inr (\<lparr>cb_transition = CallbackArrived, cb_pending_len = length pending\<rparr>, pc_reply entry), pending))"

section \<open>Runs\<close>

datatype ('k, 'e) rendezvous_op = RegisterOp 'k 'e nat | CleanupOp 'k | FulfillOp 'k "'e \<Rightarrow> bool"

fun rendezvous_step :: "('k, 'e) rendezvous \<Rightarrow> ('k, 'e) rendezvous_op \<Rightarrow> ('k, 'e) rendezvous" where
  "rendezvous_step st (RegisterOp k e tx) = snd (rendezvous_register st k e tx)"
| "rendezvous_step st (CleanupOp k) = snd (rendezvous_cleanup st k)"
| "rendezvous_step st (FulfillOp k validate) = snd (rendezvous_fulfill st k validate)"

text \<open>The channels that receive a reply, and those dropped unanswered, whose receivers see them closed.\<close>

fun replied :: "('k, 'e) rendezvous \<Rightarrow> ('k, 'e) rendezvous_op \<Rightarrow> nat multiset" where
  "replied st (FulfillOp k validate) =
     (case fst (rendezvous_fulfill st k validate) of Inl _ \<Rightarrow> {#} | Inr (_, tx) \<Rightarrow> {#tx#})"
| "replied st _ = {#}"

fun dropped :: "('k, 'e) rendezvous \<Rightarrow> ('k, 'e) rendezvous_op \<Rightarrow> nat multiset" where
  "dropped st (RegisterOp k e tx) = image_mset pc_reply (found_at st k)"
| "dropped st (CleanupOp k) = image_mset pc_reply (found_at st k)"
| "dropped st (FulfillOp k validate) = image_mset pc_reply (filter_mset (\<lambda>entry. \<not> validate (pc_expected entry)) (found_at st k))"

fun registered :: "('k, 'e) rendezvous \<Rightarrow> ('k, 'e) rendezvous_op \<Rightarrow> nat multiset" where
  "registered st (RegisterOp k e tx) = {#tx#}"
| "registered st _ = {#}"

definition waiting_replies :: "('k, 'e) rendezvous \<Rightarrow> nat multiset" where
  "waiting_replies st = image_mset pc_reply (mset (map snd st))"

lemma waiting_delete:
  "distinct (map fst st) \<Longrightarrow>
     waiting_replies (AList.delete k st) + image_mset pc_reply (found_at st k) = waiting_replies st"
  using alist_delete_values [of st k] by (metis image_mset_union waiting_replies_def)

lemma waiting_update:
  "distinct (map fst st) \<Longrightarrow>
     waiting_replies (AList.update k v st) + image_mset pc_reply (found_at st k) = add_mset (pc_reply v) (waiting_replies st)"
  using alist_update_values [of st k v] by (metis image_mset_add_mset image_mset_union waiting_replies_def)

lemmas rendezvous_defs = rendezvous_register_def rendezvous_cleanup_def rendezvous_fulfill_def Let_def

interpretation rendezvous: conserving_machine "\<lambda>st. st = rendezvous_new" rendezvous_step
  "\<lambda>st. distinct (map fst st)" waiting_replies registered "\<lambda>st x. replied st x + dropped st x"
proof
  fix st :: "('k, 'e) rendezvous" and x assume d: "distinct (map fst st)"
  show "distinct (map fst (rendezvous_step st x))"
    using d by (cases x) (auto simp: rendezvous_defs distinct_update distinct_delete split: option.splits)
  show "waiting_replies (rendezvous_step st x) + (replied st x + dropped st x) = waiting_replies st + registered st x"
  proof (cases x)
    case (RegisterOp k e tx)
    with waiting_update [OF d, of k "\<lparr>pc_expected = e, pc_reply = tx\<rparr>"] show ?thesis by (simp add: rendezvous_defs)
  next
    case (CleanupOp k)
    with waiting_delete [OF d, of k] show ?thesis by (simp add: rendezvous_defs)
  next
    case (FulfillOp k validate)
    with waiting_delete [OF d, of k] show ?thesis
      by (auto simp: rendezvous_defs found_at_def split: option.splits)
  qed
qed (simp add: rendezvous_new_def)

fun op_key :: "('k, 'e) rendezvous_op \<Rightarrow> 'k" where
  "op_key (RegisterOp k e tx) = k"
| "op_key (CleanupOp k) = k"
| "op_key (FulfillOp k validate) = k"

lemma rendezvous_step_other: "op_key x \<noteq> k \<Longrightarrow> map_of (rendezvous_step st x) k = map_of st k"
  by (cases x) (auto simp: rendezvous_defs update_conv' delete_conv' split: option.splits)

lemma rendezvous_run_other:
  "k \<notin> op_key ` set xs \<Longrightarrow> map_of (foldl rendezvous_step st xs) k = map_of st k"
  by (induction xs arbitrary: st) (auto simp: rendezvous_step_other)

text \<open>
  A callback reaches the registration it answers, once: after a registration, whatever happens under
  other keys, a callback that passes the check is handed to the registered channel, one that fails it is
  refused, and either way the next callback under the key is refused.
\<close>

theorem callback_reaches_registration:
  assumes "k \<notin> op_key ` set xs" and "st' = foldl rendezvous_step (snd (rendezvous_register st k e tx)) xs"
    and "rendezvous_fulfill st' k validate = (r, st'')"
  shows "r = (if validate e then Inr (\<lparr>cb_transition = CallbackArrived, cb_pending_len = length st''\<rparr>, tx)
              else Inl (err_new ProtocolViolation))
    \<and> fst (rendezvous_fulfill st'' k validate') = Inl (err_new ProtocolViolation)
    \<and> (\<forall>k'. k' \<noteq> k \<longrightarrow> map_of st'' k' = map_of st' k')"
proof -
  have "map_of st' k = Some \<lparr>pc_expected = e, pc_reply = tx\<rparr>"
    unfolding assms(2) by (simp add: rendezvous_run_other [OF assms(1)] rendezvous_register_def Let_def update_conv')
  with assms(3) show ?thesis by (auto simp: rendezvous_fulfill_def Let_def delete_conv')
qed

text \<open>
  No waiting side is left hanging by the table: over any run, every registered channel is still in
  the table, was handed one reply, or was dropped so that its receiver sees it closed.
\<close>

theorem registrations_accounted:
  "waiting_replies (foldl rendezvous_step rendezvous_new xs)
     + total_over rendezvous_step (\<lambda>st x. replied st x + dropped st x) rendezvous_new xs
   = total_over rendezvous_step registered (rendezvous_new :: ('k, 'e) rendezvous) xs"
proof -
  have "distinct (map fst (rendezvous_new :: ('k, 'e) rendezvous))" by (simp add: rendezvous_new_def)
  from rendezvous.conserve_run [OF this, of xs] show ?thesis by (simp add: waiting_replies_def rendezvous_new_def)
qed

theorem callback_reaches_registration_witness:
  "fst (rendezvous_fulfill (snd (rendezvous_register (snd (rendezvous_register rendezvous_new (1 :: nat) True 7)) 2 False 8)) 1 (\<lambda>b. b))
     = Inr (\<lparr>cb_transition = CallbackArrived, cb_pending_len = 1\<rparr>, 7)"
proof -
  let ?st = "foldl rendezvous_step (snd (rendezvous_register rendezvous_new (1 :: nat) True 7)) [RegisterOp 2 False 8]"
  obtain r st where r: "rendezvous_fulfill ?st 1 (\<lambda>b. b) = (r, st)" by fastforce
  have "(1 :: nat) \<notin> op_key ` set [RegisterOp 2 False 8]" by simp
  from callback_reaches_registration [OF this refl r] have "r = Inr (\<lparr>cb_transition = CallbackArrived, cb_pending_len = length st\<rparr>, 7)"
    by simp
  moreover have "length st = 1" using r by (auto simp: rendezvous_defs rendezvous_new_def)
  ultimately show ?thesis using r by simp
qed

end
