(* ===== verification/Retained_Store.thy ===== *)
theory Retained_Store
  imports Retained_Lane "HOL-Library.Product_Lexorder"
begin

text \<open>
  The retained store (\<^verbatim>\<open>src/crates/peering/src/transport/primary_dispatch/store.rs\<close>): every outbound
  message of a peer session stays here from admission until its completion, across callis losses and
  replays. Four lanes by priority, a table from message identifiers to slots for tracked messages and
  one for responses, and a heap of deadlines with lazy deletion. Each operation is one critical section
  of the code's mutex.
\<close>

section \<open>Deadline keys\<close>

fun lane_rank :: "retained_lane \<Rightarrow> nat" where
  "lane_rank LaneA1Ack = 0"
| "lane_rank LaneA1Error = 1"
| "lane_rank LaneA2 = 2"
| "lane_rank LaneA3 = 3"

lemma lane_rank_inject [simp]: "lane_rank a = lane_rank b \<longleftrightarrow> a = b"
  by (cases a; cases b) simp_all

datatype deadline_key = DeadlineKey (dk_deadline: instant) (dk_slot: slot_id) (dk_seq: nat)

text \<open>The comparison of the code, \<open>cmp\<close> followed by \<open>then_with\<close>, is the lexicographic order of these.\<close>

definition dk_rank :: "deadline_key \<Rightarrow> instant \<times> nat \<times> nat \<times> nat" where
  "dk_rank k = (dk_deadline k, lane_rank (sid_lane (dk_slot k)), sid_index (dk_slot k), dk_seq k)"

lemma dk_rank_inject: "dk_rank a = dk_rank b \<longleftrightarrow> a = b"
  by (cases a; cases b) (auto simp: dk_rank_def intro: slot_id.equality)

instantiation deadline_key :: linorder
begin

definition less_eq_deadline_key :: "deadline_key \<Rightarrow> deadline_key \<Rightarrow> bool" where
  "less_eq_deadline_key a b \<longleftrightarrow> dk_rank a \<le> dk_rank b"

definition less_deadline_key :: "deadline_key \<Rightarrow> deadline_key \<Rightarrow> bool" where
  "less_deadline_key a b \<longleftrightarrow> dk_rank a < dk_rank b"

instance
  by intro_classes (auto simp: less_eq_deadline_key_def less_deadline_key_def dk_rank_inject [symmetric])

end

lemma dk_le_deadline: "a \<le> b \<Longrightarrow> dk_deadline a \<le> dk_deadline b"
  by (auto simp: less_eq_deadline_key_def dk_rank_def)

section \<open>The store\<close>

record retained_capacities =
  cap_a1_ack :: nat
  cap_a1_error :: nat
  cap_a2 :: nat
  cap_a3 :: nat

definition A1_ACK_CAPACITY_MULTIPLIER :: nat where "A1_ACK_CAPACITY_MULTIPLIER = 16"
definition A1_ERROR_CAPACITY_MULTIPLIER :: nat where "A1_ERROR_CAPACITY_MULTIPLIER = 2"
definition A2_CAPACITY :: nat where "A2_CAPACITY = 128"

definition from_send_queue_size :: "nat \<Rightarrow> retained_capacities" where
  "from_send_queue_size n =
     (let send_queue_size = max n 1
      in \<lparr>cap_a1_ack = sat_mul send_queue_size A1_ACK_CAPACITY_MULTIPLIER,
          cap_a1_error = sat_mul send_queue_size A1_ERROR_CAPACITY_MULTIPLIER,
          cap_a2 = A2_CAPACITY, cap_a3 = send_queue_size\<rparr>)"

fun lane_capacity :: "retained_capacities \<Rightarrow> retained_lane \<Rightarrow> nat" where
  "lane_capacity c LaneA1Ack = cap_a1_ack c"
| "lane_capacity c LaneA1Error = cap_a1_error c"
| "lane_capacity c LaneA2 = cap_a2 c"
| "lane_capacity c LaneA3 = cap_a3 c"

datatype response_kind = ResponseAck | ResponseError

datatype retained_insert_error =
    InsFull tracked_outbound
  | InsDuplicate tracked_outbound
  | InsShutdown tracked_outbound
  | InsExpired tracked_outbound
  | InsA1Tracked tracked_outbound

text \<open>The result of \<open>insert_tracked\<close>, with the two \<open>unreachable!\<close> branches as a panic.\<close>

datatype tracked_insert = TrackedOk | TrackedErr retained_insert_error | TrackedPanic

datatype response_insert_outcome =
    RespInserted
  | RespDuplicate response_kind peer_message_id
  | RespFull retained_lane peer_message_id
  | RespShutdown peer_message_id
  | RespExpired peer_message_id

datatype retained_write_item =
    WriteAck peer_message_id
  | WriteError peer_message_id outbound_frame
  | WriteMessage peer_message_id peer_message

fun write_item_peer_msg_id :: "retained_write_item \<Rightarrow> peer_message_id" where
  "write_item_peer_msg_id (WriteAck p) = p"
| "write_item_peer_msg_id (WriteError p _) = p"
| "write_item_peer_msg_id (WriteMessage p _) = p"

record retained_claim =
  rc_slot :: slot_id
  rc_identity :: item_identity
  rc_callis_id :: callis_id
  rc_deadline :: instant
  rc_item :: retained_write_item

record completion_effect =
  ce_peer_msg_id :: peer_message_id
  ce_ack_tx :: nat
  ce_result :: "unit result"

record retained_store =
  st_a1_ack :: lane_state
  st_a1_error :: lane_state
  st_a2 :: lane_state
  st_a3 :: lane_state
  st_tracked :: "(peer_message_id \<times> slot_id) list"
  st_responses :: "(peer_message_id \<times> slot_id) list"
  st_deadlines :: "deadline_key list"
  st_next_seq :: nat
  st_shutdown :: bool

definition store_new :: "retained_capacities \<Rightarrow> instant \<Rightarrow> retained_store" where
  "store_new c now =
     \<lparr>st_a1_ack = lane_new LaneA1Ack (cap_a1_ack c) now, st_a1_error = lane_new LaneA1Error (cap_a1_error c) now,
      st_a2 = lane_new LaneA2 (cap_a2 c) now, st_a3 = lane_new LaneA3 (cap_a3 c) now,
      st_tracked = [], st_responses = [], st_deadlines = [], st_next_seq = 1, st_shutdown = False\<rparr>"

fun store_lane :: "retained_store \<Rightarrow> retained_lane \<Rightarrow> lane_state" where
  "store_lane st LaneA1Ack = st_a1_ack st"
| "store_lane st LaneA1Error = st_a1_error st"
| "store_lane st LaneA2 = st_a2 st"
| "store_lane st LaneA3 = st_a3 st"

fun set_lane :: "retained_store \<Rightarrow> retained_lane \<Rightarrow> lane_state \<Rightarrow> retained_store" where
  "set_lane st LaneA1Ack l = st\<lparr>st_a1_ack := l\<rparr>"
| "set_lane st LaneA1Error l = st\<lparr>st_a1_error := l\<rparr>"
| "set_lane st LaneA2 l = st\<lparr>st_a2 := l\<rparr>"
| "set_lane st LaneA3 l = st\<lparr>st_a3 := l\<rparr>"

definition set_capacities :: "retained_store \<Rightarrow> retained_capacities \<Rightarrow> instant \<Rightarrow> retained_store" where
  "set_capacities st c now =
     st\<lparr>st_a1_ack := set_target_capacity (st_a1_ack st) (cap_a1_ack c) now,
        st_a1_error := set_target_capacity (st_a1_error st) (cap_a1_error c) now,
        st_a2 := set_target_capacity (st_a2 st) (cap_a2 c) now,
        st_a3 := set_target_capacity (st_a3 st) (cap_a3 c) now\<rparr>"

definition set_shutdown :: "retained_store \<Rightarrow> retained_store" where
  "set_shutdown st = st\<lparr>st_shutdown := True\<rparr>"

subsection \<open>Admission\<close>

definition store_allocate ::
  "retained_store \<Rightarrow> retained_lane \<Rightarrow> retained_item \<Rightarrow> instant \<Rightarrow> instant \<Rightarrow> slot_id option \<times> retained_store" where
  "store_allocate st lane item deadline now =
     (let seq = st_next_seq st;
          st = st\<lparr>st_next_seq := wrap_succ_max1 seq\<rparr>;
          (slot, l) = lane_allocate (store_lane st lane) item deadline seq now;
          st = set_lane st lane l
      in case slot of
           None \<Rightarrow> (None, st)
         | Some slot \<Rightarrow> (Some slot, st\<lparr>st_deadlines := insort (DeadlineKey deadline slot seq) (st_deadlines st)\<rparr>))"

definition insert_response ::
  "retained_store \<Rightarrow> response_kind \<Rightarrow> retained_lane \<Rightarrow> peer_message_id \<Rightarrow> instant \<Rightarrow> retained_item \<Rightarrow> instant
     \<Rightarrow> response_insert_outcome \<times> retained_store" where
  "insert_response st attempted lane pmid deadline item now =
     (if st_shutdown st then (RespShutdown pmid, st)
      else if deadline \<le> now then (RespExpired pmid, st)
      else if map_of (st_responses st) pmid \<noteq> None then (RespDuplicate attempted pmid, st)
      else case store_allocate st lane item deadline now of
        (Some slot, st) \<Rightarrow> (RespInserted, st\<lparr>st_responses := AList.update pmid slot (st_responses st)\<rparr>)
      | (None, st) \<Rightarrow> (RespFull lane pmid, st))"

definition insert_ack ::
  "retained_store \<Rightarrow> peer_message_id \<Rightarrow> instant \<Rightarrow> instant \<Rightarrow> response_insert_outcome \<times> retained_store" where
  "insert_ack st pmid deadline now = insert_response st ResponseAck LaneA1Ack pmid deadline (ItemAck pmid) now"

definition insert_error ::
  "retained_store \<Rightarrow> peer_message_id \<Rightarrow> outbound_frame \<Rightarrow> instant \<Rightarrow> instant \<Rightarrow> response_insert_outcome \<times> retained_store" where
  "insert_error st pmid frame deadline now =
     insert_response st ResponseError LaneA1Error pmid deadline (ItemError pmid frame) now"

definition tracked_lane :: "message_type \<Rightarrow> retained_lane option" where
  "tracked_lane msg_type =
     (case classify_priority msg_type of TierA1 \<Rightarrow> None | TierA2 \<Rightarrow> Some LaneA2 | TierA3 \<Rightarrow> Some LaneA3)"

definition insert_tracked ::
  "retained_store \<Rightarrow> tracked_outbound \<Rightarrow> instant \<Rightarrow> instant \<Rightarrow> tracked_insert \<times> retained_store" where
  "insert_tracked st tracked deadline now =
     (if st_shutdown st then (TrackedErr (InsShutdown tracked), st)
      else if deadline \<le> now then (TrackedErr (InsExpired tracked), st)
      else let pmid = tracked_peer_msg_id tracked
        in if map_of (st_tracked st) pmid \<noteq> None then (TrackedErr (InsDuplicate tracked), st)
           else if classify_priority (tracked_msg_type tracked) = TierA1 then (TrackedErr (InsA1Tracked tracked), st)
           else case tracked_lane (tracked_msg_type tracked) of
             None \<Rightarrow> (TrackedPanic, st)
           | Some lane \<Rightarrow>
               if \<not> lane_available (store_lane st lane) then (TrackedErr (InsFull tracked), st)
               else case store_allocate st lane (ItemTracked tracked) deadline now of
                 (Some slot, st) \<Rightarrow> (TrackedOk, st\<lparr>st_tracked := AList.update pmid slot (st_tracked st)\<rparr>)
               | (None, st) \<Rightarrow> (TrackedPanic, st))"

subsection \<open>Removal\<close>

definition remove_by_slot :: "retained_store \<Rightarrow> slot_id \<Rightarrow> retained_item option \<times> retained_store" where
  "remove_by_slot st slot =
     (let (item, l) = lane_remove_slot (store_lane st (sid_lane slot)) (sid_index slot);
          st = set_lane st (sid_lane slot) l
      in case item of
           None \<Rightarrow> (None, st)
         | Some (ItemTracked tracked) \<Rightarrow>
             (item, st\<lparr>st_tracked := AList.delete (tracked_peer_msg_id tracked) (st_tracked st)\<rparr>)
         | Some response \<Rightarrow>
             (item, st\<lparr>st_responses := AList.delete (item_peer_msg_id response) (st_responses st)\<rparr>))"

definition effect_of :: "unit result \<Rightarrow> retained_item option \<Rightarrow> completion_effect list" where
  "effect_of r item =
     (case item of
        Some (ItemTracked tracked) \<Rightarrow>
          [\<lparr>ce_peer_msg_id = tracked_peer_msg_id tracked, ce_ack_tx = to_ack_tx tracked, ce_result = r\<rparr>]
      | _ \<Rightarrow> [])"

text \<open>\<open>ack\<close> and \<open>fail_one\<close>: the code puts the identifier it was called with in the effect.\<close>

definition complete_one ::
  "retained_store \<Rightarrow> peer_message_id \<Rightarrow> unit result \<Rightarrow> completion_effect option \<times> retained_store" where
  "complete_one st pmid r =
     (case map_of (st_tracked st) pmid of
        None \<Rightarrow> (None, st)
      | Some slot \<Rightarrow>
          let (item, st) = remove_by_slot st slot
          in case item of
               Some (ItemTracked tracked) \<Rightarrow>
                 (Some \<lparr>ce_peer_msg_id = pmid, ce_ack_tx = to_ack_tx tracked, ce_result = r\<rparr>, st)
             | _ \<Rightarrow> (None, st))"

definition store_ack :: "retained_store \<Rightarrow> peer_message_id \<Rightarrow> completion_effect option \<times> retained_store" where
  "store_ack st pmid = complete_one st pmid (Inr ())"

definition store_fail_one ::
  "retained_store \<Rightarrow> peer_message_id \<Rightarrow> aurelia_error \<Rightarrow> completion_effect option \<times> retained_store" where
  "store_fail_one st pmid err = complete_one st pmid (Inl err)"

fun remove_slots :: "retained_store \<Rightarrow> slot_id list \<Rightarrow> unit result \<Rightarrow> completion_effect list \<times> retained_store" where
  "remove_slots st [] r = ([], st)"
| "remove_slots st (slot # slots) r =
     (let (item, st) = remove_by_slot st slot;
          (effects, st) = remove_slots st slots r
      in (effect_of r item @ effects, st))"

definition store_fail_all :: "retained_store \<Rightarrow> aurelia_error \<Rightarrow> completion_effect list \<times> retained_store" where
  "store_fail_all st err = remove_slots st (map snd (st_tracked st)) (Inl err)"

definition non_a1_slots :: "retained_store \<Rightarrow> slot_id list" where
  "non_a1_slots st = filter (\<lambda>slot. \<not> (sid_lane slot = LaneA1Ack \<or> sid_lane slot = LaneA1Error)) (map snd (st_tracked st))"

definition store_fail_non_a1 :: "retained_store \<Rightarrow> aurelia_error \<Rightarrow> completion_effect list \<times> retained_store" where
  "store_fail_non_a1 st err = remove_slots st (non_a1_slots st) (Inl err)"

definition store_begin_shutdown :: "retained_store \<Rightarrow> aurelia_error \<Rightarrow> completion_effect list \<times> retained_store" where
  "store_begin_shutdown st err =
     (let st = st\<lparr>st_shutdown := True\<rparr> in remove_slots st (non_a1_slots st) (Inl err))"

definition store_drop_responses :: "retained_store \<Rightarrow> retained_store" where
  "store_drop_responses st = foldl (\<lambda>st slot. snd (remove_by_slot st slot)) st (map snd (st_responses st))"

subsection \<open>Claiming and finishing a write\<close>

fun write_item :: "retained_item \<Rightarrow> retained_write_item" where
  "write_item (ItemAck p) = WriteAck p"
| "write_item (ItemError p frame) = WriteError p frame"
| "write_item (ItemTracked tracked) = WriteMessage (tracked_peer_msg_id tracked) (to_message tracked)"

definition claim_from_queue ::
  "retained_store \<Rightarrow> retained_lane \<Rightarrow> bool \<Rightarrow> callis_id \<Rightarrow> retained_claim option \<times> retained_store" where
  "claim_from_queue st lane replay callis =
     (case lane_claim (store_lane st lane) replay callis of
        (None, l) \<Rightarrow> (None, set_lane st lane l)
      | (Some index, l) \<Rightarrow>
          let slot = ls_slots l ! index
          in (Some \<lparr>rc_slot = \<lparr>sid_lane = lane, sid_index = index\<rparr>, rc_identity = the (slot_identity slot),
                    rc_callis_id = callis, rc_deadline = rs_original_deadline slot,
                    rc_item = write_item (the (rs_item slot))\<rparr>,
              set_lane st lane l))"

definition claim_lane :: "retained_store \<Rightarrow> retained_lane \<Rightarrow> callis_id \<Rightarrow> retained_claim option \<times> retained_store" where
  "claim_lane st lane callis =
     (if st_shutdown st \<and> \<not> (lane = LaneA1Ack \<or> lane = LaneA1Error) then (None, st)
      else let (claim, st) = (if \<not> (lane = LaneA1Ack \<or> lane = LaneA1Error)
                              then claim_from_queue st lane True callis else (None, st))
           in case claim of Some c \<Rightarrow> (Some c, st) | None \<Rightarrow> claim_from_queue st lane False callis)"

fun claim_first :: "retained_store \<Rightarrow> retained_lane list \<Rightarrow> callis_id \<Rightarrow> retained_claim option \<times> retained_store" where
  "claim_first st [] callis = (None, st)"
| "claim_first st (lane # lanes) callis =
     (case claim_lane st lane callis of
        (Some c, st) \<Rightarrow> (Some c, st)
      | (None, st) \<Rightarrow> claim_first st lanes callis)"

definition store_claim_next :: "retained_store \<Rightarrow> callis_id \<Rightarrow> retained_claim option \<times> retained_store" where
  "store_claim_next st callis = claim_first st [LaneA1Ack, LaneA1Error, LaneA2, LaneA3] callis"

definition lane_has_dispatchable_work :: "retained_store \<Rightarrow> retained_lane \<Rightarrow> bool" where
  "lane_has_dispatchable_work st lane =
     list_ex (\<lambda>slot. (rs_state slot = StReady \<or> (case rs_state slot of StReplayReady _ \<Rightarrow> True | _ \<Rightarrow> False))
        \<and> rs_item slot \<noteq> None) (ls_slots (store_lane st lane))"

definition has_dispatchable_work :: "retained_store \<Rightarrow> bool" where
  "has_dispatchable_work st \<longleftrightarrow>
     lane_has_dispatchable_work st LaneA1Ack \<or> lane_has_dispatchable_work st LaneA1Error
     \<or> (\<not> st_shutdown st \<and> (lane_has_dispatchable_work st LaneA2 \<or> lane_has_dispatchable_work st LaneA3))"

text \<open>\<open>ok\<close> is whether the write succeeded; no completion results from the end of a write.\<close>

definition store_complete_write ::
  "retained_store \<Rightarrow> retained_claim \<Rightarrow> bool \<Rightarrow> completion_effect list \<times> retained_store" where
  "store_complete_write st claim ok =
     (let lane = sid_lane (rc_slot claim); index = sid_index (rc_slot claim); l = store_lane st lane
      in if length (ls_slots l) \<le> index then ([], st)
         else let slot = ls_slots l ! index
              in if rs_state slot \<noteq> StWriting (rc_callis_id claim) \<or> slot_identity slot \<noteq> Some (rc_identity claim)
                 then ([], st)
                 else case rs_item slot of
                   None \<Rightarrow> ([], st)
                 | Some (ItemTracked _) \<Rightarrow>
                     if ok then ([], set_lane st lane (set_slot_state l index (StInflight (rc_callis_id claim))))
                     else ([], set_lane st lane
                            (push_replay (set_slot_state l index (StReplayReady (rc_callis_id claim))) index (rs_seq slot)))
                 | Some _ \<Rightarrow>
                     if ok then ([], snd (remove_by_slot st (rc_slot claim)))
                     else ([], set_lane st lane (push_ready (set_slot_state l index StReady) index (rs_seq slot))))"

subsection \<open>Losing a callis\<close>

definition sweep_slot :: "callis_id \<Rightarrow> lane_state \<times> queue_key list \<Rightarrow> nat \<Rightarrow> lane_state \<times> queue_key list" where
  "sweep_slot callis acc index =
     (let (l, replay) = acc; slot = ls_slots l ! index; key = \<lparr>qk_index = index, qk_seq = rs_seq slot\<rparr>
      in case rs_state slot of
           StWriting writing \<Rightarrow>
             if writing = callis then
               (case rs_item slot of
                  None \<Rightarrow> (l, replay)
                | Some (ItemTracked _) \<Rightarrow> (set_slot_state l index (StReplayReady callis), replay @ [key])
                | Some _ \<Rightarrow> (push_ready (set_slot_state l index StReady) index (rs_seq slot), replay))
             else (l, replay)
         | StInflight sent \<Rightarrow>
             if sent = callis then
               (case rs_item slot of
                  Some (ItemTracked _) \<Rightarrow> (set_slot_state l index (StReplayReady callis), replay @ [key])
                | _ \<Rightarrow> (l, replay))
             else (l, replay)
         | _ \<Rightarrow> (l, replay))"

definition lane_mark_callis :: "callis_id \<Rightarrow> lane_state \<Rightarrow> lane_state" where
  "lane_mark_callis callis l =
     (let (l, replay) = foldl (sweep_slot callis) (l, []) [0..<length (ls_slots l)]
      in l\<lparr>ls_replay := ls_replay l @ replay\<rparr>)"

definition store_mark_callis_replay_ready :: "retained_store \<Rightarrow> callis_id \<Rightarrow> retained_store" where
  "store_mark_callis_replay_ready st callis =
     foldl (\<lambda>st lane. set_lane st lane (lane_mark_callis callis (store_lane st lane))) st
       [LaneA1Error, LaneA2, LaneA3]"

fun last_sent :: "slot_state \<Rightarrow> callis_id option" where
  "last_sent (StWriting c) = Some c"
| "last_sent (StInflight c) = Some c"
| "last_sent (StReplayReady c) = Some c"
| "last_sent StReady = None"
| "last_sent StEmpty = None"

definition mark_slot_replay_ready :: "retained_store \<Rightarrow> slot_id \<Rightarrow> retained_store" where
  "mark_slot_replay_ready st slot_id =
     (let lane = sid_lane slot_id; index = sid_index slot_id; l = store_lane st lane
      in if length (ls_slots l) \<le> index then st
         else let slot = ls_slots l ! index
              in case rs_item slot of
                   Some (ItemTracked _) \<Rightarrow>
                     (case last_sent (rs_state slot) of
                        None \<Rightarrow> st
                      | Some c \<Rightarrow> set_lane st lane
                          (push_replay (set_slot_state l index (StReplayReady c)) index (rs_seq slot)))
                 | _ \<Rightarrow> st)"

definition mark_slots_replay_ready :: "retained_store \<Rightarrow> slot_id list \<Rightarrow> retained_store" where
  "mark_slots_replay_ready st slots = foldl mark_slot_replay_ready st slots"

definition store_mark_all_tracked_replay_ready :: "retained_store \<Rightarrow> retained_store" where
  "store_mark_all_tracked_replay_ready st = mark_slots_replay_ready st (map snd (st_tracked st))"

definition store_mark_tracked_replay_ready :: "retained_store \<Rightarrow> peer_message_id list \<Rightarrow> retained_store" where
  "store_mark_tracked_replay_ready st pmids =
     mark_slots_replay_ready st (List.map_filter (map_of (st_tracked st)) pmids)"

subsection \<open>Deadlines\<close>

text \<open>Whether the heap entry still speaks of the item in its slot.\<close>

definition key_live :: "retained_store \<Rightarrow> deadline_key \<Rightarrow> bool" where
  "key_live st key =
     (let l = store_lane st (sid_lane (dk_slot key)); i = sid_index (dk_slot key)
      in i < length (ls_slots l) \<and> rs_seq (ls_slots l ! i) = dk_seq key
         \<and> rs_original_deadline (ls_slots l ! i) = dk_deadline key \<and> rs_state (ls_slots l ! i) \<noteq> StEmpty)"

fun expire_keys :: "deadline_key list \<Rightarrow> instant \<Rightarrow> retained_store \<Rightarrow> completion_effect list \<times> retained_store" where
  "expire_keys [] now st = ([], st\<lparr>st_deadlines := []\<rparr>)"
| "expire_keys (key # keys) now st =
     (if now < dk_deadline key then ([], st\<lparr>st_deadlines := key # keys\<rparr>)
      else if \<not> key_live st key then expire_keys keys now st
      else let (item, st) = remove_by_slot st (dk_slot key);
               (effects, st) = expire_keys keys now st
           in (effect_of (Inl (err_new SendTimeout)) item @ effects, st))"

definition store_expire_due :: "retained_store \<Rightarrow> instant \<Rightarrow> completion_effect list \<times> retained_store" where
  "store_expire_due st now = expire_keys (st_deadlines st) now st"

definition store_next_deadline :: "retained_store \<Rightarrow> instant option \<times> retained_store" where
  "store_next_deadline st =
     (let keys = dropWhile (\<lambda>key. \<not> key_live st key) (st_deadlines st)
      in (case keys of [] \<Rightarrow> None | key # _ \<Rightarrow> Some (dk_deadline key), st\<lparr>st_deadlines := keys\<rparr>))"

subsection \<open>Queries\<close>

definition slot_at :: "retained_store \<Rightarrow> slot_id \<Rightarrow> retained_slot option" where
  "slot_at st slot =
     (let l = store_lane st (sid_lane slot)
      in if sid_index slot < length (ls_slots l) then Some (ls_slots l ! sid_index slot) else None)"

definition message_at :: "retained_store \<Rightarrow> slot_id \<Rightarrow> peer_message option" where
  "message_at st slot =
     (case slot_at st slot of
        Some s \<Rightarrow> (case rs_item s of Some (ItemTracked t) \<Rightarrow> Some (to_message t) | _ \<Rightarrow> None)
      | None \<Rightarrow> None)"

definition store_message :: "retained_store \<Rightarrow> peer_message_id \<Rightarrow> peer_message option" where
  "store_message st pmid = Option.bind (map_of (st_tracked st) pmid) (message_at st)"

definition store_tracked_messages :: "retained_store \<Rightarrow> peer_message list" where
  "store_tracked_messages st = List.map_filter (message_at st) (map snd (st_tracked st))"

definition store_slot_ref :: "retained_store \<Rightarrow> peer_message_id \<Rightarrow> retained_slot option" where
  "store_slot_ref st pmid = Option.bind (map_of (st_tracked st) pmid) (slot_at st)"

definition store_deadline :: "retained_store \<Rightarrow> peer_message_id \<Rightarrow> instant option" where
  "store_deadline st pmid = map_option rs_original_deadline (store_slot_ref st pmid)"

definition store_tracked_state :: "retained_store \<Rightarrow> peer_message_id \<Rightarrow> slot_state option" where
  "store_tracked_state st pmid = map_option rs_state (store_slot_ref st pmid)"

definition contains_tracked :: "retained_store \<Rightarrow> peer_message_id \<Rightarrow> bool" where
  "contains_tracked st pmid \<longleftrightarrow> map_of (st_tracked st) pmid \<noteq> None"

definition a1_error_response_count :: "retained_store \<Rightarrow> nat" where
  "a1_error_response_count st = length (filter (\<lambda>(_, slot). sid_lane slot = LaneA1Error) (st_responses st))"

definition response_lanes_empty :: "retained_store \<Rightarrow> bool" where
  "response_lanes_empty st \<longleftrightarrow> ls_live_count (st_a1_ack st) = 0 \<and> a1_error_response_count st = 0"

definition store_is_empty :: "retained_store \<Rightarrow> bool" where
  "store_is_empty st \<longleftrightarrow>
     ls_live_count (st_a1_ack st) = 0 \<and> ls_live_count (st_a1_error st) = 0
     \<and> ls_live_count (st_a2 st) = 0 \<and> ls_live_count (st_a3 st) = 0"

end
