(* ===== verification/Retained_Laws.thy ===== *)
theory Retained_Laws
  imports Retained_Store
begin

text \<open>
  What the retained store guarantees. The concrete store is seen through the map from slot identifiers
  to occupied slots; admission, removal and state changes are each one update of that map, and every
  operation of the store keeps the invariant that ties the map to the lookup tables and the deadline
  heap. On top of it: every admitted message is completed exactly once, work is never overlooked,
  priorities are strict, and deadlines fire exactly.
\<close>

section \<open>The store as a map of slots\<close>

definition store_slot :: "retained_store \<Rightarrow> slot_id \<rightharpoonup> retained_slot" where
  "store_slot st sid = lane_slot (store_lane st (sid_lane sid)) (sid_index sid)"

lemma store_lane_set_lane [simp]:
  "store_lane (set_lane st a l) b = (if a = b then l else store_lane st b)"
  by (cases a; cases b) simp_all

lemma set_lane_frame [simp]:
  "st_tracked (set_lane st a l) = st_tracked st" "st_responses (set_lane st a l) = st_responses st"
  "st_deadlines (set_lane st a l) = st_deadlines st" "st_next_seq (set_lane st a l) = st_next_seq st"
  "st_shutdown (set_lane st a l) = st_shutdown st"
  by (cases a; simp)+

lemma store_lane_frame [simp]:
  "store_lane (st\<lparr>st_tracked := t\<rparr>) a = store_lane st a"
  "store_lane (st\<lparr>st_responses := r\<rparr>) a = store_lane st a"
  "store_lane (st\<lparr>st_deadlines := d\<rparr>) a = store_lane st a"
  "store_lane (st\<lparr>st_next_seq := n\<rparr>) a = store_lane st a"
  "store_lane (st\<lparr>st_shutdown := b\<rparr>) a = store_lane st a"
  by (cases a; simp)+

lemma store_slot_frame [simp]:
  "store_slot (st\<lparr>st_tracked := t\<rparr>) = store_slot st"
  "store_slot (st\<lparr>st_responses := r\<rparr>) = store_slot st"
  "store_slot (st\<lparr>st_deadlines := d\<rparr>) = store_slot st"
  "store_slot (st\<lparr>st_next_seq := n\<rparr>) = store_slot st"
  "store_slot (st\<lparr>st_shutdown := b\<rparr>) = store_slot st"
  by (simp_all add: store_slot_def fun_eq_iff)

lemma slot_id_eta [simp]: "\<lparr>sid_lane = sid_lane sid, sid_index = sid_index sid\<rparr> = (sid :: slot_id)"
  by simp

lemma store_slot_set_lane:
  assumes "lane_slot l = (lane_slot (store_lane st a))(i := v)"
  shows "store_slot (set_lane st a l) = (store_slot st)(\<lparr>sid_lane = a, sid_index = i\<rparr> := v)"
proof
  fix sid :: slot_id
  have "sid = \<lparr>sid_lane = a, sid_index = i\<rparr> \<longleftrightarrow> sid_lane sid = a \<and> sid_index sid = i"
    by (auto intro: slot_id.equality)
  then show "store_slot (set_lane st a l) sid = ((store_slot st)(\<lparr>sid_lane = a, sid_index = i\<rparr> := v)) sid"
    using assms by (simp add: store_slot_def)
qed

lemma store_slot_set_lane_same:
  "lane_slot l = lane_slot (store_lane st a) \<Longrightarrow> store_slot (set_lane st a l) = store_slot st"
  by (auto simp: store_slot_def fun_eq_iff)

section \<open>Invariant\<close>

text \<open>The table entry under which an item is found: which table, and the message identifier.\<close>

definition item_key :: "retained_item \<Rightarrow> bool \<times> peer_message_id" where
  "item_key x = (kind_of_item x = KindTracked, item_peer_msg_id x)"

definition store_key :: "retained_store \<Rightarrow> bool \<times> peer_message_id \<Rightarrow> slot_id option" where
  "store_key st k = map_of (if fst k then st_tracked st else st_responses st) (snd k)"

definition lanes_ok :: "retained_store \<Rightarrow> bool" where
  "lanes_ok st \<longleftrightarrow> (\<forall>lane. lane_inv (store_lane st lane) \<and> ls_lane (store_lane st lane) = lane)"

definition tables_ok :: "retained_store \<Rightarrow> bool" where
  "tables_ok st \<longleftrightarrow> distinct (map fst (st_tracked st)) \<and> distinct (map fst (st_responses st))
     \<and> (\<forall>k sid. store_key st k = Some sid \<longleftrightarrow>
          (\<exists>s x. store_slot st sid = Some s \<and> rs_item s = Some x \<and> item_key x = k))"

definition slot_deadline_key :: "slot_id \<Rightarrow> retained_slot \<Rightarrow> deadline_key" where
  "slot_deadline_key sid s = DeadlineKey (rs_original_deadline s) sid (rs_seq s)"

definition deadlines_ok :: "retained_store \<Rightarrow> bool" where
  "deadlines_ok st \<longleftrightarrow> sorted (st_deadlines st)
     \<and> (\<forall>sid s. store_slot st sid = Some s \<longrightarrow> slot_deadline_key sid s \<in> set (st_deadlines st))"

definition store_inv :: "retained_store \<Rightarrow> bool" where
  "store_inv st \<longleftrightarrow> lanes_ok st \<and> tables_ok st \<and> deadlines_ok st"

lemma store_slot_item: "store_slot st sid = Some s \<Longrightarrow> \<exists>x. rs_item s = Some x"
  by (auto simp: store_slot_def lane_slot_Some)

lemma store_slot_ok:
  assumes "store_inv st" and "store_slot st sid = Some s" and "rs_item s = Some x"
  shows "fits_lane (sid_lane sid) x \<and> state_fits (sid_lane sid) (rs_state s)"
proof -
  let ?l = "store_lane st (sid_lane sid)"
  have "slot_ok (ls_lane ?l) s" "ls_lane ?l = sid_lane sid"
    using assms(1,2) lane_slot_ok [of ?l] by (auto simp: store_inv_def lanes_ok_def store_slot_def)
  with assms(3) show ?thesis by (simp add: slot_ok_def)
qed

lemma store_key_iff:
  "store_inv st \<Longrightarrow> store_key st k = Some sid \<longleftrightarrow>
     (\<exists>s x. store_slot st sid = Some s \<and> rs_item s = Some x \<and> item_key x = k)"
  by (cases k) (simp add: store_inv_def tables_ok_def)

text \<open>Two occupied slots never hold items of the same table entry.\<close>

lemma store_key_unique:
  assumes "store_inv st" and "store_slot st a = Some s" and "store_slot st b = Some t"
    and "rs_item s = Some x" and "rs_item t = Some y" and "item_key x = item_key y"
  shows "a = b"
proof -
  have "store_key st (item_key x) = Some a" "store_key st (item_key x) = Some b"
    using assms unfolding store_inv_def tables_ok_def by metis+
  then show ?thesis by simp
qed

lemma store_inv_new:
  assumes "cap_a1_ack c \<le> u64_max" "cap_a1_error c \<le> u64_max" "cap_a2 c \<le> u64_max" "cap_a3 c \<le> u64_max"
  shows "store_inv (store_new c now)" and "store_slot (store_new c now) = Map.empty"
proof -
  let ?st = "store_new c now"
  have lane: "\<exists>n \<le> u64_max. store_lane ?st a = lane_new a n now" for a
    using assms by (cases a) (auto simp: store_new_def)
  show empty: "store_slot ?st = Map.empty"
  proof
    fix sid :: slot_id
    from lane [of "sid_lane sid"] show "store_slot ?st sid = None"
      by (auto simp: store_slot_def)
  qed
  have "lane_inv (store_lane ?st a) \<and> ls_lane (store_lane ?st a) = a" for a
    using lane [of a] lane_inv_new by (auto simp: lane_new_def Let_def)
  then show "store_inv ?st"
    by (auto simp: store_inv_def lanes_ok_def tables_ok_def deadlines_ok_def empty store_key_def)
      (simp_all add: store_new_def)
qed

section \<open>The three moves\<close>

text \<open>Everything of a store but its lanes.\<close>

definition same_tables :: "retained_store \<Rightarrow> retained_store \<Rightarrow> bool" where
  "same_tables st st' \<longleftrightarrow> st_tracked st' = st_tracked st \<and> st_responses st' = st_responses st
     \<and> st_deadlines st' = st_deadlines st \<and> st_next_seq st' = st_next_seq st \<and> st_shutdown st' = st_shutdown st"

lemma same_tables_set_lane [simp]: "same_tables st (set_lane st a l)"
  by (simp add: same_tables_def)

text \<open>A move that changes no item, deadline or sequence number keeps the tables and the heap right.\<close>

definition slot_core :: "retained_slot \<Rightarrow> retained_item option \<times> instant \<times> nat" where
  "slot_core s = (rs_item s, rs_original_deadline s, rs_seq s)"

definition same_items :: "retained_store \<Rightarrow> retained_store \<Rightarrow> bool" where
  "same_items st st' \<longleftrightarrow> (\<forall>sid. map_option slot_core (store_slot st' sid) = map_option slot_core (store_slot st sid))"

lemma same_items_refl [simp]: "same_items st st"
  by (simp add: same_items_def)

lemma same_items_trans: "same_items a b \<Longrightarrow> same_items b c \<Longrightarrow> same_items a c"
  by (simp add: same_items_def)

lemma same_items_Some:
  assumes "same_items st st'" and "store_slot st sid = Some s"
  shows "\<exists>s'. store_slot st' sid = Some s' \<and> rs_item s' = rs_item s
    \<and> slot_deadline_key sid s' = slot_deadline_key sid s"
  using assms unfolding same_items_def slot_deadline_key_def
  by (auto dest!: spec [of _ sid] simp: slot_core_def)

lemma same_items_sym: "same_items a b \<Longrightarrow> same_items b a"
  by (simp add: same_items_def)

lemma same_tables_trans: "same_tables a b \<Longrightarrow> same_tables b c \<Longrightarrow> same_tables a c"
  by (simp add: same_tables_def)

lemma store_inv_same:
  assumes inv: "store_inv st" and lanes: "lanes_ok st'" and tabs: "same_tables st st'" and items: "same_items st st'"
  shows "store_inv st'"
proof -
  note fwd = same_items_Some [OF items] and bwd = same_items_Some [OF same_items_sym [OF items]]
  have "(\<exists>s x. store_slot st' sid = Some s \<and> rs_item s = Some x \<and> item_key x = k) \<longleftrightarrow>
      (\<exists>s x. store_slot st sid = Some s \<and> rs_item s = Some x \<and> item_key x = k)" for sid k
    using fwd [of sid] bwd [of sid] by fastforce
  moreover have "store_key st' = store_key st" using tabs by (simp add: same_tables_def store_key_def fun_eq_iff)
  ultimately have "tables_ok st'" using inv tabs by (simp add: store_inv_def tables_ok_def same_tables_def)
  moreover have "deadlines_ok st'"
    using inv tabs bwd by (fastforce simp: store_inv_def deadlines_ok_def same_tables_def)
  ultimately show ?thesis using lanes by (simp add: store_inv_def)
qed

lemma lanes_ok_set_lane:
  "lanes_ok st \<Longrightarrow> lane_inv l \<Longrightarrow> ls_lane l = a \<Longrightarrow> lanes_ok (set_lane st a l)"
  by (simp add: lanes_ok_def)

text \<open>First move: a slot changes its state.\<close>

lemma move_store_slot:
  assumes inv: "store_inv st" and s: "store_slot st sid = Some s" and fits: "state_fits (sid_lane sid) state"
  defines "l \<equiv> move_slot (store_lane st (sid_lane sid)) (sid_index sid) state"
  shows "store_inv (set_lane st (sid_lane sid) l)"
    and "store_slot (set_lane st (sid_lane sid) l) = (store_slot st)(sid \<mapsto> s\<lparr>rs_state := state\<rparr>)"
proof -
  let ?l = "store_lane st (sid_lane sid)"
  have lane: "lane_inv ?l" "ls_lane ?l = sid_lane sid" "lane_slot ?l (sid_index sid) = Some s"
    using inv s by (auto simp: store_inv_def lanes_ok_def store_slot_def)
  note spec = move_slot_spec [OF lane(1,3), of state, folded l_def]
  have slot: "store_slot (set_lane st (sid_lane sid) l) = (store_slot st)(sid \<mapsto> s\<lparr>rs_state := state\<rparr>)"
    using store_slot_set_lane [OF spec(2)] fits lane(2) by simp
  then show "store_slot (set_lane st (sid_lane sid) l) = (store_slot st)(sid \<mapsto> s\<lparr>rs_state := state\<rparr>)" .
  have "same_items st (set_lane st (sid_lane sid) l)"
    using s by (auto simp: same_items_def slot slot_core_def)
  moreover have "lane_inv l" "ls_lane l = sid_lane sid" using spec(1) fits lane(2) by (simp_all add: l_def)
  then have "lanes_ok (set_lane st (sid_lane sid) l)"
    using inv by (intro lanes_ok_set_lane) (simp_all add: store_inv_def)
  ultimately show "store_inv (set_lane st (sid_lane sid) l)"
    using inv store_inv_same same_tables_set_lane by blast
qed

text \<open>Second move: a slot is emptied.\<close>

lemma store_key_delete:
  assumes "distinct (map fst (st_tracked st))" "distinct (map fst (st_responses st))"
  shows "store_key (if fst k then st\<lparr>st_tracked := AList.delete (snd k) (st_tracked st)\<rparr>
      else st\<lparr>st_responses := AList.delete (snd k) (st_responses st)\<rparr>) = (store_key st)(k := None)"
  by (rule ext, cases k) (auto simp: store_key_def delete_conv' split: prod.splits)

lemma remove_by_slot_spec:
  assumes inv: "store_inv st" and s: "store_slot st sid = Some s"
  shows "\<exists>st'. remove_by_slot st sid = (rs_item s, st') \<and> store_inv st' \<and> store_slot st' = (store_slot st)(sid := None)
    \<and> st_deadlines st' = st_deadlines st \<and> st_shutdown st' = st_shutdown st \<and> st_next_seq st' = st_next_seq st"
proof -
  let ?l = "store_lane st (sid_lane sid)"
  obtain x where x: "rs_item s = Some x" using store_slot_item [OF s] by blast
  have lane: "lane_inv ?l" "ls_lane ?l = sid_lane sid" "lane_slot ?l (sid_index sid) = Some s"
    using inv s by (auto simp: store_inv_def lanes_ok_def store_slot_def)
  obtain l' where l': "lane_remove_slot ?l (sid_index sid) = (Some x, l')" "lane_inv l'"
      "lane_slot l' = (lane_slot ?l)(sid_index sid := None)" "ls_lane l' = sid_lane sid"
    using lane_remove_entry [OF lane(1,3)] lane(2) x by auto
  define st1 where "st1 = set_lane st (sid_lane sid) l'"
  define st2 where "st2 = (if fst (item_key x) then st1\<lparr>st_tracked := AList.delete (snd (item_key x)) (st_tracked st1)\<rparr>
      else st1\<lparr>st_responses := AList.delete (snd (item_key x)) (st_responses st1)\<rparr>)"
  have slot1: "store_slot st1 = (store_slot st)(sid := None)"
    using store_slot_set_lane [OF l'(3)] by (simp add: st1_def)
  then have slot2: "store_slot st2 = (store_slot st)(sid := None)" by (simp add: st2_def)
  have dist: "distinct (map fst (st_tracked st))" "distinct (map fst (st_responses st))"
    using inv by (simp_all add: store_inv_def tables_ok_def)
  have key2: "store_key st2 = (store_key st)(item_key x := None)"
    using store_key_delete [of st1 "item_key x"] dist by (simp add: st2_def st1_def store_key_def fun_eq_iff)
  have "lanes_ok st2"
    using lanes_ok_set_lane [OF _ l'(2,4), of st] inv
    by (simp add: st2_def st1_def store_inv_def lanes_ok_def)
  moreover have "tables_ok st2"
  proof -
    have "store_key st2 k = Some a \<longleftrightarrow> (\<exists>t y. store_slot st2 a = Some t \<and> rs_item t = Some y \<and> item_key y = k)" for k a
    proof (cases "k = item_key x")
      case True
      then have "\<not> (\<exists>t y. store_slot st2 a = Some t \<and> rs_item t = Some y \<and> item_key y = k)"
        using store_key_unique [OF inv s _ x] by (auto simp: slot2)
      with True key2 show ?thesis by simp
    next
      case False
      then have "store_slot st2 a = Some t \<and> rs_item t = Some y \<and> item_key y = k \<longleftrightarrow>
          store_slot st a = Some t \<and> rs_item t = Some y \<and> item_key y = k" for t y
        using s x by (auto simp: slot2)
      with False key2 store_key_iff [OF inv] show ?thesis by simp
    qed
    with dist show ?thesis by (simp add: tables_ok_def) (simp add: st2_def st1_def distinct_alist_delete)
  qed
  moreover have "deadlines_ok st2"
    using inv by (auto simp: store_inv_def deadlines_ok_def slot2) (auto simp: st2_def st1_def)
  moreover have "remove_by_slot st sid = (Some x, st2)"
    using l'(1) by (cases x) (simp_all add: remove_by_slot_def st2_def st1_def item_key_def)
  ultimately show ?thesis using slot2 x by (auto simp: store_inv_def st2_def st1_def)
qed

lemma remove_by_slot_none: "store_slot st sid = None \<Longrightarrow> remove_by_slot st sid = (None, st)"
proof -
  assume "store_slot st sid = None"
  then have "lane_remove_slot (store_lane st (sid_lane sid)) (sid_index sid) = (None, store_lane st (sid_lane sid))"
    by (simp add: store_slot_def lane_remove_none)
  moreover have "set_lane st a (store_lane st a) = st" for a by (cases a) simp_all
  ultimately show ?thesis by (simp add: remove_by_slot_def)
qed

text \<open>Third move: an item is admitted into a free slot and entered in its table.\<close>

definition enter_table :: "retained_store \<Rightarrow> retained_item \<Rightarrow> slot_id \<Rightarrow> retained_store" where
  "enter_table st x sid =
     (if fst (item_key x) then st\<lparr>st_tracked := AList.update (snd (item_key x)) sid (st_tracked st)\<rparr>
      else st\<lparr>st_responses := AList.update (snd (item_key x)) sid (st_responses st)\<rparr>)"

lemma store_key_enter:
  "store_key (enter_table st x sid) = (store_key st)(item_key x \<mapsto> sid)"
  by (rule ext, cases "item_key x") (auto simp: store_key_def enter_table_def update_conv' split: prod.splits)

lemma store_allocate_spec:
  assumes inv: "store_inv st" and fits: "fits_lane lane x" and new: "store_key st (item_key x) = None"
    and room: "lane_available (store_lane st lane)"
  shows "\<exists>sid s st'. store_allocate st lane x d now = (Some sid, st') \<and> sid_lane sid = lane
    \<and> store_slot st sid = None \<and> rs_item s = Some x \<and> rs_original_deadline s = d \<and> rs_seq s = st_next_seq st
    \<and> rs_state s = StReady \<and> store_slot (enter_table st' x sid) = (store_slot st)(sid \<mapsto> s)
    \<and> store_inv (enter_table st' x sid) \<and> st_shutdown st' = st_shutdown st"
proof -
  let ?l = "store_lane st lane" and ?n = "st_next_seq st"
  have lane: "lane_inv ?l" "ls_lane ?l = lane" using inv by (simp_all add: store_inv_def lanes_ok_def)
  then obtain i l' s where l': "lane_allocate ?l x d ?n now = (Some \<lparr>sid_lane = lane, sid_index = i\<rparr>, l')"
      "lane_inv l'" "lane_slot ?l i = None" "lane_slot l' = (lane_slot ?l)(i \<mapsto> s)" "ls_lane l' = lane"
    and s: "rs_item s = Some x" "rs_original_deadline s = d" "rs_seq s = ?n" "rs_state s = StReady"
    using lane_allocate_room [OF lane(1) room, of x d ?n now] fits by auto
  define sid where "sid = \<lparr>sid_lane = lane, sid_index = i\<rparr>"
  define st1 where "st1 = set_lane (st\<lparr>st_next_seq := wrap_succ_max1 ?n\<rparr>) lane l'"
  define st2 where "st2 = st1\<lparr>st_deadlines := insort (DeadlineKey d sid ?n) (st_deadlines st1)\<rparr>"
  define st3 where "st3 = enter_table st2 x sid"
  have alloc: "store_allocate st lane x d now = (Some sid, st2)"
    using l'(1) by (simp add: store_allocate_def st2_def st1_def sid_def Let_def)
  have none: "store_slot st sid = None" using l'(3) by (simp add: store_slot_def sid_def)
  have "store_slot st1 = (store_slot st)(sid \<mapsto> s)"
    unfolding st1_def sid_def by (subst store_slot_set_lane [where v = "Some s" and i = i]) (simp_all add: l'(4))
  then have slot3: "store_slot st3 = (store_slot st)(sid \<mapsto> s)"
    by (simp add: st3_def st2_def enter_table_def)
  have key3: "store_key st3 = (store_key st)(item_key x \<mapsto> sid)"
    using store_key_enter [of st2 x sid] by (simp add: st3_def st2_def st1_def store_key_def fun_eq_iff)
  have "lanes_ok st3"
    using lanes_ok_set_lane [OF _ l'(2,5), of "st\<lparr>st_next_seq := wrap_succ_max1 ?n\<rparr>"] inv
    by (simp add: st3_def st2_def st1_def enter_table_def lanes_ok_def store_inv_def)
  moreover have "tables_ok st3"
  proof -
    have "\<nexists>t y. store_slot st a = Some t \<and> rs_item t = Some y \<and> item_key y = item_key x" for a
      using inv new unfolding store_inv_def tables_ok_def by (metis option.distinct(1))
    then have "store_key st3 k = Some a \<longleftrightarrow> (\<exists>t y. store_slot st3 a = Some t \<and> rs_item t = Some y \<and> item_key y = k)" for k a
      using s(1) none unfolding key3 slot3
      by (cases "a = sid"; cases "k = item_key x") (auto simp: store_key_iff [OF inv])
    moreover have "distinct (map fst (st_tracked st3))" "distinct (map fst (st_responses st3))"
      using inv by (simp_all add: st3_def st2_def st1_def enter_table_def store_inv_def tables_ok_def distinct_update)
    ultimately show ?thesis by (simp add: tables_ok_def)
  qed
  moreover have "deadlines_ok st3"
    using inv s none by (auto simp: store_inv_def deadlines_ok_def slot3 slot_deadline_key_def)
      (auto simp: st3_def st2_def st1_def enter_table_def set_insort_key sorted_insort)
  ultimately have "store_inv st3" by (simp add: store_inv_def)
  with alloc none s slot3 show ?thesis
    by (intro exI [of _ sid] exI [of _ s] exI [of _ st2]) (simp add: st3_def sid_def, simp add: st2_def st1_def)
qed

section \<open>The completions a store owes\<close>

text \<open>
  An admitted message carries the sending half of its completion channel. The channels held by a store
  are those of the messages in its slots.
\<close>

definition slot_tokens :: "retained_slot \<Rightarrow> nat multiset" where
  "slot_tokens s = (case rs_item s of Some (ItemTracked t) \<Rightarrow> {#to_ack_tx t#} | _ \<Rightarrow> {#})"

definition map_tokens :: "(slot_id \<rightharpoonup> retained_slot) \<Rightarrow> nat multiset" where
  "map_tokens m = (\<Sum>sid \<in> dom m. slot_tokens (the (m sid)))"

definition held_tokens :: "retained_store \<Rightarrow> nat multiset" where
  "held_tokens st = map_tokens (store_slot st)"

definition effect_tokens :: "completion_effect list \<Rightarrow> nat multiset" where
  "effect_tokens es = mset (map ce_ack_tx es)"

lemma held_tokens_frame [simp]:
  "held_tokens (st\<lparr>st_deadlines := d\<rparr>) = held_tokens st" "held_tokens (st\<lparr>st_shutdown := b\<rparr>) = held_tokens st"
  by (simp_all add: held_tokens_def)

lemma effect_tokens_simps [simp]:
  "effect_tokens [] = {#}" "effect_tokens (e # es) = {#ce_ack_tx e#} + effect_tokens es"
  "effect_tokens (es @ fs) = effect_tokens es + effect_tokens fs"
  by (simp_all add: effect_tokens_def)

lemma map_tokens_remove:
  assumes "finite (dom m)" and "m sid = Some s"
  shows "map_tokens m = slot_tokens s + map_tokens (m(sid := None))"
proof -
  have "map_tokens m = slot_tokens (the (m sid)) + (\<Sum>a \<in> dom m - {sid}. slot_tokens (the (m a)))"
    unfolding map_tokens_def using assms by (intro sum.remove) auto
  also have "(\<Sum>a \<in> dom m - {sid}. slot_tokens (the (m a))) = map_tokens (m(sid := None))"
    unfolding map_tokens_def by (rule sum.cong) auto
  finally show ?thesis using assms(2) by simp
qed

lemma map_tokens_add:
  "finite (dom m) \<Longrightarrow> m sid = None \<Longrightarrow> map_tokens (m(sid \<mapsto> s)) = slot_tokens s + map_tokens m"
  using map_tokens_remove [of "m(sid \<mapsto> s)" sid s] by (simp add: fun_upd_idem)

lemma map_tokens_same:
  assumes "\<And>sid. map_option rs_item (m' sid) = map_option rs_item (m sid)"
  shows "map_tokens m' = map_tokens m"
  unfolding map_tokens_def
proof (rule sum.cong)
  have none: "m' sid = None \<longleftrightarrow> m sid = None" for sid using assms [of sid] by (metis option.map_disc_iff)
  then show "dom m' = dom m" by (auto simp: dom_def)
  show "slot_tokens (the (m' sid)) = slot_tokens (the (m sid))" if "sid \<in> dom m" for sid
    using that assms [of sid] by (auto simp: slot_tokens_def)
qed

lemma UNIV_retained_lane: "(UNIV :: retained_lane set) = {LaneA1Ack, LaneA1Error, LaneA2, LaneA3}"
proof -
  have "a \<in> {LaneA1Ack, LaneA1Error, LaneA2, LaneA3}" for a by (cases a) simp_all
  then show ?thesis by blast
qed

lemma finite_store_slot: "finite (dom (store_slot st))"
proof -
  let ?d = "\<lambda>a. (\<lambda>i. \<lparr>sid_lane = a, sid_index = i\<rparr>) ` dom (lane_slot (store_lane st a))"
  have "sid \<in> ?d (sid_lane sid)" if "sid \<in> dom (store_slot st)" for sid
    using that by (intro image_eqI [of _ _ "sid_index sid"]) (auto simp: store_slot_def)
  then have "dom (store_slot st) \<subseteq> (\<Union>a. ?d a)" by blast
  moreover have "finite (\<Union>a. ?d a)" by (rule finite_UN_I) (simp_all add: UNIV_retained_lane finite_lane_slot)
  ultimately show ?thesis by (rule finite_subset)
qed

lemma held_tokens_same:
  assumes "same_items st st'"
  shows "held_tokens st' = held_tokens st"
  unfolding held_tokens_def
proof (rule map_tokens_same)
  fix sid
  have core: "map_option rs_item x = map_option fst (map_option slot_core x)" for x
    by (simp add: option.map_comp comp_def slot_core_def)
  show "map_option rs_item (store_slot st' sid) = map_option rs_item (store_slot st sid)"
    using assms unfolding core same_items_def by simp
qed

lemma remove_by_slot_law:
  assumes inv: "store_inv st" and rem: "remove_by_slot st sid = (x, st')"
  shows "store_inv st' \<and> store_slot st' = (store_slot st)(sid := None) \<and> x = Option.bind (store_slot st sid) rs_item
    \<and> held_tokens st' + effect_tokens (effect_of r x) = held_tokens st
    \<and> st_deadlines st' = st_deadlines st \<and> st_shutdown st' = st_shutdown st \<and> st_next_seq st' = st_next_seq st"
proof (cases "store_slot st sid")
  case None
  with rem inv show ?thesis by (simp add: remove_by_slot_none effect_of_def fun_upd_idem)
next
  case (Some s)
  from remove_by_slot_spec [OF inv Some] rem
  have st': "store_inv st'" "store_slot st' = (store_slot st)(sid := None)" "x = rs_item s"
    "st_deadlines st' = st_deadlines st" "st_shutdown st' = st_shutdown st" "st_next_seq st' = st_next_seq st"
    by auto
  have "effect_tokens (effect_of r x) = slot_tokens s"
    unfolding st'(3) effect_of_def slot_tokens_def by (auto split: option.splits retained_item.splits)
  then have "held_tokens st' + effect_tokens (effect_of r x) = held_tokens st"
    using map_tokens_remove [OF finite_store_slot Some] by (simp add: held_tokens_def st'(2))
  with st' Some show ?thesis by simp
qed

lemma remove_slots_law:
  assumes "store_inv st" and "remove_slots st slots r = (es, st')"
  shows "store_inv st' \<and> store_slot st' = store_slot st |` (- set slots)
    \<and> held_tokens st' + effect_tokens es = held_tokens st
    \<and> st_deadlines st' = st_deadlines st \<and> st_shutdown st' = st_shutdown st \<and> (\<forall>e \<in> set es. ce_result e = r)"
  using assms
proof (induction slots arbitrary: st es)
  case Nil
  then show ?case by simp
next
  case (Cons sid slots)
  obtain x st1 where rem: "remove_by_slot st sid = (x, st1)" by fastforce
  obtain fs where rest: "remove_slots st1 slots r = (fs, st')" and es: "es = effect_of r x @ fs"
    using Cons.prems(2) rem by (auto split: prod.splits)
  note one = remove_by_slot_law [OF Cons.prems(1) rem, of r]
  have inv1: "store_inv st1" and slot1: "store_slot st1 = (store_slot st)(sid := None)"
    and held1: "held_tokens st1 + effect_tokens (effect_of r x) = held_tokens st"
    and frame1: "st_deadlines st1 = st_deadlines st" "st_shutdown st1 = st_shutdown st"
    using one by blast+
  note IH = Cons.IH [OF inv1 rest]
  have "store_slot st' = store_slot st |` (- set (sid # slots))"
    using IH by (auto simp: slot1 restrict_map_def fun_eq_iff)
  moreover have "\<forall>e \<in> set (effect_of r x). ce_result e = r"
    by (auto simp: effect_of_def split: option.splits retained_item.splits)
  moreover have "held_tokens st' + effect_tokens es = held_tokens st"
    using IH by (simp add: es flip: held1)
  ultimately show ?case using IH frame1 by (auto simp: es)
qed

section \<open>Deadlines\<close>

lemma key_live_iff:
  assumes "lanes_ok st"
  shows "key_live st key \<longleftrightarrow> (\<exists>s. store_slot st (dk_slot key) = Some s \<and> slot_deadline_key (dk_slot key) s = key)"
proof -
  let ?l = "store_lane st (sid_lane (dk_slot key))" and ?i = "sid_index (dk_slot key)"
  have "slot_ok (ls_lane ?l) (ls_slots ?l ! ?i)" if "?i < length (ls_slots ?l)"
    using assms that unfolding lanes_ok_def lane_inv_def by blast
  then have "rs_state (ls_slots ?l ! ?i) = StEmpty \<longleftrightarrow> rs_item (ls_slots ?l ! ?i) = None" if "?i < length (ls_slots ?l)"
    using that by (auto simp: slot_ok_def state_fits_def split: option.splits)
  then show ?thesis
    by (cases key) (auto simp: key_live_def store_slot_def lane_slot_def slot_deadline_key_def Let_def)
qed

lemma key_live_slot:
  assumes "lanes_ok st" and "key_live st key"
  obtains s where "store_slot st (dk_slot key) = Some s" "rs_original_deadline s = dk_deadline key"
  using assms key_live_iff [OF assms(1), of key] by (metis deadline_key.sel(1) slot_deadline_key_def)

lemma store_inv_deadlines:
  assumes "lanes_ok st" and "tables_ok st" and "sorted keys"
    and "\<And>sid s. store_slot st sid = Some s \<Longrightarrow> slot_deadline_key sid s \<in> set keys"
  shows "store_inv (st\<lparr>st_deadlines := keys\<rparr>)"
proof -
  have "lanes_ok (st\<lparr>st_deadlines := keys\<rparr>) = lanes_ok st" "tables_ok (st\<lparr>st_deadlines := keys\<rparr>) = tables_ok st"
    by (simp_all add: lanes_ok_def tables_ok_def store_key_def)
  with assms show ?thesis by (simp add: store_inv_def deadlines_ok_def)
qed

lemma remove_by_slot_deadlines:
  "remove_by_slot (st\<lparr>st_deadlines := d\<rparr>) sid = apsnd (\<lambda>s. s\<lparr>st_deadlines := d\<rparr>) (remove_by_slot st sid)"
proof -
  have "set_lane (st\<lparr>st_deadlines := d\<rparr>) a l = (set_lane st a l)\<lparr>st_deadlines := d\<rparr>" for a l
    by (cases a) simp_all
  then show ?thesis
    by (simp add: remove_by_slot_def Let_def split: prod.splits option.splits retained_item.splits)
qed

lemma expire_keys_deadlines: "expire_keys keys now (st\<lparr>st_deadlines := d\<rparr>) = expire_keys keys now st"
proof (induction keys arbitrary: st d)
  case Nil
  then show ?case by simp
next
  case (Cons key keys)
  have "key_live (st\<lparr>st_deadlines := d\<rparr>) key = key_live st key" by (simp add: key_live_def)
  then show ?case using Cons.IH by (simp add: remove_by_slot_deadlines split_beta Let_def)
qed

definition unexpired :: "instant \<Rightarrow> (slot_id \<rightharpoonup> retained_slot) \<Rightarrow> slot_id \<rightharpoonup> retained_slot" where
  "unexpired now m sid = (case m sid of None \<Rightarrow> None
     | Some s \<Rightarrow> if rs_original_deadline s \<le> now then None else Some s)"

lemma expire_keys_law:
  assumes "store_inv st" and "st_deadlines st = keys" and "expire_keys keys now st = (es, st')"
  shows "store_inv st' \<and> store_slot st' = unexpired now (store_slot st)
    \<and> held_tokens st' + effect_tokens es = held_tokens st
    \<and> st_shutdown st' = st_shutdown st \<and> (\<forall>e \<in> set es. ce_result e = Inl (err_new SendTimeout))"
  using assms
proof (induction keys arbitrary: st es)
  case Nil
  then have "store_slot st sid = None" for sid
    by (cases "store_slot st sid") (auto simp: store_inv_def deadlines_ok_def)
  moreover have "st' = st" "es = []" using Nil by auto
  ultimately show ?case using Nil by (simp add: unexpired_def fun_eq_iff)
next
  case (Cons key keys)
  have inv: "store_inv st" and keys: "st_deadlines st = key # keys" using Cons.prems by simp_all
  have sorted: "sorted (key # keys)" using inv keys by (simp add: store_inv_def deadlines_ok_def)
  show ?case
  proof (cases "now < dk_deadline key")
    case True
    have "\<not> rs_original_deadline s \<le> now" if "store_slot st sid = Some s" for sid s
    proof -
      have "slot_deadline_key sid s \<in> set (key # keys)"
        using inv that keys by (auto simp: store_inv_def deadlines_ok_def)
      then have "key \<le> slot_deadline_key sid s" using sorted by auto
      from dk_le_deadline [OF this] True show ?thesis by (simp add: slot_deadline_key_def)
    qed
    then have "unexpired now (store_slot st) = store_slot st"
      by (auto simp: unexpired_def fun_eq_iff split: option.splits)
    moreover have "st' = st" "es = []" using Cons.prems True by auto
    ultimately show ?thesis using inv by simp
  next
    case due: False
    show ?thesis
    proof (cases "key_live st key")
      case False
      let ?st = "st\<lparr>st_deadlines := keys\<rparr>"
      have "slot_deadline_key sid s \<in> set keys" if "store_slot st sid = Some s" for sid s
      proof -
        have "slot_deadline_key sid s \<noteq> key"
          using that False key_live_iff [of st key] inv by (auto simp: store_inv_def slot_deadline_key_def)
        with inv keys that show ?thesis by (auto simp: store_inv_def deadlines_ok_def)
      qed
      then have "store_inv ?st"
        using inv sorted by (intro store_inv_deadlines) (auto simp: store_inv_def)
      moreover have "expire_keys keys now ?st = (es, st')"
        using Cons.prems(3) False due by (simp add: expire_keys_deadlines)
      ultimately show ?thesis using Cons.IH [of ?st es] by simp
    next
      case True
      obtain x st1 where rem: "remove_by_slot st (dk_slot key) = (x, st1)" by fastforce
      obtain fs where rest: "expire_keys keys now st1 = (fs, st')"
        and es: "es = effect_of (Inl (err_new SendTimeout)) x @ fs"
        using Cons.prems(3) True due rem by (auto split: prod.splits)
      note law = remove_by_slot_law [OF inv rem, of "Inl (err_new SendTimeout)"]
      let ?st = "st1\<lparr>st_deadlines := keys\<rparr>"
      have slot1: "store_slot st1 = (store_slot st)(dk_slot key := None)" using law by blast
      have "slot_deadline_key sid s \<in> set keys" if "store_slot st1 sid = Some s" for sid s
      proof -
        have "sid \<noteq> dk_slot key" "store_slot st sid = Some s" using that slot1 by (auto split: if_splits)
        moreover from this have "slot_deadline_key sid s \<in> set (key # keys)"
          using inv keys by (auto simp: store_inv_def deadlines_ok_def)
        ultimately show ?thesis by (auto simp: slot_deadline_key_def)
      qed
      then have "store_inv ?st"
        using law sorted by (intro store_inv_deadlines) (auto simp: store_inv_def)
      moreover have "expire_keys keys now ?st = (fs, st')" using rest by (simp add: expire_keys_deadlines)
      ultimately have IH: "store_inv st' \<and> store_slot st' = unexpired now (store_slot st1)
          \<and> held_tokens st' + effect_tokens fs = held_tokens st1 \<and> st_shutdown st' = st_shutdown st1
          \<and> (\<forall>e \<in> set fs. ce_result e = Inl (err_new SendTimeout))"
        using Cons.IH [of ?st fs] by simp
      obtain s where "store_slot st (dk_slot key) = Some s" "rs_original_deadline s = dk_deadline key"
        using True inv by (auto simp: store_inv_def elim: key_live_slot)
      then have "unexpired now (store_slot st1) = unexpired now (store_slot st)"
        using due by (auto simp: slot1 unexpired_def fun_eq_iff)
      moreover have "held_tokens st' + effect_tokens es = held_tokens st"
      proof -
        have a: "held_tokens st1 + effect_tokens (effect_of (Inl (err_new SendTimeout)) x) = held_tokens st"
          and b: "held_tokens st' + effect_tokens fs = held_tokens st1"
          using law IH by blast+
        show ?thesis by (simp add: es a [symmetric] b [symmetric] ac_simps)
      qed
      moreover have "\<forall>e \<in> set es. ce_result e = Inl (err_new SendTimeout)"
        using IH by (auto simp: es effect_of_def split: option.splits retained_item.splits)
      ultimately show ?thesis using IH law by simp
    qed
  qed
qed

lemma next_deadline_law:
  assumes inv: "store_inv st" and res: "store_next_deadline st = (d, st')"
  shows "store_inv st' \<and> store_slot st' = store_slot st \<and> st_shutdown st' = st_shutdown st
    \<and> (case d of
         None \<Rightarrow> store_slot st = Map.empty
       | Some t \<Rightarrow> (\<exists>sid s. store_slot st sid = Some s \<and> rs_original_deadline s = t)
           \<and> (\<forall>sid s. store_slot st sid = Some s \<longrightarrow> t \<le> rs_original_deadline s))"
proof -
  define keys where "keys = dropWhile (\<lambda>key. \<not> key_live st key) (st_deadlines st)"
  have st': "st' = st\<lparr>st_deadlines := keys\<rparr>" and d: "d = (case keys of [] \<Rightarrow> None | key # _ \<Rightarrow> Some (dk_deadline key))"
    using res by (simp_all add: store_next_deadline_def keys_def Let_def)
  have lanes: "lanes_ok st" using inv by (simp add: store_inv_def)
  have live: "slot_deadline_key sid s \<in> set keys" if "store_slot st sid = Some s" for sid s
  proof -
    have "slot_deadline_key sid s \<in> set (st_deadlines st)"
      using inv that by (auto simp: store_inv_def deadlines_ok_def)
    moreover have "key_live st (slot_deadline_key sid s)"
      using that by (auto simp: key_live_iff [OF lanes] slot_deadline_key_def)
    ultimately show ?thesis
      unfolding keys_def by (metis (mono_tags, lifting) Un_iff set_append set_takeWhileD takeWhile_dropWhile_id)
  qed
  have sorted: "sorted keys"
    using inv by (simp add: keys_def store_inv_def deadlines_ok_def sorted_dropWhile)
  have "store_inv st'"
    unfolding st' using inv live sorted by (intro store_inv_deadlines) (auto simp: store_inv_def)
  moreover have "case d of None \<Rightarrow> store_slot st = Map.empty
       | Some t \<Rightarrow> (\<exists>sid s. store_slot st sid = Some s \<and> rs_original_deadline s = t)
           \<and> (\<forall>sid s. store_slot st sid = Some s \<longrightarrow> t \<le> rs_original_deadline s)"
  proof (cases keys)
    case Nil
    then have "store_slot st sid = None" for sid using live by (cases "store_slot st sid") auto
    with Nil d show ?thesis by auto
  next
    case (Cons key rest)
    then have "key_live st key" unfolding keys_def by (metis dropWhile_eq_Cons_conv)
    then obtain s where s: "store_slot st (dk_slot key) = Some s" "rs_original_deadline s = dk_deadline key"
      by (rule key_live_slot [OF lanes])
    have "dk_deadline key \<le> rs_original_deadline t" if "store_slot st sid = Some t" for sid t
    proof -
      have "key \<le> slot_deadline_key sid t" using live [OF that] sorted Cons by auto
      from dk_le_deadline [OF this] show ?thesis by (simp add: slot_deadline_key_def)
    qed
    with s d Cons show ?thesis by auto
  qed
  ultimately show ?thesis by (simp add: st')
qed

end
