(* ===== verification/Retained_Dispatch.thy ===== *)
theory Retained_Dispatch
  imports Retained_Laws
begin

text \<open>
  Claiming, finishing a write, losing a callis: the operations of the retained store that move messages
  between waiting, being written and in flight, and the store as one machine of operations. The
  theorems at the end are the store's contract with the rest of the program.
\<close>

section \<open>Claiming\<close>

definition waiting :: "retained_slot \<Rightarrow> bool" where
  "waiting s \<longleftrightarrow> claimable False (rs_state s) \<or> claimable True (rs_state s)"

text \<open>What a claim says about the slot it was made on.\<close>

definition claims_slot :: "retained_store \<Rightarrow> retained_claim \<Rightarrow> retained_slot \<Rightarrow> retained_store \<Rightarrow> bool" where
  "claims_slot st c s st' \<longleftrightarrow> store_slot st (rc_slot c) = Some s \<and> slot_identity s = Some (rc_identity c)
     \<and> rc_deadline c = rs_original_deadline s \<and> rc_item c = write_item (the (rs_item s))
     \<and> store_slot st' = (store_slot st)(rc_slot c \<mapsto> s\<lparr>rs_state := StWriting (rc_callis_id c)\<rparr>)"

lemma same_items_move:
  "store_slot st sid = Some s \<Longrightarrow> store_slot st' = (store_slot st)(sid \<mapsto> s\<lparr>rs_state := x\<rparr>) \<Longrightarrow> same_items st st'"
  by (auto simp: same_items_def slot_core_def)

lemma claim_from_queue_law:
  assumes inv: "store_inv st" and claim: "claim_from_queue st lane replay callis = (c, st')"
  shows "store_inv st' \<and> same_tables st st' \<and> same_items st st'
    \<and> (case c of
         None \<Rightarrow> store_slot st' = store_slot st
           \<and> (\<forall>sid s. store_slot st sid = Some s \<and> sid_lane sid = lane \<longrightarrow> \<not> claimable replay (rs_state s))
       | Some c \<Rightarrow> \<exists>s. claims_slot st c s st' \<and> sid_lane (rc_slot c) = lane \<and> rc_callis_id c = callis
           \<and> claimable replay (rs_state s))"
proof -
  let ?l = "store_lane st lane"
  obtain found l' where lc: "lane_claim ?l replay callis = (found, l')" by fastforce
  have lane: "lane_inv ?l" "ls_lane ?l = lane" using inv by (simp_all add: store_inv_def lanes_ok_def)
  note spec = lane_claim_spec [OF lane(1) lc]
  have st': "st' = set_lane st lane l'"
    using claim lc by (cases found) (simp_all add: claim_from_queue_def Let_def)
  have lanes: "lanes_ok st'"
    unfolding st' using inv spec lane(2) by (intro lanes_ok_set_lane) (auto simp: store_inv_def)
  have tabs: "same_tables st st'" by (simp add: st')
  show ?thesis
  proof (cases found)
    case None
    then have slots: "store_slot st' = store_slot st" and c: "c = None"
      using spec claim lc store_slot_set_lane_same [of l' st lane] by (simp_all add: st' claim_from_queue_def)
    then have "same_items st st'" by (simp add: same_items_def)
    with store_inv_same [OF inv lanes tabs] tabs slots c spec None show ?thesis
      by (auto simp: store_slot_def)
  next
    case (Some i)
    then obtain s where s: "lane_slot ?l i = Some s" "claimable replay (rs_state s)"
        "lane_slot l' = (lane_slot ?l)(i \<mapsto> s\<lparr>rs_state := StWriting callis\<rparr>)"
      using spec by auto
    let ?sid = "\<lparr>sid_lane = lane, sid_index = i\<rparr>"
    have slots: "store_slot st' = (store_slot st)(?sid \<mapsto> s\<lparr>rs_state := StWriting callis\<rparr>)"
      unfolding st' by (rule store_slot_set_lane) (rule s(3))
    have here: "store_slot st ?sid = Some s" using s(1) by (simp add: store_slot_def)
    have "lane_slot l' i = Some (s\<lparr>rs_state := StWriting callis\<rparr>)" using s(3) by simp
    then have "ls_slots l' ! i = s\<lparr>rs_state := StWriting callis\<rparr>" by (simp add: lane_slot_Some)
    with claim lc Some have c: "c = Some \<lparr>rc_slot = ?sid, rc_identity = the (slot_identity s),
        rc_callis_id = callis, rc_deadline = rs_original_deadline s, rc_item = write_item (the (rs_item s))\<rparr>"
      by (auto simp: claim_from_queue_def Let_def slot_identity_def)
    have "slot_identity s \<noteq> None" using s(1) by (auto simp: slot_identity_def lane_slot_Some)
    then have "claims_slot st (the c) s st'" using slots here by (auto simp: claims_slot_def c)
    moreover have "same_items st st'" using here slots by (rule same_items_move)
    ultimately show ?thesis using store_inv_same [OF inv lanes tabs] tabs s(2) c by auto
  qed
qed

text \<open>A lane's claim: its replays first, then its fresh items; nothing below A1 after shutdown.\<close>

definition open_lane :: "retained_store \<Rightarrow> retained_lane \<Rightarrow> bool" where
  "open_lane st lane \<longleftrightarrow> \<not> st_shutdown st \<or> response_lane lane"

lemma no_replay_in_response_lane:
  assumes "store_inv st" and "store_slot st sid = Some s" and "response_lane (sid_lane sid)"
  shows "\<not> claimable True (rs_state s)"
proof -
  obtain x where "rs_item s = Some x" using store_slot_item [OF assms(2)] by blast
  from store_slot_ok [OF assms(1,2) this] assms(3) show ?thesis
    by (auto simp: claimable_def state_fits_def split: slot_state.splits)
qed

lemma claim_lane_law:
  assumes inv: "store_inv st" and claim: "claim_lane st lane callis = (c, st')"
  shows "store_inv st' \<and> same_tables st st' \<and> same_items st st'
    \<and> (case c of
         None \<Rightarrow> store_slot st' = store_slot st
           \<and> (open_lane st lane \<longrightarrow> (\<forall>sid s. store_slot st sid = Some s \<and> sid_lane sid = lane \<longrightarrow> \<not> waiting s))
       | Some c \<Rightarrow> open_lane st lane \<and> (\<exists>s. claims_slot st c s st' \<and> sid_lane (rc_slot c) = lane \<and> rc_callis_id c = callis
           \<and> waiting s \<and> (\<forall>sid t. store_slot st sid = Some t \<and> sid_lane sid = lane \<and> claimable True (rs_state t) \<longrightarrow>
                claimable True (rs_state s))))"
proof (cases "open_lane st lane")
  case False
  with claim have "c = None" "st' = st" by (simp_all add: claim_lane_def open_lane_def response_lane_def)
  with False inv show ?thesis by (simp add: same_tables_def)
next
  case True
  obtain c1 st1 where first: "(if \<not> response_lane lane then claim_from_queue st lane True callis else (None, st)) = (c1, st1)"
    by fastforce
  have one: "store_inv st1 \<and> same_tables st st1 \<and> same_items st st1
    \<and> (case c1 of
         None \<Rightarrow> store_slot st1 = store_slot st
           \<and> (\<forall>sid s. store_slot st sid = Some s \<and> sid_lane sid = lane \<longrightarrow> \<not> claimable True (rs_state s))
       | Some c \<Rightarrow> \<exists>s. claims_slot st c s st1 \<and> sid_lane (rc_slot c) = lane \<and> rc_callis_id c = callis
           \<and> claimable True (rs_state s))"
  proof (cases "response_lane lane")
    case True
    with first inv no_replay_in_response_lane [OF inv] show ?thesis by (auto simp: same_tables_def)
  next
    case False
    with first claim_from_queue_law [OF inv] show ?thesis by simp
  qed
  have cl: "claim_lane st lane callis =
      (case c1 of Some c \<Rightarrow> (Some c, st1) | None \<Rightarrow> claim_from_queue st1 lane False callis)"
    using True first by (auto simp: claim_lane_def open_lane_def response_lane_def split: if_splits)
  show ?thesis
  proof (cases c1)
    case (Some d)
    with cl claim one True show ?thesis by (auto simp: waiting_def)
  next
    case None
    with cl claim have snd_claim: "claim_from_queue st1 lane False callis = (c, st')" by simp
    from one have "store_inv st1" by blast
    note two = claim_from_queue_law [OF this snd_claim]
    have slot1: "store_slot st1 = store_slot st" using one None by simp
    have "claims_slot st1 d s st' = claims_slot st d s st'" for d s by (simp add: claims_slot_def slot1)
    with one two None slot1 True same_tables_trans [of st st1 st'] same_items_trans [of st st1 st'] show ?thesis
      by (cases c) (auto simp: waiting_def)
  qed
qed

definition idle_lane :: "retained_store \<Rightarrow> retained_lane \<Rightarrow> bool" where
  "idle_lane st lane \<longleftrightarrow>
     (open_lane st lane \<longrightarrow> (\<forall>sid s. store_slot st sid = Some s \<and> sid_lane sid = lane \<longrightarrow> \<not> waiting s))"

lemma claim_first_law:
  assumes "store_inv st" and "claim_first st lanes callis = (c, st')"
  shows "store_inv st' \<and> same_tables st st' \<and> same_items st st'
    \<and> (case c of
         None \<Rightarrow> store_slot st' = store_slot st \<and> (\<forall>lane \<in> set lanes. idle_lane st lane)
       | Some c \<Rightarrow> \<exists>s pre post. lanes = pre @ sid_lane (rc_slot c) # post \<and> (\<forall>lane \<in> set pre. idle_lane st lane)
           \<and> open_lane st (sid_lane (rc_slot c)) \<and> claims_slot st c s st' \<and> rc_callis_id c = callis \<and> waiting s
           \<and> (\<forall>sid t. store_slot st sid = Some t \<and> sid_lane sid = sid_lane (rc_slot c) \<and> claimable True (rs_state t) \<longrightarrow>
                claimable True (rs_state s)))"
  using assms
proof (induction lanes arbitrary: st)
  case Nil
  then show ?case by (simp add: same_tables_def)
next
  case (Cons lane lanes)
  obtain c1 st1 where first: "claim_lane st lane callis = (c1, st1)" by fastforce
  note one = claim_lane_law [OF Cons.prems(1) first]
  show ?case
  proof (cases c1)
    case (Some d)
    then have c: "c = Some d" "st' = st1" using Cons.prems(2) first by simp_all
    from one Some obtain s where "claims_slot st d s st1" "sid_lane (rc_slot d) = lane" "open_lane st lane"
        "rc_callis_id d = callis" "waiting s"
        "\<forall>sid t. store_slot st sid = Some t \<and> sid_lane sid = lane \<and> claimable True (rs_state t) \<longrightarrow>
                claimable True (rs_state s)"
      by auto
    moreover have "lane # lanes = [] @ lane # lanes" "\<forall>a \<in> set []. idle_lane st a" by simp_all
    ultimately show ?thesis using one unfolding c by (simp only: option.case) blast
  next
    case None
    then have rest: "claim_first st1 lanes callis = (c, st')" using Cons.prems(2) first by simp
    have inv1: "store_inv st1" and tabs1: "same_tables st st1" and items1: "same_items st st1"
      and slot1: "store_slot st1 = store_slot st"
      and idle: "idle_lane st lane"
      using one None by (auto simp: idle_lane_def)
    have same: "idle_lane st1 a = idle_lane st a" "open_lane st1 a = open_lane st a" for a
      using tabs1 by (simp_all add: idle_lane_def open_lane_def slot1 same_tables_def)
    have claims: "claims_slot st1 d s st' = claims_slot st d s st'" for d s by (simp add: claims_slot_def slot1)
    note IH = Cons.IH [OF inv1 rest, unfolded same claims slot1]
    have frame: "store_inv st'" "same_tables st st'" "same_items st st'"
      using IH tabs1 items1 same_tables_trans same_items_trans by blast+
    show ?thesis
    proof (cases c)
      case None
      with IH frame idle show ?thesis by simp
    next
      case (Some d)
      with IH obtain s pre post where d: "lanes = pre @ sid_lane (rc_slot d) # post"
        "\<forall>lane \<in> set pre. idle_lane st lane" "open_lane st (sid_lane (rc_slot d))" "claims_slot st d s st'"
        "rc_callis_id d = callis" "waiting s"
        "\<forall>sid t. store_slot st sid = Some t \<and> sid_lane sid = sid_lane (rc_slot d) \<and> claimable True (rs_state t) \<longrightarrow>
                claimable True (rs_state s)"
        by auto
      then have "lane # lanes = (lane # pre) @ sid_lane (rc_slot d) # post" "\<forall>a \<in> set (lane # pre). idle_lane st a"
        using idle by simp_all
      with d(3-7) frame show ?thesis unfolding Some by (simp only: option.case) blast
    qed
  qed
qed

lemma lane_has_work_iff:
  "lane_has_dispatchable_work st lane \<longleftrightarrow> (\<exists>sid s. store_slot st sid = Some s \<and> sid_lane sid = lane \<and> waiting s)"
proof -
  have wait: "(rs_state s = StReady \<or> (case rs_state s of StReplayReady _ \<Rightarrow> True | _ \<Rightarrow> False)) \<longleftrightarrow> waiting s" for s
    by (auto simp: waiting_def claimable_def)
  have "lane_has_dispatchable_work st lane \<longleftrightarrow>
      (\<exists>i < length (ls_slots (store_lane st lane)). waiting (ls_slots (store_lane st lane) ! i)
        \<and> rs_item (ls_slots (store_lane st lane) ! i) \<noteq> None)"
    unfolding lane_has_dispatchable_work_def wait by (simp add: list_ex_length)
  also have "\<dots> \<longleftrightarrow> (\<exists>i s. lane_slot (store_lane st lane) i = Some s \<and> waiting s)"
    by (auto simp: lane_slot_def)
  also have "\<dots> \<longleftrightarrow> (\<exists>sid s. store_slot st sid = Some s \<and> sid_lane sid = lane \<and> waiting s)"
    unfolding store_slot_def by (metis slot_id.select_convs)
  finally show ?thesis .
qed

lemma has_work_iff:
  "has_dispatchable_work st \<longleftrightarrow> (\<exists>sid s. store_slot st sid = Some s \<and> open_lane st (sid_lane sid) \<and> waiting s)"
proof -
  have "open_lane st a \<longleftrightarrow> a = LaneA1Ack \<or> a = LaneA1Error \<or> \<not> st_shutdown st" for a
    by (auto simp: open_lane_def response_lane_def)
  note open_iff = this
  show ?thesis
  proof
    assume "has_dispatchable_work st"
    then show "\<exists>sid s. store_slot st sid = Some s \<and> open_lane st (sid_lane sid) \<and> waiting s"
      unfolding has_dispatchable_work_def lane_has_work_iff open_iff by blast
  next
    assume "\<exists>sid s. store_slot st sid = Some s \<and> open_lane st (sid_lane sid) \<and> waiting s"
    then obtain sid s where s: "store_slot st sid = Some s" "open_lane st (sid_lane sid)" "waiting s" by blast
    then have work: "lane_has_dispatchable_work st (sid_lane sid)" unfolding lane_has_work_iff by blast
    with s(2) show "has_dispatchable_work st"
      unfolding has_dispatchable_work_def open_iff by (cases "sid_lane sid") auto
  qed
qed

lemma claim_next_law:
  assumes inv: "store_inv st" and claim: "store_claim_next st callis = (c, st')"
  shows "store_inv st' \<and> same_tables st st' \<and> same_items st st'
    \<and> (case c of
         None \<Rightarrow> store_slot st' = store_slot st \<and> \<not> has_dispatchable_work st
       | Some c \<Rightarrow> \<exists>s. claims_slot st c s st' \<and> rc_callis_id c = callis \<and> waiting s
           \<and> open_lane st (sid_lane (rc_slot c))
           \<and> (\<forall>sid t. store_slot st sid = Some t \<and> open_lane st (sid_lane sid) \<and> waiting t \<longrightarrow>
                lane_rank (sid_lane (rc_slot c)) \<le> lane_rank (sid_lane sid)
                \<and> (sid_lane sid = sid_lane (rc_slot c) \<and> claimable True (rs_state t) \<longrightarrow> claimable True (rs_state s))))"
proof -
  let ?lanes = "[LaneA1Ack, LaneA1Error, LaneA2, LaneA3]"
  note law = claim_first_law [OF inv claim [unfolded store_claim_next_def]]
  show ?thesis
  proof (cases c)
    case None
    with law have "idle_lane st a" for a by (cases a) simp_all
    with law None show ?thesis by (auto simp: has_work_iff idle_lane_def)
  next
    case (Some d)
    with law obtain s pre post where d: "?lanes = pre @ sid_lane (rc_slot d) # post"
      "\<forall>lane \<in> set pre. idle_lane st lane" "open_lane st (sid_lane (rc_slot d))" "claims_slot st d s st'"
      "rc_callis_id d = callis" "waiting s"
      "\<forall>sid t. store_slot st sid = Some t \<and> sid_lane sid = sid_lane (rc_slot d) \<and> claimable True (rs_state t) \<longrightarrow>
                claimable True (rs_state s)"
      by auto
    have "b \<in> set pre" if "lane_rank b < lane_rank (sid_lane (rc_slot d))" for b
      using d(1) that by (cases b; cases "sid_lane (rc_slot d)") (auto simp: Cons_eq_append_conv)
    then have "lane_rank (sid_lane (rc_slot d)) \<le> lane_rank (sid_lane sid)"
      if "store_slot st sid = Some t" "open_lane st (sid_lane sid)" "waiting t" for sid t
      using that d(2) by (meson idle_lane_def not_le)
    with law d(3-7) show ?thesis unfolding Some by (simp only: option.case) blast
  qed
qed

section \<open>The end of a write\<close>

text \<open>What becomes of the slot whose write ended.\<close>

definition written :: "callis_id \<Rightarrow> bool \<Rightarrow> retained_slot \<Rightarrow> retained_slot option" where
  "written callis ok s =
     (case rs_item s of
        Some (ItemTracked _) \<Rightarrow> Some (s\<lparr>rs_state := if ok then StInflight callis else StReplayReady callis\<rparr>)
      | _ \<Rightarrow> if ok then None else Some (s\<lparr>rs_state := StReady\<rparr>))"

definition claim_current :: "retained_store \<Rightarrow> retained_claim \<Rightarrow> retained_slot \<Rightarrow> bool" where
  "claim_current st claim s \<longleftrightarrow> store_slot st (rc_slot claim) = Some s
     \<and> rs_state s = StWriting (rc_callis_id claim) \<and> slot_identity s = Some (rc_identity claim)"

lemma tracked_lane_open:
  "fits_lane lane x \<Longrightarrow> kind_of_item x = KindTracked \<longleftrightarrow> \<not> response_lane lane"
  by (cases lane; cases x) (auto simp: response_lane_def)

lemma complete_write_law:
  assumes inv: "store_inv st" and w: "store_complete_write st claim ok = (es, st')"
  shows "es = [] \<and> store_inv st' \<and> held_tokens st' = held_tokens st \<and> st_shutdown st' = st_shutdown st
    \<and> (if \<exists>s. claim_current st claim s
       then \<exists>s. claim_current st claim s \<and> store_slot st' = (store_slot st)(rc_slot claim := written (rc_callis_id claim) ok s)
       else st' = st)"
proof (cases "\<exists>s. claim_current st claim s")
  case False
  have "st' = st \<and> es = []"
    using w False unfolding store_complete_write_def claim_current_def store_slot_def Let_def
    by (auto simp: lane_slot_def slot_identity_def split: if_splits option.splits)
  with inv False show ?thesis by simp
next
  case True
  then obtain s where s: "store_slot st (rc_slot claim) = Some s"
      "rs_state s = StWriting (rc_callis_id claim)" "slot_identity s = Some (rc_identity claim)"
    by (auto simp: claim_current_def)
  let ?sid = "rc_slot claim" and ?c = "rc_callis_id claim"
  let ?l = "store_lane st (sid_lane ?sid)" and ?i = "sid_index ?sid"
  have slot: "?i < length (ls_slots ?l)" "ls_slots ?l ! ?i = s"
    using s(1) by (auto simp: store_slot_def lane_slot_Some)
  obtain x where x: "rs_item s = Some x" using store_slot_item [OF s(1)] by blast
  have fits: "fits_lane (sid_lane ?sid) x" using store_slot_ok [OF inv s(1) x] by simp
  define st2 where "st2 = (if ok then StInflight ?c else StReplayReady ?c)"
  have move: "store_inv (set_lane st (sid_lane ?sid) (move_slot ?l ?i state))"
    "store_slot (set_lane st (sid_lane ?sid) (move_slot ?l ?i state)) = (store_slot st)(?sid \<mapsto> s\<lparr>rs_state := state\<rparr>)"
    "held_tokens (set_lane st (sid_lane ?sid) (move_slot ?l ?i state)) = held_tokens st"
    if "state_fits (sid_lane ?sid) state" for state
    using move_store_slot [OF inv s(1) that] held_tokens_same same_items_move [OF s(1)] by blast+
  have cur: "claim_current st claim s" using s by (simp add: claim_current_def)
  show ?thesis
  proof (cases "kind_of_item x = KindTracked")
    case True
    then obtain t where t: "x = ItemTracked t" by (cases x) auto
    have open_l: "\<not> response_lane (sid_lane ?sid)" using tracked_lane_open [OF fits] True by simp
    then have st2: "state_fits (sid_lane ?sid) st2" by (simp add: st2_def state_fits_def)
    have "es = []" "st' = set_lane st (sid_lane ?sid) (move_slot ?l ?i st2)"
      using w slot s(2,3) x t by (auto simp: store_complete_write_def Let_def move_slot_def st2_def split: if_splits)
    with move [OF st2] cur x t show ?thesis by (auto simp: written_def st2_def)
  next
    case False
    then have resp: "(case x of ItemTracked _ \<Rightarrow> False | _ \<Rightarrow> True)" by (cases x) auto
    show ?thesis
    proof (cases ok)
      case True
      then have "es = []" "st' = snd (remove_by_slot st ?sid)"
        using w slot s(2,3) x resp by (auto simp: store_complete_write_def Let_def split: retained_item.splits)
      moreover obtain y st1 where rem: "remove_by_slot st ?sid = (y, st1)" by fastforce
      moreover have "effect_of (Inr ()) y = []"
        using remove_by_slot_law [OF inv rem, of "Inr ()"] s(1) x resp by (auto simp: effect_of_def split: retained_item.splits)
      ultimately show ?thesis
        using remove_by_slot_law [OF inv rem, of "Inr ()"] cur x resp True
        by (auto simp: written_def split: retained_item.splits)
    next
      case not_ok: False
      have "es = []" "st' = set_lane st (sid_lane ?sid) (move_slot ?l ?i StReady)"
        using w slot s(2,3) x resp not_ok
        by (auto simp: store_complete_write_def Let_def move_slot_def split: retained_item.splits)
      with move [of StReady] cur x resp not_ok show ?thesis
        by (auto simp: written_def state_fits_def split: retained_item.splits)
    qed
  qed
qed

section \<open>Losing a callis\<close>

text \<open>The new state of a slot that the lost callis was writing or had sent.\<close>

definition sweep_state :: "callis_id \<Rightarrow> retained_slot \<Rightarrow> slot_state" where
  "sweep_state callis s =
     (if rs_state s = StWriting callis \<or> rs_state s = StInflight callis then
        (case rs_item s of Some (ItemTracked _) \<Rightarrow> StReplayReady callis
         | _ \<Rightarrow> if rs_state s = StWriting callis then StReady else rs_state s)
      else rs_state s)"

definition sweep :: "callis_id \<Rightarrow> retained_slot \<Rightarrow> retained_slot" where
  "sweep callis s = s\<lparr>rs_state := sweep_state callis s\<rparr>"

definition move_swept :: "callis_id \<Rightarrow> lane_state \<Rightarrow> nat \<Rightarrow> lane_state" where
  "move_swept callis l i =
     (let s = ls_slots l ! i
      in if rs_item s \<noteq> None \<and> sweep_state callis s \<noteq> rs_state s then move_slot l i (sweep_state callis s) else l)"

definition flush_replay :: "lane_state \<times> queue_key list \<Rightarrow> lane_state" where
  "flush_replay acc = (fst acc)\<lparr>ls_replay := ls_replay (fst acc) @ snd acc\<rparr>"

lemma flush_replay_sweep: "flush_replay (sweep_slot callis acc i) = move_swept callis (flush_replay acc) i"
proof -
  obtain l r where acc: "acc = (l, r)" by fastforce
  let ?s = "ls_slots l ! i"
  show ?thesis
  proof (cases "rs_item ?s")
    case None
    then show ?thesis
      by (cases "rs_state ?s") (simp_all add: acc sweep_slot_def move_swept_def flush_replay_def Let_def)
  next
    case (Some x)
    then show ?thesis
      by (cases x; cases "rs_state ?s")
        (auto simp: acc sweep_slot_def move_swept_def flush_replay_def sweep_state_def move_slot_def
          set_slot_state_def push_ready_def push_replay_def Let_def)
  qed
qed

lemma lane_mark_callis_eq:
  "lane_mark_callis callis l = foldl (move_swept callis) l [0..<length (ls_slots l)]"
proof -
  have "flush_replay (foldl (sweep_slot callis) acc is) = foldl (move_swept callis) (flush_replay acc) is" for acc "is"
    by (induction "is" arbitrary: acc) (simp_all add: flush_replay_sweep)
  from this [of "(l, [])" "[0..<length (ls_slots l)]"] show ?thesis
    by (simp add: lane_mark_callis_def flush_replay_def split_beta Let_def)
qed

lemma sweep_same: "sweep_state callis s = rs_state s \<Longrightarrow> sweep callis s = s"
  by (simp add: sweep_def)

lemma move_swept_spec:
  assumes inv: "lane_inv l" and i: "i < length (ls_slots l)"
  shows "lane_inv (move_swept callis l i)" "ls_lane (move_swept callis l i) = ls_lane l"
    "lane_slot (move_swept callis l i) = (lane_slot l)(i := map_option (sweep callis) (lane_slot l i))"
    "length (ls_slots (move_swept callis l i)) = length (ls_slots l)"
proof -
  let ?s = "ls_slots l ! i"
  have len: "length (ls_slots (move_slot l i x)) = length (ls_slots l)" for x
    by (simp add: move_slot_def set_slot_state_def push_ready_def push_replay_def Let_def split: slot_state.splits)
  show "length (ls_slots (move_swept callis l i)) = length (ls_slots l)" "ls_lane (move_swept callis l i) = ls_lane l"
    by (simp_all add: move_swept_def Let_def len)
  have "lane_inv (move_swept callis l i)
      \<and> lane_slot (move_swept callis l i) = (lane_slot l)(i := map_option (sweep callis) (lane_slot l i))"
  proof (cases "rs_item ?s \<noteq> None \<and> sweep_state callis ?s \<noteq> rs_state ?s")
    case False
    then have "move_swept callis l i = l" by (auto simp: move_swept_def Let_def)
    moreover have "map_option (sweep callis) (lane_slot l i) = lane_slot l i"
      using False sweep_same [of callis ?s] by (auto simp: lane_slot_def)
    ultimately show ?thesis using inv by (simp add: fun_upd_idem)
  next
    case True
    then have s: "lane_slot l i = Some ?s" using i by (auto simp: lane_slot_Some)
    obtain x where x: "rs_item ?s = Some x" using True by blast
    have ok: "fits_lane (ls_lane l) x" "state_fits (ls_lane l) (rs_state ?s)"
      using lane_slot_ok [OF inv s] x by (simp_all add: slot_ok_def)
    then have "state_fits (ls_lane l) (sweep_state callis ?s)"
      using tracked_lane_open [OF ok(1)] x
      by (auto simp: sweep_state_def state_fits_def split: retained_item.splits)
    from move_slot_spec [OF inv s this] True s show ?thesis by (simp add: move_swept_def sweep_def Let_def)
  qed
  then show "lane_inv (move_swept callis l i)"
    "lane_slot (move_swept callis l i) = (lane_slot l)(i := map_option (sweep callis) (lane_slot l i))" by blast+
qed

lemma foldl_move_swept:
  assumes "lane_inv l" and "distinct is" and "\<forall>i \<in> set is. i < length (ls_slots l)"
  shows "lane_inv (foldl (move_swept callis) l is) \<and> ls_lane (foldl (move_swept callis) l is) = ls_lane l
    \<and> lane_slot (foldl (move_swept callis) l is) =
        (\<lambda>i. if i \<in> set is then map_option (sweep callis) (lane_slot l i) else lane_slot l i)"
  using assms
proof (induction "is" arbitrary: l)
  case Nil
  then show ?case by simp
next
  case (Cons i "is")
  have i: "i < length (ls_slots l)" using Cons.prems by simp
  note one = move_swept_spec [OF Cons.prems(1) i, of callis]
  have "lane_inv (foldl (move_swept callis) (move_swept callis l i) is)
      \<and> ls_lane (foldl (move_swept callis) (move_swept callis l i) is) = ls_lane (move_swept callis l i)
      \<and> lane_slot (foldl (move_swept callis) (move_swept callis l i) is) =
        (\<lambda>j. if j \<in> set is then map_option (sweep callis) (lane_slot (move_swept callis l i) j)
             else lane_slot (move_swept callis l i) j)"
    using Cons.IH [OF one(1)] Cons.prems one(4) by simp
  with one(2,3) Cons.prems(2) show ?case by (auto simp: fun_eq_iff)
qed

lemma lane_mark_callis_spec:
  assumes "lane_inv l"
  shows "lane_inv (lane_mark_callis callis l)" "ls_lane (lane_mark_callis callis l) = ls_lane l"
    "lane_slot (lane_mark_callis callis l) = (\<lambda>i. map_option (sweep callis) (lane_slot l i))"
proof -
  have out: "lane_slot l i = None" if "i \<notin> set [0..<length (ls_slots l)]" for i
    using that by (simp add: lane_slot_def)
  note law = foldl_move_swept [OF assms, of "[0..<length (ls_slots l)]" callis]
  show "lane_inv (lane_mark_callis callis l)" "ls_lane (lane_mark_callis callis l) = ls_lane l"
    unfolding lane_mark_callis_eq using law by auto
  show "lane_slot (lane_mark_callis callis l) = (\<lambda>i. map_option (sweep callis) (lane_slot l i))"
    unfolding lane_mark_callis_eq using law out by (auto simp: fun_eq_iff)
qed

lemma mark_callis_law:
  assumes inv: "store_inv st"
  shows "store_inv (store_mark_callis_replay_ready st callis)
    \<and> same_tables st (store_mark_callis_replay_ready st callis)
    \<and> same_items st (store_mark_callis_replay_ready st callis)
    \<and> store_slot (store_mark_callis_replay_ready st callis) =
        (\<lambda>sid. if sid_lane sid = LaneA1Ack then store_slot st sid else map_option (sweep callis) (store_slot st sid))"
proof -
  let ?st = "store_mark_callis_replay_ready st callis"
  have lane: "store_lane ?st a = (if a = LaneA1Ack then store_lane st a else lane_mark_callis callis (store_lane st a))" for a
    by (cases a) (simp_all add: store_mark_callis_replay_ready_def)
  have inv_l: "lane_inv (store_lane st a)" "ls_lane (store_lane st a) = a" for a
    using inv by (simp_all add: store_inv_def lanes_ok_def)
  have slots: "store_slot ?st =
        (\<lambda>sid. if sid_lane sid = LaneA1Ack then store_slot st sid else map_option (sweep callis) (store_slot st sid))"
    by (rule ext) (simp add: store_slot_def lane lane_mark_callis_spec [OF inv_l(1)])
  have "lane_inv (store_lane ?st a) \<and> ls_lane (store_lane ?st a) = a" for a
    unfolding lane using inv_l [of a] lane_mark_callis_spec [OF inv_l(1) [of a], of callis] by (cases "a = LaneA1Ack") auto
  then have "lanes_ok ?st" by (simp only: lanes_ok_def) blast
  moreover have tabs: "same_tables st ?st"
    by (simp add: store_mark_callis_replay_ready_def same_tables_def)
  moreover have "same_items st ?st"
    by (simp add: same_items_def slots option.map_comp comp_def sweep_def) (simp add: slot_core_def [abs_def])
  ultimately show ?thesis using store_inv_same [OF inv] slots by blast
qed

lemma mark_slot_law:
  assumes inv: "store_inv st"
  shows "store_inv (mark_slot_replay_ready st sid) \<and> same_tables st (mark_slot_replay_ready st sid)
    \<and> same_items st (mark_slot_replay_ready st sid)"
proof (cases "mark_slot_replay_ready st sid = st")
  case True
  with inv show ?thesis by (simp add: same_tables_def)
next
  case False
  let ?l = "store_lane st (sid_lane sid)" and ?i = "sid_index sid"
  let ?s = "ls_slots ?l ! ?i"
  obtain t c where t: "?i < length (ls_slots ?l)" "rs_item ?s = Some (ItemTracked t)" "last_sent (rs_state ?s) = Some c"
    using False
    by (auto simp: mark_slot_replay_ready_def Let_def split: if_splits option.splits retained_item.splits)
  have s: "store_slot st sid = Some ?s" using t by (auto simp: store_slot_def lane_slot_Some)
  have "\<not> response_lane (sid_lane sid)"
    using tracked_lane_open [OF conjunct1 [OF store_slot_ok [OF inv s t(2)]]] by simp
  then have fits: "state_fits (sid_lane sid) (StReplayReady c)" by (simp add: state_fits_def)
  have eq: "mark_slot_replay_ready st sid = set_lane st (sid_lane sid) (move_slot ?l ?i (StReplayReady c))"
    using t by (simp add: mark_slot_replay_ready_def move_slot_def Let_def)
  from move_store_slot [OF inv s fits] same_items_move [OF s] show ?thesis unfolding eq by fastforce
qed

lemma mark_slots_law:
  "store_inv st \<Longrightarrow> store_inv (mark_slots_replay_ready st sids) \<and> same_tables st (mark_slots_replay_ready st sids)
    \<and> same_items st (mark_slots_replay_ready st sids)"
proof (induction sids arbitrary: st)
  case Nil
  then show ?case by (simp add: mark_slots_replay_ready_def same_tables_def)
next
  case (Cons sid sids)
  note one = mark_slot_law [OF Cons.prems, of sid]
  have eq: "mark_slots_replay_ready st (sid # sids) = mark_slots_replay_ready (mark_slot_replay_ready st sid) sids"
    by (simp add: mark_slots_replay_ready_def)
  from Cons.IH [OF conjunct1 [OF one]] one show ?case
    unfolding eq using same_tables_trans same_items_trans by blast
qed

lemma store_key_frame [simp]:
  "store_key (st\<lparr>st_next_seq := n\<rparr>) = store_key st" "store_key (st\<lparr>st_shutdown := b\<rparr>) = store_key st"
  by (simp_all add: store_key_def fun_eq_iff)

lemma store_inv_frame [simp]:
  "store_inv (st\<lparr>st_next_seq := n\<rparr>) = store_inv st" "store_inv (st\<lparr>st_shutdown := b\<rparr>) = store_inv st"
  by (simp_all add: store_inv_def lanes_ok_def tables_ok_def deadlines_ok_def)

section \<open>Admission\<close>

lemma insert_tracked_law:
  assumes inv: "store_inv st" and ins: "insert_tracked st t d now = (r, st')"
  shows "store_inv st' \<and> r \<noteq> TrackedPanic \<and> st_shutdown st' = st_shutdown st
    \<and> (if r = TrackedOk
       then \<not> st_shutdown st \<and> now < d \<and> (\<exists>sid s. store_slot st sid = None \<and> rs_item s = Some (ItemTracked t)
           \<and> rs_original_deadline s = d \<and> rs_state s = StReady \<and> store_slot st' = (store_slot st)(sid \<mapsto> s)
           \<and> tracked_lane (tracked_msg_type t) = Some (sid_lane sid))
       else st' = st)
    \<and> held_tokens st' = held_tokens st + (if r = TrackedOk then {#to_ack_tx t#} else {#})"
proof (cases "\<not> st_shutdown st \<and> now < d \<and> map_of (st_tracked st) (tracked_peer_msg_id t) = None
    \<and> classify_priority (tracked_msg_type t) \<noteq> TierA1
    \<and> (\<exists>lane. tracked_lane (tracked_msg_type t) = Some lane \<and> lane_available (store_lane st lane))")
  case False
  have "\<exists>lane. tracked_lane (tracked_msg_type t) = Some lane" if "classify_priority (tracked_msg_type t) \<noteq> TierA1"
    using that by (auto simp: tracked_lane_def split: priority_tier.splits)
  with False ins have "st' = st" "\<exists>e. r = TrackedErr e"
    by (auto simp: insert_tracked_def Let_def split: if_splits option.splits)
  with inv show ?thesis by auto
next
  case True
  then obtain lane where lane: "tracked_lane (tracked_msg_type t) = Some lane" "lane_available (store_lane st lane)"
    by blast
  have fits: "fits_lane lane (ItemTracked t)"
    using lane(1) by (auto simp: tracked_lane_def split: priority_tier.splits)
  have key: "item_key (ItemTracked t) = (True, tracked_peer_msg_id t)" by (simp add: item_key_def)
  have "store_key st (item_key (ItemTracked t)) = None" using True by (simp add: store_key_def key)
  from store_allocate_spec [OF inv fits this lane(2), of d now]
  obtain sid s st1 where al: "store_allocate st lane (ItemTracked t) d now = (Some sid, st1)" "sid_lane sid = lane"
      "store_slot st sid = None" "rs_item s = Some (ItemTracked t)" "rs_original_deadline s = d" "rs_state s = StReady"
      "store_slot (enter_table st1 (ItemTracked t) sid) = (store_slot st)(sid \<mapsto> s)"
      "store_inv (enter_table st1 (ItemTracked t) sid)" "st_shutdown st1 = st_shutdown st"
    by blast
  have r: "r = TrackedOk" "st' = enter_table st1 (ItemTracked t) sid"
    using ins True lane al(1) by (auto simp: insert_tracked_def enter_table_def key Let_def)
  have "held_tokens st' = held_tokens st + {#to_ack_tx t#}"
    using map_tokens_add [OF finite_store_slot al(3), of s] al(4,7) r by (simp add: held_tokens_def slot_tokens_def)
  moreover have "st_shutdown st' = st_shutdown st" using al(9) by (simp add: r(2) enter_table_def)
  ultimately show ?thesis using al r True lane by auto
qed

lemma insert_response_law:
  assumes inv: "store_inv st" and fits: "fits_lane lane x" "response_lane lane" and x: "item_peer_msg_id x = p"
    and ins: "insert_response st k lane p d x now = (r, st')"
  shows "store_inv st' \<and> held_tokens st' = held_tokens st \<and> st_shutdown st' = st_shutdown st
    \<and> (if r = RespInserted
       then \<not> st_shutdown st \<and> now < d \<and> (\<exists>sid s. store_slot st sid = None \<and> sid_lane sid = lane \<and> rs_item s = Some x
           \<and> rs_original_deadline s = d \<and> rs_state s = StReady \<and> store_slot st' = (store_slot st)(sid \<mapsto> s))
       else store_slot st' = store_slot st)"
proof (cases "\<not> st_shutdown st \<and> now < d \<and> map_of (st_responses st) p = None")
  case False
  with ins have "st' = st" "r \<noteq> RespInserted" by (auto simp: insert_response_def split: if_splits)
  with inv show ?thesis by simp
next
  case True
  have resp: "kind_of_item x \<noteq> KindTracked" using tracked_lane_open [OF fits(1)] fits(2) by simp
  then have key: "item_key x = (False, p)" using x by (simp add: item_key_def)
  show ?thesis
  proof (cases "lane_available (store_lane st lane)")
    case False
    then have "store_allocate st lane x d now = (None, set_lane (st\<lparr>st_next_seq := wrap_succ_max1 (st_next_seq st)\<rparr>) lane (store_lane st lane))"
      by (simp add: store_allocate_def lane_allocate_def Let_def)
    moreover have "set_lane st2 a (store_lane st2 a) = st2" for st2 a by (cases a) simp_all
    from this [of "st\<lparr>st_next_seq := wrap_succ_max1 (st_next_seq st)\<rparr>" lane]
    have "set_lane (st\<lparr>st_next_seq := wrap_succ_max1 (st_next_seq st)\<rparr>) lane (store_lane st lane)
        = st\<lparr>st_next_seq := wrap_succ_max1 (st_next_seq st)\<rparr>" by simp
    ultimately have r: "r = RespFull lane p" "st' = st\<lparr>st_next_seq := wrap_succ_max1 (st_next_seq st)\<rparr>"
      using ins True by (auto simp: insert_response_def)
    then show ?thesis using inv by (simp add: held_tokens_def)
  next
    case room: True
    have "store_key st (item_key x) = None" using True by (simp add: store_key_def key)
    from store_allocate_spec [OF inv fits(1) this room, of d now]
    obtain sid s st1 where al: "store_allocate st lane x d now = (Some sid, st1)" "sid_lane sid = lane"
        "store_slot st sid = None" "rs_item s = Some x" "rs_original_deadline s = d" "rs_state s = StReady"
        "store_slot (enter_table st1 x sid) = (store_slot st)(sid \<mapsto> s)"
        "store_inv (enter_table st1 x sid)" "st_shutdown st1 = st_shutdown st"
      by blast
    have r: "r = RespInserted" "st' = enter_table st1 x sid"
      using ins True al(1) by (auto simp: insert_response_def enter_table_def key)
    have "held_tokens st' = held_tokens st"
      using map_tokens_add [OF finite_store_slot al(3), of s] al(4,7) r resp
      by (cases x) (simp_all add: held_tokens_def slot_tokens_def)
    moreover have "st_shutdown st' = st_shutdown st" using al(9) by (simp add: r(2) enter_table_def)
    ultimately show ?thesis using al r True by auto
  qed
qed

section \<open>Completion\<close>

lemma complete_one_law:
  assumes inv: "store_inv st" and c: "complete_one st p r = (e, st')"
  shows "store_inv st' \<and> st_shutdown st' = st_shutdown st
    \<and> held_tokens st' + effect_tokens (case e of None \<Rightarrow> [] | Some e \<Rightarrow> [e]) = held_tokens st
    \<and> (case map_of (st_tracked st) p of
         None \<Rightarrow> e = None \<and> st' = st
       | Some sid \<Rightarrow> \<exists>s t. store_slot st sid = Some s \<and> rs_item s = Some (ItemTracked t) \<and> tracked_peer_msg_id t = p
           \<and> e = Some \<lparr>ce_peer_msg_id = p, ce_ack_tx = to_ack_tx t, ce_result = r\<rparr>
           \<and> store_slot st' = (store_slot st)(sid := None))"
proof (cases "map_of (st_tracked st) p")
  case None
  with c inv show ?thesis by (simp add: complete_one_def)
next
  case (Some sid)
  then have "store_key st (True, p) = Some sid" by (simp add: store_key_def)
  then obtain s x where s: "store_slot st sid = Some s" "rs_item s = Some x" "item_key x = (True, p)"
    unfolding store_key_iff [OF inv] by blast
  then obtain t where t: "x = ItemTracked t" "tracked_peer_msg_id t = p"
    by (cases x) (auto simp: item_key_def)
  obtain y st1 where rem: "remove_by_slot st sid = (y, st1)" by fastforce
  note law = remove_by_slot_law [OF inv rem, of r]
  have y: "y = Some (ItemTracked t)" using law s t by simp
  then have "e = Some \<lparr>ce_peer_msg_id = p, ce_ack_tx = to_ack_tx t, ce_result = r\<rparr>" "st' = st1"
    using c Some rem by (simp_all add: complete_one_def)
  moreover have "effect_tokens (effect_of r y) = {#to_ack_tx t#}" by (simp add: y effect_of_def)
  ultimately show ?thesis using law s t Some by auto
qed

lemma drop_responses_law:
  assumes "store_inv st" and "\<forall>sid \<in> set sids. \<forall>s t. store_slot st sid = Some s \<longrightarrow> rs_item s \<noteq> Some (ItemTracked t)"
  shows "store_inv (foldl (\<lambda>st sid. snd (remove_by_slot st sid)) st sids)
    \<and> held_tokens (foldl (\<lambda>st sid. snd (remove_by_slot st sid)) st sids) = held_tokens st
    \<and> store_slot (foldl (\<lambda>st sid. snd (remove_by_slot st sid)) st sids) = store_slot st |` (- set sids)"
  using assms
proof (induction sids arbitrary: st)
  case Nil
  then show ?case by simp
next
  case (Cons sid sids)
  obtain y st1 where rem: "remove_by_slot st sid = (y, st1)" by fastforce
  note law = remove_by_slot_law [OF Cons.prems(1) rem, of "Inr ()"]
  have inv1: "store_inv st1" and slot1: "store_slot st1 = (store_slot st)(sid := None)" using law by blast+
  have "effect_of (Inr ()) y = []"
    using law Cons.prems(2) by (cases "store_slot st sid") (auto simp: effect_of_def split: option.splits retained_item.splits)
  moreover have "held_tokens st1 + effect_tokens (effect_of (Inr ()) y) = held_tokens st" using law by blast
  ultimately have held1: "held_tokens st1 = held_tokens st" by simp
  have "\<forall>a \<in> set sids. \<forall>s t. store_slot st1 a = Some s \<longrightarrow> rs_item s \<noteq> Some (ItemTracked t)"
    using Cons.prems(2) by (auto simp: slot1)
  from Cons.IH [OF inv1 this] rem held1 show ?case
    by (auto simp: slot1 restrict_map_def fun_eq_iff)
qed

lemma response_slots:
  assumes inv: "store_inv st" and sid: "sid \<in> set (map snd (st_responses st))" and s: "store_slot st sid = Some s"
  shows "rs_item s \<noteq> Some (ItemTracked t)"
proof -
  obtain p where p: "(p, sid) \<in> set (st_responses st)" using sid by auto
  have "distinct (map fst (st_responses st))" using inv by (simp add: store_inv_def tables_ok_def)
  with p have "store_key st (False, p) = Some sid" by (simp add: store_key_def)
  then obtain x where "rs_item s = Some x" "item_key x = (False, p)"
    unfolding store_key_iff [OF inv] using s by auto
  then show ?thesis by (auto simp: item_key_def)
qed

lemma set_capacities_law:
  assumes inv: "store_inv st"
    and caps: "cap_a1_ack c \<le> u64_max" "cap_a1_error c \<le> u64_max" "cap_a2 c \<le> u64_max" "cap_a3 c \<le> u64_max"
  shows "store_inv (set_capacities st c now) \<and> store_slot (set_capacities st c now) = store_slot st"
proof -
  let ?st = "set_capacities st c now"
  have lane: "\<exists>n \<le> u64_max. store_lane ?st a = set_target_capacity (store_lane st a) n now" for a
    using caps by (cases a) (auto simp: set_capacities_def)
  have inv_l: "lane_inv (store_lane st a)" "ls_lane (store_lane st a) = a" for a
    using inv by (simp_all add: store_inv_def lanes_ok_def)
  have each: "lane_inv (store_lane ?st a)" "ls_lane (store_lane ?st a) = a"
      "lane_slot (store_lane ?st a) = lane_slot (store_lane st a)" for a
    using lane [of a] set_target_capacity_spec [OF inv_l(1) [of a]] inv_l(2) [of a] by auto
  have slots: "store_slot ?st = store_slot st" by (simp add: store_slot_def fun_eq_iff each)
  have "lanes_ok ?st" using each by (simp add: lanes_ok_def)
  moreover have "same_tables st ?st" by (simp add: same_tables_def set_capacities_def)
  moreover have "same_items st ?st" by (simp add: same_items_def slots)
  ultimately show ?thesis using store_inv_same [OF inv] slots by blast
qed

section \<open>The store as a machine\<close>

datatype store_op =
    InsertAckOp peer_message_id instant instant
  | InsertErrorOp peer_message_id outbound_frame instant instant
  | InsertTrackedOp tracked_outbound instant instant
  | ClaimNextOp callis_id
  | CompleteWriteOp retained_claim bool
  | AckOp peer_message_id
  | FailOneOp peer_message_id aurelia_error
  | FailAllOp aurelia_error
  | FailNonA1Op aurelia_error
  | MarkCallisOp callis_id
  | MarkAllTrackedOp
  | MarkTrackedOp "peer_message_id list"
  | ExpireDueOp instant
  | NextDeadlineOp
  | BeginShutdownOp aurelia_error
  | DropResponsesOp
  | SetCapacitiesOp nat instant

text \<open>The new state and the completions sent, for each operation; \<open>SetCapacitiesOp\<close> takes the queue size.\<close>

fun store_run :: "retained_store \<Rightarrow> store_op \<Rightarrow> completion_effect list \<times> retained_store" where
  "store_run st (InsertAckOp p d now) = ([], snd (insert_ack st p d now))"
| "store_run st (InsertErrorOp p f d now) = ([], snd (insert_error st p f d now))"
| "store_run st (InsertTrackedOp t d now) = ([], snd (insert_tracked st t d now))"
| "store_run st (ClaimNextOp c) = ([], snd (store_claim_next st c))"
| "store_run st (CompleteWriteOp claim ok) = store_complete_write st claim ok"
| "store_run st (AckOp p) = apfst (\<lambda>e. case e of None \<Rightarrow> [] | Some e \<Rightarrow> [e]) (store_ack st p)"
| "store_run st (FailOneOp p err) = apfst (\<lambda>e. case e of None \<Rightarrow> [] | Some e \<Rightarrow> [e]) (store_fail_one st p err)"
| "store_run st (FailAllOp err) = store_fail_all st err"
| "store_run st (FailNonA1Op err) = store_fail_non_a1 st err"
| "store_run st (MarkCallisOp c) = ([], store_mark_callis_replay_ready st c)"
| "store_run st MarkAllTrackedOp = ([], store_mark_all_tracked_replay_ready st)"
| "store_run st (MarkTrackedOp ps) = ([], store_mark_tracked_replay_ready st ps)"
| "store_run st (ExpireDueOp now) = store_expire_due st now"
| "store_run st NextDeadlineOp = ([], snd (store_next_deadline st))"
| "store_run st (BeginShutdownOp err) = store_begin_shutdown st err"
| "store_run st DropResponsesOp = ([], store_drop_responses st)"
| "store_run st (SetCapacitiesOp n now) = ([], set_capacities st (from_send_queue_size (min n u64_max)) now)"

definition store_step :: "retained_store \<Rightarrow> store_op \<Rightarrow> retained_store" where
  "store_step st x = snd (store_run st x)"

definition store_effects :: "retained_store \<Rightarrow> store_op \<Rightarrow> completion_effect list" where
  "store_effects st x = fst (store_run st x)"

text \<open>The completion channel an operation brings in: that of an admitted message.\<close>

definition store_taken :: "retained_store \<Rightarrow> store_op \<Rightarrow> nat multiset" where
  "store_taken st x =
     (case x of InsertTrackedOp t d now \<Rightarrow> if fst (insert_tracked st t d now) = TrackedOk then {#to_ack_tx t#} else {#}
      | _ \<Rightarrow> {#})"

definition store_given :: "retained_store \<Rightarrow> store_op \<Rightarrow> nat multiset" where
  "store_given st x = effect_tokens (store_effects st x)"

lemma from_send_queue_size_bounds:
  "n \<le> u64_max \<Longrightarrow> cap_a1_ack (from_send_queue_size n) \<le> u64_max \<and> cap_a1_error (from_send_queue_size n) \<le> u64_max
     \<and> cap_a2 (from_send_queue_size n) \<le> u64_max \<and> cap_a3 (from_send_queue_size n) \<le> u64_max"
  by (simp add: from_send_queue_size_def Let_def A2_CAPACITY_def)

lemma store_step_law:
  assumes inv: "store_inv st"
  shows "store_inv (store_step st x)
    \<and> held_tokens (store_step st x) + store_given st x = held_tokens st + store_taken st x"
proof -
  note defs = store_step_def store_given_def store_effects_def store_taken_def
  note same = held_tokens_same
  show ?thesis
  proof (cases x)
    case (InsertAckOp p d now)
    then show ?thesis
      using insert_response_law [OF inv, of LaneA1Ack "ItemAck p" p ResponseAck d now]
      by (simp add: defs insert_ack_def response_lane_def) (metis prod.collapse)
  next
    case (InsertErrorOp p f d now)
    then show ?thesis
      using insert_response_law [OF inv, of LaneA1Error "ItemError p f" p ResponseError d now]
      by (simp add: defs insert_error_def response_lane_def) (metis prod.collapse)
  next
    case (InsertTrackedOp t d now)
    obtain r st' where "insert_tracked st t d now = (r, st')" by fastforce
    with insert_tracked_law [OF inv this] InsertTrackedOp show ?thesis by (simp add: defs)
  next
    case (ClaimNextOp c)
    obtain r st' where "store_claim_next st c = (r, st')" by fastforce
    with claim_next_law [OF inv this] same [of st st'] ClaimNextOp show ?thesis by (simp add: defs)
  next
    case (CompleteWriteOp claim ok)
    obtain es st' where "store_complete_write st claim ok = (es, st')" by fastforce
    with complete_write_law [OF inv this] CompleteWriteOp show ?thesis by (simp add: defs)
  next
    case (AckOp p)
    obtain e st' where "complete_one st p (Inr ()) = (e, st')" by fastforce
    with complete_one_law [OF inv this] AckOp show ?thesis by (simp add: defs store_ack_def)
  next
    case (FailOneOp p err)
    obtain e st' where "complete_one st p (Inl err) = (e, st')" by fastforce
    with complete_one_law [OF inv this] FailOneOp show ?thesis by (simp add: defs store_fail_one_def)
  next
    case (FailAllOp err)
    obtain es st' where "remove_slots st (map snd (st_tracked st)) (Inl err) = (es, st')" by fastforce
    with remove_slots_law [OF inv this] FailAllOp show ?thesis by (simp add: defs store_fail_all_def)
  next
    case (FailNonA1Op err)
    obtain es st' where "remove_slots st (non_a1_slots st) (Inl err) = (es, st')" by fastforce
    with remove_slots_law [OF inv this] FailNonA1Op show ?thesis by (simp add: defs store_fail_non_a1_def)
  next
    case (MarkCallisOp c)
    with mark_callis_law [OF inv, of c] same show ?thesis by (simp add: defs)
  next
    case MarkAllTrackedOp
    with mark_slots_law [OF inv] same show ?thesis by (simp add: defs store_mark_all_tracked_replay_ready_def)
  next
    case (MarkTrackedOp ps)
    with mark_slots_law [OF inv] same show ?thesis by (simp add: defs store_mark_tracked_replay_ready_def)
  next
    case (ExpireDueOp now)
    obtain es st' where "expire_keys (st_deadlines st) now st = (es, st')" by fastforce
    with expire_keys_law [OF inv refl this] ExpireDueOp show ?thesis by (simp add: defs store_expire_due_def)
  next
    case NextDeadlineOp
    obtain d st' where "store_next_deadline st = (d, st')" by fastforce
    with next_deadline_law [OF inv this] NextDeadlineOp show ?thesis by (simp add: defs held_tokens_def)
  next
    case (BeginShutdownOp err)
    let ?st = "st\<lparr>st_shutdown := True\<rparr>"
    obtain es st' where r: "remove_slots ?st (non_a1_slots ?st) (Inl err) = (es, st')" by fastforce
    have "store_inv ?st" using inv by simp
    from remove_slots_law [OF this r] r BeginShutdownOp show ?thesis
      by (simp add: defs store_begin_shutdown_def Let_def)
  next
    case DropResponsesOp
    with drop_responses_law [OF inv, of "map snd (st_responses st)"] response_slots [OF inv] show ?thesis
      by (simp add: defs store_drop_responses_def)
  next
    case (SetCapacitiesOp n now)
    have "min n u64_max \<le> u64_max" by simp
    from from_send_queue_size_bounds [OF this] set_capacities_law [OF inv] SetCapacitiesOp show ?thesis
      by (simp add: defs held_tokens_def)
  qed
qed

interpretation store: conserving_machine
  "\<lambda>st. \<exists>c now. (\<forall>lane. lane_capacity c lane \<le> u64_max) \<and> st = store_new c now"
  store_step store_inv held_tokens store_taken store_given
proof
  fix st assume "\<exists>c now. (\<forall>lane. lane_capacity c lane \<le> u64_max) \<and> st = store_new c now"
  then obtain c now where c: "\<forall>lane. lane_capacity c lane \<le> u64_max" and st: "st = store_new c now" by blast
  show "store_inv st"
    unfolding st using spec [OF c, of LaneA1Ack] spec [OF c, of LaneA1Error] spec [OF c, of LaneA2] spec [OF c, of LaneA3]
    by (intro store_inv_new(1)) simp_all
next
  fix st x assume "store_inv st"
  from store_step_law [OF this, of x] show "store_inv (store_step st x)"
    "held_tokens (store_step st x) + store_given st x = held_tokens st + store_taken st x" by blast+
qed

end
