(* ===== verification/Retained_Contract.thy ===== *)
theory Retained_Contract
  imports Retained_Dispatch
begin

text \<open>
  The contract of the retained store with the rest of the program. Seen from outside, the store is a map
  from message identifiers to pending messages and their deadlines; \<open>pending_refines\<close> shows that every
  operation acts on that map as its specification says and reports exactly the messages that leave it.
  The other theorems are about completion, claiming, callis loss, deadlines, admission and shutdown.
\<close>

section \<open>Pending messages\<close>

definition tracked_of :: "retained_slot \<Rightarrow> (tracked_outbound \<times> instant) option" where
  "tracked_of s = (case rs_item s of Some (ItemTracked t) \<Rightarrow> Some (t, rs_original_deadline s) | _ \<Rightarrow> None)"

lemma tracked_of_Some:
  "tracked_of s = Some (t, d) \<longleftrightarrow> rs_item s = Some (ItemTracked t) \<and> rs_original_deadline s = d"
  by (auto simp: tracked_of_def split: option.splits retained_item.splits)

definition slot_pending :: "retained_store \<Rightarrow> slot_id \<rightharpoonup> tracked_outbound \<times> instant" where
  "slot_pending st sid = Option.bind (store_slot st sid) tracked_of"

definition pending :: "retained_store \<Rightarrow> peer_message_id \<rightharpoonup> tracked_outbound \<times> instant" where
  "pending st p = Option.bind (map_of (st_tracked st) p) (slot_pending st)"

lemma slot_pending_Some:
  "slot_pending st sid = Some (t, d) \<longleftrightarrow>
     (\<exists>s. store_slot st sid = Some s \<and> rs_item s = Some (ItemTracked t) \<and> rs_original_deadline s = d)"
  by (auto simp: slot_pending_def bind_eq_Some_conv tracked_of_Some)

lemma tracked_slot_iff:
  "store_inv st \<Longrightarrow> map_of (st_tracked st) p = Some sid \<longleftrightarrow>
     (\<exists>t d. slot_pending st sid = Some (t, d) \<and> tracked_peer_msg_id t = p)"
proof -
  assume inv: "store_inv st"
  have "item_key x = (True, p) \<longleftrightarrow> (\<exists>t. x = ItemTracked t \<and> tracked_peer_msg_id t = p)" for x
    by (cases x) (auto simp: item_key_def)
  with store_key_iff [OF inv, of "(True, p)" sid] show ?thesis by (auto simp: store_key_def slot_pending_Some)
qed

lemma pending_Some:
  assumes "store_inv st"
  shows "pending st p = Some (t, d) \<longleftrightarrow> (\<exists>sid. slot_pending st sid = Some (t, d) \<and> tracked_peer_msg_id t = p)"
proof
  assume "pending st p = Some (t, d)"
  then obtain sid where s: "map_of (st_tracked st) p = Some sid" "slot_pending st sid = Some (t, d)"
    by (auto simp: pending_def bind_eq_Some_conv)
  then show "\<exists>sid. slot_pending st sid = Some (t, d) \<and> tracked_peer_msg_id t = p"
    using tracked_slot_iff [OF assms, of p sid] by auto
next
  assume "\<exists>sid. slot_pending st sid = Some (t, d) \<and> tracked_peer_msg_id t = p"
  then obtain sid where s: "slot_pending st sid = Some (t, d)" "tracked_peer_msg_id t = p" by blast
  then have "map_of (st_tracked st) p = Some sid" using tracked_slot_iff [OF assms] by blast
  with s show "pending st p = Some (t, d)" by (simp add: pending_def)
qed

lemma pending_domain: "store_inv st \<Longrightarrow> pending st p = None \<longleftrightarrow> map_of (st_tracked st) p = None"
proof -
  assume inv: "store_inv st"
  have "pending st p \<noteq> None" if "map_of (st_tracked st) p = Some sid" for sid
    using that tracked_slot_iff [OF inv, of p sid] by (auto simp: pending_def)
  then show ?thesis by (cases "map_of (st_tracked st) p") (auto simp: pending_def)
qed

lemma pending_msg_id: "store_inv st \<Longrightarrow> pending st p = Some (t, d) \<Longrightarrow> tracked_peer_msg_id t = p"
  by (auto simp: pending_Some)

text \<open>Keeping the messages that satisfy a condition.\<close>

definition keep_pending :: "(tracked_outbound \<times> instant \<Rightarrow> bool) \<Rightarrow> ('k \<rightharpoonup> tracked_outbound \<times> instant) \<Rightarrow> 'k \<rightharpoonup> tracked_outbound \<times> instant" where
  "keep_pending keep m k = (case m k of None \<Rightarrow> None | Some v \<Rightarrow> if keep v then Some v else None)"

lemma keep_pending_Some: "keep_pending keep m k = Some v \<longleftrightarrow> m k = Some v \<and> keep v"
  by (auto simp: keep_pending_def split: option.splits)

lemma keep_pending_True [simp]: "keep_pending (\<lambda>_. True) m = m"
  by (auto simp: keep_pending_def fun_eq_iff split: option.splits)

lemma pending_filter:
  assumes "store_inv st" and "store_inv st'" and slots: "slot_pending st' = keep_pending keep (slot_pending st)"
  shows "pending st' = keep_pending keep (pending st)"
proof
  fix p
  have "pending st' p = Some (t, d) \<longleftrightarrow> keep_pending keep (pending st) p = Some (t, d)" for t d
    unfolding keep_pending_Some pending_Some [OF assms(1)] pending_Some [OF assms(2)] slots by blast
  then show "pending st' p = keep_pending keep (pending st) p" by (metis option.exhaust surj_pair)
qed

lemma slot_pending_same_items:
  assumes "same_items st st'"
  shows "slot_pending st' = slot_pending st"
proof
  fix sid
  have "map_option slot_core (store_slot st' sid) = map_option slot_core (store_slot st sid)"
    using assms by (simp add: same_items_def)
  then show "slot_pending st' sid = slot_pending st sid"
    by (cases "store_slot st sid"; cases "store_slot st' sid")
      (auto simp: slot_pending_def tracked_of_def slot_core_def split: option.splits retained_item.splits)
qed

section \<open>Completions\<close>

definition tracked_effect :: "unit result \<Rightarrow> tracked_outbound \<Rightarrow> completion_effect" where
  "tracked_effect r t = \<lparr>ce_peer_msg_id = tracked_peer_msg_id t, ce_ack_tx = to_ack_tx t, ce_result = r\<rparr>"

text \<open>The completions owed for the slots that one store has and the other no longer has.\<close>

definition owed :: "unit result \<Rightarrow> retained_store \<Rightarrow> retained_store \<Rightarrow> completion_effect set" where
  "owed r st st' = {tracked_effect r t |t sid d. slot_pending st sid = Some (t, d) \<and> store_slot st' sid = None}"

lemma owed_step:
  assumes rem: "store_inv st" "remove_by_slot st sid = (x, st1)" and sub: "store_slot st' \<subseteq>\<^sub>m store_slot st1"
  shows "owed r st st' = set (effect_of r x) \<union> owed r st1 st'"
proof -
  have slot1: "store_slot st1 = (store_slot st)(sid := None)" and x: "x = Option.bind (store_slot st sid) rs_item"
    using remove_by_slot_law [OF rem, of r] by blast+
  have eff: "set (effect_of r x) = {tracked_effect r t |t d. slot_pending st sid = Some (t, d)}"
    by (cases "store_slot st sid")
      (auto simp: x effect_of_def tracked_effect_def slot_pending_def tracked_of_def split: option.splits retained_item.splits)
  have gone: "store_slot st' sid = None"
    using sub slot1 by (auto simp: map_le_def dom_def)
  have other: "slot_pending st1 a = (if a = sid then None else slot_pending st a)" for a
    by (simp add: slot_pending_def slot1)
  have "(\<exists>a. slot_pending st a = Some (t, d) \<and> store_slot st' a = None) \<longleftrightarrow>
      slot_pending st sid = Some (t, d) \<or> (\<exists>a. slot_pending st1 a = Some (t, d) \<and> store_slot st' a = None)" for t d
    unfolding other using gone by (metis option.distinct(1))
  then show ?thesis unfolding owed_def eff by blast
qed

lemma remove_slots_owed:
  "store_inv st \<Longrightarrow> remove_slots st sids r = (es, st') \<Longrightarrow> set es = owed r st st' \<and> store_slot st' \<subseteq>\<^sub>m store_slot st"
proof (induction sids arbitrary: st es)
  case Nil
  then show ?case by (auto simp: owed_def slot_pending_Some)
next
  case (Cons sid sids)
  obtain x st1 where rem: "remove_by_slot st sid = (x, st1)" by fastforce
  obtain fs where rest: "remove_slots st1 sids r = (fs, st')" and es: "es = effect_of r x @ fs"
    using Cons.prems(2) rem by (auto split: prod.splits)
  note law = remove_by_slot_law [OF Cons.prems(1) rem, of r]
  then have IH: "set fs = owed r st1 st'" "store_slot st' \<subseteq>\<^sub>m store_slot st1" using Cons.IH rest by blast+
  have "store_slot st1 \<subseteq>\<^sub>m store_slot st" using law by (auto simp: map_le_def)
  with owed_step [OF Cons.prems(1) rem IH(2), of r] IH es show ?case by (auto intro: map_le_trans)
qed

lemma expire_keys_owed:
  "store_inv st \<Longrightarrow> expire_keys keys now st = (es, st') \<Longrightarrow>
     set es = owed (Inl (err_new SendTimeout)) st st' \<and> store_slot st' \<subseteq>\<^sub>m store_slot st"
proof (induction keys arbitrary: st es)
  case Nil
  then show ?case by (auto simp: owed_def slot_pending_Some)
next
  case (Cons key keys)
  consider "now < dk_deadline key" | "\<not> now < dk_deadline key" "\<not> key_live st key"
    | "\<not> now < dk_deadline key" "key_live st key" by blast
  then show ?case
  proof cases
    case 1
    with Cons.prems show ?thesis by (auto simp: owed_def slot_pending_Some)
  next
    case 2
    with Cons show ?thesis by simp
  next
    case 3
    obtain x st1 where rem: "remove_by_slot st (dk_slot key) = (x, st1)" by fastforce
    obtain fs where rest: "expire_keys keys now st1 = (fs, st')"
      and es: "es = effect_of (Inl (err_new SendTimeout)) x @ fs"
      using Cons.prems(2) 3 rem by (auto split: prod.splits)
    note law = remove_by_slot_law [OF Cons.prems(1) rem, of "Inl (err_new SendTimeout)"]
    then have IH: "set fs = owed (Inl (err_new SendTimeout)) st1 st'" "store_slot st' \<subseteq>\<^sub>m store_slot st1"
      using Cons.IH rest by blast+
    have "store_slot st1 \<subseteq>\<^sub>m store_slot st" using law by (auto simp: map_le_def)
    with owed_step [OF Cons.prems(1) rem IH(2)] IH es show ?thesis by (auto intro: map_le_trans)
  qed
qed


section \<open>The specification\<close>

fun op_keeps :: "store_op \<Rightarrow> tracked_outbound \<times> instant \<Rightarrow> bool" where
  "op_keeps (AckOp p) (t, d) \<longleftrightarrow> tracked_peer_msg_id t \<noteq> p"
| "op_keeps (FailOneOp p _) (t, d) \<longleftrightarrow> tracked_peer_msg_id t \<noteq> p"
| "op_keeps (FailAllOp _) (t, d) \<longleftrightarrow> False"
| "op_keeps (FailNonA1Op _) (t, d) \<longleftrightarrow> False"
| "op_keeps (BeginShutdownOp _) (t, d) \<longleftrightarrow> False"
| "op_keeps (ExpireDueOp now) (t, d) \<longleftrightarrow> now < d"
| "op_keeps _ (t, d) \<longleftrightarrow> True"

fun op_result :: "store_op \<Rightarrow> unit result" where
  "op_result (FailOneOp _ err) = Inl err"
| "op_result (FailAllOp err) = Inl err"
| "op_result (FailNonA1Op err) = Inl err"
| "op_result (BeginShutdownOp err) = Inl err"
| "op_result (ExpireDueOp _) = Inl (err_new SendTimeout)"
| "op_result _ = Inr ()"

definition op_admits :: "retained_store \<Rightarrow> store_op \<Rightarrow> (tracked_outbound \<times> instant) option" where
  "op_admits st x =
     (case x of InsertTrackedOp t d now \<Rightarrow> if fst (insert_tracked st t d now) = TrackedOk then Some (t, d) else None
      | _ \<Rightarrow> None)"

text \<open>The pending map after an operation: the kept messages and the admitted one.\<close>

definition pending_after ::
  "store_op \<Rightarrow> (tracked_outbound \<times> instant) option \<Rightarrow> (peer_message_id \<rightharpoonup> tracked_outbound \<times> instant)
     \<Rightarrow> peer_message_id \<rightharpoonup> tracked_outbound \<times> instant" where
  "pending_after x admitted m =
     (case admitted of None \<Rightarrow> keep_pending (op_keeps x) m
      | Some (t, d) \<Rightarrow> (keep_pending (op_keeps x) m)(tracked_peer_msg_id t \<mapsto> (t, d)))"

lemma tracked_slots_iff:
  assumes "store_inv st"
  shows "sid \<in> set (map snd (st_tracked st)) \<longleftrightarrow> slot_pending st sid \<noteq> None"
proof -
  have "distinct (map fst (st_tracked st))" using assms by (simp add: store_inv_def tables_ok_def)
  then have "sid \<in> set (map snd (st_tracked st)) \<longleftrightarrow> (\<exists>p. map_of (st_tracked st) p = Some sid)"
    by force
  then show ?thesis unfolding tracked_slot_iff [OF assms] by auto
qed

lemma non_a1_slots_eq: "store_inv st \<Longrightarrow> non_a1_slots st = map snd (st_tracked st)"
proof -
  assume inv: "store_inv st"
  have "\<not> (sid_lane sid = LaneA1Ack \<or> sid_lane sid = LaneA1Error)" if sid: "sid \<in> set (map snd (st_tracked st))" for sid
  proof -
    obtain t d where "slot_pending st sid = Some (t, d)"
      using sid unfolding tracked_slots_iff [OF inv] by auto
    then obtain s where s: "store_slot st sid = Some s" "rs_item s = Some (ItemTracked t)"
      by (auto simp: slot_pending_Some)
    from store_slot_ok [OF inv s] have "fits_lane (sid_lane sid) (ItemTracked t)" by blast
    from tracked_lane_open [OF this] show ?thesis by (simp add: response_lane_def)
  qed
  then show ?thesis unfolding non_a1_slots_def by (intro filter_True) blast
qed

lemma slot_pending_restrict:
  "store_slot st' = store_slot st |` A \<Longrightarrow> slot_pending st' sid = (if sid \<in> A then slot_pending st sid else None)"
  by (simp add: slot_pending_def restrict_map_def)

text \<open>Removing every tracked slot.\<close>

lemma remove_tracked_law:
  assumes inv: "store_inv st" and r: "remove_slots st (map snd (st_tracked st)) r = (es, st')"
  shows "store_inv st' \<and> slot_pending st' = Map.empty \<and> set es = owed r st st' \<and> st_shutdown st' = st_shutdown st
    \<and> (\<forall>sid. slot_pending st sid = None \<longrightarrow> store_slot st' sid = store_slot st sid)"
proof -
  note law = remove_slots_law [OF inv r]
  have "slot_pending st' sid = None" for sid
    using slot_pending_restrict [of st' st "- set (map snd (st_tracked st))" sid] law tracked_slots_iff [OF inv, of sid]
    by (cases "slot_pending st sid") auto
  moreover have "store_slot st' sid = store_slot st sid" if "slot_pending st sid = None" for sid
  proof -
    have "sid \<notin> set (map snd (st_tracked st))" using tracked_slots_iff [OF inv, of sid] that by simp
    then show ?thesis using law by simp
  qed
  ultimately show ?thesis using law remove_slots_owed [OF inv r] by auto
qed

text \<open>What the refinement states of one operation.\<close>

definition refines_op :: "retained_store \<Rightarrow> store_op \<Rightarrow> bool" where
  "refines_op st x \<longleftrightarrow> pending (store_step st x) = pending_after x (op_admits st x) (pending st)
     \<and> set (store_effects st x) = {tracked_effect (op_result x) t |t p d. pending st p = Some (t, d) \<and> \<not> op_keeps x (t, d)}"

lemma refines_filter:
  assumes inv: "store_inv st" and step: "store_run st x = (es, st')" and "op_admits st x = None"
    and slots: "slot_pending st' = keep_pending (op_keeps x) (slot_pending st)"
    and es: "set es = {tracked_effect (op_result x) t |t sid d. slot_pending st sid = Some (t, d) \<and> \<not> op_keeps x (t, d)}"
  shows "refines_op st x"
proof -
  have st': "store_step st x = st'" "store_effects st x = es" using step by (simp_all add: store_step_def store_effects_def)
  have "store_inv st'" using store_step_law [OF inv, of x] st' by simp
  from pending_filter [OF inv this slots] assms(3) es show ?thesis
    by (auto simp: refines_op_def st' pending_after_def pending_Some [OF inv])
qed

lemma refines_same_items:
  assumes "store_inv st" and "store_run st x = ([], st')" and "op_admits st x = None"
    and "slot_pending st' = slot_pending st" and keeps: "\<And>t d. op_keeps x (t, d)"
  shows "refines_op st x"
proof (rule refines_filter [OF assms(1-3)])
  have "op_keeps x = (\<lambda>_. True)" using keeps by auto
  then show "slot_pending st' = keep_pending (op_keeps x) (slot_pending st)" using assms(4) by simp
  show "set [] = {tracked_effect (op_result x) t |t sid d. slot_pending st sid = Some (t, d) \<and> \<not> op_keeps x (t, d)}"
    using keeps by simp
qed


lemma refines_insert:
  assumes inv: "store_inv st"
  shows "refines_op st (InsertTrackedOp t d now)"
proof -
  obtain r st' where ins: "insert_tracked st t d now = (r, st')" by fastforce
  note law = insert_tracked_law [OF inv ins]
  show ?thesis
  proof (cases "r = TrackedOk")
    case False
    with law ins inv show ?thesis
      by (intro refines_same_items [of st _ st]) (auto simp: op_admits_def)
  next
    case True
    with law obtain sid s where s: "store_slot st sid = None" "rs_item s = Some (ItemTracked t)"
        "rs_original_deadline s = d" "store_slot st' = (store_slot st)(sid \<mapsto> s)" and inv': "store_inv st'" by auto
    have slots: "slot_pending st' = (slot_pending st)(sid \<mapsto> (t, d))"
      by (rule ext) (use s in \<open>simp add: slot_pending_def tracked_of_def\<close>)
    have none: "slot_pending st sid = None" using s(1) by (simp add: slot_pending_def)
    have fresh: "tracked_peer_msg_id u \<noteq> tracked_peer_msg_id t" if "slot_pending st a = Some (u, e)" for a u e
    proof
      assume eq: "tracked_peer_msg_id u = tracked_peer_msg_id t"
      have "a \<noteq> sid" using that none by auto
      then have "slot_pending st' a = Some (u, e)" "slot_pending st' sid = Some (t, d)" using that slots by auto
      then have "map_of (st_tracked st') (tracked_peer_msg_id t) = Some a"
        "map_of (st_tracked st') (tracked_peer_msg_id t) = Some sid"
        using tracked_slot_iff [OF inv'] eq by blast+
      with \<open>a \<noteq> sid\<close> show False by simp
    qed
    have "pending st' p = ((pending st)(tracked_peer_msg_id t \<mapsto> (t, d))) p" for p
    proof -
      have "pending st' p = Some (u, e) \<longleftrightarrow> ((pending st)(tracked_peer_msg_id t \<mapsto> (t, d))) p = Some (u, e)" for u e
      proof -
        have "(\<exists>a. slot_pending st' a = Some (u, e)) \<longleftrightarrow> (u, e) = (t, d) \<or> (\<exists>a. slot_pending st a = Some (u, e))"
          unfolding slots using none by (metis fun_upd_other fun_upd_same option.distinct(1) option.inject)
        then show ?thesis
          unfolding pending_Some [OF inv'] fun_upd_apply using pending_Some [OF inv, of p u e] fresh by auto
      qed
      then show ?thesis by (metis option.exhaust surj_pair)
    qed
    moreover have "op_keeps (InsertTrackedOp t d now) = (\<lambda>_. True)" by auto
    then have "keep_pending (op_keeps (InsertTrackedOp t d now)) (pending st) = pending st" by simp
    ultimately show ?thesis
      using True ins by (simp add: refines_op_def pending_after_def op_admits_def store_step_def store_effects_def ext)
  qed
qed

lemma set_case_option: "set (case e of None \<Rightarrow> [] | Some x \<Rightarrow> [x]) = {x. Some x = e}"
  by (cases e) auto

lemma refines_complete:
  assumes inv: "store_inv st" and c: "complete_one st p r = (e, st')"
  shows "slot_pending st' = keep_pending (\<lambda>(t, d). tracked_peer_msg_id t \<noteq> p) (slot_pending st)
    \<and> set (case e of None \<Rightarrow> [] | Some e \<Rightarrow> [e])
        = {tracked_effect r t |t sid d. slot_pending st sid = Some (t, d) \<and> tracked_peer_msg_id t = p}"
proof (cases "map_of (st_tracked st) p")
  case None
  then have "tracked_peer_msg_id t \<noteq> p" if "slot_pending st sid = Some (t, d)" for sid t d
    using tracked_slot_iff [OF inv, of p sid] that by auto
  with complete_one_law [OF inv c] None show ?thesis
    by (auto simp: keep_pending_def fun_eq_iff split: option.splits)
next
  case (Some sid)
  with complete_one_law [OF inv c] obtain s t where s: "store_slot st sid = Some s" "rs_item s = Some (ItemTracked t)"
      "tracked_peer_msg_id t = p" "e = Some \<lparr>ce_peer_msg_id = p, ce_ack_tx = to_ack_tx t, ce_result = r\<rparr>"
      "store_slot st' = (store_slot st)(sid := None)" by auto
  have here: "slot_pending st sid = Some (t, rs_original_deadline s)" using s(1,2) by (simp add: slot_pending_Some)
  have only: "a = sid" if "slot_pending st a = Some (u, d)" "tracked_peer_msg_id u = p" for a u d
    using that Some tracked_slot_iff [OF inv, of p a] by auto
  have "slot_pending st' a = keep_pending (\<lambda>(t, d). tracked_peer_msg_id t \<noteq> p) (slot_pending st) a" for a
  proof (cases "a = sid")
    case True
    with here s(3,5) show ?thesis by (simp add: keep_pending_def) (simp add: slot_pending_def)
  next
    case False
    then have "slot_pending st' a = slot_pending st a" by (simp add: slot_pending_def s(5))
    with only [of a] False show ?thesis by (cases "slot_pending st a") (auto simp: keep_pending_def)
  qed
  then have "slot_pending st' = keep_pending (\<lambda>(t, d). tracked_peer_msg_id t \<noteq> p) (slot_pending st)" ..
  moreover have "{tracked_effect r u |u a d. slot_pending st a = Some (u, d) \<and> tracked_peer_msg_id u = p} = {tracked_effect r t}"
  proof -
    have "slot_pending st a = Some (u, d) \<and> tracked_peer_msg_id u = p \<longleftrightarrow>
        a = sid \<and> u = t \<and> d = rs_original_deadline s" for a u d
      using only [of a u d] here s(3) by (metis option.inject prod.inject)
    then show ?thesis by simp
  qed
  ultimately show ?thesis using s(3,4) by (simp add: tracked_effect_def)
qed

lemma refines_clear:
  assumes inv: "store_inv st" and r: "remove_slots st (map snd (st_tracked st)) r = (es, st')"
  shows "slot_pending st' = Map.empty \<and> set es = {tracked_effect r t |t sid d. slot_pending st sid = Some (t, d)}"
proof -
  note law = remove_tracked_law [OF inv r]
  have "store_slot st' sid = None" if p: "slot_pending st sid = Some (t, d)" for sid t d
  proof -
    have "sid \<in> set (map snd (st_tracked st))" using tracked_slots_iff [OF inv] p by simp
    then show ?thesis using remove_slots_law [OF inv r] by simp
  qed
  then have "owed r st st' = {tracked_effect r t |t sid d. slot_pending st sid = Some (t, d)}"
    unfolding owed_def by blast
  with law show ?thesis by simp
qed

lemma refines_expire:
  assumes inv: "store_inv st" and x: "store_expire_due st now = (es, st')"
  shows "slot_pending st' = keep_pending (\<lambda>(t, d). now < d) (slot_pending st)
    \<and> set es = {tracked_effect (Inl (err_new SendTimeout)) t |t sid d. slot_pending st sid = Some (t, d) \<and> \<not> now < d}"
proof -
  have x': "expire_keys (st_deadlines st) now st = (es, st')" using x by (simp add: store_expire_due_def)
  have slots: "store_slot st' = unexpired now (store_slot st)" using expire_keys_law [OF inv refl x'] by blast
  have "slot_pending st' = keep_pending (\<lambda>(t, d). now < d) (slot_pending st)"
  proof
    fix sid
    show "slot_pending st' sid = keep_pending (\<lambda>(t, d). now < d) (slot_pending st) sid"
      by (cases "store_slot st sid")
        (auto simp: slot_pending_def slots unexpired_def keep_pending_def tracked_of_def
          split: option.splits retained_item.splits)
  qed
  moreover have "store_slot st' sid = None \<longleftrightarrow> \<not> now < d" if "slot_pending st sid = Some (t, d)" for sid t d
    using that by (auto simp: slots unexpired_def slot_pending_Some)
  then have "owed (Inl (err_new SendTimeout)) st st' =
      {tracked_effect (Inl (err_new SendTimeout)) t |t sid d. slot_pending st sid = Some (t, d) \<and> \<not> now < d}"
    unfolding owed_def by blast
  ultimately show ?thesis using expire_keys_owed [OF inv x'] by simp
qed


lemma slot_pending_shutdown [simp]: "slot_pending (st\<lparr>st_shutdown := b\<rparr>) = slot_pending st"
  by (simp add: slot_pending_def fun_eq_iff)

lemma refines_insert_response:
  assumes inv: "store_inv st" and fits: "fits_lane lane x" "response_lane lane" "item_peer_msg_id x = p"
    and ins: "insert_response st k lane p d x now = (r, st')"
  shows "slot_pending st' = slot_pending st"
proof -
  have "\<not> kind_of_item x = KindTracked" using tracked_lane_open [OF fits(1)] fits(2) by simp
  then have "tracked_of s = None" if "rs_item s = Some x" for s using that by (cases x) (auto simp: tracked_of_def)
  note plain = this
  show ?thesis
  proof (cases "r = RespInserted")
    case True
    with insert_response_law [OF inv fits ins] obtain sid s where "store_slot st sid = None" "rs_item s = Some x"
        "store_slot st' = (store_slot st)(sid \<mapsto> s)" by auto
    with plain show ?thesis by (simp add: slot_pending_def fun_eq_iff)
  next
    case False
    with insert_response_law [OF inv fits ins] show ?thesis by (simp add: slot_pending_def fun_eq_iff)
  qed
qed

lemma refines_write:
  assumes inv: "store_inv st" and w: "store_complete_write st claim ok = (es, st')"
  shows "es = [] \<and> slot_pending st' = slot_pending st"
proof -
  note law = complete_write_law [OF inv w]
  have same: "Option.bind (written c ok s) tracked_of = tracked_of s" for c s
    by (auto simp: written_def tracked_of_def split: option.splits retained_item.splits)
  show ?thesis
    using law by (auto simp: slot_pending_def fun_eq_iff same claim_current_def split: if_splits)
qed

lemma refines_op_holds:
  assumes inv: "store_inv st"
  shows "refines_op st x"
proof -
  note same = refines_same_items [OF inv] and clear = refines_filter [OF inv]
  have empty: "keep_pending (op_keeps y) m = Map.empty" if "\<And>t d. \<not> op_keeps y (t, d)" for y and m :: "slot_id \<rightharpoonup> _"
    using that by (auto simp: keep_pending_def fun_eq_iff split: option.splits)
  show ?thesis
  proof (cases x)
    case (InsertAckOp p d now)
    then show ?thesis
      using refines_insert_response [OF inv, of LaneA1Ack "ItemAck p" p ResponseAck d now]
      by (intro same [of _ "snd (store_run st x)"]) (auto simp: op_admits_def insert_ack_def response_lane_def prod_eq_iff)
  next
    case (InsertErrorOp p f d now)
    then show ?thesis
      using refines_insert_response [OF inv, of LaneA1Error "ItemError p f" p ResponseError d now]
      by (intro same [of _ "snd (store_run st x)"]) (auto simp: op_admits_def insert_error_def response_lane_def prod_eq_iff)
  next
    case (InsertTrackedOp t d now)
    then show ?thesis using refines_insert [OF inv] by simp
  next
    case (ClaimNextOp c)
    then show ?thesis
      using claim_next_law [OF inv, of c] by (intro same [of _ "snd (store_run st x)"] slot_pending_same_items) (auto simp: op_admits_def prod_eq_iff)
  next
    case (CompleteWriteOp claim ok)
    then show ?thesis
      using refines_write [OF inv, of claim ok]
      by (intro same [of _ "snd (store_run st x)"]) (auto simp: op_admits_def prod_eq_iff)
  next
    case (AckOp p)
    obtain e st' where c: "complete_one st p (Inr ()) = (e, st')" by fastforce
    have "op_keeps x = (\<lambda>(t, d). tracked_peer_msg_id t \<noteq> p)" using AckOp by auto
    with refines_complete [OF inv c] c AckOp show ?thesis
      by (intro clear [of _ "case e of None \<Rightarrow> [] | Some e \<Rightarrow> [e]" st']) (simp_all add: op_admits_def store_ack_def set_case_option)
  next
    case (FailOneOp p err)
    obtain e st' where c: "complete_one st p (Inl err) = (e, st')" by fastforce
    have "op_keeps x = (\<lambda>(t, d). tracked_peer_msg_id t \<noteq> p)" using FailOneOp by auto
    with refines_complete [OF inv c] c FailOneOp show ?thesis
      by (intro clear [of _ "case e of None \<Rightarrow> [] | Some e \<Rightarrow> [e]" st']) (simp_all add: op_admits_def store_fail_one_def set_case_option)
  next
    case (FailAllOp err)
    obtain es st' where r: "remove_slots st (map snd (st_tracked st)) (Inl err) = (es, st')" by fastforce
    with refines_clear [OF inv r] empty [of x] FailAllOp show ?thesis
      by (intro clear [of _ es st']) (simp_all add: op_admits_def store_fail_all_def)
  next
    case (FailNonA1Op err)
    obtain es st' where r: "remove_slots st (map snd (st_tracked st)) (Inl err) = (es, st')" by fastforce
    with refines_clear [OF inv r] empty [of x] FailNonA1Op show ?thesis
      by (intro clear [of _ es st']) (simp_all add: op_admits_def store_fail_non_a1_def non_a1_slots_eq [OF inv])
  next
    case (MarkCallisOp c)
    with mark_callis_law [OF inv, of c] show ?thesis
      by (intro same slot_pending_same_items) (auto simp: op_admits_def)
  next
    case MarkAllTrackedOp
    with mark_slots_law [OF inv] show ?thesis
      by (intro same slot_pending_same_items) (auto simp: op_admits_def store_mark_all_tracked_replay_ready_def)
  next
    case (MarkTrackedOp ps)
    with mark_slots_law [OF inv] show ?thesis
      by (intro same slot_pending_same_items) (auto simp: op_admits_def store_mark_tracked_replay_ready_def)
  next
    case (ExpireDueOp now)
    obtain es st' where e: "store_expire_due st now = (es, st')" by fastforce
    have "op_keeps x = (\<lambda>(t, d). now < d)" using ExpireDueOp by auto
    with refines_expire [OF inv e] e ExpireDueOp show ?thesis
      by (intro clear [of _ es st']) (simp_all add: op_admits_def)
  next
    case NextDeadlineOp
    obtain d st' where n: "store_next_deadline st = (d, st')" by fastforce
    then have "slot_pending st' = slot_pending st"
      using next_deadline_law [OF inv n] by (simp add: slot_pending_def fun_eq_iff)
    with NextDeadlineOp n show ?thesis by (intro same [of _ st']) (auto simp: op_admits_def)
  next
    case (BeginShutdownOp err)
    let ?st = "st\<lparr>st_shutdown := True\<rparr>"
    have inv': "store_inv ?st" using inv by simp
    obtain es st' where r: "remove_slots ?st (map snd (st_tracked ?st)) (Inl err) = (es, st')" by fastforce
    with refines_clear [OF inv' r] empty [of x] BeginShutdownOp show ?thesis
      by (intro clear [of _ es st'])
        (simp_all add: op_admits_def store_begin_shutdown_def Let_def non_a1_slots_eq [OF inv'])
  next
    case DropResponsesOp
    let ?sids = "map snd (st_responses st)" and ?st' = "store_drop_responses st"
    have law: "store_slot ?st' = store_slot st |` (- set ?sids)"
      using drop_responses_law [OF inv, of ?sids] response_slots [OF inv] by (simp add: store_drop_responses_def)
    have "slot_pending st sid = None" if "sid \<in> set ?sids" for sid
      using response_slots [OF inv that] slot_pending_Some [of st sid] by (metis option.exhaust surj_pair)
    then have "slot_pending ?st' = slot_pending st" using slot_pending_restrict [OF law] by auto
    with DropResponsesOp show ?thesis by (intro same [of _ ?st']) (auto simp: op_admits_def)
  next
    case (SetCapacitiesOp n now)
    have "min n u64_max \<le> u64_max" by simp
    from from_send_queue_size_bounds [OF this] set_capacities_law [OF inv] SetCapacitiesOp show ?thesis
      by (intro same [of _ "snd (store_run st x)"]) (auto simp: op_admits_def slot_pending_def fun_eq_iff)
  qed
qed


section \<open>The contract\<close>

definition reachable_store :: "retained_store \<Rightarrow> bool" where
  "reachable_store st \<longleftrightarrow>
     (\<exists>c now ops. (\<forall>lane. lane_capacity c lane \<le> u64_max) \<and> st = foldl store_step (store_new c now) ops)"

lemma reachable_inv: "reachable_store st \<Longrightarrow> store_inv st"
  unfolding reachable_store_def using store.invar_reachable by blast

lemma lane_empty_iff: "lane_inv l \<Longrightarrow> ls_live_count l = 0 \<longleftrightarrow> lane_slot l = Map.empty"
  by (auto simp: lane_inv_def lane_slot_def fun_eq_iff filter_empty_conv all_set_conv_all_nth split: if_splits)

lemma store_empty_iff:
  assumes "store_inv st"
  shows "store_is_empty st \<longleftrightarrow> store_slot st = Map.empty"
proof -
  have lane: "lane_inv (store_lane st a)" for a using assms by (simp add: store_inv_def lanes_ok_def)
  have "store_is_empty st \<longleftrightarrow> (\<forall>a. ls_live_count (store_lane st a) = 0)"
    by (simp add: store_is_empty_def) (metis retained_lane.exhaust store_lane.simps)
  also have "\<dots> \<longleftrightarrow> (\<forall>a. lane_slot (store_lane st a) = Map.empty)" using lane_empty_iff [OF lane] by simp
  also have "\<dots> \<longleftrightarrow> store_slot st = Map.empty"
    unfolding store_slot_def fun_eq_iff by (metis slot_id.select_convs)
  finally show ?thesis .
qed

lemma held_none: "store_slot st = Map.empty \<Longrightarrow> held_tokens st = {#}"
  by (simp add: held_tokens_def map_tokens_def)

lemma slot_at_slot: "slot_pending st sid = Some (t, d) \<longleftrightarrow>
    (\<exists>s. slot_at st sid = Some s \<and> rs_item s = Some (ItemTracked t) \<and> rs_original_deadline s = d)"
  by (auto simp: slot_pending_Some slot_at_def store_slot_def lane_slot_def Let_def)

lemma message_at_pending: "message_at st sid = map_option (to_message \<circ> fst) (slot_pending st sid)"
proof (cases "slot_pending st sid")
  case None
  then have "\<not> (\<exists>s t. slot_at st sid = Some s \<and> rs_item s = Some (ItemTracked t))"
    using slot_at_slot [of st sid] by auto
  with None show ?thesis by (auto simp: message_at_def split: option.splits retained_item.splits)
next
  case (Some td)
  then show ?thesis using slot_at_slot [of st sid "fst td" "snd td"] by (auto simp: message_at_def)
qed

lemma store_message_pending: "store_message st p = map_option (to_message \<circ> fst) (pending st p)"
  by (cases "map_of (st_tracked st) p") (simp_all add: store_message_def pending_def message_at_pending)

lemma store_deadline_pending:
  assumes "store_inv st"
  shows "store_deadline st p = map_option snd (pending st p)"
proof (cases "map_of (st_tracked st) p")
  case (Some sid)
  then obtain t d where "slot_pending st sid = Some (t, d)" using tracked_slot_iff [OF assms, of p sid] by auto
  moreover from this obtain s where "slot_at st sid = Some s" "rs_original_deadline s = d" by (auto simp: slot_at_slot)
  ultimately show ?thesis using Some by (simp add: store_deadline_def store_slot_ref_def pending_def)
qed (simp add: store_deadline_def store_slot_ref_def pending_def)

lemma no_error_responses:
  assumes inv: "store_inv st"
  shows "a1_error_response_count st = 0 \<longleftrightarrow> lane_slot (store_lane st LaneA1Error) = Map.empty"
proof -
  have dist: "distinct (map fst (st_responses st))" using inv by (simp add: store_inv_def tables_ok_def)
  have "a1_error_response_count st \<noteq> 0 \<longleftrightarrow> (\<exists>p sid. map_of (st_responses st) p = Some sid \<and> sid_lane sid = LaneA1Error)"
    using dist by (force simp: a1_error_response_count_def filter_empty_conv)
  also have "\<dots> \<longleftrightarrow> (\<exists>sid s. store_slot st sid = Some s \<and> sid_lane sid = LaneA1Error)"
  proof
    assume "\<exists>p sid. map_of (st_responses st) p = Some sid \<and> sid_lane sid = LaneA1Error"
    then obtain p sid where p: "store_key st (False, p) = Some sid" "sid_lane sid = LaneA1Error"
      by (auto simp: store_key_def)
    then show "\<exists>sid s. store_slot st sid = Some s \<and> sid_lane sid = LaneA1Error"
      unfolding store_key_iff [OF inv] by blast
  next
    assume "\<exists>sid s. store_slot st sid = Some s \<and> sid_lane sid = LaneA1Error"
    then obtain sid s where s: "store_slot st sid = Some s" "sid_lane sid = LaneA1Error" by blast
    obtain x where x: "rs_item s = Some x" using store_slot_item [OF s(1)] by blast
    from store_slot_ok [OF inv s(1) x] s(2) have "item_key x = (False, item_peer_msg_id x)"
      by (cases x) (auto simp: item_key_def)
    then have "store_key st (False, item_peer_msg_id x) = Some sid"
      unfolding store_key_iff [OF inv] using s(1) x by blast
    then show "\<exists>p sid. map_of (st_responses st) p = Some sid \<and> sid_lane sid = LaneA1Error"
      using s(2) by (auto simp: store_key_def)
  qed
  also have "\<dots> \<longleftrightarrow> lane_slot (store_lane st LaneA1Error) \<noteq> Map.empty"
    unfolding store_slot_def fun_eq_iff by (metis not_None_eq slot_id.select_convs)
  finally show ?thesis by blast
qed

lemma pending_none_slots:
  assumes inv: "store_inv st" and none: "slot_pending st = Map.empty" and s: "store_slot st sid = Some s"
  shows "response_lane (sid_lane sid)"
proof -
  obtain x where x: "rs_item s = Some x" using store_slot_item [OF s] by blast
  have "\<not> kind_of_item x = KindTracked"
    using fun_cong [OF none, of sid] s x by (cases x) (auto simp: slot_pending_def tracked_of_def)
  then show ?thesis using tracked_lane_open [of "sid_lane sid" x] store_slot_ok [OF inv s x] by simp
qed

lemma responses_empty_iff:
  assumes inv: "store_inv st" and none: "slot_pending st = Map.empty"
  shows "response_lanes_empty st \<longleftrightarrow> store_is_empty st"
proof -
  have lane: "lane_inv (store_lane st a)" for a using inv by (simp add: store_inv_def lanes_ok_def)
  have "response_lanes_empty st \<longleftrightarrow> (\<forall>a. response_lane a \<longrightarrow> lane_slot (store_lane st a) = Map.empty)"
    using lane_empty_iff [OF lane, of LaneA1Ack] no_error_responses [OF inv]
    by (auto simp: response_lanes_empty_def response_lane_def)
  also have "\<dots> \<longleftrightarrow> store_slot st = Map.empty"
    using pending_none_slots [OF inv none] unfolding store_slot_def fun_eq_iff
    by (metis not_None_eq slot_id.select_convs)
  finally show ?thesis using store_empty_iff [OF inv] by simp
qed

abbreviation completed :: "retained_store \<Rightarrow> store_op list \<Rightarrow> nat multiset" where
  "completed st ops \<equiv> total_over store_step store_given st ops"

abbreviation admitted :: "retained_store \<Rightarrow> store_op list \<Rightarrow> nat multiset" where
  "admitted st ops \<equiv> total_over store_step store_taken st ops"

text \<open>
  C8. Every message the store admits is completed exactly once. Over any sequence of operations the
  completion channels used so far, together with those of the messages still held, are exactly the
  channels that were admitted; so no channel is used more often than it was admitted, and once the
  store is empty each admitted message has received its one completion.
\<close>

theorem completed_exactly_once:
  assumes "\<forall>lane. lane_capacity c lane \<le> u64_max" and "st0 = store_new c now" and "st = foldl store_step st0 ops"
  shows "held_tokens st + completed st0 ops = admitted st0 ops \<and> completed st0 ops \<subseteq># admitted st0 ops
    \<and> (store_is_empty st \<longrightarrow> completed st0 ops = admitted st0 ops)"
proof -
  have inv0: "store_inv st0" using store.invar_start assms(1,2) by blast
  have empty0: "held_tokens st0 = {#}"
    unfolding assms(2) using assms(1) by (intro held_none store_inv_new(2)) (metis lane_capacity.simps)+
  have eq: "held_tokens st + completed st0 ops = admitted st0 ops"
    using store.conserve_run [OF inv0, of ops] empty0 assms(3) by simp
  then have "completed st0 ops \<subseteq># admitted st0 ops" by (metis mset_subset_eq_add_right)
  moreover have "completed st0 ops = admitted st0 ops" if "store_is_empty st"
  proof -
    have "store_inv st" unfolding assms(3) by (rule store.invar_run [OF inv0])
    with that have "held_tokens st = {#}" using store_empty_iff held_none by blast
    with eq show ?thesis by simp
  qed
  ultimately show ?thesis using eq by blast
qed

text \<open>
  C3. The store implements its specification: seen as a map from message identifiers to pending
  messages, every operation keeps exactly the messages its specification keeps, adds the one it admits,
  and reports as completed, with the specified result, exactly the messages that left the map.
\<close>

theorem pending_refines:
  assumes "reachable_store st"
  shows "pending (store_step st x) = pending_after x (op_admits st x) (pending st)
    \<and> set (store_effects st x)
      = {tracked_effect (op_result x) t |t p d. pending st p = Some (t, d) \<and> \<not> op_keeps x (t, d)}"
  using refines_op_holds [OF reachable_inv [OF assms], of x] by (simp_all add: refines_op_def)

text \<open>
  A claim is never refused while work can be dispatched, and it takes the most urgent work: no
  other waiting item of a lane open to dispatch is in a lane of higher priority, and in its lane an
  item to be replayed goes before one that was never sent. The claim names the item of its slot, and
  the slot's state is the only change.
\<close>

theorem claim_takes_most_urgent:
  assumes "reachable_store st" and "store_claim_next st callis = (c, st')"
  shows "(c = None \<longleftrightarrow> \<not> has_dispatchable_work st)
    \<and> (\<forall>d. c = Some d \<longrightarrow> (\<exists>s. claims_slot st d s st' \<and> rc_callis_id d = callis \<and> waiting s
           \<and> open_lane st (sid_lane (rc_slot d))
           \<and> (\<forall>sid t. store_slot st sid = Some t \<and> open_lane st (sid_lane sid) \<and> waiting t \<longrightarrow>
                lane_rank (sid_lane (rc_slot d)) \<le> lane_rank (sid_lane sid)
                \<and> (sid_lane sid = sid_lane (rc_slot d) \<and> claimable True (rs_state t) \<longrightarrow> claimable True (rs_state s)))))"
proof (intro conjI allI impI)
  note law = claim_next_law [OF reachable_inv [OF assms(1)] assms(2)]
  show "c = None \<longleftrightarrow> \<not> has_dispatchable_work st"
  proof (cases c)
    case (Some d)
    with law obtain s where "claims_slot st d s st'" "waiting s" "open_lane st (sid_lane (rc_slot d))" by auto
    then have "has_dispatchable_work st" unfolding has_work_iff claims_slot_def by blast
    with Some show ?thesis by simp
  qed (use law in simp)
  show "\<exists>s. claims_slot st d s st' \<and> rc_callis_id d = callis \<and> waiting s
           \<and> open_lane st (sid_lane (rc_slot d))
           \<and> (\<forall>sid t. store_slot st sid = Some t \<and> open_lane st (sid_lane sid) \<and> waiting t \<longrightarrow>
                lane_rank (sid_lane (rc_slot d)) \<le> lane_rank (sid_lane sid)
                \<and> (sid_lane sid = sid_lane (rc_slot d) \<and> claimable True (rs_state t) \<longrightarrow> claimable True (rs_state s)))"
    if that: "c = Some d" for d
    using law unfolding that by (simp only: option.case)
qed


text \<open>What losing a callis makes of a slot outside the lane of acknowledgements, and of its late writes.\<close>

lemma sweep_state_eq:
  assumes inv: "store_inv st" and s: "store_slot st sid = Some s"
  shows "sweep_state a s = (if rs_state s = StWriting a \<or> rs_state s = StInflight a
      then if response_lane (sid_lane sid) then StReady else StReplayReady a else rs_state s)"
proof -
  obtain x where x: "rs_item s = Some x" using store_slot_item [OF s] by blast
  from store_slot_ok [OF inv s x] tracked_lane_open [of "sid_lane sid" x] x show ?thesis
    by (cases x) (auto simp: sweep_state_def state_fits_def)
qed

lemma lost_claim_stale:
  assumes inv: "store_inv st" and c: "rc_callis_id claim = a" "sid_lane (rc_slot claim) \<noteq> LaneA1Ack"
  shows "\<not> claim_current (store_mark_callis_replay_ready st a) claim s"
proof
  assume cur: "claim_current (store_mark_callis_replay_ready st a) claim s"
  then obtain s0 where "store_slot st (rc_slot claim) = Some s0" "s = sweep a s0"
    using mark_callis_law [OF inv, of a] c(2) by (auto simp: claim_current_def)
  with sweep_state_eq [OF inv, of "rc_slot claim" s0 a] cur c show False
    by (auto simp: claim_current_def sweep_def split: if_splits)
qed

lemma stale_claim_stays:
  assumes inv: "store_inv st" and stale: "\<And>s. \<not> claim_current st claim s" and b: "b \<noteq> rc_callis_id claim"
    and c: "store_claim_next st b = (c, st')"
  shows "\<not> claim_current st' claim s"
proof
  assume cur: "claim_current st' claim s"
  note claim = claim_next_law [OF inv c]
  show False
  proof (cases c)
    case None
    then have "store_slot st' = store_slot st" using claim by simp
    with cur stale [of s] show False by (simp add: claim_current_def)
  next
    case (Some d)
    with claim obtain u where u: "store_slot st' = (store_slot st)(rc_slot d \<mapsto> u\<lparr>rs_state := StWriting b\<rparr>)"
      by (auto simp: claims_slot_def)
    with cur stale [of s] b show False by (auto simp: claim_current_def split: if_splits)
  qed
qed

text \<open>
  When a callis is lost, every message it was writing or had sent goes back to be replayed and every
  error response it was writing goes back to be sent, with their content and deadline; nothing else
  moves, and a write that ends afterwards changes nothing, also when another callis has claimed the
  item meanwhile.
\<close>

theorem callis_loss_requeues:
  assumes "reachable_store st" and "st' = store_mark_callis_replay_ready st a"
  shows "(\<forall>sid s. store_slot st sid = Some s \<and> sid_lane sid \<noteq> LaneA1Ack \<longrightarrow>
           (if rs_state s = StWriting a \<or> rs_state s = StInflight a
            then store_slot st' sid = Some (s\<lparr>rs_state := if response_lane (sid_lane sid) then StReady else StReplayReady a\<rparr>)
            else store_slot st' sid = Some s))
    \<and> pending st' = pending st \<and> st_responses st' = st_responses st
    \<and> (\<forall>claim ok. rc_callis_id claim = a \<and> sid_lane (rc_slot claim) \<noteq> LaneA1Ack \<longrightarrow>
           store_complete_write st' claim ok = ([], st')
           \<and> (\<forall>b c st''. b \<noteq> a \<and> store_claim_next st' b = (c, st'') \<longrightarrow> store_complete_write st'' claim ok = ([], st'')))"
proof -
  have inv: "store_inv st" using assms(1) by (rule reachable_inv)
  note law = mark_callis_law [OF inv, of a, folded assms(2)]
  have inv': "store_inv st'" and same: "same_items st st'" using law by blast+
  have moved: "store_slot st' sid = Some (sweep a s)" if "store_slot st sid = Some s" "sid_lane sid \<noteq> LaneA1Ack" for sid s
    using law that by simp
  note state = sweep_state_eq [OF inv] and gone = lost_claim_stale [OF inv, of _ a, folded assms(2)]
  have still: "\<not> claim_current st'' claim s" if cl: "rc_callis_id claim = a" "sid_lane (rc_slot claim) \<noteq> LaneA1Ack"
      and b: "b \<noteq> a" "store_claim_next st' b = (c, st'')" for claim s b c st''
    using stale_claim_stays [OF inv' gone [OF cl] _ b(2)] cl(1) b(1) by simp
  have late: "store_complete_write st1 claim ok = ([], st1)" if "store_inv st1" "\<And>s. \<not> claim_current st1 claim s" for st1 claim ok
    using complete_write_law [OF that(1), of claim ok] that(2) by (metis surj_pair)
  have "pending st' = pending st"
    using pending_filter [OF inv inv', of "\<lambda>_. True"] slot_pending_same_items [OF same] by simp
  moreover have "st_responses st' = st_responses st" using law by (simp add: same_tables_def)
  moreover have "store_inv st''" if "store_claim_next st' b = (c, st'')" for b c st''
    using claim_next_law [OF inv' that] by blast
  ultimately show ?thesis
    using moved state late [OF inv'] late gone still by (auto simp: sweep_def)
qed


text \<open>
  C19. Deadlines fire exactly: a sweep at time \<open>now\<close> removes the items whose deadline has come and no
  others, completes each removed message with a timeout and none twice (the completion channels held
  before are those still held and those completed), and leaves a store whose next
  deadline is the least deadline of the items in it, later than \<open>now\<close>, and present whenever there
  is an item.
\<close>

theorem deadlines_fire_exactly:
  assumes "reachable_store st" and "store_expire_due st now = (es, st')" and "store_next_deadline st' = (next, st'')"
  shows "(\<forall>sid. store_slot st' sid = (case store_slot st sid of None \<Rightarrow> None
           | Some s \<Rightarrow> if rs_original_deadline s \<le> now then None else Some s))
    \<and> set es = {tracked_effect (Inl (err_new SendTimeout)) t |t p d. pending st p = Some (t, d) \<and> d \<le> now}
    \<and> held_tokens st' + effect_tokens es = held_tokens st
    \<and> (next = None \<longleftrightarrow> store_is_empty st')
    \<and> (\<forall>d. next = Some d \<longrightarrow> now < d \<and> (\<exists>sid s. store_slot st' sid = Some s \<and> rs_original_deadline s = d)
          \<and> (\<forall>sid s. store_slot st' sid = Some s \<longrightarrow> d \<le> rs_original_deadline s))
    \<and> store_slot st'' = store_slot st'"
proof -
  have inv: "store_inv st" using assms(1) by (rule reachable_inv)
  have x: "expire_keys (st_deadlines st) now st = (es, st')" using assms(2) by (simp add: store_expire_due_def)
  have inv': "store_inv st'" and slots: "store_slot st' = unexpired now (store_slot st)"
    and once: "held_tokens st' + effect_tokens es = held_tokens st"
    using expire_keys_law [OF inv refl x] by blast+
  note nd = next_deadline_law [OF inv' assms(3)]
  have es: "set es = {tracked_effect (Inl (err_new SendTimeout)) t |t p d. pending st p = Some (t, d) \<and> d \<le> now}"
    using refines_expire [OF inv assms(2)] by (auto simp: pending_Some [OF inv] not_less)
  have late: "now < rs_original_deadline s" if "store_slot st' sid = Some s" for sid s
    using that by (auto simp: slots unexpired_def split: option.splits if_splits)
  have empty: "next = None \<longleftrightarrow> store_is_empty st'"
    unfolding store_empty_iff [OF inv'] using nd by (cases "next") auto
  have exact: "store_slot st' sid = (case store_slot st sid of None \<Rightarrow> None
           | Some s \<Rightarrow> if rs_original_deadline s \<le> now then None else Some s)" for sid
    by (simp add: slots unexpired_def)
  have least: "now < d \<and> (\<exists>sid s. store_slot st' sid = Some s \<and> rs_original_deadline s = d)
          \<and> (\<forall>sid s. store_slot st' sid = Some s \<longrightarrow> d \<le> rs_original_deadline s)" if "next = Some d" for d
    using nd late unfolding that by auto
  have "store_slot st'' = store_slot st'" using nd by blast
  then show ?thesis using exact es once empty least by blast
qed

text \<open>
  Admission decides as documented and never reaches its \<open>unreachable!\<close> branches: a message is
  admitted exactly when the store is not shutting down, the deadline lies ahead, the identifier is not
  already pending, the type belongs to a lane for tracked messages and the lane has room. A refusal
  changes nothing; an admitted message can be read back with its deadline, waits to be claimed, stays
  within the lane's capacity, and disturbs no other message.
\<close>

theorem admission_decides:
  assumes "reachable_store st" and "insert_tracked st t d now = (r, st')"
  shows "r = (if st_shutdown st then TrackedErr (InsShutdown t)
         else if d \<le> now then TrackedErr (InsExpired t)
         else if contains_tracked st (tracked_peer_msg_id t) then TrackedErr (InsDuplicate t)
         else case tracked_lane (tracked_msg_type t) of
                None \<Rightarrow> TrackedErr (InsA1Tracked t)
              | Some lane \<Rightarrow> if ls_live_count (store_lane st lane) < ls_target_capacity (store_lane st lane)
                  then TrackedOk else TrackedErr (InsFull t))
    \<and> (r \<noteq> TrackedOk \<longrightarrow> st' = st)
    \<and> (r = TrackedOk \<longrightarrow> store_message st' (tracked_peer_msg_id t) = Some (to_message t)
          \<and> store_deadline st' (tracked_peer_msg_id t) = Some d \<and> has_dispatchable_work st'
          \<and> (\<forall>p. p \<noteq> tracked_peer_msg_id t \<longrightarrow> store_message st' p = store_message st p))"
proof -
  have inv: "store_inv st" using assms(1) by (rule reachable_inv)
  note law = insert_tracked_law [OF inv assms(2)]
  have none: "tracked_lane (tracked_msg_type t) = None \<longleftrightarrow> classify_priority (tracked_msg_type t) = TierA1"
    by (simp add: tracked_lane_def split: priority_tier.splits)
  have "r \<noteq> TrackedPanic" using law by blast
  with assms(2) none have decide: "r = (if st_shutdown st then TrackedErr (InsShutdown t)
         else if d \<le> now then TrackedErr (InsExpired t)
         else if contains_tracked st (tracked_peer_msg_id t) then TrackedErr (InsDuplicate t)
         else case tracked_lane (tracked_msg_type t) of
                None \<Rightarrow> TrackedErr (InsA1Tracked t)
              | Some lane \<Rightarrow> if ls_live_count (store_lane st lane) < ls_target_capacity (store_lane st lane)
                  then TrackedOk else TrackedErr (InsFull t))"
    by (auto simp: insert_tracked_def contains_tracked_def lane_available_def Let_def split: if_splits option.splits prod.splits)
  show ?thesis
  proof (cases "r = TrackedOk")
    case False
    with law decide show ?thesis by simp
  next
    case True
    have inv': "store_inv st'" using law by blast
    have "pending st' = (pending st)(tracked_peer_msg_id t \<mapsto> (t, d))"
    proof -
      have "op_keeps (InsertTrackedOp t d now) = (\<lambda>_. True)" by auto
      then have "keep_pending (op_keeps (InsertTrackedOp t d now)) (pending st) = pending st" by simp
      with refines_insert [OF inv, of t d now] assms(2) True show ?thesis
        by (simp add: refines_op_def pending_after_def op_admits_def store_step_def)
    qed
    moreover have "has_dispatchable_work st'"
    proof -
      from law True obtain sid s where "store_slot st' = (store_slot st)(sid \<mapsto> s)" "rs_state s = StReady" "\<not> st_shutdown st'"
        by auto
      then have "store_slot st' sid = Some s" "rs_state s = StReady" "\<not> st_shutdown st'" by simp_all
      then show ?thesis unfolding has_work_iff by (metis claimable_def open_lane_def waiting_def)
    qed
    ultimately show ?thesis
      using True decide by (simp add: store_message_pending store_deadline_pending [OF inv'])
  qed
qed

text \<open>
  Shutdown completes every pending message with the given error, keeps all responses, refuses
  everything that comes after, and from then on hands out responses only; the response lanes being
  drained means that the store is empty.
\<close>

theorem shutdown_contract:
  assumes "reachable_store st" and "store_begin_shutdown st err = (es, st')"
  shows "set es = {tracked_effect (Inl err) t |t p d. pending st p = Some (t, d)} \<and> (\<forall>p. \<not> contains_tracked st' p)
    \<and> (\<forall>sid s. store_slot st sid = Some s \<and> response_lane (sid_lane sid) \<longrightarrow> store_slot st' sid = Some s)
    \<and> (\<forall>t d now. insert_tracked st' t d now = (TrackedErr (InsShutdown t), st'))
    \<and> (\<forall>p d now. insert_ack st' p d now = (RespShutdown p, st'))
    \<and> (\<forall>p f d now. insert_error st' p f d now = (RespShutdown p, st'))
    \<and> (\<forall>callis c st''. store_claim_next st' callis = (Some c, st'') \<longrightarrow> response_lane (sid_lane (rc_slot c)))
    \<and> (response_lanes_empty st' \<longleftrightarrow> store_is_empty st')"
proof -
  let ?st = "st\<lparr>st_shutdown := True\<rparr>"
  have inv0: "store_inv st" using assms(1) by (rule reachable_inv)
  then have inv: "store_inv ?st" by simp
  have r: "remove_slots ?st (map snd (st_tracked ?st)) (Inl err) = (es, st')"
    using assms(2) by (simp add: store_begin_shutdown_def Let_def non_a1_slots_eq [OF inv])
  note law = remove_tracked_law [OF inv r] and clear = refines_clear [OF inv r]
  have inv': "store_inv st'" and sd: "st_shutdown st'" and none: "slot_pending st' = Map.empty" using law by simp_all
  have es: "set es = {tracked_effect (Inl err) t |t p d. pending st p = Some (t, d)}"
    using clear by (auto simp: pending_Some [OF inv0])
  have "pending st' p = None" for p using none pending_Some [OF inv', of p] by (cases "pending st' p") auto
  then have empty: "\<not> contains_tracked st' p" for p using pending_domain [OF inv'] by (simp add: contains_tracked_def)
  have kept: "store_slot st' sid = Some s" if s: "store_slot st sid = Some s" "response_lane (sid_lane sid)" for sid s
  proof -
    obtain x where x: "rs_item s = Some x" using store_slot_item [OF s(1)] by blast
    have "kind_of_item x \<noteq> KindTracked" using tracked_lane_open store_slot_ok [OF inv0 s(1) x] s(2) by blast
    then have "slot_pending ?st sid = None" using s(1) x by (cases x) (auto simp: slot_pending_def tracked_of_def)
    with law s(1) show ?thesis by simp
  qed
  have claims: "response_lane (sid_lane (rc_slot c))" if "store_claim_next st' callis = (Some c, st'')" for callis c st''
    using claim_next_law [OF inv' that] sd by (auto simp: open_lane_def)
  show ?thesis
    using es empty kept claims sd responses_empty_iff [OF inv' none]
    by (auto simp: insert_tracked_def insert_ack_def insert_error_def insert_response_def)
qed

text \<open>
  An acknowledgement being written when its callis is lost is not put back: its slot keeps the state
  of a write in progress, so no claim returns it, and it leaves the store only when its deadline passes.
\<close>

theorem ack_of_lost_callis_not_requeued:
  assumes "reachable_store st" and "store_slot st sid = Some s" and "sid_lane sid = LaneA1Ack"
    and "rs_state s = StWriting a" and "st' = store_mark_callis_replay_ready st a"
    and "store_claim_next st' b = (c, st'')"
  shows "store_slot st'' sid = Some s \<and> (\<forall>d. c = Some d \<longrightarrow> rc_slot d \<noteq> sid)
    \<and> (\<forall>now < rs_original_deadline s. store_slot (snd (store_expire_due st' now)) sid = Some s)"
proof -
  have inv: "store_inv st" using assms(1) by (rule reachable_inv)
  note law = mark_callis_law [OF inv, of a, folded assms(5)]
  have inv': "store_inv st'" using law by blast
  have here: "store_slot st' sid = Some s" using law assms(2,3) by simp
  have idle: "\<not> waiting s" using assms(4) by (simp add: waiting_def claimable_def)
  note claim = claim_next_law [OF inv' assms(6)]
  have "store_slot st'' sid = Some s \<and> (\<forall>d. c = Some d \<longrightarrow> rc_slot d \<noteq> sid)"
  proof (cases c)
    case None
    then show ?thesis using claim here by simp
  next
    case (Some d)
    with claim obtain u where u: "claims_slot st' d u st''" "waiting u" by auto
    then have "rc_slot d \<noteq> sid" using here idle by (auto simp: claims_slot_def)
    with u(1) Some here show ?thesis by (simp add: claims_slot_def)
  qed
  moreover have "store_slot (snd (store_expire_due st' now)) sid = Some s" if "now < rs_original_deadline s" for now
  proof -
    obtain es st1 where e: "expire_keys (st_deadlines st') now st' = (es, st1)" by fastforce
    then have "store_slot st1 = unexpired now (store_slot st')" using expire_keys_law [OF inv' refl e] by blast
    with e here that show ?thesis by (simp add: store_expire_due_def unexpired_def)
  qed
  ultimately show ?thesis by blast
qed


section \<open>The contract on a small store\<close>

text \<open>A store with one slot per lane, and one message sent through it.\<close>

definition sample_store :: retained_store where
  "sample_store = store_new \<lparr>cap_a1_ack = 1, cap_a1_error = 1, cap_a2 = 1, cap_a3 = 1\<rparr> 0"

definition sample_message :: tracked_outbound where
  "sample_message = \<lparr>to_message = \<lparr>pm_peer_msg_id = 5, pm_src_taberna = 1, pm_dst_taberna = 2,
     pm_msg_type = A3_MESSAGE_TYPE_BASE, pm_flags = 0, pm_payload = [1, 2]\<rparr>, to_ack_tx = 7\<rparr>"

lemmas sample_defs = sample_store_def sample_message_def

lemmas store_eval = sample_defs store_step_def store_effects_def store_given_def store_taken_def store_new_def
  lane_new_def slot_empty_def
  store_allocate_def lane_allocate_def lane_available_def occupy_slot_def insert_response_def insert_ack_def
  insert_error_def insert_tracked_def tracked_lane_def tracked_msg_type_def tracked_peer_msg_id_def
  classify_priority_def classify_message_priority_def message_type_defs
  remove_by_slot_def lane_remove_slot_def complete_one_def store_ack_def store_fail_one_def effect_of_def
  store_claim_next_def claim_lane_def claim_from_queue_def lane_claim_def claimable_def set_slot_state_def
  push_ready_def push_replay_def store_complete_write_def slot_identity_def
  store_expire_due_def key_live_def store_next_deadline_def store_is_empty_def sat_add_def wrap_succ_max1_def
  has_dispatchable_work_def lane_has_dispatchable_work_def store_slot_def lane_slot_def

lemma sample_capacities:
  "lane_capacity \<lparr>cap_a1_ack = 1, cap_a1_error = 1, cap_a2 = 1, cap_a3 = 1\<rparr> lane \<le> u64_max"
  by (cases lane) simp_all

lemma sample_reachable: "reachable_store (foldl store_step sample_store ops)"
  unfolding reachable_store_def sample_store_def using sample_capacities by blast

theorem completed_exactly_once_witness:
  "let ops = [InsertTrackedOp sample_message 10 0, ClaimNextOp 3, ExpireDueOp 11]
   in admitted sample_store ops = {#7#} \<and> completed sample_store ops = {#7#}"
proof -
  let ?ops = "[InsertTrackedOp sample_message 10 0, ClaimNextOp 3, ExpireDueOp 11]"
  have "admitted sample_store ?ops = {#7#}" by (simp add: store_eval)
  moreover have "store_is_empty (foldl store_step sample_store ?ops)" by (simp add: store_eval)
  moreover have "\<forall>lane. lane_capacity \<lparr>cap_a1_ack = 1, cap_a1_error = 1, cap_a2 = 1, cap_a3 = 1\<rparr> lane \<le> u64_max"
    using sample_capacities by blast
  from completed_exactly_once [OF this sample_store_def refl, of ?ops]
  have "store_is_empty (foldl store_step sample_store ?ops) \<longrightarrow> completed sample_store ?ops = admitted sample_store ?ops"
    by blast
  ultimately show ?thesis by simp
qed


abbreviation sample_sent :: retained_store where
  "sample_sent \<equiv> foldl store_step sample_store [InsertTrackedOp sample_message 10 0, ClaimNextOp 3]"

theorem pending_refines_witness:
  "pending (store_step sample_sent (AckOp 5)) = Map.empty \<and> set (store_effects sample_sent (AckOp 5)) =
     {\<lparr>ce_peer_msg_id = 5, ce_ack_tx = 7, ce_result = Inr ()\<rparr>}"
proof -
  have inv: "pending sample_store = Map.empty"
    by (rule ext) (simp add: pending_def sample_store_def store_new_def)
  have a: "op_admits sample_store (InsertTrackedOp sample_message 10 0) = Some (sample_message, 10)"
    by (simp add: op_admits_def store_eval)
  have p: "tracked_peer_msg_id sample_message = 5" by (simp add: sample_message_def tracked_peer_msg_id_def)
  have one: "pending (store_step sample_store (InsertTrackedOp sample_message 10 0)) = [5 \<mapsto> (sample_message, 10)]"
    using pending_refines [OF sample_reachable [of "[]"], of "InsertTrackedOp sample_message 10 0"]
    by (simp add: a inv pending_after_def p keep_pending_def fun_eq_iff)
  have two: "pending sample_sent = [5 \<mapsto> (sample_message, 10)]"
    using pending_refines [OF sample_reachable [of "[InsertTrackedOp sample_message 10 0]"], of "ClaimNextOp 3"]
    by (simp add: one op_admits_def pending_after_def keep_pending_def fun_eq_iff split: option.splits)
  define st where "st = sample_sent"
  have "reachable_store st" unfolding st_def by (rule sample_reachable)
  note law = pending_refines [OF this, of "AckOp 5"]
  have "pending_after (AckOp 5) (op_admits st (AckOp 5)) (pending st) = Map.empty"
    using two by (simp add: st_def op_admits_def pending_after_def keep_pending_def fun_eq_iff p)
  moreover have "{tracked_effect (op_result (AckOp 5)) t |t p d. pending st p = Some (t, d) \<and> \<not> op_keeps (AckOp 5) (t, d)}
      = {tracked_effect (Inr ()) sample_message}"
    using two by (auto simp: st_def p)
  moreover have "tracked_effect (Inr ()) sample_message = \<lparr>ce_peer_msg_id = 5, ce_ack_tx = 7, ce_result = Inr ()\<rparr>"
    by (simp add: tracked_effect_def p) (simp add: sample_message_def)
  ultimately show ?thesis using law unfolding st_def by simp
qed

theorem claim_takes_most_urgent_witness:
  "\<exists>d. fst (store_claim_next (store_step sample_store (InsertTrackedOp sample_message 10 0)) 3) = Some d \<and> rc_callis_id d = 3"
proof -
  let ?st = "foldl store_step sample_store [InsertTrackedOp sample_message 10 0]"
  obtain c st' where c: "store_claim_next ?st 3 = (c, st')" by fastforce
  have "has_dispatchable_work ?st" by (simp add: store_eval)
  with claim_takes_most_urgent [OF sample_reachable c] c show ?thesis by (cases c) auto
qed

theorem callis_loss_requeues_witness:
  "\<exists>s. store_slot (store_mark_callis_replay_ready sample_sent 3) \<lparr>sid_lane = LaneA3, sid_index = 0\<rparr> = Some s
     \<and> rs_state s = StReplayReady 3"
proof -
  let ?sid = "\<lparr>sid_lane = LaneA3, sid_index = 0\<rparr>"
  obtain s where "store_slot sample_sent ?sid = Some s" "rs_state s = StWriting 3" by (simp add: store_eval)
  with callis_loss_requeues [OF sample_reachable refl, of "[InsertTrackedOp sample_message 10 0, ClaimNextOp 3]" 3]
  show ?thesis by (fastforce simp: response_lane_def)
qed

theorem deadlines_fire_exactly_witness:
  "store_slot (snd (store_expire_due sample_sent 10)) \<lparr>sid_lane = LaneA3, sid_index = 0\<rparr> = None
     \<and> fst (store_next_deadline (snd (store_expire_due sample_sent 9))) = Some 10"
proof -
  let ?sid = "\<lparr>sid_lane = LaneA3, sid_index = 0\<rparr>"
  let ?ops = "[InsertTrackedOp sample_message 10 0, ClaimNextOp 3]"
  obtain s where s: "store_slot sample_sent ?sid = Some s" "rs_original_deadline s = 10" by (simp add: store_eval)
  have "store_slot (snd (store_expire_due sample_sent 10)) ?sid = None"
    using deadlines_fire_exactly [OF sample_reachable [of ?ops] surjective_pairing surjective_pairing, of 10] s
    by simp
  moreover have "fst (store_next_deadline (snd (store_expire_due sample_sent 9))) = Some 10"
    by (simp add: store_eval)
  ultimately show ?thesis by blast
qed

theorem admission_decides_witness:
  "fst (insert_tracked sample_store sample_message 10 0) = TrackedOk
     \<and> store_message (snd (insert_tracked sample_store sample_message 10 0)) 5 = Some (to_message sample_message)
     \<and> fst (insert_tracked (snd (insert_tracked sample_store sample_message 10 0)) sample_message 10 0)
         = TrackedErr (InsDuplicate sample_message)"
proof -
  have p: "tracked_peer_msg_id sample_message = 5" by (simp add: sample_message_def tracked_peer_msg_id_def)
  have "fst (insert_tracked sample_store sample_message 10 0) = TrackedOk" by (simp add: store_eval)
  with admission_decides [OF sample_reachable [of "[]"] surjective_pairing, of sample_message 10 0] p show ?thesis
    by (simp add: store_eval)
qed

theorem shutdown_contract_witness:
  "\<not> contains_tracked (snd (store_begin_shutdown sample_sent (err_new PeerUnavailable))) 5
     \<and> fst (store_begin_shutdown sample_sent (err_new PeerUnavailable)) \<noteq> []"
proof -
  note law = shutdown_contract [OF sample_reachable [of "[InsertTrackedOp sample_message 10 0, ClaimNextOp 3]"]
    surjective_pairing, of "err_new PeerUnavailable"]
  have "fst (store_begin_shutdown sample_sent (err_new PeerUnavailable)) \<noteq> []"
    by (simp add: store_eval store_begin_shutdown_def non_a1_slots_def)
  with law show ?thesis by blast
qed

theorem ack_of_lost_callis_not_requeued_witness:
  "let st = foldl store_step sample_store [InsertAckOp 4 10 0, ClaimNextOp 3]; st' = store_mark_callis_replay_ready st 3
   in fst (store_claim_next st' 8) = None \<and> store_slot st' \<lparr>sid_lane = LaneA1Ack, sid_index = 0\<rparr> \<noteq> None"
proof -
  let ?st = "foldl store_step sample_store [InsertAckOp 4 10 0, ClaimNextOp 3]"
  let ?st' = "store_mark_callis_replay_ready ?st 3" and ?sid = "\<lparr>sid_lane = LaneA1Ack, sid_index = 0\<rparr>"
  obtain s where s: "store_slot ?st ?sid = Some s" "rs_state s = StWriting 3" by (simp add: store_eval)
  have lane: "sid_lane ?sid = LaneA1Ack" by simp
  note law = ack_of_lost_callis_not_requeued [OF sample_reachable s(1) lane s(2) refl surjective_pairing, of 8]
  have "fst (store_claim_next ?st' 8) = None"
    by (simp add: store_eval store_mark_callis_replay_ready_def lane_mark_callis_def sweep_slot_def)
  moreover have "store_slot ?st' ?sid \<noteq> None"
    using mark_callis_law [OF reachable_inv [OF sample_reachable], of "[InsertAckOp 4 10 0, ClaimNextOp 3]" 3] s by simp
  ultimately show ?thesis using law by (simp add: Let_def)
qed

end
