(* ===== verification/Primary_Dispatch.thy ===== *)
theory Primary_Dispatch
  imports Retained_Contract
begin

text \<open>
  The shared outbound queue of a peer around the retained store
  (\<^verbatim>\<open>src/crates/peering/src/transport/primary_dispatch/retained.rs\<close>) and the manager the session and the
  transmitters talk to (\<^verbatim>\<open>primary_dispatch.rs\<close>): errors of admission, completion of senders, wake-ups of
  transmitters, close requests per callis, the reaper of due items.

  A \<open>Notify\<close> that is only ever signalled with \<open>notify_waiters\<close> wakes tasks without storing anything and
  is left out; one signalled with \<open>notify_one\<close> is its stored permit. A completion channel is its number,
  and the values sent are kept in the order of sending. The configuration snapshot a report reads and
  the time are arguments.
\<close>

section \<open>Addresses\<close>

datatype socket_addr = SocketV4 "u8 list" u16 | SocketV6 "u8 list" u16 u32 u32

datatype domus_addr = AddrTcp socket_addr | AddrSocket string

datatype transport_kind = KindTcp | KindSocket

fun addr_kind :: "domus_addr \<Rightarrow> transport_kind" where
  "addr_kind (AddrTcp _) = KindTcp"
| "addr_kind (AddrSocket _) = KindSocket"

fun addr_as_tcp :: "domus_addr \<Rightarrow> socket_addr option" where
  "addr_as_tcp (AddrTcp addr) = Some addr"
| "addr_as_tcp _ = None"

section \<open>Frames and reports\<close>

fun frame_peer_msg_id :: "outbound_frame \<Rightarrow> peer_message_id" where
  "frame_peer_msg_id (FrameAck p) = p"
| "frame_peer_msg_id (FrameControl _ p _) = p"
| "frame_peer_msg_id (FrameMessage m) = pm_peer_msg_id m"

fun frame_msg_type :: "outbound_frame \<Rightarrow> message_type" where
  "frame_msg_type (FrameAck _) = MSG_ACK"
| "frame_msg_type (FrameMessage m) = pm_msg_type m"
| "frame_msg_type (FrameControl msg_type _ _) = msg_type"

datatype queue_tier = ReportA1 | ReportA2 | ReportA3

fun retained_lane_report :: "retained_lane \<Rightarrow> queue_tier" where
  "retained_lane_report LaneA1Ack = ReportA1"
| "retained_lane_report LaneA1Error = ReportA1"
| "retained_lane_report LaneA2 = ReportA2"
| "retained_lane_report LaneA3 = ReportA3"

text \<open>\<open>None\<close> is the \<open>unreachable!\<close> branch.\<close>

definition tracked_lane_for_msg_type :: "message_type \<Rightarrow> retained_lane option" where
  "tracked_lane_for_msg_type msg_type =
     (case classify_priority msg_type of TierA1 \<Rightarrow> None | TierA2 \<Rightarrow> Some LaneA2 | TierA3 \<Rightarrow> Some LaneA3)"

record overrun_report =
  ov_peer :: domus_addr
  ov_tier :: queue_tier
  ov_limit :: nat
  ov_msg_type :: message_type

text \<open>The reporter: the peer's address once it is known.\<close>

record overrun_reporter =
  or_peer :: "domus_addr option"

section \<open>State\<close>

record close_state =
  cs_intents :: "callis_id set"
  cs_waiters :: "callis_id \<rightharpoonup> bool"

definition close_state_new :: close_state where
  "close_state_new = \<lparr>cs_intents = {}, cs_waiters = Map.empty\<rparr>"

record primary_outbound =
  po_state :: retained_store
  po_reporter :: "overrun_reporter option"
  po_available :: bool
  po_close :: close_state
  po_shutdown :: bool
  po_sent :: "completion_effect list"
  po_overruns :: "overrun_report list"

definition outbound_store_new :: "nat \<Rightarrow> overrun_reporter option \<Rightarrow> instant \<Rightarrow> primary_outbound" where
  "outbound_store_new send_queue_size reporter now =
     \<lparr>po_state = store_new (from_send_queue_size send_queue_size) now, po_reporter = reporter,
      po_available = False, po_close = close_state_new, po_shutdown = False, po_sent = [], po_overruns = []\<rparr>"

definition notify_work_changed :: "primary_outbound \<Rightarrow> primary_outbound" where
  "notify_work_changed q = q\<lparr>po_available := True\<rparr>"

definition apply_effects :: "primary_outbound \<Rightarrow> completion_effect list \<Rightarrow> primary_outbound" where
  "apply_effects q effects = q\<lparr>po_sent := po_sent q @ effects\<rparr>"

definition report_overrun :: "primary_outbound \<Rightarrow> nat \<Rightarrow> retained_lane \<Rightarrow> message_type \<Rightarrow> primary_outbound" where
  "report_overrun q cfg_queue_size lane msg_type =
     (case po_reporter q of
        None \<Rightarrow> q
      | Some reporter \<Rightarrow>
          (case or_peer reporter of
             None \<Rightarrow> q
           | Some peer \<Rightarrow>
               q\<lparr>po_overruns := po_overruns q @
                   [\<lparr>ov_peer = peer, ov_tier = retained_lane_report lane,
                     ov_limit = lane_capacity (from_send_queue_size cfg_queue_size) lane,
                     ov_msg_type = msg_type\<rparr>]\<rparr>))"

section \<open>Operations\<close>

text \<open>The receiver of the completion is the channel the message was given; \<open>None\<close> is a panic.\<close>

definition enqueue_message ::
  "primary_outbound \<Rightarrow> peer_message \<Rightarrow> nat \<Rightarrow> instant \<Rightarrow> nat \<Rightarrow> instant \<Rightarrow> nat result option \<times> primary_outbound" where
  "enqueue_message q message ack_tx deadline cfg_queue_size now =
     (let (r, st) = insert_tracked (po_state q) \<lparr>to_message = message, to_ack_tx = ack_tx\<rparr> deadline now;
          q = q\<lparr>po_state := st\<rparr>
      in case r of
           TrackedOk \<Rightarrow> (Some (Inr ack_tx), notify_work_changed q)
         | TrackedErr (InsFull _) \<Rightarrow>
             (case tracked_lane_for_msg_type (pm_msg_type message) of
                None \<Rightarrow> (None, q)
              | Some lane \<Rightarrow>
                  (Some (Inl (err_new LocalQueueFull)), report_overrun q cfg_queue_size lane (pm_msg_type message)))
         | TrackedErr (InsShutdown _) \<Rightarrow> (Some (Inl (err_new PeerUnavailable)), q)
         | TrackedErr (InsExpired _) \<Rightarrow> (Some (Inl (err_new SendTimeout)), q)
         | TrackedErr (InsDuplicate _) \<Rightarrow> (Some (Inl (err_new ProtocolViolation)), q)
         | TrackedErr (InsA1Tracked _) \<Rightarrow> (Some (Inl (err_new ProtocolViolation)), q)
         | TrackedPanic \<Rightarrow> (None, q))"

definition handle_response_insert_outcome ::
  "primary_outbound \<Rightarrow> nat \<Rightarrow> response_insert_outcome \<Rightarrow> message_type \<Rightarrow> primary_outbound" where
  "handle_response_insert_outcome q cfg_queue_size outcome msg_type =
     (case outcome of
        RespInserted \<Rightarrow> notify_work_changed q
      | RespDuplicate _ _ \<Rightarrow> q
      | RespFull lane _ \<Rightarrow> report_overrun q cfg_queue_size lane msg_type
      | RespShutdown _ \<Rightarrow> q
      | RespExpired _ \<Rightarrow> q)"

definition enqueue_ack :: "primary_outbound \<Rightarrow> peer_message_id \<Rightarrow> instant \<Rightarrow> nat \<Rightarrow> instant \<Rightarrow> primary_outbound" where
  "enqueue_ack q pmid deadline cfg_queue_size now =
     (let (outcome, st) = insert_ack (po_state q) pmid deadline now
      in handle_response_insert_outcome (q\<lparr>po_state := st\<rparr>) cfg_queue_size outcome MSG_ACK)"

definition enqueue_error :: "primary_outbound \<Rightarrow> outbound_frame \<Rightarrow> instant \<Rightarrow> nat \<Rightarrow> instant \<Rightarrow> primary_outbound" where
  "enqueue_error q frame deadline cfg_queue_size now =
     (let (outcome, st) = insert_error (po_state q) (frame_peer_msg_id frame) frame deadline now
      in handle_response_insert_outcome (q\<lparr>po_state := st\<rparr>) cfg_queue_size outcome MSG_ERROR)"

definition queue_claim_next :: "primary_outbound \<Rightarrow> callis_id \<Rightarrow> retained_claim option \<times> primary_outbound" where
  "queue_claim_next q callis =
     (let (claim, st) = store_claim_next (po_state q) callis;
          has_more = (claim \<noteq> None \<and> has_dispatchable_work st)
      in (claim, q\<lparr>po_state := st, po_available := po_available q \<or> has_more\<rparr>))"

definition complete_write :: "primary_outbound \<Rightarrow> retained_claim \<Rightarrow> unit result \<Rightarrow> primary_outbound" where
  "complete_write q claim r =
     (let (effects, st) = store_complete_write (po_state q) claim (case r of Inl _ \<Rightarrow> False | Inr _ \<Rightarrow> True)
      in notify_work_changed (apply_effects (q\<lparr>po_state := st\<rparr>) effects))"

definition finish_one :: "primary_outbound \<Rightarrow> completion_effect option \<times> retained_store \<Rightarrow> bool \<times> primary_outbound" where
  "finish_one q res =
     (case res of
        (Some effect, st) \<Rightarrow> (True, notify_work_changed (apply_effects (q\<lparr>po_state := st\<rparr>) [effect]))
      | (None, st) \<Rightarrow> (False, q\<lparr>po_state := st\<rparr>))"

definition queue_ack :: "primary_outbound \<Rightarrow> peer_message_id \<Rightarrow> bool \<times> primary_outbound" where
  "queue_ack q pmid = finish_one q (store_ack (po_state q) pmid)"

definition queue_fail_one :: "primary_outbound \<Rightarrow> peer_message_id \<Rightarrow> aurelia_error \<Rightarrow> bool \<times> primary_outbound" where
  "queue_fail_one q pmid err = finish_one q (store_fail_one (po_state q) pmid err)"

definition finish_all :: "primary_outbound \<Rightarrow> completion_effect list \<times> retained_store \<Rightarrow> primary_outbound" where
  "finish_all q res = notify_work_changed (apply_effects (q\<lparr>po_state := snd res\<rparr>) (fst res))"

definition queue_fail_all :: "primary_outbound \<Rightarrow> aurelia_error \<Rightarrow> primary_outbound" where
  "queue_fail_all q err = finish_all q (store_fail_all (po_state q) err)"

definition queue_fail_non_a1 :: "primary_outbound \<Rightarrow> aurelia_error \<Rightarrow> primary_outbound" where
  "queue_fail_non_a1 q err = finish_all q (store_fail_non_a1 (po_state q) err)"

definition queue_begin_shutdown :: "primary_outbound \<Rightarrow> aurelia_error \<Rightarrow> primary_outbound" where
  "queue_begin_shutdown q err = finish_all (q\<lparr>po_shutdown := True\<rparr>) (store_begin_shutdown (po_state q) err)"

definition queue_drop_responses :: "primary_outbound \<Rightarrow> primary_outbound" where
  "queue_drop_responses q = notify_work_changed (q\<lparr>po_state := store_drop_responses (po_state q)\<rparr>)"

definition request_close :: "primary_outbound \<Rightarrow> callis_id \<Rightarrow> primary_outbound" where
  "request_close q callis =
     (let c = po_close q
      in q\<lparr>po_close := c\<lparr>cs_intents := insert callis (cs_intents c),
            cs_waiters := (case cs_waiters c callis of None \<Rightarrow> cs_waiters c | Some _ \<Rightarrow> (cs_waiters c)(callis \<mapsto> True))\<rparr>\<rparr>)"

definition take_close_intent :: "primary_outbound \<Rightarrow> callis_id \<Rightarrow> bool \<times> primary_outbound" where
  "take_close_intent q callis =
     (let c = po_close q; found = (callis \<in> cs_intents c)
      in (found, q\<lparr>po_close := c\<lparr>cs_intents := cs_intents c - {callis},
            cs_waiters := (if found then (cs_waiters c)(callis := None) else cs_waiters c)\<rparr>\<rparr>))"

definition close_notifier :: "primary_outbound \<Rightarrow> callis_id \<Rightarrow> primary_outbound" where
  "close_notifier q callis =
     (let c = po_close q
      in case cs_waiters c callis of
           Some _ \<Rightarrow> q
         | None \<Rightarrow> q\<lparr>po_close := c\<lparr>cs_waiters := (cs_waiters c)(callis \<mapsto> False)\<rparr>\<rparr>)"

definition clear_close_intent :: "primary_outbound \<Rightarrow> callis_id \<Rightarrow> primary_outbound" where
  "clear_close_intent q callis =
     (let c = po_close q
      in q\<lparr>po_close := c\<lparr>cs_intents := cs_intents c - {callis}, cs_waiters := (cs_waiters c)(callis := None)\<rparr>\<rparr>)"

definition queue_set_capacities :: "primary_outbound \<Rightarrow> nat \<Rightarrow> instant \<Rightarrow> primary_outbound" where
  "queue_set_capacities q send_queue_size now =
     notify_work_changed (q\<lparr>po_state := set_capacities (po_state q) (from_send_queue_size send_queue_size) now\<rparr>)"

definition queue_mark_all_tracked :: "primary_outbound \<Rightarrow> primary_outbound" where
  "queue_mark_all_tracked q = notify_work_changed (q\<lparr>po_state := store_mark_all_tracked_replay_ready (po_state q)\<rparr>)"

definition queue_mark_tracked :: "primary_outbound \<Rightarrow> peer_message_id list \<Rightarrow> primary_outbound" where
  "queue_mark_tracked q pmids = notify_work_changed (q\<lparr>po_state := store_mark_tracked_replay_ready (po_state q) pmids\<rparr>)"

text \<open>One step: the change of state under the lock, the clearing of the close intent and the notification, which follow it.\<close>

definition queue_mark_callis :: "primary_outbound \<Rightarrow> callis_id \<Rightarrow> primary_outbound" where
  "queue_mark_callis q callis =
     notify_work_changed (clear_close_intent (q\<lparr>po_state := store_mark_callis_replay_ready (po_state q) callis\<rparr>) callis)"

definition expire_due_for_reaper :: "primary_outbound \<Rightarrow> instant \<Rightarrow> primary_outbound" where
  "expire_due_for_reaper q now = finish_all q (store_expire_due (po_state q) now)"

text \<open>
  One round of the reaper: look at the next deadline, then wait for a signal, wait until the deadline, or
  sweep at once; after the wait, sweep unless the queue has been shut down.
\<close>

datatype reaper_next = ReaperStop | ReaperWait | ReaperSleep instant | ReaperSweep

definition reaper_look :: "primary_outbound \<Rightarrow> instant \<Rightarrow> reaper_next \<times> primary_outbound" where
  "reaper_look q now =
     (if po_shutdown q then (ReaperStop, q)
      else let (deadline, st) = store_next_deadline (po_state q); q = q\<lparr>po_state := st\<rparr>
           in case deadline of
                None \<Rightarrow> (ReaperWait, q)
              | Some d \<Rightarrow> (if d > now then ReaperSleep d else ReaperSweep, q))"

definition reaper_sweep :: "primary_outbound \<Rightarrow> instant \<Rightarrow> reaper_next \<times> primary_outbound" where
  "reaper_sweep q now =
     (if po_shutdown q then (ReaperStop, q) else (ReaperWait, expire_due_for_reaper q now))"

section \<open>The manager\<close>

definition secs :: "nat \<Rightarrow> duration" where
  "secs n = n * 1000000000"

definition A1_RESPONSE_TTL :: duration where
  "A1_RESPONSE_TTL = secs 600"

definition dispatch_new :: "nat \<Rightarrow> overrun_reporter option \<Rightarrow> instant \<Rightarrow> primary_outbound" where
  "dispatch_new initial_send_queue_size reporter now = outbound_store_new (max initial_send_queue_size 1) reporter now"

definition enqueue_a1_frame :: "primary_outbound \<Rightarrow> outbound_frame \<Rightarrow> nat \<Rightarrow> instant \<Rightarrow> primary_outbound" where
  "enqueue_a1_frame q frame cfg_queue_size now =
     (case frame of
        FrameAck pmid \<Rightarrow> enqueue_ack q pmid (now + A1_RESPONSE_TTL) cfg_queue_size now
      | FrameControl msg_type _ _ \<Rightarrow>
          if msg_type = MSG_ERROR then enqueue_error q frame (now + A1_RESPONSE_TTL) cfg_queue_size now else q
      | FrameMessage _ \<Rightarrow> q)"

definition dispatch_clear :: "primary_outbound \<Rightarrow> primary_outbound" where
  "dispatch_clear q = queue_fail_all q (err_new PeerRestarted)"

definition dispatch_fail_all :: "primary_outbound \<Rightarrow> aurelia_error \<Rightarrow> peer_message list \<times> primary_outbound" where
  "dispatch_fail_all q err = (store_tracked_messages (po_state q), queue_fail_all q err)"

definition dispatch_has_entries :: "primary_outbound \<Rightarrow> bool" where
  "dispatch_has_entries q \<longleftrightarrow> \<not> store_is_empty (po_state q)"

fun claim_to_frame_item :: "retained_write_item \<Rightarrow> outbound_frame" where
  "claim_to_frame_item (WriteAck p) = FrameAck p"
| "claim_to_frame_item (WriteError _ frame) = frame"
| "claim_to_frame_item (WriteMessage _ message) = FrameMessage message"

definition claim_to_frame :: "retained_claim \<Rightarrow> outbound_frame" where
  "claim_to_frame claim = claim_to_frame_item (rc_item claim)"

definition claim_message_id :: "retained_claim \<Rightarrow> peer_message_id option" where
  "claim_message_id claim = (case rc_item claim of WriteMessage p _ \<Rightarrow> Some p | _ \<Rightarrow> None)"


section \<open>The queue as a machine over the store\<close>

datatype dispatch_op =
    DEnqueue peer_message nat instant nat instant
  | DA1Frame outbound_frame nat instant
  | DClaim callis_id
  | DComplete retained_claim "unit result"
  | DAck peer_message_id
  | DFailOne peer_message_id aurelia_error
  | DFailAll aurelia_error
  | DFailNonA1 aurelia_error
  | DClear
  | DMarkCallis callis_id
  | DMarkTracked "peer_message_id list"
  | DMarkAll
  | DShutdown aurelia_error
  | DDropResponses
  | DRequestClose callis_id
  | DTakeClose callis_id
  | DCloseNotifier callis_id
  | DClearClose callis_id
  | DSetCapacity u64 instant
  | DReaperLook instant
  | DReaperSweep instant

fun dispatch_step :: "primary_outbound \<Rightarrow> dispatch_op \<Rightarrow> primary_outbound" where
  "dispatch_step q (DEnqueue m tx d n now) = snd (enqueue_message q m tx d n now)"
| "dispatch_step q (DA1Frame f n now) = enqueue_a1_frame q f n now"
| "dispatch_step q (DClaim c) = snd (queue_claim_next q c)"
| "dispatch_step q (DComplete claim r) = complete_write q claim r"
| "dispatch_step q (DAck p) = snd (queue_ack q p)"
| "dispatch_step q (DFailOne p err) = snd (queue_fail_one q p err)"
| "dispatch_step q (DFailAll err) = snd (dispatch_fail_all q err)"
| "dispatch_step q (DFailNonA1 err) = queue_fail_non_a1 q err"
| "dispatch_step q DClear = dispatch_clear q"
| "dispatch_step q (DMarkCallis c) = queue_mark_callis q c"
| "dispatch_step q (DMarkTracked ps) = queue_mark_tracked q ps"
| "dispatch_step q DMarkAll = queue_mark_all_tracked q"
| "dispatch_step q (DShutdown err) = queue_begin_shutdown q err"
| "dispatch_step q DDropResponses = queue_drop_responses q"
| "dispatch_step q (DRequestClose c) = request_close q c"
| "dispatch_step q (DTakeClose c) = snd (take_close_intent q c)"
| "dispatch_step q (DCloseNotifier c) = close_notifier q c"
| "dispatch_step q (DClearClose c) = clear_close_intent q c"
| "dispatch_step q (DSetCapacity n now) = queue_set_capacities q (unat n) now"
| "dispatch_step q (DReaperLook now) = snd (reaper_look q now)"
| "dispatch_step q (DReaperSweep now) = snd (reaper_sweep q now)"

text \<open>The store operation each queue operation runs under the lock, if any.\<close>

fun store_op_of :: "primary_outbound \<Rightarrow> dispatch_op \<Rightarrow> store_op option" where
  "store_op_of q (DEnqueue m tx d n now) = Some (InsertTrackedOp \<lparr>to_message = m, to_ack_tx = tx\<rparr> d now)"
| "store_op_of q (DA1Frame f n now) =
     (case f of
        FrameAck p \<Rightarrow> Some (InsertAckOp p (now + A1_RESPONSE_TTL) now)
      | FrameControl t p _ \<Rightarrow> if t = MSG_ERROR then Some (InsertErrorOp p f (now + A1_RESPONSE_TTL) now) else None
      | FrameMessage _ \<Rightarrow> None)"
| "store_op_of q (DClaim c) = Some (ClaimNextOp c)"
| "store_op_of q (DComplete claim r) = Some (CompleteWriteOp claim (case r of Inl _ \<Rightarrow> False | Inr _ \<Rightarrow> True))"
| "store_op_of q (DAck p) = Some (AckOp p)"
| "store_op_of q (DFailOne p err) = Some (FailOneOp p err)"
| "store_op_of q (DFailAll err) = Some (FailAllOp err)"
| "store_op_of q (DFailNonA1 err) = Some (FailNonA1Op err)"
| "store_op_of q DClear = Some (FailAllOp (err_new PeerRestarted))"
| "store_op_of q (DMarkCallis c) = Some (MarkCallisOp c)"
| "store_op_of q (DMarkTracked ps) = Some (MarkTrackedOp ps)"
| "store_op_of q DMarkAll = Some MarkAllTrackedOp"
| "store_op_of q (DShutdown err) = Some (BeginShutdownOp err)"
| "store_op_of q DDropResponses = Some DropResponsesOp"
| "store_op_of q (DSetCapacity n now) = Some (SetCapacitiesOp (unat n) now)"
| "store_op_of q (DReaperLook now) = (if po_shutdown q then None else Some NextDeadlineOp)"
| "store_op_of q (DReaperSweep now) = (if po_shutdown q then None else Some (ExpireDueOp now))"
| "store_op_of q _ = None"

lemmas queue_defs = notify_work_changed_def apply_effects_def report_overrun_def enqueue_ack_def enqueue_error_def
  handle_response_insert_outcome_def queue_claim_next_def complete_write_def finish_one_def queue_ack_def
  queue_fail_one_def finish_all_def queue_fail_all_def queue_fail_non_a1_def queue_begin_shutdown_def
  queue_drop_responses_def queue_set_capacities_def queue_mark_all_tracked_def
  queue_mark_tracked_def queue_mark_callis_def expire_due_for_reaper_def reaper_look_def reaper_sweep_def
  enqueue_a1_frame_def dispatch_clear_def dispatch_fail_all_def

lemmas close_defs = request_close_def take_close_intent_def close_notifier_def clear_close_intent_def

lemma report_overrun_frame [simp]:
  "po_state (report_overrun q n l t) = po_state q" "po_sent (report_overrun q n l t) = po_sent q"
  "po_available (report_overrun q n l t) = po_available q" "po_close (report_overrun q n l t) = po_close q"
  "po_shutdown (report_overrun q n l t) = po_shutdown q"
  by (simp_all add: report_overrun_def split: option.splits)

lemma close_frame [simp]:
  "po_state (request_close q c) = po_state q" "po_sent (request_close q c) = po_sent q"
  "po_available (request_close q c) = po_available q"
  "po_state (snd (take_close_intent q c)) = po_state q" "po_sent (snd (take_close_intent q c)) = po_sent q"
  "po_available (snd (take_close_intent q c)) = po_available q"
  "po_state (close_notifier q c) = po_state q" "po_sent (close_notifier q c) = po_sent q"
  "po_available (close_notifier q c) = po_available q"
  "po_state (clear_close_intent q c) = po_state q" "po_sent (clear_close_intent q c) = po_sent q"
  "po_available (clear_close_intent q c) = po_available q"
  by (simp_all add: close_defs Let_def split: option.splits)

lemma unat_u64_max: "unat (n :: u64) \<le> u64_max"
  using unsigned_less [of n, where 'a = nat] by simp

text \<open>One operation of the queue is at most one operation of the store, and sends its completions.\<close>

lemma dispatch_step_store:
  "po_state (dispatch_step q x) = (case store_op_of q x of None \<Rightarrow> po_state q | Some y \<Rightarrow> store_step (po_state q) y)
   \<and> po_sent (dispatch_step q x) = po_sent q @ (case store_op_of q x of None \<Rightarrow> [] | Some y \<Rightarrow> store_effects (po_state q) y)"
proof (cases x)
  case (DEnqueue m tx d n now)
  obtain r st where "insert_tracked (po_state q) \<lparr>to_message = m, to_ack_tx = tx\<rparr> d now = (r, st)" by fastforce
  then show ?thesis
    by (simp add: DEnqueue enqueue_message_def Let_def store_step_def store_effects_def notify_work_changed_def
        split: tracked_insert.splits retained_insert_error.splits option.splits)
next
  case (DA1Frame f n now)
  then show ?thesis
    by (cases f)
      (simp_all add: queue_defs store_step_def store_effects_def split_beta Let_def split: response_insert_outcome.splits option.splits)
next
  case (DSetCapacity n now)
  then show ?thesis using unat_u64_max [of n] by (simp add: queue_defs store_step_def store_effects_def min_def)
qed (simp_all add: queue_defs store_step_def store_effects_def split_beta Let_def split: option.splits)


section \<open>Runs\<close>

fun store_ops :: "primary_outbound \<Rightarrow> dispatch_op list \<Rightarrow> store_op list" where
  "store_ops q [] = []"
| "store_ops q (x # xs) = (case store_op_of q x of None \<Rightarrow> [] | Some y \<Rightarrow> [y]) @ store_ops (dispatch_step q x) xs"

lemma dispatch_run_store:
  "po_state (foldl dispatch_step q xs) = foldl store_step (po_state q) (store_ops q xs)
   \<and> effect_tokens (po_sent (foldl dispatch_step q xs))
       = effect_tokens (po_sent q) + completed (po_state q) (store_ops q xs)"
proof (induction xs arbitrary: q)
  case Nil
  then show ?case by simp
next
  case (Cons x xs)
  have app: "effect_tokens (a @ b) = effect_tokens a + effect_tokens b" for a b by (simp add: effect_tokens_def)
  from Cons.IH [of "dispatch_step q x"] dispatch_step_store [of q x] show ?case
    by (cases "store_op_of q x") (simp_all add: app store_given_def ac_simps)
qed

text \<open>The channels of the messages whose sender was told that the message was accepted.\<close>

fun accepted_channels :: "primary_outbound \<Rightarrow> dispatch_op list \<Rightarrow> nat multiset" where
  "accepted_channels q [] = {#}"
| "accepted_channels q (x # xs) =
     (case x of DEnqueue m tx d n now \<Rightarrow> if fst (enqueue_message q m tx d n now) = Some (Inr tx) then {#tx#} else {#}
      | _ \<Rightarrow> {#}) + accepted_channels (dispatch_step q x) xs"

lemma enqueue_ok_iff:
  "fst (enqueue_message q m tx d n now) = Some (Inr tx) \<longleftrightarrow>
     fst (insert_tracked (po_state q) \<lparr>to_message = m, to_ack_tx = tx\<rparr> d now) = TrackedOk"
  by (simp add: enqueue_message_def Let_def split_beta split: tracked_insert.splits retained_insert_error.splits option.splits)

lemma taken_step:
  "(case store_op_of q x of None \<Rightarrow> {#} | Some y \<Rightarrow> store_taken (po_state q) y) =
     (case x of DEnqueue m tx d n now \<Rightarrow> if fst (enqueue_message q m tx d n now) = Some (Inr tx) then {#tx#} else {#}
      | _ \<Rightarrow> {#})"
  by (cases x) (simp_all add: store_taken_def enqueue_ok_iff split: outbound_frame.splits)

lemma admitted_accepted: "admitted (po_state q) (store_ops q xs) = accepted_channels q xs"
proof (induction xs arbitrary: q)
  case Nil
  then show ?case by simp
next
  case (Cons x xs)
  have "admitted (po_state (dispatch_step q x)) (store_ops (dispatch_step q x) xs) = accepted_channels (dispatch_step q x) xs"
    by (rule Cons.IH)
  with taken_step [of q x] dispatch_step_store [of q x] show ?case
    by (cases "store_op_of q x") simp_all
qed

definition reachable_queue :: "primary_outbound \<Rightarrow> bool" where
  "reachable_queue q \<longleftrightarrow> (\<exists>n reporter now xs. n \<le> u64_max \<and> q = foldl dispatch_step (dispatch_new n reporter now) xs)"

lemma capacities_bounded: "n \<le> u64_max \<Longrightarrow> lane_capacity (from_send_queue_size n) lane \<le> u64_max"
  using from_send_queue_size_bounds [of n] by (cases lane) simp_all

lemma dispatch_new_store:
  assumes "n \<le> u64_max"
  shows "reachable_store (po_state (dispatch_new n reporter now))"
    and "store_inv (po_state (dispatch_new n reporter now))"
    and "held_tokens (po_state (dispatch_new n reporter now)) = {#}"
proof -
  let ?c = "from_send_queue_size (max n 1)"
  have st: "po_state (dispatch_new n reporter now) = store_new ?c now"
    by (simp add: dispatch_new_def outbound_store_new_def)
  have cap: "\<forall>lane. lane_capacity ?c lane \<le> u64_max" using capacities_bounded assms by simp
  have "store_new ?c now = foldl store_step (store_new ?c now) []" by simp
  with cap show r: "reachable_store (po_state (dispatch_new n reporter now))"
    unfolding st reachable_store_def by blast
  then show "store_inv (po_state (dispatch_new n reporter now))" by (rule reachable_inv)
  show "held_tokens (po_state (dispatch_new n reporter now)) = {#}"
    unfolding st using cap by (intro held_none store_inv_new(2)) (metis lane_capacity.simps)+
qed

lemma reachable_store_run:
  assumes "reachable_store st"
  shows "reachable_store (foldl store_step st ops)"
proof -
  from assms obtain c now ops0 where c: "\<forall>lane. lane_capacity c lane \<le> u64_max"
      "st = foldl store_step (store_new c now) ops0" unfolding reachable_store_def by blast
  then have "foldl store_step st ops = foldl store_step (store_new c now) (ops0 @ ops)" by simp
  with c(1) show ?thesis unfolding reachable_store_def by blast
qed

lemma reachable_queue_store: "reachable_queue q \<Longrightarrow> reachable_store (po_state q)"
  unfolding reachable_queue_def using dispatch_run_store dispatch_new_store(1) reachable_store_run by metis

lemma reachable_queue_inv: "reachable_queue q \<Longrightarrow> store_inv (po_state q)"
  by (rule reachable_inv) (rule reachable_queue_store)


section \<open>Wake-ups\<close>

text \<open>
  The transmitters of a peer share the permit \<open>available\<close>. A running transmitter takes the permit when it waits for
  work (\<open>TakePermit\<close>), and it is then awake: it owes a claim. It claims at the head of its loop
  (\<open>TransmitterClaim\<close>), which it reaches when it starts, after a permit, after a close request and at every tick
  of its keepalive timer. Before the claim it looks for a close request, and with one it leaves its loop
  (\<open>CloseIntentTurn\<close>); it may also be ended at any wait (\<open>EndTransmitter\<close>). One that leaves while it owes a claim takes
  the permit with it: \<open>ts_lost\<close> remembers that, until the permit is raised again or another transmitter claims.
\<close>

record transmit_sys =
  ts_queue :: primary_outbound
  ts_running :: "callis_id set"
  ts_awake :: "callis_id set"
  ts_lost :: bool

datatype transmit_op =
    QueueOp dispatch_op
  | StartTransmitter callis_id
  | TakePermit callis_id
  | TransmitterClaim callis_id
  | CloseIntentTurn callis_id
  | EndTransmitter callis_id

definition transmit_new :: "primary_outbound \<Rightarrow> transmit_sys" where
  "transmit_new q = \<lparr>ts_queue = q, ts_running = {}, ts_awake = {}, ts_lost = False\<rparr>"

definition leave_loop :: "transmit_sys \<Rightarrow> callis_id \<Rightarrow> transmit_sys" where
  "leave_loop t c = t\<lparr>ts_running := ts_running t - {c}, ts_awake := ts_awake t - {c},
     ts_lost := ts_lost t \<or> c \<in> ts_awake t \<and> \<not> po_available (ts_queue t)\<rparr>"

fun transmit_step :: "transmit_sys \<Rightarrow> transmit_op \<Rightarrow> transmit_sys" where
  "transmit_step t (QueueOp x) =
     (let q = dispatch_step (ts_queue t) x in t\<lparr>ts_queue := q, ts_lost := ts_lost t \<and> \<not> po_available q\<rparr>)"
| "transmit_step t (StartTransmitter c) = t\<lparr>ts_running := insert c (ts_running t)\<rparr>"
| "transmit_step t (TakePermit c) =
     (if c \<in> ts_running t \<and> po_available (ts_queue t)
      then t\<lparr>ts_queue := (ts_queue t)\<lparr>po_available := False\<rparr>, ts_awake := insert c (ts_awake t)\<rparr> else t)"
| "transmit_step t (TransmitterClaim c) =
     (if c \<in> ts_running t
      then let (claim, q) = queue_claim_next (ts_queue t) c in t\<lparr>ts_queue := q, ts_awake := ts_awake t - {c}, ts_lost := False\<rparr>
      else t)"
| "transmit_step t (CloseIntentTurn c) =
     (if c \<in> ts_running t
      then let (taken, q) = take_close_intent (ts_queue t) c; t = t\<lparr>ts_queue := q\<rparr> in if taken then leave_loop t c else t
      else t)"
| "transmit_step t (EndTransmitter c) = leave_loop t c"

definition signalled :: "transmit_sys \<Rightarrow> bool" where
  "signalled t \<longleftrightarrow> store_inv (po_state (ts_queue t)) \<and> ts_awake t \<subseteq> ts_running t
     \<and> (has_dispatchable_work (po_state (ts_queue t)) \<longrightarrow> po_available (ts_queue t) \<or> ts_awake t \<noteq> {} \<or> ts_lost t)"

lemma has_work_same:
  "store_slot st' = store_slot st \<Longrightarrow> st_shutdown st' = st_shutdown st \<Longrightarrow>
     has_dispatchable_work st' = has_dispatchable_work st"
  by (simp add: has_work_iff open_lane_def)

lemma store_inv_dispatch: "store_inv (po_state q) \<Longrightarrow> store_inv (po_state (dispatch_step q x))"
  using dispatch_step_store [of q x] store.invar_step by (cases "store_op_of q x") simp_all

lemma claim_signals:
  assumes inv: "store_inv (po_state q)" and c: "queue_claim_next q callis = (claim, q')"
  shows "has_dispatchable_work (po_state q') \<Longrightarrow> po_available q'"
    and "claim = None \<Longrightarrow> \<not> has_dispatchable_work (po_state q')"
proof -
  obtain cl st where s: "store_claim_next (po_state q) callis = (cl, st)" by fastforce
  with c have q': "claim = cl" "q' = q\<lparr>po_state := st, po_available := po_available q \<or> cl \<noteq> None \<and> has_dispatchable_work st\<rparr>"
    by (auto simp: queue_claim_next_def Let_def)
  note law = claim_next_law [OF inv s]
  have none: "\<not> has_dispatchable_work st" if "cl = None"
    using law that has_work_same [of st "po_state q"] by (simp add: same_tables_def)
  then show "claim = None \<Longrightarrow> \<not> has_dispatchable_work (po_state q')" by (simp add: q')
  show "has_dispatchable_work (po_state q') \<Longrightarrow> po_available q'" using none by (auto simp: q')
qed

lemma claim_finds_work:
  assumes "store_inv (po_state q)" and "has_dispatchable_work (po_state q)" and "queue_claim_next q callis = (claim, q')"
  shows "\<exists>d. claim = Some d"
proof -
  obtain st where "store_claim_next (po_state q) callis = (claim, st)"
    using assms(3) by (auto simp: queue_claim_next_def Let_def split: prod.splits)
  with claim_next_law [OF assms(1) this] assms(2) show ?thesis by (cases claim) auto
qed

text \<open>An operation either signals, or leaves what can be claimed as it was.\<close>

lemma dispatch_signals:
  assumes inv: "store_inv (po_state q)" and work: "has_dispatchable_work (po_state (dispatch_step q x))"
  shows "po_available (dispatch_step q x) \<or> has_dispatchable_work (po_state q) \<and> po_available (dispatch_step q x) = po_available q"
proof (cases x)
  case (DEnqueue m tx d n now)
  obtain r st where ins: "insert_tracked (po_state q) \<lparr>to_message = m, to_ack_tx = tx\<rparr> d now = (r, st)" by fastforce
  from insert_tracked_law [OF inv ins] have "r \<noteq> TrackedOk \<Longrightarrow> st = po_state q" by simp
  with work ins DEnqueue show ?thesis
    by (cases "r = TrackedOk")
      (auto simp: enqueue_message_def Let_def notify_work_changed_def
        split: tracked_insert.splits retained_insert_error.splits option.splits)
next
  case (DA1Frame f n now)
  have resp: "has_dispatchable_work st = has_dispatchable_work (po_state q)"
    if "fits_lane lane y" "response_lane lane" "item_peer_msg_id y = p"
      and i: "insert_response (po_state q) k lane p d y now = (r, st)" and "r \<noteq> RespInserted" for lane y p k d r st
    using insert_response_law [OF inv that(1-3) i] that(5) by (intro has_work_same) simp_all
  show ?thesis
  proof (cases f)
    case (FrameAck p)
    obtain r st where i: "insert_response (po_state q) ResponseAck LaneA1Ack p (now + A1_RESPONSE_TTL) (ItemAck p) now = (r, st)"
      by fastforce
    with resp [OF _ _ _ i] work DA1Frame FrameAck show ?thesis
      by (cases r) (auto simp: queue_defs insert_ack_def response_lane_def split: option.splits)
  next
    case (FrameMessage m)
    with work DA1Frame show ?thesis by (simp add: queue_defs)
  next
    case (FrameControl t p pl)
    obtain r st where i: "insert_response (po_state q) ResponseError LaneA1Error p (now + A1_RESPONSE_TTL) (ItemError p f) now = (r, st)"
      by fastforce
    with resp [OF _ _ _ i] work DA1Frame FrameControl show ?thesis
      by (cases r) (auto simp: queue_defs insert_error_def response_lane_def split: option.splits if_splits)
  qed
next
  case (DClaim c)
  obtain cl q' where "queue_claim_next q c = (cl, q')" by fastforce
  with claim_signals [OF inv this] work DClaim show ?thesis by simp
next
  case (DAck p)
  obtain e st where "complete_one (po_state q) p (Inr ()) = (e, st)" by fastforce
  moreover from complete_one_law [OF inv this] have "e = None \<Longrightarrow> st = po_state q" by (auto split: option.splits)
  ultimately show ?thesis using work DAck by (cases e) (auto simp: queue_defs store_ack_def)
next
  case (DFailOne p err)
  obtain e st where "complete_one (po_state q) p (Inl err) = (e, st)" by fastforce
  moreover from complete_one_law [OF inv this] have "e = None \<Longrightarrow> st = po_state q" by (auto split: option.splits)
  ultimately show ?thesis using work DFailOne by (cases e) (auto simp: queue_defs store_fail_one_def)
next
  case (DReaperLook now)
  obtain d st where n: "store_next_deadline (po_state q) = (d, st)" by fastforce
  from next_deadline_law [OF inv n] have "has_dispatchable_work st = has_dispatchable_work (po_state q)"
    by (intro has_work_same) simp_all
  with work DReaperLook n show ?thesis by (auto simp: queue_defs Let_def split: option.splits if_splits)
qed (use work in \<open>auto simp: queue_defs split_beta Let_def split: if_splits\<close>)

lemma signalled_step: "signalled t \<Longrightarrow> signalled (transmit_step t x)"
proof (cases x)
  case (QueueOp y)
  assume "signalled t"
  with QueueOp dispatch_signals [of "ts_queue t" y] store_inv_dispatch [of "ts_queue t" y] show ?thesis
    by (auto simp: signalled_def Let_def)
next
  case (TransmitterClaim c)
  assume s: "signalled t"
  obtain cl q' where c: "queue_claim_next (ts_queue t) c = (cl, q')" by fastforce
  have "store_inv (po_state q')"
    using store_inv_dispatch [of "ts_queue t" "DClaim c"] s c by (simp add: signalled_def)
  with claim_signals [OF _ c] s c TransmitterClaim show ?thesis by (auto simp: signalled_def)
next
  case (CloseIntentTurn c)
  assume "signalled t"
  moreover obtain taken q' where c: "take_close_intent (ts_queue t) c = (taken, q')" by fastforce
  moreover have "po_state q' = po_state (ts_queue t)" "po_available q' = po_available (ts_queue t)"
    using close_frame(4,6) [of "ts_queue t" c] c by simp_all
  ultimately show ?thesis using CloseIntentTurn by (auto simp: signalled_def leave_loop_def Let_def)
qed (auto simp: signalled_def leave_loop_def)

interpretation transmit: op_machine
  "\<lambda>t. \<exists>n reporter now. n \<le> u64_max \<and> t = transmit_new (dispatch_new n reporter now)"
  transmit_step signalled
proof
  fix t assume "\<exists>n reporter now. n \<le> u64_max \<and> t = transmit_new (dispatch_new n reporter now)"
  then obtain n reporter now where t: "n \<le> u64_max" "t = transmit_new (dispatch_new n reporter now)" by blast
  have "po_state (ts_queue t) = store_new (from_send_queue_size (max n 1)) now"
    by (simp add: t(2) dispatch_new_def outbound_store_new_def transmit_new_def)
  then have "\<not> has_dispatchable_work (po_state (ts_queue t))"
    using store_inv_new(2) from_send_queue_size_bounds [of "max n 1"] t(1) by (simp add: has_work_iff)
  with t dispatch_new_store(2) [OF t(1)] show "signalled t" by (simp add: signalled_def transmit_new_def)
qed (rule signalled_step)

text \<open>A permit is lost only by a transmitter that leaves its loop.\<close>

fun leaves_loop :: "transmit_op \<Rightarrow> bool" where
  "leaves_loop (CloseIntentTurn c) = True"
| "leaves_loop (EndTransmitter c) = True"
| "leaves_loop _ = False"

lemma lost_by_leaving:
  "ts_lost (foldl transmit_step t xs) \<Longrightarrow> ts_lost t \<or> (\<exists>x \<in> set xs. leaves_loop x)"
proof (induction xs arbitrary: t)
  case (Cons x xs)
  have "ts_lost (transmit_step t x) \<Longrightarrow> \<not> leaves_loop x \<Longrightarrow> ts_lost t"
    by (cases x) (auto simp: Let_def split: if_splits prod.splits)
  with Cons.IH [of "transmit_step t x"] Cons.prems show ?case by auto
qed simp

section \<open>Contract\<close>

text \<open>
  Every sender whose message was accepted is answered exactly once: over any run of the queue, the
  completion channels written to together with those of the messages still held are those of the
  accepted messages; a channel is written to at most as often as it was accepted, and when the queue has
  no entries left every accepted channel has been written to.
\<close>

theorem senders_answered_once:
  assumes "n \<le> u64_max" and "q0 = dispatch_new n reporter now" and "q = foldl dispatch_step q0 xs"
  shows "held_tokens (po_state q) + effect_tokens (po_sent q) = accepted_channels q0 xs
    \<and> effect_tokens (po_sent q) \<subseteq># accepted_channels q0 xs
    \<and> (\<not> dispatch_has_entries q \<longrightarrow> effect_tokens (po_sent q) = accepted_channels q0 xs)"
proof -
  note new = dispatch_new_store [OF assms(1), of reporter now, folded assms(2)]
  have sent0: "po_sent q0 = []" by (simp add: assms(2) dispatch_new_def outbound_store_new_def)
  note run = dispatch_run_store [of q0 xs, folded assms(3)]
  have eq: "held_tokens (po_state q) + effect_tokens (po_sent q) = accepted_channels q0 xs"
    using store.conserve_run [OF new(2), of "store_ops q0 xs"] run new(3) sent0 admitted_accepted [of q0 xs] by simp
  moreover from eq have "effect_tokens (po_sent q) \<subseteq># accepted_channels q0 xs" by (metis mset_subset_eq_add_right)
  moreover have "effect_tokens (po_sent q) = accepted_channels q0 xs" if "\<not> dispatch_has_entries q"
  proof -
    have "store_inv (po_state q)" using run store.invar_run [OF new(2)] by metis
    with that have "held_tokens (po_state q) = {#}"
      using store_empty_iff held_none by (auto simp: dispatch_has_entries_def)
    with eq show ?thesis by simp
  qed
  ultimately show ?thesis by blast
qed

text \<open>
  C30. Work finds a transmitter, whatever the interleaving of queue operations (each with the notification that
  ends it), permits taken, claims and transmitters that start and leave. If something can be dispatched, then the permit is set, or a running
  transmitter has taken it and will claim before it waits, or the permit was lost with a transmitter that left
  its loop after taking it, which needs one that left (\<open>permit_lost\<close> shows that it happens). In each of these cases the next
  claim of every transmitter that runs gives it an item, at the latest the claim after the next tick of its
  keepalive timer.
\<close>

theorem work_is_signalled:
  assumes "n \<le> u64_max" and "t = foldl transmit_step (transmit_new (dispatch_new n reporter now)) xs"
    and "has_dispatchable_work (po_state (ts_queue t))"
  shows "(po_available (ts_queue t) \<or> (\<exists>c \<in> ts_running t. c \<in> ts_awake t) \<or> ts_lost t \<and> (\<exists>x \<in> set xs. leaves_loop x))
    \<and> (\<forall>c \<in> ts_running t. \<exists>claim q. queue_claim_next (ts_queue t) c = (Some claim, q)
         \<and> (has_dispatchable_work (po_state q) \<longrightarrow> po_available q))"
proof -
  have s: "signalled t" unfolding assms(2) by (rule transmit.invar_reachable) (use assms(1) in blast)
  have "ts_lost t \<Longrightarrow> \<exists>x \<in> set xs. leaves_loop x"
    using lost_by_leaving [of "transmit_new (dispatch_new n reporter now)" xs] by (simp add: assms(2) transmit_new_def)
  moreover have "\<exists>claim q. queue_claim_next (ts_queue t) c = (Some claim, q) \<and> (has_dispatchable_work (po_state q) \<longrightarrow> po_available q)" for c
    using claim_finds_work [of "ts_queue t" c] claim_signals(1) [of "ts_queue t" c] s assms(3)
    by (cases "queue_claim_next (ts_queue t) c") (auto simp: signalled_def)
  ultimately show ?thesis using s assms(3) by (auto simp: signalled_def)
qed

text \<open>
  Enqueueing a message never panics and reports each refusal with its error: a closed queue, a
  deadline already passed, an identifier still pending, a bare control type, a full lane. Only an
  accepted message changes the store, a full lane is reported once when the peer is known, and an
  accepted message raises the permit.
\<close>

theorem enqueue_outcomes:
  assumes "reachable_queue q" and "enqueue_message q m tx d n now = (r, q')"
  shows "r = Some (if st_shutdown (po_state q) then Inl (err_new PeerUnavailable)
         else if d \<le> now then Inl (err_new SendTimeout)
         else if contains_tracked (po_state q) (pm_peer_msg_id m) then Inl (err_new ProtocolViolation)
         else case tracked_lane (pm_msg_type m) of
                None \<Rightarrow> Inl (err_new ProtocolViolation)
              | Some lane \<Rightarrow> if lane_available (store_lane (po_state q) lane) then Inr tx else Inl (err_new LocalQueueFull))
    \<and> (r \<noteq> Some (Inr tx) \<longrightarrow> po_state q' = po_state q \<and> po_available q' = po_available q)
    \<and> (r = Some (Inr tx) \<longrightarrow> po_available q' \<and> store_message (po_state q') (pm_peer_msg_id m) = Some m)
    \<and> length (po_overruns q') = length (po_overruns q) + (if r = Some (Inl (err_new LocalQueueFull))
         \<and> (\<exists>reporter. po_reporter q = Some reporter \<and> or_peer reporter \<noteq> None) then 1 else 0)"
proof -
  let ?t = "\<lparr>to_message = m, to_ack_tx = tx\<rparr>" and ?st = "po_state q"
  have reach: "reachable_store ?st" using assms(1) by (rule reachable_queue_store)
  then have inv: "store_inv ?st" by (rule reachable_inv)
  obtain o1 st where ins: "insert_tracked ?st ?t d now = (o1, st)" by fastforce
  note law = insert_tracked_law [OF inv ins]
  have lanes: "tracked_lane_for_msg_type = tracked_lane"
    by (rule ext) (simp add: tracked_lane_for_msg_type_def tracked_lane_def)
  have ids: "tracked_peer_msg_id ?t = pm_peer_msg_id m" "tracked_msg_type ?t = pm_msg_type m"
    by (simp_all add: tracked_peer_msg_id_def tracked_msg_type_def)
  have none: "tracked_lane (pm_msg_type m) = None \<longleftrightarrow> classify_priority (pm_msg_type m) = TierA1"
    by (simp add: tracked_lane_def split: priority_tier.splits)
  have panic: "o1 \<noteq> TrackedPanic" and same: "o1 \<noteq> TrackedOk \<Longrightarrow> st = ?st" using law by simp_all
  have decide: "o1 = (if st_shutdown ?st then TrackedErr (InsShutdown ?t)
         else if d \<le> now then TrackedErr (InsExpired ?t)
         else if contains_tracked ?st (pm_peer_msg_id m) then TrackedErr (InsDuplicate ?t)
         else case tracked_lane (pm_msg_type m) of
                None \<Rightarrow> TrackedErr (InsA1Tracked ?t)
              | Some lane \<Rightarrow> if lane_available (store_lane ?st lane) then TrackedOk else TrackedErr (InsFull ?t))"
    using panic ins none
    by (auto simp: insert_tracked_def contains_tracked_def ids Let_def split: if_splits option.splits prod.splits)
  have msg: "store_message st (pm_peer_msg_id m) = Some m" if "o1 = TrackedOk"
  proof -
    have inv': "store_inv st" using law by blast
    from law that obtain sid s where s: "store_slot st sid = Some s" "rs_item s = Some (ItemTracked ?t)"
      by (auto simp del: fun_upd_apply) (metis fun_upd_same)
    then have "slot_pending st sid = Some (?t, rs_original_deadline s)" by (simp add: slot_pending_Some)
    then have "pending st (pm_peer_msg_id m) = Some (?t, rs_original_deadline s)"
      using pending_Some [OF inv'] ids by blast
    then show ?thesis by (simp add: store_message_pending)
  qed
  have q': "(r, q') = enqueue_message q m tx d n now" using assms(2) by simp
  show ?thesis
    using q' same msg decide unfolding enqueue_message_def ins Let_def lanes
    by (auto simp: notify_work_changed_def report_overrun_def split: if_splits option.splits)
qed


text \<open>The operations that end a close request for a callis.\<close>

fun ends_close :: "callis_id \<Rightarrow> dispatch_op \<Rightarrow> bool" where
  "ends_close c (DTakeClose d) \<longleftrightarrow> c = d"
| "ends_close c (DClearClose d) \<longleftrightarrow> c = d"
| "ends_close c (DMarkCallis d) \<longleftrightarrow> c = d"
| "ends_close c _ \<longleftrightarrow> False"

definition close_requested :: "callis_id \<Rightarrow> bool \<Rightarrow> primary_outbound \<Rightarrow> bool" where
  "close_requested c registered q \<longleftrightarrow> c \<in> cs_intents (po_close q)
     \<and> (registered \<longrightarrow> cs_waiters (po_close q) c = Some True)"

lemma close_requested_step:
  assumes "close_requested c registered q" and "\<not> ends_close c x"
  shows "close_requested c registered (dispatch_step q x)"
proof (cases x)
  case (DEnqueue m tx d n now)
  with assms(1) show ?thesis
    by (auto simp: close_requested_def enqueue_message_def Let_def split_beta notify_work_changed_def
        split: tracked_insert.splits retained_insert_error.splits option.splits)
next
  case (DA1Frame f n now)
  with assms(1) show ?thesis
    by (auto simp: close_requested_def queue_defs split_beta Let_def
        split: outbound_frame.splits response_insert_outcome.splits option.splits)
qed (use assms in \<open>auto simp: close_requested_def queue_defs close_defs split_beta Let_def split: option.splits if_splits\<close>)

lemma close_requested_run:
  "close_requested c registered q \<Longrightarrow> \<forall>x \<in> set xs. \<not> ends_close c x \<Longrightarrow>
     close_requested c registered (foldl dispatch_step q xs)"
  by (induction xs arbitrary: q) (auto intro: close_requested_step)

text \<open>
  A request to close a callis is never lost and acts once: after it, whatever else happens to the
  queue, the callis' transmitter finds the intent at its next look, and if its waiter was already
  registered the waiter holds a permit; taking the intent removes it together with the waiter.
\<close>

theorem close_request_delivered:
  assumes "\<forall>x \<in> set xs. \<not> ends_close c x" and "q' = foldl dispatch_step (request_close q c) xs"
  shows "fst (take_close_intent q' c)
    \<and> (cs_waiters (po_close q) c \<noteq> None \<longrightarrow> cs_waiters (po_close q') c = Some True)
    \<and> \<not> fst (take_close_intent (snd (take_close_intent q' c)) c)
    \<and> cs_waiters (po_close (snd (take_close_intent q' c))) c = None"
proof -
  have "close_requested c (cs_waiters (po_close q) c \<noteq> None) (request_close q c)"
    by (auto simp: close_requested_def request_close_def Let_def)
  then have "close_requested c (cs_waiters (po_close q) c \<noteq> None) q'"
    unfolding assms(2) using assms(1) by (rule close_requested_run)
  then show ?thesis by (auto simp: close_requested_def take_close_intent_def Let_def)
qed

text \<open>
  What a transmitter writes is what was enqueued: the frame of a claim is the acknowledgement, the
  error frame or the message held by the claimed slot, for the identifier the claim carries.
\<close>

theorem claim_frame_faithful:
  assumes "reachable_queue q" and "queue_claim_next q callis = (Some claim, q')"
  shows "\<exists>s x. store_slot (po_state q) (rc_slot claim) = Some s \<and> rs_item s = Some x
    \<and> (case x of
         ItemAck p \<Rightarrow> claim_to_frame claim = FrameAck p \<and> claim_message_id claim = None
       | ItemError p frame \<Rightarrow> claim_to_frame claim = frame \<and> claim_message_id claim = None
       | ItemTracked t \<Rightarrow> claim_to_frame claim = FrameMessage (to_message t)
           \<and> claim_message_id claim = Some (pm_peer_msg_id (to_message t))
           \<and> store_message (po_state q) (pm_peer_msg_id (to_message t)) = Some (to_message t))"
proof -
  have inv: "store_inv (po_state q)" using assms(1) by (rule reachable_queue_inv)
  obtain st where c: "store_claim_next (po_state q) callis = (Some claim, st)"
    using assms(2) by (auto simp: queue_claim_next_def Let_def split: prod.splits)
  from claim_next_law [OF inv c] obtain s where s: "claims_slot (po_state q) claim s st" by auto
  then have slot: "store_slot (po_state q) (rc_slot claim) = Some s" "rc_item claim = write_item (the (rs_item s))"
    by (simp_all add: claims_slot_def)
  obtain x where x: "rs_item s = Some x" using store_slot_item [OF slot(1)] by blast
  have "store_message (po_state q) (pm_peer_msg_id (to_message t)) = Some (to_message t)" if "x = ItemTracked t" for t
  proof -
    have "slot_pending (po_state q) (rc_slot claim) = Some (t, rs_original_deadline s)"
      using slot(1) x that by (simp add: slot_pending_Some)
    then have "pending (po_state q) (tracked_peer_msg_id t) = Some (t, rs_original_deadline s)"
      using pending_Some [OF inv] by blast
    then show ?thesis by (simp add: store_message_pending tracked_peer_msg_id_def)
  qed
  with slot x show ?thesis
    by (cases x) (auto simp: claim_to_frame_def claim_message_id_def tracked_peer_msg_id_def)
qed

section \<open>The contract on a small queue\<close>

lemmas queue_eval = store_eval queue_defs dispatch_new_def outbound_store_new_def enqueue_message_def
  from_send_queue_size_def A1_ACK_CAPACITY_MULTIPLIER_def A1_ERROR_CAPACITY_MULTIPLIER_def A2_CAPACITY_def sat_mul_def

abbreviation sample_enqueue :: dispatch_op where
  "sample_enqueue \<equiv> DEnqueue (to_message sample_message) 7 10 1 0"

lemma sample_enqueue_ok:
  "fst (enqueue_message (dispatch_new 1 None 0) (to_message sample_message) 7 10 1 0) = Some (Inr 7)"
  by (simp add: queue_eval)

theorem senders_answered_once_witness:
  "accepted_channels (dispatch_new 1 None 0) [sample_enqueue] = {#7#}
   \<and> held_tokens (po_state (dispatch_step (dispatch_new 1 None 0) sample_enqueue))
       + effect_tokens (po_sent (dispatch_step (dispatch_new 1 None 0) sample_enqueue)) = {#7#}"
proof -
  have acc: "accepted_channels (dispatch_new 1 None 0) [sample_enqueue] = {#7#}"
    using sample_enqueue_ok by simp
  have "(1 :: nat) \<le> u64_max" by simp
  from senders_answered_once [OF this refl refl, of None 0 "[sample_enqueue]"] acc show ?thesis by simp
qed

theorem work_is_signalled_witness:
  "let t = foldl transmit_step (transmit_new (dispatch_new 1 None 0)) [StartTransmitter 3, QueueOp sample_enqueue, TakePermit 3]
   in (\<exists>claim q. queue_claim_next (ts_queue t) 3 = (Some claim, q))"
proof -
  let ?t = "foldl transmit_step (transmit_new (dispatch_new 1 None 0)) [StartTransmitter 3, QueueOp sample_enqueue, TakePermit 3]"
  have "(1 :: nat) \<le> u64_max" by simp
  moreover have "has_dispatchable_work (po_state (ts_queue ?t))" by (simp add: queue_eval transmit_new_def Let_def)
  ultimately have "\<forall>c \<in> ts_running ?t. \<exists>claim q. queue_claim_next (ts_queue ?t) c = (Some claim, q)"
    using work_is_signalled [OF _ refl] by blast
  moreover have "3 \<in> ts_running ?t" by (simp add: queue_eval transmit_new_def Let_def)
  ultimately show ?thesis unfolding Let_def by blast
qed

text \<open>
  The wake-up of a message goes to a transmitter that is being closed: it takes the permit, finds the request to
  close and leaves. The message can be dispatched, but no permit is set and nobody is awake; the other
  transmitter takes the message when its keepalive timer ticks.
\<close>

lemma permit_lost:
  fixes t :: transmit_sys
  defines "t \<equiv> foldl transmit_step (transmit_new (dispatch_new 1 None 0))
     [StartTransmitter 3, StartTransmitter 4, QueueOp sample_enqueue, TakePermit 3, QueueOp (DRequestClose 3), CloseIntentTurn 3]"
  shows "has_dispatchable_work (po_state (ts_queue t)) \<and> \<not> po_available (ts_queue t) \<and> ts_awake t = {} \<and> ts_lost t \<and> ts_running t = {4}"
  by (auto simp: t_def queue_eval transmit_new_def leave_loop_def request_close_def take_close_intent_def Let_def)

lemma sample_queue_reachable: "reachable_queue (foldl dispatch_step (dispatch_new 1 None 0) xs)"
proof -
  have "(1 :: nat) \<le> u64_max" by simp
  then show ?thesis unfolding reachable_queue_def by blast
qed

theorem enqueue_outcomes_witness:
  "fst (enqueue_message (dispatch_step (dispatch_new 1 None 0) sample_enqueue) (to_message sample_message) 8 10 1 0)
     = Some (Inl (err_new ProtocolViolation))"
proof -
  let ?q = "foldl dispatch_step (dispatch_new 1 None 0) [sample_enqueue]"
  have "contains_tracked (po_state ?q) 5" "\<not> st_shutdown (po_state ?q)"
    by (simp_all add: queue_eval contains_tracked_def)
  moreover have "pm_peer_msg_id (to_message sample_message) = 5" by (simp add: sample_message_def)
  moreover obtain r q' where e: "enqueue_message ?q (to_message sample_message) 8 10 1 0 = (r, q')" by fastforce
  ultimately have "r = Some (Inl (err_new ProtocolViolation))"
    using enqueue_outcomes [OF sample_queue_reachable e] by simp
  with e show ?thesis by simp
qed

theorem close_request_delivered_witness:
  "fst (take_close_intent (dispatch_step (request_close (close_notifier (dispatch_new 1 None 0) 3) 3) sample_enqueue) 3)"
  using close_request_delivered [of "[sample_enqueue]" 3 _ "close_notifier (dispatch_new 1 None 0) 3", OF _ refl] by simp

theorem claim_frame_faithful_witness:
  "\<exists>claim. fst (queue_claim_next (dispatch_step (dispatch_new 1 None 0) sample_enqueue) 3) = Some claim
     \<and> (\<exists>s x. store_slot (po_state (dispatch_step (dispatch_new 1 None 0) sample_enqueue)) (rc_slot claim) = Some s
          \<and> rs_item s = Some x)"
proof -
  let ?q = "foldl dispatch_step (dispatch_new 1 None 0) [sample_enqueue]"
  have "has_dispatchable_work (po_state ?q)" by (simp add: queue_eval)
  moreover have "store_inv (po_state ?q)" using sample_queue_reachable by (rule reachable_queue_inv)
  moreover obtain c q' where c: "queue_claim_next ?q 3 = (c, q')" by fastforce
  ultimately obtain claim where claim: "c = Some claim" using claim_finds_work by blast
  with claim_frame_faithful [OF sample_queue_reachable, of "[sample_enqueue]" 3 claim q'] c show ?thesis by auto
qed

end
