(* ===== verification/Dedupe.thy ===== *)
theory Dedupe
  imports Ids
begin

text \<open>
  Suppression of duplicate inbound messages (\<^verbatim>\<open>src/crates/peering/src/session.rs\<close>): a bounded history of
  the identifiers of delivered messages, and for each message being delivered the list of duplicates
  that wait for its outcome. Each operation is one critical section of the code's mutex. A waiter is the
  number of its oneshot channel and the number of the \<open>Notify\<close> to signal.
\<close>

section \<open>State and operations\<close>

definition MIN_DEDUPE_HISTORY :: nat where
  "MIN_DEDUPE_HISTORY = 128"

definition dedupe_limit :: "nat \<Rightarrow> nat" where
  "dedupe_limit send_queue_size = max (sat_mul send_queue_size 2) MIN_DEDUPE_HISTORY"

datatype dedupe_decision = DecideAck | DecideError aurelia_error | DecideAbandoned

record dedupe_waiter =
  dw_tx :: nat
  dw_notify :: "nat option"

record dedupe_state =
  dd_set :: "peer_message_id set"
  dd_order :: "peer_message_id list"
  dd_pending :: "(peer_message_id \<times> dedupe_waiter list) list"

definition dedupe_new :: dedupe_state where
  "dedupe_new = \<lparr>dd_set = {}, dd_order = [], dd_pending = []\<rparr>"

definition dedupe_clear :: "dedupe_state \<Rightarrow> dedupe_state" where
  "dedupe_clear st = \<lparr>dd_set = {}, dd_order = [], dd_pending = []\<rparr>"

datatype dedupe_begin_result = BeginNew | BeginDuplicate dedupe_decision | BeginPendingDuplicate nat

text \<open>\<open>tx\<close> is the channel that a waiting duplicate would create.\<close>

definition dedupe_begin ::
  "dedupe_state \<Rightarrow> peer_message_id \<Rightarrow> nat \<Rightarrow> nat option \<Rightarrow> dedupe_begin_result \<times> dedupe_state" where
  "dedupe_begin st pmid tx notify =
     (if pmid \<in> dd_set st then (BeginDuplicate DecideAck, st)
      else case map_of (dd_pending st) pmid of
        Some waiters \<Rightarrow>
          (BeginPendingDuplicate tx,
           st\<lparr>dd_pending := AList.update pmid (waiters @ [\<lparr>dw_tx = tx, dw_notify = notify\<rparr>]) (dd_pending st)\<rparr>)
      | None \<Rightarrow> (BeginNew, st\<lparr>dd_pending := AList.update pmid [] (dd_pending st)\<rparr>))"

text \<open>The loop \<open>while order.len() > limit { pop_front; set.remove }\<close>.\<close>

fun evict :: "nat \<Rightarrow> peer_message_id list \<Rightarrow> peer_message_id set \<Rightarrow> peer_message_id list \<times> peer_message_id set" where
  "evict limit [] s = ([], s)"
| "evict limit (p # order) s =
     (if length (p # order) > limit then evict limit order (s - {p}) else (p # order, s))"

definition take_waiters :: "dedupe_state \<Rightarrow> peer_message_id \<Rightarrow> dedupe_waiter list \<times> dedupe_state" where
  "take_waiters st pmid =
     (case map_of (dd_pending st) pmid of None \<Rightarrow> [] | Some ws \<Rightarrow> ws,
      st\<lparr>dd_pending := AList.delete pmid (dd_pending st)\<rparr>)"

definition decision_of :: "unit result \<Rightarrow> dedupe_decision" where
  "decision_of r = (case r of Inr _ \<Rightarrow> DecideAck | Inl err \<Rightarrow> DecideError err)"

text \<open>The result is the list of answers: the waiter and the decision sent to it.\<close>

definition dedupe_complete ::
  "dedupe_state \<Rightarrow> peer_message_id \<Rightarrow> unit result \<Rightarrow> nat \<Rightarrow> (dedupe_waiter \<times> dedupe_decision) list \<times> dedupe_state" where
  "dedupe_complete st pmid r send_queue_size =
     (let (waiters, st) = take_waiters st pmid;
          st = (if (\<exists>u. r = Inr u) \<and> pmid \<notin> dd_set st
                then let (order, s) = evict (dedupe_limit send_queue_size) (dd_order st @ [pmid]) (insert pmid (dd_set st))
                     in st\<lparr>dd_order := order, dd_set := s\<rparr>
                else st)
      in (map (\<lambda>w. (w, decision_of r)) waiters, st))"

definition dedupe_abandon ::
  "dedupe_state \<Rightarrow> peer_message_id \<Rightarrow> (dedupe_waiter \<times> dedupe_decision) list \<times> dedupe_state" where
  "dedupe_abandon st pmid =
     (let (waiters, st) = take_waiters st pmid in (map (\<lambda>w. (w, DecideAbandoned)) waiters, st))"

section \<open>The history\<close>

lemma evict_eq:
  "distinct order \<Longrightarrow> evict limit order s = (drop (length order - limit) order, s - set (take (length order - limit) order))"
proof (induction limit order s rule: evict.induct)
  case (1 limit s)
  then show ?case by simp
next
  case (2 limit p order s)
  show ?case
  proof (cases "length (p # order) > limit")
    case True
    then have "length (p # order) - limit = Suc (length order - limit)" by simp
    with 2 True show ?thesis by auto
  qed simp
qed

definition dedupe_inv :: "dedupe_state \<Rightarrow> bool" where
  "dedupe_inv st \<longleftrightarrow> distinct (dd_order st) \<and> set (dd_order st) = dd_set st
     \<and> distinct (map fst (dd_pending st)) \<and> dd_set st \<inter> set (map fst (dd_pending st)) = {}"

lemma dedupe_inv_new [simp]: "dedupe_inv dedupe_new" "dedupe_inv (dedupe_clear st)"
  by (simp_all add: dedupe_inv_def dedupe_new_def dedupe_clear_def)

lemma dom_pending: "map_of m p = None \<longleftrightarrow> p \<notin> set (map fst m)"
  by (simp add: map_of_eq_None_iff)

lemma keys_delete: "set (map fst (AList.delete p m)) = set (map fst m) - {p}"
  unfolding delete_keys by simp

lemma keys_update: "set (map fst (AList.update p v m)) = insert p (set (map fst m))"
  using dom_update [of p v m] by simp

lemma dedupe_begin_inv: "dedupe_inv st \<Longrightarrow> dedupe_inv (snd (dedupe_begin st p tx n))"
proof -
  assume inv: "dedupe_inv st"
  have "insert p (set (map fst (dd_pending st))) \<inter> dd_set st = {}" if "p \<notin> dd_set st"
    using inv that by (auto simp: dedupe_inv_def)
  with inv show ?thesis
    unfolding dedupe_begin_def
    by (auto simp: dedupe_inv_def distinct_update keys_update simp del: set_map split: option.splits)
qed

lemma take_waiters_inv: "dedupe_inv st \<Longrightarrow> dedupe_inv (snd (take_waiters st p))"
  unfolding take_waiters_def
  by (auto simp: dedupe_inv_def distinct_delete keys_delete simp del: set_map)

lemma history_after:
  assumes "dedupe_inv st" and "p \<notin> dd_set st"
  shows "evict limit (dd_order st @ [p]) (insert p (dd_set st)) =
    (drop (Suc (length (dd_order st)) - limit) (dd_order st @ [p]),
     set (drop (Suc (length (dd_order st)) - limit) (dd_order st @ [p])))"
proof -
  let ?o = "dd_order st @ [p]" and ?k = "Suc (length (dd_order st)) - limit"
  have d: "distinct ?o" and s: "insert p (dd_set st) = set ?o" using assms by (auto simp: dedupe_inv_def)
  have "set ?o - set (take ?k ?o) = set (drop ?k ?o)"
  proof -
    have "set ?o = set (take ?k ?o) \<union> set (drop ?k ?o)" by (metis append_take_drop_id set_append)
    with set_take_disj_set_drop_if_distinct [OF d order_refl, of ?k] show ?thesis by blast
  qed
  with evict_eq [OF d] s show ?thesis by simp
qed

lemma dedupe_complete_inv:
  assumes inv: "dedupe_inv st"
  shows "dedupe_inv (snd (dedupe_complete st p r n))"
proof -
  obtain ws st1 where t: "take_waiters st p = (ws, st1)" by fastforce
  have inv1: "dedupe_inv st1" using take_waiters_inv [OF inv, of p] t by simp
  have out: "p \<notin> set (map fst (dd_pending st1))"
    using t by (auto simp: take_waiters_def keys_delete simp del: set_map)
  show ?thesis
  proof (cases "(\<exists>u. r = Inr u) \<and> p \<notin> dd_set st1")
    case False
    with t inv1 show ?thesis by (auto simp: dedupe_complete_def Let_def)
  next
    case True
    let ?k = "Suc (length (dd_order st1)) - dedupe_limit n"
    have "set (drop ?k (dd_order st1 @ [p])) \<subseteq> insert p (dd_set st1)"
      using inv1 set_drop_subset [of ?k "dd_order st1 @ [p]"] by (auto simp: dedupe_inv_def)
    moreover have "distinct (dd_order st1 @ [p])" using inv1 True by (auto simp: dedupe_inv_def)
    moreover have "insert p (dd_set st1) \<inter> set (map fst (dd_pending st1)) = {}"
      using inv1 out by (simp add: dedupe_inv_def)
    ultimately have "set (drop ?k (dd_order st1 @ [p])) \<inter> set (map fst (dd_pending st1)) = {}"
      "distinct (drop ?k (dd_order st1 @ [p]))" by (blast, blast intro: distinct_drop)
    then show ?thesis
      using t True inv1 history_after [OF inv1, of p "dedupe_limit n"]
      by (simp add: dedupe_complete_def Let_def dedupe_inv_def del: drop_append set_map)
  qed
qed

lemma dedupe_abandon_inv: "dedupe_inv st \<Longrightarrow> dedupe_inv (snd (dedupe_abandon st p))"
  using take_waiters_inv [of st p] by (simp add: dedupe_abandon_def split_beta)


section \<open>The machine\<close>

datatype dedupe_op =
    BeginOp peer_message_id nat "nat option"
  | CompleteOp peer_message_id "unit result" nat
  | AbandonOp peer_message_id
  | ClearOp

fun dedupe_step :: "dedupe_state \<Rightarrow> dedupe_op \<Rightarrow> dedupe_state" where
  "dedupe_step st (BeginOp p tx n) = snd (dedupe_begin st p tx n)"
| "dedupe_step st (CompleteOp p r n) = snd (dedupe_complete st p r n)"
| "dedupe_step st (AbandonOp p) = snd (dedupe_abandon st p)"
| "dedupe_step st ClearOp = dedupe_clear st"

definition waiting_txs :: "dedupe_state \<Rightarrow> nat multiset" where
  "waiting_txs st = mset (map dw_tx (concat (map snd (dd_pending st))))"

fun new_waiter :: "dedupe_state \<Rightarrow> dedupe_op \<Rightarrow> nat multiset" where
  "new_waiter st (BeginOp p tx n) = (case fst (dedupe_begin st p tx n) of BeginPendingDuplicate t \<Rightarrow> {#t#} | _ \<Rightarrow> {#})"
| "new_waiter st _ = {#}"

text \<open>The waiters an operation answers; those a fresh session drops see their channel closed.\<close>

fun answered :: "dedupe_state \<Rightarrow> dedupe_op \<Rightarrow> nat multiset" where
  "answered st (BeginOp p tx n) = {#}"
| "answered st (CompleteOp p r n) = mset (map (dw_tx \<circ> fst) (fst (dedupe_complete st p r n)))"
| "answered st (AbandonOp p) = mset (map (dw_tx \<circ> fst) (fst (dedupe_abandon st p)))"
| "answered st ClearOp = waiting_txs st"

lemma concat_update:
  "distinct (map fst m) \<Longrightarrow>
     mset (concat (map snd (AList.update p v m))) + mset (case map_of m p of None \<Rightarrow> [] | Some w \<Rightarrow> w)
     = mset (concat (map snd m)) + mset v"
  by (induction m) (auto simp: map_of_eq_None_iff [THEN iffD2] ac_simps split: option.splits)

lemma concat_delete:
  "distinct (map fst m) \<Longrightarrow>
     mset (concat (map snd (AList.delete p m))) + mset (case map_of m p of None \<Rightarrow> [] | Some w \<Rightarrow> w)
     = mset (concat (map snd m))"
proof (induction m)
  case (Cons a m)
  have "AList.delete p m = m" if "p \<notin> fst ` set m"
    using that by (induction m) (auto simp: AList.delete_eq)
  with Cons show ?case
    by (cases a) (auto simp: AList.delete_eq map_of_eq_None_iff [THEN iffD2] ac_simps split: option.splits)
qed (simp add: AList.delete_eq)

lemma take_waiters_conserve:
  assumes "dedupe_inv st" and "take_waiters st p = (ws, st')"
  shows "waiting_txs st' + mset (map dw_tx ws) = waiting_txs st"
proof -
  have d: "distinct (map fst (dd_pending st))" using assms(1) by (simp add: dedupe_inv_def)
  have "image_mset dw_tx (mset (concat (map snd (AList.delete p (dd_pending st))))
      + mset (case map_of (dd_pending st) p of None \<Rightarrow> [] | Some w \<Rightarrow> w))
    = image_mset dw_tx (mset (concat (map snd (dd_pending st))))"
    using concat_delete [OF d] by simp
  with assms(2) show ?thesis by (auto simp: take_waiters_def waiting_txs_def)
qed

lemma dedupe_conserve:
  assumes inv: "dedupe_inv st"
  shows "waiting_txs (dedupe_step st x) + answered st x = waiting_txs st + new_waiter st x"
proof (cases x)
  case (BeginOp p tx n)
  have d: "distinct (map fst (dd_pending st))" using inv by (simp add: dedupe_inv_def)
  have up: "image_mset dw_tx (mset (concat (map snd (AList.update p v (dd_pending st))))
      + mset (case map_of (dd_pending st) p of None \<Rightarrow> [] | Some w \<Rightarrow> w))
    = image_mset dw_tx (mset (concat (map snd (dd_pending st))) + mset v)" for v
    using concat_update [OF d] by simp
  from up [of "[]"] up [of "the (map_of (dd_pending st) p) @ [\<lparr>dw_tx = tx, dw_notify = n\<rparr>]"] BeginOp show ?thesis
    by (auto simp: dedupe_begin_def waiting_txs_def split: option.splits)
next
  case (CompleteOp p r n)
  obtain ws st1 where t: "take_waiters st p = (ws, st1)" by fastforce
  have "waiting_txs (snd (dedupe_complete st p r n)) = waiting_txs st1"
    "fst (dedupe_complete st p r n) = map (\<lambda>w. (w, decision_of r)) ws"
    using t by (simp_all add: dedupe_complete_def Let_def waiting_txs_def split_beta)
  with take_waiters_conserve [OF inv t] CompleteOp show ?thesis by (simp add: comp_def)
next
  case (AbandonOp p)
  obtain ws st1 where t: "take_waiters st p = (ws, st1)" by fastforce
  with take_waiters_conserve [OF inv t] AbandonOp show ?thesis by (simp add: dedupe_abandon_def comp_def)
next
  case ClearOp
  then show ?thesis by (simp add: waiting_txs_def dedupe_clear_def)
qed

interpretation dedupe: conserving_machine "\<lambda>st. st = dedupe_new" dedupe_step dedupe_inv waiting_txs new_waiter answered
proof
  fix st x assume inv: "dedupe_inv st"
  then show "dedupe_inv (dedupe_step st x)"
    by (cases x) (simp_all add: dedupe_begin_inv dedupe_complete_inv dedupe_abandon_inv)
  from inv show "waiting_txs (dedupe_step st x) + answered st x = waiting_txs st + new_waiter st x"
    by (rule dedupe_conserve)
qed simp

section \<open>Properties\<close>

definition reachable_dedupe :: "dedupe_state \<Rightarrow> bool" where
  "reachable_dedupe st \<longleftrightarrow> (\<exists>xs. st = foldl dedupe_step dedupe_new xs)"

lemma reachable_dedupe_inv: "reachable_dedupe st \<Longrightarrow> dedupe_inv st"
  unfolding reachable_dedupe_def using dedupe.invar_reachable by blast

text \<open>
  C33. A message is taken for new exactly when its identifier is neither in the history nor being
  delivered; while one copy is being delivered every other copy waits for its outcome; a copy of a
  remembered message is acknowledged at once. The history never repeats an identifier, never holds one
  that is being delivered, and its set and its queue agree.
\<close>

theorem dedupe_decides:
  assumes "reachable_dedupe st"
  shows "fst (dedupe_begin st p tx n) =
      (if p \<in> set (dd_order st) then BeginDuplicate DecideAck
       else if p \<in> set (map fst (dd_pending st)) then BeginPendingDuplicate tx else BeginNew)
    \<and> distinct (dd_order st) \<and> set (dd_order st) = dd_set st
    \<and> set (dd_order st) \<inter> set (map fst (dd_pending st)) = {}
    \<and> fst (dedupe_begin (snd (dedupe_begin st p tx n)) p tx' n') \<noteq> BeginNew"
proof -
  have inv: "dedupe_inv st" using assms by (rule reachable_dedupe_inv)
  then have set: "set (dd_order st) = dd_set st" by (simp add: dedupe_inv_def)
  show ?thesis
    using inv dom_pending [of "dd_pending st" p]
    by (auto simp: dedupe_begin_def dedupe_inv_def set update_conv' split: option.splits)
qed

text \<open>How many operations of a run may push an identifier into the history.\<close>

definition pushes :: "dedupe_op list \<Rightarrow> nat" where
  "pushes xs = length (filter (\<lambda>x. case x of CompleteOp _ (Inr _) _ \<Rightarrow> True | _ \<Rightarrow> False) xs)"

definition limits_at_least :: "nat \<Rightarrow> dedupe_op list \<Rightarrow> bool" where
  "limits_at_least k xs \<longleftrightarrow>
     (\<forall>x \<in> set xs. case x of CompleteOp _ _ n \<Rightarrow> k \<le> dedupe_limit n | ClearOp \<Rightarrow> False | _ \<Rightarrow> True)"

text \<open>The identifier is in the history, with at most \<open>k\<close> younger ones behind it.\<close>

definition within :: "nat \<Rightarrow> peer_message_id \<Rightarrow> dedupe_state \<Rightarrow> bool" where
  "within k p st \<longleftrightarrow> (\<exists>pre post. dd_order st = pre @ p # post \<and> length post \<le> k)"

lemma within_mono: "within k p st \<Longrightarrow> k \<le> k' \<Longrightarrow> within k' p st"
  unfolding within_def using le_trans by blast

lemma drop_keeps_tail:
  assumes "n + length (p # post) \<le> length (pre @ p # post)"
  shows "\<exists>pre'. drop n (pre @ p # post) = pre' @ p # post"
  using assms by (intro exI [of _ "drop n pre"]) simp

lemma within_complete:
  assumes inv: "dedupe_inv st" and w: "within k p st" and lim: "Suc k < dedupe_limit n"
  shows "within (Suc k) p (snd (dedupe_complete st q (Inr u) n))"
proof -
  obtain ws st1 where t: "take_waiters st q = (ws, st1)" by fastforce
  have inv1: "dedupe_inv st1" using take_waiters_inv [OF inv, of q] t by simp
  have same: "dd_order st1 = dd_order st" "dd_set st1 = dd_set st" using t by (auto simp: take_waiters_def)
  obtain pre post where o1: "dd_order st = pre @ p # post" "length post \<le> k" using w by (auto simp: within_def)
  show ?thesis
  proof (cases "q \<in> dd_set st")
    case True
    with t same o1 show ?thesis by (auto simp: dedupe_complete_def Let_def within_def intro: le_SucI)
  next
    case False
    let ?k = "Suc (length (dd_order st1)) - dedupe_limit n"
    have "dd_order st1 @ [q] = pre @ p # (post @ [q])" using o1 same by simp
    moreover have "?k + length (p # post @ [q]) \<le> length (pre @ p # (post @ [q]))"
      using o1 same lim by simp
    ultimately obtain pre' where "drop ?k (dd_order st1 @ [q]) = pre' @ p # (post @ [q])"
      using drop_keeps_tail [of ?k p "post @ [q]" pre] by auto
    with t False same history_after [OF inv1, of q "dedupe_limit n"]
    have "dd_order (snd (dedupe_complete st q (Inr u) n)) = pre' @ p # (post @ [q])"
      by (simp add: dedupe_complete_def Let_def del: drop_append)
    moreover have "length (post @ [q]) \<le> Suc k" using o1(2) by simp
    ultimately show ?thesis unfolding within_def by blast
  qed
qed

lemma within_step:
  assumes inv: "dedupe_inv st" and w: "within k p st" and lim: "limits_at_least m [x]" "Suc k < m"
  shows "within (k + pushes [x]) p (dedupe_step st x)"
proof (cases x)
  case (CompleteOp q r n)
  show ?thesis
  proof (cases r)
    case (Inl e)
    with CompleteOp w show ?thesis
      by (auto simp: dedupe_complete_def take_waiters_def within_def pushes_def Let_def)
  next
    case (Inr u)
    with CompleteOp within_complete [OF inv w] lim show ?thesis by (simp add: limits_at_least_def pushes_def)
  qed
qed (use w lim in \<open>auto simp: limits_at_least_def dedupe_begin_def dedupe_abandon_def take_waiters_def within_def pushes_def
      split: option.splits\<close>)

lemma within_run:
  "dedupe_inv st \<Longrightarrow> within k p st \<Longrightarrow> limits_at_least m xs \<Longrightarrow> k + pushes xs < m \<Longrightarrow>
     within (k + pushes xs) p (foldl dedupe_step st xs) \<and> dedupe_inv (foldl dedupe_step st xs)"
proof (induction xs arbitrary: st k)
  case Nil
  then show ?case by (simp add: pushes_def)
next
  case (Cons x xs)
  have inv1: "dedupe_inv (dedupe_step st x)" using Cons.prems(1) by (rule dedupe.invar_step)
  have p: "pushes (x # xs) = pushes [x] + pushes xs" by (simp add: pushes_def)
  have l: "limits_at_least m [x]" "limits_at_least m xs" using Cons.prems(3) by (simp_all add: limits_at_least_def)
  show ?case
  proof (cases "Suc k < m")
    case True
    from within_step [OF Cons.prems(1,2) l(1) True] have "within (k + pushes [x]) p (dedupe_step st x)" .
    from Cons.IH [OF inv1 this l(2)] Cons.prems(4) p show ?thesis by (simp add: add.assoc)
  next
    case False
    then have "pushes [x] = 0" using Cons.prems(4) p by simp
    moreover have "within k p (dedupe_step st x)"
      using calculation Cons.prems(2) l(1)
      by (cases x) (auto simp: limits_at_least_def dedupe_begin_def dedupe_abandon_def dedupe_complete_def take_waiters_def
          within_def pushes_def Let_def split: option.splits sum.splits)
    ultimately show ?thesis using Cons.IH [OF inv1 _ l(2), of k] Cons.prems(4) p by simp
  qed
qed

text \<open>
  C4. No second delivery inside the window: once a message has been delivered, a replayed copy is
  recognised and only acknowledged as long as the session is not restarted and fewer messages than the
  size of the history have been delivered since, whatever else happens in between.
\<close>

theorem duplicates_suppressed:
  assumes "reachable_dedupe st" and "m \<le> dedupe_limit n" and "0 < m" and "limits_at_least m xs" and "pushes xs < m"
    and "st' = foldl dedupe_step (snd (dedupe_complete st p (Inr ()) n)) xs"
    and "p \<notin> dd_set st"
  shows "fst (dedupe_begin st' p tx notify) = BeginDuplicate DecideAck"
proof -
  have inv: "dedupe_inv st" using assms(1) by (rule reachable_dedupe_inv)
  obtain ws st1 where t: "take_waiters st p = (ws, st1)" by fastforce
  have inv1: "dedupe_inv st1" using take_waiters_inv [OF inv, of p] t by simp
  have same: "dd_order st1 = dd_order st" "dd_set st1 = dd_set st" using t by (auto simp: take_waiters_def)
  let ?st2 = "snd (dedupe_complete st p (Inr ()) n)" and ?k = "Suc (length (dd_order st1)) - dedupe_limit n"
  have "?k + length [p] \<le> length (dd_order st1 @ p # [])" using assms(2,3) by simp
  then obtain pre where "drop ?k (dd_order st1 @ [p]) = pre @ p # []"
    using drop_keeps_tail [of ?k p "[]" "dd_order st1"] by auto
  then have "within 0 p ?st2"
    using t same assms(7) history_after [OF inv1, of p "dedupe_limit n"]
    by (auto simp: dedupe_complete_def Let_def within_def simp del: drop_append)
  moreover have inv2: "dedupe_inv ?st2" using inv by (rule dedupe_complete_inv)
  ultimately have "within (0 + pushes xs) p st' \<and> dedupe_inv st'"
    unfolding assms(6) using assms(4,5) by (intro within_run) simp_all
  then have "p \<in> dd_set st'" by (auto simp: within_def dedupe_inv_def)
  then show ?thesis by (simp add: dedupe_begin_def)
qed

text \<open>
  Every waiting duplicate is answered exactly once: over any run the channels of the duplicates that
  began to wait are those answered so far, with those dropped by a session restart, together with those
  still waiting.
\<close>

theorem duplicate_waiters_answered:
  "waiting_txs (foldl dedupe_step dedupe_new xs) + total_over dedupe_step answered dedupe_new xs
     = total_over dedupe_step new_waiter dedupe_new xs"
proof -
  have "waiting_txs dedupe_new = {#}" by (simp add: waiting_txs_def dedupe_new_def)
  with dedupe.conserve_run [OF dedupe_inv_new(1), of xs] show ?thesis by simp
qed

text \<open>
  A completion that arrives after the session was restarted is remembered: the identifier of a message
  of the old session enters the cleared history, and a message of the new session with that identifier is
  acknowledged as a duplicate although it was never delivered.
\<close>

theorem stale_completion_remembered:
  assumes "fst (dedupe_begin st p tx notify) = BeginNew"
  shows "fst (dedupe_begin (foldl dedupe_step st [BeginOp p tx notify, ClearOp, CompleteOp p (Inr ()) n]) p tx' notify')
    = BeginDuplicate DecideAck"
proof -
  have "1 \<le> dedupe_limit n" by (simp add: dedupe_limit_def MIN_DEDUPE_HISTORY_def)
  then show ?thesis
    by (simp add: dedupe_clear_def dedupe_complete_def take_waiters_def dedupe_begin_def Let_def)
qed


section \<open>Small runs\<close>

lemma dedupe_new_reachable: "reachable_dedupe dedupe_new"
  unfolding reachable_dedupe_def by (rule exI [of _ "[]"]) simp

theorem dedupe_decides_witness:
  "fst (dedupe_begin dedupe_new 5 1 None) = BeginNew
   \<and> fst (dedupe_begin (snd (dedupe_begin dedupe_new 5 1 None)) 5 2 None) \<noteq> BeginNew"
  using dedupe_decides [OF dedupe_new_reachable, of 5 1 None 2 None] by (simp add: dedupe_new_def)

theorem duplicates_suppressed_witness:
  "fst (dedupe_begin (foldl dedupe_step (snd (dedupe_complete dedupe_new 5 (Inr ()) 1)) [BeginOp 6 1 None, CompleteOp 6 (Inr ()) 1])
     5 2 None) = BeginDuplicate DecideAck"
proof -
  have "limits_at_least 100 [BeginOp 6 1 None, CompleteOp 6 (Inr ()) 1]" "(100 :: nat) \<le> dedupe_limit 1"
    by (simp_all add: limits_at_least_def dedupe_limit_def MIN_DEDUPE_HISTORY_def)
  moreover have "pushes [BeginOp 6 1 None, CompleteOp 6 (Inr ()) 1] < 100" by (simp add: pushes_def)
  moreover have "(5 :: peer_message_id) \<notin> dd_set dedupe_new" by (simp add: dedupe_new_def)
  ultimately show ?thesis
    by - (rule duplicates_suppressed [OF dedupe_new_reachable, where m = 100 and n = 1], (assumption | rule refl | simp)+)
qed

theorem stale_completion_remembered_witness:
  "fst (dedupe_begin (foldl dedupe_step dedupe_new [BeginOp 0 1 None, ClearOp, CompleteOp 0 (Inr ()) 16]) 0 2 None)
     = BeginDuplicate DecideAck"
  by (rule stale_completion_remembered) (simp add: dedupe_begin_def dedupe_new_def)

end
