(* ===== verification/Gates.thy ===== *)
theory Gates
  imports Ids
begin

text \<open>
  The counters that concurrent tasks share through atomic instructions
  (\<^verbatim>\<open>src/crates/peering/src/transport/mod.rs\<close> and \<^verbatim>\<open>limits.rs\<close>): the two limits on handshakes in progress,
  the tracker of open calles with its wait for zero, and the tracker of blob buffer bytes. A task is the
  place it has reached in the code; one step of it performs one atomic instruction and the computation on
  local variables that follows. The tasks of a system interleave their steps in any order.
\<close>

section \<open>Interleaved tasks\<close>

inductive interleave :: "('s \<Rightarrow> 'p \<Rightarrow> 's \<Rightarrow> 'p \<Rightarrow> bool) \<Rightarrow> 's \<times> 'p list \<Rightarrow> 's \<times> 'p list \<Rightarrow> bool"
  for run :: "'s \<Rightarrow> 'p \<Rightarrow> 's \<Rightarrow> 'p \<Rightarrow> bool" where
  "i < length ts \<Longrightarrow> run s (ts ! i) s' p \<Longrightarrow> interleave run (s, ts) (s', ts[i := p])"

inductive_cases interleaveE: "interleave run (s, ts) (s', ts')"

definition weights :: "('p \<Rightarrow> nat) \<Rightarrow> 'p list \<Rightarrow> nat" where
  "weights f ts = sum_list (map f ts)"

lemma weights_update: "i < length ts \<Longrightarrow> weights f (ts[i := p]) + f (ts ! i) = weights f ts + f p"
proof (induction ts arbitrary: i)
  case (Cons t ts)
  then show ?case by (cases i) (auto simp: weights_def)
qed simp

lemma weight_le_weights: "i < length ts \<Longrightarrow> f (ts ! i) \<le> weights f ts"
  using elem_le_sum_list [of i "map f ts"] by (simp add: weights_def)

lemma weights_mono: "(\<And>p. f p \<le> g p) \<Longrightarrow> weights f ts \<le> weights g ts"
  unfolding weights_def by (rule sum_list_mono)

lemma weights_zero: "(\<forall>p \<in> set ts. f p = 0) \<Longrightarrow> weights f ts = 0"
  unfolding weights_def by simp

lemma weights_le_length: "(\<And>p. f p \<le> 1) \<Longrightarrow> weights f ts \<le> length ts"
  using weights_mono [of f "\<lambda>_. 1" ts] by (simp add: weights_def sum_list_triv)

lemma interleave_length: "(interleave run)\<^sup>*\<^sup>* (s, ts) (s', ts') \<Longrightarrow> length ts' = length ts"
  by (induction "(s', ts')" arbitrary: s' ts' rule: rtranclp_induct) (auto elim!: interleaveE)

text \<open>
  A shared counter to which every task contributes its weight: a step changes the counter by the
  change of the task's own weight. Then the counter is the sum of the weights whatever the interleaving.
\<close>

locale counted_tasks =
  fixes run :: "'s \<Rightarrow> 'p \<Rightarrow> 's \<Rightarrow> 'p \<Rightarrow> bool"
    and count :: "'s \<Rightarrow> nat"
    and weight :: "'p \<Rightarrow> nat"
  assumes step_count: "run s p s' p' \<Longrightarrow> weight p \<le> count s \<Longrightarrow> count s' + weight p = count s + weight p'"
begin

lemma counted_step:
  assumes "interleave run (s, ts) (s', ts')" and "count s = weights weight ts"
  shows "count s' = weights weight ts'"
  using assms(1)
proof (rule interleaveE)
  fix i p assume i: "i < length ts" "run s (ts ! i) s' p" "ts' = ts[i := p]"
  have "weight (ts ! i) \<le> count s" using weight_le_weights [OF i(1), of weight] assms(2) by simp
  then have "count s' + weight (ts ! i) = count s + weight p" by (rule step_count [OF i(2)])
  with weights_update [OF i(1), of weight p] i(3) assms(2) show ?thesis by simp
qed

lemma counted:
  "(interleave run)\<^sup>*\<^sup>* (s, ts) (s', ts') \<Longrightarrow> count s = weights weight ts \<Longrightarrow> count s' = weights weight ts'"
  by (induction "(s', ts')" arbitrary: s' ts' rule: rtranclp_induct) (auto intro: counted_step)

end

text \<open>The same for a counter that wraps around, when every task contributes at most one.\<close>

locale unit_tasks =
  fixes run :: "'s \<Rightarrow> 'p \<Rightarrow> 's \<Rightarrow> 'p \<Rightarrow> bool"
    and count :: "'s \<Rightarrow> nat"
    and weight :: "'p \<Rightarrow> nat"
  assumes weight_le: "weight p \<le> 1"
    and step_count: "run s p s' p' \<Longrightarrow> weight p \<le> count s \<Longrightarrow> count s + weight p' \<le> u64_max + weight p \<Longrightarrow>
      count s' + weight p = count s + weight p'"
begin

lemma counted_step:
  assumes "interleave run (s, ts) (s', ts')" and "count s = weights weight ts" and "length ts \<le> u64_max"
  shows "count s' = weights weight ts'"
  using assms(1)
proof (rule interleaveE)
  fix i p assume i: "i < length ts" "run s (ts ! i) s' p" "ts' = ts[i := p]"
  have "weight (ts ! i) \<le> count s" using weight_le_weights [OF i(1), of weight] assms(2) by simp
  moreover have "count s + weight p \<le> u64_max + weight (ts ! i)"
    using weights_update [OF i(1), of weight p] weights_le_length [of weight "ts[i := p]", OF weight_le] assms(2,3) by simp
  ultimately have "count s' + weight (ts ! i) = count s + weight p" by (rule step_count [OF i(2)])
  with weights_update [OF i(1), of weight p] i(3) assms(2) show ?thesis by simp
qed

lemma counted:
  assumes "(interleave run)\<^sup>*\<^sup>* (s, ts) (s', ts')" and "count s = weights weight ts" and "length ts \<le> u64_max"
  shows "count s' = weights weight ts'"
  using assms(1)
proof (induction "(s', ts')" arbitrary: s' ts' rule: rtranclp_induct)
  case base
  with assms(2) show ?case by simp
next
  case (step y)
  obtain s1 ts1 where y: "y = (s1, ts1)" by fastforce
  with step.hyps(1) have "length ts1 \<le> u64_max" using interleave_length assms(3) by metis
  with step y show ?case by (blast intro: counted_step)
qed

end

text \<open>\<open>AtomicUsize::fetch_add\<close> and \<open>fetch_sub\<close>: the value before, and the value after, modulo \<open>2^64\<close>.\<close>

definition fetch_add :: "nat \<Rightarrow> nat \<Rightarrow> nat \<times> nat" where
  "fetch_add a n = (a, (a + n) mod (u64_max + 1))"

definition fetch_sub :: "nat \<Rightarrow> nat \<Rightarrow> nat \<times> nat" where
  "fetch_sub a n = (a, (a + (u64_max + 1) - n) mod (u64_max + 1))"

lemma fetch_add_exact: "a + n \<le> u64_max \<Longrightarrow> fetch_add a n = (a, a + n)"
  by (simp add: fetch_add_def)

lemma fetch_sub_exact: "n \<le> a \<Longrightarrow> a - n \<le> u64_max \<Longrightarrow> fetch_sub a n = (a, a - n)"
proof -
  assume "n \<le> a" "a - n \<le> u64_max"
  then have "a + (u64_max + 1) - n = (a - n) + (u64_max + 1)" "a - n < u64_max + 1" by simp_all
  then show ?thesis unfolding fetch_sub_def by (metis mod_add_self2 mod_less)
qed

section \<open>Limits on handshakes in progress\<close>

text \<open>
  \<open>try_acquire\<close> reads the limit from the configuration, adds one to the counter, and takes the one
  back if the sum exceeds the limit; a permit gives the one back when it is dropped. The same code
  stands behind the limit before authentication and the limit per peer; each counter has its own system.
\<close>

definition acquire_limit :: "nat \<Rightarrow> nat" where
  "acquire_limit configured = max configured 1"

datatype gate_task = GateStart | GateLimit nat | GateOver | GatePermit | GateClosed

definition try_acquire_add :: "nat \<Rightarrow> nat \<Rightarrow> gate_task \<times> nat" where
  "try_acquire_add limit inflight =
     (let (before, inflight) = fetch_add inflight 1; next = before + 1
      in (if next > limit then GateOver else GatePermit, inflight))"

definition try_acquire_undo :: "nat \<Rightarrow> gate_task \<times> nat" where
  "try_acquire_undo inflight = (GateClosed, snd (fetch_sub inflight 1))"

definition permit_drop :: "nat \<Rightarrow> gate_task \<times> nat" where
  "permit_drop inflight = (GateClosed, snd (fetch_sub inflight 1))"

inductive gate_run :: "nat set \<Rightarrow> nat \<Rightarrow> gate_task \<Rightarrow> nat \<Rightarrow> gate_task \<Rightarrow> bool"
  for configs :: "nat set" where
  read: "c \<in> configs \<Longrightarrow> gate_run configs n GateStart n (GateLimit (acquire_limit c))"
| add: "try_acquire_add limit n = (p, n') \<Longrightarrow> gate_run configs n (GateLimit limit) n' p"
| undo: "try_acquire_undo n = (p, n') \<Longrightarrow> gate_run configs n GateOver n' p"
| release: "permit_drop n = (p, n') \<Longrightarrow> gate_run configs n GatePermit n' p"
| again: "gate_run configs n GateClosed n GateStart"

inductive_cases gate_runE: "gate_run configs n p n' p'"

definition counted_in :: "gate_task \<Rightarrow> nat" where
  "counted_in p = (if p = GateOver \<or> p = GatePermit then 1 else 0)"

definition permits :: "gate_task \<Rightarrow> nat" where
  "permits p = (if p = GatePermit then 1 else 0)"

lemma gate_step_count:
  assumes "gate_run configs n p n' p'" and "counted_in p \<le> n" and "n + counted_in p' \<le> u64_max + counted_in p"
  shows "n' + counted_in p = n + counted_in p'"
  using assms
  by (cases rule: gate_run.cases)
    (auto simp: counted_in_def try_acquire_add_def try_acquire_undo_def permit_drop_def Let_def
      fetch_add_exact fetch_sub_exact split: if_splits prod.splits)

interpretation gate: unit_tasks "gate_run configs" "\<lambda>n. n" counted_in for configs
proof
  show "counted_in p \<le> 1" for p by (simp add: counted_in_def)
qed (rule gate_step_count)

definition gate_limits :: "nat \<Rightarrow> gate_task list \<Rightarrow> bool" where
  "gate_limits l ts \<longleftrightarrow> (\<forall>p \<in> set ts. \<forall>m. p = GateLimit m \<longrightarrow> m \<le> l)"

abbreviation gate_reach :: "nat set \<Rightarrow> nat \<Rightarrow> nat \<Rightarrow> gate_task list \<Rightarrow> bool" where
  "gate_reach configs k n ts \<equiv> (interleave (gate_run configs))\<^sup>*\<^sup>* (0, replicate k GateStart) (n, ts)"

lemma gate_counted: "gate_reach configs k n ts \<Longrightarrow> k \<le> u64_max \<Longrightarrow> n = weights counted_in ts"
  by (rule gate.counted, assumption) (simp_all add: weights_zero counted_in_def)

lemma gate_limits_reach:
  assumes "gate_reach configs k n ts" and "\<forall>c \<in> configs. acquire_limit c \<le> l"
  shows "gate_limits l ts"
  using assms(1)
proof (induction "(n, ts)" arbitrary: n ts rule: rtranclp_induct)
  case (step y)
  obtain n1 ts1 where y: "y = (n1, ts1)" by fastforce
  with step have "gate_limits l ts1" "interleave (gate_run configs) (n1, ts1) (n, ts)" by blast+
  then show ?case
    using assms(2)
    by (elim interleaveE gate_runE)
      (auto simp: gate_limits_def try_acquire_add_def try_acquire_undo_def permit_drop_def Let_def
        dest!: set_update_subset_insert [THEN subsetD] split: if_splits prod.splits)
qed (simp add: gate_limits_def)

lemma permits_le_counted: "weights permits ts \<le> weights counted_in ts"
  by (rule weights_mono) (simp add: permits_def counted_in_def)

lemma permits_bounded:
  assumes "gate_reach configs k n ts" and "k \<le> u64_max" and "\<forall>c \<in> configs. acquire_limit c \<le> l"
  shows "weights permits ts \<le> l"
  using assms(1)
proof (induction "(n, ts)" arbitrary: n ts rule: rtranclp_induct)
  case (step y)
  obtain n1 ts1 where y: "y = (n1, ts1)" by fastforce
  have reach: "gate_reach configs k n1 ts1" using step.hyps(1) y by simp
  have lims: "gate_limits l ts1" using gate_limits_reach [OF reach assms(3)] .
  have count: "n = weights counted_in ts"
    using gate_counted [OF _ assms(2)] reach step.hyps(2) y by (meson rtranclp.rtrancl_into_rtrancl)
  have le: "weights permits ts1 \<le> l" using step.hyps(3) y by blast
  from step.hyps(2) [unfolded y] show ?case
  proof (rule interleaveE)
    fix i p assume i: "i < length ts1" "gate_run configs n1 (ts1 ! i) n p" "ts = ts1[i := p]"
    note upd = weights_update [OF i(1), of permits p, folded i(3)]
    show ?thesis
    proof (cases "p = GatePermit")
      case False
      then have "permits p = 0" by (simp add: permits_def)
      with upd le show ?thesis by simp
    next
      case True
      with i(2) obtain limit where g: "ts1 ! i = GateLimit limit" "try_acquire_add limit n1 = (p, n)"
        by (auto elim: gate_run.cases simp: try_acquire_undo_def permit_drop_def)
      then have "limit \<le> l" using lims i(1) by (metis gate_limits_def nth_mem)
      moreover have "n \<le> limit"
      proof -
        have "n1 + 1 \<le> limit" "n = (n1 + 1) mod (u64_max + 1)"
          using g(2) True by (auto simp: try_acquire_add_def fetch_add_def split: if_splits)
        moreover have "(n1 + 1) mod (u64_max + 1) \<le> n1 + 1" by (rule mod_less_eq_dividend)
        ultimately show ?thesis by linarith
      qed
      ultimately show ?thesis using count permits_le_counted [of ts] by simp
    qed
  qed
qed (simp add: weights_zero permits_def)

lemma none_refused:
  assumes "gate_reach configs k n ts" and "k \<le> u64_max" and "\<forall>c \<in> configs. k \<le> acquire_limit c"
  shows "GateOver \<notin> set ts \<and> (\<forall>m. GateLimit m \<in> set ts \<longrightarrow> k \<le> m)"
  using assms(1)
proof (induction "(n, ts)" arbitrary: n ts rule: rtranclp_induct)
  case (step y)
  obtain n1 ts1 where y: "y = (n1, ts1)" by fastforce
  have reach: "gate_reach configs k n1 ts1" using step.hyps(1) y by simp
  have IH: "GateOver \<notin> set ts1" "\<forall>m. GateLimit m \<in> set ts1 \<longrightarrow> k \<le> m" using step.hyps(3) y by blast+
  from step.hyps(2) [unfolded y] show ?case
  proof (rule interleaveE)
    fix i p assume i: "i < length ts1" "gate_run configs n1 (ts1 ! i) n p" "ts = ts1[i := p]"
    have "p \<noteq> GateOver"
    proof
      assume over: "p = GateOver"
      with i(2) obtain limit where g: "ts1 ! i = GateLimit limit" "try_acquire_add limit n1 = (p, n)"
        by (auto elim: gate_run.cases simp: try_acquire_undo_def permit_drop_def)
      then have "k \<le> limit" using IH(2) i(1) by (metis nth_mem)
      moreover have "limit < n1 + 1" using g(2) over by (auto simp: try_acquire_add_def fetch_add_def split: if_splits)
      moreover have "n1 + 1 \<le> k"
      proof -
        have "weights counted_in (ts1[i := GatePermit]) \<le> length (ts1[i := GatePermit])"
          by (rule weights_le_length) (simp add: counted_in_def)
        moreover have "length ts1 = k" using interleave_length [OF reach] by simp
        ultimately show ?thesis
          using weights_update [OF i(1), of counted_in GatePermit] g(1) gate_counted [OF reach assms(2)]
          by (simp add: counted_in_def)
      qed
      ultimately show False by simp
    qed
    moreover have "k \<le> m" if "p = GateLimit m" for m
      using i(2) assms(3) that
      by (auto elim: gate_run.cases simp: try_acquire_add_def try_acquire_undo_def permit_drop_def Let_def split: if_splits prod.splits)
    ultimately show ?thesis using IH i(3) by (auto dest!: set_update_subset_insert [THEN subsetD])
  qed
qed simp

text \<open>
  The limits on handshakes hold under every interleaving: with any number of tasks racing on the
  counter, no more permits exist at a time than the largest configured limit (at least one), although
  the counter itself may pass the limit for a moment; when no task is between entry and exit the counter
  is back at zero; and with no more tasks than the smallest limit nobody is refused.
\<close>

theorem handshake_limit_holds:
  assumes "gate_reach configs k n ts" and "k \<le> u64_max" and "\<forall>c \<in> configs. acquire_limit c \<le> l"
  shows "weights permits ts \<le> l \<and> n = weights counted_in ts
    \<and> (set ts \<subseteq> {GateStart, GateClosed} \<longrightarrow> n = 0)
    \<and> ((\<forall>c \<in> configs. k \<le> acquire_limit c) \<longrightarrow> GateOver \<notin> set ts)"
proof -
  have n: "n = weights counted_in ts" using assms(1,2) by (rule gate_counted)
  moreover have "weights counted_in ts = 0" if "set ts \<subseteq> {GateStart, GateClosed}"
    using that by (intro weights_zero) (auto simp: counted_in_def)
  ultimately show ?thesis using permits_bounded [OF assms] none_refused [OF assms(1,2)] by simp
qed

section \<open>Waiting for the last callis to close\<close>

text \<open>
  \<open>tr_gen\<close> counts the calls of \<open>notify_waiters\<close>: a \<open>Notified\<close> future completes once a call was made
  after the future was created.
\<close>

record callis_tracker =
  tr_open :: nat
  tr_gen :: nat

datatype tracker_task =
    CallisIdle | CallisOpen | CallisNotify | CallisDone
  | WaitStart | WaitArmed nat | WaitBlocked nat | WaitOk | WaitErr aurelia_error

definition tracker_new :: callis_tracker where
  "tracker_new = \<lparr>tr_open = 0, tr_gen = 0\<rparr>"

definition tracker_open :: "callis_tracker \<Rightarrow> callis_tracker" where
  "tracker_open t = t\<lparr>tr_open := snd (fetch_add (tr_open t) 1)\<rparr>"

definition tracker_close_sub :: "callis_tracker \<Rightarrow> tracker_task \<times> callis_tracker" where
  "tracker_close_sub t =
     (let (before, after) = fetch_sub (tr_open t) 1
      in (if before = 1 then CallisNotify else CallisDone, t\<lparr>tr_open := after\<rparr>))"

definition tracker_close_notify :: "callis_tracker \<Rightarrow> callis_tracker" where
  "tracker_close_notify t = t\<lparr>tr_gen := tr_gen t + 1\<rparr>"

definition tracker_count :: "callis_tracker \<Rightarrow> nat" where
  "tracker_count t = tr_open t"

definition wait_check :: "callis_tracker \<Rightarrow> nat \<Rightarrow> tracker_task" where
  "wait_check t g = (if tr_open t = 0 then WaitOk else WaitBlocked g)"

definition wait_timeout_error :: aurelia_error where
  "wait_timeout_error = with_message PeerUnavailable ''callis close timeout''"

inductive tracker_run :: "callis_tracker \<Rightarrow> tracker_task \<Rightarrow> callis_tracker \<Rightarrow> tracker_task \<Rightarrow> bool" where
  opened: "tracker_run t CallisIdle (tracker_open t) CallisOpen"
| closed: "tracker_close_sub t = (p, t') \<Longrightarrow> tracker_run t CallisOpen t' p"
| notify: "tracker_run t CallisNotify (tracker_close_notify t) CallisDone"
| arm: "tracker_run t WaitStart t (WaitArmed (tr_gen t))"
| check: "tracker_run t (WaitArmed g) t (wait_check t g)"
| wake: "g \<noteq> tr_gen t \<Longrightarrow> tracker_run t (WaitBlocked g) t WaitStart"
| timeout: "tracker_run t (WaitBlocked g) t (WaitErr wait_timeout_error)"

inductive_cases tracker_runE: "tracker_run t p t' p'"

definition open_weight :: "tracker_task \<Rightarrow> nat" where
  "open_weight p = (if p = CallisOpen then 1 else 0)"

lemmas tracker_defs = tracker_open_def tracker_close_sub_def tracker_close_notify_def tracker_count_def wait_check_def

interpretation tracker: unit_tasks tracker_run tracker_count open_weight
proof
  show "open_weight p \<le> 1" for p by (simp add: open_weight_def)
  show "tracker_count t' + open_weight p = tracker_count t + open_weight p'"
    if "tracker_run t p t' p'" "open_weight p \<le> tracker_count t" "tracker_count t + open_weight p' \<le> u64_max + open_weight p"
    for t p t' p'
    using that
    by (cases rule: tracker_run.cases)
      (auto simp: open_weight_def tracker_defs Let_def fetch_add_exact fetch_sub_exact split: if_splits prod.splits)
qed

definition tracker_inv :: "callis_tracker \<times> tracker_task list \<Rightarrow> bool" where
  "tracker_inv = (\<lambda>(t, ts). tr_open t = weights open_weight ts \<and> length ts \<le> u64_max
     \<and> (\<forall>g. WaitArmed g \<in> set ts \<or> WaitBlocked g \<in> set ts \<longrightarrow> g \<le> tr_gen t)
     \<and> (WaitBlocked (tr_gen t) \<in> set ts \<and> tr_open t = 0 \<longrightarrow> CallisNotify \<in> set ts))"

lemma open_weight_zero: "weights open_weight ts = 0 \<longleftrightarrow> CallisOpen \<notin> set ts"
  by (auto simp: weights_def open_weight_def)

lemma set_update_mem: "i < length ts \<Longrightarrow> x \<in> set (ts[i := p]) \<Longrightarrow> x = p \<or> x \<in> set ts"
  using set_update_subset_insert by fastforce

lemma set_update_other: "i < length ts \<Longrightarrow> x \<in> set ts \<Longrightarrow> x \<noteq> ts ! i \<Longrightarrow> x \<in> set (ts[i := p])"
  by (metis in_set_conv_nth length_list_update nth_list_update_neq)

lemma tracker_inv_step:
  assumes "tracker_inv (t, ts)" and "interleave tracker_run (t, ts) (t', ts')"
  shows "tracker_inv (t', ts')"
  using assms(2)
proof (rule interleaveE)
  fix i p assume i: "i < length ts" "tracker_run t (ts ! i) t' p" "ts' = ts[i := p]"
  have count: "tr_open t' = weights open_weight ts'"
    using tracker.counted_step [OF assms(2)] assms(1) by (simp add: tracker_inv_def tracker_count_def)
  have len: "length ts' \<le> u64_max" using assms(1) i(3) by (simp add: tracker_inv_def)
  have mem: "x = p \<or> x \<in> set ts" if "x \<in> set ts'" for x
    using set_update_mem [OF i(1), of x p] that i(3) by simp
  have old: "g \<le> tr_gen t" if "WaitArmed g \<in> set ts \<or> WaitBlocked g \<in> set ts" for g
    using assms(1) that by (auto simp: tracker_inv_def)
  have here: "g \<le> tr_gen t" if "ts ! i = WaitArmed g" for g using old i(1) that by (metis nth_mem)
  have gens: "g \<le> tr_gen t'" if g: "WaitArmed g \<in> set ts' \<or> WaitBlocked g \<in> set ts'" for g
  proof -
    have "g \<le> tr_gen t" if "p = WaitArmed g \<or> p = WaitBlocked g"
      using i(2) that here by (auto elim!: tracker_runE simp: wait_check_def tracker_close_sub_def split: if_splits prod.splits)
    moreover have "tr_gen t \<le> tr_gen t'"
      using i(2) by (cases rule: tracker_run.cases) (auto simp: tracker_defs split: if_splits prod.splits)
    ultimately show ?thesis using g mem [of "WaitArmed g"] mem [of "WaitBlocked g"] old [of g] by (metis order_trans)
  qed
  have lost: "CallisNotify \<in> set ts'" if "WaitBlocked (tr_gen t') \<in> set ts'" "tr_open t' = 0"
    using i(2)
  proof (cases rule: tracker_run.cases)
    case opened
    then have "CallisOpen \<in> set ts'" using i(1,3) set_update_memI by metis
    with that(2) count show ?thesis by (simp add: open_weight_zero)
  next
    case (closed)
    then have "CallisOpen \<in> set ts" using i(1) by (metis nth_mem)
    then have "tr_open t \<noteq> 0" using assms(1) open_weight_zero by (simp add: tracker_inv_def)
    moreover have "tr_open t \<le> u64_max"
      using assms(1) weights_le_length [of open_weight ts, OF tracker.weight_le] by (simp add: tracker_inv_def)
    ultimately have "p = CallisNotify"
      using closed that(2) by (auto simp: tracker_close_sub_def fetch_sub_exact split: if_splits)
    then show ?thesis using i(1,3) set_update_memI by metis
  next
    case notify
    then have "WaitBlocked (tr_gen t + 1) \<in> set ts" using that(1) mem by (auto simp: tracker_close_notify_def)
    then show ?thesis using old by fastforce
  next
    case (check g)
    show ?thesis
    proof (cases "tr_open t = 0")
      case True
      then have "p = WaitOk" using check by (simp add: wait_check_def)
      then have "WaitBlocked (tr_gen t) \<in> set ts" using that(1) mem check by auto
      then show ?thesis using True assms(1) i(1,3) check set_update_other [of i ts CallisNotify]
        by (auto simp: tracker_inv_def)
    qed (use that(2) check in simp)
  qed (use that mem assms(1) i(1,3) set_update_other [of i ts CallisNotify] in \<open>auto simp: tracker_inv_def\<close>)
  show ?thesis using count len gens lost by (auto simp: tracker_inv_def)
qed

abbreviation tracker_reach :: "nat \<Rightarrow> nat \<Rightarrow> callis_tracker \<Rightarrow> tracker_task list \<Rightarrow> bool" where
  "tracker_reach k w t ts \<equiv>
     (interleave tracker_run)\<^sup>*\<^sup>* (tracker_new, replicate k CallisIdle @ replicate w WaitStart) (t, ts)"

lemma tracker_inv_reach:
  assumes "tracker_reach k w t ts" and "k + w \<le> u64_max"
  shows "tracker_inv (t, ts)"
  using assms(1)
proof (induction "(t, ts)" arbitrary: t ts rule: rtranclp_induct)
  case base
  have "weights open_weight (replicate k CallisIdle @ replicate w WaitStart) = 0"
    by (rule weights_zero) (auto simp: open_weight_def)
  with assms(2) show ?case by (auto simp: tracker_inv_def tracker_new_def)
next
  case (step y)
  obtain t1 ts1 where "y = (t1, ts1)" by fastforce
  with step show ?case using tracker_inv_step by metis
qed

text \<open>
  C31. Waiting for the calles to close loses no wake-up: the counter is the number of open calles; a
  waiter succeeds only at a moment when none is open; and once no callis is open or about to signal,
  every waiter still blocked has been signalled, so it can run on, and it finds the counter at zero.
\<close>

theorem wait_for_zero_not_lost:
  assumes "tracker_reach k w t ts" and "k + w \<le> u64_max"
  shows "tr_open t = length (filter ((=) CallisOpen) ts)
    \<and> (\<forall>t' ts' i. i < length ts \<and> interleave tracker_run (t, ts) (t', ts') \<and> ts ! i \<noteq> WaitOk \<and> ts' ! i = WaitOk
         \<longrightarrow> CallisOpen \<notin> set ts)
    \<and> (CallisOpen \<notin> set ts \<and> CallisNotify \<notin> set ts \<longrightarrow>
         (\<forall>g. WaitBlocked g \<in> set ts \<longrightarrow> tracker_run t (WaitBlocked g) t WaitStart) \<and> wait_check t (tr_gen t) = WaitOk)"
proof -
  have inv: "tracker_inv (t, ts)" using assms by (rule tracker_inv_reach)
  have len: "weights open_weight ts = length (filter ((=) CallisOpen) ts)" for ts
    by (induction ts) (auto simp: weights_def open_weight_def)
  have ok: "CallisOpen \<notin> set ts" if step: "i < length ts" "interleave tracker_run (t, ts) (t', ts')" "ts ! i \<noteq> WaitOk" "ts' ! i = WaitOk"
    for t' ts' i
  proof -
    obtain j p where j: "j < length ts" "tracker_run t (ts ! j) t' p" "ts' = ts[j := p]"
      using step(2) by (rule interleaveE) blast
    with step have "p = WaitOk" by (metis nth_list_update_eq nth_list_update_neq)
    with j(2) have "tr_open t = 0"
      by (auto elim!: tracker_runE simp: wait_check_def tracker_close_sub_def split: if_splits prod.splits)
    with inv show ?thesis by (simp add: tracker_inv_def open_weight_zero)
  qed
  have woken: "tracker_run t (WaitBlocked g) t WaitStart"
    if "CallisOpen \<notin> set ts" "CallisNotify \<notin> set ts" "WaitBlocked g \<in> set ts" for g
    using that inv open_weight_zero [of ts] by (intro tracker_run.wake) (auto simp: tracker_inv_def)
  have zero: "tr_open t = 0" if "CallisOpen \<notin> set ts" using that inv by (simp add: tracker_inv_def open_weight_zero)
  show ?thesis
  proof (intro conjI)
    show "tr_open t = length (filter ((=) CallisOpen) ts)" using inv len by (simp add: tracker_inv_def)
    show "\<forall>t' ts' i. i < length ts \<and> interleave tracker_run (t, ts) (t', ts') \<and> ts ! i \<noteq> WaitOk \<and> ts' ! i = WaitOk
         \<longrightarrow> CallisOpen \<notin> set ts" using ok by blast
    show "CallisOpen \<notin> set ts \<and> CallisNotify \<notin> set ts \<longrightarrow>
         (\<forall>g. WaitBlocked g \<in> set ts \<longrightarrow> tracker_run t (WaitBlocked g) t WaitStart) \<and> wait_check t (tr_gen t) = WaitOk"
      using woken zero by (simp add: wait_check_def)
  qed
qed

section \<open>Blob buffer bytes\<close>

record blob_buffer_tracker =
  bt_outbound_used :: nat
  bt_inbound_used :: nat

datatype buffer_side = SideOutbound | SideInbound

fun used :: "blob_buffer_tracker \<Rightarrow> buffer_side \<Rightarrow> nat" where
  "used t SideOutbound = bt_outbound_used t"
| "used t SideInbound = bt_inbound_used t"

fun set_used :: "blob_buffer_tracker \<Rightarrow> buffer_side \<Rightarrow> nat \<Rightarrow> blob_buffer_tracker" where
  "set_used t SideOutbound n = t\<lparr>bt_outbound_used := n\<rparr>"
| "set_used t SideInbound n = t\<lparr>bt_inbound_used := n\<rparr>"

lemma used_set_used [simp]: "used (set_used t side n) side' = (if side = side' then n else used t side')"
  by (cases side; cases side') simp_all

declare used.simps [simp del] set_used.simps [simp del]

text \<open>
  One turn of the loop of \<open>try_reserve_side\<close>: the load with the two checks on the value read, which
  ends the call or leaves the value and its successor for the exchange; then the exchange, which fails
  when the counter has changed in between.
\<close>

definition reserve_load :: "blob_buffer_tracker \<Rightarrow> buffer_side \<Rightarrow> nat \<Rightarrow> nat \<Rightarrow> (nat \<times> nat) option" where
  "reserve_load t side bytes cap =
     (let current = used t side; next = current + bytes
      in if next > u64_max then None else if next > cap then None else Some (current, next))"

definition reserve_exchange :: "blob_buffer_tracker \<Rightarrow> buffer_side \<Rightarrow> nat \<times> nat \<Rightarrow> bool \<times> blob_buffer_tracker" where
  "reserve_exchange t side vals =
     (if used t side = fst vals then (True, set_used t side (snd vals)) else (False, t))"

text \<open>The flag is the \<open>underflow\<close> that the debug assertion refuses.\<close>

definition release_side :: "blob_buffer_tracker \<Rightarrow> buffer_side \<Rightarrow> nat \<Rightarrow> bool \<times> blob_buffer_tracker" where
  "release_side t side bytes =
     (if used t side < bytes then (True, set_used t side 0)
      else (False, set_used t side (used t side - bytes)))"

text \<open>
  A call that meets no other task, as one step; the exchange then finds the value that was loaded.
\<close>

definition try_reserve_side :: "blob_buffer_tracker \<Rightarrow> buffer_side \<Rightarrow> nat \<Rightarrow> nat \<Rightarrow> bool \<times> blob_buffer_tracker" where
  "try_reserve_side t side bytes cap =
     (case reserve_load t side bytes cap of
        None \<Rightarrow> (False, t)
      | Some vals \<Rightarrow> reserve_exchange t side vals)"

datatype reservation_failure = FailOutbound | FailInbound

definition try_reserve_pair ::
  "blob_buffer_tracker \<Rightarrow> nat \<Rightarrow> nat \<Rightarrow> nat \<Rightarrow> nat \<Rightarrow> (reservation_failure + unit) \<times> blob_buffer_tracker" where
  "try_reserve_pair t outbound_bytes outbound_cap inbound_bytes inbound_cap =
     (let (ok, t) = try_reserve_side t SideOutbound outbound_bytes outbound_cap
      in if \<not> ok then (Inl FailOutbound, t)
         else let (ok, t) = try_reserve_side t SideInbound inbound_bytes inbound_cap
              in if \<not> ok then (Inl FailInbound, snd (release_side t SideOutbound outbound_bytes))
                 else (Inr (), t))"

lemma try_reserve_side_eq:
  "try_reserve_side t side bytes cap =
     (if used t side + bytes \<le> min cap u64_max then (True, set_used t side (used t side + bytes)) else (False, t))"
  by (auto simp: try_reserve_side_def reserve_load_def reserve_exchange_def Let_def)

text \<open>
  A task reserves one side for a blob stream, or both sides for a local blob delivery, retries its
  exchanges, takes the outbound bytes back when the inbound side refuses, and later releases what it
  holds, a pair one side at a time in any order as its two stream ends are dropped.
\<close>

datatype buffer_task =
    BufIdle | BufRefused reservation_failure
  | SideLoad buffer_side nat nat | SideTry buffer_side nat nat nat | SideHeld buffer_side nat
  | PairLoadOut nat nat nat nat | PairTryOut nat nat nat nat nat
  | PairLoadIn nat nat nat | PairTryIn nat nat nat nat | PairUndo nat | PairHeld nat nat

fun side_failure :: "buffer_side \<Rightarrow> reservation_failure" where
  "side_failure SideOutbound = FailOutbound"
| "side_failure SideInbound = FailInbound"

text \<open>\<open>limit\<close> bounds the caps that the configuration gives for each side.\<close>

inductive buffer_run ::
  "(buffer_side \<Rightarrow> nat) \<Rightarrow> blob_buffer_tracker \<Rightarrow> buffer_task \<Rightarrow> blob_buffer_tracker \<Rightarrow> buffer_task \<Rightarrow> bool"
  for limit :: "buffer_side \<Rightarrow> nat" where
  call_side: "cap \<le> limit side \<Longrightarrow> buffer_run limit t BufIdle t (SideLoad side b cap)"
| side_refused: "reserve_load t side b cap = None \<Longrightarrow> buffer_run limit t (SideLoad side b cap) t (BufRefused (side_failure side))"
| side_load: "reserve_load t side b cap = Some vals \<Longrightarrow> buffer_run limit t (SideLoad side b cap) t (SideTry side b cap (fst vals))"
| side_exchange: "reserve_exchange t side (cur, cur + b) = (ok, t') \<Longrightarrow>
    buffer_run limit t (SideTry side b cap cur) t' (if ok then SideHeld side b else SideLoad side b cap)"
| call_pair: "oc \<le> limit SideOutbound \<Longrightarrow> ic \<le> limit SideInbound \<Longrightarrow> buffer_run limit t BufIdle t (PairLoadOut ob oc ib ic)"
| out_refused: "reserve_load t SideOutbound ob oc = None \<Longrightarrow> buffer_run limit t (PairLoadOut ob oc ib ic) t (BufRefused FailOutbound)"
| out_load: "reserve_load t SideOutbound ob oc = Some vals \<Longrightarrow>
    buffer_run limit t (PairLoadOut ob oc ib ic) t (PairTryOut ob oc ib ic (fst vals))"
| out_exchange: "reserve_exchange t SideOutbound (cur, cur + ob) = (ok, t') \<Longrightarrow>
    buffer_run limit t (PairTryOut ob oc ib ic cur) t' (if ok then PairLoadIn ob ib ic else PairLoadOut ob oc ib ic)"
| in_refused: "reserve_load t SideInbound ib ic = None \<Longrightarrow> buffer_run limit t (PairLoadIn ob ib ic) t (PairUndo ob)"
| in_load: "reserve_load t SideInbound ib ic = Some vals \<Longrightarrow>
    buffer_run limit t (PairLoadIn ob ib ic) t (PairTryIn ob ib ic (fst vals))"
| in_exchange: "reserve_exchange t SideInbound (cur, cur + ib) = (ok, t') \<Longrightarrow>
    buffer_run limit t (PairTryIn ob ib ic cur) t' (if ok then PairHeld ob ib else PairLoadIn ob ib ic)"
| undo: "buffer_run limit t (PairUndo ob) (snd (release_side t SideOutbound ob)) (BufRefused FailInbound)"
| release: "buffer_run limit t (SideHeld side b) (snd (release_side t side b)) BufIdle"
| release_out: "buffer_run limit t (PairHeld ob ib) (snd (release_side t SideOutbound ob)) (SideHeld SideInbound ib)"
| release_in: "buffer_run limit t (PairHeld ob ib) (snd (release_side t SideInbound ib)) (SideHeld SideOutbound ob)"
| again: "buffer_run limit t (BufRefused f) t BufIdle"

inductive_cases buffer_runE: "buffer_run limit t p t' p'"

fun held_bytes :: "buffer_side \<Rightarrow> buffer_task \<Rightarrow> nat" where
  "held_bytes side (SideHeld side' b) = (if side = side' then b else 0)"
| "held_bytes side (PairLoadIn ob ib ic) = (if side = SideOutbound then ob else 0)"
| "held_bytes side (PairTryIn ob ib ic cur) = (if side = SideOutbound then ob else 0)"
| "held_bytes side (PairUndo ob) = (if side = SideOutbound then ob else 0)"
| "held_bytes side (PairHeld ob ib) = (if side = SideOutbound then ob else ib)"
| "held_bytes side _ = 0"

lemma exchange_iff:
  "reserve_exchange t side (cur, next) = (ok, t') \<longleftrightarrow>
     (ok \<and> used t side = cur \<and> t' = set_used t side next) \<or> (\<not> ok \<and> used t side \<noteq> cur \<and> t' = t)"
  by (auto simp: reserve_exchange_def)

lemma used_release [simp]:
  "used (snd (release_side t side b)) side' = (if side = side' then used t side - b else used t side')"
  by (simp add: release_side_def)

lemma side_cases: "side \<noteq> SideOutbound \<longleftrightarrow> side = SideInbound" "SideOutbound \<noteq> side \<longleftrightarrow> side = SideInbound"
  by (cases side; simp)+

interpretation buffers: counted_tasks "buffer_run limit" "\<lambda>t. used t side" "held_bytes side" for limit side
proof
  show "used t' side + held_bytes side p = used t side + held_bytes side p'"
    if "buffer_run limit t p t' p'" "held_bytes side p \<le> used t side" for t p t' p'
    using that
    by (cases rule: buffer_run.cases)
      (auto simp: exchange_iff side_cases split: if_splits)
qed

text \<open>What a task in the middle of a reservation remembers is within its cap.\<close>

fun within_caps :: "(buffer_side \<Rightarrow> nat) \<Rightarrow> buffer_task \<Rightarrow> bool" where
  "within_caps limit (SideLoad side b cap) \<longleftrightarrow> cap \<le> limit side"
| "within_caps limit (SideTry side b cap cur) \<longleftrightarrow> cur + b \<le> min cap u64_max \<and> cap \<le> limit side"
| "within_caps limit (PairLoadOut ob oc ib ic) \<longleftrightarrow> oc \<le> limit SideOutbound \<and> ic \<le> limit SideInbound"
| "within_caps limit (PairTryOut ob oc ib ic cur) \<longleftrightarrow> cur + ob \<le> min oc u64_max \<and> oc \<le> limit SideOutbound \<and> ic \<le> limit SideInbound"
| "within_caps limit (PairLoadIn ob ib ic) \<longleftrightarrow> ic \<le> limit SideInbound"
| "within_caps limit (PairTryIn ob ib ic cur) \<longleftrightarrow> cur + ib \<le> min ic u64_max \<and> ic \<le> limit SideInbound"
| "within_caps limit _ \<longleftrightarrow> True"

lemma reserve_load_Some: "reserve_load t side b cap = Some vals \<Longrightarrow> fst vals = used t side \<and> used t side + b \<le> min cap u64_max"
  by (auto simp: reserve_load_def Let_def split: if_splits)

lemma buffer_run_within:
  assumes "buffer_run limit t p t' p'" and "within_caps limit p"
  shows "within_caps limit p' \<and> (used t side \<le> min (limit side) u64_max \<longrightarrow> used t' side \<le> min (limit side) u64_max)"
  using assms
  by (cases rule: buffer_run.cases)
    (auto simp: exchange_iff dest!: reserve_load_Some split: if_splits)

abbreviation buffer_reach :: "(buffer_side \<Rightarrow> nat) \<Rightarrow> nat \<Rightarrow> blob_buffer_tracker \<Rightarrow> buffer_task list \<Rightarrow> bool" where
  "buffer_reach limit k t ts \<equiv>
     (interleave (buffer_run limit))\<^sup>*\<^sup>* (\<lparr>bt_outbound_used = 0, bt_inbound_used = 0\<rparr>, replicate k BufIdle) (t, ts)"

lemma buffer_counted: "buffer_reach limit k t ts \<Longrightarrow> used t side = weights (held_bytes side) ts"
  by (erule buffers.counted) (cases side, simp_all add: weights_zero used.simps)

lemma buffer_within:
  assumes "buffer_reach limit k t ts"
  shows "(\<forall>p \<in> set ts. within_caps limit p) \<and> (\<forall>side. used t side \<le> min (limit side) u64_max)"
  using assms
proof (induction "(t, ts)" arbitrary: t ts rule: rtranclp_induct)
  case base
  have "used \<lparr>bt_outbound_used = 0, bt_inbound_used = 0\<rparr> side = 0" for side by (cases side) (simp_all add: used.simps)
  then show ?case by simp
next
  case (step y)
  obtain t1 ts1 where y: "y = (t1, ts1)" by fastforce
  from step.hyps(2) [unfolded y] obtain i p where i: "i < length ts1" "buffer_run limit t1 (ts1 ! i) t p" "ts = ts1[i := p]"
    by (rule interleaveE) blast
  have "within_caps limit (ts1 ! i)" using step.hyps(3) y i(1) by simp
  with step.hyps(3) y i buffer_run_within [OF i(2)] show ?case
    by (auto dest!: set_update_subset_insert [THEN subsetD])
qed

text \<open>
  Blob buffer accounting is exact under every interleaving: the bytes in use on a side are the sum of
  what the tasks hold there, they never exceed the configured cap nor the width of the counter, no
  release ever underflows, and when nobody holds anything the counters are back at zero.
\<close>

theorem buffer_accounting:
  assumes "buffer_reach limit k t ts"
  shows "used t side = weights (held_bytes side) ts \<and> used t side \<le> min (limit side) u64_max
    \<and> (\<forall>p \<in> set ts. \<not> fst (release_side t side (held_bytes side p)))
    \<and> ((\<forall>p \<in> set ts. held_bytes side p = 0) \<longrightarrow> used t side = 0)"
proof -
  have count: "used t side = weights (held_bytes side) ts" using assms by (rule buffer_counted)
  have "held_bytes side p \<le> used t side" if "p \<in> set ts" for p
    using that weight_le_weights [of _ ts "held_bytes side"] count by (auto simp: in_set_conv_nth)
  then have "\<not> fst (release_side t side (held_bytes side p))" if "p \<in> set ts" for p
    using that by (fastforce simp: release_side_def)
  moreover have "used t side \<le> min (limit side) u64_max" using buffer_within [OF assms] by blast
  ultimately show ?thesis using count weights_zero [of ts "held_bytes side"] by simp
qed

lemma exchange_atomic:
  assumes "reserve_exchange t side (cur, cur + b) = (ok, t')" and "cur + b \<le> min cap u64_max" and "cap \<le> limit side"
  shows "t' = t \<or> (\<exists>side b cap. cap \<le> limit side \<and> try_reserve_side t side b cap = (True, t'))"
proof (cases ok)
  case True
  with assms have "try_reserve_side t side b cap = (True, t')" by (simp add: exchange_iff try_reserve_side_eq)
  with assms(3) show ?thesis by blast
qed (use assms(1) in \<open>simp add: exchange_iff\<close>)

text \<open>
  The retry loop behaves like one indivisible check and addition: whatever other tasks do between
  the load and the exchange, each step of a task leaves the counters as they are, reserves exactly as an
  undisturbed call would in that state, or releases; and a task is refused only in a state in which an
  undisturbed call is refused.
\<close>

theorem buffer_reserve_atomic:
  assumes "buffer_reach limit k t ts" and "p \<in> set ts" and "buffer_run limit t p t' p'"
  shows "(t' = t \<or> (\<exists>side b cap. cap \<le> limit side \<and> try_reserve_side t side b cap = (True, t'))
       \<or> (\<exists>side b. held_bytes side p = b \<and> t' = snd (release_side t side b)))
    \<and> (\<forall>side b cap. p = SideLoad side b cap \<and> p' = BufRefused (side_failure side) \<longrightarrow> try_reserve_side t side b cap = (False, t))
    \<and> (\<forall>ob oc ib ic. p = PairLoadOut ob oc ib ic \<and> p' = BufRefused FailOutbound \<longrightarrow>
          try_reserve_pair t ob oc ib ic = (Inl FailOutbound, t))
    \<and> (\<forall>ob ib ic. p = PairLoadIn ob ib ic \<and> p' = PairUndo ob \<longrightarrow> try_reserve_side t SideInbound ib ic = (False, t))"
proof -
  have caps: "within_caps limit p" using buffer_within [OF assms(1)] assms(2) by blast
  have "t' = t \<or> (\<exists>side b cap. cap \<le> limit side \<and> try_reserve_side t side b cap = (True, t'))
       \<or> (\<exists>side b. held_bytes side p = b \<and> t' = snd (release_side t side b))"
    using assms(3)
  proof (cases rule: buffer_run.cases)
    case (side_exchange side cur b ok cap)
    with caps exchange_atomic [OF side_exchange(3), of cap limit] show ?thesis by auto
  next
    case (out_exchange cur ob ok oc ib ic)
    with caps exchange_atomic [OF out_exchange(3), of oc limit] show ?thesis by auto
  next
    case (in_exchange cur ib ok ob ic)
    with caps exchange_atomic [OF in_exchange(3), of ic limit] show ?thesis by auto
  next
    case (undo ob)
    then have "held_bytes SideOutbound p = ob" by simp
    with undo show ?thesis by blast
  next
    case (release side b)
    then have "held_bytes side p = b" by simp
    with release show ?thesis by blast
  next
    case (release_out ob ib)
    then have "held_bytes SideOutbound p = ob" by simp
    with release_out show ?thesis by blast
  next
    case (release_in ob ib)
    then have "held_bytes SideInbound p = ib" by simp
    with release_in show ?thesis by blast
  qed simp_all
  moreover have "reserve_load t side b cap = None" if "p = SideLoad side b cap" "p' = BufRefused (side_failure side)" for side b cap
    using assms(3) that by (auto elim: buffer_run.cases)
  moreover have "reserve_load t SideOutbound ob oc = None" if "p = PairLoadOut ob oc ib ic" "p' = BufRefused FailOutbound" for ob oc ib ic
    using assms(3) that by (auto elim: buffer_run.cases)
  moreover have "reserve_load t SideInbound ib ic = None" if "p = PairLoadIn ob ib ic" "p' = PairUndo ob" for ob ib ic
    using assms(3) that by (auto elim: buffer_run.cases)
  ultimately show ?thesis by (auto simp: try_reserve_side_def try_reserve_pair_def)
qed

section \<open>Small systems\<close>

lemma interleave_at: "i < length ts \<Longrightarrow> run s (ts ! i) s' p \<Longrightarrow> ts' = ts[i := p] \<Longrightarrow> interleave run (s, ts) (s', ts')"
  by (simp add: interleave.intros)

text \<open>Two tasks at a limit of one: the first holds the permit, the second is over.\<close>

lemma two_at_gate: "gate_reach {1} 2 2 [GatePermit, GateOver]"
proof -
  have read: "gate_run {1} n GateStart n (GateLimit 1)" for n
    using gate_run.read [of 1 "{1}" n] by (simp add: acquire_limit_def)
  have "interleave (gate_run {1}) (0, [GateStart, GateStart]) (0, [GateLimit 1, GateStart])"
    using read by (intro interleave_at [where i = 0]) simp_all
  moreover have "interleave (gate_run {1}) (0, [GateLimit 1, GateStart]) (0, [GateLimit 1, GateLimit 1])"
    using read by (intro interleave_at [where i = 1]) simp_all
  moreover have "interleave (gate_run {1}) (0, [GateLimit 1, GateLimit 1]) (1, [GatePermit, GateLimit 1])"
    by (intro interleave_at [where i = 0] gate_run.add [of 1]) (simp_all add: try_acquire_add_def fetch_add_def gate_run.add)
  moreover have "interleave (gate_run {1}) (1, [GatePermit, GateLimit 1]) (2, [GatePermit, GateOver])"
    by (intro interleave_at [where i = 1]) (simp_all add: try_acquire_add_def fetch_add_def gate_run.add)
  ultimately show ?thesis
    by (simp add: numeral_2_eq_2)
qed

theorem handshake_limit_holds_witness: "weights permits [GatePermit, GateOver] \<le> 1"
proof -
  have "acquire_limit 1 \<le> 1" by (simp add: acquire_limit_def)
  then show ?thesis using handshake_limit_holds [OF two_at_gate, of 1] by simp
qed

text \<open>A waiter that armed before the only callis closed.\<close>

theorem wait_for_zero_not_lost_witness:
  "tracker_run \<lparr>tr_open = 0, tr_gen = 1\<rparr> (WaitBlocked 0) \<lparr>tr_open = 0, tr_gen = 1\<rparr> WaitStart"
proof -
  let ?i = "interleave tracker_run"
  have "?i (tracker_new, [CallisIdle, WaitStart]) (\<lparr>tr_open = 1, tr_gen = 0\<rparr>, [CallisOpen, WaitStart])"
    using tracker_run.opened [of tracker_new]
    by (intro interleave_at [where i = 0]) (simp_all add: tracker_new_def tracker_open_def fetch_add_def)
  moreover have "?i (\<lparr>tr_open = 1, tr_gen = 0\<rparr>, [CallisOpen, WaitStart]) (\<lparr>tr_open = 1, tr_gen = 0\<rparr>, [CallisOpen, WaitArmed 0])"
    using tracker_run.arm [of "\<lparr>tr_open = 1, tr_gen = 0\<rparr>"] by (intro interleave_at [where i = 1]) simp_all
  moreover have "?i (\<lparr>tr_open = 1, tr_gen = 0\<rparr>, [CallisOpen, WaitArmed 0]) (\<lparr>tr_open = 1, tr_gen = 0\<rparr>, [CallisOpen, WaitBlocked 0])"
    using tracker_run.check [of "\<lparr>tr_open = 1, tr_gen = 0\<rparr>" 0]
    by (intro interleave_at [where i = 1]) (simp_all add: wait_check_def)
  moreover have "?i (\<lparr>tr_open = 1, tr_gen = 0\<rparr>, [CallisOpen, WaitBlocked 0]) (\<lparr>tr_open = 0, tr_gen = 0\<rparr>, [CallisNotify, WaitBlocked 0])"
    by (intro interleave_at [where i = 0] tracker_run.closed)
      (simp_all add: tracker_close_sub_def fetch_sub_def tracker_run.closed)
  moreover have "?i (\<lparr>tr_open = 0, tr_gen = 0\<rparr>, [CallisNotify, WaitBlocked 0]) (\<lparr>tr_open = 0, tr_gen = 1\<rparr>, [CallisDone, WaitBlocked 0])"
    using tracker_run.notify [of "\<lparr>tr_open = 0, tr_gen = 0\<rparr>"]
    by (intro interleave_at [where i = 0]) (simp_all add: tracker_close_notify_def)
  ultimately have "tracker_reach 1 1 \<lparr>tr_open = 0, tr_gen = 1\<rparr> [CallisDone, WaitBlocked 0]"
    by simp
  from wait_for_zero_not_lost [OF this] show ?thesis by simp
qed

text \<open>A task that has reserved three bytes of a side with a cap of four.\<close>

lemma one_buffer_task:
  "buffer_reach (\<lambda>_. 4) 1 \<lparr>bt_outbound_used = 3, bt_inbound_used = 0\<rparr> [SideHeld SideOutbound 3]"
proof -
  let ?t = "\<lparr>bt_outbound_used = 0, bt_inbound_used = 0\<rparr>" and ?i = "interleave (buffer_run (\<lambda>_. 4))"
  have load: "reserve_load ?t SideOutbound 3 4 = Some (0, 3)" by (simp add: reserve_load_def used.simps)
  have exch: "reserve_exchange ?t SideOutbound (0, 0 + 3) = (True, \<lparr>bt_outbound_used = 3, bt_inbound_used = 0\<rparr>)"
    by (simp add: reserve_exchange_def used.simps set_used.simps)
  have "?i (?t, [BufIdle]) (?t, [SideLoad SideOutbound 3 4])"
    by (intro interleave_at [where i = 0]) (simp_all add: buffer_run.call_side)
  moreover have "?i (?t, [SideLoad SideOutbound 3 4]) (?t, [SideTry SideOutbound 3 4 0])"
    using buffer_run.side_load [OF load] by (intro interleave_at [where i = 0]) simp_all
  moreover have "?i (?t, [SideTry SideOutbound 3 4 0]) (\<lparr>bt_outbound_used = 3, bt_inbound_used = 0\<rparr>, [SideHeld SideOutbound 3])"
    using buffer_run.side_exchange [OF exch] by (intro interleave_at [where i = 0]) simp_all
  ultimately show ?thesis by simp
qed

theorem buffer_accounting_witness:
  "used \<lparr>bt_outbound_used = 3, bt_inbound_used = 0\<rparr> SideOutbound = weights (held_bytes SideOutbound) [SideHeld SideOutbound 3]"
  using buffer_accounting [OF one_buffer_task, of SideOutbound] by blast

theorem buffer_reserve_atomic_witness:
  "let t = \<lparr>bt_outbound_used = 3, bt_inbound_used = 0\<rparr>; t' = snd (release_side t SideOutbound 3) in
   t' = t \<or> (\<exists>side b cap. cap \<le> 4 \<and> try_reserve_side t side b cap = (True, t'))
     \<or> (\<exists>side b. held_bytes side (SideHeld SideOutbound 3) = b \<and> t' = snd (release_side t side b))"
  using buffer_reserve_atomic [OF one_buffer_task, of "SideHeld SideOutbound 3" _ BufIdle]
    buffer_run.release [of "\<lambda>_. 4" "\<lparr>bt_outbound_used = 3, bt_inbound_used = 0\<rparr>" SideOutbound 3]
  unfolding Let_def by auto

end
