(* ===== verification/Taberna.thy ===== *)
theory Taberna
  imports Gates
begin

text \<open>
  Local delivery (\<^verbatim>\<open>src/crates/peering/src/taberna.rs\<close> and \<^verbatim>\<open>delivery.rs\<close>): the registry of tabernas,
  the completion guard through which the application answers a request, the inbox that decodes a
  message and queues the request, and the delivery of a message, with or without a blob, to an inbox of
  the same domus.

  The bounded queue with expiry behind an inbox is the \<^verbatim>\<open>caducus\<close> crate; it is a record of functions,
  an argument of the definitions that use it, with the behaviour the project's transport documentation
  states for it as the hypothesis \<open>caducus_laws\<close>. The codec of the application is an argument as well.
  Oneshot channels and \<open>Notify\<close> objects are numbers.
\<close>

section \<open>The completion guard\<close>

datatype taberna_effect = Responded nat "unit result" | Notified nat

record taberna_completion =
  tc_response :: "nat option"
  tc_notify :: "nat option"

definition completion_notify :: "taberna_completion \<Rightarrow> taberna_effect list" where
  "completion_notify c = (case tc_notify c of None \<Rightarrow> [] | Some n \<Rightarrow> [Notified n])"

definition completion_drop :: "taberna_completion \<Rightarrow> taberna_effect list" where
  "completion_drop c =
     (case tc_response c of
        None \<Rightarrow> []
      | Some tx \<Rightarrow> Responded tx (Inl (err_new RemoteTabernaRejected)) # completion_notify c)"

text \<open>\<open>complete\<close> consumes the guard, which is dropped at the end of the call.\<close>

definition completion_complete :: "taberna_completion \<Rightarrow> unit result \<Rightarrow> taberna_effect list" where
  "completion_complete c r =
     (let sent = (case tc_response c of None \<Rightarrow> [] | Some tx \<Rightarrow> [Responded tx r]);
          c = c\<lparr>tc_response := None\<rparr>
      in sent @ completion_notify c @ completion_drop c)"

definition completion_accept :: "taberna_completion \<Rightarrow> taberna_effect list" where
  "completion_accept c = completion_complete c (Inr ())"

definition completion_reject :: "taberna_completion \<Rightarrow> taberna_effect list" where
  "completion_reject c = completion_complete c (Inl (err_new RemoteTabernaRejected))"

definition completion_busy :: "taberna_completion \<Rightarrow> taberna_effect list" where
  "completion_busy c = completion_complete c (Inl (err_new TabernaBusy))"

definition completion_domus_closed :: "taberna_completion \<Rightarrow> taberna_effect list" where
  "completion_domus_closed c = completion_complete c (Inl (err_new DomusClosed))"

section \<open>Requests\<close>

record 'm taberna_request =
  rq_message :: 'm
  rq_blob_receiver :: "nat option"
  rq_completion :: taberna_completion

definition request_new :: "'m \<Rightarrow> nat option \<Rightarrow> nat \<Rightarrow> nat option \<Rightarrow> 'm taberna_request" where
  "request_new message blob_receiver response notify =
     \<lparr>rq_message = message, rq_blob_receiver = blob_receiver,
      rq_completion = \<lparr>tc_response = Some response, tc_notify = notify\<rparr>\<rparr>"

definition request_accept :: "'m taberna_request \<Rightarrow> taberna_effect list" where
  "request_accept rq = completion_accept (rq_completion rq)"

definition request_reject :: "'m taberna_request \<Rightarrow> taberna_effect list" where
  "request_reject rq = completion_reject (rq_completion rq)"

definition request_expire :: "'m taberna_request \<Rightarrow> taberna_effect list" where
  "request_expire rq = completion_busy (rq_completion rq)"

definition request_shutdown :: "'m taberna_request \<Rightarrow> taberna_effect list" where
  "request_shutdown rq = completion_domus_closed (rq_completion rq)"

definition into_parts :: "'m taberna_request \<Rightarrow> 'm \<times> nat option \<times> taberna_completion" where
  "into_parts rq = (rq_message rq, rq_blob_receiver rq, rq_completion rq)"

text \<open>A request that goes out of scope drops its guard.\<close>

definition request_drop :: "'m taberna_request \<Rightarrow> taberna_effect list" where
  "request_drop rq = completion_drop (rq_completion rq)"

lemmas completion_defs = completion_notify_def completion_drop_def completion_complete_def completion_accept_def
  completion_reject_def completion_busy_def completion_domus_closed_def

lemmas request_defs = request_accept_def request_reject_def request_expire_def request_shutdown_def request_drop_def

section \<open>The registry\<close>

type_synonym 'i taberna_registry = "(taberna_id \<times> 'i) list"

definition registry_register :: "'i taberna_registry \<Rightarrow> taberna_id \<Rightarrow> 'i \<Rightarrow> unit result \<times> 'i taberna_registry" where
  "registry_register reg i inbox =
     (if map_of reg i \<noteq> None then (Inl (err_new TabernaAlreadyRegistered), reg)
      else (Inr (), AList.update i inbox reg))"

definition registry_unregister :: "'i taberna_registry \<Rightarrow> taberna_id \<Rightarrow> 'i taberna_registry" where
  "registry_unregister reg i = AList.delete i reg"

text \<open>The inboxes to be shut down, and the emptied registry.\<close>

definition registry_shutdown :: "'i taberna_registry \<Rightarrow> 'i list \<times> 'i taberna_registry" where
  "registry_shutdown reg = (map snd reg, [])"

definition resolve_local :: "'i taberna_registry \<Rightarrow> taberna_id \<Rightarrow> 'i option" where
  "resolve_local reg i = map_of reg i"

section \<open>The inbox\<close>

text \<open>
  Errors of the queue carry the request that was refused, if there is one; \<open>CdOther\<close> stands for the
  kinds that the code does not distinguish, by a number; \<open>cd_display\<close> is the text that an error prints.
\<close>

datatype 'r caducus_error = CdTimeout | CdFull 'r | CdShutdown "'r option" | CdOther "'r option" nat

record ('q, 'r) caducus =
  cd_display :: "'r caducus_error \<Rightarrow> string"
  cd_send :: "'q \<Rightarrow> 'r \<Rightarrow> instant \<Rightarrow> ('r caducus_error + unit) \<times> 'q"
  cd_next :: "'q \<Rightarrow> instant \<Rightarrow> ('r caducus_error + 'r) \<times> 'q"
  cd_update_capacity :: "'q \<Rightarrow> nat \<Rightarrow> 'r list \<times> 'q"
  cd_update_ttl :: "'q \<Rightarrow> duration \<Rightarrow> 'q"
  cd_expire :: "'q \<Rightarrow> instant \<Rightarrow> 'r list \<times> 'q"
  cd_shutdown :: "'q \<Rightarrow> 'r list \<times> 'q"

fun error_item :: "'r caducus_error \<Rightarrow> 'r option" where
  "error_item CdTimeout = None"
| "error_item (CdFull r) = Some r"
| "error_item (CdShutdown r) = r"
| "error_item (CdOther r m) = r"

record 'q taberna_inbox =
  ih_sender :: 'q
  ih_last_queue_size :: nat
  ih_last_ttl_nanos :: nat

definition duration_to_nanos :: "duration \<Rightarrow> nat" where
  "duration_to_nanos d = min d u64_max"

definition inbox_new :: "'q \<Rightarrow> nat \<Rightarrow> duration \<Rightarrow> 'q taberna_inbox" where
  "inbox_new q initial_queue_size initial_ttl =
     \<lparr>ih_sender = q, ih_last_queue_size = initial_queue_size, ih_last_ttl_nanos = duration_to_nanos initial_ttl\<rparr>"

text \<open>\<open>limits\<close> is the accept queue size and the accept timeout of the configuration; the first component
  of the result are the requests that a smaller capacity pushes out.\<close>

definition refresh_limits ::
  "('q, 'r) caducus \<Rightarrow> 'q taberna_inbox \<Rightarrow> nat \<times> duration \<Rightarrow> 'r list \<times> 'q taberna_inbox" where
  "refresh_limits cd ih limits =
     (let (next_size, next_ttl) = limits;
          (evicted, ih) =
            (if ih_last_queue_size ih \<noteq> next_size
             then let (evicted, q) = cd_update_capacity cd (ih_sender ih) next_size
                  in (evicted, ih\<lparr>ih_sender := q, ih_last_queue_size := next_size\<rparr>)
             else ([], ih));
          ttl_nanos = duration_to_nanos next_ttl;
          ih = (if ih_last_ttl_nanos ih \<noteq> ttl_nanos
                then ih\<lparr>ih_sender := cd_update_ttl cd (ih_sender ih) next_ttl, ih_last_ttl_nanos := ttl_nanos\<rparr>
                else ih)
      in (evicted, ih))"

text \<open>Evicted and expired requests go to the expiry report, drained ones to the shutdown report.\<close>

definition expiry_report :: "'m taberna_request list \<Rightarrow> taberna_effect list" where
  "expiry_report rs = concat (map request_expire rs)"

definition shutdown_report :: "'m taberna_request list \<Rightarrow> taberna_effect list" where
  "shutdown_report rs = concat (map request_shutdown rs)"

definition inbox_error :: "('q, 'r) caducus \<Rightarrow> 'r caducus_error \<Rightarrow> aurelia_error" where
  "inbox_error cd e =
     (case e of
        CdFull _ \<Rightarrow> err_new TabernaBusy
      | CdShutdown _ \<Rightarrow> err_new DomusClosed
      | _ \<Rightarrow> with_message ProtocolViolation (cd_display cd e))"

text \<open>
  \<open>tx\<close> is the response channel the call creates, \<open>decode\<close> the codec of the application, whose left
  values are the texts its errors print. A request refused by the queue comes back inside the error and
  is dropped with it.
\<close>

definition inbox_enqueue ::
  "('q, 'm taberna_request) caducus \<Rightarrow> (message_type \<Rightarrow> u8 list \<Rightarrow> string + 'm) \<Rightarrow> 'q taberna_inbox \<Rightarrow> nat \<times> duration \<Rightarrow>
   message_type \<Rightarrow> u8 list \<Rightarrow> nat option \<Rightarrow> nat option \<Rightarrow> nat \<Rightarrow> instant \<Rightarrow> nat result \<times> taberna_effect list \<times> 'q taberna_inbox" where
  "inbox_enqueue cd decode ih limits msg_type payload blob_receiver notify tx now =
     (let (evicted, ih) = refresh_limits cd ih limits
      in case decode msg_type payload of
           Inl text \<Rightarrow> (Inl (with_message DecodeFailure text), expiry_report evicted, ih)
         | Inr message \<Rightarrow>
             let (r, q) = cd_send cd (ih_sender ih) (request_new message blob_receiver tx notify) now;
                 ih = ih\<lparr>ih_sender := q\<rparr>
             in case r of
                  Inr _ \<Rightarrow> (Inr tx, expiry_report evicted, ih)
                | Inl e \<Rightarrow> (Inl (inbox_error cd e),
                           expiry_report evicted @ (case error_item e of None \<Rightarrow> [] | Some rq \<Rightarrow> request_drop rq), ih))"

definition inbox_shutdown :: "('q, 'm taberna_request) caducus \<Rightarrow> 'q taberna_inbox \<Rightarrow> taberna_effect list \<times> 'q taberna_inbox" where
  "inbox_shutdown cd ih =
     (let (drained, q) = cd_shutdown cd (ih_sender ih) in (shutdown_report drained, ih\<lparr>ih_sender := q\<rparr>))"

text \<open>The queue's reclaimer.\<close>

definition inbox_reclaim :: "('q, 'm taberna_request) caducus \<Rightarrow> 'q taberna_inbox \<Rightarrow> instant \<Rightarrow> taberna_effect list \<times> 'q taberna_inbox" where
  "inbox_reclaim cd ih now =
     (let (expired, q) = cd_expire cd (ih_sender ih) now in (expiry_report expired, ih\<lparr>ih_sender := q\<rparr>))"

definition DEFAULT_NEXT_TIMEOUT :: duration where
  "DEFAULT_NEXT_TIMEOUT = 1000000000"

definition taberna_next ::
  "('q, 'm taberna_request) caducus \<Rightarrow> 'q taberna_inbox \<Rightarrow> duration option \<Rightarrow> instant \<Rightarrow>
   'm taberna_request result \<times> 'q taberna_inbox" where
  "taberna_next cd ih timeout_override now =
     (let timeout_duration = (case timeout_override of None \<Rightarrow> DEFAULT_NEXT_TIMEOUT | Some d \<Rightarrow> d);
          (r, q) = cd_next cd (ih_sender ih) (now + timeout_duration);
          ih = ih\<lparr>ih_sender := q\<rparr>
      in case r of
           Inr request \<Rightarrow> (Inr request, ih)
         | Inl CdTimeout \<Rightarrow> (Inl (err_new ReceiveTimeout), ih)
         | Inl (CdShutdown _) \<Rightarrow> (Inl (err_new DomusClosed), ih)
         | Inl e \<Rightarrow> (Inl (with_message ProtocolViolation (cd_display cd e)), ih))"

section \<open>Local delivery\<close>

text \<open>
  \<open>answer\<close> is what arrives on the response channel: the value sent, or nothing when the channel was
  closed without one.
\<close>

definition deliver_to_taberna :: "nat result \<Rightarrow> (nat \<Rightarrow> unit result option) \<Rightarrow> unit result" where
  "deliver_to_taberna enqueued answer =
     (case enqueued of
        Inl err \<Rightarrow> Inl err
      | Inr rx \<Rightarrow> (case answer rx of
            Some (Inr _) \<Rightarrow> Inr ()
          | Some (Inl err) \<Rightarrow> Inl err
          | None \<Rightarrow> Inl (err_new RemoteTabernaRejected)))"

text \<open>One end of the pipe between the two sides of a local blob: dropping it releases its reservation.\<close>

record tracked_duplex =
  td_bytes :: nat
  td_direction :: buffer_side

definition duplex_drop :: "tracked_duplex \<Rightarrow> blob_buffer_tracker \<Rightarrow> blob_buffer_tracker" where
  "duplex_drop d t = (if td_bytes d = 0 then t else snd (release_side t (td_direction d) (td_bytes d)))"

record blob_limits =
  bl_chunk_size :: nat
  bl_ack_window :: nat
  bl_outbound_buffer_bytes :: nat
  bl_inbound_buffer_bytes :: nat

definition blob_buffer_full_error :: "string \<Rightarrow> nat \<Rightarrow> aurelia_error" where
  "blob_buffer_full_error direction cap_bytes =
     with_message BlobBufferFull
       (''direction='' @ direction @ '' cap_bytes='' @ show_nat cap_bytes @ '' reservation_based=true'')"

datatype send_outcome = MessageOnly | BlobOutcome tracked_duplex

text \<open>
  \<open>deliver\<close> is the delivery of the message with the receiving end of the pipe: it takes time, so the
  counters it returns include what other tasks did meanwhile.
\<close>

definition deliver_local ::
  "bool \<Rightarrow> blob_limits \<Rightarrow> (tracked_duplex option \<Rightarrow> blob_buffer_tracker \<Rightarrow> unit result \<times> blob_buffer_tracker) \<Rightarrow>
   blob_buffer_tracker \<Rightarrow> send_outcome result \<times> blob_buffer_tracker" where
  "deliver_local blob cfg deliver t =
     (if \<not> blob then
        (case deliver None t of (Inl err, t) \<Rightarrow> (Inl err, t) | (Inr _, t) \<Rightarrow> (Inr MessageOnly, t))
      else if bl_chunk_size cfg = 0 \<or> bl_ack_window cfg = 0 then (Inl (err_new ProtocolViolation), t)
      else let reservation_bytes = sat_mul (bl_chunk_size cfg) (bl_ack_window cfg)
           in case try_reserve_pair t reservation_bytes (bl_outbound_buffer_bytes cfg)
                     reservation_bytes (bl_inbound_buffer_bytes cfg) of
                (Inl FailOutbound, t) \<Rightarrow> (Inl (blob_buffer_full_error ''outbound'' (bl_outbound_buffer_bytes cfg)), t)
              | (Inl FailInbound, t) \<Rightarrow> (Inl (blob_buffer_full_error ''inbound'' (bl_inbound_buffer_bytes cfg)), t)
              | (Inr _, t) \<Rightarrow>
                  let sender = \<lparr>td_bytes = reservation_bytes, td_direction = SideOutbound\<rparr>;
                      receiver = \<lparr>td_bytes = reservation_bytes, td_direction = SideInbound\<rparr>
                  in (case deliver (Some receiver) t of
                        (Inr _, t) \<Rightarrow> (Inr (BlobOutcome sender), t)
                      | (Inl err, t) \<Rightarrow> (Inl err, duplex_drop sender t)))"

section \<open>The queue's behaviour\<close>

definition caducus_laws :: "('q, 'r) caducus \<Rightarrow> ('q \<Rightarrow> 'r multiset) \<Rightarrow> bool" where
  "caducus_laws cd items \<longleftrightarrow>
     (\<forall>q r now. case cd_send cd q r now of
        (Inr _, q') \<Rightarrow> items q' = add_mset r (items q)
      | (Inl e, q') \<Rightarrow> items q' = items q \<and> error_item e = Some r)
     \<and> (\<forall>q d. case cd_next cd q d of
        (Inr r, q') \<Rightarrow> items q = add_mset r (items q')
      | (Inl e, q') \<Rightarrow> items q' = items q \<and> error_item e = None)
     \<and> (\<forall>q n. items (snd (cd_update_capacity cd q n)) + mset (fst (cd_update_capacity cd q n)) = items q)
     \<and> (\<forall>q d. items (cd_update_ttl cd q d) = items q)
     \<and> (\<forall>q now. items (snd (cd_expire cd q now)) + mset (fst (cd_expire cd q now)) = items q)
     \<and> (\<forall>q. items (snd (cd_shutdown cd q)) = {#} \<and> mset (fst (cd_shutdown cd q)) = items q)"

lemma caducus_sendD:
  assumes "caducus_laws cd items" and "cd_send cd q r now = (o1, q')"
  shows "case o1 of Inr _ \<Rightarrow> items q' = add_mset r (items q) | Inl e \<Rightarrow> items q' = items q \<and> error_item e = Some r"
proof -
  have "\<forall>q r now. case cd_send cd q r now of
      (Inr _, q') \<Rightarrow> items q' = add_mset r (items q) | (Inl e, q') \<Rightarrow> items q' = items q \<and> error_item e = Some r"
    using assms(1) unfolding caducus_laws_def by (elim conjE)
  from this [rule_format, of q r now] assms(2) show ?thesis by (cases o1) simp_all
qed

lemma caducus_nextD:
  assumes "caducus_laws cd items" and "cd_next cd q d = (o1, q')"
  shows "case o1 of Inr r \<Rightarrow> items q = add_mset r (items q') | Inl e \<Rightarrow> items q' = items q \<and> error_item e = None"
proof -
  have "\<forall>q d. case cd_next cd q d of
      (Inr r, q') \<Rightarrow> items q = add_mset r (items q') | (Inl e, q') \<Rightarrow> items q' = items q \<and> error_item e = None"
    using assms(1) unfolding caducus_laws_def by (elim conjE)
  from this [rule_format, of q d] assms(2) show ?thesis by (cases o1) simp_all
qed

lemma caducus_drainD:
  assumes "caducus_laws cd items"
  shows "items (snd (cd_update_capacity cd q n)) + mset (fst (cd_update_capacity cd q n)) = items q"
    and "items (cd_update_ttl cd q d) = items q"
    and "items (snd (cd_expire cd q now)) + mset (fst (cd_expire cd q now)) = items q"
    and "items (snd (cd_shutdown cd q)) = {#}" and "mset (fst (cd_shutdown cd q)) = items q"
  using assms by (simp_all only: caducus_laws_def)

section \<open>Every request is answered once\<close>

fun response_of :: "taberna_effect \<Rightarrow> nat multiset" where
  "response_of (Responded tx r) = {#tx#}"
| "response_of (Notified n) = {#}"

definition responses :: "taberna_effect list \<Rightarrow> nat multiset" where
  "responses es = sum_list (map response_of es)"

lemma responses_simps [simp]:
  "responses [] = {#}" "responses (e # es) = response_of e + responses es" "responses (es @ fs) = responses es + responses fs"
  by (simp_all add: responses_def)

text \<open>The channel a request still owes an answer.\<close>

definition owed :: "'m taberna_request \<Rightarrow> nat multiset" where
  "owed rq = (case tc_response (rq_completion rq) of None \<Rightarrow> {#} | Some tx \<Rightarrow> {#tx#})"

lemma responses_request [simp]:
  "responses (request_accept rq) = owed rq" "responses (request_reject rq) = owed rq" "responses (request_expire rq) = owed rq"
  "responses (request_shutdown rq) = owed rq" "responses (request_drop rq) = owed rq"
  by (auto simp: request_defs completion_defs owed_def split: option.splits)

definition owed_all :: "'m taberna_request multiset \<Rightarrow> nat multiset" where
  "owed_all rs = sum_mset (image_mset owed rs)"

lemma owed_all_simps [simp]:
  "owed_all {#} = {#}" "owed_all (add_mset r rs) = owed r + owed_all rs" "owed_all (rs + rs') = owed_all rs + owed_all rs'"
  by (simp_all add: owed_all_def)

lemma responses_reports [simp]:
  "responses (expiry_report rs) = owed_all (mset rs)" "responses (shutdown_report rs) = owed_all (mset rs)"
  by (induction rs) (simp_all add: expiry_report_def shutdown_report_def)

text \<open>An inbox with the requests the application has taken from it and not yet answered.\<close>

record ('q, 'm) taberna_sys =
  ts_inbox :: "'q taberna_inbox"
  ts_held :: "'m taberna_request list"

datatype taberna_op =
    EnqueueOp "nat \<times> duration" message_type "u8 list" "nat option" "nat option" nat instant
  | NextOp "duration option" instant
  | ReclaimOp instant
  | ShutdownOp
  | AcceptOp nat | RejectOp nat | DropOp nat

definition take_held :: "('q, 'm) taberna_sys \<Rightarrow> nat \<Rightarrow> ('m taberna_request \<Rightarrow> taberna_effect list) \<Rightarrow> taberna_effect list \<times> ('q, 'm) taberna_sys" where
  "take_held s i answer =
     (if i < length (ts_held s)
      then (answer (ts_held s ! i), s\<lparr>ts_held := take i (ts_held s) @ drop (Suc i) (ts_held s)\<rparr>)
      else ([], s))"

fun taberna_act ::
  "('q, 'm taberna_request) caducus \<Rightarrow> (message_type \<Rightarrow> u8 list \<Rightarrow> string + 'm) \<Rightarrow> ('q, 'm) taberna_sys \<Rightarrow> taberna_op \<Rightarrow>
   taberna_effect list \<times> ('q, 'm) taberna_sys" where
  "taberna_act cd decode s (EnqueueOp limits msg_type payload blob notify tx now) =
     (let (r, es, ih) = inbox_enqueue cd decode (ts_inbox s) limits msg_type payload blob notify tx now
      in (es, s\<lparr>ts_inbox := ih\<rparr>))"
| "taberna_act cd decode s (NextOp timeout now) =
     (case taberna_next cd (ts_inbox s) timeout now of
        (Inr rq, ih) \<Rightarrow> ([], s\<lparr>ts_inbox := ih, ts_held := ts_held s @ [rq]\<rparr>)
      | (Inl e, ih) \<Rightarrow> ([], s\<lparr>ts_inbox := ih\<rparr>))"
| "taberna_act cd decode s (ReclaimOp now) =
     (let (es, ih) = inbox_reclaim cd (ts_inbox s) now in (es, s\<lparr>ts_inbox := ih\<rparr>))"
| "taberna_act cd decode s ShutdownOp =
     (let (es, ih) = inbox_shutdown cd (ts_inbox s) in (es, s\<lparr>ts_inbox := ih\<rparr>))"
| "taberna_act cd decode s (AcceptOp i) = take_held s i request_accept"
| "taberna_act cd decode s (RejectOp i) = take_held s i request_reject"
| "taberna_act cd decode s (DropOp i) = take_held s i request_drop"

definition owed_by :: "('q \<Rightarrow> 'm taberna_request multiset) \<Rightarrow> ('q, 'm) taberna_sys \<Rightarrow> nat multiset" where
  "owed_by items s = owed_all (items (ih_sender (ts_inbox s))) + owed_all (mset (ts_held s))"

fun asked :: "(message_type \<Rightarrow> u8 list \<Rightarrow> string + 'm) \<Rightarrow> taberna_op \<Rightarrow> nat multiset" where
  "asked decode (EnqueueOp limits msg_type payload blob notify tx now) =
     (case decode msg_type payload of Inl _ \<Rightarrow> {#} | Inr _ \<Rightarrow> {#tx#})"
| "asked decode _ = {#}"

lemma refresh_items:
  assumes "caducus_laws cd items" and "refresh_limits cd ih limits = (evicted, ih')"
  shows "items (ih_sender ih') + mset evicted = items (ih_sender ih)"
proof -
  obtain size ttl where l: "limits = (size, ttl)" by fastforce
  obtain es q where u: "cd_update_capacity cd (ih_sender ih) size = (es, q)" by fastforce
  have "items q + mset es = items (ih_sender ih)" using caducus_drainD(1) [OF assms(1), of "ih_sender ih" size] u by simp
  moreover have "items (cd_update_ttl cd q' d) = items q'" for q' d using assms(1) by (rule caducus_drainD(2))
  ultimately show ?thesis using assms(2) u by (auto simp: refresh_limits_def l Let_def split: if_splits)
qed

lemma enqueue_conserve:
  assumes laws: "caducus_laws cd items"
    and "inbox_enqueue cd decode ih limits mt pl blob notify tx now = (r, es, ih')"
  shows "owed_all (items (ih_sender ih')) + responses es
    = owed_all (items (ih_sender ih)) + (case decode mt pl of Inl _ \<Rightarrow> {#} | Inr _ \<Rightarrow> {#tx#})"
proof -
  obtain evicted ih1 where rf: "refresh_limits cd ih limits = (evicted, ih1)" by fastforce
  have kept: "owed_all (items (ih_sender ih1)) + owed_all (mset evicted) = owed_all (items (ih_sender ih))"
    using refresh_items [OF laws rf] by (metis owed_all_simps(3))
  show ?thesis
  proof (cases "decode mt pl")
    case (Inl err)
    with assms(2) rf kept show ?thesis by (auto simp: inbox_enqueue_def)
  next
    case (Inr m)
    let ?rq = "request_new m blob tx notify"
    obtain o1 q where send: "cd_send cd (ih_sender ih1) ?rq now = (o1, q)" by fastforce
    note law = caducus_sendD [OF laws send]
    have "owed ?rq = {#tx#}" by (simp add: owed_def request_new_def)
    with assms(2) rf kept Inr send law show ?thesis
      by (cases o1) (auto simp: inbox_enqueue_def ac_simps)
  qed
qed

lemma take_held_conserve:
  assumes "take_held s i answer = (es, s')" and "\<And>rq. responses (answer rq) = owed rq"
  shows "owed_by items s' + responses es = owed_by items s"
proof (cases "i < length (ts_held s)")
  case True
  have "ts_held s = take i (ts_held s) @ ts_held s ! i # drop (Suc i) (ts_held s)" using True by (rule id_take_nth_drop)
  then have "mset (ts_held s) = add_mset (ts_held s ! i) (mset (take i (ts_held s) @ drop (Suc i) (ts_held s)))"
    by (metis mset.simps(2) mset_append union_mset_add_mset_right)
  then have "owed_all (mset (ts_held s)) = owed (ts_held s ! i) + owed_all (mset (take i (ts_held s) @ drop (Suc i) (ts_held s)))"
    by simp
  with True assms show ?thesis by (auto simp: take_held_def owed_by_def ac_simps)
qed (use assms(1) in \<open>simp add: take_held_def\<close>)

lemma taberna_conserve:
  assumes laws: "caducus_laws cd items" and "taberna_act cd decode s x = (es, s')"
  shows "owed_by items s' + responses es = owed_by items s + asked decode x"
proof (cases x)
  case (EnqueueOp limits mt pl blob notify tx now)
  obtain r es1 ih where e: "inbox_enqueue cd decode (ts_inbox s) limits mt pl blob notify tx now = (r, es1, ih)"
    using prod_cases3 by blast
  with enqueue_conserve [OF laws e] assms(2) EnqueueOp show ?thesis by (auto simp: owed_by_def ac_simps)
next
  case (NextOp timeout now)
  obtain o1 q where n: "cd_next cd (ih_sender (ts_inbox s)) (now + (case timeout of None \<Rightarrow> DEFAULT_NEXT_TIMEOUT | Some d \<Rightarrow> d)) = (o1, q)"
    by fastforce
  note law = caducus_nextD [OF laws n]
  show ?thesis
  proof (cases o1)
    case (Inl e)
    with n law assms(2) NextOp show ?thesis
      by (cases e) (auto simp: taberna_next_def owed_by_def)
  next
    case (Inr r)
    with n law assms(2) NextOp show ?thesis
      by (auto simp: taberna_next_def owed_by_def ac_simps)
  qed
next
  case (ReclaimOp now)
  obtain rs q where c: "cd_expire cd (ih_sender (ts_inbox s)) now = (rs, q)" by fastforce
  with caducus_drainD(3) [OF laws, of "ih_sender (ts_inbox s)" now]
  have "owed_all (items (ih_sender (ts_inbox s))) = owed_all (items q) + owed_all (mset rs)"
    by (metis fst_conv owed_all_simps(3) snd_conv)
  with c assms(2) ReclaimOp show ?thesis by (auto simp: inbox_reclaim_def owed_by_def ac_simps)
next
  case ShutdownOp
  with caducus_drainD(4,5) [OF laws, of "ih_sender (ts_inbox s)"] assms(2) show ?thesis
    by (auto simp: inbox_shutdown_def owed_by_def split_beta ac_simps)
qed (use assms(2) take_held_conserve [of s] in \<open>auto\<close>)

definition taberna_start :: "'q \<Rightarrow> nat \<Rightarrow> duration \<Rightarrow> ('q, 'm) taberna_sys" where
  "taberna_start q n ttl = \<lparr>ts_inbox = inbox_new q n ttl, ts_held = []\<rparr>"

abbreviation taberna_run where
  "taberna_run cd decode s xs \<equiv> foldl (\<lambda>s x. snd (taberna_act cd decode s x)) s xs"

abbreviation answers_given where
  "answers_given cd decode s xs \<equiv>
     total_over (\<lambda>s x. snd (taberna_act cd decode s x)) (\<lambda>s x. responses (fst (taberna_act cd decode s x))) s xs"

text \<open>
  C23. Every delivery is answered exactly once. Whatever the application does with its requests and
  whenever they expire or the domus shuts down, the response channels answered so far together with those
  of requests still queued or held by the application are exactly the channels of the messages that were
  decoded; after a shutdown, when the application has let go of its requests, every channel has its one
  answer. The hypothesis is the documented behaviour of the queue: it neither loses nor invents requests.
\<close>

theorem deliveries_answered_once:
  assumes laws: "caducus_laws cd items" and empty: "items q = {#}" and s0_def: "s0 = taberna_start q n ttl"
  shows "owed_by items (taberna_run cd decode s0 xs) + answers_given cd decode s0 xs
      = sum_list (map (asked decode) xs)
    \<and> (ts_held (taberna_run cd decode s0 (xs @ [ShutdownOp])) = [] \<longrightarrow>
         answers_given cd decode s0 (xs @ [ShutdownOp]) = sum_list (map (asked decode) xs))"
proof -
  let ?step = "\<lambda>s x. snd (taberna_act cd decode s x)"
  let ?given = "\<lambda>s x. responses (fst (taberna_act cd decode s x))"
  have m: "conserving_machine (\<lambda>_. True) ?step (\<lambda>_. True) (owed_by items) (\<lambda>s x. asked decode x) ?given"
    by unfold_locales (use taberna_conserve [OF laws] in \<open>metis prod.collapse\<close>)+
  have asked: "total_over ?step (\<lambda>s x. asked decode x) s xs = sum_list (map (asked decode) xs)" for s xs
    by (induction xs arbitrary: s) simp_all
  have zero: "owed_by items s0 = {#}"
    using empty by (simp add: s0_def taberna_start_def owed_by_def inbox_new_def)
  have sum: "owed_by items (taberna_run cd decode s0 xs) + answers_given cd decode s0 xs = sum_list (map (asked decode) xs)" for xs
    using conserving_machine.conserve_run [OF m, of s0 xs] asked zero by simp
  have "owed_by items (taberna_run cd decode s0 (xs @ [ShutdownOp])) = {#}"
    if "ts_held (taberna_run cd decode s0 (xs @ [ShutdownOp])) = []"
    using that caducus_drainD(4) [OF laws] by (simp add: owed_by_def inbox_shutdown_def split_beta)
  moreover have "sum_list (map (asked decode) (xs @ [ShutdownOp])) = sum_list (map (asked decode) xs)" by simp
  ultimately show ?thesis using sum [of xs] sum [of "xs @ [ShutdownOp]"] by (metis add_cancel_left_left)
qed

text \<open>
  Delivery to a local inbox fails in the ways it documents: an undecodable payload, a full inbox and
  a closed one have their own errors, the refused request's guard is completed, and a delivery that was
  queued reports what the application decided, rejection included when the answer channel is closed.
\<close>

theorem delivery_outcomes:
  assumes laws: "caducus_laws cd items"
    and enq: "inbox_enqueue cd decode ih limits mt pl blob notify tx now = (r, es, ih')"
  shows "(case decode mt pl of
        Inl message \<Rightarrow> r = Inl (with_message DecodeFailure message)
      | Inr m \<Rightarrow> (case fst (cd_send cd (ih_sender (snd (refresh_limits cd ih limits))) (request_new m blob tx notify) now) of
            Inr _ \<Rightarrow> r = Inr tx \<and> request_new m blob tx notify \<in># items (ih_sender ih')
          | Inl e \<Rightarrow> r = Inl (inbox_error cd e) \<and> Responded tx (Inl (err_new RemoteTabernaRejected)) \<in> set es))
    \<and> deliver_to_taberna r answer =
        (case r of Inl e \<Rightarrow> Inl e | Inr rx \<Rightarrow>
           (case answer rx of None \<Rightarrow> Inl (err_new RemoteTabernaRejected) | Some decision \<Rightarrow> decision))"
proof -
  obtain evicted ih1 where rf: "refresh_limits cd ih limits = (evicted, ih1)" by fastforce
  have "deliver_to_taberna r answer = (case r of Inl e \<Rightarrow> Inl e | Inr rx \<Rightarrow>
           (case answer rx of None \<Rightarrow> Inl (err_new RemoteTabernaRejected) | Some decision \<Rightarrow> decision))"
    by (auto simp: deliver_to_taberna_def split: sum.splits option.splits)
  moreover have "case decode mt pl of
        Inl message \<Rightarrow> r = Inl (with_message DecodeFailure message)
      | Inr m \<Rightarrow> (case fst (cd_send cd (ih_sender (snd (refresh_limits cd ih limits))) (request_new m blob tx notify) now) of
            Inr _ \<Rightarrow> r = Inr tx \<and> request_new m blob tx notify \<in># items (ih_sender ih')
          | Inl e \<Rightarrow> r = Inl (inbox_error cd e) \<and> Responded tx (Inl (err_new RemoteTabernaRejected)) \<in> set es)"
  proof (cases "decode mt pl")
    case (Inr m)
    obtain o1 q where send: "cd_send cd (ih_sender ih1) (request_new m blob tx notify) now = (o1, q)" by fastforce
    from caducus_sendD [OF laws send] send Inr enq rf show ?thesis
      by (cases o1) (auto simp: inbox_enqueue_def request_drop_def completion_drop_def request_new_def)
  qed (use enq rf in \<open>auto simp: inbox_enqueue_def\<close>)
  ultimately show ?thesis by blast
qed

text \<open>
  A taberna identifier belongs to one inbox at a time: registering a free identifier makes exactly it
  resolve to the new inbox, registering a taken one is refused and changes nothing, unregistering frees
  exactly the one identifier, and shutdown reaches every registered inbox and leaves none.
\<close>

theorem registry_contract:
  assumes "distinct (map fst reg)" and "registry_register reg i inbox = (r, reg')"
  shows "(resolve_local reg i = None \<longrightarrow> r = Inr () \<and> resolve_local reg' = (resolve_local reg)(i \<mapsto> inbox))
    \<and> (resolve_local reg i \<noteq> None \<longrightarrow> r = Inl (err_new TabernaAlreadyRegistered) \<and> reg' = reg)
    \<and> distinct (map fst reg')
    \<and> resolve_local (registry_unregister reg i) = (resolve_local reg)(i := None)
    \<and> set (fst (registry_shutdown reg)) = ran (resolve_local reg) \<and> resolve_local (snd (registry_shutdown reg)) = Map.empty"
proof -
  have resolve: "resolve_local m = map_of m" for m :: "'a taberna_registry" by (simp add: resolve_local_def fun_eq_iff)
  show ?thesis
    unfolding resolve using assms
    by (auto simp: registry_register_def registry_unregister_def registry_shutdown_def
        update_conv' delete_conv' distinct_update ran_distinct fun_eq_iff split: if_splits)
qed

text \<open>
  A local blob never leaks buffer bytes: it reserves the same number of bytes on both sides, or is
  refused without any; when the delivery fails after dropping its end of the pipe the counters are what
  they were; when it succeeds, dropping the two ends later restores them.
\<close>

theorem local_blob_reservation:
  assumes "deliver_local True cfg deliver t = (r, t')"
    and "\<And>rx t. deliver (Some rx) t = (outcome, if (\<exists>e. outcome = Inl e) then duplex_drop rx t else t)"
  shows "(\<forall>e. r = Inl e \<longrightarrow> used t' = used t)
    \<and> (\<forall>sent. r = Inr sent \<longrightarrow> (\<exists>n. 0 < n \<and> sent = BlobOutcome \<lparr>td_bytes = n, td_direction = SideOutbound\<rparr>
         \<and> n = sat_mul (bl_chunk_size cfg) (bl_ack_window cfg)
         \<and> used t' SideOutbound = used t SideOutbound + n \<and> used t' SideOutbound \<le> bl_outbound_buffer_bytes cfg
         \<and> used t' SideInbound = used t SideInbound + n \<and> used t' SideInbound \<le> bl_inbound_buffer_bytes cfg
         \<and> used (duplex_drop \<lparr>td_bytes = n, td_direction = SideInbound\<rparr> (duplex_drop \<lparr>td_bytes = n, td_direction = SideOutbound\<rparr> t')) = used t))"
proof -
  let ?n = "sat_mul (bl_chunk_size cfg) (bl_ack_window cfg)"
  have drop: "used (duplex_drop \<lparr>td_bytes = n, td_direction = side\<rparr> t) side' = (if side = side' then used t side - n else used t side')"
    for n side side' t by (simp add: duplex_drop_def)
  have pos: "0 < ?n" if "bl_chunk_size cfg \<noteq> 0" "bl_ack_window cfg \<noteq> 0" using that by (simp add: sat_mul_def)
  show ?thesis
    using assms(1) pos
    by (auto simp: deliver_local_def Let_def try_reserve_pair_def try_reserve_side_eq assms(2) drop fun_eq_iff side_cases
        split: if_splits sum.splits)
qed

section \<open>A queue with these laws, and small runs\<close>

text \<open>A first-in first-out queue of at most one request that forgets nothing until it is shut down.\<close>

definition fifo :: "('r list, 'r) caducus" where
  "fifo = \<lparr>cd_display = (\<lambda>_. []),
     cd_send = (\<lambda>q r now. if q = [] then (Inr (), [r]) else (Inl (CdFull r), q)),
     cd_next = (\<lambda>q d. case q of [] \<Rightarrow> (Inl CdTimeout, []) | r # q \<Rightarrow> (Inr r, q)),
     cd_update_capacity = (\<lambda>q n. ([], q)), cd_update_ttl = (\<lambda>q d. q), cd_expire = (\<lambda>q now. ([], q)),
     cd_shutdown = (\<lambda>q. (q, []))\<rparr>"

lemma fifo_laws: "caducus_laws fifo mset"
  by (auto simp: caducus_laws_def fifo_def split: list.splits)

definition sample_decode :: "message_type \<Rightarrow> u8 list \<Rightarrow> string + u8 list" where
  "sample_decode mt pl = (if pl = [] then Inl ''empty'' else Inr pl)"

theorem deliveries_answered_once_witness:
  "answers_given fifo sample_decode (taberna_start [] 1 0)
     [EnqueueOp (1, 0) 7 [1] None None 5 0, NextOp None 0, AcceptOp 0, EnqueueOp (1, 0) 7 [2] None None 6 0, ShutdownOp] = {#5, 6#}"
proof -
  let ?xs = "[EnqueueOp (1, 0) 7 [1] None None 5 0, NextOp None 0, AcceptOp 0, EnqueueOp (1, 0) 7 [2] None None 6 0]"
  have "ts_held (taberna_run fifo sample_decode (taberna_start [] 1 0) (?xs @ [ShutdownOp])) = []"
    by (simp add: taberna_start_def inbox_new_def inbox_enqueue_def refresh_limits_def sample_decode_def fifo_def
        duration_to_nanos_def expiry_report_def taberna_next_def take_held_def inbox_shutdown_def)
  with deliveries_answered_once [OF fifo_laws _ refl, where q = "[]" and n = 1 and ttl = 0 and decode = sample_decode and xs = ?xs]
  have "answers_given fifo sample_decode (taberna_start [] 1 0) (?xs @ [ShutdownOp]) = sum_list (map (asked sample_decode) ?xs)"
    by simp
  then show ?thesis by (simp add: sample_decode_def)
qed

theorem delivery_outcomes_witness:
  "fst (inbox_enqueue fifo sample_decode (inbox_new [request_new [1] None 5 None] 1 0) (1, 0) 7 [2] None None 6 0)
     = Inl (err_new TabernaBusy)"
proof -
  let ?ih = "inbox_new [request_new [1] None 5 None] 1 0"
  obtain r es ih where e: "inbox_enqueue fifo sample_decode ?ih (1, 0) 7 [2] None None 6 0 = (r, es, ih)"
    using prod_cases3 by blast
  from delivery_outcomes [OF fifo_laws e, of "\<lambda>_. None"] have "r = Inl (err_new TabernaBusy)"
    by (simp add: sample_decode_def fifo_def refresh_limits_def inbox_new_def duration_to_nanos_def inbox_error_def)
  with e show ?thesis by simp
qed

theorem registry_contract_witness:
  "resolve_local (snd (registry_register [(1, ''a'')] 2 ''b'')) = [1 \<mapsto> ''a'', 2 \<mapsto> ''b'']"
proof -
  obtain r reg where e: "registry_register [(1, ''a'')] 2 ''b'' = (r, reg)" by fastforce
  from registry_contract [OF _ e] have "resolve_local reg = (resolve_local [(1, ''a'')])(2 \<mapsto> ''b'')"
    by (simp add: resolve_local_def)
  with e show ?thesis by (simp add: resolve_local_def fun_eq_iff)
qed

theorem local_blob_reservation_witness:
  "let cfg = \<lparr>bl_chunk_size = 2, bl_ack_window = 3, bl_outbound_buffer_bytes = 10, bl_inbound_buffer_bytes = 10\<rparr>;
       t = \<lparr>bt_outbound_used = 1, bt_inbound_used = 2\<rparr>
   in used (snd (deliver_local True cfg (\<lambda>rx t. (Inl (err_new TabernaBusy), duplex_drop (the rx) t)) t)) = used t"
proof -
  let ?cfg = "\<lparr>bl_chunk_size = 2, bl_ack_window = 3, bl_outbound_buffer_bytes = 10, bl_inbound_buffer_bytes = 10\<rparr>"
  let ?t = "\<lparr>bt_outbound_used = 1, bt_inbound_used = 2\<rparr>"
  let ?deliver = "\<lambda>rx t. (Inl (err_new TabernaBusy), duplex_drop (the rx) t)"
  obtain r t' where e: "deliver_local True ?cfg ?deliver ?t = (r, t')" by fastforce
  have "r = Inl (err_new TabernaBusy)"
    using e by (simp add: deliver_local_def try_reserve_pair_def try_reserve_side_eq sat_mul_def used.simps set_used.simps)
  with local_blob_reservation [OF e, of "Inl (err_new TabernaBusy)"] e show ?thesis by (simp add: Let_def)
qed

end
