(* ===== verification/Session.thy ===== *)
theory Session
  imports Primary_Dispatch Dedupe Taberna
begin

text \<open>
  The session with one peer (\<^verbatim>\<open>src/crates/peering/src/session.rs\<close>, \<^verbatim>\<open>message_id.rs\<close>): identifiers for
  outgoing messages, their enqueueing and the wait for their acknowledgement, the handling of
  acknowledgements, errors, closing and restarts of the peer, and the scheduling of inbound messages
  through duplicate suppression to a local inbox.

  The session owns the outbound queue of \<^verbatim>\<open>Primary_Dispatch\<close> and the duplicate history of \<^verbatim>\<open>Dedupe\<close>. The
  configuration values a call reads, the time and new channels are arguments.
\<close>

section \<open>Message identifiers\<close>

record message_id_allocator =
  al_next :: u32

definition allocator_new :: "u32 \<Rightarrow> message_id_allocator" where
  "allocator_new initial = \<lparr>al_next = initial\<rparr>"

definition allocator_next :: "message_id_allocator \<Rightarrow> peer_message_id \<times> message_id_allocator" where
  "allocator_next a = (al_next a, a\<lparr>al_next := al_next a + 1\<rparr>)"

definition allocator_default :: message_id_allocator where
  "allocator_default = allocator_new 0"

section \<open>State\<close>

datatype cancel_reason = CancelNone | CancelConnectionLost | CancelRemoteClose | CancelLocalShutdown

definition should_error :: "cancel_reason \<Rightarrow> bool" where
  "should_error r = (case r of CancelRemoteClose \<Rightarrow> True | CancelLocalShutdown \<Rightarrow> True | _ \<Rightarrow> False)"

datatype receive_outcome = ReceiveAck peer_message_id | ReceiveError aurelia_error | ReceiveSkip

datatype receive_schedule =
    ScheduleImmediate receive_outcome
  | SchedulePending taberna_id nat
  | SchedulePendingDuplicate nat

record ack_waiter =
  aw_rx :: "nat option"
  aw_peer_msg_id :: peer_message_id
  aw_deadline :: instant

record limit_snapshot =
  lm_send_queue_size :: u64

text \<open>\<open>ss_told\<close> keeps what the waiting duplicates were told, in order.\<close>

record peer_session =
  ss_allocator :: message_id_allocator
  ss_dedupe :: dedupe_state
  ss_dispatch :: primary_outbound
  ss_limit_snapshot :: "limit_snapshot option"
  ss_active :: bool
  ss_closing :: bool
  ss_told :: "(dedupe_waiter \<times> dedupe_decision) list"

definition session_new :: "message_id_allocator \<Rightarrow> primary_outbound \<Rightarrow> peer_session" where
  "session_new allocator dispatch =
     \<lparr>ss_allocator = allocator, ss_dedupe = dedupe_new, ss_dispatch = dispatch, ss_limit_snapshot = None,
      ss_active = False, ss_closing = False, ss_told = []\<rparr>"

section \<open>Outgoing messages\<close>

definition session_refresh_limits :: "peer_session \<Rightarrow> u64 \<Rightarrow> instant \<Rightarrow> peer_session" where
  "session_refresh_limits s send_queue_size now =
     (let update = (case ss_limit_snapshot s of Some snapshot \<Rightarrow> lm_send_queue_size snapshot \<noteq> send_queue_size | None \<Rightarrow> True)
      in if update
         then s\<lparr>ss_dispatch := queue_set_capacities (ss_dispatch s) (unat send_queue_size) now,
                ss_limit_snapshot := Some \<lparr>lm_send_queue_size = send_queue_size\<rparr>\<rparr>
         else s)"

definition fail_inflight :: "peer_session \<Rightarrow> peer_message_id \<Rightarrow> aurelia_error \<Rightarrow> peer_session" where
  "fail_inflight s pmid err = s\<lparr>ss_dispatch := snd (queue_fail_one (ss_dispatch s) pmid err)\<rparr>"

definition fail_ack_wait :: "peer_session \<Rightarrow> peer_message_id \<Rightarrow> aurelia_error \<Rightarrow> unit result \<times> peer_session" where
  "fail_ack_wait s pmid err = (Inl err, fail_inflight s pmid err)"

text \<open>
  The parts of the configuration that the session reads. \<open>None\<close> is a panic of the queue.
\<close>

record session_config =
  cf_send_queue_size :: u64
  cf_send_timeout :: duration

definition create_outgoing ::
  "peer_session \<Rightarrow> taberna_id \<Rightarrow> taberna_id \<Rightarrow> message_type \<Rightarrow> u16 \<Rightarrow> u8 list \<Rightarrow> session_config \<Rightarrow> nat \<Rightarrow> instant \<Rightarrow>
   (peer_message \<times> ack_waiter) result option \<times> peer_session" where
  "create_outgoing s src_taberna dst_taberna msg_type flags payload cfg tx now =
     (if ss_closing s then (Some (Inl (err_new PeerUnavailable)), s)
      else let s = session_refresh_limits s (cf_send_queue_size cfg) now;
               deadline = now + cf_send_timeout cfg;
               (peer_msg_id, allocator) = allocator_next (ss_allocator s);
               message = \<lparr>pm_peer_msg_id = peer_msg_id, pm_src_taberna = src_taberna, pm_dst_taberna = dst_taberna,
                          pm_msg_type = msg_type, pm_flags = flags, pm_payload = payload\<rparr>;
               (r, dispatch) = enqueue_message (ss_dispatch s) message tx deadline (unat (cf_send_queue_size cfg)) now;
               s = s\<lparr>ss_allocator := allocator, ss_dispatch := dispatch\<rparr>
           in case r of
                None \<Rightarrow> (None, s)
              | Some (Inl err) \<Rightarrow> (Some (Inl err), s)
              | Some (Inr rx) \<Rightarrow>
                  (Some (Inr (message, \<lparr>aw_rx = Some rx, aw_peer_msg_id = peer_msg_id, aw_deadline = deadline\<rparr>)), s))"

definition prepare_dispatch ::
  "peer_session \<Rightarrow> peer_message_id \<Rightarrow> session_config \<Rightarrow> instant \<Rightarrow> unit result \<times> peer_session" where
  "prepare_dispatch s pmid cfg now =
     (if ss_closing s then (Inl (err_new PeerUnavailable), fail_inflight s pmid (err_new PeerUnavailable))
      else case store_deadline (po_state (ss_dispatch s)) pmid of
             None \<Rightarrow> (Inl (err_new SendTimeout), s)
           | Some deadline \<Rightarrow>
               if now \<ge> deadline then (Inl (err_new SendTimeout), fail_inflight s pmid (err_new SendTimeout))
               else (Inr (), session_refresh_limits s (cf_send_queue_size cfg) now))"

definition handle_ack :: "peer_session \<Rightarrow> peer_message_id \<Rightarrow> bool \<times> peer_session" where
  "handle_ack s pmid =
     (let (acked, dispatch) = queue_ack (ss_dispatch s) pmid in (acked, s\<lparr>ss_dispatch := dispatch\<rparr>))"

definition handle_error :: "peer_session \<Rightarrow> peer_message_id \<Rightarrow> aurelia_error \<Rightarrow> bool \<times> peer_session" where
  "handle_error s pmid err =
     (let (failed, dispatch) = queue_fail_one (ss_dispatch s) pmid err in (failed, s\<lparr>ss_dispatch := dispatch\<rparr>))"

definition has_inflight :: "peer_session \<Rightarrow> bool" where
  "has_inflight s = dispatch_has_entries (ss_dispatch s)"

definition handle_close :: "peer_session \<Rightarrow> peer_session" where
  "handle_close s =
     (let s = s\<lparr>ss_closing := True\<rparr>
      in s\<lparr>ss_dispatch := snd (dispatch_fail_all (ss_dispatch s) (err_new PeerUnavailable))\<rparr>)"

definition begin_close :: "peer_session \<Rightarrow> peer_session" where
  "begin_close s = s\<lparr>ss_closing := True\<rparr>"

text \<open>
  What the wait on the channel ends with: the time is over, the channel was closed without a value, or
  the value. The clock at the call is \<open>now\<close>; a deadline that has come is not waited for at all.
\<close>

datatype ack_wait = WaitTimeout | WaitClosed | WaitValue "unit result"

definition wait_for_ack :: "peer_session \<Rightarrow> ack_waiter \<Rightarrow> ack_wait \<Rightarrow> instant \<Rightarrow> unit result \<times> peer_session" where
  "wait_for_ack s waiter waited now =
     (let remaining = aw_deadline waiter - now
      in if remaining = 0 then fail_ack_wait s (aw_peer_msg_id waiter) (err_new SendTimeout)
         else case aw_rx waiter of
                None \<Rightarrow> fail_ack_wait s (aw_peer_msg_id waiter) (err_new ConnectionLost)
              | Some rx \<Rightarrow>
                  (case waited of
                     WaitValue r \<Rightarrow> (r, s)
                   | WaitClosed \<Rightarrow> fail_ack_wait s (aw_peer_msg_id waiter) (err_new ConnectionLost)
                   | WaitTimeout \<Rightarrow> fail_ack_wait s (aw_peer_msg_id waiter) (err_new SendTimeout)))"

section \<open>Restarts of the peer\<close>

definition handle_hello_response :: "peer_session \<Rightarrow> bool \<Rightarrow> peer_message list \<times> peer_session" where
  "handle_hello_response s reconnect =
     (if reconnect then (store_tracked_messages (po_state (ss_dispatch s)), s)
      else let s = s\<lparr>ss_dispatch := snd (dispatch_fail_all (ss_dispatch s) (err_new PeerRestarted))\<rparr>
           in ([], s\<lparr>ss_dedupe := dedupe_clear (ss_dedupe s)\<rparr>))"

definition accept_hello :: "peer_session \<Rightarrow> bool \<Rightarrow> bool \<times> peer_session" where
  "accept_hello s reconnect =
     (if reconnect \<and> ss_active s then (True, s)
      else let was_active = ss_active s;
               s = s\<lparr>ss_active := True\<rparr>;
               s = (if was_active
                    then s\<lparr>ss_dispatch := snd (dispatch_fail_all (ss_dispatch s) (err_new PeerRestarted))\<rparr> else s)
           in (False, s\<lparr>ss_dedupe := dedupe_clear (ss_dedupe s)\<rparr>))"

definition set_active :: "peer_session \<Rightarrow> bool \<Rightarrow> peer_session" where
  "set_active s active = s\<lparr>ss_active := active\<rparr>"

section \<open>Inbound messages\<close>

definition session_dedupe_begin ::
  "peer_session \<Rightarrow> peer_message_id \<Rightarrow> nat \<Rightarrow> nat option \<Rightarrow> dedupe_begin_result \<times> peer_session" where
  "session_dedupe_begin s pmid tx notify =
     (let (b, dd) = dedupe_begin (ss_dedupe s) pmid tx notify in (b, s\<lparr>ss_dedupe := dd\<rparr>))"

definition session_dedupe_complete :: "peer_session \<Rightarrow> peer_message_id \<Rightarrow> unit result \<Rightarrow> session_config \<Rightarrow> peer_session" where
  "session_dedupe_complete s pmid r cfg =
     (let (told, dd) = dedupe_complete (ss_dedupe s) pmid r (unat (cf_send_queue_size cfg))
      in s\<lparr>ss_dedupe := dd, ss_told := ss_told s @ told\<rparr>)"

definition session_dedupe_abandon :: "peer_session \<Rightarrow> peer_message_id \<Rightarrow> peer_session" where
  "session_dedupe_abandon s pmid =
     (let (told, dd) = dedupe_abandon (ss_dedupe s) pmid in s\<lparr>ss_dedupe := dd, ss_told := ss_told s @ told\<rparr>)"

fun outcome_of_decision :: "peer_message_id \<Rightarrow> dedupe_decision \<Rightarrow> receive_outcome" where
  "outcome_of_decision pmid DecideAck = ReceiveAck pmid"
| "outcome_of_decision pmid (DecideError err) = ReceiveError err"
| "outcome_of_decision pmid DecideAbandoned = ReceiveSkip"

text \<open>
  \<open>sink\<close> is the \<open>enqueue\<close> of the inbox found in the registry, with the state \<open>w\<close> of the inboxes;
  \<open>tx\<close> is the channel on which a waiting duplicate would be told the outcome.
\<close>

definition receive_message_schedule ::
  "peer_session \<Rightarrow> peer_message \<Rightarrow> 'i taberna_registry \<Rightarrow>
   ('i \<Rightarrow> message_type \<Rightarrow> u8 list \<Rightarrow> nat option \<Rightarrow> 'w \<Rightarrow> nat result \<times> 'w) \<Rightarrow> 'w \<Rightarrow> nat option \<Rightarrow> nat \<Rightarrow> session_config \<Rightarrow>
   receive_schedule \<times> peer_session \<times> 'w" where
  "receive_message_schedule s message registry sink w notify tx cfg =
     (if ss_closing s then (ScheduleImmediate (ReceiveError (err_new PeerUnavailable)), s, w)
      else let peer_msg_id = pm_peer_msg_id message; dst_taberna = pm_dst_taberna message
           in case resolve_local registry dst_taberna of
                None \<Rightarrow> (ScheduleImmediate (ReceiveError (err_new UnknownTaberna)), s, w)
              | Some inbox \<Rightarrow>
                  let (b, s) = session_dedupe_begin s peer_msg_id tx notify
                  in case b of
                       BeginDuplicate decision \<Rightarrow> (ScheduleImmediate (outcome_of_decision peer_msg_id decision), s, w)
                     | BeginPendingDuplicate rx \<Rightarrow> (SchedulePendingDuplicate rx, s, w)
                     | BeginNew \<Rightarrow>
                         let (r, w) = sink inbox (pm_msg_type message) (pm_payload message) notify w
                         in case r of
                              Inr accept_rx \<Rightarrow> (SchedulePending dst_taberna accept_rx, s, w)
                            | Inl err \<Rightarrow> (ScheduleImmediate (ReceiveError err),
                                          session_dedupe_complete s peer_msg_id (Inl err) cfg, w))"

section \<open>The session as a machine\<close>

text \<open>
  Beside the session's own operations the queue is driven by the transmitters and the reaper
  (\<open>QueueOp\<close>). \<open>Received\<close> is an inbound message with the answer of the registry and of the inbox.
\<close>

datatype session_op =
    CreateOutgoing taberna_id taberna_id message_type u16 "u8 list" session_config nat instant
  | PrepareDispatch peer_message_id session_config instant
  | HandleAck peer_message_id
  | HandleError peer_message_id aurelia_error
  | HandleClose
  | BeginClose
  | WaitForAck ack_waiter ack_wait instant
  | HelloResponse bool
  | AcceptHello bool
  | SetActive bool
  | Received peer_message bool "nat result" "nat option" nat session_config
  | DedupeComplete peer_message_id "unit result" session_config
  | DedupeAbandon peer_message_id
  | SessionQueueOp dispatch_op

definition receive_with :: "peer_session \<Rightarrow> peer_message \<Rightarrow> bool \<Rightarrow> nat result \<Rightarrow> nat option \<Rightarrow> nat \<Rightarrow> session_config \<Rightarrow>
   receive_schedule \<times> peer_session \<times> bool" where
  "receive_with s message known answer notify tx cfg =
     receive_message_schedule s message (if known then [(pm_dst_taberna message, ())] else [])
       (\<lambda>_ _ _ _ _. (answer, True)) False notify tx cfg"

fun session_step :: "peer_session \<Rightarrow> session_op \<Rightarrow> peer_session" where
  "session_step s (CreateOutgoing src dst mt fl pl cfg tx now) = snd (create_outgoing s src dst mt fl pl cfg tx now)"
| "session_step s (PrepareDispatch p cfg now) = snd (prepare_dispatch s p cfg now)"
| "session_step s (HandleAck p) = snd (handle_ack s p)"
| "session_step s (HandleError p err) = snd (handle_error s p err)"
| "session_step s HandleClose = handle_close s"
| "session_step s BeginClose = begin_close s"
| "session_step s (WaitForAck waiter waited now) = snd (wait_for_ack s waiter waited now)"
| "session_step s (HelloResponse reconnect) = snd (handle_hello_response s reconnect)"
| "session_step s (AcceptHello reconnect) = snd (accept_hello s reconnect)"
| "session_step s (SetActive active) = set_active s active"
| "session_step s (Received m known answer notify tx cfg) = fst (snd (receive_with s m known answer notify tx cfg))"
| "session_step s (DedupeComplete p r cfg) = session_dedupe_complete s p r cfg"
| "session_step s (DedupeAbandon p) = session_dedupe_abandon s p"
| "session_step s (SessionQueueOp x) = s\<lparr>ss_dispatch := dispatch_step (ss_dispatch s) x\<rparr>"

text \<open>The queue operations a session operation performs.\<close>

definition refresh_ops :: "peer_session \<Rightarrow> session_config \<Rightarrow> instant \<Rightarrow> dispatch_op list" where
  "refresh_ops s cfg now =
     (if ss_limit_snapshot s = Some \<lparr>lm_send_queue_size = cf_send_queue_size cfg\<rparr> then []
      else [DSetCapacity (cf_send_queue_size cfg) now])"

definition outgoing_message :: "peer_session \<Rightarrow> taberna_id \<Rightarrow> taberna_id \<Rightarrow> message_type \<Rightarrow> u16 \<Rightarrow> u8 list \<Rightarrow> peer_message" where
  "outgoing_message s src dst mt fl pl =
     \<lparr>pm_peer_msg_id = al_next (ss_allocator s), pm_src_taberna = src, pm_dst_taberna = dst,
      pm_msg_type = mt, pm_flags = fl, pm_payload = pl\<rparr>"

fun queue_ops :: "peer_session \<Rightarrow> session_op \<Rightarrow> dispatch_op list" where
  "queue_ops s (CreateOutgoing src dst mt fl pl cfg tx now) =
     (if ss_closing s then []
      else refresh_ops s cfg now @
        [DEnqueue (outgoing_message s src dst mt fl pl) tx (now + cf_send_timeout cfg) (unat (cf_send_queue_size cfg)) now])"
| "queue_ops s (PrepareDispatch p cfg now) =
     (if ss_closing s then [DFailOne p (err_new PeerUnavailable)]
      else case store_deadline (po_state (ss_dispatch s)) p of
             None \<Rightarrow> []
           | Some d \<Rightarrow> if now \<ge> d then [DFailOne p (err_new SendTimeout)] else refresh_ops s cfg now)"
| "queue_ops s (HandleAck p) = [DAck p]"
| "queue_ops s (HandleError p err) = [DFailOne p err]"
| "queue_ops s HandleClose = [DFailAll (err_new PeerUnavailable)]"
| "queue_ops s (WaitForAck waiter waited now) =
     (case fst (wait_for_ack s waiter waited now) of
        Inl err \<Rightarrow> if aw_deadline waiter > now \<and> aw_rx waiter \<noteq> None \<and> (\<exists>r. waited = WaitValue r) then []
                  else [DFailOne (aw_peer_msg_id waiter) err]
      | Inr _ \<Rightarrow> [])"
| "queue_ops s (HelloResponse reconnect) = (if reconnect then [] else [DFailAll (err_new PeerRestarted)])"
| "queue_ops s (AcceptHello reconnect) = (if ss_active s \<and> \<not> reconnect then [DFailAll (err_new PeerRestarted)] else [])"
| "queue_ops s (SessionQueueOp x) = [x]"
| "queue_ops s _ = []"

lemma limit_snapshot_eq: "x = \<lparr>lm_send_queue_size = n\<rparr> \<longleftrightarrow> lm_send_queue_size x = n"
  by (cases x) simp

lemma refresh_dispatch:
  "ss_dispatch (session_refresh_limits s (cf_send_queue_size cfg) now) = foldl dispatch_step (ss_dispatch s) (refresh_ops s cfg now)"
  by (auto simp: session_refresh_limits_def refresh_ops_def Let_def limit_snapshot_eq split: option.splits)

lemma refresh_frame [simp]:
  "ss_allocator (session_refresh_limits s n now) = ss_allocator s" "ss_dedupe (session_refresh_limits s n now) = ss_dedupe s"
  "ss_active (session_refresh_limits s n now) = ss_active s" "ss_closing (session_refresh_limits s n now) = ss_closing s"
  "ss_told (session_refresh_limits s n now) = ss_told s"
  by (simp_all add: session_refresh_limits_def Let_def)

lemma fail_inflight_frame [simp]:
  "ss_dispatch (fail_inflight s p err) = dispatch_step (ss_dispatch s) (DFailOne p err)"
  "ss_dedupe (fail_inflight s p err) = ss_dedupe s" "ss_closing (fail_inflight s p err) = ss_closing s"
  by (simp_all add: fail_inflight_def)

lemma dedupe_frame [simp]:
  "ss_dispatch (snd (session_dedupe_begin s p tx n)) = ss_dispatch s" "ss_closing (snd (session_dedupe_begin s p tx n)) = ss_closing s"
  "ss_dispatch (session_dedupe_complete s p r cfg) = ss_dispatch s" "ss_closing (session_dedupe_complete s p r cfg) = ss_closing s"
  "ss_dispatch (session_dedupe_abandon s p) = ss_dispatch s" "ss_closing (session_dedupe_abandon s p) = ss_closing s"
  by (simp_all add: session_dedupe_begin_def session_dedupe_complete_def session_dedupe_abandon_def split_beta)

lemma receive_frame:
  assumes "receive_message_schedule s m registry sink w notify tx cfg = (r, s', w')"
  shows "ss_dispatch s' = ss_dispatch s \<and> ss_closing s' = ss_closing s"
  using assms
  by (auto simp: receive_message_schedule_def Let_def split: if_splits option.splits dedupe_begin_result.splits sum.splits prod.splits
      dest: arg_cong [where f = snd])
    (metis dedupe_frame snd_conv)+

lemma session_step_queue: "ss_dispatch (session_step s x) = foldl dispatch_step (ss_dispatch s) (queue_ops s x)"
proof (cases x)
  case (CreateOutgoing src dst mt fl pl cfg tx now)
  have "foldl dispatch_step (ss_dispatch s) (refresh_ops s cfg now)
      = ss_dispatch (session_refresh_limits s (cf_send_queue_size cfg) now)" by (simp add: refresh_dispatch)
  with CreateOutgoing show ?thesis
    by (simp add: create_outgoing_def allocator_next_def outgoing_message_def Let_def split_beta split: option.splits sum.splits)
next
  case (PrepareDispatch p cfg now)
  then show ?thesis by (simp add: prepare_dispatch_def refresh_dispatch split: option.splits)
next
  case (WaitForAck waiter waited now)
  then show ?thesis
    by (auto simp: wait_for_ack_def fail_ack_wait_def Let_def split: option.splits ack_wait.splits sum.splits)
next
  case (Received m known answer notify tx cfg)
  obtain r s' w' where rec: "receive_with s m known answer notify tx cfg = (r, s', w')" using prod_cases3 by blast
  from receive_frame [OF rec [unfolded receive_with_def]] rec Received show ?thesis by simp
qed (auto simp: handle_ack_def handle_error_def handle_close_def begin_close_def handle_hello_response_def
    accept_hello_def set_active_def Let_def split: prod.splits)

text \<open>The operations on the duplicate history that a session operation performs.\<close>

fun dedupe_ops :: "peer_session \<Rightarrow> session_op \<Rightarrow> dedupe_op list" where
  "dedupe_ops s (HelloResponse reconnect) = (if reconnect then [] else [ClearOp])"
| "dedupe_ops s (AcceptHello reconnect) = (if reconnect \<and> ss_active s then [] else [ClearOp])"
| "dedupe_ops s (Received m known answer notify tx cfg) =
     (if ss_closing s \<or> \<not> known then []
      else BeginOp (pm_peer_msg_id m) tx notify #
        (case (fst (dedupe_begin (ss_dedupe s) (pm_peer_msg_id m) tx notify), answer) of
           (BeginNew, Inl err) \<Rightarrow> [CompleteOp (pm_peer_msg_id m) (Inl err) (unat (cf_send_queue_size cfg))]
         | _ \<Rightarrow> []))"
| "dedupe_ops s (DedupeComplete p r cfg) = [CompleteOp p r (unat (cf_send_queue_size cfg))]"
| "dedupe_ops s (DedupeAbandon p) = [AbandonOp p]"
| "dedupe_ops s _ = []"

lemma session_step_dedupe: "ss_dedupe (session_step s x) = foldl dedupe_step (ss_dedupe s) (dedupe_ops s x)"
proof (cases x)
  case (CreateOutgoing src dst mt fl pl cfg tx now)
  then show ?thesis
    by (simp add: create_outgoing_def Let_def split_beta split: option.splits sum.splits)
next
  case (PrepareDispatch p cfg now)
  then show ?thesis by (simp add: prepare_dispatch_def split: option.splits)
next
  case (WaitForAck waiter waited now)
  then show ?thesis
    by (auto simp: wait_for_ack_def fail_ack_wait_def Let_def split: option.splits ack_wait.splits)
next
  case (Received m known answer notify tx cfg)
  then show ?thesis
    by (auto simp: receive_with_def receive_message_schedule_def resolve_local_def session_dedupe_begin_def
        session_dedupe_complete_def Let_def split_beta split: dedupe_begin_result.splits sum.splits)
qed (auto simp: handle_ack_def handle_error_def handle_close_def begin_close_def handle_hello_response_def
    accept_hello_def set_active_def session_dedupe_complete_def session_dedupe_abandon_def Let_def split_beta)

fun run_queue_ops :: "peer_session \<Rightarrow> session_op list \<Rightarrow> dispatch_op list" where
  "run_queue_ops s [] = []"
| "run_queue_ops s (x # xs) = queue_ops s x @ run_queue_ops (session_step s x) xs"

fun run_dedupe_ops :: "peer_session \<Rightarrow> session_op list \<Rightarrow> dedupe_op list" where
  "run_dedupe_ops s [] = []"
| "run_dedupe_ops s (x # xs) = dedupe_ops s x @ run_dedupe_ops (session_step s x) xs"

lemma session_run_queue: "ss_dispatch (foldl session_step s xs) = foldl dispatch_step (ss_dispatch s) (run_queue_ops s xs)"
  by (induction xs arbitrary: s) (simp_all add: session_step_queue)

lemma session_run_dedupe: "ss_dedupe (foldl session_step s xs) = foldl dedupe_step (ss_dedupe s) (run_dedupe_ops s xs)"
  by (induction xs arbitrary: s) (simp_all add: session_step_dedupe)

definition reachable_session :: "peer_session \<Rightarrow> bool" where
  "reachable_session s \<longleftrightarrow>
     (\<exists>a n reporter now xs. n \<le> u64_max \<and> s = foldl session_step (session_new a (dispatch_new n reporter now)) xs)"

lemma reachable_session_queue: "reachable_session s \<Longrightarrow> reachable_queue (ss_dispatch s)"
proof -
  assume "reachable_session s"
  then obtain a n reporter now xs where s: "n \<le> u64_max" "s = foldl session_step (session_new a (dispatch_new n reporter now)) xs"
    unfolding reachable_session_def by blast
  let ?s0 = "session_new a (dispatch_new n reporter now)"
  have "ss_dispatch s = foldl dispatch_step (dispatch_new n reporter now) (run_queue_ops ?s0 xs)"
    unfolding s(2) session_run_queue by (simp add: session_new_def)
  with s(1) show ?thesis unfolding reachable_queue_def by blast
qed

lemma reachable_session_dedupe: "reachable_session s \<Longrightarrow> reachable_dedupe (ss_dedupe s)"
  unfolding reachable_session_def reachable_dedupe_def
  by (metis session_new_def session_run_dedupe peer_session.select_convs(2))

section \<open>Accounting for senders\<close>

abbreviation session_held :: "peer_session \<Rightarrow> nat multiset" where
  "session_held s \<equiv> held_tokens (po_state (ss_dispatch s))"

abbreviation session_sent :: "peer_session \<Rightarrow> nat multiset" where
  "session_sent s \<equiv> effect_tokens (po_sent (ss_dispatch s))"

lemma queue_conserves:
  assumes "store_inv (po_state q)" and "q' = foldl dispatch_step q xs"
  shows "held_tokens (po_state q') + effect_tokens (po_sent q')
    = held_tokens (po_state q) + effect_tokens (po_sent q) + accepted_channels q xs"
  using store.conserve_run [OF assms(1), of "store_ops q xs"] dispatch_run_store [of q xs, folded assms(2)]
    admitted_accepted [of q xs] by (simp add: ac_simps)

fun queue_channels :: "dispatch_op \<Rightarrow> nat set" where
  "queue_channels (DEnqueue m tx d n now) = {tx}"
| "queue_channels _ = {}"

fun session_channels :: "session_op \<Rightarrow> nat set" where
  "session_channels (CreateOutgoing src dst mt fl pl cfg tx now) = {tx}"
| "session_channels (SessionQueueOp x) = queue_channels x"
| "session_channels _ = {}"

lemma accepted_other: "\<forall>x \<in> set xs. tx \<notin> queue_channels x \<Longrightarrow> count (accepted_channels q xs) tx = 0"
  by (induction xs arbitrary: q) (auto split: dispatch_op.splits)

lemma queue_ops_channels: "\<forall>y \<in> set (queue_ops s x). queue_channels y \<subseteq> session_channels x"
  by (cases x) (auto simp: refresh_ops_def split: option.splits sum.splits if_splits)

lemma run_queue_channels: "\<forall>y \<in> set (run_queue_ops s xs). queue_channels y \<subseteq> (\<Union>x \<in> set xs. session_channels x)"
  using queue_ops_channels by (induction xs arbitrary: s) fastforce+

lemma accepted_append: "accepted_channels q (xs @ ys) = accepted_channels q xs + accepted_channels (foldl dispatch_step q xs) ys"
  by (induction xs arbitrary: q) (simp_all add: ac_simps)

lemma create_outgoing_accepts:
  assumes "create_outgoing s src dst mt fl pl cfg tx now = (Some (Inr (m, waiter)), s')"
  shows "m = outgoing_message s src dst mt fl pl
    \<and> waiter = \<lparr>aw_rx = Some tx, aw_peer_msg_id = al_next (ss_allocator s), aw_deadline = now + cf_send_timeout cfg\<rparr>
    \<and> accepted_channels (ss_dispatch s) (queue_ops s (CreateOutgoing src dst mt fl pl cfg tx now)) = {#tx#}
    \<and> s' = session_step s (CreateOutgoing src dst mt fl pl cfg tx now)"
proof -
  have opened: "\<not> ss_closing s" using assms by (auto simp: create_outgoing_def)
  let ?s = "session_refresh_limits s (cf_send_queue_size cfg) now" and ?m = "outgoing_message s src dst mt fl pl"
  obtain r q where e: "enqueue_message (ss_dispatch ?s) ?m tx (now + cf_send_timeout cfg) (unat (cf_send_queue_size cfg)) now = (r, q)"
    by fastforce
  have rx: "rx = tx" if "r = Some (Inr rx)" for rx
    using e that
    by (auto simp: enqueue_message_def Let_def split_beta split: tracked_insert.splits retained_insert_error.splits option.splits)
  have none: "accepted_channels (ss_dispatch s) (refresh_ops s cfg now) = {#}" by (simp add: refresh_ops_def)
  have "r = Some (Inr tx)" and res: "m = ?m"
    "waiter = \<lparr>aw_rx = Some tx, aw_peer_msg_id = al_next (ss_allocator s), aw_deadline = now + cf_send_timeout cfg\<rparr>"
    using assms opened e rx
    by (auto simp: create_outgoing_def Let_def allocator_next_def outgoing_message_def split: option.splits sum.splits)
  then have "accepted_channels (foldl dispatch_step (ss_dispatch s) (refresh_ops s cfg now))
      [DEnqueue ?m tx (now + cf_send_timeout cfg) (unat (cf_send_queue_size cfg)) now] = {#tx#}"
    using e by (simp add: refresh_dispatch [symmetric])
  with res none opened assms show ?thesis by (simp add: accepted_append)
qed

section \<open>Contract\<close>

text \<open>
  C2. Every send is resolved exactly once. After a send was accepted, whatever acknowledgements, errors,
  timeouts, closes, restarts, callis losses and reaper sweeps follow, its completion channel has either
  received exactly one result, or none while the message is still held to be sent or acknowledged; when
  the session has nothing in flight it has received its result. The channel is one that no other send
  uses.
\<close>

theorem send_resolved_once:
  assumes "reachable_session s" and "create_outgoing s src dst mt fl pl cfg tx now = (Some (Inr (m, waiter)), s1)"
    and "tx \<notin># session_held s + session_sent s" and "\<forall>x \<in> set ys. tx \<notin> session_channels x"
    and "s2 = foldl session_step s1 ys"
  shows "aw_rx waiter = Some tx \<and> count (session_held s2) tx + count (session_sent s2) tx = 1
    \<and> (\<not> has_inflight s2 \<longrightarrow> count (session_sent s2) tx = 1)"
proof -
  let ?x = "CreateOutgoing src dst mt fl pl cfg tx now"
  note acc = create_outgoing_accepts [OF assms(2)]
  have q: "reachable_queue (ss_dispatch s)" using assms(1) by (rule reachable_session_queue)
  have run: "ss_dispatch s2 = foldl dispatch_step (ss_dispatch s) (queue_ops s ?x @ run_queue_ops s1 ys)"
    unfolding assms(5) session_run_queue using acc session_step_queue [of s ?x] by simp
  have later: "count (accepted_channels (ss_dispatch s1) (run_queue_ops s1 ys)) tx = 0"
    using run_queue_channels [of s1 ys] assms(4) by (intro accepted_other) blast
  have s1: "ss_dispatch s1 = foldl dispatch_step (ss_dispatch s) (queue_ops s ?x)"
    using acc session_step_queue [of s ?x] by simp
  have "session_held s2 + session_sent s2 = session_held s + session_sent s
      + ({#tx#} + accepted_channels (ss_dispatch s1) (run_queue_ops s1 ys))"
    using queue_conserves [OF reachable_queue_inv [OF q] run] acc s1 by (simp add: accepted_append)
  then have "count (session_held s2 + session_sent s2) tx = 1"
    using later assms(3) by (simp add: not_in_iff)
  moreover have "session_held s2 = {#}" if "\<not> has_inflight s2"
  proof -
    from q obtain n reporter now0 xs where n: "n \<le> u64_max" "ss_dispatch s = foldl dispatch_step (dispatch_new n reporter now0) xs"
      unfolding reachable_queue_def by blast
    have "ss_dispatch s2 = foldl dispatch_step (dispatch_new n reporter now0) (xs @ queue_ops s ?x @ run_queue_ops s1 ys)"
      unfolding run n(2) by simp
    with n(1) have "reachable_queue (ss_dispatch s2)" unfolding reachable_queue_def by blast
    with that show ?thesis
      using store_empty_iff held_none reachable_queue_inv by (auto simp: has_inflight_def dispatch_has_entries_def)
  qed
  ultimately show ?thesis using acc by (cases "has_inflight s2") simp_all
qed

text \<open>The identifiers a sequence of operations assigns to outgoing messages.\<close>

fun assigned_ids :: "peer_session \<Rightarrow> session_op list \<Rightarrow> peer_message_id list" where
  "assigned_ids s [] = []"
| "assigned_ids s (x # xs) =
     (case x of CreateOutgoing src dst mt fl pl cfg tx now \<Rightarrow> if ss_closing s then [] else [al_next (ss_allocator s)] | _ \<Rightarrow> [])
     @ assigned_ids (session_step s x) xs"

lemma session_step_allocator:
  "al_next (ss_allocator (session_step s x)) = al_next (ss_allocator s)
     + (case x of CreateOutgoing src dst mt fl pl cfg tx now \<Rightarrow> if ss_closing s then 0 else 1 | _ \<Rightarrow> 0)"
proof (cases x)
  case (Received m known answer notify tx cfg)
  then show ?thesis
    by (auto simp: receive_with_def receive_message_schedule_def session_dedupe_begin_def session_dedupe_complete_def
        Let_def split_beta split: option.splits dedupe_begin_result.splits sum.splits)
qed (auto simp: create_outgoing_def prepare_dispatch_def handle_ack_def handle_error_def handle_close_def begin_close_def
    wait_for_ack_def fail_ack_wait_def fail_inflight_def handle_hello_response_def accept_hello_def set_active_def
    session_dedupe_complete_def session_dedupe_abandon_def allocator_next_def Let_def split_beta
    split: option.splits sum.splits ack_wait.splits)

lemma assigned_ids_from:
  "\<exists>n. assigned_ids s xs = map (\<lambda>i. al_next (ss_allocator s) + word_of_nat i) [0..<n]
     \<and> al_next (ss_allocator (foldl session_step s xs)) = al_next (ss_allocator s) + word_of_nat n"
proof (induction xs arbitrary: s)
  case Nil
  show ?case by (rule exI [of _ 0]) simp
next
  case (Cons x xs)
  obtain n where n: "assigned_ids (session_step s x) xs = map (\<lambda>i. al_next (ss_allocator (session_step s x)) + word_of_nat i) [0..<n]"
    "al_next (ss_allocator (foldl session_step (session_step s x) xs)) = al_next (ss_allocator (session_step s x)) + word_of_nat n"
    using Cons.IH by blast
  show ?case
  proof (cases "\<exists>src dst mt fl pl cfg tx now. x = CreateOutgoing src dst mt fl pl cfg tx now \<and> \<not> ss_closing s")
    case True
    then have step: "al_next (ss_allocator (session_step s x)) = al_next (ss_allocator s) + 1"
      using session_step_allocator [of s x] by auto
    have "[0..<Suc n] = 0 # map Suc [0..<n]" by (simp add: upt_conv_Cons map_Suc_upt del: upt_Suc)
    then have "assigned_ids s (x # xs) = map (\<lambda>i. al_next (ss_allocator s) + word_of_nat i) [0..<Suc n]"
      using True n(1) step by (auto simp: comp_def ac_simps simp del: upt_Suc)
    moreover have "al_next (ss_allocator (foldl session_step s (x # xs))) = al_next (ss_allocator s) + word_of_nat (Suc n)"
      using n(2) step by (simp add: ac_simps)
    ultimately show ?thesis by blast
  next
    case False
    then have "al_next (ss_allocator (session_step s x)) = al_next (ss_allocator s)"
      using session_step_allocator [of s x] by (auto split: session_op.splits)
    moreover have "assigned_ids s (x # xs) = assigned_ids (session_step s x) xs"
      using False by (auto split: session_op.splits)
    ultimately show ?thesis using n by auto
  qed
qed

text \<open>
  Identifiers are handed out in sequence and wrap around after the last one; any \<open>2^32\<close> consecutive
  ones are distinct, so two messages of a session get the same identifier only after all others were used.
\<close>

theorem outgoing_ids_distinct:
  assumes "length (assigned_ids s xs) \<le> 2 ^ 32"
  shows "distinct (assigned_ids s xs)
    \<and> (\<forall>i < length (assigned_ids s xs). assigned_ids s xs ! i = al_next (ss_allocator s) + word_of_nat i)"
proof -
  obtain n where n: "assigned_ids s xs = map (\<lambda>i. al_next (ss_allocator s) + word_of_nat i) [0..<n]"
    using assigned_ids_from by blast
  with assms have le: "n \<le> 2 ^ 32" by simp
  have "inj_on (\<lambda>i. al_next (ss_allocator s) + word_of_nat i) {0..<n}"
  proof (rule inj_onI)
    fix i j assume ij: "i \<in> {0..<n}" "j \<in> {0..<n}" "al_next (ss_allocator s) + word_of_nat i = al_next (ss_allocator s) + word_of_nat j"
    then have eq: "(word_of_nat i :: u32) = word_of_nat j" and lt: "i < 2 ^ 32" "j < 2 ^ 32" using le by auto
    have "unat (word_of_nat k :: u32) = k" if "k < 2 ^ 32" for k
      using that by (simp add: unat_of_nat take_bit_eq_mod)
    with eq lt show "i = j" by metis
  qed
  then show ?thesis unfolding n by (simp add: distinct_map)
qed

abbreviation session_pending :: "peer_session \<Rightarrow> peer_message_id \<rightharpoonup> tracked_outbound \<times> instant" where
  "session_pending s \<equiv> pending (po_state (ss_dispatch s))"

text \<open>One queue operation on the pending messages and the completions sent.\<close>

lemma queue_op_pending:
  assumes "reachable_session s" and "ss_dispatch s' = dispatch_step (ss_dispatch s) x" and "store_op_of (ss_dispatch s) x = Some y"
    and "op_admits (po_state (ss_dispatch s)) y = None"
  shows "session_pending s' = keep_pending (op_keeps y) (session_pending s)
    \<and> (\<exists>es. po_sent (ss_dispatch s') = po_sent (ss_dispatch s) @ es
         \<and> set es = {tracked_effect (op_result y) t |t p d. session_pending s p = Some (t, d) \<and> \<not> op_keeps y (t, d)})"
proof -
  have inv: "store_inv (po_state (ss_dispatch s))"
    using assms(1) by (intro reachable_queue_inv reachable_session_queue)
  from dispatch_step_store [of "ss_dispatch s" x] refines_op_holds [OF inv, of y] assms(2-4) show ?thesis
    by (simp add: refines_op_def pending_after_def)
qed

lemma tracked_messages_pending:
  assumes "store_inv st"
  shows "set (store_tracked_messages st) = {to_message t |t p d. pending st p = Some (t, d)}"
proof -
  have d: "distinct (map fst (st_tracked st))" using assms by (simp add: store_inv_def tables_ok_def)
  have "m \<in> set (store_tracked_messages st) \<longleftrightarrow> (\<exists>p sid. map_of (st_tracked st) p = Some sid \<and> message_at st sid = Some m)" for m
    using d by (auto simp: store_tracked_messages_def map_filter_def image_iff alist_mem_iff [OF d, symmetric]) force+
  moreover have "pending st p = Some (t, d) \<longleftrightarrow> (\<exists>sid. map_of (st_tracked st) p = Some sid \<and> slot_pending st sid = Some (t, d))" for p t d
    by (auto simp: pending_def bind_eq_Some_conv)
  ultimately show ?thesis by (auto simp: message_at_pending) blast+
qed

text \<open>
  C22. The two session operations of a greeting. \<open>handle_hello_response\<close> of a peer that does not acknowledge a
  reconnect, and \<open>accept_hello\<close> of a greeting that is not a reconnect while the session is active, complete
  exactly the pending messages, each with a restart error, leave nothing pending, and take no identifier for a
  duplicate any more. \<open>accept_hello\<close> on an inactive session clears the history only: nothing is completed and the
  pending messages stay. On a reconnect nothing changes, and the messages handed back for replay are exactly the
  pending ones. This is about the two operations: the handshake does not call \<open>accept_hello\<close> for a fresh greeting
  while the old session is active (\<open>handshake.rs:870\<close>, \<open>restarted_peer_keeps_history\<close>).
\<close>

theorem session_restart_contract:
  assumes "reachable_session s" and "handle_hello_response s reconnect = (replay, s1)" and "accept_hello s reconnect' = (same, s2)"
  shows "(reconnect \<longrightarrow> s1 = s \<and> set replay = {to_message t |t p d. session_pending s p = Some (t, d)})
    \<and> (\<not> reconnect \<longrightarrow> replay = [] \<and> session_pending s1 = Map.empty \<and> fst (dedupe_begin (ss_dedupe s1) p tx n) = BeginNew
         \<and> (\<exists>es. po_sent (ss_dispatch s1) = po_sent (ss_dispatch s) @ es
              \<and> set es = {tracked_effect (Inl (err_new PeerRestarted)) t |t p d. session_pending s p = Some (t, d)}))
    \<and> same = (reconnect' \<and> ss_active s) \<and> ss_active s2 \<and> (same \<longrightarrow> s2 = s)
    \<and> (\<not> same \<longrightarrow> fst (dedupe_begin (ss_dedupe s2) p tx n) = BeginNew
         \<and> (ss_active s \<longrightarrow> session_pending s2 = Map.empty
              \<and> (\<exists>es. po_sent (ss_dispatch s2) = po_sent (ss_dispatch s) @ es
                   \<and> set es = {tracked_effect (Inl (err_new PeerRestarted)) t |t p d. session_pending s p = Some (t, d)}))
         \<and> (\<not> ss_active s \<longrightarrow> ss_dispatch s2 = ss_dispatch s))"
proof -
  let ?q = "dispatch_step (ss_dispatch s) (DFailAll (err_new PeerRestarted))"
  have none: "keep_pending (op_keeps (FailAllOp e)) m = Map.empty" for e m
    by (auto simp: keep_pending_def fun_eq_iff split: option.splits)
  have fail: "session_pending s' = Map.empty
      \<and> (\<exists>es. po_sent (ss_dispatch s') = po_sent (ss_dispatch s) @ es
              \<and> set es = {tracked_effect (Inl (err_new PeerRestarted)) t |t p d. session_pending s p = Some (t, d)})"
    if "ss_dispatch s' = ?q" for s'
    using queue_op_pending [OF assms(1) that] none by (simp add: op_admits_def)
  have new: "fst (dedupe_begin (dedupe_clear dd) p tx n) = BeginNew" for dd by (simp add: dedupe_begin_def dedupe_clear_def)
  have inv: "store_inv (po_state (ss_dispatch s))" using assms(1) by (intro reachable_queue_inv reachable_session_queue)
  have kept: "s1 = s \<and> replay = store_tracked_messages (po_state (ss_dispatch s))" if "reconnect"
    using assms(2) that by (auto simp: handle_hello_response_def)
  have hello: "reconnect \<longrightarrow> s1 = s \<and> set replay = {to_message t |t p d. session_pending s p = Some (t, d)}"
    using kept tracked_messages_pending [OF inv] by simp
  have ended: "\<not> reconnect \<longrightarrow> replay = [] \<and> ss_dispatch s1 = ?q \<and> ss_dedupe s1 = dedupe_clear (ss_dedupe s)"
    using assms(2) by (auto simp: handle_hello_response_def)
  have accept: "same = (reconnect' \<and> ss_active s) \<and> ss_active s2 \<and> (same \<longrightarrow> s2 = s)"
    "\<not> same \<longrightarrow> ss_dedupe s2 = dedupe_clear (ss_dedupe s) \<and> ss_dispatch s2 = (if ss_active s then ?q else ss_dispatch s)"
    using assms(3) by (auto simp: accept_hello_def Let_def split: if_splits)
  show ?thesis using hello ended accept fail [of s1] fail [of s2] new by auto
qed

text \<open>
  The wait for an acknowledgement never leaves a message behind: if the wait ends with the value of
  the channel, that value is the result; if the deadline had come, the wait timed out or the channel was
  closed, the result is the corresponding error and the message, if still pending, is completed with it
  and no longer pending; other messages are not touched.
\<close>

theorem ack_wait_leaves_nothing:
  assumes "reachable_session s" and "wait_for_ack s waiter waited now = (r, s')"
  shows "(\<exists>v. now < aw_deadline waiter \<and> aw_rx waiter \<noteq> None \<and> waited = WaitValue v \<and> r = v \<and> s' = s)
    \<or> (\<exists>k. (k = SendTimeout \<or> k = ConnectionLost) \<and> (aw_deadline waiter \<le> now \<longrightarrow> k = SendTimeout) \<and> r = Inl (err_new k)
        \<and> session_pending s' = (session_pending s)(aw_peer_msg_id waiter := None)
        \<and> (\<exists>es. po_sent (ss_dispatch s') = po_sent (ss_dispatch s) @ es
             \<and> set es = {tracked_effect r t |t d. session_pending s (aw_peer_msg_id waiter) = Some (t, d)}))"
proof -
  let ?p = "aw_peer_msg_id waiter"
  have inv: "store_inv (po_state (ss_dispatch s))" using assms(1) by (intro reachable_queue_inv reachable_session_queue)
  have own: "tracked_peer_msg_id t = p" if "session_pending s p = Some (t, d)" for p t d
    using that pending_Some [OF inv] by blast
  have failed: "session_pending s' = (session_pending s)(?p := None)
      \<and> (\<exists>es. po_sent (ss_dispatch s') = po_sent (ss_dispatch s) @ es
           \<and> set es = {tracked_effect (Inl (err_new k)) t |t d. session_pending s ?p = Some (t, d)})"
    if "s' = fail_inflight s ?p (err_new k)" for k
  proof -
    have "ss_dispatch s' = dispatch_step (ss_dispatch s) (DFailOne ?p (err_new k))" using that by simp
    note law = queue_op_pending [OF assms(1) this, of "FailOneOp ?p (err_new k)"]
    have "keep_pending (op_keeps (FailOneOp ?p (err_new k))) (session_pending s) = (session_pending s)(?p := None)"
      using own by (auto simp: keep_pending_def fun_eq_iff split: option.splits)
    moreover have "{tracked_effect (Inl (err_new k)) t |t p d. session_pending s p = Some (t, d) \<and> \<not> op_keeps (FailOneOp ?p (err_new k)) (t, d)}
        = {tracked_effect (Inl (err_new k)) t |t d. session_pending s ?p = Some (t, d)}"
      using own by auto
    ultimately show ?thesis using law by (simp add: op_admits_def)
  qed
  consider (late) "aw_deadline waiter \<le> now" "r = Inl (err_new SendTimeout)" "s' = fail_inflight s ?p (err_new SendTimeout)"
    | (lost) "now < aw_deadline waiter" "r = Inl (err_new ConnectionLost)" "s' = fail_inflight s ?p (err_new ConnectionLost)"
    | (out) "now < aw_deadline waiter" "r = Inl (err_new SendTimeout)" "s' = fail_inflight s ?p (err_new SendTimeout)"
    | (val) v where "now < aw_deadline waiter" "aw_rx waiter \<noteq> None" "waited = WaitValue v" "r = v" "s' = s"
    using assms(2) by (auto simp: wait_for_ack_def fail_ack_wait_def Let_def split: if_splits option.splits ack_wait.splits)
  then show ?thesis
  proof cases
    case late
    with failed [OF late(3)] show ?thesis by blast
  next
    case lost
    with failed [OF lost(3)] show ?thesis by auto
  next
    case out
    with failed [OF out(3)] show ?thesis by blast
  next
    case val
    then show ?thesis by blast
  qed
qed

text \<open>An inbound message for a registered taberna, by what the history knows of its identifier.\<close>

lemma receive_remembered:
  assumes "receive_message_schedule s m registry sink w notify tx cfg = (r, s', w')" and "\<not> ss_closing s"
    and "resolve_local registry (pm_dst_taberna m) = Some inbox" and "pm_peer_msg_id m \<in> dd_set (ss_dedupe s)"
  shows "r = ScheduleImmediate (ReceiveAck (pm_peer_msg_id m)) \<and> s' = s \<and> w' = w"
  using assms by (simp add: receive_message_schedule_def session_dedupe_begin_def dedupe_begin_def)

lemma receive_in_delivery:
  assumes "receive_message_schedule s m registry sink w notify tx cfg = (r, s', w')" and "\<not> ss_closing s"
    and "resolve_local registry (pm_dst_taberna m) = Some inbox" and "pm_peer_msg_id m \<notin> dd_set (ss_dedupe s)"
    and "pm_peer_msg_id m \<in> fst ` set (dd_pending (ss_dedupe s))"
  shows "r = SchedulePendingDuplicate tx \<and> w' = w"
proof -
  obtain ws where "map_of (dd_pending (ss_dedupe s)) (pm_peer_msg_id m) = Some ws"
    using assms(5) by (metis map_of_eq_None_iff not_None_eq)
  with assms(1-4) show ?thesis
    by (auto simp: receive_message_schedule_def session_dedupe_begin_def dedupe_begin_def Let_def)
qed

lemma receive_new:
  assumes "receive_message_schedule s m registry sink w notify tx cfg = (r, s', w')" and "\<not> ss_closing s"
    and "resolve_local registry (pm_dst_taberna m) = Some inbox" and "pm_peer_msg_id m \<notin> dd_set (ss_dedupe s)"
    and "pm_peer_msg_id m \<notin> fst ` set (dd_pending (ss_dedupe s))"
    and "sink inbox (pm_msg_type m) (pm_payload m) notify w = (answer, w1)"
  shows "w' = w1 \<and> (case answer of
      Inr rx \<Rightarrow> r = SchedulePending (pm_dst_taberna m) rx \<and> pm_peer_msg_id m \<in> fst ` set (dd_pending (ss_dedupe s'))
    | Inl err \<Rightarrow> r = ScheduleImmediate (ReceiveError err)
        \<and> fst (dedupe_begin (ss_dedupe s') (pm_peer_msg_id m) tx' n') = BeginNew \<and> ss_told s' = ss_told s)"
proof -
  let ?p = "pm_peer_msg_id m"
  have none: "map_of (dd_pending (ss_dedupe s)) ?p = None" using assms(5) by (simp add: map_of_eq_None_iff)
  have "?p \<in> fst ` set (AList.update ?p [] (dd_pending (ss_dedupe s)))"
    using keys_update [of ?p "[]" "dd_pending (ss_dedupe s)"] by simp
  with none assms show ?thesis
    by (cases answer)
      (auto simp: receive_message_schedule_def session_dedupe_begin_def session_dedupe_complete_def
        dedupe_begin_def dedupe_complete_def take_waiters_def Let_def update_conv' delete_conv')
qed

text \<open>
  C9. An inbound message reaches an inbox at most once per outcome: it is handed to the inbox exactly when
  the session is open, the taberna is registered here, and no copy of it is being delivered or remembered
  as delivered; a refusal by the inbox is reported and forgotten, so that a later copy is tried again; a
  copy of a delivered message is acknowledged without touching the inbox, and a copy of one being
  delivered waits for its outcome. Refusals before that leave the session unchanged.
\<close>

theorem receive_schedules:
  assumes "receive_message_schedule s m registry sink w notify tx cfg = (r, s', w')"
  shows "(ss_closing s \<longrightarrow> r = ScheduleImmediate (ReceiveError (err_new PeerUnavailable)) \<and> s' = s \<and> w' = w)
    \<and> (\<not> ss_closing s \<and> resolve_local registry (pm_dst_taberna m) = None \<longrightarrow>
         r = ScheduleImmediate (ReceiveError (err_new UnknownTaberna)) \<and> s' = s \<and> w' = w)
    \<and> (\<forall>inbox. \<not> ss_closing s \<and> resolve_local registry (pm_dst_taberna m) = Some inbox \<longrightarrow>
         (let p = pm_peer_msg_id m; (answer, w1) = sink inbox (pm_msg_type m) (pm_payload m) notify w
          in if p \<in> dd_set (ss_dedupe s) then r = ScheduleImmediate (ReceiveAck p) \<and> s' = s \<and> w' = w
             else if p \<in> fst ` set (dd_pending (ss_dedupe s)) then r = SchedulePendingDuplicate tx \<and> w' = w
             else w' = w1 \<and> (case answer of
                 Inr rx \<Rightarrow> r = SchedulePending (pm_dst_taberna m) rx \<and> p \<in> fst ` set (dd_pending (ss_dedupe s'))
               | Inl err \<Rightarrow> r = ScheduleImmediate (ReceiveError err)
                   \<and> fst (dedupe_begin (ss_dedupe s') p tx' n') = BeginNew \<and> ss_told s' = ss_told s)))
    \<and> ss_dispatch s' = ss_dispatch s"
proof (intro conjI allI impI)
  show "r = ScheduleImmediate (ReceiveError (err_new PeerUnavailable))" "s' = s" "w' = w" if "ss_closing s"
    using assms(1) that by (simp_all add: receive_message_schedule_def)
  show "r = ScheduleImmediate (ReceiveError (err_new UnknownTaberna))" "s' = s" "w' = w"
    if "\<not> ss_closing s \<and> resolve_local registry (pm_dst_taberna m) = None"
    using assms(1) that by (simp_all add: receive_message_schedule_def)
  show "ss_dispatch s' = ss_dispatch s" using receive_frame [OF assms(1)] by blast
  fix inbox assume "\<not> ss_closing s \<and> resolve_local registry (pm_dst_taberna m) = Some inbox"
  then have found: "\<not> ss_closing s" "resolve_local registry (pm_dst_taberna m) = Some inbox" by simp_all
  obtain answer w1 where a: "sink inbox (pm_msg_type m) (pm_payload m) notify w = (answer, w1)" by fastforce
  show "let p = pm_peer_msg_id m; (answer, w1) = sink inbox (pm_msg_type m) (pm_payload m) notify w
          in if p \<in> dd_set (ss_dedupe s) then r = ScheduleImmediate (ReceiveAck p) \<and> s' = s \<and> w' = w
             else if p \<in> fst ` set (dd_pending (ss_dedupe s)) then r = SchedulePendingDuplicate tx \<and> w' = w
             else w' = w1 \<and> (case answer of
                 Inr rx \<Rightarrow> r = SchedulePending (pm_dst_taberna m) rx \<and> p \<in> fst ` set (dd_pending (ss_dedupe s'))
               | Inl err \<Rightarrow> r = ScheduleImmediate (ReceiveError err)
                   \<and> fst (dedupe_begin (ss_dedupe s') p tx' n') = BeginNew \<and> ss_told s' = ss_told s)"
    using receive_remembered [OF assms(1) found] receive_in_delivery [OF assms(1) found] receive_new [OF assms(1) found _ _ a]
    by (simp add: a)
qed

text \<open>
  Closing is final: once a session is closing, every later run leaves it closing, new sends and
  inbound messages are refused, and preparing a message for dispatch fails and completes it; a close
  completes all pending messages at once.
\<close>

theorem closing_is_final:
  assumes "reachable_session s" and "s' = foldl session_step (if hard then handle_close s else begin_close s) xs"
  shows "ss_closing s'
    \<and> create_outgoing s' src dst mt fl pl cfg tx now = (Some (Inl (err_new PeerUnavailable)), s')
    \<and> receive_message_schedule s' m registry sink w notify tx cfg = (ScheduleImmediate (ReceiveError (err_new PeerUnavailable)), s', w)
    \<and> fst (prepare_dispatch s' p cfg now) = Inl (err_new PeerUnavailable)
    \<and> session_pending (snd (prepare_dispatch s' p cfg now)) p = None
    \<and> session_pending (handle_close s) = Map.empty"
proof -
  have step: "ss_closing (session_step s x)" if "ss_closing s" for s x
  proof (cases x)
    case (Received m known answer notify tx cfg)
    with that show ?thesis by (simp add: receive_with_def receive_message_schedule_def)
  qed (use that in \<open>auto simp: create_outgoing_def prepare_dispatch_def handle_ack_def handle_error_def handle_close_def begin_close_def
    wait_for_ack_def fail_ack_wait_def handle_hello_response_def accept_hello_def set_active_def Let_def split_beta
    split: option.splits ack_wait.splits\<close>)
  have run: "ss_closing s \<Longrightarrow> ss_closing (foldl session_step s xs)" for s xs
    by (induction xs arbitrary: s) (simp_all add: step)
  have closing: "ss_closing s'" unfolding assms(2) by (rule run) (simp add: handle_close_def begin_close_def Let_def)
  have reach: "reachable_session s'"
  proof -
    from assms(1) obtain a n reporter now0 ys where s: "n \<le> u64_max" "s = foldl session_step (session_new a (dispatch_new n reporter now0)) ys"
      unfolding reachable_session_def by blast
    then have "s' = foldl session_step (session_new a (dispatch_new n reporter now0)) (ys @ (if hard then HandleClose else BeginClose) # xs)"
      using assms(2) by simp
    with s(1) show ?thesis unfolding reachable_session_def by blast
  qed
  have "ss_dispatch (fail_inflight s' p (err_new PeerUnavailable)) = dispatch_step (ss_dispatch s') (DFailOne p (err_new PeerUnavailable))"
    by simp
  from queue_op_pending [OF reach this, of "FailOneOp p (err_new PeerUnavailable)"]
  have gone: "session_pending (fail_inflight s' p (err_new PeerUnavailable)) p = None"
    using pending_Some [OF reachable_queue_inv [OF reachable_session_queue [OF reach]], of p]
    by (auto simp: op_admits_def keep_pending_def split: option.splits)
  have "ss_dispatch (handle_close s) = dispatch_step (ss_dispatch s) (DFailAll (err_new PeerUnavailable))"
    by (simp add: handle_close_def Let_def)
  from queue_op_pending [OF assms(1) this] have "session_pending (handle_close s) = Map.empty"
    by (auto simp: op_admits_def keep_pending_def fun_eq_iff split: option.splits)
  with closing gone show ?thesis
    by (simp add: create_outgoing_def receive_message_schedule_def prepare_dispatch_def)
qed

section \<open>The contract on a small session\<close>

abbreviation sample_config :: session_config where
  "sample_config \<equiv> \<lparr>cf_send_queue_size = 1, cf_send_timeout = 10\<rparr>"

definition sample_session :: peer_session where
  "sample_session = session_new allocator_default (dispatch_new 1 None 0)"

abbreviation sample_create :: session_op where
  "sample_create \<equiv> CreateOutgoing 1 2 A3_MESSAGE_TYPE_BASE 0 [1, 2] sample_config 7 0"

lemma sample_session_reachable: "reachable_session (foldl session_step sample_session xs)"
proof -
  have "(1 :: nat) \<le> u64_max" by simp
  then show ?thesis unfolding reachable_session_def sample_session_def by blast
qed

lemmas session_eval = sample_session_def session_new_def allocator_default_def allocator_new_def create_outgoing_def
  session_refresh_limits_def allocator_next_def queue_eval set_capacities_def set_target_capacity_def

abbreviation sample_open :: peer_session where
  "sample_open \<equiv> foldl session_step sample_session [sample_create]"

lemma sample_outgoing: "fst (create_outgoing sample_session 1 2 A3_MESSAGE_TYPE_BASE 0 [1, 2] sample_config 7 0) =
     Some (Inr (outgoing_message sample_session 1 2 A3_MESSAGE_TYPE_BASE 0 [1, 2],
       \<lparr>aw_rx = Some 7, aw_peer_msg_id = 0, aw_deadline = 10\<rparr>))"
  by (simp add: session_eval outgoing_message_def Let_def)

theorem send_resolved_once_witness:
  "count (session_sent (foldl session_step sample_open [HandleAck 0])) 7 = 1"
proof -
  obtain s1 where c: "create_outgoing sample_session 1 2 A3_MESSAGE_TYPE_BASE 0 [1, 2] sample_config 7 0 =
      (Some (Inr (outgoing_message sample_session 1 2 A3_MESSAGE_TYPE_BASE 0 [1, 2],
         \<lparr>aw_rx = Some 7, aw_peer_msg_id = 0, aw_deadline = 10\<rparr>)), s1)"
    using sample_outgoing by (metis prod.collapse)
  have "(1 :: nat) \<le> u64_max" by simp
  from dispatch_new_store(3) [OF this] have "7 \<notin># session_held sample_session + session_sent sample_session"
    by (simp add: sample_session_def session_new_def dispatch_new_def outbound_store_new_def effect_tokens_def)
  from send_resolved_once [OF sample_session_reachable [of "[]", simplified] c this _ refl, of "[HandleAck 0]"]
  have "\<not> has_inflight (session_step s1 (HandleAck 0)) \<longrightarrow> count (session_sent (session_step s1 (HandleAck 0))) 7 = 1" by simp
  moreover have "s1 = sample_open" using c by simp
  moreover have "\<not> has_inflight (session_step sample_open (HandleAck 0))"
    by (simp add: session_eval Let_def handle_ack_def has_inflight_def dispatch_has_entries_def)
  ultimately show ?thesis by simp
qed

theorem outgoing_ids_distinct_witness:
  "distinct (assigned_ids sample_session [sample_create, HandleAck 0, sample_create])"
proof -
  have "length (assigned_ids sample_session [sample_create, HandleAck 0, sample_create]) \<le> 2 ^ 32"
    by (simp split: if_splits)
  then show ?thesis using outgoing_ids_distinct by blast
qed

theorem session_restart_contract_witness:
  "session_pending (snd (handle_hello_response sample_open False)) = Map.empty
   \<and> set (fst (handle_hello_response sample_open True)) = {to_message t |t p d. session_pending sample_open p = Some (t, d)}"
proof -
  define s where "s = sample_open"
  have reach: "reachable_session s" unfolding s_def by (rule sample_session_reachable)
  obtain a s1 b s2 c s3 where e: "handle_hello_response s False = (a, s1)" "handle_hello_response s True = (b, s2)"
    "accept_hello s True = (c, s3)" by fastforce
  have "session_pending s1 = Map.empty" using session_restart_contract [OF reach e(1,3)] by simp
  moreover have "set b = {to_message t |t p d. session_pending s p = Some (t, d)}"
    using session_restart_contract [OF reach e(2,3)] by (simp only: simp_thms)
  ultimately show ?thesis using e unfolding s_def by (simp only: fst_conv snd_conv simp_thms)
qed

theorem ack_wait_leaves_nothing_witness:
  "session_pending (snd (wait_for_ack sample_open \<lparr>aw_rx = Some 7, aw_peer_msg_id = 0, aw_deadline = 10\<rparr> WaitTimeout 3)) 0 = None"
proof -
  let ?w = "\<lparr>aw_rx = Some 7, aw_peer_msg_id = 0, aw_deadline = 10\<rparr>"
  define s where "s = sample_open"
  obtain r s' where e: "wait_for_ack s ?w WaitTimeout 3 = (r, s')" by fastforce
  have "reachable_session s" unfolding s_def by (rule sample_session_reachable)
  from ack_wait_leaves_nothing [OF this e] have "session_pending s' 0 = None" by (elim disjE exE conjE) simp_all
  with e show ?thesis unfolding s_def by simp
qed

theorem receive_schedules_witness:
  "fst (receive_message_schedule sample_session (outgoing_message sample_session 1 2 A3_MESSAGE_TYPE_BASE 0 [1, 2])
     [(2, ())] (\<lambda>_ _ _ _ w. (Inr 5, w)) () None 9 sample_config) = SchedulePending 2 5"
proof -
  let ?m = "outgoing_message sample_session 1 2 A3_MESSAGE_TYPE_BASE 0 [1, 2]"
  obtain r s' w' where e: "receive_message_schedule sample_session ?m [(2, ())] (\<lambda>_ _ _ _ w. (Inr 5, w)) () None 9 sample_config = (r, s', w')"
    using prod_cases3 by blast
  from receive_schedules [OF e] have "r = SchedulePending 2 5"
    by (simp add: sample_session_def session_new_def dedupe_new_def resolve_local_def outgoing_message_def Let_def)
  with e show ?thesis by simp
qed

theorem closing_is_final_witness:
  "ss_closing (foldl session_step (begin_close sample_open) [AcceptHello False])"
proof -
  let ?s = "foldl session_step (if False then handle_close sample_open else begin_close sample_open) [AcceptHello False]"
  have "ss_closing ?s"
    by (rule conjunct1 [OF closing_is_final [OF sample_session_reachable [of "[sample_create]"] refl, of False "[AcceptHello False]"]])
  then show ?thesis by (simp only: if_False)
qed

end
