(* ===== verification/Blob_State.thy ===== *)
theory Blob_State
  imports Outbound_Stream Inbound_Ring Session
begin

text \<open>
  The state of the blob manager (\<^verbatim>\<open>src/crates/peering/src/transport/blob/\<close>, files \<^verbatim>\<open>outbound.rs\<close>,
  \<^verbatim>\<open>inbound.rs\<close>, \<^verbatim>\<open>callis_pool.rs\<close>, \<^verbatim>\<open>reservations.rs\<close> and the types of \<^verbatim>\<open>mod.rs\<close>): one manager for each
  peer, with four domains under a mutex each. The objects the code shares behind an \<open>Arc\<close> (the ring
  buffers of the streams and the receiver states, which the application's stream ends hold too) live in
  lists of the manager and are named by their position, so that a ring that has left the table of
  streams still exists for the task that writes to it.

  The hash maps are association lists, in the unspecified order of their iteration; \<open>bm_work\<close> is the
  permit of \<open>work_notify\<close>.
\<close>

section \<open>Outbound\<close>

record blob_callis_settings =
  bs_chunk_size :: u32
  bs_ack_window_chunks :: u32

datatype blob_response_lane = BlobLaneAck | BlobLaneError | BlobLaneComplete

record blob_response_capacities =
  rc_ack :: nat
  rc_error :: nat
  rc_complete :: nat

definition BLOB_ACK_CAPACITY_MULTIPLIER :: nat where
  "BLOB_ACK_CAPACITY_MULTIPLIER = 16"

definition BLOB_ERROR_CAPACITY_MULTIPLIER :: nat where
  "BLOB_ERROR_CAPACITY_MULTIPLIER = 2"

definition BLOB_COMPLETE_CAPACITY_MULTIPLIER :: nat where
  "BLOB_COMPLETE_CAPACITY_MULTIPLIER = 2"

definition capacities_from_send_queue_size :: "nat \<Rightarrow> blob_response_capacities" where
  "capacities_from_send_queue_size send_queue_size =
     (let send_queue_size = max send_queue_size 1
      in \<lparr>rc_ack = sat_mul send_queue_size BLOB_ACK_CAPACITY_MULTIPLIER,
          rc_error = sat_mul send_queue_size BLOB_ERROR_CAPACITY_MULTIPLIER,
          rc_complete = sat_mul send_queue_size BLOB_COMPLETE_CAPACITY_MULTIPLIER\<rparr>)"

fun response_capacity :: "blob_response_capacities \<Rightarrow> blob_response_lane \<Rightarrow> nat" where
  "response_capacity c BlobLaneAck = rc_ack c"
| "response_capacity c BlobLaneError = rc_error c"
| "response_capacity c BlobLaneComplete = rc_complete c"

datatype blob_write_lease =
    LeaseAck peer_message_id
  | LeaseError peer_message_id "u8 list"
  | LeaseChunk peer_message_id peer_message_id chunk_write_lease
  | LeaseFinish peer_message_id peer_message_id "u8 list"

fun write_lane :: "blob_write_lease \<Rightarrow> blob_response_lane option" where
  "write_lane (LeaseAck _) = Some BlobLaneAck"
| "write_lane (LeaseError _ _) = Some BlobLaneError"
| "write_lane (LeaseFinish _ _ _) = Some BlobLaneComplete"
| "write_lane (LeaseChunk _ _ _) = None"

fun write_stream_id :: "blob_write_lease \<Rightarrow> peer_message_id option" where
  "write_stream_id (LeaseAck _) = None"
| "write_stream_id (LeaseError _ _) = None"
| "write_stream_id (LeaseChunk stream_id _ _) = Some stream_id"
| "write_stream_id (LeaseFinish stream_id _ _) = Some stream_id"

fun write_peer_msg_id :: "blob_write_lease \<Rightarrow> peer_message_id" where
  "write_peer_msg_id (LeaseAck peer_msg_id) = peer_msg_id"
| "write_peer_msg_id (LeaseError peer_msg_id _) = peer_msg_id"
| "write_peer_msg_id (LeaseChunk _ peer_msg_id _) = peer_msg_id"
| "write_peer_msg_id (LeaseFinish _ peer_msg_id _) = peer_msg_id"

fun write_expects_ack :: "blob_write_lease \<Rightarrow> bool" where
  "write_expects_ack (LeaseChunk _ _ _) = True"
| "write_expects_ack (LeaseAck _) = False"
| "write_expects_ack (LeaseError _ _) = False"
| "write_expects_ack (LeaseFinish _ _ _) = False"

fun write_is_chunk :: "blob_write_lease \<Rightarrow> bool" where
  "write_is_chunk (LeaseChunk _ _ _) = True"
| "write_is_chunk _ = False"

record inflight_blob_frame =
  ib_stream_id :: peer_message_id
  ib_callis_id :: nat
  ib_is_chunk :: bool

datatype blob_write_slot_state = BwReady | BwWriting nat | BwInFlight nat | BwReplayReady nat

record blob_write_slot =
  bw_stream_id :: "peer_message_id option"
  bw_write :: blob_write_lease
  bw_state :: blob_write_slot_state

record blob_outbound_state =
  bo_streams :: "(peer_message_id \<times> nat) list"
  bo_inflight :: "(peer_message_id \<times> inflight_blob_frame) list"
  bo_write_slots :: "(peer_message_id \<times> blob_write_slot) list"
  bo_stream_settings :: "(peer_message_id \<times> blob_callis_settings) list"
  bo_ack_ready :: "peer_message_id list"
  bo_error_ready :: "peer_message_id list"
  bo_complete_ready :: "peer_message_id list"
  bo_capacities :: blob_response_capacities
  bo_cursor :: "peer_message_id option"

definition blob_outbound_new :: "nat \<Rightarrow> blob_outbound_state" where
  "blob_outbound_new send_queue_size =
     \<lparr>bo_streams = [], bo_inflight = [], bo_write_slots = [], bo_stream_settings = [],
      bo_ack_ready = [], bo_error_ready = [], bo_complete_ready = [],
      bo_capacities = capacities_from_send_queue_size send_queue_size, bo_cursor = None\<rparr>"

definition response_ready_count :: "blob_outbound_state \<Rightarrow> nat" where
  "response_ready_count b = length (bo_ack_ready b) + length (bo_error_ready b) + length (bo_complete_ready b)"

fun blob_lane :: "blob_outbound_state \<Rightarrow> blob_response_lane \<Rightarrow> peer_message_id list" where
  "blob_lane b BlobLaneAck = bo_ack_ready b"
| "blob_lane b BlobLaneError = bo_error_ready b"
| "blob_lane b BlobLaneComplete = bo_complete_ready b"

fun set_blob_lane :: "blob_outbound_state \<Rightarrow> blob_response_lane \<Rightarrow> peer_message_id list \<Rightarrow> blob_outbound_state" where
  "set_blob_lane b BlobLaneAck q = b\<lparr>bo_ack_ready := q\<rparr>"
| "set_blob_lane b BlobLaneError q = b\<lparr>bo_error_ready := q\<rparr>"
| "set_blob_lane b BlobLaneComplete q = b\<lparr>bo_complete_ready := q\<rparr>"

definition push_response :: "blob_outbound_state \<Rightarrow> blob_response_lane \<Rightarrow> peer_message_id \<Rightarrow> blob_outbound_state" where
  "push_response b lane peer_msg_id = set_blob_lane b lane (blob_lane b lane @ [peer_msg_id])"

definition response_lane_len :: "blob_outbound_state \<Rightarrow> blob_response_lane \<Rightarrow> nat" where
  "response_lane_len b lane = length (blob_lane b lane)"

definition prune_response_ready :: "blob_outbound_state \<Rightarrow> blob_outbound_state" where
  "prune_response_ready b =
     (let valid_writes = (\<lambda>peer_msg_id. map_of (bo_write_slots b) peer_msg_id \<noteq> None)
      in b\<lparr>bo_ack_ready := filter valid_writes (bo_ack_ready b),
           bo_error_ready := filter valid_writes (bo_error_ready b),
           bo_complete_ready := filter valid_writes (bo_complete_ready b)\<rparr>)"

section \<open>Inbound, callis pool, reservations\<close>

text \<open>The state shared with the application's receiving end; its \<open>notify\<close> carries no state.\<close>

record blob_receiver_state =
  br_accepted :: bool
  br_completed :: bool
  br_error :: "aurelia_error option"
  br_completion_ttl :: duration
  br_idle_timeout :: duration

definition receiver_fail :: "blob_receiver_state \<Rightarrow> aurelia_error \<Rightarrow> blob_receiver_state" where
  "receiver_fail r err = r\<lparr>br_error := Some err, br_completed := True\<rparr>"

record pending_blob_request =
  pb_taberna_id :: taberna_id
  pb_receiver :: nat

record blob_recv_stream =
  rs_taberna_id :: taberna_id
  rs_receiver :: nat
  rs_ring :: nat
  rs_deadline :: instant

datatype blob_recv_chunk_state =
    ChunkMissing
  | ChunkRecentlyCompleted
  | ChunkIdleTimedOut taberna_id nat
  | ChunkActive taberna_id nat nat

record blob_inbound_state =
  bi_pending_requests :: "(peer_message_id \<times> pending_blob_request) list"
  bi_recv_streams :: "(peer_message_id \<times> blob_recv_stream) list"
  bi_completed_recv_streams :: "(peer_message_id \<times> instant) list"

definition blob_inbound_new :: blob_inbound_state where
  "blob_inbound_new = \<lparr>bi_pending_requests = [], bi_recv_streams = [], bi_completed_recv_streams = []\<rparr>"

datatype callis_tx = TxPrimary | TxBlob

fun callis_tx_is_closed :: "callis_tx \<Rightarrow> bool" where
  "callis_tx_is_closed TxPrimary = True"
| "callis_tx_is_closed TxBlob = False"

text \<open>The shutdown sender of a handle is only cloned and fired by the peer task.\<close>

record callis_handle =
  ch_id :: nat
  ch_tx :: callis_tx

record blob_callis_pool =
  bp_order :: "nat list"
  bp_handles :: "(nat \<times> callis_handle) list"
  bp_settings :: "(nat \<times> blob_callis_settings) list"

definition blob_callis_pool_new :: blob_callis_pool where
  "blob_callis_pool_new = \<lparr>bp_order = [], bp_handles = [], bp_settings = []\<rparr>"

record blob_reservation_state =
  rv_outbound :: "(peer_message_id \<times> nat) list"
  rv_inbound :: "(peer_message_id \<times> nat) list"

definition blob_reservation_new :: blob_reservation_state where
  "blob_reservation_new = \<lparr>rv_outbound = [], rv_inbound = []\<rparr>"

record blob_lifecycle_snapshot =
  bl_has_callis :: bool
  bl_has_active_streams :: bool
  bl_has_blob_work :: bool

section \<open>The manager\<close>

record blob_manager =
  bm_callis :: blob_callis_pool
  bm_callis_gen :: u64
  bm_work :: bool
  bm_had_callis :: bool
  bm_outbound :: blob_outbound_state
  bm_inbound :: blob_inbound_state
  bm_reservations :: blob_reservation_state
  bm_buffer_tracker :: blob_buffer_tracker
  bm_allocator :: message_id_allocator
  bm_rings :: "outbound_state list"
  bm_recv_rings :: "inbound_state list"
  bm_receivers :: "blob_receiver_state list"

definition blob_manager_new :: "blob_buffer_tracker \<Rightarrow> message_id_allocator \<Rightarrow> nat \<Rightarrow> blob_manager" where
  "blob_manager_new tracker allocator initial_send_queue_size =
     \<lparr>bm_callis = blob_callis_pool_new, bm_callis_gen = 0, bm_work = False, bm_had_callis = False,
      bm_outbound = blob_outbound_new initial_send_queue_size, bm_inbound = blob_inbound_new,
      bm_reservations = blob_reservation_new, bm_buffer_tracker = tracker, bm_allocator = allocator,
      bm_rings = [], bm_recv_rings = [], bm_receivers = []\<rparr>"

definition notify_work :: "blob_manager \<Rightarrow> blob_manager" where
  "notify_work m = m\<lparr>bm_work := True\<rparr>"

definition bump_callis_gen :: "blob_manager \<Rightarrow> blob_manager" where
  "bump_callis_gen m = m\<lparr>bm_callis_gen := bm_callis_gen m + 1\<rparr>"

definition next_peer_msg_id :: "blob_manager \<Rightarrow> peer_message_id \<times> blob_manager" where
  "next_peer_msg_id m =
     (let (peer_msg_id, allocator) = allocator_next (bm_allocator m)
      in (peer_msg_id, m\<lparr>bm_allocator := allocator\<rparr>))"

text \<open>A method of a ring buffer or of a receiver, called through its \<open>Arc\<close>.\<close>

definition on_ring :: "blob_manager \<Rightarrow> nat \<Rightarrow> (outbound_state \<Rightarrow> outbound_state) \<Rightarrow> blob_manager" where
  "on_ring m h f = m\<lparr>bm_rings := (bm_rings m)[h := f (bm_rings m ! h)]\<rparr>"

definition on_receiver :: "blob_manager \<Rightarrow> nat \<Rightarrow> (blob_receiver_state \<Rightarrow> blob_receiver_state) \<Rightarrow> blob_manager" where
  "on_receiver m h f = m\<lparr>bm_receivers := (bm_receivers m)[h := f (bm_receivers m ! h)]\<rparr>"

section \<open>Reservations\<close>

text \<open>
  A reservation is made in two halves: the bytes are added to the counter that all peers of the domus share, and
  then, under the lock of the tables, which the task may have to wait for, they are entered for their stream. The
  entry replaces one that was there. A task that is dropped at that wait leaves the bytes counted.
\<close>

definition count_bytes :: "blob_manager \<Rightarrow> buffer_side \<Rightarrow> nat \<Rightarrow> nat \<Rightarrow> bool \<times> blob_manager" where
  "count_bytes m side bytes cap =
     (let (ok, t) = try_reserve_side (bm_buffer_tracker m) side bytes cap in (ok, m\<lparr>bm_buffer_tracker := t\<rparr>))"

fun enter_bytes :: "blob_manager \<Rightarrow> buffer_side \<Rightarrow> peer_message_id \<Rightarrow> nat \<Rightarrow> blob_manager" where
  "enter_bytes m SideOutbound stream_id bytes =
     m\<lparr>bm_reservations := (bm_reservations m)\<lparr>rv_outbound := AList.update stream_id bytes (rv_outbound (bm_reservations m))\<rparr>\<rparr>"
| "enter_bytes m SideInbound stream_id bytes =
     m\<lparr>bm_reservations := (bm_reservations m)\<lparr>rv_inbound := AList.update stream_id bytes (rv_inbound (bm_reservations m))\<rparr>\<rparr>"

definition reserve_outbound :: "blob_manager \<Rightarrow> peer_message_id \<Rightarrow> nat \<Rightarrow> nat \<Rightarrow> bool \<times> blob_manager" where
  "reserve_outbound m stream_id bytes cap =
     (case count_bytes m SideOutbound bytes cap of
        (False, m) \<Rightarrow> (False, m)
      | (True, m) \<Rightarrow> (True, enter_bytes m SideOutbound stream_id bytes))"

definition release_outbound :: "blob_manager \<Rightarrow> peer_message_id \<Rightarrow> blob_manager" where
  "release_outbound m stream_id =
     (let bytes = map_of (rv_outbound (bm_reservations m)) stream_id;
          m = m\<lparr>bm_reservations := (bm_reservations m)
                  \<lparr>rv_outbound := AList.delete stream_id (rv_outbound (bm_reservations m))\<rparr>\<rparr>
      in case bytes of
           Some bytes \<Rightarrow> m\<lparr>bm_buffer_tracker := snd (release_side (bm_buffer_tracker m) SideOutbound bytes)\<rparr>
         | None \<Rightarrow> m)"

definition reserve_inbound :: "blob_manager \<Rightarrow> peer_message_id \<Rightarrow> nat \<Rightarrow> nat \<Rightarrow> bool \<times> blob_manager" where
  "reserve_inbound m stream_id bytes cap =
     (case count_bytes m SideInbound bytes cap of
        (False, m) \<Rightarrow> (False, m)
      | (True, m) \<Rightarrow> (True, enter_bytes m SideInbound stream_id bytes))"

definition release_inbound :: "blob_manager \<Rightarrow> peer_message_id \<Rightarrow> blob_manager" where
  "release_inbound m stream_id =
     (let bytes = map_of (rv_inbound (bm_reservations m)) stream_id;
          m = m\<lparr>bm_reservations := (bm_reservations m)
                  \<lparr>rv_inbound := AList.delete stream_id (rv_inbound (bm_reservations m))\<rparr>\<rparr>
      in case bytes of
           Some bytes \<Rightarrow> m\<lparr>bm_buffer_tracker := snd (release_side (bm_buffer_tracker m) SideInbound bytes)\<rparr>
         | None \<Rightarrow> m)"

text \<open>A reservation whose two halves are not separated.\<close>

lemma reserve_outbound_eq:
  "reserve_outbound m stream_id bytes cap =
     (case try_reserve_side (bm_buffer_tracker m) SideOutbound bytes cap of
        (False, t) \<Rightarrow> (False, m\<lparr>bm_buffer_tracker := t\<rparr>)
      | (True, t) \<Rightarrow>
          (True, m\<lparr>bm_buffer_tracker := t,
                   bm_reservations := (bm_reservations m)
                     \<lparr>rv_outbound := AList.update stream_id bytes (rv_outbound (bm_reservations m))\<rparr>\<rparr>))"
  by (simp add: reserve_outbound_def count_bytes_def Let_def split: prod.split bool.split)

lemma reserve_inbound_eq:
  "reserve_inbound m stream_id bytes cap =
     (case try_reserve_side (bm_buffer_tracker m) SideInbound bytes cap of
        (False, t) \<Rightarrow> (False, m\<lparr>bm_buffer_tracker := t\<rparr>)
      | (True, t) \<Rightarrow>
          (True, m\<lparr>bm_buffer_tracker := t,
                   bm_reservations := (bm_reservations m)
                     \<lparr>rv_inbound := AList.update stream_id bytes (rv_inbound (bm_reservations m))\<rparr>\<rparr>))"
  by (simp add: reserve_inbound_def count_bytes_def Let_def split: prod.split bool.split)

end
