(* ===== verification/Blob_Outbound.thy ===== *)
theory Blob_Outbound
  imports Blob_State
begin

text \<open>
  The outbound half of the blob manager (\<^verbatim>\<open>src/crates/peering/src/transport/blob/mod.rs\<close>): the queue of
  responses (acknowledgements, errors and completions) with its three lanes, the choice of the next
  chunk among the streams, the table of chunks in flight, and what happens to all of them when a write
  ends, a callis is lost, a stream is dropped or an acknowledgement arrives.

  The code never holds two of the manager's mutexes at once, and each method is a sequence of critical
  sections. The functions on \<^typ>\<open>blob_outbound_state\<close> are the sections of the outbound domain; the
  functions on \<^typ>\<open>blob_manager\<close> compose them with the calls to the ring buffers.
\<close>

section \<open>Critical sections of the outbound domain\<close>

fun is_waiting :: "blob_write_slot_state \<Rightarrow> bool" where
  "is_waiting BwReady = True"
| "is_waiting (BwReplayReady _) = True"
| "is_waiting (BwWriting _) = False"
| "is_waiting (BwInFlight _) = False"

fun writing_callis :: "blob_write_slot_state \<Rightarrow> nat option" where
  "writing_callis (BwWriting callis_id) = Some callis_id"
| "writing_callis (BwInFlight callis_id) = Some callis_id"
| "writing_callis _ = None"

text \<open>\<open>if let Some(slot) = write_slots.get_mut(&id) { slot.state = state }\<close>\<close>

definition set_write_state ::
  "peer_message_id \<Rightarrow> blob_write_slot_state \<Rightarrow> (peer_message_id \<times> blob_write_slot) list
     \<Rightarrow> (peer_message_id \<times> blob_write_slot) list" where
  "set_write_state peer_msg_id st slots =
     map (\<lambda>(k, slot). (k, if k = peer_msg_id then slot\<lparr>bw_state := st\<rparr> else slot)) slots"

definition enqueue_response :: "blob_outbound_state \<Rightarrow> blob_write_lease \<Rightarrow> bool \<times> blob_outbound_state" where
  "enqueue_response b write =
     (case write_lane write of
        None \<Rightarrow> (False, b)
      | Some lane \<Rightarrow>
          if map_of (bo_write_slots b) (write_peer_msg_id write) \<noteq> None then (False, b)
          else if response_lane_len b lane \<ge> response_capacity (bo_capacities b) lane then (False, b)
          else let slot = \<lparr>bw_stream_id = write_stream_id write, bw_write = write, bw_state = BwReady\<rparr>;
                   b = b\<lparr>bo_write_slots := AList.update (write_peer_msg_id write) slot (bo_write_slots b)\<rparr>
               in (True, push_response b lane (write_peer_msg_id write)))"

text \<open>The inner loop of \<open>next_blob_write_slot\<close>: pop until an entry names a waiting slot.\<close>

fun pop_waiting ::
  "(peer_message_id \<times> blob_write_slot) list \<Rightarrow> peer_message_id list \<Rightarrow> peer_message_id option \<times> peer_message_id list" where
  "pop_waiting slots [] = (None, [])"
| "pop_waiting slots (peer_msg_id # q) =
     (case map_of slots peer_msg_id of
        None \<Rightarrow> pop_waiting slots q
      | Some slot \<Rightarrow> if is_waiting (bw_state slot) then (Some peer_msg_id, q) else pop_waiting slots q)"

fun next_from_lanes ::
  "nat \<Rightarrow> blob_outbound_state \<Rightarrow> blob_response_lane list \<Rightarrow> blob_write_lease option \<times> blob_outbound_state" where
  "next_from_lanes callis_id b [] = (None, b)"
| "next_from_lanes callis_id b (lane # lanes) =
     (case pop_waiting (bo_write_slots b) (blob_lane b lane) of
        (None, q) \<Rightarrow> next_from_lanes callis_id (set_blob_lane b lane q) lanes
      | (Some peer_msg_id, q) \<Rightarrow>
          let b = set_blob_lane b lane q
          in (map_option bw_write (map_of (bo_write_slots b) peer_msg_id),
              b\<lparr>bo_write_slots := set_write_state peer_msg_id (BwWriting callis_id) (bo_write_slots b)\<rparr>))"

definition next_response :: "blob_outbound_state \<Rightarrow> nat \<Rightarrow> blob_write_lease option \<times> blob_outbound_state" where
  "next_response b callis_id = next_from_lanes callis_id b [BlobLaneAck, BlobLaneError, BlobLaneComplete]"

definition outbound_mark_inflight :: "blob_outbound_state \<Rightarrow> blob_write_lease \<Rightarrow> nat \<Rightarrow> blob_outbound_state" where
  "outbound_mark_inflight b write callis_id =
     (let peer_msg_id = write_peer_msg_id write;
          b = b\<lparr>bo_write_slots := set_write_state peer_msg_id (BwInFlight callis_id) (bo_write_slots b)\<rparr>
      in if write_expects_ack write
         then case write_stream_id write of
                Some stream_id \<Rightarrow>
                  b\<lparr>bo_inflight := AList.update peer_msg_id
                      \<lparr>ib_stream_id = stream_id, ib_callis_id = callis_id, ib_is_chunk = write_is_chunk write\<rparr>
                      (bo_inflight b)\<rparr>
              | None \<Rightarrow> b
         else b)"

definition outbound_rollback :: "blob_outbound_state \<Rightarrow> blob_write_lease \<Rightarrow> nat \<Rightarrow> blob_outbound_state" where
  "outbound_rollback b write callis_id =
     (let peer_msg_id = write_peer_msg_id write;
          b = (if write_expects_ack write then b\<lparr>bo_inflight := AList.delete peer_msg_id (bo_inflight b)\<rparr> else b)
      in if \<not> write_is_chunk write
         then case map_of (bo_write_slots b) peer_msg_id of
                None \<Rightarrow> b
              | Some slot \<Rightarrow>
                  let b = b\<lparr>bo_write_slots := set_write_state peer_msg_id (BwReplayReady callis_id) (bo_write_slots b)\<rparr>
                  in case write_lane (bw_write slot) of
                       Some lane \<Rightarrow> push_response b lane peer_msg_id
                     | None \<Rightarrow> b
         else b)"

definition outbound_forget :: "blob_outbound_state \<Rightarrow> peer_message_id \<Rightarrow> blob_outbound_state" where
  "outbound_forget b peer_msg_id = b\<lparr>bo_write_slots := AList.delete peer_msg_id (bo_write_slots b)\<rparr>"

text \<open>The section that \<open>handle_ack\<close> and \<open>handle_error\<close> share: the entry and the ring of its stream.\<close>

definition outbound_take_inflight ::
  "blob_outbound_state \<Rightarrow> peer_message_id \<Rightarrow> (inflight_blob_frame option \<times> nat option) \<times> blob_outbound_state" where
  "outbound_take_inflight b peer_msg_id =
     (let entry = map_of (bo_inflight b) peer_msg_id;
          b = b\<lparr>bo_inflight := AList.delete peer_msg_id (bo_inflight b)\<rparr>;
          b = b\<lparr>bo_write_slots := AList.delete peer_msg_id (bo_write_slots b)\<rparr>;
          ring = (case entry of Some e \<Rightarrow> map_of (bo_streams b) (ib_stream_id e) | None \<Rightarrow> None)
      in ((entry, ring), b))"

text \<open>
  The slots of the calles in \<open>lost\<close> that were being written or were in flight go back to their lanes;
  both requeue methods do this inside their section.
\<close>

definition requeue_responses :: "(nat \<Rightarrow> bool) \<Rightarrow> blob_outbound_state \<Rightarrow> blob_outbound_state" where
  "requeue_responses lost b =
     (let hit = (\<lambda>slot. case writing_callis (bw_state slot) of Some c \<Rightarrow> lost c | None \<Rightarrow> False);
          response_ids = map (\<lambda>(k, slot). (k, write_lane (bw_write slot)))
                           (filter (\<lambda>(k, slot). hit slot) (bo_write_slots b));
          b = b\<lparr>bo_write_slots := map (\<lambda>(k, slot). (k,
                  case writing_callis (bw_state slot) of
                    Some c \<Rightarrow> if lost c then slot\<lparr>bw_state := BwReplayReady c\<rparr> else slot
                  | None \<Rightarrow> slot)) (bo_write_slots b)\<rparr>
      in foldl (\<lambda>b (k, lane). case lane of Some lane \<Rightarrow> push_response b lane k | None \<Rightarrow> b) b response_ids)"

definition outbound_requeue ::
  "(nat \<Rightarrow> bool) \<Rightarrow> blob_outbound_state \<Rightarrow> (peer_message_id \<times> inflight_blob_frame) list \<times> blob_outbound_state" where
  "outbound_requeue lost b =
     (let entries = filter (\<lambda>(_, e). lost (ib_callis_id e)) (bo_inflight b);
          b = b\<lparr>bo_inflight := filter (\<lambda>(_, e). \<not> lost (ib_callis_id e)) (bo_inflight b)\<rparr>
      in (entries, requeue_responses lost b))"

text \<open>The section that \<open>unregister_outbound_stream\<close> and \<open>fail_stream\<close> share.\<close>

definition outbound_drop_stream :: "blob_outbound_state \<Rightarrow> peer_message_id \<Rightarrow> nat option \<times> blob_outbound_state" where
  "outbound_drop_stream b stream_id =
     (let ring = map_of (bo_streams b) stream_id;
          b = b\<lparr>bo_streams := AList.delete stream_id (bo_streams b)\<rparr>;
          b = b\<lparr>bo_inflight := filter (\<lambda>(_, e). ib_stream_id e \<noteq> stream_id) (bo_inflight b)\<rparr>;
          b = b\<lparr>bo_write_slots := filter (\<lambda>(_, slot). bw_stream_id slot \<noteq> Some stream_id) (bo_write_slots b)\<rparr>;
          b = prune_response_ready b;
          b = b\<lparr>bo_stream_settings := AList.delete stream_id (bo_stream_settings b)\<rparr>
      in (ring, b))"

definition outbound_clear :: "blob_outbound_state \<Rightarrow> nat list \<times> blob_outbound_state" where
  "outbound_clear b =
     (map snd (bo_streams b),
      b\<lparr>bo_streams := [], bo_inflight := [], bo_write_slots := [], bo_ack_ready := [], bo_error_ready := [],
        bo_complete_ready := [], bo_stream_settings := []\<rparr>)"

definition outbound_add_stream ::
  "blob_outbound_state \<Rightarrow> peer_message_id \<Rightarrow> nat \<Rightarrow> blob_callis_settings \<Rightarrow> blob_outbound_state" where
  "outbound_add_stream b stream_id ring settings =
     b\<lparr>bo_streams := AList.update stream_id ring (bo_streams b),
       bo_stream_settings := AList.update stream_id settings (bo_stream_settings b)\<rparr>"

section \<open>The choice of the next stream\<close>

definition position :: "('a \<Rightarrow> bool) \<Rightarrow> 'a list \<Rightarrow> nat option" where
  "position P xs = (let n = length (takeWhile (\<lambda>x. \<not> P x) xs) in if n < length xs then Some n else None)"

definition order_streams_from_cursor ::
  "(peer_message_id \<times> nat) list \<Rightarrow> peer_message_id option \<Rightarrow> (peer_message_id \<times> nat) list" where
  "order_streams_from_cursor streams cursor =
     (let streams = sort_key fst streams
      in case cursor of
           None \<Rightarrow> streams
         | Some cursor \<Rightarrow>
             let split = (case position (\<lambda>(stream_id, _). stream_id \<ge> cursor) streams of Some n \<Rightarrow> n | None \<Rightarrow> 0)
             in rotate split streams)"

definition next_stream_after :: "(peer_message_id \<times> nat) list \<Rightarrow> peer_message_id \<Rightarrow> peer_message_id option" where
  "next_stream_after streams stream_id =
     (let ids = sort (map fst streams)
      in if ids = [] then None
         else case find (\<lambda>candidate. candidate > stream_id) ids of
                Some candidate \<Rightarrow> Some candidate
              | None \<Rightarrow> Some (hd ids))"

section \<open>Methods of the manager\<close>

definition enqueue_blob_write :: "blob_manager \<Rightarrow> blob_write_lease \<Rightarrow> bool \<times> blob_manager" where
  "enqueue_blob_write m write =
     (case enqueue_response (bm_outbound m) write of
        (False, _) \<Rightarrow> (False, m)
      | (True, b) \<Rightarrow> (True, notify_work (m\<lparr>bm_outbound := b\<rparr>)))"

definition next_blob_write_slot :: "blob_manager \<Rightarrow> nat \<Rightarrow> blob_write_lease option \<times> blob_manager" where
  "next_blob_write_slot m callis_id =
     (let (write, b) = next_response (bm_outbound m) callis_id in (write, m\<lparr>bm_outbound := b\<rparr>))"

fun next_chunk_frame_from_streams ::
  "blob_manager \<Rightarrow> nat \<Rightarrow> (peer_message_id \<times> nat) list \<Rightarrow> bool \<Rightarrow> blob_write_lease option \<times> blob_manager" where
  "next_chunk_frame_from_streams m callis_id [] replay = (None, m)"
| "next_chunk_frame_from_streams m callis_id ((stream_id, h) # streams) replay =
     (let ring = bm_rings m ! h;
          dispatchable = (if replay then ring_has_dispatchable_replay ring else ring_has_dispatchable_fresh ring)
      in if \<not> dispatchable then next_chunk_frame_from_streams m callis_id streams replay
         else let (peer_msg_id, m) = next_peer_msg_id m;
                  (lease, ring) = ring_lease_next ring callis_id peer_msg_id;
                  m = on_ring m h (\<lambda>_. ring)
              in case lease of
                   None \<Rightarrow> next_chunk_frame_from_streams m callis_id streams replay
                 | Some lease \<Rightarrow> (Some (LeaseChunk stream_id peer_msg_id lease), m))"

definition advance_round_robin_cursor :: "blob_manager \<Rightarrow> peer_message_id \<Rightarrow> blob_manager" where
  "advance_round_robin_cursor m stream_id =
     m\<lparr>bm_outbound := (bm_outbound m)\<lparr>bo_cursor := next_stream_after (bo_streams (bm_outbound m)) stream_id\<rparr>\<rparr>"

text \<open>\<open>if let Some(stream_id) = write.stream_id() { self.advance_round_robin_cursor(stream_id) }\<close>\<close>

definition advance_past :: "blob_manager \<Rightarrow> blob_write_lease \<Rightarrow> blob_manager" where
  "advance_past m write =
     (case write_stream_id write of Some stream_id \<Rightarrow> advance_round_robin_cursor m stream_id | None \<Rightarrow> m)"

definition next_chunk_frame :: "blob_manager \<Rightarrow> nat \<Rightarrow> blob_write_lease option \<times> blob_manager" where
  "next_chunk_frame m callis_id =
     (let streams = order_streams_from_cursor (bo_streams (bm_outbound m)) (bo_cursor (bm_outbound m))
      in if streams = [] then (None, m)
         else case next_chunk_frame_from_streams m callis_id streams True of
                (Some write, m) \<Rightarrow> (Some write, advance_past m write)
              | (None, m) \<Rightarrow>
                  (case next_chunk_frame_from_streams m callis_id streams False of
                     (Some write, m) \<Rightarrow> (Some write, advance_past m write)
                   | (None, m) \<Rightarrow> (None, m)))"

definition ring_dispatchable :: "outbound_state \<Rightarrow> bool" where
  "ring_dispatchable ring \<longleftrightarrow> ring_has_dispatchable_replay ring \<or> ring_has_dispatchable_fresh ring"

definition has_dispatchable_blob_write :: "blob_manager \<Rightarrow> bool" where
  "has_dispatchable_blob_write m \<longleftrightarrow>
     response_ready_count (bm_outbound m) > 0
     \<or> list_ex (\<lambda>(_, h). ring_dispatchable (bm_rings m ! h)) (bo_streams (bm_outbound m))"

definition stream_ring :: "blob_manager \<Rightarrow> peer_message_id \<Rightarrow> nat option" where
  "stream_ring m stream_id = map_of (bo_streams (bm_outbound m)) stream_id"

definition mark_dispatch_inflight :: "blob_manager \<Rightarrow> blob_write_lease \<Rightarrow> nat \<Rightarrow> blob_manager" where
  "mark_dispatch_inflight m write callis_id =
     (let m = m\<lparr>bm_outbound := outbound_mark_inflight (bm_outbound m) write callis_id\<rparr>
      in case write of
           LeaseChunk stream_id _ lease \<Rightarrow>
             (case stream_ring m stream_id of
                Some h \<Rightarrow> on_ring m h (\<lambda>ring. ring_mark_chunk_inflight ring lease)
              | None \<Rightarrow> m)
         | _ \<Rightarrow> m)"

definition rollback_dispatch_inflight :: "blob_manager \<Rightarrow> blob_write_lease \<Rightarrow> nat \<Rightarrow> blob_manager" where
  "rollback_dispatch_inflight m write callis_id =
     (let m = m\<lparr>bm_outbound := outbound_rollback (bm_outbound m) write callis_id\<rparr>
      in case (write_is_chunk write, Option.bind (write_stream_id write) (stream_ring m)) of
           (True, Some h) \<Rightarrow> on_ring m h (\<lambda>ring. snd (ring_mark_callis_replay_ready ring callis_id))
         | _ \<Rightarrow> m)"

text \<open>One step, though the responses, the chunk of a ring and the table of writes in flight are under locks of their own.\<close>

definition lease_next_blob_write :: "blob_manager \<Rightarrow> nat \<Rightarrow> blob_write_lease option \<times> blob_manager" where
  "lease_next_blob_write m callis_id =
     (let (write, m) = (case next_blob_write_slot m callis_id of
                          (Some write, m) \<Rightarrow> (Some write, m)
                        | (None, m) \<Rightarrow> next_chunk_frame m callis_id)
      in case write of
           None \<Rightarrow> (None, m)
         | Some write \<Rightarrow>
             let m = mark_dispatch_inflight m write callis_id
             in (Some write, if has_dispatchable_blob_write m then notify_work m else m))"

definition finish_blob_write_attempt :: "blob_manager \<Rightarrow> blob_write_lease \<Rightarrow> nat \<Rightarrow> unit result \<Rightarrow> blob_manager" where
  "finish_blob_write_attempt m write callis_id res =
     notify_work
       (case res of
          Inl _ \<Rightarrow> rollback_dispatch_inflight m write callis_id
        | Inr _ \<Rightarrow> if \<not> write_is_chunk write
                    then m\<lparr>bm_outbound := outbound_forget (bm_outbound m) (write_peer_msg_id write)\<rparr>
                    else m)"

definition register_outbound_stream ::
  "blob_manager \<Rightarrow> peer_message_id \<Rightarrow> blob_callis_settings \<Rightarrow> nat result \<times> blob_manager" where
  "register_outbound_stream m stream_id settings =
     (case outbound_new (unat (bs_chunk_size settings)) (unat (bs_ack_window_chunks settings)) of
        Inl e \<Rightarrow> (Inl e, m)
      | Inr ring \<Rightarrow>
          let h = length (bm_rings m)
          in (Inr h, m\<lparr>bm_rings := bm_rings m @ [ring],
                       bm_outbound := outbound_add_stream (bm_outbound m) stream_id h settings\<rparr>))"

definition unregister_outbound_stream :: "blob_manager \<Rightarrow> peer_message_id \<Rightarrow> blob_manager" where
  "unregister_outbound_stream m stream_id =
     (let m = release_outbound m stream_id;
          (ring, b) = outbound_drop_stream (bm_outbound m) stream_id;
          m = m\<lparr>bm_outbound := b\<rparr>
      in case ring of Some h \<Rightarrow> on_ring m h ring_close | None \<Rightarrow> m)"

definition fail_stream :: "blob_manager \<Rightarrow> peer_message_id \<Rightarrow> aurelia_error \<Rightarrow> blob_manager" where
  "fail_stream m stream_id error =
     (let m = release_outbound m stream_id;
          (ring, b) = outbound_drop_stream (bm_outbound m) stream_id;
          m = m\<lparr>bm_outbound := b\<rparr>
      in case ring of Some h \<Rightarrow> on_ring (on_ring m h (\<lambda>r. ring_fail r error)) h ring_close | None \<Rightarrow> m)"

definition blob_handle_ack :: "blob_manager \<Rightarrow> peer_message_id \<Rightarrow> blob_manager" where
  "blob_handle_ack m peer_msg_id =
     (let ((entry, ring), b) = outbound_take_inflight (bm_outbound m) peer_msg_id;
          m = m\<lparr>bm_outbound := b\<rparr>
      in case entry of
           None \<Rightarrow> m
         | Some entry \<Rightarrow>
             let m = (if ib_is_chunk entry then notify_work m else m)
             in case ring of Some h \<Rightarrow> on_ring m h (\<lambda>r. snd (ring_note_ack r peer_msg_id)) | None \<Rightarrow> m)"

definition fail_outbound_stream :: "blob_manager \<Rightarrow> peer_message_id \<Rightarrow> aurelia_error \<Rightarrow> bool \<times> blob_manager" where
  "fail_outbound_stream m stream_id error =
     (case stream_ring m stream_id of
        None \<Rightarrow> (False, m)
      | Some h \<Rightarrow> (True, unregister_outbound_stream (on_ring m h (\<lambda>r. ring_fail r error)) stream_id))"

definition handle_complete :: "blob_manager \<Rightarrow> peer_message_id \<Rightarrow> unit result \<times> blob_manager" where
  "handle_complete m stream_id =
     (case stream_ring m stream_id of
        Some h \<Rightarrow> (Inr (), on_ring m h ring_mark_complete)
      | None \<Rightarrow> (Inl (err_new ProtocolViolation), m))"

definition requeue_inflight_for_callis :: "blob_manager \<Rightarrow> nat \<Rightarrow> blob_manager" where
  "requeue_inflight_for_callis m callis_id =
     (let (entries, b) = outbound_requeue (\<lambda>c. c = callis_id) (bm_outbound m);
          m = m\<lparr>bm_outbound := b\<rparr>
      in if entries = [] then m
         else let streams = remdups (map (\<lambda>(_, e). ib_stream_id e) entries);
                  rings = List.map_filter (stream_ring m) streams
              in notify_work
                   (foldl (\<lambda>m h. on_ring m h (\<lambda>r. snd (ring_mark_callis_replay_ready r callis_id))) m rings))"

definition requeue_all_inflight :: "blob_manager \<Rightarrow> blob_manager" where
  "requeue_all_inflight m =
     (let (entries, b) = outbound_requeue (\<lambda>_. True) (bm_outbound m);
          m = m\<lparr>bm_outbound := b\<rparr>
      in if entries = [] then m
         else let ring_replay = List.map_filter
                    (\<lambda>(_, e). if ib_is_chunk e
                               then map_option (Pair (ib_callis_id e)) (stream_ring m (ib_stream_id e)) else None) entries
              in notify_work
                   (foldl (\<lambda>m (callis_id, h). on_ring m h (\<lambda>r. snd (ring_mark_callis_replay_ready r callis_id)))
                      m ring_replay))"

end
