(* ===== verification/Blob_Responses.thy ===== *)
theory Blob_Responses
  imports Blob_Outbound
begin

text \<open>
  The response queue of the blob manager under any interleaving of its critical sections: a response
  that waits is in its lane, so the transmitter always finds it, and it is handed out in the order of
  the lanes; the responses of a lost callis wait again. The last section shows what happens when the
  numbers of the two sides meet in the table of responses.
\<close>

section \<open>Lanes and slots\<close>

lemma blob_lane_set [simp]:
  "blob_lane (set_blob_lane b l q) l' = (if l = l' then q else blob_lane b l')"
  by (cases l; cases l') simp_all

lemma set_blob_lane_sel [simp]:
  "bo_streams (set_blob_lane b l q) = bo_streams b" "bo_inflight (set_blob_lane b l q) = bo_inflight b"
  "bo_write_slots (set_blob_lane b l q) = bo_write_slots b"
  "bo_stream_settings (set_blob_lane b l q) = bo_stream_settings b"
  "bo_capacities (set_blob_lane b l q) = bo_capacities b" "bo_cursor (set_blob_lane b l q) = bo_cursor b"
  by (cases l; simp)+

lemma blob_lane_update [simp]:
  "blob_lane (b\<lparr>bo_write_slots := s\<rparr>) l = blob_lane b l"
  "blob_lane (b\<lparr>bo_inflight := i\<rparr>) l = blob_lane b l"
  "blob_lane (b\<lparr>bo_streams := t\<rparr>) l = blob_lane b l"
  "blob_lane (b\<lparr>bo_stream_settings := g\<rparr>) l = blob_lane b l"
  "blob_lane (b\<lparr>bo_cursor := c\<rparr>) l = blob_lane b l"
  by (cases l; simp)+

lemma push_response_simps [simp]:
  "blob_lane (push_response b l k) l' = (if l = l' then blob_lane b l' @ [k] else blob_lane b l')"
  "bo_streams (push_response b l k) = bo_streams b" "bo_inflight (push_response b l k) = bo_inflight b"
  "bo_write_slots (push_response b l k) = bo_write_slots b"
  "bo_stream_settings (push_response b l k) = bo_stream_settings b"
  "bo_capacities (push_response b l k) = bo_capacities b" "bo_cursor (push_response b l k) = bo_cursor b"
  by (simp_all add: push_response_def)

lemma prune_response_simps [simp]:
  "blob_lane (prune_response_ready b) l = filter (\<lambda>k. map_of (bo_write_slots b) k \<noteq> None) (blob_lane b l)"
  "bo_streams (prune_response_ready b) = bo_streams b" "bo_inflight (prune_response_ready b) = bo_inflight b"
  "bo_write_slots (prune_response_ready b) = bo_write_slots b"
  "bo_stream_settings (prune_response_ready b) = bo_stream_settings b"
  by (cases l; simp add: prune_response_ready_def Let_def)+

lemma set_write_state_keys [simp]: "map fst (set_write_state k st slots) = map fst slots"
  by (induction slots) (auto simp: set_write_state_def)

lemma map_of_set_write_state:
  "map_of (set_write_state k st slots) k' =
     (if k' = k then map_option (\<lambda>slot. slot\<lparr>bw_state := st\<rparr>) (map_of slots k') else map_of slots k')"
  by (induction slots) (auto simp: set_write_state_def)

section \<open>The invariant\<close>

text \<open>A slot is filed under the identifier of its write, has a lane, and is in that lane while it waits.\<close>

definition write_slot_ok :: "blob_outbound_state \<Rightarrow> peer_message_id \<Rightarrow> blob_write_slot \<Rightarrow> bool" where
  "write_slot_ok b k slot \<longleftrightarrow>
     write_peer_msg_id (bw_write slot) = k \<and> bw_stream_id slot = write_stream_id (bw_write slot)
     \<and> (\<exists>lane. write_lane (bw_write slot) = Some lane
          \<and> (is_waiting (bw_state slot) \<longrightarrow> k \<in> set (blob_lane b lane)))"

definition responses_inv :: "blob_outbound_state \<Rightarrow> bool" where
  "responses_inv b \<longleftrightarrow>
     distinct (map fst (bo_write_slots b)) \<and> (\<forall>k slot. map_of (bo_write_slots b) k = Some slot \<longrightarrow> write_slot_ok b k slot)"

lemma responses_invI:
  assumes "responses_inv b" and "distinct (map fst (bo_write_slots b'))"
    and "\<And>k slot. map_of (bo_write_slots b') k = Some slot \<Longrightarrow> write_slot_ok b' k slot"
  shows "responses_inv b'"
  using assms by (simp add: responses_inv_def)

lemma write_slot_okD: "responses_inv b \<Longrightarrow> map_of (bo_write_slots b) k = Some slot \<Longrightarrow> write_slot_ok b k slot"
  by (simp add: responses_inv_def)

lemma write_slot_ok_mono:
  "write_slot_ok b k slot \<Longrightarrow> (\<And>lane. k \<in> set (blob_lane b lane) \<Longrightarrow> k \<in> set (blob_lane b' lane)) \<Longrightarrow> write_slot_ok b' k slot"
  unfolding write_slot_ok_def by blast

lemma write_slot_ok_busy: "write_slot_ok b k slot \<Longrightarrow> \<not> is_waiting st \<Longrightarrow> write_slot_ok b' k (slot\<lparr>bw_state := st\<rparr>)"
  by (auto simp: write_slot_ok_def)

lemma write_slot_ok_in_lane:
  "write_slot_ok b k slot \<Longrightarrow> write_lane (bw_write slot) = Some lane \<Longrightarrow> k \<in> set (blob_lane b' lane)
     \<Longrightarrow> write_slot_ok b' k (slot\<lparr>bw_state := st\<rparr>)"
  by (auto simp: write_slot_ok_def)

text \<open>Sections that only remove slots, or leave slots and lanes alone.\<close>

lemma responses_inv_shrink:
  assumes inv: "responses_inv b" and keys: "distinct (map fst (bo_write_slots b'))"
    and sub: "\<And>k slot. map_of (bo_write_slots b') k = Some slot \<Longrightarrow> map_of (bo_write_slots b) k = Some slot"
    and lanes: "\<And>k slot lane. map_of (bo_write_slots b') k = Some slot \<Longrightarrow> k \<in> set (blob_lane b lane)
                  \<Longrightarrow> k \<in> set (blob_lane b' lane)"
  shows "responses_inv b'"
  using write_slot_ok_mono [OF write_slot_okD [OF inv sub]] lanes keys by (auto simp: responses_inv_def)

lemma responses_inv_new: "responses_inv (blob_outbound_new n)"
  by (simp add: responses_inv_def blob_outbound_new_def)

lemma responses_inv_enqueue:
  assumes inv: "responses_inv b"
  shows "responses_inv (snd (enqueue_response b write))"
proof (cases "fst (enqueue_response b write)")
  case False
  then show ?thesis using inv by (auto simp: enqueue_response_def Let_def split: option.splits if_splits)
next
  case True
  let ?k = "write_peer_msg_id write"
  from True obtain lane where lane: "write_lane write = Some lane" and new: "map_of (bo_write_slots b) ?k = None"
    and res: "snd (enqueue_response b write) =
      push_response (b\<lparr>bo_write_slots := AList.update ?k
        \<lparr>bw_stream_id = write_stream_id write, bw_write = write, bw_state = BwReady\<rparr> (bo_write_slots b)\<rparr>) lane ?k"
    by (auto simp: enqueue_response_def Let_def split: option.splits if_splits)
  show ?thesis
  proof (rule responses_invI [OF inv])
    show "distinct (map fst (bo_write_slots (snd (enqueue_response b write))))"
      using inv by (simp add: res responses_inv_def distinct_update)
    show "write_slot_ok (snd (enqueue_response b write)) k slot"
      if "map_of (bo_write_slots (snd (enqueue_response b write))) k = Some slot" for k slot
      using that lane write_slot_ok_mono [OF write_slot_okD [OF inv, of k slot]]
      by (auto simp: res update_conv' write_slot_ok_def split: if_splits)
  qed
qed

section \<open>Handing out the next response\<close>

definition waits :: "(peer_message_id \<times> blob_write_slot) list \<Rightarrow> peer_message_id \<Rightarrow> bool" where
  "waits slots k = (case map_of slots k of Some slot \<Rightarrow> is_waiting (bw_state slot) | None \<Rightarrow> False)"

lemma pop_waiting_find: "fst (pop_waiting slots q) = find (waits slots) q"
  by (induction q) (auto simp: waits_def split: option.splits)

lemma pop_waiting_rest:
  "pop_waiting slots q = (r, q') \<Longrightarrow> k \<in> set q \<Longrightarrow> waits slots k \<Longrightarrow> r = Some k \<or> k \<in> set q'"
  by (induction q) (auto simp: waits_def split: option.splits if_splits)

lemma pop_waiting_suffix: "pop_waiting slots q = (r, q') \<Longrightarrow> set q' \<subseteq> set q"
  by (induction q) (auto split: option.splits if_splits)

text \<open>The lanes in the order in which they are served, as one queue.\<close>

definition response_queue :: "blob_outbound_state \<Rightarrow> peer_message_id list" where
  "response_queue b = bo_ack_ready b @ bo_error_ready b @ bo_complete_ready b"

lemma next_from_lanes_write:
  "distinct lanes \<Longrightarrow> fst (next_from_lanes callis b lanes) =
     Option.bind (find (waits (bo_write_slots b)) (concat (map (blob_lane b) lanes)))
       (\<lambda>k. map_option bw_write (map_of (bo_write_slots b) k))"
proof (induction lanes arbitrary: b)
  case (Cons lane lanes)
  obtain r q where pop: "pop_waiting (bo_write_slots b) (blob_lane b lane) = (r, q)" by force
  have r: "r = find (waits (bo_write_slots b)) (blob_lane b lane)" using pop pop_waiting_find by (metis fst_conv)
  have rest: "map (blob_lane (set_blob_lane b lane q)) lanes = map (blob_lane b) lanes"
    using Cons.prems by auto
  show ?case
  proof (cases r)
    case None
    then have "fst (next_from_lanes callis b (lane # lanes)) = fst (next_from_lanes callis (set_blob_lane b lane q) lanes)"
      using pop by simp
    also have "\<dots> = Option.bind (find (waits (bo_write_slots b)) (concat (map (blob_lane b) lanes)))
       (\<lambda>k. map_option bw_write (map_of (bo_write_slots b) k))"
      using Cons.IH [of "set_blob_lane b lane q"] Cons.prems unfolding rest by simp
    finally show ?thesis using None r by (simp add: find_append)
  next
    case (Some k)
    with pop r [symmetric] show ?thesis by (simp add: find_append Let_def)
  qed
qed simp

lemma next_response_write:
  "fst (next_response b callis) =
     Option.bind (find (waits (bo_write_slots b)) (response_queue b))
       (\<lambda>k. map_option bw_write (map_of (bo_write_slots b) k))"
  using next_from_lanes_write [of "[BlobLaneAck, BlobLaneError, BlobLaneComplete]" callis b]
  by (simp add: next_response_def response_queue_def del: next_from_lanes.simps)

lemma waits_queued:
  assumes "responses_inv b" and "waits (bo_write_slots b) k"
  shows "k \<in> set (response_queue b)"
proof -
  from assms obtain slot lane where "k \<in> set (blob_lane b lane)"
    by (auto simp: waits_def write_slot_ok_def dest!: write_slot_okD split: option.splits)
  then show ?thesis by (cases lane) (simp_all add: response_queue_def)
qed

lemma next_from_lanes_inv: "responses_inv b \<Longrightarrow> responses_inv (snd (next_from_lanes callis b lanes))"
proof (induction lanes arbitrary: b)
  case (Cons lane lanes)
  obtain r q where pop: "pop_waiting (bo_write_slots b) (blob_lane b lane) = (r, q)" by force
  have kept: "write_slot_ok (set_blob_lane b lane q) k slot"
    if "map_of (bo_write_slots b) k = Some slot" "r \<noteq> Some k" for k slot
    using write_slot_okD [OF Cons.prems that(1)] pop_waiting_rest [OF pop, of k] that
    by (fastforce simp: waits_def write_slot_ok_def)
  show ?case
  proof (cases r)
    case None
    have "responses_inv (set_blob_lane b lane q)"
      by (rule responses_invI [OF Cons.prems]) (use Cons.prems kept None in \<open>auto simp: responses_inv_def\<close>)
    with Cons.IH pop None show ?thesis by simp
  next
    case (Some k0)
    have "write_slot_ok (set_blob_lane b lane q) k slot"
      if "map_of (set_write_state k0 (BwWriting callis) (bo_write_slots b)) k = Some slot" for k slot
      using that kept [of k] write_slot_okD [OF Cons.prems, of k0] Some write_slot_ok_busy
      by (auto simp: map_of_set_write_state split: if_splits)
    then have ok: "write_slot_ok ((set_blob_lane b lane q)\<lparr>bo_write_slots := s\<rparr>) k slot"
      if "map_of (set_write_state k0 (BwWriting callis) (bo_write_slots b)) k = Some slot" for k slot s
      using that write_slot_ok_mono by fastforce
    show ?thesis
      by (rule responses_invI [OF Cons.prems]) (use pop Some ok Cons.prems in \<open>auto simp: Let_def responses_inv_def\<close>)
  qed
qed simp

section \<open>The other sections\<close>

lemma responses_inv_mark:
  assumes inv: "responses_inv b"
  shows "responses_inv (outbound_mark_inflight b write callis)"
proof (rule responses_invI [OF inv])
  have slots: "bo_write_slots (outbound_mark_inflight b write callis) =
      set_write_state (write_peer_msg_id write) (BwInFlight callis) (bo_write_slots b)"
    by (simp add: outbound_mark_inflight_def Let_def split: option.splits)
  have lanes: "blob_lane (outbound_mark_inflight b write callis) lane = blob_lane b lane" for lane
    by (simp add: outbound_mark_inflight_def Let_def split: option.splits)
  show "distinct (map fst (bo_write_slots (outbound_mark_inflight b write callis)))"
    using inv by (simp add: slots responses_inv_def)
  show "write_slot_ok (outbound_mark_inflight b write callis) k slot"
    if "map_of (bo_write_slots (outbound_mark_inflight b write callis)) k = Some slot" for k slot
    using that write_slot_okD [OF inv, of k] lanes
    by (auto simp: slots map_of_set_write_state split: if_splits intro: write_slot_ok_busy write_slot_ok_mono)
qed

lemma responses_inv_rollback:
  assumes inv: "responses_inv b"
  shows "responses_inv (outbound_rollback b write callis)"
proof (cases "write_is_chunk write \<or> map_of (bo_write_slots b) (write_peer_msg_id write) = None")
  case True
  then have "bo_write_slots (outbound_rollback b write callis) = bo_write_slots b"
    "blob_lane (outbound_rollback b write callis) lane = blob_lane b lane" for lane
    by (auto simp: outbound_rollback_def Let_def)
  note same = this
  have "distinct (map fst (bo_write_slots b))" using inv by (simp add: responses_inv_def)
  with same show ?thesis by (intro responses_inv_shrink [OF inv]) simp_all
next
  case False
  let ?k = "write_peer_msg_id write"
  from False obtain slot0 where slot0: "map_of (bo_write_slots b) ?k = Some slot0" by auto
  from write_slot_okD [OF inv slot0] obtain lane where lane: "write_lane (bw_write slot0) = Some lane"
    by (auto simp: write_slot_ok_def)
  from slot0 lane have slots: "bo_write_slots (outbound_rollback b write callis) =
      set_write_state ?k (BwReplayReady callis) (bo_write_slots b)"
    and lanes: "blob_lane (outbound_rollback b write callis) l = (if lane = l then blob_lane b l @ [?k] else blob_lane b l)" for l
    using False by (simp_all add: outbound_rollback_def Let_def)
  show ?thesis
  proof (rule responses_invI [OF inv])
    show "distinct (map fst (bo_write_slots (outbound_rollback b write callis)))"
      using inv by (simp add: slots responses_inv_def)
    show "write_slot_ok (outbound_rollback b write callis) k slot"
      if "map_of (bo_write_slots (outbound_rollback b write callis)) k = Some slot" for k slot
    proof (cases "k = ?k")
      case True
      with that slot0 have "slot = slot0\<lparr>bw_state := BwReplayReady callis\<rparr>" by (simp add: slots map_of_set_write_state)
      with write_slot_ok_in_lane [OF write_slot_okD [OF inv slot0] lane] True show ?thesis by (simp add: lanes)
    next
      case False
      with that have "map_of (bo_write_slots b) k = Some slot" by (simp add: slots map_of_set_write_state)
      from write_slot_ok_mono [OF write_slot_okD [OF inv this]] show ?thesis by (simp add: lanes)
    qed
  qed
qed

text \<open>The pushes at the end of a requeue.\<close>

abbreviation push_all ::
  "blob_outbound_state \<Rightarrow> (peer_message_id \<times> blob_response_lane option) list \<Rightarrow> blob_outbound_state" where
  "push_all \<equiv> foldl (\<lambda>b (k, lane). case lane of Some lane \<Rightarrow> push_response b lane k | None \<Rightarrow> b)"

lemma push_all_sel [simp]:
  "bo_write_slots (push_all b ids) = bo_write_slots b" "bo_inflight (push_all b ids) = bo_inflight b"
  "bo_streams (push_all b ids) = bo_streams b" "bo_cursor (push_all b ids) = bo_cursor b"
  by (induction ids arbitrary: b) (auto split: option.splits)

lemma push_all_lane: "blob_lane (push_all b ids) lane = blob_lane b lane @ map fst (filter (\<lambda>(k, l). l = Some lane) ids)"
  by (induction ids arbitrary: b) (auto split: option.splits)

definition requeued_slot :: "(nat \<Rightarrow> bool) \<Rightarrow> blob_write_slot \<Rightarrow> blob_write_slot" where
  "requeued_slot lost slot =
     (case writing_callis (bw_state slot) of
        Some c \<Rightarrow> if lost c then slot\<lparr>bw_state := BwReplayReady c\<rparr> else slot
      | None \<Rightarrow> slot)"

lemma requeue_slots: "bo_write_slots (requeue_responses lost b) = map (\<lambda>(k, slot). (k, requeued_slot lost slot)) (bo_write_slots b)"
  by (simp add: requeue_responses_def Let_def requeued_slot_def)

lemma map_of_requeue:
  "map_of (bo_write_slots (requeue_responses lost b)) k = map_option (requeued_slot lost) (map_of (bo_write_slots b) k)"
  by (simp add: requeue_slots map_of_map)

lemma requeue_keys: "map fst (bo_write_slots (requeue_responses lost b)) = map fst (bo_write_slots b)"
  by (simp add: requeue_slots comp_def case_prod_beta)

lemma requeue_lane:
  assumes "map_of (bo_write_slots b) k = Some slot" and "write_lane (bw_write slot) = Some lane"
    and "writing_callis (bw_state slot) = Some c" and "lost c"
  shows "k \<in> set (blob_lane (requeue_responses lost b) lane)"
proof -
  have "(k, slot) \<in> set (bo_write_slots b)" using assms(1) by (rule map_of_SomeD)
  with assms show ?thesis
    by (force simp: requeue_responses_def Let_def push_all_lane image_iff)
qed

lemma requeue_lane_mono: "k \<in> set (blob_lane b lane) \<Longrightarrow> k \<in> set (blob_lane (requeue_responses lost b) lane)"
  by (simp add: requeue_responses_def Let_def push_all_lane)

lemma waiting_or_writing: "is_waiting st \<longleftrightarrow> writing_callis st = None"
  by (cases st) simp_all

lemma responses_inv_requeue:
  assumes inv: "responses_inv b"
  shows "responses_inv (requeue_responses lost b)"
proof (rule responses_invI [OF inv])
  show "distinct (map fst (bo_write_slots (requeue_responses lost b)))"
    using inv by (simp add: requeue_keys responses_inv_def)
  show "write_slot_ok (requeue_responses lost b) k slot"
    if "map_of (bo_write_slots (requeue_responses lost b)) k = Some slot" for k slot
  proof -
    from that obtain slot0 where slot0: "map_of (bo_write_slots b) k = Some slot0" and slot: "slot = requeued_slot lost slot0"
      by (auto simp: map_of_requeue)
    from write_slot_okD [OF inv slot0] obtain lane where ok: "write_slot_ok b k slot0" and lane: "write_lane (bw_write slot0) = Some lane"
      by (auto simp: write_slot_ok_def)
    show ?thesis
    proof (cases "slot = slot0")
      case True
      from write_slot_ok_mono [OF ok requeue_lane_mono] True show ?thesis by simp
    next
      case False
      with slot obtain c where c: "writing_callis (bw_state slot0) = Some c" "lost c"
        "slot = slot0\<lparr>bw_state := BwReplayReady c\<rparr>"
        by (auto simp: requeued_slot_def split: option.splits if_splits)
      from write_slot_ok_in_lane [OF ok lane requeue_lane [OF slot0 lane c(1), where lost = lost, OF c(2)]] c(3) show ?thesis by simp
    qed
  qed
qed

lemma responses_inv_delete: "responses_inv b \<Longrightarrow> responses_inv (outbound_forget b k)"
  by (rule responses_inv_shrink [where b = b])
    (auto simp: outbound_forget_def responses_inv_def distinct_delete delete_conv' split: if_splits)

lemma responses_inv_take: "responses_inv b \<Longrightarrow> responses_inv (snd (outbound_take_inflight b k))"
  by (rule responses_inv_shrink [where b = b])
    (auto simp: outbound_take_inflight_def Let_def responses_inv_def distinct_delete delete_conv' split: if_splits)

lemma responses_inv_drop: "responses_inv b \<Longrightarrow> responses_inv (snd (outbound_drop_stream b stream_id))"
  by (rule responses_inv_shrink [where b = b])
    (auto simp: outbound_drop_stream_def Let_def responses_inv_def distinct_filter_keys map_of_filter_snd
       split: option.splits if_splits)

lemma responses_inv_clear: "responses_inv (snd (outbound_clear b))"
  by (simp add: outbound_clear_def responses_inv_def)

section \<open>Any interleaving of the sections\<close>

datatype outbound_section =
    SectEnqueue blob_write_lease
  | SectNext nat
  | SectMark blob_write_lease nat
  | SectRollback blob_write_lease nat
  | SectForget peer_message_id
  | SectTake peer_message_id
  | SectRequeueCallis nat
  | SectRequeueAll
  | SectAddStream peer_message_id nat blob_callis_settings
  | SectDropStream peer_message_id
  | SectCursor peer_message_id
  | SectClear

fun section_step :: "blob_outbound_state \<Rightarrow> outbound_section \<Rightarrow> blob_outbound_state" where
  "section_step b (SectEnqueue write) = snd (enqueue_response b write)"
| "section_step b (SectNext callis) = snd (next_response b callis)"
| "section_step b (SectMark write callis) = outbound_mark_inflight b write callis"
| "section_step b (SectRollback write callis) = outbound_rollback b write callis"
| "section_step b (SectForget k) = outbound_forget b k"
| "section_step b (SectTake k) = snd (outbound_take_inflight b k)"
| "section_step b (SectRequeueCallis callis) = snd (outbound_requeue (\<lambda>c. c = callis) b)"
| "section_step b SectRequeueAll = snd (outbound_requeue (\<lambda>_. True) b)"
| "section_step b (SectAddStream stream_id ring settings) = outbound_add_stream b stream_id ring settings"
| "section_step b (SectDropStream stream_id) = snd (outbound_drop_stream b stream_id)"
| "section_step b (SectCursor stream_id) = b\<lparr>bo_cursor := next_stream_after (bo_streams b) stream_id\<rparr>"
| "section_step b SectClear = snd (outbound_clear b)"

lemma responses_inv_outbound_requeue: "responses_inv b \<Longrightarrow> responses_inv (snd (outbound_requeue lost b))"
  unfolding outbound_requeue_def Let_def snd_conv
  by (rule responses_inv_requeue, rule responses_inv_shrink [where b = b]) (auto simp: responses_inv_def)

lemma responses_inv_streams:
  "responses_inv b \<Longrightarrow> responses_inv (outbound_add_stream b stream_id ring settings)"
  "responses_inv b \<Longrightarrow> responses_inv (b\<lparr>bo_cursor := c\<rparr>)"
  by (rule responses_inv_shrink [where b = b]; auto simp: outbound_add_stream_def responses_inv_def)+

lemma responses_inv_step: "responses_inv b \<Longrightarrow> responses_inv (section_step b sect)"
  by (cases sect)
    (simp_all add: responses_inv_enqueue responses_inv_mark responses_inv_rollback responses_inv_delete
       responses_inv_take responses_inv_outbound_requeue responses_inv_streams responses_inv_drop
       responses_inv_clear next_response_def next_from_lanes_inv del: next_from_lanes.simps)

interpretation responses: op_machine "\<lambda>b. \<exists>n. b = blob_outbound_new n" section_step responses_inv
  by unfold_locales (auto intro: responses_inv_new responses_inv_step)

definition outbound_reachable :: "blob_outbound_state \<Rightarrow> bool" where
  "outbound_reachable b \<longleftrightarrow> (\<exists>n sections. b = foldl section_step (blob_outbound_new n) sections)"

lemma reachable_responses_inv: "outbound_reachable b \<Longrightarrow> responses_inv b"
  unfolding outbound_reachable_def by (auto intro: responses.invar_reachable)

lemma reachable_after: "outbound_reachable b \<Longrightarrow> outbound_reachable (foldl section_step b sections)"
  unfolding outbound_reachable_def by (metis foldl_append)

lemma reachable_new: "outbound_reachable (foldl section_step (blob_outbound_new n) sections)"
  unfolding outbound_reachable_def by blast

text \<open>
  No response is stranded: after any sequence of critical sections, in whatever order the tasks of the
  calles, of the peer and of the application run them, the transmitter is given a response exactly when
  one waits, and it is the first waiting one in the order acknowledgements, errors, completions, each
  lane first in first out. In particular a response that waits is always in the queue, whatever stale
  entries the lanes hold before it.
\<close>

theorem responses_found:
  assumes reach: "outbound_reachable b"
  shows "(\<forall>k. waits (bo_write_slots b) k \<longrightarrow> k \<in> set (response_queue b))
    \<and> fst (next_response b callis) =
        (case find (waits (bo_write_slots b)) (response_queue b) of
           None \<Rightarrow> None
         | Some k \<Rightarrow> map_option bw_write (map_of (bo_write_slots b) k))
    \<and> (fst (next_response b callis) = None \<longleftrightarrow> (\<forall>k. \<not> waits (bo_write_slots b) k))"
proof -
  note inv = reachable_responses_inv [OF reach]
  have "find (waits (bo_write_slots b)) (response_queue b) = None \<longleftrightarrow> (\<forall>k. \<not> waits (bo_write_slots b) k)"
    using waits_queued [OF inv] by (auto simp: find_None_iff)
  moreover have "map_of (bo_write_slots b) k \<noteq> None"
    if "find (waits (bo_write_slots b)) (response_queue b) = Some k" for k
    using that by (auto simp: find_Some_iff waits_def split: option.splits)
  ultimately show ?thesis
    using waits_queued [OF inv]
    by (cases "find (waits (bo_write_slots b)) (response_queue b)") (auto simp: next_response_write)
qed

text \<open>An error and then an acknowledgement are queued, and the acknowledgement is sent first.\<close>

definition sample_sections :: "outbound_section list" where
  "sample_sections = [SectEnqueue (LeaseError 7 [1]), SectEnqueue (LeaseAck 9), SectNext 4]"

definition sample_outbound :: blob_outbound_state where
  "sample_outbound = (blob_outbound_new 2)\<lparr>
     bo_write_slots := [(7, \<lparr>bw_stream_id = None, bw_write = LeaseError 7 [1], bw_state = BwReady\<rparr>),
                        (9, \<lparr>bw_stream_id = None, bw_write = LeaseAck 9, bw_state = BwWriting 4\<rparr>)],
     bo_error_ready := [7]\<rparr>"

lemma blob_sample_capacities: "bo_capacities (blob_outbound_new 2) = \<lparr>rc_ack = 32, rc_error = 4, rc_complete = 4\<rparr>"
  by (simp add: blob_outbound_new_def capacities_from_send_queue_size_def BLOB_ACK_CAPACITY_MULTIPLIER_def
      BLOB_ERROR_CAPACITY_MULTIPLIER_def BLOB_COMPLETE_CAPACITY_MULTIPLIER_def sat_mul_def)

lemma blob_outbound_new_sel [simp]:
  "bo_write_slots (blob_outbound_new n) = []" "bo_inflight (blob_outbound_new n) = []" "bo_streams (blob_outbound_new n) = []"
  "bo_ack_ready (blob_outbound_new n) = []" "bo_error_ready (blob_outbound_new n) = []"
  "bo_complete_ready (blob_outbound_new n) = []"
  by (simp_all add: blob_outbound_new_def)

lemma sample_outbound_reached: "outbound_reachable sample_outbound"
proof -
  have "foldl section_step (blob_outbound_new 2) sample_sections = sample_outbound"
    by (simp add: sample_sections_def sample_outbound_def enqueue_response_def blob_sample_capacities response_lane_len_def
        push_response_def next_response_def set_write_state_def Let_def)
  then show ?thesis using reachable_new by metis
qed

theorem responses_found_witness: "fst (next_response sample_outbound 5) = Some (LeaseError 7 [1])"
  using responses_found [OF sample_outbound_reached, where callis = 5]
  by (simp add: sample_outbound_def response_queue_def waits_def)

text \<open>
  The loss of a callis: exactly the responses that were being written by it, or written and not yet
  finished, wait again, each in its lane; every other response keeps its state, and none is lost or
  doubled. A response that the lost callis had taken is then found by the transmitter of another callis.
\<close>

theorem lost_callis_responses_wait:
  assumes reach: "outbound_reachable b"
  shows "map fst (bo_write_slots (snd (outbound_requeue (\<lambda>c. c = callis) b))) = map fst (bo_write_slots b)
    \<and> map_of (bo_write_slots (snd (outbound_requeue (\<lambda>c. c = callis) b))) k =
        map_option (\<lambda>slot. if writing_callis (bw_state slot) = Some callis
                           then slot\<lparr>bw_state := BwReplayReady callis\<rparr> else slot) (map_of (bo_write_slots b) k)
    \<and> (waits (bo_write_slots (snd (outbound_requeue (\<lambda>c. c = callis) b))) k
         \<longrightarrow> k \<in> set (response_queue (snd (outbound_requeue (\<lambda>c. c = callis) b))))"
proof -
  have eq: "snd (outbound_requeue (\<lambda>c. c = callis) b) = section_step b (SectRequeueCallis callis)" by simp
  have "responses_inv (section_step b (SectRequeueCallis callis))"
    by (rule responses_inv_step [OF reachable_responses_inv [OF reach]])
  note q = waits_queued [OF this, folded eq]
  have "requeued_slot (\<lambda>c. c = callis) =
      (\<lambda>slot. if writing_callis (bw_state slot) = Some callis then slot\<lparr>bw_state := BwReplayReady callis\<rparr> else slot)"
    by (auto simp: requeued_slot_def fun_eq_iff split: option.splits)
  with q show ?thesis by (auto simp: outbound_requeue_def Let_def requeue_keys map_of_requeue)
qed

theorem lost_callis_responses_wait_witness:
  "map_of (bo_write_slots (snd (outbound_requeue (\<lambda>c. c = 4) sample_outbound))) 9
   = Some \<lparr>bw_stream_id = None, bw_write = LeaseAck 9, bw_state = BwReplayReady 4\<rparr>"
  using lost_callis_responses_wait [OF sample_outbound_reached, where callis = 4 and k = 9]
  by (simp add: sample_outbound_def)

section \<open>How a response leaves the table\<close>

fun removes_response :: "outbound_section \<Rightarrow> peer_message_id \<Rightarrow> blob_write_slot \<Rightarrow> bool" where
  "removes_response (SectForget k') k slot = (k' = k)"
| "removes_response (SectTake k') k slot = (k' = k)"
| "removes_response (SectDropStream stream_id) k slot = (bw_stream_id slot = Some stream_id)"
| "removes_response SectClear k slot = True"
| "removes_response _ k slot = False"

lemma next_from_lanes_slots:
  "map_option bw_write (map_of (bo_write_slots (snd (next_from_lanes callis b lanes))) k)
     = map_option bw_write (map_of (bo_write_slots b) k)"
proof (induction lanes arbitrary: b)
  case (Cons lane lanes)
  then show ?case
    by (cases "pop_waiting (bo_write_slots b) (blob_lane b lane)")
      (auto simp: Let_def map_of_set_write_state option.map_comp comp_def split: option.splits)
qed simp

lemma section_keeps_write:
  assumes inv: "responses_inv b" and slot: "map_of (bo_write_slots b) k = Some slot"
    and keep: "\<not> removes_response sect k slot"
  shows "map_option bw_write (map_of (bo_write_slots (section_step b sect)) k) = Some (bw_write slot)"
proof (cases sect)
  case (SectEnqueue w)
  with slot show ?thesis
    by (auto simp: enqueue_response_def Let_def update_conv' split: option.splits)
next
  case (SectNext callis)
  with slot next_from_lanes_slots [of callis b "[BlobLaneAck, BlobLaneError, BlobLaneComplete]" k] show ?thesis
    by (simp add: next_response_def del: next_from_lanes.simps)
next
  case (SectDropStream stream_id)
  have "distinct (map fst (bo_write_slots b))" using inv by (simp add: responses_inv_def)
  with SectDropStream slot keep show ?thesis
    by (simp add: outbound_drop_stream_def Let_def map_of_filter_snd)
next
  case (SectRequeueCallis callis)
  with slot show ?thesis
    by (simp add: outbound_requeue_def Let_def map_of_requeue requeued_slot_def split: option.splits)
next
  case SectRequeueAll
  with slot show ?thesis
    by (simp add: outbound_requeue_def Let_def map_of_requeue requeued_slot_def split: option.splits)
qed (use slot keep in \<open>auto simp: outbound_mark_inflight_def outbound_rollback_def outbound_forget_def
  outbound_take_inflight_def outbound_add_stream_def Let_def map_of_set_write_state delete_conv'
  split: option.splits\<close>)

lemma section_removes_write:
  assumes inv: "responses_inv b" and slot: "map_of (bo_write_slots b) k = Some slot" and "removes_response sect k slot"
  shows "map_of (bo_write_slots (section_step b sect)) k = None"
proof -
  have "distinct (map fst (bo_write_slots b))" using inv by (simp add: responses_inv_def)
  then show ?thesis
    using assms by (cases sect) (auto simp: outbound_forget_def outbound_take_inflight_def outbound_drop_stream_def
        outbound_clear_def Let_def delete_conv' map_of_filter_snd)
qed

text \<open>
  An accepted response stays in the table, unchanged, until one of four things happens: its own write
  ends, its stream is dropped, all streams fail, or an acknowledgement or an error of the peer arrives
  that carries the number of the response.
\<close>

theorem response_leaves_only:
  assumes "outbound_reachable b" and "map_of (bo_write_slots b) k = Some slot"
  shows "map_option bw_write (map_of (bo_write_slots (section_step b sect)) k) =
           (if removes_response sect k slot then None else Some (bw_write slot))"
  using section_keeps_write [of b k slot sect] section_removes_write [of b k slot sect]
    reachable_responses_inv [OF assms(1)] assms(2) by simp

theorem response_leaves_only_witness:
  "map_option bw_write (map_of (bo_write_slots (section_step sample_outbound (SectTake 3))) 9) = Some (LeaseAck 9)"
  using response_leaves_only [OF sample_outbound_reached, where k = 9
      and slot = "\<lparr>bw_stream_id = None, bw_write = LeaseAck 9, bw_state = BwWriting 4\<rparr>" and sect = "SectTake 3"]
  by (simp add: sample_outbound_def del: section_step.simps)

text \<open>
  The last of these is a defect. A response carries the number of the peer's chunk, an acknowledgement
  that arrives the number of a message or chunk of this side, and both sides count from the same start
  (\<^verbatim>\<open>callis.rs\<close> hands every acknowledgement that arrives to the manager). An acknowledgement for a message of
  this side that has nothing to do with a blob discards the response to the peer's chunk of the same
  number before it is sent, and changes nothing else in the manager.
\<close>

theorem ack_discards_response:
  assumes reach: "outbound_reachable (bm_outbound m)"
    and queued: "waits (bo_write_slots (bm_outbound m)) k"
    and foreign: "map_of (bo_inflight (bm_outbound m)) k = None"
  shows "map_of (bo_write_slots (bm_outbound (blob_handle_ack m k))) k = None
    \<and> (\<forall>k'. k' \<noteq> k \<longrightarrow> map_of (bo_write_slots (bm_outbound (blob_handle_ack m k))) k'
                          = map_of (bo_write_slots (bm_outbound m)) k')
    \<and> bm_rings (blob_handle_ack m k) = bm_rings m
    \<and> bo_streams (bm_outbound (blob_handle_ack m k)) = bo_streams (bm_outbound m)"
proof -
  have "distinct (map fst (bo_write_slots (bm_outbound m)))"
    using reachable_responses_inv [OF reach] by (simp add: responses_inv_def)
  with foreign show ?thesis
    by (simp add: blob_handle_ack_def outbound_take_inflight_def Let_def delete_conv')
qed

definition sample_manager :: blob_manager where
  "sample_manager = (blob_manager_new \<lparr>bt_outbound_used = 0, bt_inbound_used = 0\<rparr> (allocator_new 0) 2)
     \<lparr>bm_outbound := sample_outbound\<rparr>"

theorem ack_discards_response_witness:
  "waits (bo_write_slots (bm_outbound sample_manager)) 7
   \<and> \<not> waits (bo_write_slots (bm_outbound (blob_handle_ack sample_manager 7))) 7"
proof -
  have state: "bm_outbound sample_manager = sample_outbound" by (simp add: sample_manager_def)
  have queued: "waits (bo_write_slots (bm_outbound sample_manager)) 7"
    and foreign: "map_of (bo_inflight (bm_outbound sample_manager)) 7 = None"
    by (simp_all add: state sample_outbound_def waits_def)
  from ack_discards_response [OF _ queued foreign] sample_outbound_reached state queued show ?thesis
    by (simp add: waits_def)
qed

end
