(* ===== verification/Blob_Inbound.thy ===== *)
theory Blob_Inbound
  imports Blob_Outbound Wire
begin

text \<open>
  The inbound half of the blob manager: requests that wait for a blob callis, receive streams with
  their idle deadlines, the handling of a chunk frame
  (\<^verbatim>\<open>src/crates/peering/src/transport/blob/mod.rs\<close>, \<^verbatim>\<open>receive.rs\<close>) and the application's end of a receive
  stream (\<^verbatim>\<open>io.rs\<close>). The time of a call is an argument. A result \<open>None\<close> of the chunk handler is a call
  that does not return, which the ring buffer's invariant excludes.
\<close>

section \<open>Requests and receive streams\<close>

definition add_pending_request :: "blob_manager \<Rightarrow> peer_message_id \<Rightarrow> taberna_id \<Rightarrow> nat \<Rightarrow> blob_manager" where
  "add_pending_request m stream_id taberna_id receiver =
     m\<lparr>bm_inbound := (bm_inbound m)\<lparr>bi_pending_requests :=
         AList.update stream_id \<lparr>pb_taberna_id = taberna_id, pb_receiver = receiver\<rparr> (bi_pending_requests (bm_inbound m))\<rparr>\<rparr>"

definition take_pending_request :: "blob_manager \<Rightarrow> peer_message_id \<Rightarrow> pending_blob_request option \<times> blob_manager" where
  "take_pending_request m stream_id =
     (map_of (bi_pending_requests (bm_inbound m)) stream_id,
      m\<lparr>bm_inbound := (bm_inbound m)\<lparr>bi_pending_requests := AList.delete stream_id (bi_pending_requests (bm_inbound m))\<rparr>\<rparr>)"

definition drop_pending_request :: "blob_manager \<Rightarrow> peer_message_id \<Rightarrow> blob_manager" where
  "drop_pending_request m stream_id =
     (case take_pending_request m stream_id of
        (Some _, m) \<Rightarrow> release_inbound m stream_id
      | (None, m) \<Rightarrow> m)"

definition recv_stream_exists :: "blob_manager \<Rightarrow> peer_message_id \<Rightarrow> bool" where
  "recv_stream_exists m stream_id \<longleftrightarrow> map_of (bi_recv_streams (bm_inbound m)) stream_id \<noteq> None"

definition insert_recv_stream ::
  "blob_manager \<Rightarrow> peer_message_id \<Rightarrow> taberna_id \<Rightarrow> nat \<Rightarrow> nat \<Rightarrow> instant \<Rightarrow> blob_manager" where
  "insert_recv_stream m stream_id taberna_id receiver ring now =
     (let deadline = now + br_idle_timeout (bm_receivers m ! receiver)
      in m\<lparr>bm_inbound := (bm_inbound m)\<lparr>bi_recv_streams :=
             AList.update stream_id \<lparr>rs_taberna_id = taberna_id, rs_receiver = receiver, rs_ring = ring, rs_deadline = deadline\<rparr>
               (bi_recv_streams (bm_inbound m))\<rparr>\<rparr>)"

definition activate_pending_request ::
  "blob_manager \<Rightarrow> peer_message_id \<Rightarrow> blob_callis_settings \<Rightarrow> instant \<Rightarrow> unit result \<times> blob_manager" where
  "activate_pending_request m stream_id settings now =
     (if recv_stream_exists m stream_id then (Inr (), m)
      else case take_pending_request m stream_id of
             (None, m) \<Rightarrow> (Inl (err_new BlobStreamNotFound), m)
           | (Some request, m) \<Rightarrow>
               (case inbound_new (unat (bs_chunk_size settings)) (unat (bs_ack_window_chunks settings)) of
                  Inl e \<Rightarrow> (Inl e, m)
                | Inr ring \<Rightarrow>
                    let h = length (bm_recv_rings m);
                        m = m\<lparr>bm_recv_rings := bm_recv_rings m @ [ring]\<rparr>
                    in (Inr (), insert_recv_stream m stream_id (pb_taberna_id request) (pb_receiver request) h now)))"

definition recv_ring :: "blob_manager \<Rightarrow> peer_message_id \<Rightarrow> nat option" where
  "recv_ring m stream_id = map_option rs_ring (map_of (bi_recv_streams (bm_inbound m)) stream_id)"

text \<open>The section of \<open>recv_streams.remove\<close>, without the release of the reservation.\<close>

definition drop_recv_stream :: "blob_manager \<Rightarrow> peer_message_id \<Rightarrow> blob_manager" where
  "drop_recv_stream m stream_id =
     m\<lparr>bm_inbound := (bm_inbound m)\<lparr>bi_recv_streams := AList.delete stream_id (bi_recv_streams (bm_inbound m))\<rparr>\<rparr>"

definition recv_chunk_state ::
  "blob_manager \<Rightarrow> peer_message_id \<Rightarrow> duration \<Rightarrow> instant \<Rightarrow> blob_recv_chunk_state \<times> blob_manager" where
  "recv_chunk_state m stream_id idle_timeout now =
     (case map_of (bi_recv_streams (bm_inbound m)) stream_id of
        None \<Rightarrow>
          (case map_of (bi_completed_recv_streams (bm_inbound m)) stream_id of
             Some ts \<Rightarrow>
               if now - ts \<le> idle_timeout then (ChunkRecentlyCompleted, m)
               else (ChunkMissing, m\<lparr>bm_inbound := (bm_inbound m)\<lparr>bi_completed_recv_streams :=
                       AList.delete stream_id (bi_completed_recv_streams (bm_inbound m))\<rparr>\<rparr>)
           | None \<Rightarrow> (ChunkMissing, m))
      | Some st \<Rightarrow>
          if now \<ge> rs_deadline st
          then (ChunkIdleTimedOut (rs_taberna_id st) (rs_receiver st),
                release_inbound (drop_recv_stream m stream_id) stream_id)
          else (ChunkActive (rs_taberna_id st) (rs_receiver st) (rs_ring st), m))"

definition refresh_recv_deadline :: "blob_manager \<Rightarrow> peer_message_id \<Rightarrow> duration \<Rightarrow> instant \<Rightarrow> blob_manager" where
  "refresh_recv_deadline m stream_id idle_timeout now =
     (case map_of (bi_recv_streams (bm_inbound m)) stream_id of
        Some st \<Rightarrow>
          m\<lparr>bm_inbound := (bm_inbound m)\<lparr>bi_recv_streams :=
              AList.update stream_id (st\<lparr>rs_deadline := now + idle_timeout\<rparr>) (bi_recv_streams (bm_inbound m))\<rparr>\<rparr>
      | None \<Rightarrow> m)"

definition remove_recv_stream :: "blob_manager \<Rightarrow> peer_message_id \<Rightarrow> blob_recv_stream option \<times> blob_manager" where
  "remove_recv_stream m stream_id =
     (map_of (bi_recv_streams (bm_inbound m)) stream_id, release_inbound (drop_recv_stream m stream_id) stream_id)"

definition fail_inbound_stream :: "blob_manager \<Rightarrow> peer_message_id \<Rightarrow> aurelia_error \<Rightarrow> bool \<times> blob_manager" where
  "fail_inbound_stream m stream_id error =
     (case take_pending_request m stream_id of
        (Some request, m) \<Rightarrow>
          (True, release_inbound (on_receiver m (pb_receiver request) (\<lambda>r. receiver_fail r error)) stream_id)
      | (None, m) \<Rightarrow>
          (case remove_recv_stream m stream_id of
             (Some stream, m) \<Rightarrow> (True, on_receiver m (rs_receiver stream) (\<lambda>r. receiver_fail r error))
           | (None, m) \<Rightarrow> (False, m)))"

definition note_recv_complete :: "blob_manager \<Rightarrow> peer_message_id \<Rightarrow> duration \<Rightarrow> instant \<Rightarrow> blob_manager" where
  "note_recv_complete m stream_id ttl now =
     m\<lparr>bm_inbound := (bm_inbound m)\<lparr>bi_completed_recv_streams :=
         AList.update stream_id now
           (filter (\<lambda>(_, ts). now - ts \<le> ttl) (bi_completed_recv_streams (bm_inbound m)))\<rparr>\<rparr>"

section \<open>The idle reaper\<close>

definition earliest_recv_deadline :: "blob_manager \<Rightarrow> instant option" where
  "earliest_recv_deadline m =
     (case map (rs_deadline \<circ> snd) (bi_recv_streams (bm_inbound m)) of
        [] \<Rightarrow> None
      | d # ds \<Rightarrow> Some (foldl min d ds))"

definition expire_recv_streams :: "blob_manager \<Rightarrow> instant \<Rightarrow> (peer_message_id \<times> nat) list \<times> blob_manager" where
  "expire_recv_streams m now =
     (let due = filter (\<lambda>(_, st). rs_deadline st \<le> now) (bi_recv_streams (bm_inbound m));
          expired = map (\<lambda>(stream_id, st). (stream_id, rs_receiver st)) due;
          m = m\<lparr>bm_inbound := (bm_inbound m)\<lparr>bi_recv_streams :=
                  filter (\<lambda>(_, st). \<not> rs_deadline st \<le> now) (bi_recv_streams (bm_inbound m))\<rparr>\<rparr>
      in (expired, foldl release_inbound m (map fst expired)))"

text \<open>The payload of an error frame.\<close>

definition error_frame_payload :: "aurelia_error \<Rightarrow> u8 list" where
  "error_frame_payload err = error_payload_to_bytes (error_payload_new (error_as_u32 (err_kind err)) (error_to_string err))"

definition reap_stream :: "blob_manager \<Rightarrow> peer_message_id \<times> nat \<Rightarrow> blob_manager" where
  "reap_stream m entry =
     (let err = err_new BlobStreamIdleTimeout;
          m = on_receiver m (snd entry) (\<lambda>r. receiver_fail r err)
      in snd (enqueue_blob_write m (LeaseError (fst entry) (error_frame_payload err))))"

text \<open>One turn of the loop of \<open>run_inbound_idle_reaper\<close> that finds the time \<open>now\<close>.\<close>

definition inbound_reaper_turn :: "blob_manager \<Rightarrow> instant \<Rightarrow> blob_manager" where
  "inbound_reaper_turn m now =
     (case earliest_recv_deadline m of
        None \<Rightarrow> m
      | Some deadline \<Rightarrow>
          if deadline \<le> now
          then let (expired, m) = expire_recv_streams m now in foldl reap_stream m expired
          else m)"

section \<open>A chunk arrives\<close>

datatype blob_chunk_outcome = ChunkContinue | ChunkComplete peer_message_id

text \<open>The branch of an active stream: the ring buffer takes the chunk or refuses it.\<close>

definition receive_into_ring ::
  "blob_manager \<Rightarrow> blob_chunk_payload \<Rightarrow> nat \<Rightarrow> nat \<Rightarrow> duration \<Rightarrow> instant \<Rightarrow> (bool result \<times> blob_manager) option" where
  "receive_into_ring m chunk receiver ring idle_timeout now =
     (let stream_id = bc_request_msg_id chunk
      in case insert_chunk (bm_recv_rings m ! ring) (unat (bc_chunk_id chunk)) (bc_chunk chunk)
                (bc_flags chunk AND BlobChunkFlags_LAST_CHUNK = BlobChunkFlags_LAST_CHUNK) of
           None \<Rightarrow> None
         | Some (r, ring') \<Rightarrow>
             let m = m\<lparr>bm_recv_rings := (bm_recv_rings m)[ring := ring']\<rparr>
             in Some (case r of
                  Inr Duplicate \<Rightarrow> (Inr False, refresh_recv_deadline m stream_id idle_timeout now)
                | Inr (Stored complete _) \<Rightarrow>
                    let m = refresh_recv_deadline m stream_id idle_timeout now
                    in (Inr complete,
                        if complete then on_receiver m receiver (\<lambda>r. r\<lparr>br_completed := True\<rparr>) else m)
                | Inl err \<Rightarrow> (Inl err, m)))"

text \<open>\<open>if !blob.fail_inbound_stream(..) { receiver.fail(..) }\<close>\<close>

definition fail_chunk_stream :: "blob_manager \<Rightarrow> peer_message_id \<Rightarrow> nat \<Rightarrow> aurelia_error \<Rightarrow> blob_manager" where
  "fail_chunk_stream m stream_id receiver err =
     (case fail_inbound_stream m stream_id err of
        (True, m) \<Rightarrow> m
      | (False, m) \<Rightarrow> on_receiver m receiver (\<lambda>r. receiver_fail r err))"

definition handle_blob_transfer_chunk ::
  "blob_manager \<Rightarrow> u8 list \<Rightarrow> duration \<Rightarrow> u32 \<Rightarrow> u32 \<Rightarrow> instant \<Rightarrow> (blob_chunk_outcome result \<times> blob_manager) option" where
  "handle_blob_transfer_chunk m payload idle_timeout ack_window chunk_size now =
     (case blob_chunk_from_bytes payload of
        Inl e \<Rightarrow> Some (Inl e, m)
      | Inr chunk \<Rightarrow>
          let stream_id = bc_request_msg_id chunk
          in if ack_window = 0 \<or> chunk_size = 0 then Some (Inl (err_new ProtocolViolation), m)
             else if length (bc_chunk chunk) > unat chunk_size
             then let err = err_new ProtocolViolation
                  in Some (Inl err, snd (fail_inbound_stream m stream_id err))
             else case recv_chunk_state m stream_id idle_timeout now of
               (ChunkMissing, m) \<Rightarrow> Some (Inl (err_new BlobStreamNotFound), m)
             | (ChunkRecentlyCompleted, m) \<Rightarrow> Some (Inr ChunkContinue, m)
             | (ChunkIdleTimedOut _ receiver, m) \<Rightarrow>
                 let err = err_new BlobStreamIdleTimeout
                 in Some (Inl err, fail_chunk_stream m stream_id receiver err)
             | (ChunkActive _ receiver ring, m) \<Rightarrow>
                 (case receive_into_ring m chunk receiver ring idle_timeout now of
                    None \<Rightarrow> None
                  | Some (Inl err, m) \<Rightarrow> Some (Inl err, fail_chunk_stream m stream_id receiver err)
                  | Some (Inr complete, m) \<Rightarrow>
                      Some (Inr (if complete then ChunkComplete stream_id else ChunkContinue), m)))"

section \<open>The application's end of a receive stream\<close>

datatype blob_read_outcome = ReadChunk "u8 list" | ReadEof | ReadError aurelia_error

definition try_receiver_read ::
  "blob_manager \<Rightarrow> nat \<Rightarrow> peer_message_id \<Rightarrow> instant \<Rightarrow> blob_read_outcome option \<times> blob_manager" where
  "try_receiver_read m receiver stream_id now =
     (case br_error (bm_receivers m ! receiver) of
        Some err \<Rightarrow> (Some (ReadError err), m)
      | None \<Rightarrow>
          (case recv_ring m stream_id of
             Some h \<Rightarrow>
               (case take_next (bm_recv_rings m ! h) of
                  (Some chunk, ring) \<Rightarrow> (Some (ReadChunk chunk), m\<lparr>bm_recv_rings := (bm_recv_rings m)[h := ring]\<rparr>)
                | (None, ring) \<Rightarrow>
                    if br_completed (bm_receivers m ! receiver) \<and> inbound_is_complete ring
                    then (Some ReadEof,
                          note_recv_complete (snd (remove_recv_stream m stream_id)) stream_id
                            (br_completion_ttl (bm_receivers m ! receiver)) now)
                    else (None, m))
           | None \<Rightarrow>
               (case br_error (bm_receivers m ! receiver) of
                  Some err \<Rightarrow> (Some (ReadError err), m)
                | None \<Rightarrow> if br_completed (bm_receivers m ! receiver) then (Some ReadEof, m) else (None, m))))"

definition fail_receiver_idle :: "blob_manager \<Rightarrow> nat \<Rightarrow> peer_message_id \<Rightarrow> blob_read_outcome \<times> blob_manager" where
  "fail_receiver_idle m receiver stream_id =
     (let err = err_new BlobStreamIdleTimeout;
          m = on_receiver m receiver (\<lambda>r. receiver_fail r err)
      in (ReadError err, snd (remove_recv_stream m stream_id)))"

text \<open>\<open>Drop for BlobReceiverStream\<close>: the task that the drop spawns, taken to run at once.\<close>

definition receiver_stream_drop :: "blob_manager \<Rightarrow> nat \<Rightarrow> peer_message_id \<Rightarrow> blob_manager" where
  "receiver_stream_drop m receiver stream_id =
     (if br_completed (bm_receivers m ! receiver) then m
      else let m = snd (remove_recv_stream m stream_id);
               m = drop_pending_request m stream_id
           in on_receiver m receiver (\<lambda>r. receiver_fail r (err_new PeerUnavailable)))"

text \<open>
  \<open>poll_read\<close> with a chunk at hand: what is copied into the caller's buffer of \<open>room\<close> free bytes, and the
  chunk and offset that are kept.
\<close>

definition copy_current :: "u8 list \<Rightarrow> nat \<Rightarrow> nat \<Rightarrow> u8 list \<times> (u8 list option \<times> nat)" where
  "copy_current chunk offset room =
     (let finish = min (offset + room) (length chunk);
          len = finish - offset;
          offset' = sat_add offset len
      in (take len (drop offset chunk), if offset' \<ge> length chunk then (None, 0) else (Some chunk, offset')))"

end
