(* ===== verification/Blob_Dispatch.thy ===== *)
theory Blob_Dispatch
  imports Blob_Outbound
begin

text \<open>
  The order in which the blob manager serves its streams (\<open>order_streams_from_cursor\<close>,
  \<open>next_stream_after\<close>, \<open>next_chunk_frame\<close> of \<^verbatim>\<open>src/crates/peering/src/transport/blob/mod.rs\<close>): a stream
  that has been served becomes the last of the order, so that every stream with work is served within
  as many calls as there are streams.
\<close>

section \<open>The order from a cursor\<close>

text \<open>The order is the sorted table cut in two parts that are swapped.\<close>

lemma order_streams_cut:
  obtains lo hi where "sort_key fst streams = lo @ hi" "order_streams_from_cursor streams cursor = hi @ lo"
proof -
  obtain n where "order_streams_from_cursor streams cursor = rotate n (sort_key fst streams)"
    by (cases cursor) (auto simp: order_streams_from_cursor_def Let_def intro: that [of 0] that)
  then show thesis
    using that [of "take (n mod length streams) (sort_key fst streams)" "drop (n mod length streams) (sort_key fst streams)"]
    by (simp add: rotate_drop_take)
qed

lemma order_streams_set: "set (order_streams_from_cursor streams cursor) = set streams"
  and order_streams_length: "length (order_streams_from_cursor streams cursor) = length streams"
proof -
  obtain lo hi where fb: "sort_key fst streams = lo @ hi" "order_streams_from_cursor streams cursor = hi @ lo"
    by (rule order_streams_cut)
  have "set (lo @ hi) = set streams" "length (lo @ hi) = length streams" unfolding fb(1) [symmetric] by simp_all
  with fb(2) show "set (order_streams_from_cursor streams cursor) = set streams"
    "length (order_streams_from_cursor streams cursor) = length streams" by auto
qed

text \<open>After \<open>t\<close> the order starts behind \<open>t\<close> and ends with it.\<close>

lemma order_after:
  assumes keys: "distinct (map fst streams)" and split: "sort_key fst streams = before @ t # after"
  shows "order_streams_from_cursor streams (next_stream_after streams (fst t)) = after @ before @ [t]"
proof -
  have ids: "sort (map fst streams) = map fst (sort_key fst streams)"
    by (rule sorted_distinct_set_unique [symmetric]) (use keys in \<open>auto simp: distinct_map\<close>)
  have "distinct (map fst (sort_key fst streams))"
    using keys ids by (metis distinct_sort)
  then have dist: "distinct (map fst (before @ t # after))" by (simp add: split)
  have "sorted (map fst (before @ t # after))" by (simp add: split [symmetric])
  with dist have less: "\<forall>x \<in> set before. fst x < fst t" "\<forall>x \<in> set after. fst t < fst x"
    and less_after: "\<forall>x \<in> set before. \<forall>y \<in> set after. fst x < fst y"
    by (auto simp: sorted_append order.strict_iff_order image_iff)
  have find_before: "find (\<lambda>c. c > fst t) (map fst before @ xs) = find (\<lambda>c. c > fst t) xs" for xs
    using less(1) by (induction before) auto
  show ?thesis
  proof (cases after)
    case Nil
    then have "find (\<lambda>c. c > fst t) (map fst (sort_key fst streams)) = None"
      using find_before [of "[fst t]"] by (simp add: split)
    moreover have "map fst (sort_key fst streams) \<noteq> []" by (simp add: split)
    ultimately have nxt: "next_stream_after streams (fst t) = Some (fst (hd (before @ [t])))"
      using Nil by (simp add: next_stream_after_def ids split Let_def hd_map hd_append)
    have "takeWhile (\<lambda>x. \<not> fst (hd (before @ [t])) \<le> fst x) (before @ [t]) = []"
      by (cases before) auto
    with Nil nxt split show ?thesis
      by (simp add: order_streams_from_cursor_def position_def Let_def case_prod_beta)
  next
    case (Cons a rest)
    then have "find (\<lambda>c. c > fst t) (map fst (sort_key fst streams)) = Some (fst a)"
      using find_before [of "fst t # map fst after"] less(2) by (simp add: split)
    moreover have "map fst (sort_key fst streams) \<noteq> []" by (simp add: split)
    ultimately have nxt: "next_stream_after streams (fst t) = Some (fst a)"
      by (simp add: next_stream_after_def ids Let_def)
    have "takeWhile (\<lambda>x. \<not> fst a \<le> fst x) ((before @ [t]) @ after) = before @ [t]"
      using less less_after Cons by (subst takeWhile_append2) (auto simp: not_le)
    then have pos: "position (\<lambda>(stream_id, _). stream_id \<ge> fst a) (sort_key fst streams) = Some (length (before @ [t]))"
      using Cons by (simp add: position_def split Let_def case_prod_beta)
    have "rotate (length (before @ [t])) ((before @ [t]) @ after) = after @ before @ [t]"
      by (subst rotate_append) simp
    with nxt pos show ?thesis by (simp add: order_streams_from_cursor_def split)
  qed
qed

text \<open>So serving \<open>t\<close> moves it, and only it, behind all the streams that were after it.\<close>

lemma order_rotates:
  assumes keys: "distinct (map fst streams)" and order: "order_streams_from_cursor streams cursor = xs @ t # ys"
  shows "order_streams_from_cursor streams (next_stream_after streams (fst t)) = ys @ xs @ [t]"
proof -
  obtain lo hi where fb: "sort_key fst streams = lo @ hi" "order_streams_from_cursor streams cursor = hi @ lo"
    by (rule order_streams_cut)
  from order fb(2) have "hi @ lo = xs @ t # ys" by simp
  then consider us where "hi = xs @ t # us" "ys = us @ lo" | us where "lo = us @ t # ys" "xs = hi @ us"
    by (auto simp: append_eq_append_conv2 append_eq_Cons_conv Cons_eq_append_conv)
  then show ?thesis
  proof cases
    case 1
    with fb(1) have "sort_key fst streams = (lo @ xs) @ t # us" by simp
    from order_after [OF keys this] 1 show ?thesis by simp
  next
    case 2
    with fb(1) have "sort_key fst streams = us @ t # (ys @ hi)" by simp
    from order_after [OF keys this] 2 show ?thesis by simp
  qed
qed

section \<open>Whose turn it is\<close>

definition ring_ready :: "bool \<Rightarrow> outbound_state \<Rightarrow> bool" where
  "ring_ready replay ring = (if replay then ring_has_dispatchable_replay ring else ring_has_dispatchable_fresh ring)"

lemma has_ready_leasable:
  "has_replay_ready c \<longleftrightarrow> (\<exists>s \<in> set (oc_slots c). leasable True s)"
  "has_fresh_ready c \<longleftrightarrow> (\<exists>s \<in> set (oc_slots c). leasable False s)"
proof -
  have "(case s of SlotReplayReady _ _ _ _ _ \<Rightarrow> True | _ \<Rightarrow> False) = leasable True s"
    "(case s of SlotReady _ _ _ _ \<Rightarrow> True | _ \<Rightarrow> False) = leasable False s" for s
    by (cases s; simp)+
  then show "has_replay_ready c \<longleftrightarrow> (\<exists>s \<in> set (oc_slots c). leasable True s)"
    "has_fresh_ready c \<longleftrightarrow> (\<exists>s \<in> set (oc_slots c). leasable False s)"
    by (simp_all add: has_replay_ready_def has_fresh_ready_def list_ex_iff)
qed

lemma ring_ready_leasable:
  "ring_ready replay ring \<longleftrightarrow>
     lc_can_drain_chunks (os_lifecycle ring) \<and> (\<exists>s \<in> set (oc_slots (os_chunks ring)). leasable replay s)"
  by (cases replay)
    (simp_all add: ring_ready_def ring_has_dispatchable_replay_def ring_has_dispatchable_fresh_def has_ready_leasable)

lemma ready_leases:
  assumes "ring_ready replay ring"
  shows "\<exists>lease ring'. ring_lease_next ring callis pmid = (Some lease, ring')"
proof -
  from assms lease_next_cases [of "os_chunks ring" callis pmid]
  obtain lease c' where "chunks_lease_next (os_chunks ring) callis pmid = (Some lease, c')"
    by (cases replay) (auto simp: ring_ready_leasable)
  with assms show ?thesis by (simp add: ring_lease_next_def ring_ready_leasable)
qed

lemma on_ring_sel [simp]:
  "bm_outbound (on_ring m h f) = bm_outbound m" "bm_callis (on_ring m h f) = bm_callis m"
  "bm_inbound (on_ring m h f) = bm_inbound m" "bm_reservations (on_ring m h f) = bm_reservations m"
  "bm_buffer_tracker (on_ring m h f) = bm_buffer_tracker m" "bm_allocator (on_ring m h f) = bm_allocator m"
  "bm_recv_rings (on_ring m h f) = bm_recv_rings m" "bm_receivers (on_ring m h f) = bm_receivers m"
  "bm_rings (on_ring m h f) = (bm_rings m)[h := f (bm_rings m ! h)]"
  by (simp_all add: on_ring_def)

text \<open>A scan leases from the first stream of the list that has work, and from no other.\<close>

lemma scan_none:
  "\<forall>(s, h) \<in> set streams. \<not> ring_ready replay (bm_rings m ! h) \<Longrightarrow>
     next_chunk_frame_from_streams m callis streams replay = (None, m)"
  by (induction streams) (auto simp: ring_ready_def Let_def)

lemma scan_first:
  assumes "\<forall>(s, h) \<in> set xs. \<not> ring_ready replay (bm_rings m ! h)" and "ring_ready replay (bm_rings m ! h)"
  shows "\<exists>lease ring. ring_lease_next (bm_rings m ! h) callis (al_next (bm_allocator m)) = (Some lease, ring)
    \<and> next_chunk_frame_from_streams m callis (xs @ (s, h) # ys) replay =
        (Some (LeaseChunk s (al_next (bm_allocator m)) lease), on_ring (snd (next_peer_msg_id m)) h (\<lambda>_. ring))"
proof -
  obtain lease ring where lease: "ring_lease_next (bm_rings m ! h) callis (al_next (bm_allocator m)) = (Some lease, ring)"
    using ready_leases [OF assms(2)] by blast
  from assms(1) have "next_chunk_frame_from_streams m callis (xs @ (s, h) # ys) replay
      = next_chunk_frame_from_streams m callis ((s, h) # ys) replay"
    by (induction xs) (auto simp: ring_ready_def Let_def)
  with assms(2) lease show ?thesis
    by (simp add: ring_ready_def next_peer_msg_id_def allocator_next_def Let_def)
qed

definition next_turn :: "blob_manager \<Rightarrow> (peer_message_id \<times> nat) option" where
  "next_turn m =
     (let order = order_streams_from_cursor (bo_streams (bm_outbound m)) (bo_cursor (bm_outbound m));
          first = (\<lambda>replay. find (\<lambda>(_, h). ring_ready replay (bm_rings m ! h)) order)
      in case first True of Some x \<Rightarrow> Some x | None \<Rightarrow> first False)"

lemma scan_find:
  assumes "find (\<lambda>(_, h). ring_ready replay (bm_rings m ! h)) streams = Some (s, h)"
  shows "\<exists>pmid lease m'. next_chunk_frame_from_streams m callis streams replay = (Some (LeaseChunk s pmid lease), m')
    \<and> bm_outbound m' = bm_outbound m"
proof -
  obtain xs ys where "streams = xs @ (s, h) # ys" "\<forall>(s, h) \<in> set xs. \<not> ring_ready replay (bm_rings m ! h)"
    "ring_ready replay (bm_rings m ! h)"
    using assms by (auto elim!: find_SomeE simp: case_prod_beta)
  with scan_first [of xs replay m h callis s ys] show ?thesis
    by (auto simp: next_peer_msg_id_def allocator_next_def)
qed

lemma scan_find_none:
  "find (\<lambda>(_, h). ring_ready replay (bm_rings m ! h)) streams = None \<Longrightarrow>
     next_chunk_frame_from_streams m callis streams replay = (None, m)"
  by (rule scan_none) (auto simp: find_None_iff)

lemma next_chunk_frame_turn:
  "case next_turn m of
     None \<Rightarrow> next_chunk_frame m callis = (None, m)
   | Some (s, h) \<Rightarrow>
       \<exists>pmid lease m'. next_chunk_frame m callis = (Some (LeaseChunk s pmid lease), m')
         \<and> bm_outbound m' = (bm_outbound m)\<lparr>bo_cursor := next_stream_after (bo_streams (bm_outbound m)) s\<rparr>"
proof -
  let ?order = "order_streams_from_cursor (bo_streams (bm_outbound m)) (bo_cursor (bm_outbound m))"
  let ?first = "\<lambda>replay. find (\<lambda>(_, h). ring_ready replay (bm_rings m ! h)) ?order"
  show ?thesis
  proof (cases "?first True")
    case (Some x)
    obtain s h where x: "x = (s, h)" by (cases x)
    have "?order \<noteq> []" using Some by auto
    with Some x scan_find [of True m ?order s h callis] show ?thesis
      by (fastforce simp: next_turn_def next_chunk_frame_def advance_past_def advance_round_robin_cursor_def Let_def)
  next
    case None
    note replay = None
    note scan = scan_find_none [OF None, where callis = callis]
    show ?thesis
    proof (cases "?first False")
      case None
      with replay scan scan_find_none [OF None, where callis = callis] show ?thesis
        by (simp add: next_turn_def next_chunk_frame_def Let_def)
    next
      case (Some x)
      obtain s h where x: "x = (s, h)" by (cases x)
      have "?order \<noteq> []" using Some by auto
      with replay Some x scan scan_find [of False m ?order s h callis] show ?thesis
        by (fastforce simp: next_turn_def next_chunk_frame_def advance_past_def advance_round_robin_cursor_def Let_def)
    qed
  qed
qed

section \<open>Fairness\<close>

text \<open>
  A sequence of calls of \<open>next_chunk_frame\<close>. Between the calls the ring buffers change in any way (the
  applications write, chunks are acknowledged or requeued); each call is given the callis that asks and
  the ring buffers it finds.
\<close>

fun serve_calls :: "blob_manager \<Rightarrow> (nat \<times> outbound_state list) list \<Rightarrow> blob_write_lease option list" where
  "serve_calls m [] = []"
| "serve_calls m ((callis, rings) # calls) =
     (let (write, m') = next_chunk_frame (m\<lparr>bm_rings := rings\<rparr>) callis in write # serve_calls m' calls)"

text \<open>
  The stream whose ring is \<open>h\<close> is due: it has a chunk to repeat, or it has a new chunk and no stream has
  one to repeat.
\<close>

definition due :: "blob_outbound_state \<Rightarrow> nat \<Rightarrow> outbound_state list \<Rightarrow> bool" where
  "due b h rings \<longleftrightarrow>
     ring_ready True (rings ! h)
     \<or> ring_ready False (rings ! h) \<and> (\<forall>(_, h') \<in> set (bo_streams b). \<not> ring_ready True (rings ! h'))"

lemma due_cursor [simp]: "due (b\<lparr>bo_cursor := c\<rparr>) h rings = due b h rings"
  by (simp add: due_def)

lemma due_turn:
  assumes order: "order_streams_from_cursor (bo_streams (bm_outbound m)) (bo_cursor (bm_outbound m)) = xs @ (s, h) # ys"
    and due: "due (bm_outbound m) h (bm_rings m)"
  obtains t us vs where "next_turn m = Some t" "xs @ [(s, h)] = us @ t # vs"
proof -
  let ?P = "\<lambda>replay (_, h). ring_ready replay (bm_rings m ! h)"
  have found: "\<exists>t us vs. find (?P replay) (xs @ (s, h) # ys) = Some t \<and> xs @ [(s, h)] = us @ t # vs"
    if "ring_ready replay (bm_rings m ! h)" for replay
  proof (cases "find (?P replay) xs")
    case None
    with that show ?thesis by (auto simp: find_append)
  next
    case (Some t)
    then obtain us vs where "xs = us @ t # vs" by (elim find_SomeE)
    then have "xs @ [(s, h)] = us @ t # vs @ [(s, h)]" by simp
    moreover have "find (?P replay) (xs @ (s, h) # ys) = Some t" using Some by (simp add: find_append)
    ultimately show ?thesis by blast
  qed
  from due show thesis
    unfolding due_def
  proof (elim disjE conjE)
    assume "ring_ready True (bm_rings m ! h)"
    from found [OF this] order show thesis by (auto simp: next_turn_def Let_def intro: that)
  next
    assume ready: "ring_ready False (bm_rings m ! h)"
      and none: "\<forall>(_, h') \<in> set (bo_streams (bm_outbound m)). \<not> ring_ready True (bm_rings m ! h')"
    have "set (xs @ (s, h) # ys) = set (bo_streams (bm_outbound m))"
      using order_streams_set order by metis
    with none have "find (?P True) (xs @ (s, h) # ys) = None" by (auto simp: find_None_iff)
    with found [OF ready] order show thesis by (auto simp: next_turn_def Let_def intro: that)
  qed
qed

lemma served_by_position:
  assumes "distinct (map fst (bo_streams (bm_outbound m)))"
    and "order_streams_from_cursor (bo_streams (bm_outbound m)) (bo_cursor (bm_outbound m)) = xs @ (s, h) # ys"
    and "length xs < length calls" and "\<forall>(_, rings) \<in> set calls. due (bm_outbound m) h rings"
  shows "\<exists>pmid lease. Some (LeaseChunk s pmid lease) \<in> set (serve_calls m calls)"
  using assms
proof (induction calls arbitrary: m xs ys)
  case (Cons call calls)
  obtain callis rings where call: "call = (callis, rings)" by (cases call)
  let ?m = "m\<lparr>bm_rings := rings\<rparr>"
  have order: "order_streams_from_cursor (bo_streams (bm_outbound ?m)) (bo_cursor (bm_outbound ?m)) = xs @ (s, h) # ys"
    using Cons.prems(2) by simp
  obtain t us vs where turn: "next_turn ?m = Some t" and pos: "xs @ [(s, h)] = us @ t # vs"
  proof (rule due_turn [OF order])
    show "due (bm_outbound ?m) h (bm_rings ?m)" using Cons.prems(4) call by simp
  qed
  obtain s' h' where t: "t = (s', h')" by (cases t)
  obtain pmid lease m' where chosen: "next_chunk_frame ?m callis = (Some (LeaseChunk s' pmid lease), m')"
    and out: "bm_outbound m' = (bm_outbound m)\<lparr>bo_cursor := next_stream_after (bo_streams (bm_outbound m)) s'\<rparr>"
    using next_chunk_frame_turn [of ?m callis] turn t by auto
  show ?case
  proof (cases vs rule: rev_cases)
    case Nil
    with pos t have "s' = s" by simp
    with call chosen show ?thesis by auto
  next
    case (snoc ws w)
    with pos have xs: "xs = us @ t # ws" and w: "w = (s, h)" by simp_all
    have "order_streams_from_cursor (bo_streams (bm_outbound m)) (bo_cursor (bm_outbound m)) = us @ t # ws @ (s, h) # ys"
      using Cons.prems(2) xs by simp
    from order_rotates [OF Cons.prems(1) this] t out
    have order': "order_streams_from_cursor (bo_streams (bm_outbound m')) (bo_cursor (bm_outbound m')) = ws @ (s, h) # ys @ us @ [t]"
      by simp
    have "\<exists>pmid lease. Some (LeaseChunk s pmid lease) \<in> set (serve_calls m' calls)"
      by (rule Cons.IH [OF _ order']) (use Cons.prems out xs call in auto)
    with call chosen show ?thesis by auto
  qed
qed simp

text \<open>
  Round robin is fair: a stream that is due at every call is served within as many calls as there are
  streams, whichever calles ask and whatever happens to the ring buffers in between.
\<close>

theorem stream_served_in_turn:
  assumes keys: "distinct (map fst (bo_streams (bm_outbound m)))"
    and stream: "(s, h) \<in> set (bo_streams (bm_outbound m))"
    and calls: "length calls = length (bo_streams (bm_outbound m))"
    and due: "\<forall>(_, rings) \<in> set calls. due (bm_outbound m) h rings"
  shows "\<exists>pmid lease. Some (LeaseChunk s pmid lease) \<in> set (serve_calls m calls)"
proof -
  obtain xs ys where order: "order_streams_from_cursor (bo_streams (bm_outbound m)) (bo_cursor (bm_outbound m)) = xs @ (s, h) # ys"
    using stream order_streams_set split_list by metis
  have "length xs < length calls"
    using order_streams_length [of "bo_streams (bm_outbound m)" "bo_cursor (bm_outbound m)"] calls by (simp add: order)
  from served_by_position [OF keys order this due] show ?thesis .
qed

definition sample_ring :: outbound_state where
  "sample_ring = \<lparr>os_lifecycle = LcOpen, os_chunks = (chunks_new 2 2)\<lparr>oc_slots := [SlotReady 0 [1, 2] False 0, SlotEmpty]\<rparr>\<rparr>"

text \<open>Two streams, 5 and 8, with a chunk each; the cursor is at 5.\<close>

definition two_streams :: blob_manager where
  "two_streams = (blob_manager_new \<lparr>bt_outbound_used = 0, bt_inbound_used = 0\<rparr> (allocator_new 40) 2)
     \<lparr>bm_outbound := (blob_outbound_new 2)\<lparr>bo_streams := [(8, 1), (5, 0)], bo_cursor := Some 5\<rparr>\<rparr>"

lemma sample_ring_ready: "ring_ready False sample_ring" "\<not> ring_ready True sample_ring"
  by (simp_all add: ring_ready_leasable sample_ring_def lc_can_drain_chunks_def)

theorem stream_served_in_turn_witness:
  "\<exists>pmid lease. Some (LeaseChunk 8 pmid lease)
     \<in> set (serve_calls two_streams [(1, [sample_ring, sample_ring]), (2, [sample_ring, sample_ring])])"
  by (rule stream_served_in_turn [where h = 1]) (simp_all add: two_streams_def due_def sample_ring_ready)

end
