(* ===== verification/Blob_Receive.thy ===== *)
theory Blob_Receive
  imports Blob_Inbound Blob_Dispatch
begin

text \<open>
  What the inbound half of the blob manager guarantees: a chunk frame is always answered, a refused
  chunk closes its stream and tells the application why, each receive stream behaves as the ring buffer
  behind it, and the idle reaper removes exactly the streams that are due.
\<close>

section \<open>What the operations leave alone\<close>

lemma release_inbound_sel [simp]:
  "bm_outbound (release_inbound m s) = bm_outbound m" "bm_inbound (release_inbound m s) = bm_inbound m"
  "bm_callis (release_inbound m s) = bm_callis m" "bm_rings (release_inbound m s) = bm_rings m"
  "bm_recv_rings (release_inbound m s) = bm_recv_rings m" "bm_receivers (release_inbound m s) = bm_receivers m"
  "bm_work (release_inbound m s) = bm_work m" "bm_allocator (release_inbound m s) = bm_allocator m"
  "rv_outbound (bm_reservations (release_inbound m s)) = rv_outbound (bm_reservations m)"
  "rv_inbound (bm_reservations (release_inbound m s)) = AList.delete s (rv_inbound (bm_reservations m))"
  by (simp_all add: release_inbound_def Let_def split: option.splits)

lemma release_outbound_sel [simp]:
  "bm_outbound (release_outbound m s) = bm_outbound m" "bm_inbound (release_outbound m s) = bm_inbound m"
  "bm_callis (release_outbound m s) = bm_callis m" "bm_rings (release_outbound m s) = bm_rings m"
  "bm_recv_rings (release_outbound m s) = bm_recv_rings m" "bm_receivers (release_outbound m s) = bm_receivers m"
  "bm_work (release_outbound m s) = bm_work m" "bm_allocator (release_outbound m s) = bm_allocator m"
  "rv_inbound (bm_reservations (release_outbound m s)) = rv_inbound (bm_reservations m)"
  "rv_outbound (bm_reservations (release_outbound m s)) = AList.delete s (rv_outbound (bm_reservations m))"
  by (simp_all add: release_outbound_def Let_def split: option.splits)

lemma on_receiver_sel [simp]:
  "bm_outbound (on_receiver m h f) = bm_outbound m" "bm_inbound (on_receiver m h f) = bm_inbound m"
  "bm_callis (on_receiver m h f) = bm_callis m" "bm_rings (on_receiver m h f) = bm_rings m"
  "bm_recv_rings (on_receiver m h f) = bm_recv_rings m" "bm_reservations (on_receiver m h f) = bm_reservations m"
  "bm_buffer_tracker (on_receiver m h f) = bm_buffer_tracker m" "bm_allocator (on_receiver m h f) = bm_allocator m"
  "bm_receivers (on_receiver m h f) = (bm_receivers m)[h := f (bm_receivers m ! h)]"
  by (simp_all add: on_receiver_def)

lemma drop_recv_stream_sel [simp]:
  "bm_outbound (drop_recv_stream m s) = bm_outbound m" "bm_rings (drop_recv_stream m s) = bm_rings m"
  "bm_recv_rings (drop_recv_stream m s) = bm_recv_rings m" "bm_receivers (drop_recv_stream m s) = bm_receivers m"
  "bm_reservations (drop_recv_stream m s) = bm_reservations m"
  "bm_buffer_tracker (drop_recv_stream m s) = bm_buffer_tracker m"
  "bm_callis (drop_recv_stream m s) = bm_callis m" "bm_allocator (drop_recv_stream m s) = bm_allocator m"
  "bi_recv_streams (bm_inbound (drop_recv_stream m s)) = AList.delete s (bi_recv_streams (bm_inbound m))"
  "bi_pending_requests (bm_inbound (drop_recv_stream m s)) = bi_pending_requests (bm_inbound m)"
  "bi_completed_recv_streams (bm_inbound (drop_recv_stream m s)) = bi_completed_recv_streams (bm_inbound m)"
  by (simp_all add: drop_recv_stream_def)

lemma refresh_recv_deadline_sel [simp]:
  "bm_outbound (refresh_recv_deadline m s d now) = bm_outbound m" "bm_rings (refresh_recv_deadline m s d now) = bm_rings m"
  "bm_recv_rings (refresh_recv_deadline m s d now) = bm_recv_rings m"
  "bm_receivers (refresh_recv_deadline m s d now) = bm_receivers m"
  "bm_reservations (refresh_recv_deadline m s d now) = bm_reservations m"
  "bm_buffer_tracker (refresh_recv_deadline m s d now) = bm_buffer_tracker m"
  "bm_callis (refresh_recv_deadline m s d now) = bm_callis m" "bm_allocator (refresh_recv_deadline m s d now) = bm_allocator m"
  "bi_pending_requests (bm_inbound (refresh_recv_deadline m s d now)) = bi_pending_requests (bm_inbound m)"
  by (simp_all add: refresh_recv_deadline_def split: option.splits)

abbreviation recv_streams :: "blob_manager \<Rightarrow> (peer_message_id \<times> blob_recv_stream) list" where
  "recv_streams m \<equiv> bi_recv_streams (bm_inbound m)"

abbreviation recv_stream :: "blob_manager \<Rightarrow> peer_message_id \<Rightarrow> blob_recv_stream option" where
  "recv_stream m \<equiv> map_of (recv_streams m)"

section \<open>The invariant\<close>

definition inbound_tables :: "blob_manager \<Rightarrow> bool" where
  "inbound_tables m \<longleftrightarrow>
     distinct (map fst (recv_streams m)) \<and> distinct (map (rs_ring \<circ> snd) (recv_streams m))
     \<and> (\<forall>(s, st) \<in> set (recv_streams m). rs_ring st < length (bm_recv_rings m) \<and> rs_receiver st < length (bm_receivers m))
     \<and> distinct (map fst (bi_pending_requests (bm_inbound m)))
     \<and> (\<forall>(s, p) \<in> set (bi_pending_requests (bm_inbound m)). pb_receiver p < length (bm_receivers m))
     \<and> distinct (map fst (rv_inbound (bm_reservations m)))
     \<and> (\<forall>ring \<in> set (bm_recv_rings m). in_inv ring)"

lemma inbound_tables_stream:
  assumes "inbound_tables m" and "recv_stream m s = Some st"
  shows "rs_ring st < length (bm_recv_rings m)" "rs_receiver st < length (bm_receivers m)"
    "in_inv (bm_recv_rings m ! rs_ring st)"
proof -
  have "(s, st) \<in> set (recv_streams m)" using assms(2) by (rule map_of_SomeD)
  with assms(1) show "rs_ring st < length (bm_recv_rings m)" "rs_receiver st < length (bm_receivers m)"
    "in_inv (bm_recv_rings m ! rs_ring st)" by (auto simp: inbound_tables_def)
qed

text \<open>A smaller table of streams or requests, with the same objects behind it.\<close>

lemma inbound_tables_shrink:
  assumes "inbound_tables m"
    and "distinct (map fst (recv_streams m'))" "distinct (map (rs_ring \<circ> snd) (recv_streams m'))"
    and "set (recv_streams m') \<subseteq> set (recv_streams m)"
    and "distinct (map fst (bi_pending_requests (bm_inbound m')))"
    and "set (bi_pending_requests (bm_inbound m')) \<subseteq> set (bi_pending_requests (bm_inbound m))"
    and "distinct (map fst (rv_inbound (bm_reservations m')))"
    and "bm_recv_rings m' = bm_recv_rings m" "length (bm_receivers m') = length (bm_receivers m)"
  shows "inbound_tables m'"
  using assms unfolding inbound_tables_def by (auto simp del: distinct_map)

lemma delete_subset: "set (AList.delete k al) \<subseteq> set al"
  by (auto simp: set_alist_delete)

lemma distinct_map_delete: "distinct (map f al) \<Longrightarrow> distinct (map f (AList.delete k al))"
  by (simp add: AList.delete_eq distinct_map_filter)

lemmas shrink_simps = delete_subset distinct_delete distinct_map_delete distinct_map_filter filter_is_subset

lemma inbound_tables_release: "inbound_tables m \<Longrightarrow> inbound_tables (release_inbound m s)"
  by (rule inbound_tables_shrink [where m = m]) (auto simp: inbound_tables_def shrink_simps)

lemma inbound_tables_drop: "inbound_tables m \<Longrightarrow> inbound_tables (drop_recv_stream m s)"
  by (rule inbound_tables_shrink [where m = m]) (use delete_subset in \<open>auto simp: inbound_tables_def shrink_simps\<close>)

lemma inbound_tables_receiver: "inbound_tables m \<Longrightarrow> inbound_tables (on_receiver m h f)"
  by (rule inbound_tables_shrink [where m = m]) (auto simp: inbound_tables_def)

lemma inbound_tables_take: "inbound_tables m \<Longrightarrow> inbound_tables (snd (take_pending_request m s))"
  by (rule inbound_tables_shrink [where m = m])
    (use delete_subset in \<open>auto simp: inbound_tables_def take_pending_request_def shrink_simps\<close>)

lemma inbound_tables_remove: "inbound_tables m \<Longrightarrow> inbound_tables (snd (remove_recv_stream m s))"
  by (simp add: remove_recv_stream_def inbound_tables_release inbound_tables_drop)

lemma update_known_keys: "map_of al k \<noteq> None \<Longrightarrow> map fst (AList.update k v al) = map fst al"
  by (induction al) auto

lemma update_known_values: "map_of al k = Some v \<Longrightarrow> f v' = f v \<Longrightarrow> map (f \<circ> snd) (AList.update k v' al) = map (f \<circ> snd) al"
  by (induction al) (auto split: if_splits)

lemma update_mem: "(k', v') \<in> set (AList.update k v al) \<Longrightarrow> (k', v') = (k, v) \<or> (k', v') \<in> set al"
  by (induction al) (auto split: if_splits)

lemma inbound_tables_refresh:
  assumes inv: "inbound_tables m"
  shows "inbound_tables (refresh_recv_deadline m s d now)"
proof (cases "recv_stream m s")
  case None
  with inv show ?thesis by (simp add: refresh_recv_deadline_def)
next
  case (Some st)
  let ?al = "AList.update s (st\<lparr>rs_deadline := now + d\<rparr>) (recv_streams m)"
  have rings: "map (rs_ring \<circ> snd) ?al = map (rs_ring \<circ> snd) (recv_streams m)"
    by (rule update_known_values [OF Some]) simp
  have keys: "map fst ?al = map fst (recv_streams m)" using Some by (intro update_known_keys) simp
  have "rs_ring x < length (bm_recv_rings m) \<and> rs_receiver x < length (bm_receivers m)" if "(k, x) \<in> set ?al" for k x
    using update_mem [OF that] inbound_tables_stream [OF inv Some] inv by (auto simp: inbound_tables_def)
  moreover have "refresh_recv_deadline m s d now = m\<lparr>bm_inbound := (bm_inbound m)\<lparr>bi_recv_streams := ?al\<rparr>\<rparr>"
    using Some by (simp add: refresh_recv_deadline_def)
  ultimately show ?thesis
    using inv unfolding inbound_tables_def by (auto simp: rings keys simp del: distinct_map)
qed

lemma inbound_tables_ring:
  assumes "inbound_tables m" and "in_inv ring"
  shows "inbound_tables (m\<lparr>bm_recv_rings := (bm_recv_rings m)[h := ring]\<rparr>)"
  using assms unfolding inbound_tables_def by (auto simp del: distinct_map dest!: subsetD [OF set_update_subset_insert])

section \<open>A failed stream\<close>

lemma remove_recv_stream_eq:
  "fst (remove_recv_stream m s) = recv_stream m s"
  "recv_streams (snd (remove_recv_stream m s)) = AList.delete s (recv_streams m)"
  "bm_receivers (snd (remove_recv_stream m s)) = bm_receivers m"
  "bm_recv_rings (snd (remove_recv_stream m s)) = bm_recv_rings m"
  "bi_pending_requests (bm_inbound (snd (remove_recv_stream m s))) = bi_pending_requests (bm_inbound m)"
  "rv_inbound (bm_reservations (snd (remove_recv_stream m s))) = AList.delete s (rv_inbound (bm_reservations m))"
  by (simp_all add: remove_recv_stream_def)

lemma fail_inbound_tables: "inbound_tables m \<Longrightarrow> inbound_tables (snd (fail_inbound_stream m s err))"
  using inbound_tables_take [of m s] inbound_tables_remove [of "snd (take_pending_request m s)" s]
  by (cases "take_pending_request m s"; cases "remove_recv_stream (snd (take_pending_request m s)) s")
    (auto simp: fail_inbound_stream_def intro!: inbound_tables_release inbound_tables_receiver split: option.splits)

text \<open>After the failure the stream and its reservation are gone and its receiver has the error.\<close>

lemma fail_inbound_recv:
  assumes "recv_stream m s = Some st" and "rs_receiver st < length (bm_receivers m)"
    and "map_of (bi_pending_requests (bm_inbound m)) s = None"
  shows "fst (fail_inbound_stream m s err)"
    "recv_streams (snd (fail_inbound_stream m s err)) = AList.delete s (recv_streams m)"
    "rv_inbound (bm_reservations (snd (fail_inbound_stream m s err))) = AList.delete s (rv_inbound (bm_reservations m))"
    "bm_receivers (snd (fail_inbound_stream m s err)) =
       (bm_receivers m)[rs_receiver st := receiver_fail (bm_receivers m ! rs_receiver st) err]"
  using assms
  by (simp_all add: fail_inbound_stream_def take_pending_request_def remove_recv_stream_def)

lemma fail_chunk_recv:
  assumes "recv_stream m s = Some st" and "rs_receiver st < length (bm_receivers m)"
    and "map_of (bi_pending_requests (bm_inbound m)) s = None"
  shows "fail_chunk_stream m s receiver err = snd (fail_inbound_stream m s err)"
  using fail_inbound_recv(1) [OF assms, of err]
  by (cases "fail_inbound_stream m s err") (simp add: fail_chunk_stream_def)

lemma fail_chunk_gone:
  assumes "recv_stream m s = None" and "map_of (bi_pending_requests (bm_inbound m)) s = None"
  shows "recv_streams (fail_chunk_stream m s receiver err) = AList.delete s (recv_streams m)"
    "rv_inbound (bm_reservations (fail_chunk_stream m s receiver err)) = AList.delete s (rv_inbound (bm_reservations m))"
    "bm_receivers (fail_chunk_stream m s receiver err) =
       (bm_receivers m)[receiver := receiver_fail (bm_receivers m ! receiver) err]"
  using assms
  by (simp_all add: fail_chunk_stream_def fail_inbound_stream_def take_pending_request_def remove_recv_stream_def)

section \<open>A chunk frame\<close>

lemma receive_into_ring_returns:
  assumes "in_inv (bm_recv_rings m ! ring)"
  obtains r m' where "receive_into_ring m chunk receiver ring idle now = Some (r, m')"
proof -
  obtain r ring' where "insert_chunk (bm_recv_rings m ! ring) (unat (bc_chunk_id chunk)) (bc_chunk chunk)
      (bc_flags chunk AND BlobChunkFlags_LAST_CHUNK = BlobChunkFlags_LAST_CHUNK) = Some (r, ring')"
    using insert_chunk_inv [OF assms] by blast
  then show thesis
    using that by (cases r; cases "projr r") (auto simp: receive_into_ring_def Let_def split: inbound_insert_outcome.splits)
qed

abbreviation last_flag :: "blob_chunk_payload \<Rightarrow> bool" where
  "last_flag chunk \<equiv> bc_flags chunk AND BlobChunkFlags_LAST_CHUNK = BlobChunkFlags_LAST_CHUNK"

text \<open>How the code answers what the ring buffer made of a chunk.\<close>

definition receipt :: "peer_message_id \<Rightarrow> inbound_insert_outcome \<Rightarrow> blob_chunk_outcome" where
  "receipt s outcome = (case outcome of Stored True _ \<Rightarrow> ChunkComplete s | _ \<Rightarrow> ChunkContinue)"

lemma receive_into_ring_ok:
  assumes "insert_chunk (bm_recv_rings m ! ring) (unat (bc_chunk_id chunk)) (bc_chunk chunk) (last_flag chunk) = Some (Inr outcome, ring')"
  shows "receive_into_ring m chunk receiver ring idle now =
     (let m = refresh_recv_deadline (m\<lparr>bm_recv_rings := (bm_recv_rings m)[ring := ring']\<rparr>) (bc_request_msg_id chunk) idle now
      in case outcome of
           Stored True _ \<Rightarrow> Some (Inr True, on_receiver m receiver (\<lambda>r. r\<lparr>br_completed := True\<rparr>))
         | _ \<Rightarrow> Some (Inr False, m))"
  using assms by (cases outcome) (auto simp: receive_into_ring_def Let_def split: bool.splits)

lemma receive_into_ring_err:
  assumes "insert_chunk (bm_recv_rings m ! ring) (unat (bc_chunk_id chunk)) (bc_chunk chunk) (last_flag chunk) = Some (Inl err, ring')"
  shows "receive_into_ring m chunk receiver ring idle now = Some (Inl err, m\<lparr>bm_recv_rings := (bm_recv_rings m)[ring := ring']\<rparr>)"
  using assms by (simp add: receive_into_ring_def Let_def)

text \<open>What is left of a stream whose chunk was refused.\<close>

definition closed_with :: "blob_manager \<Rightarrow> peer_message_id \<Rightarrow> nat \<Rightarrow> aurelia_error \<Rightarrow> bool" where
  "closed_with m s receiver err \<longleftrightarrow>
     recv_stream m s = None \<and> map_of (rv_inbound (bm_reservations m)) s = None
     \<and> br_error (bm_receivers m ! receiver) = Some err \<and> br_completed (bm_receivers m ! receiver)"

lemma fail_inbound_closed:
  assumes inv: "inbound_tables m" and st: "recv_stream m s = Some st"
    and free: "map_of (bi_pending_requests (bm_inbound m)) s = None"
  shows "closed_with (snd (fail_inbound_stream m s err)) s (rs_receiver st) err"
    "closed_with (fail_chunk_stream m s receiver err) s (rs_receiver st) err"
proof -
  note fail = fail_inbound_recv [OF st inbound_tables_stream(2) [OF inv st] free, of err]
  have "distinct (map fst (recv_streams m))" "distinct (map fst (rv_inbound (bm_reservations m)))"
    using inv by (simp_all add: inbound_tables_def)
  then show *: "closed_with (snd (fail_inbound_stream m s err)) s (rs_receiver st) err"
    using inbound_tables_stream(2) [OF inv st]
    by (simp add: closed_with_def fail delete_conv' receiver_fail_def)
  show "closed_with (fail_chunk_stream m s receiver err) s (rs_receiver st) err"
    using * fail_chunk_recv [OF st inbound_tables_stream(2) [OF inv st] free] by simp
qed

lemma fail_chunk_tables: "inbound_tables m \<Longrightarrow> inbound_tables (fail_chunk_stream m s receiver err)"
  using fail_inbound_tables [of m s err]
  by (cases "fail_inbound_stream m s err") (auto simp: fail_chunk_stream_def intro!: inbound_tables_receiver split: bool.splits)

text \<open>The state a stream is in after an accepted chunk.\<close>

definition fed_with ::
  "blob_manager \<Rightarrow> blob_manager \<Rightarrow> peer_message_id \<Rightarrow> blob_recv_stream \<Rightarrow> instant \<Rightarrow> inbound_insert_outcome \<Rightarrow> inbound_state \<Rightarrow> bool" where
  "fed_with m m' s st deadline outcome ring' \<longleftrightarrow>
     recv_stream m' s = Some (st\<lparr>rs_deadline := deadline\<rparr>)
     \<and> bm_recv_rings m' = (bm_recv_rings m)[rs_ring st := ring']
     \<and> bm_reservations m' = bm_reservations m
     \<and> br_completed (bm_receivers m' ! rs_receiver st)
         = (br_completed (bm_receivers m ! rs_receiver st) \<or> receipt s outcome = ChunkComplete s)"

lemma refreshed_stream:
  "recv_stream m s = Some st \<Longrightarrow> recv_stream (refresh_recv_deadline m s d now) s = Some (st\<lparr>rs_deadline := now + d\<rparr>)"
  by (simp add: refresh_recv_deadline_def update_conv')

lemma insert_kept: "in_inv st \<Longrightarrow> insert_chunk st k d l = Some (r, st') \<Longrightarrow> in_inv st'"
  using insert_chunk_inv [of st k d l] by auto

lemma feed_stream:
  assumes inv: "inbound_tables m" and st: "recv_stream m s = Some st" and s: "s = bc_request_msg_id chunk"
    and ins: "insert_chunk (bm_recv_rings m ! rs_ring st) (unat (bc_chunk_id chunk)) (bc_chunk chunk) (last_flag chunk)
                = Some (Inr outcome, ring')"
  obtains m' where "receive_into_ring m chunk (rs_receiver st) (rs_ring st) idle now
      = Some (Inr (receipt s outcome = ChunkComplete s), m')"
    "inbound_tables m'" "fed_with m m' s st (now + idle) outcome ring'"
proof -
  let ?m = "m\<lparr>bm_recv_rings := (bm_recv_rings m)[rs_ring st := ring']\<rparr>"
  let ?r = "refresh_recv_deadline ?m s idle now"
  have "in_inv ring'" using inbound_tables_stream(3) [OF inv st] ins by (rule insert_kept)
  then have tables: "inbound_tables ?r" using inv by (intro inbound_tables_refresh inbound_tables_ring)
  have fed: "recv_stream ?r s = Some (st\<lparr>rs_deadline := now + idle\<rparr>)" using st by (simp add: refreshed_stream)
  note bound = inbound_tables_stream(2) [OF inv st]
  note result = receive_into_ring_ok [OF ins, of "rs_receiver st" idle now, folded s]
  show thesis
  proof (cases "receipt s outcome = ChunkComplete s")
    case True
    then obtain b where "outcome = Stored True b"
      by (auto simp: receipt_def split: inbound_insert_outcome.splits bool.splits)
    with result True tables fed bound show thesis
      by (intro that [of "on_receiver ?r (rs_receiver st) (\<lambda>r. r\<lparr>br_completed := True\<rparr>)"])
        (auto simp: Let_def fed_with_def intro: inbound_tables_receiver)
  next
    case False
    then have "outcome = Duplicate \<or> (\<exists>b. outcome = Stored False b)"
      by (cases outcome) (auto simp: receipt_def split: bool.splits)
    with result False tables fed show thesis
      by (intro that [of ?r]) (auto simp: Let_def fed_with_def)
  qed
qed

text \<open>
  A chunk frame for an open stream: it is always answered, with the state of the stream and of its
  receiver that goes with the answer.
\<close>

definition chunk_answered ::
  "blob_manager \<Rightarrow> blob_chunk_payload \<Rightarrow> blob_recv_stream \<Rightarrow> duration \<Rightarrow> u32 \<Rightarrow> instant \<Rightarrow>
   blob_chunk_outcome result \<Rightarrow> blob_manager \<Rightarrow> bool" where
  "chunk_answered m chunk st idle chunk_size now r m' \<longleftrightarrow>
     (let s = bc_request_msg_id chunk;
          ins = insert_chunk (bm_recv_rings m ! rs_ring st) (unat (bc_chunk_id chunk)) (bc_chunk chunk) (last_flag chunk)
      in if length (bc_chunk chunk) > unat chunk_size
         then r = Inl (err_new ProtocolViolation) \<and> closed_with m' s (rs_receiver st) (err_new ProtocolViolation)
         else if now \<ge> rs_deadline st
         then r = Inl (err_new BlobStreamIdleTimeout) \<and> closed_with m' s (rs_receiver st) (err_new BlobStreamIdleTimeout)
         else case ins of
                None \<Rightarrow> False
              | Some (Inl err, _) \<Rightarrow> r = Inl err \<and> closed_with m' s (rs_receiver st) err
              | Some (Inr outcome, ring') \<Rightarrow>
                  r = Inr (receipt s outcome) \<and> fed_with m m' s st (now + idle) outcome ring')"

lemma chunk_frame_answered:
  assumes inv: "inbound_tables m" and decoded: "blob_chunk_from_bytes payload = Inr chunk"
    and st: "recv_stream m (bc_request_msg_id chunk) = Some st"
    and free: "map_of (bi_pending_requests (bm_inbound m)) (bc_request_msg_id chunk) = None"
    and settings: "ack_window \<noteq> 0" "chunk_size \<noteq> 0"
  shows "\<exists>r m'. handle_blob_transfer_chunk m payload idle ack_window chunk_size now = Some (r, m')
    \<and> inbound_tables m' \<and> chunk_answered m chunk st idle chunk_size now r m'"
proof -
  let ?s = "bc_request_msg_id chunk"
  note handler = handle_blob_transfer_chunk_def [of m payload idle ack_window chunk_size now]
  consider (long) "length (bc_chunk chunk) > unat chunk_size"
    | (idle) "length (bc_chunk chunk) \<le> unat chunk_size" "rs_deadline st \<le> now"
    | (active) "length (bc_chunk chunk) \<le> unat chunk_size" "now < rs_deadline st" by linarith
  then show ?thesis
  proof cases
    case long
    with handler decoded settings show ?thesis
      using fail_inbound_closed(1) [OF inv st free] fail_inbound_tables [OF inv]
      by (simp add: Let_def chunk_answered_def)
  next
    case idle
    let ?m = "release_inbound (drop_recv_stream m ?s) ?s"
    have tables: "inbound_tables ?m" using inv by (intro inbound_tables_release inbound_tables_drop)
    have keys: "distinct (map fst (recv_streams m))" "distinct (map fst (rv_inbound (bm_reservations m)))"
      using inv by (simp_all add: inbound_tables_def)
    have gone: "recv_stream ?m ?s = None" "map_of (bi_pending_requests (bm_inbound ?m)) ?s = None"
      using keys free by (simp_all add: delete_conv')
    from handler idle decoded settings st
    have "handle_blob_transfer_chunk m payload idle ack_window chunk_size now =
        Some (Inl (err_new BlobStreamIdleTimeout), fail_chunk_stream ?m ?s (rs_receiver st) (err_new BlobStreamIdleTimeout))"
      by (simp add: Let_def recv_chunk_state_def)
    moreover have "closed_with (fail_chunk_stream ?m ?s (rs_receiver st) (err_new BlobStreamIdleTimeout)) ?s (rs_receiver st)
        (err_new BlobStreamIdleTimeout)"
      using fail_chunk_gone [OF gone] keys inbound_tables_stream(2) [OF inv st]
      by (simp add: closed_with_def delete_conv' receiver_fail_def)
    ultimately show ?thesis using idle fail_chunk_tables [OF tables] by (simp add: chunk_answered_def Let_def)
  next
    case active
    have state: "recv_chunk_state m ?s idle now = (ChunkActive (rs_taberna_id st) (rs_receiver st) (rs_ring st), m)"
      using active st by (simp add: recv_chunk_state_def)
    obtain r ring' where ins: "insert_chunk (bm_recv_rings m ! rs_ring st) (unat (bc_chunk_id chunk)) (bc_chunk chunk)
        (last_flag chunk) = Some (r, ring')" and ring': "in_inv ring'"
      using insert_chunk_inv [OF inbound_tables_stream(3) [OF inv st]] by blast
    show ?thesis
    proof (cases r)
      case (Inl err)
      let ?m = "m\<lparr>bm_recv_rings := (bm_recv_rings m)[rs_ring st := ring']\<rparr>"
      have "handle_blob_transfer_chunk m payload idle ack_window chunk_size now
          = Some (Inl err, fail_chunk_stream ?m ?s (rs_receiver st) err)"
        using handler active decoded settings state receive_into_ring_err [OF ins [unfolded Inl]]
        by (simp add: Let_def)
      moreover have "inbound_tables ?m" using inv ring' by (rule inbound_tables_ring)
      ultimately show ?thesis
        using fail_chunk_tables fail_inbound_closed(2) [of ?m ?s st] st free ins Inl active
        by (simp add: chunk_answered_def Let_def)
    next
      case (Inr outcome)
      obtain m' where m': "receive_into_ring m chunk (rs_receiver st) (rs_ring st) idle now
          = Some (Inr (receipt ?s outcome = ChunkComplete ?s), m')"
        "inbound_tables m'" "fed_with m m' ?s st (now + idle) outcome ring'"
        by (rule feed_stream [OF inv st refl ins [unfolded Inr]])
      have "receipt ?s outcome = (if receipt ?s outcome = ChunkComplete ?s then ChunkComplete ?s else ChunkContinue)"
        by (simp add: receipt_def split: inbound_insert_outcome.splits bool.splits)
      with m' handler active decoded settings state
      have "handle_blob_transfer_chunk m payload idle ack_window chunk_size now = Some (Inr (receipt ?s outcome), m')"
        by (simp add: Let_def)
      with m' ins Inr active show ?thesis by (simp add: chunk_answered_def Let_def)
    qed
  qed
qed

end
