(* ===== verification/Blob_Manager.thy ===== *)
theory Blob_Manager
  imports Blob_Responses Blob_Receive
begin

text \<open>
  The blob manager as a whole (\<^verbatim>\<open>src/crates/peering/src/transport/blob/mod.rs\<close>): the pool of blob calles,
  the methods that cross the domains, and the manager as a machine whose steps are its methods. The
  pool of calles, which its own mutex protects, is shown to be a fair rotation.
\<close>

section \<open>The callis pool\<close>

definition has_stream_state :: "blob_manager \<Rightarrow> bool" where
  "has_stream_state m \<longleftrightarrow>
     bo_streams (bm_outbound m) \<noteq> [] \<or> bo_write_slots (bm_outbound m) \<noteq> [] \<or> bi_recv_streams (bm_inbound m) \<noteq> []"

definition pool_remove :: "blob_callis_pool \<Rightarrow> nat \<Rightarrow> blob_callis_pool" where
  "pool_remove pool callis_id =
     pool\<lparr>bp_handles := AList.delete callis_id (bp_handles pool),
          bp_settings := AList.delete callis_id (bp_settings pool),
          bp_order := remove1 callis_id (bp_order pool)\<rparr>"

definition pool_insert :: "blob_callis_pool \<Rightarrow> callis_handle \<Rightarrow> blob_callis_settings \<Rightarrow> blob_callis_pool" where
  "pool_insert pool handle settings =
     pool\<lparr>bp_handles := AList.update (ch_id handle) handle (bp_handles pool),
          bp_settings := AList.update (ch_id handle) settings (bp_settings pool),
          bp_order := (if ch_id handle \<in> set (bp_order pool) then bp_order pool else bp_order pool @ [ch_id handle])\<rparr>"

definition remove_callis :: "blob_manager \<Rightarrow> nat \<Rightarrow> callis_handle option \<times> blob_manager" where
  "remove_callis m callis_id =
     (map_of (bp_handles (bm_callis m)) callis_id,
      bump_callis_gen (m\<lparr>bm_callis := pool_remove (bm_callis m) callis_id\<rparr>))"

definition drain_callis :: "blob_manager \<Rightarrow> callis_handle list \<times> blob_manager" where
  "drain_callis m =
     (map snd (bp_handles (bm_callis m)),
      bump_callis_gen (m\<lparr>bm_callis := \<lparr>bp_order = [], bp_handles = [], bp_settings = []\<rparr>\<rparr>))"

definition has_callis :: "blob_manager \<Rightarrow> bool" where
  "has_callis m \<longleftrightarrow> bp_order (bm_callis m) \<noteq> []"

definition reset_callis_history :: "blob_manager \<Rightarrow> blob_manager" where
  "reset_callis_history m = m\<lparr>bm_had_callis := False\<rparr>"

text \<open>The loop of \<open>select_callis\<close>, with the number of turns that are left.\<close>

fun select_loop ::
  "nat \<Rightarrow> blob_callis_pool \<Rightarrow> (nat \<times> callis_handle \<times> blob_callis_settings) option \<times> blob_callis_pool" where
  "select_loop 0 pool = (None, pool)"
| "select_loop (Suc n) pool =
     (case bp_order pool of
        [] \<Rightarrow> (None, pool)
      | callis_id # order \<Rightarrow>
          let pool = pool\<lparr>bp_order := order\<rparr>
          in case map_of (bp_handles pool) callis_id of
               None \<Rightarrow> select_loop n (pool\<lparr>bp_settings := AList.delete callis_id (bp_settings pool)\<rparr>)
             | Some handle \<Rightarrow>
                 (case map_of (bp_settings pool) callis_id of
                    None \<Rightarrow> select_loop n (pool\<lparr>bp_handles := AList.delete callis_id (bp_handles pool)\<rparr>)
                  | Some settings \<Rightarrow>
                      if callis_tx_is_closed (ch_tx handle)
                      then select_loop n (pool\<lparr>bp_handles := AList.delete callis_id (bp_handles pool),
                                               bp_settings := AList.delete callis_id (bp_settings pool)\<rparr>)
                      else (Some (callis_id, handle, settings), pool\<lparr>bp_order := bp_order pool @ [callis_id]\<rparr>)))"

definition select_callis :: "blob_manager \<Rightarrow> (nat \<times> callis_handle \<times> blob_callis_settings) option \<times> blob_manager" where
  "select_callis m =
     (let (r, pool) = select_loop (length (bp_order (bm_callis m))) (bm_callis m) in (r, m\<lparr>bm_callis := pool\<rparr>))"

definition settings_for_callis :: "blob_manager \<Rightarrow> nat \<Rightarrow> blob_callis_settings option" where
  "settings_for_callis m callis_id = map_of (bp_settings (bm_callis m)) callis_id"

definition current_settings :: "blob_manager \<Rightarrow> blob_callis_settings option" where
  "current_settings m =
     (case bp_order (bm_callis m) of [] \<Rightarrow> None | callis_id # _ \<Rightarrow> map_of (bp_settings (bm_callis m)) callis_id)"

text \<open>One turn of \<open>wait_for_callis\<close>: finished with a result, or waiting for the next change of the pool.\<close>

definition wait_for_callis_turn :: "blob_manager \<Rightarrow> instant \<Rightarrow> instant \<Rightarrow> unit result option" where
  "wait_for_callis_turn m deadline now =
     (if has_callis m then Some (Inr ())
      else if deadline - now = 0 then Some (Inl (err_new SendTimeout))
      else None)"

section \<open>Methods across the domains\<close>

definition fail_all_streams :: "blob_manager \<Rightarrow> aurelia_error \<Rightarrow> blob_manager" where
  "fail_all_streams m error =
     (let (rings, b) = outbound_clear (bm_outbound m);
          m = m\<lparr>bm_outbound := b\<rparr>;
          m = foldl (\<lambda>m h. on_ring (on_ring m h (\<lambda>r. ring_fail r error)) h ring_close) m rings;
          rv = bm_reservations m;
          m = m\<lparr>bm_reservations := \<lparr>rv_outbound = [], rv_inbound = []\<rparr>\<rparr>;
          m = m\<lparr>bm_buffer_tracker := foldl (\<lambda>t bytes. snd (release_side t SideOutbound bytes)) (bm_buffer_tracker m)
                  (map snd (rv_outbound rv))\<rparr>;
          m = m\<lparr>bm_buffer_tracker := foldl (\<lambda>t bytes. snd (release_side t SideInbound bytes)) (bm_buffer_tracker m)
                  (map snd (rv_inbound rv))\<rparr>;
          streams = bi_recv_streams (bm_inbound m);
          m = m\<lparr>bm_inbound := \<lparr>bi_pending_requests = [], bi_recv_streams = [], bi_completed_recv_streams = []\<rparr>\<rparr>
      in foldl (\<lambda>m (_, stream). on_receiver m (rs_receiver stream) (\<lambda>r. receiver_fail r error)) m streams)"

definition add_callis :: "blob_manager \<Rightarrow> callis_handle \<Rightarrow> blob_callis_settings \<Rightarrow> bool \<Rightarrow> blob_manager" where
  "add_callis m handle settings resume =
     (let m = (if \<not> resume \<and> has_stream_state m then fail_all_streams m (err_new PeerRestarted) else m);
          m = (if resume
               then foldl (\<lambda>m stream_id. fail_stream m stream_id (err_new PeerRestarted)) m
                      (map fst (filter (\<lambda>(_, stream_settings). stream_settings \<noteq> settings)
                        (bo_stream_settings (bm_outbound m))))
               else m);
          m = m\<lparr>bm_had_callis := True\<rparr>
      in notify_work (bump_callis_gen (m\<lparr>bm_callis := pool_insert (bm_callis m) handle settings\<rparr>)))"

definition blob_handle_error :: "blob_manager \<Rightarrow> peer_message_id \<Rightarrow> aurelia_error \<Rightarrow> blob_manager" where
  "blob_handle_error m peer_msg_id error =
     (let ((entry, ring), b) = outbound_take_inflight (bm_outbound m) peer_msg_id;
          m = m\<lparr>bm_outbound := b\<rparr>
      in case entry of
           Some entry \<Rightarrow>
             let m = (if ib_is_chunk entry then notify_work m else m)
             in (case ring of Some h \<Rightarrow> on_ring m h (\<lambda>r. snd (ring_note_error r peer_msg_id error)) | None \<Rightarrow> m)
         | None \<Rightarrow>
             (case fail_outbound_stream m peer_msg_id error of
                (True, m) \<Rightarrow> m
              | (False, m) \<Rightarrow> snd (fail_inbound_stream m peer_msg_id error)))"

definition has_active_streams :: "blob_manager \<Rightarrow> bool" where
  "has_active_streams m \<longleftrightarrow>
     bi_pending_requests (bm_inbound m) \<noteq> [] \<or> bi_recv_streams (bm_inbound m) \<noteq> [] \<or> bo_streams (bm_outbound m) \<noteq> []"

definition lifecycle_snapshot :: "blob_manager \<Rightarrow> blob_lifecycle_snapshot" where
  "lifecycle_snapshot m =
     (let has_callis = (bp_order (bm_callis m) \<noteq> []);
          inbound_active = (bi_pending_requests (bm_inbound m) \<noteq> [] \<or> bi_recv_streams (bm_inbound m) \<noteq> []);
          outbound_active = (bo_streams (bm_outbound m) \<noteq> []);
          outbound_work = (response_ready_count (bm_outbound m) > 0 \<or> bo_streams (bm_outbound m) \<noteq> []);
          has_active_streams = (inbound_active \<or> outbound_active)
      in \<lparr>bl_has_callis = has_callis, bl_has_active_streams = has_active_streams,
          bl_has_blob_work = (has_active_streams \<or> outbound_work)\<rparr>)"

section \<open>The manager as a machine\<close>

text \<open>
  The methods that change the manager, as the peer task, the calles' tasks and the application's stream
  ends call them. \<open>OpWrite\<close> and \<open>OpSeal\<close> are the sending application's calls on its ring buffer,
  \<open>OpCount\<close> and \<open>OpEnter\<close> are the two halves of a reservation, and \<open>OpReceiver\<close> creates the receiver of a blob
  request that has arrived. Each method is one step, although some take several locks one after the other
  (\<open>lease_next_blob_write\<close>, \<open>fail_all_streams\<close>, \<open>add_callis\<close>): the runs below interleave whole methods.
\<close>

datatype blob_op =
    OpEnqueue blob_write_lease
  | OpLease nat
  | OpFinish blob_write_lease nat "unit result"
  | OpRegister peer_message_id blob_callis_settings
  | OpUnregister peer_message_id
  | OpCount buffer_side nat nat
  | OpEnter buffer_side peer_message_id nat
  | OpReleaseOutbound peer_message_id
  | OpWrite nat "u8 list"
  | OpSeal nat
  | OpAck peer_message_id
  | OpError peer_message_id aurelia_error
  | OpComplete peer_message_id
  | OpRequeueCallis nat
  | OpRequeueAll
  | OpAddCallis callis_handle blob_callis_settings bool
  | OpRemoveCallis nat
  | OpDrainCallis
  | OpSelectCallis
  | OpFailAll aurelia_error
  | OpReceiver duration
  | OpReleaseInbound peer_message_id
  | OpPending peer_message_id taberna_id nat
  | OpDropPending peer_message_id
  | OpActivate peer_message_id blob_callis_settings instant
  | OpChunk "u8 list" duration u32 u32 instant
  | OpReap instant
  | OpRead nat peer_message_id instant
  | OpReadIdle nat peer_message_id
  | OpReceiverDrop nat peer_message_id

fun blob_step :: "blob_manager \<Rightarrow> blob_op \<Rightarrow> blob_manager" where
  "blob_step m (OpEnqueue write) = snd (enqueue_blob_write m write)"
| "blob_step m (OpLease callis_id) = snd (lease_next_blob_write m callis_id)"
| "blob_step m (OpFinish write callis_id res) = finish_blob_write_attempt m write callis_id res"
| "blob_step m (OpRegister stream_id settings) = snd (register_outbound_stream m stream_id settings)"
| "blob_step m (OpUnregister stream_id) = unregister_outbound_stream m stream_id"
| "blob_step m (OpCount side bytes cap) = snd (count_bytes m side bytes cap)"
| "blob_step m (OpEnter side stream_id bytes) = enter_bytes m side stream_id bytes"
| "blob_step m (OpReleaseOutbound stream_id) = release_outbound m stream_id"
| "blob_step m (OpWrite h bytes) = (if h < length (bm_rings m) then on_ring m h (\<lambda>r. snd (ring_try_push r True bytes)) else m)"
| "blob_step m (OpSeal h) = (if h < length (bm_rings m) then on_ring m h (\<lambda>r. snd (ring_seal_pass r)) else m)"
| "blob_step m (OpAck peer_msg_id) = blob_handle_ack m peer_msg_id"
| "blob_step m (OpError peer_msg_id err) = blob_handle_error m peer_msg_id err"
| "blob_step m (OpComplete stream_id) = snd (handle_complete m stream_id)"
| "blob_step m (OpRequeueCallis callis_id) = requeue_inflight_for_callis m callis_id"
| "blob_step m OpRequeueAll = requeue_all_inflight m"
| "blob_step m (OpAddCallis handle settings resume) = add_callis m handle settings resume"
| "blob_step m (OpRemoveCallis callis_id) = snd (remove_callis m callis_id)"
| "blob_step m OpDrainCallis = snd (drain_callis m)"
| "blob_step m OpSelectCallis = snd (select_callis m)"
| "blob_step m (OpFailAll err) = fail_all_streams m err"
| "blob_step m (OpReceiver timeout) =
     m\<lparr>bm_receivers := bm_receivers m @ [\<lparr>br_accepted = False, br_completed = False, br_error = None,
                          br_completion_ttl = timeout * 2, br_idle_timeout = timeout * 2\<rparr>]\<rparr>"
| "blob_step m (OpReleaseInbound stream_id) = release_inbound m stream_id"
| "blob_step m (OpPending stream_id taberna_id receiver) =
     (if receiver < length (bm_receivers m)
      then add_pending_request (on_receiver m receiver (\<lambda>r. r\<lparr>br_accepted := True\<rparr>)) stream_id taberna_id receiver else m)"
| "blob_step m (OpDropPending stream_id) = drop_pending_request m stream_id"
| "blob_step m (OpActivate stream_id settings now) = snd (activate_pending_request m stream_id settings now)"
| "blob_step m (OpChunk payload idle ack_window chunk_size now) =
     (case handle_blob_transfer_chunk m payload idle ack_window chunk_size now of Some (_, m) \<Rightarrow> m | None \<Rightarrow> m)"
| "blob_step m (OpReap now) = inbound_reaper_turn m now"
| "blob_step m (OpRead receiver stream_id now) = snd (try_receiver_read m receiver stream_id now)"
| "blob_step m (OpReadIdle receiver stream_id) = snd (fail_receiver_idle m receiver stream_id)"
| "blob_step m (OpReceiverDrop receiver stream_id) = receiver_stream_drop m receiver stream_id"


section \<open>The pool as a machine\<close>

text \<open>
  Every callis in the order has its handle and its settings, and the other way round; the calles that are
  added are blob calles.
\<close>

definition pool_ok :: "blob_callis_pool \<Rightarrow> bool" where
  "pool_ok pool \<longleftrightarrow>
     distinct (bp_order pool) \<and> distinct (map fst (bp_handles pool)) \<and> distinct (map fst (bp_settings pool))
     \<and> fst ` set (bp_handles pool) = set (bp_order pool) \<and> fst ` set (bp_settings pool) = set (bp_order pool)
     \<and> (\<forall>(c, handle) \<in> set (bp_handles pool). ch_id handle = c \<and> ch_tx handle = TxBlob)"

datatype pool_op = PoolAdd nat blob_callis_settings | PoolRemove nat | PoolDrain | PoolSelect

fun pool_step :: "blob_callis_pool \<Rightarrow> pool_op \<Rightarrow> blob_callis_pool" where
  "pool_step pool (PoolAdd c settings) = pool_insert pool \<lparr>ch_id = c, ch_tx = TxBlob\<rparr> settings"
| "pool_step pool (PoolRemove c) = pool_remove pool c"
| "pool_step pool PoolDrain = \<lparr>bp_order = [], bp_handles = [], bp_settings = []\<rparr>"
| "pool_step pool PoolSelect = snd (select_loop (length (bp_order pool)) pool)"

lemma select_first:
  assumes "pool_ok pool" and "bp_order pool = c # order"
  obtains handle settings where "map_of (bp_handles pool) c = Some handle" "map_of (bp_settings pool) c = Some settings"
    "select_loop (Suc n) pool = (Some (c, handle, settings), pool\<lparr>bp_order := order @ [c]\<rparr>)" "ch_id handle = c"
proof -
  have "c \<in> fst ` set (bp_handles pool)" "c \<in> fst ` set (bp_settings pool)"
    using assms by (auto simp: pool_ok_def)
  then obtain handle settings where h: "map_of (bp_handles pool) c = Some handle" "map_of (bp_settings pool) c = Some settings"
    by (metis map_of_eq_None_iff not_None_eq)
  then have "ch_tx handle = TxBlob" "ch_id handle = c" using assms(1) map_of_SomeD [OF h(1)] by (auto simp: pool_ok_def)
  with h assms(2) that [OF h] show thesis by (simp add: Let_def)
qed

lemma pool_ok_order:
  "pool_ok pool \<Longrightarrow> set order = set (bp_order pool) \<Longrightarrow> distinct order \<Longrightarrow> pool_ok (pool\<lparr>bp_order := order\<rparr>)"
  by (simp add: pool_ok_def)

lemma pool_ok_update:
  assumes "pool_ok pool"
  shows "pool_ok (pool_insert pool \<lparr>ch_id = c, ch_tx = TxBlob\<rparr> settings)"
proof -
  have "ch_id h = k \<and> ch_tx h = TxBlob" if "(k, h) \<in> set (AList.update c \<lparr>ch_id = c, ch_tx = TxBlob\<rparr> (bp_handles pool))" for k h
    using update_mem [OF that] assms by (auto simp: pool_ok_def)
  with assms show ?thesis
    unfolding pool_ok_def pool_insert_def by (auto simp: distinct_update dom_update insert_absorb)
qed

lemma pool_ok_remove:
  assumes "pool_ok pool"
  shows "pool_ok (pool_remove pool c)"
proof -
  have "ch_id h = k \<and> ch_tx h = TxBlob" if "(k, h) \<in> set (AList.delete c (bp_handles pool))" for k h
    using assms subsetD [OF delete_subset that] by (auto simp: pool_ok_def)
  with assms show ?thesis
    unfolding pool_ok_def pool_remove_def by (auto simp: distinct_delete keys_alist_delete)
qed

lemma pool_ok_step: "pool_ok pool \<Longrightarrow> pool_ok (pool_step pool x)"
proof (cases x)
  case (PoolAdd c settings)
  assume "pool_ok pool"
  with PoolAdd show ?thesis by (simp add: pool_ok_update)
next
  case (PoolRemove c)
  assume "pool_ok pool"
  with PoolRemove show ?thesis by (simp add: pool_ok_remove)
next
  case PoolSelect
  assume ok: "pool_ok pool"
  show ?thesis
  proof (cases "bp_order pool")
    case (Cons c order)
    from select_first [OF ok Cons, of "length order"] obtain r
      where "select_loop (Suc (length order)) pool = (Some r, pool\<lparr>bp_order := order @ [c]\<rparr>)" by metis
    with ok PoolSelect Cons show ?thesis by (auto simp: pool_ok_def)
  qed (use ok PoolSelect in simp)
qed (simp add: pool_ok_def)

interpretation pool: op_machine "\<lambda>p. p = blob_callis_pool_new" pool_step pool_ok
proof unfold_locales
  fix p assume "p = blob_callis_pool_new"
  then show "pool_ok p" by (simp add: pool_ok_def blob_callis_pool_new_def)
qed (rule pool_ok_step)

text \<open>A number of calls of \<open>select_callis\<close> in a row: the calles they return.\<close>

fun selections :: "nat \<Rightarrow> blob_manager \<Rightarrow> nat option list" where
  "selections 0 m = []"
| "selections (Suc n) m = (let (r, m') = select_callis m in map_option fst r # selections n m')"

lemma selections_order:
  "pool_ok (bm_callis m) \<Longrightarrow> bp_order (bm_callis m) = xs @ ys \<Longrightarrow> selections (length xs) m = map Some xs"
proof (induction xs arbitrary: m ys)
  case (Cons c xs)
  let ?m = "m\<lparr>bm_callis := bm_callis m\<lparr>bp_order := (xs @ ys) @ [c]\<rparr>\<rparr>"
  have order: "bp_order (bm_callis m) = c # (xs @ ys)" using Cons.prems(2) by simp
  obtain r where r: "select_loop (Suc (length (xs @ ys))) (bm_callis m) = (Some (c, r), (bm_callis m)\<lparr>bp_order := (xs @ ys) @ [c]\<rparr>)"
    using select_first [OF Cons.prems(1) order] by metis
  have "pool_ok (bm_callis ?m)" using pool_ok_order [OF Cons.prems(1), of "(xs @ ys) @ [c]"] Cons.prems(1) order
    by (simp add: pool_ok_def)
  from Cons.IH [OF this, of "ys @ [c]"] r order show ?case by (simp add: select_callis_def)
qed simp

text \<open>
  Callis selection is a fair rotation: over as many calls as there are calles in the pool, each callis is
  selected exactly once, in the order of the pool, and none of the calls comes back empty.
\<close>

theorem callis_selection_rotates:
  assumes "bm_callis m = foldl pool_step blob_callis_pool_new ops"
  shows "selections (length (bp_order (bm_callis m))) m = map Some (bp_order (bm_callis m))
    \<and> set (bp_order (bm_callis m)) = fst ` set (bp_handles (bm_callis m)) \<and> distinct (bp_order (bm_callis m))"
proof -
  have ok: "pool_ok (bm_callis m)" unfolding assms by (rule pool.invar_reachable) simp
  from selections_order [OF ok, of "bp_order (bm_callis m)" "[]"] ok show ?thesis by (simp add: pool_ok_def)
qed

definition sample_pool :: "pool_op list" where
  "sample_pool = [PoolAdd 4 \<lparr>bs_chunk_size = 2, bs_ack_window_chunks = 2\<rparr>,
     PoolAdd 7 \<lparr>bs_chunk_size = 2, bs_ack_window_chunks = 2\<rparr>, PoolSelect]"

theorem callis_selection_rotates_witness:
  "selections 2 (sample_manager\<lparr>bm_callis := foldl pool_step blob_callis_pool_new sample_pool\<rparr>) = [Some 7, Some 4]"
proof -
  have "bp_order (foldl pool_step blob_callis_pool_new sample_pool) = [7, 4]"
    by (simp add: sample_pool_def pool_insert_def blob_callis_pool_new_def)
  with callis_selection_rotates [of "sample_manager\<lparr>bm_callis := foldl pool_step blob_callis_pool_new sample_pool\<rparr>" sample_pool]
  show ?thesis by (simp add: numeral_2_eq_2 del: selections.simps)
qed

end
