(* ===== verification/Blob_Tracking.thy ===== *)
theory Blob_Tracking
  imports Blob_Manager
begin

text \<open>
  Chunks on their way. Every chunk that a callis has been given and that is not acknowledged is known
  twice: the ring buffer of its stream has its slot in flight, and the manager's table of frames in
  flight has the frame's number with the stream and the callis. This theory shows that the two agree in
  every state the manager reaches, so that the loss of a callis finds every chunk it carried.
\<close>

section \<open>One ring buffer against the table\<close>

fun slot_tracked ::
  "(peer_message_id \<rightharpoonup> inflight_blob_frame) \<Rightarrow> peer_message_id \<Rightarrow> (peer_message_id \<rightharpoonup> nat) \<Rightarrow> outbound_slot \<Rightarrow> bool" where
  "slot_tracked table s ack (SlotInFlight k _ p callis _ _) \<longleftrightarrow>
     table p = Some \<lparr>ib_stream_id = s, ib_callis_id = callis, ib_is_chunk = True\<rparr> \<and> ack p = Some k"
| "slot_tracked table s ack (SlotWriting _ _ _ _ _ _) \<longleftrightarrow> False"
| "slot_tracked table s ack _ \<longleftrightarrow> True"

text \<open>The chunk numbers of the ring, 64 bits wide, are not used up, so that they tell its chunks apart.\<close>

definition ring_tracked :: "(peer_message_id \<rightharpoonup> inflight_blob_frame) \<Rightarrow> peer_message_id \<Rightarrow> outbound_state \<Rightarrow> bool" where
  "ring_tracked table s ring \<longleftrightarrow>
     outbound_inv ring \<and> oc_next_chunk_id (os_chunks ring) < u64_max
     \<and> (\<forall>slot \<in> set (oc_slots (os_chunks ring)). slot_tracked table s (oc_ack_map (os_chunks ring)) slot)"

lemma outbound_inv_chunks: "outbound_inv ring \<Longrightarrow> oc_inv (os_chunks ring)"
  by (auto simp: outbound_inv_def out_hist_def)

lemma tracked_flight:
  "slot_tracked table s ack slot \<Longrightarrow> slot_flight slot = Some (k, p) \<Longrightarrow>
     ack p = Some k \<and> (\<exists>callis. table p = Some \<lparr>ib_stream_id = s, ib_callis_id = callis, ib_is_chunk = True\<rparr> \<and> swept callis slot)"
  by (cases slot) (auto simp: swept_def)

lemma untracked_free: "slot_flight slot = None \<Longrightarrow> slot_tracked table s ack slot \<Longrightarrow> slot_tracked table' s' ack' slot"
  by (cases slot) auto

text \<open>
  A ring's slots stay tracked when the tables change only at the numbers \<open>P\<close>, and the slots that were in
  flight under such a number are gone.
\<close>

lemma slot_tracked_cong:
  "slot_tracked table s ack slot \<Longrightarrow>
   (\<And>k p. slot_flight slot = Some (k, p) \<Longrightarrow> table' p = table p \<and> ack' p = ack p) \<Longrightarrow> slot_tracked table' s ack' slot"
  by (cases slot) auto

lemma ring_tracked_table:
  assumes "ring_tracked table s ring" and "\<And>p e. table p = Some e \<Longrightarrow> ib_stream_id e = s \<Longrightarrow> table' p = Some e"
  shows "ring_tracked table' s ring"
  unfolding ring_tracked_def
proof (intro conjI ballI)
  show "outbound_inv ring" "oc_next_chunk_id (os_chunks ring) < u64_max" using assms(1) by (simp_all add: ring_tracked_def)
  fix slot assume "slot \<in> set (oc_slots (os_chunks ring))"
  then have "slot_tracked table s (oc_ack_map (os_chunks ring)) slot" using assms(1) by (simp add: ring_tracked_def)
  then show "slot_tracked table' s (oc_ack_map (os_chunks ring)) slot"
    using assms(2) by (cases slot) auto
qed

lemma tracked_ids: "ring_tracked table s ring \<Longrightarrow> oc_ids (os_chunks ring)"
  using outbound_inv_chunks [of ring] by (simp add: ring_tracked_def oc_inv_def)

section \<open>Operations that put nothing on its way\<close>

fun is_busy :: "outbound_slot \<Rightarrow> bool" where
  "is_busy (SlotInFlight _ _ _ _ _ _) = True"
| "is_busy (SlotWriting _ _ _ _ _ _) = True"
| "is_busy _ = False"

definition busy_slots :: "outbound_chunks \<Rightarrow> outbound_slot set" where
  "busy_slots c = {slot \<in> set (oc_slots c). is_busy slot}"

lemma idle_tracked: "\<not> is_busy slot \<Longrightarrow> slot_tracked table s ack slot"
  by (cases slot) auto

lemma ring_tracked_busy:
  "ring_tracked table s ring \<longleftrightarrow>
     outbound_inv ring \<and> oc_next_chunk_id (os_chunks ring) < u64_max
     \<and> (\<forall>slot \<in> busy_slots (os_chunks ring). slot_tracked table s (oc_ack_map (os_chunks ring)) slot)"
  unfolding ring_tracked_def busy_slots_def by (metis (mono_tags, lifting) idle_tracked mem_Collect_eq)

text \<open>New chunks fill empty slots: no slot becomes busy and the acknowledgement table stays.\<close>

definition fills :: "outbound_chunks \<Rightarrow> outbound_chunks \<Rightarrow> bool" where
  "fills c c' \<longleftrightarrow> oc_ack_map c' = oc_ack_map c \<and> busy_slots c' \<subseteq> busy_slots c"

lemma fills_refl [simp]: "fills c c"
  by (simp add: fills_def)

lemma fills_trans: "fills c c' \<Longrightarrow> fills c' c'' \<Longrightarrow> fills c c''"
  unfolding fills_def by auto

lemma fills_fields:
  "fills c (c\<lparr>oc_pending_full := x\<rparr>)" "fills c (c\<lparr>oc_write_buf := y\<rparr>)" "fills c (c\<lparr>oc_created_any := z\<rparr>)"
  by (simp_all add: fills_def busy_slots_def)

lemma fills_enqueue: "fills c (enqueue_chunk c d l)"
  by (auto simp: fills_def busy_slots_def enqueue_chunk_def dest!: subsetD [OF set_update_subset_insert] split: option.splits)

lemma fills_flush: "fills c (fst (flush_pending c))"
  by (auto simp: flush_pending_def split: option.splits intro: fills_trans [OF fills_fields(1) fills_enqueue])

lemma fills_fill: "fills c (fst (fill_write_buf c bytes n))"
  by (simp add: fill_write_buf_def Let_def fills_fields)

lemma fills_cut: "fills c (fst (cut_chunk c))"
proof -
  let ?c = "c\<lparr>oc_write_buf := drop (oc_chunk_size c) (oc_write_buf c), oc_created_any := True\<rparr>"
  have "fills c ?c" using fills_trans [OF fills_fields(2) fills_fields(3)] by blast
  from fills_trans [OF fills_trans [OF this fills_flush] fills_fields(1)] show ?thesis
    by (simp add: cut_chunk_def Let_def split_beta)
qed

lemma fills_push_loop: "fills c (fst (push_loop c bytes n notify))"
proof (induction c bytes n notify rule: push_loop.induct)
  case (1 c bytes n notify)
  obtain c' flushed where cut: "cut_chunk c = (c', flushed)" by force
  obtain c'' n' where fill: "fill_write_buf c' bytes n = (c'', n')" by force
  have "fills c c'" using fills_cut [of c] cut by simp
  moreover from this have "fills c c''" using fills_fill [of c' bytes n] fill fills_trans by auto
  moreover have "fills c'' (fst (push_loop c'' bytes n' (notify \<or> flushed)))"
    if "0 < oc_chunk_size c \<and> oc_chunk_size c \<le> length (oc_write_buf c) \<and> has_window_capacity_for c 1"
      "\<not> length bytes \<le> n"
    using 1 [OF that(1) cut [symmetric] refl that(2) fill [symmetric] refl] .
  ultimately show ?case
    using cut fill fills_trans by (subst push_loop.simps) (auto simp: Let_def)
qed

lemma fills_push: "fills c (snd (push_available c bytes))"
proof -
  have "fills c (fst (push_loop (fst (fill_write_buf c bytes 0)) bytes (snd (fill_write_buf c bytes 0)) False))"
    by (rule fills_trans [OF fills_fill fills_push_loop])
  then show ?thesis
    using fills_trans [OF _ fills_flush] by (auto simp: push_available_def Let_def split_beta)
qed

lemma fills_enqueues:
  "fills c (enqueue_chunk (c\<lparr>oc_pending_full := x\<rparr>) d l)" "fills c (enqueue_chunk (c\<lparr>oc_write_buf := y, oc_created_any := z\<rparr>) d l)"
  "fills c (enqueue_chunk ((enqueue_chunk (c\<lparr>oc_pending_full := x\<rparr>) d l)\<lparr>oc_write_buf := y\<rparr>) d' l')"
proof -
  show *: "fills c (enqueue_chunk (c\<lparr>oc_pending_full := x\<rparr>) d l)"
    by (rule fills_trans [OF fills_fields(1) fills_enqueue])
  show "fills c (enqueue_chunk (c\<lparr>oc_write_buf := y, oc_created_any := z\<rparr>) d l)"
    by (rule fills_trans [OF fills_trans [OF fills_fields(2) fills_fields(3)] fills_enqueue])
  show "fills c (enqueue_chunk ((enqueue_chunk (c\<lparr>oc_pending_full := x\<rparr>) d l)\<lparr>oc_write_buf := y\<rparr>) d' l')"
    by (rule fills_trans [OF fills_trans [OF * fills_fields(2)] fills_enqueue])
qed

lemma fills_finalize: "fills c (snd (finalize c))"
  by (simp add: finalize_def Let_def fills_enqueues split: option.splits)

text \<open>An operation of the ring buffer that only fills slots or changes the life cycle.\<close>

fun quiet_op :: "outbound_op \<Rightarrow> bool" where
  "quiet_op (TryPush _ _) = True"
| "quiet_op SealPass = True"
| "quiet_op (FailOp _) = True"
| "quiet_op MarkCompleteOp = True"
| "quiet_op CloseOp = True"
| "quiet_op _ = False"

lemma quiet_fills: "quiet_op x \<Longrightarrow> fills (os_chunks ring) (os_chunks (outbound_step ring x))"
  using fills_push [of "os_chunks ring"] fills_finalize [of "os_chunks ring"]
  by (cases x)
    (auto simp: ring_try_push_def ring_seal_pass_def ring_fail_def ring_mark_complete_def ring_close_def Let_def
      split_beta split: sum.splits finalize_decision.splits prod.splits)

lemma ring_tracked_quiet:
  "ring_tracked table s ring \<Longrightarrow> quiet_op x \<Longrightarrow> oc_next_chunk_id (os_chunks (outbound_step ring x)) < u64_max
     \<Longrightarrow> ring_tracked table s (outbound_step ring x)"
  using quiet_fills [of x ring] outbound.invar_step [of ring x] by (auto simp: ring_tracked_busy fills_def)

lemma ring_tracked_new:
  assumes "outbound_new cs ws = Inr ring" and "ws \<le> u64_max"
  shows "ring_tracked table s ring"
proof -
  have "outbound_inv ring" using assms by (intro outbound.invar_start) blast
  moreover have "busy_slots (os_chunks ring) = {}" "oc_next_chunk_id (os_chunks ring) = 0"
    using assms(1) by (auto simp: outbound_new_def chunks_new_def busy_slots_def split: if_splits)
  ultimately show ?thesis by (simp add: ring_tracked_busy)
qed

section \<open>Operations on chunks that are on their way\<close>

text \<open>The frame numbers in flight in a tracked ring are different for different slots.\<close>

lemma tracked_flight_unique:
  assumes "ring_tracked table s ring" and "i < length (oc_slots (os_chunks ring))" "j < length (oc_slots (os_chunks ring))"
    and "slot_flight (oc_slots (os_chunks ring) ! i) = Some (k, p)" "slot_flight (oc_slots (os_chunks ring) ! j) = Some (k', p)"
  shows "i = j"
proof -
  have "slot_tracked table s (oc_ack_map (os_chunks ring)) (oc_slots (os_chunks ring) ! x)" if "x < length (oc_slots (os_chunks ring))" for x
    using that assms(1) by (simp add: ring_tracked_def)
  with tracked_flight assms have "k = k'" by (metis option.inject)
  moreover have "index_ok (oc_slots (os_chunks ring)) (oc_chunk_index (os_chunks ring))"
    using tracked_ids [OF assms(1)] by (simp add: oc_ids_def)
  ultimately show ?thesis using assms slot_flight_key index_ok_inj by metis
qed

text \<open>An acknowledgement or an error takes the frame out of the table and out of the ring.\<close>

lemma ring_tracked_note:
  assumes tracked: "ring_tracked table s ring" and step: "x = NoteAckOp p \<or> x = NoteErrorOp p err"
  shows "ring_tracked (table(p := None)) s (outbound_step ring x)"
proof -
  let ?c = "os_chunks ring"
  let ?c' = "snd (chunks_note_completion ?c p (if x = NoteAckOp p then CompletionAck else CompletionError))"
  have chunks: "os_chunks (outbound_step ring x) = ?c'"
    using step by (auto simp: ring_note_ack_def ring_note_error_def ring_note_completion_def Let_def split_beta)
  have inv: "outbound_inv (outbound_step ring x)" using tracked by (intro outbound.invar_step) (simp add: ring_tracked_def)
  have ids: "oc_ids ?c" using tracked by (rule tracked_ids)
  have left: "oc_next_chunk_id ?c' < u64_max"
    using tracked by (simp add: ring_tracked_def chunks_note_completion_def Let_def split: option.splits)
  have slots: "slot_tracked table s (oc_ack_map ?c) slot" if "slot \<in> set (oc_slots ?c)" for slot
    using that tracked by (simp add: ring_tracked_def)
  have "slot_tracked (table(p := None)) s (oc_ack_map ?c') slot" if mem: "slot \<in> set (oc_slots ?c')" for slot
  proof (cases "oc_ack_map ?c p")
    case None
    then have same: "?c' = ?c" by (simp add: chunks_note_completion_def)
    then have slot: "slot_tracked table s (oc_ack_map ?c) slot" using mem slots by simp
    have "p' \<noteq> p" if "slot_flight slot = Some (k, p')" for k p'
      using tracked_flight [OF slot that] None by auto
    with slot_tracked_cong [OF slot] same show ?thesis by simp
  next
    case (Some k)
    obtain i where i: "i < length (oc_slots ?c)" "slot_flight (oc_slots ?c ! i) = Some (k, p)"
      and eq: "?c' = ?c\<lparr>oc_ack_map := (oc_ack_map ?c)(p := None), oc_chunk_index := (oc_chunk_index ?c)(k := None),
          oc_inflight := oc_inflight ?c - 1, oc_slots := (oc_slots ?c)[i := SlotEmpty]\<rparr>"
      using note_completion_eq [OF ids Some, of "if x = NoteAckOp p then CompletionAck else CompletionError"] by (metis snd_conv)
    from mem eq obtain j where j: "j < length (oc_slots ?c)" "slot = (oc_slots ?c)[i := SlotEmpty] ! j"
      by (auto simp: in_set_conv_nth)
    show ?thesis
    proof (cases "j = i")
      case True
      with j i(1) show ?thesis by simp
    next
      case False
      then have slot: "slot = oc_slots ?c ! j" using j by simp
      then have tr: "slot_tracked table s (oc_ack_map ?c) slot" using slots j by simp
      have "p' \<noteq> p" if "slot_flight slot = Some (k', p')" for k' p'
        using tracked_flight_unique [OF tracked j(1) i(1)] that slot i(2) False by auto
      with slot_tracked_cong [OF tr] eq show ?thesis by simp
    qed
  qed
  with inv chunks left show ?thesis by (simp add: ring_tracked_def)
qed

text \<open>After the sweep for a lost callis no slot of the ring is on that callis.\<close>

lemma sweep_chunks:
  assumes "outbound_inv ring"
  shows "os_chunks (outbound_step ring (MarkCallisReplayReady callis)) =
     snd (chunks_mark_callis_replay_ready (os_chunks ring) callis)"
    "oc_slots (os_chunks (outbound_step ring (MarkCallisReplayReady callis))) =
     map (\<lambda>slot. fst (replay_slot callis slot)) (oc_slots (os_chunks ring))"
  using mark_callis_replay_ready_eq [OF outbound_inv_chunks [OF assms], of callis]
  by (simp_all add: ring_mark_callis_replay_ready_def Let_def split_beta)

lemma replayed_not_swept: "\<not> swept callis (fst (replay_slot callis slot))"
  by (cases slot) (auto simp: swept_def replay_slot_def)

lemma ring_tracked_sweep:
  assumes tracked: "ring_tracked table s ring"
    and table': "\<And>p e. table p = Some e \<Longrightarrow> ib_stream_id e = s \<Longrightarrow> ib_callis_id e \<noteq> callis \<Longrightarrow> table' p = Some e"
  shows "ring_tracked table' s (outbound_step ring (MarkCallisReplayReady callis))"
proof -
  let ?ring = "outbound_step ring (MarkCallisReplayReady callis)"
  let ?c = "os_chunks ring"
  have inv: "outbound_inv ring" using tracked by (simp add: ring_tracked_def)
  note slots = sweep_chunks(2) [OF inv, of callis]
  have ack: "oc_ack_map (os_chunks ?ring) = oc_ack_map ?c |` (- swept_flights callis (oc_slots ?c))"
    using mark_callis_replay_ready_eq [OF outbound_inv_chunks [OF inv], of callis]
    by (simp add: ring_mark_callis_replay_ready_def Let_def split_beta)
  have "slot_tracked table' s (oc_ack_map (os_chunks ?ring)) slot" if mem: "slot \<in> set (oc_slots (os_chunks ?ring))" for slot
  proof -
    from mem slots obtain i where i: "i < length (oc_slots ?c)" "slot = fst (replay_slot callis (oc_slots ?c ! i))"
      by (auto simp: in_set_conv_nth)
    have old: "slot_tracked table s (oc_ack_map ?c) (oc_slots ?c ! i)" using tracked i(1) by (simp add: ring_tracked_def)
    show ?thesis
    proof (cases "swept callis (oc_slots ?c ! i)")
      case True
      then show ?thesis using i(2) by (simp add: replay_slot_swept)
    next
      case False
      then have same: "slot = oc_slots ?c ! i" using i(2) by (simp add: replay_slot_swept)
      show ?thesis
      proof (cases "slot_flight slot")
        case None
        then show ?thesis using old same untracked_free by blast
      next
        case (Some kp)
        obtain k p where kp: "kp = (k, p)" by (cases kp)
        obtain c' where c': "table p = Some \<lparr>ib_stream_id = s, ib_callis_id = c', ib_is_chunk = True\<rparr>" "swept c' slot"
          and ackp: "oc_ack_map ?c p = Some k"
          using tracked_flight [of table s "oc_ack_map ?c" slot k p] old same Some kp by auto
        have "c' \<noteq> callis" using c'(2) False same by auto
        then have tab: "table' p = table p" using table' [OF c'(1)] c'(1) by simp
        have "p \<notin> swept_flights callis (oc_slots ?c)"
        proof
          assume "p \<in> swept_flights callis (oc_slots ?c)"
          then obtain j k' where j: "j < length (oc_slots ?c)" "swept callis (oc_slots ?c ! j)"
            "slot_flight (oc_slots ?c ! j) = Some (k', p)"
            by (auto simp: swept_flights_def in_set_conv_nth)
          from tracked_flight_unique [OF tracked i(1) j(1)] Some kp same j(3) have "i = j" by auto
          with j(2) False show False by simp
        qed
        then have "oc_ack_map (os_chunks ?ring) p = oc_ack_map ?c p" by (simp only: ack) simp
        with tab have "table' p' = table p' \<and> oc_ack_map (os_chunks ?ring) p' = oc_ack_map ?c p'"
          if "slot_flight slot = Some (k', p')" for k' p' using that Some kp by simp
        with slot_tracked_cong [OF old [folded same]] show ?thesis by blast
      qed
    qed
  qed
  moreover have "oc_next_chunk_id (os_chunks ?ring) < u64_max"
    unfolding sweep_chunks(1) [OF inv]
    using tracked mark_callis_replay_ready_eq [OF outbound_inv_chunks [OF inv], of callis]
    by (simp add: ring_tracked_def)
  moreover have "outbound_inv ?ring" using inv by (rule outbound.invar_step)
  ultimately show ?thesis by (simp add: ring_tracked_def)
qed

text \<open>A chunk that is leased and marked is in flight, in the ring and in the table.\<close>

lemma lease_and_mark:
  assumes ids: "oc_ids c" and lease: "chunks_lease_next c callis p = (Some lease, c')"
  obtains i where "i < length (oc_slots c)" "slot_flight (oc_slots c ! i) = None"
    "snd (mark_inflight c' lease) = c\<lparr>oc_slots := (oc_slots c)[i := SlotInFlight (cl_chunk_id lease) (cl_data lease) p callis
        (cl_is_last lease) (cl_slot_seq lease)],
      oc_ack_map := (oc_ack_map c)(p \<mapsto> cl_chunk_id lease), oc_inflight := sat_add (oc_inflight c) 1\<rparr>"
proof -
  from lease_next_cases [of c callis p] lease obtain i where i: "leased_from c i lease c'" "slot_flight (oc_slots c ! i) = None"
    and of_lease: "cl_callis_id lease = callis" "cl_peer_msg_id lease = p" by auto
  from i(1) have len: "i < length (oc_slots c)" and key: "slot_key (oc_slots c ! i) = Some (cl_chunk_id lease)"
    and c': "c' = c\<lparr>oc_slots := (oc_slots c)[i := SlotWriting (cl_chunk_id lease) (cl_data lease) p callis
        (cl_is_last lease) (cl_slot_seq lease)]\<rparr>"
    using of_lease by (simp_all add: leased_from_def)
  have "oc_chunk_index c (cl_chunk_id lease) = Some i" using ids len key by (simp add: oc_ids_def index_ok_def)
  then have "snd (mark_inflight c' lease) = c\<lparr>oc_slots := (oc_slots c)[i := SlotInFlight (cl_chunk_id lease) (cl_data lease)
        p callis (cl_is_last lease) (cl_slot_seq lease)],
      oc_ack_map := (oc_ack_map c)(p \<mapsto> cl_chunk_id lease), oc_inflight := sat_add (oc_inflight c) 1\<rparr>"
    using len of_lease by (simp add: c' mark_inflight_def)
  with that len i(2) show thesis by blast
qed

lemma ring_tracked_lease:
  assumes tracked: "ring_tracked table s ring" and fresh: "table p = None"
    and lease: "ring_lease_next ring callis p = (Some lease, ring')"
  shows "ring_tracked (table(p \<mapsto> \<lparr>ib_stream_id = s, ib_callis_id = callis, ib_is_chunk = True\<rparr>)) s
    (ring_mark_chunk_inflight ring' lease)"
proof -
  let ?c = "os_chunks ring"
  let ?table = "table(p \<mapsto> \<lparr>ib_stream_id = s, ib_callis_id = callis, ib_is_chunk = True\<rparr>)"
  have inv: "outbound_inv ring" using tracked by (simp add: ring_tracked_def)
  have "ring' = outbound_step ring (LeaseNext callis p)" using lease by simp
  then have inv': "outbound_inv (ring_mark_chunk_inflight ring' lease)"
    using outbound.invar_step [OF outbound.invar_step [OF inv, of "LeaseNext callis p"], of "MarkInflight lease"] by simp
  from lease obtain c' where c': "chunks_lease_next ?c callis p = (Some lease, c')" and ring': "ring' = ring\<lparr>os_chunks := c'\<rparr>"
    by (cases "chunks_lease_next ?c callis p") (auto simp: ring_lease_next_def split: if_splits)
  obtain i where i: "i < length (oc_slots ?c)" "slot_flight (oc_slots ?c ! i) = None"
    and eq: "snd (mark_inflight c' lease) = ?c\<lparr>oc_slots := (oc_slots ?c)[i := SlotInFlight (cl_chunk_id lease) (cl_data lease)
        p callis (cl_is_last lease) (cl_slot_seq lease)],
      oc_ack_map := (oc_ack_map ?c)(p \<mapsto> cl_chunk_id lease), oc_inflight := sat_add (oc_inflight ?c) 1\<rparr>"
    by (rule lease_and_mark [OF tracked_ids [OF tracked] c'])
  have chunks: "os_chunks (ring_mark_chunk_inflight ring' lease) = snd (mark_inflight c' lease)"
    by (simp add: ring_mark_chunk_inflight_def ring')
  have "slot_tracked ?table s ((oc_ack_map ?c)(p \<mapsto> cl_chunk_id lease)) slot"
    if mem: "slot \<in> set ((oc_slots ?c)[i := SlotInFlight (cl_chunk_id lease) (cl_data lease)
        p callis (cl_is_last lease) (cl_slot_seq lease)])" for slot
  proof -
    from set_update_subset_insert mem consider "slot = SlotInFlight (cl_chunk_id lease) (cl_data lease)
        p callis (cl_is_last lease) (cl_slot_seq lease)" | "slot \<in> set (oc_slots ?c)" by fastforce
    then show ?thesis
    proof cases
      case 2
      then have old: "slot_tracked table s (oc_ack_map ?c) slot" using tracked by (simp add: ring_tracked_def)
      have "p' \<noteq> p" if "slot_flight slot = Some (k, p')" for k p'
        using tracked_flight [OF old that] fresh by auto
      with slot_tracked_cong [OF old] show ?thesis by simp
    qed simp
  qed
  with inv' tracked show ?thesis by (simp add: ring_tracked_def chunks eq)
qed

section \<open>All streams of the manager\<close>

abbreviation in_flight :: "blob_manager \<Rightarrow> peer_message_id \<rightharpoonup> inflight_blob_frame" where
  "in_flight m \<equiv> map_of (bo_inflight (bm_outbound m))"

abbreviation streams_of :: "blob_manager \<Rightarrow> (peer_message_id \<times> nat) list" where
  "streams_of m \<equiv> bo_streams (bm_outbound m)"

definition chunks_tracked :: "blob_manager \<Rightarrow> bool" where
  "chunks_tracked m \<longleftrightarrow>
     distinct (map fst (streams_of m)) \<and> distinct (map snd (streams_of m)) \<and> distinct (map fst (bo_inflight (bm_outbound m)))
     \<and> (\<forall>(s, h) \<in> set (streams_of m). h < length (bm_rings m) \<and> ring_tracked (in_flight m) s (bm_rings m ! h))"

lemma chunks_trackedD:
  assumes "chunks_tracked m" and "(s, h) \<in> set (streams_of m)"
  shows "h < length (bm_rings m)" "ring_tracked (in_flight m) s (bm_rings m ! h)"
  using assms by (auto simp: chunks_tracked_def)

lemma stream_handle_unique:
  assumes "chunks_tracked m" and "(s, h) \<in> set (streams_of m)" "(s', h) \<in> set (streams_of m)"
  shows "s' = s"
proof -
  have "inj_on snd (set (streams_of m))" using assms(1) by (simp add: chunks_tracked_def distinct_map)
  from inj_onD [OF this _ assms(2,3)] show ?thesis by simp
qed

lemma stream_ring_mem: "stream_ring m s = Some h \<Longrightarrow> (s, h) \<in> set (streams_of m)"
  by (simp add: stream_ring_def map_of_SomeD)

lemma mem_stream_ring: "chunks_tracked m \<Longrightarrow> (s, h) \<in> set (streams_of m) \<Longrightarrow> stream_ring m s = Some h"
  by (simp add: stream_ring_def chunks_tracked_def)

text \<open>Fewer streams, another table of frames, other rings.\<close>

lemma chunks_trackedI:
  assumes "chunks_tracked m" and "set (streams_of m') \<subseteq> set (streams_of m)"
    and "distinct (map fst (streams_of m'))" "distinct (map snd (streams_of m'))"
    and "distinct (map fst (bo_inflight (bm_outbound m')))"
    and "length (bm_rings m') = length (bm_rings m)"
    and "\<And>s h. (s, h) \<in> set (streams_of m') \<Longrightarrow> ring_tracked (in_flight m) s (bm_rings m ! h)
           \<Longrightarrow> h < length (bm_rings m) \<Longrightarrow> ring_tracked (in_flight m') s (bm_rings m' ! h)"
  shows "chunks_tracked m'"
  unfolding chunks_tracked_def
proof (intro conjI ballI, goal_cases)
  case (4 x)
  obtain s h where x: "x = (s, h)" by (cases x)
  with 4 have "(s, h) \<in> set (streams_of m')" by simp
  with x assms(2) chunks_trackedD [OF assms(1), of s h] assms(6,7) show ?case by auto
qed (use assms in simp_all)

lemma chunks_tracked_same:
  assumes "chunks_tracked m" and "streams_of m' = streams_of m" "bo_inflight (bm_outbound m') = bo_inflight (bm_outbound m)"
    "bm_rings m' = bm_rings m"
  shows "chunks_tracked m'"
  using assms by (simp add: chunks_tracked_def)

lemma chunks_tracked_ring:
  assumes "chunks_tracked m"
    and "\<And>s. (s, h) \<in> set (streams_of m) \<Longrightarrow> ring_tracked (in_flight m) s (bm_rings m ! h)
            \<Longrightarrow> ring_tracked (in_flight m) s (f (bm_rings m ! h))"
  shows "chunks_tracked (on_ring m h f)"
proof (rule chunks_trackedI [OF assms(1)])
  fix s h' assume "(s, h') \<in> set (streams_of (on_ring m h f))" "ring_tracked (in_flight m) s (bm_rings m ! h')" "h' < length (bm_rings m)"
  with assms(2) [of s] show "ring_tracked (in_flight (on_ring m h f)) s (bm_rings (on_ring m h f) ! h')"
    by (cases "h' = h") auto
qed (use assms(1) in \<open>auto simp: chunks_tracked_def\<close>)

text \<open>A ring that only changes its life cycle.\<close>

lemma lifecycle_tracked:
  "ring_tracked table s ring \<Longrightarrow> ring_tracked table s (ring_fail ring err)"
  "ring_tracked table s ring \<Longrightarrow> ring_tracked table s (ring_close ring)"
  "ring_tracked table s ring \<Longrightarrow> ring_tracked table s (ring_mark_complete ring)"
  using ring_tracked_quiet [of table s ring "FailOp err"] ring_tracked_quiet [of table s ring CloseOp]
    ring_tracked_quiet [of table s ring MarkCompleteOp]
  by (auto simp: ring_tracked_def ring_fail_def ring_close_def ring_mark_complete_def)

section \<open>The methods\<close>

lemma distinct_update_value:
  "distinct (map snd al) \<Longrightarrow> v \<notin> snd ` set al \<Longrightarrow> distinct (map snd (AList.update k v al))"
proof (induction al)
  case (Cons a al)
  have "snd ` set (AList.update k v al) \<subseteq> insert v (snd ` set al)" using update_mem by fastforce
  with Cons show ?case by (cases a) auto
qed simp

lemma tracked_enqueue: "chunks_tracked m \<Longrightarrow> chunks_tracked (snd (enqueue_blob_write m w))"
  by (rule chunks_tracked_same [where m = m])
    (auto simp: enqueue_blob_write_def enqueue_response_def notify_work_def Let_def split: option.splits if_splits)

lemma tracked_register:
  assumes tracked: "chunks_tracked m"
  shows "chunks_tracked (snd (register_outbound_stream m s settings))"
proof (cases "outbound_new (unat (bs_chunk_size settings)) (unat (bs_ack_window_chunks settings))")
  case (Inl e)
  with tracked show ?thesis by (simp add: register_outbound_stream_def)
next
  case (Inr ring)
  let ?h = "length (bm_rings m)"
  let ?m = "snd (register_outbound_stream m s settings)"
  have streams: "streams_of ?m = AList.update s ?h (streams_of m)" "bm_rings ?m = bm_rings m @ [ring]"
    "bo_inflight (bm_outbound ?m) = bo_inflight (bm_outbound m)"
    using Inr by (simp_all add: register_outbound_stream_def outbound_add_stream_def Let_def)
  have "unat (bs_ack_window_chunks settings) \<le> u64_max"
    using unsigned_less [where 'a = nat, of "bs_ack_window_chunks settings"] by simp
  then have new: "ring_tracked table s' ring" for table s' using ring_tracked_new [OF Inr] by blast
  have old: "x \<noteq> ?h" if "x \<in> snd ` set (streams_of m)" for x
    using that chunks_trackedD(1) [OF tracked] by force
  have "distinct (map snd (AList.update s ?h (streams_of m)))" 
    using tracked old by (intro distinct_update_value) (auto simp: chunks_tracked_def)
  moreover have "h < Suc ?h \<and> ring_tracked (in_flight m) s' ((bm_rings m @ [ring]) ! h)"
    if "(s', h) \<in> set (AList.update s ?h (streams_of m))" for s' h
    using update_mem [OF that] new chunks_trackedD [OF tracked, of s' h] by (auto simp: nth_append)
  ultimately show ?thesis
    using tracked by (auto simp: chunks_tracked_def streams distinct_update)
qed

lemma distinct_filter_map: "distinct (map f xs) \<Longrightarrow> distinct (map f (filter P xs))"
  by (rule distinct_map_filter)

lemma tracked_drop:
  assumes tracked: "chunks_tracked m"
    and m': "bm_outbound m' = snd (outbound_drop_stream (bm_outbound m) s0)" "bm_rings m' = bm_rings m"
  shows "chunks_tracked m'"
proof (rule chunks_trackedI [OF tracked])
  have streams: "streams_of m' = AList.delete s0 (streams_of m)"
    and infl: "bo_inflight (bm_outbound m') = filter (\<lambda>(_, e). ib_stream_id e \<noteq> s0) (bo_inflight (bm_outbound m))"
    by (simp_all add: m' outbound_drop_stream_def Let_def)
  show "set (streams_of m') \<subseteq> set (streams_of m)" by (simp add: streams delete_subset)
  show "distinct (map fst (streams_of m'))" "distinct (map snd (streams_of m'))"
    using tracked by (simp_all add: streams chunks_tracked_def distinct_delete distinct_map_delete)
  show "distinct (map fst (bo_inflight (bm_outbound m')))"
    using tracked by (simp add: infl chunks_tracked_def distinct_filter_map)
  show "length (bm_rings m') = length (bm_rings m)" by (simp add: m')
  fix s h assume "(s, h) \<in> set (streams_of m')" and tr: "ring_tracked (in_flight m) s (bm_rings m ! h)"
  then have "s \<noteq> s0" by (auto simp: streams set_alist_delete)
  moreover have "distinct (map fst (bo_inflight (bm_outbound m)))" using tracked by (simp add: chunks_tracked_def)
  ultimately show "ring_tracked (in_flight m') s (bm_rings m' ! h)"
    by (intro ring_tracked_table [OF tr, unfolded m'(2) [symmetric]]) (auto simp: infl map_of_filter_snd)
qed

lemma tracked_unregister: "chunks_tracked m \<Longrightarrow> chunks_tracked (unregister_outbound_stream m s)"
proof -
  assume tracked: "chunks_tracked m"
  obtain ring b where drop: "outbound_drop_stream (bm_outbound (release_outbound m s)) s = (ring, b)" by force
  have "chunks_tracked ((release_outbound m s)\<lparr>bm_outbound := b\<rparr>)"
    by (rule tracked_drop [OF tracked, of _ s]) (use drop in simp_all)
  then show ?thesis
    using drop by (auto simp: unregister_outbound_stream_def Let_def split: option.splits
        intro!: chunks_tracked_ring lifecycle_tracked)
qed

lemma tracked_fail_stream: "chunks_tracked m \<Longrightarrow> chunks_tracked (fail_stream m s err)"
proof -
  assume tracked: "chunks_tracked m"
  obtain ring b where drop: "outbound_drop_stream (bm_outbound (release_outbound m s)) s = (ring, b)" by force
  have "chunks_tracked ((release_outbound m s)\<lparr>bm_outbound := b\<rparr>)"
    by (rule tracked_drop [OF tracked, of _ s]) (use drop in simp_all)
  then show ?thesis
    using drop by (auto simp: fail_stream_def Let_def split: option.splits
        intro!: chunks_tracked_ring lifecycle_tracked)
qed

text \<open>An answer from the peer takes the frame out of the table; the ring of its stream follows.\<close>

lemma tracked_take:
  assumes tracked: "chunks_tracked m" and take: "outbound_take_inflight (bm_outbound m) p = ((entry, ring), b)"
    and x: "x = NoteAckOp p \<or> x = NoteErrorOp p err"
  shows "entry = None \<Longrightarrow> chunks_tracked (m\<lparr>bm_outbound := b\<rparr>)"
    "entry \<noteq> None \<Longrightarrow> ring = None \<Longrightarrow> chunks_tracked (m\<lparr>bm_outbound := b\<rparr>)"
    "entry \<noteq> None \<Longrightarrow> ring = Some h \<Longrightarrow> chunks_tracked (on_ring (m\<lparr>bm_outbound := b\<rparr>) h (\<lambda>r. outbound_step r x))"
proof -
  have keys: "distinct (map fst (bo_inflight (bm_outbound m)))" using tracked by (simp add: chunks_tracked_def)
  have b: "bo_streams b = streams_of m" "bo_inflight b = AList.delete p (bo_inflight (bm_outbound m))"
    and entry: "entry = in_flight m p" "ring = (case entry of Some e \<Rightarrow> stream_ring m (ib_stream_id e) | None \<Rightarrow> None)"
    using take by (auto simp: outbound_take_inflight_def Let_def stream_ring_def split: option.splits)
  have table: "map_of (bo_inflight b) = (in_flight m)(p := None)" using keys by (simp add: b delete_conv')
  have other: "ring_tracked ((in_flight m)(p := None)) s r"
    if "ring_tracked (in_flight m) s r" "\<And>e. in_flight m p = Some e \<Longrightarrow> ib_stream_id e \<noteq> s" for s r
    by (rule ring_tracked_table [OF that(1)]) (use that(2) in auto)
  have base: "set (bo_streams b) \<subseteq> set (streams_of m)" "distinct (map fst (bo_streams b))"
    "distinct (map snd (bo_streams b))" "distinct (map fst (bo_inflight b))"
    using tracked keys by (simp_all add: b chunks_tracked_def distinct_delete)
  have absent: "ib_stream_id e \<noteq> s"
    if "in_flight m p = Some e" "ring = None" "(s, h) \<in> set (streams_of m)" for e s h
    using that entry mem_stream_ring [OF tracked] by auto
  show "chunks_tracked (m\<lparr>bm_outbound := b\<rparr>)" if "entry = None"
    by (rule chunks_trackedI [OF tracked]) (use base that entry other in \<open>auto simp: table\<close>)
  show "chunks_tracked (m\<lparr>bm_outbound := b\<rparr>)" if "entry \<noteq> None" "ring = None"
    by (rule chunks_trackedI [OF tracked])
      (use base that absent other in \<open>auto simp: table b(1)\<close>)
  show "chunks_tracked (on_ring (m\<lparr>bm_outbound := b\<rparr>) h (\<lambda>r. outbound_step r x))"
    if some: "entry \<noteq> None" "ring = Some h"
  proof (rule chunks_trackedI [OF tracked])
    obtain e where e: "in_flight m p = Some e" "stream_ring m (ib_stream_id e) = Some h"
      using some entry by (auto split: option.splits)
    fix s h'
    assume mem: "(s, h') \<in> set (streams_of (on_ring (m\<lparr>bm_outbound := b\<rparr>) h (\<lambda>r. outbound_step r x)))"
      and tr: "ring_tracked (in_flight m) s (bm_rings m ! h')" and len: "h' < length (bm_rings m)"
    show "ring_tracked (in_flight (on_ring (m\<lparr>bm_outbound := b\<rparr>) h (\<lambda>r. outbound_step r x))) s
        (bm_rings (on_ring (m\<lparr>bm_outbound := b\<rparr>) h (\<lambda>r. outbound_step r x)) ! h')"
    proof (cases "h' = h")
      case True
      with ring_tracked_note [OF tr x] len show ?thesis by (simp add: table)
    next
      case False
      then have "s \<noteq> ib_stream_id e" using mem mem_stream_ring [OF tracked, of s h'] e(2) b(1) by auto
      with other [OF tr] e(1) False show ?thesis by (simp add: table)
    qed
  qed (use base in auto)
qed

lemma notify_sel [simp]:
  "bm_outbound (notify_work m) = bm_outbound m" "bm_rings (notify_work m) = bm_rings m" "bm_inbound (notify_work m) = bm_inbound m"
  "bm_recv_rings (notify_work m) = bm_recv_rings m" "bm_receivers (notify_work m) = bm_receivers m"
  "bm_reservations (notify_work m) = bm_reservations m" "bm_buffer_tracker (notify_work m) = bm_buffer_tracker m"
  "bm_allocator (notify_work m) = bm_allocator m" "bm_callis (notify_work m) = bm_callis m"
  by (simp_all add: notify_work_def)

lemma tracked_notify [simp]: "chunks_tracked (notify_work m) = chunks_tracked m"
  by (simp add: chunks_tracked_def)

lemma on_ring_notify: "on_ring (notify_work m) h f = notify_work (on_ring m h f)"
  by (simp add: on_ring_def notify_work_def)

lemma tracked_ack: "chunks_tracked m \<Longrightarrow> chunks_tracked (blob_handle_ack m p)"
  using tracked_take [where m = m and p = p and x = "NoteAckOp p"]
  by (auto simp: blob_handle_ack_def Let_def on_ring_notify split: prod.splits option.splits)

lemma tracked_fail_outbound: "chunks_tracked m \<Longrightarrow> chunks_tracked (snd (fail_outbound_stream m s err))"
  by (auto simp: fail_outbound_stream_def split: option.splits
      intro!: tracked_unregister chunks_tracked_ring lifecycle_tracked)

lemma fail_inbound_outbound [simp]:
  "bm_outbound (snd (fail_inbound_stream m s err)) = bm_outbound m" "bm_rings (snd (fail_inbound_stream m s err)) = bm_rings m"
  by (auto simp: fail_inbound_stream_def take_pending_request_def remove_recv_stream_def split: option.splits)

lemma tracked_error: "chunks_tracked m \<Longrightarrow> chunks_tracked (blob_handle_error m p err)"
proof -
  assume tracked: "chunks_tracked m"
  obtain entry ring b where take: "outbound_take_inflight (bm_outbound m) p = ((entry, ring), b)" by (metis surj_pair)
  note steps = tracked_take [OF tracked take, where x = "NoteErrorOp p err" and err = err, simplified]
  show ?thesis
  proof (cases entry)
    case (Some e)
    with take steps show ?thesis
      by (auto simp: blob_handle_error_def Let_def on_ring_notify split: option.splits)
  next
    case None
    let ?m = "m\<lparr>bm_outbound := b\<rparr>"
    obtain ok m' where fail: "fail_outbound_stream ?m p err = (ok, m')" by force
    have "chunks_tracked m'" using tracked_fail_outbound [OF steps(1) [OF None], of p err] fail by simp
    moreover from this have "chunks_tracked (snd (fail_inbound_stream m' p err))"
      by (rule chunks_tracked_same) simp_all
    ultimately show ?thesis
      using None take fail by (simp add: blob_handle_error_def Let_def split: bool.splits)
  qed
qed

lemma tracked_complete: "chunks_tracked m \<Longrightarrow> chunks_tracked (snd (handle_complete m s))"
  by (auto simp: handle_complete_def split: option.splits intro!: chunks_tracked_ring lifecycle_tracked)

text \<open>A sweep over several rings.\<close>

abbreviation sweep_ring :: "blob_manager \<Rightarrow> nat \<Rightarrow> nat \<Rightarrow> blob_manager" where
  "sweep_ring m callis h \<equiv> on_ring m h (\<lambda>r. snd (ring_mark_callis_replay_ready r callis))"

lemma sweep_rings:
  "bm_outbound (foldl (\<lambda>m (callis, h). sweep_ring m callis h) m sweeps) = bm_outbound m"
  "length (bm_rings (foldl (\<lambda>m (callis, h). sweep_ring m callis h) m sweeps)) = length (bm_rings m)"
  by (induction sweeps arbitrary: m) auto

text \<open>
  Taking the frames of the lost calles out of the table and sweeping the rings of their streams: every
  slot that was on a lost callis has been swept.
\<close>

lemma tracked_sweeps:
  fixes lost :: "nat \<Rightarrow> bool"
  assumes keys: "distinct (map fst (streams_of m))" "distinct (map snd (streams_of m))" "distinct (map fst (bo_inflight (bm_outbound m)))"
    and streams: "\<And>s h. (s, h) \<in> set (streams_of m) \<Longrightarrow> h < length (bm_rings m)
        \<and> ring_tracked (table s) s (bm_rings m ! h)
        \<and> (\<forall>p e. table s p = Some e \<longrightarrow> ib_stream_id e = s \<longrightarrow> in_flight m p = Some e \<or> (ib_callis_id e, h) \<in> set sweeps)"
  shows "chunks_tracked (foldl (\<lambda>m (callis, h). sweep_ring m callis h) m sweeps)"
  using assms
proof (induction sweeps arbitrary: m table)
  case Nil
  then show ?case
    unfolding chunks_tracked_def by (fastforce intro: ring_tracked_table)
next
  case (Cons sweep sweeps)
  obtain callis h0 where sweep: "sweep = (callis, h0)" by (cases sweep)
  let ?m = "sweep_ring m callis h0"
  let ?table = "\<lambda>s. if (s, h0) \<in> set (streams_of m)
      then (\<lambda>p. case table s p of Some e \<Rightarrow> if ib_callis_id e = callis \<and> in_flight m p \<noteq> Some e then None else Some e | None \<Rightarrow> None)
      else table s"
  have "chunks_tracked (foldl (\<lambda>m (callis, h). sweep_ring m callis h) ?m sweeps)"
  proof (rule Cons.IH [where table = ?table])
    fix s h assume "(s, h) \<in> set (streams_of ?m)"
    then have mem: "(s, h) \<in> set (streams_of m)" by simp
    note old = Cons.prems(4) [OF mem]
    show "h < length (bm_rings ?m) \<and> ring_tracked (?table s) s (bm_rings ?m ! h)
        \<and> (\<forall>p e. ?table s p = Some e \<longrightarrow> ib_stream_id e = s \<longrightarrow> in_flight ?m p = Some e \<or> (ib_callis_id e, h) \<in> set sweeps)"
    proof (cases "h = h0")
      case True
      have "ring_tracked (?table s) s (outbound_step (bm_rings m ! h) (MarkCallisReplayReady callis))"
        by (rule ring_tracked_sweep [of "table s"]) (use old mem True in auto)
      with True old mem sweep show ?thesis by (auto split: option.splits if_splits)
    next
      case False
      have "(s, h0) \<notin> set (streams_of m)"
        using mem False Cons.prems(1) by (metis eq_key_imp_eq_value)
      with False old mem sweep show ?thesis by auto
    qed
  qed (use Cons.prems in simp_all)
  with sweep show ?case by simp
qed

lemma requeue_fields:
  "bo_streams (snd (outbound_requeue lost b)) = bo_streams b"
  "bo_inflight (snd (outbound_requeue lost b)) = filter (\<lambda>(_, e). \<not> lost (ib_callis_id e)) (bo_inflight b)"
  "fst (outbound_requeue lost b) = filter (\<lambda>(_, e). lost (ib_callis_id e)) (bo_inflight b)"
  by (simp_all add: outbound_requeue_def requeue_responses_def Let_def)

text \<open>
  The table without the frames of the lost calles, and sweeps that cover what was taken out.
\<close>

lemma tracked_requeue:
  assumes tracked: "chunks_tracked m"
    and cover: "\<And>p e h. in_flight m p = Some e \<Longrightarrow> lost (ib_callis_id e) \<Longrightarrow> ib_is_chunk e
        \<Longrightarrow> stream_ring m (ib_stream_id e) = Some h \<Longrightarrow> (ib_callis_id e, h) \<in> set sweeps"
  shows "chunks_tracked (foldl (\<lambda>m (callis, h). sweep_ring m callis h)
    (m\<lparr>bm_outbound := snd (outbound_requeue lost (bm_outbound m))\<rparr>) sweeps)"
proof (rule tracked_sweeps [where table = "\<lambda>s p. case in_flight m p of Some e \<Rightarrow> if ib_stream_id e = s \<and> ib_is_chunk e then Some e else None | None \<Rightarrow> None"])
  let ?m = "m\<lparr>bm_outbound := snd (outbound_requeue lost (bm_outbound m))\<rparr>"
  let ?table = "\<lambda>s p. case in_flight m p of Some e \<Rightarrow> if ib_stream_id e = s \<and> ib_is_chunk e then Some e else None | None \<Rightarrow> None"
  have keys: "distinct (map fst (bo_inflight (bm_outbound m)))" using tracked by (simp add: chunks_tracked_def)
  show "distinct (map fst (streams_of ?m))" "distinct (map snd (streams_of ?m))" "distinct (map fst (bo_inflight (bm_outbound ?m)))"
    using tracked by (simp_all add: requeue_fields chunks_tracked_def distinct_filter_map)
  fix s h assume "(s, h) \<in> set (streams_of ?m)"
  then have mem: "(s, h) \<in> set (streams_of m)" by (simp add: requeue_fields)
  note ring = chunks_trackedD [OF tracked mem]
  have "ring_tracked (?table s) s (bm_rings m ! h)"
    using ring(2) unfolding ring_tracked_def by (fastforce elim: slot_tracked.elims)
  moreover have "in_flight ?m p = Some e \<or> (ib_callis_id e, h) \<in> set sweeps"
    if "?table s p = Some e" "ib_stream_id e = s" for p e
  proof -
    from that have e: "in_flight m p = Some e" "ib_is_chunk e" by (auto split: option.splits if_splits)
    have "in_flight ?m p = (if lost (ib_callis_id e) then None else Some e)"
      using map_of_filter_snd [OF keys, of "\<lambda>e. \<not> lost (ib_callis_id e)" p] e(1) by (simp add: requeue_fields)
    with cover [OF e(1) _ e(2)] that(2) mem_stream_ring [OF tracked mem] show ?thesis by auto
  qed
  ultimately show "h < length (bm_rings ?m) \<and> ring_tracked (?table s) s (bm_rings ?m ! h)
      \<and> (\<forall>p e. ?table s p = Some e \<longrightarrow> ib_stream_id e = s \<longrightarrow> in_flight ?m p = Some e \<or> (ib_callis_id e, h) \<in> set sweeps)"
    using ring(1) by simp
qed

lemma in_map_filter: "y \<in> set (List.map_filter f xs) \<longleftrightarrow> (\<exists>x \<in> set xs. f x = Some y)"
  by (auto simp: set_map_filter)

lemma tracked_requeue_callis: "chunks_tracked m \<Longrightarrow> chunks_tracked (requeue_inflight_for_callis m callis)"
proof -
  assume tracked: "chunks_tracked m"
  let ?lost = "\<lambda>c. c = callis"
  let ?m = "m\<lparr>bm_outbound := snd (outbound_requeue ?lost (bm_outbound m))\<rparr>"
  let ?entries = "fst (outbound_requeue ?lost (bm_outbound m))"
  let ?rings = "List.map_filter (stream_ring ?m) (remdups (map (\<lambda>(_, e). ib_stream_id e) ?entries))"
  have ring: "stream_ring ?m = stream_ring m" by (simp add: stream_ring_def requeue_fields fun_eq_iff)
  have folds: "foldl (\<lambda>m h. sweep_ring m callis h) ?m hs = foldl (\<lambda>m (callis, h). sweep_ring m callis h) ?m (map (Pair callis) hs)" for hs
    by (simp add: foldl_map)
  have cover: "(ib_callis_id e, h) \<in> set (map (Pair callis) ?rings)"
    if "in_flight m p = Some e" "?lost (ib_callis_id e)" "stream_ring m (ib_stream_id e) = Some h" for p e h
  proof -
    have "(p, e) \<in> set ?entries" using that(1,2) by (auto simp: requeue_fields dest: map_of_SomeD)
    then have "h \<in> set ?rings" using that(3) by (force simp: in_map_filter ring)
    with that(2) show ?thesis by simp
  qed
  have "chunks_tracked (foldl (\<lambda>m (callis, h). sweep_ring m callis h) ?m (map (Pair callis) ?rings))"
    by (rule tracked_requeue [OF tracked cover])
  moreover have "chunks_tracked ?m" if "?entries = []"
    using that tracked_requeue [OF tracked, of ?lost "[]"]
    by (auto simp: requeue_fields filter_empty_conv dest: map_of_SomeD)
  ultimately show ?thesis
    by (simp add: requeue_inflight_for_callis_def Let_def split_beta folds)
qed

lemma tracked_requeue_all: "chunks_tracked m \<Longrightarrow> chunks_tracked (requeue_all_inflight m)"
proof -
  assume tracked: "chunks_tracked m"
  let ?lost = "\<lambda>_::nat. True"
  let ?m = "m\<lparr>bm_outbound := snd (outbound_requeue ?lost (bm_outbound m))\<rparr>"
  let ?entries = "fst (outbound_requeue ?lost (bm_outbound m))"
  let ?sweeps = "List.map_filter (\<lambda>(_, e). if ib_is_chunk e
      then map_option (Pair (ib_callis_id e)) (stream_ring ?m (ib_stream_id e)) else None) ?entries"
  have ring: "stream_ring ?m = stream_ring m" by (simp add: stream_ring_def requeue_fields fun_eq_iff)
  have cover: "(ib_callis_id e, h) \<in> set ?sweeps"
    if "in_flight m p = Some e" "ib_is_chunk e" "stream_ring m (ib_stream_id e) = Some h" for p e h
  proof -
    have "(p, e) \<in> set ?entries" using that(1) by (auto simp: requeue_fields dest: map_of_SomeD)
    then show ?thesis using that(2,3) by (force simp: in_map_filter ring)
  qed
  have "chunks_tracked (foldl (\<lambda>m (callis, h). sweep_ring m callis h) ?m ?sweeps)"
    by (rule tracked_requeue [OF tracked]) (use cover in blast)
  then show ?thesis
    by (auto simp: requeue_all_inflight_def Let_def split_beta)
qed

section \<open>Dispatch\<close>

lemma next_slot_fields:
  "bo_streams (snd (next_from_lanes callis b lanes)) = bo_streams b"
  "bo_inflight (snd (next_from_lanes callis b lanes)) = bo_inflight b"
  by (induction lanes arbitrary: b) (auto simp: Let_def split: option.splits prod.splits)

lemma tracked_next_slot: "chunks_tracked m \<Longrightarrow> chunks_tracked (snd (next_blob_write_slot m callis))"
  by (rule chunks_tracked_same [where m = m])
    (simp_all add: next_blob_write_slot_def next_response_def next_slot_fields split_beta del: next_from_lanes.simps)

lemma mark_fields:
  "bo_streams (outbound_mark_inflight b w callis) = bo_streams b"
  "bo_inflight (outbound_mark_inflight b (LeaseChunk s p lease) callis) =
     AList.update p \<lparr>ib_stream_id = s, ib_callis_id = callis, ib_is_chunk = True\<rparr> (bo_inflight b)"
  "\<not> write_expects_ack w \<Longrightarrow> bo_inflight (outbound_mark_inflight b w callis) = bo_inflight b"
  by (simp_all add: outbound_mark_inflight_def Let_def split: option.splits)

lemma tracked_mark_response:
  "chunks_tracked m \<Longrightarrow> \<not> write_is_chunk w \<Longrightarrow> chunks_tracked (mark_dispatch_inflight m w callis)"
  by (rule chunks_tracked_same [where m = m])
    (cases w; simp add: mark_dispatch_inflight_def Let_def mark_fields)+

text \<open>The chunk that is chosen, the ring it comes from, and the manager in between.\<close>

lemma next_chunk_frame_leases:
  assumes "next_chunk_frame m callis = (Some w, m')"
  shows "\<exists>s h lease ring. (s, h) \<in> set (streams_of m)
    \<and> ring_lease_next (bm_rings m ! h) callis (al_next (bm_allocator m)) = (Some lease, ring)
    \<and> w = LeaseChunk s (al_next (bm_allocator m)) lease
    \<and> bm_rings m' = (bm_rings m)[h := ring]
    \<and> streams_of m' = streams_of m \<and> bo_inflight (bm_outbound m') = bo_inflight (bm_outbound m)"
proof -
  let ?order = "order_streams_from_cursor (streams_of m) (bo_cursor (bm_outbound m))"
  have scan: "\<exists>s h lease ring. (s, h) \<in> set (streams_of m)
      \<and> ring_lease_next (bm_rings m ! h) callis (al_next (bm_allocator m)) = (Some lease, ring)
      \<and> v = LeaseChunk s (al_next (bm_allocator m)) lease
      \<and> m1 = on_ring (snd (next_peer_msg_id m)) h (\<lambda>_. ring)"
    if "next_chunk_frame_from_streams m callis ?order replay = (Some v, m1)" for replay v m1
  proof -
    have "find (\<lambda>(_, h). ring_ready replay (bm_rings m ! h)) ?order \<noteq> None"
    proof
      assume "find (\<lambda>(_, h). ring_ready replay (bm_rings m ! h)) ?order = None"
      from scan_find_none [OF this, of callis] that show False by simp
    qed
    then obtain s h where "find (\<lambda>(_, h). ring_ready replay (bm_rings m ! h)) ?order = Some (s, h)" by auto
    then obtain xs ys where split: "?order = xs @ (s, h) # ys"
      and "\<forall>x \<in> set xs. \<not> (\<lambda>(_, h). ring_ready replay (bm_rings m ! h)) x" and ready: "ring_ready replay (bm_rings m ! h)"
      by (elim find_SomeE) simp
    then have "\<forall>(s, h) \<in> set xs. \<not> ring_ready replay (bm_rings m ! h)" by auto
    moreover from split have "(s, h) \<in> set (streams_of m)"
      using order_streams_set [of "streams_of m" "bo_cursor (bm_outbound m)"] by auto
    ultimately show ?thesis using scan_first [of xs replay m h callis s ys] ready split that by force
  qed
  have next_id: "bm_outbound (snd (next_peer_msg_id m)) = bm_outbound m" "bm_rings (snd (next_peer_msg_id m)) = bm_rings m"
    by (simp_all add: next_peer_msg_id_def allocator_next_def)
  have past: "bm_rings (advance_past m1 v) = bm_rings m1" "streams_of (advance_past m1 v) = streams_of m1"
    "bo_inflight (bm_outbound (advance_past m1 v)) = bo_inflight (bm_outbound m1)" for m1 v
    by (simp_all add: advance_past_def advance_round_robin_cursor_def split: option.splits)
  obtain replay v m1 where v: "next_chunk_frame_from_streams m callis ?order replay = (Some v, m1)"
    and w: "w = v" "m' = advance_past m1 v"
  proof (cases "next_chunk_frame_from_streams m callis ?order True")
    case (Pair a b)
    show thesis
    proof (cases a)
      case (Some v)
      with Pair assms that [of True v b] show thesis by (auto simp: next_chunk_frame_def Let_def split: if_splits)
    next
      case None
      have "b = m"
      proof (cases "find (\<lambda>(_, h). ring_ready True (bm_rings m ! h)) ?order")
        case None
        from scan_find_none [OF None, of callis] Pair show ?thesis by simp
      next
        case (Some x)
        obtain s h where "x = (s, h)" by (cases x)
        with scan_find [of True m ?order s h callis] Some Pair \<open>a = None\<close> show ?thesis by auto
      qed
      with Pair None assms that [of False] show thesis
        by (auto simp: next_chunk_frame_def Let_def split: if_splits prod.splits option.splits)
    qed
  qed
  from scan [OF v] obtain s h lease ring where found: "(s, h) \<in> set (streams_of m)"
    "ring_lease_next (bm_rings m ! h) callis (al_next (bm_allocator m)) = (Some lease, ring)"
    "v = LeaseChunk s (al_next (bm_allocator m)) lease" "m1 = on_ring (snd (next_peer_msg_id m)) h (\<lambda>_. ring)" by blast
  show ?thesis
    by (rule exI [of _ s], rule exI [of _ h], rule exI [of _ lease], rule exI [of _ ring])
      (use found w in \<open>simp add: next_id past\<close>)
qed

lemma tracked_lease_chunk:
  assumes tracked: "chunks_tracked m" and fresh: "in_flight m (al_next (bm_allocator m)) = None"
    and chunk: "next_chunk_frame m callis = (Some w, m')"
  shows "chunks_tracked (mark_dispatch_inflight m' w callis)"
proof -
  let ?p = "al_next (bm_allocator m)"
  obtain s h lease ring where mem: "(s, h) \<in> set (streams_of m)"
    and lease: "ring_lease_next (bm_rings m ! h) callis ?p = (Some lease, ring)"
    and w: "w = LeaseChunk s ?p lease" and rings: "bm_rings m' = (bm_rings m)[h := ring]"
    and same: "streams_of m' = streams_of m" "bo_inflight (bm_outbound m') = bo_inflight (bm_outbound m)"
    using next_chunk_frame_leases [OF chunk] by blast
  let ?m = "mark_dispatch_inflight m' w callis"
  let ?e = "\<lparr>ib_stream_id = s, ib_callis_id = callis, ib_is_chunk = True\<rparr>"
  note ring_h = chunks_trackedD [OF tracked mem]
  have found: "map_of (streams_of m) s = Some h" using mem_stream_ring [OF tracked mem] by (simp add: stream_ring_def)
  have m: "streams_of ?m = streams_of m" "bo_inflight (bm_outbound ?m) = AList.update ?p ?e (bo_inflight (bm_outbound m))"
    "bm_rings ?m = (bm_rings m)[h := ring_mark_chunk_inflight ring lease]"
    using ring_h(1) found by (simp_all add: w mark_dispatch_inflight_def Let_def mark_fields same rings stream_ring_def)
  have table: "in_flight ?m = (in_flight m)(?p \<mapsto> ?e)" by (simp add: m update_conv')
  show ?thesis
  proof (rule chunks_trackedI [OF tracked])
    fix s' h' assume "(s', h') \<in> set (streams_of ?m)" and tr: "ring_tracked (in_flight m) s' (bm_rings m ! h')"
    then have mem': "(s', h') \<in> set (streams_of m)" by (simp add: m)
    show "ring_tracked (in_flight ?m) s' (bm_rings ?m ! h')"
    proof (cases "h' = h")
      case True
      then have "s' = s" using stream_handle_unique [OF tracked mem] mem' by simp
      with True ring_tracked_lease [OF ring_h(2) fresh lease] ring_h(1) show ?thesis by (simp add: table m(1,3))
    next
      case False
      have "ring_tracked ((in_flight m)(?p \<mapsto> ?e)) s' (bm_rings m ! h')"
        by (rule ring_tracked_table [OF tr]) (use fresh in auto)
      with False show ?thesis by (simp add: table m(1,3))
    qed
  qed (use tracked in \<open>auto simp: m chunks_tracked_def distinct_update\<close>)
qed

lemma response_not_chunk:
  assumes "responses_inv b" and "fst (next_response b callis) = Some v"
  shows "\<not> write_is_chunk v"
proof -
  obtain k slot where slot: "map_of (bo_write_slots b) k = Some slot" and v: "v = bw_write slot"
    using assms(2) by (auto simp: next_response_write bind_eq_Some_conv)
  from write_slot_okD [OF assms(1) slot] have "write_lane v \<noteq> None" by (auto simp: v write_slot_ok_def)
  then show ?thesis by (cases v) simp_all
qed

lemma tracked_lease:
  assumes tracked: "chunks_tracked m" and inv: "responses_inv (bm_outbound m)"
    and fresh: "in_flight m (al_next (bm_allocator m)) = None"
  shows "chunks_tracked (snd (lease_next_blob_write m callis))"
proof -
  obtain w m1 where slot: "next_blob_write_slot m callis = (w, m1)" by force
  have m1: "chunks_tracked m1" using tracked_next_slot [OF tracked, of callis] slot by simp
  have fresh1: "in_flight m1 (al_next (bm_allocator m1)) = None"
    using slot fresh
    by (auto simp: next_blob_write_slot_def next_response_def next_slot_fields split_beta simp del: next_from_lanes.simps)
  have marked: "chunks_tracked (snd (case w of
        None \<Rightarrow> (None, m')
      | Some v \<Rightarrow> let m' = mark_dispatch_inflight m' v callis in (Some v, if has_dispatchable_blob_write m' then notify_work m' else m')))"
    if "w = None \<Longrightarrow> chunks_tracked m'" "\<And>v. w = Some v \<Longrightarrow> chunks_tracked (mark_dispatch_inflight m' v callis)" for w m'
    using that by (cases w) (auto simp: Let_def)
  show ?thesis
  proof (cases w)
    case (Some v)
    have "\<not> write_is_chunk v"
      using response_not_chunk [OF inv] slot Some by (auto simp: next_blob_write_slot_def split_beta)
    with m1 have "chunks_tracked (mark_dispatch_inflight m1 v callis)" by (rule tracked_mark_response)
    with marked [of w m1] slot Some show ?thesis by (simp add: lease_next_blob_write_def)
  next
    case None
    obtain v m2 where chunk: "next_chunk_frame m1 callis = (v, m2)" by force
    have "chunks_tracked m2" if "v = None"
      using next_chunk_frame_turn [of m1 callis] chunk that m1 by (auto split: option.splits)
    with marked [of v m2] tracked_lease_chunk [OF m1 fresh1] chunk slot None show ?thesis
      by (simp add: lease_next_blob_write_def)
  qed
qed

lemma rollback_fields:
  "bo_streams (outbound_rollback b w callis) = bo_streams b"
  "bo_inflight (outbound_rollback b w callis) =
     (if write_expects_ack w then AList.delete (write_peer_msg_id w) (bo_inflight b) else bo_inflight b)"
  by (simp_all add: outbound_rollback_def Let_def split: option.splits)

text \<open>
  A failed write is reported by the callis that leased it: a frame that is in the table under the number
  of a chunk write is this chunk's, on this callis.
\<close>

definition own_write :: "blob_manager \<Rightarrow> blob_write_lease \<Rightarrow> nat \<Rightarrow> bool" where
  "own_write m w callis \<longleftrightarrow>
     (case w of
        LeaseChunk s p _ \<Rightarrow> (case in_flight m p of Some e \<Rightarrow> ib_stream_id e = s \<and> ib_callis_id e = callis | None \<Rightarrow> True)
      | _ \<Rightarrow> True)"

lemma tracked_rollback:
  assumes tracked: "chunks_tracked m" and own: "own_write m w callis"
  shows "chunks_tracked (rollback_dispatch_inflight m w callis)"
proof (cases w)
  case (LeaseChunk s p lease)
  let ?m = "m\<lparr>bm_outbound := outbound_rollback (bm_outbound m) w callis\<rparr>"
  have keys: "distinct (map fst (bo_inflight (bm_outbound m)))" using tracked by (simp add: chunks_tracked_def)
  have table: "in_flight ?m = (in_flight m)(p := None)" using keys by (simp add: rollback_fields LeaseChunk delete_conv')
  have e: "ib_stream_id e = s \<and> ib_callis_id e = callis" if "in_flight m p = Some e" for e
    using own that by (simp add: own_write_def LeaseChunk)
  let ?sweeps = "case stream_ring m s of Some h \<Rightarrow> [(callis, h)] | None \<Rightarrow> []"
  have ring: "stream_ring ?m s = stream_ring m s" by (simp add: stream_ring_def rollback_fields)
  have "chunks_tracked (foldl (\<lambda>m (callis, h). sweep_ring m callis h) ?m ?sweeps)"
  proof (rule tracked_sweeps [where table = "\<lambda>_. in_flight m"])
    fix s' h assume "(s', h) \<in> set (streams_of ?m)"
    then have mem: "(s', h) \<in> set (streams_of m)" by (simp add: rollback_fields)
    have "in_flight ?m p' = Some f \<or> (ib_callis_id f, h) \<in> set ?sweeps"
      if "in_flight m p' = Some f" "ib_stream_id f = s'" for p' f
      using that e mem_stream_ring [OF tracked mem] unfolding table by (cases "p' = p") auto
    with chunks_trackedD [OF tracked mem] show "h < length (bm_rings ?m) \<and> ring_tracked (in_flight m) s' (bm_rings ?m ! h)
        \<and> (\<forall>p e. in_flight m p = Some e \<longrightarrow> ib_stream_id e = s' \<longrightarrow> in_flight ?m p = Some e \<or> (ib_callis_id e, h) \<in> set ?sweeps)"
      by simp
  qed (use tracked in \<open>auto simp: rollback_fields chunks_tracked_def distinct_delete\<close>)
  then show ?thesis
    by (simp add: rollback_dispatch_inflight_def LeaseChunk ring [unfolded LeaseChunk] split: option.splits)
qed (use chunks_tracked_same [OF tracked] in \<open>simp_all add: rollback_dispatch_inflight_def rollback_fields\<close>)

lemma tracked_finish: "chunks_tracked m \<Longrightarrow> own_write m w callis \<Longrightarrow> chunks_tracked (finish_blob_write_attempt m w callis res)"
  using chunks_tracked_same [of m] tracked_rollback [of m w callis]
  by (auto simp: finish_blob_write_attempt_def outbound_forget_def split: sum.splits)

lemma fail_all_outbound: "streams_of (fail_all_streams m err) = []" "bo_inflight (bm_outbound (fail_all_streams m err)) = []"
proof -
  have rings: "bm_outbound (foldl (\<lambda>m h. on_ring (on_ring m h f) h g) m0 hs) = bm_outbound m0" for m0 hs f g
    by (induction hs arbitrary: m0) auto
  have receivers: "bm_outbound (foldl (\<lambda>m (_, stream). on_receiver m (rs_receiver stream) f) m0 xs) = bm_outbound m0" for m0 f xs
    by (induction xs arbitrary: m0) auto
  show "streams_of (fail_all_streams m err) = []" "bo_inflight (bm_outbound (fail_all_streams m err)) = []"
    by (simp_all add: fail_all_streams_def Let_def outbound_clear_def rings receivers)
qed

lemma tracked_fail_all: "chunks_tracked (fail_all_streams m err)"
  by (simp add: chunks_tracked_def fail_all_outbound)

lemma tracked_add_callis: "chunks_tracked m \<Longrightarrow> chunks_tracked (add_callis m handle settings resume)"
proof -
  assume tracked: "chunks_tracked m"
  let ?m = "if \<not> resume \<and> has_stream_state m then fail_all_streams m (err_new PeerRestarted) else m"
  have folds: "chunks_tracked (foldl (\<lambda>m s. fail_stream m s err) m0 ss)" if "chunks_tracked m0" for m0 ss err
    using that by (induction ss arbitrary: m0) (auto intro: tracked_fail_stream)
  have "chunks_tracked ?m" using tracked tracked_fail_all by simp
  with folds [OF this] have "chunks_tracked (if resume then foldl (\<lambda>m s. fail_stream m s (err_new PeerRestarted)) ?m ss else ?m)" for ss
    by (cases resume) simp_all
  then show ?thesis
    unfolding add_callis_def Let_def tracked_notify bump_callis_gen_def
    by (rule chunks_tracked_same) simp_all
qed

end
