(* ===== verification/Blob_Contract.thy ===== *)
theory Blob_Contract
  imports Blob_Tracking
begin

text \<open>
  The contract of the blob manager over every run of its methods: the invariants of its tables, the
  agreement of the bytes it has reserved with the domus-wide counters, and with them the properties that
  its callers rely on. A run starts with a new manager and applies the operations of
  \<^typ>\<open>blob_op\<close>, while the managers of the other peers move the shared counters.
\<close>

section \<open>Reserved bytes\<close>

fun reserved :: "blob_manager \<Rightarrow> buffer_side \<Rightarrow> nat" where
  "reserved m SideOutbound = sum_list (map snd (rv_outbound (bm_reservations m)))"
| "reserved m SideInbound = sum_list (map snd (rv_inbound (bm_reservations m)))"

text \<open>\<open>base\<close> is what the other users of the counters hold.\<close>

definition accounted :: "blob_buffer_tracker \<Rightarrow> blob_manager \<Rightarrow> bool" where
  "accounted base m \<longleftrightarrow>
     (\<forall>side. used (bm_buffer_tracker m) side = used base side + reserved m side)
     \<and> distinct (map fst (rv_outbound (bm_reservations m))) \<and> distinct (map fst (rv_inbound (bm_reservations m)))"

lemma sum_list_delete:
  "distinct (map fst al) \<Longrightarrow>
   sum_list (map snd (AList.delete k al)) + (case map_of al k of Some v \<Rightarrow> v | None \<Rightarrow> 0) = sum_list (map snd (al :: ('k \<times> nat) list))"
proof (induction al)
  case (Cons a al)
  obtain k' v where a: "a = (k', v)" by (cases a)
  have "AList.delete k al = al" if "k = k'" using Cons.prems that a by (auto simp: delete_id)
  with Cons a show ?case by (auto simp: map_of_eq_None_iff split: option.splits)
qed simp

lemma sum_list_update_new:
  "map_of al k = None \<Longrightarrow> sum_list (map snd (AList.update k v al)) = sum_list (map snd al) + (v :: nat)"
  by (simp add: alist_update_new map_of_eq_None_iff)

lemma accounted_iff:
  "accounted base m \<longleftrightarrow>
     used (bm_buffer_tracker m) SideOutbound = used base SideOutbound + sum_list (map snd (rv_outbound (bm_reservations m)))
     \<and> used (bm_buffer_tracker m) SideInbound = used base SideInbound + sum_list (map snd (rv_inbound (bm_reservations m)))
     \<and> distinct (map fst (rv_outbound (bm_reservations m))) \<and> distinct (map fst (rv_inbound (bm_reservations m)))"
proof -
  have "(\<forall>side. P side) \<longleftrightarrow> P SideOutbound \<and> P SideInbound" for P by (metis buffer_side.exhaust)
  then show ?thesis by (simp add: accounted_def)
qed

lemma accounted_same:
  "accounted base m \<Longrightarrow> bm_buffer_tracker m' = bm_buffer_tracker m \<Longrightarrow> bm_reservations m' = bm_reservations m \<Longrightarrow> accounted base m'"
  by (simp add: accounted_iff)

text \<open>A release gives back what was reserved and never meets the underflow of the counter.\<close>

lemma accounted_release_outbound: "accounted base m \<Longrightarrow> accounted base (release_outbound m s)"
  using sum_list_delete [of "rv_outbound (bm_reservations m)" s]
  by (cases "map_of (rv_outbound (bm_reservations m)) s")
    (simp_all add: accounted_iff release_outbound_def release_side_def Let_def distinct_delete del: map_of_eq_Some_iff Some_eq_map_of_iff)

lemma accounted_release_inbound: "accounted base m \<Longrightarrow> accounted base (release_inbound m s)"
  using sum_list_delete [of "rv_inbound (bm_reservations m)" s]
  by (cases "map_of (rv_inbound (bm_reservations m)) s")
    (simp_all add: accounted_iff release_inbound_def release_side_def Let_def distinct_delete del: map_of_eq_Some_iff Some_eq_map_of_iff)

text \<open>The bytes already entered for a stream, which a new entry replaces.\<close>

fun entered_bytes :: "blob_manager \<Rightarrow> buffer_side \<Rightarrow> peer_message_id \<Rightarrow> nat option" where
  "entered_bytes m SideOutbound stream_id = map_of (rv_outbound (bm_reservations m)) stream_id"
| "entered_bytes m SideInbound stream_id = map_of (rv_inbound (bm_reservations m)) stream_id"

lemma sum_list_update:
  "distinct (map fst al) \<Longrightarrow>
   sum_list (map snd (AList.update k v al)) + (case map_of al k of Some old \<Rightarrow> old | None \<Rightarrow> 0) = sum_list (map snd al) + (v :: nat)"
  by (induction al) (auto simp: map_of_eq_None_iff split: option.splits)

lemma accounted_enter:
  assumes "accounted base m"
    and "\<And>sd. used base' sd + (if sd = side then bytes else 0) =
      used base sd + (if sd = side then case entered_bytes m side s of Some old \<Rightarrow> old | None \<Rightarrow> 0 else 0)"
  shows "accounted base' (enter_bytes m side s bytes)"
proof -
  note d = assms(1) [unfolded accounted_iff]
  have sums: "sum_list (map snd (AList.update s bytes (rv_outbound (bm_reservations m)))) +
      (case entered_bytes m SideOutbound s of Some old \<Rightarrow> old | None \<Rightarrow> 0) = sum_list (map snd (rv_outbound (bm_reservations m))) + bytes"
    "sum_list (map snd (AList.update s bytes (rv_inbound (bm_reservations m)))) +
      (case entered_bytes m SideInbound s of Some old \<Rightarrow> old | None \<Rightarrow> 0) = sum_list (map snd (rv_inbound (bm_reservations m))) + bytes"
    using d sum_list_update [of "rv_outbound (bm_reservations m)" s bytes] sum_list_update [of "rv_inbound (bm_reservations m)" s bytes] by simp_all
  show ?thesis
    using d sums assms(2) [of SideOutbound] assms(2) [of SideInbound]
    by (cases side) (auto simp: accounted_iff distinct_update)
qed

lemma accounted_count:
  assumes "accounted base m" and "count_bytes m side bytes cap = (ok, m')"
    and "\<And>sd. used base' sd = used base sd + (if ok \<and> sd = side then bytes else 0)"
  shows "accounted base' m'"
  using assms(1,2) assms(3) [of SideOutbound] assms(3) [of SideInbound]
  by (cases side) (auto simp: accounted_iff count_bytes_def try_reserve_side_eq split: if_splits)

lemma release_all:
  "sum_list bytes \<le> used t side \<Longrightarrow>
   used (foldl (\<lambda>t b. snd (release_side t side b)) t bytes) side' = used t side' - (if side' = side then sum_list bytes else 0)"
  by (induction bytes arbitrary: t) (auto simp: release_side_def)

section \<open>The invariant\<close>

definition manager_inv :: "blob_buffer_tracker \<Rightarrow> blob_manager \<Rightarrow> bool" where
  "manager_inv base m \<longleftrightarrow> responses_inv (bm_outbound m) \<and> inbound_tables m \<and> accounted base m"

text \<open>The primitive changes that the methods are made of.\<close>

named_theorems keeps_inv

lemma inv_outbound [keeps_inv]: "manager_inv base m \<Longrightarrow> responses_inv b \<Longrightarrow> manager_inv base (m\<lparr>bm_outbound := b\<rparr>)"
  by (simp add: manager_inv_def inbound_tables_def accounted_iff)

lemma inv_ring [keeps_inv]: "manager_inv base m \<Longrightarrow> manager_inv base (on_ring m h f)"
  by (simp add: manager_inv_def inbound_tables_def accounted_iff on_ring_def)

lemma inv_rings [keeps_inv]: "manager_inv base m \<Longrightarrow> manager_inv base (m\<lparr>bm_rings := rings\<rparr>)"
  by (simp add: manager_inv_def inbound_tables_def accounted_iff)

lemma inv_receiver [keeps_inv]: "manager_inv base m \<Longrightarrow> manager_inv base (on_receiver m h f)"
  using inbound_tables_receiver [of m h f] by (simp add: manager_inv_def accounted_iff)

lemma inv_notify [keeps_inv]: "manager_inv base m \<Longrightarrow> manager_inv base (notify_work m)"
  by (simp add: manager_inv_def inbound_tables_def accounted_iff notify_work_def)

lemma inv_allocator [keeps_inv]: "manager_inv base m \<Longrightarrow> manager_inv base (m\<lparr>bm_allocator := a\<rparr>)"
  by (simp add: manager_inv_def inbound_tables_def accounted_iff)

lemma inv_pool [keeps_inv]:
  "manager_inv base m \<Longrightarrow> manager_inv base (m\<lparr>bm_callis := pool\<rparr>)"
  "manager_inv base m \<Longrightarrow> manager_inv base (bump_callis_gen m)"
  "manager_inv base m \<Longrightarrow> manager_inv base (m\<lparr>bm_had_callis := had\<rparr>)"
  by (simp_all add: manager_inv_def inbound_tables_def accounted_iff bump_callis_gen_def)

lemma inv_release [keeps_inv]:
  "manager_inv base m \<Longrightarrow> manager_inv base (release_outbound m s)"
  "manager_inv base m \<Longrightarrow> manager_inv base (release_inbound m s)"
  using accounted_release_outbound [of base m s] accounted_release_inbound [of base m s] inbound_tables_release [of m s]
  by (simp_all add: manager_inv_def) (simp add: inbound_tables_def)

lemma inv_drop_recv [keeps_inv]: "manager_inv base m \<Longrightarrow> manager_inv base (drop_recv_stream m s)"
  using inbound_tables_drop [of m s] by (simp add: manager_inv_def accounted_iff)

lemma inv_take_pending [keeps_inv]: "manager_inv base m \<Longrightarrow> manager_inv base (snd (take_pending_request m s))"
  using inbound_tables_take [of m s] by (simp add: manager_inv_def accounted_iff take_pending_request_def)

lemma inv_refresh [keeps_inv]: "manager_inv base m \<Longrightarrow> manager_inv base (refresh_recv_deadline m s d now)"
  using inbound_tables_refresh [of m s d now] by (simp add: manager_inv_def accounted_iff)

lemma inv_recv_ring [keeps_inv]:
  "manager_inv base m \<Longrightarrow> in_inv ring \<Longrightarrow> manager_inv base (m\<lparr>bm_recv_rings := (bm_recv_rings m)[h := ring]\<rparr>)"
  using inbound_tables_ring [of m ring h] by (simp add: manager_inv_def accounted_iff)

lemma inv_completed [keeps_inv]:
  "manager_inv base m \<Longrightarrow> manager_inv base (m\<lparr>bm_inbound := (bm_inbound m)\<lparr>bi_completed_recv_streams := done\<rparr>\<rparr>)"
  by (simp add: manager_inv_def inbound_tables_def accounted_iff)

lemma inv_fold [keeps_inv]:
  "manager_inv base m \<Longrightarrow> (\<And>m x. manager_inv base m \<Longrightarrow> manager_inv base (f m x)) \<Longrightarrow> manager_inv base (foldl f m xs)"
  by (induction xs arbitrary: m) auto

lemma inv_bound: "manager_inv base m \<Longrightarrow> responses_inv (bm_outbound m)" "manager_inv base m \<Longrightarrow> inbound_tables m"
  "manager_inv base m \<Longrightarrow> accounted base m"
  by (simp_all add: manager_inv_def)

section \<open>The outbound methods keep it\<close>

lemmas keeps_responses = responses_inv_enqueue responses_inv_mark responses_inv_rollback responses_inv_delete
  responses_inv_take responses_inv_outbound_requeue responses_inv_streams responses_inv_drop responses_inv_clear

lemma inv_enqueue [keeps_inv]: "manager_inv base m \<Longrightarrow> manager_inv base (snd (enqueue_blob_write m w))"
  using responses_inv_enqueue [of "bm_outbound m" w]
  by (auto simp: enqueue_blob_write_def inv_bound split: prod.splits bool.splits intro!: keeps_inv)

lemma inv_next_slot: "manager_inv base m \<Longrightarrow> manager_inv base (snd (next_blob_write_slot m callis))"
  using next_from_lanes_inv [of "bm_outbound m" callis "[BlobLaneAck, BlobLaneError, BlobLaneComplete]"]
  by (auto simp: next_blob_write_slot_def next_response_def inv_bound split_beta intro!: keeps_inv simp del: next_from_lanes.simps)

lemma inv_from_streams:
  "manager_inv base m \<Longrightarrow> manager_inv base (snd (next_chunk_frame_from_streams m callis streams replay))"
proof (induction streams arbitrary: m replay)
  case (Cons x streams)
  then show ?case by (cases x) (auto simp: Let_def split_beta next_peer_msg_id_def split: option.splits intro!: keeps_inv Cons.IH)
qed simp

lemma inv_streams_pair:
  "next_chunk_frame_from_streams m callis streams replay = (w, m') \<Longrightarrow> manager_inv base m \<longrightarrow> manager_inv base m'"
  using inv_from_streams [of base m callis streams replay] by auto

lemma inv_advance [keeps_inv]: "manager_inv base m \<Longrightarrow> manager_inv base (advance_past m w)"
  by (auto simp: advance_past_def advance_round_robin_cursor_def split: option.splits intro!: keeps_inv keeps_responses dest: inv_bound(1))

lemma inv_chunk_frame: "manager_inv base m \<Longrightarrow> manager_inv base (snd (next_chunk_frame m callis))"
  by (auto simp: next_chunk_frame_def Let_def split: prod.splits option.splits intro!: inv_advance dest!: inv_streams_pair)

lemma inv_mark [keeps_inv]: "manager_inv base m \<Longrightarrow> manager_inv base (mark_dispatch_inflight m w callis)"
  by (auto simp: mark_dispatch_inflight_def Let_def split: option.splits blob_write_lease.splits
      intro!: keeps_inv keeps_responses dest: inv_bound(1))

lemma inv_lease: "manager_inv base m \<Longrightarrow> manager_inv base (snd (lease_next_blob_write m callis))"
  using inv_next_slot [of base m callis] inv_chunk_frame [of base _ callis]
  by (auto simp: lease_next_blob_write_def Let_def split_beta split: prod.splits option.splits intro!: keeps_inv) 

lemma inv_finish: "manager_inv base m \<Longrightarrow> manager_inv base (finish_blob_write_attempt m w callis res)"
  by (auto simp: finish_blob_write_attempt_def rollback_dispatch_inflight_def Let_def split: option.splits bool.splits sum.splits
      intro!: keeps_inv keeps_responses dest: inv_bound(1))

lemma inv_register: "manager_inv base m \<Longrightarrow> manager_inv base (snd (register_outbound_stream m s settings))"
  by (auto simp: register_outbound_stream_def Let_def split: sum.splits intro!: inv_outbound inv_rings keeps_responses dest: inv_bound(1))

lemma inv_unregister [keeps_inv]: "manager_inv base m \<Longrightarrow> manager_inv base (unregister_outbound_stream m s)"
  by (auto simp: unregister_outbound_stream_def Let_def split_beta split: option.splits intro!: keeps_inv keeps_responses dest: inv_bound(1))

lemma inv_fail_stream [keeps_inv]: "manager_inv base m \<Longrightarrow> manager_inv base (fail_stream m s err)"
  by (auto simp: fail_stream_def Let_def split_beta split: option.splits intro!: keeps_inv keeps_responses dest: inv_bound(1))

lemma inv_fail_outbound: "manager_inv base m \<Longrightarrow> manager_inv base (snd (fail_outbound_stream m s err))"
  by (auto simp: fail_outbound_stream_def split: option.splits intro!: keeps_inv)

lemma inv_ack: "manager_inv base m \<Longrightarrow> manager_inv base (blob_handle_ack m p)"
  by (auto simp: blob_handle_ack_def Let_def split_beta split: option.splits intro!: keeps_inv keeps_responses dest: inv_bound(1))

lemma inv_complete: "manager_inv base m \<Longrightarrow> manager_inv base (snd (handle_complete m s))"
  by (auto simp: handle_complete_def split: option.splits intro!: keeps_inv)

lemma inv_requeue_callis: "manager_inv base m \<Longrightarrow> manager_inv base (requeue_inflight_for_callis m callis)"
  by (auto simp: requeue_inflight_for_callis_def Let_def split_beta intro!: keeps_inv keeps_responses dest: inv_bound(1))

lemma inv_requeue_all: "manager_inv base m \<Longrightarrow> manager_inv base (requeue_all_inflight m)"
  by (auto simp: requeue_all_inflight_def Let_def split_beta intro!: keeps_inv keeps_responses dest: inv_bound(1))


section \<open>The inbound methods keep it\<close>

lemma inv_remove_recv [keeps_inv]: "manager_inv base m \<Longrightarrow> manager_inv base (snd (remove_recv_stream m s))"
  by (auto simp: remove_recv_stream_def intro!: keeps_inv)

lemma inv_drop_pending [keeps_inv]: "manager_inv base m \<Longrightarrow> manager_inv base (drop_pending_request m s)"
  using inv_take_pending [of base m s]
  by (cases "take_pending_request m s") (auto simp: drop_pending_request_def split: option.splits intro!: keeps_inv)

lemma inv_fail_inbound [keeps_inv]: "manager_inv base m \<Longrightarrow> manager_inv base (snd (fail_inbound_stream m s err))"
proof -
  assume inv: "manager_inv base m"
  obtain r m1 where take: "take_pending_request m s = (r, m1)" by force
  have m1: "manager_inv base m1" using inv_take_pending [OF inv, of s] take by simp
  obtain r2 m2 where remove: "remove_recv_stream m1 s = (r2, m2)" by force
  have "manager_inv base m2" using inv_remove_recv [OF m1, of s] remove by simp
  with m1 show ?thesis by (auto simp: fail_inbound_stream_def take remove split: option.splits intro!: keeps_inv)
qed

lemma inv_error: "manager_inv base m \<Longrightarrow> manager_inv base (blob_handle_error m p err)"
  using inv_fail_outbound
  by (auto simp: blob_handle_error_def Let_def split_beta split: option.splits prod.splits bool.splits
      intro!: keeps_inv keeps_responses dest: inv_bound(1))
    (metis inv_fail_outbound inv_outbound inv_bound(1) responses_inv_take snd_conv)+

lemma distinct_update_image:
  "distinct (map (f \<circ> snd) al) \<Longrightarrow> f v \<notin> (f \<circ> snd) ` set al \<Longrightarrow> distinct (map (f \<circ> snd) (AList.update k v al))"
proof (induction al)
  case (Cons a al)
  have "(f \<circ> snd) ` set (AList.update k v al) \<subseteq> insert (f v) ((f \<circ> snd) ` set al)" using update_mem by fastforce
  with Cons show ?case by (cases a) auto
qed simp

lemma inv_insert_recv:
  assumes "manager_inv base m" and "r < length (bm_receivers m)" "in_inv ring"
  shows "manager_inv base (insert_recv_stream (m\<lparr>bm_recv_rings := bm_recv_rings m @ [ring]\<rparr>) s t r (length (bm_recv_rings m)) now)"
proof -
  define st where "st = \<lparr>rs_taberna_id = t, rs_receiver = r, rs_ring = length (bm_recv_rings m),
    rs_deadline = now + br_idle_timeout (bm_receivers m ! r)\<rparr>"
  let ?al = "AList.update s st (recv_streams m)"
  have tables: "inbound_tables m" using assms(1) by (rule inv_bound)
  have fresh: "rs_ring st \<notin> (rs_ring \<circ> snd) ` set (recv_streams m)"
    using tables by (fastforce simp: inbound_tables_def st_def)
  have "distinct (map (rs_ring \<circ> snd) ?al)" "distinct (map fst ?al)"
    using tables distinct_update_image [OF _ fresh] by (auto simp: inbound_tables_def distinct_update)
  moreover have "rs_ring x < Suc (length (bm_recv_rings m)) \<and> rs_receiver x < length (bm_receivers m)" if "(k, x) \<in> set ?al" for k x
    using update_mem [OF that] tables assms(2) by (fastforce simp: inbound_tables_def st_def)
  ultimately show ?thesis
    using assms(1,3) unfolding manager_inv_def inbound_tables_def insert_recv_stream_def Let_def accounted_iff
    by (auto simp: st_def [symmetric] simp del: distinct_map)
qed

lemma inv_activate: "manager_inv base m \<Longrightarrow> manager_inv base (snd (activate_pending_request m s settings now))"
proof -
  assume inv: "manager_inv base m"
  obtain r m1 where take: "take_pending_request m s = (r, m1)" by force
  have m1: "manager_inv base m1" using inv_take_pending [OF inv, of s] take by simp
  have "pb_receiver p < length (bm_receivers m1)" if "r = Some p" for p
    using inv_bound(2) [OF inv] take that by (auto simp: take_pending_request_def inbound_tables_def dest!: map_of_SomeD)
  with inv m1 show ?thesis
    using inv_insert_recv [OF m1] by (auto simp: activate_pending_request_def take Let_def in_inv_new split: option.splits sum.splits)
qed

lemma inv_add_pending:
  assumes "manager_inv base m" and "r < length (bm_receivers m)"
  shows "manager_inv base (add_pending_request m s t r)"
proof -
  let ?al = "AList.update s \<lparr>pb_taberna_id = t, pb_receiver = r\<rparr> (bi_pending_requests (bm_inbound m))"
  have tables: "inbound_tables m" using assms(1) by (rule inv_bound)
  have "pb_receiver p < length (bm_receivers m)" if "(k, p) \<in> set ?al" for k p
    using update_mem [OF that] tables assms(2) by (auto simp: inbound_tables_def)
  with assms(1) show ?thesis
    unfolding manager_inv_def inbound_tables_def add_pending_request_def accounted_iff
    by (auto simp: distinct_update simp del: distinct_map)
qed

lemma inv_recv_filter: "manager_inv base m \<Longrightarrow>
    manager_inv base (m\<lparr>bm_inbound := (bm_inbound m)\<lparr>bi_recv_streams := filter P (bi_recv_streams (bm_inbound m))\<rparr>\<rparr>)"
  unfolding manager_inv_def inbound_tables_def accounted_iff by (auto simp: distinct_map_filter simp del: distinct_map)

lemma inv_reap: "manager_inv base m \<Longrightarrow> manager_inv base (inbound_reaper_turn m now)"
  by (auto simp: inbound_reaper_turn_def expire_recv_streams_def reap_stream_def Let_def split: option.splits
      intro!: keeps_inv inv_recv_filter)

lemma inv_receive:
  "manager_inv base m \<Longrightarrow> receive_into_ring m chunk receiver ring idle now = Some (r, m') \<Longrightarrow> ring < length (bm_recv_rings m) \<Longrightarrow> manager_inv base m'"
proof -
  assume inv: "manager_inv base m" and result: "receive_into_ring m chunk receiver ring idle now = Some (r, m')"
    and bound: "ring < length (bm_recv_rings m)"
  have "in_inv (bm_recv_rings m ! ring)" using inv_bound(2) [OF inv] bound by (simp add: inbound_tables_def)
  with insert_kept have "insert_chunk (bm_recv_rings m ! ring) k d l = Some (x, ring') \<Longrightarrow> in_inv ring'" for k d l x ring'
    by blast
  with inv result show ?thesis
    by (auto simp: receive_into_ring_def Let_def split: option.splits sum.splits prod.splits inbound_insert_outcome.splits if_splits
        intro!: keeps_inv)
qed


lemma inv_fail_chunk: "manager_inv base m \<Longrightarrow> manager_inv base (fail_chunk_stream m s receiver err)"
  using inv_fail_inbound [of base m s err]
  by (cases "fail_inbound_stream m s err") (auto simp: fail_chunk_stream_def split: bool.splits intro!: keeps_inv)

lemma inv_chunk_state: "manager_inv base m \<Longrightarrow> manager_inv base (snd (recv_chunk_state m s idle now))"
  by (auto simp: recv_chunk_state_def split: option.splits intro!: keeps_inv)

lemma chunk_state_active:
  "recv_chunk_state m s idle now = (ChunkActive t receiver ring, m') \<Longrightarrow>
     m' = m \<and> (\<exists>st. recv_stream m s = Some st \<and> rs_ring st = ring \<and> rs_receiver st = receiver)"
  by (auto simp: recv_chunk_state_def split: option.splits if_splits)

lemma inv_chunk:
  assumes inv: "manager_inv base m" and result: "handle_blob_transfer_chunk m payload idle ack_window chunk_size now = Some (r, m')"
  shows "manager_inv base m'"
proof (cases "blob_chunk_from_bytes payload")
  case (Inr chunk)
  obtain cs m1 where state: "recv_chunk_state m (bc_request_msg_id chunk) idle now = (cs, m1)" by force
  have m1: "manager_inv base m1" using inv_chunk_state [OF inv] state by (metis snd_conv)
  have active: "manager_inv base m2" if "cs = ChunkActive t receiver ring"
    "receive_into_ring m1 chunk receiver ring idle now = Some (x, m2)" for t receiver ring x m2
    using inv_receive [OF m1 that(2)] chunk_state_active [of m "bc_request_msg_id chunk" idle now] state that(1)
      inbound_tables_stream(1) [OF inv_bound(2) [OF inv]] by blast
  show ?thesis
    using result inv m1 active inv_fail_chunk inv_fail_inbound
    by (auto simp: handle_blob_transfer_chunk_def Inr state Let_def
        split: if_splits blob_recv_chunk_state.splits option.splits sum.splits prod.splits)
qed (use inv result in \<open>simp add: handle_blob_transfer_chunk_def\<close>)

lemma inv_read: "manager_inv base m \<Longrightarrow> manager_inv base (snd (try_receiver_read m receiver s now))"
proof -
  assume inv: "manager_inv base m"
  have ring: "in_inv ring'" if "recv_ring m s = Some h" "take_next (bm_recv_rings m ! h) = (x, ring')" for h x ring'
    using that inbound_tables_stream(3) [OF inv_bound(2) [OF inv]] take_next_inv [of "bm_recv_rings m ! h"]
    by (auto simp: recv_ring_def)
  with inv show ?thesis
    by (auto simp: try_receiver_read_def note_recv_complete_def split: option.splits prod.splits intro!: keeps_inv)
qed

lemma inv_read_idle: "manager_inv base m \<Longrightarrow> manager_inv base (snd (fail_receiver_idle m receiver s))"
  by (auto simp: fail_receiver_idle_def Let_def intro!: keeps_inv)

lemma inv_receiver_drop: "manager_inv base m \<Longrightarrow> manager_inv base (receiver_stream_drop m receiver s)"
  by (auto simp: receiver_stream_drop_def Let_def intro!: keeps_inv)

lemma inv_new_receiver: "manager_inv base m \<Longrightarrow> manager_inv base (blob_step m (OpReceiver timeout))"
  by (auto simp: manager_inv_def inbound_tables_def accounted_iff less_Suc_eq)

lemma count_bytes_fields [simp]:
  "bm_outbound (snd (count_bytes m side bytes cap)) = bm_outbound m" "bm_inbound (snd (count_bytes m side bytes cap)) = bm_inbound m"
  "bm_receivers (snd (count_bytes m side bytes cap)) = bm_receivers m" "bm_recv_rings (snd (count_bytes m side bytes cap)) = bm_recv_rings m"
  "bm_rings (snd (count_bytes m side bytes cap)) = bm_rings m" "bm_callis (snd (count_bytes m side bytes cap)) = bm_callis m"
  "bm_reservations (snd (count_bytes m side bytes cap)) = bm_reservations m"
  by (simp_all add: count_bytes_def split_beta)

lemma enter_fields [simp]:
  "bm_outbound (enter_bytes m side s bytes) = bm_outbound m" "bm_inbound (enter_bytes m side s bytes) = bm_inbound m"
  "bm_receivers (enter_bytes m side s bytes) = bm_receivers m" "bm_recv_rings (enter_bytes m side s bytes) = bm_recv_rings m"
  "bm_rings (enter_bytes m side s bytes) = bm_rings m" "bm_callis (enter_bytes m side s bytes) = bm_callis m"
  by (cases side; simp)+

section \<open>Failing everything\<close>

lemma fold_rings: "\<exists>rings. foldl (\<lambda>m h. on_ring (on_ring m h f) h g) m hs = m\<lparr>bm_rings := rings\<rparr>"
proof (induction hs arbitrary: m)
  case Nil
  show ?case by (intro exI [of _ "bm_rings m"]) simp
next
  case (Cons h hs)
  obtain rings where "foldl (\<lambda>m h. on_ring (on_ring m h f) h g) (on_ring (on_ring m h f) h g) hs
      = (on_ring (on_ring m h f) h g)\<lparr>bm_rings := rings\<rparr>" using Cons.IH by blast
  then show ?case by (intro exI [of _ rings]) (simp add: on_ring_def)
qed

lemma inv_fail_all [keeps_inv]:
  assumes inv: "manager_inv base m"
  shows "manager_inv base (fail_all_streams m err)"
proof -
  note acc = inv_bound(3) [OF inv, unfolded accounted_iff]
  let ?t = "foldl (\<lambda>t b. snd (release_side t SideInbound b))
     (foldl (\<lambda>t b. snd (release_side t SideOutbound b)) (bm_buffer_tracker m) (map snd (rv_outbound (bm_reservations m))))
     (map snd (rv_inbound (bm_reservations m)))"
  have t: "used ?t SideOutbound = used base SideOutbound" "used ?t SideInbound = used base SideInbound"
    using acc by (simp_all add: release_all)
  let ?b = "snd (outbound_clear (bm_outbound m))"
  obtain rings where rings: "foldl (\<lambda>m h. on_ring (on_ring m h (\<lambda>r. ring_fail r err)) h ring_close) (m\<lparr>bm_outbound := ?b\<rparr>)
      (fst (outbound_clear (bm_outbound m))) = m\<lparr>bm_outbound := ?b, bm_rings := rings\<rparr>"
    using fold_rings [where m = "m\<lparr>bm_outbound := ?b\<rparr>"] by blast
  let ?m = "m\<lparr>bm_outbound := ?b, bm_rings := rings, bm_reservations := \<lparr>rv_outbound = [], rv_inbound = []\<rparr>, bm_buffer_tracker := ?t,
      bm_inbound := \<lparr>bi_pending_requests = [], bi_recv_streams = [], bi_completed_recv_streams = []\<rparr>\<rparr>"
  have "manager_inv base ?m"
    using t inv responses_inv_clear by (simp add: manager_inv_def inbound_tables_def accounted_iff)
  then have "manager_inv base (foldl (\<lambda>m (_, stream). on_receiver m (rs_receiver stream) (\<lambda>r. receiver_fail r err)) ?m
      (recv_streams m))"
    by (rule inv_fold) (auto intro: inv_receiver)
  then show ?thesis by (simp add: fail_all_streams_def Let_def split_beta rings)
qed

lemma inv_add_callis: "manager_inv base m \<Longrightarrow> manager_inv base (add_callis m handle settings resume)"
  unfolding add_callis_def Let_def
  by (intro inv_notify inv_pool) (simp add: inv_fail_all inv_fold inv_fail_stream)

lemma inv_pool_methods:
  "manager_inv base m \<Longrightarrow> manager_inv base (snd (remove_callis m callis))"
  "manager_inv base m \<Longrightarrow> manager_inv base (snd (drain_callis m))"
  "manager_inv base m \<Longrightarrow> manager_inv base (snd (select_callis m))"
  by (auto simp: remove_callis_def drain_callis_def select_callis_def Let_def split_beta intro!: keeps_inv)


section \<open>Chunks stay tracked\<close>

text \<open>What the tracking of chunks looks at; the inbound methods leave it alone.\<close>

definition chunk_view :: "blob_manager \<Rightarrow> (peer_message_id \<times> nat) list \<times> (peer_message_id \<times> inflight_blob_frame) list \<times> outbound_state list" where
  "chunk_view m = (streams_of m, bo_inflight (bm_outbound m), bm_rings m)"

lemma tracked_view: "chunk_view m' = chunk_view m \<Longrightarrow> chunks_tracked m' = chunks_tracked m"
  by (simp add: chunk_view_def chunks_tracked_def)

lemma view_same: "bm_outbound m' = bm_outbound m \<Longrightarrow> bm_rings m' = bm_rings m \<Longrightarrow> chunk_view m' = chunk_view m"
  by (simp add: chunk_view_def)

lemma view_release [simp]:
  "chunk_view (release_inbound m s) = chunk_view m" "chunk_view (release_outbound m s) = chunk_view m"
  "chunk_view (on_receiver m h f) = chunk_view m" "chunk_view (drop_recv_stream m s) = chunk_view m"
  "chunk_view (refresh_recv_deadline m s d now) = chunk_view m" "chunk_view (snd (take_pending_request m s)) = chunk_view m"
  "chunk_view (m\<lparr>bm_inbound := b\<rparr>) = chunk_view m" "chunk_view (m\<lparr>bm_recv_rings := rr\<rparr>) = chunk_view m"
  "chunk_view (snd (enqueue_blob_write m w)) = chunk_view m"
  by (simp_all add: chunk_view_def take_pending_request_def enqueue_blob_write_def enqueue_response_def notify_work_def Let_def
      split: option.splits)

lemma view_remove [simp]: "chunk_view (snd (remove_recv_stream m s)) = chunk_view m"
  by (simp add: remove_recv_stream_def)

lemma view_take: "take_pending_request m s = (r, m') \<Longrightarrow> chunk_view m' = chunk_view m"
  using view_release(6) [of m s] by (simp del: view_release)

lemma view_drop_pending [simp]: "chunk_view (drop_pending_request m s) = chunk_view m"
  by (auto simp: drop_pending_request_def view_take split: prod.splits option.splits)

lemma view_fail_inbound [simp]: "chunk_view (snd (fail_inbound_stream m s err)) = chunk_view m"
proof -
  obtain r m1 where take: "take_pending_request m s = (r, m1)" by force
  obtain r2 m2 where remove: "remove_recv_stream m1 s = (r2, m2)" by force
  have "chunk_view m1 = chunk_view m" "chunk_view m2 = chunk_view m1"
    using view_release(6) [of m s] view_remove [of m1 s] take remove by simp_all
  then show ?thesis by (simp add: fail_inbound_stream_def take remove split: option.splits)
qed

lemma view_fail_chunk [simp]: "chunk_view (fail_chunk_stream m s receiver err) = chunk_view m"
  using view_fail_inbound [of m s err]
  by (auto simp: fail_chunk_stream_def split: prod.splits bool.splits simp del: view_fail_inbound)

lemma view_fold: "(\<And>m x. chunk_view (f m x) = chunk_view m) \<Longrightarrow> chunk_view (foldl f m xs) = chunk_view m"
  by (induction xs arbitrary: m) auto

lemma view_chunk: "handle_blob_transfer_chunk m payload idle w cs now = Some (r, m') \<Longrightarrow> chunk_view m' = chunk_view m"
proof -
  have state: "chunk_view m1 = chunk_view m" if "recv_chunk_state m s idle now = (x, m1)" for s x m1
    using that by (auto simp: recv_chunk_state_def split: option.splits if_splits)
  have ring: "chunk_view m2 = chunk_view m1" if "receive_into_ring m1 chunk receiver ring idle now = Some (x, m2)" for m1 chunk receiver ring x m2
    using that by (auto simp: receive_into_ring_def Let_def split: option.splits sum.splits prod.splits inbound_insert_outcome.splits)
  assume "handle_blob_transfer_chunk m payload idle w cs now = Some (r, m')"
  then show ?thesis
    by (auto simp: handle_blob_transfer_chunk_def Let_def
        split: if_splits blob_recv_chunk_state.splits option.splits sum.splits prod.splits dest!: state ring)
qed

lemma view_inbound_methods:
  "chunk_view (snd (activate_pending_request m s settings now)) = chunk_view m"
  "chunk_view (inbound_reaper_turn m now) = chunk_view m"
  "chunk_view (snd (try_receiver_read m receiver s now)) = chunk_view m"
  "chunk_view (snd (fail_receiver_idle m receiver s)) = chunk_view m"
  "chunk_view (receiver_stream_drop m receiver s) = chunk_view m"
proof -
  show "chunk_view (snd (activate_pending_request m s settings now)) = chunk_view m"
    by (auto simp: activate_pending_request_def insert_recv_stream_def Let_def view_take split: prod.splits option.splits sum.splits)
  show "chunk_view (inbound_reaper_turn m now) = chunk_view m"
    by (auto simp: inbound_reaper_turn_def expire_recv_streams_def reap_stream_def Let_def view_fold split: option.splits)
qed (auto simp: try_receiver_read_def note_recv_complete_def fail_receiver_idle_def receiver_stream_drop_def Let_def
    split: option.splits prod.splits)


section \<open>Runs of the manager\<close>

text \<open>
  The account of the counters that the peers of a domus share: the bytes that the other peers hold, those of the
  calls of this peer that have counted their bytes and not yet entered them, and those that are counted for good
  although no table has them: the bytes of an entry that was replaced, and of a call that was dropped between
  its two halves.
\<close>

record reservation_ledger =
  lg_others :: "buffer_side \<Rightarrow> nat"
  lg_calls :: "(buffer_side \<times> nat) multiset"
  lg_lost :: "(buffer_side \<times> nat) multiset"

definition bytes_on :: "buffer_side \<Rightarrow> (buffer_side \<times> nat) multiset \<Rightarrow> nat" where
  "bytes_on side calls = sum_mset (image_mset (\<lambda>(sd, bytes). if sd = side then bytes else 0) calls)"

definition unentered :: "reservation_ledger \<Rightarrow> buffer_side \<Rightarrow> nat" where
  "unentered l side = lg_others l side + bytes_on side (lg_calls l) + bytes_on side (lg_lost l)"

definition ledger_base :: "reservation_ledger \<Rightarrow> blob_buffer_tracker" where
  "ledger_base l = \<lparr>bt_outbound_used = unentered l SideOutbound, bt_inbound_used = unentered l SideInbound\<rparr>"

text \<open>What an operation of the manager does to the account.\<close>

fun ledger_step :: "reservation_ledger \<Rightarrow> blob_manager \<Rightarrow> blob_op \<Rightarrow> reservation_ledger" where
  "ledger_step l m (OpCount side bytes cap) =
     (if fst (count_bytes m side bytes cap) then l\<lparr>lg_calls := add_mset (side, bytes) (lg_calls l)\<rparr> else l)"
| "ledger_step l m (OpEnter side s bytes) =
     l\<lparr>lg_calls := lg_calls l - {#(side, bytes)#},
       lg_lost := (case entered_bytes m side s of Some old \<Rightarrow> add_mset (side, old) (lg_lost l) | None \<Rightarrow> lg_lost l)\<rparr>"
| "ledger_step l m _ = l"

text \<open>
  The calls that the code makes in a state: the number of the next chunk frame is not one of a frame in
  flight (numbers wrap around after \<open>2 ^ 32\<close> allocations), a finished write is the caller's own, bytes are
  entered by a call that has counted them, and no stream uses up its 64-bit chunk numbers.
\<close>

fun legal_op :: "reservation_ledger \<Rightarrow> blob_manager \<Rightarrow> blob_op \<Rightarrow> bool" where
  "legal_op l m (OpLease callis_id) \<longleftrightarrow> in_flight m (al_next (bm_allocator m)) = None"
| "legal_op l m (OpFinish w callis_id res) \<longleftrightarrow> own_write m w callis_id"
| "legal_op l m (OpEnter side s bytes) \<longleftrightarrow> (side, bytes) \<in># lg_calls l"
| "legal_op l m (OpWrite h bytes) \<longleftrightarrow> oc_next_chunk_id (os_chunks (snd (ring_try_push (bm_rings m ! h) True bytes))) < u64_max"
| "legal_op l m (OpSeal h) \<longleftrightarrow> oc_next_chunk_id (os_chunks (snd (ring_seal_pass (bm_rings m ! h)))) < u64_max"
| "legal_op l m _ \<longleftrightarrow> True"

text \<open>
  The runs of a manager. \<open>give_up\<close>: a call is dropped between its halves. \<open>others\<close>: the other peers change what
  they hold of the shared counters.
\<close>

inductive blob_run_ledger :: "reservation_ledger \<Rightarrow> blob_manager \<Rightarrow> bool" where
  start: "blob_run_ledger \<lparr>lg_others = used base, lg_calls = {#}, lg_lost = {#}\<rparr> (blob_manager_new base allocator send_queue_size)"
| operate: "blob_run_ledger l m \<Longrightarrow> legal_op l m opn \<Longrightarrow> blob_run_ledger (ledger_step l m opn) (blob_step m opn)"
| give_up: "blob_run_ledger l m \<Longrightarrow> (side, bytes) \<in># lg_calls l \<Longrightarrow>
    blob_run_ledger (l\<lparr>lg_calls := lg_calls l - {#(side, bytes)#}, lg_lost := add_mset (side, bytes) (lg_lost l)\<rparr>) m"
| others: "blob_run_ledger l m \<Longrightarrow> l' = l\<lparr>lg_others := held\<rparr> \<Longrightarrow> (\<And>side. used t side = unentered l' side + reserved m side) \<Longrightarrow>
    blob_run_ledger l' (m\<lparr>bm_buffer_tracker := t\<rparr>)"

text \<open>A manager that some run reaches, with the bytes of the shared counters that are in none of its tables.\<close>

definition blob_reach :: "blob_buffer_tracker \<Rightarrow> blob_manager \<Rightarrow> bool" where
  "blob_reach base m \<longleftrightarrow> (\<exists>l. blob_run_ledger l m \<and> base = ledger_base l)"

lemma used_ledger_base [simp]: "used (ledger_base l) side = unentered l side"
  by (cases side) (simp_all add: ledger_base_def used.simps)

lemma bytes_on_simps [simp]:
  "bytes_on side {#} = 0" "bytes_on side (add_mset (sd, bytes) calls) = (if sd = side then bytes else 0) + bytes_on side calls"
  by (simp_all add: bytes_on_def)

lemma bytes_on_remove:
  "(sd, bytes) \<in># calls \<Longrightarrow> bytes_on side (calls - {#(sd, bytes)#}) + (if sd = side then bytes else 0) = bytes_on side calls"
  using bytes_on_simps(2) [of side sd bytes "calls - {#(sd, bytes)#}"] by simp

lemma unentered_enter:
  assumes "(side, bytes) \<in># lg_calls l"
  shows "unentered (ledger_step l m (OpEnter side s bytes)) sd + (if sd = side then bytes else 0) =
    unentered l sd + (if sd = side then case entered_bytes m side s of Some old \<Rightarrow> old | None \<Rightarrow> 0 else 0)"
  using bytes_on_remove [OF assms, of sd] by (cases "sd = side") (auto simp: unentered_def split: option.split)

lemma unentered_give_up:
  "(side, bytes) \<in># lg_calls l \<Longrightarrow>
   unentered (l\<lparr>lg_calls := lg_calls l - {#(side, bytes)#}, lg_lost := add_mset (side, bytes) (lg_lost l)\<rparr>) = unentered l"
  using bytes_on_remove [of side bytes "lg_calls l"] by (fastforce simp: unentered_def fun_eq_iff)

lemma inv_new: "manager_inv base (blob_manager_new base allocator n)"
  by (simp add: manager_inv_def blob_manager_new_def responses_inv_new inbound_tables_def accounted_iff
      blob_inbound_new_def blob_reservation_new_def)

lemma inv_rebase:
  assumes "manager_inv base m" and "accounted base' m'"
    and "bm_outbound m' = bm_outbound m" "bm_inbound m' = bm_inbound m" "bm_receivers m' = bm_receivers m"
      "bm_recv_rings m' = bm_recv_rings m" "bm_rings m' = bm_rings m" "bm_callis m' = bm_callis m"
  shows "manager_inv base' m'"
  using assms by (simp add: manager_inv_def inbound_tables_def accounted_iff)

lemma inv_step:
  assumes "manager_inv (ledger_base l) m" and "legal_op l m opn"
  shows "manager_inv (ledger_base (ledger_step l m opn)) (blob_step m opn)"
proof (cases opn)
  case (OpCount side bytes cap)
  obtain ok m' where c: "count_bytes m side bytes cap = (ok, m')" by fastforce
  have "accounted (ledger_base (ledger_step l m opn)) m'"
    using accounted_count [OF inv_bound(3) [OF assms(1)] c] c OpCount by (simp add: unentered_def)
  from inv_rebase [OF assms(1) this] count_bytes_fields [of m side bytes cap] c OpCount show ?thesis by simp
next
  case (OpEnter side s bytes)
  have "accounted (ledger_base (ledger_step l m opn)) (enter_bytes m side s bytes)"
    using accounted_enter [OF inv_bound(3) [OF assms(1)]] unentered_enter [of side bytes l m s] assms(2) OpEnter
    by (simp del: ledger_step.simps)
  from inv_rebase [OF assms(1) this] OpEnter show ?thesis by simp
next
  case (OpReceiver timeout)
  with assms inv_new_receiver show ?thesis by simp
next
  case (OpChunk payload idle w cs now)
  with assms inv_chunk show ?thesis by (auto split: option.splits)
next
  case (OpPending s t r)
  with assms show ?thesis by (auto intro!: inv_add_pending keeps_inv)
qed (use assms in \<open>auto simp: inv_lease inv_finish inv_register inv_ack inv_error inv_complete inv_requeue_callis
    inv_requeue_all inv_add_callis inv_pool_methods inv_activate inv_reap inv_read inv_read_idle inv_receiver_drop
    intro!: keeps_inv\<close>)

lemma tracked_on_ring:
  assumes "chunks_tracked m" and "quiet_op x" and "oc_next_chunk_id (os_chunks (outbound_step (bm_rings m ! h) x)) < u64_max"
  shows "chunks_tracked (on_ring m h (\<lambda>r. outbound_step r x))"
  using assms by (intro chunks_tracked_ring ring_tracked_quiet)

lemma tracked_step:
  assumes inv: "manager_inv base m" and tracked: "chunks_tracked m" and legal: "legal_op l m opn"
  shows "chunks_tracked (blob_step m opn)"
proof (cases opn)
  case (OpLease callis)
  with tracked_lease [OF tracked inv_bound(1) [OF inv]] legal show ?thesis by simp
next
  case (OpWrite h bytes)
  with tracked_on_ring [OF tracked, of "TryPush True bytes" h] tracked legal show ?thesis by simp
next
  case (OpSeal h)
  with tracked_on_ring [OF tracked, of SealPass h] tracked legal show ?thesis by simp
next
  case (OpCount side bytes cap)
  then have "chunk_view (blob_step m opn) = chunk_view m" by (simp add: chunk_view_def count_bytes_def split_beta)
  with tracked tracked_view show ?thesis by blast
next
  case (OpEnter side s bytes)
  then have "chunk_view (blob_step m opn) = chunk_view m" by (cases side) (simp_all add: chunk_view_def)
  with tracked tracked_view show ?thesis by blast
next
  case (OpChunk payload idle w cs now)
  then have "chunk_view (blob_step m opn) = chunk_view m" using view_chunk by (auto split: option.splits)
  with tracked tracked_view show ?thesis by blast
next
  case (OpAddCallis handle settings resume)
  with tracked_add_callis [OF tracked] show ?thesis by simp
next
  case (OpFinish w callis res)
  with tracked_finish [OF tracked] legal show ?thesis by simp
qed (use tracked in \<open>simp_all add: tracked_enqueue tracked_register tracked_unregister tracked_ack tracked_error tracked_complete
    tracked_requeue_callis tracked_requeue_all tracked_fail_all\<close>,
  auto simp: chunk_view_def remove_callis_def drain_callis_def select_callis_def bump_callis_gen_def
    add_pending_request_def Let_def split_beta view_inbound_methods [unfolded chunk_view_def]
    view_release [unfolded chunk_view_def] view_drop_pending [unfolded chunk_view_def]
    intro!: iffD2 [OF tracked_view [of _ m]] split: prod.splits bool.splits)

lemma tracked_new: "chunks_tracked (blob_manager_new base allocator n)"
  by (simp add: chunks_tracked_def blob_manager_new_def blob_outbound_new_def)

lemma ledger_run_inv: "blob_run_ledger l m \<Longrightarrow> manager_inv (ledger_base l) m \<and> chunks_tracked m"
proof (induction rule: blob_run_ledger.induct)
  case (start base allocator n)
  have "ledger_base \<lparr>lg_others = used base, lg_calls = {#}, lg_lost = {#}\<rparr> = base"
    by (simp add: ledger_base_def unentered_def used.simps)
  then show ?case by (simp add: inv_new tracked_new)
next
  case (operate l m opn)
  then show ?case using inv_step tracked_step by blast
next
  case (give_up l m side bytes)
  then show ?case by (simp add: ledger_base_def unentered_give_up)
next
  case (others l m l' held t)
  then have "accounted (ledger_base l') (m\<lparr>bm_buffer_tracker := t\<rparr>)"
    using reserved.simps inv_bound(3) by (auto simp: accounted_iff)
  with others inv_rebase [of "ledger_base l" m "ledger_base l'" "m\<lparr>bm_buffer_tracker := t\<rparr>"] show ?case
    by (simp add: chunks_tracked_def)
qed

lemma reach_inv: "blob_reach base m \<Longrightarrow> manager_inv base m \<and> chunks_tracked m"
  using ledger_run_inv by (auto simp: blob_reach_def)

lemma reach_tracked: "blob_reach base m \<Longrightarrow> chunks_tracked m" and reach_manager: "blob_reach base m \<Longrightarrow> manager_inv base m"
  using reach_inv by blast+

lemma reach_start: "blob_reach base (blob_manager_new base allocator n)"
proof -
  have "base = ledger_base \<lparr>lg_others = used base, lg_calls = {#}, lg_lost = {#}\<rparr>"
    by (simp add: ledger_base_def unentered_def used.simps)
  with blob_run_ledger.start show ?thesis unfolding blob_reach_def by blast
qed

lemma reach_operate:
  "blob_reach base m \<Longrightarrow> (\<And>l. legal_op l m opn) \<Longrightarrow> (\<And>l. ledger_step l m opn = l) \<Longrightarrow> blob_reach base (blob_step m opn)"
  unfolding blob_reach_def by (metis blob_run_ledger.operate)

text \<open>A reservation whose call was not dropped, for a stream that has none, leaves nothing counted outside the tables.\<close>

lemma run_reserve:
  assumes "blob_run_ledger l m" and "fst (count_bytes m side bytes cap)" and "entered_bytes m side s = None"
  shows "blob_run_ledger l (enter_bytes (snd (count_bytes m side bytes cap)) side s bytes)"
proof -
  let ?l = "l\<lparr>lg_calls := add_mset (side, bytes) (lg_calls l)\<rparr>" and ?m = "snd (count_bytes m side bytes cap)"
  have "blob_run_ledger ?l ?m" using blob_run_ledger.operate [OF assms(1), of "OpCount side bytes cap"] assms(2) by simp
  from blob_run_ledger.operate [OF this, of "OpEnter side s bytes"]
  have "blob_run_ledger (ledger_step ?l ?m (OpEnter side s bytes)) (enter_bytes ?m side s bytes)" by simp
  moreover have "entered_bytes ?m side s = None" using assms(3) by (cases side) simp_all
  ultimately show ?thesis by simp
qed

lemma reach_reserve:
  "blob_reach base m \<Longrightarrow> fst (count_bytes m side bytes cap) \<Longrightarrow> entered_bytes m side s = None \<Longrightarrow>
   blob_reach base (enter_bytes (snd (count_bytes m side bytes cap)) side s bytes)"
  unfolding blob_reach_def using run_reserve by blast

section \<open>A lost callis\<close>

lemma sweep_unchanged:
  assumes inv: "outbound_inv ring" and none: "\<And>slot. slot \<in> set (oc_slots (os_chunks ring)) \<Longrightarrow> \<not> swept callis slot"
  shows "snd (ring_mark_callis_replay_ready ring callis) = ring"
proof -
  let ?c = "os_chunks ring"
  have ok: "oc_inv ?c" using inv by (rule outbound_inv_chunks)
  then have "length (filter is_inflight_slot (oc_slots ?c)) = oc_inflight ?c" by (simp add: oc_defs)
  moreover have "oc_ack_map ?c |` UNIV = oc_ack_map ?c" by (simp add: restrict_map_def)
  moreover have "map (\<lambda>slot. fst (replay_slot callis slot)) (oc_slots ?c) = oc_slots ?c"
    using none by (intro map_idI) (simp add: replay_slot_swept)
  moreover have "swept_flights callis (oc_slots ?c) = {}" using none by (auto simp: swept_flights_def)
  ultimately show ?thesis
    using mark_callis_replay_ready_eq [OF ok, of callis] by (simp add: ring_mark_callis_replay_ready_def)
qed

lemma sweeps_nth:
  "distinct hs \<Longrightarrow> h < length (bm_rings m) \<Longrightarrow>
   bm_rings (foldl (\<lambda>m h. sweep_ring m callis h) m hs) ! h =
     (if h \<in> set hs then snd (ring_mark_callis_replay_ready (bm_rings m ! h) callis) else bm_rings m ! h)"
proof (induction hs arbitrary: m)
  case (Cons h0 hs)
  then show ?case by (cases "h = h0") (auto simp: on_ring_def)
qed simp

lemma distinct_map_filter_inj:
  "distinct xs \<Longrightarrow> (\<And>x x' y. f x = Some y \<Longrightarrow> f x' = Some y \<Longrightarrow> x = x') \<Longrightarrow> distinct (List.map_filter f xs)"
proof (induction xs)
  case (Cons x xs)
  have "y \<notin> set (List.map_filter f xs)" if "f x = Some y" for y
    using Cons.prems that by (fastforce simp: in_map_filter)
  with Cons show ?case by (auto simp: List.map_filter_simps split: option.splits)
qed (simp add: List.map_filter_simps)

text \<open>
  The manager sweeps the ring buffers it finds through its table of frames in flight; that is every ring
  buffer that has a chunk on the callis.
\<close>

lemma requeue_callis_rings:
  assumes tracked: "chunks_tracked m" and ring: "stream_ring m s = Some h"
  shows "bm_rings (requeue_inflight_for_callis m callis) ! h = snd (ring_mark_callis_replay_ready (bm_rings m ! h) callis)"
proof -
  let ?m = "m\<lparr>bm_outbound := snd (outbound_requeue (\<lambda>c. c = callis) (bm_outbound m))\<rparr>"
  let ?entries = "fst (outbound_requeue (\<lambda>c. c = callis) (bm_outbound m))"
  let ?rings = "List.map_filter (stream_ring m) (remdups (map (\<lambda>(_, e). ib_stream_id e) ?entries))"
  note mem = stream_ring_mem [OF ring]
  note tr = chunks_trackedD [OF tracked mem]
  have stream: "stream_ring ?m = stream_ring m" by (simp add: stream_ring_def requeue_fields fun_eq_iff)
  have "distinct ?rings"
    by (rule distinct_map_filter_inj) (auto dest!: stream_ring_mem intro: stream_handle_unique [OF tracked])
  then have rings: "bm_rings (foldl (\<lambda>m h. sweep_ring m callis h) ?m ?rings) ! h =
      (if h \<in> set ?rings then snd (ring_mark_callis_replay_ready (bm_rings m ! h) callis) else bm_rings m ! h)"
    using tr(1) by (simp add: sweeps_nth)
  have quiet: "snd (ring_mark_callis_replay_ready (bm_rings m ! h) callis) = bm_rings m ! h" if "h \<notin> set ?rings"
  proof (rule sweep_unchanged)
    show "outbound_inv (bm_rings m ! h)" using tr(2) by (simp add: ring_tracked_def)
    fix slot assume "slot \<in> set (oc_slots (os_chunks (bm_rings m ! h)))"
    then have slot: "slot_tracked (in_flight m) s (oc_ack_map (os_chunks (bm_rings m ! h))) slot"
      using tr(2) by (simp add: ring_tracked_def)
    show "\<not> swept callis slot"
    proof
      assume "swept callis slot"
      with slot obtain p where "in_flight m p = Some \<lparr>ib_stream_id = s, ib_callis_id = callis, ib_is_chunk = True\<rparr>"
        by (cases slot) (auto simp: swept_def)
      from map_of_SomeD [OF this] have "s \<in> (\<lambda>(_, e). ib_stream_id e) ` set ?entries"
        by (force simp: requeue_fields)
      with ring that show False by (auto simp: in_map_filter)
    qed
  qed
  show ?thesis
    using rings quiet by (auto simp: requeue_inflight_for_callis_def Let_def split_beta stream List.map_filter_simps)
qed

text \<open>
  C20. The loss of a blob callis loses no chunk: in the window of every stream the chunks that were on the
  lost callis, and only these, wait for replay with their numbers and bytes, whatever the table of frames
  in flight was asked; the table keeps exactly the frames of the other calles, and when a chunk was
  requeued the transmitters are woken.
\<close>

theorem lost_blob_callis_replays:
  assumes "blob_reach base m" and "stream_ring m s = Some h"
    and m': "m' = requeue_inflight_for_callis m callis"
    and slots: "slots = oc_slots (os_chunks (bm_rings m ! h))"
  shows "oc_slots (os_chunks (bm_rings m' ! h)) = map (\<lambda>slot. fst (replay_slot callis slot)) slots
    \<and> os_lifecycle (bm_rings m' ! h) = os_lifecycle (bm_rings m ! h)
    \<and> bo_inflight (bm_outbound m') = filter (\<lambda>(_, e). ib_callis_id e \<noteq> callis) (bo_inflight (bm_outbound m))
    \<and> (list_ex (swept callis) slots \<longrightarrow> bm_work m' \<and> has_replay_ready (os_chunks (bm_rings m' ! h)))"
proof -
  note tracked = reach_tracked [OF assms(1)]
  note tr = chunks_trackedD [OF tracked stream_ring_mem [OF assms(2)]]
  have ring: "bm_rings m' ! h = snd (ring_mark_callis_replay_ready (bm_rings m ! h) callis)"
    unfolding m' by (rule requeue_callis_rings [OF tracked assms(2)])
  have inv: "outbound_inv (bm_rings m ! h)" using tr(2) by (simp add: ring_tracked_def)
  have new: "oc_slots (os_chunks (bm_rings m' ! h)) = map (\<lambda>slot. fst (replay_slot callis slot)) slots"
    using sweep_chunks(2) [OF inv, of callis] by (simp add: ring slots)
  have folds: "bo_inflight (bm_outbound (foldl (\<lambda>m h. sweep_ring m callis h) m0 hs)) = bo_inflight (bm_outbound m0)" for m0 hs
    by (induction hs arbitrary: m0) auto
  have table: "bo_inflight (bm_outbound m') = filter (\<lambda>(_, e). ib_callis_id e \<noteq> callis) (bo_inflight (bm_outbound m))"
    by (simp add: m' requeue_inflight_for_callis_def Let_def split_beta requeue_fields folds notify_work_def)
  have "bm_work m' \<and> has_replay_ready (os_chunks (bm_rings m' ! h))" if some: "list_ex (swept callis) slots"
  proof -
    obtain slot where slot: "slot \<in> set slots" "swept callis slot" using some by (auto simp: list_ex_iff)
    have "slot_tracked (in_flight m) s (oc_ack_map (os_chunks (bm_rings m ! h))) slot"
      using tr(2) slot(1) by (simp add: ring_tracked_def slots)
    with slot(2) obtain p where "in_flight m p = Some \<lparr>ib_stream_id = s, ib_callis_id = callis, ib_is_chunk = True\<rparr>"
      by (cases slot) (auto simp: swept_def)
    from map_of_SomeD [OF this] have "fst (outbound_requeue (\<lambda>c. c = callis) (bm_outbound m)) \<noteq> []"
      by (force simp: requeue_fields filter_empty_conv)
    then have "bm_work m'" by (simp add: m' requeue_inflight_for_callis_def Let_def split_beta notify_work_def)
    moreover have "fst (replay_slot callis slot) \<in> set (oc_slots (os_chunks (bm_rings m' ! h)))"
      unfolding new using slot(1) by simp
    with slot(2) have "has_replay_ready (os_chunks (bm_rings m' ! h))"
      unfolding has_replay_ready_def list_ex_iff by (intro bexI) (simp_all add: replay_slot_swept)
    ultimately show ?thesis by simp
  qed
  with new table ring show ?thesis by (simp add: ring_mark_callis_replay_ready_def split_beta Let_def)
qed


text \<open>A stream of five, with a chunk on callis 7 and a byte waiting for a full chunk.\<close>

lemmas blob_eval = ring_eval blob_manager_new_def register_outbound_stream_def outbound_new_def outbound_add_stream_def
  blob_outbound_new_def on_ring_def lease_next_blob_write_def next_blob_write_slot_def next_response_def next_chunk_frame_def
  order_streams_from_cursor_def ring_has_dispatchable_replay_def ring_has_dispatchable_fresh_def has_replay_ready_def
  has_fresh_ready_def next_peer_msg_id_def allocator_next_def allocator_new_def mark_dispatch_inflight_def
  outbound_mark_inflight_def stream_ring_def advance_past_def advance_round_robin_cursor_def next_stream_after_def
  has_dispatchable_blob_write_def ring_dispatchable_def response_ready_count_def set_write_state_def notify_work_def Let_def

definition no_bytes :: blob_buffer_tracker where
  "no_bytes = \<lparr>bt_outbound_used = 0, bt_inbound_used = 0\<rparr>"

definition new_manager :: blob_manager where
  "new_manager = blob_manager_new no_bytes (allocator_new 40) 2"

definition small_window :: blob_callis_settings where
  "small_window = \<lparr>bs_chunk_size = 2, bs_ack_window_chunks = 2\<rparr>"

definition stream_opened :: blob_manager where
  "stream_opened = blob_step new_manager (OpRegister 5 small_window)"

definition bytes_written :: blob_manager where
  "bytes_written = blob_step stream_opened (OpWrite 0 [1, 2, 3])"

definition chunk_sent :: blob_manager where
  "chunk_sent = blob_step bytes_written (OpLease 7)"

lemma chunk_sent_reached: "blob_reach no_bytes chunk_sent"
proof -
  have "blob_reach no_bytes stream_opened"
    unfolding stream_opened_def new_manager_def by (intro reach_operate reach_start) simp_all
  moreover have "legal_op l stream_opened (OpWrite 0 [1, 2, 3])" for l
    by (simp add: stream_opened_def new_manager_def small_window_def blob_eval)
  ultimately have "blob_reach no_bytes bytes_written"
    unfolding bytes_written_def by (rule reach_operate) simp
  moreover have "legal_op l bytes_written (OpLease 7)" for l
    by (simp add: bytes_written_def stream_opened_def new_manager_def small_window_def blob_eval)
  ultimately show ?thesis unfolding chunk_sent_def by (rule reach_operate) simp
qed

lemma chunk_sent_fields:
  "stream_ring chunk_sent 5 = Some 0"
  "oc_slots (os_chunks (bm_rings chunk_sent ! 0)) = [SlotInFlight 0 [1, 2] 40 7 False (Suc 0), SlotEmpty]"
  by (simp_all add: chunk_sent_def bytes_written_def stream_opened_def new_manager_def small_window_def blob_eval)

theorem lost_blob_callis_replays_witness:
  "oc_slots (os_chunks (bm_rings (requeue_inflight_for_callis chunk_sent 7) ! 0))
     = [SlotReplayReady 0 [1, 2] 7 False (Suc 0), SlotEmpty]
   \<and> bm_work (requeue_inflight_for_callis chunk_sent 7)"
  using lost_blob_callis_replays [OF chunk_sent_reached chunk_sent_fields(1) refl refl, of 7]
  by (simp add: chunk_sent_fields(2) replay_slot_def swept_def)

section \<open>Reservations\<close>

lemma fail_all_exact:
  assumes "blob_reach base m" and m': "m' = fail_all_streams m err"
  shows "used (bm_buffer_tracker m) side = used base side + reserved m side
    \<and> used (bm_buffer_tracker m') side = used base side \<and> reserved m' side = 0
    \<and> bo_streams (bm_outbound m') = [] \<and> bi_recv_streams (bm_inbound m') = [] \<and> bi_pending_requests (bm_inbound m') = []
    \<and> \<not> has_active_streams m'"
proof -
  have receivers: "bm_inbound (foldl (\<lambda>m (_, stream). on_receiver m (rs_receiver stream) f) m0 xs) = bm_inbound m0"
    "bm_reservations (foldl (\<lambda>m (_, stream). on_receiver m (rs_receiver stream) f) m0 xs) = bm_reservations m0" for m0 f xs
    by (induction xs arbitrary: m0) auto
  have empty: "bm_reservations m' = \<lparr>rv_outbound = [], rv_inbound = []\<rparr>"
    "bm_inbound m' = \<lparr>bi_pending_requests = [], bi_recv_streams = [], bi_completed_recv_streams = []\<rparr>"
    by (simp_all add: m' fail_all_streams_def Let_def split_beta receivers)
  note inv = reach_manager [OF assms(1)]
  have "accounted base m" "accounted base m'" using inv_bound(3) inv inv_fail_all unfolding m' by blast+
  moreover have "reserved m' side = 0" using empty by (cases side) simp_all
  ultimately show ?thesis
    using empty fail_all_outbound(1) [of m err] by (simp add: accounted_def has_active_streams_def m')
qed

lemma release_exact:
  assumes "accounted base m"
  shows "map_of (rv_outbound (bm_reservations m)) s = Some bytes \<Longrightarrow>
      used (bm_buffer_tracker (release_outbound m s)) SideOutbound + bytes = used (bm_buffer_tracker m) SideOutbound"
    and "map_of (rv_inbound (bm_reservations m)) s = Some bytes \<Longrightarrow>
      used (bm_buffer_tracker (release_inbound m s)) SideInbound + bytes = used (bm_buffer_tracker m) SideInbound"
proof -
  note acc = assms [unfolded accounted_iff]
  have le: "bytes \<le> sum_list (map snd al)" if "map_of al s = Some bytes" for al :: "(peer_message_id \<times> nat) list"
    using map_of_SomeD [OF that] by (force intro: member_le_sum_list)
  show "used (bm_buffer_tracker (release_outbound m s)) SideOutbound + bytes = used (bm_buffer_tracker m) SideOutbound"
    if "map_of (rv_outbound (bm_reservations m)) s = Some bytes"
    using that le [OF that] acc
    by (simp add: release_outbound_def release_side_def Let_def del: map_of_eq_Some_iff Some_eq_map_of_iff)
  show "used (bm_buffer_tracker (release_inbound m s)) SideInbound + bytes = used (bm_buffer_tracker m) SideInbound"
    if "map_of (rv_inbound (bm_reservations m)) s = Some bytes"
    using that le [OF that] acc
    by (simp add: release_inbound_def release_side_def Let_def del: map_of_eq_Some_iff Some_eq_map_of_iff)
qed

text \<open>
  C11. The account of the shared counters is exact between the steps of a manager: what is counted is what the
  other peers hold, the calls of this peer that have not yet entered their bytes, the bytes in its tables, and
  the bytes lost by it, each of which is an entry that was replaced or a call that was dropped between its
  halves. A release gives back exactly the bytes entered for its stream, without an underflow. Failing all
  streams of a peer gives exactly the bytes in its tables back, so nothing but what was lost stays counted for
  it, and leaves no stream, request or reservation.
\<close>

theorem blob_reservations_exact:
  assumes "blob_run_ledger l m" and m': "m' = fail_all_streams m err"
  shows "used (bm_buffer_tracker m) side = lg_others l side + bytes_on side (lg_calls l) + bytes_on side (lg_lost l) + reserved m side
    \<and> used (bm_buffer_tracker m') side = lg_others l side + bytes_on side (lg_calls l) + bytes_on side (lg_lost l)
    \<and> reserved m' side = 0
    \<and> (\<forall>s bytes. map_of (rv_outbound (bm_reservations m)) s = Some bytes \<longrightarrow>
         used (bm_buffer_tracker (release_outbound m s)) SideOutbound + bytes = used (bm_buffer_tracker m) SideOutbound)
    \<and> (\<forall>s bytes. map_of (rv_inbound (bm_reservations m)) s = Some bytes \<longrightarrow>
         used (bm_buffer_tracker (release_inbound m s)) SideInbound + bytes = used (bm_buffer_tracker m) SideInbound)
    \<and> bo_streams (bm_outbound m') = [] \<and> bi_recv_streams (bm_inbound m') = [] \<and> bi_pending_requests (bm_inbound m') = []
    \<and> \<not> has_active_streams m'"
proof -
  have "blob_reach (ledger_base l) m" using assms(1) unfolding blob_reach_def by blast
  from fail_all_exact [OF this m'] release_exact [OF inv_bound(3) [OF reach_manager [OF this]]] show ?thesis
    by (simp add: unentered_def)
qed

definition bytes_reserved :: blob_manager where
  "bytes_reserved = foldl blob_step new_manager
     [OpCount SideOutbound 4 100, OpEnter SideOutbound 5 4, OpCount SideInbound 6 100, OpEnter SideInbound 9 6, OpReceiver 30]"

lemmas reserve_eval = new_manager_def blob_manager_new_def blob_reservation_new_def count_bytes_def try_reserve_side_eq no_bytes_def
  used.simps set_used.simps Let_def

lemma bytes_reserved_run: "blob_run_ledger \<lparr>lg_others = used no_bytes, lg_calls = {#}, lg_lost = {#}\<rparr> bytes_reserved"
proof -
  let ?l = "\<lparr>lg_others = used no_bytes, lg_calls = {#}, lg_lost = {#}\<rparr>"
  have "blob_run_ledger ?l new_manager" unfolding new_manager_def by (rule blob_run_ledger.start)
  from run_reserve [OF this, of SideOutbound 4 100 5]
  have "blob_run_ledger ?l (foldl blob_step new_manager [OpCount SideOutbound 4 100, OpEnter SideOutbound 5 4])"
    by (simp add: reserve_eval)
  from run_reserve [OF this, of SideInbound 6 100 9]
  have "blob_run_ledger ?l (foldl blob_step new_manager
      [OpCount SideOutbound 4 100, OpEnter SideOutbound 5 4, OpCount SideInbound 6 100, OpEnter SideInbound 9 6])"
    by (simp add: reserve_eval)
  from blob_run_ledger.operate [OF this, of "OpReceiver 30"] show ?thesis by (simp add: bytes_reserved_def)
qed

lemma bytes_reserved_reached: "blob_reach no_bytes bytes_reserved"
proof -
  have "no_bytes = ledger_base \<lparr>lg_others = used no_bytes, lg_calls = {#}, lg_lost = {#}\<rparr>"
    by (simp add: ledger_base_def unentered_def used.simps)
  with bytes_reserved_run show ?thesis unfolding blob_reach_def by blast
qed

theorem blob_reservations_exact_witness:
  "used (bm_buffer_tracker bytes_reserved) SideInbound = 6
   \<and> used (bm_buffer_tracker (fail_all_streams bytes_reserved (err_new PeerUnavailable))) SideInbound = 0"
  using blob_reservations_exact [OF bytes_reserved_run refl, of SideInbound "err_new PeerUnavailable"]
  by (simp add: bytes_reserved_def reserve_eval)

text \<open>
  The two ways to lose bytes. A call is dropped while it waits for the tables, and four bytes stay counted though
  nothing is reserved and all streams are failed; a second reservation for the same stream replaces the first,
  and its four bytes stay counted.
\<close>

lemma reservations_lost:
  "blob_run_ledger \<lparr>lg_others = used no_bytes, lg_calls = {#}, lg_lost = {#(SideOutbound, 4)#}\<rparr> (blob_step new_manager (OpCount SideOutbound 4 100))"
  "used (bm_buffer_tracker (fail_all_streams (blob_step new_manager (OpCount SideOutbound 4 100)) err)) SideOutbound = 4"
  "used (bm_buffer_tracker (foldl blob_step bytes_reserved [OpCount SideOutbound 6 100, OpEnter SideOutbound 5 6, OpReleaseOutbound 5])) SideOutbound = 4"
proof -
  let ?l = "\<lparr>lg_others = used no_bytes, lg_calls = {#}, lg_lost = {#}\<rparr>" and ?m = "blob_step new_manager (OpCount SideOutbound 4 100)"
  have "blob_run_ledger ?l new_manager" unfolding new_manager_def by (rule blob_run_ledger.start)
  from blob_run_ledger.operate [OF this, of "OpCount SideOutbound 4 100"]
  have "blob_run_ledger (?l\<lparr>lg_calls := {#(SideOutbound, 4)#}\<rparr>) ?m" by (simp add: reserve_eval)
  from blob_run_ledger.give_up [OF this, of SideOutbound 4]
  show lost: "blob_run_ledger \<lparr>lg_others = used no_bytes, lg_calls = {#}, lg_lost = {#(SideOutbound, 4)#}\<rparr> ?m" by simp
  then have "blob_reach (ledger_base \<lparr>lg_others = used no_bytes, lg_calls = {#}, lg_lost = {#(SideOutbound, 4)#}\<rparr>) ?m"
    unfolding blob_reach_def by blast
  from fail_all_exact [OF this refl, of SideOutbound err]
  show "used (bm_buffer_tracker (fail_all_streams ?m err)) SideOutbound = 4"
    by (simp only: used_ledger_base unentered_def) (simp add: no_bytes_def used.simps)
  show "used (bm_buffer_tracker (foldl blob_step bytes_reserved [OpCount SideOutbound 6 100, OpEnter SideOutbound 5 6, OpReleaseOutbound 5])) SideOutbound = 4"
    by (simp add: bytes_reserved_def reserve_eval release_outbound_def release_side_def)
qed

section \<open>Receiving\<close>

text \<open>
  A chunk frame for an open stream is always answered: an oversized chunk and one that comes after the
  idle deadline close the stream and give its reservation back, as does a chunk that the ring buffer
  refuses; an accepted chunk is in the ring buffer and moves the deadline, and the last missing one is
  answered as the completion and marks the receiver complete.
\<close>

theorem chunk_frame_contract:
  assumes "blob_reach base m" and "blob_chunk_from_bytes payload = Inr chunk"
    and "recv_stream m (bc_request_msg_id chunk) = Some st"
    and "map_of (bi_pending_requests (bm_inbound m)) (bc_request_msg_id chunk) = None"
    and "ack_window \<noteq> 0" "chunk_size \<noteq> 0"
  shows "\<exists>r m'. handle_blob_transfer_chunk m payload idle ack_window chunk_size now = Some (r, m')
    \<and> chunk_answered m chunk st idle chunk_size now r m'"
  using chunk_frame_answered [OF inv_bound(2) [OF reach_manager [OF assms(1)]] assms(2-6)] by blast

lemma foldl_min: "foldl min d ds = Min (set (d # ds))" for d :: nat
  unfolding Min.set_eq_fold by (simp add: foldl_conv_fold min.commute)

lemma earliest_deadline:
  "earliest_recv_deadline m = None \<longleftrightarrow> recv_streams m = []"
  "earliest_recv_deadline m = Some d \<Longrightarrow> (\<exists>(s, st) \<in> set (recv_streams m). rs_deadline st = d)"
  "earliest_recv_deadline m = Some d \<Longrightarrow> (s, st) \<in> set (recv_streams m) \<Longrightarrow> d \<le> rs_deadline st"
proof -
  let ?ds = "map (rs_deadline \<circ> snd) (recv_streams m)"
  have eq: "earliest_recv_deadline m = (if recv_streams m = [] then None else Some (Min (set ?ds)))"
    by (cases "recv_streams m") (simp_all add: earliest_recv_deadline_def foldl_min del: set_map)
  show "earliest_recv_deadline m = None \<longleftrightarrow> recv_streams m = []" by (simp add: eq)
  show "\<exists>(s, st) \<in> set (recv_streams m). rs_deadline st = d" if "earliest_recv_deadline m = Some d"
  proof -
    have "d \<in> set ?ds" using that Min_in [of "set ?ds"] by (auto simp: eq split: if_splits)
    then show ?thesis by auto
  qed
  show "d \<le> rs_deadline st" if "earliest_recv_deadline m = Some d" "(s, st) \<in> set (recv_streams m)"
    using that by (force simp: eq split: if_splits intro!: Min_le)
qed

lemma release_inbound_fold [simp]:
  "bm_inbound (foldl release_inbound m ss) = bm_inbound m" "bm_receivers (foldl release_inbound m ss) = bm_receivers m"
  "bm_outbound (foldl release_inbound m ss) = bm_outbound m"
  by (induction ss arbitrary: m) auto

lemma release_inbound_fold_none:
  "distinct (map fst (rv_inbound (bm_reservations m))) \<Longrightarrow>
   s \<in> set ss \<or> map_of (rv_inbound (bm_reservations m)) s = None \<Longrightarrow>
   map_of (rv_inbound (bm_reservations (foldl release_inbound m ss))) s = None"
  by (induction ss arbitrary: m) (auto simp: delete_conv' distinct_delete)

lemma reap_stream_sel [simp]:
  "bm_inbound (reap_stream m x) = bm_inbound m" "bm_reservations (reap_stream m x) = bm_reservations m"
  "bm_receivers (reap_stream m x) = (bm_receivers m)[snd x := receiver_fail (bm_receivers m ! snd x) (err_new BlobStreamIdleTimeout)]"
  by (simp_all add: reap_stream_def enqueue_blob_write_def notify_work_def Let_def split: prod.splits bool.splits)

lemma reap_fold [simp]:
  "bm_inbound (foldl reap_stream m xs) = bm_inbound m" "bm_reservations (foldl reap_stream m xs) = bm_reservations m"
  by (induction xs arbitrary: m) simp_all

lemma reap_receivers:
  "h < length (bm_receivers m) \<Longrightarrow>
   bm_receivers (foldl reap_stream m xs) ! h =
     (if h \<in> snd ` set xs then receiver_fail (bm_receivers m ! h) (err_new BlobStreamIdleTimeout) else bm_receivers m ! h)"
proof (induction xs arbitrary: m)
  case (Cons x xs)
  then show ?case by (cases "snd x = h") (auto simp: receiver_fail_def)
qed simp

lemma expire_reservations:
  assumes "distinct (map fst (rv_inbound (bm_reservations m)))" and "expire_recv_streams m now = (expired, m')"
    and "s \<in> fst ` set expired"
  shows "map_of (rv_inbound (bm_reservations m')) s = None"
proof -
  obtain m0 where m0: "m' = foldl release_inbound m0 (map fst expired)" "bm_reservations m0 = bm_reservations m"
    using assms(2) by (auto simp: expire_recv_streams_def Let_def)
  with assms(1,3) show ?thesis by (simp add: release_inbound_fold_none)
qed

text \<open>
  The response slot of a request after a turn, given the slot it had before: a slot that was there stays, and
  otherwise the error is written into a new slot that is ready and in the lane of errors, unless that lane is full.
\<close>

definition idle_error_slot :: "peer_message_id \<Rightarrow> blob_write_slot" where
  "idle_error_slot s = \<lparr>bw_stream_id = write_stream_id (LeaseError s []),
     bw_write = LeaseError s (error_frame_payload (err_new BlobStreamIdleTimeout)), bw_state = BwReady\<rparr>"

abbreviation write_slot_of :: "blob_manager \<Rightarrow> peer_message_id \<Rightarrow> blob_write_slot option" where
  "write_slot_of m \<equiv> map_of (bo_write_slots (bm_outbound m))"

definition error_answered :: "blob_write_slot option \<Rightarrow> blob_manager \<Rightarrow> peer_message_id \<Rightarrow> bool" where
  "error_answered before m s \<longleftrightarrow>
     (case before of
        Some slot \<Rightarrow> write_slot_of m s = Some slot
      | None \<Rightarrow> (write_slot_of m s = Some (idle_error_slot s) \<and> s \<in> set (bo_error_ready (bm_outbound m)))
          \<or> (write_slot_of m s = None
             \<and> response_lane_len (bm_outbound m) BlobLaneError \<ge> response_capacity (bo_capacities (bm_outbound m)) BlobLaneError))"

lemma enqueue_error_slot:
  "k \<noteq> s \<Longrightarrow> write_slot_of (snd (enqueue_blob_write m (LeaseError k payload))) s = write_slot_of m s"
  by (simp add: enqueue_blob_write_def enqueue_response_def push_response_def notify_work_def Let_def update_conv' split: if_splits)

lemma enqueue_error_answered:
  "error_answered before m s \<Longrightarrow> error_answered before (snd (enqueue_blob_write m (LeaseError k payload))) s"
  "error_answered (write_slot_of m s) (snd (enqueue_blob_write m (LeaseError s (error_frame_payload (err_new BlobStreamIdleTimeout))))) s"
  by (auto simp: error_answered_def idle_error_slot_def enqueue_blob_write_def enqueue_response_def push_response_def response_lane_len_def
      notify_work_def Let_def update_conv' split: if_splits option.splits)

lemma reap_answered:
  "error_answered before m s \<or> write_slot_of m s = before \<and> s \<in> fst ` set xs \<Longrightarrow> error_answered before (foldl reap_stream m xs) s"
proof (induction xs arbitrary: m)
  case (Cons x xs)
  have same: "error_answered b (on_receiver m h f) s = error_answered b m s" "write_slot_of (on_receiver m h f) = write_slot_of m" for b h f
    by (simp_all add: error_answered_def on_receiver_def split: option.split)
  have "error_answered before (reap_stream m x) s" if "error_answered before m s \<or> write_slot_of m s = before \<and> s = fst x"
    using that enqueue_error_answered(1) [of before "on_receiver m h f" s for h f]
      enqueue_error_answered(2) [of "on_receiver m h f" s for h f] same by (auto simp: reap_stream_def Let_def)
  moreover have "write_slot_of (reap_stream m x) s = before" if "write_slot_of m s = before" "s \<noteq> fst x"
    using that same by (simp add: reap_stream_def Let_def enqueue_error_slot)
  ultimately show ?case using Cons by auto
qed auto

text \<open>
  C35. One turn of the idle reaper removes exactly the receive streams whose deadline has come, gives their
  reservations back, and tells each one's receiver that it timed out; what is left is due later. The answer to
  the sender of such a stream is the idle timeout error, in a slot ready to be written, unless a response for
  the same number was waiting, which then stays as it was, or the lane of errors is full, in which case
  there is no answer.
\<close>

theorem idle_streams_reaped:
  assumes "blob_reach base m" and m': "m' = inbound_reaper_turn m now"
  shows "recv_streams m' = filter (\<lambda>(_, st). now < rs_deadline st) (recv_streams m)
    \<and> (\<forall>s st. (s, st) \<in> set (recv_streams m) \<and> rs_deadline st \<le> now \<longrightarrow>
         map_of (rv_inbound (bm_reservations m')) s = None
         \<and> br_error (bm_receivers m' ! rs_receiver st) = Some (err_new BlobStreamIdleTimeout)
         \<and> br_completed (bm_receivers m' ! rs_receiver st) \<and> error_answered (write_slot_of m s) m' s)
    \<and> (case earliest_recv_deadline m' of None \<Rightarrow> True | Some d \<Rightarrow> now < d)"
proof -
  note tables = inv_bound(2) [OF reach_manager [OF assms(1)]]
  obtain expired m1 where expire: "expire_recv_streams m now = (expired, m1)" by force
  have due: "set expired = {(s, rs_receiver st) | s st. (s, st) \<in> set (recv_streams m) \<and> rs_deadline st \<le> now}"
    using expire by (force simp: expire_recv_streams_def Let_def)
  have kept: "recv_streams m1 = filter (\<lambda>(_, st). now < rs_deadline st) (recv_streams m)" "bm_receivers m1 = bm_receivers m"
    "bm_outbound m1 = bm_outbound m"
    using expire by (auto simp: expire_recv_streams_def Let_def not_le split_beta)
  have reaped: "map_of (rv_inbound (bm_reservations (foldl reap_stream m1 expired))) s = None
      \<and> br_error (bm_receivers (foldl reap_stream m1 expired) ! rs_receiver st) = Some (err_new BlobStreamIdleTimeout)
      \<and> br_completed (bm_receivers (foldl reap_stream m1 expired) ! rs_receiver st)
      \<and> error_answered (write_slot_of m s) (foldl reap_stream m1 expired) s"
    if st: "(s, st) \<in> set (recv_streams m)" "rs_deadline st \<le> now" for s st
  proof -
    have mem: "(s, rs_receiver st) \<in> set expired" using st by (auto simp: due)
    have "rs_receiver st < length (bm_receivers m1)" using tables st(1) kept(2) by (auto simp: inbound_tables_def)
    from reap_receivers [OF this, of expired] mem have "bm_receivers (foldl reap_stream m1 expired) ! rs_receiver st
        = receiver_fail (bm_receivers m1 ! rs_receiver st) (err_new BlobStreamIdleTimeout)" by force
    moreover have "s \<in> fst ` set expired" using mem by force
    ultimately show ?thesis
      using expire_reservations [OF _ expire] tables reap_answered [of "write_slot_of m s" m1 s expired] kept(3)
      by (simp add: inbound_tables_def receiver_fail_def)
  qed
  have turn: "m' = (if recv_streams m = [] \<or> (\<forall>(s, st) \<in> set (recv_streams m). now < rs_deadline st) then m
      else foldl reap_stream m1 expired)"
    using earliest_deadline [of m] expire
    by (fastforce simp: m' inbound_reaper_turn_def split: option.splits)
  have streams: "recv_streams m' = filter (\<lambda>(_, st). now < rs_deadline st) (recv_streams m)"
    by (auto simp: turn kept filter_id_conv split: if_splits)
  have "now < d" if "earliest_recv_deadline m' = Some d" for d
    using earliest_deadline(2) [OF that] by (auto simp: streams)
  then have later: "case earliest_recv_deadline m' of None \<Rightarrow> True | Some d \<Rightarrow> now < d" by (simp split: option.split)
  have "m' = foldl reap_stream m1 expired" if "(s, st) \<in> set (recv_streams m)" "rs_deadline st \<le> now" for s st
    using turn that by auto
  with reaped streams later show ?thesis by blast
qed


text \<open>A request of the peer with number 9 is accepted and its stream opened at time 10, idle until 70.\<close>

definition stream_receiving :: blob_manager where
  "stream_receiving = foldl blob_step new_manager
     [OpCount SideInbound 6 100, OpEnter SideInbound 9 6, OpReceiver 30, OpPending 9 3 0, OpActivate 9 small_window 10]"

lemma stream_receiving_reached: "blob_reach no_bytes stream_receiving"
proof -
  have "blob_reach no_bytes new_manager" unfolding new_manager_def by (rule reach_start)
  from reach_reserve [OF this, of SideInbound 6 100 9]
  have "blob_reach no_bytes (foldl blob_step new_manager [OpCount SideInbound 6 100, OpEnter SideInbound 9 6])"
    by (simp add: reserve_eval)
  then have "blob_reach no_bytes (blob_step (blob_step (blob_step
      (foldl blob_step new_manager [OpCount SideInbound 6 100, OpEnter SideInbound 9 6]) (OpReceiver 30)) (OpPending 9 3 0)) (OpActivate 9 small_window 10))"
    by (intro reach_operate) simp_all
  then show ?thesis by (simp only: stream_receiving_def foldl.simps)
qed

lemma stream_receiving_fields:
  "recv_streams stream_receiving = [(9, \<lparr>rs_taberna_id = 3, rs_receiver = 0, rs_ring = 0, rs_deadline = 70\<rparr>)]"
  "bi_pending_requests (bm_inbound stream_receiving) = []"
  "bm_recv_rings stream_receiving = [\<lparr>in_chunk_size = 2, in_window_size = 2, in_next_expected = 0, in_next_deliver = 0,
     in_last_chunk_id = None, in_received = []\<rparr>]"
  by (simp_all add: stream_receiving_def small_window_def reserve_eval add_pending_request_def on_receiver_def
      blob_inbound_new_def activate_pending_request_def recv_stream_exists_def take_pending_request_def inbound_new_def
      insert_recv_stream_def Let_def)

definition last_chunk_payload :: "u8 list" where
  "last_chunk_payload = [0, 0, 0, 9, 0, 0, 0, 0, 0, 0, 0, 0, 0, 1, 0, 0, 0, 2, 1, 2]"

lemma last_chunk_decoded:
  "blob_chunk_from_bytes last_chunk_payload = Inr \<lparr>bc_request_msg_id = 9, bc_chunk_id = 0, bc_flags = 1, bc_chunk = [1, 2]\<rparr>"
  unfolding last_chunk_payload_def by code_simp

theorem chunk_frame_contract_witness:
  "\<exists>m'. handle_blob_transfer_chunk stream_receiving last_chunk_payload 60 2 2 20 = Some (Inr (ChunkComplete 9), m')"
  using chunk_frame_contract [OF stream_receiving_reached last_chunk_decoded, of _ 2 2 60 20]
  by (auto simp: stream_receiving_fields chunk_answered_def Let_def insert_chunk_def advance_expected.simps finish_insert_def
      BlobChunkFlags_LAST_CHUNK_def receipt_def sat_add_def inbound_is_complete_def)

theorem idle_streams_reaped_witness:
  "recv_streams (inbound_reaper_turn stream_receiving 70) = []
   \<and> br_error (bm_receivers (inbound_reaper_turn stream_receiving 70) ! 0) = Some (err_new BlobStreamIdleTimeout)"
  using idle_streams_reaped [OF stream_receiving_reached refl, of 70] by (auto simp: stream_receiving_fields)

end
