(* ===== verification/Blob_Adapter.thy ===== *)
theory Blob_Adapter
  imports Blob_Contract
begin

text \<open>
  The two ends of a blob stream that an application holds: \<open>BlobSenderStream\<close> and \<open>BlobReceiverStream\<close> of
  \<^verbatim>\<open>transport/blob/io.rs\<close>, which are the \<open>AsyncWrite\<close> and \<open>AsyncRead\<close> of the public interface. A call is one
  poll. The futures that the code boxes are states of a small machine, one turn per critical section, so
  that what other tasks do to the ring between two of them is part of every statement: each turn is given
  a \<open>tick\<close> with their work, the clock, and whether a notification has come. A poll that is given no
  further tick stops at the lock it waits for.
\<close>

section \<open>Polls\<close>

datatype 'a poll = PollPending | PollReady 'a

type_synonym 'a io_result = "string + 'a"

record adapter_tick =
  at_others :: "blob_manager \<Rightarrow> blob_manager"
  at_now :: instant
  at_notified :: bool
  at_ring_free :: bool

section \<open>The sender\<close>

datatype pending_kind = KindCapacity | KindFlush | KindShutdown

text \<open>Where the future of a pending operation stands: what it waits for, and at which line.\<close>

datatype sender_wait = WaitCapacity | WaitDrain | WaitSeal | WaitComplete

datatype sender_future = FutLock | FutSeal | FutCheck sender_wait instant | FutPark sender_wait instant

text \<open>
  The stream with the state behind its mutex. \<open>bn_locked\<close> says that a future holds the mutex, \<open>bn_ring\<close> is the
  place of the ring among the manager's.
\<close>

record blob_sender_stream =
  bn_stream_id :: peer_message_id
  bn_ring :: nat
  bn_send_timeout :: duration
  bn_closed :: bool
  bn_locked :: bool
  bn_pending :: "(pending_kind \<times> sender_future) option"

definition sender_stream_new :: "peer_message_id \<Rightarrow> nat \<Rightarrow> duration \<Rightarrow> blob_sender_stream" where
  "sender_stream_new stream_id ring send_timeout =
     \<lparr>bn_stream_id = stream_id, bn_ring = ring, bn_send_timeout = send_timeout, bn_closed = False, bn_locked = False, bn_pending = None\<rparr>"

lemma sender_stream_new_fields [simp]:
  "bn_stream_id (sender_stream_new i r d) = i" "bn_ring (sender_stream_new i r d) = r" "bn_send_timeout (sender_stream_new i r d) = d"
  "bn_closed (sender_stream_new i r d) = False" "bn_locked (sender_stream_new i r d) = False" "bn_pending (sender_stream_new i r d) = None"
  by (simp_all add: sender_stream_new_def)

definition start_capacity_wait :: "blob_sender_stream \<Rightarrow> blob_sender_stream" where
  "start_capacity_wait s = s\<lparr>bn_pending := Some (KindCapacity, FutLock)\<rparr>"

definition start_flush :: "blob_sender_stream \<Rightarrow> blob_sender_stream" where
  "start_flush s = s\<lparr>bn_pending := Some (KindFlush, FutLock)\<rparr>"

definition start_shutdown :: "blob_sender_stream \<Rightarrow> blob_sender_stream" where
  "start_shutdown s = s\<lparr>bn_pending := Some (KindShutdown, FutLock)\<rparr>"

definition sender_cleanup :: "blob_sender_stream \<Rightarrow> blob_manager \<Rightarrow> blob_sender_stream \<times> blob_manager" where
  "sender_cleanup s m = (if bn_closed s then (s, m) else (s\<lparr>bn_closed := True\<rparr>, unregister_outbound_stream m (bn_stream_id s)))"

abbreviation sender_ring :: "blob_sender_stream \<Rightarrow> blob_manager \<Rightarrow> outbound_state" where
  "sender_ring s m \<equiv> bm_rings m ! bn_ring s"

fun sender_check :: "sender_wait \<Rightarrow> outbound_state \<Rightarrow> unit result option" where
  "sender_check WaitCapacity ring = check_capacity ring"
| "sender_check WaitSeal ring = check_capacity ring"
| "sender_check WaitDrain ring = check_inflight_drain ring"
| "sender_check WaitComplete ring = check_complete ring"

datatype future_turn = TurnReady "unit result" | TurnGoes sender_future | TurnPends sender_future

text \<open>What follows the end of a wait with \<open>wait_for_deadline\<close>: in \<open>seal\<close> the next pass, in the shutdown the cleanup.\<close>

fun wait_over :: "sender_wait \<Rightarrow> unit result \<Rightarrow> blob_sender_stream \<Rightarrow> blob_manager \<Rightarrow> future_turn \<times> blob_sender_stream \<times> blob_manager" where
  "wait_over WaitCapacity r s m = (TurnReady r, s, m)"
| "wait_over WaitDrain r s m = (TurnReady r, s, m)"
| "wait_over WaitSeal r s m = (case r of Inl err \<Rightarrow> (TurnReady (Inl err), s, m) | Inr _ \<Rightarrow> (TurnGoes FutSeal, s, m))"
| "wait_over WaitComplete r s m = (TurnReady r, sender_cleanup s m)"

text \<open>One pass of \<open>seal\<close> inside the shutdown.\<close>

definition seal_turn :: "instant \<Rightarrow> blob_sender_stream \<Rightarrow> blob_manager \<Rightarrow> future_turn \<times> blob_sender_stream \<times> blob_manager" where
  "seal_turn now s m =
     (let ((r, _), ring) = ring_seal_pass (sender_ring s m);
          m = on_ring m (bn_ring s) (\<lambda>_. ring);
          deadline = now + bn_send_timeout s
      in case r of
           Some (Inl err) \<Rightarrow> (TurnReady (Inl err), s, m)
         | Some (Inr _) \<Rightarrow> (TurnGoes (FutCheck WaitComplete deadline), s, notify_work m)
         | None \<Rightarrow> (TurnGoes (FutCheck WaitSeal deadline), s, m))"

text \<open>The first lines of the three futures, up to the wait.\<close>

definition lock_turn ::
  "instant \<Rightarrow> pending_kind \<Rightarrow> blob_sender_stream \<Rightarrow> blob_manager \<Rightarrow> future_turn \<times> blob_sender_stream \<times> blob_manager" where
  "lock_turn now kind s m =
     (if bn_locked s then (TurnPends FutLock, s, m)
      else if bn_closed s
      then (TurnReady (case kind of KindCapacity \<Rightarrow> Inl (err_new PeerUnavailable) | _ \<Rightarrow> Inr ()), s, m)
      else let deadline = now + bn_send_timeout s
           in (case kind of
                 KindCapacity \<Rightarrow> TurnGoes (FutCheck WaitCapacity deadline)
               | KindFlush \<Rightarrow> TurnGoes (FutCheck WaitDrain deadline)
               | KindShutdown \<Rightarrow> TurnGoes FutSeal, s\<lparr>bn_locked := True\<rparr>, m))"

fun sender_turn ::
  "adapter_tick \<Rightarrow> pending_kind \<Rightarrow> sender_future \<Rightarrow> blob_sender_stream \<Rightarrow> blob_manager \<Rightarrow> future_turn \<times> blob_sender_stream \<times> blob_manager" where
  "sender_turn t kind FutLock s m = lock_turn (at_now t) kind s m"
| "sender_turn t kind FutSeal s m = seal_turn (at_now t) s m"
| "sender_turn t kind (FutCheck w deadline) s m =
     (case sender_check w (sender_ring s m) of
        Some r \<Rightarrow> wait_over w r s m
      | None \<Rightarrow> if deadline \<le> at_now t then wait_over w (Inl (err_new SendTimeout)) s m else (TurnGoes (FutPark w deadline), s, m))"
| "sender_turn t kind (FutPark w deadline) s m =
     (if at_notified t then (TurnGoes (FutCheck w deadline), s, m)
      else if deadline \<le> at_now t then wait_over w (Inl (err_new SendTimeout)) s m
      else (TurnPends (FutPark w deadline), s, m))"

text \<open>
  A turn of the pending operation, which is forgotten when it is ready, and with it the lock it held.
\<close>

datatype pending_turn = OpPends | OpGoes | OpReady "unit result"

definition poll_pending ::
  "adapter_tick \<Rightarrow> pending_kind \<Rightarrow> sender_future \<Rightarrow> blob_sender_stream \<Rightarrow> blob_manager \<Rightarrow> pending_turn \<times> blob_sender_stream \<times> blob_manager" where
  "poll_pending t kind fut s m =
     (case sender_turn t kind fut s (at_others t m) of
        (TurnReady r, s, m) \<Rightarrow> (OpReady r, s\<lparr>bn_pending := None, bn_locked := False\<rparr>, m)
      | (TurnGoes fut, s, m) \<Rightarrow> (OpGoes, s\<lparr>bn_pending := Some (kind, fut)\<rparr>, m)
      | (TurnPends fut, s, m) \<Rightarrow> (OpPends, s\<lparr>bn_pending := Some (kind, fut)\<rparr>, m))"

text \<open>
  The lines of \<open>poll_write\<close> that follow when no operation is pending: \<open>None\<close> when the loop goes on with a wait
  for capacity. \<open>ring_free\<close> says that \<open>try_lock\<close> of the ring succeeds.
\<close>

definition write_attempt ::
  "bool \<Rightarrow> blob_sender_stream \<Rightarrow> u8 list \<Rightarrow> blob_manager \<Rightarrow> nat io_result poll option \<times> blob_sender_stream \<times> blob_manager" where
  "write_attempt ring_free s buf m =
     (if buf = [] then (Some (PollReady (Inr 0)), s, m)
      else if bn_locked s then (Some PollPending, s, m)
      else if bn_closed s then (Some (PollReady (Inl (error_to_string (err_new PeerUnavailable)))), s, m)
      else let ((r, notify), ring) = ring_try_push (sender_ring s m) ring_free buf;
               m = on_ring m (bn_ring s) (\<lambda>_. ring);
               m = (if notify then notify_work m else m)
           in case r of
                Inr (Accepted bytes) \<Rightarrow> (Some (PollReady (Inr bytes)), s, notify_work m)
              | Inr Full \<Rightarrow> (None, start_capacity_wait s, m)
              | Inr Busy \<Rightarrow> (Some PollPending, s, m)
              | Inl err \<Rightarrow> (Some (PollReady (Inl (error_to_string err))), s, m))"

fun poll_write ::
  "adapter_tick list \<Rightarrow> blob_sender_stream \<Rightarrow> u8 list \<Rightarrow> blob_manager \<Rightarrow> nat io_result poll \<times> blob_sender_stream \<times> blob_manager" where
  "poll_write [] s buf m =
     (case bn_pending s of
        Some _ \<Rightarrow> (PollPending, s, m)
      | None \<Rightarrow> (case write_attempt False s buf m of (Some r, s, m) \<Rightarrow> (r, s, m) | (None, s, m) \<Rightarrow> (PollPending, s, m)))"
| "poll_write (t # ticks) s buf m =
     (case bn_pending s of
        Some (kind, fut) \<Rightarrow>
          (case poll_pending t kind fut s m of
             (OpPends, s, m) \<Rightarrow> (PollPending, s, m)
           | (OpReady (Inl err), s, m) \<Rightarrow> (PollReady (Inl (error_to_string err)), s, m)
           | (_, s, m) \<Rightarrow> poll_write ticks s buf m)
      | None \<Rightarrow>
          (case write_attempt (at_ring_free t) s buf (at_others t m) of
             (Some r, s, m) \<Rightarrow> (r, s, m)
           | (None, s, m) \<Rightarrow> poll_write ticks s buf m))"

fun poll_flush :: "adapter_tick list \<Rightarrow> blob_sender_stream \<Rightarrow> blob_manager \<Rightarrow> unit io_result poll \<times> blob_sender_stream \<times> blob_manager" where
  "poll_flush [] s m = (PollPending, if bn_pending s = None then start_flush s else s, m)"
| "poll_flush (t # ticks) s m =
     (let s = (if bn_pending s = None then start_flush s else s);
          (kind, fut) = the (bn_pending s)
      in case poll_pending t kind fut s m of
           (OpPends, s, m) \<Rightarrow> (PollPending, s, m)
         | (OpReady (Inl err), s, m) \<Rightarrow> (PollReady (Inl (error_to_string err)), s, m)
         | (OpReady (Inr _), s, m) \<Rightarrow> if kind = KindCapacity then poll_flush ticks s m else (PollReady (Inr ()), s, m)
         | (OpGoes, s, m) \<Rightarrow> poll_flush ticks s m)"

fun poll_shutdown :: "adapter_tick list \<Rightarrow> blob_sender_stream \<Rightarrow> blob_manager \<Rightarrow> unit io_result poll \<times> blob_sender_stream \<times> blob_manager" where
  "poll_shutdown [] s m = (PollPending, if bn_pending s = None then start_shutdown s else s, m)"
| "poll_shutdown (t # ticks) s m =
     (let s = (if bn_pending s = None then start_shutdown s else s);
          (kind, fut) = the (bn_pending s)
      in case poll_pending t kind fut s m of
           (OpPends, s, m) \<Rightarrow> (PollPending, s, m)
         | (OpReady (Inl err), s, m) \<Rightarrow> (PollReady (Inl (error_to_string err)), s, m)
         | (OpReady (Inr _), s, m) \<Rightarrow> if kind = KindShutdown then (PollReady (Inr ()), s, m) else poll_shutdown ticks s m
         | (OpGoes, s, m) \<Rightarrow> poll_shutdown ticks s m)"

text \<open>Dropping the stream drops its pending operation; the task that the drop spawns is taken to run at once.\<close>

definition sender_stream_drop :: "blob_sender_stream \<Rightarrow> blob_manager \<Rightarrow> blob_manager" where
  "sender_stream_drop s m = (if bn_closed s then m else snd (sender_cleanup s m))"

section \<open>The receiver\<close>

text \<open>
  The loop of \<open>start_read\<close>: at its head, armed and looking again whether the request was accepted, armed and
  reading again, and waiting for a notification.
\<close>

datatype read_future = ReadHead | ReadArmed | ReadAgain | ReadPark instant

record blob_receiver_stream =
  bv_stream_id :: peer_message_id
  bv_receiver :: nat
  bv_current :: "u8 list option"
  bv_offset :: nat
  bv_pending :: "read_future option"

definition receiver_stream_new :: "peer_message_id \<Rightarrow> nat \<Rightarrow> blob_receiver_stream" where
  "receiver_stream_new stream_id receiver =
     \<lparr>bv_stream_id = stream_id, bv_receiver = receiver, bv_current = None, bv_offset = 0, bv_pending = None\<rparr>"

definition start_read :: "blob_receiver_stream \<Rightarrow> blob_receiver_stream" where
  "start_read s = s\<lparr>bv_pending := Some ReadHead\<rparr>"

datatype read_turn = ReadReady blob_read_outcome | ReadGoes read_future | ReadPends read_future

definition read_attempt :: "instant \<Rightarrow> read_future \<Rightarrow> blob_receiver_stream \<Rightarrow> blob_manager \<Rightarrow> read_turn \<times> blob_manager" where
  "read_attempt now otherwise s m =
     (case try_receiver_read m (bv_receiver s) (bv_stream_id s) now of
        (Some r, m) \<Rightarrow> (ReadReady r, m)
      | (None, m) \<Rightarrow> (ReadGoes otherwise, m))"

fun receiver_turn :: "adapter_tick \<Rightarrow> read_future \<Rightarrow> blob_receiver_stream \<Rightarrow> blob_manager \<Rightarrow> read_turn \<times> blob_manager" where
  "receiver_turn t ReadHead s m =
     (if \<not> br_accepted (bm_receivers m ! bv_receiver s) then (ReadGoes ReadArmed, m)
      else read_attempt (at_now t) ReadAgain s m)"
| "receiver_turn t ReadArmed s m =
     (if br_accepted (bm_receivers m ! bv_receiver s) then (ReadGoes ReadHead, m)
      else (ReadGoes (ReadPark (at_now t + br_idle_timeout (bm_receivers m ! bv_receiver s))), m))"
| "receiver_turn t ReadAgain s m =
     read_attempt (at_now t) (ReadPark (at_now t + br_idle_timeout (bm_receivers m ! bv_receiver s))) s m"
| "receiver_turn t (ReadPark deadline) s m =
     (if at_notified t then (ReadGoes ReadHead, m)
      else if deadline \<le> at_now t
      then (case fail_receiver_idle m (bv_receiver s) (bv_stream_id s) of (r, m) \<Rightarrow> (ReadReady r, m))
      else (ReadPends (ReadPark deadline), m))"

definition poll_copy :: "blob_receiver_stream \<Rightarrow> u8 list \<Rightarrow> nat \<Rightarrow> u8 list io_result poll \<times> blob_receiver_stream" where
  "poll_copy s chunk room =
     (case copy_current chunk (bv_offset s) room of
        (bytes, current, offset) \<Rightarrow> (PollReady (Inr bytes), s\<lparr>bv_current := current, bv_offset := offset\<rparr>))"

fun poll_read ::
  "adapter_tick list \<Rightarrow> blob_receiver_stream \<Rightarrow> nat \<Rightarrow> blob_manager \<Rightarrow> u8 list io_result poll \<times> blob_receiver_stream \<times> blob_manager" where
  "poll_read [] s room m =
     (case bv_current s of
        Some chunk \<Rightarrow> (case poll_copy s chunk room of (r, s) \<Rightarrow> (r, s, m))
      | None \<Rightarrow> (PollPending, if bv_pending s = None then start_read s else s, m))"
| "poll_read (t # ticks) s room m =
     (case bv_current s of
        Some chunk \<Rightarrow> (case poll_copy s chunk room of (r, s) \<Rightarrow> (r, s, m))
      | None \<Rightarrow>
          let s = (if bv_pending s = None then start_read s else s)
          in case receiver_turn t (the (bv_pending s)) s (at_others t m) of
               (ReadPends fut, m) \<Rightarrow> (PollPending, s\<lparr>bv_pending := Some fut\<rparr>, m)
             | (ReadGoes fut, m) \<Rightarrow> poll_read ticks (s\<lparr>bv_pending := Some fut\<rparr>) room m
             | (ReadReady (ReadChunk chunk), m) \<Rightarrow> poll_read ticks (s\<lparr>bv_pending := None, bv_current := Some chunk\<rparr>) room m
             | (ReadReady ReadEof, m) \<Rightarrow> (PollReady (Inr []), s\<lparr>bv_pending := None\<rparr>, m)
             | (ReadReady (ReadError err), m) \<Rightarrow> (PollReady (Inl (error_to_string err)), s\<lparr>bv_pending := None\<rparr>, m))"

end
