(* ===== verification/Adapter_Contract.thy ===== *)
theory Adapter_Contract
  imports Blob_Adapter
begin

text \<open>
  What an application can rely on at its two ends of a blob stream, whatever the other tasks of the peer do
  between two looks at the ring.
\<close>

section \<open>Work on a ring\<close>

text \<open>
  The ring \<open>h\<close> went from what it is in \<open>m\<close> to what it is in \<open>m'\<close> by operations of the ring that accepted the
  bytes \<open>bs\<close>.
\<close>

definition streamed :: "nat \<Rightarrow> blob_manager \<Rightarrow> blob_manager \<Rightarrow> u8 list \<Rightarrow> bool" where
  "streamed h m m' bs \<longleftrightarrow>
     (h < length (bm_rings m) \<longrightarrow>
        h < length (bm_rings m')
        \<and> (\<exists>ops. bm_rings m' ! h = foldl outbound_step (bm_rings m ! h) ops \<and> accepted_bytes_of (bm_rings m ! h) ops = bs))"

lemma outputs_over_append: "outputs_over step f s (xs @ ys) = outputs_over step f s xs @ outputs_over step f (foldl step s xs) ys"
  by (induction xs arbitrary: s) simp_all

lemma streamed_trans: "streamed h m1 m2 bs \<Longrightarrow> streamed h m2 m3 cs \<Longrightarrow> streamed h m1 m3 (bs @ cs)"
  unfolding streamed_def by (metis foldl_append outputs_over_append)

lemma streamed_same: "bm_rings m' = bm_rings m \<Longrightarrow> streamed h m m' []"
  unfolding streamed_def by (auto intro: exI [of _ "[]"])

lemma streamed_idle [trans]: "streamed h m1 m2 [] \<Longrightarrow> streamed h m2 m3 [] \<Longrightarrow> streamed h m1 m3 []"
  using streamed_trans by fastforce

lemma streamed_view: "chunk_view m' = chunk_view m \<Longrightarrow> streamed h m m' []"
  by (rule streamed_same) (simp add: chunk_view_def)

lemma streamed_step:
  assumes "bm_rings m' = (bm_rings m)[h' := outbound_step (bm_rings m ! h') x]"
  shows "streamed h m m' (if h' = h \<and> h < length (bm_rings m) then accepted_by (bm_rings m ! h) x else [])"
proof (cases "h' = h \<and> h < length (bm_rings m)")
  case True
  then show ?thesis using assms by (auto simp: streamed_def intro!: exI [of _ "[x]"])
next
  case False
  then show ?thesis using assms by (auto simp: streamed_def intro: exI [of _ "[]"])
qed

lemma streamed_on_ring: "(\<And>st. f st = outbound_step st x) \<Longrightarrow> (\<And>st. accepted_by st x = []) \<Longrightarrow> streamed h m (on_ring m h' f) []"
  using streamed_step [of "on_ring m h' f" m h' x h] by (simp add: on_ring_def split: if_splits)

lemma streamed_fold: "(\<And>m x. x \<in> set xs \<Longrightarrow> streamed h m (f m x) []) \<Longrightarrow> streamed h m (foldl f m xs) []"
proof (induction xs arbitrary: m)
  case (Cons x xs)
  then show ?case using streamed_idle [of h m "f m x"] by simp
qed (simp add: streamed_same)

lemma streamed_moves:
  "streamed h m (on_ring m h' ring_close) []" "streamed h m (on_ring m h' (\<lambda>r. ring_fail r err)) []"
  "streamed h m (on_ring m h' ring_mark_complete) []" "streamed h m (on_ring m h' (\<lambda>r. snd (ring_note_ack r p))) []"
  "streamed h m (on_ring m h' (\<lambda>r. snd (ring_note_error r p err))) []" "streamed h m (on_ring m h' (\<lambda>r. ring_mark_chunk_inflight r lease)) []"
  "streamed h m (on_ring m h' (\<lambda>r. snd (ring_mark_callis_replay_ready r callis))) []"
  "streamed h m (on_ring m h' (\<lambda>r. snd (ring_seal_pass r))) []"
  by (rule streamed_on_ring [of _ CloseOp] streamed_on_ring [of _ "FailOp err"] streamed_on_ring [of _ MarkCompleteOp]
      streamed_on_ring [of _ "NoteAckOp p"] streamed_on_ring [of _ "NoteErrorOp p err"] streamed_on_ring [of _ "MarkInflight lease"]
      streamed_on_ring [of _ "MarkCallisReplayReady callis"] streamed_on_ring [of _ SealPass]; simp)+

lemma streamed_notify [simp]: "streamed h m (notify_work m') bs = streamed h m m' bs"
  by (simp add: streamed_def notify_work_def)

lemma streamed_outbound [simp]: "streamed h (m\<lparr>bm_outbound := b\<rparr>) m' bs = streamed h m m' bs"
  by (simp add: streamed_def)

lemma streamed_from: "bm_rings m1 = bm_rings m \<Longrightarrow> streamed h m1 m' bs \<Longrightarrow> streamed h m m' bs"
  by (simp add: streamed_def)

lemma streamed_to: "bm_rings m1 = bm_rings m' \<Longrightarrow> streamed h m m1 bs = streamed h m m' bs"
  by (simp add: streamed_def)

lemma streamed_fold_outbound:
  "(\<And>m x. x \<in> set xs \<Longrightarrow> streamed h m (f m x) []) \<Longrightarrow> streamed h m (foldl f (m\<lparr>bm_outbound := b\<rparr>) xs) []"
  using streamed_fold [of xs h f "m\<lparr>bm_outbound := b\<rparr>"] by simp

lemma rings_release [simp]: "bm_rings (release_outbound m s) = bm_rings m"
  by (simp add: release_outbound_def Let_def split: option.splits)

lemma streamed_unregister: "streamed h m (unregister_outbound_stream m s) []"
  by (auto simp: unregister_outbound_stream_def Let_def split: prod.splits option.splits
      intro: streamed_same streamed_from [OF _ streamed_moves(1)])

lemma streamed_fail_close: "streamed h m (on_ring (on_ring m h' (\<lambda>r. ring_fail r err)) h' ring_close) []"
  using streamed_idle [OF streamed_moves(2,1)] .

lemma streamed_fail_stream: "streamed h m (fail_stream m s err) []"
  by (auto simp: fail_stream_def Let_def split: prod.splits option.splits
      intro: streamed_same streamed_from [OF _ streamed_fail_close])

lemma streamed_frames: "streamed h m (snd (next_chunk_frame_from_streams m callis streams replay)) []"
proof (induction streams arbitrary: m)
  case (Cons a streams)
  obtain s h' where a: "a = (s, h')" by (cases a)
  let ?p = "fst (next_peer_msg_id m)" and ?m = "snd (next_peer_msg_id m)"
  let ?ring = "bm_rings m ! h'"
  let ?m' = "on_ring ?m h' (\<lambda>_. snd (ring_lease_next ?ring callis ?p))"
  have rings: "bm_rings ?m = bm_rings m" by (simp add: next_peer_msg_id_def split: prod.splits)
  have step: "streamed h m ?m' []"
    using streamed_step [of ?m' m h' "LeaseNext callis ?p" h] rings by (simp add: on_ring_def split: if_splits)
  with a Cons.IH [of m] streamed_idle [OF step Cons.IH] show ?case
    by (auto simp: Let_def split_beta split: option.splits)
qed (simp add: streamed_same)

lemma streamed_lease: "streamed h m (snd (lease_next_blob_write m callis)) []"
proof -
  have mark: "streamed h m (mark_dispatch_inflight m w callis) []" for m w
    by (auto simp: mark_dispatch_inflight_def Let_def split: blob_write_lease.splits option.splits
        intro: streamed_same streamed_from [OF _ streamed_moves(6)])
  have slot: "streamed h m m' []" if "next_blob_write_slot m callis = (r, m')" for r m'
    using that by (auto simp: next_blob_write_slot_def split: prod.splits intro: streamed_same)
  have past: "streamed h m (advance_past m w) []" for m w
    by (auto simp: advance_past_def advance_round_robin_cursor_def split: option.splits intro: streamed_same)
  have frames: "streamed h m m' []" if "next_chunk_frame_from_streams m callis xs b = (r, m')" for m xs b r m'
    using streamed_frames [of h m callis xs b] that by simp
  have chunk: "streamed h m m' []" if "next_chunk_frame m callis = (r, m')" for m r m'
    using that unfolding next_chunk_frame_def Let_def
    by (auto split: if_splits prod.splits option.splits intro: streamed_same past
        dest!: frames intro: streamed_idle)
  show ?thesis
    unfolding lease_next_blob_write_def Let_def
    by (auto split: prod.splits option.splits dest!: slot chunk intro: mark streamed_idle)
qed

lemma streamed_finish: "streamed h m (finish_blob_write_attempt m w callis res) []"
  by (auto simp: finish_blob_write_attempt_def rollback_dispatch_inflight_def Let_def
      split: sum.splits prod.splits option.splits blob_write_lease.splits bool.splits
      intro: streamed_same streamed_from [OF _ streamed_moves(7)])

lemma streamed_error: "streamed h m (blob_handle_error m p err) []"
proof -
  have failed: "streamed h m m' []" if "fail_outbound_stream m s err = (r, m')" for m s r m'
    using that by (auto simp: fail_outbound_stream_def split: option.splits
        intro: streamed_same streamed_idle [OF streamed_moves(2) streamed_unregister])
  have inbound: "streamed h m (snd (fail_inbound_stream m s err)) []" for m s by (rule streamed_view) simp
  show ?thesis
    unfolding blob_handle_error_def Let_def
    by (auto split: prod.splits option.splits bool.splits dest!: failed
        intro: streamed_same streamed_from [OF _ streamed_moves(5)] streamed_idle [OF _ inbound])
qed

lemma streamed_fail_all: "streamed h m (fail_all_streams m err) []"
proof -
  have receivers: "bm_rings (foldl (\<lambda>m (_, stream). on_receiver m (rs_receiver stream) (\<lambda>r. receiver_fail r err)) m xs) = bm_rings m"
    for m and xs :: "('x \<times> blob_recv_stream) list"
    by (induction xs arbitrary: m) (auto simp: on_receiver_def)
  let ?fold = "foldl (\<lambda>m h. on_ring (on_ring m h (\<lambda>r. ring_fail r err)) h ring_close)
    (m\<lparr>bm_outbound := snd (outbound_clear (bm_outbound m))\<rparr>) (fst (outbound_clear (bm_outbound m)))"
  have "streamed h m ?fold []" by (intro streamed_fold_outbound streamed_fail_close)
  moreover have "bm_rings (fail_all_streams m err) = bm_rings ?fold" by (simp add: fail_all_streams_def Let_def split_beta receivers)
  ultimately show ?thesis using streamed_to by blast
qed

text \<open>
  What the other tasks do: any operations of the manager but the application's own on its ring. They accept no
  bytes.
\<close>

fun writes_ring :: "nat \<Rightarrow> blob_op \<Rightarrow> bool" where
  "writes_ring h (OpWrite h' _) \<longleftrightarrow> h' = h"
| "writes_ring h (OpSeal h') \<longleftrightarrow> h' = h"
| "writes_ring h _ \<longleftrightarrow> False"

lemma streamed_blob_step:
  assumes "\<not> writes_ring h x"
  shows "streamed h m (blob_step m x) []"
proof (cases x)
  case (OpWrite h' bytes)
  then show ?thesis
    using assms streamed_step [of "blob_step m x" m h' "TryPush True bytes" h] by (auto simp: on_ring_def streamed_same)
next
  case (OpSeal h')
  then show ?thesis using streamed_moves(8) [of h m h'] by (simp add: streamed_same)
next
  case (OpRegister s settings)
  then show ?thesis
    by (auto simp: register_outbound_stream_def Let_def streamed_def nth_append split: sum.splits intro: exI [of _ "[]"])
next
  case (OpAddCallis handle settings resume)
  let ?m1 = "if \<not> resume \<and> has_stream_state m then fail_all_streams m (err_new PeerRestarted) else m"
  have "streamed h m ?m1 []" by (simp add: streamed_fail_all streamed_same)
  moreover have "streamed h ?m1 (foldl (\<lambda>m s. fail_stream m s (err_new PeerRestarted)) ?m1 xs) []" for xs
    by (intro streamed_fold streamed_fail_stream)
  ultimately have "streamed h m (foldl (\<lambda>m s. fail_stream m s (err_new PeerRestarted)) ?m1 xs) []" for xs by (rule streamed_idle)
  with \<open>streamed h m ?m1 []\<close> have "streamed h m (if resume then foldl (\<lambda>m s. fail_stream m s (err_new PeerRestarted)) ?m1 xs else ?m1) []" for xs
    by (cases resume) simp_all
  then show ?thesis
    unfolding OpAddCallis blob_step.simps add_callis_def Let_def streamed_notify by (subst streamed_to) (auto simp: bump_callis_gen_def)
next
  case (OpChunk payload idle w cs now)
  then have "chunk_view (blob_step m x) = chunk_view m" using view_chunk by (auto split: option.splits)
  then show ?thesis by (rule streamed_view)
next
  case (OpAck p)
  then show ?thesis
    by (auto simp: blob_handle_ack_def notify_work_def Let_def split: prod.splits option.splits
        intro: streamed_same streamed_from [OF _ streamed_moves(4)])
next
  case (OpRequeueCallis callis)
  then show ?thesis
    by (auto simp: requeue_inflight_for_callis_def Let_def split: prod.splits intro!: streamed_same streamed_fold_outbound streamed_moves)
next
  case OpRequeueAll
  then show ?thesis
    by (auto simp: requeue_all_inflight_def Let_def split: prod.splits intro!: streamed_same streamed_fold_outbound streamed_moves)
qed (auto simp: streamed_lease streamed_finish streamed_unregister streamed_error streamed_fail_all streamed_view view_inbound_methods
    streamed_same reserve_outbound_eq reserve_inbound_eq handle_complete_def remove_callis_def drain_callis_def
    select_callis_def bump_callis_gen_def add_pending_request_def on_receiver_def Let_def
    split: prod.splits bool.splits option.splits intro: streamed_moves)

definition others_work :: "nat \<Rightarrow> adapter_tick \<Rightarrow> bool" where
  "others_work h t \<longleftrightarrow> (\<exists>xs. at_others t = (\<lambda>m. foldl blob_step m xs) \<and> list_all (\<lambda>x. \<not> writes_ring h x) xs)"

lemma others_streamed: "others_work h t \<Longrightarrow> streamed h m (at_others t m) []"
  by (auto simp: others_work_def list_all_iff intro!: streamed_fold streamed_blob_step)

section \<open>Invariants of a sender\<close>

text \<open>
  What the start of an operation and each of its turns keep, with other tasks doing \<open>tick_ok\<close> work, every flush and
  every shutdown keeps; with the attempt of a write, every use of the sender does.
\<close>

locale pending_invariant =
  fixes tick_ok :: "adapter_tick \<Rightarrow> bool" and inv :: "blob_sender_stream \<Rightarrow> blob_manager \<Rightarrow> bool"
  assumes start: "inv s m \<Longrightarrow> bn_pending s = None \<Longrightarrow> inv (s\<lparr>bn_pending := Some (kind, FutLock)\<rparr>) m"
    and turn: "inv s m \<Longrightarrow> bn_pending s = Some (kind, fut) \<Longrightarrow> tick_ok t \<Longrightarrow> poll_pending t kind fut s m = (u, s', m') \<Longrightarrow> inv s' m'"
begin

lemma flush_keeps: "poll_flush ticks s m = (r, s', m') \<Longrightarrow> list_all tick_ok ticks \<Longrightarrow> inv s m \<Longrightarrow> inv s' m'"
proof (induction ticks arbitrary: s m)
  case (Cons t ticks)
  let ?s = "if bn_pending s = None then start_flush s else s"
  obtain kind fut where k: "bn_pending ?s = Some (kind, fut)" by (cases "bn_pending s") (auto simp: start_flush_def)
  obtain u s1 m1 where p: "poll_pending t kind fut ?s m = (u, s1, m1)" by (metis prod_cases3)
  have "inv ?s m" using Cons.prems(3) start by (simp add: start_flush_def)
  from turn [OF this k _ p] Cons.prems(1,2) p Cons.IH [of s1 m1] show ?case
    unfolding poll_flush.simps Let_def k by (auto split: pending_turn.splits sum.splits if_splits)
qed (auto simp: start_flush_def start split: if_splits)

lemma shutdown_keeps: "poll_shutdown ticks s m = (r, s', m') \<Longrightarrow> list_all tick_ok ticks \<Longrightarrow> inv s m \<Longrightarrow> inv s' m'"
proof (induction ticks arbitrary: s m)
  case (Cons t ticks)
  let ?s = "if bn_pending s = None then start_shutdown s else s"
  obtain kind fut where k: "bn_pending ?s = Some (kind, fut)" by (cases "bn_pending s") (auto simp: start_shutdown_def)
  obtain u s1 m1 where p: "poll_pending t kind fut ?s m = (u, s1, m1)" by (metis prod_cases3)
  have "inv ?s m" using Cons.prems(3) start by (simp add: start_shutdown_def)
  from turn [OF this k _ p] Cons.prems(1,2) p Cons.IH [of s1 m1] show ?case
    unfolding poll_shutdown.simps Let_def k by (auto split: pending_turn.splits sum.splits if_splits)
qed (auto simp: start_shutdown_def start split: if_splits)

end

locale sender_invariant = pending_invariant tick_ok inv
  for tick_ok :: "adapter_tick \<Rightarrow> bool" and inv :: "blob_sender_stream \<Rightarrow> blob_manager \<Rightarrow> bool" +
  assumes others: "inv s m \<Longrightarrow> tick_ok t \<Longrightarrow> inv s (at_others t m)"
    and attempt: "inv s m \<Longrightarrow> bn_pending s = None \<Longrightarrow> write_attempt free s buf m = (r, s', m') \<Longrightarrow> inv s' m'"
begin

lemma write_keeps: "poll_write ticks s buf m = (r, s', m') \<Longrightarrow> list_all tick_ok ticks \<Longrightarrow> inv s m \<Longrightarrow> inv s' m'"
proof (induction ticks arbitrary: s m)
  case Nil
  then show ?case by (auto dest: attempt split: option.splits prod.splits)
next
  case (Cons t ticks)
  show ?case
  proof (cases "bn_pending s")
    case None
    have "inv s1 m1" if "write_attempt (at_ring_free t) s buf (at_others t m) = (r1, s1, m1)" for r1 s1 m1
      using attempt [OF others None that] Cons.prems(2,3) by simp
    with None Cons show ?thesis by (auto split: option.splits prod.splits)
  next
    case (Some op)
    obtain kind fut u s1 m1 where op: "op = (kind, fut)" and p: "poll_pending t kind fut s m = (u, s1, m1)" by (metis prod_cases3 surj_pair)
    with turn [OF Cons.prems(3) _ _ p] Some Cons show ?thesis by (auto split: pending_turn.splits sum.splits)
  qed
qed

end

section \<open>Writing\<close>

text \<open>The turns of a pending operation work on the ring, but push nothing onto it.\<close>

lemma cleanup_streamed: "sender_cleanup s m = (s', m') \<Longrightarrow> streamed h m m' [] \<and> bn_ring s' = bn_ring s"
  by (auto simp: sender_cleanup_def streamed_unregister streamed_same split: if_splits)

lemma wait_over_streamed: "wait_over w r s m = (u, s', m') \<Longrightarrow> streamed h m m' [] \<and> bn_ring s' = bn_ring s"
  by (cases w) (auto simp: streamed_same dest: cleanup_streamed split: sum.splits)

lemma sender_turn_streamed: "sender_turn t kind fut s m = (u, s', m') \<Longrightarrow> streamed (bn_ring s) m m' [] \<and> bn_ring s' = bn_ring s"
proof (cases fut)
  case FutSeal
  assume "sender_turn t kind fut s m = (u, s', m')"
  with FutSeal streamed_moves(8) [of "bn_ring s" m "bn_ring s"] show ?thesis
    by (auto simp: seal_turn_def on_ring_def Let_def split: prod.splits option.splits sum.splits)
qed (auto simp: lock_turn_def streamed_same Let_def dest: wait_over_streamed split: if_splits option.splits pending_kind.splits)

lemma poll_pending_streamed:
  assumes "poll_pending t kind fut s m = (u, s', m')" and "others_work (bn_ring s) t"
  shows "streamed (bn_ring s) m m' [] \<and> bn_ring s' = bn_ring s"
  using assms others_streamed [OF assms(2), of m]
  by (auto simp: poll_pending_def dest!: sender_turn_streamed split: prod.splits future_turn.splits intro: streamed_idle)

text \<open>The bytes that a poll told its caller were taken.\<close>

fun taken_of :: "nat io_result poll \<Rightarrow> u8 list \<Rightarrow> u8 list" where
  "taken_of (PollReady (Inr n)) buf = take n buf"
| "taken_of _ buf = []"

lemma write_attempt_streamed:
  assumes "write_attempt free s buf m = (r, s', m')"
  shows "streamed (bn_ring s) m m' (case r of Some r \<Rightarrow> taken_of r buf | None \<Rightarrow> []) \<and> bn_ring s' = bn_ring s"
proof -
  let ?h = "bn_ring s"
  have "streamed ?h m m' (accepted_by (bm_rings m ! ?h) (TryPush free buf))" if "bm_rings m' = (bm_rings m)[?h := snd (ring_try_push (bm_rings m ! ?h) free buf)]"
    using streamed_step [of m' m ?h "TryPush free buf" ?h] that by (auto simp: streamed_def)
  with assms show ?thesis
    by (auto simp: write_attempt_def start_capacity_wait_def streamed_same on_ring_def notify_work_def Let_def
        split: if_splits prod.splits sum.splits try_push_available.splits)
qed

lemma poll_write_streamed:
  assumes "poll_write ticks s buf m = (r, s', m')" and "list_all (others_work (bn_ring s)) ticks"
  shows "streamed (bn_ring s) m m' (taken_of r buf) \<and> bn_ring s' = bn_ring s"
  using assms
proof (induction ticks arbitrary: s m)
  case Nil
  then show ?case
    by (auto simp: streamed_same dest!: write_attempt_streamed split: option.splits prod.splits)
next
  case (Cons t ticks)
  then have t: "others_work (bn_ring s) t" "list_all (others_work (bn_ring s)) ticks" by simp_all
  show ?case
  proof (cases "bn_pending s")
    case None
    obtain r1 s1 m1 where a: "write_attempt (at_ring_free t) s buf (at_others t m) = (r1, s1, m1)" by (metis prod_cases3)
    note step = write_attempt_streamed [OF a] streamed_trans [OF others_streamed [OF t(1), of m]]
    show ?thesis
    proof (cases r1)
      case None
      with Cons.prems(1) \<open>bn_pending s = None\<close> a have "poll_write ticks s1 buf m1 = (r, s', m')" by simp
      with Cons.IH [of s1 m1] t(2) step None show ?thesis using streamed_trans by fastforce
    next
      case (Some x)
      with Cons.prems(1) \<open>bn_pending s = None\<close> a step show ?thesis by fastforce
    qed
  next
    case (Some op)
    obtain kind fut where op: "op = (kind, fut)" by (cases op)
    obtain u s1 m1 where p: "poll_pending t kind fut s m = (u, s1, m1)" by (metis prod_cases3)
    note step = poll_pending_streamed [OF p t(1)]
    have "streamed (bn_ring s) m m' (taken_of r buf) \<and> bn_ring s' = bn_ring s" if "poll_write ticks s1 buf m1 = (r, s', m')"
      using Cons.IH [OF that] t(2) step streamed_trans by fastforce
    with Cons.prems(1) Some op p step show ?thesis by (auto split: pending_turn.splits sum.splits)
  qed
qed

interpretation streaming: pending_invariant "others_work h" "\<lambda>s m'. bn_ring s = h \<and> streamed h m m' []" for h m
  by unfold_locales (auto dest: poll_pending_streamed intro: streamed_idle)

lemma poll_flush_streamed:
  "poll_flush ticks s m = (r, s', m') \<Longrightarrow> list_all (others_work (bn_ring s)) ticks \<Longrightarrow> streamed (bn_ring s) m m' [] \<and> bn_ring s' = bn_ring s"
  using streaming.flush_keeps [of ticks s m r s' m' "bn_ring s" m] by (simp add: streamed_same)

lemma poll_shutdown_streamed:
  "poll_shutdown ticks s m = (r, s', m') \<Longrightarrow> list_all (others_work (bn_ring s)) ticks \<Longrightarrow> streamed (bn_ring s) m m' [] \<and> bn_ring s' = bn_ring s"
  using streaming.shutdown_keeps [of ticks s m r s' m' "bn_ring s" m] by (simp add: streamed_same)

text \<open>An application's use of its sender: one poll after the other, and the bytes it was told were taken.\<close>

datatype sender_call = CallWrite "adapter_tick list" "u8 list" | CallFlush "adapter_tick list" | CallShutdown "adapter_tick list"

fun call_ticks :: "sender_call \<Rightarrow> adapter_tick list" where
  "call_ticks (CallWrite ticks _) = ticks"
| "call_ticks (CallFlush ticks) = ticks"
| "call_ticks (CallShutdown ticks) = ticks"

fun run_call :: "sender_call \<Rightarrow> blob_sender_stream \<Rightarrow> blob_manager \<Rightarrow> u8 list \<times> blob_sender_stream \<times> blob_manager" where
  "run_call (CallWrite ticks buf) s m = (case poll_write ticks s buf m of (r, s, m) \<Rightarrow> (taken_of r buf, s, m))"
| "run_call (CallFlush ticks) s m = (case poll_flush ticks s m of (_, s, m) \<Rightarrow> ([], s, m))"
| "run_call (CallShutdown ticks) s m = (case poll_shutdown ticks s m of (_, s, m) \<Rightarrow> ([], s, m))"

fun sender_calls :: "sender_call list \<Rightarrow> blob_sender_stream \<Rightarrow> blob_manager \<Rightarrow> u8 list \<times> blob_sender_stream \<times> blob_manager" where
  "sender_calls [] s m = ([], s, m)"
| "sender_calls (c # calls) s m =
     (case run_call c s m of (bs, s, m) \<Rightarrow> case sender_calls calls s m of (cs, s, m) \<Rightarrow> (bs @ cs, s, m))"

context sender_invariant
begin

lemma calls_keep:
  "sender_calls calls s m = (bs, s', m') \<Longrightarrow> \<forall>c \<in> set calls. list_all tick_ok (call_ticks c) \<Longrightarrow> inv s m \<Longrightarrow> inv s' m'"
proof (induction calls arbitrary: s m bs)
  case (Cons c calls)
  obtain b1 s1 m1 where c: "run_call c s m = (b1, s1, m1)" by (metis prod_cases3)
  have "inv s1 m1" using c Cons.prems(2,3)
    by (cases c) (auto dest: write_keeps flush_keeps shutdown_keeps split: prod.splits)
  with Cons c show ?case by (auto split: prod.splits)
qed simp

end

lemma run_call_streamed:
  "run_call c s m = (bs, s', m') \<Longrightarrow> list_all (others_work (bn_ring s)) (call_ticks c) \<Longrightarrow> streamed (bn_ring s) m m' bs \<and> bn_ring s' = bn_ring s"
  by (cases c) (auto dest: poll_write_streamed poll_flush_streamed poll_shutdown_streamed split: prod.splits)

text \<open>
  C5. The stream is what the application was told. However its writes, flushes and shutdowns, each waiting or
  not, interleave with the work of all other tasks of the peer, the ring has gone through operations of its
  own that accepted exactly the bytes that the writes reported, in their order: no byte is taken by a write that
  waits or fails, and none is lost.
\<close>

theorem writes_are_the_stream:
  assumes "sender_calls calls s m = (out_bytes, s', m')" and "bn_ring s < length (bm_rings m)"
    and "\<forall>c \<in> set calls. list_all (others_work (bn_ring s)) (call_ticks c)"
  shows "bn_ring s' < length (bm_rings m') \<and> (\<exists>ops. bm_rings m' ! bn_ring s' = foldl outbound_step (bm_rings m ! bn_ring s) ops
    \<and> accepted_bytes_of (bm_rings m ! bn_ring s) ops = out_bytes)"
proof -
  have "streamed (bn_ring s) m m' out_bytes \<and> bn_ring s' = bn_ring s"
    using assms(1,3)
  proof (induction calls arbitrary: s m out_bytes)
    case (Cons c calls)
    obtain bs s1 m1 where c: "run_call c s m = (bs, s1, m1)" by (metis prod_cases3)
    obtain cs where cs: "sender_calls calls s1 m1 = (cs, s', m')" "out_bytes = bs @ cs"
      using Cons.prems(1) c by (auto split: prod.splits)
    from run_call_streamed [OF c] Cons.prems have step: "streamed (bn_ring s) m m1 bs" "bn_ring s1 = bn_ring s" by simp_all
    from Cons.IH [OF cs(1)] Cons.prems step cs(2) streamed_trans [OF step(1)] show ?case by simp
  qed (auto simp: streamed_same)
  with assms(2) show ?thesis by (simp add: streamed_def)
qed

section \<open>The end of a stream\<close>

text \<open>
  The pending operation of a sender is one of the three futures at one of its waits; it holds the mutex when it
  is past its first line, and then the stream is not closed. So \<open>try_lock\<close> never fails in \<open>poll_write\<close>.
\<close>

fun future_ok :: "pending_kind \<Rightarrow> sender_future \<Rightarrow> bool" where
  "future_ok kind FutLock \<longleftrightarrow> True"
| "future_ok kind FutSeal \<longleftrightarrow> kind = KindShutdown"
| "future_ok kind (FutCheck w _) \<longleftrightarrow> w \<in> (case kind of KindCapacity \<Rightarrow> {WaitCapacity} | KindFlush \<Rightarrow> {WaitDrain} | KindShutdown \<Rightarrow> {WaitSeal, WaitComplete})"
| "future_ok kind (FutPark w _) \<longleftrightarrow> w \<in> (case kind of KindCapacity \<Rightarrow> {WaitCapacity} | KindFlush \<Rightarrow> {WaitDrain} | KindShutdown \<Rightarrow> {WaitSeal, WaitComplete})"

definition sender_ok :: "blob_sender_stream \<Rightarrow> bool" where
  "sender_ok s \<longleftrightarrow>
     (case bn_pending s of
        None \<Rightarrow> \<not> bn_locked s
      | Some (kind, fut) \<Rightarrow> future_ok kind fut \<and> (bn_locked s \<longleftrightarrow> fut \<noteq> FutLock) \<and> (bn_closed s \<longrightarrow> fut = FutLock))"

text \<open>Nothing of a stream is left in the tables of the manager.\<close>

definition stream_gone :: "peer_message_id \<Rightarrow> blob_manager \<Rightarrow> bool" where
  "stream_gone stream_id m \<longleftrightarrow>
     map_of (bo_streams (bm_outbound m)) stream_id = None \<and> map_of (rv_outbound (bm_reservations m)) stream_id = None"

lemma streams_prune [simp]: "bo_streams (prune_response_ready b) = bo_streams b"
  by (simp add: prune_response_ready_def Let_def)

lemma unregister_gone: "stream_gone s (unregister_outbound_stream m s)"
  by (auto simp: stream_gone_def unregister_outbound_stream_def outbound_drop_stream_def release_outbound_def on_ring_def Let_def delete_conv
      split: option.splits)

lemma close_chunks: "os_chunks (rings[i := ring_close (rings ! i)] ! h) = os_chunks (rings ! h)"
  by (cases "i < length rings") (auto simp: ring_close_def nth_list_update not_less list_update_beyond)

lemma unregister_chunks: "os_chunks (bm_rings (unregister_outbound_stream m s) ! h) = os_chunks (bm_rings m ! h)"
  by (auto simp: unregister_outbound_stream_def on_ring_def close_chunks Let_def split: prod.splits option.splits)

lemma cleanup_ends:
  "\<not> bn_closed s \<Longrightarrow> sender_cleanup s m = (s', m') \<Longrightarrow>
     s' = s\<lparr>bn_closed := True\<rparr> \<and> stream_gone (bn_stream_id s) m' \<and> os_chunks (sender_ring s' m') = os_chunks (sender_ring s m)"
  by (auto simp: sender_cleanup_def unregister_gone unregister_chunks)

text \<open>A turn of a pending operation keeps this, and only the end of a shutdown closes the stream.\<close>

lemma pending_keeps:
  assumes "poll_pending t kind fut s m = (u, s', m')" and "sender_ok s" and "bn_pending s = Some (kind, fut)"
  shows "sender_ok s' \<and> bn_stream_id s' = bn_stream_id s \<and> (case u of OpReady _ \<Rightarrow> bn_pending s' = None | _ \<Rightarrow> \<exists>fut'. bn_pending s' = Some (kind, fut'))"
  using assms
  by (cases fut; cases kind)
    (auto simp: poll_pending_def sender_ok_def lock_turn_def seal_turn_def sender_cleanup_def Let_def
      split: prod.splits if_splits option.splits sum.splits future_turn.splits)

lemma attempt_ok: "write_attempt free s buf m = (r, s', m') \<Longrightarrow> bn_pending s = None \<Longrightarrow> sender_ok s \<Longrightarrow> sender_ok s' \<and> bn_stream_id s' = bn_stream_id s"
  by (auto simp: write_attempt_def sender_ok_def start_capacity_wait_def Let_def
      split: prod.splits if_splits sum.splits try_push_available.splits)

interpretation ok: sender_invariant "\<lambda>_. True" "\<lambda>s m. sender_ok s"
  by unfold_locales (auto dest: pending_keeps attempt_ok, simp add: sender_ok_def)

lemma sender_reach_ok: "sender_calls calls (sender_stream_new i h d) m = (bs, s, m') \<Longrightarrow> sender_ok s"
  using ok.calls_keep [of calls "sender_stream_new i h d" m bs s m'] by (simp add: sender_ok_def list_all_iff)

lemma pending_closes:
  assumes "poll_pending t kind fut s m = (u, s', m')" and "sender_ok s" and "bn_pending s = Some (kind, fut)" and "\<not> bn_closed s"
  shows "if bn_closed s' then kind = KindShutdown \<and> (\<exists>r. u = OpReady r) \<and> stream_gone (bn_stream_id s) m'
           \<and> (u = OpReady (Inr ()) \<longrightarrow> is_drained (os_chunks (sender_ring s' m')))
         else \<not> (kind = KindShutdown \<and> u = OpReady (Inr ()))"
  using assms
  by (cases fut; cases kind)
    (auto simp: poll_pending_def sender_ok_def lock_turn_def seal_turn_def check_complete_def Let_def
      split: prod.splits if_splits option.splits sum.splits future_turn.splits dest: cleanup_ends)

text \<open>A closed stream is gone, and stays gone while other tasks do not open it again.\<close>

definition leaves_gone :: "peer_message_id \<Rightarrow> adapter_tick \<Rightarrow> bool" where
  "leaves_gone stream_id t \<longleftrightarrow> (\<forall>m. stream_gone stream_id m \<longrightarrow> stream_gone stream_id (at_others t m))"

definition released_inv :: "peer_message_id \<Rightarrow> blob_sender_stream \<Rightarrow> blob_manager \<Rightarrow> bool" where
  "released_inv stream_id s m \<longleftrightarrow> sender_ok s \<and> bn_stream_id s = stream_id \<and> (bn_closed s \<longrightarrow> stream_gone stream_id m)"

lemma closed_turn:
  "poll_pending t kind fut s m = (u, s', m') \<Longrightarrow> sender_ok s \<Longrightarrow> bn_pending s = Some (kind, fut) \<Longrightarrow> bn_closed s \<Longrightarrow> m' = at_others t m"
  by (auto simp: poll_pending_def sender_ok_def lock_turn_def split: pending_kind.splits)

interpretation gone: sender_invariant "leaves_gone stream_id" "released_inv stream_id" for stream_id
proof
  show "released_inv stream_id s' m'" if "released_inv stream_id s m" "bn_pending s = Some (kind, fut)" "leaves_gone stream_id t"
    "poll_pending t kind fut s m = (u, s', m')" for s m kind fut t u s' m'
    using that pending_keeps [OF that(4)] pending_closes [OF that(4)] closed_turn [OF that(4)]
    by (cases "bn_closed s") (auto simp: released_inv_def leaves_gone_def split: if_splits)
  show "released_inv stream_id s' m'" if "released_inv stream_id s m" "bn_pending s = None" "write_attempt free s buf m = (r, s', m')" for s m free buf r s' m'
  proof -
    have "bn_closed s' \<longrightarrow> bn_closed s \<and> m' = m"
      using that by (auto simp: write_attempt_def start_capacity_wait_def released_inv_def sender_ok_def Let_def
          split: prod.splits if_splits sum.splits try_push_available.splits)
    with that attempt_ok show ?thesis by (auto simp: released_inv_def)
  qed
qed (auto simp: released_inv_def leaves_gone_def sender_ok_def)

text \<open>
  C14. A sender leaves nothing behind. However it was used, and at whichever wait it is given up, once it is dropped
  the stream is unregistered and nothing is reserved for it.
\<close>

theorem dropped_sender_released:
  assumes "sender_calls calls (sender_stream_new stream_id h send_timeout) m = (out_bytes, s, m')"
    and "\<forall>c \<in> set calls. list_all (leaves_gone stream_id) (call_ticks c)"
  shows "stream_gone stream_id (sender_stream_drop s m')"
proof -
  have "released_inv stream_id s m'"
    using gone.calls_keep [OF assms] by (simp add: released_inv_def sender_ok_def)
  then show ?thesis by (auto simp: released_inv_def sender_stream_drop_def sender_cleanup_def unregister_gone)
qed

lemma pending_some: "\<exists>kind fut. bn_pending (if bn_pending s = None then start_shutdown s else s) = Some (kind, fut)"
  by (cases "bn_pending s") (auto simp: start_shutdown_def)

lemma shutdown_ends:
  "poll_shutdown ticks s m = (PollReady r, s', m') \<Longrightarrow> sender_ok s \<Longrightarrow> \<not> bn_closed s \<Longrightarrow>
     sender_ok s' \<and> bn_pending s' = None \<and> (bn_closed s' \<longrightarrow> stream_gone (bn_stream_id s) m')
     \<and> (r = Inr () \<longrightarrow> bn_closed s' \<and> is_drained (os_chunks (sender_ring s' m')))"
proof (induction ticks arbitrary: s m)
  case (Cons t ticks)
  let ?s = "if bn_pending s = None then start_shutdown s else s"
  obtain kind fut where k: "bn_pending ?s = Some (kind, fut)" using pending_some by metis
  obtain u s1 m1 where p: "poll_pending t kind fut ?s m = (u, s1, m1)" by (metis prod_cases3)
  have ok: "sender_ok ?s" "\<not> bn_closed ?s" "bn_stream_id ?s = bn_stream_id s"
    using Cons.prems(2,3) by (auto simp: sender_ok_def start_shutdown_def)
  note keeps = pending_keeps [OF p ok(1) k] and closes = pending_closes [OF p ok(1) k ok(2)]
  have later: ?case if "poll_shutdown ticks s1 m1 = (PollReady r, s', m')" "\<not> bn_closed s1"
    using Cons.IH [OF that(1)] that(2) keeps ok(3) by simp
  have "poll_shutdown (t # ticks) s m = (case u of
       OpPends \<Rightarrow> (PollPending, s1, m1) | OpGoes \<Rightarrow> poll_shutdown ticks s1 m1
     | OpReady (Inl err) \<Rightarrow> (PollReady (Inl (error_to_string err)), s1, m1)
     | OpReady (Inr _) \<Rightarrow> if kind = KindShutdown then (PollReady (Inr ()), s1, m1) else poll_shutdown ticks s1 m1)"
    unfolding poll_shutdown.simps Let_def k using p by (simp split: pending_turn.splits sum.splits)
  with Cons.prems(1) keeps closes ok(3) later show ?case
    by (auto split: pending_turn.splits sum.splits if_splits)
qed simp

lemma closed_shutdown:
  assumes "poll_shutdown ticks s m = (PollReady r, s', m')" and "sender_ok s" and "bn_closed s" and "bn_pending s = None"
  shows "r = Inr () \<and> s' = s \<and> m' = at_others (hd ticks) m"
  using assms by (cases ticks) (auto simp: sender_ok_def start_shutdown_def poll_pending_def lock_turn_def)

text \<open>
  C10. How a shutdown ends. When \<open>poll_shutdown\<close> on a sender that is not yet closed reports success, every chunk of
  the stream has been acknowledged, and the stream and its reservation are gone; when it reports an error and the
  sender counts as closed, they are gone as well. In either case nothing is left pending. A sender that is already
  closed, be it by a shutdown that failed, answers with success whatever became of its chunks, and nothing changes
  but by the other tasks (\<open>failed_shutdown_forgotten\<close>).
\<close>

theorem shutdown_settles:
  assumes "sender_calls calls (sender_stream_new stream_id h send_timeout) m0 = (out_bytes, s, m)"
    and "poll_shutdown ticks s m = (PollReady r, s', m')"
  shows "(\<not> bn_closed s \<longrightarrow> bn_pending s' = None \<and> (bn_closed s' \<longrightarrow> stream_gone (bn_stream_id s) m')
      \<and> (r = Inr () \<longrightarrow> bn_closed s' \<and> is_drained (os_chunks (sender_ring s' m'))))
    \<and> (bn_closed s \<and> bn_pending s = None \<longrightarrow> r = Inr () \<and> s' = s \<and> m' = at_others (hd ticks) m)"
  using shutdown_ends [OF assms(2) sender_reach_ok [OF assms(1)]] closed_shutdown [OF assms(2) sender_reach_ok [OF assms(1)]] by blast

text \<open>
  A failed shutdown is reported once. The wait for the completion of the transfer may end with an error, and the
  stream is then given up; but a caller that asks again, by a shutdown or by a flush, is told that all is well.
\<close>

theorem failed_shutdown_forgotten:
  assumes "sender_calls calls (sender_stream_new stream_id h send_timeout) m0 = (out_bytes, s, m)"
    and "poll_shutdown ticks s m = (PollReady (Inl err), s', m')" and "\<not> bn_closed s" and "bn_closed s'"
  shows "poll_shutdown [t] s' m' = (PollReady (Inr ()), s', at_others t m') \<and> poll_flush [t] s' m' = (PollReady (Inr ()), s', at_others t m')"
proof -
  have "bn_pending s' = None" "\<not> bn_locked s'" using shutdown_ends [OF assms(2) sender_reach_ok [OF assms(1)] assms(3)] by (auto simp: sender_ok_def)
  with assms(4) show ?thesis
    by (simp add: start_shutdown_def start_flush_def poll_pending_def lock_turn_def)
qed

text \<open>A sealing pass that finds no slot for the partial chunk, and a wait for capacity that ends at once.\<close>

definition seal_blocked :: "outbound_state \<Rightarrow> bool" where
  "seal_blocked ring \<longleftrightarrow> taking (os_lifecycle ring) \<and> oc_write_buf (os_chunks ring) \<noteq> []
     \<and> length (oc_write_buf (os_chunks ring)) < oc_chunk_size (os_chunks ring) \<and> \<not> has_window_capacity_for (os_chunks ring) 1"

lemma blocked_pass:
  "seal_blocked ring \<Longrightarrow> ring_seal_pass ring = ((None, False), ring\<lparr>os_lifecycle := LcSealing\<rparr>) \<and> check_capacity ring = Some (Inr ())
     \<and> seal_blocked (ring\<lparr>os_lifecycle := LcSealing\<rparr>)"
  by (auto simp: seal_blocked_def ring_seal_pass_def lc_final_chunk_materialized_def lc_mark_sealed_def finalize_def check_capacity_def
      lc_is_closed_def can_accept_bytes_def)

fun never_waits :: "sender_future \<Rightarrow> bool" where
  "never_waits (FutCheck w _) \<longleftrightarrow> w = WaitSeal"
| "never_waits (FutPark _ _) \<longleftrightarrow> False"
| "never_waits _ \<longleftrightarrow> True"

lemma blocked_turn:
  assumes "seal_blocked (sender_ring s m)" and "bn_ring s < length (bm_rings m)" and "never_waits fut" and "fut = FutLock \<longrightarrow> \<not> bn_locked s"
    and "\<not> bn_closed s" and "bm_rings (at_others t m) = bm_rings m"
  shows "\<exists>fut' s' m'. poll_pending t KindShutdown fut s m = (OpGoes, s', m') \<and> bn_pending s' = Some (KindShutdown, fut') \<and> never_waits fut'
    \<and> fut' \<noteq> FutLock \<and> \<not> bn_closed s' \<and> bn_ring s' = bn_ring s \<and> length (bm_rings m') = length (bm_rings m) \<and> seal_blocked (sender_ring s' m')"
  using assms blocked_pass [OF assms(1)]
  by (cases fut) (auto simp: poll_pending_def lock_turn_def seal_turn_def on_ring_def notify_work_def Let_def)

lemma blocked_polls:
  assumes "seal_blocked (sender_ring s m)" and "bn_ring s < length (bm_rings m)" and "\<not> bn_closed s"
    and "bn_pending s = Some (KindShutdown, fut)" and "never_waits fut" and "fut = FutLock \<longrightarrow> \<not> bn_locked s"
    and "\<forall>t \<in> set ticks. \<forall>m. bm_rings (at_others t m) = bm_rings m"
  shows "\<exists>s' m' fut'. poll_shutdown ticks s m = (PollPending, s', m') \<and> bn_pending s' = Some (KindShutdown, fut') \<and> never_waits fut'"
  using assms
proof (induction ticks arbitrary: s m fut)
  case (Cons t ticks)
  then have "bm_rings (at_others t m) = bm_rings m" by simp
  from blocked_turn [OF Cons.prems(1,2,5,6,3) this] obtain fut1 s1 m1
    where p: "poll_pending t KindShutdown fut s m = (OpGoes, s1, m1)"
      and n: "bn_pending s1 = Some (KindShutdown, fut1)" "never_waits fut1" "fut1 \<noteq> FutLock" "\<not> bn_closed s1"
      "bn_ring s1 < length (bm_rings m1)" "seal_blocked (sender_ring s1 m1)"
    using Cons.prems(2) by auto
  from Cons.IH [OF n(6,5,4,1,2)] n(3) Cons.prems(4,7) p show ?case by simp
qed simp

text \<open>
  C36. A shutdown may spin. When the window is full and a part of a chunk is staged, a pass of \<open>seal\<close> waits for
  capacity, but the wait is over at once, since a partial chunk could take more bytes, and the next pass
  starts. As long as no acknowledgement comes, the shutdown goes through these passes without ever waiting for a
  notification or for the clock: it does not end at its timeout, however late it is.
\<close>

theorem shutdown_spins:
  assumes "sender_calls calls (sender_stream_new stream_id h send_timeout) m0 = (out_bytes, s, m)"
    and "seal_blocked (sender_ring s m)" and "bn_ring s < length (bm_rings m)"
    and "bn_pending s = None" and "\<not> bn_closed s" and "\<forall>t \<in> set ticks. \<forall>m. bm_rings (at_others t m) = bm_rings m"
  shows "\<exists>s' m' fut. poll_shutdown ticks s m = (PollPending, s', m') \<and> bn_pending s' = Some (KindShutdown, fut) \<and> never_waits fut"
proof -
  have "poll_shutdown ticks s m = poll_shutdown ticks (start_shutdown s) m"
    using assms(4) by (cases ticks) (simp_all add: start_shutdown_def)
  moreover have "\<not> bn_locked s" using assms(4) sender_reach_ok [OF assms(1)] by (simp add: sender_ok_def)
  ultimately show ?thesis
    using blocked_polls [of m "start_shutdown s" FutLock ticks] assms(2-) by (simp add: start_shutdown_def)
qed

text \<open>
  A flush waits for the chunks in flight only: with none in flight it is ready at once, and a staged part of a
  chunk stays where it is.
\<close>

lemma flush_leaves_staged:
  assumes "bn_pending s = None" and "sender_ok s" and "\<not> bn_closed s" and "lc_failure (os_lifecycle (sender_ring s m)) = None"
    and "oc_inflight (os_chunks (sender_ring s m)) = 0" and "at_others t = (\<lambda>m. m)" and "at_others t' = (\<lambda>m. m)"
  shows "poll_flush [t, t'] s m = (PollReady (Inr ()), s\<lparr>bn_locked := False\<rparr>, m)"
  using assms by (simp add: start_flush_def poll_pending_def lock_turn_def check_inflight_drain_def sender_ok_def)

section \<open>Reading\<close>

text \<open>The receive ring \<open>h\<close> went from what it is in \<open>m\<close> to what it is in \<open>m'\<close> by operations that handed out the bytes \<open>bs\<close>.\<close>

definition fed :: "nat \<Rightarrow> blob_manager \<Rightarrow> blob_manager \<Rightarrow> u8 list \<Rightarrow> bool" where
  "fed h m m' bs \<longleftrightarrow> h < length (bm_recv_rings m) \<and> h < length (bm_recv_rings m')
     \<and> (\<exists>ops. bm_recv_rings m' ! h = foldl inbound_step (bm_recv_rings m ! h) ops \<and> concat (inbound_outputs (bm_recv_rings m ! h) ops) = bs)"

lemma fed_trans: "fed h m1 m2 bs \<Longrightarrow> fed h m2 m3 cs \<Longrightarrow> fed h m1 m3 (bs @ cs)"
  unfolding fed_def by (metis foldl_append outputs_over_append concat_append)

lemma fed_same: "h < length (bm_recv_rings m) \<Longrightarrow> bm_recv_rings m' = bm_recv_rings m \<Longrightarrow> fed h m m' []"
  unfolding fed_def by (auto intro: exI [of _ "[]"])

text \<open>
  Other tasks put chunks into the ring and may take the stream away, but they do not read from its ring or give
  the stream another one.
\<close>

definition feeds :: "peer_message_id \<Rightarrow> nat \<Rightarrow> adapter_tick \<Rightarrow> bool" where
  "feeds stream_id h t \<longleftrightarrow>
     (\<forall>m. h < length (bm_recv_rings m) \<and> recv_ring m stream_id \<in> {None, Some h} \<longrightarrow>
        recv_ring (at_others t m) stream_id \<in> {None, Some h} \<and> fed h m (at_others t m) [])"

text \<open>What a reader has in hand, and the rest of it that the application has not seen.\<close>

definition unread :: "blob_receiver_stream \<Rightarrow> u8 list" where
  "unread s = (case bv_current s of Some chunk \<Rightarrow> drop (bv_offset s) chunk | None \<Rightarrow> [])"

definition in_hand_ok :: "blob_receiver_stream \<Rightarrow> bool" where
  "in_hand_ok s \<longleftrightarrow> (case bv_current s of Some chunk \<Rightarrow> bv_offset s \<le> length chunk \<and> length chunk \<le> u64_max | None \<Rightarrow> bv_offset s = 0)"

definition bounded_ring :: "nat \<Rightarrow> blob_manager \<Rightarrow> bool" where
  "bounded_ring h m \<longleftrightarrow> in_inv (bm_recv_rings m ! h) \<and> in_chunk_size (bm_recv_rings m ! h) \<le> u64_max"

lemma chunk_size_step: "in_chunk_size (inbound_step st x) = in_chunk_size st"
  by (auto simp: inbound_step_def insert_chunk_def finish_insert_def take_next_def Let_def
      split: inbound_op.splits option.splits if_splits prod.splits)

lemma fed_bounded: "fed h m m' bs \<Longrightarrow> bounded_ring h m \<Longrightarrow> bounded_ring h m'"
proof -
  have "in_chunk_size (foldl inbound_step st ops) = in_chunk_size st" for st ops
    by (induction ops arbitrary: st) (simp_all add: chunk_size_step)
  then show "fed h m m' bs \<Longrightarrow> bounded_ring h m \<Longrightarrow> bounded_ring h m'"
    by (auto simp: fed_def bounded_ring_def inbound.invar_run)
qed

lemma fed_range: "fed h m m' bs \<Longrightarrow> h < length (bm_recv_rings m')"
  by (simp add: fed_def)

lemma poll_copy_reads:
  assumes "poll_copy s chunk room = (r, s')" and "bv_current s = Some chunk" and "in_hand_ok s"
  shows "in_hand_ok s' \<and> (\<exists>bytes. r = PollReady (Inr bytes) \<and> bytes @ unread s' = unread s)
    \<and> bv_stream_id s' = bv_stream_id s \<and> bv_receiver s' = bv_receiver s"
proof -
  define off len where "off = bv_offset s" and "len = min (bv_offset s + room) (length chunk) - bv_offset s"
  have le: "off + len \<le> length chunk" "length chunk \<le> u64_max" using assms(2,3) by (auto simp: in_hand_ok_def off_def len_def)
  have copy: "copy_current chunk (bv_offset s) room = (take len (drop off chunk), if length chunk \<le> off + len then (None, 0) else (Some chunk, off + len))"
    using le by (simp add: copy_current_def sat_add_def Let_def off_def len_def)
  have cut: "take len (drop off chunk) @ drop (off + len) chunk = drop off chunk"
    by (metis append_take_drop_id drop_drop add.commute)
  with assms(1,2) le copy show ?thesis
    by (cases "length chunk \<le> off + len") (auto simp: poll_copy_def unread_def in_hand_ok_def off_def [symmetric])
qed

lemma attempt_reads:
  assumes "read_attempt now otherwise s m = (u, m')" and "recv_ring m (bv_stream_id s) \<in> {None, Some h}" and "h < length (bm_recv_rings m)" and "bounded_ring h m"
  shows "recv_ring m' (bv_stream_id s) \<in> {None, Some h}
    \<and> (case u of ReadReady (ReadChunk chunk) \<Rightarrow> fed h m m' chunk \<and> length chunk \<le> u64_max | _ \<Rightarrow> fed h m m' [])"
proof (cases "\<exists>chunk. u = ReadReady (ReadChunk chunk)")
  case True
  then obtain chunk where u: "u = ReadReady (ReadChunk chunk)" by blast
  with assms(1,2) have take: "fst (take_next (bm_recv_rings m ! h)) = Some chunk"
    "m' = m\<lparr>bm_recv_rings := (bm_recv_rings m)[h := snd (take_next (bm_recv_rings m ! h))]\<rparr>"
    by (auto simp: read_attempt_def try_receiver_read_def split: option.splits prod.splits if_splits)
  have "fed h m m' chunk"
    unfolding fed_def using assms(3) take by (auto simp: inbound_step_def inbound_output_def intro!: exI [of _ "[TakeNext]"])
  moreover have "length chunk \<le> u64_max"
  proof -
    let ?ring = "bm_recv_rings m ! h"
    have "map_of (in_received ?ring) (in_next_deliver ?ring) = Some chunk"
      using take(1) by (auto simp: take_next_def Let_def split: option.splits)
    then have "(in_next_deliver ?ring, chunk) \<in> set (in_received ?ring)" by (rule map_of_SomeD)
    moreover have "\<forall>(k, d) \<in> set (in_received ?ring). length d \<le> in_chunk_size ?ring" "in_chunk_size ?ring \<le> u64_max"
      using assms(4) unfolding bounded_ring_def in_inv_def by blast+
    ultimately show ?thesis by (auto intro: order_trans)
  qed
  ultimately show ?thesis using u take(2) assms(2) by (simp add: recv_ring_def)
next
  case False
  with assms(1) have "bm_recv_rings m' = bm_recv_rings m \<and> recv_ring m' (bv_stream_id s) \<in> {None, recv_ring m (bv_stream_id s)}"
    by (auto simp: read_attempt_def try_receiver_read_def note_recv_complete_def remove_recv_stream_def release_inbound_def drop_recv_stream_def
        recv_ring_def delete_conv Let_def split: option.splits prod.splits if_splits)
  with False assms(2,3) fed_same show ?thesis by (auto split: read_turn.splits blob_read_outcome.splits)
qed

lemma turn_reads:
  assumes "receiver_turn t fut s m = (u, m')" and "recv_ring m (bv_stream_id s) \<in> {None, Some h}" and "h < length (bm_recv_rings m)" and "bounded_ring h m"
  shows "recv_ring m' (bv_stream_id s) \<in> {None, Some h}
    \<and> (case u of ReadReady (ReadChunk chunk) \<Rightarrow> fed h m m' chunk \<and> length chunk \<le> u64_max | _ \<Rightarrow> fed h m m' [])"
proof (cases fut)
  case ReadHead
  with assms attempt_reads [OF _ assms(2-4)] fed_same [OF assms(3)] show ?thesis by (auto split: if_splits)
next
  case ReadAgain
  with assms(1) attempt_reads [OF _ assms(2-4)] show ?thesis by simp
next
  case (ReadPark deadline)
  have "bm_recv_rings m1 = bm_recv_rings m \<and> recv_ring m1 (bv_stream_id s) = None" if "fail_receiver_idle m (bv_receiver s) (bv_stream_id s) = (r, m1)" for r m1
    using that by (auto simp: fail_receiver_idle_def on_receiver_def remove_recv_stream_def release_inbound_def drop_recv_stream_def recv_ring_def
        delete_conv Let_def split: option.splits)
  with ReadPark assms fed_same [OF assms(3)] show ?thesis
    by (auto simp: fail_receiver_idle_def Let_def split: if_splits prod.splits)
qed (use assms fed_same [OF assms(3)] in \<open>auto split: if_splits\<close>)

fun read_of :: "u8 list io_result poll \<Rightarrow> u8 list" where
  "read_of (PollReady (Inr bytes)) = bytes"
| "read_of _ = []"

definition reading :: "nat \<Rightarrow> blob_receiver_stream \<Rightarrow> blob_manager \<Rightarrow> bool" where
  "reading h s m \<longleftrightarrow> in_hand_ok s \<and> recv_ring m (bv_stream_id s) \<in> {None, Some h} \<and> h < length (bm_recv_rings m) \<and> bounded_ring h m"

lemma poll_read_reads:
  assumes "poll_read ticks s room m = (r, s', m')" and "list_all (feeds (bv_stream_id s) h) ticks" and "reading h s m"
  shows "bv_stream_id s' = bv_stream_id s \<and> reading h s' m' \<and> (\<exists>bs. fed h m m' bs \<and> read_of r @ unread s' = unread s @ bs)"
  using assms
proof (induction ticks arbitrary: s m)
  case Nil
  then show ?case
    by (auto simp: reading_def fed_same in_hand_ok_def unread_def start_read_def dest!: poll_copy_reads
        split: option.splits prod.splits if_splits intro!: exI [of _ "[]"])
next
  case (Cons t ticks)
  show ?case
  proof (cases "bv_current s")
    case (Some chunk)
    with Cons.prems(1,3) show ?thesis
      by (auto simp: reading_def fed_same dest!: poll_copy_reads split: prod.splits intro!: exI [of _ "[]"])
  next
    case None
    let ?s = "if bv_pending s = None then start_read s else s"
    let ?m = "at_others t m"
    have off: "bv_offset s = 0" and hand: "unread s = []" using Cons.prems(3) None by (simp_all add: reading_def in_hand_ok_def unread_def)
    have s1: "bv_current ?s = None" "bv_offset ?s = 0" "bv_stream_id ?s = bv_stream_id s" "bv_receiver ?s = bv_receiver s"
      using None off by (simp_all add: start_read_def)
    have fed1: "recv_ring ?m (bv_stream_id s) \<in> {None, Some h}" "fed h m ?m []"
      using Cons.prems(2,3) by (simp_all add: feeds_def reading_def)
    then have m1: "h < length (bm_recv_rings ?m)" "bounded_ring h ?m"
      using Cons.prems(3) fed_bounded [OF fed1(2)] fed_range [OF fed1(2)] by (simp_all add: reading_def)
    obtain u m2 where u: "receiver_turn t (the (bv_pending ?s)) ?s ?m = (u, m2)" by fastforce
    note turn = turn_reads [OF u, unfolded s1(3), OF fed1(1) m1]
    have step: "fed h m m2 (case u of ReadReady (ReadChunk chunk) \<Rightarrow> chunk | _ \<Rightarrow> [])"
      using turn fed_trans [OF fed1(2)] by (auto split: read_turn.splits blob_read_outcome.splits)
    have m2: "h < length (bm_recv_rings m2)" "bounded_ring h m2"
      using Cons.prems(3) fed_bounded [OF step] fed_range [OF step] by (simp_all add: reading_def)
    have idle: "reading h (?s\<lparr>bv_pending := p\<rparr>) m2 \<and> unread (?s\<lparr>bv_pending := p\<rparr>) = []" for p
      using s1 turn m2 by (simp add: reading_def in_hand_ok_def unread_def)
    have chunk: "reading h (?s\<lparr>bv_pending := None, bv_current := Some chunk\<rparr>) m2 \<and> unread (?s\<lparr>bv_pending := None, bv_current := Some chunk\<rparr>) = chunk"
      if "u = ReadReady (ReadChunk chunk)" for chunk
      using s1 turn m2 that by (simp add: reading_def in_hand_ok_def unread_def)
    have later: ?thesis if "poll_read ticks s2 room m2 = (r, s', m')" "reading h s2 m2" "bv_stream_id s2 = bv_stream_id s" "fed h m m2 (unread s2)" for s2
    proof -
      from Cons.IH [OF that(1) _ that(2)] Cons.prems(2) that(3) obtain bs
        where "bv_stream_id s' = bv_stream_id s" "reading h s' m'" "fed h m2 m' bs" "read_of r @ unread s' = unread s2 @ bs" by auto
      with fed_trans [OF that(4)] hand show ?thesis by auto
    qed
    show ?thesis
    proof (cases u)
      case (ReadReady out)
      show ?thesis
      proof (cases out)
        case (ReadChunk c)
        with ReadReady Cons.prems(1) None u have "poll_read ticks (?s\<lparr>bv_pending := None, bv_current := Some c\<rparr>) room m2 = (r, s', m')"
          unfolding poll_read.simps Let_def by simp
        from later [OF this] chunk step ReadReady ReadChunk s1 show ?thesis by simp
      qed (use ReadReady Cons.prems(1) None u idle step s1 hand in \<open>unfold poll_read.simps Let_def, auto intro!: exI [of _ "[]"]\<close>)
    next
      case (ReadGoes f)
      with Cons.prems(1) None u have "poll_read ticks (?s\<lparr>bv_pending := Some f\<rparr>) room m2 = (r, s', m')"
        unfolding poll_read.simps Let_def by simp
      from later [OF this] idle step ReadGoes s1 show ?thesis by simp
    qed (use Cons.prems(1) None u idle step s1 hand in \<open>unfold poll_read.simps Let_def, auto intro!: exI [of _ "[]"]\<close>)
  qed
qed

fun receiver_calls ::
  "(adapter_tick list \<times> nat) list \<Rightarrow> blob_receiver_stream \<Rightarrow> blob_manager \<Rightarrow> u8 list \<times> blob_receiver_stream \<times> blob_manager" where
  "receiver_calls [] s m = ([], s, m)"
| "receiver_calls ((ticks, room) # calls) s m =
     (case poll_read ticks s room m of (r, s, m) \<Rightarrow> case receiver_calls calls s m of (bs, s, m) \<Rightarrow> (read_of r @ bs, s, m))"

text \<open>
  C6. The application reads what its ring hands out. However the reads are cut, by the sizes of their buffers or by
  waits, and however they interleave with the arrival of chunks, the bytes read so far, followed by the rest of
  the chunk in hand, are exactly the bytes of the chunks that the ring handed out, in order: none is skipped,
  repeated or lost.
\<close>

theorem reads_are_the_stream:
  assumes "receiver_calls calls (receiver_stream_new stream_id receiver) m = (got, s', m')"
    and "h < length (bm_recv_rings m)" and "recv_ring m stream_id = Some h" and "inbound_new cs ws = Inr (bm_recv_rings m ! h)" and "cs \<le> u64_max"
    and "\<forall>(ticks, room) \<in> set calls. list_all (feeds stream_id h) ticks"
  shows "\<exists>ops. bm_recv_rings m' ! h = foldl inbound_step (bm_recv_rings m ! h) ops
    \<and> got @ unread s' = concat (inbound_outputs (bm_recv_rings m ! h) ops)"
proof -
  have run: "reading h s m \<Longrightarrow> bv_stream_id s = stream_id \<Longrightarrow> receiver_calls calls s m = (got, s', m') \<Longrightarrow>
      \<exists>bs. fed h m m' bs \<and> got @ unread s' = unread s @ bs" for s
    using assms(6)
  proof (induction calls arbitrary: s m got)
    case Nil
    then show ?case by (auto simp: reading_def fed_same intro!: exI [of _ "[]"])
  next
    case (Cons c calls)
    obtain ticks room r s1 m1 got' where c: "c = (ticks, room)" and p: "poll_read ticks s room m = (r, s1, m1)"
      and rest: "receiver_calls calls s1 m1 = (got', s', m')" "got = read_of r @ got'"
      using Cons.prems(3) by (cases c) (auto split: prod.splits)
    from poll_read_reads [OF p _ Cons.prems(1)] Cons.prems(2,4) c obtain bs
      where step: "bv_stream_id s1 = stream_id" "reading h s1 m1" "fed h m m1 bs" "read_of r @ unread s1 = unread s @ bs" by auto
    from Cons.IH [OF step(2,1) rest(1)] Cons.prems(4) obtain cs where "fed h m1 m' cs" "got' @ unread s' = unread s1 @ cs" by auto
    with fed_trans [OF step(3)] step(4) rest(2) show ?case by (metis append.assoc)
  qed
  have "inbound_new cs ws = Inr ring \<Longrightarrow> in_chunk_size ring = cs" for ring by (auto simp: inbound_new_def split: if_splits)
  with assms(4) have "in_chunk_size (bm_recv_rings m ! h) = cs" by blast
  with assms(2,3,5) in_inv_new [OF assms(4)] have "reading h (receiver_stream_new stream_id receiver) m"
    by (simp add: reading_def in_hand_ok_def receiver_stream_new_def bounded_ring_def)
  from run [OF this _ assms(1)] show ?thesis by (auto simp: receiver_stream_new_def unread_def fed_def)
qed

text \<open>
  A receiver that is dropped after its transfer has arrived, but before the application has read to the end, keeps
  its stream: the drop looks at the mark of completion and leaves at once, so that the stream stays
  registered with its ring and its reservation until the reaper finds it idle.
\<close>

lemma completed_receiver_kept:
  assumes "br_completed (bm_receivers m ! receiver)" and "map_of (rv_inbound (bm_reservations m)) stream_id = Some bytes" and "recv_ring m stream_id = Some h"
  shows "map_of (rv_inbound (bm_reservations (receiver_stream_drop m receiver stream_id))) stream_id = Some bytes
    \<and> recv_ring (receiver_stream_drop m receiver stream_id) stream_id = Some h"
  using assms by (simp add: receiver_stream_drop_def)

section \<open>Concrete streams\<close>

abbreviation adapter_settings :: blob_callis_settings where
  "adapter_settings \<equiv> \<lparr>bs_chunk_size = 2, bs_ack_window_chunks = 1\<rparr>"

definition adapter_tracker :: blob_buffer_tracker where
  "adapter_tracker = \<lparr>bt_outbound_used = 0, bt_inbound_used = 0\<rparr>"

text \<open>A manager with one stream of chunks of two bytes and a window of one chunk.\<close>

definition adapter_open :: blob_manager where
  "adapter_open = snd (register_outbound_stream (blob_manager_new adapter_tracker \<lparr>al_next = 9\<rparr> 4) 5 adapter_settings)"

definition quiet_tick :: "instant \<Rightarrow> adapter_tick" where
  "quiet_tick now = \<lparr>at_others = (\<lambda>m. foldl blob_step m []), at_now = now, at_notified = False, at_ring_free = True\<rparr>"

lemma quiet_tick_fields [simp]:
  "at_others (quiet_tick now) = (\<lambda>m. m)" "at_now (quiet_tick now) = now" "\<not> at_notified (quiet_tick now)" "at_ring_free (quiet_tick now)"
  by (simp_all add: quiet_tick_def)

lemma quiet_tick_ok: "others_work h (quiet_tick now)" "leaves_gone i (quiet_tick now)"
  by (auto simp: others_work_def quiet_tick_def leaves_gone_def intro: exI [of _ "[]"])

lemma adapter_open_ring: "bm_rings adapter_open = [\<lparr>os_lifecycle = LcOpen, os_chunks = chunks_new 2 (Suc 0)\<rparr>]"
  by (simp add: adapter_open_def register_outbound_stream_def outbound_new_def blob_manager_new_def Let_def)

definition adapter_written :: "u8 list \<times> blob_sender_stream \<times> blob_manager" where
  "adapter_written = sender_calls [CallWrite [quiet_tick 0] [1, 2, 3]] (sender_stream_new 5 0 10) adapter_open"

lemma adapter_written_eval:
  "adapter_written = ([1, 2, 3], sender_stream_new 5 0 10, notify_work (adapter_open\<lparr>bm_rings := [snd (ring_try_push \<lparr>os_lifecycle = LcOpen, os_chunks = chunks_new 2 (Suc 0)\<rparr> True [1, 2, 3])]\<rparr>))"
  by (simp add: adapter_written_def write_attempt_def adapter_open_ring on_ring_def ring_eval notify_work_def)

theorem writes_are_the_stream_witness:
  "\<exists>ops. bm_rings (snd (snd adapter_written)) ! 0 = foldl outbound_step \<lparr>os_lifecycle = LcOpen, os_chunks = chunks_new 2 (Suc 0)\<rparr> ops
     \<and> accepted_bytes_of \<lparr>os_lifecycle = LcOpen, os_chunks = chunks_new 2 (Suc 0)\<rparr> ops = [1, 2, 3]"
proof -
  obtain s m where w: "adapter_written = ([1, 2, 3], s, m)" using adapter_written_eval by blast
  have s: "bn_ring s = 0" using w unfolding adapter_written_eval by auto
  from writes_are_the_stream [OF w [unfolded adapter_written_def]] quiet_tick_ok s show ?thesis
    unfolding w by (simp add: adapter_open_ring)
qed

text \<open>The wait of the write is given up, and the sender dropped.\<close>

theorem dropped_sender_released_witness:
  "stream_gone 5 (sender_stream_drop (fst (snd adapter_written)) (snd (snd adapter_written)))"
proof -
  obtain bs s m where w: "adapter_written = (bs, s, m)" by (metis prod_cases3)
  from dropped_sender_released [OF w [unfolded adapter_written_def]] quiet_tick_ok show ?thesis unfolding w by simp
qed

definition adapter_sent :: "outbound_lifecycle \<Rightarrow> blob_manager" where
  "adapter_sent l = adapter_open\<lparr>bm_rings := [\<lparr>os_lifecycle = l, os_chunks = chunks_new 2 (Suc 0)\<rparr>]\<rparr>"

lemma adapter_chunks: "is_drained (chunks_new 2 (Suc 0))"
  by (simp add: is_drained_def live_chunk_count_def chunks_new_def)

lemmas shutdown_eval = start_shutdown_def poll_pending_def lock_turn_def seal_turn_def ring_seal_pass_def lc_final_chunk_materialized_def
  check_complete_def sender_cleanup_def on_ring_def notify_work_def

lemma adapter_shutdown:
  "poll_shutdown [quiet_tick 0, quiet_tick 0, quiet_tick 0] (sender_stream_new 5 0 0) (adapter_sent LcCompleted) =
     (PollReady (Inr ()), (sender_stream_new 5 0 0)\<lparr>bn_closed := True\<rparr>, unregister_outbound_stream (notify_work (adapter_sent LcCompleted)) 5)"
  "poll_shutdown [quiet_tick 0, quiet_tick 0, quiet_tick 0] (sender_stream_new 5 0 0) (adapter_sent LcAwaitingComplete) =
     (PollReady (Inl (error_to_string (err_new SendTimeout))), (sender_stream_new 5 0 0)\<lparr>bn_closed := True\<rparr>,
      unregister_outbound_stream (notify_work (adapter_sent LcAwaitingComplete)) 5)"
  by (simp_all add: shutdown_eval adapter_sent_def adapter_chunks sender_stream_new_def)

theorem shutdown_settles_witness:
  "stream_gone 5 (unregister_outbound_stream (notify_work (adapter_sent LcCompleted)) 5)
   \<and> is_drained (os_chunks (bm_rings (unregister_outbound_stream (notify_work (adapter_sent LcCompleted)) 5) ! 0))"
  using shutdown_settles [OF _ adapter_shutdown(1), of "[]" 5 0 0 "adapter_sent LcCompleted" "[]"] by simp

theorem failed_shutdown_forgotten_witness:
  "fst (poll_shutdown [quiet_tick 0] ((sender_stream_new 5 0 0)\<lparr>bn_closed := True\<rparr>)
      (unregister_outbound_stream (notify_work (adapter_sent LcAwaitingComplete)) 5)) = PollReady (Inr ())"
  using failed_shutdown_forgotten [OF _ adapter_shutdown(2), of "[]" 5 0 0 "adapter_sent LcAwaitingComplete" "[]" "quiet_tick 0"] by simp

text \<open>Three bytes fill the window and leave one staged; the shutdown is polled for a long time.\<close>

theorem shutdown_spins_witness:
  "\<exists>s' m' fut. poll_shutdown (map quiet_tick [0..<100]) (fst (snd adapter_written)) (snd (snd adapter_written)) = (PollPending, s', m')
     \<and> bn_pending s' = Some (KindShutdown, fut) \<and> never_waits fut"
proof -
  obtain bs s m where w: "adapter_written = (bs, s, m)" by (metis prod_cases3)
  then have s: "s = sender_stream_new 5 0 10" and m: "bm_rings m = [snd (ring_try_push \<lparr>os_lifecycle = LcOpen, os_chunks = chunks_new 2 (Suc 0)\<rparr> True [1, 2, 3])]"
    unfolding adapter_written_eval by (auto simp: notify_work_def)
  have blocked: "seal_blocked (sender_ring s m)" unfolding s m by (simp add: seal_blocked_def ring_eval)
  from shutdown_spins [OF w [unfolded adapter_written_def] blocked, of "map quiet_tick [0..<100]"] s m show ?thesis unfolding w by simp
qed

text \<open>A chunk of two bytes is read in two reads of one byte.\<close>

definition adapter_arrived :: blob_manager where
  "adapter_arrived = (blob_manager_new adapter_tracker \<lparr>al_next = 9\<rparr> 4)
     \<lparr>bm_recv_rings := [\<lparr>in_chunk_size = 2, in_window_size = 4, in_next_expected = 0, in_next_deliver = 0, in_last_chunk_id = None, in_received = []\<rparr>],
      bm_receivers := [\<lparr>br_accepted = True, br_completed = False, br_error = None, br_completion_ttl = 8, br_idle_timeout = 8\<rparr>],
      bm_inbound := blob_inbound_new\<lparr>bi_recv_streams := [(5, \<lparr>rs_taberna_id = 1, rs_receiver = 0, rs_ring = 0, rs_deadline = 9\<rparr>)]\<rparr>\<rparr>"

definition chunk_tick :: adapter_tick where
  "chunk_tick = (quiet_tick 0)\<lparr>at_others := (\<lambda>m. m\<lparr>bm_recv_rings := (bm_recv_rings m)[0 := inbound_step (bm_recv_rings m ! 0) (InsertChunk 0 [1, 2] False)]\<rparr>)\<rparr>"

lemma chunk_tick_feeds: "feeds 5 0 chunk_tick"
  by (auto simp: feeds_def chunk_tick_def recv_ring_def fed_def inbound_output_def intro!: exI [of _ "[InsertChunk 0 [1, 2] False]"])

definition adapter_read :: "u8 list \<times> blob_receiver_stream \<times> blob_manager" where
  "adapter_read = receiver_calls [([chunk_tick], Suc 0), ([], Suc 0)] (receiver_stream_new 5 0) adapter_arrived"

lemma adapter_read_eval: "fst adapter_read = [1, 2]" "unread (fst (snd adapter_read)) = []"
  by (simp_all add: adapter_read_def adapter_arrived_def chunk_tick_def receiver_stream_new_def start_read_def read_attempt_def try_receiver_read_def
      recv_ring_def blob_inbound_new_def inbound_step_def insert_chunk_def finish_insert_def advance_expected.simps take_next_def sat_add_def
      poll_copy_def copy_current_def unread_def blob_manager_new_def)

abbreviation adapter_ring :: inbound_state where
  "adapter_ring \<equiv> \<lparr>in_chunk_size = 2, in_window_size = 4, in_next_expected = 0, in_next_deliver = 0, in_last_chunk_id = None, in_received = []\<rparr>"

theorem reads_are_the_stream_witness:
  "\<exists>ops. bm_recv_rings (snd (snd adapter_read)) ! 0 = foldl inbound_step adapter_ring ops \<and> [1, 2] = concat (inbound_outputs adapter_ring ops)"
proof -
  obtain got s m where w: "adapter_read = (got, s, m)" by (metis prod_cases3)
  have got: "got = [1, 2]" "unread s = []" using adapter_read_eval unfolding w by simp_all
  have ring: "bm_recv_rings adapter_arrived ! 0 = adapter_ring" by (simp add: adapter_arrived_def)
  have "recv_ring adapter_arrived 5 = Some 0" "0 < length (bm_recv_rings adapter_arrived)"
    by (simp_all add: adapter_arrived_def recv_ring_def blob_inbound_new_def)
  from reads_are_the_stream [OF w [unfolded adapter_read_def] this(2,1), of 2 4] chunk_tick_feeds show ?thesis
    unfolding ring w got by (simp add: inbound_new_def)
qed

end
