(* ===== verification/Callis_Inbound.thy ===== *)
theory Callis_Inbound
  imports Blob_Contract Frame
begin

text \<open>
  The receiving half of a callis, one connection with the peer (\<^verbatim>\<open>src/crates/peering/src/transport/callis.rs\<close>
  and \<open>handle_blob_request\<close> of \<^verbatim>\<open>blob/receive.rs\<close>): the handling of each frame, the waiters for the answers
  of the application, what is sent back, and the reader's loop around them.

  The shared session and blob manager are the record \<open>callis_io\<close>, which also has the value of the
  watch channel that cancels the reader. The one identifier allocator of a peer is held by both; the
  copy of the session follows the manager's. One-shot channels are numbers; what they hold at a call is an
  argument, as are the clock, the configuration and the number of a new channel. The two debug and trace
  outputs and the observability counters have no influence on the state.
\<close>

section \<open>Data\<close>

datatype callis_kind = CallisPrimary | CallisBlob

datatype 'a try_recv = RecvOk 'a | RecvClosed | RecvEmpty

record blob_accept_pending =
  ba_dst_taberna :: taberna_id
  ba_accept_rx :: nat
  ba_receiver_state :: nat
  ba_send_timeout :: duration

datatype inbound_waiter =
    MessageWaiter taberna_id nat
  | BlobAcceptWaiter blob_accept_pending
  | BlobCallisWaiter blob_accept_pending instant
  | DuplicateWaiter nat

datatype inbound_outcome = OutcomeAck peer_message_id | OutcomeError peer_message_id aurelia_error | OutcomeSkip

datatype inbound_action = ActionNone | ActionOutcome inbound_outcome | ActionWaiter peer_message_id inbound_waiter

datatype blob_request_outcome = RequestAck | RequestSkip

datatype blob_request_schedule =
    RequestImmediate blob_request_outcome
  | RequestPending blob_accept_pending
  | RequestPendingDuplicate nat

record inbound_callis_state =
  ic_waiters :: "(peer_message_id \<times> inbound_waiter) list"
  ic_cancel_reason :: cancel_reason

definition inbound_callis_new :: inbound_callis_state where
  "inbound_callis_new = \<lparr>ic_waiters = [], ic_cancel_reason = CancelNone\<rparr>"

text \<open>The values of the configuration that a callis reads.\<close>

record callis_config =
  cc_session :: session_config
  cc_chunk_size :: u32
  cc_ack_window :: u32
  cc_inbound_buffer_bytes :: nat

record callis_io =
  io_session :: peer_session
  io_blob :: blob_manager
  io_cancel :: cancel_reason

definition on_session :: "callis_io \<Rightarrow> (peer_session \<Rightarrow> peer_session) \<Rightarrow> callis_io" where
  "on_session io f = io\<lparr>io_session := f (io_session io)\<rparr>"

definition on_blob :: "callis_io \<Rightarrow> (blob_manager \<Rightarrow> blob_manager) \<Rightarrow> callis_io" where
  "on_blob io f = io\<lparr>io_blob := f (io_blob io)\<rparr>"

definition complete_entry :: "callis_io \<Rightarrow> peer_message_id \<Rightarrow> unit result \<Rightarrow> callis_config \<Rightarrow> callis_io" where
  "complete_entry io peer_msg_id r cfg = on_session io (\<lambda>s. session_dedupe_complete s peer_msg_id r (cc_session cfg))"

section \<open>Cancellation\<close>

definition set_cancel_reason :: "callis_io \<Rightarrow> cancel_reason \<Rightarrow> callis_io" where
  "set_cancel_reason io reason = (if io_cancel io = CancelNone then io\<lparr>io_cancel := reason\<rparr> else io)"

definition record_cancel_reason ::
  "inbound_callis_state \<Rightarrow> callis_io \<Rightarrow> cancel_reason \<Rightarrow> inbound_callis_state \<times> callis_io" where
  "record_cancel_reason ic io reason =
     (if ic_cancel_reason ic = CancelNone then ic\<lparr>ic_cancel_reason := reason\<rparr> else ic, set_cancel_reason io reason)"

definition observe_cancel_reason :: "inbound_callis_state \<Rightarrow> cancel_reason \<Rightarrow> inbound_callis_state" where
  "observe_cancel_reason ic reason = ic\<lparr>ic_cancel_reason := reason\<rparr>"

definition insert_waiter :: "inbound_callis_state \<Rightarrow> peer_message_id \<Rightarrow> inbound_waiter \<Rightarrow> inbound_callis_state" where
  "insert_waiter ic peer_msg_id waiter = ic\<lparr>ic_waiters := AList.update peer_msg_id waiter (ic_waiters ic)\<rparr>"

fun waiter_deadline :: "inbound_waiter \<Rightarrow> instant option" where
  "waiter_deadline (BlobCallisWaiter _ deadline) = Some deadline"
| "waiter_deadline _ = None"

definition next_blob_deadline :: "(peer_message_id \<times> inbound_waiter) list \<Rightarrow> instant option" where
  "next_blob_deadline waiters =
     (case List.map_filter (\<lambda>(_, waiter). waiter_deadline waiter) waiters of
        [] \<Rightarrow> None
      | d # ds \<Rightarrow> Some (foldl min d ds))"

text \<open>The entry of a cancelled message: failed when the peer is to be told, forgotten otherwise.\<close>

definition cancel_entry :: "callis_io \<Rightarrow> peer_message_id \<Rightarrow> cancel_reason \<Rightarrow> callis_config \<Rightarrow> callis_io" where
  "cancel_entry io peer_msg_id reason cfg =
     (if should_error reason then complete_entry io peer_msg_id (Inl (err_new PeerUnavailable)) cfg
      else on_session io (\<lambda>s. session_dedupe_abandon s peer_msg_id))"

fun cancel_waiter :: "callis_io \<Rightarrow> peer_message_id \<Rightarrow> inbound_waiter \<Rightarrow> cancel_reason \<Rightarrow> callis_config \<Rightarrow> callis_io" where
  "cancel_waiter io peer_msg_id (MessageWaiter _ _) reason cfg = cancel_entry io peer_msg_id reason cfg"
| "cancel_waiter io peer_msg_id (BlobAcceptWaiter _) reason cfg =
     cancel_entry (on_blob io (\<lambda>b. release_inbound b peer_msg_id)) peer_msg_id reason cfg"
| "cancel_waiter io peer_msg_id (BlobCallisWaiter _ _) reason cfg =
     cancel_entry (on_blob io (\<lambda>b. drop_pending_request b peer_msg_id)) peer_msg_id reason cfg"
| "cancel_waiter io peer_msg_id (DuplicateWaiter _) reason cfg = io"

definition cancel_waiters ::
  "(peer_message_id \<times> inbound_waiter) list \<Rightarrow> callis_io \<Rightarrow> cancel_reason \<Rightarrow> callis_config
     \<Rightarrow> (peer_message_id \<times> inbound_waiter) list \<times> callis_io" where
  "cancel_waiters waiters io reason cfg =
     ([], foldl (\<lambda>io (peer_msg_id, waiter). cancel_waiter io peer_msg_id waiter reason cfg) io waiters)"

section \<open>Waiters whose answer has come\<close>

datatype accept_ready = ReadyAccepted | ReadyRejected aurelia_error | ReadyClosed

datatype ready_kind = ReadyMessage accept_ready | ReadyBlob accept_ready | ReadyDuplicate dedupe_decision

fun accept_ready_of :: "unit result try_recv \<Rightarrow> accept_ready option" where
  "accept_ready_of (RecvOk (Inr _)) = Some ReadyAccepted"
| "accept_ready_of (RecvOk (Inl err)) = Some (ReadyRejected err)"
| "accept_ready_of RecvClosed = Some ReadyClosed"
| "accept_ready_of RecvEmpty = None"

text \<open>What the channels hold: the answers of the application and the decisions on duplicates.\<close>

record channels =
  chan_accept :: "nat \<Rightarrow> unit result try_recv"
  chan_decision :: "nat \<Rightarrow> dedupe_decision try_recv"

fun waiter_ready :: "channels \<Rightarrow> inbound_waiter \<Rightarrow> ready_kind option" where
  "waiter_ready ch (MessageWaiter _ rx) = map_option ReadyMessage (accept_ready_of (chan_accept ch rx))"
| "waiter_ready ch (BlobAcceptWaiter p) = map_option ReadyBlob (accept_ready_of (chan_accept ch (ba_accept_rx p)))"
| "waiter_ready ch (DuplicateWaiter rx) =
     (case chan_decision ch rx of
        RecvOk decision \<Rightarrow> Some (ReadyDuplicate decision)
      | RecvClosed \<Rightarrow> Some (ReadyDuplicate DecideAbandoned)
      | RecvEmpty \<Rightarrow> None)"
| "waiter_ready ch (BlobCallisWaiter _ _) = None"

definition collect_ready_waiters ::
  "channels \<Rightarrow> (peer_message_id \<times> inbound_waiter) list \<Rightarrow> (peer_message_id \<times> ready_kind) list" where
  "collect_ready_waiters ch waiters =
     List.map_filter (\<lambda>(peer_msg_id, waiter). map_option (Pair peer_msg_id) (waiter_ready ch waiter)) waiters"

fun drain_duplicate_waiter :: "peer_message_id \<Rightarrow> dedupe_decision \<Rightarrow> inbound_outcome" where
  "drain_duplicate_waiter peer_msg_id DecideAck = OutcomeAck peer_msg_id"
| "drain_duplicate_waiter peer_msg_id (DecideError err) = OutcomeError peer_msg_id err"
| "drain_duplicate_waiter peer_msg_id DecideAbandoned = OutcomeSkip"

text \<open>An error of an inbound message: its entry is completed with it and it is the outcome.\<close>

definition reject_entry ::
  "callis_io \<Rightarrow> peer_message_id \<Rightarrow> aurelia_error \<Rightarrow> callis_config \<Rightarrow> inbound_outcome option \<times> callis_io" where
  "reject_entry io peer_msg_id err cfg = (Some (OutcomeError peer_msg_id err), complete_entry io peer_msg_id (Inl err) cfg)"

fun drain_message_waiter ::
  "peer_message_id \<Rightarrow> accept_ready \<Rightarrow> callis_io \<Rightarrow> callis_config \<Rightarrow> inbound_outcome option \<times> callis_io" where
  "drain_message_waiter peer_msg_id ReadyAccepted io cfg =
     (Some (OutcomeAck peer_msg_id), complete_entry io peer_msg_id (Inr ()) cfg)"
| "drain_message_waiter peer_msg_id (ReadyRejected err) io cfg = reject_entry io peer_msg_id err cfg"
| "drain_message_waiter peer_msg_id ReadyClosed io cfg = reject_entry io peer_msg_id (err_new RemoteTabernaRejected) cfg"

text \<open>The peer-state channel at a \<open>try_send\<close>.\<close>

datatype try_send = SendOk | SendFull | SendClosed

fun try_signal_peer_state_ensure :: "try_send \<Rightarrow> unit result" where
  "try_signal_peer_state_ensure SendOk = Inr ()"
| "try_signal_peer_state_ensure SendFull = Inr ()"
| "try_signal_peer_state_ensure SendClosed = Inl (err_new PeerUnavailable)"

definition fail_pending_receiver :: "callis_io \<Rightarrow> blob_accept_pending \<Rightarrow> aurelia_error \<Rightarrow> callis_io" where
  "fail_pending_receiver io p err = on_blob io (\<lambda>b. on_receiver b (ba_receiver_state p) (\<lambda>r. receiver_fail r err))"

text \<open>
  The stream of an accepted request is opened with the settings of the first callis, in both drains.
\<close>

definition open_accepted ::
  "peer_message_id \<Rightarrow> blob_accept_pending \<Rightarrow> callis_io \<Rightarrow> callis_config \<Rightarrow> instant \<Rightarrow> inbound_outcome option \<times> callis_io" where
  "open_accepted peer_msg_id p io cfg now =
     (case current_settings (io_blob io) of
        None \<Rightarrow>
          let err = err_new BlobCallisWithoutPrimary
          in reject_entry (fail_pending_receiver io p err) peer_msg_id err cfg
      | Some settings \<Rightarrow>
          (case activate_pending_request (io_blob io) peer_msg_id settings now of
             (Inl err, b) \<Rightarrow> reject_entry (fail_pending_receiver (io\<lparr>io_blob := b\<rparr>) p err) peer_msg_id err cfg
           | (Inr _, b) \<Rightarrow> (Some (OutcomeAck peer_msg_id), complete_entry (io\<lparr>io_blob := b\<rparr>) peer_msg_id (Inr ()) cfg)))"

fun drain_blob_accept_waiter ::
  "peer_message_id \<Rightarrow> blob_accept_pending \<Rightarrow> accept_ready \<Rightarrow> (peer_message_id \<times> inbound_waiter) list \<Rightarrow> callis_io \<Rightarrow>
   callis_config \<Rightarrow> try_send \<Rightarrow> instant \<Rightarrow> inbound_outcome option \<times> (peer_message_id \<times> inbound_waiter) list \<times> callis_io" where
  "drain_blob_accept_waiter peer_msg_id p ReadyAccepted waiters io cfg ensure now =
     (let io = on_blob io (\<lambda>b. on_receiver b (ba_receiver_state p) (\<lambda>r. r\<lparr>br_accepted := True\<rparr>));
          io = on_blob io (\<lambda>b. add_pending_request b peer_msg_id (ba_dst_taberna p) (ba_receiver_state p))
      in if \<not> ss_active (io_session io)
         then let io = on_blob io (\<lambda>b. drop_pending_request b peer_msg_id);
                  err = err_new BlobCallisWithoutPrimary;
                  (outcome, io) = reject_entry (fail_pending_receiver io p err) peer_msg_id err cfg
              in (outcome, waiters, io)
         else if \<not> has_callis (io_blob io)
         then case try_signal_peer_state_ensure ensure of
                Inl err \<Rightarrow>
                  let (outcome, io) = reject_entry (fail_pending_receiver io p err) peer_msg_id err cfg
                  in (outcome, waiters, io)
              | Inr _ \<Rightarrow> (None, AList.update peer_msg_id (BlobCallisWaiter p (now + ba_send_timeout p)) waiters, io)
         else let (outcome, io) = open_accepted peer_msg_id p io cfg now in (outcome, waiters, io))"
| "drain_blob_accept_waiter peer_msg_id p (ReadyRejected err) waiters io cfg ensure now =
     (let (outcome, io) = reject_entry (on_blob io (\<lambda>b. release_inbound b peer_msg_id)) peer_msg_id err cfg
      in (outcome, waiters, io))"
| "drain_blob_accept_waiter peer_msg_id p ReadyClosed waiters io cfg ensure now =
     (let (outcome, io) = reject_entry (on_blob io (\<lambda>b. release_inbound b peer_msg_id)) peer_msg_id
            (err_new RemoteTabernaRejected) cfg
      in (outcome, waiters, io))"


text \<open>What a drain has so far: the outcomes, the waiters that are left, and the state.\<close>

type_synonym drained = "inbound_outcome list \<times> (peer_message_id \<times> inbound_waiter) list \<times> callis_io"

fun push_outcome :: "inbound_outcome list \<Rightarrow> inbound_outcome option \<Rightarrow> inbound_outcome list" where
  "push_outcome outcomes (Some outcome) = outcomes @ [outcome]"
| "push_outcome outcomes None = outcomes"

definition drain_ready_waiter :: "callis_config \<Rightarrow> try_send \<Rightarrow> instant \<Rightarrow> drained \<Rightarrow> peer_message_id \<times> ready_kind \<Rightarrow> drained" where
  "drain_ready_waiter cfg ensure now d ready =
     (case d of (outcomes, waiters, io) \<Rightarrow>
        let peer_msg_id = fst ready
        in case map_of waiters peer_msg_id of
             None \<Rightarrow> d
           | Some waiter \<Rightarrow>
               let rest = AList.delete peer_msg_id waiters
               in case (waiter, snd ready) of
                    (MessageWaiter _ _, ReadyMessage result) \<Rightarrow>
                      let (outcome, io) = drain_message_waiter peer_msg_id result io cfg
                      in (push_outcome outcomes outcome, rest, io)
                  | (BlobAcceptWaiter p, ReadyBlob result) \<Rightarrow>
                      let (outcome, rest, io) = drain_blob_accept_waiter peer_msg_id p result rest io cfg ensure now
                      in (push_outcome outcomes outcome, rest, io)
                  | (DuplicateWaiter _, ReadyDuplicate result) \<Rightarrow>
                      (outcomes @ [drain_duplicate_waiter peer_msg_id result], rest, io)
                  | _ \<Rightarrow> (outcomes, AList.update peer_msg_id waiter rest, io))"

definition drain_accept_waiters ::
  "(peer_message_id \<times> inbound_waiter) list \<Rightarrow> callis_io \<Rightarrow> channels \<Rightarrow> callis_config \<Rightarrow> try_send \<Rightarrow> instant \<Rightarrow> drained" where
  "drain_accept_waiters waiters io ch cfg ensure now =
     foldl (drain_ready_waiter cfg ensure now) ([], waiters, io) (collect_ready_waiters ch waiters)"

definition drain_blob_callis_waiter :: "callis_config \<Rightarrow> instant \<Rightarrow> drained \<Rightarrow> peer_message_id \<Rightarrow> drained" where
  "drain_blob_callis_waiter cfg now d peer_msg_id =
     (case d of (outcomes, waiters, io) \<Rightarrow>
        case map_of waiters peer_msg_id of
          Some (BlobCallisWaiter p deadline) \<Rightarrow>
            let rest = AList.delete peer_msg_id waiters
            in if now \<ge> deadline
               then let io = on_blob io (\<lambda>b. drop_pending_request b peer_msg_id);
                        err = err_new SendTimeout;
                        (outcome, io) = reject_entry (fail_pending_receiver io p err) peer_msg_id err cfg
                    in (push_outcome outcomes outcome, rest, io)
               else if has_callis (io_blob io)
               then let (outcome, io) = open_accepted peer_msg_id p io cfg now
                    in (push_outcome outcomes outcome, rest, io)
               else (outcomes, AList.update peer_msg_id (BlobCallisWaiter p deadline) rest, io)
        | _ \<Rightarrow> (outcomes, AList.delete peer_msg_id waiters, io))"

definition drain_blob_callis_waiters ::
  "(peer_message_id \<times> inbound_waiter) list \<Rightarrow> callis_io \<Rightarrow> callis_config \<Rightarrow> instant \<Rightarrow> drained" where
  "drain_blob_callis_waiters waiters io cfg now =
     foldl (drain_blob_callis_waiter cfg now) ([], waiters, io)
       (map fst (filter (\<lambda>(_, waiter). waiter_deadline waiter \<noteq> None) waiters))"

definition drain_ready ::
  "inbound_callis_state \<Rightarrow> callis_io \<Rightarrow> channels \<Rightarrow> callis_config \<Rightarrow> try_send \<Rightarrow> instant
     \<Rightarrow> inbound_outcome list \<times> inbound_callis_state \<times> callis_io" where
  "drain_ready ic io ch cfg ensure now =
     (let (outcomes, waiters, io) = drain_accept_waiters (ic_waiters ic) io ch cfg ensure now;
          (outcomes', waiters, io) = drain_blob_callis_waiters waiters io cfg now
      in (outcomes @ outcomes', ic\<lparr>ic_waiters := waiters\<rparr>, io))"

definition cancel_all ::
  "inbound_callis_state \<Rightarrow> callis_io \<Rightarrow> cancel_reason \<Rightarrow> callis_config \<Rightarrow> inbound_callis_state \<times> callis_io" where
  "cancel_all ic io reason cfg =
     (let (waiters, io) = cancel_waiters (ic_waiters ic) io reason cfg in (ic\<lparr>ic_waiters := waiters\<rparr>, io))"

section \<open>Sending what an inbound frame calls for\<close>

definition enqueue_blob_response_write ::
  "blob_manager \<Rightarrow> peer_message_id option \<Rightarrow> outbound_frame \<Rightarrow> bool \<times> blob_manager" where
  "enqueue_blob_response_write b stream_id frame =
     (case frame of
        FrameAck peer_msg_id \<Rightarrow> (True, snd (enqueue_blob_write b (LeaseAck peer_msg_id)))
      | FrameControl msg_type peer_msg_id payload \<Rightarrow>
          if msg_type = MSG_ERROR then (True, snd (enqueue_blob_write b (LeaseError peer_msg_id payload)))
          else if msg_type = MSG_BLOB_TRANSFER_COMPLETE
          then let stream_id = (case stream_id of
                     Some stream_id \<Rightarrow> stream_id
                   | None \<Rightarrow> (case blob_complete_from_bytes payload of
                                Inr complete \<Rightarrow> bcomp_request_msg_id complete
                              | Inl _ \<Rightarrow> peer_msg_id))
               in (True, snd (enqueue_blob_write b (LeaseFinish stream_id peer_msg_id payload)))
          else (False, b)
      | FrameMessage _ \<Rightarrow> (False, b))"

definition send_blob_response_frame :: "blob_manager \<Rightarrow> peer_message_id \<Rightarrow> outbound_frame \<Rightarrow> blob_manager" where
  "send_blob_response_frame b stream_id frame = snd (enqueue_blob_response_write b (Some stream_id) frame)"

definition respond_with_blob :: "blob_manager \<Rightarrow> peer_message_id \<Rightarrow> 'a result \<Rightarrow> 'a option \<times> blob_manager" where
  "respond_with_blob b peer_msg_id r =
     (case r of
        Inr value \<Rightarrow> (Some value, send_blob_response_frame b peer_msg_id (FrameAck peer_msg_id))
      | Inl err \<Rightarrow>
          (None, send_blob_response_frame b peer_msg_id (FrameControl MSG_ERROR peer_msg_id (error_frame_payload err))))"

text \<open>
  \<open>send_inbound_outcome\<close> with its closure \<open>send_a1\<close>; \<open>primary\<close> says whether the task has the dispatch
  manager, which is the session's queue.
\<close>

definition send_a1 :: "callis_kind \<Rightarrow> bool \<Rightarrow> callis_io \<Rightarrow> outbound_frame \<Rightarrow> callis_config \<Rightarrow> instant \<Rightarrow> callis_io" where
  "send_a1 callis primary io frame cfg now =
     (if callis = CallisPrimary \<and> primary
      then on_session io (\<lambda>s. s\<lparr>ss_dispatch := enqueue_a1_frame (ss_dispatch s) frame (unat (cf_send_queue_size (cc_session cfg))) now\<rparr>)
      else if callis = CallisBlob then on_blob io (\<lambda>b. snd (enqueue_blob_response_write b None frame))
      else io)"

fun send_inbound_outcome :: "callis_kind \<Rightarrow> bool \<Rightarrow> callis_config \<Rightarrow> instant \<Rightarrow> callis_io \<Rightarrow> inbound_outcome \<Rightarrow> callis_io" where
  "send_inbound_outcome callis primary cfg now io (OutcomeAck peer_msg_id) =
     send_a1 callis primary io (FrameAck peer_msg_id) cfg now"
| "send_inbound_outcome callis primary cfg now io (OutcomeError peer_msg_id err) =
     send_a1 callis primary io (FrameControl MSG_ERROR peer_msg_id (error_frame_payload err)) cfg now"
| "send_inbound_outcome callis primary cfg now io OutcomeSkip = io"


section \<open>Blob requests\<close>

text \<open>
  An inbox takes a message with the receiver of its blob, if any, and the reader's notifier; \<open>w\<close> is the
  state of the inboxes. A receiver that an inbox refuses is dropped, which is the separate task
  \<^const>\<open>receiver_stream_drop\<close>.
\<close>

type_synonym ('i, 'w) inbox_sink =
  "'i \<Rightarrow> message_type \<Rightarrow> u8 list \<Rightarrow> nat option \<Rightarrow> nat option \<Rightarrow> 'w \<Rightarrow> nat result \<times> 'w"

definition new_receiver :: "callis_config \<Rightarrow> blob_receiver_state" where
  "new_receiver cfg =
     \<lparr>br_accepted = False, br_completed = False, br_error = None,
      br_completion_ttl = cf_send_timeout (cc_session cfg) * 2, br_idle_timeout = cf_send_timeout (cc_session cfg) * 2\<rparr>"

definition handle_blob_request ::
  "'i taberna_registry \<Rightarrow> ('i, 'w) inbox_sink \<Rightarrow> callis_config \<Rightarrow> wire_header \<Rightarrow> u8 list \<Rightarrow> nat option \<Rightarrow> nat \<Rightarrow> callis_io \<Rightarrow> 'w \<Rightarrow>
   blob_request_schedule result \<times> callis_io \<times> 'w" where
  "handle_blob_request registry sink cfg header payload notify tx io w =
     (let peer_msg_id = wh_peer_msg_id header;
          (b, s) = session_dedupe_begin (io_session io) peer_msg_id tx notify;
          io = io\<lparr>io_session := s\<rparr>
      in case b of
           BeginDuplicate decision \<Rightarrow>
             (case decision of
                DecideAck \<Rightarrow> Inr (RequestImmediate RequestAck)
              | DecideError err \<Rightarrow> Inl err
              | DecideAbandoned \<Rightarrow> Inr (RequestImmediate RequestSkip), io, w)
         | BeginPendingDuplicate rx \<Rightarrow> (Inr (RequestPendingDuplicate rx), io, w)
         | BeginNew \<Rightarrow>
             (case resolve_local registry (wh_dst_taberna header) of
                None \<Rightarrow>
                  let err = err_new UnknownTaberna in (Inl err, complete_entry io peer_msg_id (Inl err) cfg, w)
              | Some inbox \<Rightarrow>
                  let reservation_bytes = sat_mul (unat (cc_chunk_size cfg)) (unat (cc_ack_window cfg))
                  in case reserve_inbound (io_blob io) peer_msg_id reservation_bytes (cc_inbound_buffer_bytes cfg) of
                       (False, blob) \<Rightarrow>
                         let err = blob_buffer_full_error ''inbound'' (cc_inbound_buffer_bytes cfg)
                         in (Inl err, complete_entry (io\<lparr>io_blob := blob\<rparr>) peer_msg_id (Inl err) cfg, w)
                     | (True, blob) \<Rightarrow>
                         let receiver_state = length (bm_receivers blob);
                             io = io\<lparr>io_blob := blob\<lparr>bm_receivers := bm_receivers blob @ [new_receiver cfg]\<rparr>\<rparr>;
                             (r, w) = sink inbox (wh_msg_type header) payload (Some receiver_state) notify w
                         in case r of
                              Inl err \<Rightarrow>
                                (Inl err, complete_entry (on_blob io (\<lambda>b. release_inbound b peer_msg_id)) peer_msg_id (Inl err) cfg, w)
                            | Inr accept_rx \<Rightarrow>
                                (Inr (RequestPending \<lparr>ba_dst_taberna = wh_dst_taberna header, ba_accept_rx = accept_rx,
                                        ba_receiver_state = receiver_state, ba_send_timeout = cf_send_timeout (cc_session cfg)\<rparr>),
                                 io, w)))"

section \<open>Frames\<close>

definition disallows_flags :: "message_type \<Rightarrow> bool" where
  "disallows_flags msg_type \<longleftrightarrow>
     msg_type = MSG_ACK \<or> msg_type = MSG_ERROR \<or> msg_type = MSG_CLOSE \<or> msg_type = MSG_KEEPALIVE \<or> msg_type = MSG_RESERVED_7
     \<or> msg_type = MSG_BLOB_TRANSFER_CHUNK \<or> msg_type = MSG_BLOB_TRANSFER_COMPLETE"

abbreviation violation :: "aurelia_error" where
  "violation \<equiv> err_new ProtocolViolation"

definition handle_error_frame :: "(u8 list \<Rightarrow> string) \<Rightarrow> wire_header \<Rightarrow> u8 list \<Rightarrow> callis_io \<Rightarrow> inbound_action result \<times> callis_io" where
  "handle_error_frame utf8_text header payload io =
     (case error_payload_from_bytes utf8_text payload of
        Inl e \<Rightarrow> (Inl e, io)
      | Inr error \<Rightarrow>
          (case error_from_u32 (ep_error_id error) of
             None \<Rightarrow> (Inl (with_message ProtocolViolation (''unknown inbound error_id '' @ show_nat (unat (ep_error_id error)))), io)
           | Some kind \<Rightarrow>
               let err = with_message kind (ep_message error);
                   io = on_session io (\<lambda>s. snd (handle_error s (wh_peer_msg_id header) err))
               in (Inr ActionNone, on_blob io (\<lambda>b. blob_handle_error b (wh_peer_msg_id header) err))))"

text \<open>\<open>None\<close> is a chunk handler that does not return, which its ring buffer excludes.\<close>

definition handle_chunk_frame ::
  "callis_config \<Rightarrow> nat \<Rightarrow> wire_header \<Rightarrow> u8 list \<Rightarrow> instant \<Rightarrow> callis_io \<Rightarrow> (inbound_action result \<times> callis_io) option" where
  "handle_chunk_frame cfg callis_id header payload now io =
     (let idle_timeout = cf_send_timeout (cc_session cfg) * 2
      in case settings_for_callis (io_blob io) callis_id of
           None \<Rightarrow> Some (Inl violation, io)
         | Some settings \<Rightarrow>
             (case handle_blob_transfer_chunk (io_blob io) payload idle_timeout (bs_ack_window_chunks settings)
                     (bs_chunk_size settings) now of
                None \<Rightarrow> None
              | Some (r, b) \<Rightarrow>
                  (case respond_with_blob b (wh_peer_msg_id header) r of
                     (Some (ChunkComplete stream_id), b) \<Rightarrow>
                       let (complete_id, b) = next_peer_msg_id b;
                           payload = blob_complete_to_bytes \<lparr>bcomp_request_msg_id = stream_id\<rparr>;
                           b = send_blob_response_frame b stream_id (FrameControl MSG_BLOB_TRANSFER_COMPLETE complete_id payload);
                           s = (io_session io)\<lparr>ss_allocator := bm_allocator b\<rparr>
                       in Some (Inr ActionNone, io\<lparr>io_blob := b, io_session := s\<rparr>)
                   | (_, b) \<Rightarrow> Some (Inr ActionNone, io\<lparr>io_blob := b\<rparr>))))"

definition handle_complete_frame :: "wire_header \<Rightarrow> u8 list \<Rightarrow> callis_io \<Rightarrow> inbound_action result \<times> callis_io" where
  "handle_complete_frame header payload io =
     (case blob_complete_from_bytes payload of
        Inl e \<Rightarrow> (Inl e, io)
      | Inr complete \<Rightarrow>
          (case handle_complete (io_blob io) (bcomp_request_msg_id complete) of
             (Inl e, b) \<Rightarrow> (Inl e, io\<lparr>io_blob := b\<rparr>)
           | (Inr _, b) \<Rightarrow>
               (Inr ActionNone,
                io\<lparr>io_blob := send_blob_response_frame b (bcomp_request_msg_id complete) (FrameAck (wh_peer_msg_id header))\<rparr>)))"


definition handle_request_frame ::
  "'i taberna_registry \<Rightarrow> ('i, 'w) inbox_sink \<Rightarrow> callis_config \<Rightarrow> bool \<Rightarrow> wire_header \<Rightarrow> u8 list \<Rightarrow> cancel_reason \<Rightarrow> nat \<Rightarrow> nat \<Rightarrow>
   callis_io \<Rightarrow> 'w \<Rightarrow> inbound_action result \<times> callis_io \<times> 'w" where
  "handle_request_frame registry sink cfg primary header payload cancel_reason accept_notify tx io w =
     (if \<not> primary then (Inl violation, io, w)
      else if cancel_reason \<noteq> CancelNone then (Inr (ActionOutcome OutcomeSkip), io, w)
      else let peer_msg_id = wh_peer_msg_id header;
               (schedule, io, w) = handle_blob_request registry sink cfg header payload (Some accept_notify) tx io w
           in (Inr (case schedule of
                 Inr (RequestImmediate RequestAck) \<Rightarrow> ActionOutcome (OutcomeAck peer_msg_id)
               | Inr (RequestImmediate RequestSkip) \<Rightarrow> ActionOutcome OutcomeSkip
               | Inr (RequestPending p) \<Rightarrow> ActionWaiter peer_msg_id (BlobAcceptWaiter p)
               | Inr (RequestPendingDuplicate rx) \<Rightarrow> ActionWaiter peer_msg_id (DuplicateWaiter rx)
               | Inl err \<Rightarrow> ActionOutcome (OutcomeError peer_msg_id err)), io, w))"

definition handle_message_frame ::
  "'i taberna_registry \<Rightarrow> ('i, 'w) inbox_sink \<Rightarrow> callis_config \<Rightarrow> wire_header \<Rightarrow> u8 list \<Rightarrow> cancel_reason \<Rightarrow> nat \<Rightarrow> nat \<Rightarrow>
   callis_io \<Rightarrow> 'w \<Rightarrow> inbound_action \<times> callis_io \<times> 'w" where
  "handle_message_frame registry sink cfg header payload cancel_reason accept_notify tx io w =
     (let peer_msg_id = wh_peer_msg_id header;
          message = \<lparr>pm_peer_msg_id = peer_msg_id, pm_src_taberna = wh_src_taberna header, pm_dst_taberna = wh_dst_taberna header,
                     pm_msg_type = wh_msg_type header, pm_flags = wh_flags header, pm_payload = payload\<rparr>
      in if cancel_reason \<noteq> CancelNone
         then (ActionOutcome (if should_error cancel_reason then OutcomeError peer_msg_id (err_new PeerUnavailable) else OutcomeSkip),
               io, w)
         else let (schedule, s, w) = receive_message_schedule (io_session io) message registry
                    (\<lambda>i t p n w. sink i t p None n w) w (Some accept_notify) tx (cc_session cfg);
                  io = io\<lparr>io_session := s\<rparr>
              in (case schedule of
                    ScheduleImmediate (ReceiveAck peer_msg_id) \<Rightarrow> ActionOutcome (OutcomeAck peer_msg_id)
                  | ScheduleImmediate (ReceiveError err) \<Rightarrow> ActionOutcome (OutcomeError peer_msg_id err)
                  | ScheduleImmediate ReceiveSkip \<Rightarrow> ActionOutcome OutcomeSkip
                  | SchedulePending dst_taberna accept_rx \<Rightarrow> ActionWaiter peer_msg_id (MessageWaiter dst_taberna accept_rx)
                  | SchedulePendingDuplicate rx \<Rightarrow> ActionWaiter peer_msg_id (DuplicateWaiter rx), io, w))"

text \<open>\<open>from_bits\<close> is the check of the flags' bits, which the crate \<open>bitflags\<close> generates.\<close>

definition handle_inbound_frame ::
  "'i taberna_registry \<Rightarrow> ('i, 'w) inbox_sink \<Rightarrow> (u8 list \<Rightarrow> string) \<Rightarrow> (u16 \<Rightarrow> u16 option) \<Rightarrow> callis_config \<Rightarrow> nat \<Rightarrow> bool \<Rightarrow> wire_header \<Rightarrow> u8 list \<Rightarrow>
   cancel_reason \<Rightarrow> nat \<Rightarrow> nat \<Rightarrow> instant \<Rightarrow> callis_io \<Rightarrow> 'w \<Rightarrow> (inbound_action result \<times> callis_io \<times> 'w) option" where
  "handle_inbound_frame registry sink utf8_text from_bits cfg callis_id primary header payload cancel_reason accept_notify tx now io w =
     (let msg_type = wh_msg_type header
      in case from_bits (wh_flags header) of
           None \<Rightarrow> Some (Inl violation, io, w)
         | Some flags \<Rightarrow>
             if flags AND WireFlags_RECONNECT = WireFlags_RECONNECT then Some (Inl violation, io, w)
             else if disallows_flags msg_type \<and> flags \<noteq> 0 then Some (Inl violation, io, w)
             else if msg_type = MSG_ACK
             then let io = on_session io (\<lambda>s. snd (handle_ack s (wh_peer_msg_id header)));
                      io = on_blob io (\<lambda>b. blob_handle_ack b (wh_peer_msg_id header))
                  in Some (Inr ActionNone, io, w)
             else if msg_type = MSG_ERROR
             then let (r, io) = handle_error_frame utf8_text header payload io in Some (r, io, w)
             else if msg_type = MSG_CLOSE
             then let io = set_cancel_reason io CancelRemoteClose; io = on_session io handle_close
                  in Some (Inl (err_new PeerUnavailable), io, w)
             else if msg_type = MSG_KEEPALIVE then Some (Inr ActionNone, io, w)
             else if msg_type = MSG_HELLO \<or> msg_type = MSG_HELLO_RESPONSE then Some (Inl violation, io, w)
             else if msg_type = MSG_RESERVED_7 then Some (Inl violation, io, w)
             else if msg_type = MSG_BLOB_TRANSFER_CHUNK
             then map_option (\<lambda>(r, io). (r, io, w)) (handle_chunk_frame cfg callis_id header payload now io)
             else if msg_type = MSG_BLOB_TRANSFER_COMPLETE
             then let (r, io) = handle_complete_frame header payload io in Some (r, io, w)
             else if flags AND WireFlags_BLOB = WireFlags_BLOB
             then Some (handle_request_frame registry sink cfg primary header payload cancel_reason accept_notify tx io w)
             else if flags = 0
             then let (action, io, w) = handle_message_frame registry sink cfg header payload cancel_reason accept_notify tx io w
                  in Some (Inr action, io, w)
             else Some (Inl violation, io, w))"

section \<open>The reader\<close>

text \<open>
  The state of the reader's task: its waiters, whether the read side is closed, whether it has left its
  loop, and the internal shutdown it signals to the writer.
\<close>

record reader =
  rd_inbound :: inbound_callis_state
  rd_read_closed :: bool
  rd_stopped :: bool
  rd_shutdown :: bool
  rd_io :: callis_io

datatype reader_event =
    EventShutdown bool
  | EventExternalShutdown bool
  | EventCancel
  | EventWake
  | EventFrame wire_header "u8 list" nat
  | EventReadEnd

definition close_reading :: "reader \<Rightarrow> cancel_reason \<Rightarrow> reader" where
  "close_reading r reason =
     (let (ic, io) = record_cancel_reason (rd_inbound r) (rd_io r) reason
      in r\<lparr>rd_read_closed := True, rd_inbound := ic, rd_io := io\<rparr>)"

text \<open>The top of the loop: what is ready is drained and sent, and a reader with nothing left to do ends.\<close>

definition reader_drain :: "callis_kind \<Rightarrow> bool \<Rightarrow> channels \<Rightarrow> callis_config \<Rightarrow> try_send \<Rightarrow> instant \<Rightarrow> reader \<Rightarrow> reader" where
  "reader_drain callis primary ch cfg ensure now r =
     (let (outcomes, ic, io) = drain_ready (rd_inbound r) (rd_io r) ch cfg ensure now;
          io = foldl (send_inbound_outcome callis primary cfg now) io outcomes
      in r\<lparr>rd_inbound := ic, rd_io := io, rd_stopped := rd_read_closed r \<and> ic_waiters ic = []\<rparr>)"

text \<open>
  The arms of the \<open>select\<close>. \<open>EventWake\<close> stands for the three arms that only wake the loop. A frame is
  read only while the read side is open.
\<close>

definition reader_frame ::
  "'i taberna_registry \<Rightarrow> ('i, 'w) inbox_sink \<Rightarrow> (u8 list \<Rightarrow> string) \<Rightarrow> (u16 \<Rightarrow> u16 option) \<Rightarrow> callis_config \<Rightarrow> nat \<Rightarrow> callis_kind \<Rightarrow> bool \<Rightarrow> nat \<Rightarrow>
   wire_header \<Rightarrow> u8 list \<Rightarrow> nat \<Rightarrow> instant \<Rightarrow> reader \<Rightarrow> 'w \<Rightarrow> (reader \<times> 'w) option" where
  "reader_frame registry sink utf8_text from_bits cfg callis_id callis primary accept_notify header payload tx now r w =
     (case handle_inbound_frame registry sink utf8_text from_bits cfg callis_id primary header payload
             (ic_cancel_reason (rd_inbound r)) accept_notify tx now (rd_io r) w of
        None \<Rightarrow> None
      | Some (res, io, w) \<Rightarrow>
          let r = r\<lparr>rd_io := io\<rparr>
          in Some (case res of
               Inr ActionNone \<Rightarrow> r
             | Inr (ActionOutcome outcome) \<Rightarrow> r\<lparr>rd_io := send_inbound_outcome callis primary cfg now io outcome\<rparr>
             | Inr (ActionWaiter peer_msg_id waiter) \<Rightarrow> r\<lparr>rd_inbound := insert_waiter (rd_inbound r) peer_msg_id waiter\<rparr>
             | Inl err \<Rightarrow>
                 let (ic, io) = record_cancel_reason (rd_inbound r) io CancelConnectionLost
                 in r\<lparr>rd_inbound := ic, rd_io := io, rd_shutdown := True, rd_stopped := True\<rparr>, w))"

definition reader_arm ::
  "'i taberna_registry \<Rightarrow> ('i, 'w) inbox_sink \<Rightarrow> (u8 list \<Rightarrow> string) \<Rightarrow> (u16 \<Rightarrow> u16 option) \<Rightarrow> callis_config \<Rightarrow> nat \<Rightarrow> callis_kind \<Rightarrow> bool \<Rightarrow> nat \<Rightarrow>
   instant \<Rightarrow> reader_event \<Rightarrow> reader \<Rightarrow> 'w \<Rightarrow> (reader \<times> 'w) option" where
  "reader_arm registry sink utf8_text from_bits cfg callis_id callis primary accept_notify now ev r w =
     (case ev of
        EventShutdown v \<Rightarrow> Some (if v then close_reading r CancelConnectionLost else r, w)
      | EventExternalShutdown v \<Rightarrow> Some (if v then close_reading r CancelLocalShutdown else r, w)
      | EventCancel \<Rightarrow>
          let reason = io_cancel (rd_io r);
              ic = observe_cancel_reason (rd_inbound r) reason
          in Some (if reason \<noteq> CancelNone
                   then let (ic, io) = cancel_all ic (rd_io r) reason cfg in r\<lparr>rd_inbound := ic, rd_io := io\<rparr>
                   else r\<lparr>rd_inbound := ic\<rparr>, w)
      | EventWake \<Rightarrow> Some (r, w)
      | EventFrame header payload tx \<Rightarrow>
          if rd_read_closed r then Some (r, w)
          else reader_frame registry sink utf8_text from_bits cfg callis_id callis primary accept_notify header payload tx now r w
      | EventReadEnd \<Rightarrow>
          if rd_read_closed r then Some (r, w)
          else Some ((close_reading r CancelConnectionLost)\<lparr>rd_shutdown := True\<rparr>, w))"

end
