(* ===== verification/Callis_Contract.thy ===== *)
theory Callis_Contract
  imports Callis_Inbound
begin

text \<open>
  What the receiving half of a callis guarantees. A message that is being delivered has an entry in the
  session's table of pending deliveries, and the reader that took it has a waiter for the application's
  answer. The central invariant is that the entries a reader owes an outcome for are exactly its waiters:
  draining and cancelling settle both together, so that a reader which ends after its last waiter leaves no
  entry behind, while other calles work on the same session.
\<close>

section \<open>Entries and waiters\<close>

abbreviation entries :: "callis_io \<Rightarrow> dedupe_state" where
  "entries io \<equiv> ss_dedupe (io_session io)"

definition pending_ids :: "callis_io \<Rightarrow> peer_message_id set" where
  "pending_ids io = fst ` set (dd_pending (entries io))"

fun is_duplicate :: "inbound_waiter \<Rightarrow> bool" where
  "is_duplicate (DuplicateWaiter _) = True"
| "is_duplicate _ = False"

definition owed_ids :: "(peer_message_id \<times> inbound_waiter) list \<Rightarrow> peer_message_id set" where
  "owed_ids waiters = fst ` {(p, w) \<in> set waiters. \<not> is_duplicate w}"

lemma owed_ids_iff: "p \<in> owed_ids waiters \<longleftrightarrow> (\<exists>w. (p, w) \<in> set waiters \<and> \<not> is_duplicate w)"
  by (auto simp: owed_ids_def image_iff)

lemma owed_simps [simp]:
  "owed_ids [] = {}" "owed_ids ((p, w) # ws) = (if is_duplicate w then owed_ids ws else insert p (owed_ids ws))"
  by (auto simp: owed_ids_iff)

lemma owed_delete [simp]: "owed_ids (AList.delete p ws) = owed_ids ws - {p}"
  by (auto simp: owed_ids_iff set_alist_delete)

lemma owed_update:
  "distinct (map fst ws) \<Longrightarrow> owed_ids (AList.update p w ws) = (if is_duplicate w then owed_ids ws - {p} else insert p (owed_ids ws))"
proof (induction ws)
  case (Cons x ws)
  have "p \<notin> owed_ids ws" if "fst x = p" using Cons.prems that by (cases x) (auto simp: owed_ids_iff image_iff)
  with Cons show ?case by (cases x) auto
qed auto

definition settled :: "peer_message_id set \<Rightarrow> (peer_message_id \<times> inbound_waiter) list \<Rightarrow> callis_io \<Rightarrow> bool" where
  "settled base waiters io \<longleftrightarrow>
     dedupe_inv (entries io) \<and> distinct (map fst waiters)
     \<and> pending_ids io = base \<union> owed_ids waiters \<and> base \<inter> owed_ids waiters = {}"

section \<open>What the parts do to the entries\<close>

lemma entries_blob [simp]: "entries (on_blob io f) = entries io" "entries (io\<lparr>io_blob := b\<rparr>) = entries io"
  "entries (io\<lparr>io_cancel := c\<rparr>) = entries io" "entries (fail_pending_receiver io p err) = entries io"
  by (simp_all add: on_blob_def fail_pending_receiver_def)

lemma pending_blob [simp]: "pending_ids (on_blob io f) = pending_ids io" "pending_ids (io\<lparr>io_blob := b\<rparr>) = pending_ids io"
  "pending_ids (fail_pending_receiver io p err) = pending_ids io"
  by (simp_all add: pending_ids_def)

lemma complete_entry_pending:
  "pending_ids (complete_entry io p r cfg) = pending_ids io - {p}"
  "dedupe_inv (entries io) \<Longrightarrow> dedupe_inv (entries (complete_entry io p r cfg))"
  using dedupe_complete_inv [of "entries io" p r]
  by (auto simp: complete_entry_def on_session_def session_dedupe_complete_def pending_ids_def dedupe_complete_def take_waiters_def
      Let_def split_beta keys_alist_delete)

lemma abandon_pending:
  "pending_ids (on_session io (\<lambda>s. session_dedupe_abandon s p)) = pending_ids io - {p}"
  "dedupe_inv (entries io) \<Longrightarrow> dedupe_inv (entries (on_session io (\<lambda>s. session_dedupe_abandon s p)))"
  using dedupe_abandon_inv [of "entries io" p]
  by (auto simp: on_session_def session_dedupe_abandon_def pending_ids_def dedupe_abandon_def take_waiters_def Let_def split_beta
      keys_alist_delete)

lemma cancel_entry_pending:
  "pending_ids (cancel_entry io p reason cfg) = pending_ids io - {p}"
  "dedupe_inv (entries io) \<Longrightarrow> dedupe_inv (entries (cancel_entry io p reason cfg))"
  by (simp_all add: cancel_entry_def complete_entry_pending abandon_pending)

lemma settled_complete:
  "settled base ws io \<Longrightarrow> p \<in> owed_ids ws \<Longrightarrow> settled base (AList.delete p ws) (complete_entry io p r cfg)"
  by (auto simp: settled_def complete_entry_pending distinct_delete)

lemma settled_blob [simp]: "settled base ws (on_blob io f) = settled base ws io" "settled base ws (io\<lparr>io_blob := b\<rparr>) = settled base ws io"
  "settled base ws (fail_pending_receiver io p err) = settled base ws io"
  by (simp_all add: settled_def)

lemma settled_reject:
  "settled base ws io \<Longrightarrow> p \<in> owed_ids ws \<Longrightarrow> settled base (AList.delete p ws) (snd (reject_entry io p err cfg))"
  by (simp add: reject_entry_def settled_complete)

lemma settled_open:
  "settled base ws io \<Longrightarrow> p \<in> owed_ids ws \<Longrightarrow> settled base (AList.delete p ws) (snd (open_accepted p pend io cfg now))"
  by (auto simp: open_accepted_def Let_def intro!: settled_reject settled_complete split: option.splits prod.splits sum.splits)

section \<open>Draining\<close>

lemma length_delete: "distinct (map fst ws) \<Longrightarrow> map_of ws p = Some w \<Longrightarrow> Suc (length (AList.delete p ws)) = length ws"
proof (induction ws)
  case (Cons x ws)
  show ?case
  proof (cases "fst x = p")
    case True
    then have "AList.delete p ws = ws" using Cons.prems(1) by (cases x) (auto simp: delete_id)
    with True show ?thesis by (cases x) simp
  qed (use Cons in \<open>cases x; auto\<close>)
qed simp

lemma put_back:
  assumes "settled base ws io" and "map_of ws p = Some w" and "is_duplicate w' = is_duplicate w"
  shows "settled base (AList.update p w' (AList.delete p ws)) io"
    and "length (AList.update p w' (AList.delete p ws)) = length ws"
    and "fst ` set (AList.update p w' (AList.delete p ws)) = fst ` set ws"
proof -
  have ws: "distinct (map fst ws)" using assms(1) by (simp add: settled_def)
  have mem: "(p, w) \<in> set ws" using assms(2) by (rule map_of_SomeD)
  have "p \<in> owed_ids ws \<longleftrightarrow> \<not> is_duplicate w"
    using ws mem by (auto simp: owed_ids_iff dest: eq_key_imp_eq_value)
  then have "owed_ids (AList.update p w' (AList.delete p ws)) = owed_ids ws"
    using ws assms(3) by (auto simp: owed_update distinct_delete)
  with assms(1) show "settled base (AList.update p w' (AList.delete p ws)) io"
    by (simp add: settled_def distinct_update distinct_delete)
  have "p \<notin> fst ` set (AList.delete p ws)" by (simp add: keys_alist_delete)
  then show "length (AList.update p w' (AList.delete p ws)) = length ws"
    using length_delete [OF ws assms(2)] by (simp add: alist_update_new map_of_eq_None_iff)
  show "fst ` set (AList.update p w' (AList.delete p ws)) = fst ` set ws"
    using mem by (force simp: dom_update keys_alist_delete)
qed

text \<open>A drained waiter is gone with an outcome, or it goes on waiting.\<close>

definition drained_from :: "peer_message_id set \<Rightarrow> nat \<Rightarrow> peer_message_id set \<Rightarrow> drained \<Rightarrow> bool" where
  "drained_from base n keys d \<longleftrightarrow>
     (case d of (outcomes, waiters, io) \<Rightarrow>
        settled base waiters io \<and> length outcomes + length waiters = n \<and> fst ` set waiters \<subseteq> keys)"

lemma drained_gone:
  assumes "drained_from base n keys (os, ws, io)" and "map_of ws p = Some w" and "settled base (AList.delete p ws) io'"
  shows "drained_from base n keys (os @ [x], AList.delete p ws, io')"
  using assms length_delete [of ws p w] by (auto simp: drained_from_def settled_def keys_alist_delete)

lemma drained_back:
  assumes "drained_from base n keys (os, ws, io)" and "map_of ws p = Some w" and "is_duplicate w' = is_duplicate w"
    and "entries io' = entries io"
  shows "drained_from base n keys (os, AList.update p w' (AList.delete p ws), io')"
proof -
  have inv: "settled base ws io" "length os + length ws = n" "fst ` set ws \<subseteq> keys" using assms(1) by (auto simp: drained_from_def)
  have "settled base (AList.update p w' (AList.delete p ws)) io'"
    using put_back(1) [OF inv(1) assms(2,3)] assms(4) by (simp add: settled_def pending_ids_def)
  with put_back(2,3) [OF inv(1) assms(2,3)] inv show ?thesis by (simp add: drained_from_def)
qed

lemma owed_waiter: "map_of ws p = Some w \<Longrightarrow> \<not> is_duplicate w \<Longrightarrow> p \<in> owed_ids ws"
  by (auto simp: owed_ids_iff dest: map_of_SomeD)

lemma drop_duplicate: "settled base ws io \<Longrightarrow> map_of ws p = Some (DuplicateWaiter rx) \<Longrightarrow> settled base (AList.delete p ws) io"
proof -
  assume inv: "settled base ws io" and w: "map_of ws p = Some (DuplicateWaiter rx)"
  have "p \<notin> owed_ids ws"
    using inv map_of_SomeD [OF w] by (auto simp: owed_ids_iff settled_def dest: eq_key_imp_eq_value)
  with inv show ?thesis by (simp add: settled_def distinct_delete)
qed

lemma outcome_some:
  "\<exists>x. fst (drain_message_waiter p result io cfg) = Some x" "\<exists>x. fst (open_accepted p pend io cfg now) = Some x"
  "fst (reject_entry io p err cfg) = Some (OutcomeError p err)"
  by (cases result; simp add: reject_entry_def)
    (auto simp: open_accepted_def reject_entry_def Let_def split: option.splits prod.splits sum.splits)

lemma settled_message:
  "settled base ws io \<Longrightarrow> p \<in> owed_ids ws \<Longrightarrow> settled base (AList.delete p ws) (snd (drain_message_waiter p result io cfg))"
  by (cases result) (simp_all add: settled_complete settled_reject)

text \<open>A blob request whose answer has come.\<close>

lemma drained_blob_accept:
  assumes d: "drained_from base n keys (os, ws, io)" and w: "map_of ws p = Some (BlobAcceptWaiter pend)"
    and result: "drain_blob_accept_waiter p pend result (AList.delete p ws) io cfg ensure now = (outcome, ws', io')"
  shows "drained_from base n keys (push_outcome os outcome, ws', io')"
proof -
  have inv: "settled base ws io" using d by (simp add: drained_from_def)
  have p: "p \<in> owed_ids ws" using w by (rule owed_waiter) simp
  have gone: "drained_from base n keys (push_outcome os outcome, ws', io')"
    if "outcome = Some x" "ws' = AList.delete p ws" "settled base (AList.delete p ws) io'" for x
    using drained_gone [OF d w that(3)] that by simp
  have rejected: "drained_from base n keys (push_outcome os outcome, ws', io')"
    if "(outcome, io') = reject_entry io1 p err cfg" "ws' = AList.delete p ws" "settled base ws io1" for io1 err
    using that settled_reject [OF that(3) p] gone outcome_some(3) [of io1 p err cfg] by (metis fst_conv snd_conv)
  show ?thesis
  proof (cases result)
    case ReadyAccepted
    let ?io = "on_blob (on_blob io (\<lambda>b. on_receiver b (ba_receiver_state pend) (\<lambda>r. r\<lparr>br_accepted := True\<rparr>)))
        (\<lambda>b. add_pending_request b p (ba_dst_taberna pend) (ba_receiver_state pend))"
    have opened: "drained_from base n keys (push_outcome os outcome, ws', io')"
      if "(outcome, io') = open_accepted p pend ?io cfg now" "ws' = AList.delete p ws"
      using that settled_open [of base ws ?io p pend cfg now] inv p gone outcome_some(2) [of p pend ?io cfg now]
      by (metis fst_conv snd_conv settled_blob(1))
    show ?thesis
      using result assms(3) opened rejected [of "fail_pending_receiver _ pend _"] inv
        drained_back [OF d w, of "BlobCallisWaiter pend (now + ba_send_timeout pend)" ?io]
      unfolding ReadyAccepted
      by (auto simp: Let_def split: if_splits sum.splits prod.splits) (metis rejected settled_blob)+
  next
    case (ReadyRejected err)
    with result rejected [of "on_blob io (\<lambda>b. release_inbound b p)" err] inv show ?thesis by (auto simp: Let_def split: prod.splits)
  next
    case ReadyClosed
    with result rejected [of "on_blob io (\<lambda>b. release_inbound b p)" "err_new RemoteTabernaRejected"] inv
    show ?thesis by (auto simp: Let_def split: prod.splits)
  qed
qed


lemma drained_step: "drained_from base n keys d \<Longrightarrow> drained_from base n keys (drain_ready_waiter cfg ensure now d ready)"
proof -
  assume d: "drained_from base n keys d"
  obtain os ws io where eq: "d = (os, ws, io)" by (cases d)
  obtain p kind where ready: "ready = (p, kind)" by (cases ready)
  have inv: "settled base ws io" using d by (simp add: eq drained_from_def)
  show ?thesis
  proof (cases "map_of ws p")
    case None
    with d show ?thesis by (simp add: drain_ready_waiter_def eq ready)
  next
    case (Some w)
    note kept = drained_back [OF d [unfolded eq] Some refl refl]
    show ?thesis
    proof (cases w)
      case (MessageWaiter t rx)
      have p: "p \<in> owed_ids ws" using Some MessageWaiter by (auto intro: owed_waiter)
      have "drained_from base n keys (push_outcome os (fst (drain_message_waiter p result io cfg)), AList.delete p ws,
          snd (drain_message_waiter p result io cfg))" for result
        using outcome_some(1) [of p result io cfg] drained_gone [OF d [unfolded eq] Some settled_message [OF inv p]]
        by (metis push_outcome.simps(1))
      with kept Some MessageWaiter show ?thesis
        by (cases kind) (simp_all add: drain_ready_waiter_def eq ready Let_def split_beta)
    next
      case (BlobAcceptWaiter pend)
      with kept Some drained_blob_accept [OF d [unfolded eq] Some [unfolded BlobAcceptWaiter]] show ?thesis
        by (cases kind) (auto simp: drain_ready_waiter_def eq ready Let_def split: prod.splits)
    next
      case (BlobCallisWaiter pend deadline)
      with kept Some show ?thesis by (simp add: drain_ready_waiter_def eq ready Let_def)
    next
      case (DuplicateWaiter rx)
      with kept Some drained_gone [OF d [unfolded eq] Some drop_duplicate [OF inv]] show ?thesis
        by (cases kind) (simp_all add: drain_ready_waiter_def eq ready Let_def)
    qed
  qed
qed

lemma drained_accept:
  "settled base ws io \<Longrightarrow> drained_from base (length ws) (fst ` set ws) (drain_accept_waiters ws io ch cfg ensure now)"
proof -
  have "drained_from base n keys (foldl (drain_ready_waiter cfg ensure now) d readys)" if "drained_from base n keys d" for n keys d readys
    using that by (induction readys arbitrary: d) (simp_all add: drained_step)
  then show "settled base ws io \<Longrightarrow> ?thesis" by (simp add: drain_accept_waiters_def drained_from_def)
qed

lemma drained_callis_step:
  assumes d: "drained_from base n keys (os, ws, io)" and w: "map_of ws p = Some (BlobCallisWaiter pend deadline)"
  shows "drained_from base n keys (drain_blob_callis_waiter cfg now (os, ws, io) p)
    \<and> (\<forall>q. q \<noteq> p \<longrightarrow> map_of (fst (snd (drain_blob_callis_waiter cfg now (os, ws, io) p))) q = map_of ws q)"
proof -
  have inv: "settled base ws io" and keys: "distinct (map fst ws)" using d by (auto simp: drained_from_def settled_def)
  have p: "p \<in> owed_ids ws" using w by (rule owed_waiter) simp
  have gone: "drained_from base n keys (push_outcome os (fst r), AList.delete p ws, snd r)"
    if "\<exists>x. fst r = Some x" "settled base (AList.delete p ws) (snd r)" for r
    using that drained_gone [OF d w] by fastforce
  have rejected: "drained_from base n keys (push_outcome os (fst (reject_entry io1 p err cfg)), AList.delete p ws,
      snd (reject_entry io1 p err cfg))" if "settled base ws io1" for io1 err
    by (rule gone) (simp_all add: outcome_some settled_reject that p)
  have opened: "drained_from base n keys (push_outcome os (fst (open_accepted p pend io cfg now)), AList.delete p ws,
      snd (open_accepted p pend io cfg now))"
    by (rule gone) (simp_all add: outcome_some settled_open inv p)
  have other: "q \<noteq> p \<Longrightarrow> map_of (AList.delete p ws) q = map_of ws q" for q using keys by (simp add: delete_conv')
  show ?thesis
    using rejected [of "fail_pending_receiver (on_blob io (\<lambda>b. drop_pending_request b p)) pend (err_new SendTimeout)"] opened inv
      drained_back [OF d w, of "BlobCallisWaiter pend deadline" io] other
    by (simp add: drain_blob_callis_waiter_def w Let_def split_beta update_conv')
qed

lemma drained_callis_fold:
  "drained_from base n keys (os, ws, io) \<Longrightarrow> distinct ids \<Longrightarrow>
   (\<And>p. p \<in> set ids \<Longrightarrow> \<exists>pend deadline. map_of ws p = Some (BlobCallisWaiter pend deadline)) \<Longrightarrow>
   drained_from base n keys (foldl (drain_blob_callis_waiter cfg now) (os, ws, io) ids)
   \<and> (\<forall>q. q \<notin> set ids \<longrightarrow> map_of (fst (snd (foldl (drain_blob_callis_waiter cfg now) (os, ws, io) ids))) q = map_of ws q)"
proof (induction ids arbitrary: os ws io)
  case (Cons p ids)
  obtain pend deadline where w: "map_of ws p = Some (BlobCallisWaiter pend deadline)" using Cons.prems(3) by fastforce
  obtain os' ws' io' where step: "drain_blob_callis_waiter cfg now (os, ws, io) p = (os', ws', io')" by (metis prod_cases3)
  from drained_callis_step [OF Cons.prems(1) w, of cfg now] step
  have d': "drained_from base n keys (os', ws', io')" and same: "\<And>q. q \<noteq> p \<Longrightarrow> map_of ws' q = map_of ws q" by auto
  have "\<exists>pend deadline. map_of ws' q = Some (BlobCallisWaiter pend deadline)" if "q \<in> set ids" for q
    using Cons.prems(2,3) that same by (metis distinct.simps(2) list.set_intros(2))
  with Cons.IH [OF d'] Cons.prems(2) step same show ?case by (auto simp: step)
qed simp

lemma waiter_deadline_some: "waiter_deadline w \<noteq> None \<longleftrightarrow> (\<exists>pend deadline. w = BlobCallisWaiter pend deadline)"
  by (cases w) auto


lemma drained_blob_callis:
  assumes "settled base ws io"
  shows "drained_from base (length ws) (fst ` set ws) (drain_blob_callis_waiters ws io cfg now)
    \<and> (\<forall>q. \<not> (\<exists>pend deadline. map_of ws q = Some (BlobCallisWaiter pend deadline)) \<longrightarrow>
         map_of (fst (snd (drain_blob_callis_waiters ws io cfg now))) q = map_of ws q)"
proof -
  let ?ids = "map fst (filter (\<lambda>(_, w). waiter_deadline w \<noteq> None) ws)"
  have ws: "distinct (map fst ws)" using assms by (simp add: settled_def)
  have ids: "p \<in> set ?ids \<longleftrightarrow> (\<exists>pend deadline. map_of ws p = Some (BlobCallisWaiter pend deadline))" for p
    using ws by (auto simp: waiter_deadline_some image_iff split_beta simp del: not_None_eq)
  have "drained_from base (length ws) (fst ` set ws) ([], ws, io)" using assms by (simp add: drained_from_def)
  moreover have "distinct ?ids" using ws by (simp add: distinct_map_filter)
  ultimately show ?thesis
    using drained_callis_fold [of base "length ws" "fst ` set ws" "[]" ws io ?ids cfg now] ids
    unfolding drain_blob_callis_waiters_def by blast
qed

text \<open>
  What decides on a waiting message: whether the session is active, the pool of blob calles, and whether the
  stream of a request is open or the request is in the table.
\<close>

record request_view =
  rq_active :: bool
  rq_pool :: "blob_callis_pool"
  rq_opened :: bool
  rq_requested :: bool

definition view_of :: "peer_message_id \<Rightarrow> callis_io \<Rightarrow> request_view" where
  "view_of p io = \<lparr>rq_active = ss_active (io_session io), rq_pool = bm_callis (io_blob io), rq_opened = recv_stream_exists (io_blob io) p,
     rq_requested = (map_of (bi_pending_requests (bm_inbound (io_blob io))) p \<noteq> None)\<rparr>"

text \<open>How the opening of the stream of an accepted request ends.\<close>

definition opening_outcome :: "peer_message_id \<Rightarrow> request_view \<Rightarrow> inbound_outcome" where
  "opening_outcome p v =
     (case bp_order (rq_pool v) of
        [] \<Rightarrow> OutcomeError p (err_new BlobCallisWithoutPrimary)
      | callis # _ \<Rightarrow>
          (case map_of (bp_settings (rq_pool v)) callis of
             None \<Rightarrow> OutcomeError p (err_new BlobCallisWithoutPrimary)
           | Some settings \<Rightarrow>
               if rq_opened v then OutcomeAck p
               else if \<not> rq_requested v then OutcomeError p (err_new BlobStreamNotFound)
               else case inbound_new (unat (bs_chunk_size settings)) (unat (bs_ack_window_chunks settings)) of
                      Inl e \<Rightarrow> OutcomeError p e
                    | Inr _ \<Rightarrow> OutcomeAck p))"

text \<open>What an answer makes of a waiter: an outcome, or a waiter that waits for a blob callis.\<close>

fun answered :: "peer_message_id \<Rightarrow> request_view \<Rightarrow> try_send \<Rightarrow> instant \<Rightarrow> inbound_waiter \<Rightarrow> ready_kind \<Rightarrow> inbound_outcome + inbound_waiter" where
  "answered p v ensure now w (ReadyMessage ReadyAccepted) = Inl (OutcomeAck p)"
| "answered p v ensure now w (ReadyMessage (ReadyRejected err)) = Inl (OutcomeError p err)"
| "answered p v ensure now w (ReadyMessage ReadyClosed) = Inl (OutcomeError p (err_new RemoteTabernaRejected))"
| "answered p v ensure now w (ReadyDuplicate DecideAck) = Inl (OutcomeAck p)"
| "answered p v ensure now w (ReadyDuplicate (DecideError err)) = Inl (OutcomeError p err)"
| "answered p v ensure now w (ReadyDuplicate DecideAbandoned) = Inl OutcomeSkip"
| "answered p v ensure now w (ReadyBlob (ReadyRejected err)) = Inl (OutcomeError p err)"
| "answered p v ensure now w (ReadyBlob ReadyClosed) = Inl (OutcomeError p (err_new RemoteTabernaRejected))"
| "answered p v ensure now (BlobAcceptWaiter pend) (ReadyBlob ReadyAccepted) =
     (if \<not> rq_active v then Inl (OutcomeError p (err_new BlobCallisWithoutPrimary))
      else if bp_order (rq_pool v) = []
      then if ensure = SendClosed then Inl (OutcomeError p (err_new PeerUnavailable))
           else Inr (BlobCallisWaiter pend (now + ba_send_timeout pend))
      else Inl (opening_outcome p (v\<lparr>rq_requested := True\<rparr>)))"
| "answered p v ensure now w (ReadyBlob ReadyAccepted) = Inr w"

text \<open>What becomes of a waiter that waits for a blob callis.\<close>

definition callis_awaited :: "peer_message_id \<Rightarrow> request_view \<Rightarrow> instant \<Rightarrow> blob_accept_pending \<Rightarrow> instant \<Rightarrow> inbound_outcome + inbound_waiter" where
  "callis_awaited p v now pend deadline =
     (if deadline \<le> now then Inl (OutcomeError p (err_new SendTimeout))
      else if bp_order (rq_pool v) = [] then Inr (BlobCallisWaiter pend deadline)
      else Inl (opening_outcome p v))"

definition waiter_fate ::
  "peer_message_id \<Rightarrow> request_view \<Rightarrow> channels \<Rightarrow> try_send \<Rightarrow> instant \<Rightarrow> inbound_waiter \<Rightarrow> inbound_outcome + inbound_waiter" where
  "waiter_fate p v ch ensure now w =
     (case w of
        BlobCallisWaiter pend deadline \<Rightarrow> callis_awaited p v now pend deadline
      | _ \<Rightarrow>
          (case waiter_ready ch w of
             None \<Rightarrow> Inr w
           | Some kind \<Rightarrow>
               (case answered p v ensure now w kind of
                  Inr (BlobCallisWaiter pend deadline) \<Rightarrow> callis_awaited p (v\<lparr>rq_requested := True\<rparr>) now pend deadline
                | fate \<Rightarrow> fate)))"

lemma view_session [simp]:
  "view_of p (complete_entry io q r cfg) = view_of p io" "view_of p (snd (reject_entry io q err cfg)) = view_of p io"
  by (simp_all add: view_of_def reject_entry_def complete_entry_def on_session_def session_dedupe_complete_def Let_def split_beta)

lemma view_blob [simp]:
  "view_of p (on_blob io (\<lambda>b. release_inbound b q)) = view_of p io"
  "view_of p (on_blob io (\<lambda>b. on_receiver b h f)) = view_of p io"
  "view_of p (fail_pending_receiver io pend err) = view_of p io"
  by (simp_all add: view_of_def on_blob_def on_receiver_def recv_stream_exists_def release_inbound_def fail_pending_receiver_def Let_def
      split: option.split)

lemma view_requests:
  "p \<noteq> q \<Longrightarrow> view_of p (on_blob io (\<lambda>b. add_pending_request b q t h)) = view_of p io"
  "view_of p (on_blob io (\<lambda>b. add_pending_request b p t h)) = (view_of p io)\<lparr>rq_requested := True\<rparr>"
  "p \<noteq> q \<Longrightarrow> view_of p (on_blob io (\<lambda>b. drop_pending_request b q)) = view_of p io"
  "p \<noteq> q \<Longrightarrow> activate_pending_request (io_blob io) q settings now = (r, b) \<Longrightarrow> view_of p (io\<lparr>io_blob := b\<rparr>) = view_of p io"
  by (auto simp: view_of_def on_blob_def add_pending_request_def drop_pending_request_def take_pending_request_def recv_stream_exists_def
      activate_pending_request_def insert_recv_stream_def release_inbound_def update_conv' delete_conv' Let_def
      split: option.splits if_splits sum.splits)

lemma view_open:
  assumes "p \<noteq> q"
  shows "view_of p (snd (open_accepted q pend io cfg now)) = view_of p io"
  using view_requests(4) [OF assms, of io] by (auto simp: open_accepted_def Let_def split: option.split prod.split sum.split)

lemma opening_ends:
  "\<exists>io'. open_accepted p pend io cfg now = (Some (opening_outcome p (view_of p io)), io')"
  by (auto simp: open_accepted_def current_settings_def reject_entry_def activate_pending_request_def take_pending_request_def
      opening_outcome_def view_of_def Let_def split: list.split option.split sum.split)

lemma drain_step_hit:
  assumes "map_of ws p = Some w" and "waiter_ready ch w = Some kind"
    and "drain_ready_waiter cfg ensure now (os, ws, io) (p, kind) = (os', ws', io')"
  shows "case answered p (view_of p io) ensure now w kind of
      Inl outcome \<Rightarrow> os' = os @ [outcome] \<and> ws' = AList.delete p ws
    | Inr w' \<Rightarrow> (\<exists>pend deadline. w' = BlobCallisWaiter pend deadline) \<and> os' = os \<and> ws' = AList.update p w' (AList.delete p ws)
        \<and> view_of p io' = (view_of p io)\<lparr>rq_requested := True\<rparr>"
proof (cases w)
  case (MessageWaiter t rx)
  then obtain result where kind: "kind = ReadyMessage result" using assms(2) by auto
  from assms MessageWaiter kind show ?thesis by (cases result) (auto simp: drain_ready_waiter_def reject_entry_def Let_def)
next
  case (DuplicateWaiter rx)
  then obtain decision where kind: "kind = ReadyDuplicate decision" using assms(2) by (auto split: try_recv.splits)
  from assms DuplicateWaiter kind show ?thesis by (cases decision) (auto simp: drain_ready_waiter_def Let_def)
next
  case (BlobAcceptWaiter pend)
  then obtain result where kind: "kind = ReadyBlob result" using assms(2) by auto
  let ?io = "on_blob (on_blob io (\<lambda>b. on_receiver b (ba_receiver_state pend) (\<lambda>r. r\<lparr>br_accepted := True\<rparr>)))
      (\<lambda>b. add_pending_request b p (ba_dst_taberna pend) (ba_receiver_state pend))"
  have v: "view_of p ?io = (view_of p io)\<lparr>rq_requested := True\<rparr>" by (simp add: view_requests)
  have same: "ss_active (io_session ?io) = rq_active (view_of p io)" "has_callis (io_blob ?io) \<longleftrightarrow> bp_order (rq_pool (view_of p io)) \<noteq> []"
    by (simp_all add: view_of_def on_blob_def on_receiver_def add_pending_request_def has_callis_def)
  note opened = opening_ends [of p pend ?io cfg now, unfolded v]
  from assms(1,3) same opened v show ?thesis
    unfolding BlobAcceptWaiter kind
    by (cases result; cases ensure) (auto simp: drain_ready_waiter_def reject_entry_def Let_def split: if_splits)
qed (use assms(2) in simp)

lemma drain_step_other:
  assumes "distinct (map fst ws)" and "q \<noteq> fst ready"
    and "drain_ready_waiter cfg ensure now (os, ws, io) ready = (os', ws', io')"
  shows "map_of ws' q = map_of ws q \<and> distinct (map fst ws') \<and> set os \<subseteq> set os' \<and> view_of q io' = view_of q io"
proof -
  have accept: "map_of ws'' q = map_of rest q \<and> (distinct (map fst rest) \<longrightarrow> distinct (map fst ws'')) \<and> view_of q io'' = view_of q io"
    if "drain_blob_accept_waiter (fst ready) pend result rest io cfg ensure now = (x, ws'', io'')" for pend result rest x ws'' io''
    using that assms(2) view_open [OF assms(2)]
    by (cases result) (auto simp: Let_def update_conv' distinct_update view_requests split_beta split: if_splits sum.splits)
  have msg: "view_of q (snd (drain_message_waiter (fst ready) result io cfg)) = view_of q io" for result
    by (cases result) simp_all
  have push: "y \<in> set os \<Longrightarrow> y \<in> set (push_outcome os x)" for x y by (cases x) auto
  have rest: "map_of (AList.delete (fst ready) ws) q = map_of ws q" "distinct (map fst (AList.delete (fst ready) ws))"
    using assms(1,2) by (simp_all add: delete_conv' distinct_delete del: map_of_eq_Some_iff Some_eq_map_of_iff)
  show ?thesis
  proof (cases "map_of ws (fst ready)")
    case None
    with assms show ?thesis by (simp add: drain_ready_waiter_def)
  next
    case (Some w)
    note step = assms(3) [unfolded drain_ready_waiter_def prod.case Let_def Some option.case]
    show ?thesis
    proof (cases w)
      case (MessageWaiter t rx)
      with step rest push msg assms(2) show ?thesis
        by (cases "snd ready") (auto simp: update_conv' distinct_update split_beta simp del: map_of_eq_Some_iff Some_eq_map_of_iff)
    next
      case (BlobAcceptWaiter pend)
      show ?thesis
      proof (cases "snd ready")
        case (ReadyBlob result)
        obtain x ws'' io'' where d: "drain_blob_accept_waiter (fst ready) pend result (AList.delete (fst ready) ws) io cfg ensure now = (x, ws'', io'')"
          by (metis prod_cases3)
        with step ReadyBlob BlobAcceptWaiter have "os' = push_outcome os x" "ws' = ws''" "io' = io''" by simp_all
        with accept [OF d] rest push show ?thesis by auto
      qed (use step rest assms(2) BlobAcceptWaiter in
          \<open>auto simp: update_conv' distinct_update simp del: map_of_eq_Some_iff Some_eq_map_of_iff\<close>)
    next
      case (BlobCallisWaiter pend deadline)
      with step rest assms(2) show ?thesis
        by (auto simp: update_conv' distinct_update simp del: map_of_eq_Some_iff Some_eq_map_of_iff)
    next
      case (DuplicateWaiter rx)
      with step rest assms(2) show ?thesis
        by (cases "snd ready") (auto simp: update_conv' distinct_update simp del: map_of_eq_Some_iff Some_eq_map_of_iff)
    qed
  qed
qed

lemma drain_fold_misses:
  "distinct (map fst ws) \<Longrightarrow> q \<notin> fst ` set readys \<Longrightarrow>
   foldl (drain_ready_waiter cfg ensure now) (os, ws, io) readys = (os', ws', io') \<Longrightarrow>
   map_of ws' q = map_of ws q \<and> set os \<subseteq> set os' \<and> view_of q io' = view_of q io"
proof (induction readys arbitrary: os ws io)
  case (Cons ready readys)
  obtain os1 ws1 io1 where step: "drain_ready_waiter cfg ensure now (os, ws, io) ready = (os1, ws1, io1)" by (metis prod_cases3)
  have q: "q \<noteq> fst ready" using Cons.prems(2) by auto
  from drain_step_other [OF Cons.prems(1) q step] Cons.IH [of ws1 os1 io1] Cons.prems step show ?case by auto
qed simp

lemma drain_fold_hits:
  "distinct (map fst ws) \<Longrightarrow> distinct (map fst readys) \<Longrightarrow> (p, kind) \<in> set readys \<Longrightarrow> map_of ws p = Some w \<Longrightarrow>
   waiter_ready ch w = Some kind \<Longrightarrow>
   foldl (drain_ready_waiter cfg ensure now) (os, ws, io) readys = (os', ws', io') \<Longrightarrow>
   (case answered p (view_of p io) ensure now w kind of
      Inl outcome \<Rightarrow> map_of ws' p = None \<and> outcome \<in> set os'
    | Inr w' \<Rightarrow> (\<exists>pend deadline. w' = BlobCallisWaiter pend deadline) \<and> map_of ws' p = Some w'
        \<and> view_of p io' = (view_of p io)\<lparr>rq_requested := True\<rparr>)"
proof (induction readys arbitrary: os ws io)
  case (Cons ready readys)
  obtain os1 ws1 io1 where step: "drain_ready_waiter cfg ensure now (os, ws, io) ready = (os1, ws1, io1)" by (metis prod_cases3)
  show ?case
  proof (cases "fst ready = p")
    case True
    have only: "snd ready = kind" using Cons.prems(2,3) True by (cases ready) (force dest: in_set_zipE)
    then have ready: "ready = (p, kind)" using True by (cases ready) simp
    note hit = drain_step_hit [OF Cons.prems(4,5) step [unfolded ready]]
    have "p \<notin> fst ` set readys" using Cons.prems(2) True by simp
    moreover have "distinct (map fst ws1)"
      using hit Cons.prems(1) by (auto simp: distinct_delete distinct_update split: sum.splits)
    ultimately show ?thesis
      using drain_fold_misses [of ws1 p readys cfg ensure now os1 io1 os' ws' io'] Cons.prems(6) step hit
      by (auto simp: delete_conv' update_conv' split: sum.splits simp del: map_of_eq_Some_iff Some_eq_map_of_iff)
  next
    case False
    from drain_step_other [OF Cons.prems(1) _ step, of p] False
    have "map_of ws1 p = Some w" "distinct (map fst ws1)" "view_of p io1 = view_of p io" using Cons.prems(4) by auto
    with Cons.IH [of ws1 os1 io1] Cons.prems step False show ?thesis by (auto split: sum.splits)
  qed
qed simp

text \<open>The second loop, over the waiters for a blob callis.\<close>

lemma callis_step_other:
  assumes "q \<noteq> p" and "drain_blob_callis_waiter cfg now (os, ws, io) p = (os', ws', io')"
  shows "map_of ws' q = map_of ws q \<and> set os \<subseteq> set os' \<and> view_of q io' = view_of q io"
proof -
  have push: "y \<in> set os \<Longrightarrow> y \<in> set (push_outcome os x)" for x y by (cases x) auto
  show ?thesis
    using assms push view_open [OF assms(1)]
    by (auto simp: drain_blob_callis_waiter_def Let_def delete_conv' update_conv' view_requests split_beta
        split: option.splits inbound_waiter.splits if_splits)
qed

lemma callis_step_hit:
  assumes "map_of ws p = Some (BlobCallisWaiter pend deadline)" and "drain_blob_callis_waiter cfg now (os, ws, io) p = (os', ws', io')"
  shows "case callis_awaited p (view_of p io) now pend deadline of
      Inl outcome \<Rightarrow> map_of ws' p = None \<and> outcome \<in> set os'
    | Inr w' \<Rightarrow> map_of ws' p = Some w'"
proof -
  have pool: "has_callis (io_blob io) \<longleftrightarrow> bp_order (rq_pool (view_of p io)) \<noteq> []" by (simp add: view_of_def has_callis_def)
  from assms pool opening_ends [of p pend io cfg now] show ?thesis
    by (auto simp: drain_blob_callis_waiter_def callis_awaited_def reject_entry_def delete_conv' update_conv' Let_def split: if_splits)
qed

lemma callis_fold:
  "distinct ids \<Longrightarrow> foldl (drain_blob_callis_waiter cfg now) (os, ws, io) ids = (os', ws', io') \<Longrightarrow>
   set os \<subseteq> set os' \<and> (p \<notin> set ids \<longrightarrow> map_of ws' p = map_of ws p)
   \<and> (p \<in> set ids \<and> map_of ws p = Some (BlobCallisWaiter pend deadline) \<longrightarrow>
        (case callis_awaited p (view_of p io) now pend deadline of
           Inl outcome \<Rightarrow> map_of ws' p = None \<and> outcome \<in> set os'
         | Inr w' \<Rightarrow> map_of ws' p = Some w'))"
proof (induction ids arbitrary: os ws io)
  case (Cons q ids)
  obtain os1 ws1 io1 where step: "drain_blob_callis_waiter cfg now (os, ws, io) q = (os1, ws1, io1)" by (metis prod_cases3)
  have "foldl (drain_blob_callis_waiter cfg now) (os1, ws1, io1) ids = (os', ws', io')" using Cons.prems(2) step by simp
  note rest = Cons.IH [OF _ this] and other = callis_step_other [OF _ step]
  have grows: "set os \<subseteq> set os1"
    using step by (auto simp: drain_blob_callis_waiter_def Let_def split_beta split: option.splits inbound_waiter.splits if_splits)
      (metis push_outcome.simps UnCI option.exhaust set_append)+
  show ?case
  proof (cases "q = p")
    case True
    with rest grows Cons.prems(1) callis_step_hit [of ws p pend deadline cfg now os io os1 ws1 io1] step show ?thesis
      by (auto split: sum.splits)
  next
    case False
    with rest other [of p] grows Cons.prems(1) show ?thesis by auto
  qed
qed simp

lemma collect_ready_keys:
  assumes "distinct (map fst ws)"
  shows "distinct (map fst (collect_ready_waiters ch ws))"
    and "(p, kind) \<in> set (collect_ready_waiters ch ws) \<longleftrightarrow> (\<exists>w. map_of ws p = Some w \<and> waiter_ready ch w = Some kind)"
proof -
  have keys: "set (map fst (List.map_filter (\<lambda>(p, w). map_option (Pair p) (f w)) xs)) \<subseteq> fst ` set xs" for f :: "inbound_waiter \<Rightarrow> ready_kind option" and xs
    by (force simp: set_map_filter split_beta)
  show "distinct (map fst (collect_ready_waiters ch ws))"
    using assms unfolding collect_ready_waiters_def
  proof (induction ws)
    case (Cons x ws)
    then show ?case using keys [of "waiter_ready ch" ws] by (cases x) (auto simp: List.map_filter_simps split: option.splits)
  qed (simp add: List.map_filter_simps)
  show "(p, kind) \<in> set (collect_ready_waiters ch ws) \<longleftrightarrow> (\<exists>w. map_of ws p = Some w \<and> waiter_ready ch w = Some kind)"
    using assms by (force simp: collect_ready_waiters_def set_map_filter split_beta)
qed

lemma accept_loop:
  assumes ws: "distinct (map fst ws)" and acc: "drain_accept_waiters ws io ch cfg ensure now = (os1, ws1, io1)" and w: "map_of ws p = Some w"
  shows "case waiter_ready ch w of
      None \<Rightarrow> map_of ws1 p = Some w \<and> view_of p io1 = view_of p io
    | Some kind \<Rightarrow> (case answered p (view_of p io) ensure now w kind of
        Inl outcome \<Rightarrow> map_of ws1 p = None \<and> outcome \<in> set os1
      | Inr w' \<Rightarrow> (\<exists>pend deadline. w' = BlobCallisWaiter pend deadline) \<and> map_of ws1 p = Some w'
          \<and> view_of p io1 = (view_of p io)\<lparr>rq_requested := True\<rparr>)"
proof (cases "waiter_ready ch w")
  case None
  then have "p \<notin> fst ` set (collect_ready_waiters ch ws)" using collect_ready_keys(2) [OF ws, where ch = ch and p = p] w by force
  with drain_fold_misses [OF ws _ acc [unfolded drain_accept_waiters_def], of p] w None show ?thesis by simp
next
  case (Some kind)
  then have "(p, kind) \<in> set (collect_ready_waiters ch ws)" using collect_ready_keys(2) [OF ws] w by blast
  from drain_fold_hits [OF ws collect_ready_keys(1) [OF ws] this w Some acc [unfolded drain_accept_waiters_def]] Some show ?thesis by simp
qed

lemma callis_loop:
  assumes "settled base ws io" and "drain_blob_callis_waiters ws io cfg now = (os', ws', io')"
  shows "case map_of ws p of
      Some (BlobCallisWaiter pend deadline) \<Rightarrow>
        (case callis_awaited p (view_of p io) now pend deadline of
           Inl outcome \<Rightarrow> map_of ws' p = None \<and> outcome \<in> set os'
         | Inr w' \<Rightarrow> map_of ws' p = Some w')
    | _ \<Rightarrow> map_of ws' p = map_of ws p"
proof -
  let ?ids = "map fst (filter (\<lambda>(_, w). waiter_deadline w \<noteq> None) ws)"
  have ws: "distinct (map fst ws)" using assms(1) by (simp add: settled_def)
  have "distinct ?ids" using ws by (simp add: distinct_map_filter)
  note fold = callis_fold [OF this assms(2) [unfolded drain_blob_callis_waiters_def], of p]
  have ids: "p \<in> set ?ids \<longleftrightarrow> (\<exists>pend deadline. map_of ws p = Some (BlobCallisWaiter pend deadline))"
    using ws by (auto simp: waiter_deadline_some image_iff split_beta simp del: not_None_eq)
  with fold show ?thesis by (auto split: option.split inbound_waiter.split)
qed

text \<open>
  C21. Draining settles what is ready and nothing else. Each waiter either stays or is answered by exactly one
  outcome, the one its fate says. A message or a duplicate is answered as its application or its original was. A
  blob request is refused with the error of the application, or as rejected when the application went away; an
  accepted one fails when the session is not active, waits for a blob callis when there is none and the state task
  can be told, and is otherwise acknowledged if its stream could be opened; one that waits for a callis fails when
  its time is over. Waiters without an answer stay as they are. Throughout, the entries of the session that this
  reader owes an outcome for are those of its waiters.
\<close>

theorem drain_settles:
  assumes inv: "settled base (ic_waiters ic) io"
    and drain: "drain_ready ic io ch cfg ensure now = (outcomes, ic', io')"
  shows "settled base (ic_waiters ic') io'
    \<and> length outcomes + length (ic_waiters ic') = length (ic_waiters ic)
    \<and> (\<forall>p w. map_of (ic_waiters ic) p = Some w \<longrightarrow>
         (case waiter_fate p (view_of p io) ch ensure now w of
            Inl outcome \<Rightarrow> map_of (ic_waiters ic') p = None \<and> outcome \<in> set outcomes
          | Inr w' \<Rightarrow> map_of (ic_waiters ic') p = Some w'))"
proof -
  let ?ws = "ic_waiters ic"
  have ws: "distinct (map fst ?ws)" using inv by (simp add: settled_def)
  obtain os1 ws1 io1 where acc: "drain_accept_waiters ?ws io ch cfg ensure now = (os1, ws1, io1)" by (metis prod_cases3)
  obtain os2 ws2 io2 where bl: "drain_blob_callis_waiters ws1 io1 cfg now = (os2, ws2, io2)" by (metis prod_cases3)
  have result: "outcomes = os1 @ os2" "ic_waiters ic' = ws2" "io' = io2" using drain by (auto simp: drain_ready_def acc bl)
  have d1: "settled base ws1 io1" "length os1 + length ws1 = length ?ws"
    using drained_accept [OF inv, of ch cfg ensure now] by (auto simp: acc drained_from_def)
  have d2: "settled base ws2 io2" "length os2 + length ws2 = length ws1"
    using drained_blob_callis [OF d1(1), of cfg now] by (auto simp: bl drained_from_def)
  have first: "case waiter_ready ch w of
      None \<Rightarrow> map_of ws1 p = Some w \<and> view_of p io1 = view_of p io
    | Some kind \<Rightarrow> (case answered p (view_of p io) ensure now w kind of
        Inl outcome \<Rightarrow> map_of ws1 p = None \<and> outcome \<in> set os1
      | Inr w' \<Rightarrow> (\<exists>pend deadline. w' = BlobCallisWaiter pend deadline) \<and> map_of ws1 p = Some w'
          \<and> view_of p io1 = (view_of p io)\<lparr>rq_requested := True\<rparr>)" if w: "map_of ?ws p = Some w" for p w
    by (rule accept_loop [OF ws acc w])
  note second = callis_loop [OF d1(1) bl]
  have each: "case waiter_fate p (view_of p io) ch ensure now w of
      Inl outcome \<Rightarrow> map_of ws2 p = None \<and> outcome \<in> set (os1 @ os2)
    | Inr w' \<Rightarrow> map_of ws2 p = Some w'" if w: "map_of ?ws p = Some w" for p w
    using first [OF w] second [of p]
    by (cases w) (fastforce simp: waiter_fate_def split: option.splits sum.splits inbound_waiter.splits)+
  from d1 d2 each show ?thesis unfolding result by simp
qed


section \<open>Cancelling\<close>

lemma cancel_waiter_entries:
  "dedupe_inv (entries io) \<Longrightarrow> dedupe_inv (entries (cancel_waiter io p w reason cfg))"
  "pending_ids (cancel_waiter io p w reason cfg) = (if is_duplicate w then pending_ids io else pending_ids io - {p})"
  by (cases w; simp add: cancel_entry_pending)+

lemma cancel_fold_entries:
  "dedupe_inv (entries io) \<Longrightarrow>
   dedupe_inv (entries (foldl (\<lambda>io (p, w). cancel_waiter io p w reason cfg) io ws))
   \<and> pending_ids (foldl (\<lambda>io (p, w). cancel_waiter io p w reason cfg) io ws) = pending_ids io - owed_ids ws"
proof (induction ws arbitrary: io)
  case (Cons x ws)
  then show ?case by (cases x) (auto simp: cancel_waiter_entries)
qed simp

lemma settled_cancel:
  assumes "settled base (ic_waiters ic) io" and "cancel_all ic io reason cfg = (ic', io')"
  shows "ic_waiters ic' = [] \<and> settled base [] io'"
  using assms cancel_fold_entries [of io reason cfg "ic_waiters ic"]
  by (auto simp: cancel_all_def cancel_waiters_def settled_def)

definition unreserved :: "blob_manager \<Rightarrow> peer_message_id \<Rightarrow> bool" where
  "unreserved m p \<longleftrightarrow> map_of (rv_inbound (bm_reservations m)) p = None"

definition requested :: "blob_manager \<Rightarrow> peer_message_id \<Rightarrow> bool" where
  "requested m p \<longleftrightarrow> map_of (bi_pending_requests (bm_inbound m)) p \<noteq> None"

lemma unreserved_release:
  "inbound_tables m \<Longrightarrow> unreserved (release_inbound m q) p = (p = q \<or> unreserved m p)"
  by (auto simp: unreserved_def inbound_tables_def delete_conv')

lemma drop_pending_cases:
  "drop_pending_request m q = (if requested m q then release_inbound (snd (take_pending_request m q)) q else snd (take_pending_request m q))"
  by (auto simp: drop_pending_request_def take_pending_request_def requested_def split: option.splits)

lemma take_pending_blob:
  assumes "inbound_tables m"
  shows "unreserved (snd (take_pending_request m q)) p = unreserved m p" "p \<noteq> q \<Longrightarrow> requested (snd (take_pending_request m q)) p = requested m p"
  using assms by (simp_all add: unreserved_def requested_def take_pending_request_def inbound_tables_def delete_conv')

lemma inbound_tables_drop_pending: "inbound_tables m \<Longrightarrow> inbound_tables (drop_pending_request m q)"
  by (simp add: drop_pending_cases inbound_tables_release inbound_tables_take)

lemma unreserved_drop_pending:
  assumes "inbound_tables m"
  shows "unreserved m p \<or> (p = q \<and> requested m q) \<Longrightarrow> unreserved (drop_pending_request m q) p"
    and "p \<noteq> q \<Longrightarrow> requested (drop_pending_request m q) p = requested m p"
proof -
  have "requested (release_inbound m' s) x = requested m' x" for m' s x by (simp add: requested_def)
  note simps = drop_pending_cases unreserved_release inbound_tables_take [OF assms] take_pending_blob [OF assms] this
  show "unreserved m p \<or> (p = q \<and> requested m q) \<Longrightarrow> unreserved (drop_pending_request m q) p" by (auto simp: simps)
  show "p \<noteq> q \<Longrightarrow> requested (drop_pending_request m q) p = requested m p" by (simp add: simps)
qed

text \<open>The reservation of a waiting request: it waits for its answer, or it is in the table of requests.\<close>

fun holds_request :: "blob_manager \<Rightarrow> peer_message_id \<Rightarrow> inbound_waiter \<Rightarrow> bool" where
  "holds_request m p (BlobAcceptWaiter _) = True"
| "holds_request m p (BlobCallisWaiter _ _) = requested m p"
| "holds_request m p _ = False"

lemma cancel_waiter_blob:
  "io_blob (cancel_waiter io p w reason cfg) =
     (case w of BlobAcceptWaiter _ \<Rightarrow> release_inbound (io_blob io) p | BlobCallisWaiter _ _ \<Rightarrow> drop_pending_request (io_blob io) p
      | _ \<Rightarrow> io_blob io)"
  by (cases w) (simp_all add: cancel_entry_def complete_entry_def on_session_def on_blob_def)

lemma cancel_fold_blob:
  "inbound_tables (io_blob io) \<Longrightarrow> distinct (map fst ws) \<Longrightarrow>
   unreserved (io_blob io) p \<or> (\<exists>w. (p, w) \<in> set ws \<and> holds_request (io_blob io) p w) \<Longrightarrow>
   unreserved (io_blob (foldl (\<lambda>io (p, w). cancel_waiter io p w reason cfg) io ws)) p"
proof (induction ws arbitrary: io)
  case (Cons x ws)
  obtain q v where x: "x = (q, v)" by (cases x)
  let ?io = "cancel_waiter io q v reason cfg"
  note tables = Cons.prems(1)
  have inv: "inbound_tables (io_blob ?io)"
    using tables by (simp add: cancel_waiter_blob inbound_tables_release inbound_tables_drop_pending split: inbound_waiter.splits)
  have kept: "requested (io_blob ?io) p = requested (io_blob io) p" if "p \<noteq> q"
    using that unreserved_drop_pending(2) [OF tables that] by (simp add: cancel_waiter_blob requested_def split: inbound_waiter.splits)
  have "unreserved (io_blob ?io) p" if "unreserved (io_blob io) p \<or> (p = q \<and> holds_request (io_blob io) q v)"
    using that unreserved_drop_pending(1) [OF tables, of p q] tables
    unfolding cancel_waiter_blob by (cases v) (auto simp: unreserved_release)
  moreover have "\<exists>w. (p, w) \<in> set ws \<and> holds_request (io_blob ?io) p w"
    if "(p, w) \<in> set ws" "holds_request (io_blob io) p w" for w
  proof -
    have "p \<noteq> q" using Cons.prems(2) that(1) x by (auto simp: image_iff)
    with that kept show ?thesis by (cases w) auto
  qed
  ultimately have "unreserved (io_blob ?io) p \<or> (\<exists>w. (p, w) \<in> set ws \<and> holds_request (io_blob ?io) p w)"
    using Cons.prems(3) x by auto
  with Cons.IH [OF inv] Cons.prems(2) x show ?case by simp
qed auto

text \<open>
  Cancelling a reader leaves nothing behind: no waiter, and none of the entries it owed an outcome for,
  while the entries of other calles stay. The reservation of every blob request that was waiting is given
  back.
\<close>

theorem cancel_leaves_nothing:
  assumes "settled base (ic_waiters ic) io" and "blob_reach tracker (io_blob io)"
    and "cancel_all ic io reason cfg = (ic', io')"
  shows "ic_waiters ic' = [] \<and> pending_ids io' = base
    \<and> (\<forall>p w. map_of (ic_waiters ic) p = Some w \<and> holds_request (io_blob io) p w \<longrightarrow> unreserved (io_blob io') p)"
proof -
  have tables: "inbound_tables (io_blob io)" using inv_bound(2) [OF reach_manager [OF assms(2)]] .
  have keys: "distinct (map fst (ic_waiters ic))" using assms(1) by (simp add: settled_def)
  have "unreserved (io_blob io') p" if "map_of (ic_waiters ic) p = Some w" "holds_request (io_blob io) p w" for p w
    using cancel_fold_blob [OF tables keys, of p reason cfg] map_of_SomeD [OF that(1)] that(2) assms(3)
    by (auto simp: cancel_all_def cancel_waiters_def)
  with settled_cancel [OF assms(1,3)] show ?thesis by (auto simp: settled_def)
qed


section \<open>The contract on small states\<close>

abbreviation sample_callis :: callis_config where
  "sample_callis \<equiv> \<lparr>cc_session = sample_config, cc_chunk_size = 2, cc_ack_window = 3, cc_inbound_buffer_bytes = 100\<rparr>"

text \<open>Message 5 waits for its answer on channel 3, blob request 9 for its answer on channel 4.\<close>

definition sample_waiting :: inbound_callis_state where
  "sample_waiting = \<lparr>ic_waiters = [(5, MessageWaiter 7 3), (9, BlobAcceptWaiter
     \<lparr>ba_dst_taberna = 7, ba_accept_rx = 4, ba_receiver_state = 0, ba_send_timeout = 10\<rparr>)], ic_cancel_reason = CancelNone\<rparr>"

definition sample_io :: callis_io where
  "sample_io = \<lparr>io_session = sample_session\<lparr>ss_dedupe := \<lparr>dd_set = {}, dd_order = [], dd_pending = [(2, []), (5, []), (9, [])]\<rparr>\<rparr>,
     io_blob = bytes_reserved, io_cancel = CancelNone\<rparr>"

definition sample_answers :: channels where
  "sample_answers = \<lparr>chan_accept = (\<lambda>rx. if rx = 3 then RecvOk (Inr ()) else RecvEmpty), chan_decision = (\<lambda>_. RecvEmpty)\<rparr>"

lemma sample_settled: "settled {2} (ic_waiters sample_waiting) sample_io"
  by (auto simp: settled_def sample_waiting_def sample_io_def dedupe_inv_def pending_ids_def)

theorem drain_settles_witness:
  "OutcomeAck 5 \<in> set (fst (drain_ready sample_waiting sample_io sample_answers sample_callis SendOk 0))"
proof -
  obtain outcomes ic io where d: "drain_ready sample_waiting sample_io sample_answers sample_callis SendOk 0 = (outcomes, ic, io)"
    by (metis prod_cases3)
  have w: "map_of (ic_waiters sample_waiting) 5 = Some (MessageWaiter 7 3)" by (simp add: sample_waiting_def)
  have "waiter_fate 5 v sample_answers SendOk 0 (MessageWaiter 7 3) = Inl (OutcomeAck 5)" for v
    by (simp add: waiter_fate_def sample_answers_def)
  with drain_settles [OF sample_settled d] w have "OutcomeAck 5 \<in> set outcomes"
    by (metis (no_types, lifting) old.sum.simps(5))
  then show ?thesis by (simp add: d)
qed

theorem cancel_leaves_nothing_witness:
  "unreserved (io_blob (snd (cancel_all sample_waiting sample_io CancelRemoteClose sample_callis))) 9 \<and> \<not> unreserved (io_blob sample_io) 9"
proof -
  obtain ic io where c: "cancel_all sample_waiting sample_io CancelRemoteClose sample_callis = (ic, io)" by force
  have reach: "blob_reach no_bytes (io_blob sample_io)" by (simp add: sample_io_def bytes_reserved_reached)
  have w: "map_of (ic_waiters sample_waiting) 9 = Some (BlobAcceptWaiter
      \<lparr>ba_dst_taberna = 7, ba_accept_rx = 4, ba_receiver_state = 0, ba_send_timeout = 10\<rparr>)"
    by (simp add: sample_waiting_def)
  from cancel_leaves_nothing [OF sample_settled reach c] w have "unreserved (io_blob io) 9"
    by (metis holds_request.simps(1))
  moreover have "\<not> unreserved (io_blob sample_io) 9"
    by (simp add: unreserved_def sample_io_def bytes_reserved_def new_manager_def blob_manager_new_def blob_reservation_new_def
        count_bytes_def try_reserve_side_eq no_bytes_def used.simps set_used.simps Let_def)
  ultimately show ?thesis by (simp add: c)
qed

end
