(* ===== verification/Callis_Reader.thy ===== *)
theory Callis_Reader
  imports Callis_Contract
begin

text \<open>
  The reader of a callis over whole runs: frames, drains and cancellations in any order, with other calles
  working on the same session in between. The theorems say that the reader and the session agree on what is
  being delivered, that a malformed frame is refused without touching anything, that every frame is
  answered, and what goes wrong when a frame ends the reader while deliveries are waiting.
\<close>

section \<open>Frames and entries\<close>

lemma begin_entries:
  assumes "session_dedupe_begin s p tx n = (b, s')" and "dedupe_inv (ss_dedupe s)"
  shows "dedupe_inv (ss_dedupe s')"
    and "fst ` set (dd_pending (ss_dedupe s')) = (if b = BeginNew then insert p (fst ` set (dd_pending (ss_dedupe s)))
          else fst ` set (dd_pending (ss_dedupe s)))"
    and "b = BeginNew \<Longrightarrow> p \<notin> fst ` set (dd_pending (ss_dedupe s))"
proof -
  obtain dd where dd: "dedupe_begin (ss_dedupe s) p tx n = (b, dd)" "s' = s\<lparr>ss_dedupe := dd\<rparr>"
    using assms(1) by (auto simp: session_dedupe_begin_def split: prod.splits)
  have eqs: "b = fst (dedupe_begin (ss_dedupe s) p tx n)" "ss_dedupe s' = snd (dedupe_begin (ss_dedupe s) p tx n)"
    using dd by simp_all
  show "dedupe_inv (ss_dedupe s')" using dedupe_begin_inv [OF assms(2), of p tx n] dd by simp
  show "b = BeginNew \<Longrightarrow> p \<notin> fst ` set (dd_pending (ss_dedupe s))"
    using dd(1) by (auto simp: dedupe_begin_def map_of_eq_None_iff split: if_splits option.splits)
  show "fst ` set (dd_pending (ss_dedupe s')) = (if b = BeginNew then insert p (fst ` set (dd_pending (ss_dedupe s)))
          else fst ` set (dd_pending (ss_dedupe s)))"
  proof (cases "map_of (dd_pending (ss_dedupe s)) p")
    case None
    then show ?thesis by (simp add: eqs dedupe_begin_def dom_update)
  next
    case (Some ws)
    then have "p \<in> fst ` set (dd_pending (ss_dedupe s))" by (force dest: map_of_SomeD)
    with Some show ?thesis by (simp add: eqs dedupe_begin_def dom_update insert_absorb)
  qed
qed

text \<open>What the handler of a message or a request does to the entries, by its action.\<close>

definition entered :: "peer_message_id \<Rightarrow> callis_io \<Rightarrow> inbound_action \<Rightarrow> callis_io \<Rightarrow> bool" where
  "entered p io action io' \<longleftrightarrow> dedupe_inv (entries io') \<and>
     (case action of
        ActionWaiter q w \<Rightarrow> q = p \<and>
          (if is_duplicate w then pending_ids io' = pending_ids io
           else pending_ids io' = insert p (pending_ids io) \<and> p \<notin> pending_ids io)
      | _ \<Rightarrow> pending_ids io' = pending_ids io)"

lemma pending_session: "pending_ids (io\<lparr>io_session := s\<rparr>) = fst ` set (dd_pending (ss_dedupe s))"
  by (simp add: pending_ids_def)

lemma message_entered:
  assumes "dedupe_inv (entries io)"
    and "handle_message_frame registry sink cfg header payload reason notify tx io w = (action, io', w')"
  shows "entered (wh_peer_msg_id header) io action io'"
proof -
  let ?p = "wh_peer_msg_id header"
  obtain b s where beg: "session_dedupe_begin (io_session io) ?p tx (Some notify) = (b, s)" by force
  note ent = begin_entries [OF beg assms(1), folded pending_ids_def]
  have comp: "dedupe_inv (ss_dedupe (session_dedupe_complete s ?p r c))"
    "fst ` set (dd_pending (ss_dedupe (session_dedupe_complete s ?p r c))) = fst ` set (dd_pending (ss_dedupe s)) - {?p}" for r c
    using complete_entry_pending [of "io\<lparr>io_session := s\<rparr>" ?p r "\<lparr>cc_session = c, cc_chunk_size = 0, cc_ack_window = 0, cc_inbound_buffer_bytes = 0\<rparr>"] ent(1)
    by (simp_all add: complete_entry_def on_session_def pending_ids_def)
  show ?thesis
    using assms ent comp
    by (auto simp: handle_message_frame_def receive_message_schedule_def beg entered_def Let_def pending_session
        split: if_splits option.splits dedupe_begin_result.splits prod.splits sum.splits dedupe_decision.splits receive_outcome.splits)
qed

lemma request_entered:
  assumes "dedupe_inv (entries io)"
    and "handle_request_frame registry sink cfg primary header payload reason notify tx io w = (Inr action, io', w')"
  shows "entered (wh_peer_msg_id header) io action io'"
proof -
  let ?p = "wh_peer_msg_id header"
  obtain b s where beg: "session_dedupe_begin (io_session io) ?p tx (Some notify) = (b, s)" by force
  note ent = begin_entries [OF beg assms(1), folded pending_ids_def]
  show ?thesis
    using assms ent
    by (auto simp: handle_request_frame_def handle_blob_request_def beg entered_def Let_def pending_session complete_entry_pending
        split: if_splits option.splits dedupe_begin_result.splits prod.splits sum.splits dedupe_decision.splits bool.splits)
qed


lemma session_entries [simp]:
  "ss_dedupe (snd (handle_ack s p)) = ss_dedupe s" "ss_dedupe (snd (handle_error s p err)) = ss_dedupe s"
  "ss_dedupe (handle_close s) = ss_dedupe s"
  by (simp_all add: handle_ack_def handle_error_def handle_close_def Let_def split_beta)

lemma control_entries:
  "entries (snd (handle_error_frame utf8_text header payload io)) = entries io"
  "handle_chunk_frame cfg callis_id header payload now io = Some (r, io') \<Longrightarrow> entries io' = entries io"
  "entries (snd (handle_complete_frame header payload io)) = entries io"
  by (auto simp: handle_error_frame_def handle_chunk_frame_def handle_complete_frame_def on_session_def Let_def
      split: sum.splits option.splits prod.splits blob_chunk_outcome.splits)

definition control_types :: "message_type set" where
  "control_types = {MSG_ACK, MSG_ERROR, MSG_CLOSE, MSG_KEEPALIVE, MSG_HELLO, MSG_HELLO_RESPONSE, MSG_RESERVED_7,
     MSG_BLOB_TRANSFER_CHUNK, MSG_BLOB_TRANSFER_COMPLETE}"

lemma not_control:
  assumes "t \<notin> control_types"
  shows "t \<noteq> MSG_ACK" "t \<noteq> MSG_ERROR" "t \<noteq> MSG_CLOSE" "t \<noteq> MSG_KEEPALIVE" "t \<noteq> MSG_HELLO" "t \<noteq> MSG_HELLO_RESPONSE"
    "t \<noteq> MSG_RESERVED_7" "t \<noteq> MSG_BLOB_TRANSFER_CHUNK" "t \<noteq> MSG_BLOB_TRANSFER_COMPLETE"
  using assms by (simp_all add: control_types_def)

lemma entered_same: "entries io' = entries io \<Longrightarrow> dedupe_inv (entries io) \<Longrightarrow> entered p io ActionNone io'"
  by (simp add: entered_def pending_ids_def)

lemma control_frame:
  assumes "handle_inbound_frame registry sink utf8_text from_bits cfg callis_id primary header payload reason notify tx now io w = Some (r, io', w')"
    and "wh_msg_type header \<in> control_types"
  shows "entries io' = entries io \<and> (r = Inr ActionNone \<or> (\<exists>e. r = Inl e))"
proof -
  have error: "fst (handle_error_frame utf8_text header payload io) = Inr ActionNone \<or> (\<exists>e. fst (handle_error_frame utf8_text header payload io) = Inl e)"
    "fst (handle_complete_frame header payload io) = Inr ActionNone \<or> (\<exists>e. fst (handle_complete_frame header payload io) = Inl e)"
    by (auto simp: handle_error_frame_def handle_complete_frame_def Let_def split: sum.splits option.splits prod.splits)
  have chunk: "r = Inr ActionNone \<or> (\<exists>e. r = Inl e)" if "handle_chunk_frame cfg callis_id header payload now io = Some (r, io')"
    using that by (auto simp: handle_chunk_frame_def Let_def split: option.splits prod.splits blob_chunk_outcome.splits)
  show ?thesis
    using assms error control_entries(1) [of utf8_text header payload io] control_entries(3) [of header payload io]
      control_entries(2) [of cfg callis_id header payload now io] chunk
    unfolding handle_inbound_frame_def Let_def control_types_def
    by (auto simp: on_session_def set_cancel_reason_def split_beta split: option.splits if_splits)
qed

lemma frame_entered:
  assumes inv: "dedupe_inv (entries io)"
    and frame: "handle_inbound_frame registry sink utf8_text from_bits cfg callis_id primary header payload reason notify tx now io w = Some (r, io', w')"
  shows "case r of Inr action \<Rightarrow> entered (wh_peer_msg_id header) io action io' \<and> (wh_msg_type header \<in> control_types \<longrightarrow> action = ActionNone)
    | Inl _ \<Rightarrow> entries io' = entries io"
proof (cases "wh_msg_type header \<in> control_types")
  case True
  with control_frame [OF frame] entered_same [OF _ inv] show ?thesis by auto
next
  case False
  note none = not_control [OF False]
  have refused: "io' = io" if "handle_request_frame registry sink cfg primary header payload reason notify tx io w = (Inl e, io', w')" for e
    using that by (auto simp: handle_request_frame_def Let_def split: if_splits prod.splits)
  show ?thesis
    using frame False refused
    by (auto simp: handle_inbound_frame_def Let_def none split: option.splits if_splits sum.splits prod.splits
        dest: request_entered [OF inv] message_entered [OF inv])
qed

text \<open>The waiters of a delivery that were replaced by the waiter of a duplicate.\<close>

definition displaced ::
  "(peer_message_id \<times> inbound_waiter) list \<Rightarrow> (peer_message_id \<times> inbound_waiter) list \<Rightarrow> peer_message_id set" where
  "displaced ws ws' = {p \<in> owed_ids ws. \<exists>rx. map_of ws' p = Some (DuplicateWaiter rx)}"

lemma owed_not_duplicate: "distinct (map fst ws) \<Longrightarrow> p \<in> owed_ids ws \<Longrightarrow> map_of ws p \<noteq> Some (DuplicateWaiter rx)"
proof -
  assume keys: "distinct (map fst ws)" and "p \<in> owed_ids ws"
  then obtain w where "(p, w) \<in> set ws" "\<not> is_duplicate w" by (auto simp: owed_ids_iff)
  with map_of_is_SomeI [OF keys this(1)] show ?thesis by auto
qed

lemma displaced_simps [simp]:
  "displaced ws [] = {}" "distinct (map fst ws) \<Longrightarrow> displaced ws ws = {}"
  "distinct (map fst ws) \<Longrightarrow> displaced ws (AList.update p w ws) = (if is_duplicate w then {p} \<inter> owed_ids ws else {})"
proof -
  show "displaced ws [] = {}" by (simp add: displaced_def)
  show "displaced ws ws = {}" if "distinct (map fst ws)" using owed_not_duplicate [OF that] by (auto simp: displaced_def)
  show "displaced ws (AList.update p w ws) = (if is_duplicate w then {p} \<inter> owed_ids ws else {})" if "distinct (map fst ws)"
    using owed_not_duplicate [OF that]
    by (cases w) (auto simp: displaced_def update_conv' split: if_splits simp del: map_of_eq_Some_iff Some_eq_map_of_iff)
qed

lemma settled_entered:
  assumes "settled base ws io" and "entered p io action io'"
  shows "case action of ActionWaiter q waiter \<Rightarrow> settled (base \<union> displaced ws (AList.update q waiter ws)) (AList.update q waiter ws) io'
    | _ \<Rightarrow> settled base ws io'"
proof -
  have "distinct (map fst ws)" "base \<subseteq> pending_ids io" "owed_ids ws \<subseteq> pending_ids io" using assms(1) by (auto simp: settled_def)
  then show ?thesis
    using assms by (auto simp: settled_def entered_def owed_update distinct_update split: inbound_action.splits if_splits)
qed

lemma send_outcome_entries [simp]: "entries (send_inbound_outcome callis primary cfg now io outcome) = entries io"
  by (cases outcome) (simp_all add: send_a1_def on_session_def)

lemma send_outcomes_entries [simp]: "entries (foldl (send_inbound_outcome callis primary cfg now) io outcomes) = entries io"
  by (induction outcomes arbitrary: io) simp_all

lemma settled_entries: "settled base ws io \<Longrightarrow> entries io' = entries io \<Longrightarrow> settled base ws io'"
  by (simp add: settled_def pending_ids_def)


section \<open>Runs of the reader\<close>

definition reader_new :: "callis_io \<Rightarrow> reader" where
  "reader_new io = \<lparr>rd_inbound = inbound_callis_new, rd_read_closed = False, rd_stopped = False, rd_shutdown = False, rd_io = io\<rparr>"

text \<open>
  \<open>base\<close> are the entries of the other calles, \<open>stray\<close> those whose waiter on this callis was displaced by a copy of
  the message. \<open>others\<close>: anything that leaves the entries of this reader as they are. A restart of the session,
  which clears the table, is not among them.
\<close>

inductive reader_run :: "('i, 'w) inbox_sink \<Rightarrow> peer_message_id set \<Rightarrow> peer_message_id set \<Rightarrow> reader \<Rightarrow> 'w \<Rightarrow> bool"
  for sink :: "('i, 'w) inbox_sink" where
  start: "dedupe_inv (entries io) \<Longrightarrow> reader_run sink (pending_ids io) {} (reader_new io) w"
| drain: "reader_run sink base stray r w \<Longrightarrow> \<not> rd_stopped r \<Longrightarrow>
    reader_run sink base stray (reader_drain callis primary ch cfg ensure now r) w"
| event: "reader_run sink base stray r w \<Longrightarrow> \<not> rd_stopped r \<Longrightarrow>
    reader_arm registry sink utf8_text from_bits cfg callis_id callis primary notify now ev r w = Some (r', w') \<Longrightarrow>
    stray' = stray \<union> displaced (ic_waiters (rd_inbound r)) (ic_waiters (rd_inbound r')) \<Longrightarrow>
    reader_run sink base stray' r' w'"
| others: "reader_run sink base stray r w \<Longrightarrow> dedupe_inv (entries io) \<Longrightarrow>
    pending_ids io = base' \<union> stray \<union> owed_ids (ic_waiters (rd_inbound r)) \<Longrightarrow>
    base' \<inter> (stray \<union> owed_ids (ic_waiters (rd_inbound r))) = {} \<Longrightarrow>
    reader_run sink base' stray (r\<lparr>rd_io := io\<rparr>) w'"

abbreviation reader_settled :: "peer_message_id set \<Rightarrow> reader \<Rightarrow> bool" where
  "reader_settled base r \<equiv> settled base (ic_waiters (rd_inbound r)) (rd_io r)"

lemma record_cancel_fields:
  assumes "record_cancel_reason ic io reason = (ic', io')"
  shows "ic_waiters ic' = ic_waiters ic" "entries io' = entries io" "io_session io' = io_session io" "io_blob io' = io_blob io"
  using assms by (auto simp: record_cancel_reason_def set_cancel_reason_def split: if_splits)

lemma settled_close: "reader_settled base r \<Longrightarrow> reader_settled base (close_reading r reason)"
proof -
  assume inv: "reader_settled base r"
  obtain ic io where rec: "record_cancel_reason (rd_inbound r) (rd_io r) reason = (ic, io)" by force
  from settled_entries [OF inv record_cancel_fields(2) [OF rec]] record_cancel_fields(1) [OF rec] show ?thesis
    by (simp add: close_reading_def rec)
qed

lemma close_waiters: "ic_waiters (rd_inbound (close_reading r reason)) = ic_waiters (rd_inbound r)"
  using record_cancel_fields(1) by (simp add: close_reading_def split: prod.split)

lemma settled_drain:
  assumes "reader_settled base r"
  shows "reader_settled base (reader_drain callis primary ch cfg ensure now r)"
proof -
  obtain os1 ws1 io1 where a: "drain_accept_waiters (ic_waiters (rd_inbound r)) (rd_io r) ch cfg ensure now = (os1, ws1, io1)"
    by (metis prod_cases3)
  obtain os2 ws2 io2 where b: "drain_blob_callis_waiters ws1 io1 cfg now = (os2, ws2, io2)" by (metis prod_cases3)
  have "settled base ws1 io1" using drained_accept [OF assms, of ch cfg ensure now] by (simp add: drained_from_def a)
  from drained_blob_callis [OF this, of cfg now] have "settled base ws2 io2" by (simp add: drained_from_def b)
  from settled_entries [OF this send_outcomes_entries [of callis primary cfg now io2 "os1 @ os2"]] show ?thesis
    by (simp add: reader_drain_def drain_ready_def a b)
qed

lemma settled_frame:
  assumes inv: "reader_settled base r"
    and frame: "reader_frame registry sink utf8_text from_bits cfg callis_id callis primary notify header payload tx now r w = Some (r', w')"
  shows "reader_settled (base \<union> displaced (ic_waiters (rd_inbound r)) (ic_waiters (rd_inbound r'))) r'"
proof -
  have keys: "distinct (map fst (ic_waiters (rd_inbound r)))" using inv by (simp add: settled_def)
  obtain res io1 where h: "handle_inbound_frame registry sink utf8_text from_bits cfg callis_id primary header payload
      (ic_cancel_reason (rd_inbound r)) notify tx now (rd_io r) w = Some (res, io1, w')"
  proof (cases "handle_inbound_frame registry sink utf8_text from_bits cfg callis_id primary header payload
      (ic_cancel_reason (rd_inbound r)) notify tx now (rd_io r) w")
    case None
    with frame show ?thesis by (simp add: reader_frame_def)
  next
    case (Some t)
    obtain res io1 w1 where t: "t = (res, io1, w1)" by (metis prod_cases3)
    with Some frame have "w' = w1" by (simp add: reader_frame_def Let_def)
    with Some t that show ?thesis by simp
  qed
  have dd: "dedupe_inv (entries (rd_io r))" using inv by (simp add: settled_def)
  note ent = frame_entered [OF dd h]
  show ?thesis
  proof (cases res)
    case (Inl err)
    obtain ic io2 where rec: "record_cancel_reason (rd_inbound r) io1 CancelConnectionLost = (ic, io2)" by force
    have "entries io2 = entries (rd_io r)" using ent Inl record_cancel_fields(2) [OF rec] by simp
    from settled_entries [OF inv this] have "settled base (ic_waiters ic) io2" by (simp add: record_cancel_fields(1) [OF rec])
    moreover have "rd_inbound r' = ic" "rd_io r' = io2" using frame by (auto simp: reader_frame_def h Inl rec)
    ultimately show ?thesis using keys record_cancel_fields(1) [OF rec] by simp
  next
    case (Inr action)
    from settled_entered [OF inv, of "wh_peer_msg_id header" action io1] ent Inr frame h keys show ?thesis
      by (cases action) (auto simp: reader_frame_def insert_waiter_def simp del: displaced_simps(3)
          intro: settled_entries [OF _ send_outcome_entries])
  qed
qed

lemma settled_arm:
  assumes "reader_settled base r"
    and "reader_arm registry sink utf8_text from_bits cfg callis_id callis primary notify now ev r w = Some (r', w')"
  shows "reader_settled (base \<union> displaced (ic_waiters (rd_inbound r)) (ic_waiters (rd_inbound r'))) r'"
proof (cases ev)
  case EventCancel
  obtain ic io where c: "cancel_all (observe_cancel_reason (rd_inbound r) (io_cancel (rd_io r))) (rd_io r) (io_cancel (rd_io r)) cfg = (ic, io)"
    by force
  have "settled base (ic_waiters (observe_cancel_reason (rd_inbound r) (io_cancel (rd_io r)))) (rd_io r)"
    using assms(1) by (simp add: observe_cancel_reason_def)
  from settled_cancel [OF this c] assms EventCancel c show ?thesis
    by (auto simp: reader_arm_def Let_def observe_cancel_reason_def settled_def split: if_splits)
next
  case (EventFrame header payload tx)
  show ?thesis
  proof (cases "rd_read_closed r")
    case True
    with EventFrame assms show ?thesis by (simp add: reader_arm_def settled_def)
  next
    case False
    with EventFrame assms(2) have "reader_frame registry sink utf8_text from_bits cfg callis_id callis primary notify header payload tx now r w = Some (r', w')"
      by (simp add: reader_arm_def)
    from settled_frame [OF assms(1) this] show ?thesis .
  qed
qed (use assms settled_close [OF assms(1)] close_waiters in \<open>auto simp: reader_arm_def settled_def split: if_splits\<close>)

lemma run_settled: "reader_run sink base stray r w \<Longrightarrow> reader_settled (base \<union> stray) r \<and> base \<inter> stray = {}"
proof (induction rule: reader_run.induct)
  case (start io w)
  then show ?case by (simp add: settled_def reader_new_def inbound_callis_new_def)
next
  case (drain base stray r w callis primary ch cfg ensure now)
  then show ?case using settled_drain by blast
next
  case (event base stray r w registry utf8_text from_bits cfg callis_id callis primary notify now ev r' w' stray')
  then have "reader_settled (base \<union> stray') r'"
    using settled_arm [of "base \<union> stray" r registry sink utf8_text from_bits cfg callis_id callis primary notify now ev w r' w'] by (simp add: Un_assoc)
  moreover have "base \<inter> displaced (ic_waiters (rd_inbound r)) ws' = {}" for ws'
    using event.IH by (auto simp: settled_def displaced_def)
  ultimately show ?case using event.IH event.hyps(4) by blast
next
  case (others base stray r w io base' w')
  then show ?case by (auto simp: settled_def)
qed

text \<open>
  C7. Reader and session agree on what is being delivered. In every run of the reader, whatever frames come,
  the entries of the session are those of the other calles, those of the reader's own waiters, and those whose
  waiter was displaced by a copy of the message on the same callis, and no entry is of two kinds. So a reader that
  has no waiter left leaves the entries of the others and the displaced ones, and each of its waiters finds its
  entry when its answer comes. A run without such a copy leaves only the entries of the others; \<open>copy_displaces_waiter\<close>
  shows that a copy leaves an entry behind. Between the reader's steps the other calles may do anything but take
  this reader's entries away, which only a restart of the session does.
\<close>

theorem reader_owes_its_waiters:
  assumes "reader_run sink base stray r w"
  shows "pending_ids (rd_io r) = base \<union> stray \<union> owed_ids (ic_waiters (rd_inbound r))
    \<and> base \<inter> stray = {} \<and> (base \<union> stray) \<inter> owed_ids (ic_waiters (rd_inbound r)) = {}
    \<and> distinct (map fst (ic_waiters (rd_inbound r)))
    \<and> (ic_waiters (rd_inbound r) = [] \<longrightarrow> pending_ids (rd_io r) = base \<union> stray)"
  using run_settled [OF assms] by (auto simp: settled_def)


section \<open>Frames that are refused\<close>

text \<open>
  The frames that a peer may send on an established callis: at most the flag of a blob, that flag only on a
  message and on a callis with the dispatch manager, and none of the types of the handshake.
\<close>

definition header_allowed :: "bool \<Rightarrow> wire_header \<Rightarrow> bool" where
  "header_allowed primary header \<longleftrightarrow>
     wh_msg_type header \<notin> {MSG_HELLO, MSG_HELLO_RESPONSE, MSG_RESERVED_7}
     \<and> (wh_flags header = 0 \<or> wh_flags header = WireFlags_BLOB \<and> primary \<and> wh_msg_type header \<notin> control_types)"

text \<open>
  What \<open>bitflags\<close> documents of \<open>from_bits\<close>: it takes exactly the values without an unknown bit. It is the
  hypothesis on the parameter, with a function that satisfies it.
\<close>

definition flags_checked :: "(u16 \<Rightarrow> u16 option) \<Rightarrow> bool" where
  "flags_checked from_bits \<longleftrightarrow>
     (\<forall>bits. from_bits bits = (if bits AND NOT (WireFlags_BLOB OR WireFlags_RECONNECT) = 0 then Some bits else None))"

definition WireFlags_from_bits :: "u16 \<Rightarrow> u16 option" where
  "WireFlags_from_bits bits = (if bits AND NOT (WireFlags_BLOB OR WireFlags_RECONNECT) = 0 then Some bits else None)"

lemma flags_checked_sample: "flags_checked WireFlags_from_bits"
  by (simp add: flags_checked_def WireFlags_from_bits_def)

lemma flags_below: "f AND NOT 3 = 0 \<Longrightarrow> f = 0 \<or> f = 1 \<or> f = 2 \<or> f = 3" for f :: u16
proof -
  assume none: "f AND NOT 3 = 0"
  have "f = f AND (3 OR NOT 3)" by simp
  also have "\<dots> = f AND 3" using none by (simp only: bit.conj_disj_distrib) simp
  also have "\<dots> = take_bit 2 f" by (simp add: take_bit_eq_mask mask_eq_exp_minus_1)
  finally have "unat f = take_bit 2 (unat f)" by (metis unsigned_take_bit_eq)
  then have "unat f < 4" using take_bit_nat_less_exp [of 2 "unat f"] by simp
  then have "unat f = unat (0 :: u16) \<or> unat f = unat (1 :: u16) \<or> unat f = unat (2 :: u16) \<or> unat f = unat (3 :: u16)" by auto
  then show ?thesis by (simp only: word_unat_eq_iff)
qed

lemma legal_flags:
  assumes "flags_checked from_bits"
  shows "f = 0 \<or> f = WireFlags_BLOB \<Longrightarrow> from_bits f = Some f \<and> f AND WireFlags_RECONNECT \<noteq> WireFlags_RECONNECT"
    and "f \<noteq> 0 \<Longrightarrow> f \<noteq> WireFlags_BLOB \<Longrightarrow> from_bits f = None \<or> (from_bits f = Some f \<and> f AND WireFlags_RECONNECT = WireFlags_RECONNECT)"
  using assms flags_below [of f] by (auto simp: flags_checked_def WireFlags_BLOB_def WireFlags_RECONNECT_def)

lemma disallowed_control:
  "disallows_flags t \<longleftrightarrow> t \<in> control_types \<and> t \<noteq> MSG_HELLO \<and> t \<noteq> MSG_HELLO_RESPONSE"
  by (auto simp: disallows_flags_def control_types_def MSG_HELLO_def MSG_HELLO_RESPONSE_def MSG_ACK_def MSG_ERROR_def MSG_CLOSE_def
      MSG_KEEPALIVE_def MSG_RESERVED_7_def MSG_BLOB_TRANSFER_CHUNK_def MSG_BLOB_TRANSFER_COMPLETE_def)

lemma header_decides:
  assumes "flags_checked from_bits"
  shows "(\<not> header_allowed primary header \<longrightarrow>
      handle_inbound_frame registry sink utf8_text from_bits cfg callis_id primary header payload reason notify tx now io w
        = Some (Inl violation, io, w))
   \<and> (header_allowed primary header \<and> wh_msg_type header \<notin> control_types \<longrightarrow>
      (\<exists>action io' w'. handle_inbound_frame registry sink utf8_text from_bits cfg callis_id primary header payload reason notify tx now io w
        = Some (Inr action, io', w')))"
proof (cases "wh_flags header = 0 \<or> wh_flags header = WireFlags_BLOB")
  case False
  with legal_flags(2) [OF assms, of "wh_flags header"] show ?thesis by (auto simp: header_allowed_def handle_inbound_frame_def)
next
  case True
  note flags = legal_flags(1) [OF assms True]
  have blob: "WireFlags_BLOB AND WireFlags_BLOB = WireFlags_BLOB" "WireFlags_BLOB \<noteq> 0" "0 AND WireFlags_BLOB \<noteq> WireFlags_BLOB"
    by (simp_all add: WireFlags_BLOB_def)
  show ?thesis
  proof (cases "wh_msg_type header \<in> control_types")
    case True
    with flags disallowed_control [of "wh_msg_type header"] show ?thesis
      by (auto simp: handle_inbound_frame_def header_allowed_def Let_def MSG_HELLO_def MSG_HELLO_RESPONSE_def MSG_RESERVED_7_def
          MSG_ACK_def MSG_ERROR_def MSG_CLOSE_def MSG_KEEPALIVE_def)
  next
    case False
    note none = not_control [OF False]
    with flags True blob none show ?thesis
      by (auto simp: handle_inbound_frame_def header_allowed_def Let_def disallowed_control split_beta handle_request_frame_def)
  qed
qed

lemma refused_frame:
  "flags_checked from_bits \<Longrightarrow> \<not> header_allowed primary header \<Longrightarrow>
   handle_inbound_frame registry sink utf8_text from_bits cfg callis_id primary header payload reason notify tx now io w = Some (Inl violation, io, w)"
  by (rule header_decides [THEN conjunct1, THEN mp])

text \<open>
  C38. A frame that is not allowed is a protocol violation that touches nothing: neither the session, nor the
  blob manager, nor an inbox. An allowed message or blob request is never a violation, whatever the state
  of the session and the answer of the inbox.
\<close>

theorem malformed_frames_refused:
  assumes "flags_checked from_bits"
  shows "(\<not> header_allowed primary header \<longrightarrow>
      handle_inbound_frame registry sink utf8_text from_bits cfg callis_id primary header payload reason notify tx now io w
        = Some (Inl violation, io, w))
   \<and> (header_allowed primary header \<and> wh_msg_type header \<notin> control_types \<longrightarrow>
      (\<exists>action io' w'. handle_inbound_frame registry sink utf8_text from_bits cfg callis_id primary header payload reason notify tx now io w
        = Some (Inr action, io', w')))"
  by (rule header_decides [OF assms])

section \<open>Deliveries that a frame strands\<close>

lemma owed_is_pending:
  assumes "reader_run sink base stray r w" and "p \<in> owed_ids (ic_waiters (rd_inbound r))"
  shows "fst (session_dedupe_begin (io_session (rd_io r)) p tx notify) = BeginPendingDuplicate tx"
proof -
  have inv: "dedupe_inv (entries (rd_io r))" and p: "p \<in> pending_ids (rd_io r)"
    using run_settled [OF assms(1)] assms(2) by (auto simp: settled_def)
  then obtain ws where "map_of (dd_pending (entries (rd_io r))) p = Some ws"
    by (metis dom_pending not_None_eq pending_ids_def set_map)
  moreover have "p \<notin> dd_set (entries (rd_io r))" using inv p by (auto simp: dedupe_inv_def pending_ids_def)
  ultimately show ?thesis by (simp add: session_dedupe_begin_def dedupe_begin_def)
qed

text \<open>
  A violation by the peer ends the reader at once, without the cancellation that every other end goes
  through. The deliveries that were waiting for the application keep their entries although no waiter is
  left to complete them, so that the peer's replay of such a message on a new callis is taken for a
  duplicate of a delivery in progress and waits for a decision that nobody makes.
\<close>

theorem violation_strands_deliveries:
  assumes run: "reader_run sink base stray r w" and checked: "flags_checked from_bits" and "\<not> rd_read_closed r" and "\<not> header_allowed primary header"
    and arm: "reader_arm registry sink utf8_text from_bits cfg callis_id callis primary notify now (EventFrame header payload tx) r w = Some (r', w')"
  shows "rd_stopped r' \<and> ic_waiters (rd_inbound r') = ic_waiters (rd_inbound r)
    \<and> (\<forall>p \<in> owed_ids (ic_waiters (rd_inbound r)).
         fst (session_dedupe_begin (io_session (rd_io r')) p tx' notify') = BeginPendingDuplicate tx')"
proof -
  obtain ic io where rec: "record_cancel_reason (rd_inbound r) (rd_io r) CancelConnectionLost = (ic, io)" by force
  have "r' = r\<lparr>rd_inbound := ic, rd_io := io, rd_shutdown := True, rd_stopped := True\<rparr>"
    using arm assms(3,4) rec by (simp add: reader_arm_def reader_frame_def refused_frame [OF checked])
  with record_cancel_fields [OF rec] owed_is_pending [OF run] show ?thesis by simp
qed

text \<open>
  The waiters are keyed by the number of the message alone. A second copy of a message that is being
  delivered, on the same callis, takes the place of the waiter of the delivery: whatever the application
  answers from then on, the entry stays.
\<close>

theorem copy_displaces_waiter:
  assumes run: "reader_run sink base stray r w" and checked: "flags_checked from_bits" and open_reader: "\<not> rd_read_closed r" "ic_cancel_reason (rd_inbound r) = CancelNone"
    "\<not> ss_closing (io_session (rd_io r))"
    and waiting: "map_of (ic_waiters (rd_inbound r)) (wh_peer_msg_id header) = Some (MessageWaiter dst rx)"
    and copy: "header_allowed primary header" "wh_flags header = 0" "wh_msg_type header \<notin> control_types"
    and local: "resolve_local registry (wh_dst_taberna header) = Some inbox"
  shows "\<exists>r'. reader_arm registry sink utf8_text from_bits cfg callis_id callis primary notify now (EventFrame header payload tx) r w = Some (r', w)
    \<and> map_of (ic_waiters (rd_inbound r')) (wh_peer_msg_id header) = Some (DuplicateWaiter tx)
    \<and> wh_peer_msg_id header \<in> pending_ids (rd_io r')"
proof -
  let ?p = "wh_peer_msg_id header"
  have owed: "?p \<in> owed_ids (ic_waiters (rd_inbound r))"
    using waiting by (auto simp: owed_ids_iff dest!: map_of_SomeD intro: exI [of _ "MessageWaiter dst rx"])
  obtain s where s: "session_dedupe_begin (io_session (rd_io r)) ?p tx (Some notify) = (BeginPendingDuplicate tx, s)"
    using owed_is_pending [OF run owed, of tx "Some notify"] by (metis prod.collapse)
  have inv: "dedupe_inv (entries (rd_io r))" and pending: "?p \<in> pending_ids (rd_io r)"
    using run_settled [OF run] owed by (auto simp: settled_def)
  have msg: "handle_message_frame registry sink cfg header payload CancelNone notify tx (rd_io r) w =
      (ActionWaiter ?p (DuplicateWaiter tx), (rd_io r)\<lparr>io_session := s\<rparr>, w)"
    using open_reader local by (simp add: handle_message_frame_def receive_message_schedule_def s)
  note none = not_control [OF copy(3)]
  have "handle_inbound_frame registry sink utf8_text from_bits cfg callis_id primary header payload CancelNone notify tx now (rd_io r) w =
      Some (Inr (ActionWaiter ?p (DuplicateWaiter tx)), (rd_io r)\<lparr>io_session := s\<rparr>, w)"
    using copy legal_flags(1) [OF checked, of 0] none by (simp add: handle_inbound_frame_def Let_def msg WireFlags_BLOB_def)
  moreover have "?p \<in> pending_ids ((rd_io r)\<lparr>io_session := s\<rparr>)"
    using begin_entries(2) [OF s inv] pending by (simp add: pending_ids_def)
  ultimately show ?thesis
    using open_reader by (simp add: reader_arm_def reader_frame_def insert_waiter_def update_conv' pending_ids_def)
qed


section \<open>A small run\<close>

text \<open>Message 5 reaches the one inbox, which will answer on channel 3.\<close>

abbreviation sample_registry :: "unit taberna_registry" where
  "sample_registry \<equiv> [(7, ())]"

definition sample_sink :: "(unit, nat) inbox_sink" where
  "sample_sink i t payload receiver notify w = (Inr 3, Suc w)"

abbreviation sample_frame :: "u16 \<Rightarrow> wire_header" where
  "sample_frame flags \<equiv> \<lparr>wh_version = 1, wh_flags = flags, wh_msg_type = A3_MESSAGE_TYPE_BASE, wh_peer_msg_id = 5, wh_src_taberna = 6,
     wh_dst_taberna = 7, wh_payload_len = 0\<rparr>"

definition sample_start :: callis_io where
  "sample_start = \<lparr>io_session = sample_session, io_blob = new_manager, io_cancel = CancelNone\<rparr>"

definition sample_arm :: "u16 \<Rightarrow> reader \<Rightarrow> nat \<Rightarrow> (reader \<times> nat) option" where
  "sample_arm flags = reader_arm sample_registry sample_sink (\<lambda>_. []) WireFlags_from_bits sample_callis 2 CallisPrimary True 0 0 (EventFrame (sample_frame flags) [] 8)"

definition sample_delivering :: reader where
  "sample_delivering = \<lparr>rd_inbound = \<lparr>ic_waiters = [(5, MessageWaiter 7 3)], ic_cancel_reason = CancelNone\<rparr>, rd_read_closed = False,
     rd_stopped = False, rd_shutdown = False,
     rd_io = sample_start\<lparr>io_session := sample_session\<lparr>ss_dedupe := \<lparr>dd_set = {}, dd_order = [], dd_pending = [(5, [])]\<rparr>\<rparr>\<rparr>\<rparr>"

lemma sample_not_control: "A3_MESSAGE_TYPE_BASE \<notin> control_types"
  by (simp add: control_types_def A3_MESSAGE_TYPE_BASE_def MSG_HELLO_def MSG_HELLO_RESPONSE_def MSG_ACK_def MSG_ERROR_def MSG_CLOSE_def
      MSG_KEEPALIVE_def MSG_RESERVED_7_def MSG_BLOB_TRANSFER_CHUNK_def MSG_BLOB_TRANSFER_COMPLETE_def)

lemma sample_first: "sample_arm 0 (reader_new sample_start) 0 = Some (sample_delivering, Suc 0)"
  using not_control [OF sample_not_control] legal_flags(1) [OF flags_checked_sample, of 0]
  by (simp add: sample_arm_def reader_new_def inbound_callis_new_def reader_arm_def reader_frame_def handle_inbound_frame_def
      handle_message_frame_def receive_message_schedule_def session_dedupe_begin_def dedupe_begin_def sample_start_def
      sample_session_def session_new_def dedupe_new_def resolve_local_def sample_sink_def insert_waiter_def WireFlags_BLOB_def
      sample_delivering_def Let_def disallowed_control sample_not_control)

lemma sample_run: "reader_run sample_sink {} {} sample_delivering (Suc 0)"
proof -
  have "dedupe_inv (entries sample_start)" "pending_ids sample_start = {}"
    by (simp_all add: sample_start_def sample_session_def session_new_def dedupe_inv_def dedupe_new_def pending_ids_def)
  with reader_run.start [of sample_start sample_sink 0] have "reader_run sample_sink {} {} (reader_new sample_start) 0" by simp
  from reader_run.event [OF this _ sample_first [unfolded sample_arm_def] refl] show ?thesis
    by (simp add: reader_new_def inbound_callis_new_def displaced_def)
qed

theorem reader_owes_its_waiters_witness: "pending_ids (rd_io sample_delivering) = {5}"
  using reader_owes_its_waiters [OF sample_run] by (simp add: sample_delivering_def)

theorem malformed_frames_refused_witness:
  "handle_inbound_frame sample_registry sample_sink (\<lambda>_. []) WireFlags_from_bits sample_callis 2 True (sample_frame WireFlags_RECONNECT) [] CancelNone 0 8 0 sample_start 0
     = Some (Inl violation, sample_start, 0)"
proof -
  have "\<not> header_allowed True (sample_frame WireFlags_RECONNECT)"
    by (simp add: header_allowed_def WireFlags_RECONNECT_def WireFlags_BLOB_def)
  then show ?thesis by (rule malformed_frames_refused [OF flags_checked_sample, THEN conjunct1, THEN mp])
qed

theorem violation_strands_deliveries_witness:
  "\<exists>r'. sample_arm WireFlags_RECONNECT sample_delivering 2 = Some (r', 2) \<and> rd_stopped r'
     \<and> fst (session_dedupe_begin (io_session (rd_io r')) 5 9 None) = BeginPendingDuplicate 9"
proof -
  have refused: "\<not> header_allowed True (sample_frame WireFlags_RECONNECT)"
    by (simp add: header_allowed_def WireFlags_RECONNECT_def WireFlags_BLOB_def)
  have run: "reader_run sample_sink {} {} sample_delivering 2"
    using reader_run.others [OF sample_run, of "rd_io sample_delivering" "{}" 2] run_settled [OF sample_run]
    by (simp add: settled_def)
  obtain r' where arm: "sample_arm WireFlags_RECONNECT sample_delivering 2 = Some (r', 2)"
    using refused by (simp add: sample_arm_def reader_arm_def reader_frame_def sample_delivering_def split_beta refused_frame [OF flags_checked_sample])
  from violation_strands_deliveries [OF run flags_checked_sample _ refused arm [unfolded sample_arm_def], of 9 None] arm show ?thesis
    by (simp add: sample_delivering_def)
qed

theorem copy_displaces_waiter_witness:
  "\<exists>r'. sample_arm 0 sample_delivering (Suc 0) = Some (r', Suc 0)
     \<and> map_of (ic_waiters (rd_inbound r')) 5 = Some (DuplicateWaiter 8) \<and> 5 \<in> pending_ids (rd_io r')"
  using copy_displaces_waiter [OF sample_run flags_checked_sample, of "sample_frame 0" 7 3 True sample_registry "()" "\<lambda>_. []" sample_callis 2 CallisPrimary 0 0 "[]" 8]
    not_control [OF sample_not_control]
  by (simp add: sample_arm_def sample_delivering_def sample_start_def sample_session_def session_new_def header_allowed_def
      sample_not_control resolve_local_def)

end
