(* ===== verification/Transmitter.thy ===== *)
theory Transmitter
  imports Callis_Reader
begin

text \<open>
  The transmitting half of a callis task (\<^verbatim>\<open>run_primary_transmitter\<close> and \<^verbatim>\<open>run_blob_transmitter\<close> in
  \<^verbatim>\<open>src/crates/peering/src/transport/callis.rs\<close>). A turn of the loop first decides what to do, which takes a
  claim or a lease or looks at the event that ended the wait, and then does it. What a turn meets is an
  argument: the time, the operations of the other tasks at each await, the number of bytes after which a
  write is still going on when its time is up, and the event that ends the wait if there is nothing to do.
\<close>

section \<open>Writing in time\<close>

definition timeout_at :: "nat option \<Rightarrow> write_stream \<Rightarrow> unit result \<times> write_stream \<Rightarrow> unit result option \<times> write_stream" where
  "timeout_at late ws write =
     (case late of
        None \<Rightarrow> (Some (fst write), snd write)
      | Some n \<Rightarrow> (None, (snd write)\<lparr>ws_out := take (length (ws_out ws) + n) (ws_out (snd write))\<rparr>))"

datatype tx_wait = WaitShutdown bool | WaitInternal bool | WaitWork | WaitClose | WaitTick

section \<open>The primary transmitter\<close>

record primary_tx =
  tx_writer :: write_stream
  tx_last_send :: instant
  tx_internal_shutdown :: bool

record primary_env =
  en_now :: instant
  en_after :: instant
  en_late :: "nat option"
  en_others :: "nat \<Rightarrow> session_op list"
  en_wait :: tx_wait
  en_config :: session_config
  en_keepalive :: duration

datatype primary_plan =
    PlanClose
  | PlanReturn retained_claim aurelia_error
  | PlanSend retained_claim
  | PlanKeepalive
  | PlanIdle
  | PlanStop

abbreviation session_run :: "peer_session \<Rightarrow> session_op list \<Rightarrow> peer_session" where
  "session_run \<equiv> foldl session_step"

definition primary_wait_plan :: "primary_env \<Rightarrow> peer_session \<Rightarrow> primary_tx \<Rightarrow> primary_plan" where
  "primary_wait_plan env s tx =
     (case en_wait env of
        WaitShutdown v \<Rightarrow> if v then PlanStop else PlanIdle
      | WaitInternal v \<Rightarrow> if v then PlanStop else PlanIdle
      | WaitWork \<Rightarrow> PlanIdle
      | WaitClose \<Rightarrow> PlanIdle
      | WaitTick \<Rightarrow>
          if ss_closing s then PlanIdle
          else if en_now env - tx_last_send tx < en_keepalive env then PlanIdle
          else PlanKeepalive)"

definition primary_plan_turn :: "primary_env \<Rightarrow> callis_id \<Rightarrow> peer_session \<Rightarrow> primary_tx \<Rightarrow> primary_plan \<times> peer_session" where
  "primary_plan_turn env callis s tx =
     (let s = session_run s (en_others env 0);
          (close, dispatch) = take_close_intent (ss_dispatch s) callis;
          s = s\<lparr>ss_dispatch := dispatch\<rparr>
      in if close then (PlanClose, s)
         else let s = session_run s (en_others env 1);
                  (lease, dispatch) = queue_claim_next (ss_dispatch s) callis;
                  s = session_run (s\<lparr>ss_dispatch := dispatch\<rparr>) (en_others env 2)
              in case lease of
                   None \<Rightarrow> (primary_wait_plan env s tx, s)
                 | Some lease \<Rightarrow>
                     if en_now env \<ge> rc_deadline lease then (PlanReturn lease (err_new SendTimeout), s)
                     else (case claim_message_id lease of
                             None \<Rightarrow> (PlanSend lease, s)
                           | Some peer_msg_id \<Rightarrow>
                               (case prepare_dispatch s peer_msg_id (en_config env) (en_now env) of
                                  (Inl err, s) \<Rightarrow> (PlanReturn lease err, s)
                                | (Inr _, s) \<Rightarrow> (PlanSend lease, s))))"

definition complete_claim :: "peer_session \<Rightarrow> retained_claim \<Rightarrow> unit result \<Rightarrow> peer_session" where
  "complete_claim s lease r = s\<lparr>ss_dispatch := complete_write (ss_dispatch s) lease r\<rparr>"

text \<open>The flag says whether the loop goes on.\<close>

definition primary_do_turn ::
  "primary_env \<Rightarrow> primary_plan \<Rightarrow> peer_session \<Rightarrow> primary_tx \<Rightarrow> bool \<times> peer_session \<times> primary_tx" where
  "primary_do_turn env plan s tx =
     (let ws = tx_writer tx
      in case plan of
           PlanClose \<Rightarrow>
             let (_, ws) = timeout_at (en_late env) ws (send_control_frame ws MSG_CLOSE 0 0 [])
             in (False, s, tx\<lparr>tx_writer := ws, tx_internal_shutdown := True\<rparr>)
         | PlanReturn lease err \<Rightarrow> (True, complete_claim (session_run s (en_others env 3)) lease (Inl err), tx)
         | PlanSend lease \<Rightarrow>
             let (r, ws) = timeout_at (en_late env) ws (send_outbound_frame ws (claim_to_frame lease));
                 s = session_run s (en_others env 3);
                 tx = tx\<lparr>tx_writer := ws\<rparr>
             in (case r of
                   Some (Inr _) \<Rightarrow> (True, complete_claim s lease (Inr ()), tx\<lparr>tx_last_send := en_after env\<rparr>)
                 | Some (Inl err) \<Rightarrow> (False, complete_claim s lease (Inl err), tx\<lparr>tx_internal_shutdown := True\<rparr>)
                 | None \<Rightarrow> (True, complete_claim s lease (Inl (err_new SendTimeout)), tx))
         | PlanKeepalive \<Rightarrow>
             let (r, ws) = timeout_at (en_late env) ws (send_control_frame ws MSG_KEEPALIVE 0 0 []);
                 tx = tx\<lparr>tx_writer := ws\<rparr>
             in (case r of
                   Some (Inr _) \<Rightarrow> (True, s, tx\<lparr>tx_last_send := en_after env\<rparr>)
                 | _ \<Rightarrow> (False, s, tx\<lparr>tx_internal_shutdown := True\<rparr>))
         | PlanIdle \<Rightarrow> (True, s, tx)
         | PlanStop \<Rightarrow> (False, s, tx))"

fun primary_loop :: "callis_id \<Rightarrow> primary_env list \<Rightarrow> peer_session \<Rightarrow> primary_tx \<Rightarrow> bool \<times> peer_session \<times> primary_tx" where
  "primary_loop callis [] s tx = (True, s, tx)"
| "primary_loop callis (env # envs) s tx =
     (let (plan, s) = primary_plan_turn env callis s tx;
          (goes_on, s, tx) = primary_do_turn env plan s tx
      in if goes_on then primary_loop callis envs s tx
         else (False, s\<lparr>ss_dispatch := clear_close_intent (ss_dispatch s) callis\<rparr>, tx))"

definition run_primary_transmitter ::
  "callis_id \<Rightarrow> primary_env list \<Rightarrow> peer_session \<Rightarrow> write_stream \<Rightarrow> instant \<Rightarrow> bool \<times> peer_session \<times> primary_tx" where
  "run_primary_transmitter callis envs s ws now =
     primary_loop callis envs (s\<lparr>ss_dispatch := close_notifier (ss_dispatch s) callis\<rparr>)
       \<lparr>tx_writer = ws, tx_last_send = now, tx_internal_shutdown = False\<rparr>"

section \<open>The blob transmitter\<close>

record blob_tx =
  bx_writer :: write_stream
  bx_internal_shutdown :: bool

record blob_env =
  be_late :: "nat option"
  be_others :: "nat \<Rightarrow> blob_op list"
  be_wait :: tx_wait

definition chunk_flags :: "chunk_write_lease \<Rightarrow> u16" where
  "chunk_flags lease = (if cl_is_last lease then 0 OR BlobChunkFlags_LAST_CHUNK else 0)"

fun send_blob_write :: "write_stream \<Rightarrow> blob_write_lease \<Rightarrow> unit result \<times> write_stream" where
  "send_blob_write ws (LeaseAck peer_msg_id) = send_control_frame ws MSG_ACK 0 peer_msg_id []"
| "send_blob_write ws (LeaseError peer_msg_id payload) = send_control_frame ws MSG_ERROR 0 peer_msg_id payload"
| "send_blob_write ws (LeaseChunk stream_id peer_msg_id lease) =
     send_blob_chunk_frame ws peer_msg_id stream_id (of_nat (cl_chunk_id lease)) (chunk_flags lease) (cl_data lease)"
| "send_blob_write ws (LeaseFinish stream_id peer_msg_id payload) =
     send_control_frame ws MSG_BLOB_TRANSFER_COMPLETE 0 peer_msg_id payload"

abbreviation blob_run :: "blob_manager \<Rightarrow> blob_op list \<Rightarrow> blob_manager" where
  "blob_run \<equiv> foldl blob_step"

definition blob_transmitter_turn ::
  "blob_env \<Rightarrow> nat \<Rightarrow> blob_manager \<Rightarrow> blob_tx \<Rightarrow> bool \<times> blob_manager \<times> blob_tx" where
  "blob_transmitter_turn env callis m tx =
     (let (dispatch, m) = lease_next_blob_write (blob_run m (be_others env 0)) callis;
          ws = bx_writer tx
      in case dispatch of
           Some write \<Rightarrow>
             let (r, ws) = timeout_at (be_late env) ws (send_blob_write ws write);
                 m = blob_run m (be_others env 1);
                 tx = tx\<lparr>bx_writer := ws\<rparr>
             in (case r of
                   Some (Inr _) \<Rightarrow> (True, finish_blob_write_attempt m write callis (Inr ()), tx)
                 | _ \<Rightarrow> (False, finish_blob_write_attempt m write callis (Inl (err_new PeerUnavailable)), tx\<lparr>bx_internal_shutdown := True\<rparr>))
         | None \<Rightarrow>
             (case be_wait env of
                WaitShutdown v \<Rightarrow>
                  if v then let (_, ws) = timeout_at (be_late env) ws (send_control_frame ws MSG_CLOSE 0 0 [])
                            in (False, m, tx\<lparr>bx_writer := ws\<rparr>)
                  else (True, m, tx)
              | WaitInternal v \<Rightarrow> (\<not> v, m, tx)
              | _ \<Rightarrow> (True, m, tx)))"

fun run_blob_transmitter :: "nat \<Rightarrow> blob_env list \<Rightarrow> blob_manager \<Rightarrow> blob_tx \<Rightarrow> bool \<times> blob_manager \<times> blob_tx" where
  "run_blob_transmitter callis [] m tx = (True, m, tx)"
| "run_blob_transmitter callis (env # envs) m tx =
     (let (goes_on, m, tx) = blob_transmitter_turn env callis m tx
      in if goes_on then run_blob_transmitter callis envs m tx else (False, m, tx))"

section \<open>What is on the wire\<close>

abbreviation wire :: "wire_header \<times> u8 list \<Rightarrow> u8 list" where
  "wire f \<equiv> frame_bytes (fst f) (snd f)"

text \<open>
  What both transmitters rely on in the writers of frames: a write that succeeds has passed on the whole
  frame, and any write has passed on a beginning of it.
\<close>

locale frame_sender =
  fixes send :: "write_stream \<Rightarrow> 'f \<Rightarrow> unit result \<times> write_stream" and frame :: "'f \<Rightarrow> wire_header \<times> u8 list"
  assumes sent: "fst (send ws f) = Inr () \<Longrightarrow>
      ws_out (snd (send ws f)) = ws_out ws @ wire (frame f) \<and> frame_ok (fst (frame f)) (snd (frame f))"
    and begun: "\<exists>p q. ws_out (snd (send ws f)) = ws_out ws @ p \<and> wire (frame f) = p @ q"
begin

lemma timed_sent:
  assumes "timeout_at late ws (send ws f) = (Some (Inr u), ws')"
  shows "ws_out ws' = ws_out ws @ wire (frame f) \<and> frame_ok (fst (frame f)) (snd (frame f))"
  using assms sent [of ws f] by (auto simp: timeout_at_def split: option.splits)

lemma timed_begun:
  assumes "timeout_at late ws (send ws f) = (r, ws')"
  shows "\<exists>p q. ws_out ws' = ws_out ws @ p \<and> wire (frame f) = p @ q"
proof -
  obtain p q where pq: "ws_out (snd (send ws f)) = ws_out ws @ p" "wire (frame f) = p @ q" using begun by blast
  show ?thesis
  proof (cases late)
    case None
    with assms pq show ?thesis by (auto simp: timeout_at_def)
  next
    case (Some n)
    with assms pq have "ws_out ws' = ws_out ws @ take n p" by (auto simp: timeout_at_def)
    moreover have "wire (frame f) = take n p @ drop n p @ q" using pq(2) by simp
    ultimately show ?thesis by blast
  qed
qed

end

definition outbound_wire :: "outbound_frame \<Rightarrow> wire_header \<times> u8 list" where
  "outbound_wire f = (outbound_header f, outbound_payload f)"

lemma send_frame_laws:
  "fst (send_frame ws h payload) = Inr () \<Longrightarrow> ws_out (snd (send_frame ws h payload)) = ws_out ws @ frame_bytes h payload"
  "\<exists>p q. ws_out (snd (send_frame ws h payload)) = ws_out ws @ p \<and> frame_bytes h payload = p @ q"
proof -
  have bufs: "concat (header_encode h # (if payload = [] then [] else [payload])) = frame_bytes h payload" by (simp add: frame_bytes_def)
  from write_bufs_prefix [of ws "header_encode h # (if payload = [] then [] else [payload])"]
  obtain p where "ws_out (snd (send_frame ws h payload)) = ws_out ws @ p" "\<exists>q. frame_bytes h payload = p @ q"
      "fst (send_frame ws h payload) = Inr () \<longrightarrow> p = frame_bytes h payload"
    unfolding send_frame_def bufs by blast
  then show "fst (send_frame ws h payload) = Inr () \<Longrightarrow> ws_out (snd (send_frame ws h payload)) = ws_out ws @ frame_bytes h payload"
    "\<exists>p q. ws_out (snd (send_frame ws h payload)) = ws_out ws @ p \<and> frame_bytes h payload = p @ q" by blast+
qed

interpretation outbound: frame_sender send_outbound_frame outbound_wire
proof
  fix ws f
  show "fst (send_outbound_frame ws f) = Inr () \<Longrightarrow>
      ws_out (snd (send_outbound_frame ws f)) = ws_out ws @ wire (outbound_wire f) \<and> frame_ok (fst (outbound_wire f)) (snd (outbound_wire f))"
    using send_frame_laws(1) outbound_frame_ok by (auto simp: send_outbound_frame_eq outbound_wire_def split: if_splits)
  show "\<exists>p q. ws_out (snd (send_outbound_frame ws f)) = ws_out ws @ p \<and> wire (outbound_wire f) = p @ q"
    using send_frame_laws(2) by (auto simp: send_outbound_frame_eq outbound_wire_def)
qed

lemma control_is_outbound: "send_control_frame ws t 0 p payload = send_outbound_frame ws (FrameControl t p payload)"
  by (simp add: send_outbound_frame_def)

text \<open>The frame of a blob write.\<close>

fun blob_wire :: "blob_write_lease \<Rightarrow> wire_header \<times> u8 list" where
  "blob_wire (LeaseAck peer_msg_id) = outbound_wire (FrameControl MSG_ACK peer_msg_id [])"
| "blob_wire (LeaseError peer_msg_id payload) = outbound_wire (FrameControl MSG_ERROR peer_msg_id payload)"
| "blob_wire (LeaseChunk stream_id peer_msg_id lease) =
     (chunk_header peer_msg_id (length (cl_data lease)),
      chunk_inner stream_id (of_nat (cl_chunk_id lease)) (chunk_flags lease) (length (cl_data lease)) @ cl_data lease)"
| "blob_wire (LeaseFinish stream_id peer_msg_id payload) = outbound_wire (FrameControl MSG_BLOB_TRANSFER_COMPLETE peer_msg_id payload)"

lemma chunk_write_laws:
  assumes h_def: "h = chunk_header p (length chunk)" and inner_def: "inner = chunk_inner s c fl (length chunk)"
  shows "fst (send_blob_chunk_frame ws p s c fl chunk) = Inr () \<Longrightarrow>
      ws_out (snd (send_blob_chunk_frame ws p s c fl chunk)) = ws_out ws @ frame_bytes h (inner @ chunk) \<and> frame_ok h (inner @ chunk)"
    and "\<exists>b q. ws_out (snd (send_blob_chunk_frame ws p s c fl chunk)) = ws_out ws @ b \<and> frame_bytes h (inner @ chunk) = b @ q"
proof -
  let ?bufs = "header_encode h # inner # (if chunk = [] then [] else [chunk])"
  have bufs: "concat ?bufs = frame_bytes h (inner @ chunk)" by (simp add: frame_bytes_def)
  from write_bufs_prefix [of ws ?bufs]
  obtain b where b: "ws_out (snd (write_bufs ws ?bufs)) = ws_out ws @ b" "\<exists>q. frame_bytes h (inner @ chunk) = b @ q"
      "fst (write_bufs ws ?bufs) = Inr () \<longrightarrow> b = frame_bytes h (inner @ chunk)"
    unfolding bufs by blast
  have e: "send_blob_chunk_frame ws p s c fl chunk = write_bufs ws ?bufs" if "BlobChunk_HEADER_LEN + length chunk \<le> u32_max"
    using that by (simp only: send_blob_chunk_frame_eq h_def inner_def if_True)
  have refused: "fst (send_blob_chunk_frame ws p s c fl chunk) \<noteq> Inr ()" "snd (send_blob_chunk_frame ws p s c fl chunk) = ws"
    if "\<not> BlobChunk_HEADER_LEN + length chunk \<le> u32_max"
    using that by (simp_all only: send_blob_chunk_frame_eq if_False fst_conv snd_conv) simp
  show "fst (send_blob_chunk_frame ws p s c fl chunk) = Inr () \<Longrightarrow>
      ws_out (snd (send_blob_chunk_frame ws p s c fl chunk)) = ws_out ws @ frame_bytes h (inner @ chunk) \<and> frame_ok h (inner @ chunk)"
    using e refused(1) b chunk_frame_ok [of chunk p s c fl] unfolding h_def inner_def by metis
  show "\<exists>b q. ws_out (snd (send_blob_chunk_frame ws p s c fl chunk)) = ws_out ws @ b \<and> frame_bytes h (inner @ chunk) = b @ q"
    using e refused(2) b by (metis append_Nil append_Nil2)
qed

interpretation blob_writes: frame_sender send_blob_write blob_wire
proof
  fix ws w
  show "fst (send_blob_write ws w) = Inr () \<Longrightarrow>
      ws_out (snd (send_blob_write ws w)) = ws_out ws @ wire (blob_wire w) \<and> frame_ok (fst (blob_wire w)) (snd (blob_wire w))"
    by (cases w) (use outbound.sent chunk_write_laws(1) [OF refl refl] in \<open>simp_all add: control_is_outbound\<close>)
  show "\<exists>p q. ws_out (snd (send_blob_write ws w)) = ws_out ws @ p \<and> wire (blob_wire w) = p @ q"
    by (cases w) (use outbound.begun chunk_write_laws(2) [OF refl refl] in \<open>simp_all add: control_is_outbound\<close>)
qed

text \<open>
  The bytes after a run against the frames it meant to write: all but the last are whole; the last may be cut,
  and then the run has ended.
\<close>

definition framed :: "bool \<Rightarrow> (wire_header \<times> u8 list) list \<Rightarrow> u8 list \<Rightarrow> bool" where
  "framed goes_on frames bytes \<longleftrightarrow>
     (\<exists>ks more rest q. frames = ks @ more \<and> length more \<le> 1 \<and> (goes_on \<longrightarrow> more = []) \<and> (more = [] \<longrightarrow> rest = [])
        \<and> (\<forall>f \<in> set more. wire f = rest @ q) \<and> (\<forall>f \<in> set ks. frame_ok (fst f) (snd f)) \<and> bytes = concat (map wire ks) @ rest)"

lemma framed_none: "framed g [] []"
  by (auto simp: framed_def)

lemma framed_cut: "wire f = p @ q \<Longrightarrow> framed False [f] p"
  unfolding framed_def by (rule exI [of _ "[]"]) auto

lemma framed_whole: "frame_ok (fst f) (snd f) \<Longrightarrow> framed g [f] (wire f)"
  unfolding framed_def by (rule exI [of _ "[f]"]) auto

lemma framed_append: "framed True fs bytes \<Longrightarrow> framed g fs' bytes' \<Longrightarrow> framed g (fs @ fs') (bytes @ bytes')"
  unfolding framed_def
  by (elim exE conjE) (rule_tac x = "ks @ ksa" in exI, rule_tac x = morea in exI, rule_tac x = resta in exI, rule_tac x = qa in exI, auto)

lemma framed_readable:
  assumes "framed g frames bytes" and "live_data src" and "stream_bytes src = bytes" and "\<forall>f \<in> set frames. length (snd f) \<le> max_payload"
  shows "\<exists>ks more st' src'. frames = ks @ more \<and> length more \<le> 1 \<and> (g \<longrightarrow> more = [])
    \<and> read_all frame_reader_default src max_payload (length ks) = (ks, st', src') \<and> (more = [] \<longrightarrow> stream_bytes src' = [])"
proof -
  obtain ks more rest q where f: "frames = ks @ more" "length more \<le> 1" "g \<longrightarrow> more = []" "more = [] \<longrightarrow> rest = []"
      "\<forall>f \<in> set ks. frame_ok (fst f) (snd f)" "bytes = concat (map wire ks) @ rest"
    using assms(1) unfolding framed_def by blast
  have "stream_bytes src = concat (map (\<lambda>(h, payload). frame_bytes h payload) ks) @ rest"
    using assms(3) f(6) by (simp add: case_prod_unfold)
  moreover have "\<forall>(h, payload) \<in> set ks. frame_ok h payload \<and> length payload \<le> max_payload" using f(1,5) assms(4) by (simp add: case_prod_unfold)
  ultimately obtain st' src' where "read_all frame_reader_default src max_payload (length ks) = (ks, st', src')" "stream_bytes src' = rest"
    using read_all_frames [OF reader_idle_default assms(2)] by blast
  with f show ?thesis by blast
qed

section \<open>The blob stream\<close>

abbreviation close_wire :: "wire_header \<times> u8 list" where
  "close_wire \<equiv> outbound_wire (FrameControl MSG_CLOSE 0 [])"

text \<open>What the turns of the blob transmitter write.\<close>

definition blob_turn_frames :: "blob_env \<Rightarrow> nat \<Rightarrow> blob_manager \<Rightarrow> (wire_header \<times> u8 list) list" where
  "blob_turn_frames env callis m =
     (case fst (lease_next_blob_write (blob_run m (be_others env 0)) callis) of
        Some write \<Rightarrow> [blob_wire write]
      | None \<Rightarrow> if be_wait env = WaitShutdown True then [close_wire] else [])"

fun blob_frames :: "nat \<Rightarrow> blob_env list \<Rightarrow> blob_manager \<Rightarrow> blob_tx \<Rightarrow> (wire_header \<times> u8 list) list" where
  "blob_frames callis [] m tx = []"
| "blob_frames callis (env # envs) m tx =
     blob_turn_frames env callis m @
       (let (goes_on, m, tx) = blob_transmitter_turn env callis m tx in if goes_on then blob_frames callis envs m tx else [])"

lemma blob_turn_framed:
  assumes "blob_transmitter_turn env callis m tx = (goes_on, m', tx')"
  shows "\<exists>bytes. ws_out (bx_writer tx') = ws_out (bx_writer tx) @ bytes \<and> framed goes_on (blob_turn_frames env callis m) bytes"
proof -
  obtain d m1 where l: "lease_next_blob_write (blob_run m (be_others env 0)) callis = (d, m1)" by fastforce
  show ?thesis
  proof (cases d)
    case (Some w)
    obtain r ws where t: "timeout_at (be_late env) (bx_writer tx) (send_blob_write (bx_writer tx) w) = (r, ws)" by fastforce
    have frames: "blob_turn_frames env callis m = [blob_wire w]" by (simp add: blob_turn_frames_def l Some)
    have out: "bx_writer tx' = ws" "goes_on = (\<exists>u. r = Some (Inr u))"
      using assms by (auto simp: blob_transmitter_turn_def l Some t Let_def split: option.splits sum.splits)
    show ?thesis
    proof (cases goes_on)
      case True
      with out t obtain u where "timeout_at (be_late env) (bx_writer tx) (send_blob_write (bx_writer tx) w) = (Some (Inr u), ws)" by blast
      from blob_writes.timed_sent [OF this] show ?thesis
        using out(1) frames framed_whole by (intro exI [of _ "wire (blob_wire w)"]) simp
    next
      case False
      from blob_writes.timed_begun [OF t] out(1) show ?thesis using frames False by (auto intro: framed_cut)
    qed
  next
    case None
    note turn = assms [unfolded blob_transmitter_turn_def l None Let_def case_prod_conv option.case]
    show ?thesis
    proof (cases "be_wait env = WaitShutdown True")
      case True
      obtain r ws where t: "timeout_at (be_late env) (bx_writer tx) (send_outbound_frame (bx_writer tx) (FrameControl MSG_CLOSE 0 [])) = (r, ws)"
        by fastforce
      with turn True have "bx_writer tx' = ws" "\<not> goes_on" by (auto simp: control_is_outbound)
      with outbound.timed_begun [OF t] show ?thesis using True by (auto simp: blob_turn_frames_def l None intro: framed_cut)
    next
      case False
      with turn have "tx' = tx" by (auto split: tx_wait.splits if_splits)
      with False show ?thesis by (simp add: blob_turn_frames_def l None framed_none)
    qed
  qed
qed

lemma blob_run_framed:
  assumes "run_blob_transmitter callis envs m tx = (goes_on, m', tx')"
  shows "\<exists>bytes. ws_out (bx_writer tx') = ws_out (bx_writer tx) @ bytes \<and> framed goes_on (blob_frames callis envs m tx) bytes"
  using assms
proof (induction envs arbitrary: m tx)
  case Nil
  then show ?case by (simp add: framed_none)
next
  case (Cons env envs)
  obtain g m1 tx1 where t: "blob_transmitter_turn env callis m tx = (g, m1, tx1)" using prod_cases3 by blast
  from blob_turn_framed [OF t] obtain b where b: "ws_out (bx_writer tx1) = ws_out (bx_writer tx) @ b"
      "framed g (blob_turn_frames env callis m) b" by blast
  show ?case
  proof (cases g)
    case True
    from Cons.prems t True have "run_blob_transmitter callis envs m1 tx1 = (goes_on, m', tx')" by simp
    from Cons.IH [OF this] b t True show ?thesis using framed_append by fastforce
  next
    case False
    with Cons.prems t b show ?thesis by auto
  qed
qed

text \<open>
  The peer reads what the blob transmitter wrote. Whatever the manager is asked to do meanwhile, however writes
  fail or time out, a reader of the stream gets the frames of the leases in their order, each one whole;
  only the last may be missing, and then the transmitter has stopped.
\<close>

theorem blob_stream_readable:
  assumes "run_blob_transmitter callis envs m tx = (goes_on, m', tx')" and "ws_out (bx_writer tx) = []"
    and "live_data src" and "stream_bytes src = ws_out (bx_writer tx')"
    and "\<forall>f \<in> set (blob_frames callis envs m tx). length (snd f) \<le> max_payload"
  shows "\<exists>ks more st' src'. blob_frames callis envs m tx = ks @ more \<and> length more \<le> 1 \<and> (goes_on \<longrightarrow> more = [])
    \<and> read_all frame_reader_default src max_payload (length ks) = (ks, st', src') \<and> (more = [] \<longrightarrow> stream_bytes src' = [])"
proof -
  from blob_run_framed [OF assms(1)] assms(2,4) have "framed goes_on (blob_frames callis envs m tx) (stream_bytes src)" by auto
  from framed_readable [OF this assms(3) refl assms(5)] show ?thesis .
qed

section \<open>The primary stream\<close>

definition plan_frame :: "primary_plan \<Rightarrow> outbound_frame option" where
  "plan_frame plan =
     (case plan of
        PlanClose \<Rightarrow> Some (FrameControl MSG_CLOSE 0 [])
      | PlanSend lease \<Rightarrow> Some (claim_to_frame lease)
      | PlanKeepalive \<Rightarrow> Some (FrameControl MSG_KEEPALIVE 0 [])
      | _ \<Rightarrow> None)"

fun primary_frames :: "callis_id \<Rightarrow> primary_env list \<Rightarrow> peer_session \<Rightarrow> primary_tx \<Rightarrow> (wire_header \<times> u8 list) list" where
  "primary_frames callis [] s tx = []"
| "primary_frames callis (env # envs) s tx =
     (let (plan, s) = primary_plan_turn env callis s tx;
          (goes_on, s, tx) = primary_do_turn env plan s tx
      in (case plan_frame plan of None \<Rightarrow> [] | Some f \<Rightarrow> [outbound_wire f])
           @ (if goes_on then primary_frames callis envs s tx else []))"

text \<open>A plan that writes, whatever it does with the result.\<close>

lemma plan_writes:
  assumes "primary_do_turn env plan s tx = (goes_on, s', tx')" and "plan_frame plan = Some f"
  shows "\<exists>r. timeout_at (en_late env) (tx_writer tx) (send_outbound_frame (tx_writer tx) f) = (r, tx_writer tx')
    \<and> (goes_on \<longrightarrow> r = Some (Inr ()) \<or> r = None \<and> en_late env \<noteq> None)"
proof -
  obtain r ws where t: "timeout_at (en_late env) (tx_writer tx) (send_outbound_frame (tx_writer tx) f) = (r, ws)" by fastforce
  have late: "r = None \<Longrightarrow> en_late env \<noteq> None" using t by (auto simp: timeout_at_def split: option.splits)
  have "ws = tx_writer tx' \<and> (goes_on \<longrightarrow> r = Some (Inr ()) \<or> r = None)"
    using assms t
    by (cases plan) (auto simp: primary_do_turn_def plan_frame_def control_is_outbound Let_def split: option.splits sum.splits)
  with t late show ?thesis by auto
qed

lemma plan_quiet: "primary_do_turn env plan s tx = (goes_on, s', tx') \<Longrightarrow> plan_frame plan = None \<Longrightarrow> tx' = tx"
  by (cases plan) (auto simp: primary_do_turn_def plan_frame_def Let_def)

lemma primary_loop_framed:
  assumes "primary_loop callis envs s tx = (goes_on, s', tx')" and "\<forall>env \<in> set envs. en_late env = None"
  shows "\<exists>bytes. ws_out (tx_writer tx') = ws_out (tx_writer tx) @ bytes \<and> framed goes_on (primary_frames callis envs s tx) bytes"
  using assms
proof (induction envs arbitrary: s tx)
  case Nil
  then show ?case by (simp add: framed_none)
next
  case (Cons env envs)
  obtain plan s1 where p: "primary_plan_turn env callis s tx = (plan, s1)" by fastforce
  obtain g s2 tx2 where d: "primary_do_turn env plan s1 tx = (g, s2, tx2)" using prod_cases3 by blast
  let ?fs = "case plan_frame plan of None \<Rightarrow> [] | Some f \<Rightarrow> [outbound_wire f]"
  have "\<exists>b. ws_out (tx_writer tx2) = ws_out (tx_writer tx) @ b \<and> framed g ?fs b"
  proof (cases "plan_frame plan")
    case None
    with plan_quiet [OF d] show ?thesis by (simp add: framed_none)
  next
    case (Some f)
    from plan_writes [OF d Some] Cons.prems(2) obtain r
      where t: "timeout_at (en_late env) (tx_writer tx) (send_outbound_frame (tx_writer tx) f) = (r, tx_writer tx2)" "g \<longrightarrow> r = Some (Inr ())"
      by auto
    show ?thesis
    proof (cases g)
      case True
      with t outbound.timed_sent [of "en_late env" "tx_writer tx" f "()"] framed_whole [of "outbound_wire f"] Some show ?thesis by auto
    next
      case False
      with outbound.timed_begun [OF t(1)] Some show ?thesis by (auto intro: framed_cut)
    qed
  qed
  then obtain b where b: "ws_out (tx_writer tx2) = ws_out (tx_writer tx) @ b" "framed g ?fs b" by blast
  show ?case
  proof (cases g)
    case True
    from Cons.prems p d True have "primary_loop callis envs s2 tx2 = (goes_on, s', tx')" "\<forall>env \<in> set envs. en_late env = None" by auto
    from Cons.IH [OF this] obtain b' where "ws_out (tx_writer tx') = ws_out (tx_writer tx2) @ b'" "framed goes_on (primary_frames callis envs s2 tx2) b'"
      by blast
    with b p d True framed_append [of ?fs b goes_on] show ?thesis by auto
  next
    case False
    with Cons.prems p d b show ?thesis by auto
  qed
qed

text \<open>
  C12. The peer reads what the primary transmitter wrote, as long as no write is cut by its deadline: a reader of the
  stream gets the frames of the claims, the keepalives and the close in their order, each one whole; only the
  last may be missing, and then the transmitter has stopped.
\<close>

theorem primary_stream_readable:
  assumes "run_primary_transmitter callis envs s ws now = (goes_on, s', tx')" and "ws_out ws = []"
    and "\<forall>env \<in> set envs. en_late env = None" and "live_data src" and "stream_bytes src = ws_out (tx_writer tx')"
    and frames: "frames = primary_frames callis envs (s\<lparr>ss_dispatch := close_notifier (ss_dispatch s) callis\<rparr>)
      \<lparr>tx_writer = ws, tx_last_send = now, tx_internal_shutdown = False\<rparr>"
    and "\<forall>f \<in> set frames. length (snd f) \<le> max_payload"
  shows "\<exists>ks more st' src'. frames = ks @ more \<and> length more \<le> 1 \<and> (goes_on \<longrightarrow> more = [])
    \<and> read_all frame_reader_default src max_payload (length ks) = (ks, st', src') \<and> (more = [] \<longrightarrow> stream_bytes src' = [])"
proof -
  from primary_loop_framed [OF assms(1) [unfolded run_primary_transmitter_def] assms(3)] assms(2,5)
  have "framed goes_on frames (stream_bytes src)" unfolding frames by auto
  from framed_readable [OF this assms(4) refl assms(7)] show ?thesis .
qed

section \<open>A write that is cut\<close>

lemma cut_frame_reads_on:
  assumes ok: "frame_ok h payload" and n: "n = length (header_encode h) + k" and k: "k \<le> length payload"
    and m: "m = length payload - k" "m \<le> length next_bytes" and max: "length payload \<le> max_payload"
    and src: "live_data src" "stream_bytes src = take n (frame_bytes h payload) @ next_bytes"
  shows "\<exists>st' src'. read_all frame_reader_default src max_payload 1 = ([(h, take k payload @ take m next_bytes)], st', src')
    \<and> stream_bytes src' = drop m next_bytes"
proof -
  let ?p = "take k payload @ take m next_bytes"
  have len: "length ?p = length payload" using k m by simp
  have "stream_bytes src = concat (map (\<lambda>(h, payload). frame_bytes h payload) [(h, ?p)]) @ drop m next_bytes"
    using src(2) n by (simp add: frame_bytes_def)
  moreover have "\<forall>(h, payload) \<in> set [(h, ?p)]. frame_ok h payload \<and> length payload \<le> max_payload"
    using ok len max by (simp add: frame_ok_def)
  ultimately show ?thesis using read_all_frames [OF reader_idle_default src(1)] by fastforce
qed

lemma late_send_goes_on:
  assumes "plan = PlanSend lease" and "en_late env = Some n" and "ws_script (tx_writer tx) = []"
    and "length (outbound_payload (claim_to_frame lease)) \<le> u32_max"
  shows "\<exists>s' tx'. primary_do_turn env plan s tx = (True, s', tx') \<and> ws_script (tx_writer tx') = []
    \<and> ws_out (tx_writer tx') = ws_out (tx_writer tx) @ take n (wire (outbound_wire (claim_to_frame lease)))
    \<and> s' = complete_claim (session_run s (en_others env 3)) lease (Inl (err_new SendTimeout))"
  using assms by (simp add: primary_do_turn_def timeout_at_def send_outbound_frame_eq send_frame_ok outbound_wire_def Let_def)

text \<open>
  C37. A write that is cut by its deadline does not end the primary transmitter, and the next frame follows the cut one
  on the same stream. The peer takes the missing bytes of the payload from that next frame: it reads a frame
  with the header of the first message and a payload that was never sent, and loses its place in the stream.
\<close>

theorem late_write_corrupts_stream:
  assumes plan: "plan = PlanSend lease" and late: "en_late env = Some (length (header_encode h) + k)"
    and tx: "ws_script (tx_writer tx) = []" "ws_out (tx_writer tx) = []"
    and first: "outbound_wire (claim_to_frame lease) = (h, payload)" "length payload \<le> u32_max" "length payload \<le> max_payload" "k \<le> length payload"
    and "primary_do_turn env plan s tx = (goes_on, s', tx')"
    and "plan' = PlanSend lease'" and "en_late env' = None" and "outbound_wire (claim_to_frame lease') = (h', payload')"
    and "length payload' \<le> u32_max" and missing: "m = length payload - k" "m \<le> length (frame_bytes h' payload')"
    and "primary_do_turn env' plan' s1 tx' = (goes_on', s2, tx2)"
    and src: "live_data src" "stream_bytes src = ws_out (tx_writer tx2)"
  shows "goes_on \<and> goes_on' \<and> (\<exists>st' src'. read_all frame_reader_default src max_payload 1 =
      ([(h, take k payload @ take m (frame_bytes h' payload'))], st', src') \<and> stream_bytes src' = drop m (frame_bytes h' payload'))"
proof -
  have one: "goes_on" "ws_script (tx_writer tx') = []" "ws_out (tx_writer tx') = take (length (header_encode h) + k) (frame_bytes h payload)"
    using late_send_goes_on [OF plan late tx(1), of s] first(1,2) assms(9) tx(2) by (auto simp: outbound_wire_def)
  have two: "goes_on'" "ws_out (tx_writer tx2) = ws_out (tx_writer tx') @ frame_bytes h' payload'"
    using assms(10-13,16) one(2)
    by (auto simp: primary_do_turn_def timeout_at_def send_outbound_frame_eq send_frame_ok outbound_wire_def Let_def)
  have "frame_ok h payload" using outbound_frame_ok [of "claim_to_frame lease"] first(1,2) by (simp add: outbound_wire_def)
  from cut_frame_reads_on [OF this refl first(4) missing first(3) src(1)] src(2) one two show ?thesis by simp
qed

section \<open>Claims\<close>

lemma send_completes:
  assumes "primary_do_turn env (PlanSend lease) s tx = (goes_on, s', tx')"
  shows "\<exists>r. ss_dispatch s' = complete_write (ss_dispatch (session_run s (en_others env 3))) lease r
    \<and> (r = Inr () \<longleftrightarrow> fst (timeout_at (en_late env) (tx_writer tx) (send_outbound_frame (tx_writer tx) (claim_to_frame lease))) = Some (Inr ()))
    \<and> (r = Inr () \<longrightarrow> ws_out (tx_writer tx') = ws_out (tx_writer tx) @ wire (outbound_wire (claim_to_frame lease)))"
proof -
  obtain r ws where t: "timeout_at (en_late env) (tx_writer tx) (send_outbound_frame (tx_writer tx) (claim_to_frame lease)) = (r, ws)" by fastforce
  show ?thesis
    using assms t outbound.timed_sent [of "en_late env" "tx_writer tx" "claim_to_frame lease" "()" ws]
    by (auto simp: primary_do_turn_def complete_claim_def Let_def split: option.splits sum.splits)
qed

lemma plan_lease:
  assumes "primary_plan_turn env callis s tx = (plan, s')" and "plan = PlanSend lease \<or> plan = PlanReturn lease err"
  shows "\<exists>q q'. queue_claim_next q callis = (Some lease, q')" "plan = PlanSend lease \<Longrightarrow> en_now env < rc_deadline lease"
  using assms
  by (auto simp: primary_plan_turn_def primary_wait_plan_def Let_def split: prod.splits if_splits option.splits sum.splits tx_wait.splits)

lemma reachable_run: "reachable_session s \<Longrightarrow> reachable_session (session_run s ops)"
  unfolding reachable_session_def by (metis foldl_append)

lemma reachable_op: "reachable_session s \<Longrightarrow> reachable_session (session_step s x)"
  using reachable_run [of s "[x]"] by simp

lemma plan_reachable:
  assumes "reachable_session s" and "primary_plan_turn env callis s tx = (plan, s')"
  shows "reachable_session s'"
proof -
  have close: "reachable_session t \<Longrightarrow> take_close_intent (ss_dispatch t) callis = (b, q) \<Longrightarrow> reachable_session (t\<lparr>ss_dispatch := q\<rparr>)" for t b q
    using reachable_op [of t "SessionQueueOp (DTakeClose callis)"] by simp
  have claim: "reachable_session t \<Longrightarrow> queue_claim_next (ss_dispatch t) callis = (c, q) \<Longrightarrow> reachable_session (t\<lparr>ss_dispatch := q\<rparr>)" for t c q
    using reachable_op [of t "SessionQueueOp (DClaim callis)"] by simp
  have prepare: "reachable_session t \<Longrightarrow> prepare_dispatch t p cfg now = (r, t') \<Longrightarrow> reachable_session t'" for t p cfg now r t'
    using reachable_op [of t "PrepareDispatch p cfg now"] by simp
  obtain b q where b: "take_close_intent (ss_dispatch (session_run s (en_others env 0))) callis = (b, q)" by fastforce
  let ?s1 = "(session_run s (en_others env 0))\<lparr>ss_dispatch := q\<rparr>"
  have one: "reachable_session ?s1" using close [OF reachable_run [OF assms(1)] b] .
  obtain c q' where c: "queue_claim_next (ss_dispatch (session_run ?s1 (en_others env 1))) callis = (c, q')" by fastforce
  let ?s2 = "session_run ((session_run ?s1 (en_others env 1))\<lparr>ss_dispatch := q'\<rparr>) (en_others env 2)"
  have two: "reachable_session ?s2" using reachable_run [OF claim [OF reachable_run [OF one] c]] .
  have "s' = ?s1 \<or> s' = ?s2 \<or> (\<exists>p r. prepare_dispatch ?s2 p (en_config env) (en_now env) = (r, s'))"
    using assms(2) b c by (auto simp: primary_plan_turn_def Let_def split: if_splits option.splits prod.splits sum.splits)
  with one two prepare show ?thesis by blast
qed

lemma turn_reachable:
  assumes "reachable_session s" and "primary_do_turn env plan s tx = (goes_on, s', tx')"
  shows "reachable_session s'"
proof -
  have "reachable_session (complete_claim (session_run s ops) lease r)" for ops lease r
    using reachable_op [OF reachable_run [OF assms(1)], of ops "SessionQueueOp (DComplete lease r)"] by (simp add: complete_claim_def)
  with assms show ?thesis
    by (cases plan) (auto simp: primary_do_turn_def Let_def split: prod.splits option.splits sum.splits)
qed

text \<open>
  The outcome of a write is recorded exactly. A claim is written only before its deadline, and what the other tasks
  did during the write decides what its end means: if the item is still being written by this claim, a message
  that was passed on whole waits for its acknowledgement on this callis and a response is gone, while after a
  failure or a timeout the item is ready to be written again; if the item was acknowledged, failed, expired
  or requeued meanwhile, the store does not change. No sender is answered by a write.
\<close>

theorem transmitter_settles_claim:
  assumes "reachable_session s" and "primary_plan_turn env callis s tx = (PlanSend lease, s1)"
    and "primary_do_turn env (PlanSend lease) s1 tx = (goes_on, s2, tx')"
    and st: "st = po_state (ss_dispatch (session_run s1 (en_others env 3)))" and st': "st' = po_state (ss_dispatch s2)"
    and ok: "ok = (fst (timeout_at (en_late env) (tx_writer tx) (send_outbound_frame (tx_writer tx) (claim_to_frame lease))) = Some (Inr ()))"
  shows "en_now env < rc_deadline lease
    \<and> po_sent (ss_dispatch s2) = po_sent (ss_dispatch (session_run s1 (en_others env 3)))
    \<and> (ok \<longrightarrow> ws_out (tx_writer tx') = ws_out (tx_writer tx) @ wire (outbound_wire (claim_to_frame lease)))
    \<and> (if \<exists>slot. claim_current st lease slot
       then \<exists>slot. claim_current st lease slot \<and> store_slot st' = (store_slot st)(rc_slot lease := written (rc_callis_id lease) ok slot)
       else st' = st)"
proof -
  obtain r where r: "ss_dispatch s2 = dispatch_step (ss_dispatch (session_run s1 (en_others env 3))) (DComplete lease r)"
      "r = Inr () \<longrightarrow> ws_out (tx_writer tx') = ws_out (tx_writer tx) @ wire (outbound_wire (claim_to_frame lease))" "ok \<longleftrightarrow> r = Inr ()"
    using send_completes [OF assms(3)] ok by auto
  have same: "(case r of Inl _ \<Rightarrow> False | Inr _ \<Rightarrow> True) = ok" using r(3) by (cases r) auto
  obtain es st1 where w: "store_complete_write st lease ok = (es, st1)" by fastforce
  have "reachable_session (session_run s1 (en_others env 3))" using plan_reachable [OF assms(1,2)] by (rule reachable_run)
  then have inv: "store_inv st" unfolding st by (intro reachable_queue_inv reachable_session_queue)
  note law = complete_write_law [OF inv w]
  have "st' = st1" "po_sent (ss_dispatch s2) = po_sent (ss_dispatch (session_run s1 (en_others env 3)))"
    using dispatch_step_store [of "ss_dispatch (session_run s1 (en_others env 3))" "DComplete lease r"] r(1) w law
    by (simp_all add: st st' same store_step_def store_effects_def)
  moreover have "en_now env < rc_deadline lease" using plan_lease(2) [OF assms(2)] by blast
  moreover have "ok \<longrightarrow> ws_out (tx_writer tx') = ws_out (tx_writer tx) @ wire (outbound_wire (claim_to_frame lease))" using r(2,3) by blast
  ultimately show ?thesis using law by blast
qed

text \<open>Messages that only wait or are written stay pending.\<close>

lemma op_keeps_pending:
  assumes "reachable_session s" and "session_pending s p = Some (t, d)" and "ss_dispatch s' = dispatch_step (ss_dispatch s) x"
    and "\<And>y. store_op_of (ss_dispatch s) x = Some y \<Longrightarrow> op_keeps y (t, d) \<and> op_admits (po_state (ss_dispatch s)) y = None"
  shows "session_pending s' p = Some (t, d)"
proof (cases "store_op_of (ss_dispatch s) x")
  case None
  with dispatch_step_store [of "ss_dispatch s" x] assms(2,3) show ?thesis by simp
next
  case (Some y)
  from queue_op_pending [OF assms(1,3) Some] assms(2) assms(4) [OF Some] show ?thesis by (simp add: keep_pending_def)
qed

definition waits :: "peer_message_id \<Rightarrow> tracked_outbound \<Rightarrow> instant \<Rightarrow> peer_session \<Rightarrow> bool" where
  "waits p t d s \<longleftrightarrow> reachable_session s \<and> \<not> ss_closing s \<and> session_pending s p = Some (t, d)"

lemma waits_op:
  assumes "waits p t d s" and "\<And>y. store_op_of (ss_dispatch s) x = Some y \<Longrightarrow> op_keeps y (t, d) \<and> op_admits (po_state (ss_dispatch s)) y = None"
  shows "waits p t d (s\<lparr>ss_dispatch := dispatch_step (ss_dispatch s) x\<rparr>)"
  using assms op_keeps_pending [of s p t d "s\<lparr>ss_dispatch := dispatch_step (ss_dispatch s) x\<rparr>" x] reachable_op [of s "SessionQueueOp x"]
  by (simp add: waits_def)

lemma waits_own: "waits p t d s \<Longrightarrow> tracked_peer_msg_id t = p"
  unfolding waits_def using pending_Some [OF reachable_queue_inv [OF reachable_session_queue]] by blast

lemma waits_prepare:
  assumes w: "waits p t d s" and now: "now < d" and e: "prepare_dispatch s pmid cfg now = (r, s')"
  shows "waits p t d s'"
proof -
  have inv: "store_inv (po_state (ss_dispatch s))" using w unfolding waits_def by (blast intro: reachable_queue_inv reachable_session_queue)
  have reach: "reachable_session s'" using w e reachable_op [of s "PrepareDispatch pmid cfg now"] by (simp add: waits_def)
  have failed: "waits p t d (fail_inflight s pmid err)" if "pmid \<noteq> p" for err
    using waits_op [OF w, of "DFailOne pmid err"] waits_own [OF w] that by (simp add: fail_inflight_def op_admits_def)
  have "session_pending (session_refresh_limits s n now) p = Some (t, d)" for n
    using op_keeps_pending [of s p t d "session_refresh_limits s n now" "DSetCapacity n now"] w
    by (simp add: waits_def session_refresh_limits_def Let_def op_admits_def split: option.splits)
  moreover have "ss_closing (session_refresh_limits s n now) = ss_closing s" for n by (simp add: session_refresh_limits_def Let_def)
  ultimately show ?thesis
    using e w now failed reach store_deadline_pending [OF inv, of pmid]
    by (cases "pmid = p") (auto simp: prepare_dispatch_def waits_def split: option.splits if_splits)
qed

lemma waits_turn:
  assumes w: "waits p t d s" and env: "en_others env = (\<lambda>_. [])" "en_now env < d"
    and e: "primary_plan_turn env callis s tx = (plan, s1)" "primary_do_turn env plan s1 tx = (goes_on, s2, tx')"
  shows "waits p t d s2"
proof -
  obtain b q where b: "take_close_intent (ss_dispatch s) callis = (b, q)" by fastforce
  let ?s1 = "s\<lparr>ss_dispatch := q\<rparr>"
  have one: "waits p t d ?s1" using waits_op [OF w, of "DTakeClose callis"] b by simp
  obtain c q' where c: "queue_claim_next q callis = (c, q')" by fastforce
  let ?s2 = "s\<lparr>ss_dispatch := q'\<rparr>"
  have two: "waits p t d ?s2" using waits_op [OF one, of "DClaim callis"] c by (simp add: op_admits_def)
  have "s1 = ?s1 \<or> s1 = ?s2 \<or> (\<exists>m r. prepare_dispatch ?s2 m (en_config env) (en_now env) = (r, s1))"
    using e(1) b c by (auto simp: primary_plan_turn_def env(1) Let_def split: if_splits option.splits prod.splits sum.splits)
  with one two waits_prepare [OF two env(2)] have "waits p t d s1" by blast
  moreover have "waits p t d (complete_claim s1 lease r)" if "waits p t d s1" for lease r
    using waits_op [OF that, of "DComplete lease r"] by (simp add: complete_claim_def op_admits_def)
  ultimately show ?thesis
    using e(2) by (cases plan) (auto simp: primary_do_turn_def env(1) Let_def split: prod.splits option.splits sum.splits)
qed

text \<open>
  Transmission alone never loses a message: over any number of turns, however writes fail, are cut or succeed, a
  message that is pending before its deadline is still pending when the transmitter pauses or ends. Only an
  answer, a failure, its deadline or the end of the session completes it.
\<close>

theorem transmission_keeps_pending:
  assumes "reachable_session s" and "\<not> ss_closing s" and "session_pending s p = Some (t, d)"
    and "\<forall>env \<in> set envs. en_others env = (\<lambda>_. []) \<and> en_now env < d"
    and "run_primary_transmitter callis envs s ws now = (goes_on, s', tx')"
  shows "session_pending s' p = Some (t, d)"
proof -
  have loop: "waits p t d s' " if "waits p t d s" "\<forall>env \<in> set envs. en_others env = (\<lambda>_. []) \<and> en_now env < d"
      "primary_loop callis envs s tx = (goes_on, s', tx')" for s tx
    using that
  proof (induction envs arbitrary: s tx)
    case (Cons env envs)
    obtain plan s1 where p: "primary_plan_turn env callis s tx = (plan, s1)" by fastforce
    obtain g s2 tx2 where d: "primary_do_turn env plan s1 tx = (g, s2, tx2)" using prod_cases3 by blast
    have two: "waits p t d s2" using waits_turn [OF Cons.prems(1) _ _ p d] Cons.prems(2) by simp
    show ?case
    proof (cases g)
      case True
      with Cons.IH [OF two] Cons.prems p d show ?thesis by simp
    next
      case False
      with Cons.prems(3) p d waits_op [OF two, of "DClearClose callis"] show ?thesis by auto
    qed
  qed simp
  have "waits p t d (s\<lparr>ss_dispatch := close_notifier (ss_dispatch s) callis\<rparr>)"
    using waits_op [of p t d s "DCloseNotifier callis"] assms(1-3) by (simp add: waits_def)
  from loop [OF this assms(4) assms(5) [unfolded run_primary_transmitter_def]] show ?thesis by (simp add: waits_def)
qed

section \<open>A small stream\<close>

abbreviation no_output :: write_stream where
  "no_output \<equiv> \<lparr>ws_out = [], ws_script = []\<rparr>"

definition sample_chunk :: blob_write_lease where
  "sample_chunk = LeaseChunk 5 40 \<lparr>cl_chunk_id = 0, cl_data = [1, 2], cl_is_last = False, cl_peer_msg_id = 40, cl_callis_id = 7,
     cl_slot_seq = Suc 0\<rparr>"

lemma sample_chunk_leased: "fst (lease_next_blob_write bytes_written 7) = Some sample_chunk"
  by (simp add: sample_chunk_def bytes_written_def stream_opened_def new_manager_def small_window_def blob_eval)

definition blob_env_quiet :: blob_env where
  "blob_env_quiet = \<lparr>be_late = None, be_others = (\<lambda>_. []), be_wait = WaitWork\<rparr>"

theorem blob_stream_readable_witness:
  "\<exists>st' src'. read_all frame_reader_default [ReadData (wire (blob_wire sample_chunk))] 100 1 = ([blob_wire sample_chunk], st', src')"
proof -
  let ?tx = "\<lparr>bx_writer = no_output, bx_internal_shutdown = False\<rparr>"
  obtain m1 where l: "lease_next_blob_write bytes_written 7 = (Some sample_chunk, m1)"
    using sample_chunk_leased by (metis prod.collapse)
  have written: "send_blob_write no_output sample_chunk = (Inr (), \<lparr>ws_out = wire (blob_wire sample_chunk), ws_script = []\<rparr>)"
    by (simp add: sample_chunk_def send_blob_chunk_frame_eq BlobChunk_HEADER_LEN_def write_all_def flush_def frame_bytes_def)
  obtain m' where turn: "blob_transmitter_turn blob_env_quiet 7 bytes_written ?tx =
      (True, m', \<lparr>bx_writer = \<lparr>ws_out = wire (blob_wire sample_chunk), ws_script = []\<rparr>, bx_internal_shutdown = False\<rparr>)"
    by (simp add: blob_transmitter_turn_def blob_env_quiet_def l timeout_at_def written Let_def)
  then have run: "run_blob_transmitter 7 [blob_env_quiet] bytes_written ?tx =
      (True, m', \<lparr>bx_writer = \<lparr>ws_out = wire (blob_wire sample_chunk), ws_script = []\<rparr>, bx_internal_shutdown = False\<rparr>)"
    and frames: "blob_frames 7 [blob_env_quiet] bytes_written ?tx = [blob_wire sample_chunk]"
    by (simp_all add: blob_turn_frames_def blob_env_quiet_def l)
  have payload: "length (snd (blob_wire sample_chunk)) = 20" by (simp add: sample_chunk_def chunk_inner_length)
  have "live_data [ReadData (wire (blob_wire sample_chunk))]" "stream_bytes [ReadData (wire (blob_wire sample_chunk))] = wire (blob_wire sample_chunk)"
    using payload by (auto simp: live_data_def stream_bytes_def frame_bytes_def)
  from blob_stream_readable [OF run _ this(1), of 100, unfolded frames] this(2) payload
  obtain ks more st' src' where "[blob_wire sample_chunk] = ks @ more" "more = []"
      "read_all frame_reader_default [ReadData (wire (blob_wire sample_chunk))] 100 (length ks) = (ks, st', src')" by auto
  then have "read_all frame_reader_default [ReadData (wire (blob_wire sample_chunk))] 100 (length [blob_wire sample_chunk]) = ([blob_wire sample_chunk], st', src')"
    by simp
  then show ?thesis by (metis One_nat_def length_Cons list.size(3))
qed

definition sample_env :: "nat option \<Rightarrow> primary_env" where
  "sample_env late = \<lparr>en_now = 1, en_after = 2, en_late = late, en_others = (\<lambda>_. []), en_wait = WaitWork, en_config = sample_config, en_keepalive = 9\<rparr>"

abbreviation sample_tx :: primary_tx where
  "sample_tx \<equiv> \<lparr>tx_writer = no_output, tx_last_send = 0, tx_internal_shutdown = False\<rparr>"

definition sample_sent :: outbound_frame where
  "sample_sent = FrameMessage (outgoing_message sample_session 1 2 A3_MESSAGE_TYPE_BASE 0 [1, 2])"

text \<open>A session with one message, and the transmitter of callis 3 about to start.\<close>

definition sample_ready :: peer_session where
  "sample_ready = sample_open\<lparr>ss_dispatch := close_notifier (ss_dispatch sample_open) 3\<rparr>"

lemma sample_ready_reachable: "reachable_session sample_ready"
  using reachable_op [OF sample_session_reachable, of "[sample_create]" "SessionQueueOp (DCloseNotifier 3)"] by (simp add: sample_ready_def)

lemma sample_plan:
  "\<exists>lease s1. primary_plan_turn (sample_env late) 3 sample_ready sample_tx = (PlanSend lease, s1) \<and> claim_to_frame lease = sample_sent"
  by (simp add: primary_plan_turn_def sample_env_def sample_ready_def sample_sent_def session_eval take_close_intent_def close_notifier_def
      queue_claim_next_def claim_message_id_def prepare_dispatch_def
      store_deadline_def store_slot_ref_def slot_at_def close_state_new_def claim_to_frame_def outgoing_message_def Let_def)

lemma sample_sent_wire: "\<exists>h. outbound_wire sample_sent = (h, [1, 2])"
  by (simp add: sample_sent_def outbound_wire_def outgoing_message_def)

lemma sample_sent_written:
  "send_outbound_frame no_output sample_sent = (Inr (), \<lparr>ws_out = wire (outbound_wire sample_sent), ws_script = []\<rparr>)"
  by (simp add: sample_sent_def send_outbound_frame_eq send_frame_ok outbound_wire_def outgoing_message_def)

lemma sample_turn:
  assumes "claim_to_frame lease = sample_sent"
  shows "primary_do_turn (sample_env None) (PlanSend lease) s sample_tx =
    (True, complete_claim s lease (Inr ()), \<lparr>tx_writer = \<lparr>ws_out = wire (outbound_wire sample_sent), ws_script = []\<rparr>, tx_last_send = 2,
       tx_internal_shutdown = False\<rparr>)"
  by (simp add: primary_do_turn_def timeout_at_def sample_env_def assms sample_sent_written Let_def)

theorem transmitter_settles_claim_witness:
  "\<exists>lease s1. primary_plan_turn (sample_env None) 3 sample_ready sample_tx = (PlanSend lease, s1) \<and> 1 < rc_deadline lease
    \<and> po_sent (ss_dispatch (complete_claim s1 lease (Inr ()))) = po_sent (ss_dispatch s1)"
proof -
  obtain lease s1 where plan: "primary_plan_turn (sample_env None) 3 sample_ready sample_tx = (PlanSend lease, s1)" and f: "claim_to_frame lease = sample_sent"
    using sample_plan by blast
  have env: "en_now (sample_env None) = 1" "en_others (sample_env None) 3 = []" by (simp_all add: sample_env_def)
  from transmitter_settles_claim [OF sample_ready_reachable plan sample_turn [OF f] refl refl refl] env plan show ?thesis by auto
qed

theorem primary_stream_readable_witness:
  "\<exists>st' src'. read_all frame_reader_default [ReadData (wire (outbound_wire sample_sent))] 100 1 = ([outbound_wire sample_sent], st', src')"
proof -
  obtain lease s1 where plan: "primary_plan_turn (sample_env None) 3 sample_ready sample_tx = (PlanSend lease, s1)" and f: "claim_to_frame lease = sample_sent"
    using sample_plan by blast
  let ?ws = "\<lparr>ws_out = wire (outbound_wire sample_sent), ws_script = []\<rparr>"
  have run: "run_primary_transmitter 3 [sample_env None] sample_open no_output 0 =
      (True, complete_claim s1 lease (Inr ()), \<lparr>tx_writer = ?ws, tx_last_send = 2, tx_internal_shutdown = False\<rparr>)"
    by (simp only: run_primary_transmitter_def sample_ready_def [symmetric] primary_loop.simps plan sample_turn [OF f] Let_def case_prod_conv if_True)
  have frames: "[outbound_wire sample_sent] = primary_frames 3 [sample_env None] (sample_open\<lparr>ss_dispatch := close_notifier (ss_dispatch sample_open) 3\<rparr>)
      \<lparr>tx_writer = no_output, tx_last_send = 0, tx_internal_shutdown = False\<rparr>"
    by (simp only: sample_ready_def [symmetric] primary_frames.simps plan sample_turn [OF f] Let_def case_prod_conv if_True plan_frame_def
        primary_plan.case option.case f append.simps)
  obtain h where h: "outbound_wire sample_sent = (h, [1, 2])" using sample_sent_wire by blast
  have src: "live_data [ReadData (wire (outbound_wire sample_sent))]"
      "stream_bytes [ReadData (wire (outbound_wire sample_sent))] = ws_out (tx_writer \<lparr>tx_writer = ?ws, tx_last_send = 2, tx_internal_shutdown = False\<rparr>)"
    using h by (auto simp: live_data_def stream_bytes_def frame_bytes_def)
  from primary_stream_readable [OF run _ _ src frames, of 100] h
  obtain ks more st' src' where "[outbound_wire sample_sent] = ks @ more" "more = []"
      "read_all frame_reader_default [ReadData (wire (outbound_wire sample_sent))] 100 (length ks) = (ks, st', src')" by (auto simp: sample_env_def)
  then have "read_all frame_reader_default [ReadData (wire (outbound_wire sample_sent))] 100 (length [outbound_wire sample_sent]) =
      ([outbound_wire sample_sent], st', src')" by simp
  then show ?thesis by (metis One_nat_def length_Cons list.size(3))
qed

theorem late_write_corrupts_stream_witness:
  "\<exists>h st' src' bytes. outbound_wire sample_sent = (h, [1, 2])
    \<and> read_all frame_reader_default [ReadData bytes] 100 1 = ([(h, [1] @ take 1 (frame_bytes h [1, 2]))], st', src')"
proof -
  obtain h where h: "outbound_wire sample_sent = (h, [1, 2])" using sample_sent_wire by blast
  obtain lease where f: "claim_to_frame lease = sample_sent" using sample_plan by blast
  let ?s = sample_ready
  let ?env = "sample_env (Some (length (header_encode h) + 1))"
  obtain s2 tx2 where one: "primary_do_turn ?env (PlanSend lease) ?s sample_tx = (True, s2, tx2)" "ws_script (tx_writer tx2) = []"
    using late_send_goes_on [of "PlanSend lease" lease ?env _ sample_tx ?s] f h by (auto simp: sample_env_def outbound_wire_def)
  obtain g s3 tx3 where two: "primary_do_turn (sample_env None) (PlanSend lease) s2 tx2 = (g, s3, tx3)" using prod_cases3 by blast
  have w: "outbound_wire (claim_to_frame lease) = (h, [1, 2])" using f h by simp
  have "ws_out (tx_writer tx3) \<noteq> []"
    using two one(2) w by (auto simp: primary_do_turn_def timeout_at_def sample_env_def send_outbound_frame_eq send_frame_ok outbound_wire_def
        frame_bytes_def Let_def)
  then have src: "live_data [ReadData (ws_out (tx_writer tx3))]" "stream_bytes [ReadData (ws_out (tx_writer tx3))] = ws_out (tx_writer tx3)"
    by (simp_all add: live_data_def stream_bytes_def)
  have late: "en_late ?env = Some (length (header_encode h) + 1)" "en_late (sample_env None) = None" by (simp_all add: sample_env_def)
  from late_write_corrupts_stream [OF refl late(1) _ _ w _ _ _ one(1) refl late(2) w _ refl _ two src, of 100] h show ?thesis
    by (auto simp: frame_bytes_def)
qed

theorem transmission_keeps_pending_witness:
  "\<exists>t s' g tx'. run_primary_transmitter 3 [sample_env None, sample_env (Some 4)] sample_open no_output 0 = (g, s', tx')
    \<and> session_pending s' 0 = Some (t, 10)"
proof -
  have "\<exists>t. session_pending sample_open 0 = Some (t, 10)"
    by (simp add: session_eval pending_def slot_pending_def tracked_of_def Let_def)
  then obtain t where t: "session_pending sample_open 0 = Some (t, 10)" by blast
  have open_session: "\<not> ss_closing sample_open" by (simp add: session_eval Let_def)
  obtain g s' tx' where run: "run_primary_transmitter 3 [sample_env None, sample_env (Some 4)] sample_open no_output 0 = (g, s', tx')"
    using prod_cases3 by blast
  from transmission_keeps_pending [OF sample_session_reachable open_session t _ run] have "session_pending s' 0 = Some (t, 10)"
    by (simp add: sample_env_def)
  with run show ?thesis by blast
qed

end
