(* ===== verification/Handshake.thy ===== *)
theory Handshake
  imports Callis_Reader Gates
begin

text \<open>
  The greeting that opens a callis (\<^verbatim>\<open>src/crates/peering/src/transport/handshake.rs\<close>): the side that dials
  sends a hello and reads the response, the side that listens reads the hello and answers it. Both then
  know whether the session of the peer is resumed and, for a blob callis, its chunk size and window.

  A stream is what its reads will return and what has been written; the deadline is the end of the reads'
  list or \<open>hs_late\<close>, the number of bytes after which a write is still going on when the time is up. Other
  tasks of the peer run at every await: \<open>mid n\<close> is what they do to the shared state at the await numbered
  \<open>n\<close>. The theorems hold for every \<open>mid\<close> unless they say otherwise.
\<close>

section \<open>Shared state and streams\<close>

text \<open>What the tasks of a peer share; the session has the dispatch manager in it.\<close>

record peer_shared =
  ps_session :: peer_session
  ps_blob :: blob_manager
  ps_primary_active :: bool
  ps_tracker :: callis_tracker
  ps_next_callis :: nat

record hello_stream =
  hs_in :: "read_event list"
  hs_out :: write_stream
  hs_late :: "nat option"

record handshake_config =
  hc_max_payload_len :: nat
  hc_max_parallel :: nat
  hc_chunk_size :: u32
  hc_ack_window :: u32

record connection_info =
  ci_handle :: callis_handle
  ci_replay :: "peer_message list"
  ci_fresh_session :: bool
  ci_blob_settings :: "blob_callis_settings option"
  ci_blob_resume :: bool

definition basic_connection_info :: "callis_handle \<Rightarrow> blob_callis_settings option \<Rightarrow> bool \<Rightarrow> connection_info" where
  "basic_connection_info handle blob_settings blob_resume =
     \<lparr>ci_handle = handle, ci_replay = [], ci_fresh_session = False, ci_blob_settings = blob_settings, ci_blob_resume = blob_resume\<rparr>"

section \<open>Hello frames\<close>

definition hex_digit :: "nat \<Rightarrow> char" where
  "hex_digit n = ''0123456789abcdef'' ! (n mod 16)"

definition show_hex4 :: "u16 \<Rightarrow> string" where
  "show_hex4 w = map (\<lambda>k. hex_digit (unat w div 16 ^ k)) [3, 2, 1, 0]"

definition decode_wire_flags :: "(u16 \<Rightarrow> u16 option) \<Rightarrow> string \<Rightarrow> u16 \<Rightarrow> u16 result" where
  "decode_wire_flags from_bits context raw =
     (case from_bits raw of
        Some flags \<Rightarrow> Inr flags
      | None \<Rightarrow> Inl (with_message ProtocolViolation (''invalid '' @ context @ '' flags: 0x'' @ show_hex4 raw)))"

definition has_flag :: "u16 \<Rightarrow> u16 \<Rightarrow> bool" where
  "has_flag flags flag \<longleftrightarrow> flags AND flag = flag"

definition hello_header_flags :: "bool \<Rightarrow> bool \<Rightarrow> u16" where
  "hello_header_flags reconnect blob =
     (let flags = 0;
          flags = (if blob then flags OR WireFlags_BLOB else flags)
      in if reconnect then flags OR WireFlags_RECONNECT else flags)"

definition callis_connect_timeout_error :: aurelia_error where
  "callis_connect_timeout_error = with_message PeerUnavailable ''callis connect timeout''"

definition read_hello_response ::
  "string \<Rightarrow> (u16 \<Rightarrow> u16 option) \<Rightarrow> hello_stream \<Rightarrow> nat \<Rightarrow> (u16 \<times> hello_payload) result \<times> hello_stream" where
  "read_hello_response eof_text from_bits st max_payload_len =
     (let (r, src) = read_frame eof_text (hs_in st) max_payload_len;
          st = st\<lparr>hs_in := src\<rparr>
      in (case r of
            None \<Rightarrow> Inl callis_connect_timeout_error
          | Some (Inl e) \<Rightarrow> Inl e
          | Some (Inr None) \<Rightarrow> Inl (with_message ConnectionLost ''missing hello-response'')
          | Some (Inr (Some (header, payload))) \<Rightarrow>
              if wh_msg_type header \<noteq> MSG_HELLO_RESPONSE then Inl violation
              else rbind (decode_wire_flags from_bits ''hello-response'' (wh_flags header)) (\<lambda>flags.
                   rbind (hello_from_bytes payload) (\<lambda>hello. Inr (flags, hello))), st))"

definition send_control_frame_until ::
  "hello_stream \<Rightarrow> message_type \<Rightarrow> u16 \<Rightarrow> peer_message_id \<Rightarrow> u8 list \<Rightarrow> unit result \<times> hello_stream" where
  "send_control_frame_until st msg_type flags peer_msg_id payload =
     (let (r, ws) = send_control_frame (hs_out st) msg_type flags peer_msg_id payload
      in case hs_late st of
           None \<Rightarrow> (r, st\<lparr>hs_out := ws\<rparr>)
         | Some n \<Rightarrow>
             (Inl callis_connect_timeout_error,
              st\<lparr>hs_out := ws\<lparr>ws_out := take (length (ws_out (hs_out st)) + n) (ws_out ws)\<rparr>\<rparr>))"

definition send_hello_response ::
  "hello_stream \<Rightarrow> u16 \<Rightarrow> peer_message_id \<Rightarrow> hello_payload \<Rightarrow> unit result \<times> hello_stream" where
  "send_hello_response st flags peer_msg_id response =
     send_control_frame_until st MSG_HELLO_RESPONSE flags peer_msg_id (hello_to_bytes response)"

section \<open>Settings of a blob callis\<close>

fun blob_hello_values :: "hello_payload \<Rightarrow> (u32 \<times> u32) result" where
  "blob_hello_values (HelloBlob chunk window) = (if chunk = 0 \<or> window = 0 then Inl violation else Inr (chunk, window))"
| "blob_hello_values HelloPrimary = Inl violation"

definition validate_blob_hello_request :: "hello_payload \<Rightarrow> (u32 \<times> u32) result" where
  "validate_blob_hello_request hello = blob_hello_values hello"

definition validate_blob_hello_response :: "u32 \<Rightarrow> u32 \<Rightarrow> hello_payload \<Rightarrow> blob_callis_settings result" where
  "validate_blob_hello_response proposed_chunk proposed_window hello =
     rbind (blob_hello_values hello) (\<lambda>(agreed_chunk, agreed_window).
       if agreed_chunk > proposed_chunk \<or> agreed_window > proposed_window then Inl violation
       else Inr \<lparr>bs_chunk_size = agreed_chunk, bs_ack_window_chunks = agreed_window\<rparr>)"

definition negotiate_blob_settings :: "u32 \<Rightarrow> u32 \<Rightarrow> u32 \<Rightarrow> u32 \<Rightarrow> blob_callis_settings" where
  "negotiate_blob_settings proposed_chunk proposed_window cfg_chunk cfg_window =
     \<lparr>bs_chunk_size = min proposed_chunk cfg_chunk, bs_ack_window_chunks = min proposed_window cfg_window\<rparr>"

section \<open>The task of a callis\<close>

definition next_callis_id :: "peer_shared \<Rightarrow> nat \<times> peer_shared" where
  "next_callis_id sh = (ps_next_callis sh, sh\<lparr>ps_next_callis := (ps_next_callis sh + 1) mod 2 ^ 64\<rparr>)"

definition spawn_callis_handle :: "callis_kind \<Rightarrow> peer_shared \<Rightarrow> callis_handle \<times> peer_shared" where
  "spawn_callis_handle callis sh =
     (let tx = (case callis of CallisPrimary \<Rightarrow> TxPrimary | CallisBlob \<Rightarrow> TxBlob);
          (callis_id, sh) = next_callis_id sh
      in (\<lparr>ch_id = callis_id, ch_tx = tx\<rparr>, sh\<lparr>ps_tracker := tracker_open (ps_tracker sh)\<rparr>))"

section \<open>Dialing\<close>

text \<open>What the answer means for the session: the messages to replay, and whether the peer has restarted.\<close>

definition hello_outcome :: "bool \<Rightarrow> bool \<Rightarrow> peer_shared \<Rightarrow> (peer_message list \<times> bool \<times> peer_session) result" where
  "hello_outcome reconnect echoed sh =
     (if reconnect \<and> echoed then (let (replay, s) = handle_hello_response (ps_session sh) True in Inr (replay, False, s))
      else if reconnect \<and> ps_primary_active sh then Inr ([], False, ps_session sh)
      else if reconnect \<and> \<not> echoed then Inr ([], True, snd (handle_hello_response (ps_session sh) False))
      else if \<not> reconnect \<and> echoed then Inl violation
      else Inr ([], False, ps_session sh))"

definition establish_outbound_primary ::
  "string \<Rightarrow> (u16 \<Rightarrow> u16 option) \<Rightarrow> handshake_config \<Rightarrow> (nat \<Rightarrow> peer_shared \<Rightarrow> peer_shared) \<Rightarrow> hello_stream \<Rightarrow> peer_shared \<Rightarrow>
   connection_info result \<times> hello_stream \<times> peer_shared" where
  "establish_outbound_primary eof_text from_bits cfg mid st sh =
     (let reconnect = ss_active (ps_session sh);
          (sent, st) = send_control_frame_until st MSG_HELLO (hello_header_flags reconnect False) 0 (hello_to_bytes HelloPrimary);
          sh = mid 0 sh
      in case sent of
           Inl e \<Rightarrow> (Inl e, st, sh)
         | Inr _ \<Rightarrow>
             (case read_hello_response eof_text from_bits st (hc_max_payload_len cfg) of
                (Inl e, st) \<Rightarrow> (Inl e, st, sh)
              | (Inr (flags, payload), st) \<Rightarrow>
                  if has_flag flags WireFlags_BLOB then (Inl violation, st, sh)
                  else if payload \<noteq> HelloPrimary then (Inl violation, st, sh)
                  else (case hello_outcome reconnect (has_flag flags WireFlags_RECONNECT) sh of
                          Inl e \<Rightarrow> (Inl e, st, sh)
                        | Inr (replay, fresh_session, s) \<Rightarrow>
                            let (handle, sh) = spawn_callis_handle CallisPrimary (sh\<lparr>ps_session := set_active s True\<rparr>)
                            in (Inr \<lparr>ci_handle = handle, ci_replay = replay, ci_fresh_session = fresh_session,
                                     ci_blob_settings = None, ci_blob_resume = False\<rparr>, st, sh))))"

definition establish_outbound_blob ::
  "string \<Rightarrow> (u16 \<Rightarrow> u16 option) \<Rightarrow> handshake_config \<Rightarrow> (nat \<Rightarrow> peer_shared \<Rightarrow> peer_shared) \<Rightarrow> hello_stream \<Rightarrow> peer_shared \<Rightarrow>
   connection_info result \<times> hello_stream \<times> peer_shared" where
  "establish_outbound_blob eof_text from_bits cfg mid st sh =
     (let reconnect = bm_had_callis (ps_blob sh);
          hello = HelloBlob (hc_chunk_size cfg) (hc_ack_window cfg);
          (sent, st) = send_control_frame_until st MSG_HELLO (hello_header_flags reconnect True) 0 (hello_to_bytes hello);
          sh = mid 0 sh
      in case sent of
           Inl e \<Rightarrow> (Inl e, st, sh)
         | Inr _ \<Rightarrow>
             (case read_hello_response eof_text from_bits st (hc_max_payload_len cfg) of
                (Inl e, st) \<Rightarrow> (Inl e, st, sh)
              | (Inr (flags, payload), st) \<Rightarrow>
                  if \<not> has_flag flags WireFlags_BLOB then (Inl violation, st, sh)
                  else if \<not> reconnect \<and> has_flag flags WireFlags_RECONNECT then (Inl violation, st, sh)
                  else (case validate_blob_hello_response (hc_chunk_size cfg) (hc_ack_window cfg) payload of
                          Inl e \<Rightarrow> (Inl e, st, sh)
                        | Inr settings \<Rightarrow>
                            let resume = reconnect \<and> has_flag flags WireFlags_RECONNECT;
                                (handle, sh) = spawn_callis_handle CallisBlob sh
                            in (Inr (basic_connection_info handle (Some settings) resume), st, sh))))"

section \<open>Accepting\<close>

definition accept_inbound_primary ::
  "(nat \<Rightarrow> peer_shared \<Rightarrow> peer_shared) \<Rightarrow> hello_payload \<Rightarrow> peer_message_id \<Rightarrow> u16 \<Rightarrow> hello_stream \<Rightarrow> peer_shared \<Rightarrow>
   connection_info result \<times> hello_stream \<times> peer_shared" where
  "accept_inbound_primary mid hello peer_msg_id flags st sh =
     (if hello \<noteq> HelloPrimary then (Inl violation, st, sh)
      else let reconnect = has_flag flags WireFlags_RECONNECT;
               (a1_resume, s) =
                 (if reconnect \<or> \<not> ps_primary_active sh \<and> \<not> ss_active (ps_session sh) then accept_hello (ps_session sh) reconnect
                  else (False, ps_session sh));
               sh = sh\<lparr>ps_session := s\<rparr>;
               (sent, st) = send_hello_response st (hello_header_flags a1_resume False) peer_msg_id HelloPrimary;
               sh = mid 1 sh
           in case sent of
                Inl e \<Rightarrow> (Inl e, st, sh)
              | Inr _ \<Rightarrow>
                  let (handle, sh) = spawn_callis_handle CallisPrimary (sh\<lparr>ps_session := set_active (ps_session sh) True\<rparr>)
                  in (Inr (basic_connection_info handle None False), st, sh))"

definition accept_inbound_blob ::
  "handshake_config \<Rightarrow> (nat \<Rightarrow> peer_shared \<Rightarrow> peer_shared) \<Rightarrow> hello_payload \<Rightarrow> peer_message_id \<Rightarrow> u16 \<Rightarrow> hello_stream \<Rightarrow> peer_shared \<Rightarrow>
   connection_info result \<times> hello_stream \<times> peer_shared" where
  "accept_inbound_blob cfg mid hello peer_msg_id flags st sh =
     (case validate_blob_hello_request hello of
        Inl e \<Rightarrow> (Inl e, st, sh)
      | Inr (proposed_chunk, proposed_window) \<Rightarrow>
          let settings = negotiate_blob_settings proposed_chunk proposed_window (hc_chunk_size cfg) (hc_ack_window cfg);
              resume = (if has_flag flags WireFlags_RECONNECT then bm_had_callis (ps_blob sh) \<or> has_active_streams (ps_blob sh) else False);
              (sent, st) = send_hello_response st (hello_header_flags resume True) peer_msg_id
                (HelloBlob (bs_chunk_size settings) (bs_ack_window_chunks settings));
              sh = mid 1 sh
          in case sent of
               Inl e \<Rightarrow> (Inl e, st, sh)
             | Inr _ \<Rightarrow>
                 let (handle, sh) = spawn_callis_handle CallisBlob sh
                 in (Inr (basic_connection_info handle (Some settings) resume), st, sh))"

text \<open>The error frame that refuses a hello; whether it could be written does not matter.\<close>

definition refuse_hello :: "hello_stream \<Rightarrow> peer_message_id \<Rightarrow> error_id \<Rightarrow> string \<Rightarrow> hello_stream" where
  "refuse_hello st peer_msg_id kind text =
     st\<lparr>hs_out := snd (send_control_frame (hs_out st) MSG_ERROR 0 peer_msg_id
        (error_payload_to_bytes (error_payload_new (error_as_u32 kind) text)))\<rparr>"

text \<open>\<open>closed\<close>: the listener was shut down before the call, or while the hello was awaited.\<close>

definition accept_inbound ::
  "string \<Rightarrow> (u16 \<Rightarrow> u16 option) \<Rightarrow> handshake_config \<Rightarrow> (nat \<Rightarrow> peer_shared \<Rightarrow> peer_shared) \<Rightarrow> bool \<Rightarrow> hello_stream \<Rightarrow> peer_shared \<Rightarrow>
   (callis_kind \<times> connection_info) result \<times> hello_stream \<times> peer_shared" where
  "accept_inbound eof_text from_bits cfg mid closed st sh =
     (if closed then (Inl (err_new DomusClosed), st, mid 0 sh)
      else let (r, src) = read_frame eof_text (hs_in st) (hc_max_payload_len cfg);
               st = st\<lparr>hs_in := src\<rparr>;
               sh = mid 0 sh
           in case r of
                None \<Rightarrow> (Inl callis_connect_timeout_error, st, sh)
              | Some (Inl e) \<Rightarrow> (Inl e, st, sh)
              | Some (Inr None) \<Rightarrow> (Inl (err_new ConnectionLost), st, sh)
              | Some (Inr (Some (header, payload))) \<Rightarrow>
                  if wh_msg_type header \<noteq> MSG_HELLO then (Inl violation, st, sh)
                  else (case decode_wire_flags from_bits ''hello'' (wh_flags header) of
                          Inl e \<Rightarrow> (Inl e, st, sh)
                        | Inr flags \<Rightarrow>
                            (case hello_from_bytes payload of
                               Inl e \<Rightarrow> (Inl e, st, sh)
                             | Inr hello \<Rightarrow>
                                 let peer_msg_id = wh_peer_msg_id header;
                                     max_parallel = max (hc_max_parallel cfg) 1
                                 in if tracker_count (ps_tracker sh) \<ge> max_parallel
                                    then (Inl (err_new PeerUnavailable),
                                          refuse_hello st peer_msg_id PeerUnavailable ''callis limit reached'', sh)
                                    else if has_flag flags WireFlags_BLOB
                                    then if \<not> ps_primary_active sh
                                         then (Inl (err_new BlobCallisWithoutPrimary),
                                               refuse_hello st peer_msg_id BlobCallisWithoutPrimary ''blob callis without primary'', sh)
                                         else let (info, st, sh) = accept_inbound_blob cfg mid hello peer_msg_id flags st sh
                                              in (rbind info (\<lambda>info. Inr (CallisBlob, info)), st, sh)
                                    else let (info, st, sh) = accept_inbound_primary mid hello peer_msg_id flags st sh
                                         in (rbind info (\<lambda>info. Inr (CallisPrimary, info)), st, sh))))"


section \<open>Hello frames on a stream\<close>

lemma read_frame_frame:
  assumes live: "live_data src" and ok: "frame_ok h payload" and bytes: "stream_bytes src = frame_bytes h payload @ rest"
    and max: "length payload \<le> max_payload"
  shows "\<exists>src'. read_frame eof_text src max_payload = (Some (Inr (Some (h, payload))), src')"
proof -
  have v: "wh_version h = PROTOCOL_VERSION" and len: "unat (wh_payload_len h) = length payload"
    using ok by (simp_all add: frame_ok_def)
  have "32 \<le> length (stream_bytes src)" by (simp add: bytes frame_bytes_def)
  with fill_loop_done [OF live, of 0 "replicate WireHeader_LEN 0"]
  obtain src1 where f1: "fill_loop (replicate WireHeader_LEN 0) 0 src = (FillDone, take 32 (stream_bytes src), 32, src1)"
      "live_data src1" "stream_bytes src1 = drop 32 (stream_bytes src)" by (auto simp: WireHeader_LEN_def)
  have hd: "take 32 (stream_bytes src) = header_encode h" and tl: "stream_bytes src1 = payload @ rest"
    using f1(3) by (simp_all add: bytes frame_bytes_def)
  show ?thesis
  proof (cases "payload = []")
    case True
    then show ?thesis using f1 hd v len max by (simp add: read_frame_def header_decode_encode)
  next
    case False
    from fill_loop_done [OF f1(2), of 0 "replicate (length payload) 0"]
    obtain src2 where "fill_loop (replicate (length payload) 0) 0 src1 = (FillDone, payload, length payload, src2)" by (auto simp: tl)
    with False f1 hd v len max show ?thesis by (auto simp: read_frame_def header_decode_encode Let_def)
  qed
qed

definition hello_header :: "message_type \<Rightarrow> u16 \<Rightarrow> peer_message_id \<Rightarrow> hello_payload \<Rightarrow> wire_header" where
  "hello_header msg_type flags peer_msg_id hello =
     \<lparr>wh_version = PROTOCOL_VERSION, wh_flags = flags, wh_msg_type = msg_type, wh_peer_msg_id = peer_msg_id,
      wh_src_taberna = 0, wh_dst_taberna = 0, wh_payload_len = of_nat (length (hello_to_bytes hello))\<rparr>"

abbreviation hello_frame :: "message_type \<Rightarrow> u16 \<Rightarrow> peer_message_id \<Rightarrow> hello_payload \<Rightarrow> u8 list" where
  "hello_frame msg_type flags peer_msg_id hello \<equiv>
     frame_bytes (hello_header msg_type flags peer_msg_id hello) (hello_to_bytes hello)"

text \<open>A stream on which nothing has been written yet, nothing fails and the deadline is far.\<close>

definition open_stream :: "hello_stream \<Rightarrow> bool" where
  "open_stream st \<longleftrightarrow> live_data (hs_in st) \<and> ws_out (hs_out st) = [] \<and> ws_script (hs_out st) = [] \<and> hs_late st = None"

abbreviation sent_bytes :: "hello_stream \<Rightarrow> u8 list" where
  "sent_bytes st \<equiv> ws_out (hs_out st)"

lemma hello_length: "length (hello_to_bytes hello) \<le> 8"
  by (cases hello) simp_all

lemma hello_frame_ok: "frame_ok (hello_header t f i hello) (hello_to_bytes hello)"
proof -
  have "length (hello_to_bytes hello) < 2 ^ 32" using hello_length [of hello] by simp
  then show ?thesis by (simp add: frame_ok_def hello_header_def unat_of_nat)
qed

lemma send_hello_ok:
  assumes "hs_late st = None" "ws_script (hs_out st) = []"
  shows "send_control_frame_until st t f i (hello_to_bytes hello) =
    (Inr (), st\<lparr>hs_out := (hs_out st)\<lparr>ws_out := sent_bytes st @ hello_frame t f i hello\<rparr>\<rparr>)"
proof -
  have "length (hello_to_bytes hello) \<le> u32_max" using hello_length [of hello] by simp
  with assms show ?thesis
    by (simp add: send_control_frame_until_def send_control_frame_def control_header_def wire_payload_len_def send_frame_ok
        hello_header_def)
qed

lemma hello_flags:
  assumes "flags_checked from_bits"
  shows "from_bits (hello_header_flags r b) = Some (hello_header_flags r b)"
    "has_flag (hello_header_flags r b) WireFlags_BLOB = b" "has_flag (hello_header_flags r b) WireFlags_RECONNECT = r"
  using assms by (cases r; cases b; simp add: flags_checked_def hello_header_flags_def has_flag_def WireFlags_BLOB_def WireFlags_RECONNECT_def)+

lemma read_response_ok:
  assumes "flags_checked from_bits" and "live_data (hs_in st)"
    and "stream_bytes (hs_in st) = hello_frame MSG_HELLO_RESPONSE (hello_header_flags r b) i hello" and "8 \<le> max_payload"
  shows "\<exists>src. read_hello_response eof_text from_bits st max_payload = (Inr (hello_header_flags r b, hello), st\<lparr>hs_in := src\<rparr>)"
proof -
  have "length (hello_to_bytes hello) \<le> max_payload" using hello_length [of hello] assms(4) by simp
  from read_frame_frame [OF assms(2) hello_frame_ok _ this, of MSG_HELLO_RESPONSE "hello_header_flags r b" i "[]" eof_text] assms(3)
  obtain src where "read_frame eof_text (hs_in st) max_payload =
      (Some (Inr (Some (hello_header MSG_HELLO_RESPONSE (hello_header_flags r b) i hello, hello_to_bytes hello))), src)" by auto
  then show ?thesis
    by (auto simp: read_hello_response_def hello_header_def decode_wire_flags_def hello_flags [OF assms(1)] hello.dec_enc
        intro: exI [of _ src])
qed

lemma read_response_out [simp]: "hs_out (snd (read_hello_response eof_text from_bits st n)) = hs_out st"
  by (simp add: read_hello_response_def split_beta Let_def)

lemma establish_written:
  assumes "open_stream st"
  shows "sent_bytes (fst (snd (establish_outbound_primary eof_text from_bits cfg mid st sh))) =
      hello_frame MSG_HELLO (hello_header_flags (ss_active (ps_session sh)) False) 0 HelloPrimary"
    and "sent_bytes (fst (snd (establish_outbound_blob eof_text from_bits cfg mid st sh))) =
      hello_frame MSG_HELLO (hello_header_flags (bm_had_callis (ps_blob sh)) True) 0 (HelloBlob (hc_chunk_size cfg) (hc_ack_window cfg))"
proof -
  have st: "hs_late st = None" "ws_script (hs_out st) = []" "sent_bytes st = []" using assms by (simp_all add: open_stream_def)
  have keep: "hs_out st2 = hs_out st1" if "read_hello_response eof_text from_bits st1 n = (r, st2)" for st1 n r st2
    using that read_response_out [of eof_text from_bits st1 n] by simp
  show "sent_bytes (fst (snd (establish_outbound_primary eof_text from_bits cfg mid st sh))) =
      hello_frame MSG_HELLO (hello_header_flags (ss_active (ps_session sh)) False) 0 HelloPrimary"
    unfolding establish_outbound_primary_def Let_def send_hello_ok [OF st(1,2)] using st(3)
    by (auto dest: keep simp: Let_def split_beta split: sum.splits prod.splits)
  show "sent_bytes (fst (snd (establish_outbound_blob eof_text from_bits cfg mid st sh))) =
      hello_frame MSG_HELLO (hello_header_flags (bm_had_callis (ps_blob sh)) True) 0 (HelloBlob (hc_chunk_size cfg) (hc_ack_window cfg))"
    unfolding establish_outbound_blob_def Let_def send_hello_ok [OF st(1,2)] using st(3)
    by (auto dest: keep simp: Let_def split_beta split: sum.splits prod.splits)
qed

lemma accept_reads:
  assumes checked: "flags_checked from_bits" and st: "open_stream st" and max: "8 \<le> hc_max_payload_len cfg"
    and bytes: "stream_bytes (hs_in st) = hello_frame MSG_HELLO (hello_header_flags r b) 0 hello"
    and room: "tracker_count (ps_tracker (mid 0 sh)) < max (hc_max_parallel cfg) 1"
    and primary: "b \<longrightarrow> ps_primary_active (mid 0 sh)"
  shows "\<exists>src. accept_inbound eof_text from_bits cfg mid False st sh =
    (if b then (let (info, st, sh) = accept_inbound_blob cfg mid hello 0 (hello_header_flags r b) (st\<lparr>hs_in := src\<rparr>) (mid 0 sh)
                in (rbind info (\<lambda>info. Inr (CallisBlob, info)), st, sh))
     else (let (info, st, sh) = accept_inbound_primary mid hello 0 (hello_header_flags r b) (st\<lparr>hs_in := src\<rparr>) (mid 0 sh)
                in (rbind info (\<lambda>info. Inr (CallisPrimary, info)), st, sh)))"
proof -
  have live: "live_data (hs_in st)" using st by (simp add: open_stream_def)
  have len: "length (hello_to_bytes hello) \<le> hc_max_payload_len cfg" using hello_length [of hello] max by simp
  from read_frame_frame [OF live hello_frame_ok _ len, of MSG_HELLO "hello_header_flags r b" 0 "[]" eof_text] bytes
  obtain src where "read_frame eof_text (hs_in st) (hc_max_payload_len cfg) =
      (Some (Inr (Some (hello_header MSG_HELLO (hello_header_flags r b) 0 hello, hello_to_bytes hello))), src)" by auto
  then show ?thesis
    using room primary
    by (auto simp: accept_inbound_def Let_def hello_header_def decode_wire_flags_def hello_flags [OF checked] hello.dec_enc
        intro: exI [of _ src])
qed


section \<open>Both ends agree\<close>

lemma accept_blob_ok:
  assumes "hs_late st = None" "ws_script (hs_out st) = []" "sent_bytes st = []" and "chunk \<noteq> 0" "window \<noteq> 0"
    and "settings = negotiate_blob_settings chunk window (hc_chunk_size cfg) (hc_ack_window cfg)"
    and "resume = (has_flag flags WireFlags_RECONNECT \<and> (bm_had_callis (ps_blob sh) \<or> has_active_streams (ps_blob sh)))"
  shows "\<exists>handle st' sh'. accept_inbound_blob cfg mid (HelloBlob chunk window) i flags st sh =
      (Inr (basic_connection_info handle (Some settings) resume), st', sh')
    \<and> sent_bytes st' = hello_frame MSG_HELLO_RESPONSE (hello_header_flags resume True) i
        (HelloBlob (bs_chunk_size settings) (bs_ack_window_chunks settings))"
  using assms
  by (auto simp: accept_inbound_blob_def validate_blob_hello_request_def send_hello_response_def send_hello_ok Let_def split_beta
      simp del: hello_to_bytes.simps)

lemma dial_blob_ok:
  assumes checked: "flags_checked from_bits" and st: "open_stream st"
    and bytes: "stream_bytes (hs_in st) = hello_frame MSG_HELLO_RESPONSE (hello_header_flags resume True) i
        (HelloBlob (bs_chunk_size settings) (bs_ack_window_chunks settings))"
    and max: "8 \<le> hc_max_payload_len cfg"
    and settings: "bs_chunk_size settings \<noteq> 0" "bs_ack_window_chunks settings \<noteq> 0"
      "bs_chunk_size settings \<le> hc_chunk_size cfg" "bs_ack_window_chunks settings \<le> hc_ack_window cfg"
    and had: "resume \<longrightarrow> bm_had_callis (ps_blob sh)"
  shows "\<exists>handle st' sh'. establish_outbound_blob eof_text from_bits cfg mid st sh =
      (Inr (basic_connection_info handle (Some settings) resume), st', sh')"
proof -
  let ?hello = "HelloBlob (hc_chunk_size cfg) (hc_ack_window cfg)"
  let ?flags = "hello_header_flags (bm_had_callis (ps_blob sh)) True"
  let ?st1 = "st\<lparr>hs_out := (hs_out st)\<lparr>ws_out := sent_bytes st @ hello_frame MSG_HELLO ?flags 0 ?hello\<rparr>\<rparr>"
  have "send_control_frame_until st MSG_HELLO ?flags 0 (hello_to_bytes ?hello) = (Inr (), ?st1)"
    using st by (intro send_hello_ok) (simp_all add: open_stream_def)
  moreover obtain src where "read_hello_response eof_text from_bits ?st1 (hc_max_payload_len cfg) =
      (Inr (hello_header_flags resume True, HelloBlob (bs_chunk_size settings) (bs_ack_window_chunks settings)), ?st1\<lparr>hs_in := src\<rparr>)"
    using read_response_ok [OF checked, of ?st1 resume True i
        "HelloBlob (bs_chunk_size settings) (bs_ack_window_chunks settings)" "hc_max_payload_len cfg" eof_text] bytes max st
    by (auto simp: open_stream_def simp del: hello_to_bytes.simps)
  moreover have "validate_blob_hello_response (hc_chunk_size cfg) (hc_ack_window cfg)
      (HelloBlob (bs_chunk_size settings) (bs_ack_window_chunks settings)) = Inr settings"
    using settings by (simp add: validate_blob_hello_response_def not_less)
  ultimately show ?thesis
    using had hello_flags(2,3) [OF checked, of resume True]
    by (auto simp: establish_outbound_blob_def Let_def split_beta simp del: hello_to_bytes.simps)
qed

text \<open>
  C18. The two ends of a blob callis agree, whatever the other tasks of either peer do meanwhile: the chunk size
  and the window are the smaller of what the two configurations ask for, neither is zero, and either both
  ends resume their streams or none does. They resume exactly when the dialing end has had a blob callis
  before and the accepting end has had one or still has streams.
\<close>

theorem blob_handshake_agrees:
  assumes checked: "flags_checked from_bits" and std: "open_stream std" and sta: "open_stream sta"
    and dial: "establish_outbound_blob eof_text from_bits cd midd std shd = (rd, std', shd')"
    and accept: "accept_inbound eof_text from_bits ca mida False sta sha = (ra, sta', sha')"
    and wires: "stream_bytes (hs_in sta) = sent_bytes std'" "stream_bytes (hs_in std) = sent_bytes sta'"
    and config: "8 \<le> hc_max_payload_len cd" "8 \<le> hc_max_payload_len ca"
      "hc_chunk_size cd \<noteq> 0" "hc_ack_window cd \<noteq> 0" "hc_chunk_size ca \<noteq> 0" "hc_ack_window ca \<noteq> 0"
    and room: "tracker_count (ps_tracker (mida 0 sha)) < max (hc_max_parallel ca) 1" and primary: "ps_primary_active (mida 0 sha)"
  shows "\<exists>hd ha settings resume.
      rd = Inr (basic_connection_info hd (Some settings) resume)
    \<and> ra = Inr (CallisBlob, basic_connection_info ha (Some settings) resume)
    \<and> bs_chunk_size settings = min (hc_chunk_size cd) (hc_chunk_size ca) \<and> bs_chunk_size settings \<noteq> 0
    \<and> bs_ack_window_chunks settings = min (hc_ack_window cd) (hc_ack_window ca) \<and> bs_ack_window_chunks settings \<noteq> 0
    \<and> (resume \<longleftrightarrow> bm_had_callis (ps_blob shd)
         \<and> (bm_had_callis (ps_blob (mida 0 sha)) \<or> has_active_streams (ps_blob (mida 0 sha))))"
proof -
  let ?r = "bm_had_callis (ps_blob shd)"
  define settings where "settings = negotiate_blob_settings (hc_chunk_size cd) (hc_ack_window cd) (hc_chunk_size ca) (hc_ack_window ca)"
  define resume where "resume \<longleftrightarrow> ?r \<and> (bm_had_callis (ps_blob (mida 0 sha)) \<or> has_active_streams (ps_blob (mida 0 sha)))"
  have bytes: "stream_bytes (hs_in sta) = hello_frame MSG_HELLO (hello_header_flags ?r True) 0 (HelloBlob (hc_chunk_size cd) (hc_ack_window cd))"
    using establish_written(2) [OF std, of eof_text from_bits cd midd shd] dial wires(1) by simp
  obtain src where acc: "accept_inbound eof_text from_bits ca mida False sta sha =
      (let (info, st, sh) = accept_inbound_blob ca mida (HelloBlob (hc_chunk_size cd) (hc_ack_window cd)) 0
          (hello_header_flags ?r True) (sta\<lparr>hs_in := src\<rparr>) (mida 0 sha)
       in (rbind info (\<lambda>info. Inr (CallisBlob, info)), st, sh))"
    using accept_reads [OF checked sta config(2) bytes, where mid = mida and sh = sha, OF room, of eof_text] primary by auto
  have "hs_late (sta\<lparr>hs_in := src\<rparr>) = None" "ws_script (hs_out (sta\<lparr>hs_in := src\<rparr>)) = []" "sent_bytes (sta\<lparr>hs_in := src\<rparr>) = []"
    using sta by (simp_all add: open_stream_def)
  from accept_blob_ok [OF this config(3,4) settings_def, of resume "hello_header_flags ?r True" "mida 0 sha" mida 0]
  obtain ha st2 sh2 where ab: "accept_inbound_blob ca mida (HelloBlob (hc_chunk_size cd) (hc_ack_window cd)) 0
      (hello_header_flags ?r True) (sta\<lparr>hs_in := src\<rparr>) (mida 0 sha) = (Inr (basic_connection_info ha (Some settings) resume), st2, sh2)"
    and out: "sent_bytes st2 = hello_frame MSG_HELLO_RESPONSE (hello_header_flags resume True) 0
        (HelloBlob (bs_chunk_size settings) (bs_ack_window_chunks settings))"
    using hello_flags(3) [OF checked, of ?r True] by (auto simp: resume_def)
  have ra: "ra = Inr (CallisBlob, basic_connection_info ha (Some settings) resume)" and sta': "sta' = st2"
    using accept by (simp_all add: acc ab)
  have nz: "bs_chunk_size settings \<noteq> 0" "bs_ack_window_chunks settings \<noteq> 0"
    "bs_chunk_size settings \<le> hc_chunk_size cd" "bs_ack_window_chunks settings \<le> hc_ack_window cd"
    using config(3-6) by (auto simp: settings_def negotiate_blob_settings_def min_def not_le intro: less_imp_le)
  have "\<exists>hd. rd = Inr (basic_connection_info hd (Some settings) resume)"
    using dial_blob_ok [OF checked std _ config(1) nz, where resume = resume and i = 0 and eof_text = eof_text and mid = midd and sh = shd] wires(2) out resume_def dial by (auto simp: sta')
  moreover have "bs_chunk_size settings = min (hc_chunk_size cd) (hc_chunk_size ca)"
    "bs_ack_window_chunks settings = min (hc_ack_window cd) (hc_ack_window ca)"
    by (simp_all add: settings_def negotiate_blob_settings_def)
  ultimately show ?thesis using ra nz(1,2) unfolding resume_def by blast
qed


definition hello_accepted :: "bool \<Rightarrow> peer_shared \<Rightarrow> bool \<times> peer_session" where
  "hello_accepted reconnect sh =
     (if reconnect \<or> \<not> ps_primary_active sh \<and> \<not> ss_active (ps_session sh) then accept_hello (ps_session sh) reconnect
      else (False, ps_session sh))"

lemma accept_resumes: "fst (hello_accepted reconnect sh) \<longleftrightarrow> reconnect \<and> ss_active (ps_session sh)"
  by (simp add: hello_accepted_def accept_hello_def Let_def)

lemma accept_primary_ok:
  assumes "hs_late st = None" "ws_script (hs_out st) = []" "sent_bytes st = []" and "flags_checked from_bits"
  shows "\<exists>handle st' sh'. accept_inbound_primary mid HelloPrimary i (hello_header_flags r b) st sh =
      (Inr (basic_connection_info handle None False), st', sh')
    \<and> sent_bytes st' = hello_frame MSG_HELLO_RESPONSE (hello_header_flags (r \<and> ss_active (ps_session sh)) False) i HelloPrimary
    \<and> ps_session sh' = set_active (ps_session (mid 1 (sh\<lparr>ps_session := snd (hello_accepted r sh)\<rparr>))) True"
proof -
  obtain a s where acc: "hello_accepted r sh = (a, s)" by force
  then have "a = (r \<and> ss_active (ps_session sh))" using accept_resumes [of r sh] by simp
  with assms acc show ?thesis
    by (auto simp: accept_inbound_primary_def hello_flags hello_accepted_def [symmetric] send_hello_response_def send_hello_ok
        spawn_callis_handle_def next_callis_id_def Let_def split_beta simp del: hello_to_bytes.simps)
qed



text \<open>
  A hello that is refused leaves no trace: whatever the reason, once the response can be written the shared
  state is what the other tasks made of it, no callis is counted and no session or stream is touched.
\<close>

theorem refused_hello_leaves_no_trace:
  assumes "accept_inbound eof_text from_bits cfg mid closed st sh = (Inl err, st', sh')"
    and "ws_script (hs_out st) = []" "hs_late st = None"
  shows "sh' = mid 0 sh"
proof -
  have send: "send_hello_response st1 f i hello = (Inr (), st1\<lparr>hs_out := (hs_out st1)\<lparr>ws_out := sent_bytes st1 @ hello_frame MSG_HELLO_RESPONSE f i hello\<rparr>\<rparr>)"
    if "hs_out st1 = hs_out st" "hs_late st1 = hs_late st" for st1 f i hello
    using that assms(2,3) by (simp add: send_hello_response_def send_hello_ok)
  have primary: "sh2 = sh1" if "accept_inbound_primary mid hello i f (st\<lparr>hs_in := src\<rparr>) sh1 = (Inl e, st2, sh2)" for hello i f src sh1 e st2 sh2
    using that by (auto simp: accept_inbound_primary_def send Let_def split_beta split: if_splits)
  have blob: "sh2 = sh1" if "accept_inbound_blob cfg mid hello i f (st\<lparr>hs_in := src\<rparr>) sh1 = (Inl e, st2, sh2)" for hello i f src sh1 e st2 sh2
    using that by (auto simp: accept_inbound_blob_def send Let_def split_beta split: sum.splits)
  have result: "x = Inl e" if "rbind x (\<lambda>info. Inr (c, info)) = Inl e" for x :: "connection_info result" and c :: callis_kind and e
    using that by (cases x) auto
  show ?thesis
    using assms(1)
    by (auto simp: accept_inbound_def Let_def dest!: result primary blob
        split: if_splits prod.splits option.splits sum.splits)
qed

section \<open>A restarted peer\<close>

text \<open>
  A peer that has restarted greets without asking to resume. When this side still has the session of before,
  the greeting is accepted and nothing of that session is forgotten: a message of the new session whose
  number was delivered in the old one is acknowledged and never delivered.
\<close>

theorem restarted_peer_keeps_history:
  assumes checked: "flags_checked from_bits" and st: "open_stream st" and max: "8 \<le> hc_max_payload_len cfg"
    and hello: "stream_bytes (hs_in st) = hello_frame MSG_HELLO (hello_header_flags False False) 0 HelloPrimary"
    and room: "tracker_count (ps_tracker sh) < max (hc_max_parallel cfg) 1"
    and session: "ss_active (ps_session sh)" "\<not> ss_closing (ps_session sh)" "pm_peer_msg_id message \<in> dd_set (ss_dedupe (ps_session sh))"
    and local: "resolve_local registry (pm_dst_taberna message) = Some inbox"
  shows "\<exists>handle st' sh'. accept_inbound eof_text from_bits cfg (\<lambda>_ sh. sh) False st sh =
      (Inr (CallisPrimary, basic_connection_info handle None False), st', sh')
    \<and> receive_message_schedule (ps_session sh') message registry sink w notify tx scfg =
        (ScheduleImmediate (ReceiveAck (pm_peer_msg_id message)), ps_session sh', w)"
proof -
  let ?mid = "\<lambda>_ sh. sh"
  obtain src where acc: "accept_inbound eof_text from_bits cfg ?mid False st sh =
      (let (info, st, sh) = accept_inbound_primary ?mid HelloPrimary 0 (hello_header_flags False False) (st\<lparr>hs_in := src\<rparr>) sh
       in (rbind info (\<lambda>info. Inr (CallisPrimary, info)), st, sh))"
    using accept_reads [OF checked st max hello, where mid = ?mid and sh = sh and eof_text = eof_text] room by auto
  have "hs_late (st\<lparr>hs_in := src\<rparr>) = None" "ws_script (hs_out (st\<lparr>hs_in := src\<rparr>)) = []" "sent_bytes (st\<lparr>hs_in := src\<rparr>) = []"
    using st by (simp_all add: open_stream_def)
  from accept_primary_ok [OF this checked, of ?mid 0 False False sh]
  obtain handle st' sh' where res: "accept_inbound eof_text from_bits cfg ?mid False st sh =
      (Inr (CallisPrimary, basic_connection_info handle None False), st', sh')"
    and s: "ps_session sh' = set_active (ps_session sh) True"
    using acc session(1) by (auto simp: hello_accepted_def)
  have "receive_message_schedule (ps_session sh') message registry sink w notify tx scfg =
      (ScheduleImmediate (ReceiveAck (pm_peer_msg_id message)), ps_session sh', w)"
    using session local
    by (simp add: s set_active_def receive_message_schedule_def session_dedupe_begin_def dedupe_begin_def)
  with res show ?thesis by blast
qed


section \<open>Small handshakes\<close>

abbreviation quiet :: "nat \<Rightarrow> peer_shared \<Rightarrow> peer_shared" where
  "quiet \<equiv> \<lambda>_ sh. sh"

definition sample_stream :: "u8 list \<Rightarrow> hello_stream" where
  "sample_stream bytes = \<lparr>hs_in = [ReadData bytes], hs_out = \<lparr>ws_out = [], ws_script = []\<rparr>, hs_late = None\<rparr>"

definition sample_handshake :: "u32 \<Rightarrow> u32 \<Rightarrow> handshake_config" where
  "sample_handshake chunk window = \<lparr>hc_max_payload_len = 100, hc_max_parallel = 2, hc_chunk_size = chunk, hc_ack_window = window\<rparr>"

text \<open>A peer with a session in which message 5 was delivered.\<close>

definition sample_shared :: "bool \<Rightarrow> peer_shared" where
  "sample_shared active = \<lparr>ps_session = sample_session\<lparr>ss_active := active,
     ss_dedupe := \<lparr>dd_set = {5}, dd_order = [5], dd_pending = []\<rparr>\<rparr>,
     ps_blob = new_manager, ps_primary_active = active, ps_tracker = tracker_new, ps_next_callis = 2\<rparr>"

lemma sample_stream_open:
  "bytes \<noteq> [] \<Longrightarrow> open_stream (sample_stream bytes)" "stream_bytes (hs_in (sample_stream bytes)) = bytes"
  by (simp_all add: open_stream_def sample_stream_def live_data_def stream_bytes_def)

lemma hello_frame_nonempty: "hello_frame t f i hello \<noteq> []"
  by (auto simp: frame_bytes_def dest: arg_cong [where f = length])

lemma sample_room: "tracker_count (ps_tracker (sample_shared a)) < max (hc_max_parallel (sample_handshake c w)) 1"
  by (simp add: sample_shared_def sample_handshake_def tracker_count_def tracker_new_def)

theorem restarted_peer_keeps_history_witness:
  "\<exists>handle st' sh'. accept_inbound [] WireFlags_from_bits (sample_handshake 3 5) quiet False
      (sample_stream (hello_frame MSG_HELLO (hello_header_flags False False) 0 HelloPrimary)) (sample_shared True) =
      (Inr (CallisPrimary, basic_connection_info handle None False), st', sh')
    \<and> fst (receive_message_schedule (ps_session sh') \<lparr>pm_peer_msg_id = 5, pm_src_taberna = 6, pm_dst_taberna = 7,
        pm_msg_type = A3_MESSAGE_TYPE_BASE, pm_flags = 0, pm_payload = [1]\<rparr> sample_registry (\<lambda>_ _ _ _ w. (Inr 3, Suc w)) 0 None 8 sample_config)
      = ScheduleImmediate (ReceiveAck 5)"
proof -
  let ?st = "sample_stream (hello_frame MSG_HELLO (hello_header_flags False False) 0 HelloPrimary)"
  let ?m = "\<lparr>pm_peer_msg_id = 5, pm_src_taberna = 6, pm_dst_taberna = 7, pm_msg_type = A3_MESSAGE_TYPE_BASE, pm_flags = 0, pm_payload = [1]\<rparr>"
  have session: "ss_active (ps_session (sample_shared True))" "\<not> ss_closing (ps_session (sample_shared True))"
    "pm_peer_msg_id ?m \<in> dd_set (ss_dedupe (ps_session (sample_shared True)))"
    by (simp_all add: sample_shared_def sample_session_def session_new_def)
  have local: "resolve_local sample_registry (pm_dst_taberna ?m) = Some ()" by (simp add: resolve_local_def)
  have max: "8 \<le> hc_max_payload_len (sample_handshake 3 5)" by (simp add: sample_handshake_def)
  from restarted_peer_keeps_history [OF flags_checked_sample sample_stream_open(1) [OF hello_frame_nonempty] max sample_stream_open(2)
      sample_room session local, where eof_text = "[]" and sink = "\<lambda>_ _ _ _ w. (Inr 3, Suc w)" and w = 0 and notify = None and tx = 8
      and scfg = sample_config]
  obtain handle st' sh' where "accept_inbound [] WireFlags_from_bits (sample_handshake 3 5) quiet False ?st (sample_shared True) =
      (Inr (CallisPrimary, basic_connection_info handle None False), st', sh')"
    and "receive_message_schedule (ps_session sh') ?m sample_registry (\<lambda>_ _ _ _ w. (Inr 3, Suc w)) 0 None 8 sample_config =
      (ScheduleImmediate (ReceiveAck (pm_peer_msg_id ?m)), ps_session sh', 0)"
    by blast
  then show ?thesis by auto
qed

theorem refused_hello_leaves_no_trace_witness:
  "snd (snd (accept_inbound [] WireFlags_from_bits (sample_handshake 3 5) quiet True (sample_stream []) (sample_shared True))) = sample_shared True"
proof -
  have "accept_inbound [] WireFlags_from_bits (sample_handshake 3 5) quiet True (sample_stream []) (sample_shared True) =
      (Inl (err_new DomusClosed), sample_stream [], sample_shared True)"
    by (simp add: accept_inbound_def)
  from refused_hello_leaves_no_trace [OF this] show ?thesis by (simp add: sample_stream_def accept_inbound_def)
qed

theorem blob_handshake_agrees_witness:
  "\<exists>hd ha. fst (establish_outbound_blob [] WireFlags_from_bits (sample_handshake 4 2) quiet
        (sample_stream (hello_frame MSG_HELLO_RESPONSE (hello_header_flags False True) 0 (HelloBlob 3 2))) (sample_shared True)) =
      Inr (basic_connection_info hd (Some \<lparr>bs_chunk_size = 3, bs_ack_window_chunks = 2\<rparr>) False)
    \<and> fst (accept_inbound [] WireFlags_from_bits (sample_handshake 3 5) quiet False
        (sample_stream (hello_frame MSG_HELLO (hello_header_flags False True) 0 (HelloBlob 4 2))) (sample_shared True)) =
      Inr (CallisBlob, basic_connection_info ha (Some \<lparr>bs_chunk_size = 3, bs_ack_window_chunks = 2\<rparr>) False)"
proof -
  let ?std = "sample_stream (hello_frame MSG_HELLO_RESPONSE (hello_header_flags False True) 0 (HelloBlob 3 2))"
  let ?sta = "sample_stream (hello_frame MSG_HELLO (hello_header_flags False True) 0 (HelloBlob 4 2))"
  let ?sh = "sample_shared True"
  obtain rd std' shd where d: "establish_outbound_blob [] WireFlags_from_bits (sample_handshake 4 2) quiet ?std ?sh = (rd, std', shd)"
    by (metis prod_cases3)
  obtain ra sta' sha where a: "accept_inbound [] WireFlags_from_bits (sample_handshake 3 5) quiet False ?sta ?sh = (ra, sta', sha)"
    by (metis prod_cases3)
  have open_streams: "open_stream ?std" "open_stream ?sta" by (rule sample_stream_open(1) [OF hello_frame_nonempty])+
  have config: "8 \<le> hc_max_payload_len (sample_handshake c w)" "hc_chunk_size (sample_handshake c w) = c"
    "hc_ack_window (sample_handshake c w) = w" for c w
    by (simp_all add: sample_handshake_def)
  have blob: "\<not> bm_had_callis (ps_blob ?sh)" "\<not> has_active_streams (ps_blob ?sh)" "ps_primary_active ?sh"
    by (simp_all add: sample_shared_def new_manager_def blob_manager_new_def has_active_streams_def blob_inbound_new_def blob_outbound_new_def)
  have wd: "stream_bytes (hs_in ?sta) = sent_bytes std'"
    using establish_written(2) [OF open_streams(1), of "[]" WireFlags_from_bits "sample_handshake 4 2" quiet ?sh] d blob
    by (simp add: sample_stream_open(2) config)
  obtain src where acc: "accept_inbound [] WireFlags_from_bits (sample_handshake 3 5) quiet False ?sta ?sh =
      (let (info, st, sh) = accept_inbound_blob (sample_handshake 3 5) quiet (HelloBlob 4 2) 0 (hello_header_flags False True) (?sta\<lparr>hs_in := src\<rparr>) ?sh
       in (rbind info (\<lambda>info. Inr (CallisBlob, info)), st, sh))"
    using accept_reads [OF flags_checked_sample open_streams(2) config(1) sample_stream_open(2), where mid = quiet and sh = ?sh and eof_text = "[]",
        OF sample_room] blob(3) by auto
  have "min 4 3 = (3 :: u32)" "min 2 5 = (2 :: u32)" by (simp_all add: min_def)
  then have "sent_bytes sta' = hello_frame MSG_HELLO_RESPONSE (hello_header_flags False True) 0 (HelloBlob 3 2)"
    using accept_blob_ok [of "?sta\<lparr>hs_in := src\<rparr>" 4 2 "\<lparr>bs_chunk_size = 3, bs_ack_window_chunks = 2\<rparr>" "sample_handshake 3 5" False
        "hello_header_flags False True" ?sh quiet 0] acc a hello_flags(3) [OF flags_checked_sample, of False True]
    by (auto simp: sample_stream_def config negotiate_blob_settings_def)
  then have wa: "stream_bytes (hs_in ?std) = sent_bytes sta'" by (simp only: sample_stream_open(2))
  from blob_handshake_agrees [OF flags_checked_sample open_streams d a wd wa config(1) config(1)] blob sample_room [of True 3 5]
  obtain hd ha settings where rd: "rd = Inr (basic_connection_info hd (Some settings) False)"
    and ra: "ra = Inr (CallisBlob, basic_connection_info ha (Some settings) False)"
    and "bs_chunk_size settings = min 4 3" "bs_ack_window_chunks settings = min 2 5"
    by (auto simp: config)
  then have "settings = \<lparr>bs_chunk_size = 3, bs_ack_window_chunks = 2\<rparr>" by (cases settings) (simp add: min_def)
  with rd ra d a show ?thesis by auto
qed



end
