(* ===== verification/Config.thy ===== *)
theory Config
  imports Transmitter Handshake
begin

text \<open>
  The configuration of a domus (\<^verbatim>\<open>src/crates/peering/src/config.rs\<close>), its builder, validation, the clamping of the
  blob buffers to the memory of the machine, the live store with the copies other tasks read without its
  lock, and the limiter of log lines that the store configures (\<^verbatim>\<open>src/crates/logging/src/limited.rs\<close>).

  Sizes of 64 bits are natural numbers, durations are nanoseconds; the size of the machine's memory, which the
  code asks the operating system for, is an argument.
\<close>

section \<open>Configuration\<close>

record blob_window_config =
  bw_chunk_size :: u32
  bw_ack_window :: u32

record domus_config =
  dc_send_queue_size :: nat
  dc_send_timeout :: duration
  dc_callis_connect_timeout :: duration
  dc_accept_timeout :: duration
  dc_taberna_accept_queue_size :: nat
  dc_keepalive_interval :: duration
  dc_listener_delay :: duration
  dc_listener_reconnect_timeout :: duration
  dc_reconnect_backoff :: "duration list"
  dc_socket_callback_timeout :: duration
  dc_socket_handshake_timeout :: duration
  dc_tcp_callback_timeout :: duration
  dc_tcp_handshake_timeout :: duration
  dc_limited_log_interval :: duration
  dc_inbound_handshake_limit_total :: nat
  dc_inbound_handshake_limit_per_peer :: nat
  dc_max_parallel_callis_per_peer :: nat
  dc_blob_window :: blob_window_config
  dc_blob_outbound_buffer_bytes :: nat
  dc_blob_inbound_buffer_bytes :: nat
  dc_max_payload_len :: nat

definition DEFAULT_TCP_BLOB_WINDOW :: blob_window_config where
  "DEFAULT_TCP_BLOB_WINDOW = \<lparr>bw_chunk_size = 1200, bw_ack_window = 1024\<rparr>"

definition DEFAULT_SOCKET_BLOB_WINDOW :: blob_window_config where
  "DEFAULT_SOCKET_BLOB_WINDOW = \<lparr>bw_chunk_size = 128 * 1024, bw_ack_window = 32\<rparr>"

definition domus_config_default :: domus_config where
  "domus_config_default =
     \<lparr>dc_send_queue_size = 128, dc_send_timeout = secs 30, dc_callis_connect_timeout = secs 15, dc_accept_timeout = secs 5,
      dc_taberna_accept_queue_size = 2, dc_keepalive_interval = secs 15, dc_listener_delay = secs 5,
      dc_listener_reconnect_timeout = secs 20, dc_reconnect_backoff = [secs 1, secs 2, secs 4],
      dc_socket_callback_timeout = secs 2, dc_socket_handshake_timeout = secs 5, dc_tcp_callback_timeout = secs 10,
      dc_tcp_handshake_timeout = secs 10, dc_limited_log_interval = secs 120, dc_inbound_handshake_limit_total = 64,
      dc_inbound_handshake_limit_per_peer = 3, dc_max_parallel_callis_per_peer = 8, dc_blob_window = DEFAULT_TCP_BLOB_WINDOW,
      dc_blob_outbound_buffer_bytes = 256 * 1024 * 1024, dc_blob_inbound_buffer_bytes = 256 * 1024 * 1024,
      dc_max_payload_len = 8 * 1024 * 1024\<rparr>"

definition apply_transport_defaults :: "domus_config \<Rightarrow> transport_kind \<Rightarrow> domus_config" where
  "apply_transport_defaults cfg transport =
     (if transport = KindSocket \<and> dc_blob_window cfg = DEFAULT_TCP_BLOB_WINDOW
      then cfg\<lparr>dc_blob_window := DEFAULT_SOCKET_BLOB_WINDOW\<rparr> else cfg)"

section \<open>Limits\<close>

definition MAX_SEND_QUEUE_SIZE :: nat where "MAX_SEND_QUEUE_SIZE = 4096"
definition MAX_MAX_PAYLOAD_LEN :: nat where "MAX_MAX_PAYLOAD_LEN = 64 * 1024 * 1024"
definition MAX_INBOUND_HANDSHAKE_LIMIT_TOTAL :: nat where "MAX_INBOUND_HANDSHAKE_LIMIT_TOTAL = 1024"
definition MAX_INBOUND_HANDSHAKE_LIMIT_PER_PEER :: nat where "MAX_INBOUND_HANDSHAKE_LIMIT_PER_PEER = 64"
definition MAX_PARALLEL_CALLIS_PER_PEER :: nat where "MAX_PARALLEL_CALLIS_PER_PEER = 64"
definition MAX_BLOB_CHUNK_SIZE :: nat where "MAX_BLOB_CHUNK_SIZE = 1024 * 1024"
definition MAX_BLOB_ACK_WINDOW :: nat where "MAX_BLOB_ACK_WINDOW = 4096"
definition MAX_BLOB_BUFFER_BYTES :: nat where "MAX_BLOB_BUFFER_BYTES = 8 * 1024 * 1024 * 1024"
definition MAX_RECONNECT_BACKOFF_STEPS :: nat where "MAX_RECONNECT_BACKOFF_STEPS = 16"
definition MAX_TABERNA_ACCEPT_QUEUE_SIZE :: nat where "MAX_TABERNA_ACCEPT_QUEUE_SIZE = 1024"
definition MAX_SEND_TIMEOUT :: nat where "MAX_SEND_TIMEOUT = 300"
definition MAX_CALLIS_CONNECT_TIMEOUT :: nat where "MAX_CALLIS_CONNECT_TIMEOUT = 300"
definition MAX_ACCEPT_TIMEOUT :: nat where "MAX_ACCEPT_TIMEOUT = 60"
definition MAX_KEEPALIVE_INTERVAL :: nat where "MAX_KEEPALIVE_INTERVAL = 300"
definition MAX_LISTENER_DELAY :: nat where "MAX_LISTENER_DELAY = 60"
definition MAX_LISTENER_RECONNECT_TIMEOUT :: nat where "MAX_LISTENER_RECONNECT_TIMEOUT = 300"
definition MAX_SOCKET_CALLBACK_TIMEOUT :: nat where "MAX_SOCKET_CALLBACK_TIMEOUT = 60"
definition MAX_SOCKET_HANDSHAKE_TIMEOUT :: nat where "MAX_SOCKET_HANDSHAKE_TIMEOUT = 120"
definition MAX_TCP_CALLBACK_TIMEOUT :: nat where "MAX_TCP_CALLBACK_TIMEOUT = 120"
definition MAX_TCP_HANDSHAKE_TIMEOUT :: nat where "MAX_TCP_HANDSHAKE_TIMEOUT = 300"
definition MAX_LIMITED_LOG_INTERVAL :: nat where "MAX_LIMITED_LOG_INTERVAL = 3600"
definition MAX_RECONNECT_BACKOFF :: nat where "MAX_RECONNECT_BACKOFF = 300"

text \<open>The limits of durations are whole seconds, which their debug format prints with the unit.\<close>

definition show_secs :: "nat \<Rightarrow> string" where
  "show_secs n = show_nat n @ ''s''"

lemmas config_limits = MAX_SEND_QUEUE_SIZE_def MAX_MAX_PAYLOAD_LEN_def MAX_INBOUND_HANDSHAKE_LIMIT_TOTAL_def
  MAX_INBOUND_HANDSHAKE_LIMIT_PER_PEER_def MAX_PARALLEL_CALLIS_PER_PEER_def MAX_BLOB_CHUNK_SIZE_def MAX_BLOB_ACK_WINDOW_def
  MAX_BLOB_BUFFER_BYTES_def MAX_RECONNECT_BACKOFF_STEPS_def MAX_TABERNA_ACCEPT_QUEUE_SIZE_def MAX_SEND_TIMEOUT_def
  MAX_CALLIS_CONNECT_TIMEOUT_def MAX_ACCEPT_TIMEOUT_def MAX_KEEPALIVE_INTERVAL_def MAX_LISTENER_DELAY_def
  MAX_LISTENER_RECONNECT_TIMEOUT_def MAX_SOCKET_CALLBACK_TIMEOUT_def MAX_SOCKET_HANDSHAKE_TIMEOUT_def
  MAX_TCP_CALLBACK_TIMEOUT_def MAX_TCP_HANDSHAKE_TIMEOUT_def MAX_LIMITED_LOG_INTERVAL_def MAX_RECONNECT_BACKOFF_def

section \<open>Checks\<close>

definition config_range_error :: "string \<Rightarrow> nat \<Rightarrow> nat \<Rightarrow> nat \<Rightarrow> aurelia_error" where
  "config_range_error field lo hi v =
     with_message InvalidConfig (field @ '': expected '' @ show_nat lo @ ''..='' @ show_nat hi @ '', got '' @ show_nat v)"

definition config_max_error :: "string \<Rightarrow> nat \<Rightarrow> nat \<Rightarrow> aurelia_error" where
  "config_max_error field hi v = with_message InvalidConfig (field @ '': expected <= '' @ show_nat hi @ '', got '' @ show_nat v)"

definition config_relation_error :: "string \<Rightarrow> string \<Rightarrow> aurelia_error" where
  "config_relation_error field message = with_message InvalidConfig (field @ '': '' @ message)"

definition check_range :: "string \<Rightarrow> nat \<Rightarrow> nat \<Rightarrow> unit result" where
  "check_range field v hi = (if v = 0 \<or> v > hi then Inl (config_range_error field 1 hi v) else Inr ())"

definition check_max_u64 :: "string \<Rightarrow> nat \<Rightarrow> nat \<Rightarrow> unit result" where
  "check_max_u64 field v hi = (if v > hi then Inl (config_max_error field hi v) else Inr ())"

definition check_max_duration :: "string \<Rightarrow> duration \<Rightarrow> nat \<Rightarrow> unit result" where
  "check_max_duration field v hi = (if v > secs hi then Inl (config_relation_error field (''must be <= '' @ show_secs hi)) else Inr ())"

definition check_range_duration :: "string \<Rightarrow> duration \<Rightarrow> nat \<Rightarrow> unit result" where
  "check_range_duration field v hi =
     (if v = 0 then Inl (config_relation_error field ''must be > 0'') else check_max_duration field v hi)"

definition check_le :: "string \<Rightarrow> string \<Rightarrow> nat \<Rightarrow> nat \<Rightarrow> unit result" where
  "check_le field other_field v other_value =
     (if v > other_value then Inl (config_relation_error field (''must be <= '' @ other_field)) else Inr ())"

definition check_ge_u64 :: "string \<Rightarrow> string \<Rightarrow> nat \<Rightarrow> nat \<Rightarrow> unit result" where
  "check_ge_u64 field min_label v lo =
     (if v < lo then Inl (config_relation_error field (''must be >= '' @ min_label @ '' ('' @ show_nat lo @ '')'')) else Inr ())"

fun check_backoff :: "nat \<Rightarrow> duration list \<Rightarrow> unit result" where
  "check_backoff idx [] = Inr ()"
| "check_backoff idx (v # vs) =
     (if v > secs MAX_RECONNECT_BACKOFF
      then Inl (config_relation_error ''reconnect_backoff'' (''entry '' @ show_nat idx @ '' must be <= '' @ show_secs MAX_RECONNECT_BACKOFF))
      else check_backoff (Suc idx) vs)"

text \<open>A list of checks in turn; the first failure is the result.\<close>

fun all_checks :: "unit result list \<Rightarrow> unit result" where
  "all_checks [] = Inr ()"
| "all_checks (c # cs) = rbind c (\<lambda>_. all_checks cs)"

definition blob_required :: "domus_config \<Rightarrow> nat" where
  "blob_required cfg = unat (bw_chunk_size (dc_blob_window cfg)) * unat (bw_ack_window (dc_blob_window cfg))"

definition validate_domus_config :: "domus_config \<Rightarrow> nat \<Rightarrow> unit result" where
  "validate_domus_config cfg buffer_cap = all_checks
     [check_range ''send_queue_size'' (dc_send_queue_size cfg) MAX_SEND_QUEUE_SIZE,
      check_range ''taberna_accept_queue_size'' (dc_taberna_accept_queue_size cfg) MAX_TABERNA_ACCEPT_QUEUE_SIZE,
      check_range ''max_payload_len'' (dc_max_payload_len cfg) MAX_MAX_PAYLOAD_LEN,
      check_range ''inbound_handshake_limit_total'' (dc_inbound_handshake_limit_total cfg) MAX_INBOUND_HANDSHAKE_LIMIT_TOTAL,
      check_range ''inbound_handshake_limit_per_peer'' (dc_inbound_handshake_limit_per_peer cfg) MAX_INBOUND_HANDSHAKE_LIMIT_PER_PEER,
      check_le ''inbound_handshake_limit_per_peer'' ''inbound_handshake_limit_total''
        (dc_inbound_handshake_limit_per_peer cfg) (dc_inbound_handshake_limit_total cfg),
      check_range ''max_parallel_callis_per_peer'' (dc_max_parallel_callis_per_peer cfg) MAX_PARALLEL_CALLIS_PER_PEER,
      check_range ''blob_window.chunk_size'' (unat (bw_chunk_size (dc_blob_window cfg))) MAX_BLOB_CHUNK_SIZE,
      check_range ''blob_window.ack_window'' (unat (bw_ack_window (dc_blob_window cfg))) MAX_BLOB_ACK_WINDOW,
      check_max_u64 ''blob_outbound_buffer_bytes'' (dc_blob_outbound_buffer_bytes cfg) buffer_cap,
      check_max_u64 ''blob_inbound_buffer_bytes'' (dc_blob_inbound_buffer_bytes cfg) buffer_cap,
      (if blob_required cfg > u64_max
       then Inl (config_relation_error ''blob_window'' ''chunk_size * ack_window overflows reservation size'') else Inr ()),
      check_ge_u64 ''blob_outbound_buffer_bytes'' ''blob_window.chunk_size * blob_window.ack_window''
        (dc_blob_outbound_buffer_bytes cfg) (blob_required cfg),
      check_ge_u64 ''blob_inbound_buffer_bytes'' ''blob_window.chunk_size * blob_window.ack_window''
        (dc_blob_inbound_buffer_bytes cfg) (blob_required cfg),
      check_range_duration ''send_timeout'' (dc_send_timeout cfg) MAX_SEND_TIMEOUT,
      check_range_duration ''callis_connect_timeout'' (dc_callis_connect_timeout cfg) MAX_CALLIS_CONNECT_TIMEOUT,
      check_le ''callis_connect_timeout'' ''send_timeout'' (dc_callis_connect_timeout cfg) (dc_send_timeout cfg),
      check_range_duration ''accept_timeout'' (dc_accept_timeout cfg) MAX_ACCEPT_TIMEOUT,
      check_le ''accept_timeout'' ''send_timeout'' (dc_accept_timeout cfg) (dc_send_timeout cfg),
      check_max_duration ''keepalive_interval'' (dc_keepalive_interval cfg) MAX_KEEPALIVE_INTERVAL,
      check_max_duration ''listener_delay'' (dc_listener_delay cfg) MAX_LISTENER_DELAY,
      check_max_duration ''listener_reconnect_timeout'' (dc_listener_reconnect_timeout cfg) MAX_LISTENER_RECONNECT_TIMEOUT,
      check_max_duration ''socket_callback_timeout'' (dc_socket_callback_timeout cfg) MAX_SOCKET_CALLBACK_TIMEOUT,
      check_max_duration ''socket_handshake_timeout'' (dc_socket_handshake_timeout cfg) MAX_SOCKET_HANDSHAKE_TIMEOUT,
      check_max_duration ''tcp_callback_timeout'' (dc_tcp_callback_timeout cfg) MAX_TCP_CALLBACK_TIMEOUT,
      check_max_duration ''tcp_handshake_timeout'' (dc_tcp_handshake_timeout cfg) MAX_TCP_HANDSHAKE_TIMEOUT,
      check_max_duration ''limited_log_interval'' (dc_limited_log_interval cfg) MAX_LIMITED_LOG_INTERVAL,
      (if length (dc_reconnect_backoff cfg) > MAX_RECONNECT_BACKOFF_STEPS
       then Inl (config_relation_error ''reconnect_backoff'' (''must have at most '' @ show_nat MAX_RECONNECT_BACKOFF_STEPS @ '' entries''))
       else Inr ()),
      check_backoff 0 (dc_reconnect_backoff cfg)]"

section \<open>Normalisation\<close>

record blob_buffer_clamp =
  cl_outbound_requested :: nat
  cl_inbound_requested :: nat
  cl_outbound_clamped :: bool
  cl_inbound_clamped :: bool
  cl_cap_bytes :: nat
  cl_total_memory_bytes :: "nat option"

definition blob_buffer_cap_bytes :: "nat option \<Rightarrow> nat" where
  "blob_buffer_cap_bytes total_memory_bytes =
     (case total_memory_bytes of Some memory \<Rightarrow> min MAX_BLOB_BUFFER_BYTES (memory div 2) | None \<Rightarrow> MAX_BLOB_BUFFER_BYTES)"

definition blob_buffer_clamp_new :: "nat \<Rightarrow> nat \<Rightarrow> nat \<Rightarrow> nat option \<Rightarrow> blob_buffer_clamp" where
  "blob_buffer_clamp_new outbound_requested inbound_requested cap_bytes memory =
     \<lparr>cl_outbound_requested = outbound_requested, cl_inbound_requested = inbound_requested, cl_outbound_clamped = False,
      cl_inbound_clamped = False, cl_cap_bytes = cap_bytes, cl_total_memory_bytes = memory\<rparr>"

definition clamp_any :: "blob_buffer_clamp \<Rightarrow> bool" where
  "clamp_any clamp \<longleftrightarrow> cl_outbound_clamped clamp \<or> cl_inbound_clamped clamp"

definition clamp_blob_buffers :: "domus_config \<Rightarrow> nat option \<Rightarrow> domus_config \<times> blob_buffer_clamp" where
  "clamp_blob_buffers cfg total_memory_bytes =
     (let cap_bytes = blob_buffer_cap_bytes total_memory_bytes;
          clamp = blob_buffer_clamp_new (dc_blob_outbound_buffer_bytes cfg) (dc_blob_inbound_buffer_bytes cfg) cap_bytes total_memory_bytes;
          (cfg, clamp) = (if dc_blob_outbound_buffer_bytes cfg > cap_bytes
                          then (cfg\<lparr>dc_blob_outbound_buffer_bytes := cap_bytes\<rparr>, clamp\<lparr>cl_outbound_clamped := True\<rparr>) else (cfg, clamp))
      in if dc_blob_inbound_buffer_bytes cfg > cap_bytes
         then (cfg\<lparr>dc_blob_inbound_buffer_bytes := cap_bytes\<rparr>, clamp\<lparr>cl_inbound_clamped := True\<rparr>) else (cfg, clamp))"

definition normalize_domus_config :: "domus_config \<Rightarrow> nat option \<Rightarrow> (domus_config \<times> blob_buffer_clamp) result" where
  "normalize_domus_config cfg total_memory_bytes =
     (let (cfg, clamp) = clamp_blob_buffers cfg total_memory_bytes
      in rbind (validate_domus_config cfg (cl_cap_bytes clamp)) (\<lambda>_. Inr (cfg, clamp)))"

definition normalize_domus_config_for_transport :: "domus_config \<Rightarrow> transport_kind \<Rightarrow> nat option \<Rightarrow> domus_config result" where
  "normalize_domus_config_for_transport cfg transport total_memory_bytes =
     rbind (normalize_domus_config (apply_transport_defaults cfg transport) total_memory_bytes) (\<lambda>(cfg, _). Inr cfg)"

section \<open>The builder\<close>

datatype config_setting =
    SetSendQueueSize nat | SetSendTimeout duration | SetCallisConnectTimeout duration | SetAcceptTimeout duration
  | SetTabernaAcceptQueueSize nat | SetKeepaliveInterval duration | SetListenerDelay duration | SetListenerReconnectTimeout duration
  | SetReconnectBackoff "duration list" | SetSocketCallbackTimeout duration | SetSocketHandshakeTimeout duration
  | SetTcpCallbackTimeout duration | SetTcpHandshakeTimeout duration | SetLimitedLogInterval duration
  | SetInboundHandshakeLimitTotal nat | SetInboundHandshakeLimitPerPeer nat | SetMaxParallelCallisPerPeer nat
  | SetBlobWindow u32 u32 | SetBlobOutboundBufferBytes nat | SetBlobInboundBufferBytes nat | SetMaxPayloadLen nat

fun builder_set :: "domus_config \<Rightarrow> config_setting \<Rightarrow> domus_config" where
  "builder_set c (SetSendQueueSize v) = c\<lparr>dc_send_queue_size := v\<rparr>"
| "builder_set c (SetSendTimeout v) = c\<lparr>dc_send_timeout := v\<rparr>"
| "builder_set c (SetCallisConnectTimeout v) = c\<lparr>dc_callis_connect_timeout := v\<rparr>"
| "builder_set c (SetAcceptTimeout v) = c\<lparr>dc_accept_timeout := v\<rparr>"
| "builder_set c (SetTabernaAcceptQueueSize v) = c\<lparr>dc_taberna_accept_queue_size := v\<rparr>"
| "builder_set c (SetKeepaliveInterval v) = c\<lparr>dc_keepalive_interval := v\<rparr>"
| "builder_set c (SetListenerDelay v) = c\<lparr>dc_listener_delay := v\<rparr>"
| "builder_set c (SetListenerReconnectTimeout v) = c\<lparr>dc_listener_reconnect_timeout := v\<rparr>"
| "builder_set c (SetReconnectBackoff schedule) = c\<lparr>dc_reconnect_backoff := schedule\<rparr>"
| "builder_set c (SetSocketCallbackTimeout v) = c\<lparr>dc_socket_callback_timeout := v\<rparr>"
| "builder_set c (SetSocketHandshakeTimeout v) = c\<lparr>dc_socket_handshake_timeout := v\<rparr>"
| "builder_set c (SetTcpCallbackTimeout v) = c\<lparr>dc_tcp_callback_timeout := v\<rparr>"
| "builder_set c (SetTcpHandshakeTimeout v) = c\<lparr>dc_tcp_handshake_timeout := v\<rparr>"
| "builder_set c (SetLimitedLogInterval v) = c\<lparr>dc_limited_log_interval := v\<rparr>"
| "builder_set c (SetInboundHandshakeLimitTotal v) = c\<lparr>dc_inbound_handshake_limit_total := v\<rparr>"
| "builder_set c (SetInboundHandshakeLimitPerPeer v) = c\<lparr>dc_inbound_handshake_limit_per_peer := v\<rparr>"
| "builder_set c (SetMaxParallelCallisPerPeer v) = c\<lparr>dc_max_parallel_callis_per_peer := v\<rparr>"
| "builder_set c (SetBlobWindow chunk_size ack_window) = c\<lparr>dc_blob_window := \<lparr>bw_chunk_size = chunk_size, bw_ack_window = ack_window\<rparr>\<rparr>"
| "builder_set c (SetBlobOutboundBufferBytes v) = c\<lparr>dc_blob_outbound_buffer_bytes := v\<rparr>"
| "builder_set c (SetBlobInboundBufferBytes v) = c\<lparr>dc_blob_inbound_buffer_bytes := v\<rparr>"
| "builder_set c (SetMaxPayloadLen v) = c\<lparr>dc_max_payload_len := v\<rparr>"

definition builder_build :: "config_setting list \<Rightarrow> nat option \<Rightarrow> domus_config result" where
  "builder_build settings total_memory_bytes =
     rbind (normalize_domus_config (foldl builder_set domus_config_default settings) total_memory_bytes) (\<lambda>(cfg, _). Inr cfg)"

section \<open>Limited log lines\<close>

record limited_registry =
  lr_last_log :: "log_id \<Rightarrow> nat"
  lr_interval :: nat

definition limited_log_new :: "duration \<Rightarrow> limited_registry" where
  "limited_log_new interval = \<lparr>lr_last_log = (\<lambda>_. 0), lr_interval = interval div 1000000000\<rparr>"

definition set_interval :: "limited_registry \<Rightarrow> duration \<Rightarrow> limited_registry" where
  "set_interval r interval = r\<lparr>lr_interval := interval div 1000000000\<rparr>"

text \<open>One turn of the exchange loop of a caller that last saw \<open>current\<close>.\<close>

datatype log_turn = LogDecided bool | LogRetry nat

definition should_log_turn :: "limited_registry \<Rightarrow> log_id \<Rightarrow> nat \<Rightarrow> nat \<Rightarrow> log_turn \<times> limited_registry" where
  "should_log_turn r log now current =
     (if now - current < lr_interval r then (LogDecided False, r)
      else if lr_last_log r log = current then (LogDecided True, r\<lparr>lr_last_log := (lr_last_log r)(log := now)\<rparr>)
      else (LogRetry (lr_last_log r log), r))"

text \<open>A caller that is alone.\<close>

definition should_log :: "limited_registry \<Rightarrow> log_id \<Rightarrow> nat \<Rightarrow> bool \<times> limited_registry" where
  "should_log r log now =
     (if lr_interval r = 0 then (True, r)
      else case should_log_turn r log now (lr_last_log r log) of
             (LogDecided b, r) \<Rightarrow> (b, r)
           | (LogRetry _, r) \<Rightarrow> (False, r))"

section \<open>The live configuration\<close>

record taberna_limits =
  tl_accept_queue_size :: nat
  tl_accept_timeout :: duration

record domus_config_store =
  ds_inner :: domus_config
  ds_limited :: limited_registry
  ds_taberna_accept_queue_size :: nat
  ds_accept_timeout_nanos :: nat
  ds_send_queue_size :: nat

definition config_duration_to_nanos :: "duration \<Rightarrow> nat" where
  "config_duration_to_nanos d = min d u64_max"

definition nanos_to_duration :: "nat \<Rightarrow> duration" where
  "nanos_to_duration n = n"

definition config_store_new :: "domus_config \<Rightarrow> domus_config_store" where
  "config_store_new cfg =
     \<lparr>ds_inner = cfg, ds_limited = limited_log_new (dc_limited_log_interval cfg),
      ds_taberna_accept_queue_size = dc_taberna_accept_queue_size cfg,
      ds_accept_timeout_nanos = config_duration_to_nanos (dc_accept_timeout cfg), ds_send_queue_size = dc_send_queue_size cfg\<rparr>"

definition store_taberna_limits :: "domus_config_store \<Rightarrow> taberna_limits" where
  "store_taberna_limits st =
     \<lparr>tl_accept_queue_size = ds_taberna_accept_queue_size st, tl_accept_timeout = nanos_to_duration (ds_accept_timeout_nanos st)\<rparr>"

definition config_store_update :: "domus_config_store \<Rightarrow> domus_config \<Rightarrow> domus_config_store" where
  "config_store_update st next_cfg =
     (let st = st\<lparr>ds_inner := next_cfg\<rparr>;
          st = st\<lparr>ds_limited := set_interval (ds_limited st) (dc_limited_log_interval next_cfg)\<rparr>;
          st = st\<lparr>ds_taberna_accept_queue_size := dc_taberna_accept_queue_size next_cfg\<rparr>;
          st = st\<lparr>ds_accept_timeout_nanos := config_duration_to_nanos (dc_accept_timeout next_cfg)\<rparr>
      in st\<lparr>ds_send_queue_size := dc_send_queue_size next_cfg\<rparr>)"

definition config_access_update :: "domus_config_store \<Rightarrow> domus_config \<Rightarrow> nat option \<Rightarrow> domus_config result \<times> domus_config_store" where
  "config_access_update st next_cfg total_memory_bytes =
     (case normalize_domus_config next_cfg total_memory_bytes of
        Inl e \<Rightarrow> (Inl e, st)
      | Inr (cfg, _) \<Rightarrow> (Inr cfg, config_store_update st cfg))"

section \<open>What is accepted\<close>

definition window_valid :: "domus_config \<Rightarrow> nat \<Rightarrow> bool" where
  "window_valid cfg cap \<longleftrightarrow>
     bw_chunk_size (dc_blob_window cfg) \<noteq> 0 \<and> unat (bw_chunk_size (dc_blob_window cfg)) \<le> MAX_BLOB_CHUNK_SIZE
     \<and> bw_ack_window (dc_blob_window cfg) \<noteq> 0 \<and> unat (bw_ack_window (dc_blob_window cfg)) \<le> MAX_BLOB_ACK_WINDOW
     \<and> blob_required cfg \<le> dc_blob_outbound_buffer_bytes cfg \<and> dc_blob_outbound_buffer_bytes cfg \<le> cap
     \<and> blob_required cfg \<le> dc_blob_inbound_buffer_bytes cfg \<and> dc_blob_inbound_buffer_bytes cfg \<le> cap"

definition counts_valid :: "domus_config \<Rightarrow> bool" where
  "counts_valid cfg \<longleftrightarrow>
     dc_send_queue_size cfg \<in> {1..MAX_SEND_QUEUE_SIZE} \<and> dc_taberna_accept_queue_size cfg \<in> {1..MAX_TABERNA_ACCEPT_QUEUE_SIZE}
     \<and> dc_max_payload_len cfg \<in> {1..MAX_MAX_PAYLOAD_LEN} \<and> dc_inbound_handshake_limit_total cfg \<in> {1..MAX_INBOUND_HANDSHAKE_LIMIT_TOTAL}
     \<and> dc_inbound_handshake_limit_per_peer cfg \<in> {1..MAX_INBOUND_HANDSHAKE_LIMIT_PER_PEER}
     \<and> dc_inbound_handshake_limit_per_peer cfg \<le> dc_inbound_handshake_limit_total cfg
     \<and> dc_max_parallel_callis_per_peer cfg \<in> {1..MAX_PARALLEL_CALLIS_PER_PEER}"

definition times_valid :: "domus_config \<Rightarrow> bool" where
  "times_valid cfg \<longleftrightarrow>
     0 < dc_send_timeout cfg \<and> dc_send_timeout cfg \<le> secs MAX_SEND_TIMEOUT
     \<and> 0 < dc_callis_connect_timeout cfg \<and> dc_callis_connect_timeout cfg \<le> min (secs MAX_CALLIS_CONNECT_TIMEOUT) (dc_send_timeout cfg)
     \<and> 0 < dc_accept_timeout cfg \<and> dc_accept_timeout cfg \<le> min (secs MAX_ACCEPT_TIMEOUT) (dc_send_timeout cfg)
     \<and> dc_keepalive_interval cfg \<le> secs MAX_KEEPALIVE_INTERVAL \<and> dc_listener_delay cfg \<le> secs MAX_LISTENER_DELAY
     \<and> dc_listener_reconnect_timeout cfg \<le> secs MAX_LISTENER_RECONNECT_TIMEOUT
     \<and> dc_socket_callback_timeout cfg \<le> secs MAX_SOCKET_CALLBACK_TIMEOUT
     \<and> dc_socket_handshake_timeout cfg \<le> secs MAX_SOCKET_HANDSHAKE_TIMEOUT
     \<and> dc_tcp_callback_timeout cfg \<le> secs MAX_TCP_CALLBACK_TIMEOUT \<and> dc_tcp_handshake_timeout cfg \<le> secs MAX_TCP_HANDSHAKE_TIMEOUT
     \<and> dc_limited_log_interval cfg \<le> secs MAX_LIMITED_LOG_INTERVAL \<and> length (dc_reconnect_backoff cfg) \<le> MAX_RECONNECT_BACKOFF_STEPS
     \<and> (\<forall>v \<in> set (dc_reconnect_backoff cfg). v \<le> secs MAX_RECONNECT_BACKOFF)"

definition config_valid :: "domus_config \<Rightarrow> nat \<Rightarrow> bool" where
  "config_valid cfg cap \<longleftrightarrow> counts_valid cfg \<and> window_valid cfg cap \<and> times_valid cfg"

text \<open>A chain of checks passes when each of them passes.\<close>

lemma all_checks_ok: "all_checks cs = Inr () \<longleftrightarrow> (\<forall>c \<in> set cs. c = Inr ())"
  by (induction cs) (auto simp: rbind_Inr_iff)

lemma all_checks_error: "all_checks cs = Inl e \<Longrightarrow> Inl e \<in> set cs"
proof (induction cs)
  case (Cons c cs)
  then show ?case by (cases c) auto
qed simp

lemma check_ok:
  "check_range f v hi = Inr () \<longleftrightarrow> v \<in> {1..hi}" "check_max_u64 f v hi = Inr () \<longleftrightarrow> v \<le> hi"
  "check_max_duration f v n = Inr () \<longleftrightarrow> v \<le> secs n" "check_range_duration f v n = Inr () \<longleftrightarrow> 0 < v \<and> v \<le> secs n"
  "check_le f g v w = Inr () \<longleftrightarrow> v \<le> w" "check_ge_u64 f g v w = Inr () \<longleftrightarrow> w \<le> v"
  "(if b then Inl e else Inr ()) = (Inr () :: unit result) \<longleftrightarrow> \<not> b"
  by (auto simp: check_range_def check_max_u64_def check_max_duration_def check_range_duration_def check_le_def check_ge_u64_def)

lemma check_backoff_ok: "check_backoff i vs = Inr () \<longleftrightarrow> (\<forall>v \<in> set vs. v \<le> secs MAX_RECONNECT_BACKOFF)"
  by (induction vs arbitrary: i) auto

lemma check_error:
  "check_range f v hi = Inl e \<Longrightarrow> err_kind e = InvalidConfig" "check_max_u64 f v hi = Inl e \<Longrightarrow> err_kind e = InvalidConfig"
  "check_max_duration f v n = Inl e \<Longrightarrow> err_kind e = InvalidConfig" "check_range_duration f v n = Inl e \<Longrightarrow> err_kind e = InvalidConfig"
  "check_le f g v w = Inl e \<Longrightarrow> err_kind e = InvalidConfig" "check_ge_u64 f g v w = Inl e \<Longrightarrow> err_kind e = InvalidConfig"
  by (auto simp: check_range_def check_max_u64_def check_max_duration_def check_range_duration_def check_le_def check_ge_u64_def
      config_range_error_def config_max_error_def config_relation_error_def with_message_def split: if_splits)

lemma check_backoff_error: "check_backoff i vs = Inl e \<Longrightarrow> err_kind e = InvalidConfig"
  by (induction vs arbitrary: i) (auto simp: config_relation_error_def with_message_def split: if_splits)

lemma window_small: "unat c \<le> MAX_BLOB_CHUNK_SIZE \<Longrightarrow> unat w \<le> MAX_BLOB_ACK_WINDOW \<Longrightarrow> unat c * unat w \<le> 2 ^ 32" for c w :: u32
proof -
  assume "unat c \<le> MAX_BLOB_CHUNK_SIZE" "unat w \<le> MAX_BLOB_ACK_WINDOW"
  then have "unat c * unat w \<le> MAX_BLOB_CHUNK_SIZE * MAX_BLOB_ACK_WINDOW" by (rule mult_le_mono)
  then show ?thesis by (simp add: config_limits)
qed

lemma validate_iff: "validate_domus_config cfg cap = Inr () \<longleftrightarrow> config_valid cfg cap"
proof -
  have pos: "unat w \<in> {1..hi} \<longleftrightarrow> w \<noteq> 0 \<and> unat w \<le> hi" for w :: u32 and hi
    by (auto simp: unat_eq_0 [symmetric] Suc_le_eq)
  have fits: "blob_required cfg \<le> u64_max"
    if "unat (bw_chunk_size (dc_blob_window cfg)) \<le> MAX_BLOB_CHUNK_SIZE" "unat (bw_ack_window (dc_blob_window cfg)) \<le> MAX_BLOB_ACK_WINDOW"
    using window_small [OF that] by (simp add: blob_required_def)
  show ?thesis
    unfolding validate_domus_config_def all_checks_ok
    using fits
    by (simp only: list.set ball_simps check_ok check_backoff_ok pos config_valid_def counts_valid_def window_valid_def times_valid_def not_less min.bounded_iff)
      blast
qed

definition clamped :: "domus_config \<Rightarrow> nat \<Rightarrow> domus_config" where
  "clamped cfg cap = cfg\<lparr>dc_blob_outbound_buffer_bytes := min (dc_blob_outbound_buffer_bytes cfg) cap,
     dc_blob_inbound_buffer_bytes := min (dc_blob_inbound_buffer_bytes cfg) cap\<rparr>"

lemma clamp_eq:
  "fst (clamp_blob_buffers cfg mem) = clamped cfg (blob_buffer_cap_bytes mem)"
  "cl_cap_bytes (snd (clamp_blob_buffers cfg mem)) = blob_buffer_cap_bytes mem"
  "clamp_any (snd (clamp_blob_buffers cfg mem)) \<longleftrightarrow> clamped cfg (blob_buffer_cap_bytes mem) \<noteq> cfg"
proof -
  show "fst (clamp_blob_buffers cfg mem) = clamped cfg (blob_buffer_cap_bytes mem)"
    by (cases cfg) (auto simp: clamp_blob_buffers_def clamped_def Let_def)
  show "cl_cap_bytes (snd (clamp_blob_buffers cfg mem)) = blob_buffer_cap_bytes mem"
    by (auto simp: clamp_blob_buffers_def blob_buffer_clamp_new_def Let_def)
  have "clamped cfg c \<noteq> cfg \<longleftrightarrow> c < dc_blob_outbound_buffer_bytes cfg \<or> c < dc_blob_inbound_buffer_bytes cfg" for c
    by (cases cfg) (auto simp: clamped_def)
  then show "clamp_any (snd (clamp_blob_buffers cfg mem)) \<longleftrightarrow> clamped cfg (blob_buffer_cap_bytes mem) \<noteq> cfg"
    by (auto simp: clamp_blob_buffers_def blob_buffer_clamp_new_def clamp_any_def Let_def)
qed

lemma clamped_idem: "clamped (clamped cfg cap) cap = clamped cfg cap"
  by (simp add: clamped_def)

lemma normalize_eq:
  "normalize_domus_config cfg mem =
     rbind (validate_domus_config (clamped cfg (blob_buffer_cap_bytes mem)) (blob_buffer_cap_bytes mem))
       (\<lambda>_. Inr (clamped cfg (blob_buffer_cap_bytes mem), snd (clamp_blob_buffers cfg mem)))"
  by (simp add: normalize_domus_config_def split_beta clamp_eq)

lemma normalize_ok:
  "normalize_domus_config cfg mem = Inr (cfg', clamp) \<longleftrightarrow>
     cfg' = clamped cfg (blob_buffer_cap_bytes mem) \<and> config_valid cfg' (blob_buffer_cap_bytes mem) \<and> clamp = snd (clamp_blob_buffers cfg mem)"
  by (auto simp: normalize_eq rbind_Inr_iff validate_iff [symmetric])

lemma validate_error: "validate_domus_config cfg cap = Inl e \<Longrightarrow> err_kind e = InvalidConfig"
  unfolding validate_domus_config_def
  by (drule all_checks_error) (auto dest: check_error check_backoff_error sym simp: config_relation_error_def with_message_def split: if_splits)

text \<open>
  C27. A configuration is accepted exactly when it is valid after clamping: every field is in its range and the relations
  between fields hold. What is accepted differs from what was asked only in buffers cut to the cap of the
  machine, the report says so, and it is accepted again unchanged; what is refused is refused as an invalid
  configuration.
\<close>

theorem config_normalized:
  "case normalize_domus_config cfg mem of
     Inr (cfg', clamp) \<Rightarrow> config_valid cfg' (blob_buffer_cap_bytes mem) \<and> cfg' = clamped cfg (blob_buffer_cap_bytes mem)
       \<and> (clamp_any clamp \<longleftrightarrow> cfg' \<noteq> cfg) \<and> (\<exists>clamp'. normalize_domus_config cfg' mem = Inr (cfg', clamp') \<and> \<not> clamp_any clamp')
   | Inl e \<Rightarrow> err_kind e = InvalidConfig \<and> \<not> config_valid (clamped cfg (blob_buffer_cap_bytes mem)) (blob_buffer_cap_bytes mem)"
proof (cases "normalize_domus_config cfg mem")
  case (Inl e)
  then have "validate_domus_config (clamped cfg (blob_buffer_cap_bytes mem)) (blob_buffer_cap_bytes mem) = Inl e"
    by (cases "validate_domus_config (clamped cfg (blob_buffer_cap_bytes mem)) (blob_buffer_cap_bytes mem)") (simp_all add: normalize_eq)
  with validate_error Inl validate_iff [of "clamped cfg (blob_buffer_cap_bytes mem)" "blob_buffer_cap_bytes mem"] show ?thesis by auto
next
  case (Inr r)
  obtain cfg' clamp where r: "r = (cfg', clamp)" by fastforce
  from Inr have n: "cfg' = clamped cfg (blob_buffer_cap_bytes mem)" "config_valid cfg' (blob_buffer_cap_bytes mem)"
      "clamp = snd (clamp_blob_buffers cfg mem)"
    unfolding r normalize_ok by blast+
  have "normalize_domus_config cfg' mem = Inr (cfg', snd (clamp_blob_buffers cfg' mem))"
    using n(1,2) by (simp add: normalize_ok clamped_idem)
  moreover have "\<not> clamp_any (snd (clamp_blob_buffers cfg' mem))" by (simp add: clamp_eq n(1) clamped_idem)
  ultimately show ?thesis using n Inr r clamp_eq(3) [of cfg mem] by auto
qed

lemma long_frame_refused:
  assumes idle: "reader_idle st" and live: "live_data src" and ok: "frame_ok h payload"
    and bytes: "stream_bytes src = frame_bytes h payload @ rest" and max: "max_payload < length payload"
  shows "fst (read_next st src max_payload) = Some (Inl payload_too_long)"
proof -
  have v: "wh_version h = PROTOCOL_VERSION" and len: "unat (wh_payload_len h) = length payload" using ok by (simp_all add: frame_ok_def)
  have st: "length (fr_header_buf st) = 32" "fr_header_len st = 0" "fr_payload_header st = None"
    using idle by (simp_all add: reader_idle_def WireHeader_LEN_def)
  have "32 \<le> length (stream_bytes src)" by (simp add: bytes frame_bytes_def)
  with fill_loop_done [OF live, of 0 "fr_header_buf st"] st(1)
  obtain src1 where "fill_loop (fr_header_buf st) 0 src = (FillDone, take 32 (stream_bytes src), 32, src1)" by auto
  moreover have "take 32 (stream_bytes src) = header_encode h" by (simp add: bytes frame_bytes_def)
  ultimately show ?thesis using v len max st by (simp add: read_next_def Let_def)
qed

text \<open>The frame of a chunk is read exactly by a peer whose payload limit has room for the chunk and its inner header.\<close>

lemma chunk_read_iff:
  assumes "send_blob_write ws (LeaseChunk s p lease) = (Inr (), ws')" and "ws_out ws = []"
    and src: "live_data src" "stream_bytes src = ws_out ws'"
  shows "fst (read_next frame_reader_default src max_payload) =
    (if BlobChunk_HEADER_LEN + length (cl_data lease) \<le> max_payload then Some (Inr (Some (blob_wire (LeaseChunk s p lease)))) else Some (Inl payload_too_long))"
proof -
  let ?f = "blob_wire (LeaseChunk s p lease)"
  have w: "stream_bytes src = frame_bytes (fst ?f) (snd ?f) @ []" "frame_ok (fst ?f) (snd ?f)"
    using blob_writes.sent [of ws "LeaseChunk s p lease"] assms(1,2) src(2) by (simp_all add: split_beta)
  moreover have "length (snd ?f) = BlobChunk_HEADER_LEN + length (cl_data lease)" by (simp add: chunk_inner_length BlobChunk_HEADER_LEN_def)
  ultimately show ?thesis
    using long_frame_refused [OF reader_idle_default src(1) w(2,1), of max_payload]
      read_next_frame [OF reader_idle_default src(1) w(2,1), of max_payload] by (auto simp: not_le)
qed

text \<open>
  C28. What an accepted configuration is good for. The chunks it allows with their inner header, and its largest
  payload, fit the 32-bit length field of a frame, and a chunk that was written is read by a peer exactly when the
  payload limit of that peer has room for the chunk and its inner header, which the checks do not ensure even for two
  equal configurations. A ring for its window is always created; the reservation of one stream is exact, without
  saturation, and fits both budgets of a domus that holds nothing else; a taberna and a peer have room for
  at least one entry; and two accepted configurations agree on a window that both sides admit.
\<close>

theorem accepted_config_serves:
  assumes "normalize_domus_config given mem = Inr (cfg, clamp)" and "normalize_domus_config given' mem' = Inr (cfg', clamp')"
    and chunk: "chunk = bw_chunk_size (dc_blob_window cfg)" and window: "window = bw_ack_window (dc_blob_window cfg)"
    and "used (bm_buffer_tracker m) SideOutbound = 0" and "used (bm_buffer_tracker m) SideInbound = 0"
  shows "BlobChunk_HEADER_LEN + unat chunk \<le> u32_max \<and> dc_max_payload_len cfg \<le> u32_max
    \<and> (\<forall>ws ws' s p lease src. length (cl_data lease) = unat chunk \<and> send_blob_write ws (LeaseChunk s p lease) = (Inr (), ws')
         \<and> ws_out ws = [] \<and> live_data src \<and> stream_bytes src = ws_out ws' \<longrightarrow>
           fst (read_next frame_reader_default src (dc_max_payload_len cfg')) =
             (if BlobChunk_HEADER_LEN + unat chunk \<le> dc_max_payload_len cfg' then Some (Inr (Some (blob_wire (LeaseChunk s p lease))))
              else Some (Inl payload_too_long)))
    \<and> (\<exists>ring. outbound_new (unat chunk) (unat window) = Inr ring)
    \<and> sat_mul (unat chunk) (unat window) = unat chunk * unat window
    \<and> fst (reserve_outbound m s (sat_mul (unat chunk) (unat window)) (dc_blob_outbound_buffer_bytes cfg))
    \<and> fst (try_reserve_side (bm_buffer_tracker m) SideInbound (sat_mul (unat chunk) (unat window)) (dc_blob_inbound_buffer_bytes cfg))
    \<and> 0 < dc_send_queue_size cfg \<and> 0 < dc_taberna_accept_queue_size cfg \<and> 0 < dc_max_parallel_callis_per_peer cfg
    \<and> (\<exists>c w. blob_hello_values (HelloBlob chunk window) = Inr (chunk, window)
         \<and> negotiate_blob_settings chunk window (bw_chunk_size (dc_blob_window cfg')) (bw_ack_window (dc_blob_window cfg'))
             = \<lparr>bs_chunk_size = c, bs_ack_window_chunks = w\<rparr>
         \<and> validate_blob_hello_response chunk window (HelloBlob c w) = Inr \<lparr>bs_chunk_size = c, bs_ack_window_chunks = w\<rparr>)"
proof -
  define cap where "cap = blob_buffer_cap_bytes mem"
  have v: "config_valid cfg cap" and v': "window_valid cfg' (blob_buffer_cap_bytes mem')"
    using assms(1,2) by (auto simp: normalize_ok config_valid_def cap_def)
  then have w: "chunk \<noteq> 0" "window \<noteq> 0" "unat chunk \<le> MAX_BLOB_CHUNK_SIZE" "unat window \<le> MAX_BLOB_ACK_WINDOW"
    "unat chunk * unat window \<le> dc_blob_outbound_buffer_bytes cfg" "unat chunk * unat window \<le> dc_blob_inbound_buffer_bytes cfg"
    by (auto simp: config_valid_def window_valid_def blob_required_def chunk window)
  have small: "unat chunk * unat window \<le> 2 ^ 32" using window_small w(3,4) by blast
  then have sat: "sat_mul (unat chunk) (unat window) = unat chunk * unat window" by (simp add: sat_mul_def)
  have nz: "unat chunk \<noteq> 0" "unat window \<noteq> 0" using w(1,2) by (simp_all add: unat_eq_0)
  have reserve: "fst (reserve_outbound m s (unat chunk * unat window) (dc_blob_outbound_buffer_bytes cfg))"
    "fst (try_reserve_side (bm_buffer_tracker m) SideInbound (unat chunk * unat window) (dc_blob_inbound_buffer_bytes cfg))"
    using assms(5,6) w(5,6) small by (auto simp: reserve_outbound_eq try_reserve_side_eq)
  let ?c = "min chunk (bw_chunk_size (dc_blob_window cfg'))" and ?w = "min window (bw_ack_window (dc_blob_window cfg'))"
  have "?c \<noteq> 0" "?w \<noteq> 0" "?c \<le> chunk" "?w \<le> window" using w(1,2) v' by (auto simp: window_valid_def min_def)
  then have agreed: "blob_hello_values (HelloBlob chunk window) = Inr (chunk, window)"
    "negotiate_blob_settings chunk window (bw_chunk_size (dc_blob_window cfg')) (bw_ack_window (dc_blob_window cfg'))
       = \<lparr>bs_chunk_size = ?c, bs_ack_window_chunks = ?w\<rparr>"
    "validate_blob_hello_response chunk window (HelloBlob ?c ?w) = Inr \<lparr>bs_chunk_size = ?c, bs_ack_window_chunks = ?w\<rparr>"
    using w(1,2) by (auto simp: negotiate_blob_settings_def validate_blob_hello_response_def)
  have rest: "BlobChunk_HEADER_LEN + unat chunk \<le> u32_max" "dc_max_payload_len cfg \<le> u32_max" "0 < dc_send_queue_size cfg"
    "0 < dc_taberna_accept_queue_size cfg" "0 < dc_max_parallel_callis_per_peer cfg"
    using w(3) v by (auto simp: config_valid_def counts_valid_def config_limits BlobChunk_HEADER_LEN_def)
  show ?thesis
    unfolding sat using rest reserve nz agreed chunk_read_iff by (auto simp: outbound_new_def)
qed

text \<open>
  The checks do not relate the chunk size to the largest payload. Under an accepted configuration whose payload limit
  is below a chunk with its inner header, the frame of a full chunk is written but a peer with the same
  configuration refuses it, so no blob of more than one chunk can be transferred between the two.
\<close>

theorem accepted_window_unreadable:
  assumes "normalize_domus_config given mem = Inr (cfg, clamp)"
    and short: "dc_max_payload_len cfg < BlobChunk_HEADER_LEN + unat (bw_chunk_size (dc_blob_window cfg))"
    and lease: "length (cl_data lease) = unat (bw_chunk_size (dc_blob_window cfg))"
    and "send_blob_write ws (LeaseChunk s p lease) = (Inr (), ws')" and "ws_out ws = []"
    and src: "live_data src" "stream_bytes src = ws_out ws'"
  shows "fst (read_next frame_reader_default src (dc_max_payload_len cfg)) = Some (Inl payload_too_long)"
  using chunk_read_iff [OF assms(4,5) src, of "dc_max_payload_len cfg"] short lease by simp

section \<open>Copies of the live configuration\<close>

definition copies_agree :: "domus_config_store \<Rightarrow> bool" where
  "copies_agree st \<longleftrightarrow>
     store_taberna_limits st = \<lparr>tl_accept_queue_size = dc_taberna_accept_queue_size (ds_inner st), tl_accept_timeout = dc_accept_timeout (ds_inner st)\<rparr>
     \<and> ds_send_queue_size st = dc_send_queue_size (ds_inner st)
     \<and> lr_interval (ds_limited st) = dc_limited_log_interval (ds_inner st) div secs 1"

lemma accept_fits: "config_valid cfg cap \<Longrightarrow> config_duration_to_nanos (dc_accept_timeout cfg) = dc_accept_timeout cfg"
  by (auto simp: config_valid_def times_valid_def config_duration_to_nanos_def config_limits secs_def)

text \<open>
  The copies that tasks read without the lock are those of the configuration in force: after the store was made from an
  accepted configuration and after any sequence of updates, each accepted or refused, the limits of tabernas,
  the queue size and the interval of log lines are those of the configuration, which is still valid; a refused
  update changes nothing.
\<close>

theorem config_copies_agree:
  assumes "normalize_domus_config given mem = Inr (cfg, clamp)"
    and "st = foldl (\<lambda>st next_cfg. snd (config_access_update st next_cfg mem)) (config_store_new cfg) updates"
  shows "copies_agree st \<and> config_valid (ds_inner st) (blob_buffer_cap_bytes mem)
    \<and> (\<forall>next_cfg e. fst (config_access_update st next_cfg mem) = Inl e \<longrightarrow> snd (config_access_update st next_cfg mem) = st)"
proof -
  let ?cap = "blob_buffer_cap_bytes mem"
  have start: "copies_agree (config_store_new c)" if "config_valid c ?cap" for c
    using accept_fits [OF that]
    by (simp add: copies_agree_def config_store_new_def store_taberna_limits_def nanos_to_duration_def limited_log_new_def secs_def)
  have updated: "copies_agree (config_store_update st c)" if "config_valid c ?cap" for st c
    using accept_fits [OF that]
    by (simp add: copies_agree_def config_store_update_def store_taberna_limits_def nanos_to_duration_def set_interval_def secs_def Let_def)
  have step: "copies_agree (snd (config_access_update st c mem)) \<and> config_valid (ds_inner (snd (config_access_update st c mem))) ?cap"
    if "copies_agree st \<and> config_valid (ds_inner st) ?cap" for st c
  proof (cases "normalize_domus_config c mem")
    case (Inl e)
    with that show ?thesis by (simp add: config_access_update_def)
  next
    case (Inr r)
    obtain c' cl where "r = (c', cl)" by fastforce
    with Inr have n: "normalize_domus_config c mem = Inr (c', cl)" by simp
    then have "config_valid c' ?cap" unfolding normalize_ok by blast
    with n updated [of c' st] show ?thesis by (simp add: config_access_update_def) (simp add: config_store_update_def Let_def)
  qed
  have "config_valid cfg ?cap" using assms(1) unfolding normalize_ok by blast
  then have "copies_agree (config_store_new cfg) \<and> config_valid (ds_inner (config_store_new cfg)) ?cap"
    using start by (simp add: config_store_new_def)
  then have "copies_agree st \<and> config_valid (ds_inner st) ?cap"
    unfolding assms(2) by (induction updates rule: rev_induct) (simp_all add: step)
  then show ?thesis by (auto simp: config_access_update_def split: sum.splits)
qed

section \<open>Spacing of log lines\<close>

text \<open>
  The callers of the limiter interleave at their exchanges; \<open>current\<close> is whatever a caller saw before. The list of
  a log identifier are the times at which its line was let through.
\<close>

inductive log_run :: "limited_registry \<Rightarrow> (log_id \<Rightarrow> nat list) \<Rightarrow> bool" where
  start: "0 < lr_interval r \<Longrightarrow> log_run r (\<lambda>_. [])"
| passed: "log_run r lines \<Longrightarrow> should_log_turn r log now current = (LogDecided True, r') \<Longrightarrow> log_run r' (lines(log := lines log @ [now]))"
| other: "log_run r lines \<Longrightarrow> should_log_turn r log now current = (t, r') \<Longrightarrow> t \<noteq> LogDecided True \<Longrightarrow> log_run r' lines"

definition spaced :: "nat \<Rightarrow> nat list \<Rightarrow> bool" where
  "spaced gap ts \<longleftrightarrow> (\<forall>k. Suc k < length ts \<longrightarrow> ts ! k + gap \<le> ts ! Suc k)"

lemma spaced_snoc: "spaced gap ts \<Longrightarrow> (ts \<noteq> [] \<Longrightarrow> last ts + gap \<le> t) \<Longrightarrow> spaced gap (ts @ [t])"
  by (cases ts rule: rev_cases) (auto simp: spaced_def nth_append less_Suc_eq)

lemma log_run_spaced:
  "log_run r lines \<Longrightarrow> 0 < lr_interval r \<and> (\<forall>log. spaced (lr_interval r) (lines log) \<and> (lines log \<noteq> [] \<longrightarrow> lr_last_log r log = last (lines log)))"
proof (induction rule: log_run.induct)
  case (start r)
  then show ?case by (simp add: spaced_def)
next
  case (passed r lines log now current r')
  then have "lr_interval r \<le> now - current" "lr_last_log r log = current" "r' = r\<lparr>lr_last_log := (lr_last_log r)(log := now)\<rparr>"
    by (auto simp: should_log_turn_def split: if_splits)
  with passed.IH show ?case by (auto intro!: spaced_snoc)
next
  case (other r lines log now current t r')
  then have "r' = r" by (auto simp: should_log_turn_def split: if_splits)
  with other.IH show ?case by simp
qed

text \<open>
  Log lines of one kind are never closer than the interval, however many tasks ask at once: between two lines that
  are let through at least the interval has passed.
\<close>

theorem log_lines_spaced:
  assumes "log_run r lines"
  shows "\<forall>k. Suc k < length (lines log) \<longrightarrow> lines log ! k + lr_interval r \<le> lines log ! Suc k"
  using log_run_spaced [OF assms] by (simp add: spaced_def)

section \<open>The default configuration\<close>

lemmas config_eval = config_valid_def counts_valid_def window_valid_def times_valid_def domus_config_default_def DEFAULT_TCP_BLOB_WINDOW_def
  blob_required_def config_limits secs_def

lemma default_accepted:
  assumes "0 < n" "n \<le> MAX_MAX_PAYLOAD_LEN"
  shows "\<exists>clamp. normalize_domus_config (domus_config_default\<lparr>dc_max_payload_len := n\<rparr>) None = Inr (domus_config_default\<lparr>dc_max_payload_len := n\<rparr>, clamp)"
proof -
  have "clamped (domus_config_default\<lparr>dc_max_payload_len := n\<rparr>) (blob_buffer_cap_bytes None) = domus_config_default\<lparr>dc_max_payload_len := n\<rparr>"
    by (simp add: clamped_def blob_buffer_cap_bytes_def domus_config_default_def config_limits)
  moreover have "config_valid (domus_config_default\<lparr>dc_max_payload_len := n\<rparr>) (blob_buffer_cap_bytes None)"
    using assms by (simp add: blob_buffer_cap_bytes_def config_eval)
  ultimately show ?thesis by (simp add: normalize_ok)
qed

theorem accepted_config_serves_witness:
  "fst (reserve_outbound new_manager 5 (sat_mul 1200 1024) (dc_blob_outbound_buffer_bytes domus_config_default))
   \<and> dc_max_payload_len (domus_config_default\<lparr>dc_max_payload_len := 9\<rparr>) \<le> u32_max"
proof -
  obtain clamp where a: "normalize_domus_config (domus_config_default\<lparr>dc_max_payload_len := 9\<rparr>) None = Inr (domus_config_default\<lparr>dc_max_payload_len := 9\<rparr>, clamp)"
    using default_accepted [of 9] by (auto simp: config_limits)
  have "used (bm_buffer_tracker new_manager) side = 0" for side
    by (cases side) (simp_all add: new_manager_def blob_manager_new_def no_bytes_def used.simps)
  from accepted_config_serves [OF a a refl refl this this, of 5] show ?thesis
    by (simp add: domus_config_default_def DEFAULT_TCP_BLOB_WINDOW_def sat_mul_def)
qed

theorem accepted_window_unreadable_witness:
  "\<exists>bytes. fst (read_next frame_reader_default [ReadData bytes] 1000) = Some (Inl payload_too_long)"
proof -
  obtain clamp where a: "normalize_domus_config (domus_config_default\<lparr>dc_max_payload_len := 1000\<rparr>) None = Inr (domus_config_default\<lparr>dc_max_payload_len := 1000\<rparr>, clamp)"
    using default_accepted [of 1000] by (auto simp: config_limits)
  define lease where "lease = \<lparr>cl_chunk_id = 0, cl_data = replicate 1200 (7 :: u8), cl_is_last = False, cl_peer_msg_id = 40, cl_callis_id = 3, cl_slot_seq = 0\<rparr>"
  have chunk: "length (cl_data lease) = 1200" "cl_data lease \<noteq> []" by (simp_all add: lease_def flip: length_greater_0_conv)
  have fit: "BlobChunk_HEADER_LEN + length (cl_data lease) \<le> u32_max" by (simp add: chunk(1) BlobChunk_HEADER_LEN_def)
  let ?f = "blob_wire (LeaseChunk 5 40 lease)"
  have w: "send_blob_write no_output (LeaseChunk 5 40 lease) = (Inr (), \<lparr>ws_out = wire ?f, ws_script = []\<rparr>)"
    using fit chunk(2) by (simp add: send_blob_chunk_frame_eq write_bufs_ok frame_bytes_def del: write_bufs.simps)
  have "wire ?f \<noteq> []" using chunk by (auto simp: frame_bytes_def)
  then have src: "live_data [ReadData (wire ?f)]" "stream_bytes [ReadData (wire ?f)] = ws_out \<lparr>ws_out = wire ?f, ws_script = []\<rparr>"
    by (simp_all add: live_data_def stream_bytes_def)
  have short: "dc_max_payload_len (domus_config_default\<lparr>dc_max_payload_len := 1000\<rparr>)
      < BlobChunk_HEADER_LEN + unat (bw_chunk_size (dc_blob_window (domus_config_default\<lparr>dc_max_payload_len := 1000\<rparr>)))"
    by (simp add: domus_config_default_def DEFAULT_TCP_BLOB_WINDOW_def BlobChunk_HEADER_LEN_def)
  have "length (cl_data lease) = unat (bw_chunk_size (dc_blob_window (domus_config_default\<lparr>dc_max_payload_len := 1000\<rparr>)))"
    by (simp add: chunk domus_config_default_def DEFAULT_TCP_BLOB_WINDOW_def)
  from accepted_window_unreadable [OF a short this w _ src] show ?thesis by (intro exI [of _ "wire ?f"]) simp
qed

theorem config_copies_agree_witness:
  "copies_agree (snd (config_access_update (config_store_new (domus_config_default\<lparr>dc_max_payload_len := 9\<rparr>))
     (domus_config_default\<lparr>dc_accept_timeout := 0\<rparr>) None))"
proof -
  obtain clamp where a: "normalize_domus_config (domus_config_default\<lparr>dc_max_payload_len := 9\<rparr>) None = Inr (domus_config_default\<lparr>dc_max_payload_len := 9\<rparr>, clamp)"
    using default_accepted [of 9] by (auto simp: config_limits)
  from config_copies_agree [OF a refl, of "[domus_config_default\<lparr>dc_accept_timeout := 0\<rparr>]"] show ?thesis by simp
qed

theorem log_lines_spaced_witness:
  "\<exists>r lines. log_run r lines \<and> lines OutboundQueueOverrun = [70, 130]
   \<and> lines OutboundQueueOverrun ! 0 + lr_interval r \<le> lines OutboundQueueOverrun ! Suc 0"
proof -
  let ?id = OutboundQueueOverrun
  let ?r0 = "\<lparr>lr_last_log = (\<lambda>_. 0), lr_interval = 60\<rparr>"
  have "log_run ?r0 (\<lambda>_. [])" by (rule log_run.start) simp
  from log_run.passed [OF this, of ?id 70 0] have "log_run (?r0\<lparr>lr_last_log := (\<lambda>_. 0)(?id := 70)\<rparr>) ((\<lambda>_. [])(?id := [70]))"
    by (simp add: should_log_turn_def)
  from log_run.passed [OF this, of ?id 130 70]
  have run: "log_run (?r0\<lparr>lr_last_log := (\<lambda>_. 0)(?id := 130)\<rparr>) ((\<lambda>_. [])(?id := [70, 130]))" by (simp add: should_log_turn_def)
  have "lines = (\<lambda>_. [])(?id := [70, 130]) \<Longrightarrow> Suc 0 < length (lines ?id)" for lines by simp
  with log_lines_spaced [OF run, of ?id] run show ?thesis by (metis fun_upd_same)
qed

end
