(* ===== verification/Peer_State.thy ===== *)
theory Peer_State
  imports Handshake
begin

text \<open>
  The state task of a peer (\<^verbatim>\<open>src/crates/peering/src/transport/peer.rs\<close> and \<^verbatim>\<open>primary.rs\<close>): which calles the peer
  has, when to dial, what to do when a callis comes or goes, when the peer restarts and when to give it up.

  The pure transitions of \<open>PeerStateMachine\<close> are functions from the state to effects and the new state; the
  executors apply the effects to what the tasks of the peer share. What leaves the task is recorded in the
  order it happens: dials, shutdown signals to calles, helper tasks and observability events. Between the
  decision to dial and the launch other tasks may run, which is the argument \<open>mid\<close>; logging is left out.
\<close>

section \<open>State, events and effects\<close>

datatype peer_role = RoleListener | RoleOriginator

datatype primary_dial_state = DialIdle | DialDialing

record peer_state =
  pe_role :: peer_role
  pe_had_primary :: bool
  pe_primary :: "callis_handle list"
  pe_reconnect_attempt :: nat
  pe_primary_dial :: primary_dial_state
  pe_dialing_blob :: bool
  pe_blob_reconnect_attempt :: nat
  pe_closing :: bool
  pe_impaired_since :: "instant option"

definition peer_state_new :: peer_state where
  "peer_state_new =
     \<lparr>pe_role = RoleListener, pe_had_primary = False, pe_primary = [], pe_reconnect_attempt = 0, pe_primary_dial = DialIdle,
      pe_dialing_blob = False, pe_blob_reconnect_attempt = 0, pe_closing = False, pe_impaired_since = None\<rparr>"

datatype peer_state_update =
    UpConnected callis_kind connection_info
  | UpDialFailed callis_kind
  | UpDisconnect callis_kind "nat option"
  | UpConnectionClosed callis_kind nat cancel_reason
  | UpEnsurePrimaryDial
  | UpEnsureBlobDial
  | UpGracefulClose

record peer_state_effects =
  ef_publish_snapshot :: bool
  ef_spawn_primary_dial :: bool
  ef_spawn_blob_dial :: bool
  ef_close_new_primary :: bool
  ef_close_new_blob :: bool
  ef_promote_listener_to_originator :: bool
  ef_enqueue_primary_close :: bool
  ef_shutdown_primary_handle :: bool
  ef_shutdown_blob_handle :: bool
  ef_fail_tracked :: bool
  ef_fail_blob_streams :: bool

definition no_effects :: peer_state_effects where
  "no_effects =
     \<lparr>ef_publish_snapshot = False, ef_spawn_primary_dial = False, ef_spawn_blob_dial = False, ef_close_new_primary = False,
      ef_close_new_blob = False, ef_promote_listener_to_originator = False, ef_enqueue_primary_close = False,
      ef_shutdown_primary_handle = False, ef_shutdown_blob_handle = False, ef_fail_tracked = False, ef_fail_blob_streams = False\<rparr>"

datatype disconnect_reason = ReasonLocalRequest | ReasonRemoteClosed | ReasonConnectionClosed | ReasonPeerRestarted | ReasonShutdown

datatype peer_observability_effect =
    PrimaryConnected domus_addr nat bool
  | BlobConnected domus_addr nat blob_callis_settings
  | PrimaryDisconnected domus_addr nat disconnect_reason
  | BlobDisconnected domus_addr nat disconnect_reason

section \<open>Transitions\<close>

definition ensure_primary_dial :: "peer_state \<Rightarrow> bool \<Rightarrow> bool \<Rightarrow> peer_state_effects \<times> peer_state" where
  "ensure_primary_dial st has_primary_work has_capacity =
     (if pe_closing st then (no_effects, st)
      else if pe_primary st \<noteq> [] then (no_effects, st)
      else if pe_primary_dial st = DialDialing \<or> \<not> has_primary_work \<or> \<not> has_capacity then (no_effects, st)
      else (no_effects\<lparr>ef_spawn_primary_dial := True, ef_promote_listener_to_originator := (pe_role st = RoleListener)\<rparr>,
            st\<lparr>pe_primary_dial := DialDialing\<rparr>))"

definition connected_primary :: "peer_state \<Rightarrow> bool \<Rightarrow> bool \<Rightarrow> peer_state_effects \<times> peer_state" where
  "connected_primary st session_closing fresh_session =
     (if pe_closing st \<or> session_closing then (no_effects\<lparr>ef_close_new_primary := True\<rparr>, st)
      else (no_effects\<lparr>ef_publish_snapshot := True, ef_fail_tracked := fresh_session, ef_fail_blob_streams := fresh_session\<rparr>,
            st\<lparr>pe_had_primary := True, pe_reconnect_attempt := 0, pe_primary_dial := DialIdle\<rparr>))"

definition connected_blob :: "peer_state \<Rightarrow> bool \<Rightarrow> peer_state_effects \<times> peer_state" where
  "connected_blob st has_blob_settings =
     (if pe_closing st then (no_effects\<lparr>ef_close_new_blob := True\<rparr>, st)
      else let st = st\<lparr>pe_dialing_blob := False, pe_blob_reconnect_attempt := 0\<rparr>
           in if \<not> has_blob_settings then (no_effects\<lparr>ef_close_new_blob := True\<rparr>, st) else (no_effects, st))"

definition dial_failed_primary :: "peer_state \<Rightarrow> bool \<Rightarrow> bool \<Rightarrow> peer_state_effects \<times> peer_state" where
  "dial_failed_primary st has_primary_work has_capacity =
     (if pe_primary st \<noteq> [] then (no_effects, st\<lparr>pe_primary_dial := DialIdle\<rparr>)
      else ensure_primary_dial (st\<lparr>pe_primary_dial := DialIdle\<rparr>) has_primary_work has_capacity)"

definition primary_removed :: "peer_state \<Rightarrow> bool \<Rightarrow> bool \<Rightarrow> peer_state_effects \<times> peer_state" where
  "primary_removed st has_primary_work has_capacity =
     (if pe_primary st \<noteq> [] then (no_effects\<lparr>ef_publish_snapshot := True\<rparr>, st\<lparr>pe_primary_dial := DialIdle\<rparr>)
      else let (effects, st) = ensure_primary_dial (st\<lparr>pe_primary_dial := DialIdle\<rparr>) has_primary_work has_capacity
           in (effects\<lparr>ef_publish_snapshot := True\<rparr>, st))"

definition ensure_blob_dial :: "peer_state \<Rightarrow> bool \<Rightarrow> bool \<Rightarrow> bool \<Rightarrow> bool \<Rightarrow> peer_state_effects \<times> peer_state" where
  "ensure_blob_dial st primary_up callis_up streams has_capacity =
     (if pe_closing st \<or> \<not> primary_up \<or> pe_dialing_blob st \<or> callis_up \<or> \<not> streams \<or> \<not> has_capacity
      then (no_effects, st)
      else (no_effects\<lparr>ef_spawn_blob_dial := True\<rparr>, st\<lparr>pe_dialing_blob := True\<rparr>))"

definition dial_failed_blob :: "peer_state \<Rightarrow> bool \<Rightarrow> bool \<Rightarrow> bool \<Rightarrow> bool \<Rightarrow> peer_state_effects \<times> peer_state" where
  "dial_failed_blob st primary_up callis_up streams has_capacity =
     ensure_blob_dial (st\<lparr>pe_dialing_blob := False\<rparr>) primary_up callis_up streams has_capacity"

definition blob_removed :: "peer_state \<Rightarrow> bool \<Rightarrow> bool \<Rightarrow> bool \<Rightarrow> bool \<Rightarrow> peer_state_effects \<times> peer_state" where
  "blob_removed st primary_up callis_up streams has_capacity =
     ensure_blob_dial (st\<lparr>pe_dialing_blob := False\<rparr>) primary_up callis_up streams has_capacity"

definition graceful_close :: "peer_state \<Rightarrow> peer_state_effects \<times> peer_state" where
  "graceful_close st =
     (if pe_closing st then (no_effects, st)
      else (no_effects\<lparr>ef_publish_snapshot := True, ef_enqueue_primary_close := True, ef_fail_tracked := True, ef_fail_blob_streams := True\<rparr>,
            st\<lparr>pe_closing := True, pe_primary_dial := DialIdle, pe_dialing_blob := False\<rparr>))"

section \<open>Delays\<close>

record peer_config =
  pc_max_parallel :: nat
  pc_send_timeout :: duration
  pc_reconnect_backoff :: "duration list"
  pc_listener_delay :: duration
  pc_listener_reconnect_timeout :: duration

definition DEFAULT_RECONNECT_BACKOFF :: duration where
  "DEFAULT_RECONNECT_BACKOFF = secs 4"

definition compute_listener_delay :: "peer_config \<Rightarrow> peer_role \<Rightarrow> bool \<Rightarrow> duration" where
  "compute_listener_delay cfg role had_primary =
     (case role of
        RoleOriginator \<Rightarrow> 0
      | RoleListener \<Rightarrow> if had_primary then pc_listener_reconnect_timeout cfg else pc_listener_delay cfg)"

definition compute_reconnect_delay :: "peer_config \<Rightarrow> nat \<Rightarrow> duration" where
  "compute_reconnect_delay cfg attempt =
     (if attempt = 0 then 0
      else if pc_reconnect_backoff cfg = [] then DEFAULT_RECONNECT_BACKOFF
      else let idx = attempt - 1
           in if idx \<ge> length (pc_reconnect_backoff cfg) then last (pc_reconnect_backoff cfg) else pc_reconnect_backoff cfg ! idx)"

definition has_callis_capacity :: "peer_config \<Rightarrow> peer_shared \<Rightarrow> bool" where
  "has_callis_capacity cfg sh \<longleftrightarrow> tracker_count (ps_tracker sh) < max (pc_max_parallel cfg) 1"

definition primary_dial_delay :: "peer_config \<Rightarrow> peer_state \<Rightarrow> duration" where
  "primary_dial_delay cfg st =
     (if pe_role st = RoleListener then compute_listener_delay cfg (pe_role st) (pe_had_primary st)
      else compute_reconnect_delay cfg (pe_reconnect_attempt st))"

section \<open>The task\<close>

datatype helper_task = SendClose callis_kind "callis_handle list" | CloseAfterDrain "callis_handle list"

record peer_task =
  pt_shared :: peer_shared
  pt_dial_addr :: "domus_addr option"
  pt_dials :: "(callis_kind \<times> duration) list"
  pt_shutdowns :: "nat list"
  pt_helpers :: "helper_task list"
  pt_posts :: "peer_observability_effect list"

definition on_shared :: "peer_task \<Rightarrow> (peer_shared \<Rightarrow> peer_shared) \<Rightarrow> peer_task" where
  "on_shared tk f = tk\<lparr>pt_shared := f (pt_shared tk)\<rparr>"

definition on_dispatch :: "(primary_outbound \<Rightarrow> primary_outbound) \<Rightarrow> peer_shared \<Rightarrow> peer_shared" where
  "on_dispatch f sh = sh\<lparr>ps_session := (ps_session sh)\<lparr>ss_dispatch := f (ss_dispatch (ps_session sh))\<rparr>\<rparr>"

definition post_for :: "peer_task \<Rightarrow> (domus_addr \<Rightarrow> peer_observability_effect) \<Rightarrow> peer_task" where
  "post_for tk effect = (case pt_dial_addr tk of None \<Rightarrow> tk | Some peer \<Rightarrow> tk\<lparr>pt_posts := pt_posts tk @ [effect peer]\<rparr>)"

definition shutdown_handle :: "peer_task \<Rightarrow> callis_handle \<Rightarrow> peer_task" where
  "shutdown_handle tk handle = tk\<lparr>pt_shutdowns := pt_shutdowns tk @ [ch_id handle]\<rparr>"

definition spawn_send_close :: "peer_task \<Rightarrow> callis_kind \<Rightarrow> callis_handle list \<Rightarrow> peer_task" where
  "spawn_send_close tk callis handles =
     (if handles = [] then tk else tk\<lparr>pt_helpers := pt_helpers tk @ [SendClose callis handles]\<rparr>)"

definition spawn_dial :: "peer_task \<Rightarrow> callis_kind \<Rightarrow> duration \<Rightarrow> peer_task" where
  "spawn_dial tk callis delay =
     (case pt_dial_addr tk of None \<Rightarrow> tk | Some _ \<Rightarrow> tk\<lparr>pt_dials := pt_dials tk @ [(callis, delay)]\<rparr>)"

text \<open>What an executor returns: whether it went through, the state and the task.\<close>

type_synonym executed = "bool \<times> peer_state \<times> peer_task"

definition sat_succ :: "nat \<Rightarrow> nat" where
  "sat_succ n = sat_add n 1"

definition schedule_blob_dial :: "peer_config \<Rightarrow> peer_state \<Rightarrow> peer_task \<Rightarrow> executed" where
  "schedule_blob_dial cfg st tk =
     (let delay = compute_reconnect_delay cfg (pe_blob_reconnect_attempt st);
          st = st\<lparr>pe_blob_reconnect_attempt := sat_succ (pe_blob_reconnect_attempt st)\<rparr>
      in if \<not> has_callis_capacity cfg (pt_shared tk) then (False, st\<lparr>pe_dialing_blob := False\<rparr>, tk)
         else (True, st\<lparr>pe_dialing_blob := True\<rparr>, spawn_dial tk CallisBlob delay))"

definition launch_primary_dial :: "peer_config \<Rightarrow> duration \<Rightarrow> peer_state \<Rightarrow> peer_task \<Rightarrow> executed" where
  "launch_primary_dial cfg delay st tk =
     (if \<not> has_callis_capacity cfg (pt_shared tk) then (False, st\<lparr>pe_primary_dial := DialIdle\<rparr>, tk)
      else (True, st\<lparr>pe_primary_dial := DialDialing\<rparr>, spawn_dial tk CallisPrimary delay))"

definition execute_primary_dial_effect ::
  "peer_config \<Rightarrow> (peer_shared \<Rightarrow> peer_shared) \<Rightarrow> peer_state_effects \<Rightarrow> duration \<Rightarrow> peer_state \<Rightarrow> peer_task \<Rightarrow> executed" where
  "execute_primary_dial_effect cfg mid effects delay st tk =
     (if \<not> ef_spawn_primary_dial effects then (True, st, tk)
      else let st = st\<lparr>pe_reconnect_attempt := sat_succ (pe_reconnect_attempt st)\<rparr>;
               (launched, st, tk) = launch_primary_dial cfg delay st (on_shared tk mid)
           in if \<not> launched then (False, st, tk)
              else (True, if ef_promote_listener_to_originator effects then st\<lparr>pe_role := RoleOriginator\<rparr> else st, tk))"

definition execute_blob_dial_effect ::
  "peer_config \<Rightarrow> (peer_shared \<Rightarrow> peer_shared) \<Rightarrow> peer_state_effects \<Rightarrow> peer_state \<Rightarrow> peer_task \<Rightarrow> executed" where
  "execute_blob_dial_effect cfg mid effects st tk =
     (if \<not> ef_spawn_blob_dial effects then (True, st, tk) else schedule_blob_dial cfg st (on_shared tk mid))"

definition execute_fresh_primary_restart_effect :: "peer_state \<Rightarrow> peer_task \<Rightarrow> peer_state \<times> peer_task" where
  "execute_fresh_primary_restart_effect st tk =
     (let drained = pe_primary st;
          st = st\<lparr>pe_primary := []\<rparr>;
          tk = on_shared tk (\<lambda>sh. on_dispatch dispatch_clear (sh\<lparr>ps_primary_active := False\<rparr>));
          tk = foldl (\<lambda>tk handle. post_for tk (\<lambda>peer. PrimaryDisconnected peer (ch_id handle) ReasonPeerRestarted)) tk drained;
          tk = spawn_send_close tk CallisPrimary drained;
          (blob_handles, blob) = drain_callis (fail_all_streams (ps_blob (pt_shared tk)) (err_new PeerRestarted));
          tk = on_shared tk (\<lambda>sh. sh\<lparr>ps_blob := reset_callis_history blob\<rparr>);
          tk = foldl (\<lambda>tk handle. shutdown_handle (post_for tk (\<lambda>peer. BlobDisconnected peer (ch_id handle) ReasonPeerRestarted)) handle)
                 tk blob_handles
      in (st, tk))"

definition execute_graceful_close_effect :: "peer_state \<Rightarrow> peer_task \<Rightarrow> peer_task" where
  "execute_graceful_close_effect st tk =
     (let tk = on_shared tk (\<lambda>sh. sh\<lparr>ps_session := begin_close (ps_session sh)\<rparr>);
          tk = on_shared tk (on_dispatch (\<lambda>q. queue_begin_shutdown q (err_new PeerUnavailable)))
      in tk\<lparr>pt_helpers := pt_helpers tk @ [CloseAfterDrain (pe_primary st)]\<rparr>)"

text \<open>The helper tasks; \<open>drained\<close> is whether the responses were gone before the deadline.\<close>

fun run_helper :: "bool \<Rightarrow> helper_task \<Rightarrow> peer_task \<Rightarrow> peer_task" where
  "run_helper drained (SendClose CallisPrimary handles) tk =
     on_shared tk (on_dispatch (\<lambda>q. foldl (\<lambda>q handle. request_close q (ch_id handle)) q handles))"
| "run_helper drained (SendClose CallisBlob handles) tk = foldl shutdown_handle tk handles"
| "run_helper drained (CloseAfterDrain handles) tk =
     (let tk = (if drained then on_shared tk (on_dispatch (\<lambda>q. foldl (\<lambda>q handle. request_close q (ch_id handle)) q handles))
                else foldl shutdown_handle (on_shared tk (on_dispatch queue_drop_responses)) handles);
          (blob_handles, blob) = drain_callis (fail_all_streams (ps_blob (pt_shared tk)) (err_new PeerUnavailable));
          tk = on_shared tk (\<lambda>sh. sh\<lparr>ps_blob := blob\<rparr>)
      in foldl shutdown_handle tk blob_handles)"


section \<open>Updates\<close>

text \<open>The first handle of that number is taken out of the queue.\<close>

fun remove_primary_handle :: "callis_handle list \<Rightarrow> nat \<Rightarrow> callis_handle option \<times> callis_handle list" where
  "remove_primary_handle [] callis_id = (None, [])"
| "remove_primary_handle (handle # handles) callis_id =
     (if ch_id handle = callis_id then (Some handle, handles)
      else let (found, handles) = remove_primary_handle handles callis_id in (found, handle # handles))"

definition has_primary_work :: "peer_shared \<Rightarrow> bool" where
  "has_primary_work sh \<longleftrightarrow>
     \<not> ss_closing (ps_session sh) \<and> (\<not> store_is_empty (po_state (ss_dispatch (ps_session sh))) \<or> has_inflight (ps_session sh))"

definition set_primary_active :: "peer_task \<Rightarrow> peer_state \<Rightarrow> peer_task" where
  "set_primary_active tk st = on_shared tk (\<lambda>sh. sh\<lparr>ps_primary_active := (pe_primary st \<noteq> [])\<rparr>)"

text \<open>The executor of a connected callis is one step, with the awaits of its restart effect.\<close>

definition execute_connected_primary :: "peer_state \<Rightarrow> peer_task \<Rightarrow> connection_info \<Rightarrow> executed" where
  "execute_connected_primary st tk info =
     (let (effects, st) = connected_primary st (ss_closing (ps_session (pt_shared tk))) (ci_fresh_session info)
      in if ef_close_new_primary effects then (False, st, spawn_send_close tk CallisPrimary [ci_handle info])
         else let (st, tk) = (if ef_fail_blob_streams effects then execute_fresh_primary_restart_effect st tk else (st, tk));
                  st = st\<lparr>pe_primary := pe_primary st @ [ci_handle info]\<rparr>;
                  tk = set_primary_active tk st;
                  tk = (if ci_replay info \<noteq> []
                        then on_shared tk (on_dispatch (\<lambda>q. queue_mark_tracked q (map pm_peer_msg_id (ci_replay info)))) else tk)
              in (True, st, post_for tk (\<lambda>peer. PrimaryConnected peer (ch_id (ci_handle info)) (ci_fresh_session info))))"

definition execute_connected_blob :: "peer_state \<Rightarrow> peer_task \<Rightarrow> connection_info \<Rightarrow> executed" where
  "execute_connected_blob st tk info =
     (let (effects, st) = connected_blob st (ci_blob_settings info \<noteq> None)
      in if ef_close_new_blob effects \<and> pe_closing st then (False, st, spawn_send_close tk CallisBlob [ci_handle info])
         else case ci_blob_settings info of
                None \<Rightarrow> (False, st, spawn_send_close tk CallisBlob [ci_handle info])
              | Some settings \<Rightarrow>
                  let tk = on_shared tk (\<lambda>sh. sh\<lparr>ps_blob := add_callis (ps_blob sh) (ci_handle info) settings (ci_blob_resume info)\<rparr>)
                  in (True, st, post_for tk (\<lambda>peer. BlobConnected peer (ch_id (ci_handle info)) settings)))"

definition execute_after_primary_removed ::
  "peer_config \<Rightarrow> (peer_shared \<Rightarrow> peer_shared) \<Rightarrow> bool \<Rightarrow> peer_state \<Rightarrow> peer_task \<Rightarrow> executed" where
  "execute_after_primary_removed cfg mid allow_new_dial st tk =
     (let tk = set_primary_active tk st;
          (effects, st) = primary_removed st (allow_new_dial \<and> has_primary_work (pt_shared tk)) (has_callis_capacity cfg (pt_shared tk))
      in if ef_spawn_primary_dial effects
         then execute_primary_dial_effect cfg mid effects (primary_dial_delay cfg st) st tk
         else (True, st, tk))"

definition execute_primary_disconnect ::
  "peer_config \<Rightarrow> (peer_shared \<Rightarrow> peer_shared) \<Rightarrow> nat option \<Rightarrow> disconnect_reason \<Rightarrow> peer_state \<Rightarrow> peer_task \<Rightarrow> executed" where
  "execute_primary_disconnect cfg mid callis_id reason st tk =
     (let (removed, st) =
            (case callis_id of
               Some i \<Rightarrow> (case remove_primary_handle (pe_primary st) i of
                            (Some handle, rest) \<Rightarrow> ([handle], st\<lparr>pe_primary := rest\<rparr>)
                          | (None, _) \<Rightarrow> ([], st))
             | None \<Rightarrow> (pe_primary st, st\<lparr>pe_primary := []\<rparr>));
          tk = foldl (\<lambda>tk handle. on_shared tk (on_dispatch (\<lambda>q. queue_mark_callis q (ch_id handle)))) tk removed;
          tk = foldl (\<lambda>tk handle. post_for (shutdown_handle tk handle) (\<lambda>peer. PrimaryDisconnected peer (ch_id handle) reason)) tk removed
      in execute_after_primary_removed cfg mid True st tk)"

definition execute_primary_closed ::
  "peer_config \<Rightarrow> (peer_shared \<Rightarrow> peer_shared) \<Rightarrow> nat \<Rightarrow> disconnect_reason \<Rightarrow> peer_state \<Rightarrow> peer_task \<Rightarrow> executed" where
  "execute_primary_closed cfg mid callis_id reason st tk =
     (let (st, tk) =
            (case remove_primary_handle (pe_primary st) callis_id of
               (Some handle, rest) \<Rightarrow>
                 (st\<lparr>pe_primary := rest\<rparr>,
                  post_for (on_shared tk (on_dispatch (\<lambda>q. queue_mark_callis q callis_id)))
                    (\<lambda>peer. PrimaryDisconnected peer (ch_id handle) reason))
             | (None, _) \<Rightarrow> (st, tk))
      in execute_after_primary_removed cfg mid (\<not> pe_closing st) st tk)"

definition blob_dial_with ::
  "(bool \<Rightarrow> bool \<Rightarrow> bool \<Rightarrow> bool \<Rightarrow> peer_state_effects \<times> peer_state) \<Rightarrow> peer_config \<Rightarrow> (peer_shared \<Rightarrow> peer_shared) \<Rightarrow> peer_task \<Rightarrow> executed" where
  "blob_dial_with transition cfg mid tk =
     (let snapshot = lifecycle_snapshot (ps_blob (pt_shared tk));
          (effects, st) = transition (ps_primary_active (pt_shared tk)) (bl_has_callis snapshot) (bl_has_active_streams snapshot)
            (has_callis_capacity cfg (pt_shared tk))
      in if \<not> ef_spawn_blob_dial effects then (True, st, tk) else execute_blob_dial_effect cfg mid effects st tk)"

definition execute_after_blob_removed :: "peer_config \<Rightarrow> (peer_shared \<Rightarrow> peer_shared) \<Rightarrow> peer_state \<Rightarrow> peer_task \<Rightarrow> executed" where
  "execute_after_blob_removed cfg mid st tk = blob_dial_with (blob_removed st) cfg mid tk"

definition execute_blob_disconnect ::
  "peer_config \<Rightarrow> (peer_shared \<Rightarrow> peer_shared) \<Rightarrow> nat option \<Rightarrow> disconnect_reason \<Rightarrow> peer_state \<Rightarrow> peer_task \<Rightarrow> executed" where
  "execute_blob_disconnect cfg mid callis_id reason st tk =
     (let (handles, blob) =
            (case callis_id of
               Some i \<Rightarrow> (let (handle, blob) = remove_callis (requeue_inflight_for_callis (ps_blob (pt_shared tk)) i) i
                          in (case handle of None \<Rightarrow> [] | Some handle \<Rightarrow> [handle], blob))
             | None \<Rightarrow> drain_callis (requeue_all_inflight (ps_blob (pt_shared tk))));
          tk = on_shared tk (\<lambda>sh. sh\<lparr>ps_blob := blob\<rparr>);
          tk = foldl (\<lambda>tk handle. post_for (shutdown_handle tk handle) (\<lambda>peer. BlobDisconnected peer (ch_id handle) reason)) tk handles
      in execute_after_blob_removed cfg mid st tk)"

definition execute_blob_closed ::
  "peer_config \<Rightarrow> (peer_shared \<Rightarrow> peer_shared) \<Rightarrow> nat \<Rightarrow> disconnect_reason \<Rightarrow> peer_state \<Rightarrow> peer_task \<Rightarrow> executed" where
  "execute_blob_closed cfg mid callis_id reason st tk =
     (let (handle, blob) = remove_callis (requeue_inflight_for_callis (ps_blob (pt_shared tk)) callis_id) callis_id;
          tk = on_shared tk (\<lambda>sh. sh\<lparr>ps_blob := blob\<rparr>);
          tk = (case handle of None \<Rightarrow> tk | Some handle \<Rightarrow> post_for tk (\<lambda>peer. BlobDisconnected peer (ch_id handle) reason))
      in execute_after_blob_removed cfg mid st tk)"

fun closed_reason :: "cancel_reason \<Rightarrow> disconnect_reason" where
  "closed_reason CancelRemoteClose = ReasonRemoteClosed"
| "closed_reason CancelLocalShutdown = ReasonShutdown"
| "closed_reason CancelConnectionLost = ReasonConnectionClosed"
| "closed_reason CancelNone = ReasonConnectionClosed"

definition execute_ensure_primary_dial :: "peer_config \<Rightarrow> (peer_shared \<Rightarrow> peer_shared) \<Rightarrow> peer_state \<Rightarrow> peer_task \<Rightarrow> executed" where
  "execute_ensure_primary_dial cfg mid st tk =
     (let (effects, st) = ensure_primary_dial st (has_primary_work (pt_shared tk)) (has_callis_capacity cfg (pt_shared tk))
      in if ef_spawn_primary_dial effects
         then execute_primary_dial_effect cfg mid effects (primary_dial_delay cfg st) st tk else (True, st, tk))"

definition execute_dial_failed_primary :: "peer_config \<Rightarrow> (peer_shared \<Rightarrow> peer_shared) \<Rightarrow> peer_state \<Rightarrow> peer_task \<Rightarrow> executed" where
  "execute_dial_failed_primary cfg mid st tk =
     (let (effects, st) = dial_failed_primary st (has_primary_work (pt_shared tk)) (has_callis_capacity cfg (pt_shared tk))
      in if ef_spawn_primary_dial effects
         then execute_primary_dial_effect cfg mid effects (compute_reconnect_delay cfg (pe_reconnect_attempt st)) st tk else (True, st, tk))"

definition execute_dial_failed_blob :: "peer_config \<Rightarrow> (peer_shared \<Rightarrow> peer_shared) \<Rightarrow> peer_state \<Rightarrow> peer_task \<Rightarrow> executed" where
  "execute_dial_failed_blob cfg mid st tk = blob_dial_with (dial_failed_blob st) cfg mid tk"

definition execute_ensure_blob_dial :: "peer_config \<Rightarrow> (peer_shared \<Rightarrow> peer_shared) \<Rightarrow> peer_state \<Rightarrow> peer_task \<Rightarrow> executed" where
  "execute_ensure_blob_dial cfg mid st tk = blob_dial_with (ensure_blob_dial st) cfg mid tk"

definition execute_graceful_close :: "peer_state \<Rightarrow> peer_task \<Rightarrow> executed" where
  "execute_graceful_close st tk =
     (let (effects, st) = graceful_close st
      in if \<not> ef_publish_snapshot effects then (False, st, tk) else (True, st, execute_graceful_close_effect st tk))"

fun execute_update :: "peer_config \<Rightarrow> (peer_shared \<Rightarrow> peer_shared) \<Rightarrow> peer_state_update \<Rightarrow> peer_state \<Rightarrow> peer_task \<Rightarrow> executed" where
  "execute_update cfg mid (UpConnected CallisPrimary info) st tk = execute_connected_primary st tk info"
| "execute_update cfg mid (UpConnected CallisBlob info) st tk = execute_connected_blob st tk info"
| "execute_update cfg mid (UpDialFailed CallisPrimary) st tk = execute_dial_failed_primary cfg mid st tk"
| "execute_update cfg mid (UpDialFailed CallisBlob) st tk = execute_dial_failed_blob cfg mid st tk"
| "execute_update cfg mid (UpDisconnect CallisPrimary callis_id) st tk = execute_primary_disconnect cfg mid callis_id ReasonLocalRequest st tk"
| "execute_update cfg mid (UpDisconnect CallisBlob callis_id) st tk = execute_blob_disconnect cfg mid callis_id ReasonLocalRequest st tk"
| "execute_update cfg mid (UpConnectionClosed CallisPrimary callis_id reason) st tk =
     execute_primary_closed cfg mid callis_id (closed_reason reason) st tk"
| "execute_update cfg mid (UpConnectionClosed CallisBlob callis_id reason) st tk =
     execute_blob_closed cfg mid callis_id (closed_reason reason) st tk"
| "execute_update cfg mid UpEnsurePrimaryDial st tk = execute_ensure_primary_dial cfg mid st tk"
| "execute_update cfg mid UpEnsureBlobDial st tk = execute_ensure_blob_dial cfg mid st tk"
| "execute_update cfg mid UpGracefulClose st tk = execute_graceful_close st tk"

section \<open>Giving a peer up\<close>

definition update_impaired_since :: "peer_state \<Rightarrow> peer_shared \<Rightarrow> instant \<Rightarrow> peer_state" where
  "update_impaired_since st sh now =
     (if pe_closing st \<or> ss_closing (ps_session sh) \<or> \<not> pe_had_primary st then st\<lparr>pe_impaired_since := None\<rparr>
      else if pe_primary st = [] \<and> \<not> bl_has_callis (lifecycle_snapshot (ps_blob sh))
      then if pe_impaired_since st = None then st\<lparr>pe_impaired_since := Some now\<rparr> else st
      else st\<lparr>pe_impaired_since := None\<rparr>)"

definition teardown_peer_handle :: "peer_state \<Rightarrow> peer_task \<Rightarrow> disconnect_reason \<Rightarrow> peer_state \<times> peer_task" where
  "teardown_peer_handle st tk reason =
     (if pe_closing st then (st, tk)
      else let handles = pe_primary st;
               st = st\<lparr>pe_impaired_since := None, pe_closing := True, pe_primary_dial := DialIdle, pe_dialing_blob := False,
                      pe_reconnect_attempt := 0, pe_blob_reconnect_attempt := 0, pe_primary := []\<rparr>;
               tk = on_shared tk (\<lambda>sh. sh\<lparr>ps_session := begin_close (ps_session sh)\<rparr>);
               tk = on_shared tk (on_dispatch (\<lambda>q. queue_fail_non_a1 q (err_new PeerUnavailable)));
               tk = on_shared tk (\<lambda>sh. sh\<lparr>ps_primary_active := False\<rparr>);
               tk = foldl (\<lambda>tk handle. post_for (shutdown_handle tk handle) (\<lambda>peer. PrimaryDisconnected peer (ch_id handle) reason)) tk handles;
               (blob_handles, blob) = drain_callis (fail_all_streams (ps_blob (pt_shared tk)) (err_new PeerUnavailable));
               tk = on_shared tk (\<lambda>sh. sh\<lparr>ps_blob := blob\<rparr>)
           in (st, foldl (\<lambda>tk handle. post_for (shutdown_handle tk handle) (\<lambda>peer. BlobDisconnected peer (ch_id handle) reason)) tk blob_handles))"

datatype peer_event = PeerShutdown bool | PeerDeadline | PeerUpdate peer_state_update | PeerChannelClosed

text \<open>
  One turn of the loop: an arm of the \<open>select\<close>, then the epilogue. \<open>None\<close> ends the task. \<open>PeerDeadline\<close> is the
  arm of the timer, which is only armed while the peer is impaired and fires at \<open>now\<close>.
\<close>

definition deadline_arm :: "peer_config \<Rightarrow> peer_state \<Rightarrow> peer_task \<Rightarrow> instant \<Rightarrow> peer_state \<times> peer_task" where
  "deadline_arm cfg st tk now =
     (case pe_impaired_since st of
        None \<Rightarrow> (st, tk)
      | Some since \<Rightarrow>
          if since + pc_send_timeout cfg \<le> now \<and> \<not> pe_closing st \<and> \<not> ss_closing (ps_session (pt_shared tk)) \<and> pe_primary st = []
             \<and> \<not> bl_has_callis (lifecycle_snapshot (ps_blob (pt_shared tk)))
          then teardown_peer_handle st tk ReasonLocalRequest else (st, tk))"

definition peer_turn ::
  "peer_config \<Rightarrow> (peer_shared \<Rightarrow> peer_shared) \<Rightarrow> instant \<Rightarrow> peer_event \<Rightarrow> peer_state \<Rightarrow> peer_task \<Rightarrow> (peer_state \<times> peer_task) option" where
  "peer_turn cfg mid now ev st tk =
     (let epilogue = (\<lambda>(st, tk). Some (update_impaired_since st (pt_shared tk) now, tk))
      in case ev of
           PeerShutdown v \<Rightarrow> if v then None else epilogue (st, tk)
         | PeerDeadline \<Rightarrow> epilogue (deadline_arm cfg st tk now)
         | PeerUpdate update \<Rightarrow> epilogue (snd (execute_update cfg mid update st tk))
         | PeerChannelClosed \<Rightarrow> None)"

end
