(* ===== verification/Observability.thy ===== *)
theory Observability
  imports Peer_State
begin

text \<open>
  Metrics, events and errors of a domus (\<^verbatim>\<open>src/crates/peering/src/observability/\<close>): the handle through which the
  other parts emit commands, the actor that reduces each command to a new state and effects, and the reports.

  The channel to the actor is its queue of commands with its capacity, and the streams of events and of errors
  are what was sent on them, in order; how far a subscriber lags is up to it. The counters are the machine's:
  an addition past \<open>u64::MAX\<close> wraps. \<open>now k\<close> is the time at the \<open>k\<close>th reading of the clock during a
  command, and \<open>sock\<close> is the standard library's formatting of a socket address.
\<close>

section \<open>Labels\<close>

fun disconnect_reason_label :: "disconnect_reason \<Rightarrow> string" where
  "disconnect_reason_label ReasonLocalRequest = ''local-request''"
| "disconnect_reason_label ReasonRemoteClosed = ''remote-closed''"
| "disconnect_reason_label ReasonConnectionClosed = ''connection-closed''"
| "disconnect_reason_label ReasonPeerRestarted = ''peer-restarted''"
| "disconnect_reason_label ReasonShutdown = ''shutdown''"

datatype restart_reason = FreshSession

fun restart_reason_label :: "restart_reason \<Rightarrow> string" where
  "restart_reason_label FreshSession = ''fresh-session''"

datatype handshake_phase = PhaseOutboundPrimary | PhaseOutboundBlob | PhaseInbound

fun handshake_phase_label :: "handshake_phase \<Rightarrow> string" where
  "handshake_phase_label PhaseOutboundPrimary = ''outbound-primary-hello''"
| "handshake_phase_label PhaseOutboundBlob = ''outbound-blob-hello''"
| "handshake_phase_label PhaseInbound = ''inbound-hello''"

fun outbound_queue_tier_label :: "queue_tier \<Rightarrow> string" where
  "outbound_queue_tier_label ReportA1 = ''a1''"
| "outbound_queue_tier_label ReportA2 = ''a2''"
| "outbound_queue_tier_label ReportA3 = ''a3''"

fun callis_kind_label :: "callis_kind \<Rightarrow> string" where
  "callis_kind_label CallisPrimary = ''primary''"
| "callis_kind_label CallisBlob = ''blob''"

fun show_addr :: "(socket_addr \<Rightarrow> string) \<Rightarrow> domus_addr \<Rightarrow> string" where
  "show_addr sock (AddrTcp addr) = ''tcp://'' @ sock addr"
| "show_addr sock (AddrSocket path) = ''unix://'' @ path"

section \<open>Events, counters and reports\<close>

datatype reporting_event =
    EvPeerConnected instant domus_addr bool
  | EvPeerDisconnected instant domus_addr string
  | EvPeerDialFailed instant domus_addr string error_id
  | EvPrimaryCallisConnected instant domus_addr nat
  | EvPrimaryCallisDisconnected instant domus_addr nat string
  | EvBlobCallisConnected instant domus_addr nat blob_callis_settings
  | EvBlobCallisDisconnected instant domus_addr nat string
  | EvPeerSessionRestarted instant domus_addr string
  | EvBackpressureTriggered instant domus_addr u64
  | EvOutboundQueueOverrun instant domus_addr string nat message_type
  | EvConfigReloaded instant
  | EvAuthReloaded instant
  | EvShutdownStarted instant
  | EvShutdownComplete instant

record metrics_counters =
  mc_current_peers :: nat
  mc_current_primary_callis :: nat
  mc_current_blob_callis :: nat
  mc_peak_peers :: nat
  mc_peak_primary_callis :: nat
  mc_peak_blob_callis :: nat
  mc_total_primary_opened :: nat
  mc_total_primary_closed :: nat
  mc_total_blob_opened :: nat
  mc_total_blob_closed :: nat
  mc_total_dial_attempts :: nat
  mc_total_dial_failures :: nat
  mc_total_identity_mismatch :: nat
  mc_total_protocol_violation :: nat
  mc_total_outbound_queue_overruns :: nat
  mc_total_a1_queue_overruns :: nat
  mc_total_a2_queue_overruns :: nat
  mc_total_a3_queue_overruns :: nat

definition counters_default :: metrics_counters where
  "counters_default =
     \<lparr>mc_current_peers = 0, mc_current_primary_callis = 0, mc_current_blob_callis = 0,
      mc_peak_peers = 0, mc_peak_primary_callis = 0, mc_peak_blob_callis = 0,
      mc_total_primary_opened = 0, mc_total_primary_closed = 0, mc_total_blob_opened = 0, mc_total_blob_closed = 0,
      mc_total_dial_attempts = 0, mc_total_dial_failures = 0, mc_total_identity_mismatch = 0, mc_total_protocol_violation = 0,
      mc_total_outbound_queue_overruns = 0, mc_total_a1_queue_overruns = 0, mc_total_a2_queue_overruns = 0,
      mc_total_a3_queue_overruns = 0\<rparr>"

text \<open>The two reports have the fields of the counters and three times.\<close>

record domus_metrics = metrics_counters +
  dm_created_at :: instant
  dm_last_reset_at :: instant
  dm_last_snapshot_at :: instant

record domus_metrics_delta = metrics_counters +
  de_created_at :: instant
  de_last_reset_at :: instant
  de_last_snapshot_at :: instant

record peer_identity_report =
  pi_peer :: domus_addr
  pi_primary_callis_count :: nat
  pi_blob_callis_count :: nat

record metrics_state =
  ms_totals :: metrics_counters
  ms_baseline :: metrics_counters
  ms_interval_peak_peers :: nat
  ms_interval_peak_primary_callis :: nat
  ms_interval_peak_blob_callis :: nat
  ms_created_at :: instant
  ms_last_reset_at :: instant

definition metrics_new :: "instant \<Rightarrow> metrics_state" where
  "metrics_new created_at =
     \<lparr>ms_totals = counters_default, ms_baseline = counters_default, ms_interval_peak_peers = 0,
      ms_interval_peak_primary_callis = 0, ms_interval_peak_blob_callis = 0, ms_created_at = created_at, ms_last_reset_at = created_at\<rparr>"

definition metrics_snapshot :: "instant \<Rightarrow> metrics_state \<Rightarrow> domus_metrics" where
  "metrics_snapshot now m =
     (let t = ms_totals m in
      \<lparr>mc_current_peers = mc_current_peers t, mc_current_primary_callis = mc_current_primary_callis t,
       mc_current_blob_callis = mc_current_blob_callis t, mc_peak_peers = mc_peak_peers t,
       mc_peak_primary_callis = mc_peak_primary_callis t, mc_peak_blob_callis = mc_peak_blob_callis t,
       mc_total_primary_opened = mc_total_primary_opened t, mc_total_primary_closed = mc_total_primary_closed t,
       mc_total_blob_opened = mc_total_blob_opened t, mc_total_blob_closed = mc_total_blob_closed t,
       mc_total_dial_attempts = mc_total_dial_attempts t, mc_total_dial_failures = mc_total_dial_failures t,
       mc_total_identity_mismatch = mc_total_identity_mismatch t, mc_total_protocol_violation = mc_total_protocol_violation t,
       mc_total_outbound_queue_overruns = mc_total_outbound_queue_overruns t, mc_total_a1_queue_overruns = mc_total_a1_queue_overruns t,
       mc_total_a2_queue_overruns = mc_total_a2_queue_overruns t, mc_total_a3_queue_overruns = mc_total_a3_queue_overruns t,
       dm_created_at = ms_created_at m, dm_last_reset_at = ms_last_reset_at m, dm_last_snapshot_at = now\<rparr>)"

definition metrics_snapshot_and_reset :: "instant \<Rightarrow> metrics_state \<Rightarrow> domus_metrics_delta \<times> metrics_state" where
  "metrics_snapshot_and_reset now m =
     (let t = ms_totals m; b = ms_baseline m in
      (\<lparr>mc_current_peers = mc_current_peers t, mc_current_primary_callis = mc_current_primary_callis t,
        mc_current_blob_callis = mc_current_blob_callis t, mc_peak_peers = ms_interval_peak_peers m,
        mc_peak_primary_callis = ms_interval_peak_primary_callis m, mc_peak_blob_callis = ms_interval_peak_blob_callis m,
        mc_total_primary_opened = mc_total_primary_opened t - mc_total_primary_opened b,
        mc_total_primary_closed = mc_total_primary_closed t - mc_total_primary_closed b,
        mc_total_blob_opened = mc_total_blob_opened t - mc_total_blob_opened b,
        mc_total_blob_closed = mc_total_blob_closed t - mc_total_blob_closed b,
        mc_total_dial_attempts = mc_total_dial_attempts t - mc_total_dial_attempts b,
        mc_total_dial_failures = mc_total_dial_failures t - mc_total_dial_failures b,
        mc_total_identity_mismatch = mc_total_identity_mismatch t - mc_total_identity_mismatch b,
        mc_total_protocol_violation = mc_total_protocol_violation t - mc_total_protocol_violation b,
        mc_total_outbound_queue_overruns = mc_total_outbound_queue_overruns t - mc_total_outbound_queue_overruns b,
        mc_total_a1_queue_overruns = mc_total_a1_queue_overruns t - mc_total_a1_queue_overruns b,
        mc_total_a2_queue_overruns = mc_total_a2_queue_overruns t - mc_total_a2_queue_overruns b,
        mc_total_a3_queue_overruns = mc_total_a3_queue_overruns t - mc_total_a3_queue_overruns b,
        de_created_at = ms_created_at m, de_last_reset_at = ms_last_reset_at m, de_last_snapshot_at = now\<rparr>,
       m\<lparr>ms_baseline := t, ms_interval_peak_peers := mc_current_peers t,
         ms_interval_peak_primary_callis := mc_current_primary_callis t, ms_interval_peak_blob_callis := mc_current_blob_callis t,
         ms_last_reset_at := now\<rparr>))"

section \<open>Counting\<close>

definition u64_plus :: "nat \<Rightarrow> nat \<Rightarrow> nat" where
  "u64_plus a b = (a + b) mod (u64_max + 1)"

definition on_totals :: "(metrics_counters \<Rightarrow> metrics_counters) \<Rightarrow> metrics_state \<Rightarrow> metrics_state" where
  "on_totals f m = m\<lparr>ms_totals := f (ms_totals m)\<rparr>"

definition record_dial_attempt :: "metrics_state \<Rightarrow> metrics_state" where
  "record_dial_attempt = on_totals (\<lambda>t. t\<lparr>mc_total_dial_attempts := u64_plus (mc_total_dial_attempts t) 1\<rparr>)"

definition record_dial_failure :: "metrics_state \<Rightarrow> metrics_state" where
  "record_dial_failure = on_totals (\<lambda>t. t\<lparr>mc_total_dial_failures := u64_plus (mc_total_dial_failures t) 1\<rparr>)"

definition record_identity_mismatch :: "metrics_state \<Rightarrow> metrics_state" where
  "record_identity_mismatch = on_totals (\<lambda>t. t\<lparr>mc_total_identity_mismatch := u64_plus (mc_total_identity_mismatch t) 1\<rparr>)"

definition record_protocol_violation :: "metrics_state \<Rightarrow> metrics_state" where
  "record_protocol_violation = on_totals (\<lambda>t. t\<lparr>mc_total_protocol_violation := u64_plus (mc_total_protocol_violation t) 1\<rparr>)"

definition record_outbound_queue_overrun :: "queue_tier \<Rightarrow> metrics_state \<Rightarrow> metrics_state" where
  "record_outbound_queue_overrun tier = on_totals (\<lambda>t.
     let t = t\<lparr>mc_total_outbound_queue_overruns := u64_plus (mc_total_outbound_queue_overruns t) 1\<rparr> in
     case tier of
       ReportA1 \<Rightarrow> t\<lparr>mc_total_a1_queue_overruns := u64_plus (mc_total_a1_queue_overruns t) 1\<rparr>
     | ReportA2 \<Rightarrow> t\<lparr>mc_total_a2_queue_overruns := u64_plus (mc_total_a2_queue_overruns t) 1\<rparr>
     | ReportA3 \<Rightarrow> t\<lparr>mc_total_a3_queue_overruns := u64_plus (mc_total_a3_queue_overruns t) 1\<rparr>)"

definition peer_connected :: "metrics_state \<Rightarrow> metrics_state" where
  "peer_connected m =
     (let n = u64_plus (mc_current_peers (ms_totals m)) 1 in
      (on_totals (\<lambda>t. t\<lparr>mc_current_peers := n, mc_peak_peers := max (mc_peak_peers t) n\<rparr>) m)
        \<lparr>ms_interval_peak_peers := max (ms_interval_peak_peers m) n\<rparr>)"

definition peer_disconnected :: "metrics_state \<Rightarrow> metrics_state" where
  "peer_disconnected = on_totals (\<lambda>t. t\<lparr>mc_current_peers := mc_current_peers t - 1\<rparr>)"

definition primary_connected :: "metrics_state \<Rightarrow> metrics_state" where
  "primary_connected m =
     (let n = u64_plus (mc_current_primary_callis (ms_totals m)) 1 in
      (on_totals (\<lambda>t. t\<lparr>mc_current_primary_callis := n, mc_total_primary_opened := u64_plus (mc_total_primary_opened t) 1,
         mc_peak_primary_callis := max (mc_peak_primary_callis t) n\<rparr>) m)
        \<lparr>ms_interval_peak_primary_callis := max (ms_interval_peak_primary_callis m) n\<rparr>)"

definition blob_connected :: "metrics_state \<Rightarrow> metrics_state" where
  "blob_connected m =
     (let n = u64_plus (mc_current_blob_callis (ms_totals m)) 1 in
      (on_totals (\<lambda>t. t\<lparr>mc_current_blob_callis := n, mc_total_blob_opened := u64_plus (mc_total_blob_opened t) 1,
         mc_peak_blob_callis := max (mc_peak_blob_callis t) n\<rparr>) m)
        \<lparr>ms_interval_peak_blob_callis := max (ms_interval_peak_blob_callis m) n\<rparr>)"

definition primary_disconnected :: "metrics_state \<Rightarrow> metrics_state" where
  "primary_disconnected = on_totals (\<lambda>t. t\<lparr>mc_current_primary_callis := mc_current_primary_callis t - 1,
     mc_total_primary_closed := u64_plus (mc_total_primary_closed t) 1\<rparr>)"

definition blob_disconnected :: "metrics_state \<Rightarrow> metrics_state" where
  "blob_disconnected = on_totals (\<lambda>t. t\<lparr>mc_current_blob_callis := mc_current_blob_callis t - 1,
     mc_total_blob_closed := u64_plus (mc_total_blob_closed t) 1\<rparr>)"

section \<open>State, commands and effects\<close>

record peer_counts =
  pn_primary :: nat
  pn_blob :: nat

type_synonym seq_error = "nat \<times> aurelia_error"

record observability_state =
  os_metrics :: metrics_state
  os_peers :: "(domus_addr \<times> peer_counts) list"
  os_errors :: "seq_error list"
  os_next_seq :: nat
  os_error_capacity :: nat

definition observability_new :: "instant \<Rightarrow> nat \<Rightarrow> observability_state" where
  "observability_new created_at error_capacity =
     \<lparr>os_metrics = metrics_new created_at, os_peers = [], os_errors = [], os_next_seq = 0, os_error_capacity = error_capacity\<rparr>"

datatype observability_command =
    CmdDialAttempt
  | CmdDialFailed domus_addr callis_kind error_id
  | CmdPrimaryConnected domus_addr nat bool
  | CmdBlobConnected domus_addr nat blob_callis_settings
  | CmdPrimaryDisconnected domus_addr nat disconnect_reason
  | CmdBlobDisconnected domus_addr nat disconnect_reason
  | CmdIdentityMismatch domus_addr domus_addr domus_addr
  | CmdProtocolViolation domus_addr error_id
  | CmdBackpressureTriggered domus_addr u64
  | CmdAddressMismatch domus_addr error_id
  | CmdHandshakeTimeout domus_addr handshake_phase
  | CmdListenerFailure domus_addr error_id
  | CmdBackendFailure domus_addr error_id
  | CmdOutboundQueueOverrun domus_addr queue_tier nat message_type
  | CmdAuthReloaded
  | CmdConfigReloaded
  | CmdShutdownStarted
  | CmdShutdownComplete
  | CmdSnapshot nat
  | CmdSnapshotAndReset nat
  | CmdConnectedPeerIdentities nat
  | CmdConnectedPeers nat
  | CmdErrorsSince nat nat nat

datatype observability_reply =
    ReplySnapshot domus_metrics
  | ReplyDelta domus_metrics_delta
  | ReplyIdentities "domus_addr list"
  | ReplyPeers "peer_identity_report list"
  | ReplyErrors "seq_error list"

datatype observability_effect =
    EffEvent reporting_event
  | EffError seq_error
  | EffReply nat observability_reply

section \<open>The reducer\<close>

definition on_metrics :: "(metrics_state \<Rightarrow> metrics_state) \<Rightarrow> observability_state \<Rightarrow> observability_state" where
  "on_metrics f st = st\<lparr>os_metrics := f (os_metrics st)\<rparr>"

definition counts_connected :: "peer_counts \<Rightarrow> bool" where
  "counts_connected counts \<longleftrightarrow> 0 < u64_plus (pn_primary counts) (pn_blob counts)"

definition reduce_connected ::
  "(nat \<Rightarrow> instant) \<Rightarrow> observability_state \<Rightarrow> domus_addr \<Rightarrow> callis_kind \<Rightarrow> nat \<Rightarrow> bool option \<Rightarrow> blob_callis_settings option \<Rightarrow>
   observability_effect list \<times> observability_state" where
  "reduce_connected now st peer callis callis_id fresh_session blob_settings =
     (let was_connected = (case map_of (os_peers st) peer of None \<Rightarrow> False | Some counts \<Rightarrow> counts_connected counts);
          counts = (case map_of (os_peers st) peer of None \<Rightarrow> \<lparr>pn_primary = 0, pn_blob = 0\<rparr> | Some counts \<Rightarrow> counts);
          (counts, st) =
            (case callis of
               CallisPrimary \<Rightarrow> (counts\<lparr>pn_primary := u64_plus (pn_primary counts) 1\<rparr>, on_metrics primary_connected st)
             | CallisBlob \<Rightarrow> (counts\<lparr>pn_blob := u64_plus (pn_blob counts) 1\<rparr>, on_metrics blob_connected st));
          st = st\<lparr>os_peers := AList.update peer counts (os_peers st)\<rparr>;
          (effects, st) =
            (if was_connected then ([], st)
             else ([EffEvent (EvPeerConnected (now 0) peer (fresh_session = Some True))], on_metrics peer_connected st))
      in (effects @
          (case callis of
             CallisPrimary \<Rightarrow>
               EffEvent (EvPrimaryCallisConnected (now 1) peer callis_id) #
               (if fresh_session = Some True then [EffEvent (EvPeerSessionRestarted (now 2) peer (restart_reason_label FreshSession))] else [])
           | CallisBlob \<Rightarrow>
               (case blob_settings of None \<Rightarrow> [] | Some settings \<Rightarrow> [EffEvent (EvBlobCallisConnected (now 1) peer callis_id settings)])),
          st))"

definition reduce_disconnected ::
  "(nat \<Rightarrow> instant) \<Rightarrow> observability_state \<Rightarrow> domus_addr \<Rightarrow> callis_kind \<Rightarrow> nat \<Rightarrow> disconnect_reason \<Rightarrow>
   observability_effect list \<times> observability_state" where
  "reduce_disconnected now st peer callis callis_id reason =
     (let (was_connected, effects, st) =
        (case map_of (os_peers st) peer of
           None \<Rightarrow> (False, [], st)
         | Some counts \<Rightarrow>
             let was_connected = counts_connected counts;
                 (effects, counts, st) =
                   (case callis of
                      CallisPrimary \<Rightarrow>
                        if 0 < pn_primary counts
                        then ([EffEvent (EvPrimaryCallisDisconnected (now 0) peer callis_id (disconnect_reason_label reason))],
                              counts\<lparr>pn_primary := pn_primary counts - 1\<rparr>, on_metrics primary_disconnected st)
                        else ([], counts, st)
                    | CallisBlob \<Rightarrow>
                        if 0 < pn_blob counts
                        then ([EffEvent (EvBlobCallisDisconnected (now 0) peer callis_id (disconnect_reason_label reason))],
                              counts\<lparr>pn_blob := pn_blob counts - 1\<rparr>, on_metrics blob_disconnected st)
                        else ([], counts, st))
             in (was_connected, effects,
                 if counts_connected counts then st\<lparr>os_peers := AList.update peer counts (os_peers st)\<rparr>
                 else st\<lparr>os_peers := AList.delete peer (os_peers st)\<rparr>))
      in if was_connected \<and> map_of (os_peers st) peer = None
         then (effects @ [EffEvent (EvPeerDisconnected (now 1) peer (disconnect_reason_label reason))], on_metrics peer_disconnected st)
         else (effects, st))"

definition connected_peer_identities :: "observability_state \<Rightarrow> domus_addr list" where
  "connected_peer_identities st = map fst (filter (\<lambda>(peer, counts). counts_connected counts) (os_peers st))"

definition connected_peer_reports :: "observability_state \<Rightarrow> peer_identity_report list" where
  "connected_peer_reports st =
     map (\<lambda>(peer, counts). \<lparr>pi_peer = peer, pi_primary_callis_count = pn_primary counts, pi_blob_callis_count = pn_blob counts\<rparr>)
       (filter (\<lambda>(peer, counts). counts_connected counts) (os_peers st))"

fun collect_errors :: "seq_error list \<Rightarrow> nat \<Rightarrow> nat \<Rightarrow> seq_error list \<Rightarrow> seq_error list" where
  "collect_errors [] seq limit collected = collected"
| "collect_errors (err # errs) seq limit collected =
     (if seq < fst err
      then let collected = collected @ [err] in
           if limit \<le> length collected then collected else collect_errors errs seq limit collected
      else collect_errors errs seq limit collected)"

definition errors_since :: "observability_state \<Rightarrow> nat \<Rightarrow> nat \<Rightarrow> seq_error list" where
  "errors_since st seq limit = (if 0 < limit then collect_errors (os_errors st) seq limit [] else [])"

definition record_error :: "observability_state \<Rightarrow> aurelia_error \<Rightarrow> seq_error \<times> observability_state" where
  "record_error st error =
     (let next_seq = u64_plus (os_next_seq st) 1;
          entry = (next_seq, error);
          errors = (if length (os_errors st) = os_error_capacity st then tl (os_errors st) else os_errors st)
      in (entry, st\<lparr>os_next_seq := next_seq, os_errors := errors @ [entry]\<rparr>))"

definition report_error :: "observability_state \<Rightarrow> error_id \<Rightarrow> string \<Rightarrow> observability_effect list \<times> observability_state" where
  "report_error st kind message =
     (let (entry, st) = record_error st (with_message kind message) in ([EffError entry], st))"

fun reduce_observability_command ::
  "(socket_addr \<Rightarrow> string) \<Rightarrow> (nat \<Rightarrow> instant) \<Rightarrow> observability_state \<Rightarrow> observability_command \<Rightarrow>
   observability_effect list \<times> observability_state" where
  "reduce_observability_command sock now st CmdDialAttempt = ([], on_metrics record_dial_attempt st)"
| "reduce_observability_command sock now st (CmdDialFailed peer callis error_id) =
     ([EffEvent (EvPeerDialFailed (now 0) peer (callis_kind_label callis) error_id)], on_metrics record_dial_failure st)"
| "reduce_observability_command sock now st (CmdPrimaryConnected peer callis_id fresh_session) =
     reduce_connected now st peer CallisPrimary callis_id (Some fresh_session) None"
| "reduce_observability_command sock now st (CmdBlobConnected peer callis_id settings) =
     reduce_connected now st peer CallisBlob callis_id None (Some settings)"
| "reduce_observability_command sock now st (CmdPrimaryDisconnected peer callis_id reason) =
     reduce_disconnected now st peer CallisPrimary callis_id reason"
| "reduce_observability_command sock now st (CmdBlobDisconnected peer callis_id reason) =
     reduce_disconnected now st peer CallisBlob callis_id reason"
| "reduce_observability_command sock now st (CmdIdentityMismatch peer expected authenticated) =
     report_error (on_metrics record_identity_mismatch st) AddressMismatch
       (''peer='' @ show_addr sock peer @ '' expected='' @ show_addr sock expected @ '' authenticated='' @ show_addr sock authenticated)"
| "reduce_observability_command sock now st (CmdProtocolViolation peer error_id) =
     report_error (on_metrics record_protocol_violation st) error_id (''peer='' @ show_addr sock peer)"
| "reduce_observability_command sock now st (CmdBackpressureTriggered peer taberna_id) =
     ([EffEvent (EvBackpressureTriggered (now 0) peer taberna_id)], st)"
| "reduce_observability_command sock now st (CmdAddressMismatch peer error_id) =
     report_error st error_id (''peer='' @ show_addr sock peer)"
| "reduce_observability_command sock now st (CmdHandshakeTimeout peer phase) =
     report_error st PeerUnavailable (''peer='' @ show_addr sock peer @ '' phase='' @ handshake_phase_label phase)"
| "reduce_observability_command sock now st (CmdListenerFailure local_addr error_id) =
     report_error st error_id (''local_addr='' @ show_addr sock local_addr)"
| "reduce_observability_command sock now st (CmdBackendFailure peer error_id) =
     report_error st error_id (''peer='' @ show_addr sock peer)"
| "reduce_observability_command sock now st (CmdOutboundQueueOverrun peer tier limit msg_type) =
     ([EffEvent (EvOutboundQueueOverrun (now 0) peer (outbound_queue_tier_label tier) limit msg_type)],
      on_metrics (record_outbound_queue_overrun tier) st)"
| "reduce_observability_command sock now st CmdAuthReloaded = ([EffEvent (EvAuthReloaded (now 0))], st)"
| "reduce_observability_command sock now st CmdConfigReloaded = ([EffEvent (EvConfigReloaded (now 0))], st)"
| "reduce_observability_command sock now st CmdShutdownStarted = ([EffEvent (EvShutdownStarted (now 0))], st)"
| "reduce_observability_command sock now st CmdShutdownComplete = ([EffEvent (EvShutdownComplete (now 0))], st)"
| "reduce_observability_command sock now st (CmdSnapshot reply) =
     ([EffReply reply (ReplySnapshot (metrics_snapshot (now 0) (os_metrics st)))], st)"
| "reduce_observability_command sock now st (CmdSnapshotAndReset reply) =
     (let (delta, metrics) = metrics_snapshot_and_reset (now 0) (os_metrics st)
      in ([EffReply reply (ReplyDelta delta)], st\<lparr>os_metrics := metrics\<rparr>))"
| "reduce_observability_command sock now st (CmdConnectedPeerIdentities reply) =
     ([EffReply reply (ReplyIdentities (connected_peer_identities st))], st)"
| "reduce_observability_command sock now st (CmdConnectedPeers reply) =
     ([EffReply reply (ReplyPeers (connected_peer_reports st))], st)"
| "reduce_observability_command sock now st (CmdErrorsSince seq limit reply) =
     ([EffReply reply (ReplyErrors (errors_since st seq limit))], st)"

section \<open>The actor and its channel\<close>

record observability =
  ob_queue :: "observability_command list"
  ob_capacity :: nat
  ob_running :: bool
  ob_state :: observability_state
  ob_events :: "reporting_event list"
  ob_errors :: "seq_error list"
  ob_replies :: "(nat \<times> observability_reply) list"

abbreviation DEFAULT_ERROR_BUFFER :: nat where
  "DEFAULT_ERROR_BUFFER \<equiv> 256"

abbreviation DEFAULT_COMMAND_BUFFER :: nat where
  "DEFAULT_COMMAND_BUFFER \<equiv> 1024"

definition new_observability_with_capacities :: "instant \<Rightarrow> nat \<Rightarrow> nat \<Rightarrow> observability" where
  "new_observability_with_capacities created_at error_capacity command_capacity =
     \<lparr>ob_queue = [], ob_capacity = max command_capacity 1, ob_running = True,
      ob_state = observability_new created_at (max error_capacity 1), ob_events = [], ob_errors = [], ob_replies = []\<rparr>"

definition new_observability_with_capacity :: "instant \<Rightarrow> nat \<Rightarrow> observability" where
  "new_observability_with_capacity created_at error_capacity =
     new_observability_with_capacities created_at error_capacity DEFAULT_COMMAND_BUFFER"

definition new_observability :: "instant \<Rightarrow> observability" where
  "new_observability created_at = new_observability_with_capacity created_at DEFAULT_ERROR_BUFFER"

fun execute_observability_effect :: "observability \<Rightarrow> observability_effect \<Rightarrow> observability" where
  "execute_observability_effect ob (EffEvent event) = ob\<lparr>ob_events := ob_events ob @ [event]\<rparr>"
| "execute_observability_effect ob (EffError error) = ob\<lparr>ob_errors := ob_errors ob @ [error]\<rparr>"
| "execute_observability_effect ob (EffReply reply x) = ob\<lparr>ob_replies := ob_replies ob @ [(reply, x)]\<rparr>"

text \<open>One turn of the actor; without a command it waits.\<close>

definition run_observability :: "(socket_addr \<Rightarrow> string) \<Rightarrow> (nat \<Rightarrow> instant) \<Rightarrow> observability \<Rightarrow> observability" where
  "run_observability sock now ob =
     (case ob_queue ob of
        [] \<Rightarrow> ob
      | command # rest \<Rightarrow>
          if \<not> ob_running ob then ob
          else let (effects, st) = reduce_observability_command sock now (ob_state ob) command
               in foldl execute_observability_effect (ob\<lparr>ob_queue := rest, ob_state := st\<rparr>) effects)"

section \<open>The handle\<close>

definition obs_emit :: "observability \<Rightarrow> observability_command \<Rightarrow> observability" where
  "obs_emit ob command =
     (if \<not> ob_running ob \<or> ob_capacity ob \<le> length (ob_queue ob) then ob else ob\<lparr>ob_queue := ob_queue ob @ [command]\<rparr>)"

definition obs_dial_attempt :: "observability \<Rightarrow> observability" where
  "obs_dial_attempt ob = obs_emit ob CmdDialAttempt"

definition obs_dial_failed :: "observability \<Rightarrow> domus_addr \<Rightarrow> callis_kind \<Rightarrow> error_id \<Rightarrow> observability" where
  "obs_dial_failed ob peer callis error_id = obs_emit ob (CmdDialFailed peer callis error_id)"

definition obs_primary_connected :: "observability \<Rightarrow> domus_addr \<Rightarrow> nat \<Rightarrow> bool \<Rightarrow> observability" where
  "obs_primary_connected ob peer callis_id fresh_session = obs_emit ob (CmdPrimaryConnected peer callis_id fresh_session)"

definition obs_blob_connected :: "observability \<Rightarrow> domus_addr \<Rightarrow> nat \<Rightarrow> blob_callis_settings \<Rightarrow> observability" where
  "obs_blob_connected ob peer callis_id settings = obs_emit ob (CmdBlobConnected peer callis_id settings)"

definition obs_primary_disconnected :: "observability \<Rightarrow> domus_addr \<Rightarrow> nat \<Rightarrow> disconnect_reason \<Rightarrow> observability" where
  "obs_primary_disconnected ob peer callis_id reason = obs_emit ob (CmdPrimaryDisconnected peer callis_id reason)"

definition obs_blob_disconnected :: "observability \<Rightarrow> domus_addr \<Rightarrow> nat \<Rightarrow> disconnect_reason \<Rightarrow> observability" where
  "obs_blob_disconnected ob peer callis_id reason = obs_emit ob (CmdBlobDisconnected peer callis_id reason)"

definition obs_identity_mismatch :: "observability \<Rightarrow> domus_addr \<Rightarrow> domus_addr \<Rightarrow> domus_addr \<Rightarrow> observability" where
  "obs_identity_mismatch ob peer expected authenticated = obs_emit ob (CmdIdentityMismatch peer expected authenticated)"

definition obs_protocol_violation :: "observability \<Rightarrow> domus_addr \<Rightarrow> error_id \<Rightarrow> observability" where
  "obs_protocol_violation ob peer error_id = obs_emit ob (CmdProtocolViolation peer error_id)"

definition obs_backpressure_triggered :: "observability \<Rightarrow> domus_addr \<Rightarrow> u64 \<Rightarrow> observability" where
  "obs_backpressure_triggered ob peer taberna_id = obs_emit ob (CmdBackpressureTriggered peer taberna_id)"

definition obs_address_mismatch :: "observability \<Rightarrow> domus_addr \<Rightarrow> error_id \<Rightarrow> observability" where
  "obs_address_mismatch ob peer error_id = obs_emit ob (CmdAddressMismatch peer error_id)"

definition obs_handshake_timeout :: "observability \<Rightarrow> domus_addr \<Rightarrow> handshake_phase \<Rightarrow> observability" where
  "obs_handshake_timeout ob peer phase = obs_emit ob (CmdHandshakeTimeout peer phase)"

definition obs_listener_failure :: "observability \<Rightarrow> domus_addr \<Rightarrow> error_id \<Rightarrow> observability" where
  "obs_listener_failure ob local_addr error_id = obs_emit ob (CmdListenerFailure local_addr error_id)"

definition obs_backend_failure :: "observability \<Rightarrow> domus_addr \<Rightarrow> error_id \<Rightarrow> observability" where
  "obs_backend_failure ob peer error_id = obs_emit ob (CmdBackendFailure peer error_id)"

definition obs_outbound_queue_overrun :: "observability \<Rightarrow> overrun_report \<Rightarrow> observability" where
  "obs_outbound_queue_overrun ob r = obs_emit ob (CmdOutboundQueueOverrun (ov_peer r) (ov_tier r) (ov_limit r) (ov_msg_type r))"

definition obs_auth_reloaded :: "observability \<Rightarrow> observability" where
  "obs_auth_reloaded ob = obs_emit ob CmdAuthReloaded"

definition obs_config_reloaded :: "observability \<Rightarrow> observability" where
  "obs_config_reloaded ob = obs_emit ob CmdConfigReloaded"

definition obs_shutdown_started :: "observability \<Rightarrow> observability" where
  "obs_shutdown_started ob = obs_emit ob CmdShutdownStarted"

definition obs_shutdown_complete :: "observability \<Rightarrow> observability" where
  "obs_shutdown_complete ob = obs_emit ob CmdShutdownComplete"

text \<open>What the state task of a peer has posted is emitted at the end of its turn.\<close>

fun emit_post :: "observability \<Rightarrow> peer_observability_effect \<Rightarrow> observability" where
  "emit_post ob (PrimaryConnected peer callis_id fresh_session) = obs_primary_connected ob peer callis_id fresh_session"
| "emit_post ob (BlobConnected peer callis_id settings) = obs_blob_connected ob peer callis_id settings"
| "emit_post ob (PrimaryDisconnected peer callis_id reason) = obs_primary_disconnected ob peer callis_id reason"
| "emit_post ob (BlobDisconnected peer callis_id reason) = obs_blob_disconnected ob peer callis_id reason"

definition emit_posts :: "observability \<Rightarrow> peer_observability_effect list \<Rightarrow> observability" where
  "emit_posts = foldl emit_post"

section \<open>Reports\<close>

definition snapshot_not_available :: aurelia_error where
  "snapshot_not_available = err_new SnapshotNotAvailable"

text \<open>A report is asked for and then answered; \<open>None\<close> is a call that waits, for room in the queue or for its answer.\<close>

definition reporting_send :: "observability \<Rightarrow> observability_command \<Rightarrow> (aurelia_error + observability) option" where
  "reporting_send ob command =
     (if \<not> ob_running ob then Some (Inl snapshot_not_available)
      else if ob_capacity ob \<le> length (ob_queue ob) then None
      else Some (Inr (ob\<lparr>ob_queue := ob_queue ob @ [command]\<rparr>)))"

definition reporting_reply :: "observability \<Rightarrow> nat \<Rightarrow> (aurelia_error + observability_reply) option" where
  "reporting_reply ob reply =
     (case map_of (ob_replies ob) reply of
        Some x \<Rightarrow> Some (Inr x)
      | None \<Rightarrow> if ob_running ob then None else Some (Inl snapshot_not_available))"

definition reporting_snapshot :: "observability \<Rightarrow> nat \<Rightarrow> (aurelia_error + observability) option" where
  "reporting_snapshot ob reply = reporting_send ob (CmdSnapshot reply)"

definition reporting_snapshot_and_reset :: "observability \<Rightarrow> nat \<Rightarrow> (aurelia_error + observability) option" where
  "reporting_snapshot_and_reset ob reply = reporting_send ob (CmdSnapshotAndReset reply)"

definition reporting_connected_peer_identities :: "observability \<Rightarrow> nat \<Rightarrow> (aurelia_error + observability) option" where
  "reporting_connected_peer_identities ob reply = reporting_send ob (CmdConnectedPeerIdentities reply)"

definition reporting_connected_peers :: "observability \<Rightarrow> nat \<Rightarrow> (aurelia_error + observability) option" where
  "reporting_connected_peers ob reply = reporting_send ob (CmdConnectedPeers reply)"

definition reporting_errors_since :: "observability \<Rightarrow> nat \<Rightarrow> nat \<Rightarrow> nat \<Rightarrow> (aurelia_error + observability) option" where
  "reporting_errors_since ob seq limit reply = reporting_send ob (CmdErrorsSince seq limit reply)"

section \<open>The invariant of the actor\<close>

type_synonym timed_command = "(nat \<Rightarrow> instant) \<times> observability_command"

definition obs_step :: "(socket_addr \<Rightarrow> string) \<Rightarrow> observability_state \<Rightarrow> timed_command \<Rightarrow> observability_state" where
  "obs_step sock st x = snd (reduce_observability_command sock (fst x) st (snd x))"

definition calles_of :: "callis_kind \<Rightarrow> peer_counts \<Rightarrow> nat" where
  "calles_of k counts = (case k of CallisPrimary \<Rightarrow> pn_primary counts | CallisBlob \<Rightarrow> pn_blob counts)"

lemma calles_of_simps [simp]:
  "calles_of CallisPrimary counts = pn_primary counts" "calles_of CallisBlob counts = pn_blob counts"
  by (simp_all add: calles_of_def)

definition live_calles :: "observability_state \<Rightarrow> domus_addr \<Rightarrow> callis_kind \<Rightarrow> nat" where
  "live_calles st p k = (case map_of (os_peers st) p of None \<Rightarrow> 0 | Some counts \<Rightarrow> calles_of k counts)"

text \<open>The calles that are up, as the commands tell it.\<close>

fun live_after :: "(domus_addr \<Rightarrow> callis_kind \<Rightarrow> nat) \<Rightarrow> observability_command \<Rightarrow> (domus_addr \<Rightarrow> callis_kind \<Rightarrow> nat)" where
  "live_after f (CmdPrimaryConnected p _ _) = f(p := (f p)(CallisPrimary := Suc (f p CallisPrimary)))"
| "live_after f (CmdBlobConnected p _ _) = f(p := (f p)(CallisBlob := Suc (f p CallisBlob)))"
| "live_after f (CmdPrimaryDisconnected p _ _) = f(p := (f p)(CallisPrimary := f p CallisPrimary - 1))"
| "live_after f (CmdBlobDisconnected p _ _) = f(p := (f p)(CallisBlob := f p CallisBlob - 1))"
| "live_after f _ = f"

definition sum_calles :: "callis_kind \<Rightarrow> (domus_addr \<times> peer_counts) list \<Rightarrow> nat" where
  "sum_calles k peers = sum_list (map (\<lambda>x. calles_of k (snd x)) peers)"

definition metrics_inv :: "nat \<Rightarrow> metrics_state \<Rightarrow> bool" where
  "metrics_inv n m \<longleftrightarrow> (let t = ms_totals m in
     mc_current_peers t \<le> ms_interval_peak_peers m \<and> ms_interval_peak_peers m \<le> mc_peak_peers t
     \<and> mc_current_primary_callis t \<le> ms_interval_peak_primary_callis m \<and> ms_interval_peak_primary_callis m \<le> mc_peak_primary_callis t
     \<and> mc_current_blob_callis t \<le> ms_interval_peak_blob_callis m \<and> ms_interval_peak_blob_callis m \<le> mc_peak_blob_callis t
     \<and> mc_total_primary_opened t = mc_total_primary_closed t + mc_current_primary_callis t
     \<and> mc_total_blob_opened t = mc_total_blob_closed t + mc_current_blob_callis t
     \<and> mc_total_primary_opened t + mc_total_blob_opened t \<le> n
     \<and> mc_total_primary_closed t \<le> n \<and> mc_total_blob_closed t \<le> n
     \<and> mc_total_outbound_queue_overruns t = mc_total_a1_queue_overruns t + mc_total_a2_queue_overruns t + mc_total_a3_queue_overruns t
     \<and> mc_total_outbound_queue_overruns t \<le> n \<and> mc_total_dial_attempts t \<le> n \<and> mc_total_dial_failures t \<le> n
     \<and> mc_total_identity_mismatch t \<le> n \<and> mc_total_protocol_violation t \<le> n)"

definition obs_inv :: "nat \<Rightarrow> observability_state \<Rightarrow> bool" where
  "obs_inv n st \<longleftrightarrow> metrics_inv n (os_metrics st) \<and> distinct (map fst (os_peers st))
     \<and> (\<forall>x \<in> set (os_peers st). 0 < pn_primary (snd x) + pn_blob (snd x))
     \<and> sum_calles CallisPrimary (os_peers st) = mc_current_primary_callis (ms_totals (os_metrics st))
     \<and> sum_calles CallisBlob (os_peers st) = mc_current_blob_callis (ms_totals (os_metrics st))
     \<and> length (os_peers st) = mc_current_peers (ms_totals (os_metrics st))"

lemmas metric_steps = on_totals_def record_dial_attempt_def record_dial_failure_def record_identity_mismatch_def
  record_protocol_violation_def record_outbound_queue_overrun_def peer_connected_def peer_disconnected_def primary_connected_def
  blob_connected_def primary_disconnected_def blob_disconnected_def on_metrics_def

lemma u64_plus_exact: "a + b \<le> u64_max \<Longrightarrow> u64_plus a b = a + b"
  by (simp add: u64_plus_def)

lemma sum_calles_values: "sum_calles k peers = sum_mset (image_mset (calles_of k) (mset (map snd peers)))"
  by (simp add: sum_calles_def sum_mset_sum_list flip: mset_map) (simp add: comp_def)

lemma found_calles: "sum_mset (image_mset (calles_of k) (found_at peers p)) = (case map_of peers p of None \<Rightarrow> 0 | Some old \<Rightarrow> calles_of k old)"
  by (simp add: found_at_def split: option.splits)

lemma sum_calles_update:
  "distinct (map fst peers) \<Longrightarrow> sum_calles k (AList.update p counts peers) + (case map_of peers p of None \<Rightarrow> 0 | Some old \<Rightarrow> calles_of k old)
    = sum_calles k peers + calles_of k counts"
  by (drule alist_update_values [of peers p counts], drule arg_cong [where f = "\<lambda>M. sum_mset (image_mset (calles_of k) M)"])
    (simp add: sum_calles_values found_calles)

lemma sum_calles_delete:
  "distinct (map fst peers) \<Longrightarrow> sum_calles k (AList.delete p peers) + (case map_of peers p of None \<Rightarrow> 0 | Some old \<Rightarrow> calles_of k old)
    = sum_calles k peers"
  by (drule alist_delete_values [of peers p], drule arg_cong [where f = "\<lambda>M. sum_mset (image_mset (calles_of k) M)"])
    (simp add: sum_calles_values found_calles)

lemma sum_calles_ge: "map_of peers p = Some counts \<Longrightarrow> calles_of k counts \<le> sum_calles k peers"
  by (induction peers) (auto simp: sum_calles_def split: if_splits)

definition counts_at :: "observability_state \<Rightarrow> domus_addr \<Rightarrow> peer_counts" where
  "counts_at st p = (case map_of (os_peers st) p of None \<Rightarrow> \<lparr>pn_primary = 0, pn_blob = 0\<rparr> | Some counts \<Rightarrow> counts)"

lemma counts_small:
  assumes "obs_inv n st"
  shows "pn_primary (counts_at st p) + pn_blob (counts_at st p) \<le> n"
proof (cases "map_of (os_peers st) p")
  case (Some counts)
  then have "pn_primary counts \<le> mc_current_primary_callis (ms_totals (os_metrics st))" "pn_blob counts \<le> mc_current_blob_callis (ms_totals (os_metrics st))"
    using sum_calles_ge [OF Some, of CallisPrimary] sum_calles_ge [OF Some, of CallisBlob] assms by (simp_all add: obs_inv_def)
  with Some assms show ?thesis by (simp add: counts_at_def obs_inv_def metrics_inv_def Let_def)
qed (simp add: counts_at_def)

lemma connected_iff:
  assumes "obs_inv n st" and "n \<le> u64_max" and "map_of (os_peers st) p = Some counts"
  shows "counts_connected counts" "0 < pn_primary counts + pn_blob counts"
proof -
  from assms(3) have "(p, counts) \<in> set (os_peers st)" by (rule map_of_SomeD)
  with assms(1) show pos: "0 < pn_primary counts + pn_blob counts" by (fastforce simp: obs_inv_def)
  from counts_small [OF assms(1), of p] assms(2,3) have "pn_primary counts + pn_blob counts \<le> u64_max" by (simp add: counts_at_def)
  with pos show "counts_connected counts" by (simp add: counts_connected_def u64_plus_exact)
qed

definition more_calles :: "callis_kind \<Rightarrow> peer_counts \<Rightarrow> peer_counts" where
  "more_calles k counts = (case k of CallisPrimary \<Rightarrow> counts\<lparr>pn_primary := Suc (pn_primary counts)\<rparr> | CallisBlob \<Rightarrow> counts\<lparr>pn_blob := Suc (pn_blob counts)\<rparr>)"

definition less_calles :: "callis_kind \<Rightarrow> peer_counts \<Rightarrow> peer_counts" where
  "less_calles k counts = (case k of CallisPrimary \<Rightarrow> counts\<lparr>pn_primary := pn_primary counts - 1\<rparr> | CallisBlob \<Rightarrow> counts\<lparr>pn_blob := pn_blob counts - 1\<rparr>)"

definition count_connected :: "callis_kind \<Rightarrow> metrics_state \<Rightarrow> metrics_state" where
  "count_connected k = (case k of CallisPrimary \<Rightarrow> primary_connected | CallisBlob \<Rightarrow> blob_connected)"

definition count_disconnected :: "callis_kind \<Rightarrow> metrics_state \<Rightarrow> metrics_state" where
  "count_disconnected k = (case k of CallisPrimary \<Rightarrow> primary_disconnected | CallisBlob \<Rightarrow> blob_disconnected)"

lemma connected_eq:
  assumes "obs_inv n st" and "n < u64_max"
  shows "snd (reduce_connected now st p k i fresh settings) =
    (on_metrics (if map_of (os_peers st) p = None then peer_connected \<circ> count_connected k else count_connected k) st)
      \<lparr>os_peers := AList.update p (more_calles k (counts_at st p)) (os_peers st)\<rparr>"
  using counts_small [OF assms(1), of p] connected_iff(1) [OF assms(1), of p] assms(2)
  by (cases "map_of (os_peers st) p"; cases k)
    (auto simp: reduce_connected_def counts_at_def more_calles_def count_connected_def u64_plus_exact on_metrics_def Let_def)

lemma disconnected_eq:
  assumes "obs_inv n st" and "n \<le> u64_max"
  shows "snd (reduce_disconnected now st p k i reason) =
    (if calles_of k (counts_at st p) = 0 then st
     else let counts = less_calles k (counts_at st p) in
       if pn_primary counts + pn_blob counts = 0
       then (on_metrics (peer_disconnected \<circ> count_disconnected k) st)\<lparr>os_peers := AList.delete p (os_peers st)\<rparr>
       else (on_metrics (count_disconnected k) st)\<lparr>os_peers := AList.update p counts (os_peers st)\<rparr>)"
proof (cases "map_of (os_peers st) p")
  case None
  then show ?thesis by (cases k) (simp_all add: reduce_disconnected_def counts_at_def)
next
  case (Some counts)
  have c: "counts_connected counts" "0 < pn_primary counts + pn_blob counts" using connected_iff [OF assms Some] by blast+
  have small: "pn_primary counts + pn_blob counts \<le> u64_max" using counts_small [OF assms(1), of p] assms(2) Some by (simp add: counts_at_def)
  have same: "st\<lparr>os_peers := AList.update p counts (os_peers st)\<rparr> = st" using Some by (simp add: AList.update_triv)
  have down: "counts_connected (less_calles k counts) \<longleftrightarrow> pn_primary (less_calles k counts) + pn_blob (less_calles k counts) \<noteq> 0"
    using small by (cases k) (auto simp: counts_connected_def less_calles_def u64_plus_exact)
  note eqs = reduce_disconnected_def Some c(1) counts_at_def
  show ?thesis
  proof (cases "calles_of k counts = 0")
    case True
    then show ?thesis using same c(2) by (cases k) (simp_all add: eqs)
  next
    case False
    show ?thesis
    proof (cases "pn_primary (less_calles k counts) + pn_blob (less_calles k counts) = 0")
      case True
      with False down show ?thesis
        by (cases k) (simp_all add: eqs less_calles_def count_disconnected_def on_metrics_def AList.delete_conv' Let_def)
    next
      case positive: False
      with False down show ?thesis
        by (cases k) (auto simp: eqs less_calles_def count_disconnected_def on_metrics_def AList.update_conv' Let_def)
    qed
  qed
qed

lemma inv_more: "metrics_inv n m \<Longrightarrow> n \<le> n' \<Longrightarrow> metrics_inv n' m"
  by (auto simp: metrics_inv_def Let_def)

lemma inv_counts:
  assumes "metrics_inv n m" and "n < u64_max"
  shows "metrics_inv (Suc n) (count_connected k m)"
  using assms by (cases k; auto simp: metrics_inv_def count_connected_def metric_steps u64_plus_exact Let_def)

lemma inv_peers:
  assumes "metrics_inv n m"
  shows "mc_current_peers (ms_totals m) < u64_max \<Longrightarrow> metrics_inv n (peer_connected m)" "metrics_inv n (peer_disconnected m)"
  using assms by (auto simp: metrics_inv_def metric_steps u64_plus_exact Let_def)

lemma inv_count_disconnected:
  assumes "metrics_inv n m" and "n < u64_max"
    and "0 < (case k of CallisPrimary \<Rightarrow> mc_current_primary_callis (ms_totals m) | CallisBlob \<Rightarrow> mc_current_blob_callis (ms_totals m))"
  shows "metrics_inv (Suc n) (count_disconnected k m)"
  using assms by (cases k; auto simp: metrics_inv_def count_disconnected_def metric_steps u64_plus_exact Let_def)

lemma inv_record:
  assumes "metrics_inv n m" and "n < u64_max"
  shows "metrics_inv (Suc n) (record_dial_attempt m)" "metrics_inv (Suc n) (record_dial_failure m)"
    "metrics_inv (Suc n) (record_identity_mismatch m)" "metrics_inv (Suc n) (record_protocol_violation m)"
    "metrics_inv (Suc n) (record_outbound_queue_overrun tier m)" "metrics_inv n (snd (metrics_snapshot_and_reset t m))"
  using assms by (cases tier; auto simp: metrics_inv_def metric_steps u64_plus_exact metrics_snapshot_and_reset_def Let_def)+

lemma count_fields:
  "mc_current_peers (ms_totals (count_connected k m)) = mc_current_peers (ms_totals m)"
  "mc_current_peers (ms_totals (count_disconnected k m)) = mc_current_peers (ms_totals m)"
  "mc_current_primary_callis (ms_totals (peer_connected m)) = mc_current_primary_callis (ms_totals m)"
  "mc_current_blob_callis (ms_totals (peer_connected m)) = mc_current_blob_callis (ms_totals m)"
  "mc_current_primary_callis (ms_totals (peer_disconnected m)) = mc_current_primary_callis (ms_totals m)"
  "mc_current_blob_callis (ms_totals (peer_disconnected m)) = mc_current_blob_callis (ms_totals m)"
  "mc_current_peers (ms_totals (peer_disconnected m)) = mc_current_peers (ms_totals m) - 1"
  by (cases k; simp add: count_connected_def count_disconnected_def metric_steps Let_def)+

lemma calles_changed [simp]:
  "calles_of k (more_calles k' counts) = (if k = k' then Suc (calles_of k counts) else calles_of k counts)"
  "calles_of k (less_calles k' counts) = (if k = k' then calles_of k counts - 1 else calles_of k counts)"
  by (cases k; cases k'; simp add: more_calles_def less_calles_def)+

lemma counts_at_calles: "(case map_of (os_peers st) p of None \<Rightarrow> 0 | Some old \<Rightarrow> calles_of k old) = calles_of k (counts_at st p)"
  by (cases k) (simp_all add: counts_at_def split: option.splits)

lemma peers_bounded:
  assumes "obs_inv n st"
  shows "mc_current_peers (ms_totals (os_metrics st)) \<le> n"
proof -
  have "length peers \<le> sum_calles CallisPrimary peers + sum_calles CallisBlob peers"
    if "\<forall>x \<in> set peers. 0 < pn_primary (snd x) + pn_blob (snd x)" for peers
    using that by (induction peers) (auto simp: sum_calles_def)
  from this [of "os_peers st"] assms show ?thesis by (auto simp: obs_inv_def metrics_inv_def Let_def)
qed

lemma obs_inv_connected:
  assumes inv: "obs_inv n st" and "n < u64_max"
  shows "obs_inv (Suc n) (snd (reduce_connected now st p k i fresh settings))"
proof -
  let ?m = "os_metrics st" and ?c = "more_calles k (counts_at st p)"
  have d: "distinct (map fst (os_peers st))" using inv by (simp add: obs_inv_def)
  have current: "mc_current_primary_callis (ms_totals ?m) \<le> n" "mc_current_blob_callis (ms_totals ?m) \<le> n"
    using inv by (auto simp: obs_inv_def metrics_inv_def Let_def)
  have m: "metrics_inv (Suc n) (count_connected k ?m)" using inv_counts assms by (simp add: obs_inv_def)
  have sum: "sum_calles k' (AList.update p ?c (os_peers st)) = (if k' = k then Suc (sum_calles k' (os_peers st)) else sum_calles k' (os_peers st))" for k'
    using sum_calles_update [OF d, of k' p ?c] by (simp add: counts_at_calles split: if_splits)
  have len: "length (AList.update p ?c (os_peers st)) = (if map_of (os_peers st) p = None then Suc (length (os_peers st)) else length (os_peers st))"
    using arg_cong [where f = length, OF AList.update_keys, of p ?c "os_peers st"] by (simp add: map_of_eq_None_iff split: if_splits)
  have pos: "\<forall>x \<in> set (AList.update p ?c (os_peers st)). 0 < pn_primary (snd x) + pn_blob (snd x)"
  proof
    fix x assume "x \<in> set (AList.update p ?c (os_peers st))"
    then have "x = (p, ?c) \<or> x \<in> set (os_peers st)" using update_mem [of "fst x" "snd x" p ?c "os_peers st"] by simp
    then show "0 < pn_primary (snd x) + pn_blob (snd x)" using inv by (cases k) (auto simp: obs_inv_def more_calles_def)
  qed
  have counted: "mc_current_primary_callis (ms_totals (count_connected k ?m)) = sum_calles CallisPrimary (AList.update p ?c (os_peers st))"
    "mc_current_blob_callis (ms_totals (count_connected k ?m)) = sum_calles CallisBlob (AList.update p ?c (os_peers st))"
    using inv current assms(2) unfolding sum obs_inv_def
    by (cases k; simp add: count_connected_def primary_connected_def blob_connected_def on_totals_def u64_plus_exact Let_def)+
  have peers: "mc_current_peers (ms_totals ?m) < u64_max" "mc_current_peers (ms_totals (peer_connected m)) = Suc (mc_current_peers (ms_totals m))"
    if "mc_current_peers (ms_totals m) = mc_current_peers (ms_totals ?m)" for m
    using peers_bounded [OF inv] assms(2) that by (simp_all add: metric_steps u64_plus_exact Let_def)
  show ?thesis
    using connected_eq [OF assms, of now p k i fresh settings] m counted len pos d inv peers [OF count_fields(1)] inv_peers(1) [OF m]
    by (cases "map_of (os_peers st) p") (simp_all add: obs_inv_def on_metrics_def AList.distinct_update count_fields)
qed

lemma inv_disconnected:
  assumes inv: "obs_inv n st" and "n < u64_max"
  shows "obs_inv (Suc n) (snd (reduce_disconnected now st p k i reason))"
proof (cases "calles_of k (counts_at st p) = 0")
  case True
  then show ?thesis
    using disconnected_eq [OF inv, of now p k i reason] assms inv_more [of n _ "Suc n"] by (simp add: obs_inv_def)
next
  case False
  let ?m = "os_metrics st" and ?c = "less_calles k (counts_at st p)"
  obtain counts where counts: "map_of (os_peers st) p = Some counts" "counts_at st p = counts"
    using False by (cases "map_of (os_peers st) p"; cases k) (auto simp: counts_at_def)
  have d: "distinct (map fst (os_peers st))" and sums: "\<And>k'. sum_calles k' (os_peers st) =
      (case k' of CallisPrimary \<Rightarrow> mc_current_primary_callis (ms_totals ?m) | CallisBlob \<Rightarrow> mc_current_blob_callis (ms_totals ?m))"
    using inv by (auto simp: obs_inv_def split: callis_kind.splits)
  have ge: "calles_of k counts \<le> sum_calles k (os_peers st)" by (rule sum_calles_ge [OF counts(1)])
  have m: "metrics_inv (Suc n) (count_disconnected k ?m)"
    using inv_count_disconnected [of n ?m k] assms(2) inv ge False counts(2) sums [of k] by (cases k) (auto simp: obs_inv_def)
  have current: "mc_current_primary_callis (ms_totals (count_disconnected k ?m)) = (if k = CallisPrimary then sum_calles CallisPrimary (os_peers st) - 1 else sum_calles CallisPrimary (os_peers st))"
    "mc_current_blob_callis (ms_totals (count_disconnected k ?m)) = (if k = CallisBlob then sum_calles CallisBlob (os_peers st) - 1 else sum_calles CallisBlob (os_peers st))"
    using sums [of CallisPrimary] sums [of CallisBlob] by (cases k; simp add: count_disconnected_def metric_steps)+
  have up: "sum_calles k' (AList.update p ?c (os_peers st)) = (if k' = k then sum_calles k' (os_peers st) - 1 else sum_calles k' (os_peers st))" for k'
    using sum_calles_update [OF d, of k' p ?c] counts False by (auto split: if_splits)
  have len: "length (AList.update p ?c (os_peers st)) = length (os_peers st)" "Suc (length (AList.delete p (os_peers st))) = length (os_peers st)"
    using arg_cong [where f = length, OF AList.update_keys, of p ?c "os_peers st"] counts(1) length_alist_delete [OF d]
    by (auto simp: weak_map_of_SomeI dest: map_of_SomeD split: if_splits intro: rev_image_eqI)
  have pos: "\<forall>x \<in> set (os_peers st). 0 < pn_primary (snd x) + pn_blob (snd x)" using inv by (simp add: obs_inv_def)
  show ?thesis
  proof (cases "pn_primary ?c + pn_blob ?c = 0")
    case True
    have none: "calles_of k' ?c = 0" for k' using True by (cases k') (simp_all del: calles_changed)
    have "sum_calles k' (AList.delete p (os_peers st)) = (if k' = k then sum_calles k' (os_peers st) - 1 else sum_calles k' (os_peers st))" for k'
      using sum_calles_delete [OF d, of k' p] counts none [of k'] False by (auto split: if_splits)
    moreover have "snd (reduce_disconnected now st p k i reason) =
        (on_metrics (peer_disconnected \<circ> count_disconnected k) st)\<lparr>os_peers := AList.delete p (os_peers st)\<rparr>"
      using True False disconnected_eq [OF inv, of now p k i reason] assms(2) by simp
    moreover have "length (AList.delete p (os_peers st)) = mc_current_peers (ms_totals ?m) - 1" using len(2) inv by (simp add: obs_inv_def)
    ultimately show ?thesis
      using current d pos m assms(2)
      by (auto simp: obs_inv_def on_metrics_def count_fields distinct_alist_delete set_alist_delete)
        (auto simp: metrics_inv_def peer_disconnected_def on_totals_def Let_def)
  next
    case positive: False
    then have "\<forall>x \<in> set (AList.update p ?c (os_peers st)). 0 < pn_primary (snd x) + pn_blob (snd x)"
      using pos update_mem [of _ _ p ?c "os_peers st"] by fastforce
    moreover have "snd (reduce_disconnected now st p k i reason) =
        (on_metrics (count_disconnected k) st)\<lparr>os_peers := AList.update p ?c (os_peers st)\<rparr>"
      using positive False disconnected_eq [OF inv, of now p k i reason] assms(2) by (auto simp: Let_def)
    ultimately show ?thesis
      using current d m up len(1) inv by (simp add: obs_inv_def on_metrics_def count_fields AList.distinct_update)
  qed
qed

lemma record_fields:
  assumes "f \<in> {record_dial_attempt, record_dial_failure, record_identity_mismatch, record_protocol_violation, record_outbound_queue_overrun tier}"
  shows "mc_current_peers (ms_totals (f m)) = mc_current_peers (ms_totals m)"
    "mc_current_primary_callis (ms_totals (f m)) = mc_current_primary_callis (ms_totals m)"
    "mc_current_blob_callis (ms_totals (f m)) = mc_current_blob_callis (ms_totals m)"
  using assms by (cases tier; auto simp: metric_steps Let_def)+

lemma obs_inv_step:
  assumes "obs_inv n st" and "n < u64_max"
  shows "obs_inv (Suc n) (obs_step sock st x)"
proof -
  have more: "obs_inv (Suc n) st" using assms inv_more [of n _ "Suc n"] by (simp add: obs_inv_def)
  have metrics: "obs_inv (Suc n) (on_metrics f st)"
    if "metrics_inv (Suc n) (f (os_metrics st))" "mc_current_peers (ms_totals (f (os_metrics st))) = mc_current_peers (ms_totals (os_metrics st))"
      "mc_current_primary_callis (ms_totals (f (os_metrics st))) = mc_current_primary_callis (ms_totals (os_metrics st))"
      "mc_current_blob_callis (ms_totals (f (os_metrics st))) = mc_current_blob_callis (ms_totals (os_metrics st))" for f
    using that assms(1) by (simp add: obs_inv_def on_metrics_def)
  have reported: "obs_inv m (snd (report_error s kind message)) = obs_inv m s" for m s kind message
    by (simp add: report_error_def record_error_def obs_inv_def Let_def)
  have m: "metrics_inv n (os_metrics st)" using assms(1) by (simp add: obs_inv_def)
  have recorded: "obs_inv (Suc n) (on_metrics record_dial_attempt st)" "obs_inv (Suc n) (on_metrics record_dial_failure st)"
    "obs_inv (Suc n) (on_metrics record_identity_mismatch st)" "obs_inv (Suc n) (on_metrics record_protocol_violation st)"
    "obs_inv (Suc n) (on_metrics (record_outbound_queue_overrun tier) st)" for tier
    by (rule metrics; simp add: inv_record [OF m assms(2)] record_fields [where tier = tier])+
  have reset: "obs_inv (Suc n) (st\<lparr>os_metrics := snd (metrics_snapshot_and_reset t (os_metrics st))\<rparr>)" for t
    using assms(1) inv_more [OF inv_record(6) [OF m assms(2), of t], of "Suc n"] by (simp add: obs_inv_def metrics_snapshot_and_reset_def Let_def)
  show ?thesis
    by (cases x; cases "snd x")
      (simp_all add: obs_step_def more recorded reported obs_inv_connected [OF assms] inv_disconnected [OF assms], simp add: reset split_beta)
qed

lemma obs_inv_new: "obs_inv 0 (observability_new t cap)"
  by (simp add: obs_inv_def observability_new_def metrics_inv_def metrics_new_def counters_default_def sum_calles_def)

text \<open>The state with the number of commands it has handled, a machine whose counters are exact until one of them could wrap.\<close>

definition tallied_step :: "(socket_addr \<Rightarrow> string) \<Rightarrow> nat \<times> observability_state \<Rightarrow> timed_command \<Rightarrow> nat \<times> observability_state" where
  "tallied_step sock s x = (Suc (fst s), obs_step sock (snd s) x)"

interpretation actor: op_machine "\<lambda>s. \<exists>t cap. s = (0, observability_new t cap)" "tallied_step sock"
    "\<lambda>s. fst s \<le> u64_max \<longrightarrow> obs_inv (fst s) (snd s)"
  by unfold_locales (auto simp: obs_inv_new tallied_step_def intro: obs_inv_step)

lemma tallied_run: "foldl (tallied_step sock) (n, st) xs = (n + length xs, foldl (obs_step sock) st xs)"
  by (induction xs arbitrary: n st) (simp_all add: tallied_step_def)

lemma obs_run_inv:
  assumes "length xs \<le> u64_max"
  shows "obs_inv (length xs) (foldl (obs_step sock) (observability_new t cap) xs)"
  using actor.invar_reachable [of "(0, observability_new t cap)" sock xs] assms by (auto simp: tallied_run)

section \<open>Runs of the actor\<close>

definition events_of :: "observability_effect list \<Rightarrow> reporting_event list" where
  "events_of effects = concat (map (\<lambda>eff. case eff of EffEvent e \<Rightarrow> [e] | _ \<Rightarrow> []) effects)"

definition errors_of :: "observability_effect list \<Rightarrow> seq_error list" where
  "errors_of effects = concat (map (\<lambda>eff. case eff of EffError e \<Rightarrow> [e] | _ \<Rightarrow> []) effects)"

definition replies_of :: "observability_effect list \<Rightarrow> (nat \<times> observability_reply) list" where
  "replies_of effects = concat (map (\<lambda>eff. case eff of EffReply reply x \<Rightarrow> [(reply, x)] | _ \<Rightarrow> []) effects)"

definition step_events :: "(socket_addr \<Rightarrow> string) \<Rightarrow> observability_state \<Rightarrow> timed_command \<Rightarrow> reporting_event list" where
  "step_events sock st x = events_of (fst (reduce_observability_command sock (fst x) st (snd x)))"

definition step_errors :: "(socket_addr \<Rightarrow> string) \<Rightarrow> observability_state \<Rightarrow> timed_command \<Rightarrow> seq_error list" where
  "step_errors sock st x = errors_of (fst (reduce_observability_command sock (fst x) st (snd x)))"

lemma effects_append [simp]:
  "events_of [] = []" "errors_of [] = []" "replies_of [] = []"
  "events_of (EffEvent e # effs) = e # events_of effs" "events_of (EffError r # effs) = events_of effs" "events_of (EffReply c x # effs) = events_of effs"
  "errors_of (EffEvent e # effs) = errors_of effs" "errors_of (EffError r # effs) = r # errors_of effs" "errors_of (EffReply c x # effs) = errors_of effs"
  "replies_of (EffEvent e # effs) = replies_of effs" "replies_of (EffError r # effs) = replies_of effs" "replies_of (EffReply c x # effs) = (c, x) # replies_of effs"
  by (simp_all add: events_of_def errors_of_def replies_of_def)

lemma events_of_append [simp]: "events_of (effs @ effs') = events_of effs @ events_of effs'"
  by (simp add: events_of_def)

lemma execute_effects:
  "foldl execute_observability_effect ob effs =
     ob\<lparr>ob_events := ob_events ob @ events_of effs, ob_errors := ob_errors ob @ errors_of effs, ob_replies := ob_replies ob @ replies_of effs\<rparr>"
proof (induction effs arbitrary: ob)
  case (Cons eff effs)
  then show ?case by (cases eff) simp_all
qed simp

text \<open>
  Whatever is emitted and asked for, in any order with the turns of the actor: \<open>xs\<close> are the commands handled so
  far with the clock during each.
\<close>

inductive observed :: "(socket_addr \<Rightarrow> string) \<Rightarrow> timed_command list \<Rightarrow> observability \<Rightarrow> bool" for sock where
  started: "observed sock [] (new_observability_with_capacities t error_capacity command_capacity)"
| emitted: "observed sock xs ob \<Longrightarrow> observed sock xs (obs_emit ob c)"
| requested: "observed sock xs ob \<Longrightarrow> reporting_send ob c = Some (Inr ob') \<Longrightarrow> observed sock xs ob'"
| handled: "observed sock xs ob \<Longrightarrow> ob_queue ob = c # rest \<Longrightarrow> ob_running ob \<Longrightarrow>
    observed sock (xs @ [(now, c)]) (run_observability sock now ob)"
| ended: "observed sock xs ob \<Longrightarrow> observed sock xs (ob\<lparr>ob_running := False\<rparr>)"

lemma outputs_over_snoc: "outputs_over step f s (xs @ [x]) = outputs_over step f s xs @ f (foldl step s xs) x"
  by (induction xs arbitrary: s) simp_all

definition follows :: "(socket_addr \<Rightarrow> string) \<Rightarrow> observability_state \<Rightarrow> timed_command list \<Rightarrow> observability \<Rightarrow> bool" where
  "follows sock st xs ob \<longleftrightarrow> ob_state ob = foldl (obs_step sock) st xs
     \<and> ob_events ob = outputs_over (obs_step sock) (step_events sock) st xs
     \<and> ob_errors ob = outputs_over (obs_step sock) (step_errors sock) st xs"

lemma follows_channel [simp]:
  "follows sock st xs (ob\<lparr>ob_queue := q\<rparr>) = follows sock st xs ob" "follows sock st xs (ob\<lparr>ob_running := r\<rparr>) = follows sock st xs ob"
  by (simp_all add: follows_def)

lemma observed_follows:
  "observed sock xs ob \<Longrightarrow> \<exists>t cap. 0 < cap \<and> follows sock (observability_new t cap) xs ob"
proof (induction rule: observed.induct)
  case (started t error_capacity command_capacity)
  have "follows sock (observability_new t (max error_capacity 1)) [] (new_observability_with_capacities t error_capacity command_capacity)"
    by (simp add: follows_def new_observability_with_capacities_def)
  moreover have "0 < max error_capacity (1::nat)" by simp
  ultimately show ?case by blast
next
  case (handled xs ob c rest now)
  obtain effs st where "reduce_observability_command sock now (ob_state ob) c = (effs, st)" by fastforce
  then have "follows sock s (xs @ [(now, c)]) (run_observability sock now ob)" if "follows sock s xs ob" for s
    using that handled.hyps
    by (simp add: follows_def run_observability_def execute_effects obs_step_def outputs_over_snoc step_events_def step_errors_def)
  with handled.IH show ?case by blast
qed (auto simp: obs_emit_def reporting_send_def split: if_splits, blast)

section \<open>What the metrics show\<close>

lemma live_update:
  "live_calles (st\<lparr>os_peers := AList.update p counts peers, os_metrics := m\<rparr>) = (live_calles (st\<lparr>os_peers := peers\<rparr>))(p := (\<lambda>k. calles_of k counts))"
  by (auto simp: live_calles_def fun_eq_iff AList.update_conv')

lemma live_counts: "live_calles st p = (\<lambda>k. calles_of k (counts_at st p))"
  by (auto simp: live_calles_def counts_at_def fun_eq_iff calles_of_def split: option.splits callis_kind.splits)

lemma live_frame [simp]: "live_calles (on_metrics f st) = live_calles st" "live_calles (snd (report_error st kind message)) = live_calles st"
  "live_calles (st\<lparr>os_metrics := m\<rparr>) = live_calles st"
  by (simp_all add: live_calles_def on_metrics_def report_error_def record_error_def fun_eq_iff Let_def)

lemma live_connected:
  assumes "obs_inv n st" and "n < u64_max"
  shows "live_calles (snd (reduce_connected now st p k i fresh settings)) = (live_calles st)(p := (live_calles st p)(k := Suc (live_calles st p k)))"
proof -
  have "live_calles (snd (reduce_connected now st p k i fresh settings)) q k' = ((live_calles st)(p := (live_calles st p)(k := Suc (live_calles st p k)))) q k'" for q k'
    unfolding connected_eq [OF assms] by (simp add: live_calles_def [of "_\<lparr>os_peers := _\<rparr>"] AList.update_conv' live_counts [of st p])
      (auto simp: live_calles_def on_metrics_def)
  then show ?thesis by blast
qed

lemma live_disconnected:
  assumes "obs_inv n st" and "n \<le> u64_max"
  shows "live_calles (snd (reduce_disconnected now st p k i reason)) = (live_calles st)(p := (live_calles st p)(k := live_calles st p k - 1))"
proof -
  let ?c = "less_calles k (counts_at st p)"
  have "live_calles (snd (reduce_disconnected now st p k i reason)) q k' = ((live_calles st)(p := (live_calles st p)(k := live_calles st p k - 1))) q k'" for q k'
  proof (cases "calles_of k (counts_at st p) = 0")
    case True
    with disconnected_eq [OF assms] show ?thesis by (simp add: live_counts [of st p])
  next
    case False
    have zero: "calles_of k' ?c = 0" if "pn_primary ?c + pn_blob ?c = 0" using that by (cases k') (simp_all del: calles_changed)
    show ?thesis
      using False zero unfolding disconnected_eq [OF assms]
      by (auto simp: Let_def live_calles_def [of "_\<lparr>os_peers := _\<rparr>"] AList.update_conv' AList.delete_conv' live_counts [of st p])
        (simp_all add: live_calles_def)
  qed
  then show ?thesis by blast
qed

lemma live_step:
  assumes "obs_inv n st" and "n < u64_max"
  shows "live_calles (obs_step sock st x) = live_after (live_calles st) (snd x)"
  by (cases "snd x") (simp_all add: obs_step_def live_connected [OF assms] live_disconnected [OF assms(1)] less_imp_le [OF assms(2)] split_beta)

lemma run_live:
  "length xs \<le> u64_max \<Longrightarrow>
   live_calles (foldl (obs_step sock) (observability_new t cap) xs) = foldl (\<lambda>f x. live_after f (snd x)) (\<lambda>p k. 0) xs"
proof (induction xs rule: rev_induct)
  case (snoc x xs)
  then show ?case using live_step [OF obs_run_inv [where xs = xs], where x = x] by simp
qed (simp add: observability_new_def live_calles_def fun_eq_iff)

lemma live_peers:
  assumes "obs_inv n st"
  shows "(\<exists>k. 0 < live_calles st p k) \<longleftrightarrow> map_of (os_peers st) p \<noteq> None" "dom (map_of (os_peers st)) = {p. \<exists>k. 0 < live_calles st p k}"
proof -
  have "(\<exists>k. 0 < calles_of k counts) \<longleftrightarrow> 0 < pn_primary counts + pn_blob counts" for counts
    by (metis add_gr_0 calles_of_simps callis_kind.exhaust)
  with assms show *: "(\<exists>k. 0 < live_calles st p k) \<longleftrightarrow> map_of (os_peers st) p \<noteq> None" for p
    by (cases "map_of (os_peers st) p") (fastforce simp: live_calles_def obs_inv_def dest: map_of_SomeD)+
  then show "dom (map_of (os_peers st)) = {p. \<exists>k. 0 < live_calles st p k}" by auto
qed

lemma all_connected:
  assumes "obs_inv n st" and "n \<le> u64_max"
  shows "filter (\<lambda>(peer, counts). counts_connected counts) (os_peers st) = os_peers st"
proof -
  have "counts_connected counts" if "(peer, counts) \<in> set (os_peers st)" for peer counts
    using connected_iff(1) [OF assms, of peer] map_of_is_SomeI [OF _ that] assms(1) by (simp add: obs_inv_def)
  then show ?thesis by (auto simp: filter_id_conv)
qed

lemma sum_calles_live:
  assumes "distinct (map fst (os_peers st))"
  shows "sum_calles k (os_peers st) = (\<Sum>p \<in> dom (map_of (os_peers st)). live_calles st p k)"
proof -
  have "sum_calles k (os_peers st) = (\<Sum>x \<in> set (os_peers st). calles_of k (snd x))"
    using assms by (simp add: sum_calles_def distinct_map sum_list_distinct_conv_sum_set)
  also have "\<dots> = (\<Sum>x \<in> set (os_peers st). live_calles st (fst x) k)"
    using assms by (intro sum.cong) (auto simp: live_calles_def map_of_is_SomeI)
  also have "\<dots> = (\<Sum>p \<in> fst ` set (os_peers st). live_calles st p k)"
    using assms by (simp add: sum.reindex distinct_map)
  finally show ?thesis by (simp add: dom_map_of_conv_image_fst)
qed

text \<open>What a list of commands tells: the calles that are up at each peer, the peers with one, and their number.\<close>

definition calles_told :: "timed_command list \<Rightarrow> domus_addr \<Rightarrow> callis_kind \<Rightarrow> nat" where
  "calles_told xs = foldl (\<lambda>f x. live_after f (snd x)) (\<lambda>p k. 0) xs"

definition peers_told :: "timed_command list \<Rightarrow> domus_addr set" where
  "peers_told xs = {p. \<exists>k. 0 < calles_told xs p k}"

definition up_told :: "callis_kind \<Rightarrow> timed_command list \<Rightarrow> nat" where
  "up_told k xs = (\<Sum>p \<in> peers_told xs. calles_told xs p k)"

fun opens_callis :: "callis_kind \<Rightarrow> observability_command \<Rightarrow> bool" where
  "opens_callis k (CmdPrimaryConnected p i fresh) = (k = CallisPrimary)"
| "opens_callis k (CmdBlobConnected p i settings) = (k = CallisBlob)"
| "opens_callis k c = False"

text \<open>The highest value that a gauge had after any of the commands, or before the first.\<close>

definition highest :: "(timed_command list \<Rightarrow> nat) \<Rightarrow> timed_command list \<Rightarrow> nat" where
  "highest gauge xs = Max ((\<lambda>i. gauge (take i xs)) ` {..length xs})"

lemma highest_simps:
  "highest gauge [] = gauge []" "highest gauge (xs @ [x]) = max (highest gauge xs) (gauge (xs @ [x]))"
proof -
  have "(\<lambda>i. gauge (take i (xs @ [x]))) ` {..length xs} = (\<lambda>i. gauge (take i xs)) ` {..length xs}" by (intro image_cong) simp_all
  then show "highest gauge (xs @ [x]) = max (highest gauge xs) (gauge (xs @ [x]))"
    by (simp add: highest_def atMost_Suc max.commute)
qed (simp add: highest_def)

abbreviation totals :: "observability_state \<Rightarrow> metrics_counters" where
  "totals st \<equiv> ms_totals (os_metrics st)"

lemma run_gauges:
  assumes "obs_inv n st" and "live_calles st = calles_told xs"
  shows "mc_current_peers (totals st) = card (peers_told xs)"
    "mc_current_primary_callis (totals st) = up_told CallisPrimary xs" "mc_current_blob_callis (totals st) = up_told CallisBlob xs"
    "set (map fst (os_peers st)) = peers_told xs"
proof -
  have d: "distinct (map fst (os_peers st))" using assms(1) by (simp add: obs_inv_def)
  have up: "dom (map_of (os_peers st)) = peers_told xs" using live_peers(2) [OF assms(1)] by (simp add: assms(2) peers_told_def)
  then show keys: "set (map fst (os_peers st)) = peers_told xs" by (simp add: dom_map_of_conv_image_fst)
  show "mc_current_peers (totals st) = card (peers_told xs)"
    using assms(1) distinct_card [OF d] unfolding keys by (simp add: obs_inv_def)
  have "sum_calles k (os_peers st) = up_told k xs" for k using sum_calles_live [OF d, of k] by (simp add: assms(2) up up_told_def)
  then show "mc_current_primary_callis (totals st) = up_told CallisPrimary xs" "mc_current_blob_callis (totals st) = up_told CallisBlob xs"
    using assms(1) by (simp_all add: obs_inv_def)
qed

text \<open>One command: a peak follows its gauge upwards, and the opened calles are counted.\<close>

definition counted_by :: "metrics_counters \<Rightarrow> metrics_counters \<Rightarrow> observability_command \<Rightarrow> bool" where
  "counted_by t t' c \<longleftrightarrow>
     mc_peak_peers t' = max (mc_peak_peers t) (mc_current_peers t')
     \<and> mc_peak_primary_callis t' = max (mc_peak_primary_callis t) (mc_current_primary_callis t')
     \<and> mc_peak_blob_callis t' = max (mc_peak_blob_callis t) (mc_current_blob_callis t')
     \<and> mc_total_primary_opened t' = mc_total_primary_opened t + of_bool (opens_callis CallisPrimary c)
     \<and> mc_total_blob_opened t' = mc_total_blob_opened t + of_bool (opens_callis CallisBlob c)"

lemma counted_connected:
  assumes "obs_inv n st" and "n < u64_max"
  shows "opens_callis k c \<Longrightarrow> \<not> (opens_callis CallisPrimary c \<and> opens_callis CallisBlob c) \<Longrightarrow>
    counted_by (totals st) (totals (snd (reduce_connected now st p k i fresh settings))) c"
  using assms peers_bounded [OF assms(1)] unfolding connected_eq [OF assms]
  by (cases k) (auto simp: counted_by_def obs_inv_def metrics_inv_def count_connected_def metric_steps u64_plus_exact Let_def)

lemma counted_disconnected:
  assumes "obs_inv n st" and "n < u64_max"
  shows "\<not> opens_callis CallisPrimary c \<Longrightarrow> \<not> opens_callis CallisBlob c \<Longrightarrow>
    counted_by (totals st) (totals (snd (reduce_disconnected now st p k i reason))) c"
  using assms unfolding disconnected_eq [OF assms(1) less_imp_le [OF assms(2)]]
  by (cases k) (auto simp: counted_by_def obs_inv_def metrics_inv_def count_disconnected_def metric_steps Let_def)

lemma counted_command:
  assumes "obs_inv n st" and "n < u64_max"
  shows "counted_by (totals st) (totals (obs_step sock st x)) (snd x)"
proof (cases "snd x")
  case (CmdOutboundQueueOverrun p tier limit t)
  with assms show ?thesis
    by (cases tier) (simp_all add: obs_step_def counted_by_def obs_inv_def metrics_inv_def metric_steps Let_def)
next
  case (CmdPrimaryConnected p i fresh)
  with counted_connected [OF assms, of CallisPrimary "snd x"] show ?thesis by (simp add: obs_step_def)
next
  case (CmdBlobConnected p i settings)
  with counted_connected [OF assms, of CallisBlob "snd x"] show ?thesis by (simp add: obs_step_def)
next
  case (CmdPrimaryDisconnected p i reason)
  with counted_disconnected [OF assms, of "snd x"] show ?thesis by (simp add: obs_step_def)
next
  case (CmdBlobDisconnected p i reason)
  with counted_disconnected [OF assms, of "snd x"] show ?thesis by (simp add: obs_step_def)
qed (use assms in \<open>simp_all add: obs_step_def counted_by_def obs_inv_def metrics_inv_def metric_steps report_error_def record_error_def
    metrics_snapshot_and_reset_def Let_def split_beta\<close>)

lemma run_counts:
  "length xs \<le> u64_max \<Longrightarrow> st = foldl (obs_step sock) (observability_new t cap) xs \<Longrightarrow>
   mc_peak_peers (totals st) = highest (\<lambda>xs. card (peers_told xs)) xs
   \<and> mc_peak_primary_callis (totals st) = highest (up_told CallisPrimary) xs
   \<and> mc_peak_blob_callis (totals st) = highest (up_told CallisBlob) xs
   \<and> mc_total_primary_opened (totals st) = length (filter (opens_callis CallisPrimary \<circ> snd) xs)
   \<and> mc_total_blob_opened (totals st) = length (filter (opens_callis CallisBlob \<circ> snd) xs)"
proof (induction xs arbitrary: st rule: rev_induct)
  case Nil
  then show ?case
    by (simp add: highest_simps observability_new_def metrics_new_def counters_default_def peers_told_def up_told_def calles_told_def)
next
  case (snoc x xs)
  let ?st = "foldl (obs_step sock) (observability_new t cap) xs"
  have small: "length xs < u64_max" using snoc.prems(1) by simp
  have inv: "obs_inv (length xs) ?st" by (rule obs_run_inv) (use small in simp)
  have inv': "obs_inv (length (xs @ [x])) st" unfolding snoc.prems(2) by (rule obs_run_inv [OF snoc.prems(1)])
  have live: "live_calles st = calles_told (xs @ [x])" unfolding snoc.prems(2) calles_told_def by (rule run_live [OF snoc.prems(1)])
  have st: "st = obs_step sock ?st x" using snoc.prems(2) by simp
  from counted_command [OF inv small, of sock x] snoc.IH [OF less_imp_le [OF small] refl] run_gauges(1-3) [OF inv' live]
  show ?case unfolding counted_by_def highest_simps(2) st [symmetric] by simp
qed

text \<open>
  C25. The metrics and the reports show what the commands tell. After any commands the actor has handled, fewer than
  would wrap a counter: the peers it lists are exactly those with a callis, each once and with its numbers of
  calles; the gauges are the numbers of peers and of calles that are up; as many calles are counted as opened as
  there were commands that report one, and as closed those of them that are not up any more; and each peak is the
  highest value that its gauge had after any of the commands. A report of a callis that was never up is ignored.
\<close>

theorem metrics_follow_calles:
  assumes "observed sock xs ob" and "length xs \<le> u64_max"
    and snap: "snap = metrics_snapshot now (os_metrics (ob_state ob))"
  shows "distinct (connected_peer_identities (ob_state ob)) \<and> set (connected_peer_identities (ob_state ob)) = peers_told xs
    \<and> set (connected_peer_reports (ob_state ob)) =
        (\<lambda>p. \<lparr>pi_peer = p, pi_primary_callis_count = calles_told xs p CallisPrimary, pi_blob_callis_count = calles_told xs p CallisBlob\<rparr>) ` peers_told xs
    \<and> mc_current_peers snap = card (peers_told xs)
    \<and> mc_current_primary_callis snap = up_told CallisPrimary xs \<and> mc_current_blob_callis snap = up_told CallisBlob xs
    \<and> mc_total_primary_opened snap = length (filter (opens_callis CallisPrimary \<circ> snd) xs)
    \<and> mc_total_blob_opened snap = length (filter (opens_callis CallisBlob \<circ> snd) xs)
    \<and> mc_total_primary_closed snap + up_told CallisPrimary xs = mc_total_primary_opened snap
    \<and> mc_total_blob_closed snap + up_told CallisBlob xs = mc_total_blob_opened snap
    \<and> mc_peak_peers snap = highest (\<lambda>xs. card (peers_told xs)) xs
    \<and> mc_peak_primary_callis snap = highest (up_told CallisPrimary) xs \<and> mc_peak_blob_callis snap = highest (up_told CallisBlob) xs"
proof -
  let ?st = "ob_state ob"
  obtain t cap where st: "?st = foldl (obs_step sock) (observability_new t cap) xs"
    using observed_follows [OF assms(1)] by (auto simp: follows_def)
  have inv: "obs_inv (length xs) ?st" unfolding st by (rule obs_run_inv [OF assms(2)])
  have l: "live_calles ?st = calles_told xs" unfolding st calles_told_def by (rule run_live [OF assms(2)])
  have d: "distinct (map fst (os_peers ?st))" using inv by (simp add: obs_inv_def)
  note gauges = run_gauges [OF inv l] and counts = run_counts [OF assms(2) st]
  have reports: "connected_peer_reports ?st =
      map (\<lambda>p. \<lparr>pi_peer = p, pi_primary_callis_count = calles_told xs p CallisPrimary, pi_blob_callis_count = calles_told xs p CallisBlob\<rparr>) (map fst (os_peers ?st))"
    using d unfolding connected_peer_reports_def all_connected [OF inv assms(2)] l [symmetric]
    by (auto simp: live_calles_def map_of_is_SomeI)
  have ids: "connected_peer_identities ?st = map fst (os_peers ?st)"
    by (simp add: connected_peer_identities_def all_connected [OF inv assms(2)])
  have reported: "set (connected_peer_reports ?st) =
        (\<lambda>p. \<lparr>pi_peer = p, pi_primary_callis_count = calles_told xs p CallisPrimary, pi_blob_callis_count = calles_told xs p CallisBlob\<rparr>) ` peers_told xs"
    unfolding reports list.set_map gauges(4) [unfolded list.set_map] by (rule refl)
  have closed: "mc_total_primary_opened (totals ?st) = mc_total_primary_closed (totals ?st) + mc_current_primary_callis (totals ?st)"
    "mc_total_blob_opened (totals ?st) = mc_total_blob_closed (totals ?st) + mc_current_blob_callis (totals ?st)"
    using inv by (simp_all add: obs_inv_def metrics_inv_def Let_def)
  have same: "mc_current_peers snap = mc_current_peers (totals ?st)" "mc_current_primary_callis snap = mc_current_primary_callis (totals ?st)"
    "mc_current_blob_callis snap = mc_current_blob_callis (totals ?st)" "mc_total_primary_opened snap = mc_total_primary_opened (totals ?st)"
    "mc_total_blob_opened snap = mc_total_blob_opened (totals ?st)" "mc_total_primary_closed snap = mc_total_primary_closed (totals ?st)"
    "mc_total_blob_closed snap = mc_total_blob_closed (totals ?st)" "mc_peak_peers snap = mc_peak_peers (totals ?st)"
    "mc_peak_primary_callis snap = mc_peak_primary_callis (totals ?st)" "mc_peak_blob_callis snap = mc_peak_blob_callis (totals ?st)"
    by (simp_all add: snap metrics_snapshot_def Let_def)
  show ?thesis
    unfolding same using ids d gauges counts reported closed by simp
qed

section \<open>The stream of events\<close>

text \<open>Whether a peer is connected after some events; \<open>None\<close> if two of the same kind follow each other.\<close>

fun presence :: "domus_addr \<Rightarrow> bool \<Rightarrow> reporting_event list \<Rightarrow> bool option" where
  "presence p b [] = Some b"
| "presence p b (e # es) =
     (case e of
        EvPeerConnected _ q _ \<Rightarrow> if q = p then if b then None else presence p True es else presence p b es
      | EvPeerDisconnected _ q _ \<Rightarrow> if q = p then if b then presence p False es else None else presence p b es
      | _ \<Rightarrow> presence p b es)"

lemma presence_append: "presence p b (es @ es') = (case presence p b es of None \<Rightarrow> None | Some b' \<Rightarrow> presence p b' es')"
  by (induction es arbitrary: b) (auto split: reporting_event.splits)

lemma connected_presence:
  assumes "obs_inv n st" and "n < u64_max"
  shows "presence q (map_of (os_peers st) q \<noteq> None) (events_of (fst (reduce_connected now st p k i fresh settings)))
    = Some (map_of (os_peers (snd (reduce_connected now st p k i fresh settings))) q \<noteq> None)"
proof -
  have "presence q b (events_of (fst (reduce_connected now st p k i fresh settings))) =
      (if map_of (os_peers st) p = None \<and> q = p then if b then None else Some True else Some b)" for b
    using connected_iff(1) [OF assms(1), of p] assms(2)
    by (cases "map_of (os_peers st) p"; cases k) (auto simp: reduce_connected_def Let_def split: option.splits)
  then show ?thesis unfolding connected_eq [OF assms] by (auto simp: AList.update_conv')
qed

lemma disconnected_presence:
  assumes "obs_inv n st" and "n \<le> u64_max"
  shows "presence q (map_of (os_peers st) q \<noteq> None) (events_of (fst (reduce_disconnected now st p k i reason)))
    = Some (map_of (os_peers (snd (reduce_disconnected now st p k i reason))) q \<noteq> None)"
proof (cases "map_of (os_peers st) p")
  case None
  then show ?thesis by (simp add: reduce_disconnected_def)
next
  case (Some counts)
  with connected_iff(1) [OF assms Some] show ?thesis
    by (cases k) (auto simp: reduce_disconnected_def on_metrics_def AList.update_conv' AList.delete_conv' Let_def)
qed

lemma step_presence:
  assumes "obs_inv n st" and "n < u64_max"
  shows "presence q (map_of (os_peers st) q \<noteq> None) (step_events sock st x) = Some (map_of (os_peers (obs_step sock st x)) q \<noteq> None)"
  using connected_presence [OF assms, of q] disconnected_presence [OF assms(1), of q] assms(2)
  by (cases "snd x") (simp_all add: step_events_def obs_step_def report_error_def record_error_def on_metrics_def split_beta Let_def)

text \<open>
  A subscriber who follows the events knows who is connected: for each peer the events of connecting and disconnecting
  alternate, beginning with a connection, and the last one tells whether the peer is among those the report
  lists.
\<close>

theorem events_tell_presence:
  assumes "observed sock xs ob" and "length xs \<le> u64_max"
  shows "presence p False (ob_events ob) = Some (p \<in> set (connected_peer_identities (ob_state ob)))"
proof -
  obtain t cap where f: "follows sock (observability_new t cap) xs ob" using observed_follows [OF assms(1)] by blast
  let ?run = "\<lambda>xs. foldl (obs_step sock) (observability_new t cap) xs"
  have "presence p False (outputs_over (obs_step sock) (step_events sock) (observability_new t cap) xs) = Some (map_of (os_peers (?run xs)) p \<noteq> None)"
    using assms(2)
  proof (induction xs rule: rev_induct)
    case (snoc x xs)
    then show ?case using step_presence [OF obs_run_inv [where xs = xs], where x = x and q = p] by (simp add: outputs_over_snoc presence_append)
  qed (simp add: observability_new_def)
  moreover have "p \<in> set (connected_peer_identities (?run xs)) \<longleftrightarrow> map_of (os_peers (?run xs)) p \<noteq> None"
    unfolding connected_peer_identities_def all_connected [OF obs_run_inv [OF assms(2)] assms(2)] by (simp add: map_of_eq_None_iff)
  ultimately show ?thesis using f by (simp add: follows_def)
qed

section \<open>The stream of errors\<close>

lemma collect_errors_eq:
  "length collected < limit \<Longrightarrow> collect_errors errs seq limit collected = take limit (collected @ filter (\<lambda>e. seq < fst e) errs)"
  by (induction errs arbitrary: collected) (auto simp: Let_def not_le take_Cons')

lemma errors_since_eq: "errors_since st seq limit = take limit (filter (\<lambda>e. seq < fst e) (os_errors st))"
  by (simp add: errors_since_def collect_errors_eq)

definition error_log :: "seq_error list \<Rightarrow> observability_state \<Rightarrow> bool" where
  "error_log log st \<longleftrightarrow> map fst log = [1..<Suc (length log)] \<and> os_next_seq st = length log
     \<and> os_errors st = drop (length log - os_error_capacity st) log \<and> 0 < os_error_capacity st"

lemma error_log_frame:
  "error_log log (on_metrics f st) = error_log log st" "error_log log (st\<lparr>os_metrics := m\<rparr>) = error_log log st"
  "error_log log (snd (reduce_connected now st p k i fresh settings)) = error_log log st"
  "error_log log (snd (reduce_disconnected now st p k i reason)) = error_log log st"
  by (cases k; simp add: error_log_def on_metrics_def reduce_connected_def reduce_disconnected_def Let_def split: option.splits)+

lemma error_log_record:
  assumes "error_log log st" and "length log < u64_max"
  shows "error_log (log @ errors_of (fst (report_error st kind message))) (snd (report_error st kind message))"
proof -
  have "drop (Suc (length log) - os_error_capacity st) (log @ [e]) =
      (if length (os_errors st) = os_error_capacity st then tl (os_errors st) else os_errors st) @ [e]" for e
    using assms(1) by (auto simp: error_log_def drop_Suc tl_drop Suc_diff_le)
  with assms show ?thesis by (simp add: error_log_def report_error_def record_error_def u64_plus_exact Let_def)
qed

lemma error_log_step:
  assumes "error_log log st" and "length log < u64_max"
  shows "error_log (log @ step_errors sock st x) (obs_step sock st x)" "length (step_errors sock st x) \<le> 1"
proof -
  have none: "errors_of (fst (reduce_connected now st p k i fresh settings)) = []" "errors_of (fst (reduce_disconnected now st p k i reason)) = []"
    for now p k i fresh settings reason
    by (cases k; auto simp: reduce_connected_def reduce_disconnected_def errors_of_def Let_def split: option.splits)+
  have "error_log log (on_metrics f st)" for f using assms(1) by (simp add: error_log_frame)
  note logged = error_log_record [OF this assms(2)] error_log_record [OF assms]
  show "error_log (log @ step_errors sock st x) (obs_step sock st x)"
    using assms(1) by (cases "snd x") (simp_all add: step_errors_def obs_step_def logged none error_log_frame split_beta)
  show "length (step_errors sock st x) \<le> 1"
    by (cases "snd x") (simp_all add: step_errors_def none report_error_def split_beta)
qed

lemma run_errors:
  assumes "length xs \<le> u64_max" and "0 < cap"
  shows "error_log (outputs_over (obs_step sock) (step_errors sock) (observability_new t cap) xs) (foldl (obs_step sock) (observability_new t cap) xs)
    \<and> length (outputs_over (obs_step sock) (step_errors sock) (observability_new t cap) xs) \<le> length xs"
  using assms
proof (induction xs rule: rev_induct)
  case (snoc x xs)
  let ?log = "outputs_over (obs_step sock) (step_errors sock) (observability_new t cap) xs"
  let ?st = "foldl (obs_step sock) (observability_new t cap) xs"
  have log: "error_log ?log ?st" "length ?log \<le> length xs" using snoc by auto
  then have "length ?log < u64_max" using snoc.prems(1) by simp
  with error_log_step [OF log(1), where sock = sock and x = x] log(2) show ?case by (simp add: outputs_over_snoc)
qed (simp add: error_log_def observability_new_def)

lemma numbered_after: "map fst log = [1..<Suc (length log)] \<Longrightarrow> filter (\<lambda>e. seq < fst e) (drop n log) = drop (max seq n) log"
proof (induction log rule: rev_induct)
  case (snoc e log)
  then have "fst e = Suc (length log)" "map fst log = [1..<Suc (length log)]" by (simp_all add: upt_Suc_append)
  with snoc.IH show ?case by (auto simp: max_def drop_Cons')
qed simp

text \<open>
  A reader that missed errors catches up. The errors sent on the stream are numbered from one without gaps, and a
  reader that saw the errors up to number \<open>seq\<close> and asks for up to \<open>limit\<close> more is given exactly the next
  ones of the stream, in order, except for those that are no longer among the last \<open>error_capacity\<close>.
\<close>

theorem errors_catch_up:
  assumes "observed sock xs ob" and "length xs \<le> u64_max"
  shows "map fst (ob_errors ob) = [1..<Suc (length (ob_errors ob))]
    \<and> errors_since (ob_state ob) seq limit =
        take limit (drop (max seq (length (ob_errors ob) - os_error_capacity (ob_state ob))) (ob_errors ob))
    \<and> 0 < os_error_capacity (ob_state ob)"
proof -
  obtain t cap where "0 < cap" "follows sock (observability_new t cap) xs ob" using observed_follows [OF assms(1)] by blast
  with run_errors [OF assms(2)] have "error_log (ob_errors ob) (ob_state ob)" by (simp add: follows_def)
  then show ?thesis by (simp add: error_log_def errors_since_eq numbered_after)
qed

section \<open>Interval reports\<close>

text \<open>The counters of a report that only grow, each with the commands it counts.\<close>

definition tallies :: "((metrics_counters \<Rightarrow> nat) \<times> (observability_command \<Rightarrow> bool)) list" where
  "tallies =
     [(mc_total_primary_opened, \<lambda>c. case c of CmdPrimaryConnected _ _ _ \<Rightarrow> True | _ \<Rightarrow> False),
      (mc_total_blob_opened, \<lambda>c. case c of CmdBlobConnected _ _ _ \<Rightarrow> True | _ \<Rightarrow> False),
      (mc_total_dial_attempts, \<lambda>c. case c of CmdDialAttempt \<Rightarrow> True | _ \<Rightarrow> False),
      (mc_total_dial_failures, \<lambda>c. case c of CmdDialFailed _ _ _ \<Rightarrow> True | _ \<Rightarrow> False),
      (mc_total_identity_mismatch, \<lambda>c. case c of CmdIdentityMismatch _ _ _ \<Rightarrow> True | _ \<Rightarrow> False),
      (mc_total_protocol_violation, \<lambda>c. case c of CmdProtocolViolation _ _ \<Rightarrow> True | _ \<Rightarrow> False),
      (mc_total_outbound_queue_overruns, \<lambda>c. case c of CmdOutboundQueueOverrun _ _ _ _ \<Rightarrow> True | _ \<Rightarrow> False),
      (mc_total_a1_queue_overruns, \<lambda>c. case c of CmdOutboundQueueOverrun _ ReportA1 _ _ \<Rightarrow> True | _ \<Rightarrow> False),
      (mc_total_a2_queue_overruns, \<lambda>c. case c of CmdOutboundQueueOverrun _ ReportA2 _ _ \<Rightarrow> True | _ \<Rightarrow> False),
      (mc_total_a3_queue_overruns, \<lambda>c. case c of CmdOutboundQueueOverrun _ ReportA3 _ _ \<Rightarrow> True | _ \<Rightarrow> False)]"

lemma tally_counts:
  assumes "(sel, P) \<in> set tallies"
  shows "sel (ms_totals (peer_connected m)) = sel (ms_totals m)" "sel (ms_totals (peer_disconnected m)) = sel (ms_totals m)"
    "sel (ms_totals (count_disconnected k m)) = sel (ms_totals m)" "sel (ms_totals (snd (metrics_snapshot_and_reset t m))) = sel (ms_totals m)"
  using assms unfolding tallies_def
  by (cases k; auto simp: count_disconnected_def metric_steps metrics_snapshot_and_reset_def Let_def)+

lemma tally_small: "(sel, P) \<in> set tallies \<Longrightarrow> metrics_inv n m \<Longrightarrow> n < u64_max \<Longrightarrow> sel (ms_totals m) < u64_max"
  by (auto simp: tallies_def metrics_inv_def Let_def)

lemma u64_succ: "a < u64_max \<Longrightarrow> u64_plus a (Suc 0) = Suc a"
  by (simp add: u64_plus_def)

lemma tally_connected:
  assumes "(sel, P) \<in> set tallies" and "metrics_inv n m" and "n < u64_max"
  shows "sel (ms_totals (count_connected CallisPrimary m)) = sel (ms_totals m) + (if P (CmdPrimaryConnected p i fresh) then 1 else 0)"
    "sel (ms_totals (count_connected CallisBlob m)) = sel (ms_totals m) + (if P (CmdBlobConnected p i settings) then 1 else 0)"
    "sel (ms_totals (record_dial_attempt m)) = sel (ms_totals m) + (if P CmdDialAttempt then 1 else 0)"
    "sel (ms_totals (record_dial_failure m)) = sel (ms_totals m) + (if P (CmdDialFailed p c e) then 1 else 0)"
    "sel (ms_totals (record_identity_mismatch m)) = sel (ms_totals m) + (if P (CmdIdentityMismatch p q r) then 1 else 0)"
    "sel (ms_totals (record_protocol_violation m)) = sel (ms_totals m) + (if P (CmdProtocolViolation p e) then 1 else 0)"
    "sel (ms_totals (record_outbound_queue_overrun tier m)) = sel (ms_totals m) + (if P (CmdOutboundQueueOverrun p tier l ty) then 1 else 0)"
  using assms(1) tally_small [OF assms] unfolding tallies_def set_simps
  by (elim insertE emptyE; cases tier; simp add: count_connected_def metric_steps u64_succ Let_def)+

lemma tally_none:
  assumes "(sel, P) \<in> set tallies"
  shows "\<not> P (CmdPrimaryDisconnected p i reason)" "\<not> P (CmdBlobDisconnected p i reason)" "\<not> P (CmdBackpressureTriggered p taberna)"
    "\<not> P (CmdAddressMismatch p e)" "\<not> P (CmdHandshakeTimeout p phase)" "\<not> P (CmdListenerFailure p e)" "\<not> P (CmdBackendFailure p e)"
    "\<not> P CmdAuthReloaded" "\<not> P CmdConfigReloaded" "\<not> P CmdShutdownStarted" "\<not> P CmdShutdownComplete" "\<not> P (CmdSnapshot c)"
    "\<not> P (CmdSnapshotAndReset c)" "\<not> P (CmdConnectedPeerIdentities c)" "\<not> P (CmdConnectedPeers c)" "\<not> P (CmdErrorsSince seq limit c)"
  using assms by (auto simp: tallies_def)

lemma tally_step:
  assumes "(sel, P) \<in> set tallies" and inv: "obs_inv n st" and "n < u64_max"
  shows "sel (ms_totals (os_metrics (obs_step sock st x))) = sel (ms_totals (os_metrics st)) + (if P (snd x) then 1 else 0)"
proof -
  have m: "metrics_inv n (os_metrics st)" using inv by (simp add: obs_inv_def)
  note up = tally_connected [OF assms(1) m assms(3)] and same = tally_counts [OF assms(1)] and none = tally_none [OF assms(1)]
  have d: "sel (ms_totals (os_metrics (snd (reduce_disconnected now st p k i reason)))) = sel (ms_totals (os_metrics st))" for now p k i reason
    using disconnected_eq [OF inv, of now p k i reason] assms(3) by (simp add: same on_metrics_def Let_def)
  have c: "sel (ms_totals (os_metrics (snd (reduce_connected now st p k i fresh settings)))) = sel (ms_totals (count_connected k (os_metrics st)))"
    for now p k i fresh settings
    using connected_eq [OF inv assms(3), of now p k i fresh settings] by (simp add: same on_metrics_def)
  have r: "os_metrics (snd (report_error s kind message)) = os_metrics s" for s kind message
    by (simp add: report_error_def record_error_def Let_def)
  show ?thesis
    by (cases "snd x") (simp_all only: obs_step_def reduce_observability_command.simps c d r up none, simp_all add: on_metrics_def up none same split_beta)
qed

lemma baseline_step:
  assumes "\<forall>reply. snd x \<noteq> CmdSnapshotAndReset reply"
  shows "ms_baseline (os_metrics (obs_step sock st x)) = ms_baseline (os_metrics st)"
proof -
  have same: "ms_baseline (os_metrics (snd (reduce_connected now st p k i fresh settings))) = ms_baseline (os_metrics st)"
    "ms_baseline (os_metrics (snd (reduce_disconnected now st p k i reason))) = ms_baseline (os_metrics st)" for now p k i fresh settings reason
    by (cases k; auto simp: reduce_connected_def reduce_disconnected_def metric_steps Let_def split: option.splits)+
  show ?thesis
    using assms by (cases "snd x") (simp_all add: obs_step_def same, simp_all add: metric_steps report_error_def record_error_def Let_def)
qed

lemma run_since:
  assumes "(sel, P) \<in> set tallies" and "obs_inv n st" and "n + length ys \<le> u64_max" and "\<forall>x \<in> set ys. \<forall>reply. snd x \<noteq> CmdSnapshotAndReset reply"
  shows "sel (ms_totals (os_metrics (foldl (obs_step sock) st ys))) = sel (ms_totals (os_metrics st)) + length (filter P (map snd ys))"
    "ms_baseline (os_metrics (foldl (obs_step sock) st ys)) = ms_baseline (os_metrics st)"
  using assms(2-4)
proof (induction ys arbitrary: n st)
  case (Cons y ys)
  {
    case 1
    then have "obs_inv (Suc n) (obs_step sock st y)" "n < u64_max" using obs_inv_step by auto
    with Cons.IH(1) [of "Suc n" "obs_step sock st y"] 1 tally_step [OF assms(1) 1(1)] show ?case by simp
  next
    case 2
    then have "obs_inv (Suc n) (obs_step sock st y)" using obs_inv_step by auto
    with Cons.IH(2) [of "Suc n" "obs_step sock st y"] 2 baseline_step [of y sock st] show ?case by simp
  }
qed simp_all

text \<open>
  An interval report counts its interval: between two resets each growing counter of the second report is the number of
  commands of its kind that were handled between the two, whatever was counted before.
\<close>

theorem interval_report_counts:
  assumes "(sel, P) \<in> set tallies" and "length xs + length ys < u64_max"
    and "\<forall>x \<in> set ys. \<forall>reply. snd x \<noteq> CmdSnapshotAndReset reply"
    and st: "st = foldl (obs_step sock) (observability_new t cap) (xs @ (now0, CmdSnapshotAndReset r0) # ys)"
    and "fst (reduce_observability_command sock now st (CmdSnapshotAndReset r)) = [EffReply r (ReplyDelta d)]"
  shows "sel (metrics_counters.truncate d) = length (filter P (map snd ys))"
proof -
  define st0 where "st0 = foldl (obs_step sock) (observability_new t cap) (xs @ [(now0, CmdSnapshotAndReset r0)])"
  have inv: "obs_inv (Suc (length xs)) st0"
    unfolding st0_def using obs_run_inv [of "xs @ [(now0, CmdSnapshotAndReset r0)]" sock t cap] assms(2) by simp
  have base: "ms_baseline (os_metrics st0) = ms_totals (os_metrics st0)"
    by (simp add: st0_def obs_step_def metrics_snapshot_and_reset_def Let_def)
  have "st = foldl (obs_step sock) st0 ys" using st by (simp add: st0_def)
  then have "sel (ms_totals (os_metrics st)) = sel (ms_baseline (os_metrics st)) + length (filter P (map snd ys))"
    using run_since [OF assms(1) inv, of ys sock] assms(2,3) base by simp
  moreover have "sel (metrics_counters.truncate d) = sel (ms_totals (os_metrics st)) - sel (ms_baseline (os_metrics st))"
    using assms(1,5) by (auto simp: tallies_def metrics_snapshot_and_reset_def metrics_counters.defs Let_def)
  ultimately show ?thesis by simp
qed

section \<open>Samples\<close>

definition sample_sock :: "socket_addr \<Rightarrow> string" where
  "sample_sock addr = ''host''"

definition sample_obs :: observability where
  "sample_obs = run_observability sample_sock (\<lambda>k. 7 + k)
     (run_observability sample_sock (\<lambda>k. 5 + k)
       (obs_protocol_violation (obs_primary_connected (new_observability_with_capacities 1 3 4) (AddrSocket ''a'') 9 False)
         (AddrSocket ''b'') ProtocolViolation))"

lemma sample_observed:
  "observed sample_sock [(\<lambda>k. 5 + k, CmdPrimaryConnected (AddrSocket ''a'') 9 False), (\<lambda>k. 7 + k, CmdProtocolViolation (AddrSocket ''b'') ProtocolViolation)] sample_obs"
proof -
  define ob where "ob = obs_protocol_violation (obs_primary_connected (new_observability_with_capacities 1 3 4) (AddrSocket ''a'') 9 False) (AddrSocket ''b'') ProtocolViolation"
  have start: "observed sample_sock [] ob"
    unfolding ob_def obs_protocol_violation_def obs_primary_connected_def by (intro observed.intros)
  have q: "ob_queue ob = [CmdPrimaryConnected (AddrSocket ''a'') 9 False, CmdProtocolViolation (AddrSocket ''b'') ProtocolViolation]" "ob_running ob"
    by (simp_all add: ob_def obs_protocol_violation_def obs_primary_connected_def obs_emit_def new_observability_with_capacities_def)
  then have q1: "ob_queue (run_observability sample_sock now ob) = [CmdProtocolViolation (AddrSocket ''b'') ProtocolViolation]"
    "ob_running (run_observability sample_sock now ob)" for now
    by (simp_all add: run_observability_def execute_effects split_beta)
  from observed.handled [OF observed.handled [OF start q] q1] show ?thesis by (simp add: sample_obs_def ob_def)
qed

lemma sample_state:
  "os_peers (ob_state sample_obs) = [(AddrSocket ''a'', \<lparr>pn_primary = 1, pn_blob = 0\<rparr>)]"
  "ob_errors sample_obs = [(1, with_message ProtocolViolation ''peer=unix://b'')]"
  "ob_events sample_obs = [EvPeerConnected 5 (AddrSocket ''a'') False, EvPrimaryCallisConnected 6 (AddrSocket ''a'') 9]"
  by (simp_all add: sample_obs_def obs_protocol_violation_def obs_primary_connected_def obs_emit_def new_observability_with_capacities_def
      run_observability_def execute_effects reduce_connected_def report_error_def record_error_def observability_new_def u64_plus_def
      on_metrics_def Let_def)

theorem metrics_follow_calles_witness:
  "mc_current_peers (metrics_snapshot 9 (os_metrics (ob_state sample_obs))) = 1
   \<and> set (connected_peer_identities (ob_state sample_obs)) = {AddrSocket ''a''}"
proof -
  have "{p. \<exists>k. 0 < ((\<lambda>p k. 0)(AddrSocket ''a'' := (\<lambda>k. 0)(CallisPrimary := Suc 0))) p k} = {AddrSocket ''a''}"
    by (auto split: if_splits)
  with metrics_follow_calles [OF sample_observed _ refl, where now = 9] show ?thesis by (simp add: peers_told_def calles_told_def)
qed

theorem events_tell_presence_witness:
  "presence (AddrSocket ''a'') False (ob_events sample_obs) = Some True \<and> presence (AddrSocket ''b'') False (ob_events sample_obs) = Some False"
  using events_tell_presence [OF sample_observed, of "AddrSocket ''a''"] events_tell_presence [OF sample_observed, of "AddrSocket ''b''"]
  by (simp add: sample_state connected_peer_identities_def counts_connected_def u64_plus_def)

theorem errors_catch_up_witness:
  "errors_since (ob_state sample_obs) 0 5 = [(1, with_message ProtocolViolation ''peer=unix://b'')]"
  using errors_catch_up [OF sample_observed, of 0 5] by (simp add: sample_state)

theorem interval_report_counts_witness:
  "\<exists>d. fst (reduce_observability_command sample_sock id
        (foldl (obs_step sample_sock) (observability_new 0 2) [(id, CmdDialAttempt), (id, CmdSnapshotAndReset 4), (id, CmdDialAttempt), (id, CmdAuthReloaded)])
        (CmdSnapshotAndReset 6)) = [EffReply 6 (ReplyDelta d)]
     \<and> mc_total_dial_attempts (metrics_counters.truncate d) = 1"
proof -
  let ?st = "foldl (obs_step sample_sock) (observability_new 0 2) [(id, CmdDialAttempt), (id, CmdSnapshotAndReset 4), (id, CmdDialAttempt), (id, CmdAuthReloaded)]"
  obtain d where d: "fst (reduce_observability_command sample_sock id ?st (CmdSnapshotAndReset 6)) = [EffReply 6 (ReplyDelta d)]"
    by (simp add: split_beta)
  have "(mc_total_dial_attempts, \<lambda>c. case c of CmdDialAttempt \<Rightarrow> True | _ \<Rightarrow> False) \<in> set tallies" by (simp add: tallies_def)
  from interval_report_counts [OF this, of "[(id, CmdDialAttempt)]" "[(id, CmdDialAttempt), (id, CmdAuthReloaded)]" ?st sample_sock 0 2 id 4 id 6 d] d
  show ?thesis by auto
qed

end
