(* ===== verification/Peer_Contract.thy ===== *)
theory Peer_Contract
  imports Peer_State
begin

text \<open>
  What the state task of a peer guarantees over whole runs, with the other tasks of the peer in between: its
  view of the calles is consistent, it dials when and only when it should, a restarted peer meets nothing of
  the old session, and a peer that stays away is given up.
\<close>

section \<open>What the executors change\<close>

lemma shared_simps [simp]:
  "pt_shared (on_shared tk f) = f (pt_shared tk)" "pt_shared (post_for tk e) = pt_shared tk"
  "pt_shared (shutdown_handle tk h) = pt_shared tk" "pt_shared (spawn_send_close tk c hs) = pt_shared tk"
  "pt_shared (spawn_dial tk c d) = pt_shared tk" "pt_dials (on_shared tk f) = pt_dials tk" "pt_dials (post_for tk e) = pt_dials tk"
  "pt_dials (shutdown_handle tk h) = pt_dials tk" "pt_dials (spawn_send_close tk c hs) = pt_dials tk"
  "pt_dial_addr (on_shared tk f) = pt_dial_addr tk" "pt_dial_addr (post_for tk e) = pt_dial_addr tk"
  "pt_dial_addr (shutdown_handle tk h) = pt_dial_addr tk" "pt_dial_addr (spawn_send_close tk c hs) = pt_dial_addr tk"
  "pt_dial_addr (spawn_dial tk c d) = pt_dial_addr tk"
  by (simp_all add: on_shared_def post_for_def shutdown_handle_def spawn_send_close_def spawn_dial_def split: option.splits)

lemma dispatch_simps [simp]:
  "ps_primary_active (on_dispatch f sh) = ps_primary_active sh" "ps_blob (on_dispatch f sh) = ps_blob sh"
  "ps_tracker (on_dispatch f sh) = ps_tracker sh" "ss_closing (ps_session (on_dispatch f sh)) = ss_closing (ps_session sh)"
  "ss_dispatch (ps_session (on_dispatch f sh)) = f (ss_dispatch (ps_session sh))"
  by (simp_all add: on_dispatch_def)

lemma foldl_keeps: "(\<And>tk x. g (f tk x) = g tk) \<Longrightarrow> g (foldl f tk xs) = g tk"
  by (induction xs arbitrary: tk) simp_all

lemma posts_keep [simp]:
  "pt_shared (foldl (\<lambda>tk h. post_for tk (e h)) tk hs) = pt_shared tk"
  "pt_dials (foldl (\<lambda>tk h. post_for tk (e h)) tk hs) = pt_dials tk"
  "pt_dial_addr (foldl (\<lambda>tk h. post_for tk (e h)) tk hs) = pt_dial_addr tk"
  "pt_shared (foldl (\<lambda>tk h. post_for (shutdown_handle tk h) (e h)) tk hs) = pt_shared tk"
  "pt_dials (foldl (\<lambda>tk h. post_for (shutdown_handle tk h) (e h)) tk hs) = pt_dials tk"
  "pt_dial_addr (foldl (\<lambda>tk h. post_for (shutdown_handle tk h) (e h)) tk hs) = pt_dial_addr tk"
  "pt_shared (foldl (\<lambda>tk h. shutdown_handle (post_for tk (e h)) h) tk hs) = pt_shared tk"
  "pt_dials (foldl (\<lambda>tk h. shutdown_handle (post_for tk (e h)) h) tk hs) = pt_dials tk"
  "pt_dial_addr (foldl (\<lambda>tk h. shutdown_handle (post_for tk (e h)) h) tk hs) = pt_dial_addr tk"
  by (rule foldl_keeps; simp)+

text \<open>What the other tasks may do: anything but set the flag of the active primary or reopen the session.\<close>

definition others_keep :: "peer_shared \<Rightarrow> peer_shared \<Rightarrow> bool" where
  "others_keep sh sh' \<longleftrightarrow> ps_primary_active sh' = ps_primary_active sh \<and> (ss_closing (ps_session sh) \<longrightarrow> ss_closing (ps_session sh'))"

definition peer_inv :: "peer_state \<Rightarrow> peer_shared \<Rightarrow> bool" where
  "peer_inv st sh \<longleftrightarrow>
     ps_primary_active sh = (pe_primary st \<noteq> [])
     \<and> (pe_primary st \<noteq> [] \<longrightarrow> pe_had_primary st \<and> pe_primary_dial st = DialIdle)
     \<and> (pe_closing st \<longrightarrow> pe_primary_dial st = DialIdle \<and> \<not> pe_dialing_blob st \<and> ss_closing (ps_session sh))"

abbreviation inv_after :: "executed \<Rightarrow> bool" where
  "inv_after r \<equiv> peer_inv (fst (snd r)) (pt_shared (snd (snd r)))"

lemma inv_others: "peer_inv st sh \<Longrightarrow> others_keep sh sh' \<Longrightarrow> peer_inv st sh'"
  by (auto simp: peer_inv_def others_keep_def)

lemma spawned_only: "ef_spawn_primary_dial (fst (ensure_primary_dial st w c)) \<longleftrightarrow>
    \<not> pe_closing st \<and> pe_primary st = [] \<and> pe_primary_dial st = DialIdle \<and> w \<and> c"
  by (cases "pe_primary_dial st") (auto simp: ensure_primary_dial_def no_effects_def)

lemma inv_primary_effect:
  assumes "peer_inv st (pt_shared tk)" and "\<forall>sh. others_keep sh (mid sh)" and "ef_spawn_primary_dial effects \<longrightarrow> pe_primary st = [] \<and> \<not> pe_closing st"
  shows "inv_after (execute_primary_dial_effect cfg mid effects delay st tk)"
  using assms by (auto simp: execute_primary_dial_effect_def launch_primary_dial_def peer_inv_def others_keep_def Let_def)

lemma inv_blob_effect:
  assumes "peer_inv st (pt_shared tk)" and "\<forall>sh. others_keep sh (mid sh)" and "ef_spawn_blob_dial effects \<longrightarrow> \<not> pe_closing st"
  shows "inv_after (execute_blob_dial_effect cfg mid effects st tk)"
  using assms by (auto simp: execute_blob_dial_effect_def schedule_blob_dial_def peer_inv_def others_keep_def Let_def)

lemma inv_ensure:
  "peer_inv st sh \<Longrightarrow> peer_inv (snd (ensure_primary_dial st w c)) sh"
  "peer_inv st sh \<Longrightarrow> peer_inv (snd (ensure_blob_dial st p b s c)) sh"
  "peer_inv st sh \<Longrightarrow> peer_inv (st\<lparr>pe_primary_dial := DialIdle\<rparr>) sh"
  "peer_inv st sh \<Longrightarrow> peer_inv (st\<lparr>pe_dialing_blob := False\<rparr>) sh"
  by (auto simp: peer_inv_def ensure_primary_dial_def ensure_blob_dial_def)

lemma ensure_fields:
  "pe_primary (snd (ensure_primary_dial st w c)) = pe_primary st" "pe_closing (snd (ensure_primary_dial st w c)) = pe_closing st"
  "pe_primary (snd (ensure_blob_dial st p b s c)) = pe_primary st" "pe_closing (snd (ensure_blob_dial st p b s c)) = pe_closing st"
  "ef_spawn_blob_dial (fst (ensure_blob_dial st p b s c)) \<longleftrightarrow> \<not> pe_closing st \<and> p \<and> \<not> pe_dialing_blob st \<and> \<not> b \<and> s \<and> c"
  by (auto simp: ensure_primary_dial_def ensure_blob_dial_def no_effects_def)

lemma inv_dial_failed: "peer_inv st sh \<Longrightarrow> peer_inv (snd (dial_failed_primary st w c)) sh"
  "peer_inv st sh \<Longrightarrow> peer_inv (snd (primary_removed st w c)) sh"
  by (auto simp: dial_failed_primary_def primary_removed_def split_beta inv_ensure)

lemma inv_blob_dial:
  assumes "\<And>p b s c. peer_inv (snd (transition p b s c)) (pt_shared tk)"
    and "\<And>p b s c. ef_spawn_blob_dial (fst (transition p b s c)) \<Longrightarrow> \<not> pe_closing (snd (transition p b s c))"
    and "\<forall>sh. others_keep sh (mid sh)"
  shows "inv_after (blob_dial_with transition cfg mid tk)"
  using assms by (auto simp: blob_dial_with_def Let_def split_beta intro!: inv_blob_effect)


lemma set_active_shared [simp]:
  "pt_shared (set_primary_active tk st) = (pt_shared tk)\<lparr>ps_primary_active := (pe_primary st \<noteq> [])\<rparr>"
  "pt_dials (set_primary_active tk st) = pt_dials tk" "pt_dial_addr (set_primary_active tk st) = pt_dial_addr tk"
  by (simp_all add: set_primary_active_def)

lemma removed_spawns: "ef_spawn_primary_dial (fst (primary_removed st w c)) \<longleftrightarrow> \<not> pe_closing st \<and> pe_primary st = [] \<and> w \<and> c"
  "ef_spawn_primary_dial (fst (dial_failed_primary st w c)) \<longleftrightarrow> \<not> pe_closing st \<and> pe_primary st = [] \<and> w \<and> c"
  by (auto simp: primary_removed_def dial_failed_primary_def split_beta spawned_only no_effects_def)

lemma removed_fields:
  "pe_primary (snd (primary_removed st w c)) = pe_primary st" "pe_closing (snd (primary_removed st w c)) = pe_closing st"
  "pe_primary (snd (dial_failed_primary st w c)) = pe_primary st" "pe_closing (snd (dial_failed_primary st w c)) = pe_closing st"
  by (auto simp: primary_removed_def dial_failed_primary_def split_beta ensure_fields)

text \<open>The state without the flag, which the executors set after changing the queue of handles.\<close>

definition peer_inv0 :: "peer_state \<Rightarrow> peer_shared \<Rightarrow> bool" where
  "peer_inv0 st sh \<longleftrightarrow> peer_inv st (sh\<lparr>ps_primary_active := (pe_primary st \<noteq> [])\<rparr>)"

lemma inv_after_removed:
  assumes "peer_inv0 st (pt_shared tk)" and "\<forall>sh. others_keep sh (mid sh)"
  shows "inv_after (execute_after_primary_removed cfg mid allow st tk)"
  using assms inv_dial_failed(2) [of st "(pt_shared tk)\<lparr>ps_primary_active := (pe_primary st \<noteq> [])\<rparr>"]
  by (auto simp: execute_after_primary_removed_def peer_inv0_def Let_def split_beta removed_spawns removed_fields
      intro!: inv_primary_effect)

lemma remove_handle_subset: "set (snd (remove_primary_handle hs i)) \<subseteq> set hs"
  by (induction hs i rule: remove_primary_handle.induct) (auto simp: split_beta)

lemma remove_handle_mem: "remove_primary_handle hs i = (found, rest) \<Longrightarrow> x \<in> set rest \<Longrightarrow> x \<in> set hs"
  using remove_handle_subset [of hs i] by auto

lemma mark_fold [simp]:
  "ps_primary_active (pt_shared (foldl (\<lambda>tk h. on_shared tk (on_dispatch (f h))) tk hs)) = ps_primary_active (pt_shared tk)"
  "ss_closing (ps_session (pt_shared (foldl (\<lambda>tk h. on_shared tk (on_dispatch (f h))) tk hs))) = ss_closing (ps_session (pt_shared tk))"
  "ps_tracker (pt_shared (foldl (\<lambda>tk h. on_shared tk (on_dispatch (f h))) tk hs)) = ps_tracker (pt_shared tk)"
  "pt_dials (foldl (\<lambda>tk h. on_shared tk (on_dispatch (f h))) tk hs) = pt_dials tk"
  "pt_dial_addr (foldl (\<lambda>tk h. on_shared tk (on_dispatch (f h))) tk hs) = pt_dial_addr tk"
  by (induction hs arbitrary: tk) simp_all

lemma inv_fewer:
  assumes "peer_inv st sh" and "set hs \<subseteq> set (pe_primary st)" and "ss_closing (ps_session sh') = ss_closing (ps_session sh)"
  shows "peer_inv0 (st\<lparr>pe_primary := hs\<rparr>) sh'"
  using assms by (cases "pe_primary st") (auto simp: peer_inv0_def peer_inv_def)

lemma inv_same: "peer_inv st sh \<Longrightarrow> ss_closing (ps_session sh') = ss_closing (ps_session sh) \<Longrightarrow> peer_inv0 st sh'"
  by (auto simp: peer_inv0_def peer_inv_def)

lemma inv_primary_disconnect:
  assumes "peer_inv st (pt_shared tk)" and "\<forall>sh. others_keep sh (mid sh)"
  shows "inv_after (execute_primary_disconnect cfg mid callis_id reason st tk)"
  using assms(1)
  by (auto simp: execute_primary_disconnect_def Let_def split: option.splits prod.splits
      intro!: inv_after_removed [OF _ assms(2)] inv_fewer [OF assms(1)] inv_same [OF assms(1)]
      dest: remove_handle_mem)

lemma inv_primary_closed:
  assumes "peer_inv st (pt_shared tk)" and "\<forall>sh. others_keep sh (mid sh)"
  shows "inv_after (execute_primary_closed cfg mid callis_id reason st tk)"
  using assms(1)
  by (auto simp: execute_primary_closed_def Let_def split: option.splits prod.splits
      intro!: inv_after_removed [OF _ assms(2)] inv_fewer [OF assms(1)] inv_same [OF assms(1)] dest: remove_handle_mem)

lemma inv_blob_updates:
  assumes inv: "peer_inv st (pt_shared tk)" and mid: "\<forall>sh. others_keep sh (mid sh)"
  shows "inv_after (execute_dial_failed_blob cfg mid st tk)" "inv_after (execute_ensure_blob_dial cfg mid st tk)"
    "inv_after (execute_after_blob_removed cfg mid st tk)"
  using inv inv_ensure
  by (auto simp: execute_dial_failed_blob_def execute_ensure_blob_dial_def execute_after_blob_removed_def dial_failed_blob_def
      blob_removed_def ensure_fields intro!: inv_blob_dial [OF _ _ mid])

lemma inv_blob_field: "peer_inv st sh \<Longrightarrow> peer_inv st (sh\<lparr>ps_blob := b\<rparr>)"
  by (simp add: peer_inv_def)

lemma inv_blob_gone:
  assumes "peer_inv st (pt_shared tk)" and "\<forall>sh. others_keep sh (mid sh)"
  shows "inv_after (execute_blob_disconnect cfg mid callis_id reason st tk)" "inv_after (execute_blob_closed cfg mid i reason st tk)"
  using assms inv_blob_field [OF assms(1)]
  by (auto simp: execute_blob_disconnect_def execute_blob_closed_def Let_def split_beta split: option.splits intro!: inv_blob_updates(3))

lemma restart_fields:
  assumes "execute_fresh_primary_restart_effect st tk = (st', tk')"
  shows "st' = st\<lparr>pe_primary := []\<rparr>" "pt_dials tk' = pt_dials tk" "pt_dial_addr tk' = pt_dial_addr tk"
    "ss_closing (ps_session (pt_shared tk')) = ss_closing (ps_session (pt_shared tk))"
    "ss_dispatch (ps_session (pt_shared tk')) = dispatch_clear (ss_dispatch (ps_session (pt_shared tk)))"
    "ps_blob (pt_shared tk') = reset_callis_history (snd (drain_callis (fail_all_streams (ps_blob (pt_shared tk)) (err_new PeerRestarted))))"
    "ps_tracker (pt_shared tk') = ps_tracker (pt_shared tk)"
  using assms by (auto simp: execute_fresh_primary_restart_effect_def Let_def split_beta)

lemma inv_connected:
  assumes "peer_inv st (pt_shared tk)"
  shows "inv_after (execute_connected_primary st tk info)" "inv_after (execute_connected_blob st tk info)"
proof -
  show "inv_after (execute_connected_primary st tk info)"
    using assms
    by (auto simp: execute_connected_primary_def connected_primary_def no_effects_def peer_inv_def Let_def
        split: prod.splits if_splits dest: restart_fields(1,4))
  show "inv_after (execute_connected_blob st tk info)"
    using assms
    by (auto simp: execute_connected_blob_def connected_blob_def no_effects_def peer_inv_def Let_def split: option.splits if_splits)
qed

lemma inv_graceful: "peer_inv st (pt_shared tk) \<Longrightarrow> inv_after (execute_graceful_close st tk)"
  by (auto simp: execute_graceful_close_def graceful_close_def execute_graceful_close_effect_def no_effects_def peer_inv_def
      begin_close_def on_dispatch_def on_shared_def Let_def)

lemma inv_primary_dials:
  assumes "peer_inv st (pt_shared tk)" and "\<forall>sh. others_keep sh (mid sh)"
  shows "inv_after (execute_ensure_primary_dial cfg mid st tk)" "inv_after (execute_dial_failed_primary cfg mid st tk)"
  using assms inv_ensure(1) [OF assms(1)] inv_dial_failed(1) [OF assms(1)]
  by (auto simp: execute_ensure_primary_dial_def execute_dial_failed_primary_def Let_def split_beta spawned_only removed_spawns
      ensure_fields removed_fields intro!: inv_primary_effect)

lemma inv_update:
  assumes "peer_inv st (pt_shared tk)" and "\<forall>sh. others_keep sh (mid sh)"
  shows "inv_after (execute_update cfg mid up st tk)"
  using inv_connected [OF assms(1)] inv_graceful [OF assms(1)] inv_blob_gone [OF assms] inv_blob_updates [OF assms]
    inv_primary_dials [OF assms] inv_primary_disconnect [OF assms] inv_primary_closed [OF assms]
  by (cases "(cfg, mid, up, st, tk)" rule: execute_update.cases) auto

lemma teardown_shared:
  assumes "teardown_peer_handle st tk reason = (st', tk')" and "\<not> pe_closing st"
  shows "pe_closing st'" "pe_primary st' = []" "pe_primary_dial st' = DialIdle" "\<not> pe_dialing_blob st'" "pe_impaired_since st' = None"
    "ss_closing (ps_session (pt_shared tk'))" "\<not> ps_primary_active (pt_shared tk')"
    "ss_dispatch (ps_session (pt_shared tk')) = queue_fail_non_a1 (ss_dispatch (ps_session (pt_shared tk))) (err_new PeerUnavailable)"
    "ps_blob (pt_shared tk') = snd (drain_callis (fail_all_streams (ps_blob (pt_shared tk)) (err_new PeerUnavailable)))"
    "pt_dials tk' = pt_dials tk"
  using assms by (auto simp: teardown_peer_handle_def Let_def split_beta begin_close_def)

lemma inv_deadline: "peer_inv st (pt_shared tk) \<Longrightarrow> deadline_arm cfg st tk now = (st', tk') \<Longrightarrow> peer_inv st' (pt_shared tk')"
  by (auto simp: deadline_arm_def peer_inv_def dest: teardown_shared split: option.splits if_splits)

lemma inv_impaired: "peer_inv st sh \<Longrightarrow> peer_inv (update_impaired_since st sh' now) sh"
  by (auto simp: update_impaired_since_def peer_inv_def)

lemma inv_turn:
  assumes "peer_inv st (pt_shared tk)" and "\<forall>sh. others_keep sh (mid sh)" and "peer_turn cfg mid now ev st tk = Some (st', tk')"
  shows "peer_inv st' (pt_shared tk')"
  using assms inv_update [OF assms(1,2)] inv_deadline [OF assms(1)]
  by (auto simp: peer_turn_def Let_def split_beta intro!: inv_impaired split: peer_event.splits if_splits)

section \<open>Runs\<close>

inductive peer_run :: "peer_config \<Rightarrow> peer_state \<Rightarrow> peer_task \<Rightarrow> bool" for cfg :: peer_config where
  start: "\<not> ps_primary_active (pt_shared tk) \<Longrightarrow> peer_run cfg peer_state_new tk"
| turn: "peer_run cfg st tk \<Longrightarrow> \<forall>sh. others_keep sh (mid sh) \<Longrightarrow> peer_turn cfg mid now ev st tk = Some (st', tk') \<Longrightarrow> peer_run cfg st' tk'"
| others: "peer_run cfg st tk \<Longrightarrow> others_keep (pt_shared tk) (pt_shared tk') \<Longrightarrow> peer_run cfg st tk'"

lemma run_inv: "peer_run cfg st tk \<Longrightarrow> peer_inv st (pt_shared tk)"
proof (induction rule: peer_run.induct)
  case (start tk)
  then show ?case by (simp add: peer_inv_def peer_state_new_def)
next
  case (turn st tk mid now ev st' tk')
  then show ?case by (blast intro: inv_turn)
next
  case (others st tk tk')
  then show ?case by (blast intro: inv_others)
qed


lemma impaired_after: "pe_impaired_since (update_impaired_since st sh now) = Some since \<Longrightarrow>
    \<not> pe_closing st \<and> pe_had_primary st \<and> pe_primary st = [] \<and> \<not> ss_closing (ps_session sh)"
  by (auto simp: update_impaired_since_def split: if_splits)

lemma impaired_fields [simp]:
  "pe_closing (update_impaired_since st sh now) = pe_closing st" "pe_primary (update_impaired_since st sh now) = pe_primary st"
  "pe_had_primary (update_impaired_since st sh now) = pe_had_primary st"
  by (auto simp: update_impaired_since_def)

lemma run_impaired: "peer_run cfg st tk \<Longrightarrow> pe_impaired_since st \<noteq> None \<Longrightarrow> \<not> pe_closing st \<and> pe_had_primary st \<and> pe_primary st = []"
proof (induction rule: peer_run.induct)
  case (turn st tk mid now ev st' tk')
  show ?case
    using turn.hyps(3) turn.prems
    by (auto simp: peer_turn_def Let_def split_beta split: peer_event.splits if_splits dest!: impaired_after)
qed (auto simp: peer_state_new_def)

text \<open>
  The view that a peer's task has of its calles is consistent in every run. The flag that the other tasks read
  says whether there is a primary callis; while there is one no primary dial counts as in flight; a closing
  peer has closed its session and dials nothing; and the clock of an impaired peer runs only while all of
  its primary calles are down after there was one.
\<close>

theorem peer_view_consistent:
  assumes "peer_run cfg st tk"
  shows "ps_primary_active (pt_shared tk) = (pe_primary st \<noteq> [])
    \<and> (pe_primary st \<noteq> [] \<longrightarrow> pe_had_primary st \<and> pe_primary_dial st = DialIdle)
    \<and> (pe_closing st \<longrightarrow> pe_primary_dial st = DialIdle \<and> \<not> pe_dialing_blob st \<and> ss_closing (ps_session (pt_shared tk)))
    \<and> (pe_impaired_since st \<noteq> None \<longrightarrow> \<not> pe_closing st \<and> pe_had_primary st \<and> pe_primary st = [])"
  using run_inv [OF assms] run_impaired [OF assms] by (auto simp: peer_inv_def)

section \<open>Dialing\<close>

definition dialed :: "peer_config \<Rightarrow> peer_state \<Rightarrow> peer_state \<Rightarrow> peer_task \<Rightarrow> callis_kind \<times> duration \<Rightarrow> bool" where
  "dialed cfg st st' tk' d \<longleftrightarrow> \<not> pe_closing st \<and> has_callis_capacity cfg (pt_shared tk') \<and>
     (case fst d of CallisPrimary \<Rightarrow> pe_primary st' = [] \<and> pe_primary_dial st' = DialDialing
      | CallisBlob \<Rightarrow> pe_primary st' \<noteq> [] \<and> pe_dialing_blob st')"

definition dials_ok :: "peer_config \<Rightarrow> peer_state \<Rightarrow> peer_task \<Rightarrow> executed \<Rightarrow> bool" where
  "dials_ok cfg st tk r \<longleftrightarrow>
     (\<exists>ds. pt_dials (snd (snd r)) = pt_dials tk @ ds \<and> length ds \<le> 1 \<and> list_all (dialed cfg st (fst (snd r)) (snd (snd r))) ds)"

lemma dials_none: "pt_dials (snd (snd r)) = pt_dials tk \<Longrightarrow> dials_ok cfg st tk r"
  by (simp add: dials_ok_def)

lemma dials_choice:
  "(b \<Longrightarrow> dials_ok cfg st tk x) \<Longrightarrow> pt_dials tk1 = pt_dials tk \<Longrightarrow> dials_ok cfg st tk (if b then x else (True, st1, tk1))"
  by (simp add: dials_none)

lemma dials_primary_effect:
  assumes "ef_spawn_primary_dial effects \<longrightarrow> pe_primary st1 = [] \<and> \<not> pe_closing st" and "pt_dials tk1 = pt_dials tk"
  shows "dials_ok cfg st tk (execute_primary_dial_effect cfg mid effects delay st1 tk1)"
  using assms
  by (auto simp: execute_primary_dial_effect_def launch_primary_dial_def spawn_dial_def Let_def dials_ok_def dialed_def on_shared_def
      split: option.splits)

lemma dials_blob_with:
  assumes "\<And>p b s c. ef_spawn_blob_dial (fst (transition p b s c)) \<Longrightarrow> p \<and> \<not> pe_closing st"
    and "\<And>p b s c. pe_primary (snd (transition p b s c)) = pe_primary st" and "pt_dials tk1 = pt_dials tk"
    and "ps_primary_active (pt_shared tk1) \<Longrightarrow> pe_primary st \<noteq> []"
  shows "dials_ok cfg st tk (blob_dial_with transition cfg mid tk1)"
  using assms
  by (auto simp: blob_dial_with_def execute_blob_dial_effect_def schedule_blob_dial_def spawn_dial_def Let_def dials_ok_def dialed_def split_beta
      on_shared_def split: option.splits)

lemma dials_after_removed:
  "pe_closing st1 = pe_closing st \<Longrightarrow> pt_dials tk1 = pt_dials tk \<Longrightarrow>
   dials_ok cfg st tk (execute_after_primary_removed cfg mid allow st1 tk1)"
  by (auto simp: execute_after_primary_removed_def Let_def split_beta removed_spawns removed_fields split del: if_split
      intro!: dials_choice dials_primary_effect)

lemma dials_update:
  assumes inv: "peer_inv st (pt_shared tk)"
  shows "dials_ok cfg st tk (execute_update cfg mid up st tk)"
proof -
  have active: "ps_primary_active (pt_shared tk) = (pe_primary st \<noteq> [])" using inv by (simp add: peer_inv_def)
  note blobs = execute_dial_failed_blob_def execute_ensure_blob_dial_def execute_after_blob_removed_def dial_failed_blob_def blob_removed_def
    execute_blob_disconnect_def execute_blob_closed_def
  have blob: "dials_ok cfg st tk (execute_dial_failed_blob cfg mid st tk)" "dials_ok cfg st tk (execute_ensure_blob_dial cfg mid st tk)"
    "dials_ok cfg st tk (execute_blob_disconnect cfg mid ci reason st tk)" "dials_ok cfg st tk (execute_blob_closed cfg mid i reason st tk)" for ci i reason
    using active by (auto simp: blobs Let_def split_beta ensure_fields split: option.splits intro!: dials_blob_with)
  have primary: "dials_ok cfg st tk (execute_ensure_primary_dial cfg mid st tk)" "dials_ok cfg st tk (execute_dial_failed_primary cfg mid st tk)"
    "dials_ok cfg st tk (execute_primary_disconnect cfg mid ci reason st tk)" "dials_ok cfg st tk (execute_primary_closed cfg mid i reason st tk)" for ci i reason
    by (auto simp: execute_ensure_primary_dial_def execute_dial_failed_primary_def execute_primary_disconnect_def execute_primary_closed_def
        Let_def split_beta spawned_only removed_spawns ensure_fields removed_fields split: option.splits prod.splits
        split del: if_split intro!: dials_choice dials_primary_effect dials_after_removed)
  have rest: "dials_ok cfg st tk (execute_connected_primary st tk info)" "dials_ok cfg st tk (execute_connected_blob st tk info)"
    "dials_ok cfg st tk (execute_graceful_close st tk)" for info
    by (auto simp: execute_connected_primary_def execute_connected_blob_def execute_graceful_close_def execute_graceful_close_effect_def
        Let_def split_beta restart_fields(2) [OF surjective_pairing] split: option.splits intro!: dials_none)
  show ?thesis using blob primary rest by (cases "(cfg, mid, up, st, tk)" rule: execute_update.cases) auto
qed

text \<open>
  Dialing is restrained: one update starts at most one dial, none while the peer is closing or at the limit
  of calles; a primary dial starts only while there is no primary callis, and a blob dial only while there
  is one, and the state then says that the dial is in flight.
\<close>

theorem dials_only_when_needed:
  assumes "peer_run cfg st tk" and "execute_update cfg mid up st tk = (done', st', tk')"
  shows "\<exists>ds. pt_dials tk' = pt_dials tk @ ds \<and> length ds \<le> 1 \<and>
    (\<forall>(callis, delay) \<in> set ds. \<not> pe_closing st \<and> has_callis_capacity cfg (pt_shared tk') \<and>
       (case callis of CallisPrimary \<Rightarrow> pe_primary st' = [] \<and> pe_primary_dial st' = DialDialing
        | CallisBlob \<Rightarrow> pe_primary st' \<noteq> [] \<and> pe_dialing_blob st'))"
proof -
  have "dials_ok cfg st tk (done', st', tk')" using dials_update [OF run_inv [OF assms(1)], of cfg mid up] assms(2) by simp
  then obtain ds where "pt_dials tk' = pt_dials tk @ ds" "length ds \<le> 1" and each: "\<forall>d \<in> set ds. dialed cfg st st' tk' d"
    by (auto simp: dials_ok_def list_all_iff)
  moreover have "(\<lambda>(callis, delay). \<not> pe_closing st \<and> has_callis_capacity cfg (pt_shared tk') \<and>
       (case callis of CallisPrimary \<Rightarrow> pe_primary st' = [] \<and> pe_primary_dial st' = DialDialing
        | CallisBlob \<Rightarrow> pe_primary st' \<noteq> [] \<and> pe_dialing_blob st')) d" if "d \<in> set ds" for d
    using each that by (cases d) (auto simp: dialed_def)
  ultimately show ?thesis by blast
qed


lemma ensure_dials: "\<not> pe_closing st \<Longrightarrow> pe_primary st = [] \<Longrightarrow> pe_primary_dial st = DialIdle \<Longrightarrow> ensure_primary_dial st True True =
    (no_effects\<lparr>ef_spawn_primary_dial := True, ef_promote_listener_to_originator := (pe_role st = RoleListener)\<rparr>, st\<lparr>pe_primary_dial := DialDialing\<rparr>)"
  by (simp add: ensure_primary_dial_def)

lemma effect_dials:
  assumes "ef_spawn_primary_dial effects" and "has_callis_capacity cfg (mid (pt_shared tk))" and "pt_dial_addr tk = Some peer"
  shows "\<exists>st'. execute_primary_dial_effect cfg mid effects delay st tk =
      (True, st', (on_shared tk mid)\<lparr>pt_dials := pt_dials tk @ [(CallisPrimary, delay)]\<rparr>)
    \<and> st' = st\<lparr>pe_reconnect_attempt := sat_succ (pe_reconnect_attempt st), pe_primary_dial := DialDialing,
        pe_role := (if ef_promote_listener_to_originator effects then RoleOriginator else pe_role st)\<rparr>"
  using assms by (auto simp: execute_primary_dial_effect_def launch_primary_dial_def spawn_dial_def Let_def)

lemma removed_dials:
  assumes "\<not> pe_closing st" "pe_primary st = []" "has_primary_work (pt_shared tk)" "has_callis_capacity cfg (pt_shared tk)"
    and "pt_dial_addr tk = Some peer"
  shows "\<exists>st'. execute_after_primary_removed cfg id True st tk =
      (True, st', (set_primary_active tk st)\<lparr>pt_dials := pt_dials tk @ [(CallisPrimary, primary_dial_delay cfg st)]\<rparr>)
    \<and> pe_primary_dial st' = DialDialing \<and> pe_primary st' = []"
proof -
  have same: "has_primary_work (sh\<lparr>ps_primary_active := b\<rparr>) = has_primary_work sh"
    "has_callis_capacity cfg (sh\<lparr>ps_primary_active := b\<rparr>) = has_callis_capacity cfg sh" for sh b
    by (simp_all add: has_primary_work_def has_callis_capacity_def)
  have delay: "primary_dial_delay cfg (st\<lparr>pe_primary_dial := d\<rparr>) = primary_dial_delay cfg st" for d
    by (simp add: primary_dial_delay_def)
  have on: "on_shared tk' id = tk'" for tk' by (simp add: on_shared_def)
  from assms effect_dials [of "(no_effects\<lparr>ef_spawn_primary_dial := True, ef_promote_listener_to_originator := (pe_role st = RoleListener)\<rparr>)
      \<lparr>ef_publish_snapshot := True\<rparr>" cfg id "set_primary_active tk st" peer "primary_dial_delay cfg st" "st\<lparr>pe_primary_dial := DialDialing\<rparr>"]
  show ?thesis by (simp add: execute_after_primary_removed_def primary_removed_def ensure_dials same delay on Let_def)
qed

lemma effect_fields:
  assumes "execute_primary_dial_effect cfg id effects delay st tk = (done', st', tk')"
  shows "pe_primary st' = pe_primary st" "pe_closing st' = pe_closing st" "pt_shared tk' = pt_shared tk"
  using assms by (auto simp: execute_primary_dial_effect_def launch_primary_dial_def Let_def split: if_splits)

lemma after_removed_fields:
  assumes "execute_after_primary_removed cfg id allow st tk = (done', st', tk')"
  shows "pe_primary st' = pe_primary st" "pe_closing st' = pe_closing st"
    "pt_shared tk' = (pt_shared tk)\<lparr>ps_primary_active := (pe_primary st \<noteq> [])\<rparr>"
  using assms by (auto simp: execute_after_primary_removed_def Let_def split_beta removed_fields dest: effect_fields split: if_splits)

lemma removed_keeps:
  assumes "execute_after_primary_removed cfg mid allow st tk = (done', st', tk')"
  shows "pe_had_primary st' = pe_had_primary st" "pe_impaired_since st' = pe_impaired_since st"
  using assms
  by (auto simp: execute_after_primary_removed_def primary_removed_def ensure_primary_dial_def execute_primary_dial_effect_def
      launch_primary_dial_def Let_def split_beta split: if_splits)

lemma removed_is_dialed:
  assumes "execute_after_primary_removed cfg id allow st tk = (done', st', tk')" and "pe_closing st \<or> allow"
    and "\<not> pe_closing st'" "pe_primary st' = []" "has_primary_work (pt_shared tk')" "has_callis_capacity cfg (pt_shared tk')"
      "pt_dial_addr tk = Some peer"
  shows "pe_primary_dial st' = DialDialing \<and> (\<exists>delay. pt_dials tk' = pt_dials tk @ [(CallisPrimary, delay)])"
  using assms after_removed_fields [OF assms(1)] removed_dials [of st tk cfg peer]
  by (auto simp: has_primary_work_def has_callis_capacity_def)

lemma dial_result_fields:
  "execute_ensure_primary_dial cfg id st tk = (done', st', tk') \<Longrightarrow>
     pe_primary st' = pe_primary st \<and> pe_closing st' = pe_closing st \<and> pt_shared tk' = pt_shared tk"
  "execute_dial_failed_primary cfg id st tk = (done', st', tk') \<Longrightarrow>
     pe_primary st' = pe_primary st \<and> pe_closing st' = pe_closing st \<and> pt_shared tk' = pt_shared tk"
  by (auto simp: execute_ensure_primary_dial_def execute_dial_failed_primary_def Let_def split_beta ensure_fields removed_fields
      dest: effect_fields split: if_splits)

lemma ready_is_dialed:
  assumes "\<not> pe_closing st" "pe_primary st = []" "has_primary_work (pt_shared tk)" "has_callis_capacity cfg (pt_shared tk)"
    and "pt_dial_addr tk = Some peer"
  shows "pe_primary_dial st = DialIdle \<Longrightarrow> execute_ensure_primary_dial cfg id st tk =
      (True, st\<lparr>pe_primary_dial := DialDialing, pe_reconnect_attempt := sat_succ (pe_reconnect_attempt st), pe_role := RoleOriginator\<rparr>,
       tk\<lparr>pt_dials := pt_dials tk @ [(CallisPrimary, primary_dial_delay cfg st)]\<rparr>)"
    and "execute_dial_failed_primary cfg id st tk =
      (True, st\<lparr>pe_primary_dial := DialDialing, pe_reconnect_attempt := sat_succ (pe_reconnect_attempt st), pe_role := RoleOriginator\<rparr>,
       tk\<lparr>pt_dials := pt_dials tk @ [(CallisPrimary, compute_reconnect_delay cfg (pe_reconnect_attempt st))]\<rparr>)"
  using assms
  by (cases "pe_role st"; auto simp: execute_ensure_primary_dial_def execute_dial_failed_primary_def dial_failed_primary_def ensure_primary_dial_def
      execute_primary_dial_effect_def launch_primary_dial_def spawn_dial_def no_effects_def primary_dial_delay_def on_shared_def Let_def)+

text \<open>
  A message that waits is dialed for: after one of the events that may leave the peer without a primary callis or
  dial, while messages wait, the limit of calles allows one and the address to dial is known, a dial is in flight; it
  was started by the event itself, or, for a mere reminder, was in flight before. An event for a callis that is
  already gone starts a second dial (\<open>stale_close_redials\<close>).
\<close>

theorem waiting_work_is_dialed:
  assumes up: "up = UpEnsurePrimaryDial \<or> up = UpDialFailed CallisPrimary \<or> up = UpDisconnect CallisPrimary callis_id
      \<or> (up = UpConnectionClosed CallisPrimary i reason)"
    and upd: "execute_update cfg id up st tk = (done', st', tk')"
    and after: "\<not> pe_closing st'" "pe_primary st' = []" "has_primary_work (pt_shared tk')" "has_callis_capacity cfg (pt_shared tk')"
      "pt_dial_addr tk = Some peer"
  shows "pe_primary_dial st' = DialDialing
    \<and> (up = UpEnsurePrimaryDial \<and> pe_primary_dial st = DialDialing \<or> (\<exists>delay. pt_dials tk' = pt_dials tk @ [(CallisPrimary, delay)]))"
proof -
  from up show ?thesis
  proof (elim disjE)
    assume up: "up = UpDisconnect CallisPrimary callis_id"
    show ?thesis
      using upd after unfolding up
      by (auto simp: execute_primary_disconnect_def Let_def split: option.splits prod.splits dest: removed_is_dialed)
  next
    assume up: "up = UpConnectionClosed CallisPrimary i reason"
    show ?thesis
      using upd after unfolding up
      by (auto simp: execute_primary_closed_def Let_def split: option.splits prod.splits dest: removed_is_dialed)
  next
    assume up: "up = UpEnsurePrimaryDial"
    with upd have e: "execute_ensure_primary_dial cfg id st tk = (done', st', tk')" by simp
    note same = dial_result_fields(1) [OF e]
    show ?thesis
    proof (cases "pe_primary_dial st")
      case DialIdle
      from ready_is_dialed(1) [of st tk cfg peer, OF _ _ _ _ after(5) DialIdle] after same e show ?thesis by auto
    next
      case DialDialing
      then have "execute_ensure_primary_dial cfg id st tk = (True, st, tk)"
        by (simp add: execute_ensure_primary_dial_def ensure_primary_dial_def no_effects_def)
      with e up DialDialing show ?thesis by simp
    qed
  next
    assume up: "up = UpDialFailed CallisPrimary"
    with upd have e: "execute_dial_failed_primary cfg id st tk = (done', st', tk')" by simp
    from ready_is_dialed(2) [of st tk cfg peer] after dial_result_fields(2) [OF e] e show ?thesis by auto
  qed
qed


text \<open>The state and the task after a number of failed dials in a row.\<close>

fun dials_fail :: "peer_config \<Rightarrow> nat \<Rightarrow> peer_state \<Rightarrow> peer_task \<Rightarrow> peer_state \<times> peer_task" where
  "dials_fail cfg 0 st tk = (st, tk)"
| "dials_fail cfg (Suc n) st tk = (let (_, st, tk) = execute_update cfg id (UpDialFailed CallisPrimary) st tk in dials_fail cfg n st tk)"

lemma redials:
  assumes "\<not> pe_closing st" "pe_primary st = []" "has_primary_work (pt_shared tk)" "has_callis_capacity cfg (pt_shared tk)"
    and "pt_dial_addr tk = Some peer" and "pe_reconnect_attempt st + n \<le> u64_max"
  shows "pt_dials (snd (dials_fail cfg n st tk)) =
      pt_dials tk @ map (\<lambda>k. (CallisPrimary, compute_reconnect_delay cfg (pe_reconnect_attempt st + k))) [0..<n]"
  using assms
proof (induction n arbitrary: st tk)
  case (Suc n)
  let ?st = "st\<lparr>pe_primary_dial := DialDialing, pe_reconnect_attempt := sat_succ (pe_reconnect_attempt st), pe_role := RoleOriginator\<rparr>"
  have succ: "sat_succ (pe_reconnect_attempt st) = Suc (pe_reconnect_attempt st)"
    using Suc.prems(6) by (simp add: sat_succ_def sat_add_def)
  have shift: "map (\<lambda>k. f (Suc (a + k))) [0..<n] = map (\<lambda>k. f (a + k)) [Suc 0..<Suc n]" for f :: "nat \<Rightarrow> callis_kind \<times> duration" and a
    by (subst map_Suc_upt [symmetric]) simp
  from Suc.IH [of ?st "tk\<lparr>pt_dials := pt_dials tk @ [(CallisPrimary, compute_reconnect_delay cfg (pe_reconnect_attempt st))]\<rparr>"] Suc.prems
  have "pt_dials (snd (dials_fail cfg (Suc n) st tk)) = pt_dials tk @ (CallisPrimary, compute_reconnect_delay cfg (pe_reconnect_attempt st)) #
      map (\<lambda>k. (CallisPrimary, compute_reconnect_delay cfg (Suc (pe_reconnect_attempt st + k)))) [0..<n]"
    by (simp add: ready_is_dialed(2) succ del: execute_update.simps(3) add: execute_update.simps(3))
  then show ?case by (simp add: shift [of "\<lambda>k. (CallisPrimary, compute_reconnect_delay cfg k)"] upt_conv_Cons del: upt_Suc)
qed simp

text \<open>
  While messages wait, a peer that cannot be reached is dialed again and again: after a first dial, each of
  any number of failures starts the next dial, with the delays of the configured backoff in turn and its
  last delay from then on.
\<close>

theorem redials_follow_backoff:
  assumes "\<not> pe_closing st" "pe_primary st = []" "has_primary_work (pt_shared tk)" "has_callis_capacity cfg (pt_shared tk)"
    and "pt_dial_addr tk = Some peer" and "pe_reconnect_attempt st = 1" and "n < u64_max" and "pc_reconnect_backoff cfg \<noteq> []"
  shows "pt_dials (snd (dials_fail cfg n st tk)) = pt_dials tk @
      map (\<lambda>k. (CallisPrimary, if k < length (pc_reconnect_backoff cfg) then pc_reconnect_backoff cfg ! k else last (pc_reconnect_backoff cfg))) [0..<n]"
  using redials [OF assms(1-5), of n] assms(6-8) by (auto simp: compute_reconnect_delay_def)

text \<open>
  A close report of a callis that the peer no longer counts as its own, such as one that was disconnected or
  replaced before, takes the dial in flight for ended: a second dial starts beside the first.
\<close>

theorem stale_close_redials:
  assumes "\<not> pe_closing st" "pe_primary st = []" "has_primary_work (pt_shared tk)" "has_callis_capacity cfg (pt_shared tk)"
    and "pt_dial_addr tk = Some peer" and "pe_primary_dial st = DialDialing"
  shows "\<exists>st' tk' delay. execute_update cfg id (UpConnectionClosed CallisPrimary i reason) st tk = (True, st', tk')
    \<and> pt_dials tk' = pt_dials tk @ [(CallisPrimary, delay)]"
  using removed_dials [OF assms(1-5)] assms(1,2) by (auto simp: execute_primary_closed_def)

section \<open>A restarted peer\<close>

lemma drained_pool: "\<not> has_callis (snd (drain_callis m))" "\<not> has_active_streams m \<Longrightarrow> \<not> has_active_streams (snd (drain_callis m))"
  "bm_buffer_tracker (snd (drain_callis m)) = bm_buffer_tracker m"
  by (simp_all add: drain_callis_def has_callis_def has_active_streams_def bump_callis_gen_def)

lemma history_fields: "has_callis (reset_callis_history m) = has_callis m" "has_active_streams (reset_callis_history m) = has_active_streams m"
  "bm_buffer_tracker (reset_callis_history m) = bm_buffer_tracker m" "\<not> bm_had_callis (reset_callis_history m)"
  by (simp_all add: reset_callis_history_def has_callis_def has_active_streams_def)


lemma post_fields [simp]: "pt_shutdowns (post_for tk e) = pt_shutdowns tk" "pt_helpers (post_for tk e) = pt_helpers tk"
  "pt_shutdowns (on_shared tk f) = pt_shutdowns tk" "pt_helpers (on_shared tk f) = pt_helpers tk"
  "pt_helpers (shutdown_handle tk h) = pt_helpers tk" "pt_shutdowns (shutdown_handle tk h) = pt_shutdowns tk @ [ch_id h]"
  "pt_shutdowns (spawn_send_close tk c hs) = pt_shutdowns tk"
  "pt_helpers (spawn_send_close tk c hs) = pt_helpers tk @ (if hs = [] then [] else [SendClose c hs])"
  by (simp_all add: post_for_def on_shared_def shutdown_handle_def spawn_send_close_def split: option.splits)

lemma shutdowns_fold [simp]:
  "pt_shutdowns (foldl (\<lambda>tk h. post_for tk (e h)) tk hs) = pt_shutdowns tk"
  "pt_helpers (foldl (\<lambda>tk h. post_for tk (e h)) tk hs) = pt_helpers tk"
  "pt_shutdowns (foldl (\<lambda>tk h. shutdown_handle (post_for tk (e h)) h) tk hs) = pt_shutdowns tk @ map ch_id hs"
  "pt_helpers (foldl (\<lambda>tk h. shutdown_handle (post_for tk (e h)) h) tk hs) = pt_helpers tk"
  "pt_shutdowns (foldl (\<lambda>tk h. post_for (shutdown_handle tk h) (e h)) tk hs) = pt_shutdowns tk @ map ch_id hs"
  by (induction hs arbitrary: tk) simp_all

lemma fail_all_callis [simp]: "bm_callis (fail_all_streams m err) = bm_callis m"
proof -
  have receivers: "bm_callis (foldl (\<lambda>m (_, stream). on_receiver m (rs_receiver stream) f) m0 xs) = bm_callis m0" for m0 f xs
    by (induction xs arbitrary: m0) (auto simp: on_receiver_def)
  have rings: "bm_callis (foldl (\<lambda>m h. on_ring (on_ring m h f) h g) m0 hs) = bm_callis m0" for m0 f g hs
    by (induction hs arbitrary: m0) auto
  show ?thesis by (simp add: fail_all_streams_def Let_def split_beta receivers rings)
qed

lemma restart_signals:
  assumes "execute_fresh_primary_restart_effect st tk = (st', tk')"
  shows "pt_helpers tk' = pt_helpers tk @ (if pe_primary st = [] then [] else [SendClose CallisPrimary (pe_primary st)])"
    "pt_shutdowns tk' = pt_shutdowns tk @ map (\<lambda>(_, h). ch_id h) (bp_handles (bm_callis (ps_blob (pt_shared tk))))"
  using assms by (auto simp: execute_fresh_primary_restart_effect_def Let_def split_beta drain_callis_def comp_def)

lemma all_failed:
  assumes "reachable_session s" and "ss_dispatch s' = dispatch_step (ss_dispatch s) x" and "store_op_of (ss_dispatch s) x = Some y"
    and "y = FailAllOp err \<or> y = FailNonA1Op err"
  shows "session_pending s' = Map.empty
    \<and> (\<exists>es. po_sent (ss_dispatch s') = po_sent (ss_dispatch s) @ es
         \<and> set es = {tracked_effect (Inl err) t |t p d. session_pending s p = Some (t, d)})"
proof -
  have keeps: "op_keeps y td = False" "op_result y = Inl err" "op_admits st y = None" for td st
    using assms(4) by (cases td; auto simp: op_admits_def)+
  have none: "keep_pending (op_keeps y) m = Map.empty" for m
    by (auto simp: keep_pending_def fun_eq_iff keeps split: option.splits)
  from queue_op_pending [OF assms(1-3) keeps(3)] show ?thesis by (simp add: none keeps)
qed

lemma blob_emptied:
  assumes "blob_reach base m" and "m' = snd (drain_callis (fail_all_streams m err))"
  shows "\<not> has_callis m'" "\<not> has_active_streams m'" "used (bm_buffer_tracker m') side = used base side"
  using fail_all_exact [OF assms(1) refl, of side err] by (simp_all add: assms(2) drained_pool)

text \<open>
  C16. A fresh session meets nothing of the old one. When a primary callis comes up with a fresh session, it is
  the only one left; every message that was pending is completed with a restart error and none is pending;
  no stream and no blob callis is left, nor the memory of one, and the bytes the peer had reserved are given
  back. The old primary calles are asked to close, the blob calles are shut down.
\<close>

theorem fresh_session_boundary:
  assumes "blob_reach base (ps_blob (pt_shared tk))" and "reachable_session (ps_session (pt_shared tk))"
    and "\<not> pe_closing st" "\<not> ss_closing (ps_session (pt_shared tk))" "ci_fresh_session info" "ci_replay info = []"
    and "execute_update cfg mid (UpConnected CallisPrimary info) st tk = (done', st', tk')"
  shows "pe_primary st' = [ci_handle info] \<and> ps_primary_active (pt_shared tk')
    \<and> session_pending (ps_session (pt_shared tk')) = Map.empty
    \<and> (\<exists>es. po_sent (ss_dispatch (ps_session (pt_shared tk'))) = po_sent (ss_dispatch (ps_session (pt_shared tk))) @ es
         \<and> set es = {tracked_effect (Inl (err_new PeerRestarted)) t |t p d. session_pending (ps_session (pt_shared tk)) p = Some (t, d)})
    \<and> \<not> has_callis (ps_blob (pt_shared tk')) \<and> \<not> has_active_streams (ps_blob (pt_shared tk')) \<and> \<not> bm_had_callis (ps_blob (pt_shared tk'))
    \<and> used (bm_buffer_tracker (ps_blob (pt_shared tk'))) side = used base side
    \<and> pt_helpers tk' = pt_helpers tk @ (if pe_primary st = [] then [] else [SendClose CallisPrimary (pe_primary st)])
    \<and> pt_shutdowns tk' = pt_shutdowns tk @ map (\<lambda>(_, h). ch_id h) (bp_handles (bm_callis (ps_blob (pt_shared tk))))"
proof -
  let ?st = "st\<lparr>pe_had_primary := True, pe_reconnect_attempt := 0, pe_primary_dial := DialIdle\<rparr>"
  obtain st1 tk1 where r: "execute_fresh_primary_restart_effect ?st tk = (st1, tk1)" by fastforce
  note f = restart_fields [OF r] restart_signals [OF r]
  have "st' = st1\<lparr>pe_primary := pe_primary st1 @ [ci_handle info]\<rparr>" and sh: "pt_shared tk' = (pt_shared tk1)\<lparr>ps_primary_active := True\<rparr>"
    and signals: "pt_helpers tk' = pt_helpers tk1" "pt_shutdowns tk' = pt_shutdowns tk1"
    using assms(3-7) r by (auto simp: execute_connected_primary_def connected_primary_def no_effects_def set_primary_active_def Let_def)
  moreover have "ss_dispatch (ps_session (pt_shared tk')) = dispatch_step (ss_dispatch (ps_session (pt_shared tk))) DClear"
    by (simp add: sh f(5))
  note all_failed [OF assms(2) this, of _ "err_new PeerRestarted"]
  moreover have "\<not> has_callis (ps_blob (pt_shared tk'))" "\<not> has_active_streams (ps_blob (pt_shared tk'))" "\<not> bm_had_callis (ps_blob (pt_shared tk'))"
    "used (bm_buffer_tracker (ps_blob (pt_shared tk'))) side = used base side"
    using blob_emptied [OF assms(1) refl, of "err_new PeerRestarted"] by (simp_all add: sh f(6) history_fields)
  ultimately show ?thesis using f by simp
qed

section \<open>A peer that stays away\<close>

text \<open>
  C17. A peer that stays away is given up, exactly when its time is over. When the timer fires while the peer has
  been without any callis for the send timeout, the peer closes: every pending message is completed as
  unavailable and none is pending, no stream is left and its bytes are given back. If a blob callis is up,
  the session is closing already or the time is not over, the timer changes nothing but the clock.
\<close>

theorem impaired_peer_given_up:
  assumes "peer_run cfg st tk" and "pe_impaired_since st = Some since"
    and "blob_reach base (ps_blob (pt_shared tk))" and "reachable_session (ps_session (pt_shared tk))"
    and "peer_turn cfg mid now PeerDeadline st tk = Some (st', tk')"
  shows "if since + pc_send_timeout cfg \<le> now \<and> \<not> has_callis (ps_blob (pt_shared tk)) \<and> \<not> ss_closing (ps_session (pt_shared tk))
    then pe_closing st' \<and> ss_closing (ps_session (pt_shared tk'))
      \<and> session_pending (ps_session (pt_shared tk')) = Map.empty
      \<and> (\<exists>es. po_sent (ss_dispatch (ps_session (pt_shared tk'))) = po_sent (ss_dispatch (ps_session (pt_shared tk))) @ es
           \<and> set es = {tracked_effect (Inl (err_new PeerUnavailable)) t |t p d. session_pending (ps_session (pt_shared tk)) p = Some (t, d)})
      \<and> \<not> has_active_streams (ps_blob (pt_shared tk')) \<and> used (bm_buffer_tracker (ps_blob (pt_shared tk'))) side = used base side
    else tk' = tk \<and> (\<exists>clock. st' = st\<lparr>pe_impaired_since := clock\<rparr>)"
proof -
  have awake: "\<not> pe_closing st" "pe_primary st = []" using run_impaired [OF assms(1)] assms(2) by simp_all
  have snap: "bl_has_callis (lifecycle_snapshot m) = has_callis m" for m by (simp add: lifecycle_snapshot_def has_callis_def)
  have clock: "\<exists>c. update_impaired_since s sh now = s\<lparr>pe_impaired_since := c\<rparr>" for s sh
    by (cases s) (auto simp: update_impaired_since_def)
  obtain st1 tk1 where d: "deadline_arm cfg st tk now = (st1, tk1)" by fastforce
  with assms(5) have turn: "st' = update_impaired_since st1 (pt_shared tk1) now" "tk' = tk1" by (auto simp: peer_turn_def)
  show ?thesis
  proof (cases "since + pc_send_timeout cfg \<le> now \<and> \<not> has_callis (ps_blob (pt_shared tk)) \<and> \<not> ss_closing (ps_session (pt_shared tk))")
    case True
    with d assms(2) awake snap have "teardown_peer_handle st tk ReasonLocalRequest = (st1, tk1)" by (simp add: deadline_arm_def)
    note gone = teardown_shared [OF this awake(1)]
    have "ss_dispatch (ps_session (pt_shared tk1)) = dispatch_step (ss_dispatch (ps_session (pt_shared tk))) (DFailNonA1 (err_new PeerUnavailable))"
      by (simp add: gone)
    note all_failed [OF assms(4) this, of _ "err_new PeerUnavailable"]
    with gone blob_emptied [OF assms(3) gone(9)] True turn show ?thesis by simp
  next
    case False
    with d assms(2) snap awake have "st1 = st" "tk1 = tk" by (auto simp: deadline_arm_def split: if_splits)
    with turn clock False show ?thesis by (auto split: if_splits)
  qed
qed

section \<open>A closing peer\<close>

definition winding_down :: "peer_state \<Rightarrow> peer_task \<Rightarrow> peer_state \<times> peer_task \<Rightarrow> bool" where
  "winding_down st tk r \<longleftrightarrow> pe_closing (fst r) \<and> set (pe_primary (fst r)) \<subseteq> set (pe_primary st) \<and> pt_dials (snd r) = pt_dials tk"

lemma closing_ensure:
  "pe_closing st \<Longrightarrow> ensure_primary_dial st w c = (no_effects, st)" "pe_closing st \<Longrightarrow> ensure_blob_dial st p b s c = (no_effects, st)"
  by (simp_all add: ensure_primary_dial_def ensure_blob_dial_def)

lemma closing_blob:
  assumes "pe_closing st" and "\<And>p b s c. transition p b s c = (no_effects, st1)" "pe_closing st1" "pe_primary st1 = pe_primary st" "pt_dials tk1 = pt_dials tk"
  shows "winding_down st tk (snd (blob_dial_with transition cfg mid tk1))"
  using assms by (simp add: blob_dial_with_def winding_down_def Let_def no_effects_def)

lemma closing_removed:
  assumes "pe_closing st1" and "set (pe_primary st1) \<subseteq> set (pe_primary st)" and "pt_dials tk1 = pt_dials tk"
  shows "winding_down st tk (snd (execute_after_primary_removed cfg mid allow st1 tk1))"
  using assms by (auto simp: execute_after_primary_removed_def winding_down_def Let_def split_beta removed_spawns removed_fields)

lemma closing_update:
  assumes "pe_closing st"
  shows "winding_down st tk (snd (execute_update cfg mid up st tk))"
proof -
  note blobs = execute_dial_failed_blob_def execute_ensure_blob_dial_def execute_after_blob_removed_def dial_failed_blob_def blob_removed_def
    execute_blob_disconnect_def execute_blob_closed_def
  have blob: "winding_down st tk (snd (execute_dial_failed_blob cfg mid st tk))" "winding_down st tk (snd (execute_ensure_blob_dial cfg mid st tk))"
    "winding_down st tk (snd (execute_blob_disconnect cfg mid ci reason st tk))" "winding_down st tk (snd (execute_blob_closed cfg mid i reason st tk))"
    for ci i reason
    using assms by (auto simp: blobs Let_def split_beta closing_ensure split: option.splits intro!: closing_blob)
  have primary: "winding_down st tk (snd (execute_primary_disconnect cfg mid ci reason st tk))"
    "winding_down st tk (snd (execute_primary_closed cfg mid i reason st tk))" for ci i reason
    using assms by (auto simp: execute_primary_disconnect_def execute_primary_closed_def Let_def split: option.splits prod.splits
        intro!: closing_removed dest: remove_handle_mem)
  have rest: "winding_down st tk (snd (execute_ensure_primary_dial cfg mid st tk))" "winding_down st tk (snd (execute_dial_failed_primary cfg mid st tk))"
    "winding_down st tk (snd (execute_connected_primary st tk info))" "winding_down st tk (snd (execute_connected_blob st tk info))"
    "winding_down st tk (snd (execute_graceful_close st tk))" for info
    using assms
    by (auto simp: execute_ensure_primary_dial_def execute_dial_failed_primary_def dial_failed_primary_def closing_ensure no_effects_def
        execute_connected_primary_def connected_primary_def execute_connected_blob_def connected_blob_def execute_graceful_close_def
        graceful_close_def winding_down_def Let_def)
  show ?thesis using blob primary rest by (cases "(cfg, mid, up, st, tk)" rule: execute_update.cases) auto
qed

text \<open>
  A peer that closes stays closed: whatever happens afterwards, it stays closing, it starts no dial, and it
  takes no primary callis, but only loses those it has; one that comes up is asked to close.
\<close>

theorem closed_peer_is_final:
  assumes "pe_closing st" and "peer_turn cfg mid now ev st tk = Some (st', tk')"
  shows "pe_closing st' \<and> set (pe_primary st') \<subseteq> set (pe_primary st) \<and> pt_dials tk' = pt_dials tk
    \<and> (\<forall>info callis. ev = PeerUpdate (UpConnected callis info) \<longrightarrow> pt_helpers tk' = pt_helpers tk @ [SendClose callis [ci_handle info]])"
proof -
  have "deadline_arm cfg st tk now = (st, tk)" using assms(1) by (simp add: deadline_arm_def split: option.splits)
  then have "winding_down st tk (st', tk')"
    using assms closing_update [OF assms(1), of tk cfg mid]
    by (auto simp: peer_turn_def winding_down_def Let_def split_beta split: peer_event.splits if_splits) (meson subsetD)
  moreover have "pt_helpers tk' = pt_helpers tk @ [SendClose callis [ci_handle info]]" if "ev = PeerUpdate (UpConnected callis info)" for callis info
    using assms that by (cases callis) (auto simp: peer_turn_def execute_connected_primary_def connected_primary_def execute_connected_blob_def
        connected_blob_def no_effects_def Let_def)
  ultimately show ?thesis by (simp add: winding_down_def)
qed

section \<open>A small peer\<close>

definition sample_peer_config :: peer_config where
  "sample_peer_config = \<lparr>pc_max_parallel = 2, pc_send_timeout = 5, pc_reconnect_backoff = [3, 7], pc_listener_delay = 1,
     pc_listener_reconnect_timeout = 2\<rparr>"

definition sample_task :: "peer_session \<Rightarrow> peer_task" where
  "sample_task s = \<lparr>pt_shared = (sample_shared False)\<lparr>ps_session := s\<rparr>, pt_dial_addr = Some (AddrSocket ''/run/a''), pt_dials = [],
     pt_shutdowns = [], pt_helpers = [], pt_posts = []\<rparr>"

definition sample_info :: "bool \<Rightarrow> connection_info" where
  "sample_info fresh = \<lparr>ci_handle = \<lparr>ch_id = 4, ch_tx = TxPrimary\<rparr>, ci_replay = [], ci_fresh_session = fresh,
     ci_blob_settings = None, ci_blob_resume = False\<rparr>"

lemma sample_task_simps [simp]:
  "ps_session (pt_shared (sample_task s)) = s" "\<not> ps_primary_active (pt_shared (sample_task s))" "pt_dials (sample_task s) = []"
  "pt_dial_addr (sample_task s) = Some (AddrSocket ''/run/a'')" "ps_blob (pt_shared (sample_task s)) = new_manager"
  "pt_helpers (sample_task s) = []" "pt_shutdowns (sample_task s) = []"
  by (simp_all add: sample_task_def sample_shared_def)

lemma sample_peer_room: "has_callis_capacity sample_peer_config (pt_shared (sample_task s))"
  by (simp add: has_callis_capacity_def sample_peer_config_def sample_task_def sample_shared_def tracker_count_def tracker_new_def)

lemma sample_waiting: "has_primary_work (pt_shared (sample_task sample_open))" "\<not> ss_closing sample_open"
proof -
  show "\<not> ss_closing sample_open" by (simp add: session_eval Let_def)
  then show "has_primary_work (pt_shared (sample_task sample_open))"
    by (simp add: has_primary_work_def) (simp add: session_eval Let_def has_inflight_def dispatch_has_entries_def)
qed

lemma sample_manager: "blob_reach no_bytes new_manager" "\<not> has_callis new_manager" "bp_handles (bm_callis new_manager) = []"
  by (simp add: new_manager_def reach_start)
    (simp_all add: new_manager_def has_callis_def blob_manager_new_def blob_callis_pool_new_def)

lemma sample_peer_start: "peer_run sample_peer_config peer_state_new (sample_task s)"
  by (rule peer_run.start) simp

theorem peer_view_consistent_witness:
  "ps_primary_active (pt_shared (sample_task sample_open)) = (pe_primary peer_state_new \<noteq> [])"
  using peer_view_consistent [OF sample_peer_start, of sample_open] by blast

lemma sample_ensure: "execute_update sample_peer_config id UpEnsurePrimaryDial peer_state_new (sample_task sample_open) =
    (True, peer_state_new\<lparr>pe_primary_dial := DialDialing, pe_reconnect_attempt := Suc 0, pe_role := RoleOriginator\<rparr>,
     (sample_task sample_open)\<lparr>pt_dials := [(CallisPrimary, 1)]\<rparr>)"
  using ready_is_dialed(1) [of peer_state_new "sample_task sample_open" sample_peer_config, OF _ _ sample_waiting(1) sample_peer_room sample_task_simps(4)]
  by (simp add: peer_state_new_def sat_succ_def sat_add_def primary_dial_delay_def compute_listener_delay_def sample_peer_config_def)

theorem dials_only_when_needed_witness:
  "\<exists>ds. [(CallisPrimary, 1)] = [] @ ds \<and> length ds \<le> 1
    \<and> (\<forall>(callis, delay) \<in> set ds. has_callis_capacity sample_peer_config (pt_shared (sample_task sample_open)))"
  using dials_only_when_needed [OF sample_peer_start sample_ensure] by fastforce

theorem waiting_work_is_dialed_witness:
  "\<exists>st' tk' delay. execute_update sample_peer_config id UpEnsurePrimaryDial peer_state_new (sample_task sample_open) = (True, st', tk')
    \<and> pe_primary_dial st' = DialDialing \<and> pt_dials tk' = [(CallisPrimary, delay)]"
  using waiting_work_is_dialed [OF disjI1 [OF refl] sample_ensure] sample_waiting(1) sample_peer_room sample_ensure
  by (simp add: peer_state_new_def has_callis_capacity_def)

theorem redials_follow_backoff_witness:
  "pt_dials (snd (dials_fail sample_peer_config 4 (peer_state_new\<lparr>pe_reconnect_attempt := 1\<rparr>) (sample_task sample_open))) =
     [(CallisPrimary, 3), (CallisPrimary, 7), (CallisPrimary, 7), (CallisPrimary, 7)]"
proof -
  have c: "pc_reconnect_backoff sample_peer_config = [3, 7]" by (simp add: sample_peer_config_def)
  show ?thesis
    using redials_follow_backoff [OF _ _ sample_waiting(1) sample_peer_room sample_task_simps(4),
        of "peer_state_new\<lparr>pe_reconnect_attempt := 1\<rparr>" 4]
    by (simp add: c peer_state_new_def upt_rec)
qed

theorem stale_close_redials_witness:
  "\<exists>st' tk' delay. execute_update sample_peer_config id (UpConnectionClosed CallisPrimary 9 CancelRemoteClose)
       (peer_state_new\<lparr>pe_primary_dial := DialDialing\<rparr>) (sample_task sample_open) = (True, st', tk')
    \<and> pt_dials tk' = [(CallisPrimary, delay)]"
  using stale_close_redials [OF _ _ sample_waiting(1) sample_peer_room sample_task_simps(4), of "peer_state_new\<lparr>pe_primary_dial := DialDialing\<rparr>"
      9 CancelRemoteClose]
  by (simp add: peer_state_new_def)

theorem fresh_session_boundary_witness:
  "\<exists>st' tk'. execute_update sample_peer_config id (UpConnected CallisPrimary (sample_info True)) peer_state_new (sample_task sample_open) = (True, st', tk')
    \<and> pe_primary st' = [ci_handle (sample_info True)] \<and> session_pending (ps_session (pt_shared tk')) = Map.empty"
proof -
  have reach: "blob_reach no_bytes (ps_blob (pt_shared (sample_task sample_open)))" "reachable_session (ps_session (pt_shared (sample_task sample_open)))"
    "\<not> ss_closing (ps_session (pt_shared (sample_task sample_open)))"
    unfolding sample_task_simps by (rule sample_manager(1) sample_session_reachable sample_waiting(2))+
  obtain d st' tk' where e: "execute_update sample_peer_config id (UpConnected CallisPrimary (sample_info True)) peer_state_new (sample_task sample_open) = (d, st', tk')"
    using prod_cases3 by blast
  moreover have d using e sample_waiting(2)
    by (auto simp: execute_connected_primary_def connected_primary_def peer_state_new_def no_effects_def Let_def split: prod.splits if_splits)
  moreover note fresh_session_boundary [OF reach(1,2) _ reach(3) _ _ e]
  ultimately show ?thesis by (simp add: sample_info_def peer_state_new_def)
qed

lemma sample_impaired:
  assumes "\<not> ss_closing s"
  shows "\<exists>st. peer_run sample_peer_config st (sample_task s) \<and> pe_impaired_since st = Some 3"
proof -
  let ?st1 = "peer_state_new\<lparr>pe_had_primary := True, pe_primary := [ci_handle (sample_info False)]\<rparr>"
  let ?cfg = sample_peer_config
  obtain tk1 where one: "peer_turn ?cfg id 0 (PeerUpdate (UpConnected CallisPrimary (sample_info False))) peer_state_new (sample_task s) = Some (?st1, tk1)"
    and sh1: "pt_shared tk1 = (pt_shared (sample_task s))\<lparr>ps_primary_active := True\<rparr>"
    using assms by (simp add: peer_turn_def execute_connected_primary_def connected_primary_def no_effects_def peer_state_new_def sample_info_def
        update_impaired_since_def Let_def)
  have id_keeps: "\<forall>sh. others_keep sh (id sh)" by (simp add: others_keep_def)
  let ?st2 = "?st1\<lparr>pe_primary := []\<rparr>"
  obtain tk' where close: "execute_update ?cfg id (UpDisconnect CallisPrimary None) ?st1 tk1 = execute_after_primary_removed ?cfg id True ?st2 tk'"
    and tk': "ps_blob (pt_shared tk') = new_manager" "ss_closing (ps_session (pt_shared tk')) = ss_closing s"
    by (simp add: execute_primary_disconnect_def sh1 Let_def)
  obtain d st3 tk3 where e: "execute_after_primary_removed ?cfg id True ?st2 tk' = (d, st3, tk3)" using prod_cases3 by blast
  note f = after_removed_fields [OF e] removed_keeps [OF e]
  have fs: "pe_primary st3 = []" "\<not> pe_closing st3" "pe_had_primary st3" "pe_impaired_since st3 = None"
    using f by (simp_all add: peer_state_new_def)
  have "peer_turn ?cfg id 3 (PeerUpdate (UpDisconnect CallisPrimary None)) ?st1 tk1 = Some (st3\<lparr>pe_impaired_since := Some 3\<rparr>, tk3)"
    using assms tk' sample_manager(2) fs f(3)
    by (simp del: execute_update.simps add: peer_turn_def trans [OF close e] update_impaired_since_def lifecycle_snapshot_def has_callis_def)
  from peer_run.turn [OF peer_run.turn [OF sample_peer_start id_keeps one] id_keeps this]
  have "peer_run ?cfg (st3\<lparr>pe_impaired_since := Some 3\<rparr>) tk3" .
  moreover have "others_keep (pt_shared tk3) (pt_shared (sample_task s))" using f(3) tk'(2) assms by (simp add: others_keep_def)
  ultimately have "peer_run ?cfg (st3\<lparr>pe_impaired_since := Some 3\<rparr>) (sample_task s)" by (rule peer_run.others)
  then show ?thesis by (rule exI [where x = "st3\<lparr>pe_impaired_since := Some 3\<rparr>", OF conjI]) simp
qed

theorem impaired_peer_given_up_witness:
  "\<exists>st st' tk'. peer_turn sample_peer_config id 8 PeerDeadline st (sample_task sample_open) = Some (st', tk')
    \<and> pe_closing st' \<and> session_pending (ps_session (pt_shared tk')) = Map.empty"
proof -
  obtain st where run: "peer_run sample_peer_config st (sample_task sample_open)" "pe_impaired_since st = Some 3"
    using sample_impaired [OF sample_waiting(2)] by blast
  have reach: "blob_reach no_bytes (ps_blob (pt_shared (sample_task sample_open)))" "reachable_session (ps_session (pt_shared (sample_task sample_open)))"
    unfolding sample_task_simps by (rule sample_manager(1) sample_session_reachable)+
  obtain st' tk' where e: "peer_turn sample_peer_config id 8 PeerDeadline st (sample_task sample_open) = Some (st', tk')"
    by (simp add: peer_turn_def split_beta)
  have "(3 :: instant) + pc_send_timeout sample_peer_config \<le> 8" by (simp add: sample_peer_config_def)
  with impaired_peer_given_up [OF run reach e] sample_manager(2) sample_waiting(2)
  have "pe_closing st'" "session_pending (ps_session (pt_shared tk')) = Map.empty" unfolding sample_task_simps by (simp_all split: if_splits)
  with e show ?thesis by blast
qed

theorem closed_peer_is_final_witness:
  "\<exists>st' tk'. peer_turn sample_peer_config id 8 (PeerUpdate (UpConnected CallisPrimary (sample_info False)))
       (peer_state_new\<lparr>pe_closing := True\<rparr>) (sample_task sample_open) = Some (st', tk')
    \<and> pe_primary st' = [] \<and> pt_helpers tk' = [SendClose CallisPrimary [ci_handle (sample_info False)]]"
proof -
  let ?st = "peer_state_new\<lparr>pe_closing := True\<rparr>"
  obtain st' tk' where e: "peer_turn sample_peer_config id 8 (PeerUpdate (UpConnected CallisPrimary (sample_info False))) ?st (sample_task sample_open) = Some (st', tk')"
    by (simp add: peer_turn_def split_beta)
  from closed_peer_is_final [OF _ this] e show ?thesis by (auto simp: peer_state_new_def)
qed

end
