(* ===== verification/Peer_Send.thy ===== *)
theory Peer_Send
  imports Config Observability Peer_Contract Blob_Adapter
begin

text \<open>
  Sending to a peer and the registry of peers (\<^verbatim>\<open>src/crates/peering/src/transport/peer.rs\<close>, \<^verbatim>\<open>transport/mod.rs\<close>,
  \<^verbatim>\<open>transport/listener.rs\<close>), the routing of a send to a local taberna or a remote peer
  (\<^verbatim>\<open>peering/dispatch.rs\<close>) and the map of routes of \<^verbatim>\<open>src/crates/resolver/src/lib.rs\<close>.

  A send waits several times, and the other tasks of the peer run meanwhile: \<open>sv_others k\<close> is what they do to the
  shared state at the \<open>k\<close>th such point. The times read, the state of the peer-state channel at each
  signal, the outcome of the acknowledgement wait and the configuration at each snapshot are given likewise.
  A call that still waits is \<open>None\<close>; \<open>sv_waits k\<close> says that it still waits at the \<open>k\<close>th point when its caller gives it up.
\<close>

section \<open>Sending a message\<close>

record send_env =
  sv_now :: "nat \<Rightarrow> instant"
  sv_cfg :: "nat \<Rightarrow> domus_config"
  sv_others :: "nat \<Rightarrow> peer_shared \<Rightarrow> peer_shared"
  sv_signal :: "nat \<Rightarrow> try_send"
  sv_tx :: nat
  sv_waited :: ack_wait
  sv_waits :: "nat \<Rightarrow> bool"
  sv_callis_turns :: "(instant \<times> (peer_shared \<Rightarrow> peer_shared) \<times> bool) list"

definition send_config :: "domus_config \<Rightarrow> session_config" where
  "send_config cfg = \<lparr>cf_send_queue_size = word_of_nat (dc_send_queue_size cfg), cf_send_timeout = dc_send_timeout cfg\<rparr>"

definition peer_send :: "send_env \<Rightarrow> peer_shared \<Rightarrow> taberna_id \<Rightarrow> message_type \<Rightarrow> u8 list \<Rightarrow> unit result option \<times> peer_shared" where
  "peer_send env sh taberna_id msg_type payload =
     (case create_outgoing (ps_session sh) 0 taberna_id msg_type 0 payload (send_config (sv_cfg env 0)) (sv_tx env) (sv_now env 0) of
        (None, s) \<Rightarrow> (None, sh\<lparr>ps_session := s\<rparr>)
      | (Some (Inl err), s) \<Rightarrow> (Some (Inl err), sh\<lparr>ps_session := s\<rparr>)
      | (Some (Inr (message, waiter)), s) \<Rightarrow>
          let sh = sh\<lparr>ps_session := s\<rparr> in
          case try_signal_peer_state_ensure (sv_signal env 0) of
            Inl err \<Rightarrow> (Some (Inl err), sh)
          | Inr _ \<Rightarrow>
              let sh = sv_others env 0 sh;
                  (r, s) = wait_for_ack (ps_session sh) waiter (sv_waited env) (sv_now env 1)
              in (Some r, sh\<lparr>ps_session := s\<rparr>))"

section \<open>Opening a blob stream\<close>

text \<open>Each turn has the time it reads, what the others do until it wakes up, and whether it woke up by its timeout.\<close>

fun wait_for_callis :: "(instant \<times> (peer_shared \<Rightarrow> peer_shared) \<times> bool) list \<Rightarrow> peer_shared \<Rightarrow> instant \<Rightarrow> unit result option \<times> peer_shared" where
  "wait_for_callis [] sh deadline = (None, sh)"
| "wait_for_callis ((now, others, elapsed) # turns) sh deadline =
     (case wait_for_callis_turn (ps_blob sh) deadline now of
        Some r \<Rightarrow> (Some r, sh)
      | None \<Rightarrow> if elapsed then (Some (Inl (err_new SendTimeout)), others sh) else wait_for_callis turns (others sh) deadline)"

definition shared_select_callis :: "peer_shared \<Rightarrow> (nat \<times> blob_callis_settings) option \<times> peer_shared" where
  "shared_select_callis sh =
     (let (r, blob) = select_callis (ps_blob sh)
      in (map_option (\<lambda>(callis_id, handle, settings). (callis_id, settings)) r, sh\<lparr>ps_blob := blob\<rparr>))"

definition ensure_blob_callis :: "send_env \<Rightarrow> peer_shared \<Rightarrow> (nat \<times> blob_callis_settings) result option \<times> peer_shared" where
  "ensure_blob_callis env sh =
     (if \<not> ps_primary_active sh then (Some (Inl (err_new BlobCallisWithoutPrimary)), sh)
      else case shared_select_callis sh of
             (Some r, sh) \<Rightarrow> (Some (Inr r), sh)
           | (None, sh) \<Rightarrow>
               (case try_signal_peer_state_ensure (sv_signal env 1) of
                  Inl err \<Rightarrow> (Some (Inl err), sh)
                | Inr _ \<Rightarrow>
                    (case wait_for_callis (sv_callis_turns env) sh (sv_now env 2 + dc_send_timeout (sv_cfg env 1)) of
                       (None, sh) \<Rightarrow> (None, sh)
                     | (Some (Inl err), sh) \<Rightarrow> (Some (Inl err), sh)
                     | (Some (Inr _), sh) \<Rightarrow>
                         (case shared_select_callis (sv_others env 3 sh) of
                            (None, sh) \<Rightarrow> (Some (Inl (err_new PeerUnavailable)), sh)
                          | (Some r, sh) \<Rightarrow> (Some (Inr r), sh)))))"

record outbound_reservation =
  rs_stream_id :: peer_message_id
  rs_active :: bool

definition reservation_new :: "peer_message_id \<Rightarrow> outbound_reservation" where
  "reservation_new stream_id = \<lparr>rs_stream_id = stream_id, rs_active = True\<rparr>"

definition reservation_commit :: "outbound_reservation \<Rightarrow> outbound_reservation" where
  "reservation_commit r = r\<lparr>rs_active := False\<rparr>"

text \<open>
  The first half of the release: the reservation is marked as given back before the release waits for the tables. A call
  that is given up at that wait does not give it back, and neither does the drop.
\<close>

definition reservation_release_begin :: "outbound_reservation \<Rightarrow> outbound_reservation" where
  "reservation_release_begin r = r\<lparr>rs_active := False\<rparr>"

definition reservation_release :: "outbound_reservation \<Rightarrow> peer_shared \<Rightarrow> outbound_reservation \<times> peer_shared" where
  "reservation_release r sh =
     (if rs_active r then (reservation_release_begin r, sh\<lparr>ps_blob := release_outbound (ps_blob sh) (rs_stream_id r)\<rparr>) else (r, sh))"

text \<open>Dropping the reservation, as happens when a caller gives up a send that still waits: the task that releases it is taken to run at once.\<close>

definition reservation_drop :: "outbound_reservation \<Rightarrow> peer_shared \<Rightarrow> peer_shared" where
  "reservation_drop r sh =
     (if rs_active r then sh\<lparr>ps_blob := release_outbound (ps_blob sh) (rs_stream_id r)\<rparr> else sh)"

definition open_blob_sender ::
  "send_env \<Rightarrow> ack_waiter \<Rightarrow> outbound_reservation \<Rightarrow> peer_shared \<Rightarrow> blob_sender_stream result option \<times> outbound_reservation \<times> peer_shared" where
  "open_blob_sender env waiter reservation sh =
     (let sh = sv_others env 1 sh in
      if sv_waits env 1 then (None, reservation, sh)
      else
      let (r, s) = wait_for_ack (ps_session sh) waiter (sv_waited env) (sv_now env 1);
          sh = sh\<lparr>ps_session := s\<rparr>
      in case r of
           Inl err \<Rightarrow> (Some (Inl err), reservation, sh)
         | Inr _ \<Rightarrow>
             (case ensure_blob_callis env (sv_others env 2 sh) of
                (None, sh) \<Rightarrow> (None, reservation, sh)
              | (Some (Inl err), sh) \<Rightarrow> (Some (Inl err), reservation, sh)
              | (Some (Inr (callis_id, settings)), sh) \<Rightarrow>
                  if bs_chunk_size settings = 0 \<or> bs_ack_window_chunks settings = 0
                  then (Some (Inl (err_new ProtocolViolation)), reservation, sh)
                  else let sh = sv_others env 4 sh in
                       if sv_waits env 4 then (None, reservation, sh)
                       else
                       let (ring, blob) = register_outbound_stream (ps_blob sh) (rs_stream_id reservation) settings;
                           sh = sh\<lparr>ps_blob := blob\<rparr>
                       in case ring of
                            Inl err \<Rightarrow> (Some (Inl err), reservation, sh)
                          | Inr ring \<Rightarrow>
                              (Some (Inr (sender_stream_new (rs_stream_id reservation) ring (dc_send_timeout (sv_cfg env 2)))),
                               reservation_commit reservation, sh)))"

text \<open>The reservation is made in its two halves, with a wait for the tables in between.\<close>

definition peer_send_blob ::
  "send_env \<Rightarrow> peer_shared \<Rightarrow> taberna_id \<Rightarrow> message_type \<Rightarrow> u8 list \<Rightarrow> blob_sender_stream result option \<times> outbound_reservation option \<times> peer_shared" where
  "peer_send_blob env sh taberna_id msg_type payload =
     (if ss_closing (ps_session sh) then (Some (Inl (err_new PeerUnavailable)), None, sh)
      else case create_outgoing (ps_session sh) 0 taberna_id msg_type WireFlags_BLOB payload (send_config (sv_cfg env 0)) (sv_tx env) (sv_now env 0) of
        (None, s) \<Rightarrow> (None, None, sh\<lparr>ps_session := s\<rparr>)
      | (Some (Inl err), s) \<Rightarrow> (Some (Inl err), None, sh\<lparr>ps_session := s\<rparr>)
      | (Some (Inr (message, waiter)), s) \<Rightarrow>
          let sh = sh\<lparr>ps_session := s\<rparr>;
              stream_id = pm_peer_msg_id message;
              cfg = sv_cfg env 2
          in case try_signal_peer_state_ensure (sv_signal env 0) of
               Inl err \<Rightarrow> (Some (Inl err), None, sh)
             | Inr _ \<Rightarrow>
                 let sh = sv_others env 0 sh;
                     bytes = sat_mul (unat (bw_chunk_size (dc_blob_window cfg))) (unat (bw_ack_window (dc_blob_window cfg)));
                     (counted, blob) = count_bytes (ps_blob sh) SideOutbound bytes (dc_blob_outbound_buffer_bytes cfg);
                     sh = sh\<lparr>ps_blob := blob\<rparr>
                 in if \<not> counted
                    then let err = blob_buffer_full_error ''outbound'' (dc_blob_outbound_buffer_bytes cfg)
                         in (Some (Inl err), None, sh\<lparr>ps_session := snd (handle_error (ps_session sh) stream_id err)\<rparr>)
                    else if sv_waits env 0 then (None, None, sh)
                    else let sh = sv_others env 6 sh;
                             sh = sh\<lparr>ps_blob := enter_bytes (ps_blob sh) SideOutbound stream_id bytes\<rparr>;
                             (sender, reservation, sh) = open_blob_sender env waiter (reservation_new stream_id) sh
                         in case sender of
                              Some (Inl err) \<Rightarrow>
                                let sh = sv_others env 5 sh in
                                if sv_waits env 5 then (None, Some (reservation_release_begin reservation), sh)
                                else let (reservation, sh) = reservation_release reservation sh in (sender, Some reservation, sh)
                            | _ \<Rightarrow> (sender, Some reservation, sh))"

section \<open>The reservation of a stream\<close>

abbreviation reserved_bytes :: "peer_shared \<Rightarrow> peer_message_id \<Rightarrow> nat option" where
  "reserved_bytes sh stream_id \<equiv> map_of (rv_outbound (bm_reservations (ps_blob sh))) stream_id"

text \<open>The other tasks leave the reservation of a stream as it is, at the given points and while the send waits for a callis.\<close>

definition leaves_reserved :: "nat set \<Rightarrow> send_env \<Rightarrow> peer_message_id \<Rightarrow> nat option \<Rightarrow> bool" where
  "leaves_reserved ks env stream_id v \<longleftrightarrow>
     (\<forall>k \<in> ks. \<forall>x. reserved_bytes x stream_id = v \<longrightarrow> reserved_bytes (sv_others env k x) stream_id = v)
     \<and> (\<forall>turn \<in> set (sv_callis_turns env). \<forall>x. reserved_bytes x stream_id = v \<longrightarrow> reserved_bytes (fst (snd turn) x) stream_id = v)"

definition blob_bytes :: "domus_config \<Rightarrow> nat" where
  "blob_bytes cfg = sat_mul (unat (bw_chunk_size (dc_blob_window cfg))) (unat (bw_ack_window (dc_blob_window cfg)))"

lemma select_reserved [simp]: "reserved_bytes (snd (shared_select_callis sh)) s = reserved_bytes sh s"
  by (simp add: shared_select_callis_def select_callis_def split_beta Let_def)

lemma wait_reserved:
  assumes "\<forall>turn \<in> set turns. \<forall>x. reserved_bytes x s = v \<longrightarrow> reserved_bytes (fst (snd turn) x) s = v" and "reserved_bytes sh s = v"
  shows "reserved_bytes (snd (wait_for_callis turns sh deadline)) s = v"
  using assms by (induction turns sh deadline rule: wait_for_callis.induct) (auto split: option.splits)

lemma ensure_reserved:
  assumes "leaves_reserved {3} env s v" and "reserved_bytes sh s = v"
  shows "reserved_bytes (snd (ensure_blob_callis env sh)) s = v"
proof -
  obtain r sh1 where one: "shared_select_callis sh = (r, sh1)" by fastforce
  then have v1: "reserved_bytes sh1 s = v" using select_reserved [of sh s] assms(2) by simp
  obtain w sh2 where two: "wait_for_callis (sv_callis_turns env) sh1 (sv_now env 2 + dc_send_timeout (sv_cfg env 1)) = (w, sh2)" by fastforce
  have v2: "reserved_bytes sh2 s = v"
    using wait_reserved [OF conjunct2 [OF assms(1) [unfolded leaves_reserved_def]] v1, of "sv_now env 2 + dc_send_timeout (sv_cfg env 1)"] two by simp
  obtain q sh3 where three: "shared_select_callis (sv_others env 3 sh2) = (q, sh3)" by fastforce
  then have v3: "reserved_bytes sh3 s = v"
    using select_reserved [of "sv_others env 3 sh2" s] v2 assms(1) by (simp add: leaves_reserved_def)
  show ?thesis
    using assms(2) v1 v2 v3 by (auto simp: ensure_blob_callis_def one two [unfolded One_nat_def] three split: option.splits sum.splits)
qed

lemma register_stream:
  assumes "register_outbound_stream m s settings = (Inr ring, m')"
  shows "bo_streams (bm_outbound m') = AList.update s ring (bo_streams (bm_outbound m))" "ring < length (bm_rings m')"
    "bm_reservations m' = bm_reservations m"
  using assms by (auto simp: register_outbound_stream_def outbound_add_stream_def Let_def split: sum.splits)

lemma released: "reserved_bytes (sh\<lparr>ps_blob := release_outbound (ps_blob sh) s\<rparr>) s = None"
  by (simp add: release_outbound_def AList.delete_conv' Let_def split: option.splits)

lemma open_sender:
  assumes "open_blob_sender env waiter reservation sh = (r, reservation', sh')"
  shows "case r of
       Some (Inr sender) \<Rightarrow> bn_stream_id sender = rs_stream_id reservation \<and> bn_ring sender < length (bm_rings (ps_blob sh'))
         \<and> map_of (bo_streams (bm_outbound (ps_blob sh'))) (rs_stream_id reservation) = Some (bn_ring sender) \<and> \<not> rs_active reservation'
     | _ \<Rightarrow> reservation' = reservation"
  using assms
  by (auto simp: open_blob_sender_def reservation_commit_def AList.update_conv' Let_def
      split: prod.splits sum.splits option.splits if_splits dest: register_stream)

lemma open_reserved_late:
  assumes "open_blob_sender env waiter reservation sh = (Some (Inr sender), reservation', sh')"
    and keep: "leaves_reserved {3, 4} env s v" and "\<And>ss. reserved_bytes (sv_others env 2 ((sv_others env 1 sh)\<lparr>ps_session := ss\<rparr>)) s = v"
  shows "reserved_bytes sh' s = v"
proof -
  define sh1 where "sh1 = sv_others env 1 sh"
  obtain r ss where w: "wait_for_ack (ps_session sh1) waiter (sv_waited env) (sv_now env 1) = (r, ss)" by fastforce
  define sh2 where "sh2 = sv_others env 2 (sh1\<lparr>ps_session := ss\<rparr>)"
  have v2: "reserved_bytes sh2 s = v" using assms(3) by (simp add: sh1_def sh2_def)
  obtain q sh3 where e: "ensure_blob_callis env sh2 = (q, sh3)" by fastforce
  have "leaves_reserved {3} env s v" using keep by (simp add: leaves_reserved_def)
  from ensure_reserved [OF this v2] have v3: "reserved_bytes (sv_others env 4 sh3) s = v" using keep e by (simp add: leaves_reserved_def)
  from assms(1) obtain c settings blob where "q = Some (Inr (c, settings))"
    and "register_outbound_stream (ps_blob (sv_others env 4 sh3)) (rs_stream_id reservation) settings = (Inr (bn_ring sender), blob)"
    and "sh' = (sv_others env 4 sh3)\<lparr>ps_blob := blob\<rparr>"
    unfolding open_blob_sender_def sh1_def [symmetric] Let_def w prod.case
    by (auto simp: sh2_def [symmetric] e split: sum.splits option.splits prod.splits if_splits)
  with register_stream(3) v3 show ?thesis by simp
qed

lemma open_reserved:
  assumes "open_blob_sender env waiter reservation sh = (Some (Inr sender), reservation', sh')"
    and keep: "leaves_reserved {1, 2, 3, 4} env s v" and "reserved_bytes sh s = v"
  shows "reserved_bytes sh' s = v"
proof (rule open_reserved_late [OF assms(1)])
  show "leaves_reserved {3, 4} env s v" using keep by (simp add: leaves_reserved_def)
  have "reserved_bytes (sv_others env 1 sh) s = v" using keep assms(3) by (simp add: leaves_reserved_def)
  then show "reserved_bytes (sv_others env 2 ((sv_others env 1 sh)\<lparr>ps_session := ss\<rparr>)) s = v" for ss
    using keep by (simp add: leaves_reserved_def)
qed

text \<open>
  C13. What becomes of the reservation of a blob stream, given that nothing is reserved under the identifier the call
  takes and that no other task reserves under it before the call does. When opening it fails, by a refusal, a full buffer, an error or a
  timeout, nothing stays reserved for it, whatever other tasks did meanwhile. When it succeeds, the stream is
  registered with the ring the caller writes to, the reservation is left to the stream, and it is the whole window
  unless another task took it back (\<open>restart_unreserves_stream\<close>). When the caller gives the call up, it depends on the
  wait: at the waits for the acknowledgement, for a callis and for the registration, the drop gives the
  reservation back; at the wait of the reservation for the tables the bytes stay counted with no entry, and at
  that of the release the entry stays, since both are past the guard.
\<close>

theorem blob_reservation_settled:
  assumes call: "peer_send_blob env sh taberna_id msg_type payload = (r, reservation, sh')"
    and id: "stream_id = fst (allocator_next (ss_allocator (ps_session sh)))" and free: "reserved_bytes sh stream_id = None"
    and others: "\<forall>x. reserved_bytes x stream_id = None \<longrightarrow> reserved_bytes (sv_others env 0 x) stream_id = None"
  shows "case r of
      Some (Inl err) \<Rightarrow> reserved_bytes sh' stream_id = None
    | Some (Inr sender) \<Rightarrow> bn_stream_id sender = stream_id \<and> bn_ring sender < length (bm_rings (ps_blob sh'))
        \<and> map_of (bo_streams (bm_outbound (ps_blob sh'))) stream_id = Some (bn_ring sender)
        \<and> (\<exists>rs. reservation = Some rs \<and> reservation_drop rs sh' = sh')
        \<and> (leaves_reserved {1, 2, 3, 4} env stream_id (Some (blob_bytes (sv_cfg env 2))) \<longrightarrow> reserved_bytes sh' stream_id = Some (blob_bytes (sv_cfg env 2)))
    | None \<Rightarrow>
        (case reservation of
           Some rs \<Rightarrow> if rs_active rs then reserved_bytes (reservation_drop rs sh') stream_id = None
                      else sv_waits env 5 \<and> reservation_drop rs sh' = sh'
         | None \<Rightarrow> reserved_bytes sh' stream_id = None
             \<and> ((\<exists>s. sh' = sh\<lparr>ps_session := s\<rparr>)
                \<or> sv_waits env 0 \<and> (\<exists>s x. x = sv_others env 0 (sh\<lparr>ps_session := s\<rparr>)
                    \<and> used (bm_buffer_tracker (ps_blob sh')) SideOutbound = used (bm_buffer_tracker (ps_blob x)) SideOutbound + blob_bytes (sv_cfg env 2))))"
proof -
  obtain c s1 where create: "create_outgoing (ps_session sh) 0 taberna_id msg_type WireFlags_BLOB payload (send_config (sv_cfg env 0)) (sv_tx env) (sv_now env 0) = (c, s1)"
    by fastforce
  consider (closing) "ss_closing (ps_session sh)" | (early) "\<not> ss_closing (ps_session sh)" "\<forall>x. c \<noteq> Some (Inr x)"
    | (created) message waiter where "\<not> ss_closing (ps_session sh)" "c = Some (Inr (message, waiter))"
    by fastforce
  then show ?thesis
  proof cases
    case closing
    with call free show ?thesis by (auto simp: peer_send_blob_def)
  next
    case early
    with call free show ?thesis by (auto simp: peer_send_blob_def create split: option.splits sum.splits)
  next
    case created
    let ?sh1 = "sv_others env 0 (sh\<lparr>ps_session := s1\<rparr>)" and ?cfg = "sv_cfg env 2"
    have mid: "pm_peer_msg_id message = stream_id"
      using create_outgoing_accepts [OF create [unfolded created(2)]] id by (simp add: outgoing_message_def allocator_next_def)
    have none: "reserved_bytes ?sh1 stream_id = None" using others free by simp
    obtain ok blob where reserve: "count_bytes (ps_blob ?sh1) SideOutbound (blob_bytes ?cfg) (dc_blob_outbound_buffer_bytes ?cfg) = (ok, blob)"
      by fastforce
    have counted: "map_of (rv_outbound (bm_reservations blob)) stream_id = None"
      "ok \<Longrightarrow> used (bm_buffer_tracker blob) SideOutbound = used (bm_buffer_tracker (ps_blob ?sh1)) SideOutbound + blob_bytes ?cfg"
      using reserve none by (auto simp: count_bytes_def try_reserve_side_eq split: if_splits)
    define sh2 where "sh2 = sv_others env 6 (?sh1\<lparr>ps_blob := blob\<rparr>)"
    define sh3 where "sh3 = sh2\<lparr>ps_blob := enter_bytes (ps_blob sh2) SideOutbound stream_id (blob_bytes ?cfg)\<rparr>"
    have held: "reserved_bytes sh3 stream_id = Some (blob_bytes ?cfg)" by (simp add: sh3_def AList.update_conv')
    obtain q rs sh4 where opened: "open_blob_sender env waiter (reservation_new stream_id) sh3 = (q, rs, sh4)"
      using prod_cases3 by blast
    note call' = call [unfolded peer_send_blob_def create created(2) option.case sum.case prod.case mid Let_def blob_bytes_def [symmetric] reserve,
        folded sh2_def, folded sh3_def, unfolded opened prod.case]
    show ?thesis
    proof (cases "\<exists>e. try_signal_peer_state_ensure (sv_signal env 0) = Inl e \<or> \<not> ok \<or> sv_waits env 0")
      case True
      with call' created(1) free counted show ?thesis by (auto split: sum.splits if_splits)
    next
      case False
      then have ok: ok "try_signal_peer_state_ensure (sv_signal env 0) = Inr ()" "\<not> sv_waits env 0" by (cases "sv_signal env 0"; simp)+
      from call' created(1) ok have res: "(case q of None \<Rightarrow> (q, Some rs, sh4)
          | Some (Inl err) \<Rightarrow> if sv_waits env 5 then (None, Some (reservation_release_begin rs), sv_others env 5 sh4)
              else (case reservation_release rs (sv_others env 5 sh4) of (rs', sh') \<Rightarrow> (q, Some rs', sh'))
          | Some (Inr _) \<Rightarrow> (q, Some rs, sh4)) = (r, reservation, sh')"
        by simp
      have pending: "rs = reservation_new stream_id" if "\<forall>x. q \<noteq> Some (Inr x)"
        using open_sender [OF opened] that by (auto split: option.splits sum.splits)
      have whole: "reserved_bytes sh4 stream_id = Some (blob_bytes ?cfg)"
        if "q = Some (Inr sender)" "leaves_reserved {1, 2, 3, 4} env stream_id (Some (blob_bytes ?cfg))" for sender
        using open_reserved [OF opened [unfolded that(1)] that(2)] held by simp
      show ?thesis
        using res pending open_sender [OF opened] whole released
        by (auto simp: reservation_release_def reservation_release_begin_def reservation_drop_def reservation_new_def
            split: option.splits sum.splits if_splits)
    qed
  qed
qed

lemma send_opens:
  assumes "peer_send_blob env sh taberna_id msg_type payload = (Some (Inr sender), reservation, sh')"
  shows "\<exists>waiter x rs. open_blob_sender env waiter (reservation_new (fst (allocator_next (ss_allocator (ps_session sh))))) x = (Some (Inr sender), rs, sh')"
proof -
  obtain c s1 where create: "create_outgoing (ps_session sh) 0 taberna_id msg_type WireFlags_BLOB payload (send_config (sv_cfg env 0)) (sv_tx env) (sv_now env 0) = (c, s1)"
    by fastforce
  with assms obtain message waiter where c: "c = Some (Inr (message, waiter))"
    by (auto simp: peer_send_blob_def split: if_splits option.splits sum.splits)
  have "pm_peer_msg_id message = fst (allocator_next (ss_allocator (ps_session sh)))"
    using create_outgoing_accepts [OF create [unfolded c]] by (simp add: outgoing_message_def allocator_next_def)
  with assms show ?thesis
    unfolding peer_send_blob_def create c option.case sum.case prod.case Let_def
    by (auto split: if_splits option.splits sum.splits prod.splits)
qed

section \<open>A restart while a stream is opened\<close>

definition restarted_blob :: "blob_manager \<Rightarrow> blob_manager" where
  "restarted_blob m = reset_callis_history (snd (drain_callis (fail_all_streams m (err_new PeerRestarted))))"

lemma restart_clears:
  "rv_outbound (bm_reservations (restarted_blob m)) = []"
  "ps_blob (pt_shared (snd (execute_fresh_primary_restart_effect st tk))) = restarted_blob (ps_blob (pt_shared tk))"
proof -
  have receivers: "bm_reservations (foldl (\<lambda>m (_, stream). on_receiver m (rs_receiver stream) f) m0 xs) = bm_reservations m0" for m0 f xs
    by (induction xs arbitrary: m0) (auto simp: on_receiver_def)
  have "bm_reservations (fail_all_streams m err) = \<lparr>rv_outbound = [], rv_inbound = []\<rparr>" for err
    by (simp add: fail_all_streams_def receivers split_beta Let_def)
  then show "rv_outbound (bm_reservations (restarted_blob m)) = []"
    by (simp add: restarted_blob_def reset_callis_history_def drain_callis_def bump_callis_gen_def)
  have posts: "pt_shared (post_for tk f) = pt_shared tk" "pt_shared (shutdown_handle tk h) = pt_shared tk" "pt_shared (spawn_send_close tk c hs) = pt_shared tk" for tk f h c hs
    by (simp_all add: post_for_def shutdown_handle_def spawn_send_close_def split: option.splits)
  have fold: "pt_shared (foldl (\<lambda>tk handle. shutdown_handle (post_for tk (f handle)) handle) tk hs) = pt_shared tk"
    "pt_shared (foldl (\<lambda>tk handle. post_for tk (g handle)) tk hs) = pt_shared tk" for f g tk hs
    by (induction hs arbitrary: tk) (simp_all add: posts)
  show "ps_blob (pt_shared (snd (execute_fresh_primary_restart_effect st tk))) = restarted_blob (ps_blob (pt_shared tk))"
    by (simp add: execute_fresh_primary_restart_effect_def restarted_blob_def fold posts on_shared_def on_dispatch_def split_beta Let_def)
qed

text \<open>
  C39. A restart of the peer between the acknowledgement of a blob request and the registration of its stream takes the
  reservation back, as it does for all streams, but the call goes on: it registers the stream of the old
  session with a callis of the new one, and nothing is reserved for it. The cap on buffered bytes no longer
  bounds what the streams may hold.
\<close>

theorem restart_unreserves_stream:
  assumes "peer_send_blob env sh taberna_id msg_type payload = (Some (Inr sender), reservation, sh')"
    and "stream_id = fst (allocator_next (ss_allocator (ps_session sh)))"
    and restart: "\<forall>x. ps_blob (sv_others env 2 x) = restarted_blob (ps_blob x)" and "leaves_reserved {3, 4} env stream_id None"
  shows "map_of (bo_streams (bm_outbound (ps_blob sh'))) stream_id = Some (bn_ring sender) \<and> reserved_bytes sh' stream_id = None"
proof
  obtain waiter x rs where o: "open_blob_sender env waiter (reservation_new stream_id) x = (Some (Inr sender), rs, sh')"
    using send_opens [OF assms(1)] assms(2) by blast
  show "map_of (bo_streams (bm_outbound (ps_blob sh'))) stream_id = Some (bn_ring sender)" using open_sender [OF o] by (simp add: reservation_new_def)
  show "reserved_bytes sh' stream_id = None" by (rule open_reserved_late [OF o assms(4)]) (simp add: restart restart_clears)
qed

section \<open>A stream that is opened\<close>

definition sample_send_config :: domus_config where
  "sample_send_config = domus_config_default\<lparr>dc_send_queue_size := 1, dc_send_timeout := 10\<rparr>"

definition sample_send_env :: "(blob_manager \<Rightarrow> blob_manager) \<Rightarrow> send_env" where
  "sample_send_env mid =
     \<lparr>sv_now = id, sv_cfg = (\<lambda>k. sample_send_config), sv_others = (\<lambda>k sh. if k = 2 then sh\<lparr>ps_blob := mid (ps_blob sh)\<rparr> else sh),
      sv_signal = (\<lambda>k. SendOk), sv_tx = 7, sv_waited = WaitValue (Inr ()), sv_waits = (\<lambda>k. False),
      sv_callis_turns = [(2, \<lambda>sh. sh\<lparr>ps_blob := add_callis (ps_blob sh) \<lparr>ch_id = 9, ch_tx = TxBlob\<rparr> small_window False\<rparr>, False), (3, id, False)]\<rparr>"

lemma sample_env_simps:
  "sv_now (sample_send_env mid) = id" "sv_cfg (sample_send_env mid) k = sample_send_config"
  "sv_others (sample_send_env mid) k sh = (if k = 2 then sh\<lparr>ps_blob := mid (ps_blob sh)\<rparr> else sh)" "sv_signal (sample_send_env mid) k = SendOk"
  "sv_tx (sample_send_env mid) = 7" "sv_waited (sample_send_env mid) = WaitValue (Inr ())"
  "\<not> sv_waits (sample_send_env mid) k"
  by (simp_all add: sample_send_env_def)

definition sample_sender :: peer_shared where
  "sample_sender = (sample_shared True)\<lparr>ps_session := sample_session\<rparr>"

lemma sample_sender_simps [simp]:
  "ps_session sample_sender = sample_session" "ps_blob sample_sender = new_manager" "ps_primary_active sample_sender"
  by (simp_all add: sample_sender_def sample_shared_def)

lemma sample_manager_simps:
  "bm_callis new_manager = blob_callis_pool_new" "bm_reservations new_manager = blob_reservation_new" "bm_buffer_tracker new_manager = no_bytes"
  "\<not> has_stream_state new_manager"
  by (simp_all add: new_manager_def blob_manager_new_def has_stream_state_def blob_outbound_new_def blob_inbound_new_def)

lemma sample_send_created:
  "\<exists>m s1. create_outgoing sample_session 0 2 A3_MESSAGE_TYPE_BASE WireFlags_BLOB [1] (send_config sample_send_config) 7 0 =
     (Some (Inr (m, \<lparr>aw_rx = Some 7, aw_peer_msg_id = 0, aw_deadline = 10\<rparr>)), s1)"
  by (simp add: sample_send_config_def send_config_def session_eval Let_def)

abbreviation sample_bytes :: nat where
  "sample_bytes \<equiv> sat_mul (unat (bw_chunk_size (dc_blob_window sample_send_config))) (unat (bw_ack_window (dc_blob_window sample_send_config)))"

lemma sample_reserved:
  "\<exists>m. count_bytes new_manager SideOutbound sample_bytes (dc_blob_outbound_buffer_bytes sample_send_config) = (True, m)
     \<and> bm_callis (enter_bytes m SideOutbound s sample_bytes) = blob_callis_pool_new \<and> \<not> has_stream_state (enter_bytes m SideOutbound s sample_bytes)"
  using sample_manager_simps
  by (auto simp: sample_send_config_def domus_config_default_def DEFAULT_TCP_BLOB_WINDOW_def sat_mul_def count_bytes_def try_reserve_side_eq
      no_bytes_def has_stream_state_def used.simps)

lemma sample_ensured:
  assumes "bp_order (bm_callis (ps_blob sh)) = []" "\<not> has_stream_state (ps_blob sh)" "ps_primary_active sh"
    "bp_handles (bm_callis (ps_blob sh)) = []" "bp_settings (bm_callis (ps_blob sh)) = []"
  shows "\<exists>sh'. ensure_blob_callis (sample_send_env mid) sh = (Some (Inr (9, small_window)), sh')"
  using assms
  by (simp add: ensure_blob_callis_def sample_send_env_def shared_select_callis_def select_callis_def wait_for_callis_turn_def has_callis_def
      sample_send_config_def add_callis_def pool_insert_def bump_callis_gen_def notify_work_def Let_def)

lemma sample_blob_opened:
  assumes "\<And>m. bm_callis m = blob_callis_pool_new \<Longrightarrow> \<not> has_stream_state m \<Longrightarrow> bm_callis (mid m) = blob_callis_pool_new \<and> \<not> has_stream_state (mid m)"
  shows "\<exists>sender res sh'. peer_send_blob (sample_send_env mid) sample_sender 2 A3_MESSAGE_TYPE_BASE [1] = (Some (Inr sender), res, sh')"
proof -
  obtain m s1 where c: "create_outgoing sample_session 0 2 A3_MESSAGE_TYPE_BASE WireFlags_BLOB [1] (send_config sample_send_config) 7 0 =
     (Some (Inr (m, \<lparr>aw_rx = Some 7, aw_peer_msg_id = 0, aw_deadline = 10\<rparr>)), s1)" using sample_send_created by blast
  obtain blob1 where b: "count_bytes new_manager SideOutbound sample_bytes (dc_blob_outbound_buffer_bytes sample_send_config) = (True, blob1)"
      "bm_callis (enter_bytes blob1 SideOutbound (pm_peer_msg_id m) sample_bytes) = blob_callis_pool_new"
      "\<not> has_stream_state (enter_bytes blob1 SideOutbound (pm_peer_msg_id m) sample_bytes)"
    using sample_reserved by blast
  let ?sh = "sample_sender\<lparr>ps_session := s1, ps_blob := mid (enter_bytes blob1 SideOutbound (pm_peer_msg_id m) sample_bytes)\<rparr>"
  obtain sh2 where e: "ensure_blob_callis (sample_send_env mid) ?sh = (Some (Inr (9, small_window)), sh2)"
    using sample_ensured [of ?sh mid] assms [OF b(2,3)] by (auto simp: blob_callis_pool_new_def simp del: enter_bytes.simps)
  obtain ring blob2 where r: "register_outbound_stream (ps_blob sh2) (pm_peer_msg_id m) small_window = (Inr ring, blob2)"
    by (simp add: register_outbound_stream_def outbound_new_def small_window_def Let_def)
  have session: "\<not> ss_closing sample_session" by (simp add: sample_session_def session_new_def)
  show ?thesis
    using c b(1) e r session
    by (simp add: peer_send_blob_def open_blob_sender_def wait_for_ack_def sample_env_simps reservation_new_def reservation_commit_def small_window_def Let_def)
qed

lemma sample_stream_id: "fst (allocator_next (ss_allocator (ps_session sample_sender))) = 0"
  by (simp add: session_eval)

lemma sample_unreserved: "reserved_bytes sample_sender 0 = None"
  by (simp add: sample_manager_simps blob_reservation_new_def)

lemma restarted_sample:
  assumes "bm_callis m = blob_callis_pool_new" and "\<not> has_stream_state m"
  shows "bm_callis (restarted_blob m) = blob_callis_pool_new \<and> \<not> has_stream_state (restarted_blob m)"
proof -
  have receivers: "bm_outbound (foldl (\<lambda>m (_, stream). on_receiver m (rs_receiver stream) f) m0 xs) = bm_outbound m0"
    "bm_inbound (foldl (\<lambda>m (_, stream). on_receiver m (rs_receiver stream) f) m0 xs) = bm_inbound m0" for m0 f xs
    by (induction xs arbitrary: m0) (auto simp: on_receiver_def)
  have "\<not> has_stream_state (fail_all_streams m err)" for err
    using assms(2) by (simp add: has_stream_state_def fail_all_streams_def outbound_clear_def receivers Let_def)
  then show ?thesis
    by (simp add: restarted_blob_def has_stream_state_def reset_callis_history_def drain_callis_def bump_callis_gen_def blob_callis_pool_new_def)
qed

theorem blob_reservation_settled_witness:
  "\<exists>sender res sh'. peer_send_blob (sample_send_env id) sample_sender 2 A3_MESSAGE_TYPE_BASE [1] = (Some (Inr sender), res, sh')
     \<and> bn_stream_id sender = 0 \<and> map_of (bo_streams (bm_outbound (ps_blob sh'))) 0 = Some (bn_ring sender)"
proof -
  obtain sender res sh' where e: "peer_send_blob (sample_send_env id) sample_sender 2 A3_MESSAGE_TYPE_BASE [1] = (Some (Inr sender), res, sh')"
    using sample_blob_opened [of id] by auto
  from blob_reservation_settled [OF e sample_stream_id [symmetric] sample_unreserved] e show ?thesis by (simp add: sample_env_simps)
qed

theorem restart_unreserves_stream_witness:
  "\<exists>sender res sh'. peer_send_blob (sample_send_env restarted_blob) sample_sender 2 A3_MESSAGE_TYPE_BASE [1] = (Some (Inr sender), res, sh')
     \<and> map_of (bo_streams (bm_outbound (ps_blob sh'))) 0 = Some (bn_ring sender) \<and> reserved_bytes sh' 0 = None"
proof -
  obtain sender res sh' where e: "peer_send_blob (sample_send_env restarted_blob) sample_sender 2 A3_MESSAGE_TYPE_BASE [1] = (Some (Inr sender), res, sh')"
    using sample_blob_opened [of restarted_blob] restarted_sample by auto
  have kept: "rv_outbound (bm_reservations (add_callis m h w False)) \<in> {[], rv_outbound (bm_reservations m)}" for m h w
    using restart_clears(1) [of m]
    by (auto simp: add_callis_def bump_callis_gen_def notify_work_def restarted_blob_def reset_callis_history_def drain_callis_def Let_def)
  have "map_of (rv_outbound (bm_reservations (add_callis m h w False))) k = None" if "map_of (rv_outbound (bm_reservations m)) k = None" for m h w k
    using kept [of m h w] that by (elim insertE) simp_all
  then have "leaves_reserved {3, 4} (sample_send_env restarted_blob) 0 None" by (simp add: leaves_reserved_def sample_send_env_def)
  from restart_unreserves_stream [OF e sample_stream_id [symmetric] _ this] e show ?thesis by (simp add: sample_env_simps)
qed

end
