(* ===== verification/Peer_Registry.thy ===== *)
theory Peer_Registry
  imports Peer_Send
begin

text \<open>
  The transport of a domus (\<^verbatim>\<open>src/crates/peering/src/transport/mod.rs\<close>): the registry of peers with its handles, the
  listener loop (\<^verbatim>\<open>listener.rs\<close>), the authentication of an accepted stream (\<^verbatim>\<open>accept.rs\<close>), the set of tasks of a peer
  and the shutdown; the routing of a send (\<^verbatim>\<open>peering/dispatch.rs\<close>) and the map of routes
  (\<^verbatim>\<open>src/crates/resolver/src/lib.rs\<close>).

  Handles are shared, so a handle is its position in the list of all that were made. The counters of buffered bytes
  are one object for all peers: an operation of a handle works on the counters of the transport.
\<close>

section \<open>Handles\<close>

text \<open>
  \<open>ph_shutdown\<close> is the handle's own signal to its tasks, \<open>ph_transport_stop\<close> says whether the transport's signal was raised
  since the handle subscribed to it: a subscription takes the value it finds as seen.
\<close>

record peer_handle =
  ph_peer :: domus_addr
  ph_dial_addr :: "domus_addr option"
  ph_shared :: peer_shared
  ph_inbound_handshakes :: nat
  ph_updates :: "peer_state_update list"
  ph_shutdown :: bool
  ph_transport_stop :: bool

definition peer_handle_new :: "domus_config \<Rightarrow> blob_buffer_tracker \<Rightarrow> instant \<Rightarrow> nat \<Rightarrow> domus_addr \<Rightarrow> peer_handle" where
  "peer_handle_new cfg blob_buffers now next_callis dial_addr =
     (let allocator = allocator_default;
          dispatch = dispatch_new (dc_send_queue_size cfg) (Some \<lparr>or_peer = Some dial_addr\<rparr>) now
      in \<lparr>ph_peer = dial_addr, ph_dial_addr = Some dial_addr,
          ph_shared = \<lparr>ps_session = session_new allocator dispatch, ps_blob = blob_manager_new blob_buffers allocator (dc_send_queue_size cfg),
                       ps_primary_active = False, ps_tracker = tracker_new, ps_next_callis = next_callis\<rparr>,
          ph_inbound_handshakes = 0, ph_updates = [], ph_shutdown = False, ph_transport_stop = False\<rparr>)"

definition handle_is_closing :: "peer_handle \<Rightarrow> bool" where
  "handle_is_closing ph \<longleftrightarrow> ss_closing (ps_session (ph_shared ph))"

definition update_dial_addr :: "domus_addr \<Rightarrow> peer_handle \<Rightarrow> peer_handle" where
  "update_dial_addr addr ph = ph\<lparr>ph_dial_addr := Some addr\<rparr>"

definition handle_graceful_close :: "peer_handle \<Rightarrow> peer_handle" where
  "handle_graceful_close ph = ph\<lparr>ph_shared := (ph_shared ph)\<lparr>ps_session := begin_close (ps_session (ph_shared ph))\<rparr>,
     ph_updates := ph_updates ph @ [UpGracefulClose]\<rparr>"

definition disconnect_callis :: "callis_kind \<Rightarrow> peer_handle \<Rightarrow> peer_handle" where
  "disconnect_callis callis ph = ph\<lparr>ph_updates := ph_updates ph @ [UpDisconnect callis None]\<rparr>"

definition handle_shutdown :: "peer_handle \<Rightarrow> peer_handle" where
  "handle_shutdown ph = ph\<lparr>ph_shutdown := True\<rparr>"

text \<open>\<open>shutdown_tx.send_replace(true)\<close>, as a handle that is subscribed sees it; its state task and its reaper end.\<close>

definition transport_stop :: "peer_handle \<Rightarrow> peer_handle" where
  "transport_stop ph = ph\<lparr>ph_transport_stop := True\<rparr>"

definition told_to_stop :: "peer_handle \<Rightarrow> bool" where
  "told_to_stop ph \<longleftrightarrow> ph_shutdown ph \<or> ph_transport_stop ph"

text \<open>Dropping the last reference to a handle signals its state task.\<close>

definition handle_drop :: "peer_handle \<Rightarrow> peer_handle" where
  "handle_drop ph = ph\<lparr>ph_shutdown := True\<rparr>"

text \<open>An inbound stream first takes a place in the gate of the peer; the task that accepts it gives the place back.\<close>

definition inbound_admit :: "domus_config \<Rightarrow> peer_handle \<Rightarrow> bool \<times> peer_handle" where
  "inbound_admit cfg ph =
     (let (old, count) = fetch_add (ph_inbound_handshakes ph) 1
      in if max (dc_inbound_handshake_limit_per_peer cfg) 1 < old + 1
         then (False, ph\<lparr>ph_inbound_handshakes := snd (fetch_sub count 1)\<rparr>)
         else (True, ph\<lparr>ph_inbound_handshakes := count\<rparr>))"

definition inbound_finish ::
  "(callis_kind \<times> connection_info) result \<Rightarrow> peer_handle \<Rightarrow> observability \<Rightarrow> peer_handle \<times> observability" where
  "inbound_finish accepted ph obs =
     (let ph' = ph\<lparr>ph_inbound_handshakes := snd (fetch_sub (ph_inbound_handshakes ph) 1)\<rparr>
      in case accepted of
           Inr (callis, info) \<Rightarrow> (ph'\<lparr>ph_updates := ph_updates ph @ [UpConnected callis info]\<rparr>, obs)
         | Inl err \<Rightarrow>
             (ph', case ph_dial_addr ph of
                None \<Rightarrow> obs
              | Some peer \<Rightarrow>
                  if err_kind err = ProtocolViolation then obs_protocol_violation obs peer (err_kind err)
                  else if err_kind err = SendTimeout then obs_handshake_timeout obs peer PhaseInbound
                  else obs))"

section \<open>The registry\<close>

record transport_inner =
  tn_kind :: transport_kind
  tn_local_addr :: domus_addr
  tn_peers :: "(domus_addr \<times> nat) list"
  tn_handles :: "peer_handle list"
  tn_blob_buffers :: blob_buffer_tracker
  tn_listener :: bool
  tn_shutdown :: bool
  tn_listener_shutdown :: bool
  tn_observability :: observability

definition transport_new :: "domus_addr \<Rightarrow> observability \<Rightarrow> transport_inner" where
  "transport_new local_addr obs =
     \<lparr>tn_kind = addr_kind local_addr, tn_local_addr = local_addr, tn_peers = [], tn_handles = [],
      tn_blob_buffers = \<lparr>bt_outbound_used = 0, bt_inbound_used = 0\<rparr>, tn_listener = True, tn_shutdown = False,
      tn_listener_shutdown = False, tn_observability = obs\<rparr>"

fun show_kind :: "transport_kind \<Rightarrow> string" where
  "show_kind KindTcp = ''tcp''"
| "show_kind KindSocket = ''socket''"

definition ensure_peer_addr_kind :: "(socket_addr \<Rightarrow> string) \<Rightarrow> transport_inner \<Rightarrow> domus_addr \<Rightarrow> unit result" where
  "ensure_peer_addr_kind sock tn peer =
     (if addr_kind peer = tn_kind tn then Inr ()
      else Inl (with_message AddressMismatch (''peer transport mismatch: local='' @ show_kind (tn_kind tn) @ '' peer='' @ show_addr sock peer)))"

definition on_peer :: "nat \<Rightarrow> (peer_handle \<Rightarrow> peer_handle) \<Rightarrow> transport_inner \<Rightarrow> transport_inner" where
  "on_peer h f tn = tn\<lparr>tn_handles := (tn_handles tn)[h := f (tn_handles tn ! h)]\<rparr>"

definition peer_handle_for ::
  "(socket_addr \<Rightarrow> string) \<Rightarrow> domus_config \<Rightarrow> instant \<Rightarrow> nat \<Rightarrow> transport_inner \<Rightarrow> domus_addr \<Rightarrow> domus_addr option \<Rightarrow>
   nat result \<times> transport_inner" where
  "peer_handle_for sock cfg now next_callis tn peer_addr dial_addr =
     (case ensure_peer_addr_kind sock tn peer_addr of
        Inl err \<Rightarrow> (Inl err, tn\<lparr>tn_observability := obs_address_mismatch (tn_observability tn) peer_addr (err_kind err)\<rparr>)
      | Inr _ \<Rightarrow>
          let live = (case map_of (tn_peers tn) peer_addr of
                        None \<Rightarrow> None
                      | Some h \<Rightarrow> if handle_is_closing (tn_handles tn ! h) then None else Some h)
          in case live of
               Some h \<Rightarrow> (Inr h, case dial_addr of None \<Rightarrow> tn | Some addr \<Rightarrow> on_peer h (update_dial_addr addr) tn)
             | None \<Rightarrow>
                 let h = length (tn_handles tn);
                     peers = AList.delete peer_addr (tn_peers tn)
                 in (Inr h, tn\<lparr>tn_handles := tn_handles tn @ [peer_handle_new cfg (tn_blob_buffers tn) now next_callis peer_addr],
                              tn_peers := AList.update peer_addr h peers\<rparr>))"

definition transport_peer_handle ::
  "(socket_addr \<Rightarrow> string) \<Rightarrow> domus_config \<Rightarrow> instant \<Rightarrow> nat \<Rightarrow> transport_inner \<Rightarrow> domus_addr \<Rightarrow> nat result \<times> transport_inner" where
  "transport_peer_handle sock cfg now next_callis tn peer =
     (if tn_shutdown tn then (Inl (err_new PeerUnavailable), tn)
      else peer_handle_for sock cfg now next_callis tn peer (Some peer))"

definition peer_handle_inbound ::
  "(socket_addr \<Rightarrow> string) \<Rightarrow> domus_config \<Rightarrow> instant \<Rightarrow> nat \<Rightarrow> transport_inner \<Rightarrow> domus_addr \<Rightarrow> nat result \<times> transport_inner" where
  "peer_handle_inbound sock cfg now next_callis tn peer_addr = peer_handle_for sock cfg now next_callis tn peer_addr None"

section \<open>Starting and shutting down\<close>

definition transport_start :: "transport_inner \<Rightarrow> unit result \<times> transport_inner" where
  "transport_start tn =
     (if tn_listener tn then (Inr (), tn\<lparr>tn_listener := False\<rparr>)
      else (Inl (with_message PeerUnavailable ''listener already started''), tn))"

text \<open>
  The shutdown closes the handles it finds, waits for their calles, and then stops what is left; the wait lies
  between the two definitions.
\<close>

definition shutdown_begin :: "transport_inner \<Rightarrow> nat list \<times> transport_inner" where
  "shutdown_begin tn =
     (let tn = tn\<lparr>tn_listener_shutdown := True\<rparr>; peers = map snd (tn_peers tn)
      in (peers, foldl (\<lambda>tn h. on_peer h handle_graceful_close tn) tn peers))"

definition shutdown_finish :: "nat list \<Rightarrow> transport_inner \<Rightarrow> transport_inner" where
  "shutdown_finish peers tn =
     foldl (\<lambda>tn h. on_peer h handle_shutdown tn) (tn\<lparr>tn_shutdown := True, tn_handles := map transport_stop (tn_handles tn)\<rparr>) peers"

definition shutdown_wait_timeout :: "domus_config \<Rightarrow> duration" where
  "shutdown_wait_timeout cfg = dc_send_timeout cfg + dc_send_timeout cfg"

section \<open>Sending to a peer\<close>

text \<open>An operation on what the tasks of a peer share, with the transport's counters of buffered bytes.\<close>

definition with_peer :: "nat \<Rightarrow> (peer_shared \<Rightarrow> 'r \<times> peer_shared) \<Rightarrow> transport_inner \<Rightarrow> 'r \<times> transport_inner" where
  "with_peer h f tn =
     (let ph = tn_handles tn ! h;
          sh = (ph_shared ph)\<lparr>ps_blob := (ps_blob (ph_shared ph))\<lparr>bm_buffer_tracker := tn_blob_buffers tn\<rparr>\<rparr>;
          (r, sh) = f sh
      in (r, tn\<lparr>tn_handles := (tn_handles tn)[h := ph\<lparr>ph_shared := sh\<rparr>], tn_blob_buffers := bm_buffer_tracker (ps_blob sh)\<rparr>))"

datatype remote_outcome = RemoteMessage | RemoteBlob blob_sender_stream

definition send_remote ::
  "(socket_addr \<Rightarrow> string) \<Rightarrow> send_env \<Rightarrow> nat \<Rightarrow> transport_inner \<Rightarrow> domus_addr \<Rightarrow> taberna_id \<Rightarrow> message_type \<Rightarrow> u8 list \<Rightarrow> bool \<Rightarrow>
   remote_outcome result option \<times> transport_inner" where
  "send_remote sock env next_callis tn peer taberna_id msg_type payload blob =
     (case transport_peer_handle sock (sv_cfg env 3) (sv_now env 3) next_callis tn peer of
        (Inl err, tn) \<Rightarrow> (Some (Inl err), tn)
      | (Inr h, tn) \<Rightarrow>
          if blob
          then let (r, tn) = with_peer h (\<lambda>sh. let (r, reservation, sh) = peer_send_blob env sh taberna_id msg_type payload in (r, sh)) tn
               in (case r of None \<Rightarrow> None | Some (Inl err) \<Rightarrow> Some (Inl err) | Some (Inr sender) \<Rightarrow> Some (Inr (RemoteBlob sender)), tn)
          else let (r, tn) = with_peer h (\<lambda>sh. peer_send env sh taberna_id msg_type payload) tn
               in (case r of None \<Rightarrow> None | Some (Inl err) \<Rightarrow> Some (Inl err) | Some (Inr _) \<Rightarrow> Some (Inr RemoteMessage), tn))"

section \<open>Routes\<close>

type_synonym simple_resolver = "(taberna_id \<times> domus_addr) list"

definition resolver_new :: simple_resolver where
  "resolver_new = []"

definition resolver_insert :: "simple_resolver \<Rightarrow> taberna_id \<Rightarrow> domus_addr \<Rightarrow> simple_resolver" where
  "resolver_insert routes taberna_id domus = AList.update taberna_id domus routes"

definition resolver_remove :: "simple_resolver \<Rightarrow> taberna_id \<Rightarrow> simple_resolver" where
  "resolver_remove routes taberna_id = AList.delete taberna_id routes"

definition resolver_clear_all :: "simple_resolver \<Rightarrow> simple_resolver" where
  "resolver_clear_all routes = []"

definition resolver_resolve :: "simple_resolver \<Rightarrow> taberna_id \<Rightarrow> domus_addr result" where
  "resolver_resolve routes taberna_id =
     (case map_of routes taberna_id of Some domus \<Rightarrow> Inr domus | None \<Rightarrow> Inl (err_new UnknownTaberna))"

definition validate_app_send :: "message_type \<Rightarrow> nat \<Rightarrow> nat \<Rightarrow> unit result" where
  "validate_app_send msg_type payload_len max_payload_len =
     (if msg_type < A3_MESSAGE_TYPE_BASE then Inl (with_message ProtocolViolation ''application message type must be in the A3 range'')
      else if max_payload_len < payload_len then Inl (with_message ProtocolViolation ''application payload length exceeds max_payload_len'')
      else if u32_max < payload_len then Inl (with_message ProtocolViolation ''application payload length exceeds wire header capacity'')
      else Inr ())"

datatype routed = LocalOutcome send_outcome | RemoteOutcome remote_outcome

text \<open>
  \<open>deliver\<close> is the delivery to a local inbox, with the counters of buffered bytes before and after; \<open>resolved\<close> is what the
  application's resolver answers in time.
\<close>

definition send_encoded ::
  "(socket_addr \<Rightarrow> string) \<Rightarrow> send_env \<Rightarrow> nat \<Rightarrow> 'i taberna_registry \<Rightarrow> blob_limits \<Rightarrow>
   ('i \<Rightarrow> tracked_duplex option \<Rightarrow> blob_buffer_tracker \<Rightarrow> unit result \<times> blob_buffer_tracker) \<Rightarrow> (taberna_id \<Rightarrow> domus_addr result option) \<Rightarrow>
   transport_inner \<Rightarrow> taberna_id \<Rightarrow> message_type \<Rightarrow> u8 list \<Rightarrow> bool \<Rightarrow> routed result option \<times> transport_inner" where
  "send_encoded sock env next_callis registry limits deliver resolved tn taberna_id msg_type payload blob =
     (case validate_app_send msg_type (length payload) (dc_max_payload_len (sv_cfg env 4)) of
        Inl err \<Rightarrow> (Some (Inl err), tn)
      | Inr _ \<Rightarrow>
          (case resolve_local registry taberna_id of
             Some inbox \<Rightarrow>
               let (r, buffers) = deliver_local blob limits (deliver inbox) (tn_blob_buffers tn)
               in (Some (map_sum id LocalOutcome r), tn\<lparr>tn_blob_buffers := buffers\<rparr>)
           | None \<Rightarrow>
               (case resolved taberna_id of
                  None \<Rightarrow> (Some (Inl (err_new SendTimeout)), tn)
                | Some (Inl err) \<Rightarrow> (Some (Inl err), tn)
                | Some (Inr peer) \<Rightarrow>
                    let (r, tn) = send_remote sock env next_callis tn peer taberna_id msg_type payload blob
                    in (map_option (map_sum id RemoteOutcome) r, tn))))"

definition route_send ::
  "('m \<Rightarrow> string + message_type \<times> u8 list) \<Rightarrow> 'm \<Rightarrow> (message_type \<Rightarrow> u8 list \<Rightarrow> routed result option \<times> transport_inner) \<Rightarrow> transport_inner \<Rightarrow>
   routed result option \<times> transport_inner" where
  "route_send encode_app message encoded tn =
     (case encode_app message of
        Inl err \<Rightarrow> (Some (Inl (with_message EncodeFailure err)), tn)
      | Inr (msg_type, payload) \<Rightarrow> encoded msg_type payload)"

section \<open>The listener\<close>

text \<open>What wakes the loop: a change of one of the two flags, or an accepted stream or its error.\<close>

datatype listener_arm = ArmShutdown | ArmListenerShutdown | ArmAccept "domus_addr result"

definition listener_turn :: "listener_arm \<Rightarrow> transport_inner \<Rightarrow> bool \<times> domus_addr list \<times> transport_inner" where
  "listener_turn arm tn =
     (case arm of
        ArmShutdown \<Rightarrow> (\<not> tn_shutdown tn, [], tn)
      | ArmListenerShutdown \<Rightarrow> (\<not> tn_listener_shutdown tn, [], tn)
      | ArmAccept (Inl err) \<Rightarrow>
          (True, [], tn\<lparr>tn_observability := obs_listener_failure (tn_observability tn) (tn_local_addr tn) (err_kind err)\<rparr>)
      | ArmAccept (Inr peer_addr) \<Rightarrow> (True, [peer_addr], tn))"

text \<open>Between two turns other tasks change the transport; the addresses are those for which an inbound task was spawned.\<close>

fun run_listener :: "((transport_inner \<Rightarrow> transport_inner) \<times> listener_arm) list \<Rightarrow> transport_inner \<Rightarrow> bool \<times> domus_addr list \<times> transport_inner" where
  "run_listener [] tn = (True, [], tn)"
| "run_listener ((others, arm) # turns) tn =
     (let (goes_on, spawned, tn) = listener_turn arm (others tn)
      in if goes_on then let (goes_on, more, tn) = run_listener turns tn in (goes_on, spawned @ more, tn)
         else (False, spawned, tn))"

definition inbound_task ::
  "(socket_addr \<Rightarrow> string) \<Rightarrow> domus_config \<Rightarrow> instant \<Rightarrow> nat \<Rightarrow> domus_addr \<Rightarrow> transport_inner \<Rightarrow> nat option \<times> transport_inner" where
  "inbound_task sock cfg now next_callis peer_addr tn =
     (case peer_handle_inbound sock cfg now next_callis tn peer_addr of
        (Inl err, tn) \<Rightarrow> (None, tn)
      | (Inr h, tn) \<Rightarrow>
          let (admitted, ph) = inbound_admit cfg (tn_handles tn ! h); tn = tn\<lparr>tn_handles := (tn_handles tn)[h := ph]\<rparr>
          in (if admitted then Some h else None, tn))"

text \<open>
  The task of an accepted raw stream: whether it got a permit, and what the authentication gave within its timeout. The
  result is what is passed on to the accept call, if anything.
\<close>

definition inbound_auth :: "bool \<Rightarrow> 's option result option \<Rightarrow> string \<Rightarrow> 's result option" where
  "inbound_auth permit authenticated timeout_message =
     (if \<not> permit then None
      else case (case authenticated of Some result \<Rightarrow> result | None \<Rightarrow> Inl (with_message PeerUnavailable timeout_message)) of
             Inr (Some stream) \<Rightarrow> Some (Inr stream)
           | Inr None \<Rightarrow> None
           | Inl err \<Rightarrow> Some (Inl err))"

section \<open>The tasks of a peer\<close>

datatype manager_phase = MgrCollecting | MgrDrained | MgrGone

record task_set =
  tk_queue :: "nat list"
  tk_handles :: "nat list"
  tk_shutdown :: bool
  tk_phase :: manager_phase
  tk_aborted :: "nat list"

definition task_set_new :: task_set where
  "task_set_new = \<lparr>tk_queue = [], tk_handles = [], tk_shutdown = False, tk_phase = MgrCollecting, tk_aborted = []\<rparr>"

definition task_set_drop :: "task_set \<Rightarrow> task_set" where
  "task_set_drop ts = ts\<lparr>tk_shutdown := True\<rparr>"

text \<open>Registering the abort handle fails only when the manager is gone, and then the task is aborted on the spot.\<close>

definition spawn_join :: "nat \<Rightarrow> task_set \<Rightarrow> task_set" where
  "spawn_join t ts = (if tk_phase ts = MgrGone then ts\<lparr>tk_aborted := tk_aborted ts @ [t]\<rparr> else ts\<lparr>tk_queue := tk_queue ts @ [t]\<rparr>)"

text \<open>The manager task: it collects handles until it is told to stop, empties the channel, and aborts what it has.\<close>

definition manager_turn :: "task_set \<Rightarrow> task_set" where
  "manager_turn ts =
     (case tk_phase ts of
        MgrCollecting \<Rightarrow>
          if tk_shutdown ts then ts\<lparr>tk_handles := tk_handles ts @ tk_queue ts, tk_queue := [], tk_phase := MgrDrained\<rparr>
          else (case tk_queue ts of [] \<Rightarrow> ts | t # rest \<Rightarrow> ts\<lparr>tk_queue := rest, tk_handles := tk_handles ts @ [t]\<rparr>)
      | MgrDrained \<Rightarrow> ts\<lparr>tk_aborted := tk_aborted ts @ tk_handles ts, tk_handles := [], tk_phase := MgrGone\<rparr>
      | MgrGone \<Rightarrow> ts)"

datatype task_op = TaskSpawn nat | TaskManager | TaskDrop

fun task_step :: "task_set \<Rightarrow> task_op \<Rightarrow> task_set" where
  "task_step ts (TaskSpawn t) = spawn_join t ts"
| "task_step ts TaskManager = manager_turn ts"
| "task_step ts TaskDrop = task_set_drop ts"

text \<open>The tasks spawned after the channel was emptied and before the manager was gone.\<close>

definition late_spawn :: "task_set \<Rightarrow> task_op \<Rightarrow> nat list" where
  "late_spawn ts x = (case x of TaskSpawn t \<Rightarrow> if tk_phase ts = MgrDrained then [t] else [] | _ \<Rightarrow> [])"

definition spawned :: "task_set \<Rightarrow> task_op \<Rightarrow> nat multiset" where
  "spawned ts x = (case x of TaskSpawn t \<Rightarrow> {#t#} | _ \<Rightarrow> {#})"

definition tasks_known :: "task_set \<Rightarrow> nat multiset" where
  "tasks_known ts = mset (tk_queue ts) + mset (tk_handles ts) + mset (tk_aborted ts)"

definition task_inv :: "task_set \<Rightarrow> bool" where
  "task_inv ts \<longleftrightarrow> (tk_phase ts = MgrGone \<longrightarrow> tk_handles ts = []) \<and> (tk_phase ts \<noteq> MgrCollecting \<longrightarrow> tk_shutdown ts)"

interpretation tasks: conserving_machine "\<lambda>ts. ts = task_set_new" task_step task_inv tasks_known spawned "\<lambda>_ _. {#}"
proof unfold_locales
  show "task_inv ts" if "ts = task_set_new" for ts using that by (simp add: task_inv_def task_set_new_def)
  show "task_inv (task_step ts x)" if "task_inv ts" for ts x
    using that by (cases x) (auto simp: task_inv_def spawn_join_def manager_turn_def task_set_drop_def split: manager_phase.splits list.splits)
  show "tasks_known (task_step ts x) + {#} = tasks_known ts + spawned ts x" if "task_inv ts" for ts x
    using that by (cases x) (auto simp: tasks_known_def spawned_def spawn_join_def manager_turn_def task_set_drop_def split: manager_phase.splits list.splits)
qed

lemma total_none: "total_over step (\<lambda>_ _. {#}) s xs = {#}"
  by (induction xs arbitrary: s) simp_all

lemma late_queue:
  "tk_phase ts = MgrDrained \<Longrightarrow> tk_phase (foldl task_step ts xs) = MgrGone \<Longrightarrow> tk_queue (foldl task_step ts xs) = tk_queue ts @ outputs_over task_step late_spawn ts xs"
  "tk_phase ts = MgrGone \<Longrightarrow> tk_queue (foldl task_step ts xs) = tk_queue ts \<and> outputs_over task_step late_spawn ts xs = [] \<and> tk_phase (foldl task_step ts xs) = MgrGone"
  "tk_phase ts = MgrCollecting \<Longrightarrow> tk_phase (foldl task_step ts xs) = MgrGone \<Longrightarrow> tk_queue (foldl task_step ts xs) = outputs_over task_step late_spawn ts xs"
proof (induction xs arbitrary: ts)
  case (Cons x xs)
  {
    case 1
    then show ?case using Cons.IH(1,2) [of "task_step ts x"] 1
      by (cases x) (auto simp: late_spawn_def spawn_join_def manager_turn_def task_set_drop_def)
  next
    case 2
    then show ?case using Cons.IH(2) [of "task_step ts x"] by (cases x) (auto simp: late_spawn_def spawn_join_def manager_turn_def task_set_drop_def)
  next
    case 3
    then show ?case using Cons.IH(1,3) [of "task_step ts x"]
      by (cases x) (auto simp: late_spawn_def spawn_join_def manager_turn_def task_set_drop_def split: list.splits if_splits)
  }
qed simp_all

text \<open>
  C29. When the set of a peer's tasks is dropped and its manager has ended, each task that was ever spawned has been aborted
  once, except for those spawned in the moment between the last look at the channel and the end of the
  manager: their handles were taken by a channel that nobody reads any more.
\<close>

theorem dropped_tasks_aborted:
  assumes "ts = foldl task_step task_set_new xs" and "tk_phase ts = MgrGone"
  shows "mset (tk_aborted ts) + mset (outputs_over task_step late_spawn task_set_new xs) = total_over task_step spawned task_set_new xs"
proof -
  have new: "tk_phase task_set_new = MgrCollecting" "tasks_known task_set_new = {#}" by (simp_all add: task_set_new_def tasks_known_def)
  have "tasks_known ts = total_over task_step spawned task_set_new xs"
    using tasks.conserve_run [OF tasks.invar_start [OF refl], of xs] assms(1) new(2) by (simp add: total_none)
  moreover have "tk_handles ts = []" using tasks.invar_reachable [OF refl, of xs] assms by (simp add: task_inv_def)
  moreover have "tk_queue ts = outputs_over task_step late_spawn task_set_new xs" using late_queue(3) [OF new(1)] assms by simp
  ultimately show ?thesis by (simp add: tasks_known_def add.commute)
qed

theorem dropped_tasks_aborted_witness:
  "mset (tk_aborted (foldl task_step task_set_new [TaskSpawn 1, TaskManager, TaskDrop, TaskSpawn 2, TaskManager, TaskSpawn 3, TaskManager, TaskSpawn 4]))
     + {#3#} = {#1, 2, 3, 4#}"
  using dropped_tasks_aborted [OF refl, of "[TaskSpawn 1, TaskManager, TaskDrop, TaskSpawn 2, TaskManager, TaskSpawn 3, TaskManager, TaskSpawn 4]"]
  by (simp add: task_set_new_def spawn_join_def manager_turn_def task_set_drop_def late_spawn_def spawned_def)

section \<open>One live handle for each peer\<close>

text \<open>
  What happens to the registry: handles are looked up for sends and for accepted streams, the tasks of a peer work on its
  handle without reopening a closed session, and the transport shuts down. \<open>overtaken\<close>: a send that found the transport
  running gets the lock of the registry only later, maybe after the shutdown.
\<close>

inductive registry_run :: "(socket_addr \<Rightarrow> string) \<Rightarrow> transport_inner \<Rightarrow> bool" for sock where
  created: "registry_run sock (transport_new local_addr obs)"
| outbound: "registry_run sock tn \<Longrightarrow> registry_run sock (snd (transport_peer_handle sock cfg now next_callis tn peer))"
| overtaken: "registry_run sock tn \<Longrightarrow> registry_run sock (snd (peer_handle_for sock cfg now next_callis tn peer (Some peer)))"
| inbound: "registry_run sock tn \<Longrightarrow> registry_run sock (snd (peer_handle_inbound sock cfg now next_callis tn peer))"
| works: "registry_run sock tn \<Longrightarrow> h < length (tn_handles tn) \<Longrightarrow> ph_peer ph = ph_peer (tn_handles tn ! h) \<Longrightarrow>
    (handle_is_closing (tn_handles tn ! h) \<longrightarrow> handle_is_closing ph) \<Longrightarrow>
    registry_run sock (tn\<lparr>tn_handles := (tn_handles tn)[h := ph], tn_blob_buffers := buffers, tn_observability := obs\<rparr>)"
| starts: "registry_run sock tn \<Longrightarrow> registry_run sock (snd (transport_start tn))"
| closes: "registry_run sock tn \<Longrightarrow> registry_run sock (snd (shutdown_begin tn))"
| stops: "registry_run sock tn \<Longrightarrow> set hs \<subseteq> {..<length (tn_handles tn)} \<Longrightarrow> registry_run sock (shutdown_finish hs tn)"

definition indexed :: "(domus_addr \<rightharpoonup> nat) \<Rightarrow> transport_kind \<Rightarrow> peer_handle list \<Rightarrow> bool" where
  "indexed at kind hs \<longleftrightarrow>
     (\<forall>peer h. at peer = Some h \<longrightarrow> h < length hs \<and> ph_peer (hs ! h) = peer \<and> addr_kind peer = kind)
     \<and> (\<forall>i < length hs. \<exists>h. at (ph_peer (hs ! i)) = Some h \<and> (i \<noteq> h \<longrightarrow> handle_is_closing (hs ! i)))"

definition registry_inv :: "transport_inner \<Rightarrow> bool" where
  "registry_inv tn \<longleftrightarrow> distinct (map fst (tn_peers tn)) \<and> indexed (map_of (tn_peers tn)) (tn_kind tn) (tn_handles tn)"

lemma handle_new_sel [simp]: "ph_peer (peer_handle_new cfg b now n addr) = addr" "\<not> handle_is_closing (peer_handle_new cfg b now n addr)"
  "ph_dial_addr (peer_handle_new cfg b now n addr) = Some addr" "\<not> told_to_stop (peer_handle_new cfg b now n addr)"
  by (simp_all add: peer_handle_new_def handle_is_closing_def session_new_def told_to_stop_def Let_def)

lemma indexedD:
  assumes "indexed at kind hs"
  shows "at peer = Some h \<Longrightarrow> h < length hs \<and> ph_peer (hs ! h) = peer \<and> addr_kind peer = kind"
    "i < length hs \<Longrightarrow> \<exists>h. at (ph_peer (hs ! i)) = Some h \<and> (i \<noteq> h \<longrightarrow> handle_is_closing (hs ! i))"
  using assms unfolding indexed_def by blast+

lemma indexed_update:
  assumes "indexed at kind hs" and "ph_peer ph = ph_peer (hs ! h)" and "handle_is_closing (hs ! h) \<longrightarrow> handle_is_closing ph"
  shows "indexed at kind (hs[h := ph])"
proof -
  have same: "ph_peer (hs[h := ph] ! i) = ph_peer (hs ! i)" "handle_is_closing (hs ! i) \<Longrightarrow> handle_is_closing (hs[h := ph] ! i)" if "i < length hs" for i
    using that assms(2,3) by (cases "i = h"; simp)+
  show ?thesis unfolding indexed_def length_list_update
  proof (intro conjI allI impI)
    fix peer k assume "at peer = Some k"
    with indexedD(1) [OF assms(1)] same(1) [of k] show "k < length hs" "ph_peer (hs[h := ph] ! k) = peer" "addr_kind peer = kind" by simp_all
  next
    fix i assume i: "i < length hs"
    obtain k where "at (ph_peer (hs ! i)) = Some k" "i \<noteq> k \<longrightarrow> handle_is_closing (hs ! i)" using indexedD(2) [OF assms(1) i] by blast
    then show "\<exists>k. at (ph_peer (hs[h := ph] ! i)) = Some k \<and> (i \<noteq> k \<longrightarrow> handle_is_closing (hs[h := ph] ! i))"
      using same [OF i] by (intro exI [of _ k]) simp
  qed
qed

lemma indexed_add:
  assumes "indexed at kind hs" and "ph_peer ph = peer" and "addr_kind peer = kind" and "\<forall>h. at peer = Some h \<longrightarrow> handle_is_closing (hs ! h)"
  shows "indexed (at(peer \<mapsto> length hs)) kind (hs @ [ph])"
proof -
  have old: "handle_is_closing (hs ! i)" if "i < length hs" "ph_peer (hs ! i) = peer" for i
    using assms(1,4) that unfolding indexed_def by blast
  show ?thesis unfolding indexed_def
  proof (intro conjI allI impI)
    fix q h assume "(at(peer \<mapsto> length hs)) q = Some h"
    then show "h < length (hs @ [ph])" "ph_peer ((hs @ [ph]) ! h) = q" "addr_kind q = kind"
      using assms(2,3) indexedD(1) [OF assms(1), of q h] by (auto simp: nth_append split: if_splits)
  next
    fix i assume "i < length (hs @ [ph])"
    then consider "i = length hs" | "i < length hs" by fastforce
    then show "\<exists>h. (at(peer \<mapsto> length hs)) (ph_peer ((hs @ [ph]) ! i)) = Some h \<and> (i \<noteq> h \<longrightarrow> handle_is_closing ((hs @ [ph]) ! i))"
    proof cases
      case 1
      then show ?thesis using assms(2) by simp
    next
      case 2
      then show ?thesis using indexedD(2) [OF assms(1), of i] old [of i] by (cases "ph_peer (hs ! i) = peer") (simp_all add: nth_append)
    qed
  qed
qed

lemma inv_on_peer:
  assumes "registry_inv tn" and "ph_peer (f (tn_handles tn ! h)) = ph_peer (tn_handles tn ! h)"
    and "handle_is_closing (tn_handles tn ! h) \<longrightarrow> handle_is_closing (f (tn_handles tn ! h))"
  shows "registry_inv (on_peer h f tn)"
  using assms indexed_update unfolding registry_inv_def on_peer_def by (simp del: map_of_eq_Some_iff Some_eq_map_of_iff)

text \<open>A lookup finds the live handle of the address or makes one.\<close>

lemma lookup_cases:
  obtains (other) "addr_kind peer \<noteq> tn_kind tn" "\<exists>err. peer_handle_for sock cfg now n tn peer dial =
      (Inl err, tn\<lparr>tn_observability := obs_address_mismatch (tn_observability tn) peer AddressMismatch\<rparr>) \<and> err_kind err = AddressMismatch"
    | (live) h where "addr_kind peer = tn_kind tn" "map_of (tn_peers tn) peer = Some h" "\<not> handle_is_closing (tn_handles tn ! h)"
      "peer_handle_for sock cfg now n tn peer dial = (Inr h, case dial of None \<Rightarrow> tn | Some addr \<Rightarrow> on_peer h (update_dial_addr addr) tn)"
    | (fresh) "addr_kind peer = tn_kind tn" "\<forall>h. map_of (tn_peers tn) peer = Some h \<longrightarrow> handle_is_closing (tn_handles tn ! h)"
      "peer_handle_for sock cfg now n tn peer dial = (Inr (length (tn_handles tn)),
         tn\<lparr>tn_handles := tn_handles tn @ [peer_handle_new cfg (tn_blob_buffers tn) now n peer],
            tn_peers := AList.update peer (length (tn_handles tn)) (AList.delete peer (tn_peers tn))\<rparr>)"
proof (cases "addr_kind peer = tn_kind tn")
  case False
  then show ?thesis using other by (simp add: peer_handle_for_def ensure_peer_addr_kind_def)
next
  case True
  then show ?thesis
    by (cases "map_of (tn_peers tn) peer")
      (use live fresh in \<open>auto simp: peer_handle_for_def ensure_peer_addr_kind_def Let_def split: if_splits option.splits\<close>)
qed

lemma inv_lookup:
  assumes "registry_inv tn"
  shows "registry_inv (snd (peer_handle_for sock cfg now n tn peer dial))"
proof (cases rule: lookup_cases [of peer tn sock cfg now n dial])
  case other
  with assms show ?thesis by (auto simp: registry_inv_def)
next
  case (live h)
  have "registry_inv (on_peer h (update_dial_addr addr) tn)" for addr
    by (rule inv_on_peer [OF assms]) (simp_all add: update_dial_addr_def handle_is_closing_def)
  with live assms show ?thesis by (simp split: option.splits)
next
  case fresh
  have "indexed ((map_of (tn_peers tn))(peer \<mapsto> length (tn_handles tn))) (tn_kind tn) (tn_handles tn @ [peer_handle_new cfg (tn_blob_buffers tn) now n peer])"
    using assms fresh(1,2) by (intro indexed_add) (simp_all add: registry_inv_def del: map_of_eq_Some_iff Some_eq_map_of_iff)
  with fresh(3) assms show ?thesis
    by (simp add: registry_inv_def AList.update_conv' AList.delete_conv' AList.distinct_update distinct_alist_delete)
qed

lemma on_peers:
  fixes tn :: transport_inner
  shows "tn_peers (foldl (\<lambda>tn h. on_peer h f tn) tn hs) = tn_peers tn" "tn_kind (foldl (\<lambda>tn h. on_peer h f tn) tn hs) = tn_kind tn"
    "tn_shutdown (foldl (\<lambda>tn h. on_peer h f tn) tn hs) = tn_shutdown tn"
    "length (tn_handles (foldl (\<lambda>tn h. on_peer h f tn) tn hs)) = length (tn_handles tn)"
    "i < length (tn_handles tn) \<Longrightarrow> i \<notin> set hs \<Longrightarrow> tn_handles (foldl (\<lambda>tn h. on_peer h f tn) tn hs) ! i = tn_handles tn ! i"
  by (induction hs arbitrary: tn) (simp_all add: on_peer_def)

lemma inv_on_peers:
  assumes "registry_inv tn" and "\<And>ph. ph_peer (f ph) = ph_peer ph" and "\<And>ph. handle_is_closing ph \<Longrightarrow> handle_is_closing (f ph)"
  shows "registry_inv (foldl (\<lambda>tn h. on_peer h f tn) tn hs)"
  using assms(1) by (induction hs arbitrary: tn) (simp_all add: inv_on_peer assms(2,3))

lemma closing_kept:
  "ph_peer (handle_graceful_close ph) = ph_peer ph" "handle_is_closing (handle_graceful_close ph)"
  "ph_peer (handle_shutdown ph) = ph_peer ph" "handle_is_closing ph \<Longrightarrow> handle_is_closing (handle_shutdown ph)"
  by (simp_all add: handle_graceful_close_def handle_shutdown_def handle_is_closing_def begin_close_def)

lemma registry_run_inv: "registry_run sock tn \<Longrightarrow> registry_inv tn"
proof (induction rule: registry_run.induct)
  case (created local_addr obs)
  show ?case by (simp add: registry_inv_def transport_new_def indexed_def)
next
  case (outbound tn cfg now next_callis peer)
  then show ?case by (simp add: transport_peer_handle_def inv_lookup)
next
  case (overtaken tn cfg now next_callis peer)
  then show ?case by (simp add: inv_lookup)
next
  case (inbound tn cfg now next_callis peer)
  then show ?case by (simp add: peer_handle_inbound_def inv_lookup)
next
  case (works tn h ph buffers obs)
  then show ?case using indexed_update by (simp add: registry_inv_def del: map_of_eq_Some_iff Some_eq_map_of_iff)
next
  case (starts tn)
  then show ?case by (simp add: transport_start_def registry_inv_def)
next
  case (closes tn)
  then have "registry_inv (tn\<lparr>tn_listener_shutdown := True\<rparr>)" by (simp add: registry_inv_def)
  then show ?case by (simp add: shutdown_begin_def inv_on_peers closing_kept Let_def)
next
  case (stops tn hs)
  then have "registry_inv (tn\<lparr>tn_shutdown := True, tn_handles := map transport_stop (tn_handles tn)\<rparr>)"
    by (simp add: registry_inv_def indexed_def transport_stop_def handle_is_closing_def del: map_of_eq_Some_iff Some_eq_map_of_iff)
  then show ?case by (simp add: shutdown_finish_def inv_on_peers closing_kept)
qed

text \<open>
  C15. A peer has at most one live handle, and it is the one the registry gives out: however sends, accepted streams, the work
  of the tasks and the shutdown interleave, two handles for the same address of which neither is closing are
  the same, a handle that is not closing is registered under its address, and every registered address is
  one of the transport's own kind.
\<close>

theorem one_live_handle:
  assumes "registry_run sock tn" and "i < length (tn_handles tn)" and "\<not> handle_is_closing (tn_handles tn ! i)"
  shows "map_of (tn_peers tn) (ph_peer (tn_handles tn ! i)) = Some i \<and> addr_kind (ph_peer (tn_handles tn ! i)) = tn_kind tn
    \<and> (\<forall>j < length (tn_handles tn). \<not> handle_is_closing (tn_handles tn ! j) \<and> ph_peer (tn_handles tn ! j) = ph_peer (tn_handles tn ! i) \<longrightarrow> j = i)"
proof -
  from registry_run_inv [OF assms(1)] have ix: "indexed (map_of (tn_peers tn)) (tn_kind tn) (tn_handles tn)" by (simp only: registry_inv_def)
  have at: "map_of (tn_peers tn) (ph_peer (tn_handles tn ! k)) = Some k" if "k < length (tn_handles tn)" "\<not> handle_is_closing (tn_handles tn ! k)" for k
    using indexedD(2) [OF ix that(1)] that(2) by blast
  from at [OF assms(2,3)] indexedD(1) [OF ix at [OF assms(2,3)]] at show ?thesis by (metis option.inject)
qed

text \<open>
  C24. A lookup for a send. After the shutdown it is refused; an address of another kind is refused and reported, and nothing
  else changes; otherwise the peer's live handle is given out, with its address as the one to dial, or a
  fresh one with an empty session when there was none or the old one is closing. No other handle changes. A send to a
  peer that is closing so gets a fresh handle, where \<^verbatim>\<open>docs/peering/transport-model.md\<close> (488) says that it fails at once.
\<close>

theorem send_finds_live_handle:
  assumes "registry_run sock tn" and "transport_peer_handle sock cfg now n tn peer = (r, tn')"
  shows "case r of
      Inl err \<Rightarrow> tn_peers tn' = tn_peers tn \<and> tn_handles tn' = tn_handles tn
        \<and> (if tn_shutdown tn then err = err_new PeerUnavailable \<and> tn' = tn else addr_kind peer \<noteq> tn_kind tn \<and> err_kind err = AddressMismatch)
    | Inr h \<Rightarrow> \<not> tn_shutdown tn \<and> addr_kind peer = tn_kind tn \<and> map_of (tn_peers tn') peer = Some h \<and> h < length (tn_handles tn')
        \<and> \<not> handle_is_closing (tn_handles tn' ! h) \<and> ph_peer (tn_handles tn' ! h) = peer \<and> ph_dial_addr (tn_handles tn' ! h) = Some peer
        \<and> (\<forall>i < length (tn_handles tn). i \<noteq> h \<longrightarrow> tn_handles tn' ! i = tn_handles tn ! i)
        \<and> (if \<exists>i < length (tn_handles tn). ph_peer (tn_handles tn ! i) = peer \<and> \<not> handle_is_closing (tn_handles tn ! i)
           then h < length (tn_handles tn) \<and> ph_shared (tn_handles tn' ! h) = ph_shared (tn_handles tn ! h)
           else h = length (tn_handles tn) \<and> tn_handles tn' ! h = peer_handle_new cfg (tn_blob_buffers tn) now n peer)"
proof -
  from registry_run_inv [OF assms(1)] have ix: "indexed (map_of (tn_peers tn)) (tn_kind tn) (tn_handles tn)" by (simp only: registry_inv_def)
  show ?thesis
  proof (cases "tn_shutdown tn")
    case True
    with assms(2) show ?thesis by (auto simp: transport_peer_handle_def)
  next
    case False
    then have e: "peer_handle_for sock cfg now n tn peer (Some peer) = (r, tn')" using assms(2) by (simp add: transport_peer_handle_def)
    show ?thesis
    proof (cases rule: lookup_cases [of peer tn sock cfg now n "Some peer"])
      case other
      with e False show ?thesis by auto
    next
      case (live h)
      with indexedD(1) [OF ix live(2)] e False show ?thesis
        by (auto simp: on_peer_def update_dial_addr_def handle_is_closing_def)
    next
      case fresh
      have none: "\<not> (\<exists>i < length (tn_handles tn). ph_peer (tn_handles tn ! i) = peer \<and> \<not> handle_is_closing (tn_handles tn ! i))"
        using indexedD(2) [OF ix] fresh(2) by metis
      show ?thesis using e fresh(1,3) False none by (auto simp: AList.update_conv' nth_append)
    qed
  qed
qed

section \<open>Shutting down\<close>

lemma on_peers_told:
  "i < length (tn_handles tn) \<Longrightarrow> told_to_stop (tn_handles tn ! i) \<Longrightarrow>
   told_to_stop (tn_handles (foldl (\<lambda>tn h. on_peer h handle_shutdown tn) tn hs) ! i)" for tn :: transport_inner
proof (induction hs arbitrary: tn)
  case (Cons h hs)
  then show ?case by (cases "i = h") (simp_all add: on_peer_def told_to_stop_def handle_shutdown_def)
qed simp

lemma finish_fields:
  "tn_shutdown (shutdown_finish hs tn)" "length (tn_handles (shutdown_finish hs tn)) = length (tn_handles tn)"
  "tn_kind (shutdown_finish hs tn) = tn_kind tn"
  by (simp_all add: shutdown_finish_def on_peers)

text \<open>
  C40. The end of the shutdown reaches every handle there is, in whatever way it came to be registered: also a handle that a
  send or an accepted stream made while the shutdown waited, and which it did not close, is told to stop. From
  then on a send that asks for a handle is refused. But a lookup that comes after it nevertheless, for a stream that
  was accepted before or for a send that had found the transport running, makes a handle that nobody tells: its
  subscription takes the signal for seen.
\<close>

theorem shutdown_reaches_handles:
  assumes "registry_run sock tn" and "tn' = shutdown_finish hs tn" and "addr_kind peer = tn_kind tn"
    and "\<forall>h. map_of (tn_peers tn') peer = Some h \<longrightarrow> handle_is_closing (tn_handles tn' ! h)"
    and "peer_handle_for sock cfg now n tn' peer dial = (r, tn'')"
  shows "(\<forall>i < length (tn_handles tn). told_to_stop (tn_handles tn' ! i))
    \<and> (\<forall>q. transport_peer_handle sock cfg now n tn' q = (Inl (err_new PeerUnavailable), tn'))
    \<and> (\<exists>h. r = Inr h \<and> map_of (tn_peers tn'') peer = Some h \<and> \<not> handle_is_closing (tn_handles tn'' ! h) \<and> \<not> told_to_stop (tn_handles tn'' ! h))"
proof -
  have told: "told_to_stop (tn_handles tn' ! i)" if "i < length (tn_handles tn)" for i
    unfolding assms(2) shutdown_finish_def by (rule on_peers_told) (use that in \<open>simp_all add: told_to_stop_def transport_stop_def\<close>)
  have "\<exists>h. r = Inr h \<and> map_of (tn_peers tn'') peer = Some h \<and> \<not> handle_is_closing (tn_handles tn'' ! h) \<and> \<not> told_to_stop (tn_handles tn'' ! h)"
  proof (cases rule: lookup_cases [of peer tn' sock cfg now n dial])
    case other
    with assms(2,3) show ?thesis by (simp add: finish_fields)
  next
    case (live h)
    with assms(4) show ?thesis by blast
  next
    case fresh
    with assms(5) show ?thesis by (auto simp: AList.update_conv' nth_append)
  qed
  with told show ?thesis by (simp add: assms(2) finish_fields transport_peer_handle_def)
qed

section \<open>A small registry\<close>

definition sample_transport :: transport_inner where
  "sample_transport = snd (transport_peer_handle sample_sock domus_config_default 0 1 (transport_new (AddrSocket ''here'') sample_obs) (AddrSocket ''a''))"

lemma sample_registry: "registry_run sample_sock sample_transport"
  unfolding sample_transport_def by (intro registry_run.intros)

lemma sample_transport_simps:
  "tn_handles sample_transport = [peer_handle_new domus_config_default \<lparr>bt_outbound_used = 0, bt_inbound_used = 0\<rparr> 0 1 (AddrSocket ''a'')]"
  "\<not> tn_shutdown sample_transport" "tn_kind sample_transport = KindSocket"
  by (simp_all add: sample_transport_def transport_peer_handle_def transport_new_def peer_handle_for_def ensure_peer_addr_kind_def Let_def)

theorem one_live_handle_witness:
  "map_of (tn_peers sample_transport) (AddrSocket ''a'') = Some 0"
  using one_live_handle [OF sample_registry, of 0] by (simp add: sample_transport_simps)

theorem send_finds_live_handle_witness:
  "\<exists>tn'. transport_peer_handle sample_sock domus_config_default 5 1 sample_transport (AddrSocket ''a'') = (Inr 0, tn')
     \<and> map_of (tn_peers tn') (AddrSocket ''a'') = Some 0"
proof -
  obtain r tn' where e: "transport_peer_handle sample_sock domus_config_default 5 1 sample_transport (AddrSocket ''a'') = (r, tn')" by fastforce
  have "\<exists>i < length (tn_handles sample_transport). ph_peer (tn_handles sample_transport ! i) = AddrSocket ''a'' \<and> \<not> handle_is_closing (tn_handles sample_transport ! i)"
    by (simp add: sample_transport_simps)
  with send_finds_live_handle [OF sample_registry e] e show ?thesis
    by (cases r) (auto simp: sample_transport_simps)
qed

text \<open>A peer that was never seen sends after the shutdown; the handle of peer \<open>a\<close> was told.\<close>

theorem shutdown_reaches_handles_witness:
  "told_to_stop (tn_handles (shutdown_finish [] sample_transport) ! 0)
   \<and> (\<exists>h tn'. peer_handle_inbound sample_sock domus_config_default 5 1 (shutdown_finish [] sample_transport) (AddrSocket ''b'') = (Inr h, tn')
        \<and> \<not> told_to_stop (tn_handles tn' ! h))"
proof -
  obtain r tn' where l: "peer_handle_for sample_sock domus_config_default 5 1 (shutdown_finish [] sample_transport) (AddrSocket ''b'') None = (r, tn')"
    by fastforce
  have kind: "addr_kind (AddrSocket ''b'') = tn_kind sample_transport" by (simp add: sample_transport_simps)
  have none: "\<forall>h. map_of (tn_peers (shutdown_finish [] sample_transport)) (AddrSocket ''b'') = Some h \<longrightarrow>
      handle_is_closing (tn_handles (shutdown_finish [] sample_transport) ! h)"
    by (simp add: shutdown_finish_def sample_transport_def transport_peer_handle_def transport_new_def peer_handle_for_def
        ensure_peer_addr_kind_def Let_def)
  from shutdown_reaches_handles [OF sample_registry refl kind none l] l show ?thesis
    by (auto simp: peer_handle_inbound_def sample_transport_simps)
qed

end
