(* ===== verification/Spec2Isabelle.thy ===== *)
theory Spec2Isabelle
  imports Inbound_Ring Outbound_Stream Frame Rendezvous Session Adapter_Contract Peer_Registry
begin

text \<open>
  \<^bold>\<open>Aurelia peering: a model of the messaging core\<close>

  Aurelia lets the applications of one node (a \<^emph>\<open>domus\<close>) exchange messages and blobs with the
  applications of other nodes. The crate under \<^verbatim>\<open>src/src/crates/peering/src\<close> keeps, for every peer, a
  \<^emph>\<open>session\<close> over a changing set of connections (\<^emph>\<open>calles\<close>, singular callis): primary calles carry
  messages and acknowledgements, blob calles carry the chunks of streams. Calles break and are replaced;
  the core of the program is the bookkeeping that makes a message or a blob survive that. Applications
  receive through a \<^emph>\<open>taberna\<close>, an inbox registered under an identifier.

  \<^bold>\<open>The path of a message.\<close> The sending session allocates an identifier, puts the message and its
  completion channel into the retained store of the primary dispatch manager, and waits. A callis task
  claims the most urgent item, writes it as a frame, and reports the write complete. The receiving
  session asks its dedupe window whether the identifier is new, in delivery, or remembered; a new
  message is put into the inbox of its taberna, and when the application completes it the outcome is
  remembered and answered by an acknowledgement or an error, which travels back through the retained
  store of the other side and completes the sender's channel. A blob goes the same way with one ring
  buffer at each end.

  \<^bold>\<open>Theories and the code they model\<close> (paths under \<^verbatim>\<open>src/src/crates/peering/src\<close> unless said
  otherwise).

  \<^item> \<open>Prelude\<close>: shared lemmas on association lists, machine arithmetic, traces of folds, and the
    interfaces of a machine with an invariant and of one that conserves what it is given.
  \<^item> \<open>Ids\<close>: message types, error and log identifiers and their numeric encodings
    (\<^verbatim>\<open>src/src/crates/ids/src/lib.rs\<close>, \<^verbatim>\<open>src/src/crates/data/src/lib.rs\<close>).
  \<^item> \<open>Wire\<close>: the frame header and the payload codecs of \<^verbatim>\<open>wire.rs\<close>, over byte lists.
  \<^item> \<open>Frame\<close>: \<^verbatim>\<open>transport/frame.rs\<close>, the incremental frame reader with its buffer and
    the frame writers. A stream is the list of the pieces in which its bytes arrive; a read that waits
    for more is a value, so that cancelling and resuming a read can be stated.
  \<^item> \<open>Inbound_Ring\<close>, \<open>Outbound_Ring\<close>, \<open>Outbound_Stream\<close>: \<^verbatim>\<open>ring_buffer/\<close>, the two
    ends of a blob stream: the receiving window with its base, expected chunk and completion; the
    sending window with its partial chunk, chunk states, priority of replays, sealing, and failure.
  \<^item> \<open>Retained_Lane\<close>, \<open>Retained_Store\<close>, \<open>Retained_Laws\<close>, \<open>Retained_Dispatch\<close>, \<open>Retained_Contract\<close>:
    \<^verbatim>\<open>transport/primary_dispatch/store.rs\<close> and \<^verbatim>\<open>retained.rs\<close> beside it, the slab of retained messages
    with its lanes, generation counters, claims, deadlines, replay after the loss of a callis, and shutdown.
    The first two hold the definitions, the others the invariant and what follows from it.
  \<^item> \<open>Primary_Dispatch\<close>: \<^verbatim>\<open>transport/primary_dispatch.rs\<close>, the manager over the store: enqueueing,
    claiming, the notification permits, and the channels on which senders are answered.
  \<^item> \<open>Dedupe\<close>: the dedupe window of \<^verbatim>\<open>session.rs\<close>; \<open>Session\<close>: the session itself (identifier
    allocator of \<^verbatim>\<open>message_id.rs\<close>, outgoing messages, acknowledgement waits, handshakes with a restarted
    peer, inbound messages, closing).
  \<^item> \<open>Gates\<close>: the counters shared between tasks (\<^verbatim>\<open>transport/limits.rs\<close>, and from
    \<^verbatim>\<open>transport/mod.rs\<close> the callis tracker and the blob buffer limiter), at the grain of single atomic
    operations; \<open>Rendezvous\<close>: \<^verbatim>\<open>transport/callback_rendezvous.rs\<close>, the registrations a dial-back
    waits on.
  \<^item> \<open>Taberna\<close>: \<^verbatim>\<open>taberna.rs\<close>, \<^verbatim>\<open>delivery.rs\<close> and \<^verbatim>\<open>send.rs\<close>: inboxes, the completion
    guard, the registry, remote and local delivery.
  \<^item> \<open>Blob_State\<close>, \<open>Blob_Responses\<close>, \<open>Blob_Outbound\<close>, \<open>Blob_Dispatch\<close>, \<open>Blob_Inbound\<close>, \<open>Blob_Receive\<close>,
    \<open>Blob_Manager\<close>: the blob manager of \<^verbatim>\<open>transport/blob\<close>: its tables, the response slots of the writers,
    the outbound streams and the round robin over them, requests and chunks that arrive, the idle reaper,
    the pool of blob calles, and the methods across these; \<open>Blob_Tracking\<close> and \<open>Blob_Contract\<close> hold the
    invariants and the contract over every run of the methods. \<open>Blob_Adapter\<close>: \<^verbatim>\<open>transport/blob/io.rs\<close>,
    the stream ends that applications hold, with their futures as states of a machine;
    \<open>Adapter_Contract\<close>: what an application can rely on there.
  \<^item> \<open>Callis_Inbound\<close>, \<open>Callis_Reader\<close>: the receiving half of a callis task in \<^verbatim>\<open>transport/callis.rs\<close>, its
    frame handlers, waiters, drains and cancellation, and the loop around them; \<open>Callis_Contract\<close>: what a
    drain settles. \<open>Transmitter\<close>: the two sending loops there, with the writes of their stream.
  \<^item> \<open>Handshake\<close>: \<^verbatim>\<open>transport/handshake.rs\<close>, both sides of the primary and the blob handshake.
  \<^item> \<open>Peer_State\<close>, \<open>Peer_Contract\<close>: the state task of \<^verbatim>\<open>transport/peer.rs\<close>: transitions, executors, delays,
    dialing decisions, restarts, teardown, and its runs.
  \<^item> \<open>Config\<close>: \<^verbatim>\<open>config.rs\<close>, defaults, clamping, validation, and the live store with its copies, and the
    limited log of \<^verbatim>\<open>src/src/crates/logging/src/limited.rs\<close>.
  \<^item> \<open>Observability\<close>: \<^verbatim>\<open>observability/\<close>, the actor with its metrics, events, error history and reports.
  \<^item> \<open>Peer_Send\<close>: the send entry points of \<^verbatim>\<open>PeerHandle\<close> with the reservation of a blob stream;
    \<open>Peer_Registry\<close>: from \<^verbatim>\<open>transport/mod.rs\<close>, \<^verbatim>\<open>listener.rs\<close>, \<^verbatim>\<open>accept.rs\<close> and
    \<^verbatim>\<open>peering/dispatch.rs\<close> the registry of peers, the task sets, the listener, the shutdown and the routing
    of sends, and the resolver of \<^verbatim>\<open>src/src/crates/resolver/src/lib.rs\<close>.
  \<^item> this theory: the properties that span the sender's and the receiver's ring buffers.

  \<^bold>\<open>How the code is rendered.\<close> A struct is a record, an enum a datatype, a method a function from the
  state and its arguments to the new state and its result, and an error a value of a sum type. A
  \<^verbatim>\<open>HashMap\<close> is an association list with distinct keys where the code iterates over it and a map
  otherwise; a \<^verbatim>\<open>VecDeque\<close> is a list; an \<^verbatim>\<open>Arc\<close> that is shared is the index of its object in a list.
  Counters that can wrap or saturate (\<^verbatim>\<open>u32\<close> message identifiers, generations, \<^verbatim>\<open>u64\<close> chunk numbers,
  \<^verbatim>\<open>usize\<close> sizes on a 64-bit target) are numbers with the wrap, the saturation or the checked failure
  written out; wire fields are words of their width. Where an operation awaits, what other tasks do
  meanwhile is an argument (named \<open>others\<close>, \<open>mid\<close> or \<open>env\<close>), and a property says what it assumes of it. A
  oneshot channel is a number, and sending on it is recorded in a list of completions, so that
  \<^emph>\<open>exactly once\<close> can be stated. Time is a number the operations are given.

  \<^bold>\<open>The grain of the steps.\<close> A call under one mutex is one step. Finer than that, with properties over all
  interleavings, are: the atomics of \<open>Gates\<close>; the two halves of a reservation, the bump of the shared
  counter and the entry into the table (\<open>count_bytes\<close> and \<open>enter_bytes\<close> of \<open>Blob_State\<close>), and the two
  halves of its release (\<open>reservation_release_begin\<close> of \<open>Peer_Send\<close>), since a call can be given up between
  them; the awaits of a send, of a blob sender's shutdown and of a handshake; the turns of the reader and of
  the transmitters with the points where a transmitter ends; and the steps of the registry with its shutdown.
  Coarser than the code are the following, each one step although the code takes several locks or awaits
  within it, so that what is shown of them holds at the grain of the call: the methods of the blob manager
  that visit several tables (\<open>lease_next_blob_write\<close>, \<open>fail_all_streams\<close>, \<open>add_callis\<close>, the reaper); the
  executors of the peer's state task (\<open>execute_connected_primary\<close> with the effect of a restart, and its
  siblings); \<open>queue_mark_callis\<close>, with the change of state, the clearing of the close intent and the
  notification; and the cleanup tasks that a \<^verbatim>\<open>Drop\<close> spawns (\<open>sender_stream_drop\<close>, \<open>receiver_stream_drop\<close>,
  \<open>reservation_drop\<close>), which are done at once.

  Code that is not in the repository is a parameter. The inbox queue of the \<^verbatim>\<open>caducus\<close> crate is a
  record of its operations with its documented laws as a hypothesis, instantiated in the witnesses by a
  plain queue. The application's codec, the memory of the machine and the text of a socket address are
  arguments.

  \<^bold>\<open>What is shown.\<close> For every component there is an invariant that all its operations preserve,
  and the properties read off it.
  \<^item> Blobs: when a receiver is complete, what it handed out is exactly what the sender accepted,
    whatever the network lost, repeated or reordered; the application's writes are exactly what the sending
    ring accepted and its reads what the receiving ring handed out; a chunk leased to a callis that is lost
    is sent again and a late write of it is ignored; every stream drains; insertion always returns; reserved
    bytes agree with the shared counters up to those of calls given up in their middle and of entries
    overwritten, which are counted exactly, and a stream that is shut down or dropped leaves nothing reserved; idle streams are reaped.
  \<^item> Messages: every send is answered exactly once, by acknowledgement, error, timeout, expiry, restart
    or shutdown; the store refines a plain pool of pending messages; a claim takes the most urgent
    dispatchable item; exactly the items of a lost callis return to their lanes; dispatchable work has a
    wake-up pending or an awake transmitter unless one ended with the permit it took; what the transmitters write is what a peer reads.
  \<^item> Receiving: a message is delivered once as long as it is in the dedupe window, each waiting
    duplicate is answered, a reader answers or cancels each waiter it holds, malformed frames are refused,
    and each completion guard answers once even when the application drops it.
  \<^item> Frames: the reader gives the same frames however the bytes are cut, and a cancelled read loses
    nothing.
  \<^item> Peers: both sides of a handshake agree; a fresh session is a boundary for the messages and streams of
    the old one; waiting work is dialed where there is room and an address, an impaired peer is given
    up in time, and a peer has at most one
    live handle, which is the one a send finds.
  \<^item> Configuration and observability: an accepted configuration is normal and can serve its streams, and
    the metrics and reports agree with the calles that the commands told of.
  \<^item> Shared counters: limits hold and nothing is lost in any interleaving of the atomic operations, and
    the compare-and-exchange loop is equivalent to one atomic reservation.

  Some theorems state behaviour that differs from what the code means or documents, among them: a
  completion that outlives a session restart (\<open>Dedupe\<close>), acknowledgements written to a lost callis
  (\<open>Retained_Contract\<close>), a response that an acknowledgement discards (\<open>Blob_Responses\<close>), deliveries stranded
  by a violation (\<open>Callis_Reader\<close>), the history kept for a restarted peer (\<open>Handshake\<close>), a write cut by its
  deadline that spoils the stream (\<open>Transmitter\<close>), an accepted window that cannot be read (\<open>Config\<close>), a
  stream registered with nothing reserved and a reservation lost by a call given up in its middle
  (\<open>Peer_Send\<close>, \<open>Blob_Contract\<close>), a wake-up that ends with the transmitter that took it
  (\<open>Primary_Dispatch\<close>), a waiter displaced by a copy of its message (\<open>Callis_Reader\<close>), a second dial after a
  stale close (\<open>Peer_Contract\<close>), a peer that a send opens anew while it closes and tasks that escape their
  set (\<open>Peer_Registry\<close>), a second shutdown of a failed sender that answers success, and a shutdown of a blob sender that spins on a full window
  (\<open>Adapter_Contract\<close>).

  \<^bold>\<open>Interfaces\<close> between the components are locales: a codec and an exact codec, a machine with
  an invariant and one that conserves what it is given (\<open>Prelude\<close>), counted tasks and unit tasks
  (\<open>Gates\<close>), a lane of slots (\<open>Retained_Lane\<close>), a sender of frames (\<open>Transmitter\<close>), and what the polls of a
  blob sender keep (\<open>Adapter_Contract\<close>), each interpreted on the definitions of the component that provides it.

  \<^bold>\<open>Termination and fuel.\<close> Every loop of the model is a total function. The loops of the code that
  wait for input are cut at the wait; the loops over the ring buffers and lanes end because they consume
  a list or a finite window, proved as termination measures; a loop that may go on for ever is given what
  it observes, one element for each turn, and its properties hold for every such list.

  \<^bold>\<open>Not modelled.\<close> The socket and TCP backends and TLS (\<^verbatim>\<open>socket_backend.rs\<close>, \<^verbatim>\<open>tcp_backend.rs\<close>,
  \<^verbatim>\<open>tls.rs\<close>, \<^verbatim>\<open>pkcs8.rs\<close>, \<^verbatim>\<open>auth.rs\<close>) call the operating system, the file system and the \<^verbatim>\<open>rustls\<close> library;
  the dial tasks of \<^verbatim>\<open>peer.rs\<close> connect through them and then run the handshake that is modelled. The facade
  of a domus, the adapters for other runtimes and the public re-exports (\<^verbatim>\<open>domus.rs\<close>, \<^verbatim>\<open>actix_adapter.rs\<close>,
  \<^verbatim>\<open>blob_io.rs\<close>, \<^verbatim>\<open>src/src/lib\<close>) construct the components and forward to them. Log lines are left out, and
  so are the build tasks of \<^verbatim>\<open>src/src/crates/xtask\<close>, which are not part of the running program.
\<close>

section \<open>A blob transfer from end to end\<close>

text \<open>A chunk that reaches the receiver was leased by the sender for writing, unchanged.\<close>

definition sent_by :: "chunk_write_lease list \<Rightarrow> inbound_op \<Rightarrow> bool" where
  "sent_by leases x =
     (case x of InsertChunk i d l \<Rightarrow>
        list_ex (\<lambda>lease. cl_chunk_id lease = i \<and> cl_data lease = d \<and> cl_is_last lease = l) leases
      | TakeNext \<Rightarrow> True)"

lemma sent_by_log:
  "sent_by leases x \<Longrightarrow> \<forall>lease \<in> set leases. carries_log log lease \<Longrightarrow> x = InsertChunk i d l \<Longrightarrow>
     i < length log \<and> log ! i = (d, l)"
  by (auto simp: sent_by_def list_ex_iff carries_log_def)

lemma sent_by_of_blob:
  assumes "\<forall>lease \<in> set leases. carries_log log lease" and "ends_log log"
    and "list_all (sent_by leases) ops"
  shows "list_all (of_blob (\<lambda>i. fst (log ! i)) (length log - 1)) ops"
proof -
  have flag: "snd (log ! i) \<longleftrightarrow> i = length log - 1" if "i < length log" for i
  proof (cases "i = length log - 1")
    case False
    with that have "butlast log ! i \<in> set (butlast log)" by (intro nth_mem) simp
    moreover have "butlast log ! i = log ! i" using False that by (intro nth_butlast) simp
    ultimately show ?thesis using assms(2) False by (auto simp: ends_log_def)
  qed (use assms(2) in \<open>auto simp: ends_log_def last_conv_nth\<close>)
  have "of_blob (\<lambda>i. fst (log ! i)) (length log - 1) x" if "sent_by leases x" for x
  proof (cases x)
    case (InsertChunk i d l)
    with sent_by_log [OF that assms(1)] flag [of i] show ?thesis by (fastforce simp: of_blob_def)
  qed (simp add: of_blob_def)
  with assms(3) show ?thesis by (auto simp: list_all_iff)
qed

lemma sent_by_unflagged:
  assumes "\<forall>lease \<in> set leases. carries_log log lease" and "no_last log"
    and "list_all (sent_by leases) ops"
  shows "list_all unflagged ops"
proof -
  have "unflagged x" if "sent_by leases x" for x
  proof (cases x)
    case (InsertChunk i d l)
    from sent_by_log [OF that assms(1) InsertChunk] have "(d, l) \<in> set log" by (metis nth_mem)
    with assms(2) InsertChunk show ?thesis by (auto simp: unflagged_def)
  qed (simp add: unflagged_def)
  with assms(3) show ?thesis by (auto simp: list_all_iff)
qed

text \<open>
  C1. End to end: whatever is lost, repeated, reordered or replayed between the two sides, when the
  receiver's transfer is complete the bytes its application was handed are exactly the bytes the
  sender's application was told were accepted. The hypothesis on the network is that it delivers only
  chunk frames the sender wrote.
\<close>

theorem blob_end_to_end:
  assumes sender: "outbound_new cs ws = Inr st" and ws: "ws \<le> u64_max"
    and receiver: "inbound_new cs' ws' = Inr rst"
    and network: "list_all (sent_by (leases_of st sops)) rops"
    and lim: "oc_next_chunk_id (os_chunks (foldl outbound_step st sops)) < u64_max"
    and complete: "inbound_is_complete (foldl inbound_step rst rops)"
  shows "concat (inbound_outputs rst rops) = accepted_bytes_of st sops"
proof -
  let ?fin = "foldl outbound_step st sops"
  obtain log where hist: "out_hist ?fin log (accepted_bytes_of st sops)"
    and leases: "\<forall>lease \<in> set (leases_of st sops). carries_log log lease"
    using out_hist_run [OF out_hist_new [OF sender ws], of sops] lim by auto
  have "\<not> no_last log"
    using inbound_unflagged_incomplete [OF receiver] sent_by_unflagged [OF leases _ network] complete by blast
  with hist lim have ends: "ends_log log" "concat (map fst log) = accepted_bytes_of st sops"
    by (auto simp: out_hist_def)
  have "concat (inbound_outputs rst rops) = concat (map (\<lambda>i. fst (log ! i)) [0..<Suc (length log - 1)])"
    using inbound_blob_bytes [OF receiver sent_by_of_blob [OF leases ends(1) network] complete] .
  also have "map (\<lambda>i. fst (log ! i)) [0..<Suc (length log - 1)] = map fst log"
    using ends(1) by (intro nth_equalityI) (auto simp: ends_log_def)
  finally show ?thesis using ends(2) by simp
qed

text \<open>
  A transfer of three bytes in chunks of two: the first callis is lost, the first chunk is sent again,
  and both copies arrive, after the second chunk.
\<close>

theorem blob_end_to_end_witness:
  "concat (inbound_outputs
     \<lparr>in_chunk_size = 2, in_window_size = 4, in_next_expected = 0, in_next_deliver = 0,
      in_last_chunk_id = None, in_received = []\<rparr>
     [InsertChunk 0 [1, 2] False, InsertChunk 0 [1, 2] False, InsertChunk 1 [3] True, TakeNext, TakeNext])
   = [1, 2, 3]"
proof -
  let ?st = "\<lparr>os_lifecycle = LcOpen, os_chunks = chunks_new 2 2\<rparr>"
  let ?sops = "[TryPush True [1, 2, 3], LeaseNext 7 5, MarkCallisReplayReady 7, SealPass, LeaseNext 8 6, LeaseNext 8 7]"
  let ?rst = "\<lparr>in_chunk_size = 2, in_window_size = 4, in_next_expected = 0, in_next_deliver = 0,
      in_last_chunk_id = None, in_received = []\<rparr> :: inbound_state"
  let ?rops = "[InsertChunk 0 [1, 2] False, InsertChunk 0 [1, 2] False, InsertChunk 1 [3] True, TakeNext, TakeNext]"
  have new: "outbound_new 2 2 = Inr ?st" "inbound_new 2 4 = Inr ?rst"
    by (simp_all add: outbound_new_def inbound_new_def)
  have net: "list_all (sent_by (leases_of ?st ?sops)) ?rops" by (simp add: sent_by_def ring_eval)
  have lim: "oc_next_chunk_id (os_chunks (foldl outbound_step ?st ?sops)) < u64_max"
    by (simp add: ring_eval)
  have acc: "accepted_bytes_of ?st ?sops = [1, 2, 3]" by (simp add: ring_eval)
  have fin: "inbound_is_complete (foldl inbound_step ?rst ?rops)"
    by (simp add: inbound_step_def insert_chunk_def finish_insert_def take_next_def sat_add_def
        inbound_is_complete_def advance_expected.simps)
  show ?thesis using blob_end_to_end [OF new(1) _ new(2) net lim fin] acc by simp
qed

end
